(* ===== verification/Prelude.thy ===== *)
theory Prelude
  imports Main "HOL-Library.Word"
begin

text \<open>
  Shared vocabulary of the development.

  \<^item> \<open>fault\<close> and \<open>res\<close>: every operation that the code guards with
    \<^verbatim>\<open>ION_ASSERT\<close> (or that would touch memory it does not own) returns a sum
    \<open>fault + 'a\<close>.  The models describe the development build, the one of the README's
    first design pillar ("hard checks and program termination if assumptions were not
    valid"): a failed assertion is the value \<open>Inl AssertFail\<close>.  An access outside
    an allocation, to raw storage or through a stale pointer, which the code does not
    check in any build, is \<open>Inl BadAccess\<close>.
  \<^item> \<open>bindR\<close> sequences two such operations; \<open>assertR\<close> is \<^verbatim>\<open>ION_ASSERT\<close>.
  \<^item> facts on indexed lists and modular positions that the container theories share.
\<close>

section \<open>Faults and results\<close>

datatype fault = AssertFail | BadAccess

type_synonym 'a res = "fault + 'a"

definition bindR :: "'a res \<Rightarrow> ('a \<Rightarrow> 'b res) \<Rightarrow> 'b res" where
  "bindR m f = (case m of Inl e \<Rightarrow> Inl e | Inr x \<Rightarrow> f x)"

definition assertR :: "bool \<Rightarrow> 'b res \<Rightarrow> 'b res" where
  "assertR c k = (if c then k else Inl AssertFail)"

lemma bindR_simps [simp]:
  "bindR (Inl e) f = Inl e"
  "bindR (Inr x) f = f x"
  by (simp_all add: bindR_def)

lemma bindR_eq_Inr: "bindR m f = Inr y \<longleftrightarrow> (\<exists>x. m = Inr x \<and> f x = Inr y)"
  by (cases m) auto

lemma bindR_assoc: "bindR (bindR m f) g = bindR m (\<lambda>x. bindR (f x) g)"
  by (cases m) auto

lemma assertR_eq_Inr: "assertR c k = Inr y \<longleftrightarrow> c \<and> k = Inr y"
  by (simp add: assertR_def)

lemma assertR_True [simp]: "c \<Longrightarrow> assertR c k = k"
  by (simp add: assertR_def)

lemma assertR_False [simp]: "\<not> c \<Longrightarrow> assertR c k = Inl AssertFail"
  by (simp add: assertR_def)

lemma bindR_cong [fundef_cong]:
  "m = m' \<Longrightarrow> (\<And>x. m' = Inr x \<Longrightarrow> f x = g x) \<Longrightarrow> bindR m f = bindR m' g"
  by (cases m') auto

lemma assertR_cong [fundef_cong]: "c = c' \<Longrightarrow> (c' \<Longrightarrow> k = k') \<Longrightarrow> assertR c k = assertR c' k'"
  by (simp add: assertR_def)

text \<open>
  Code whose loops need not end returns a \<open>run\<close>: \<open>None\<close> when it does not return,
  otherwise a result.  \<open>bindO\<close> sequences runs and is monotone, so that
  \<^verbatim>\<open>partial_function (option)\<close> accepts recursion through it.
\<close>

type_synonym 'a run = "'a res option"

definition bindO :: "'a run \<Rightarrow> ('a \<Rightarrow> 'b run) \<Rightarrow> 'b run" where
  "bindO m f = Option.bind m (\<lambda>r. case r of Inl e \<Rightarrow> Some (Inl e) | Inr x \<Rightarrow> f x)"

definition assertO :: "bool \<Rightarrow> 'b run \<Rightarrow> 'b run" where
  "assertO c k = (if c then k else Some (Inl AssertFail))"

lemma bindO_simps [simp]:
  "bindO None f = None"
  "bindO (Some (Inl e)) f = Some (Inl e)"
  "bindO (Some (Inr x)) f = f x"
  by (simp_all add: bindO_def)

lemma bindO_eq_Some:
  "bindO m f = Some r \<longleftrightarrow> (\<exists>e. m = Some (Inl e) \<and> r = Inl e) \<or> (\<exists>x. m = Some (Inr x) \<and> f x = Some r)"
  by (cases m) (auto simp: bindO_def split: sum.splits)

lemma assertO_eq_Some:
  "assertO c k = Some r \<longleftrightarrow> (c \<and> k = Some r) \<or> (\<not> c \<and> r = Inl AssertFail)"
  by (auto simp: assertO_def)

lemma assertO_simps [simp]:
  "c \<Longrightarrow> assertO c k = k"
  "\<not> c \<Longrightarrow> assertO c k = Some (Inl AssertFail)"
  by (simp_all add: assertO_def)

lemma bindO_cong [fundef_cong]:
  "m = m' \<Longrightarrow> (\<And>x. m' = Some (Inr x) \<Longrightarrow> f x = g x) \<Longrightarrow> bindO m f = bindO m' g"
  by (cases m') (auto simp: bindO_def split: sum.splits)

lemma bindO_mono [partial_function_mono]:
  assumes "mono_option B" "\<And>x. mono_option (C x)"
  shows "mono_option (\<lambda>f. bindO (B f) (\<lambda>x. C x f))"
  unfolding bindO_def
proof (rule bind_mono [OF assms(1)])
  fix r
  show "mono_option (\<lambda>f. case r of Inl e \<Rightarrow> Some (Inl e) | Inr x \<Rightarrow> C x f)"
    by (cases r) (use assms(2) in \<open>simp_all add: monotone_def flat_ord_def\<close>)
qed

lemma assertO_mono [partial_function_mono]:
  "mono_option B \<Longrightarrow> mono_option (\<lambda>f. assertO c (B f))"
  by (cases c) (simp_all add: monotone_def flat_ord_def)

named_theorems ion_defs \<open>the definitions of a component's small operations\<close>

section \<open>Unsigned counters of a given width\<close>

text \<open>
  The containers take their counter type as a template parameter (\<^verbatim>\<open>uint8_t\<close>,
  \<^verbatim>\<open>uint16_t\<close>, \<^verbatim>\<open>uint32_t\<close>).  A counter is a \<open>nat\<close> below \<open>2 ^ c\<close>; converting
  a wider value to the counter type keeps the low \<open>c\<close> bits, and
  \<^verbatim>\<open>SafeRangeCast\<close> asserts that nothing is lost.
\<close>

definition trunc :: "nat \<Rightarrow> nat \<Rightarrow> nat" where
  "trunc c v = v mod 2 ^ c"

definition safe_range_cast :: "nat \<Rightarrow> nat \<Rightarrow> nat res" where
  "safe_range_cast c v = assertR (trunc c v = v) (Inr (trunc c v))"

lemma trunc_id: "v < 2 ^ c \<Longrightarrow> trunc c v = v"
  by (simp add: trunc_def)

lemma trunc_less: "trunc c v < 2 ^ c"
  by (simp add: trunc_def)

lemma trunc_eq_iff: "trunc c v = v \<longleftrightarrow> v < 2 ^ c"
  using trunc_id trunc_less by metis

lemma safe_range_cast_ok: "v < 2 ^ c \<Longrightarrow> safe_range_cast c v = Inr v"
  by (simp add: safe_range_cast_def trunc_id)

lemma safe_range_cast_Inr: "safe_range_cast c v = Inr w \<longleftrightarrow> v < 2 ^ c \<and> w = v"
  by (auto simp: safe_range_cast_def assertR_def trunc_eq_iff)

section \<open>Lists addressed by index\<close>

lemma nth_take_drop_skip:
  "i < length xs - Suc 0 \<Longrightarrow> p < length xs \<Longrightarrow>
    (take p xs @ drop (Suc p) xs) ! i = xs ! (if i < p then i else Suc i)"
  by (auto simp: nth_append)

lemma list_eq_nthI:
  "length xs = n \<Longrightarrow> (\<And>i. i < n \<Longrightarrow> xs ! i = f i) \<Longrightarrow> xs = map f [0..<n]"
  by (intro nth_equalityI) auto

section \<open>Positions modulo a size\<close>

lemma mod_add_less:
  fixes n :: nat
  assumes "a < n" "b < n"
  shows "(a + b) mod n = (if a + b < n then a + b else a + b - n)"
  using assms by (simp add: mod_if)

lemma mod_add_inj:
  fixes n :: nat
  assumes "a < n" "i < n" "j < n" "(a + i) mod n = (a + j) mod n"
  shows "i = j"
  using assms by (simp add: mod_add_less split: if_splits)

end
