(* ===== verification/Algorithms.thy ===== *)
theory Algorithms
  imports Prelude "HOL-Library.Multiset"
begin

text \<open>
  \<^verbatim>\<open>ion/container/Algorithm.h\<close>: moving a run of elements inside one buffer, and keeping a
  container sorted.

  A buffer is a list of slots, \<open>'a option list\<close>: \<open>Some v\<close> is a constructed object,
  \<open>None\<close> raw storage.  Moving reads and assigns objects, so every slot of both ranges
  has to be constructed; otherwise the step is \<open>BadAccess\<close>.
\<close>

type_synonym 'a slots = "'a option list"

section \<open>Runs of constructed slots\<close>

definition live :: "'a slots \<Rightarrow> nat \<Rightarrow> nat \<Rightarrow> bool" where
  "live xs a b \<longleftrightarrow> b \<le> length xs \<and> list_all (\<lambda>x. x \<noteq> None) (take (b - a) (drop a xs))"

lemma live_iff: "a \<le> b \<Longrightarrow> live xs a b \<longleftrightarrow> b \<le> length xs \<and> (\<forall>i. a \<le> i \<and> i < b \<longrightarrow> xs ! i \<noteq> None)"
proof -
  assume ab: "a \<le> b"
  have "list_all (\<lambda>x. x \<noteq> None) (take (b - a) (drop a xs)) \<longleftrightarrow> (\<forall>i. a \<le> i \<and> i < b \<longrightarrow> xs ! i \<noteq> None)"
    if len: "b \<le> length xs"
  proof -
    have "list_all (\<lambda>x. x \<noteq> None) (take (b - a) (drop a xs)) \<longleftrightarrow>
        (\<forall>j < b - a. xs ! (a + j) \<noteq> None)"
      using len ab by (auto simp: list_all_length)
    also have "\<dots> \<longleftrightarrow> (\<forall>i. a \<le> i \<and> i < b \<longrightarrow> xs ! i \<noteq> None)"
      by (metis add_diff_inverse_nat add_less_cancel_left le_add1 less_diff_conv2 linorder_not_less add.commute ab nat_less_le diff_less_mono le_add_diff_inverse)
    finally show ?thesis .
  qed
  then show ?thesis by (auto simp: live_def)
qed

section \<open>\<^verbatim>\<open>std::copy\<close> and \<^verbatim>\<open>std::copy_backward\<close> within one buffer\<close>

fun copy_run :: "nat \<Rightarrow> nat \<Rightarrow> nat \<Rightarrow> 'a list \<Rightarrow> 'a list" where
  "copy_run s d 0 xs = xs"
| "copy_run s d (Suc k) xs = copy_run (Suc s) (Suc d) k (xs[d := xs ! s])"

fun copy_run_backward :: "nat \<Rightarrow> nat \<Rightarrow> nat \<Rightarrow> 'a list \<Rightarrow> 'a list" where
  "copy_run_backward s d 0 xs = xs"
| "copy_run_backward s d (Suc k) xs = copy_run_backward s d k (xs[d + k := xs ! (s + k)])"

lemma length_copy_run [simp]: "length (copy_run s d k xs) = length xs"
  by (induction s d k xs rule: copy_run.induct) auto

lemma length_copy_run_backward [simp]: "length (copy_run_backward s d k xs) = length xs"
  by (induction s d k xs rule: copy_run_backward.induct) auto

lemma nth_copy_run:
  "d < s \<Longrightarrow> s + k \<le> length xs \<Longrightarrow>
    copy_run s d k xs ! i = (if d \<le> i \<and> i < d + k then xs ! (i - d + s) else xs ! i)"
proof (induction s d k xs rule: copy_run.induct)
  case (2 s d k xs)
  have "copy_run s d (Suc k) xs ! i =
      (if Suc d \<le> i \<and> i < Suc d + k then xs[d := xs ! s] ! (i - Suc d + Suc s) else xs[d := xs ! s] ! i)"
    using 2 by simp
  moreover have "xs[d := xs ! s] ! (i - Suc d + Suc s) = xs ! (i - d + s)" if "Suc d \<le> i"
  proof -
    have "i - Suc d + Suc s = i - d + s" "d \<noteq> i - d + s"
      using that 2(2) by linarith+
    then show ?thesis by (metis nth_list_update_neq)
  qed
  ultimately show ?case
    using 2 by (auto simp: nth_list_update)
qed auto

lemma nth_copy_run_backward:
  "s < d \<Longrightarrow> d + k \<le> length xs \<Longrightarrow>
    copy_run_backward s d k xs ! i = (if d \<le> i \<and> i < d + k then xs ! (i - d + s) else xs ! i)"
proof (induction s d k xs rule: copy_run_backward.induct)
  case (2 s d k xs)
  have "copy_run_backward s d (Suc k) xs ! i =
      (if d \<le> i \<and> i < d + k then xs[d + k := xs ! (s + k)] ! (i - d + s)
       else xs[d + k := xs ! (s + k)] ! i)"
    using 2 by simp
  moreover have "xs[d + k := xs ! (s + k)] ! (i - d + s) = xs ! (i - d + s)" if "d \<le> i" "i < d + k"
    using that 2 by (auto simp: nth_list_update)
  ultimately show ?case
    using 2 by (auto simp: nth_list_update add.commute)
qed auto

section \<open>Moving by an offset\<close>

definition move_back_by_offset :: "nat \<Rightarrow> nat \<Rightarrow> nat \<Rightarrow> 'a slots \<Rightarrow> 'a slots res" where
  "move_back_by_offset buf off cnt xs =
     (if cnt = 0 then Inr xs
      else if live xs buf (buf + cnt) \<and> live xs (buf + off) (buf + off + cnt)
      then Inr (copy_run (buf + off) buf cnt xs) else Inl BadAccess)"

definition move_forward_by_offset :: "nat \<Rightarrow> nat \<Rightarrow> nat \<Rightarrow> 'a slots \<Rightarrow> 'a slots res" where
  "move_forward_by_offset buf off cnt xs =
     (let last = buf - off; first = last - cnt in
      if buf < off + cnt then Inl BadAccess
      else assertR (buf < first \<or> last < buf)
        (if cnt = 0 then Inr xs
         else if live xs first last \<and> live xs (buf - cnt) buf
         then Inr (copy_run_backward first (buf - cnt) cnt xs) else Inl BadAccess))"

lemma move_back_by_offset_ok:
  assumes "0 < off" "live xs buf (buf + off + cnt)"
  shows "\<exists>ys. move_back_by_offset buf off cnt xs = Inr ys \<and> length ys = length xs \<and>
    (\<forall>i. ys ! i = (if buf \<le> i \<and> i < buf + cnt then xs ! (i + off) else xs ! i))"
proof (cases "cnt = 0")
  case True
  then show ?thesis by (auto simp: move_back_by_offset_def)
next
  case False
  have L: "live xs buf (buf + cnt)" "live xs (buf + off) (buf + off + cnt)"
    using assms(2) by (auto simp: live_iff)
  have len: "buf + off + cnt \<le> length xs"
    using assms(2) by (simp add: live_def)
  have "copy_run (buf + off) buf cnt xs ! i =
      (if buf \<le> i \<and> i < buf + cnt then xs ! (i + off) else xs ! i)" for i
    using assms(1) len by (auto simp: nth_copy_run)
  then show ?thesis
    using False L by (auto simp: move_back_by_offset_def)
qed

lemma move_forward_by_offset_ok:
  assumes "0 < off" "off + cnt \<le> buf" "live xs (buf - off - cnt) buf"
  shows "\<exists>ys. move_forward_by_offset buf off cnt xs = Inr ys \<and> length ys = length xs \<and>
    (\<forall>i. ys ! i = (if buf - cnt \<le> i \<and> i < buf then xs ! (i - off) else xs ! i))"
proof (cases "cnt = 0")
  case True
  then show ?thesis using assms by (auto simp: move_forward_by_offset_def)
next
  case False
  have L: "live xs (buf - off - cnt) (buf - off)" "live xs (buf - cnt) buf"
    using assms by (auto simp: live_iff)
  have len: "buf \<le> length xs"
    using assms(3) by (simp add: live_def)
  have "copy_run_backward (buf - off - cnt) (buf - cnt) cnt xs ! i =
      (if buf - cnt \<le> i \<and> i < buf then xs ! (i - off) else xs ! i)" for i
  proof -
    have lt: "buf - off - cnt < buf - cnt" and le: "buf - cnt + cnt \<le> length xs"
      using assms False len by auto
    have "i - (buf - cnt) + (buf - off - cnt) = i - off" if "buf - cnt \<le> i" "i < buf"
      using that assms False by linarith
    then show ?thesis
      using nth_copy_run_backward [OF lt le, of i] assms(2) by auto
  qed
  then show ?thesis
    using False L assms by (auto simp: move_forward_by_offset_def Let_def)
qed

section \<open>Sorted insertion\<close>

text \<open>
  \<^verbatim>\<open>std::lower_bound\<close> on a sorted sequence: the number of elements below the key.
\<close>

definition lower_bound :: "'a::linorder list \<Rightarrow> 'a \<Rightarrow> nat" where
  "lower_bound xs v = length (takeWhile (\<lambda>x. x < v) xs)"

definition insert_at :: "nat \<Rightarrow> 'a \<Rightarrow> 'a list \<Rightarrow> 'a list" where
  "insert_at p v xs = take p xs @ v # drop p xs"

definition insert_sorted :: "'a::linorder list \<Rightarrow> 'a \<Rightarrow> bool \<Rightarrow> 'a list res" where
  "insert_sorted impl v allow_duplicates =
     (if impl = [] \<or> last impl < v then Inr (impl @ [v])
      else let p = lower_bound impl v in
        if allow_duplicates \<or> \<not> (impl ! p = v)
        then assertR (allow_duplicates \<or> v \<notin> set impl) (Inr (insert_at p v impl))
        else Inr impl)"

fun insert_sorted_rest :: "'a::linorder list \<Rightarrow> 'a list \<Rightarrow> 'a list" where
  "insert_sorted_rest impl [] = impl"
| "insert_sorted_rest impl (v # vs) =
     insert_sorted_rest (if last impl < v then impl @ [v] else insert_at (lower_bound impl v) v impl) vs"

definition insert_sorted_all :: "'a::linorder list \<Rightarrow> 'a list \<Rightarrow> 'a list res" where
  "insert_sorted_all impl source =
     (case source of [] \<Rightarrow> Inr impl
      | v # vs \<Rightarrow> bindR (insert_sorted impl v True) (\<lambda>impl'. Inr (insert_sorted_rest impl' vs)))"

lemma insert_at_lower_bound:
  "insert_at (lower_bound xs v) v xs = takeWhile (\<lambda>x. x < v) xs @ v # dropWhile (\<lambda>x. x < v) xs"
  by (simp add: insert_at_def lower_bound_def takeWhile_eq_take [symmetric] dropWhile_eq_drop [symmetric])

lemma sorted_dropWhile_ge: "sorted xs \<Longrightarrow> x \<in> set (dropWhile (\<lambda>x. x < v) xs) \<Longrightarrow> v \<le> x" for v :: "'a::linorder"
  by (induction xs) (auto split: if_splits)

lemma sorted_insert_at:
  "sorted xs \<Longrightarrow> sorted (insert_at (lower_bound xs v) v xs)"
proof -
  assume s: "sorted xs"
  have lo: "x < v" if "x \<in> set (takeWhile (\<lambda>x. x < v) xs)" for x
    using that by (blast dest: set_takeWhileD)
  have hi: "v \<le> y" if "y \<in> set (dropWhile (\<lambda>x. x < v) xs)" for y
    using s that by (rule sorted_dropWhile_ge)
  have "x \<le> y" if "x \<in> set (takeWhile (\<lambda>x. x < v) xs)" "y \<in> set (dropWhile (\<lambda>x. x < v) xs)" for x y
    using lo [OF that(1)] hi [OF that(2)] by simp
  then show ?thesis
    using s lo hi by (simp add: insert_at_lower_bound sorted_append sorted_takeWhile sorted_dropWhile less_imp_le)
qed

lemma mset_insert_at: "mset (insert_at p v xs) = add_mset v (mset xs)"
proof -
  have "mset xs = mset (take p xs) + mset (drop p xs)"
    by (metis append_take_drop_id mset_append)
  then show ?thesis by (simp add: insert_at_def)
qed

lemma sorted_snoc_less: "sorted xs \<Longrightarrow> xs = [] \<or> last xs < v \<Longrightarrow> sorted (xs @ [v])" for v :: "'a::linorder"
  by (induction xs) (auto simp: sorted_append intro: le_less_trans [THEN less_imp_le] split: if_splits dest: last_in_set)

lemma insert_sorted_rest_ok:
  "sorted impl \<Longrightarrow> sorted (insert_sorted_rest impl vs) \<and>
    mset (insert_sorted_rest impl vs) = mset impl + mset vs"
  by (induction vs arbitrary: impl) (auto simp: sorted_insert_at mset_insert_at sorted_snoc_less)


lemma sorted_last_max: "sorted xs \<Longrightarrow> x \<in> set xs \<Longrightarrow> x \<le> last xs" for x :: "'a::linorder"
  by (induction xs) auto

lemma lower_bound_hit:
  fixes v :: "'a::linorder"
  assumes "sorted xs" "\<not> (xs = [] \<or> last xs < v)"
  shows "xs ! lower_bound xs v = v \<longleftrightarrow> v \<in> set xs"
proof -
  have "lower_bound xs v < length xs"
    using assms(2) unfolding lower_bound_def
    by (metis last_in_set length_takeWhile_le linorder_not_less nat_less_le set_takeWhileD takeWhile_eq_all_conv takeWhile_eq_take take_all_iff)
  moreover from this have "dropWhile (\<lambda>x. x < v) xs = xs ! lower_bound xs v # drop (Suc (lower_bound xs v)) xs"
    by (simp add: lower_bound_def dropWhile_eq_drop Cons_nth_drop_Suc)
  moreover have "x = v" if "v \<in> set (x # ys)" "sorted (x # ys)" "\<not> x < v" for x ys
    using that by auto
  moreover have "v \<in> set xs \<longleftrightarrow> v \<in> set (dropWhile (\<lambda>x. x < v) xs)"
    by (metis UnE order_less_irrefl set_append set_dropWhileD set_takeWhileD takeWhile_dropWhile_id)
  moreover have "sorted (dropWhile (\<lambda>x. x < v) xs)" "\<not> hd (dropWhile (\<lambda>x. x < v) xs) < v \<or> dropWhile (\<lambda>x. x < v) xs = []"
    using assms(1) sorted_dropWhile hd_dropWhile [of "\<lambda>x. x < v" xs] dropWhile_eq_Nil_conv by metis+
  ultimately show ?thesis
    by (metis list.distinct(1) list.sel(1) list.set_intros(1))
qed

lemma insert_sorted_dup:
  assumes "sorted impl"
  shows "\<exists>impl'. insert_sorted impl v True = Inr impl' \<and> sorted impl' \<and> mset impl' = add_mset v (mset impl)"
  using assms by (auto simp: insert_sorted_def Let_def sorted_snoc_less sorted_insert_at mset_insert_at)

lemma insert_sorted_nodup:
  assumes "sorted impl"
  shows "\<exists>impl'. insert_sorted impl v False = Inr impl' \<and> sorted impl' \<and>
    (if v \<in> set impl then impl' = impl else mset impl' = add_mset v (mset impl))"
proof (cases "impl = [] \<or> last impl < v")
  case True
  then have "v \<notin> set impl"
    using sorted_last_max [OF assms] by fastforce
  then show ?thesis
    using True assms by (auto simp: insert_sorted_def sorted_snoc_less)
next
  case False
  then show ?thesis
    using assms lower_bound_hit [OF assms, of v]
    by (auto simp: insert_sorted_def Let_def sorted_insert_at mset_insert_at)
qed

lemma insert_sorted_all_ok:
  assumes "sorted impl"
  shows "\<exists>impl'. insert_sorted_all impl source = Inr impl' \<and> sorted impl' \<and> mset impl' = mset impl + mset source"
proof (cases source)
  case (Cons v vs)
  obtain w where "insert_sorted impl v True = Inr w" "sorted w" "mset w = add_mset v (mset impl)"
    using insert_sorted_dup [OF assms] by blast
  then show ?thesis
    using Cons insert_sorted_rest_ok [of w vs] by (simp add: insert_sorted_all_def)
qed (use assms in \<open>simp add: insert_sorted_all_def\<close>)

section \<open>Properties\<close>

text \<open>
  On a sorted container \<open>InsertSorted\<close> adds the value and keeps the order; with
  duplicates disallowed it leaves a container that already holds the value as it is, and its
  assertion never fires.  \<open>InsertSortedAll\<close> merges any number of values, in any order.
\<close>

theorem insert_sorted_keeps_order:
  assumes "sorted impl"
  shows "(\<exists>impl'. insert_sorted impl v True = Inr impl' \<and> sorted impl' \<and> mset impl' = add_mset v (mset impl)) \<and>
    (\<exists>impl'. insert_sorted impl v False = Inr impl' \<and> sorted impl' \<and>
      (if v \<in> set impl then impl' = impl else mset impl' = add_mset v (mset impl))) \<and>
    (\<exists>impl'. insert_sorted_all impl source = Inr impl' \<and> sorted impl' \<and> mset impl' = mset impl + mset source)"
  using insert_sorted_dup [OF assms] insert_sorted_nodup [OF assms] insert_sorted_all_ok [OF assms] by blast

theorem insert_sorted_keeps_order_witness:
  "\<exists>impl'. insert_sorted [1, 3, 5 :: nat] 4 False = Inr impl' \<and> sorted impl' \<and> mset impl' = {#1, 3, 4, 5#}"
  using insert_sorted_keeps_order [of "[1, 3, 5 :: nat]" 4] by (auto simp: add_mset_commute)

end
