(* ===== verification/StaticBuffers.thy ===== *)
theory StaticBuffers
  imports Algorithms
begin

text \<open>
  \<^verbatim>\<open>ion/container/StaticRawBuffer.h\<close> (\<open>AlignedStorage\<close>, \<open>StaticBuffer\<close>) and
  \<^verbatim>\<open>ion/container/StaticVector.h\<close>.

  A \<open>StaticBuffer<TValue, TSize>\<close> is its slot list: the list has length \<open>TSize\<close>, and slot
  \<open>i\<close> is \<open>Some v\<close> exactly where the development build's \<open>mIsInit[i]\<close> is set.  A
  \<open>StaticVector\<close> is the element count and its buffer; \<open>sv_view\<close> is the sequence it stands
  for, and every operation is shown to act on that sequence as its name says.
\<close>

section \<open>StaticBuffer\<close>

definition sb_new :: "nat \<Rightarrow> 'a slots" where
  "sb_new n = replicate n None"

definition sb_get :: "nat \<Rightarrow> 'a slots \<Rightarrow> 'a res" where
  "sb_get i b = assertR (i < length b) (case b ! i of None \<Rightarrow> Inl AssertFail | Some v \<Rightarrow> Inr v)"

definition sb_set :: "nat \<Rightarrow> 'a \<Rightarrow> 'a slots \<Rightarrow> 'a slots res" where
  "sb_set i v b = assertR (i < length b) (assertR (b ! i \<noteq> None) (Inr (b[i := Some v])))"

definition sb_insert :: "nat \<Rightarrow> 'a \<Rightarrow> 'a slots \<Rightarrow> 'a slots res" where
  "sb_insert i v b =
     (if i < length b then assertR (b ! i = None) (Inr (b[i := Some v])) else Inl BadAccess)"

definition sb_erase :: "nat \<Rightarrow> 'a slots \<Rightarrow> 'a slots res" where
  "sb_erase i b =
     (if i < length b then assertR (b ! i \<noteq> None) (Inr (b[i := None])) else Inl BadAccess)"

fun sb_erase_tail :: "nat \<Rightarrow> nat \<Rightarrow> 'a slots \<Rightarrow> 'a slots res" where
  "sb_erase_tail 0 sz b = Inr b"
| "sb_erase_tail (Suc k) sz b = bindR (sb_erase (sz - Suc k) b) (sb_erase_tail k sz)"

definition sb_erase_fill_in :: "nat \<Rightarrow> nat \<Rightarrow> nat \<Rightarrow> 'a slots \<Rightarrow> 'a slots res" where
  "sb_erase_fill_in start fin sz b =
     (if start \<le> fin \<and> fin \<le> sz
      then bindR (move_back_by_offset start (fin - start) (sz - fin) b)
             (sb_erase_tail (fin - start) sz)
      else Inl BadAccess)"

definition sb_clear :: "'a slots \<Rightarrow> 'a slots" where
  "sb_clear b = replicate (length b) None"

section \<open>StaticVector\<close>

record 'a svec =
  sv_num :: nat
  sv_data :: "'a slots"

definition sv_new :: "nat \<Rightarrow> 'a svec" where
  "sv_new n = \<lparr>sv_num = 0, sv_data = sb_new n\<rparr>"

definition sv_ok :: "'a svec \<Rightarrow> bool" where
  "sv_ok v \<longleftrightarrow> sv_num v \<le> length (sv_data v) \<and>
     (\<forall>i < length (sv_data v). sv_data v ! i \<noteq> None \<longleftrightarrow> i < sv_num v)"

definition sv_view :: "'a svec \<Rightarrow> 'a list" where
  "sv_view v = map the (take (sv_num v) (sv_data v))"

definition sv_add :: "'a \<Rightarrow> 'a svec \<Rightarrow> 'a svec res" where
  "sv_add x v = assertR (sv_num v < length (sv_data v))
     (bindR (sb_insert (sv_num v) x (sv_data v))
       (\<lambda>d. Inr (v\<lparr>sv_data := d, sv_num := sv_num v + 1\<rparr>)))"

definition sv_pop :: "'a svec \<Rightarrow> 'a svec res" where
  "sv_pop v = assertR (sv_num v \<noteq> 0)
     (bindR (sb_erase (sv_num v - 1) (sv_data v))
       (\<lambda>d. Inr (v\<lparr>sv_data := d, sv_num := sv_num v - 1\<rparr>)))"

definition sv_get :: "nat \<Rightarrow> 'a svec \<Rightarrow> 'a res" where
  "sv_get i v = assertR (i < sv_num v) (sb_get i (sv_data v))"

definition sv_back :: "'a svec \<Rightarrow> 'a res" where
  \<comment> \<open>on an empty vector the unsigned index wraps to the largest value, which is out of range\<close>
  "sv_back v = (if sv_num v = 0 then Inl AssertFail else sb_get (sv_num v - 1) (sv_data v))"

definition sv_front :: "'a svec \<Rightarrow> 'a res" where
  "sv_front v = sb_get 0 (sv_data v)"

definition sv_swap :: "nat \<Rightarrow> nat \<Rightarrow> 'a slots \<Rightarrow> 'a slots res" where
  "sv_swap i j b = bindR (sb_get i b) (\<lambda>x. bindR (sb_get j b)
     (\<lambda>y. bindR (sb_set i y b) (sb_set j x)))"

definition sv_remove :: "nat \<Rightarrow> 'a svec \<Rightarrow> 'a svec res" where
  "sv_remove i v = assertR (i < sv_num v)
     (if i \<noteq> sv_num v - 1
      then bindR (sv_swap i (sv_num v - 1) (sv_data v)) (\<lambda>d. sv_pop (v\<lparr>sv_data := d\<rparr>))
      else sv_pop v)"

definition sv_erase :: "nat \<Rightarrow> 'a svec \<Rightarrow> 'a svec res" where
  "sv_erase pos v = assertR (0 < sv_num v)
     (if pos = sv_num v - 1 then sv_pop v
      else bindR (sb_erase_fill_in pos (pos + 1) (sv_num v) (sv_data v))
             (\<lambda>d. Inr (v\<lparr>sv_data := d, sv_num := sv_num v - 1\<rparr>)))"

fun sv_pop_n :: "nat \<Rightarrow> 'a svec \<Rightarrow> 'a svec res" where
  "sv_pop_n 0 v = Inr v"
| "sv_pop_n (Suc k) v = bindR (sv_pop v) (sv_pop_n k)"

fun sv_add_list :: "'a list \<Rightarrow> 'a svec \<Rightarrow> 'a svec res" where
  "sv_add_list [] v = Inr v"
| "sv_add_list (x # xs) v = bindR (sv_add x v) (sv_add_list xs)"

definition sv_clear :: "bool \<Rightarrow> 'a svec \<Rightarrow> 'a svec res" where
  \<comment> \<open>\<open>triv\<close>: the element type is trivially destructible\<close>
  "sv_clear triv v =
     (if triv then Inr (v\<lparr>sv_data := sb_clear (sv_data v), sv_num := 0\<rparr>)
      else sv_pop_n (sv_num v) v)"

definition sv_resize :: "'a \<Rightarrow> nat \<Rightarrow> 'a svec \<Rightarrow> 'a svec res" where
  \<comment> \<open>\<open>dflt\<close>: what the element type's default constructor makes\<close>
  "sv_resize dflt n v =
     bindR (sv_pop_n (sv_num v - n) v)
       (\<lambda>v'. sv_add_list (replicate (n - sv_num v') dflt) v')"

fun sv_copy_loop :: "nat \<Rightarrow> 'a svec \<Rightarrow> 'a svec \<Rightarrow> 'a svec res" where
  "sv_copy_loop 0 other v = Inr v"
| "sv_copy_loop (Suc k) other v =
     bindR (sv_get (sv_num v) other) (\<lambda>x. bindR (sv_add x v) (sv_copy_loop k other))"

definition sv_assign :: "bool \<Rightarrow> 'a svec \<Rightarrow> 'a svec \<Rightarrow> 'a svec res" where
  "sv_assign triv other v =
     bindR (sv_clear triv v) (\<lambda>v'. sv_copy_loop (sv_num other - sv_num v') other v')"

definition sv_move_assign :: "bool \<Rightarrow> 'a svec \<Rightarrow> 'a svec \<Rightarrow> ('a svec \<times> 'a svec) res" where
  "sv_move_assign triv other v =
     bindR (sv_assign triv other v) (\<lambda>v'. bindR (sv_clear triv other) (\<lambda>o'. Inr (v', o')))"

definition sv_is_empty :: "'a svec \<Rightarrow> bool" where
  "sv_is_empty v \<longleftrightarrow> sv_num v = 0"

definition sv_is_full :: "'a svec \<Rightarrow> bool" where
  "sv_is_full v \<longleftrightarrow> sv_num v = length (sv_data v)"

section \<open>The invariant and the view\<close>

lemma sv_new_ok [simp]: "sv_ok (sv_new n)" "sv_view (sv_new n) = []"
  by (simp_all add: sv_new_def sv_ok_def sv_view_def sb_new_def)

lemma length_sv_view [simp]: "sv_ok v \<Longrightarrow> length (sv_view v) = sv_num v"
  by (simp add: sv_ok_def sv_view_def)

lemma sv_ok_slot: "sv_ok v \<Longrightarrow> i < sv_num v \<Longrightarrow> sv_data v ! i = Some (sv_view v ! i)"
  by (auto simp: sv_ok_def sv_view_def)

lemma sv_ok_num: "sv_ok v \<Longrightarrow> sv_num v \<le> length (sv_data v)"
  by (simp add: sv_ok_def)

lemma sv_view_eqI:
  "sv_num v = length xs \<Longrightarrow> length xs \<le> length (sv_data v) \<Longrightarrow>
    (\<And>i. i < length xs \<Longrightarrow> sv_data v ! i = Some (xs ! i)) \<Longrightarrow> sv_view v = xs"
  by (intro nth_equalityI) (auto simp: sv_view_def)

lemma sv_add_ok:
  assumes "sv_ok v" "sv_num v < length (sv_data v)"
  shows "\<exists>v'. sv_add x v = Inr v' \<and> sv_ok v' \<and> sv_view v' = sv_view v @ [x] \<and>
    length (sv_data v') = length (sv_data v)"
proof -
  have "sv_data v ! sv_num v = None"
    using assms by (auto simp: sv_ok_def)
  then have "sv_add x v = Inr (v\<lparr>sv_data := (sv_data v)[sv_num v := Some x], sv_num := sv_num v + 1\<rparr>)"
    using assms(2) by (simp add: sv_add_def sb_insert_def)
  moreover have "sv_ok (v\<lparr>sv_data := (sv_data v)[sv_num v := Some x], sv_num := sv_num v + 1\<rparr>)"
    using assms by (auto simp: sv_ok_def nth_list_update)
  moreover have "sv_view (v\<lparr>sv_data := (sv_data v)[sv_num v := Some x], sv_num := sv_num v + 1\<rparr>) = sv_view v @ [x]"
    using assms(2) by (simp add: sv_view_def take_Suc_conv_app_nth)
  ultimately show ?thesis by simp
qed

lemma sv_add_full: "sv_num v = length (sv_data v) \<Longrightarrow> sv_add x v = Inl AssertFail"
  by (simp add: sv_add_def)

lemma sv_pop_ok:
  assumes "sv_ok v" "sv_num v \<noteq> 0"
  shows "\<exists>v'. sv_pop v = Inr v' \<and> sv_ok v' \<and> sv_view v' = butlast (sv_view v) \<and>
    length (sv_data v') = length (sv_data v)"
proof -
  let ?v = "v\<lparr>sv_data := (sv_data v)[sv_num v - 1 := None], sv_num := sv_num v - 1\<rparr>"
  have le: "sv_num v \<le> length (sv_data v)"
    using assms(1) by (rule sv_ok_num)
  have "sv_data v ! (sv_num v - 1) \<noteq> None"
    using assms sv_ok_slot [OF assms(1), of "sv_num v - 1"] by auto
  then have "sv_pop v = Inr ?v"
    using assms(2) le by (simp add: sv_pop_def sb_erase_def)
  moreover have "sv_ok ?v"
    using assms le by (auto simp: sv_ok_def nth_list_update)
  moreover have "sv_view ?v = butlast (sv_view v)"
    using le assms(2) by (simp add: sv_view_def butlast_take flip: map_butlast)
  ultimately show ?thesis by simp
qed

lemma sv_pop_empty: "sv_num v = 0 \<Longrightarrow> sv_pop v = Inl AssertFail"
  by (simp add: sv_pop_def)

lemma sv_get_ok:
  assumes "sv_ok v" shows "sv_get i v = (if i < sv_num v then Inr (sv_view v ! i) else Inl AssertFail)"
  using assms sv_ok_slot [OF assms, of i] sv_ok_num [OF assms]
  by (auto simp: sv_get_def sb_get_def)

lemma sv_back_ok: "sv_ok v \<Longrightarrow> sv_num v \<noteq> 0 \<Longrightarrow> sv_back v = Inr (last (sv_view v))"
proof -
  assume v: "sv_ok v" "sv_num v \<noteq> 0"
  have "sv_data v ! (sv_num v - 1) = Some (sv_view v ! (sv_num v - 1))" "sv_num v - 1 < length (sv_data v)"
    using v sv_ok_slot [of v "sv_num v - 1"] sv_ok_num [of v] by auto
  moreover have "sv_view v \<noteq> []"
    using v length_sv_view by fastforce
  then have "last (sv_view v) = sv_view v ! (sv_num v - 1)"
    using v by (simp add: last_conv_nth)
  ultimately show ?thesis
    using v(2) by (simp add: sv_back_def sb_get_def)
qed

lemma sv_pop_n_ok:
  "sv_ok v \<Longrightarrow> k \<le> sv_num v \<Longrightarrow> \<exists>v'. sv_pop_n k v = Inr v' \<and> sv_ok v' \<and>
    sv_view v' = take (sv_num v - k) (sv_view v) \<and> length (sv_data v') = length (sv_data v)"
proof (induction k arbitrary: v)
  case (Suc k)
  obtain w where w: "sv_pop v = Inr w" "sv_ok w" "sv_view w = butlast (sv_view v)"
      "length (sv_data w) = length (sv_data v)"
    using sv_pop_ok [OF Suc.prems(1)] Suc.prems(2) by auto
  have num: "sv_num w = sv_num v - 1"
    using w Suc.prems by (metis length_butlast length_sv_view)
  have "k \<le> sv_num w"
    using num Suc.prems(2) by simp
  from Suc.IH [OF w(2) this] obtain v' where "sv_pop_n k w = Inr v'" "sv_ok v'"
      "sv_view v' = take (sv_num w - k) (sv_view w)" "length (sv_data v') = length (sv_data w)"
    by blast
  then show ?case
    using w num Suc.prems by (auto simp: butlast_conv_take)
qed simp

lemma sv_add_list_ok:
  "sv_ok v \<Longrightarrow> sv_num v + length xs \<le> length (sv_data v) \<Longrightarrow>
    \<exists>v'. sv_add_list xs v = Inr v' \<and> sv_ok v' \<and> sv_view v' = sv_view v @ xs \<and>
      length (sv_data v') = length (sv_data v)"
proof (induction xs arbitrary: v)
  case (Cons x xs)
  obtain w where w: "sv_add x v = Inr w" "sv_ok w" "sv_view w = sv_view v @ [x]"
      "length (sv_data w) = length (sv_data v)"
    using sv_add_ok [OF Cons.prems(1)] Cons.prems(2) by auto
  have "sv_num w = Suc (sv_num v)"
    using w Cons.prems(1) by (metis length_append_singleton length_sv_view)
  then show ?case
    using Cons.IH [OF w(2)] w Cons.prems(2) by auto
qed simp

lemma sb_erase_tail_1: "0 < sz \<Longrightarrow> sb_erase_tail 1 sz b = sb_erase (sz - 1) b"
  by (simp add: bindR_def split: sum.split)

lemma sv_erase_ok:
  assumes v: "sv_ok v" and pos: "pos < sv_num v"
  shows "\<exists>v'. sv_erase pos v = Inr v' \<and> sv_ok v' \<and>
    sv_view v' = take pos (sv_view v) @ drop (Suc pos) (sv_view v) \<and>
    length (sv_data v') = length (sv_data v)"
proof (cases "pos = sv_num v - 1")
  case True
  then show ?thesis
    using sv_pop_ok [OF v] pos v by (auto simp: sv_erase_def butlast_conv_take)
next
  case False
  let ?n = "sv_num v" and ?d = "sv_data v"
  have le: "?n \<le> length ?d" using v by (rule sv_ok_num)
  have slot: "?d ! i = Some (sv_view v ! i)" if "i < ?n" for i
    using sv_ok_slot [OF v that] .
  have "live ?d pos ?n"
    using le pos slot by (auto simp: live_iff)
  then obtain ys where ys: "move_back_by_offset pos 1 (?n - (pos + 1)) ?d = Inr ys" "length ys = length ?d"
      and nth: "\<And>i. ys ! i = (if pos \<le> i \<and> i < pos + (?n - (pos + 1)) then ?d ! (i + 1) else ?d ! i)"
    using move_back_by_offset_ok [of 1 ?d pos "?n - (pos + 1)"] pos by auto
  have last: "ys ! (?n - 1) \<noteq> None"
    using nth [of "?n - 1"] slot [of "?n - 1"] pos by (auto split: if_splits)
  let ?v = "v\<lparr>sv_data := ys[?n - 1 := None], sv_num := ?n - 1\<rparr>"
  have "sv_erase pos v = Inr ?v"
    using False pos ys last le
    by (simp add: sv_erase_def sb_erase_fill_in_def sb_erase_def assertR_def)
  moreover have "sv_ok ?v"
    using v pos ys slot unfolding sv_ok_def by (auto simp: nth_list_update nth split: if_splits)
  moreover have "sv_view ?v = take pos (sv_view v) @ drop (Suc pos) (sv_view v)"
    using pos le ys slot v
    by (intro sv_view_eqI) (auto simp: nth nth_append nth_list_update)
  ultimately show ?thesis using ys by simp
qed

lemma sv_remove_ok:
  assumes v: "sv_ok v" and i: "i < sv_num v"
  shows "\<exists>v'. sv_remove i v = Inr v' \<and> sv_ok v' \<and>
    sv_view v' = butlast ((sv_view v)[i := last (sv_view v)]) \<and>
    length (sv_data v') = length (sv_data v)"
proof (cases "i = sv_num v - 1")
  case True
  have "(sv_view v)[i := last (sv_view v)] = sv_view v"
    using True i v by (metis last_conv_nth length_sv_view list.size(3) list_update_id not_less_zero)
  then show ?thesis
    using True i sv_pop_ok [OF v] by (simp add: sv_remove_def)
next
  case False
  let ?n = "sv_num v" and ?d = "sv_data v" and ?x = "sv_view v ! i" and ?y = "last (sv_view v)"
  have le: "?n \<le> length ?d" using v by (rule sv_ok_num)
  have ne: "sv_view v \<noteq> []" using v i length_sv_view by fastforce
  have slots: "?d ! i = Some ?x" "?d ! (?n - 1) = Some ?y"
    using sv_ok_slot [OF v] i ne v by (auto simp: last_conv_nth)
  let ?d' = "?d[i := Some ?y, ?n - 1 := Some ?x]" and ?xs = "(sv_view v)[i := ?y, ?n - 1 := ?x]"
  have "sv_swap i (?n - 1) ?d = Inr ?d'"
    using slots i le False by (simp add: sv_swap_def sb_get_def sb_set_def nth_list_update)
  then have r: "sv_remove i v = sv_pop (v\<lparr>sv_data := ?d'\<rparr>)"
    using False i by (simp add: sv_remove_def)
  have ok: "sv_ok (v\<lparr>sv_data := ?d'\<rparr>)"
    using v i by (auto simp: sv_ok_def nth_list_update)
  have view: "sv_view (v\<lparr>sv_data := ?d'\<rparr>) = ?xs"
    using i le v sv_ok_slot [OF v] by (intro sv_view_eqI) (auto simp: nth_list_update)
  have "butlast ?xs = butlast ((sv_view v)[i := ?y])"
    using False i v by (simp add: butlast_list_update)
  then show ?thesis
    using sv_pop_ok [OF ok] i view unfolding r by auto
qed

lemma sv_clear_ok:
  assumes "sv_ok v"
  shows "\<exists>v'. sv_clear triv v = Inr v' \<and> sv_ok v' \<and> sv_view v' = [] \<and>
    sv_num v' = 0 \<and> length (sv_data v') = length (sv_data v)"
proof (cases triv)
  case True
  then show ?thesis by (auto simp: sv_clear_def sb_clear_def sv_ok_def sv_view_def)
next
  case False
  then show ?thesis
    using sv_pop_n_ok [OF assms, of "sv_num v"] length_sv_view by (fastforce simp: sv_clear_def)
qed

lemma sv_resize_ok:
  assumes v: "sv_ok v" and n: "n \<le> length (sv_data v)"
  shows "\<exists>v'. sv_resize dflt n v = Inr v' \<and> sv_ok v' \<and>
    sv_view v' = take n (sv_view v) @ replicate (n - sv_num v) dflt \<and>
    length (sv_data v') = length (sv_data v)"
proof -
  obtain w where w: "sv_pop_n (sv_num v - n) v = Inr w" "sv_ok w"
      "sv_view w = take (sv_num v - (sv_num v - n)) (sv_view v)" "length (sv_data w) = length (sv_data v)"
    using sv_pop_n_ok [OF v, of "sv_num v - n"] by auto
  have num: "sv_num w = min n (sv_num v)"
    using w v by (metis diff_diff_cancel diff_le_self length_sv_view length_take min.commute min_def nat_le_linear diff_is_0_eq diff_zero)
  have view: "sv_view w = take n (sv_view v)"
    using w(3) v by (cases "n \<le> sv_num v") auto
  obtain v' where "sv_add_list (replicate (n - sv_num w) dflt) w = Inr v'" "sv_ok v'"
      "sv_view v' = sv_view w @ replicate (n - sv_num w) dflt" "length (sv_data v') = length (sv_data w)"
    using sv_add_list_ok [OF w(2), of "replicate (n - sv_num w) dflt"] num n w(4) by auto
  then show ?thesis
    using w(1,4) view num by (auto simp: sv_resize_def min_def split: if_splits)
qed

lemma sv_copy_loop_ok:
  "sv_ok v \<Longrightarrow> sv_ok other \<Longrightarrow> sv_num v + k = sv_num other \<Longrightarrow> sv_num other \<le> length (sv_data v) \<Longrightarrow>
    \<exists>v'. sv_copy_loop k other v = Inr v' \<and> sv_ok v' \<and>
      sv_view v' = sv_view v @ drop (sv_num v) (sv_view other) \<and> length (sv_data v') = length (sv_data v)"
proof (induction k arbitrary: v)
  case (Suc k)
  let ?x = "sv_view other ! sv_num v"
  obtain w where w: "sv_add ?x v = Inr w" "sv_ok w" "sv_view w = sv_view v @ [?x]"
      "length (sv_data w) = length (sv_data v)"
    using sv_add_ok [OF Suc.prems(1)] Suc.prems(3,4) by auto
  have num: "sv_num w = Suc (sv_num v)"
    using w Suc.prems(1) by (metis length_append_singleton length_sv_view)
  have "drop (sv_num v) (sv_view other) = ?x # drop (sv_num w) (sv_view other)"
    using Suc.prems num by (simp add: Cons_nth_drop_Suc)
  then show ?case
    using Suc.IH [OF w(2) Suc.prems(2)] w num Suc.prems by (auto simp: sv_get_ok)
qed simp

lemma sv_assign_ok:
  assumes v: "sv_ok v" and o: "sv_ok other" and fits: "sv_num other \<le> length (sv_data v)"
  shows "\<exists>v'. sv_assign triv other v = Inr v' \<and> sv_ok v' \<and> sv_view v' = sv_view other \<and>
    length (sv_data v') = length (sv_data v)"
proof -
  obtain w where w: "sv_clear triv v = Inr w" "sv_ok w" "sv_view w = []" "sv_num w = 0"
      "length (sv_data w) = length (sv_data v)"
    using sv_clear_ok [OF v] by blast
  show ?thesis
    using sv_copy_loop_ok [OF w(2) o, of "sv_num other"] w fits by (auto simp: sv_assign_def)
qed


section \<open>Properties\<close>

definition svec12 :: "nat svec" where
  "svec12 = \<lparr>sv_num = 2, sv_data = [Some 1, Some 2, None]\<rparr>"

lemma svec12_ok: "sv_ok svec12" "sv_view svec12 = [1, 2]"
  by (auto simp: sv_ok_def sv_view_def svec12_def less_Suc_eq numeral_eq_Suc)

text \<open>
  A \<open>StaticVector\<close> is a sequence of at most \<open>TSize\<close> elements: \<open>Add\<close> appends while there
  is room and fails its assertion when full, \<open>Pop\<close> removes the last element, \<open>Erase\<close>
  keeps the order, \<open>Remove\<close> puts the last element in the gap, \<open>Resize\<close> truncates or pads,
  copy assignment copies; each leaves every slot below the size constructed and no other.
\<close>

theorem svec_refines_sequence:
  assumes "sv_ok v"
  shows "(sv_num v < length (sv_data v) \<longrightarrow> (\<exists>v'. sv_add x v = Inr v' \<and> sv_ok v' \<and> sv_view v' = sv_view v @ [x])) \<and>
    (sv_num v = length (sv_data v) \<longrightarrow> sv_add x v = Inl AssertFail) \<and>
    (sv_num v \<noteq> 0 \<longrightarrow> sv_back v = Inr (last (sv_view v)) \<and>
      (\<exists>v'. sv_pop v = Inr v' \<and> sv_ok v' \<and> sv_view v' = butlast (sv_view v))) \<and>
    (i < sv_num v \<longrightarrow> sv_get i v = Inr (sv_view v ! i) \<and>
      (\<exists>v'. sv_erase i v = Inr v' \<and> sv_ok v' \<and> sv_view v' = take i (sv_view v) @ drop (Suc i) (sv_view v)) \<and>
      (\<exists>v'. sv_remove i v = Inr v' \<and> sv_ok v' \<and> sv_view v' = butlast ((sv_view v)[i := last (sv_view v)]))) \<and>
    (n \<le> length (sv_data v) \<longrightarrow>
      (\<exists>v'. sv_resize dflt n v = Inr v' \<and> sv_ok v' \<and> sv_view v' = take n (sv_view v) @ replicate (n - sv_num v) dflt)) \<and>
    (sv_ok w \<and> sv_num w \<le> length (sv_data v) \<longrightarrow>
      (\<exists>v'. sv_assign triv w v = Inr v' \<and> sv_ok v' \<and> sv_view v' = sv_view w))"
  using sv_add_ok [OF assms, of x] sv_add_full [of v x] sv_back_ok [OF assms] sv_pop_ok [OF assms]
    sv_get_ok [OF assms, of i] sv_erase_ok [OF assms, of i] sv_remove_ok [OF assms, of i]
    sv_resize_ok [OF assms, of n dflt] sv_assign_ok [OF assms, of w triv]
  by (metis (full_types))

theorem svec_refines_sequence_witness:
  "\<exists>v'. sv_erase 0 svec12 = Inr v' \<and> sv_view v' = [2]"
proof -
  have n: "0 < sv_num svec12" by (simp add: svec12_def)
  show ?thesis
    using svec_refines_sequence [OF svec12_ok(1), of 0 0 0 0 svec12 True] n unfolding svec12_ok(2) by auto
qed

end
