(* ===== verification/Interfaces.thy ===== *)
theory Interfaces
  imports Prelude
begin

text \<open>
  The contracts that several components of the library share, as locales.

  \<open>fifo_buffer\<close> is what a producer/consumer pair relies on: appending at the back,
  taking from the front, and how much still fits.  The ring buffers and the queues of
  \<^verbatim>\<open>ion/concurrency\<close> interpret it on their own models; the client fact
  \<open>fifo\<close> (what goes in comes out, once, in order) is proved here once.
\<close>

section \<open>Driving a buffer through a whole run\<close>

fun push_all :: "('a \<Rightarrow> 's \<Rightarrow> 's res) \<Rightarrow> 'a list \<Rightarrow> 's \<Rightarrow> 's res" where
  "push_all push [] s = Inr s"
| "push_all push (x # xs) s = bindR (push x s) (push_all push xs)"

fun pop_many :: "('s \<Rightarrow> ('a \<times> 's) res) \<Rightarrow> nat \<Rightarrow> 's \<Rightarrow> ('a list \<times> 's) res" where
  "pop_many pop 0 s = Inr ([], s)"
| "pop_many pop (Suc k) s =
     bindR (pop s) (\<lambda>(x, s'). bindR (pop_many pop k s') (\<lambda>(xs, s''). Inr (x # xs, s'')))"

locale fifo_buffer =
  fixes ok :: "'s \<Rightarrow> bool"
    and view :: "'s \<Rightarrow> 'a list"
    and fits :: "'s \<Rightarrow> nat \<Rightarrow> bool"
    and push :: "'a \<Rightarrow> 's \<Rightarrow> 's res"
    and pop :: "'s \<Rightarrow> ('a \<times> 's) res"
  assumes push_law: "ok s \<Longrightarrow> fits s (Suc k) \<Longrightarrow>
      \<exists>s'. push x s = Inr s' \<and> ok s' \<and> view s' = view s @ [x] \<and> fits s' k"
    and pop_law: "ok s \<Longrightarrow> view s = x # xs \<Longrightarrow>
      \<exists>s'. pop s = Inr (x, s') \<and> ok s' \<and> view s' = xs"
begin

lemma push_all_ok:
  "ok s \<Longrightarrow> fits s (length xs) \<Longrightarrow>
    \<exists>s'. push_all push xs s = Inr s' \<and> ok s' \<and> view s' = view s @ xs"
proof (induction xs arbitrary: s)
  case (Cons x xs)
  obtain s1 where "push x s = Inr s1" "ok s1" "view s1 = view s @ [x]" "fits s1 (length xs)"
    using push_law [OF Cons.prems(1), of "length xs" x] Cons.prems(2) by auto
  then show ?case
    using Cons.IH [of s1] by auto
qed simp

lemma pop_many_ok:
  "ok s \<Longrightarrow> view s = xs @ ys \<Longrightarrow>
    \<exists>s'. pop_many pop (length xs) s = Inr (xs, s') \<and> ok s' \<and> view s' = ys"
proof (induction xs arbitrary: s)
  case (Cons x xs)
  obtain s1 where "pop s = Inr (x, s1)" "ok s1" "view s1 = xs @ ys"
    using pop_law [OF Cons.prems(1), of x "xs @ ys"] Cons.prems(2) by auto
  then show ?case
    using Cons.IH [of s1] by auto
qed simp

lemma fifo:
  assumes "ok s" "fits s (length xs)"
  shows "\<exists>s' s''. push_all push xs s = Inr s' \<and>
    pop_many pop (length (view s) + length xs) s' = Inr (view s @ xs, s'') \<and> ok s'' \<and> view s'' = []"
proof -
  obtain s' where s': "push_all push xs s = Inr s'" "ok s'" "view s' = view s @ xs"
    using push_all_ok [OF assms] by blast
  with pop_many_ok [OF s'(2), of "view s @ xs" "[]"] show ?thesis by auto
qed

end

end
