(* ===== verification/RingBuffers.thy ===== *)
theory RingBuffers
  imports StaticBuffers Interfaces
begin

text \<open>
  \<^verbatim>\<open>ion/container/RingBuffer.h\<close>: \<open>RingBuffer\<close> (a fixed ring over a \<open>StaticBuffer\<close>), its
  iterator, and \<open>DynamicRingBuffer\<close> (a ring that spills over into a \<open>Deque\<close>).

  \<open>TSize\<close> is the length of the slot list and the width of \<open>CountType\<close> is the parameter
  \<open>c\<close>; positions are computed in that type, so the sum of two of them has to fit it:
  \<open>ring_ok c\<close> demands \<open>2 * TSize \<le> 2 ^ c\<close>.  \<open>ring_view\<close> is the sequence in reading
  order.
\<close>

section \<open>RingBuffer\<close>

record 'a ring =
  rb_slots :: "'a slots"
  rb_num :: nat
  rb_read :: nat

definition rb_new :: "nat \<Rightarrow> 'a ring" where
  "rb_new n = \<lparr>rb_slots = sb_new n, rb_num = 0, rb_read = 0\<rparr>"

definition rb_cap :: "'a ring \<Rightarrow> nat" where
  "rb_cap r = length (rb_slots r)"

definition rb_mod :: "nat \<Rightarrow> 'a ring \<Rightarrow> nat \<Rightarrow> nat" where
  "rb_mod c r v = trunc c v mod rb_cap r"

definition rb_last_pos :: "nat \<Rightarrow> 'a ring \<Rightarrow> nat" where
  \<comment> \<open>\<open>Mod(mReadPos + mNumElems - 1)\<close>, the subtraction wrapping in \<open>CountType\<close>\<close>
  "rb_last_pos c r = rb_mod c r (rb_read r + rb_num r + (2 ^ c - 1))"

definition rb_get :: "nat \<Rightarrow> nat \<Rightarrow> 'a ring \<Rightarrow> 'a res" where
  "rb_get c pos r = assertR (pos < rb_cap r)
     (bindR (safe_range_cast c pos) (\<lambda>p. sb_get (rb_mod c r (rb_read r + p)) (rb_slots r)))"

definition rb_push_front :: "nat \<Rightarrow> 'a \<Rightarrow> 'a ring \<Rightarrow> 'a ring res" where
  "rb_push_front c v r = assertR (rb_num r < rb_cap r)
     (let rp = (if rb_read r \<noteq> 0 then rb_read r - 1 else trunc c (rb_cap r - 1)) in
      bindR (sb_insert rp v (rb_slots r))
        (\<lambda>s. Inr \<lparr>rb_slots = s, rb_num = rb_num r + 1, rb_read = rp\<rparr>))"

definition rb_push_back :: "nat \<Rightarrow> 'a \<Rightarrow> 'a ring \<Rightarrow> 'a ring res" where
  "rb_push_back c v r = assertR (rb_num r < rb_cap r)
     (bindR (sb_insert (rb_mod c r (rb_read r + rb_num r)) v (rb_slots r))
        (\<lambda>s. Inr (r\<lparr>rb_slots := s, rb_num := rb_num r + 1\<rparr>)))"

definition rb_front :: "'a ring \<Rightarrow> 'a res" where
  "rb_front r = sb_get (rb_read r) (rb_slots r)"

definition rb_back :: "nat \<Rightarrow> 'a ring \<Rightarrow> 'a res" where
  "rb_back c r = sb_get (rb_last_pos c r) (rb_slots r)"

definition rb_pop_front :: "nat \<Rightarrow> 'a ring \<Rightarrow> 'a ring res" where
  "rb_pop_front c r = assertR (rb_num r > 0)
     (bindR (sb_erase (rb_read r) (rb_slots r))
        (\<lambda>s. let rp = trunc c (rb_read r + 1) in
             Inr \<lparr>rb_slots = s, rb_num = rb_num r - 1, rb_read = (if rp = rb_cap r then 0 else rp)\<rparr>))"

definition rb_pop_back :: "nat \<Rightarrow> 'a ring \<Rightarrow> 'a ring res" where
  "rb_pop_back c r = assertR (rb_num r > 0)
     (bindR (sb_erase (rb_last_pos c r) (rb_slots r))
        (\<lambda>s. Inr (r\<lparr>rb_slots := s, rb_num := rb_num r - 1\<rparr>)))"

definition rb_is_empty :: "'a ring \<Rightarrow> bool" where
  "rb_is_empty r \<longleftrightarrow> rb_num r = 0"

definition rb_is_full :: "'a ring \<Rightarrow> bool" where
  "rb_is_full r \<longleftrightarrow> rb_num r = rb_cap r"

definition rb_erase :: "nat \<Rightarrow> nat \<Rightarrow> 'a ring \<Rightarrow> 'a ring res" where
  "rb_erase c pos r = assertR (pos < rb_cap r)
     (bindR (safe_range_cast 32 pos) (\<lambda>p.
        let mpos = rb_mod c r (rb_read r + p) in
        if rb_read r \<le> mpos
        then bindR (sb_get mpos (rb_slots r)) (\<lambda>_.
             bindR (move_forward_by_offset (mpos + 1) 1 (mpos - rb_read r) (rb_slots r)) (\<lambda>s.
             rb_pop_front c (r\<lparr>rb_slots := s\<rparr>)))
        else let last_pos = rb_last_pos c r in
             assertR (last_pos \<ge> mpos)
             (bindR (sb_get mpos (rb_slots r)) (\<lambda>_.
              bindR (move_back_by_offset mpos 1 (last_pos - mpos) (rb_slots r)) (\<lambda>s.
              rb_pop_back c (r\<lparr>rb_slots := s\<rparr>))))))"

fun rb_pop_front_n :: "nat \<Rightarrow> nat \<Rightarrow> 'a ring \<Rightarrow> 'a ring res" where
  "rb_pop_front_n c 0 r = Inr r"
| "rb_pop_front_n c (Suc k) r = bindR (rb_pop_front c r) (rb_pop_front_n c k)"

definition rb_clear :: "nat \<Rightarrow> bool \<Rightarrow> 'a ring \<Rightarrow> 'a ring res" where
  "rb_clear c triv r =
     (if triv then Inr (r\<lparr>rb_slots := sb_clear (rb_slots r), rb_num := 0\<rparr>)
      else rb_pop_front_n c (rb_num r) r)"

text \<open>The copy loop of the copy constructor and of the assignment operator.\<close>

fun rb_copy_loop :: "nat \<Rightarrow> 'a ring \<Rightarrow> nat \<Rightarrow> nat \<Rightarrow> 'a slots \<Rightarrow> 'a slots res" where
  "rb_copy_loop c other pos 0 s = Inr s"
| "rb_copy_loop c other pos (Suc k) s =
     (let idx = rb_mod c other (rb_read other + pos) in
      bindR (sb_get idx (rb_slots other)) (\<lambda>v.
      bindR (sb_insert idx v s) (rb_copy_loop c other (pos + 1) k)))"

definition rb_copy :: "nat \<Rightarrow> 'a ring \<Rightarrow> 'a ring res" where
  "rb_copy c other = bindR (rb_copy_loop c other 0 (rb_num other) (sb_new (rb_cap other)))
     (\<lambda>s. Inr \<lparr>rb_slots = s, rb_num = rb_num other, rb_read = rb_read other\<rparr>)"

definition rb_assign :: "nat \<Rightarrow> bool \<Rightarrow> 'a ring \<Rightarrow> 'a ring \<Rightarrow> 'a ring res" where
  "rb_assign c triv other r = bindR (rb_clear c triv r) (\<lambda>r'.
     bindR (rb_copy_loop c other 0 (rb_num other) (rb_slots r'))
       (\<lambda>s. Inr \<lparr>rb_slots = s, rb_num = rb_num other, rb_read = rb_read other\<rparr>))"

subsection \<open>The iterator\<close>

definition rb_begin :: "'a ring \<Rightarrow> nat" where
  "rb_begin r = rb_read r"

definition rb_end :: "nat \<Rightarrow> 'a ring \<Rightarrow> nat" where
  "rb_end c r = rb_mod c r (rb_read r + rb_num r + 1)"

definition rb_iter_next :: "nat \<Rightarrow> 'a ring \<Rightarrow> nat \<Rightarrow> nat" where
  "rb_iter_next c r p = rb_mod c r (p + 1)"

definition rb_iter_diff :: "'a ring \<Rightarrow> nat \<Rightarrow> nat \<Rightarrow> int" where
  "rb_iter_diff r p q = (if p > q then int p - int q else int p + (int (rb_cap r) - int q))"

text \<open>
  A loop from \<open>Begin()\<close> to \<open>End()\<close>, reading every element.  The iterator cycles through
  \<open>TSize\<close> positions and \<open>End()\<close> is one of them, so \<open>TSize\<close> steps of fuel suffice.
\<close>

fun rb_walk :: "nat \<Rightarrow> nat \<Rightarrow> 'a ring \<Rightarrow> nat \<Rightarrow> 'a list res" where
  "rb_walk c fuel r p =
     (if p = rb_end c r then Inr []
      else case fuel of 0 \<Rightarrow> Inl BadAccess
      | Suc k \<Rightarrow> bindR (sb_get p (rb_slots r)) (\<lambda>v.
          bindR (rb_walk c k r (rb_iter_next c r p)) (\<lambda>vs. Inr (v # vs))))"

declare rb_walk.simps [simp del]

definition rb_elements :: "nat \<Rightarrow> 'a ring \<Rightarrow> 'a list res" where
  "rb_elements c r = rb_walk c (rb_cap r) r (rb_begin r)"

definition rb_erase_iter :: "nat \<Rightarrow> nat \<Rightarrow> 'a ring \<Rightarrow> 'a ring res" where
  "rb_erase_iter c idx r = assertR (rb_num r > 0)
     (if idx \<ge> rb_read r then rb_erase c (idx - rb_read r) r
      else rb_erase c (idx + (rb_cap r - 1 - rb_read r)) r)"

section \<open>The invariant and the view\<close>

definition ring_pos :: "nat \<Rightarrow> nat \<Rightarrow> nat \<Rightarrow> nat" where
  "ring_pos n a i = (a + i) mod n"

definition ring_ok :: "nat \<Rightarrow> 'a ring \<Rightarrow> bool" where
  "ring_ok c r \<longleftrightarrow> 0 < rb_cap r \<and> 2 * rb_cap r \<le> 2 ^ c \<and> rb_num r \<le> rb_cap r \<and> rb_read r < rb_cap r \<and>
     (\<forall>i < rb_cap r. rb_slots r ! ring_pos (rb_cap r) (rb_read r) i \<noteq> None \<longleftrightarrow> i < rb_num r)"

definition ring_view :: "'a ring \<Rightarrow> 'a list" where
  "ring_view r = map (\<lambda>i. the (rb_slots r ! ring_pos (rb_cap r) (rb_read r) i)) [0..<rb_num r]"

lemma length_ring_view [simp]: "length (ring_view r) = rb_num r"
  by (simp add: ring_view_def)

lemma ring_pos_less [simp]: "0 < n \<Longrightarrow> ring_pos n a i < n"
  by (simp add: ring_pos_def)

lemma ring_pos_eq [simp]:
  "a < n \<Longrightarrow> i < n \<Longrightarrow> j < n \<Longrightarrow> ring_pos n a i = ring_pos n a j \<longleftrightarrow> i = j"
  by (auto simp: ring_pos_def dest: mod_add_inj)

lemma ring_pos_0 [simp]: "a < n \<Longrightarrow> ring_pos n a 0 = a"
  by (simp add: ring_pos_def)

lemma ring_pos_shift: "ring_pos n (ring_pos n a k) i = ring_pos n a (k + i)"
  by (simp add: ring_pos_def mod_add_left_eq add.assoc)

lemma ring_pos_wrap: "ring_pos n a (n + i) = ring_pos n a i"
  by (simp add: ring_pos_def flip: add.assoc) (metis add.commute mod_add_self2 add.assoc)

lemma ring_pos_cases:
  "a < n \<Longrightarrow> i < n \<Longrightarrow> ring_pos n a i = (if a + i < n then a + i else a + i - n)"
  by (simp add: ring_pos_def mod_if)

lemma ring_okD:
  assumes "ring_ok c r"
  shows "0 < rb_cap r" "2 * rb_cap r \<le> 2 ^ c" "rb_num r \<le> rb_cap r" "rb_read r < rb_cap r"
  using assms by (simp_all add: ring_ok_def)

lemma ring_slot:
  assumes "ring_ok c r" "i < rb_cap r"
  shows "rb_slots r ! ring_pos (rb_cap r) (rb_read r) i =
    (if i < rb_num r then Some (ring_view r ! i) else None)"
  using assms by (auto simp: ring_ok_def ring_view_def)

lemma ring_okI:
  assumes "rb_cap r = n" "0 < n" "2 * n \<le> 2 ^ c" "length xs \<le> n" "rb_read r < n" "rb_num r = length xs"
    and "\<And>i. i < n \<Longrightarrow> rb_slots r ! ring_pos n (rb_read r) i = (if i < length xs then Some (xs ! i) else None)"
  shows "ring_ok c r \<and> ring_view r = xs"
proof
  show "ring_ok c r" using assms by (simp add: ring_ok_def)
  show "ring_view r = xs" using assms by (intro nth_equalityI) (auto simp: ring_view_def)
qed

lemma rb_mod_pos: "ring_ok c r \<Longrightarrow> i \<le> rb_cap r \<Longrightarrow> rb_mod c r (rb_read r + i) = ring_pos (rb_cap r) (rb_read r) i"
  using ring_okD [of c r] by (simp add: rb_mod_def trunc_id ring_pos_def)

lemma rb_last_pos_eq:
  assumes "ring_ok c r" "0 < rb_num r"
  shows "rb_last_pos c r = ring_pos (rb_cap r) (rb_read r) (rb_num r - 1)"
proof -
  have "rb_read r + rb_num r + (2 ^ c - 1) = (rb_read r + (rb_num r - 1)) + 2 ^ c"
    using assms(2) by simp
  moreover have "rb_read r + (rb_num r - 1) < 2 ^ c"
    using ring_okD [OF assms(1)] assms(2) by linarith
  ultimately have "trunc c (rb_read r + rb_num r + (2 ^ c - 1)) = rb_read r + (rb_num r - 1)"
    by (metis trunc_def mod_add_self2 mod_less)
  then show ?thesis
    by (simp only: rb_last_pos_def rb_mod_def ring_pos_def)
qed

lemma rb_new_ok: "0 < n \<Longrightarrow> 2 * n \<le> 2 ^ c \<Longrightarrow> ring_ok c (rb_new n :: 'a ring) \<and> ring_view (rb_new n :: 'a ring) = []"
  by (rule ring_okI [where n = n]) (auto simp: rb_new_def rb_cap_def sb_new_def)

section \<open>Every operation acts on the view\<close>

lemma rb_push_back_ok:
  assumes r: "ring_ok c r" and room: "rb_num r < rb_cap r"
  shows "\<exists>r'. rb_push_back c v r = Inr r' \<and> ring_ok c r' \<and> ring_view r' = ring_view r @ [v] \<and>
    rb_cap r' = rb_cap r"
proof -
  let ?p = "ring_pos (rb_cap r) (rb_read r) (rb_num r)"
  let ?r = "r\<lparr>rb_slots := (rb_slots r)[?p := Some v], rb_num := rb_num r + 1\<rparr>"
  note rD = ring_okD [OF r]
  have "rb_slots r ! ?p = None"
    using ring_slot [OF r room] by simp
  moreover have "?p < length (rb_slots r)"
    using rD by (simp flip: rb_cap_def)
  ultimately have eq: "rb_push_back c v r = Inr ?r"
    using room rD by (simp add: rb_push_back_def sb_insert_def rb_mod_pos [OF r])
  have "ring_ok c ?r \<and> ring_view ?r = ring_view r @ [v]"
    using rD room by (intro ring_okI [where n = "rb_cap r"])
      (auto simp: rb_cap_def nth_list_update nth_append ring_slot [OF r, unfolded rb_cap_def] less_Suc_eq)
  then show ?thesis using eq by (simp add: rb_cap_def)
qed

lemma rb_push_front_ok:
  assumes r: "ring_ok c r" and room: "rb_num r < rb_cap r"
  shows "\<exists>r'. rb_push_front c v r = Inr r' \<and> ring_ok c r' \<and> ring_view r' = v # ring_view r \<and>
    rb_cap r' = rb_cap r"
proof -
  note rD = ring_okD [OF r]
  let ?n = "rb_cap r" and ?a = "rb_read r"
  let ?p = "ring_pos ?n ?a (?n - 1)"
  let ?r = "\<lparr>rb_slots = (rb_slots r)[?p := Some v], rb_num = rb_num r + 1, rb_read = ?p\<rparr>"
  have p: "(if ?a \<noteq> 0 then ?a - 1 else trunc c (?n - 1)) = ?p"
    using rD by (auto simp: ring_pos_cases trunc_id)
  have len: "?p < length (rb_slots r)"
    using rD by (simp flip: rb_cap_def)
  have "rb_slots r ! ?p = None"
    using ring_slot [OF r, of "?n - 1"] room rD by simp
  then have eq: "rb_push_front c v r = Inr ?r"
    using room len unfolding rb_push_front_def p by (simp add: sb_insert_def Let_def)
  have slot: "rb_slots ?r ! ring_pos ?n (rb_read ?r) i = (if i < length (v # ring_view r) then Some ((v # ring_view r) ! i) else None)"
    if "i < ?n" for i
  proof (cases i)
    case 0
    then show ?thesis using len rD by simp
  next
    case (Suc j)
    have "ring_pos ?n ?p i = ring_pos ?n ?a j"
      using ring_pos_wrap [of ?n ?a j] Suc rD by (simp add: ring_pos_shift)
    then show ?thesis
      using that Suc rD ring_slot [OF r, of j] by (simp add: nth_list_update)
  qed
  have "ring_ok c ?r \<and> ring_view ?r = v # ring_view r"
    using rD room slot by (intro ring_okI [where n = ?n]) (auto simp: rb_cap_def)
  then show ?thesis using eq by (simp add: rb_cap_def)
qed

lemma rb_push_full: "rb_is_full r \<Longrightarrow> rb_push_back c v r = Inl AssertFail \<and> rb_push_front c v r = Inl AssertFail"
  by (simp add: rb_is_full_def rb_push_back_def rb_push_front_def)

lemma rb_pop_front_ok:
  assumes r: "ring_ok c r" and ne: "0 < rb_num r"
  shows "\<exists>r'. rb_pop_front c r = Inr r' \<and> ring_ok c r' \<and> ring_view r' = tl (ring_view r) \<and>
    rb_cap r' = rb_cap r"
proof -
  note rD = ring_okD [OF r]
  let ?n = "rb_cap r" and ?a = "rb_read r"
  let ?p = "ring_pos ?n ?a 1"
  let ?r = "\<lparr>rb_slots = (rb_slots r)[?a := None], rb_num = rb_num r - 1, rb_read = ?p\<rparr>"
  have a: "rb_slots r ! ?a \<noteq> None" "?a < length (rb_slots r)"
    using ring_slot [OF r, of 0] rD ne by (simp_all flip: rb_cap_def)
  have p: "(let rp = trunc c (?a + 1) in if rp = ?n then 0 else rp) = ?p"
    using rD by (cases "?n = 1") (auto simp: ring_pos_cases trunc_id ring_pos_def)
  then have eq: "rb_pop_front c r = Inr ?r"
    using a ne by (simp add: rb_pop_front_def sb_erase_def Let_def)
  have slot: "rb_slots ?r ! ring_pos ?n (rb_read ?r) i = (if i < length (tl (ring_view r)) then Some (tl (ring_view r) ! i) else None)"
    if "i < ?n" for i
  proof (cases "Suc i = ?n")
    case True
    then have "ring_pos ?n ?p i = ?a"
      using ring_pos_wrap [of ?n ?a 0] rD by (simp add: ring_pos_shift)
    then show ?thesis
      using True rD a ne by (simp add: nth_list_update)
  next
    case False
    then show ?thesis
      using that rD ring_slot [OF r, of "Suc i"] ring_pos_eq [of ?a ?n 0 "Suc i"] ne
      by (auto simp: ring_pos_shift nth_list_update nth_tl)
  qed
  have "ring_ok c ?r \<and> ring_view ?r = tl (ring_view r)"
    using rD ne slot by (intro ring_okI [where n = ?n]) (auto simp: rb_cap_def)
  then show ?thesis using eq by (simp add: rb_cap_def)
qed

lemma rb_pop_back_ok:
  assumes r: "ring_ok c r" and ne: "0 < rb_num r"
  shows "\<exists>r'. rb_pop_back c r = Inr r' \<and> ring_ok c r' \<and> ring_view r' = butlast (ring_view r) \<and>
    rb_cap r' = rb_cap r"
proof -
  note rD = ring_okD [OF r]
  let ?p = "ring_pos (rb_cap r) (rb_read r) (rb_num r - 1)"
  let ?r = "r\<lparr>rb_slots := (rb_slots r)[?p := None], rb_num := rb_num r - 1\<rparr>"
  have "rb_slots r ! ?p \<noteq> None" "?p < length (rb_slots r)"
    using ring_slot [OF r, of "rb_num r - 1"] rD ne by (simp_all flip: rb_cap_def)
  then have eq: "rb_pop_back c r = Inr ?r"
    using ne by (simp add: rb_pop_back_def rb_last_pos_eq [OF r ne] sb_erase_def)
  have slot: "rb_slots ?r ! ring_pos (rb_cap r) (rb_read ?r) i =
      (if i < length (butlast (ring_view r)) then Some (butlast (ring_view r) ! i) else None)" if "i < rb_cap r" for i
    using that rD ne ring_slot [OF r that] by (auto simp: nth_list_update nth_butlast rb_cap_def)
  have "ring_ok c ?r \<and> ring_view ?r = butlast (ring_view r)"
    using rD ne slot by (intro ring_okI [where n = "rb_cap r"]) (auto simp: rb_cap_def)
  then show ?thesis using eq by (simp add: rb_cap_def)
qed

lemma rb_pop_empty: "rb_num r = 0 \<Longrightarrow> rb_pop_front c r = Inl AssertFail \<and> rb_pop_back c r = Inl AssertFail"
  by (simp add: rb_pop_front_def rb_pop_back_def)

lemma sb_get_Some: "i < length b \<Longrightarrow> b ! i = Some v \<Longrightarrow> sb_get i b = Inr v"
  by (simp add: sb_get_def)

lemma sb_get_None: "i < length b \<Longrightarrow> b ! i = None \<Longrightarrow> sb_get i b = Inl AssertFail"
  by (simp add: sb_get_def)

lemma rb_get_ok:
  assumes r: "ring_ok c r"
  shows "rb_get c i r = (if i < rb_num r then Inr (ring_view r ! i) else Inl AssertFail)"
proof (cases "i < rb_cap r")
  case True
  then have "rb_get c i r = sb_get (ring_pos (rb_cap r) (rb_read r) i) (rb_slots r)"
    using ring_okD [OF r] by (simp add: rb_get_def safe_range_cast_ok rb_mod_pos [OF r])
  then show ?thesis
    using ring_slot [OF r True] ring_okD [OF r] by (simp add: sb_get_def flip: rb_cap_def)
next
  case False
  then show ?thesis using ring_okD [OF r] by (simp add: rb_get_def)
qed

lemma rb_front_ok: "ring_ok c r \<Longrightarrow> 0 < rb_num r \<Longrightarrow> rb_front r = Inr (hd (ring_view r))"
  using ring_slot [of c r 0] ring_okD [of c r]
  by (simp add: rb_front_def sb_get_def hd_conv_nth flip: rb_cap_def length_greater_0_conv)

lemma rb_back_ok: "ring_ok c r \<Longrightarrow> 0 < rb_num r \<Longrightarrow> rb_back c r = Inr (last (ring_view r))"
  using ring_slot [of c r "rb_num r - 1"] ring_okD [of c r]
  by (simp add: rb_back_def rb_last_pos_eq sb_get_def last_conv_nth flip: rb_cap_def length_greater_0_conv)


subsection \<open>Erasing in the middle\<close>

lemma ring_cast32:
  assumes "ring_ok c r" "c \<le> 32" "pos < rb_cap r"
  shows "safe_range_cast 32 pos = Inr pos"
proof -
  have "(2::nat) ^ c \<le> 2 ^ 32"
    using assms(2) by (intro power_increasing) auto
  then have "pos < 2 ^ 32"
    using ring_okD(2) [OF assms(1)] assms(3) by linarith
  then show ?thesis by (rule safe_range_cast_ok)
qed

lemma rb_erase_unwrapped:
  assumes r: "ring_ok c r" and c: "c \<le> 32" and pos: "pos < rb_num r" and fit: "rb_read r + pos < rb_cap r"
  shows "\<exists>r'. rb_erase c pos r = Inr r' \<and> ring_ok c r' \<and>
    ring_view r' = take pos (ring_view r) @ drop (Suc pos) (ring_view r) \<and> rb_cap r' = rb_cap r"
proof -
  note rD = ring_okD [OF r]
  let ?n = "rb_cap r" and ?a = "rb_read r" and ?xs = "ring_view r"
  let ?m = "?a + pos"
  have pn: "pos < ?n" using pos rD by simp
  have cast: "safe_range_cast 32 pos = Inr pos"
    using ring_cast32 [OF r c pn] .
  have m: "rb_mod c r (?a + pos) = ?m"
    using rb_mod_pos [OF r, of pos] pn rD fit by (simp add: ring_pos_cases)
  have slot: "rb_slots r ! (?a + i) = Some (?xs ! i)" if "i \<le> pos" for i
    using ring_slot [OF r, of i] that pos rD fit by (simp add: ring_pos_cases)
  have nth: "rb_slots r ! k \<noteq> None" if "?a \<le> k" "k < ?m + 1" for k
    using slot [of "k - ?a"] that by auto
  have "live (rb_slots r) (?m + 1 - 1 - pos) (?m + 1)"
    using nth fit by (auto simp: live_iff simp flip: rb_cap_def)
  then obtain ys where ys: "move_forward_by_offset (?m + 1) 1 pos (rb_slots r) = Inr ys" "length ys = ?n"
      and ysn: "\<And>i. ys ! i = (if ?a + 1 \<le> i \<and> i < ?m + 1 then rb_slots r ! (i - 1) else rb_slots r ! i)"
    using move_forward_by_offset_ok [of 1 pos "?m + 1" "rb_slots r"] by (auto simp: rb_cap_def)
  let ?r = "r\<lparr>rb_slots := ys\<rparr>" and ?zs = "hd ?xs # take pos ?xs @ drop (Suc pos) ?xs"
  have e: "rb_erase c pos r = rb_pop_front c ?r"
    using pn cast m ys(1) slot [of pos] fit by (simp add: rb_erase_def sb_get_def flip: rb_cap_def)
  have sl: "ys ! ring_pos ?n ?a i = (if i < length ?zs then Some (?zs ! i) else None)" if i: "i < ?n" for i
  proof -
    consider (z) "i = 0" | (lo) "0 < i" "i \<le> pos" | (hi) "pos < i" by linarith
    then show ?thesis
    proof cases
      case z
      then show ?thesis using slot [of 0] rD ysn [of ?a] pos by (simp add: hd_conv_nth flip: length_greater_0_conv)
    next
      case lo
      then have "i - 1 < pos" "i - 1 \<le> pos" by linarith+
      then show ?thesis
        using lo slot [of "i - 1"] ysn [of "?a + i"] rD i fit pos
        by (simp add: ring_pos_cases nth_Cons' nth_append)
    next
      case hi
      then have "ys ! ring_pos ?n ?a i = rb_slots r ! ring_pos ?n ?a i"
        using ysn [of "ring_pos ?n ?a i"] rD i by (auto simp: ring_pos_cases)
      moreover have "\<not> i - 1 < pos" "0 < i" using hi by linarith+
      ultimately show ?thesis
        using hi ring_slot [OF r i] pos by (simp add: nth_Cons' nth_append)
    qed
  qed
  have ok: "ring_ok c ?r \<and> ring_view ?r = ?zs"
    using rD pos sl ys(2) by (intro ring_okI [where n = ?n]) (auto simp: rb_cap_def)
  show ?thesis
    using rb_pop_front_ok [of c ?r] ok pos ys(2) unfolding e by (auto simp: rb_cap_def)
qed

lemma rb_erase_wrapped:
  assumes r: "ring_ok c r" and c: "c \<le> 32" and pos: "pos < rb_num r" and wrap: "rb_cap r \<le> rb_read r + pos"
  shows "\<exists>r'. rb_erase c pos r = Inr r' \<and> ring_ok c r' \<and>
    ring_view r' = take pos (ring_view r) @ drop (Suc pos) (ring_view r) \<and> rb_cap r' = rb_cap r"
proof -
  note rD = ring_okD [OF r]
  let ?n = "rb_cap r" and ?a = "rb_read r" and ?xs = "ring_view r"
  let ?m = "?a + pos - ?n" and ?l = "?a + (rb_num r - 1) - ?n"
  have pn: "pos < ?n" using pos rD by simp
  have cast: "safe_range_cast 32 pos = Inr pos"
    using ring_cast32 [OF r c pn] .
  have m: "rb_mod c r (?a + pos) = ?m" "?m < ?a"
    using rb_mod_pos [OF r, of pos] pn rD wrap by (auto simp: ring_pos_cases)
  have l: "rb_last_pos c r = ?l" "?m \<le> ?l" "?l < ?a"
    using rb_last_pos_eq [OF r] pos rD wrap by (auto simp: ring_pos_cases)
  have slot: "rb_slots r ! (?a + i - ?n) = Some (?xs ! i)" if "pos \<le> i" "i < rb_num r" for i
    using ring_slot [OF r, of i] that rD wrap by (simp add: ring_pos_cases)
  have nth: "rb_slots r ! k \<noteq> None" if "?m \<le> k" "k \<le> ?l" for k
    using slot [of "k + ?n - ?a"] that wrap rD pos by auto
  have "?m + 1 + (?l - ?m) = ?l + 1"
    using l(2) by linarith
  moreover have "?l + 1 \<le> length (rb_slots r)"
    using l(3) rD by (simp flip: rb_cap_def)
  ultimately have "live (rb_slots r) ?m (?m + 1 + (?l - ?m))"
    using nth l(2) by (simp only: live_iff) (auto simp: live_iff)
  then obtain ys where ys: "move_back_by_offset ?m 1 (?l - ?m) (rb_slots r) = Inr ys" "length ys = ?n"
      and ysm: "\<And>i. ys ! i = (if ?m \<le> i \<and> i < ?m + (?l - ?m) then rb_slots r ! (i + 1) else rb_slots r ! i)"
    using move_back_by_offset_ok [of 1 "rb_slots r" ?m "?l - ?m"] by (auto simp: rb_cap_def)
  have "?m + (?l - ?m) = ?l" using l(2) by linarith
  then have ysn: "ys ! i = (if ?m \<le> i \<and> i < ?l then rb_slots r ! (i + 1) else rb_slots r ! i)" for i
    using ysm [of i] by (simp only:)
  let ?r = "r\<lparr>rb_slots := ys\<rparr>" and ?zs = "take pos ?xs @ drop (Suc pos) ?xs @ [last ?xs]"
  have e: "rb_erase c pos r = rb_pop_back c ?r"
    using pn cast m l ys(1) slot [of pos] pos rD by (simp add: rb_erase_def sb_get_def flip: rb_cap_def)
  have len: "length ?zs = rb_num r" using pos by simp
  have lastx: "last ?xs = ?xs ! (rb_num r - 1)"
    using pos by (simp add: last_conv_nth flip: length_greater_0_conv)
  have sl: "ys ! ring_pos ?n ?a i = (if i < length ?zs then Some (?zs ! i) else None)" if i: "i < ?n" for i
  proof -
    consider (lo) "i < pos" | (mid) "pos \<le> i" "i < rb_num r - 1" | (la) "i = rb_num r - 1" "pos \<le> i" | (out) "rb_num r \<le> i"
      by linarith
    then show ?thesis
    proof cases
      case lo
      then have "ys ! ring_pos ?n ?a i = rb_slots r ! ring_pos ?n ?a i"
        using ysn [of "ring_pos ?n ?a i"] rD i wrap l by (auto simp: ring_pos_cases)
      then show ?thesis using lo ring_slot [OF r i] pos by (simp add: nth_append)
    next
      case mid
      have p: "ring_pos ?n ?a i = ?a + i - ?n"
        using mid wrap rD i by (simp add: ring_pos_cases)
      have "?m \<le> ?a + i - ?n" "?a + i - ?n < ?l" "?a + i - ?n + 1 = ?a + Suc i - ?n"
        using mid wrap by linarith+
      then have "ys ! ring_pos ?n ?a i = rb_slots r ! (?a + Suc i - ?n)"
        unfolding p by (simp only: ysn) simp
      moreover have "Suc i < rb_num r" "i < rb_num r" "i - pos < rb_num r - Suc pos" "Suc (pos + (i - pos)) = Suc i"
        using mid by linarith+
      ultimately show ?thesis using mid slot [of "Suc i"] wrap pos by (simp add: nth_append)
    next
      case la
      have p: "ring_pos ?n ?a i = ?a + i - ?n"
        using la wrap rD i by (simp add: ring_pos_cases)
      have "\<not> ?a + i - ?n < ?l"
        using la wrap by linarith
      then have "ys ! ring_pos ?n ?a i = rb_slots r ! (?a + i - ?n)"
        unfolding p by (simp only: ysn) simp
      then show ?thesis using la slot [of i] pos lastx by (simp add: nth_append)
    next
      case out
      then have "ys ! ring_pos ?n ?a i = rb_slots r ! ring_pos ?n ?a i"
        using ysn [of "ring_pos ?n ?a i"] rD i wrap by (auto simp: ring_pos_cases)
      then show ?thesis using out ring_slot [OF r i] len by simp
    qed
  qed
  have ok: "ring_ok c ?r \<and> ring_view ?r = ?zs"
    using rD pos sl ys(2) by (intro ring_okI [where n = ?n]) (auto simp: rb_cap_def)
  show ?thesis
    using rb_pop_back_ok [of c ?r] ok pos ys(2) unfolding e by (auto simp: rb_cap_def butlast_append)
qed

lemma rb_erase_ok:
  assumes "ring_ok c r" "c \<le> 32" "pos < rb_num r"
  shows "\<exists>r'. rb_erase c pos r = Inr r' \<and> ring_ok c r' \<and>
    ring_view r' = take pos (ring_view r) @ drop (Suc pos) (ring_view r) \<and> rb_cap r' = rb_cap r"
  using rb_erase_unwrapped [OF assms] rb_erase_wrapped [OF assms] by (cases "rb_read r + pos < rb_cap r") auto


subsection \<open>Clearing and copying\<close>

lemma rb_pop_front_n_ok:
  "ring_ok c r \<Longrightarrow> k \<le> rb_num r \<Longrightarrow> \<exists>r'. rb_pop_front_n c k r = Inr r' \<and> ring_ok c r' \<and>
    ring_view r' = drop k (ring_view r) \<and> rb_cap r' = rb_cap r"
proof (induction k arbitrary: r)
  case (Suc k)
  obtain q where q: "rb_pop_front c r = Inr q" "ring_ok c q" "ring_view q = tl (ring_view r)" "rb_cap q = rb_cap r"
    using rb_pop_front_ok [OF Suc.prems(1)] Suc.prems(2) by auto
  have "rb_num q = rb_num r - 1"
    using q(3) by (metis length_ring_view length_tl)
  then show ?case
    using Suc.IH [OF q(2)] Suc.prems(2) q by (simp add: drop_Suc)
qed simp

lemma rb_clear_ok:
  assumes r: "ring_ok c r"
  shows "\<exists>r'. rb_clear c triv r = Inr r' \<and> ring_ok c r' \<and> ring_view r' = [] \<and> rb_cap r' = rb_cap r"
proof (cases triv)
  case True
  have "ring_ok c (r\<lparr>rb_slots := sb_clear (rb_slots r), rb_num := 0\<rparr>) \<and>
      ring_view (r\<lparr>rb_slots := sb_clear (rb_slots r), rb_num := 0\<rparr>) = []"
    using ring_okD [OF r] by (intro ring_okI [where n = "rb_cap r"]) (auto simp: rb_cap_def sb_clear_def)
  then show ?thesis using True by (simp add: rb_clear_def rb_cap_def sb_clear_def)
next
  case False
  then show ?thesis using rb_pop_front_n_ok [OF r, of "rb_num r"] by (simp add: rb_clear_def)
qed

lemma rb_copy_loop_ok:
  assumes r: "ring_ok c r"
  shows "pos + k = rb_num r \<Longrightarrow> length s = rb_cap r \<Longrightarrow>
    (\<forall>i < rb_cap r. s ! ring_pos (rb_cap r) (rb_read r) i = (if i < pos then Some (ring_view r ! i) else None)) \<Longrightarrow>
    \<exists>s'. rb_copy_loop c r pos k s = Inr s' \<and> length s' = rb_cap r \<and>
      (\<forall>i < rb_cap r. s' ! ring_pos (rb_cap r) (rb_read r) i = rb_slots r ! ring_pos (rb_cap r) (rb_read r) i)"
proof (induction k arbitrary: pos s)
  case 0
  then show ?case using ring_slot [OF r] by auto
next
  case (Suc k)
  let ?p = "ring_pos (rb_cap r) (rb_read r) pos"
  have pos: "pos < rb_cap r" "pos < rb_num r"
    using Suc.prems(1) ring_okD [OF r] by linarith+
  have get: "sb_get ?p (rb_slots r) = Inr (ring_view r ! pos)"
    using ring_slot [OF r pos(1)] pos ring_okD(1) [OF r] by (intro sb_get_Some) (auto simp flip: rb_cap_def)
  have ins: "sb_insert ?p (ring_view r ! pos) s = Inr (s[?p := Some (ring_view r ! pos)])"
    using Suc.prems(2,3) pos by (simp add: sb_insert_def)
  have "\<forall>i < rb_cap r. s[?p := Some (ring_view r ! pos)] ! ring_pos (rb_cap r) (rb_read r) i =
      (if i < pos + 1 then Some (ring_view r ! i) else None)"
    using Suc.prems(2,3) pos ring_okD(1,4) [OF r] by (auto simp: nth_list_update)
  then show ?case
    using Suc.IH [of "pos + 1" "s[?p := Some (ring_view r ! pos)]"] Suc.prems(1,2) get ins
      rb_mod_pos [OF r, of pos] pos
    by (simp add: Let_def)
qed

lemma rb_copied:
  assumes r: "ring_ok c r" and s: "length s = rb_cap r" "\<forall>i < rb_cap r. s ! i = None"
  shows "\<exists>s'. rb_copy_loop c r 0 (rb_num r) s = Inr s' \<and>
    (let r' = \<lparr>rb_slots = s', rb_num = rb_num r, rb_read = rb_read r\<rparr> in
     ring_ok c r' \<and> ring_view r' = ring_view r \<and> rb_cap r' = rb_cap r)"
proof -
  obtain s' where s': "rb_copy_loop c r 0 (rb_num r) s = Inr s'" "length s' = rb_cap r"
      "\<forall>i < rb_cap r. s' ! ring_pos (rb_cap r) (rb_read r) i = rb_slots r ! ring_pos (rb_cap r) (rb_read r) i"
    using rb_copy_loop_ok [OF r, of 0 "rb_num r" s] s ring_okD(1) [OF r] by auto
  let ?r = "\<lparr>rb_slots = s', rb_num = rb_num r, rb_read = rb_read r\<rparr>"
  have "ring_ok c ?r \<and> ring_view ?r = ring_view r"
    using s' ring_okD [OF r] ring_slot [OF r] by (intro ring_okI [where n = "rb_cap r"]) (auto simp: rb_cap_def)
  then show ?thesis using s' by (simp add: rb_cap_def)
qed

lemma rb_copy_ok:
  assumes "ring_ok c r"
  shows "\<exists>r'. rb_copy c r = Inr r' \<and> ring_ok c r' \<and> ring_view r' = ring_view r \<and> rb_cap r' = rb_cap r"
  using rb_copied [OF assms, of "sb_new (rb_cap r)"] by (auto simp: rb_copy_def sb_new_def Let_def)

lemma ring_empty_slots:
  assumes "ring_ok c r" "ring_view r = []" "i < rb_cap r"
  shows "rb_slots r ! i = None"
proof -
  have "rb_num r = 0" using assms(2) by (metis length_ring_view list.size(3))
  then have none: "rb_slots r ! ring_pos (rb_cap r) (rb_read r) j = None" if "j < rb_cap r" for j
    using ring_slot [OF assms(1) that] by simp
  let ?j = "if rb_read r \<le> i then i - rb_read r else i + rb_cap r - rb_read r"
  have "?j < rb_cap r" "ring_pos (rb_cap r) (rb_read r) ?j = i"
    using ring_okD [OF assms(1)] assms(3) by (auto simp: ring_pos_cases)
  then show ?thesis using none by metis
qed

lemma rb_assign_ok:
  assumes o: "ring_ok c other" and r: "ring_ok c r" and cap: "rb_cap r = rb_cap other"
  shows "\<exists>r'. rb_assign c triv other r = Inr r' \<and> ring_ok c r' \<and> ring_view r' = ring_view other"
proof -
  obtain q where q: "rb_clear c triv r = Inr q" "ring_ok c q" "ring_view q = []" "rb_cap q = rb_cap r"
    using rb_clear_ok [OF r] by blast
  have "length (rb_slots q) = rb_cap other" "\<forall>i < rb_cap other. rb_slots q ! i = None"
    using q cap ring_empty_slots [OF q(2,3)] by (auto simp: rb_cap_def)
  from rb_copied [OF o this] obtain s' where
    "rb_copy_loop c other 0 (rb_num other) (rb_slots q) = Inr s'"
    "ring_ok c \<lparr>rb_slots = s', rb_num = rb_num other, rb_read = rb_read other\<rparr>"
    "ring_view \<lparr>rb_slots = s', rb_num = rb_num other, rb_read = rb_read other\<rparr> = ring_view other"
    by (auto simp: Let_def)
  then show ?thesis
    using q(1) by (auto simp: rb_assign_def)
qed

subsection \<open>What a loop over the iterators sees\<close>

lemma rb_end_eq: "ring_ok c r \<Longrightarrow> rb_end c r = ring_pos (rb_cap r) (rb_read r) (rb_num r + 1)"
proof -
  assume r: "ring_ok c r"
  let ?e = "rb_read r + rb_num r + 1"
  consider "?e < 2 ^ c" | "?e = 2 * rb_cap r" "2 * rb_cap r = 2 ^ c"
    using ring_okD [OF r] by linarith
  then show ?thesis
  proof cases
    case 1
    then show ?thesis by (simp add: rb_end_def rb_mod_def trunc_id ring_pos_def)
  next
    case 2
    have "?e mod rb_cap r = 0"
      unfolding 2(1) by simp
    moreover have "trunc c ?e = 0"
      unfolding 2(1) by (simp add: trunc_def 2(2))
    ultimately show ?thesis by (simp add: rb_end_def rb_mod_def ring_pos_def)
  qed
qed

text \<open>
  \<open>End()\<close> lies one position past the first free slot, so the loop reads raw storage, or
  stops short when the ring is full or nearly full.
\<close>

lemma rb_elements_not_view:
  assumes r: "ring_ok c r"
  shows "rb_elements c r = Inr (ring_view r) \<longleftrightarrow> rb_cap r = 1 \<and> rb_num r = 0"
proof -
  note rD = ring_okD [OF r]
  have walk: "rb_walk c fuel r (ring_pos (rb_cap r) (rb_read r) i) = Inl AssertFail"
    if "i \<le> rb_num r" "rb_num r + 1 < rb_cap r" "rb_num r - i < fuel" for i fuel
    using that
  proof (induction fuel arbitrary: i)
    case (Suc k)
    have ne: "ring_pos (rb_cap r) (rb_read r) i \<noteq> rb_end c r"
      using Suc.prems rD by (simp add: rb_end_eq [OF r])
    have pos: "ring_pos (rb_cap r) (rb_read r) i < length (rb_slots r)"
      using rD by (simp flip: rb_cap_def)
    show ?case
    proof (cases "i < rb_num r")
      case True
      have "ring_pos (rb_cap r) (rb_read r) i < rb_cap r"
        using rD by simp
      then have "ring_pos (rb_cap r) (rb_read r) i + 1 < 2 ^ c"
        using rD by linarith
      then have next_: "rb_iter_next c r (ring_pos (rb_cap r) (rb_read r) i) = ring_pos (rb_cap r) (rb_read r) (Suc i)"
        by (simp add: rb_iter_next_def rb_mod_def trunc_id ring_pos_def mod_Suc_eq)
      have "sb_get (ring_pos (rb_cap r) (rb_read r) i) (rb_slots r) = Inr (ring_view r ! i)"
        using ring_slot [OF r, of i] True pos rD by (intro sb_get_Some) auto
      moreover have "rb_walk c k r (ring_pos (rb_cap r) (rb_read r) (Suc i)) = Inl AssertFail"
        using Suc.IH [of "Suc i"] Suc.prems True by simp
      ultimately show ?thesis
        using ne next_ by (simp add: rb_walk.simps [of c "Suc k"])
    next
      case False
      then have "sb_get (ring_pos (rb_cap r) (rb_read r) i) (rb_slots r) = Inl AssertFail"
        using ring_slot [OF r, of i] Suc.prems pos by (intro sb_get_None) auto
      then show ?thesis using ne by (simp add: rb_walk.simps [of c "Suc k"])
    qed
  qed simp
  consider (gap) "rb_num r + 1 < rb_cap r" | (near) "rb_num r + 1 = rb_cap r" | (full) "rb_num r = rb_cap r"
    using rD by linarith
  then show ?thesis
  proof cases
    case gap
    then have "rb_elements c r = Inl AssertFail"
      using walk [of 0 "rb_cap r"] rD by (simp add: rb_elements_def rb_begin_def)
    then show ?thesis using gap by simp
  next
    case near
    then have "rb_end c r = rb_begin r"
      using ring_pos_wrap [of "rb_cap r" "rb_read r" 0] rD by (simp add: rb_end_eq [OF r] rb_begin_def)
    then have "rb_elements c r = Inr []"
      by (simp add: rb_elements_def rb_walk.simps)
    then show ?thesis using near length_ring_view [of r] by (auto simp del: length_ring_view)
  next
    case full
    have e: "rb_end c r = ring_pos (rb_cap r) (rb_read r) 1"
      using ring_pos_wrap [of "rb_cap r" "rb_read r" 1] full by (simp add: rb_end_eq [OF r])
    show ?thesis
    proof (cases "rb_cap r = 1")
      case True
      then have "rb_elements c r = Inr []"
        using e rD by (simp add: rb_elements_def rb_walk.simps rb_begin_def ring_pos_def)
      then show ?thesis using full True length_ring_view [of r] by (auto simp del: length_ring_view)
    next
      case False
      then obtain k where k: "rb_cap r = Suc (Suc k)"
        using rD by (metis One_nat_def not0_implies_Suc not_gr0)
      have ne: "rb_begin r \<noteq> rb_end c r"
        using e rD False ring_pos_eq [of "rb_read r" "rb_cap r" 0 1] by (simp add: rb_begin_def)
      have nx: "rb_iter_next c r (rb_begin r) = rb_end c r"
        using e rb_mod_pos [OF r, of 1] rD by (simp add: rb_iter_next_def rb_begin_def)
      have "sb_get (rb_begin r) (rb_slots r) = Inr (ring_view r ! 0)"
        using ring_slot [OF r, of 0] rD full by (intro sb_get_Some) (auto simp: rb_begin_def simp flip: rb_cap_def)
      then have "rb_elements c r = Inr [ring_view r ! 0]"
        using ne nx k by (simp add: rb_elements_def rb_walk.simps [of c "Suc (Suc k)"] rb_walk.simps [of c "Suc k"])
      moreover have "[ring_view r ! 0] \<noteq> ring_view r"
        using full k length_ring_view [of r] by (metis One_nat_def Suc_inject length_Cons list.size(3) nat.distinct(1))
      ultimately show ?thesis using full k by simp
    qed
  qed
qed

text \<open>
  The position an iterator index stands for, and what erasing at that iterator removes.
\<close>

lemma rb_erase_iter_unwrapped:
  assumes "ring_ok c r" "c \<le> 32" "p < rb_num r" "rb_read r + p < rb_cap r"
  shows "rb_erase_iter c (ring_pos (rb_cap r) (rb_read r) p) r = rb_erase c p r"
  using assms ring_okD [OF assms(1)] by (simp add: rb_erase_iter_def ring_pos_cases)

lemma rb_erase_iter_wrapped:
  assumes "ring_ok c r" "c \<le> 32" "p < rb_num r" "rb_cap r \<le> rb_read r + p"
  shows "rb_erase_iter c (ring_pos (rb_cap r) (rb_read r) p) r = rb_erase c (p - 1) r"
proof -
  note rD = ring_okD [OF assms(1)]
  have "ring_pos (rb_cap r) (rb_read r) p = rb_read r + p - rb_cap r" "rb_read r + p - rb_cap r < rb_read r"
    using assms rD by (auto simp: ring_pos_cases)
  moreover have "rb_read r + p - rb_cap r + (rb_cap r - 1 - rb_read r) = p - 1"
    using assms(3,4) rD by linarith
  ultimately show ?thesis
    using assms(3) by (simp add: rb_erase_iter_def)
qed

end
