(* ===== verification/DynamicRings.thy ===== *)
theory DynamicRings
  imports RingBuffers
begin

text \<open>
  \<^verbatim>\<open>ion/container/Deque.h\<close> and \<open>DynamicRingBuffer\<close> of \<^verbatim>\<open>ion/container/RingBuffer.h\<close>.

  \<open>Deque\<close> forwards to \<open>std::deque\<close>, whose documented behaviour on a sequence is that of
  the list; reading or popping an empty one, or erasing out of range, is undefined, here
  \<open>BadAccess\<close>.  A \<open>DynamicRingBuffer\<close> holds the front of its sequence in a ring and
  the rest in a deque.
\<close>

section \<open>Deque\<close>

type_synonym 'a deque = "'a list"

definition dq_push_front :: "'a \<Rightarrow> 'a deque \<Rightarrow> 'a deque" where
  "dq_push_front v d = v # d"

definition dq_push_back :: "'a \<Rightarrow> 'a deque \<Rightarrow> 'a deque" where
  "dq_push_back v d = d @ [v]"

definition dq_front :: "'a deque \<Rightarrow> 'a res" where
  "dq_front d = (if d = [] then Inl BadAccess else Inr (hd d))"

definition dq_back :: "'a deque \<Rightarrow> 'a res" where
  "dq_back d = (if d = [] then Inl BadAccess else Inr (last d))"

definition dq_pop_front :: "'a deque \<Rightarrow> 'a deque res" where
  "dq_pop_front d = (if d = [] then Inl BadAccess else Inr (tl d))"

definition dq_pop_back :: "'a deque \<Rightarrow> 'a deque res" where
  "dq_pop_back d = (if d = [] then Inl BadAccess else Inr (butlast d))"

definition dq_get :: "nat \<Rightarrow> 'a deque \<Rightarrow> 'a res" where
  "dq_get i d = (if i < length d then Inr (d ! i) else Inl BadAccess)"

definition dq_is_empty :: "'a deque \<Rightarrow> bool" where
  "dq_is_empty d \<longleftrightarrow> d = []"

definition dq_insert :: "nat \<Rightarrow> 'a \<Rightarrow> 'a deque \<Rightarrow> 'a deque res" where
  "dq_insert i v d = (if i \<le> length d then Inr (insert_at i v d) else Inl BadAccess)"

definition dq_erase :: "nat \<Rightarrow> 'a deque \<Rightarrow> 'a deque res" where
  "dq_erase i d = (if i < length d then Inr (take i d @ drop (Suc i) d) else Inl BadAccess)"

definition dq_erase_range :: "nat \<Rightarrow> nat \<Rightarrow> 'a deque \<Rightarrow> 'a deque res" where
  "dq_erase_range i j d =
     (if i \<le> j \<and> j \<le> length d then Inr (take i d @ drop j d) else Inl BadAccess)"

section \<open>DynamicRingBuffer\<close>

record 'a dring =
  dr_over :: "'a deque"
  dr_ring :: "'a ring"

definition dr_new :: "nat \<Rightarrow> 'a dring" where
  "dr_new n = \<lparr>dr_over = [], dr_ring = rb_new n\<rparr>"

definition dr_erase :: "nat \<Rightarrow> nat \<Rightarrow> 'a dring \<Rightarrow> 'a dring res" where
  "dr_erase c pos d =
     (if \<not> rb_is_empty (dr_ring d)
      then let size = rb_num (dr_ring d) in
        if pos \<ge> size
        then bindR (dq_erase (pos - size) (dr_over d)) (\<lambda>q. Inr (d\<lparr>dr_over := q\<rparr>))
        else bindR (rb_erase c pos (dr_ring d)) (\<lambda>r. Inr (d\<lparr>dr_ring := r\<rparr>))
      else bindR (dq_erase pos (dr_over d)) (\<lambda>q. Inr (d\<lparr>dr_over := q\<rparr>)))"

definition dr_get :: "nat \<Rightarrow> nat \<Rightarrow> 'a dring \<Rightarrow> 'a res" where
  "dr_get c pos d =
     (if \<not> rb_is_empty (dr_ring d)
      then let size = rb_num (dr_ring d) in
        if pos \<ge> size then dq_get (pos - size) (dr_over d) else rb_get c pos (dr_ring d)
      else dq_get pos (dr_over d))"

definition dr_push_front :: "nat \<Rightarrow> 'a \<Rightarrow> 'a dring \<Rightarrow> 'a dring res" where
  "dr_push_front c v d =
     (if \<not> rb_is_full (dr_ring d)
      then bindR (rb_push_front c v (dr_ring d)) (\<lambda>r. Inr (d\<lparr>dr_ring := r\<rparr>))
      else bindR (rb_back c (dr_ring d)) (\<lambda>b.
           bindR (rb_pop_back c (dr_ring d)) (\<lambda>r.
           bindR (rb_push_front c v r) (\<lambda>r'.
           Inr \<lparr>dr_over = dq_push_front b (dr_over d), dr_ring = r'\<rparr>))))"

definition dr_push_back :: "nat \<Rightarrow> 'a \<Rightarrow> 'a dring \<Rightarrow> 'a dring res" where
  "dr_push_back c v d =
     (if \<not> rb_is_full (dr_ring d) \<and> dq_is_empty (dr_over d)
      then bindR (rb_push_back c v (dr_ring d)) (\<lambda>r. Inr (d\<lparr>dr_ring := r\<rparr>))
      else Inr (d\<lparr>dr_over := dq_push_back v (dr_over d)\<rparr>))"

definition dr_front :: "'a dring \<Rightarrow> 'a res" where
  "dr_front d = (if \<not> rb_is_empty (dr_ring d) then rb_front (dr_ring d) else dq_front (dr_over d))"

definition dr_back :: "nat \<Rightarrow> 'a dring \<Rightarrow> 'a res" where
  "dr_back c d = (if dq_is_empty (dr_over d) then rb_back c (dr_ring d) else dq_back (dr_over d))"

definition dr_pop_back :: "nat \<Rightarrow> 'a dring \<Rightarrow> 'a dring res" where
  "dr_pop_back c d =
     (if dq_is_empty (dr_over d)
      then bindR (rb_pop_back c (dr_ring d)) (\<lambda>r. Inr (d\<lparr>dr_ring := r\<rparr>))
      else bindR (dq_pop_back (dr_over d)) (\<lambda>q. Inr (d\<lparr>dr_over := q\<rparr>)))"

definition dr_pop_front :: "nat \<Rightarrow> 'a dring \<Rightarrow> 'a dring res" where
  "dr_pop_front c d =
     (if \<not> rb_is_empty (dr_ring d)
      then bindR (rb_pop_front c (dr_ring d)) (\<lambda>r. Inr (d\<lparr>dr_ring := r\<rparr>))
      else bindR (dq_pop_front (dr_over d)) (\<lambda>q. Inr (d\<lparr>dr_over := q\<rparr>)))"

definition dr_size :: "'a dring \<Rightarrow> nat" where
  "dr_size d = rb_num (dr_ring d) + length (dr_over d)"

definition dr_is_empty :: "'a dring \<Rightarrow> bool" where
  "dr_is_empty d \<longleftrightarrow> rb_is_empty (dr_ring d) \<and> dq_is_empty (dr_over d)"

definition dr_clear :: "nat \<Rightarrow> bool \<Rightarrow> 'a dring \<Rightarrow> 'a dring res" where
  "dr_clear c triv d = bindR (rb_clear c triv (dr_ring d)) (\<lambda>r. Inr \<lparr>dr_over = [], dr_ring = r\<rparr>)"

definition dr_ok :: "nat \<Rightarrow> 'a dring \<Rightarrow> bool" where
  "dr_ok c d \<longleftrightarrow> ring_ok c (dr_ring d)"

definition dr_view :: "'a dring \<Rightarrow> 'a list" where
  "dr_view d = ring_view (dr_ring d) @ dr_over d"

lemmas dq_defs [ion_defs] = dq_push_front_def dq_push_back_def dq_front_def dq_back_def dq_pop_front_def
  dq_pop_back_def dq_get_def dq_is_empty_def dq_insert_def dq_erase_def dq_erase_range_def

lemmas dr_defs [ion_defs] = dr_ok_def dr_view_def rb_is_empty_def rb_is_full_def dr_size_def dr_is_empty_def

lemma ring_view_Nil_iff: "ring_view r = [] \<longleftrightarrow> rb_num r = 0"
  by (metis length_ring_view length_0_conv)

lemma dr_size_eq: "dr_size d = length (dr_view d)"
  by (simp add: dr_defs)

lemma dr_is_empty_iff: "dr_is_empty d \<longleftrightarrow> dr_view d = []"
  by (simp add: dr_defs dq_defs ring_view_Nil_iff)

lemma dr_new_ok: "0 < n \<Longrightarrow> 2 * n \<le> 2 ^ c \<Longrightarrow> dr_ok c (dr_new n :: 'a dring) \<and> dr_view (dr_new n :: 'a dring) = []"
  using rb_new_ok [where 'a = 'a] by (auto simp: dr_new_def dr_defs)

lemma dr_push_back_ok:
  assumes "dr_ok c d"
  shows "\<exists>d'. dr_push_back c v d = Inr d' \<and> dr_ok c d' \<and> dr_view d' = dr_view d @ [v]"
proof (cases "rb_num (dr_ring d) < rb_cap (dr_ring d) \<and> dr_over d = []")
  case True
  then show ?thesis
    using assms rb_push_back_ok [of c "dr_ring d" v] by (auto simp: dr_push_back_def dr_defs dq_defs)
next
  case False
  then have "\<not> (\<not> rb_is_full (dr_ring d) \<and> dq_is_empty (dr_over d))"
    using assms ring_okD(3) [of c "dr_ring d"] by (auto simp: dr_defs dq_defs)
  then show ?thesis
    using assms by (auto simp: dr_push_back_def dr_defs dq_defs)
qed

lemma dr_push_front_ok:
  assumes d: "dr_ok c d"
  shows "\<exists>d'. dr_push_front c v d = Inr d' \<and> dr_ok c d' \<and> dr_view d' = v # dr_view d"
proof (cases "rb_num (dr_ring d) < rb_cap (dr_ring d)")
  case True
  then show ?thesis
    using d rb_push_front_ok [of c "dr_ring d" v] by (auto simp: dr_push_front_def dr_defs)
next
  case False
  let ?r = "dr_ring d"
  have r: "ring_ok c ?r" and full: "rb_num ?r = rb_cap ?r" and pos: "0 < rb_num ?r"
    using d False ring_okD [of c ?r] by (auto simp: dr_defs)
  obtain q where q: "rb_pop_back c ?r = Inr q" "ring_ok c q" "ring_view q = butlast (ring_view ?r)" "rb_cap q = rb_cap ?r"
    using rb_pop_back_ok [OF r pos] by blast
  have "rb_num q = rb_num ?r - 1"
    using q(3) by (metis length_butlast length_ring_view)
  then have "rb_num q < rb_cap q"
    using full pos q(4) by simp
  then obtain q' where "rb_push_front c v q = Inr q'" "ring_ok c q'" "ring_view q' = v # ring_view q"
    using rb_push_front_ok [OF q(2)] by blast
  moreover have "butlast (ring_view ?r) @ [last (ring_view ?r)] = ring_view ?r"
    using pos ring_view_Nil_iff by (metis append_butlast_last_id not_gr0)
  ultimately show ?thesis
    using q rb_back_ok [OF r pos] full
    by (simp add: dr_push_front_def dr_defs dq_defs)
qed

lemma dr_front_ok: "dr_ok c d \<Longrightarrow> dr_view d \<noteq> [] \<Longrightarrow> dr_front d = Inr (hd (dr_view d))"
  using rb_front_ok [of c "dr_ring d"] ring_view_Nil_iff [of "dr_ring d"]
  by (auto simp: dr_front_def dr_defs dq_defs)

lemma dr_back_ok: "dr_ok c d \<Longrightarrow> dr_view d \<noteq> [] \<Longrightarrow> dr_back c d = Inr (last (dr_view d))"
  using rb_back_ok [of c "dr_ring d"] ring_view_Nil_iff [of "dr_ring d"]
  by (auto simp: dr_back_def dr_defs dq_defs)

lemma dr_pop_front_ok:
  assumes "dr_ok c d" "dr_view d \<noteq> []"
  shows "\<exists>d'. dr_pop_front c d = Inr d' \<and> dr_ok c d' \<and> dr_view d' = tl (dr_view d)"
proof (cases "rb_num (dr_ring d) = 0")
  case True
  then show ?thesis
    using assms ring_view_Nil_iff [of "dr_ring d"] by (auto simp: dr_pop_front_def dr_defs dq_defs)
next
  case False
  then show ?thesis
    using assms rb_pop_front_ok [of c "dr_ring d"] ring_view_Nil_iff [of "dr_ring d"]
    by (auto simp: dr_pop_front_def dr_defs)
qed

lemma dr_pop_back_ok:
  assumes "dr_ok c d" "dr_view d \<noteq> []"
  shows "\<exists>d'. dr_pop_back c d = Inr d' \<and> dr_ok c d' \<and> dr_view d' = butlast (dr_view d)"
proof (cases "dr_over d = []")
  case True
  then have "0 < rb_num (dr_ring d)"
    using assms ring_view_Nil_iff [of "dr_ring d"] by (auto simp: dr_defs)
  then show ?thesis
    using True assms rb_pop_back_ok [of c "dr_ring d"] by (auto simp: dr_pop_back_def dr_defs dq_defs)
next
  case False
  then show ?thesis
    using assms by (auto simp: dr_pop_back_def dr_defs dq_defs butlast_append)
qed

lemma dr_get_ok:
  assumes "dr_ok c d" "i < dr_size d"
  shows "dr_get c i d = Inr (dr_view d ! i)"
  using assms rb_get_ok [of c "dr_ring d" i] ring_view_Nil_iff [of "dr_ring d"]
  by (auto simp: dr_get_def dr_defs dq_defs nth_append Let_def)

lemma dr_erase_ok:
  assumes d: "dr_ok c d" and c: "c \<le> 32" and i: "i < dr_size d"
  shows "\<exists>d'. dr_erase c i d = Inr d' \<and> dr_ok c d' \<and>
    dr_view d' = take i (dr_view d) @ drop (Suc i) (dr_view d)"
proof (cases "i < rb_num (dr_ring d)")
  case True
  then show ?thesis
    using d c rb_erase_ok [of c "dr_ring d" i] by (auto simp: dr_erase_def dr_defs Let_def)
next
  case False
  then have "i - rb_num (dr_ring d) < length (dr_over d)"
    using i by (simp add: dr_defs)
  then show ?thesis
    using False d by (auto simp: dr_erase_def dr_defs dq_defs Let_def Suc_diff_le)
qed

lemma dr_clear_ok:
  assumes "dr_ok c d"
  shows "\<exists>d'. dr_clear c triv d = Inr d' \<and> dr_ok c d' \<and> dr_view d' = []"
  using rb_clear_ok [of c "dr_ring d" triv] assms by (auto simp: dr_clear_def dr_defs)

section \<open>The FIFO contract\<close>

text \<open>Taking from the front is \<open>Front()\<close> followed by \<open>PopFront()\<close>.\<close>

definition rb_take_front :: "nat \<Rightarrow> 'a ring \<Rightarrow> ('a \<times> 'a ring) res" where
  "rb_take_front c r = bindR (rb_front r) (\<lambda>v. bindR (rb_pop_front c r) (\<lambda>r'. Inr (v, r')))"

definition dr_take_front :: "nat \<Rightarrow> 'a dring \<Rightarrow> ('a \<times> 'a dring) res" where
  "dr_take_front c d = bindR (dr_front d) (\<lambda>v. bindR (dr_pop_front c d) (\<lambda>d'. Inr (v, d')))"

definition rb_fits :: "'a ring \<Rightarrow> nat \<Rightarrow> bool" where
  "rb_fits r k \<longleftrightarrow> rb_num r + k \<le> rb_cap r"

interpretation rbq: fifo_buffer "ring_ok c" ring_view rb_fits "rb_push_back c" "rb_take_front c" for c
proof
  fix s :: "'a ring" and k and x :: 'a
  assume s: "ring_ok c s" "rb_fits s (Suc k)"
  then obtain r' where "rb_push_back c x s = Inr r'" "ring_ok c r'" "ring_view r' = ring_view s @ [x]" "rb_cap r' = rb_cap s"
    using rb_push_back_ok [OF s(1), of x] by (auto simp: rb_fits_def)
  moreover from this have "rb_num r' = Suc (rb_num s)"
    by (metis length_append_singleton length_ring_view)
  ultimately show "\<exists>s'. rb_push_back c x s = Inr s' \<and> ring_ok c s' \<and> ring_view s' = ring_view s @ [x] \<and> rb_fits s' k"
    using s(2) by (auto simp: rb_fits_def)
next
  fix s :: "'a ring" and x :: 'a and xs
  assume s: "ring_ok c s" "ring_view s = x # xs"
  then have "0 < rb_num s"
    using ring_view_Nil_iff [of s] by auto
  then show "\<exists>s'. rb_take_front c s = Inr (x, s') \<and> ring_ok c s' \<and> ring_view s' = xs"
    using rb_front_ok [OF s(1)] rb_pop_front_ok [OF s(1)] s(2) by (auto simp: rb_take_front_def)
qed

interpretation drq: fifo_buffer "dr_ok c" dr_view "\<lambda>_ _. True" "dr_push_back c" "dr_take_front c" for c
proof
  fix s :: "'a dring" and k and x :: 'a
  assume "dr_ok c s"
  then show "\<exists>s'. dr_push_back c x s = Inr s' \<and> dr_ok c s' \<and> dr_view s' = dr_view s @ [x] \<and> True"
    using dr_push_back_ok [of c s x] by auto
next
  fix s :: "'a dring" and x :: 'a and xs
  assume "dr_ok c s" "dr_view s = x # xs"
  then show "\<exists>s'. dr_take_front c s = Inr (x, s') \<and> dr_ok c s' \<and> dr_view s' = xs"
    using dr_front_ok [of c s] dr_pop_front_ok [of c s] by (auto simp: dr_take_front_def)
qed


section \<open>Properties\<close>

definition ring345 :: "nat ring" where
  "ring345 = \<lparr>rb_slots = [Some 4, Some 5, None, Some 3], rb_num = 3, rb_read = 3\<rparr>"

lemma ring345_ok: "ring_ok 8 ring345" "ring_view ring345 = [3, 4, 5]"
  by code_simp+

text \<open>
  C9: a \<open>RingBuffer\<close> is a double-ended sequence bounded by \<open>TSize\<close>: pushing at either end
  succeeds exactly while it is not full and adds the element at that end, popping succeeds
  exactly while it is not empty and removes that end, indexing and \<open>Front\<close>/\<open>Back\<close> read
  the sequence, and every step keeps the representation invariant.  A full buffer and an
  empty one fail their assertion.
\<close>

theorem ring_refines_sequence:
  assumes "ring_ok c r"
  shows "(rb_num r < rb_cap r \<longrightarrow>
      (\<exists>r'. rb_push_back c v r = Inr r' \<and> ring_ok c r' \<and> ring_view r' = ring_view r @ [v] \<and> rb_cap r' = rb_cap r) \<and>
      (\<exists>r'. rb_push_front c v r = Inr r' \<and> ring_ok c r' \<and> ring_view r' = v # ring_view r \<and> rb_cap r' = rb_cap r)) \<and>
    (rb_num r = rb_cap r \<longrightarrow> rb_push_back c v r = Inl AssertFail \<and> rb_push_front c v r = Inl AssertFail) \<and>
    (0 < rb_num r \<longrightarrow>
      (\<exists>r'. rb_pop_front c r = Inr r' \<and> ring_ok c r' \<and> ring_view r' = tl (ring_view r) \<and> rb_cap r' = rb_cap r) \<and>
      (\<exists>r'. rb_pop_back c r = Inr r' \<and> ring_ok c r' \<and> ring_view r' = butlast (ring_view r) \<and> rb_cap r' = rb_cap r) \<and>
      rb_front r = Inr (hd (ring_view r)) \<and> rb_back c r = Inr (last (ring_view r))) \<and>
    (rb_num r = 0 \<longrightarrow> rb_pop_front c r = Inl AssertFail \<and> rb_pop_back c r = Inl AssertFail) \<and>
    rb_get c i r = (if i < rb_num r then Inr (ring_view r ! i) else Inl AssertFail)"
  using rb_push_back_ok [OF assms, of v] rb_push_front_ok [OF assms, of v]
    rb_pop_front_ok [OF assms] rb_pop_back_ok [OF assms] rb_front_ok [OF assms] rb_back_ok [OF assms]
    rb_push_full [of r c v] rb_pop_empty [of r c] rb_get_ok [OF assms, of i]
  unfolding rb_is_full_def by blast

theorem ring_refines_sequence_witness:
  "(\<exists>r'. rb_push_back 8 9 ring345 = Inr r' \<and> ring_view r' = [3, 4, 5, 9]) \<and>
    rb_get 8 1 ring345 = Inr 4"
proof -
  have n: "rb_num ring345 = 3" "rb_cap ring345 = 4" by (simp_all add: ring345_def rb_cap_def)
  show ?thesis
    using ring_refines_sequence [OF ring345_ok(1), of 9 1] unfolding ring345_ok(2) n by auto
qed

text \<open>
  \<open>RingBuffer::Erase(pos)\<close> removes exactly the element at logical position \<open>pos\<close> and
  keeps the order of the others, whether the gap is closed by moving the elements before it
  forward (the part up to \<open>pos\<close> does not wrap) or those after it back (it does).
\<close>

theorem ring_erase_removes_position:
  assumes "ring_ok c r" and "c \<le> 32" and "pos < rb_num r"
  shows "\<exists>r'. rb_erase c pos r = Inr r' \<and> ring_ok c r' \<and>
    ring_view r' = take pos (ring_view r) @ drop (Suc pos) (ring_view r) \<and> rb_cap r' = rb_cap r"
  using assms by (rule rb_erase_ok)

theorem ring_erase_removes_position_witness:
  "\<exists>r'. rb_erase 8 1 ring345 = Inr r' \<and> ring_view r' = [3, 5]"
proof -
  have n: "1 < rb_num ring345" by (simp add: ring345_def)
  show ?thesis
    using ring_erase_removes_position [OF ring345_ok(1) _ n] unfolding ring345_ok(2) by auto
qed

text \<open>
  the overload of \<open>RingBuffer::Erase\<close> that takes an iterator removes the element it
  points at when that element lies at or after the read position in memory, but when it lies
  before (the sequence has wrapped) it removes the element one place earlier: the offset it
  computes is one less than the element's position.
\<close>

theorem ring_erase_iter_off_by_one:
  assumes "ring_ok c r" and "c \<le> 32" and "p < rb_num r"
  shows "\<exists>r'. rb_erase_iter c (ring_pos (rb_cap r) (rb_read r) p) r = Inr r' \<and>
    ring_view r' = (if rb_read r + p < rb_cap r then take p (ring_view r) @ drop (Suc p) (ring_view r)
      else take (p - 1) (ring_view r) @ drop p (ring_view r))"
proof (cases "rb_read r + p < rb_cap r")
  case True
  then show ?thesis
    using rb_erase_ok [OF assms] rb_erase_iter_unwrapped [OF assms True] by auto
next
  case False
  then have w: "rb_cap r \<le> rb_read r + p" "0 < p"
    using ring_okD(4) [OF assms(1)] by (auto intro: Nat.gr0I)
  then have "p - 1 < rb_num r" "Suc (p - 1) = p"
    using assms(3) by auto
  then show ?thesis
    using rb_erase_ok [OF assms(1,2), of "p - 1"] rb_erase_iter_wrapped [OF assms w(1)] False by auto
qed

theorem ring_erase_iter_off_by_one_witness:
  "\<exists>r'. rb_erase_iter 8 1 ring345 = Inr r' \<and> ring_view r' = [3, 5] \<and> rb_slots ring345 ! 1 = Some 5"
proof -
  have n: "rb_num ring345 = 3" "rb_cap ring345 = 4" "rb_read ring345 = 3" "rb_slots ring345 ! 1 = Some 5"
    by (simp_all add: ring345_def rb_cap_def)
  show ?thesis
    using ring_erase_iter_off_by_one [OF ring345_ok(1), of 2] unfolding ring345_ok(2) n
    by (simp add: ring_pos_def)
qed

text \<open>
  a loop from \<open>Begin()\<close> to \<open>End()\<close> over a \<open>RingBuffer\<close> never sees the buffer's
  elements, whatever the buffer holds, except for an empty buffer of capacity one:
  \<open>End()\<close> is computed one position too far.
\<close>

theorem ring_iteration_misses_view:
  assumes "ring_ok c r"
  shows "rb_elements c r = Inr (ring_view r) \<longleftrightarrow> rb_cap r = 1 \<and> rb_num r = 0"
  using assms by (rule rb_elements_not_view)

theorem ring_iteration_misses_view_witness:
  "rb_elements 8 ring345 \<noteq> Inr [3, 4, 5]"
  using ring_iteration_misses_view [OF ring345_ok(1)] unfolding ring345_ok(2) by (simp add: ring345_def)

text \<open>
  A \<open>DynamicRingBuffer\<close> is an unbounded double-ended sequence: both pushes always
  succeed, spilling the back of a full ring into the overflow deque, both pops take from
  their end, and \<open>Erase\<close> and indexing address the sequence as one, across the border
  between ring and overflow.
\<close>

theorem dring_refines_sequence:
  assumes "dr_ok c d" and "c \<le> 32"
  shows "(\<exists>d'. dr_push_back c v d = Inr d' \<and> dr_ok c d' \<and> dr_view d' = dr_view d @ [v]) \<and>
    (\<exists>d'. dr_push_front c v d = Inr d' \<and> dr_ok c d' \<and> dr_view d' = v # dr_view d) \<and>
    (dr_view d \<noteq> [] \<longrightarrow>
      (\<exists>d'. dr_pop_front c d = Inr d' \<and> dr_ok c d' \<and> dr_view d' = tl (dr_view d)) \<and>
      (\<exists>d'. dr_pop_back c d = Inr d' \<and> dr_ok c d' \<and> dr_view d' = butlast (dr_view d)) \<and>
      dr_front d = Inr (hd (dr_view d)) \<and> dr_back c d = Inr (last (dr_view d))) \<and>
    (i < length (dr_view d) \<longrightarrow> dr_get c i d = Inr (dr_view d ! i) \<and>
      (\<exists>d'. dr_erase c i d = Inr d' \<and> dr_ok c d' \<and> dr_view d' = take i (dr_view d) @ drop (Suc i) (dr_view d)))"
  using dr_push_back_ok [OF assms(1), of v] dr_push_front_ok [OF assms(1), of v] dr_pop_front_ok [OF assms(1)]
    dr_pop_back_ok [OF assms(1)] dr_front_ok [OF assms(1)] dr_back_ok [OF assms(1)]
    dr_get_ok [OF assms(1), of i] dr_erase_ok [OF assms, of i]
  unfolding dr_size_eq by blast

theorem dring_refines_sequence_witness:
  "\<exists>d'. dr_push_back 8 7 \<lparr>dr_over = [6], dr_ring = ring345\<rparr> = Inr d' \<and> dr_view d' = [3, 4, 5, 6, 7]"
proof -
  have ok: "dr_ok 8 \<lparr>dr_over = [6], dr_ring = ring345\<rparr>"
    using ring345_ok(1) by (simp add: dr_ok_def)
  have view: "dr_view \<lparr>dr_over = [6], dr_ring = ring345\<rparr> = [3, 4, 5, 6]"
    using ring345_ok(2) by (simp add: dr_view_def)
  show ?thesis
    using dring_refines_sequence [OF ok, of 7 0] unfolding view by auto
qed

text \<open>
  what is pushed at the back of a \<open>DynamicRingBuffer\<close> comes out at the front, once and
  in order, however many elements the run holds: the FIFO contract, instantiated.
\<close>

theorem dring_fifo:
  assumes "dr_ok c d"
  shows "\<exists>d' d''. push_all (dr_push_back c) xs d = Inr d' \<and>
    pop_many (dr_take_front c) (length (dr_view d) + length xs) d' = Inr (dr_view d @ xs, d'') \<and>
    dr_ok c d'' \<and> dr_view d'' = []"
  using assms by (rule drq.fifo) simp

theorem dring_fifo_witness:
  "\<exists>d' d''. push_all (dr_push_back 8) [1, 2, 3, 4, 5 :: nat] (dr_new 2) = Inr d' \<and>
    pop_many (dr_take_front 8) 5 d' = Inr ([1, 2, 3, 4, 5], d'')"
proof -
  have new: "dr_ok 8 (dr_new 2 :: nat dring)" "dr_view (dr_new 2 :: nat dring) = []"
    using dr_new_ok [of 2 8] by auto
  have len: "length ([] :: nat list) + length [1, 2, 3, 4, 5 :: nat] = 5" by simp
  show ?thesis
    using dring_fifo [OF new(1), of "[1, 2, 3, 4, 5]"] unfolding new(2) len append_Nil by blast
qed

end
