(* ===== verification/ArenaVectors.thy ===== *)
theory ArenaVectors
  imports Algorithms
begin

text \<open>
  \<^verbatim>\<open>ion/arena/ArenaVector.h\<close> with the \<^verbatim>\<open>RawBuffer\<close> it keeps its elements in: a growing
  sequence whose elements live in a static buffer inside the object (small or tiny mode) or in
  a block of the allocator that every growing call is given.

  \<^item> \<open>'v heap\<close> is the memory the allocator hands out: \<open>hp_alloc\<close> returns a block
    of raw slots nobody else has, \<open>hp_free\<close> takes a block back with the size it was
    allocated with.
  \<^item> \<open>cfg\<close> holds the template arguments: \<open>cf_small\<close>, \<open>cf_tiny\<close>
    (element counts), \<open>cf_bits\<close> (the width of \<^verbatim>\<open>CountType\<close>) and the three
    type traits the code branches on.
  \<^item> \<open>'v avec\<close> is the object.  In tiny mode the item pointer and the tiny items share
    their storage (a union): storing the pointer ends the life of the items, constructing an
    item destroys the pointer (\<open>Wild\<close>).
\<close>

section \<open>The allocator's memory\<close>

datatype ptr = Null | Blk nat | Own | Wild

record 'v heap =
  hp_blocks :: "nat \<Rightarrow> 'v slots option"
  hp_next :: nat

definition hp_ok :: "'v heap \<Rightarrow> bool" where
  "hp_ok h \<longleftrightarrow> (\<forall>b\<ge>hp_next h. hp_blocks h b = None)"

definition hp_put :: "nat \<Rightarrow> 'v slots \<Rightarrow> 'v heap \<Rightarrow> 'v heap" where
  "hp_put b xs h = h\<lparr>hp_blocks := (hp_blocks h)(b := Some xs)\<rparr>"

definition hp_alloc :: "nat \<Rightarrow> 'v heap \<Rightarrow> nat \<times> 'v heap" where
  "hp_alloc n h = (hp_next h, (hp_put (hp_next h) (replicate n None) h)\<lparr>hp_next := Suc (hp_next h)\<rparr>)"

definition hp_free :: "ptr \<Rightarrow> nat \<Rightarrow> 'v heap \<Rightarrow> 'v heap res" where
  "hp_free p n h = (case p of
     Blk b \<Rightarrow> (case hp_blocks h b of
        Some xs \<Rightarrow> if length xs = n then Inr (h\<lparr>hp_blocks := (hp_blocks h)(b := None)\<rparr>) else Inl BadAccess
      | None \<Rightarrow> Inl BadAccess)
   | _ \<Rightarrow> Inl BadAccess)"

section \<open>The object\<close>

record cfg =
  cf_small :: nat
  cf_tiny :: nat
  cf_bits :: nat
  cf_tcopy :: bool
  cf_tctor :: bool
  cf_tdtor :: bool

definition static_count :: "cfg \<Rightarrow> nat" where
  "static_count cf = (if cf_tiny cf = 0 then cf_small cf else cf_tiny cf)"

definition is_trivial :: "cfg \<Rightarrow> bool" where
  "is_trivial cf \<longleftrightarrow> cf_tcopy cf \<and> cf_tctor cf"

record 'v avec =
  av_size :: nat
  av_cap :: nat
  av_items :: ptr
  av_static :: "'v slots"

definition av_new :: "cfg \<Rightarrow> 'v avec" where
  "av_new cf = \<lparr>av_size = 0, av_cap = static_count cf,
     av_items = (if cf_small cf = 0 then Null else Own), av_static = replicate (static_count cf) None\<rparr>"

section \<open>Slots: \<^verbatim>\<open>RawBuffer\<close>\<close>

definition slot_new :: "nat \<Rightarrow> 'v \<Rightarrow> 'v slots \<Rightarrow> 'v slots res" where
  "slot_new i x xs = (if i < length xs then Inr (xs[i := Some x]) else Inl BadAccess)"

definition slot_del :: "nat \<Rightarrow> 'v slots \<Rightarrow> 'v slots res" where
  "slot_del i xs = (if i < length xs \<and> xs ! i \<noteq> None then Inr (xs[i := None]) else Inl BadAccess)"

definition slot_get :: "nat \<Rightarrow> 'v slots \<Rightarrow> 'v res" where
  "slot_get i xs = (if i < length xs then (case xs ! i of Some x \<Rightarrow> Inr x | None \<Rightarrow> Inl BadAccess)
                    else Inl BadAccess)"

definition slot_assign :: "nat \<Rightarrow> 'v \<Rightarrow> 'v slots \<Rightarrow> 'v slots res" where
  "slot_assign i x xs = bindR (slot_get i xs) (\<lambda>_. Inr (xs[i := Some x]))"

definition block_copy :: "nat \<Rightarrow> nat \<Rightarrow> 'v slots \<Rightarrow> 'v slots \<Rightarrow> 'v slots res" where
  "block_copy a n src dst =
     (if a + n \<le> length src \<and> a + n \<le> length dst
      then Inr (take a dst @ take n (drop a src) @ drop (a + n) dst) else Inl BadAccess)"

fun construct_from :: "nat \<Rightarrow> nat \<Rightarrow> 'v slots \<Rightarrow> 'v slots \<Rightarrow> 'v slots res" where
  "construct_from i 0 src dst = Inr dst"
| "construct_from i (Suc k) src dst =
     bindR (slot_get i src) (\<lambda>x. bindR (slot_new i x dst) (\<lambda>dst'. construct_from (Suc i) k src dst'))"

fun move_loop :: "bool \<Rightarrow> nat \<Rightarrow> nat \<Rightarrow> 'v slots \<Rightarrow> 'v slots \<Rightarrow> ('v slots \<times> 'v slots) res" where
  "move_loop td i 0 src dst = Inr (src, dst)"
| "move_loop td i (Suc k) src dst =
     bindR (slot_get i src) (\<lambda>x. bindR (slot_new i x dst) (\<lambda>dst'.
       bindR (if td then Inr src else slot_del i src) (\<lambda>src'. move_loop td (Suc i) k src' dst')))"

definition raw_create_from :: "cfg \<Rightarrow> nat \<Rightarrow> 'v slots \<Rightarrow> 'v slots \<Rightarrow> 'v slots res" where
  "raw_create_from cf n src dst = (if cf_tcopy cf then block_copy 0 n src dst else construct_from 0 n src dst)"

definition raw_move_to :: "cfg \<Rightarrow> nat \<Rightarrow> 'v slots \<Rightarrow> 'v slots \<Rightarrow> ('v slots \<times> 'v slots) res" where
  "raw_move_to cf n src dst =
     (if cf_tcopy cf then bindR (block_copy 0 n src dst) (\<lambda>dst'. Inr (src, dst'))
      else move_loop (cf_tdtor cf) 0 n src dst)"

definition move_static :: "cfg \<Rightarrow> nat \<Rightarrow> 'v slots \<Rightarrow> 'v slots \<Rightarrow> ('v slots \<times> 'v slots) res" where
  "move_static cf n src dst =
     (if cf_tcopy cf then bindR (block_copy 0 n src dst) (\<lambda>dst'. Inr (src, dst'))
      else move_loop (cf_tdtor cf) 0 n src dst)"

fun slots_del :: "nat \<Rightarrow> nat \<Rightarrow> 'v slots \<Rightarrow> 'v slots res" where
  "slots_del i 0 xs = Inr xs"
| "slots_del i (Suc k) xs = bindR (slot_del i xs) (slots_del (Suc i) k)"

fun assign_run :: "nat \<Rightarrow> nat \<Rightarrow> 'v slots \<Rightarrow> 'v slots \<Rightarrow> 'v slots res" where
  "assign_run i 0 src dst = Inr dst"
| "assign_run i (Suc k) src dst =
     bindR (slot_get i src) (\<lambda>x. bindR (slot_assign i x dst) (\<lambda>dst'. assign_run (Suc i) k src dst'))"

definition raw_copy_from :: "cfg \<Rightarrow> nat \<Rightarrow> nat \<Rightarrow> 'v slots \<Rightarrow> 'v slots \<Rightarrow> 'v slots res" where
  "raw_copy_from cf newn oldn src dst =
     (let rep = min oldn newn in
      bindR (if cf_tcopy cf then block_copy 0 rep src dst else assign_run 0 rep src dst) (\<lambda>dst1.
      bindR (if cf_tcopy cf then block_copy rep (newn - rep) src dst1
             else construct_from rep (newn - rep) src dst1) (\<lambda>dst2.
      if cf_tdtor cf then Inr dst2 else slots_del rep (oldn - rep) dst2)))"

section \<open>Access through the pointer and through the tiny items\<close>

definition items_mem :: "'v heap \<Rightarrow> 'v avec \<Rightarrow> 'v slots res" where
  "items_mem h v = (case av_items v of
     Blk b \<Rightarrow> (case hp_blocks h b of Some xs \<Rightarrow> Inr xs | None \<Rightarrow> Inl BadAccess)
   | Own \<Rightarrow> Inr (av_static v)
   | _ \<Rightarrow> Inl BadAccess)"

definition items_put :: "'v slots \<Rightarrow> 'v heap \<Rightarrow> 'v avec \<Rightarrow> 'v heap \<times> 'v avec" where
  "items_put xs h v = (case av_items v of
     Blk b \<Rightarrow> (hp_put b xs h, v) | Own \<Rightarrow> (h, v\<lparr>av_static := xs\<rparr>) | _ \<Rightarrow> (h, v))"

definition items_upd :: "('v slots \<Rightarrow> 'v slots res) \<Rightarrow> 'v heap \<Rightarrow> 'v avec \<Rightarrow> ('v heap \<times> 'v avec) res" where
  "items_upd f h v = bindR (items_mem h v) (\<lambda>xs. bindR (f xs) (\<lambda>ys. Inr (items_put ys h v)))"

definition tiny_upd :: "('v slots \<Rightarrow> 'v slots res) \<Rightarrow> 'v heap \<Rightarrow> 'v avec \<Rightarrow> ('v heap \<times> 'v avec) res" where
  "tiny_upd f h v = bindR (f (av_static v)) (\<lambda>ys. Inr (h, v\<lparr>av_static := ys, av_items := Wild\<rparr>))"

definition set_items :: "cfg \<Rightarrow> ptr \<Rightarrow> 'v avec \<Rightarrow> 'v avec" where
  "set_items cf p v = v\<lparr>av_items := p,
     av_static := (if cf_tiny cf = 0 then av_static v else replicate (cf_tiny cf) None)\<rparr>"

definition at_items :: "cfg \<Rightarrow> ('v slots \<Rightarrow> 'v slots res) \<Rightarrow> 'v heap \<Rightarrow> 'v avec \<Rightarrow> ('v heap \<times> 'v avec) res" where
  "at_items cf f h v = (if cf_tiny cf = 0 \<or> av_cap v \<noteq> cf_tiny cf then items_upd f h v else tiny_upd f h v)"

definition av_del :: "cfg \<Rightarrow> nat \<Rightarrow> 'v heap \<Rightarrow> 'v avec \<Rightarrow> ('v heap \<times> 'v avec) res" where
  "av_del cf i h v = (if cf_tdtor cf then Inr (h, v) else at_items cf (slot_del i) h v)"

definition av_data :: "cfg \<Rightarrow> 'v heap \<Rightarrow> 'v avec \<Rightarrow> 'v slots res" where
  "av_data cf h v =
     (if cf_tiny cf = 0 then
        assertR (av_cap v \<noteq> 0 \<or> av_items v = Null)
          (if av_items v = Null then Inr [] else items_mem h v)
      else if av_cap v = cf_tiny cf then Inr (av_static v)
      else assertR (av_items v \<noteq> Null) (items_mem h v))"

definition av_data_upd :: "cfg \<Rightarrow> ('v slots \<Rightarrow> 'v slots res) \<Rightarrow> 'v heap \<Rightarrow> 'v avec \<Rightarrow> ('v heap \<times> 'v avec) res" where
  "av_data_upd cf f h v =
     bindR (av_data cf h v) (\<lambda>xs. bindR (f xs) (\<lambda>ys.
       if cf_tiny cf = 0 \<or> av_cap v \<noteq> cf_tiny cf then Inr (items_put ys h v)
       else Inr (h, v\<lparr>av_static := ys, av_items := Wild\<rparr>)))"

section \<open>Size, capacity, access\<close>

definition av_get_size :: "cfg \<Rightarrow> 'v avec \<Rightarrow> nat res" where
  "av_get_size cf v = assertR ((av_size v \<le> static_count cf \<and> av_cap v = static_count cf)
     \<or> static_count cf < av_cap v) (Inr (av_size v))"

definition av_get :: "cfg \<Rightarrow> nat \<Rightarrow> 'v heap \<Rightarrow> 'v avec \<Rightarrow> 'v res" where
  "av_get cf i h v = assertR (i < av_size v) (bindR (av_data cf h v) (slot_get i))"

definition av_back :: "cfg \<Rightarrow> 'v heap \<Rightarrow> 'v avec \<Rightarrow> 'v res" where
  "av_back cf h v = assertR (0 < av_size v) (bindR (av_data cf h v) (slot_get (av_size v - 1)))"

definition av_is_empty :: "'v avec \<Rightarrow> bool" where
  "av_is_empty v \<longleftrightarrow> av_size v = 0"

definition growth_size :: "nat \<Rightarrow> nat \<Rightarrow> nat" where
  "growth_size c n = trunc c (if n \<le> 128 then n + 16 + n div 2 else n * 2)"

definition av_ensure :: "cfg \<Rightarrow> nat \<Rightarrow> 'v heap \<Rightarrow> 'v avec \<Rightarrow> ('v heap \<times> 'v avec) res" where
  "av_ensure cf nc h v =
     assertR (nc \<noteq> av_cap v)
     (case hp_alloc nc h of (b, h1) \<Rightarrow>
      bindR
       (if av_cap v \<noteq> static_count cf then
          bindR (items_mem h1 v) (\<lambda>src.
          bindR (raw_move_to cf (av_size v) src (replicate nc None)) (\<lambda>(src', dst).
          (case items_put src' h1 v of (h2, v2) \<Rightarrow>
          bindR (hp_free (av_items v2) (av_cap v2) (hp_put b dst h2)) (\<lambda>h3. Inr (h3, v2)))))
        else if static_count cf \<noteq> 0 then
          bindR (move_static cf (av_size v) (av_static v) (replicate nc None)) (\<lambda>(src', dst).
          Inr (hp_put b dst h1, v\<lparr>av_static := src'\<rparr>))
        else Inr (h1, v))
       (\<lambda>(h', v'). assertR (cf_tiny cf < nc) (Inr (h', set_items cf (Blk b) (v'\<lparr>av_cap := nc\<rparr>)))))"

section \<open>Adding\<close>

definition av_add_keep :: "cfg \<Rightarrow> 'v \<Rightarrow> 'v heap \<Rightarrow> 'v avec \<Rightarrow> ('v heap \<times> 'v avec) res" where
  "av_add_keep cf x h v = assertR (av_size v < av_cap v)
     (bindR (at_items cf (slot_new (av_size v) x) h v) (\<lambda>(h', v'). Inr (h', v'\<lparr>av_size := av_size v + 1\<rparr>)))"

definition av_add :: "cfg \<Rightarrow> 'v \<Rightarrow> 'v heap \<Rightarrow> 'v avec \<Rightarrow> ('v heap \<times> 'v avec) res" where
  "av_add cf x h v =
     bindR (if av_size v = av_cap v then av_ensure cf (growth_size (cf_bits cf) (av_size v)) h v else Inr (h, v))
       (\<lambda>(h', v'). av_add_keep cf x h' v')"

definition av_reserve :: "cfg \<Rightarrow> nat \<Rightarrow> 'v heap \<Rightarrow> 'v avec \<Rightarrow> (bool \<times> 'v heap \<times> 'v avec) res" where
  "av_reserve cf n h v =
     (if av_cap v < n
      then bindR (safe_range_cast (cf_bits cf) n) (\<lambda>c. bindR (av_ensure cf c h v) (\<lambda>hv. Inr (True, hv)))
      else Inr (False, h, v))"

fun insert_run :: "(('v slots \<Rightarrow> 'v slots res) \<Rightarrow> 'v heap \<Rightarrow> 'v avec \<Rightarrow> ('v heap \<times> 'v avec) res)
    \<Rightarrow> (nat \<Rightarrow> 'v) \<Rightarrow> nat \<Rightarrow> nat \<Rightarrow> 'v heap \<times> 'v avec \<Rightarrow> ('v heap \<times> 'v avec) res" where
  "insert_run upd g i 0 hv = Inr hv"
| "insert_run upd g i (Suc k) hv =
     bindR (upd (slot_new i (g i)) (fst hv) (snd hv)) (insert_run upd g (Suc i) k)"

definition av_add_multiple :: "cfg \<Rightarrow> nat \<Rightarrow> (nat \<Rightarrow> 'v) \<Rightarrow> 'v heap \<Rightarrow> 'v avec \<Rightarrow> ('v heap \<times> 'v avec) res" where
  "av_add_multiple cf cnt g h v =
     bindR (safe_range_cast (cf_bits cf) cnt) (\<lambda>c.
     (let newsize = trunc (cf_bits cf) (av_size v + c) in
      bindR (av_reserve cf newsize h v) (\<lambda>(grown, h', v').
      bindR (insert_run (if cf_tiny cf = 0 \<or> grown \<or> av_cap v' \<noteq> cf_tiny cf then items_upd else tiny_upd)
              g (av_size v') cnt (h', v')) (\<lambda>(h'', v'').
      Inr (h'', v''\<lparr>av_size := newsize\<rparr>)))))"

section \<open>Removing\<close>

fun pop_loop :: "cfg \<Rightarrow> nat \<Rightarrow> nat \<Rightarrow> 'v heap \<times> 'v avec \<Rightarrow> ('v heap \<times> 'v avec) res" where
  "pop_loop cf n 0 hv = Inr hv"
| "pop_loop cf n (Suc cur) hv =
     (if n < Suc cur then bindR (av_del cf cur (fst hv) (snd hv)) (pop_loop cf n cur) else Inr hv)"

definition av_pop_to :: "cfg \<Rightarrow> nat \<Rightarrow> 'v heap \<Rightarrow> 'v avec \<Rightarrow> ('v heap \<times> 'v avec) res" where
  "av_pop_to cf n h v =
     bindR (if is_trivial cf then Inr (h, v) else pop_loop cf n (av_size v) (h, v))
       (\<lambda>(h', v'). Inr (h', v'\<lparr>av_size := n\<rparr>))"

definition av_clear :: "cfg \<Rightarrow> 'v heap \<Rightarrow> 'v avec \<Rightarrow> ('v heap \<times> 'v avec) res" where
  "av_clear cf h v = av_pop_to cf 0 h v"

definition av_pop :: "cfg \<Rightarrow> 'v heap \<Rightarrow> 'v avec \<Rightarrow> ('v heap \<times> 'v avec) res" where
  "av_pop cf h v =
     (let n = (if av_size v = 0 then 2 ^ cf_bits cf - 1 else av_size v - 1) in
      av_del cf n h (v\<lparr>av_size := n\<rparr>))"

definition av_reset :: "cfg \<Rightarrow> 'v heap \<Rightarrow> 'v avec \<Rightarrow> ('v heap \<times> 'v avec) res" where
  "av_reset cf h v = assertR (av_size v = 0)
     (if cf_tiny cf = 0 then
        bindR (if av_cap v \<noteq> cf_small cf
               then bindR (hp_free (av_items v) (av_cap v) h) (\<lambda>h'. Inr (h', v\<lparr>av_cap := cf_small cf\<rparr>))
               else Inr (h, v))
          (\<lambda>(h', v'). (let v'' = set_items cf (if cf_small cf = 0 then Null else Own) v' in
             assertR (av_cap v'' = cf_small cf) (Inr (h', v''))))
      else if av_cap v \<noteq> cf_tiny cf then
        bindR (hp_free (av_items v) (av_cap v) h)
          (\<lambda>h'. Inr (h', (set_items cf Null v)\<lparr>av_cap := cf_tiny cf\<rparr>))
      else Inr (h, v))"

section \<open>Shrinking\<close>

fun shrink_small :: "nat \<Rightarrow> nat \<Rightarrow> 'v heap \<Rightarrow> 'v avec \<Rightarrow> 'v avec res" where
  "shrink_small i 0 h v = Inr v"
| "shrink_small i (Suc k) h v =
     bindR (items_mem h v) (\<lambda>src. bindR (slot_get i src) (\<lambda>x.
     bindR (slot_new i x (av_static v)) (\<lambda>st. shrink_small (Suc i) k h (v\<lparr>av_static := st\<rparr>))))"

fun shrink_tiny :: "nat \<Rightarrow> nat \<Rightarrow> 'v heap \<Rightarrow> 'v avec \<Rightarrow> 'v avec res" where
  "shrink_tiny i 0 h v = Inr v"
| "shrink_tiny i (Suc k) h v =
     bindR (items_mem h v) (\<lambda>src. bindR (slot_get i src) (\<lambda>x.
     bindR (tiny_upd (slot_new i x) h v) (\<lambda>(h', v'). shrink_tiny (Suc i) k h' v')))"

definition av_shrink :: "cfg \<Rightarrow> 'v heap \<Rightarrow> 'v avec \<Rightarrow> ('v heap \<times> 'v avec) res" where
  "av_shrink cf h v =
     (if av_size v \<le> static_count cf then
        if cf_small cf \<noteq> 0 then
          bindR (if av_cap v \<noteq> cf_small cf then
                   bindR (shrink_small 0 (av_size v) h v) (\<lambda>v'.
                   bindR (hp_free (av_items v') (av_cap v') h) (\<lambda>h'.
                   Inr (h', v'\<lparr>av_cap := cf_small cf\<rparr>)))
                 else Inr (h, v))
            (\<lambda>(h', v'). Inr (h', set_items cf Own v'))
        else if cf_tiny cf \<noteq> 0 then
          if av_cap v \<noteq> cf_tiny cf then
            bindR (shrink_tiny 0 (av_size v) h v) (\<lambda>v'.
            bindR (hp_free (av_items v') (av_cap v') h) (\<lambda>h'.
            Inr (h', (set_items cf Null v')\<lparr>av_cap := cf_tiny cf\<rparr>)))
          else Inr (h, v)
        else av_reset cf h v
      else if av_size v \<noteq> av_cap v then av_ensure cf (av_size v) h v
      else Inr (h, v))"

section \<open>Resizing\<close>

fun push_loop :: "cfg \<Rightarrow> 'v \<Rightarrow> nat \<Rightarrow> nat \<Rightarrow> 'v heap \<times> 'v avec \<Rightarrow> ('v heap \<times> 'v avec) res" where
  "push_loop cf dv i 0 hv = Inr hv"
| "push_loop cf dv i (Suc k) hv =
     bindR (at_items cf (slot_new i dv) (fst hv) (snd hv)) (push_loop cf dv (Suc i) k)"

definition av_push_to :: "cfg \<Rightarrow> 'v \<Rightarrow> nat \<Rightarrow> 'v heap \<Rightarrow> 'v avec \<Rightarrow> ('v heap \<times> 'v avec) res" where
  "av_push_to cf dv n h v =
     bindR (if cf_tctor cf then Inr (h, v) else push_loop cf dv (av_size v) (n - av_size v) (h, v))
       (\<lambda>(h', v'). Inr (h', v'\<lparr>av_size := n\<rparr>))"

definition av_push :: "cfg \<Rightarrow> 'v \<Rightarrow> 'v heap \<Rightarrow> 'v avec \<Rightarrow> ('v heap \<times> 'v avec) res" where
  "av_push cf dv h v =
     bindR (at_items cf (slot_new (av_size v) dv) h v)
       (\<lambda>(h', v'). Inr (h', v'\<lparr>av_size := trunc (cf_bits cf) (av_size v + 1)\<rparr>))"

definition zero_fill :: "nat \<Rightarrow> nat \<Rightarrow> 'v \<Rightarrow> 'v slots \<Rightarrow> 'v slots res" where
  "zero_fill a n zv xs =
     (if a + n \<le> length xs then Inr (take a xs @ replicate n (Some zv) @ drop (a + n) xs)
      else if n = 0 then Inr xs else Inl BadAccess)"

definition av_resize :: "cfg \<Rightarrow> 'v \<Rightarrow> nat \<Rightarrow> nat \<Rightarrow> 'v heap \<Rightarrow> 'v avec \<Rightarrow> ('v heap \<times> 'v avec) res" where
  "av_resize cf dv n nc h v =
     (if n < av_size v then
        bindR (safe_range_cast (cf_bits cf) n) (\<lambda>c. av_pop_to cf c h v)
      else
        bindR (if av_cap v < n then
                 assertR (n \<le> nc) (bindR (safe_range_cast (cf_bits cf) nc) (\<lambda>c. av_ensure cf c h v))
               else Inr (h, v)) (\<lambda>(h1, v1).
        bindR (if cf_tctor cf then av_data_upd cf (zero_fill (av_size v1) (n - av_size v1) dv) h1 v1
               else Inr (h1, v1)) (\<lambda>(h2, v2).
        bindR (safe_range_cast (cf_bits cf) n) (\<lambda>c. av_push_to cf dv c h2 v2))))"

definition av_resize_fast_keep :: "cfg \<Rightarrow> nat \<Rightarrow> 'v heap \<Rightarrow> 'v avec \<Rightarrow> ('v heap \<times> 'v avec) res" where
  "av_resize_fast_keep cf n h v = assertR (n \<le> av_cap v)
     (if cf_tctor cf then bindR (safe_range_cast (cf_bits cf) n) (\<lambda>c. Inr (h, v\<lparr>av_size := c\<rparr>))
      else Inl AssertFail)"

definition av_resize_fast :: "cfg \<Rightarrow> 'v \<Rightarrow> nat \<Rightarrow> nat \<Rightarrow> 'v heap \<Rightarrow> 'v avec \<Rightarrow> ('v heap \<times> 'v avec) res" where
  "av_resize_fast cf dv n nc h v =
     (if cf_tctor cf then
        bindR (if av_cap v < n then
                 assertR (n \<le> nc) (bindR (safe_range_cast (cf_bits cf) nc) (\<lambda>c. av_ensure cf c h v))
               else Inr (h, v)) (\<lambda>(h1, v1). av_resize_fast_keep cf n h1 v1)
      else av_resize cf dv n nc h v)"

section \<open>Insertion and erasure by position\<close>

definition av_make_space :: "cfg \<Rightarrow> 'v \<Rightarrow> nat \<Rightarrow> 'v heap \<Rightarrow> 'v avec \<Rightarrow> ('v heap \<times> 'v avec) res" where
  "av_make_space cf dv index h v =
     bindR (av_get_size cf v) (\<lambda>last.
     bindR (if av_size v = av_cap v then av_ensure cf (growth_size (cf_bits cf) (av_size v)) h v
            else Inr (h, v)) (\<lambda>(h1, v1).
     bindR (av_add_keep cf dv h1 v1) (\<lambda>(h2, v2).
     assertR (index \<le> av_size v2)
       (if last < index then Inl BadAccess
        else av_data_upd cf (move_forward_by_offset (last + 1) 1 (last - index)) h2 v2))))"

definition av_insert :: "cfg \<Rightarrow> 'v \<Rightarrow> nat \<Rightarrow> 'v \<Rightarrow> 'v heap \<Rightarrow> 'v avec \<Rightarrow> ('v heap \<times> 'v avec) res" where
  "av_insert cf dv index x h v =
     bindR (safe_range_cast (cf_bits cf) index) (\<lambda>c.
     bindR (av_make_space cf dv c h v) (\<lambda>(h1, v1).
     av_data_upd cf (slot_assign c x) h1 v1))"

definition av_erase_range :: "cfg \<Rightarrow> nat \<Rightarrow> nat \<Rightarrow> 'v heap \<Rightarrow> 'v avec \<Rightarrow> ('v heap \<times> 'v avec) res" where
  "av_erase_range cf start end' h v =
     (let cnt = (if start \<le> end' then end' - start else 2 ^ cf_bits cf + end' - start) in
      assertR (cnt \<le> av_size v) (assertR (0 < cnt)
        (let newcount = av_size v - cnt in
         if av_size v < end' then Inl BadAccess
         else bindR (av_data_upd cf (move_back_by_offset start cnt (av_size v - end')) h v)
                (\<lambda>(h', v'). av_pop_to cf newcount h' v'))))"

definition av_erase :: "cfg \<Rightarrow> nat \<Rightarrow> 'v heap \<Rightarrow> 'v avec \<Rightarrow> ('v heap \<times> 'v avec) res" where
  "av_erase cf index h v =
     bindR (safe_range_cast (cf_bits cf) index) (\<lambda>s.
     bindR (safe_range_cast (cf_bits cf) (index + 1)) (\<lambda>e. av_erase_range cf s e h v))"

section \<open>Copying, moving, destroying\<close>

fun tiny_fill :: "nat \<Rightarrow> nat \<Rightarrow> 'v slots \<Rightarrow> 'v heap \<Rightarrow> 'v avec \<Rightarrow> 'v avec res" where
  "tiny_fill i 0 src h v = Inr v"
| "tiny_fill i (Suc k) src h v =
     bindR (slot_get i src) (\<lambda>x. bindR (tiny_upd (slot_new i x) h v) (\<lambda>(h', v'). tiny_fill (Suc i) k src h' v'))"

definition av_alloc_from :: "cfg \<Rightarrow> nat \<Rightarrow> nat \<Rightarrow> 'v slots \<Rightarrow> 'v heap \<Rightarrow> 'v avec \<Rightarrow> ('v heap \<times> 'v avec) res" where
  "av_alloc_from cf nc n src h v =
     (case hp_alloc nc h of (b, h1) \<Rightarrow>
      bindR (raw_create_from cf n src (replicate nc None)) (\<lambda>dst.
      Inr (hp_put b dst h1, set_items cf (Blk b) v)))"

definition av_copy :: "cfg \<Rightarrow> 'v heap \<Rightarrow> 'v avec \<Rightarrow> ('v heap \<times> 'v avec) res" where
  "av_copy cf h other =
     (let v = av_new cf in
      if cf_tiny cf = 0 then
        (let v1 = v\<lparr>av_cap := av_cap other, av_size := av_size other\<rparr> in
         if cf_small cf < av_cap v1 then
           bindR (items_mem h other) (\<lambda>src. av_alloc_from cf (av_cap v1) (av_size v1) src h v1)
         else if cf_small cf \<noteq> 0 then
           bindR (items_mem h other) (\<lambda>src.
           bindR (raw_create_from cf (av_size v1) src (av_static v1)) (\<lambda>dst.
           Inr (h, v1\<lparr>av_items := Own, av_static := dst\<rparr>)))
         else Inr (h, v1\<lparr>av_items := Null\<rparr>))
      else if cf_tiny cf < av_cap other then
        bindR (items_mem h other) (\<lambda>src.
          av_alloc_from cf (av_cap other) (av_size other) src h
            (v\<lparr>av_cap := av_cap other, av_size := av_size other\<rparr>))
      else
        bindR (av_get_size cf other) (\<lambda>n.
        bindR (tiny_fill 0 n (av_static other) h (v\<lparr>av_cap := cf_tiny cf, av_size := av_size other\<rparr>))
          (\<lambda>v'. Inr (h, v'))))"

fun fill_run :: "cfg \<Rightarrow> nat \<Rightarrow> nat \<Rightarrow> 'v slots \<Rightarrow> 'v heap \<times> 'v avec \<Rightarrow> ('v heap \<times> 'v avec) res" where
  "fill_run cf i 0 src hv = Inr hv"
| "fill_run cf i (Suc k) src hv =
     bindR (slot_get i src) (\<lambda>x. bindR (at_items cf (slot_new i x) (fst hv) (snd hv)) (fill_run cf (Suc i) k src))"

definition av_set :: "cfg \<Rightarrow> 'v avec \<Rightarrow> 'v heap \<Rightarrow> 'v avec \<Rightarrow> ('v heap \<times> 'v avec) res" where
  "av_set cf other h v =
     bindR (av_get_size cf other) (\<lambda>n.
     bindR
      (if av_cap v < n then
         bindR (if cf_tiny cf = 0 \<or> cf_tiny cf < av_cap v
                then bindR (av_clear cf h v) (\<lambda>(h1, v1). av_reset cf h1 v1) else Inr (h, v)) (\<lambda>(h1, v1).
         bindR (items_mem h1 other) (\<lambda>src.
         bindR (av_alloc_from cf n n src h1 v1) (\<lambda>(h2, v2). Inr (h2, v2\<lparr>av_cap := n\<rparr>))))
       else if cf_tiny cf = 0 then
         bindR (av_get_size cf v) (\<lambda>m.
         if n = 0 \<and> (m = 0 \<or> cf_tdtor cf) then Inr (h, v)
         else bindR (if n = 0 then Inr [] else items_mem h other) (\<lambda>src. items_upd (raw_copy_from cf n m src) h v))
       else
         bindR (av_clear cf h v) (\<lambda>(h1, v1).
         bindR (av_data cf h1 other) (\<lambda>src. fill_run cf 0 n src (h1, v1))))
      (\<lambda>(h', v'). Inr (h', v'\<lparr>av_size := n\<rparr>)))"

fun tiny_move :: "cfg \<Rightarrow> nat \<Rightarrow> nat \<Rightarrow> 'v heap \<Rightarrow> 'v avec \<Rightarrow> 'v avec \<Rightarrow> ('v avec \<times> 'v avec) res" where
  "tiny_move cf i 0 h v other = Inr (v, other)"
| "tiny_move cf i (Suc k) h v other =
     bindR (slot_get i (av_static other)) (\<lambda>x.
     bindR (tiny_upd (slot_new i x) h v) (\<lambda>(h1, v1).
     bindR (if cf_tdtor cf then Inr (h1, other) else tiny_upd (slot_del i) h1 other) (\<lambda>(h2, other').
     tiny_move cf (Suc i) k h2 v1 other')))"

definition av_move :: "cfg \<Rightarrow> 'v avec \<Rightarrow> 'v heap \<Rightarrow> 'v avec \<Rightarrow> ('v avec \<times> 'v avec) res" where
  "av_move cf other h v = assertR (av_size v = 0) (assertR (av_cap v = static_count cf)
     (bindR
      (if cf_tiny cf = 0 then
         if cf_small cf = 0 then
           bindR (av_get_size cf other) (\<lambda>_.
           Inr (v\<lparr>av_items := av_items other, av_cap := av_cap other\<rparr>, other\<lparr>av_items := Null, av_cap := 0\<rparr>))
         else assertR (cf_small cf \<le> av_cap other)
           (bindR (av_get_size cf other) (\<lambda>n.
            bindR
             (if av_cap other = cf_small cf then
                bindR (move_static cf n (av_static other) (av_static v)) (\<lambda>(src, dst).
                Inr (v\<lparr>av_static := dst, av_items := Own\<rparr>, other\<lparr>av_static := src\<rparr>))
              else Inr (v\<lparr>av_items := av_items other, av_cap := av_cap other\<rparr>, other))
             (\<lambda>(v1, other1). assertR (cf_small cf \<le> av_cap v1)
                (Inr (v1, other1\<lparr>av_items := Own, av_cap := cf_small cf\<rparr>)))))
       else if cf_tiny cf < av_cap other then
         Inr ((set_items cf (av_items other) v)\<lparr>av_cap := av_cap other\<rparr>,
              (set_items cf Null other)\<lparr>av_cap := cf_tiny cf\<rparr>)
       else tiny_move cf 0 (av_size other) h v other)
      (\<lambda>(v', other'). Inr (v'\<lparr>av_size := av_size other'\<rparr>, other'\<lparr>av_size := 0\<rparr>))))"

definition av_assign_move :: "cfg \<Rightarrow> 'v avec \<Rightarrow> 'v heap \<Rightarrow> 'v avec \<Rightarrow> ('v heap \<times> 'v avec \<times> 'v avec) res" where
  "av_assign_move cf other h v =
     bindR (av_clear cf h v) (\<lambda>(h1, v1). bindR (av_shrink cf h1 v1) (\<lambda>(h2, v2).
     bindR (av_move cf other h2 v2) (\<lambda>vv. Inr (h2, vv))))"

definition av_destroy :: "cfg \<Rightarrow> 'v heap \<Rightarrow> 'v avec \<Rightarrow> 'v heap res" where
  "av_destroy cf h v =
     bindR (av_clear cf h v) (\<lambda>(h1, v1). bindR (av_shrink cf h1 v1) (\<lambda>(h2, v2).
     assertR (av_size v2 = 0 \<and> av_cap v2 = static_count cf) (Inr h2)))"

section \<open>\<^verbatim>\<open>ion::Vector\<close>: the same object with its own allocator\<close>

definition vec_insert :: "cfg \<Rightarrow> 'v \<Rightarrow> nat \<Rightarrow> 'v \<Rightarrow> 'v heap \<Rightarrow> 'v avec \<Rightarrow> ('v heap \<times> 'v avec) res" where
  "vec_insert cf dv pos x h v = bindR (safe_range_cast (cf_bits cf) pos) (\<lambda>c. av_insert cf dv c x h v)"

definition vec_push_front :: "cfg \<Rightarrow> 'v \<Rightarrow> 'v \<Rightarrow> 'v heap \<Rightarrow> 'v avec \<Rightarrow> ('v heap \<times> 'v avec) res" where
  "vec_push_front cf dv x h v = av_insert cf dv 0 x h v"

definition vec_pop_front :: "cfg \<Rightarrow> 'v heap \<Rightarrow> 'v avec \<Rightarrow> ('v heap \<times> 'v avec) res" where
  "vec_pop_front cf h v = av_erase_range cf 0 1 h v"

definition vec_resize :: "cfg \<Rightarrow> 'v \<Rightarrow> nat \<Rightarrow> nat \<Rightarrow> 'v heap \<Rightarrow> 'v avec \<Rightarrow> ('v heap \<times> 'v avec) res" where
  "vec_resize cf dv n nc h v = assertR (n \<le> nc)
     (bindR (safe_range_cast (cf_bits cf) n) (\<lambda>n'. bindR (safe_range_cast (cf_bits cf) nc) (\<lambda>nc'.
      av_resize cf dv n' nc' h v)))"

fun add_keep_all :: "cfg \<Rightarrow> 'v list \<Rightarrow> 'v heap \<times> 'v avec \<Rightarrow> ('v heap \<times> 'v avec) res" where
  "add_keep_all cf [] hv = Inr hv"
| "add_keep_all cf (x # xs) hv = bindR (av_add_keep cf x (fst hv) (snd hv)) (add_keep_all cf xs)"

definition vec_assign :: "cfg \<Rightarrow> 'v list \<Rightarrow> 'v heap \<Rightarrow> 'v avec \<Rightarrow> ('v heap \<times> 'v avec) res" where
  "vec_assign cf xs h v =
     bindR (av_clear cf h v) (\<lambda>(h1, v1).
     bindR (safe_range_cast (cf_bits cf) (length xs)) (\<lambda>n.
     bindR (av_reserve cf n h1 v1) (\<lambda>(_, hv). add_keep_all cf xs hv)))"

definition safe_index_at :: "cfg \<Rightarrow> 'v \<Rightarrow> nat \<Rightarrow> 'v heap \<Rightarrow> 'v avec \<Rightarrow> ('v \<times> 'v heap \<times> 'v avec) res" where
  "safe_index_at cf dv index h v =
     bindR (av_get_size cf v) (\<lambda>n.
     bindR (if n \<le> index then vec_resize cf dv (index + 1) ((index + 1) * 2) h v else Inr (h, v))
       (\<lambda>(h', v'). bindR (av_get cf index h' v') (\<lambda>x. Inr (x, h', v'))))"


section \<open>Invariant, frame, and the shape of an operation's result\<close>

definition cf_ok :: "cfg \<Rightarrow> bool" where
  "cf_ok cf \<longleftrightarrow> (cf_small cf = 0 \<or> cf_tiny cf = 0) \<and> (cf_tcopy cf \<longrightarrow> cf_tdtor cf) \<and>
     (cf_tctor cf \<longrightarrow> cf_tdtor cf) \<and> static_count cf < 2 ^ cf_bits cf"

definition av_wf :: "cfg \<Rightarrow> 'v heap \<Rightarrow> 'v avec \<Rightarrow> 'v slots \<Rightarrow> bool" where
  "av_wf cf h v xs \<longleftrightarrow> hp_ok h \<and> length (av_static v) = static_count cf \<and> length xs = av_cap v \<and>
     av_cap v < 2 ^ cf_bits cf \<and>
     (if av_cap v = static_count cf
      then xs = av_static v \<and> (\<forall>b. av_items v \<noteq> Blk b) \<and>
        (cf_tiny cf = 0 \<longrightarrow> av_items v = (if cf_small cf = 0 then Null else Own))
      else static_count cf < av_cap v \<and>
        (\<exists>b. av_items v = Blk b \<and> hp_blocks h b = Some xs))"

definition av_frame :: "'v heap \<Rightarrow> 'v avec \<Rightarrow> 'v heap \<Rightarrow> 'v avec \<Rightarrow> bool" where
  "av_frame h v h' v' \<longleftrightarrow> hp_next h \<le> hp_next h' \<and>
     (\<forall>b<hp_next h. av_items v \<noteq> Blk b \<longrightarrow> hp_blocks h' b = hp_blocks h b \<and> av_items v' \<noteq> Blk b)"

definition av_does :: "cfg \<Rightarrow> 'v heap \<Rightarrow> 'v avec \<Rightarrow> ('v heap \<times> 'v avec) res \<Rightarrow> nat \<Rightarrow> 'v slots \<Rightarrow> bool" where
  "av_does cf h v r n xs \<longleftrightarrow> (\<exists>h' v'. r = Inr (h', v') \<and> av_wf cf h' v' xs \<and> av_size v' = n \<and>
     av_frame h v h' v')"

lemma av_wf_size [simp]: "av_wf cf h (v\<lparr>av_size := n\<rparr>) xs = av_wf cf h v xs"
  by (simp add: av_wf_def)

lemma av_frame_refl [simp]: "av_frame h v h v"
  by (simp add: av_frame_def)

lemma av_frame_size [simp]:
  "av_frame h (v\<lparr>av_size := n\<rparr>) h' v' = av_frame h v h' v'"
  "av_frame h v h' (v'\<lparr>av_size := n\<rparr>) = av_frame h v h' v'"
  by (simp_all add: av_frame_def)

lemma av_frame_trans: "av_frame h v h1 v1 \<Longrightarrow> av_frame h1 v1 h2 v2 \<Longrightarrow> av_frame h v h2 v2"
  unfolding av_frame_def by (metis order_less_le_trans order_trans)

lemma av_doesI:
  "r = Inr (h', v') \<Longrightarrow> av_wf cf h' v' xs \<Longrightarrow> av_size v' = n \<Longrightarrow> av_frame h v h' v' \<Longrightarrow>
   av_does cf h v r n xs"
  by (auto simp: av_does_def)

lemma av_does_bind:
  assumes "av_does cf h v r n xs"
    and "\<And>h1 v1. av_wf cf h1 v1 xs \<Longrightarrow> av_size v1 = n \<Longrightarrow> av_cap v1 = length xs \<Longrightarrow>
      av_does cf h1 v1 (f (h1, v1)) m ys"
  shows "av_does cf h v (bindR r f) m ys"
proof -
  obtain h1 v1 where r: "r = Inr (h1, v1)" "av_wf cf h1 v1 xs" "av_size v1 = n" "av_frame h v h1 v1"
    using assms(1) by (auto simp: av_does_def)
  then have "av_does cf h1 v1 (f (h1, v1)) m ys"
    using assms(2) by (auto simp: av_wf_def)
  then show ?thesis
    using r av_frame_trans unfolding av_does_def by fastforce
qed

lemma av_does_Inr: "av_wf cf h v xs \<Longrightarrow> av_size v = n \<Longrightarrow> av_does cf h v (Inr (h, v)) n xs"
  by (auto simp: av_does_def)

lemma av_wf_cap: "av_wf cf h v xs \<Longrightarrow> av_cap v = length xs \<and> length xs < 2 ^ cf_bits cf \<and> static_count cf \<le> length xs"
  by (auto simp: av_wf_def split: if_splits)

lemma hp_ok_blk: "hp_ok h \<Longrightarrow> hp_blocks h b = Some xs \<Longrightarrow> b < hp_next h"
  by (metis hp_ok_def linorder_not_less option.distinct(1))

lemma hp_ok_put: "hp_ok h \<Longrightarrow> b < hp_next h \<Longrightarrow> hp_ok (hp_put b xs h)"
  by (auto simp: hp_ok_def hp_put_def)

lemma at_items_does:
  assumes "cf_ok cf" "av_wf cf h v xs" "av_cap v \<noteq> 0" "f xs = Inr ys" "length ys = length xs"
  shows "av_does cf h v (at_items cf f h v) (av_size v) ys"
proof (cases "av_cap v = static_count cf")
  case True
  then show ?thesis
    using assms unfolding av_does_def
    by (auto simp: at_items_def items_upd_def tiny_upd_def items_mem_def items_put_def av_wf_def
        static_count_def cf_ok_def av_frame_def split: if_splits)
next
  case False
  then obtain b where b: "av_items v = Blk b" "hp_blocks h b = Some xs" "hp_ok h"
    using assms(2) by (auto simp: av_wf_def)
  have lt: "b < hp_next h" using b hp_ok_blk by blast
  have "cf_tiny cf = 0 \<or> av_cap v \<noteq> cf_tiny cf"
    using False by (auto simp: static_count_def)
  then have "at_items cf f h v = Inr (hp_put b ys h, v)"
    using b assms(4) by (simp add: at_items_def items_upd_def items_mem_def items_put_def)
  moreover have "av_wf cf (hp_put b ys h) v ys"
    using assms(2,5) False b hp_ok_put [OF b(3) lt] by (auto simp: av_wf_def hp_put_def)
  moreover have "av_frame h v (hp_put b ys h) v"
    using b by (auto simp: av_frame_def hp_put_def)
  ultimately show ?thesis by (auto simp: av_does_def)
qed

lemma av_data_ok: "cf_ok cf \<Longrightarrow> av_wf cf h v xs \<Longrightarrow> av_data cf h v = Inr xs"
  by (auto simp: av_data_def av_wf_def static_count_def items_mem_def cf_ok_def assertR_def split: if_splits)

lemma av_data_upd_does:
  assumes "cf_ok cf" "av_wf cf h v xs" "f xs = Inr ys" "length ys = length xs"
  shows "av_does cf h v (av_data_upd cf f h v) (av_size v) ys"
proof (cases "av_cap v = 0")
  case True
  then have "ys = []" "xs = []" using assms(2,4) by (auto simp: av_wf_def)
  then show ?thesis using assms True
    unfolding av_does_def av_data_upd_def av_data_ok [OF assms(1,2)]
    by (auto simp: items_put_def av_wf_def static_count_def)
next
  case False
  have "av_data_upd cf f h v = at_items cf f h v"
    using assms(1-3) False unfolding av_data_upd_def av_data_ok [OF assms(1,2)] at_items_def
    by (auto simp: items_upd_def tiny_upd_def items_mem_def items_put_def av_wf_def static_count_def cf_ok_def split: if_splits)
  then show ?thesis using at_items_does [where f = f, OF assms(1,2) False] assms(3,4) by simp
qed

lemma av_get_size_ok: "av_wf cf h v xs \<Longrightarrow> av_size v \<le> length xs \<Longrightarrow> av_get_size cf v = Inr (av_size v)"
  by (auto simp: av_wf_def av_get_size_def assertR_def split: if_splits)

section \<open>Runs of slots\<close>

lemma live_slot: "live xs 0 n \<Longrightarrow> i < n \<Longrightarrow> \<exists>x. xs ! i = Some x \<and> i < length xs"
  by (auto simp: live_iff)

lemma construct_from_ok:
  "live src 0 (i + k) \<Longrightarrow> i + k \<le> length dst \<Longrightarrow>
   construct_from i k src dst = Inr (take i dst @ take k (drop i src) @ drop (i + k) dst)"
proof (induction i k src dst rule: construct_from.induct)
  case (2 i k src dst)
  obtain x where x: "src ! i = Some x" "i < length src"
    using live_slot [OF 2(2), of i] by auto
  have "take (Suc i) (dst[i := Some x]) = take i dst @ [Some x]"
    using 2(3) by (simp add: take_Suc_conv_app_nth)
  moreover have "take (Suc k) (drop i src) = Some x # take k (drop (Suc i) src)"
    using x by (metis Cons_nth_drop_Suc take_Suc_Cons)
  ultimately show ?case
    using 2 x by (simp add: slot_get_def slot_new_def drop_update_cancel)
qed simp

lemma move_loop_ok:
  "live src i (i + k) \<Longrightarrow> i + k \<le> length dst \<Longrightarrow>
   \<exists>src'. move_loop td i k src dst = Inr (src', take i dst @ take k (drop i src) @ drop (i + k) dst) \<and>
     length src' = length src"
proof (induction k arbitrary: i src dst)
  case (Suc k)
  obtain x where x: "src ! i = Some x" "i < length src"
    using Suc(2) by (auto simp: live_iff)
  define src1 where "src1 = (if td then src else src[i := None])"
  have st: "(if td then Inr src else slot_del i src) = Inr src1"
    using x by (simp add: slot_del_def src1_def)
  have "live src1 (Suc i) (Suc i + k)"
    using Suc(2) by (auto simp: live_iff src1_def)
  moreover have "take (Suc i) (dst[i := Some x]) = take i dst @ [Some x]"
    using Suc(3) by (simp add: take_Suc_conv_app_nth)
  moreover have "take (Suc k) (drop i src) = Some x # take k (drop (Suc i) src)"
    using x by (metis Cons_nth_drop_Suc take_Suc_Cons)
  moreover have "drop (Suc i) src1 = drop (Suc i) src" "length src1 = length src"
    by (simp_all add: src1_def)
  moreover have "\<exists>src'. move_loop td (Suc i) k src1 (dst[i := Some x]) =
      Inr (src', take (Suc i) (dst[i := Some x]) @ take k (drop (Suc i) src1) @
        drop (Suc i + k) (dst[i := Some x])) \<and> length src' = length src1"
    using Suc(1) [of src1 "Suc i" "dst[i := Some x]"] calculation(1) Suc(3) by simp
  ultimately show ?case
    using Suc(3) x st
    by (simp add: slot_get_def slot_new_def drop_update_cancel)
qed simp

lemma raw_move_to_ok:
  assumes "live src 0 n" "n \<le> length dst"
  shows "\<exists>src'. raw_move_to cf n src dst = Inr (src', take n src @ drop n dst) \<and> length src' = length src"
  using assms move_loop_ok [of src 0 n dst "cf_tdtor cf"]
  by (auto simp: raw_move_to_def block_copy_def live_def)

lemma move_static_ok:
  assumes "live src 0 n" "n \<le> length dst"
  shows "\<exists>src'. move_static cf n src dst = Inr (src', take n src @ drop n dst) \<and> length src' = length src"
  using raw_move_to_ok [OF assms, of cf] by (simp add: raw_move_to_def move_static_def)

lemma raw_create_from_ok:
  "live src 0 n \<Longrightarrow> n \<le> length dst \<Longrightarrow> raw_create_from cf n src dst = Inr (take n src @ drop n dst)"
  using construct_from_ok [of src 0 n dst] by (auto simp: raw_create_from_def block_copy_def live_def)

section \<open>Growing\<close>

lemma set_items_simps [simp]:
  "av_size (set_items cf p v) = av_size v" "av_cap (set_items cf p v) = av_cap v"
  "av_items (set_items cf p v) = p"
  by (simp_all add: set_items_def)

lemma length_set_items_static:
  "length (av_static v) = static_count cf \<Longrightarrow> length (av_static (set_items cf p v)) = static_count cf"
  by (simp add: set_items_def static_count_def)

lemma hp_alloc_ok:
  assumes "hp_ok h" "hp_alloc n h = (b, h1)"
  shows "b = hp_next h" "hp_ok h1" "hp_blocks h1 = (hp_blocks h)(b := Some (replicate n None))"
    "hp_next h1 = Suc (hp_next h)"
  using assms by (auto simp: hp_alloc_def hp_put_def hp_ok_def)

lemma av_ensure_does:
  assumes cf: "cf_ok cf" and wf: "av_wf cf h v xs" and lv: "live xs 0 (av_size v)"
    and nc: "av_size v \<le> nc" "static_count cf < nc" "nc < 2 ^ cf_bits cf" "nc \<noteq> av_cap v"
  shows "av_does cf h v (av_ensure cf nc h v) (av_size v)
    (take (av_size v) xs @ replicate (nc - av_size v) None)"
proof -
  let ?n = "av_size v" and ?ys = "take (av_size v) xs @ replicate (nc - av_size v) None"
  have len: "?n \<le> length xs" "length ?ys = nc"
    using lv nc(1) by (auto simp: live_def)
  obtain b h1 where al: "hp_alloc nc h = (b, h1)" by force
  have ok: "hp_ok h" using wf by (simp add: av_wf_def)
  note A = hp_alloc_ok [OF ok al]
  have tn: "cf_tiny cf < nc" using nc(2) cf by (auto simp: static_count_def cf_ok_def split: if_splits)
  have dst: "take ?n xs @ drop ?n (replicate nc None) = ?ys" by (simp add: drop_replicate)
  show ?thesis
  proof (cases "av_cap v = static_count cf")
    case False
    then obtain c where c: "av_items v = Blk c" "hp_blocks h c = Some xs" "static_count cf < av_cap v"
      using wf by (auto simp: av_wf_def)
    have cb: "c < hp_next h" "c \<noteq> b" using hp_ok_blk [OF ok c(2)] A(1) by auto
    obtain src' where mv: "raw_move_to cf ?n xs (replicate nc None) = Inr (src', ?ys)" "length src' = length xs"
      using raw_move_to_ok [OF lv, of "replicate nc None" cf] nc(1) dst by auto
    let ?h3 = "h1\<lparr>hp_blocks := (hp_blocks h)(b := Some ?ys, c := None)\<rparr>"
    have "av_ensure cf nc h v = Inr (?h3, set_items cf (Blk b) (v\<lparr>av_cap := nc\<rparr>))"
      using nc(4) al c cb A mv tn False wf
      by (auto simp: av_ensure_def items_mem_def items_put_def hp_free_def hp_put_def av_wf_def fun_upd_twist)
    moreover have "av_wf cf ?h3 (set_items cf (Blk b) (v\<lparr>av_cap := nc\<rparr>)) ?ys"
      using wf A nc cb len(2) ok by (auto simp: av_wf_def hp_ok_def set_items_def static_count_def)
    moreover have "av_frame h v ?h3 (set_items cf (Blk b) (v\<lparr>av_cap := nc\<rparr>))"
      using A cb c by (auto simp: av_frame_def)
    ultimately show ?thesis by (intro av_doesI) auto
  next
    case True
    have xs: "xs = av_static v" using wf True by (simp add: av_wf_def)
    define st where "st = (if static_count cf \<noteq> 0 then fst (projr (move_static cf ?n (av_static v) (replicate nc None)))
        else av_static v)"
    obtain src' where mv: "move_static cf ?n xs (replicate nc None) = Inr (src', ?ys)" "length src' = length xs"
      using move_static_ok [OF lv, of "replicate nc None" cf] nc(1) dst by auto
    have st: "length st = static_count cf"
      using mv xs wf by (auto simp: st_def av_wf_def)
    let ?h3 = "h1\<lparr>hp_blocks := (hp_blocks h)(b := Some ?ys)\<rparr>" and
      ?v3 = "set_items cf (Blk b) (v\<lparr>av_static := st, av_cap := nc\<rparr>)"
    have z: "static_count cf = 0 \<Longrightarrow> ?ys = replicate nc None"
      using wf True len(1) by (simp add: av_wf_def)
    have "av_ensure cf nc h v = Inr (?h3, ?v3)"
    proof (cases "static_count cf = 0")
      case True2: True
      have "h1 = ?h3" using z [OF True2] A(3) by simp
      then show ?thesis
        using nc(4) al tn True True2 by (simp add: av_ensure_def st_def)
    next
      case False
      then show ?thesis
        using nc(4) al mv tn True xs A by (simp add: av_ensure_def hp_put_def st_def)
    qed
    moreover have "av_wf cf ?h3 ?v3 ?ys"
      using wf A nc len(2) ok st length_set_items_static
      by (auto simp: av_wf_def hp_ok_def set_items_def static_count_def)
    moreover have "av_frame h v ?h3 ?v3"
      using A by (auto simp: av_frame_def)
    ultimately show ?thesis by (intro av_doesI) auto
  qed
qed

section \<open>The sequence a vector stores\<close>

definition av_rep :: "cfg \<Rightarrow> 'v heap \<Rightarrow> 'v avec \<Rightarrow> 'v list \<Rightarrow> bool" where
  "av_rep cf h v ys \<longleftrightarrow> (\<exists>xs. av_wf cf h v xs \<and> av_size v = length ys \<and> length ys \<le> length xs \<and>
     take (length ys) xs = map Some ys)"

definition av_yields :: "cfg \<Rightarrow> 'v heap \<Rightarrow> 'v avec \<Rightarrow> ('v heap \<times> 'v avec) res \<Rightarrow> 'v list \<Rightarrow> bool" where
  "av_yields cf h v r ys \<longleftrightarrow> (\<exists>h' v'. r = Inr (h', v') \<and> av_rep cf h' v' ys \<and> av_frame h v h' v')"

lemma av_repD:
  assumes "av_rep cf h v ys"
  obtains xs where "av_wf cf h v xs" "av_size v = length ys" "length ys \<le> length xs"
    "take (length ys) xs = map Some ys" "av_cap v = length xs" "length xs < 2 ^ cf_bits cf"
    "static_count cf \<le> length xs" "live xs 0 (length ys)"
proof -
  obtain xs where x: "av_wf cf h v xs" "av_size v = length ys" "length ys \<le> length xs"
    "take (length ys) xs = map Some ys"
    using assms by (auto simp: av_rep_def)
  have "live xs 0 (length ys)"
    using x by (simp add: live_def list_all_iff)
  then show thesis using that x av_wf_cap by blast
qed

lemma av_rep_nth: "take (length ys) xs = map Some ys \<Longrightarrow> i < length ys \<Longrightarrow> xs ! i = Some (ys ! i)"
  by (metis nth_map nth_take)

lemma av_yieldsI:
  "av_does cf h v r (length ys) xs \<Longrightarrow> length ys \<le> length xs \<Longrightarrow> take (length ys) xs = map Some ys \<Longrightarrow>
   av_yields cf h v r ys"
  unfolding av_does_def av_yields_def av_rep_def by metis

lemma av_yields_bind:
  "av_yields cf h v r ys \<Longrightarrow> (\<And>h1 v1. av_rep cf h1 v1 ys \<Longrightarrow> av_yields cf h1 v1 (f (h1, v1)) zs) \<Longrightarrow>
   av_yields cf h v (bindR r f) zs"
  unfolding av_yields_def using av_frame_trans by fastforce

lemma av_yields_Inr: "av_rep cf h v ys \<Longrightarrow> av_yields cf h v (Inr (h, v)) ys"
  by (auto simp: av_yields_def)

lemma av_rep_cap: "av_rep cf h v ys \<Longrightarrow> length ys \<le> av_cap v \<and> av_cap v < 2 ^ cf_bits cf \<and> av_size v = length ys"
  by (elim av_repD) auto

lemma growth_size_less: "growth_size c n < 2 ^ c"
  by (simp add: growth_size_def trunc_less)

lemma growth_size_grows: "n \<le> 128 \<Longrightarrow> n + 16 + n div 2 < 2 ^ c \<Longrightarrow> n < growth_size c n"
  "128 < n \<Longrightarrow> 2 * n < 2 ^ c \<Longrightarrow> n < growth_size c n"
  by (auto simp: growth_size_def trunc_id)

section \<open>Adding and removing at the end\<close>

lemma av_add_keep_does:
  assumes "cf_ok cf" "av_wf cf h v xs" "av_size v < length xs"
  shows "av_does cf h v (av_add_keep cf x h v) (av_size v + 1) (xs[av_size v := Some x])"
proof -
  have c: "av_cap v = length xs" using av_wf_cap [OF assms(2)] by simp
  have "av_does cf h v (at_items cf (slot_new (av_size v) x) h v) (av_size v) (xs[av_size v := Some x])"
    using assms c by (intro at_items_does [OF assms(1,2)]) (auto simp: slot_new_def)
  then show ?thesis
    using assms(3) c by (auto simp: av_add_keep_def av_does_def)
qed

lemma take_update_append:
  "take (length ys) xs = map Some ys \<Longrightarrow> length ys < length xs \<Longrightarrow>
   take (length (ys @ [x])) (xs[length ys := Some x]) = map Some (ys @ [x])"
  by (simp add: take_Suc_conv_app_nth)

lemma av_add_keep_yields:
  assumes "cf_ok cf" "av_rep cf h v ys" "length ys < av_cap v"
  shows "av_yields cf h v (av_add_keep cf x h v) (ys @ [x])"
proof -
  obtain xs where xs: "av_wf cf h v xs" "av_size v = length ys" "length ys < length xs"
    "take (length ys) xs = map Some ys"
    using assms(2,3) by (elim av_repD) auto
  then show ?thesis
    using av_add_keep_does [OF assms(1) xs(1), of x] take_update_append [OF xs(4,3)]
    by (intro av_yieldsI) auto
qed

lemma av_ensure_yields:
  assumes "cf_ok cf" "av_rep cf h v ys" "length ys \<le> nc" "static_count cf < nc" "nc < 2 ^ cf_bits cf"
    "nc \<noteq> av_cap v"
  shows "\<exists>h' v'. av_ensure cf nc h v = Inr (h', v') \<and> av_rep cf h' v' ys \<and> av_cap v' = nc \<and> av_frame h v h' v'"
proof -
  obtain xs where xs: "av_wf cf h v xs" "av_size v = length ys" "length ys \<le> length xs"
    "take (length ys) xs = map Some ys" "live xs 0 (length ys)"
    using assms(2) by (elim av_repD) auto
  have "av_does cf h v (av_ensure cf nc h v) (length ys) (map Some ys @ replicate (nc - length ys) None)"
    using av_ensure_does [OF assms(1) xs(1), of nc] xs assms by simp
  then obtain h' v' where r: "av_ensure cf nc h v = Inr (h', v')"
    "av_wf cf h' v' (map Some ys @ replicate (nc - length ys) None)" "av_size v' = length ys" "av_frame h v h' v'"
    by (auto simp: av_does_def)
  moreover have "av_rep cf h' v' ys"
    using r unfolding av_rep_def by fastforce
  moreover have "av_cap v' = nc"
    using av_wf_cap [OF r(2)] assms(3) by simp
  ultimately show ?thesis by blast
qed

lemma av_make_room:
  assumes "cf_ok cf" "av_rep cf h v ys" "length ys < av_cap v \<or> length ys < growth_size (cf_bits cf) (length ys)"
  shows "\<exists>h' v'. (if av_size v = av_cap v then av_ensure cf (growth_size (cf_bits cf) (av_size v)) h v else Inr (h, v))
      = Inr (h', v') \<and> av_rep cf h' v' ys \<and> length ys < av_cap v' \<and> av_frame h v h' v'"
proof (cases "av_size v = av_cap v")
  case True
  then have n: "length ys = av_cap v" "static_count cf \<le> length ys"
    using av_rep_cap [OF assms(2)] av_repD [OF assms(2)] by (metis, metis)
  let ?g = "growth_size (cf_bits cf) (length ys)"
  have g: "length ys < ?g" using assms(3) n by simp
  obtain h' v' where "av_ensure cf ?g h v = Inr (h', v')" "av_rep cf h' v' ys" "av_cap v' = ?g" "av_frame h v h' v'"
    using av_ensure_yields [OF assms(1,2) less_imp_le [OF g] le_less_trans [OF n(2) g] growth_size_less] g n(1) by auto
  then show ?thesis using True n(1) g by (intro exI [of _ h'] exI [of _ v']) simp
next
  case False
  then show ?thesis using assms av_rep_cap [OF assms(2)] by auto
qed

lemma av_add_yields:
  assumes "cf_ok cf" "av_rep cf h v ys" "length ys < av_cap v \<or> length ys < growth_size (cf_bits cf) (length ys)"
  shows "av_yields cf h v (av_add cf x h v) (ys @ [x])"
  using av_make_room [OF assms] av_add_keep_yields [OF assms(1)] av_frame_trans
  unfolding av_add_def av_yields_def by fastforce

lemma av_reserve_yields:
  assumes "cf_ok cf" "av_rep cf h v ys" "n < 2 ^ cf_bits cf"
  shows "\<exists>h' v'. av_reserve cf n h v = Inr (av_cap v < n, h', v') \<and> av_rep cf h' v' ys \<and>
    av_cap v' = max n (av_cap v) \<and> av_frame h v h' v'"
proof (cases "av_cap v < n")
  case True
  have "static_count cf \<le> av_cap v" using assms(2) by (auto elim: av_repD)
  then show ?thesis
    using True av_ensure_yields [OF assms(1,2), of n] assms(3) av_rep_cap [OF assms(2)]
    by (fastforce simp: av_reserve_def safe_range_cast_ok max_def)
next
  case False
  then show ?thesis using assms(2) by (simp add: av_reserve_def)
qed

lemma av_del_does:
  assumes "cf_ok cf" "av_wf cf h v xs" "i < length xs" "xs ! i \<noteq> None"
  shows "av_does cf h v (av_del cf i h v) (av_size v) (if cf_tdtor cf then xs else xs[i := None])"
proof (cases "cf_tdtor cf")
  case True
  then show ?thesis using assms by (simp add: av_del_def av_does_Inr)
next
  case False
  have "av_cap v \<noteq> 0" using av_wf_cap [OF assms(2)] assms(3) by auto
  then show ?thesis
    using False assms at_items_does [OF assms(1,2), of "slot_del i" "xs[i := None]"]
    by (simp add: av_del_def slot_del_def)
qed

definition dead_from :: "cfg \<Rightarrow> nat \<Rightarrow> nat \<Rightarrow> 'v slots \<Rightarrow> 'v slots" where
  "dead_from cf n m xs = (if cf_tdtor cf then xs else take n xs @ replicate (m - n) None @ drop (max n m) xs)"

lemma length_dead_from [simp]: "m \<le> length xs \<Longrightarrow> n \<le> length xs \<Longrightarrow> length (dead_from cf n m xs) = length xs"
  by (auto simp: dead_from_def)

lemma take_dead_from: "n \<le> length xs \<Longrightarrow> take n (dead_from cf n m xs) = take n xs"
  by (simp add: dead_from_def)

lemma dead_from_step:
  assumes "n \<le> m" "m < length xs"
  shows "dead_from cf n m (if cf_tdtor cf then xs else xs[m := None]) = dead_from cf n (Suc m) xs"
proof -
  have "replicate (Suc m - n) (None :: 'a option) = replicate (m - n) None @ [None]"
    using assms(1) by (simp add: Suc_diff_le replicate_append_same)
  moreover have "drop m (xs[m := None]) = None # drop (Suc m) xs"
    using assms(2) by (metis Cons_nth_drop_Suc drop_update_cancel length_list_update lessI nth_list_update_eq)
  ultimately show ?thesis
    using assms by (simp add: dead_from_def max_def)
qed

lemma pop_loop_does:
  assumes "cf_ok cf"
  shows "av_wf cf h v xs \<Longrightarrow> live xs 0 m \<Longrightarrow> n \<le> m \<Longrightarrow>
    av_does cf h v (pop_loop cf n m (h, v)) (av_size v) (dead_from cf n m xs)"
proof (induction m arbitrary: h v xs)
  case 0
  then show ?case by (simp add: dead_from_def av_does_Inr)
next
  case (Suc m)
  show ?case
  proof (cases "n < Suc m")
    case True
    have m: "m < length xs" "xs ! m \<noteq> None" using Suc(3) by (auto simp: live_iff)
    let ?ys = "if cf_tdtor cf then xs else xs[m := None]"
    have lv: "live ?ys 0 m" using Suc(3) by (auto simp: live_iff)
    have "av_does cf h v (bindR (av_del cf m h v) (pop_loop cf n m)) (av_size v) (dead_from cf n m ?ys)"
    proof (rule av_does_bind [OF av_del_does [OF assms Suc(2) m]])
      fix h1 v1 assume "av_wf cf h1 v1 ?ys" "av_size v1 = av_size v"
      then show "av_does cf h1 v1 (pop_loop cf n m (h1, v1)) (av_size v) (dead_from cf n m ?ys)"
        using Suc(1) [of h1 v1 ?ys, OF _ lv] True by (metis less_Suc_eq_le)
    qed
    then show ?thesis using True dead_from_step [OF _ m(1), of n cf] by simp
  next
    case False
    then have "n = Suc m" using Suc(4) by simp
    moreover have "length xs \<ge> Suc m" using Suc(3) by (simp add: live_def)
    ultimately show ?thesis using Suc(2) by (simp add: dead_from_def av_does_Inr)
  qed
qed

lemma av_pop_to_does:
  assumes "cf_ok cf" "av_wf cf h v xs" "live xs 0 (av_size v)" "n \<le> av_size v"
  shows "av_does cf h v (av_pop_to cf n h v) n (dead_from cf n (av_size v) xs)"
proof -
  have "av_does cf h v (if is_trivial cf then Inr (h, v) else pop_loop cf n (av_size v) (h, v)) (av_size v)
      (dead_from cf n (av_size v) xs)"
    using pop_loop_does [OF assms] assms by (auto simp: is_trivial_def cf_ok_def dead_from_def av_does_Inr)
  then show ?thesis unfolding av_pop_to_def
    by (rule av_does_bind) (auto simp: av_does_def)
qed

lemma av_pop_to_yields:
  assumes "cf_ok cf" "av_rep cf h v ys" "n \<le> length ys"
  shows "av_yields cf h v (av_pop_to cf n h v) (take n ys)"
  using assms(2)
proof (elim av_repD)
  fix xs assume xs: "av_wf cf h v xs" "av_size v = length ys" "length ys \<le> length xs"
    "take (length ys) xs = map Some ys" "live xs 0 (length ys)"
  have "take n (dead_from cf n (length ys) xs) = map Some (take n ys)"
    using xs(3,4) assms(3) by (metis min.absorb1 order_trans take_dead_from take_map take_take)
  then show ?thesis
    using av_pop_to_does [OF assms(1) xs(1), of n] xs assms(3) by (intro av_yieldsI) auto
qed

lemma av_clear_yields: "cf_ok cf \<Longrightarrow> av_rep cf h v ys \<Longrightarrow> av_yields cf h v (av_clear cf h v) []"
  unfolding av_clear_def using av_pop_to_yields [of cf h v ys 0] by simp

lemma av_pop_yields:
  assumes "cf_ok cf" "av_rep cf h v ys" "ys \<noteq> []"
  shows "av_yields cf h v (av_pop cf h v) (butlast ys)"
  using assms(2)
proof (elim av_repD)
  fix xs assume xs: "av_wf cf h v xs" "av_size v = length ys" "length ys \<le> length xs"
    "take (length ys) xs = map Some ys" "live xs 0 (length ys)"
  let ?n = "length ys - 1" and ?v = "v\<lparr>av_size := length ys - 1\<rparr>"
  have n: "?n < length ys" using assms(3) by simp
  have "xs ! ?n \<noteq> None" using xs(3,5) n by (auto simp: live_iff)
  then have "av_does cf h ?v (av_del cf ?n h ?v) ?n (if cf_tdtor cf then xs else xs[?n := None])"
    using av_del_does [OF assms(1), of h ?v xs ?n] xs(1,3) n by simp
  moreover have "take ?n xs = map Some (butlast ys)"
    using xs(3,4) n by (simp add: butlast_conv_take take_map [symmetric]) (metis min.absorb1 n nat_less_le take_take)
  ultimately have "av_yields cf h ?v (av_del cf ?n h ?v) (butlast ys)"
    using xs(3) n av_yieldsI [of cf h ?v "av_del cf ?n h ?v" "butlast ys" "if cf_tdtor cf then xs else xs[?n := None]"]
    by simp
  then show ?thesis unfolding av_pop_def Let_def xs(2) using assms(3) by (simp add: av_yields_def)
qed

lemma av_get_ok: "cf_ok cf \<Longrightarrow> av_rep cf h v ys \<Longrightarrow>
    av_get cf i h v = (if i < length ys then Inr (ys ! i) else Inl AssertFail)"
  by (elim av_repD) (auto simp: av_get_def av_data_ok slot_get_def av_rep_nth)

lemma av_back_ok: "cf_ok cf \<Longrightarrow> av_rep cf h v ys \<Longrightarrow>
    av_back cf h v = (if ys = [] then Inl AssertFail else Inr (last ys))"
  by (cases "ys = []"; elim av_repD)
    (auto simp: av_back_def av_data_ok slot_get_def av_rep_nth last_conv_nth simp flip: length_greater_0_conv)

section \<open>Runs of constructions\<close>

lemma run_step:
  assumes "i < length xs"
  shows "take (Suc i) (xs[i := Some (g i)]) @ map (Some \<circ> g) [Suc i..<Suc i + k] @ drop (Suc i + k) (xs[i := Some (g i)])
    = take i xs @ map (Some \<circ> g) [i..<i + Suc k] @ drop (i + Suc k) xs"
proof -
  have "[i..<i + Suc k] = i # [Suc i..<Suc i + k]" by (simp add: upt_rec)
  then show ?thesis using assms by (simp add: take_Suc_conv_app_nth drop_update_cancel)
qed

lemma insert_run_does:
  assumes "cf_ok cf" "\<And>f h v. av_cap v = c \<Longrightarrow> upd f h v = at_items cf f h v"
  shows "av_wf cf h v xs \<Longrightarrow> av_cap v = c \<Longrightarrow> i + k \<le> length xs \<Longrightarrow>
    av_does cf h v (insert_run upd g i k (h, v)) (av_size v)
      (take i xs @ map (Some \<circ> g) [i..<i + k] @ drop (i + k) xs)"
proof (induction k arbitrary: i h v xs)
  case 0
  then show ?case by (simp add: av_does_Inr)
next
  case (Suc k)
  let ?ys = "xs[i := Some (g i)]"
  have i: "i < length xs" "av_cap v \<noteq> 0" "c = length xs" using Suc(3,4) av_wf_cap [OF Suc(2)] by auto
  have "av_does cf h v (at_items cf (slot_new i (g i)) h v) (av_size v) ?ys"
    using i by (intro at_items_does [OF assms(1) Suc(2)]) (auto simp: slot_new_def)
  then have "av_does cf h v (bindR (upd (slot_new i (g i)) h v) (insert_run upd g (Suc i) k)) (av_size v)
      (take (Suc i) ?ys @ map (Some \<circ> g) [Suc i..<Suc i + k] @ drop (Suc i + k) ?ys)"
    unfolding assms(2) [OF Suc(3)]
  proof (rule av_does_bind)
    fix h1 v1 assume a: "av_wf cf h1 v1 ?ys" "av_size v1 = av_size v" "av_cap v1 = length ?ys"
    show "av_does cf h1 v1 (insert_run upd g (Suc i) k (h1, v1)) (av_size v)
      (take (Suc i) ?ys @ map (Some \<circ> g) [Suc i..<Suc i + k] @ drop (Suc i + k) ?ys)"
      using Suc(1) [OF a(1), of "Suc i"] a(2,3) i Suc(4) by (metis add_Suc_shift length_list_update)
  qed
  then show ?case unfolding run_step [OF i(1)] by (simp add: comp_def)
qed

lemma run_take:
  assumes "take (length ys) xs = map Some ys" "length ys + k \<le> length xs"
  shows "take (length ys + k) (take (length ys) xs @ map (Some \<circ> g) [length ys..<length ys + k] @ drop (length ys + k) xs)
    = map Some (ys @ map g [length ys..<length ys + k])"
  using assms by simp

lemma insert_run_yields:
  assumes "cf_ok cf" "\<And>f h v. av_cap v = c \<Longrightarrow> upd f h v = at_items cf f h v"
    "av_rep cf h v ys" "av_cap v = c" "length ys + k \<le> c"
  shows "av_yields cf h v
     (bindR (insert_run upd g (length ys) k (h, v)) (\<lambda>(h', v'). Inr (h', v'\<lparr>av_size := length ys + k\<rparr>)))
     (ys @ map g [length ys..<length ys + k])"
  using assms(3)
proof (elim av_repD)
  fix xs assume xs: "av_wf cf h v xs" "av_size v = length ys" "take (length ys) xs = map Some ys"
    "av_cap v = length xs"
  let ?zs = "take (length ys) xs @ map (Some \<circ> g) [length ys..<length ys + k] @ drop (length ys + k) xs"
  have "av_does cf h v (insert_run upd g (length ys) k (h, v)) (av_size v) ?zs"
    using insert_run_does [OF assms(1,2) xs(1) assms(4), of "length ys" k g] xs(2,4) assms(4,5) by simp
  then have "av_does cf h v (bindR (insert_run upd g (length ys) k (h, v))
      (\<lambda>(h', v'). Inr (h', v'\<lparr>av_size := length ys + k\<rparr>))) (length ys + k) ?zs"
    by (auto simp: av_does_def)
  then show ?thesis
    using run_take [OF xs(3), of k g] assms(4,5) xs(4) by (intro av_yieldsI [where xs = ?zs]) auto
qed

lemma av_add_multiple_yields:
  assumes "cf_ok cf" "av_rep cf h v ys" "length ys + cnt < 2 ^ cf_bits cf"
  shows "av_yields cf h v (av_add_multiple cf cnt g h v) (ys @ map g [length ys..<length ys + cnt])"
proof -
  let ?n = "length ys + cnt"
  have sz: "av_size v = length ys" "static_count cf \<le> av_cap v" using assms(2) by (auto elim: av_repD)
  obtain h' v' where r: "av_reserve cf ?n h v = Inr (av_cap v < ?n, h', v')" "av_rep cf h' v' ys"
    "av_cap v' = max ?n (av_cap v)" "av_frame h v h' v'"
    using av_reserve_yields [OF assms] by auto
  have sz': "av_size v' = length ys" using r(2) av_rep_cap by blast
  let ?upd = "if cf_tiny cf = 0 \<or> av_cap v < ?n \<or> av_cap v' \<noteq> cf_tiny cf then items_upd else tiny_upd"
  have upd: "?upd f h1 v1 = at_items cf f h1 v1" if "av_cap v1 = av_cap v'" for f h1 v1
    using that r(3) sz(2) by (auto simp: at_items_def static_count_def max_def split: if_splits)
  have "av_yields cf h' v' (bindR (insert_run ?upd g (length ys) cnt (h', v'))
      (\<lambda>(h', v'). Inr (h', v'\<lparr>av_size := ?n\<rparr>))) (ys @ map g [length ys..<?n])"
    by (rule insert_run_yields [OF assms(1) upd r(2)]) (auto simp: r(3))
  then have "av_yields cf h v (bindR (insert_run ?upd g (length ys) cnt (h', v'))
      (\<lambda>(h', v'). Inr (h', v'\<lparr>av_size := ?n\<rparr>))) (ys @ map g [length ys..<?n])"
    using r(4) av_frame_trans unfolding av_yields_def by blast
  then show ?thesis
    using assms(3) r(1) sz sz' by (simp add: av_add_multiple_def safe_range_cast_ok trunc_id Let_def)
qed

lemma push_loop_run: "push_loop cf dv i k hv = insert_run (at_items cf) (\<lambda>_. dv) i k hv"
  proof (induction k arbitrary: i hv)
  case (Suc k)
  then have "push_loop cf dv (Suc i) k = insert_run (at_items cf) (\<lambda>_. dv) (Suc i) k" by blast
  then show ?case by simp
qed simp

lemma map_const_upt: "map (\<lambda>_. x) [a..<a + k] = replicate k x"
  by (simp add: map_replicate_const)

lemma av_push_to_yields:
  assumes "cf_ok cf" "av_rep cf h v ys" "\<not> cf_tctor cf" "length ys \<le> n" "n \<le> av_cap v"
  shows "av_yields cf h v (av_push_to cf dv n h v) (ys @ replicate (n - length ys) dv)"
  using insert_run_yields [OF assms(1) refl assms(2) refl, of "n - length ys" "\<lambda>_. dv"] assms
    av_rep_cap [OF assms(2)] map_const_upt [of dv "length ys" "n - length ys"]
  by (simp add: av_push_to_def push_loop_run)

lemma zero_fill_yields:
  assumes "cf_ok cf" "av_rep cf h v ys" "length ys \<le> n" "n \<le> av_cap v"
  shows "av_yields cf h v (bindR (av_data_upd cf (zero_fill (length ys) (n - length ys) dv) h v)
     (\<lambda>(h', v'). Inr (h', v'\<lparr>av_size := n\<rparr>))) (ys @ replicate (n - length ys) dv)"
  using assms(2)
proof (elim av_repD)
  fix xs assume xs: "av_wf cf h v xs" "av_size v = length ys" "length ys \<le> length xs"
    "take (length ys) xs = map Some ys" "av_cap v = length xs"
  let ?zs = "take (length ys) xs @ replicate (n - length ys) (Some dv) @ drop n xs"
  have "av_does cf h v (av_data_upd cf (zero_fill (length ys) (n - length ys) dv) h v) (av_size v) ?zs"
    using assms(3,4) xs by (intro av_data_upd_does [OF assms(1) xs(1)]) (auto simp: zero_fill_def)
  then have "av_does cf h v (bindR (av_data_upd cf (zero_fill (length ys) (n - length ys) dv) h v)
     (\<lambda>(h', v'). Inr (h', v'\<lparr>av_size := n\<rparr>))) n ?zs"
    by (auto simp: av_does_def)
  then show ?thesis
    using assms(3,4) xs by (intro av_yieldsI [where xs = ?zs]) auto
qed

lemma grow_to_yields:
  assumes "cf_ok cf" "av_rep cf h v ys" "n \<le> nc" "nc < 2 ^ cf_bits cf" "length ys \<le> n"
  shows "\<exists>h' v'. (if av_cap v < n then assertR (n \<le> nc) (bindR (safe_range_cast (cf_bits cf) nc) (\<lambda>c. av_ensure cf c h v))
       else Inr (h, v)) = Inr (h', v') \<and> av_rep cf h' v' ys \<and> n \<le> av_cap v' \<and> av_frame h v h' v'"
proof (cases "av_cap v < n")
  case True
  have "static_count cf \<le> av_cap v" using assms(2) by (auto elim: av_repD)
  then show ?thesis
    using True av_ensure_yields [OF assms(1,2), of nc] assms(3-5)
    by (auto simp: safe_range_cast_ok)
qed (use assms(2) in auto)

lemma av_resize_yields:
  assumes "cf_ok cf" "av_rep cf h v ys" "n \<le> nc" "nc < 2 ^ cf_bits cf"
  shows "av_yields cf h v (av_resize cf dv n nc h v) (take n ys @ replicate (n - length ys) dv)"
proof (cases "n < length ys")
  case True
  then show ?thesis
    using assms av_rep_cap [OF assms(2)] av_pop_to_yields [OF assms(1,2), of n]
    by (simp add: av_resize_def safe_range_cast_ok)
next
  case False
  then have n: "length ys \<le> n" by simp
  obtain h1 v1 where g: "(if av_cap v < n then assertR (n \<le> nc)
      (bindR (safe_range_cast (cf_bits cf) nc) (\<lambda>c. av_ensure cf c h v)) else Inr (h, v)) = Inr (h1, v1)"
    "av_rep cf h1 v1 ys" "n \<le> av_cap v1" "av_frame h v h1 v1"
    using grow_to_yields [OF assms(1-4) n] by blast
  note sz = av_rep_cap [OF assms(2)] av_rep_cap [OF g(2)]
  have c: "safe_range_cast (cf_bits cf) n = Inr n" using assms(3,4) by (simp add: safe_range_cast_ok)
  let ?rest = "bindR (if cf_tctor cf then av_data_upd cf (zero_fill (av_size v1) (n - av_size v1) dv) h1 v1
      else Inr (h1, v1)) (\<lambda>(h2, v2). bindR (safe_range_cast (cf_bits cf) n) (\<lambda>c. av_push_to cf dv c h2 v2))"
  have "av_yields cf h1 v1 ?rest (ys @ replicate (n - length ys) dv)"
    using av_push_to_yields [OF assms(1) g(2) _ n g(3), of dv] zero_fill_yields [OF assms(1) g(2) n g(3), of dv] sz c
    by (auto simp: av_push_to_def split_def)
  then have "av_yields cf h v ?rest (ys @ replicate (n - length ys) dv)"
    using g(4) av_frame_trans unfolding av_yields_def by blast
  moreover have "av_resize cf dv n nc h v = ?rest"
    unfolding av_resize_def g(1) using False sz by simp
  ultimately show ?thesis using n by simp
qed

lemma av_resize_fast_size:
  assumes "cf_ok cf" "av_rep cf h v ys" "cf_tctor cf" "length ys \<le> n" "n \<le> nc" "nc < 2 ^ cf_bits cf"
  shows "\<exists>h' v'. av_resize_fast cf dv n nc h v = Inr (h', v'\<lparr>av_size := n\<rparr>) \<and> av_rep cf h' v' ys \<and>
    n \<le> av_cap v' \<and> av_frame h v h' v'"
  using grow_to_yields [OF assms(1,2,5,6,4)] assms
  by (fastforce simp: av_resize_fast_def av_resize_fast_keep_def safe_range_cast_ok)

lemma av_rep_get_size: "av_rep cf h v ys \<Longrightarrow> av_get_size cf v = Inr (length ys)"
  by (elim av_repD) (metis av_get_size_ok)

section \<open>Erasing and inserting by position\<close>

lemma take_nthI: "n \<le> length xs \<Longrightarrow> length ys = n \<Longrightarrow> (\<And>i. i < n \<Longrightarrow> xs ! i = Some (ys ! i)) \<Longrightarrow>
   take n xs = map Some ys"
  by (intro nth_equalityI) auto

lemma av_erase_range_yields:
  assumes "cf_ok cf" "av_rep cf h v ys" "a < b" "b \<le> length ys"
  shows "av_yields cf h v (av_erase_range cf a b h v) (take a ys @ drop b ys)"
  using assms(2)
proof (elim av_repD)
  fix xs assume xs: "av_wf cf h v xs" "av_size v = length ys" "length ys \<le> length xs"
    "take (length ys) xs = map Some ys" "live xs 0 (length ys)"
  let ?n = "length ys" and ?c = "b - a" and ?m = "length ys - (b - a)"
  have lv: "live xs a (a + ?c + (?n - b))" using xs(5) assms(3,4) by (auto simp: live_iff)
  obtain zs where zs: "move_back_by_offset a ?c (?n - b) xs = Inr zs" "length zs = length xs"
    "\<forall>i. zs ! i = (if a \<le> i \<and> i < a + (?n - b) then xs ! (i + ?c) else xs ! i)"
    using move_back_by_offset_ok [OF _ lv] assms(3) by auto
  have lz: "live zs 0 ?n" using xs(3,5) zs(2,3) assms(3,4) by (auto simp: live_iff)
  let ?zs = "dead_from cf ?m ?n zs"
  have "av_does cf h v (bindR (av_data_upd cf (move_back_by_offset a ?c (?n - b)) h v)
      (\<lambda>(h', v'). av_pop_to cf ?m h' v')) ?m ?zs"
  proof (rule av_does_bind [OF av_data_upd_does [where f = "move_back_by_offset a ?c (?n - b)",
          OF assms(1) xs(1) zs(1,2)]])
    fix h1 v1 assume "av_wf cf h1 v1 zs" "av_size v1 = av_size v"
    then show "av_does cf h1 v1 (case (h1, v1) of (h', v') \<Rightarrow> av_pop_to cf ?m h' v') ?m ?zs"
      using av_pop_to_does [OF assms(1), of h1 v1 zs ?m] lz xs(2) by simp
  qed
  moreover have "take ?m ?zs = map Some (take a ys @ drop b ys)"
  proof -
    have "take ?m zs = map Some (take a ys @ drop b ys)"
    proof (rule take_nthI)
      fix i assume "i < ?m"
      then show "zs ! i = Some ((take a ys @ drop b ys) ! i)"
        using zs(3) assms(3,4) av_rep_nth [OF xs(4)] by (auto simp: nth_append add.commute)
    qed (use xs(3) zs(2) assms(3,4) in auto)
    then show ?thesis using take_dead_from xs(3) zs(2) by (metis diff_le_self le_trans)
  qed
  ultimately show ?thesis
    using xs(2,3) zs(2) assms(3,4)
    by (intro av_yieldsI [where xs = ?zs]) (auto simp: av_erase_range_def add.commute)
qed

lemma av_erase_yields:
  assumes "cf_ok cf" "av_rep cf h v ys" "i < length ys"
  shows "av_yields cf h v (av_erase cf i h v) (take i ys @ drop (Suc i) ys)"
  using av_erase_range_yields [OF assms(1,2), of i "Suc i"] assms(3) av_rep_cap [OF assms(2)]
  by (simp add: av_erase_def safe_range_cast_ok)

lemma av_erase_range_bad:
  assumes "av_rep cf h v ys" "length ys < b" "b < 2 ^ cf_bits cf"
  shows "\<exists>e. av_erase_range cf a b h v = Inl e"
  using assms av_rep_cap [OF assms(1)] by (auto simp: av_erase_range_def assertR_def Let_def)

lemma av_insert_yields:
  assumes "cf_ok cf" "av_rep cf h v ys" "length ys < av_cap v \<or> length ys < growth_size (cf_bits cf) (length ys)"
    "i \<le> length ys"
  shows "av_yields cf h v (av_insert cf dv i x h v) (take i ys @ x # drop i ys)"
proof -
  let ?n = "length ys"
  obtain h1 v1 where g: "(if av_size v = av_cap v then av_ensure cf (growth_size (cf_bits cf) (av_size v)) h v
      else Inr (h, v)) = Inr (h1, v1)" "av_rep cf h1 v1 ys" "?n < av_cap v1" "av_frame h v h1 v1"
    using av_make_room [OF assms(1-3)] by blast
  have sz: "av_size v = ?n" "av_get_size cf v = Inr ?n" and ib: "i < 2 ^ cf_bits cf"
    using assms(4) av_rep_get_size [OF assms(2)] av_rep_cap [OF assms(2)] by auto
  from g(2) obtain xs where xs: "av_wf cf h1 v1 xs" "av_size v1 = ?n" "?n < length xs"
    "take ?n xs = map Some ys" "live xs 0 ?n" "av_cap v1 = length xs"
    using g(3) by (elim av_repD) auto
  let ?xs1 = "xs[?n := Some dv]"
  have lv: "live ?xs1 (?n + 1 - 1 - (?n - i)) (?n + 1)"
    using xs(3,5) assms(4) by (auto simp: live_iff nth_list_update less_Suc_eq)
  obtain zs where zs: "move_forward_by_offset (?n + 1) 1 (?n - i) ?xs1 = Inr zs" "length zs = length xs"
    "\<forall>k. zs ! k = (if ?n + 1 - (?n - i) \<le> k \<and> k < ?n + 1 then ?xs1 ! (k - 1) else ?xs1 ! k)"
    using move_forward_by_offset_ok [OF _ _ lv] assms(4) by auto
  let ?zs = "zs[i := Some x]"
  have zi: "slot_assign i x zs = Inr ?zs"
  proof -
    have "?xs1 ! i \<noteq> None" using xs(3,5) assms(4) by (cases "i = ?n") (auto simp: live_iff)
    then show ?thesis using zs(2,3) xs(3) assms(4) by (auto simp: slot_assign_def slot_get_def)
  qed
  have "av_does cf h1 v1 (bindR (bindR (av_add_keep cf dv h1 v1) (\<lambda>(h2, v2).
      av_data_upd cf (move_forward_by_offset (?n + 1) 1 (?n - i)) h2 v2))
      (\<lambda>(h3, v3). av_data_upd cf (slot_assign i x) h3 v3)) (?n + 1) ?zs"
  proof (rule av_does_bind [OF av_does_bind])
    show "av_does cf h1 v1 (av_add_keep cf dv h1 v1) (?n + 1) ?xs1"
      using av_add_keep_does [OF assms(1) xs(1), of dv] xs(2,3) by simp
    fix h2 v2 assume a: "av_wf cf h2 v2 ?xs1" "av_size v2 = ?n + 1"
    show "av_does cf h2 v2 (case (h2, v2) of (h2, v2) \<Rightarrow>
        av_data_upd cf (move_forward_by_offset (?n + 1) 1 (?n - i)) h2 v2) (?n + 1) zs"
      using av_data_upd_does [where f = "move_forward_by_offset (?n + 1) 1 (?n - i)", OF assms(1) a(1) zs(1)] zs(2) a(2) by simp
  next
    fix h3 v3 assume a: "av_wf cf h3 v3 zs" "av_size v3 = ?n + 1"
    show "av_does cf h3 v3 (case (h3, v3) of (h3, v3) \<Rightarrow> av_data_upd cf (slot_assign i x) h3 v3) (?n + 1) ?zs"
      using av_data_upd_does [where f = "slot_assign i x", OF assms(1) a(1) zi] a(2) by simp
  qed
  moreover have "take (?n + 1) ?zs = map Some (take i ys @ x # drop i ys)"
  proof (rule take_nthI)
    fix k assume "k < ?n + 1"
    then show "?zs ! k = Some ((take i ys @ x # drop i ys) ! k)"
      using zs(2,3) xs(3) assms(4) av_rep_nth [OF xs(4)]
      by (auto simp: nth_append nth_list_update nth_Cons' min_def)
  qed (use xs(3) zs(2) assms(4) in auto)
  ultimately have Y: "av_yields cf h1 v1 (bindR (bindR (av_add_keep cf dv h1 v1) (\<lambda>(h2, v2).
      av_data_upd cf (move_forward_by_offset (?n + 1) 1 (?n - i)) h2 v2))
      (\<lambda>(h3, v3). av_data_upd cf (slot_assign i x) h3 v3)) (take i ys @ x # drop i ys)"
    using xs(3) zs(2) assms(4) by (intro av_yieldsI [where xs = ?zs]) auto
  have "av_make_space cf dv i h v = bindR (av_add_keep cf dv h1 v1) (\<lambda>(h2, v2).
      av_data_upd cf (move_forward_by_offset (?n + 1) 1 (?n - i)) h2 v2)"
    using g(1) sz assms(4) av_add_keep_does [OF assms(1) xs(1), of dv] xs(2,3)
    by (auto simp: av_make_space_def av_does_def)
  then show ?thesis
    using Y g(4) ib av_frame_trans unfolding av_yields_def av_insert_def
    by (simp add: safe_range_cast_ok) blast
qed

section \<open>Shrinking\<close>

lemma hp_free_ok: "hp_blocks h b = Some xs \<Longrightarrow> length xs = n \<Longrightarrow>
    hp_free (Blk b) n h = Inr (h\<lparr>hp_blocks := (hp_blocks h)(b := None)\<rparr>)"
  by (simp add: hp_free_def)

lemma shrink_small_ok:
  assumes "items_mem h v = Inr src" "av_items v \<noteq> Own"
  shows "live src i (i + k) \<Longrightarrow> i + k \<le> length (av_static v) \<Longrightarrow> items_mem h v = Inr src \<Longrightarrow> av_items v \<noteq> Own \<Longrightarrow>
    shrink_small i k h v = Inr (v\<lparr>av_static := take i (av_static v) @ take k (drop i src) @ drop (i + k) (av_static v)\<rparr>)"
proof (induction k arbitrary: i v)
  case (Suc k)
  obtain x where x: "src ! i = Some x" "i < length src" using Suc(2) by (auto simp: live_iff)
  let ?v = "v\<lparr>av_static := (av_static v)[i := Some x]\<rparr>"
  have m: "items_mem h ?v = Inr src" "av_items ?v \<noteq> Own"
    using Suc(4,5) by (auto simp: items_mem_def split: ptr.splits)
  have l: "live src (Suc i) (Suc i + k)" using Suc(2) by (auto simp: live_iff)
  have "take (Suc k) (drop i src) = Some x # take k (drop (Suc i) src)"
    using x by (metis Cons_nth_drop_Suc take_Suc_Cons)
  moreover have "take (Suc i) ((av_static v)[i := Some x]) = take i (av_static v) @ [Some x]"
    using Suc(3) by (simp add: take_Suc_conv_app_nth)
  ultimately show ?case
    using Suc(1) [OF l _ m] Suc(3,4) x by (simp add: slot_get_def slot_new_def drop_update_cancel)
qed simp

lemma av_free_block:
  assumes "cf_ok cf" "av_wf cf h v xs" "av_cap v \<noteq> static_count cf"
  obtains b h' where "av_items v = Blk b" "hp_blocks h b = Some xs" "b < hp_next h"
    "hp_free (av_items v) (av_cap v) h = Inr h'" "hp_ok h'" "hp_next h' = hp_next h"
    "hp_blocks h' = (hp_blocks h)(b := None)"
proof -
  obtain b where b: "av_items v = Blk b" "hp_blocks h b = Some xs" "hp_ok h" "length xs = av_cap v"
    using assms(2,3) by (auto simp: av_wf_def)
  then show thesis
    using that [of b "h\<lparr>hp_blocks := (hp_blocks h)(b := None)\<rparr>"] hp_ok_blk
    by (auto simp: hp_free_def hp_ok_def)
qed

lemma av_reset_ok:
  assumes "cf_ok cf" "av_rep cf h v []"
  shows "\<exists>h' v'. av_reset cf h v = Inr (h', v') \<and> av_rep cf h' v' [] \<and> av_cap v' = static_count cf \<and>
    av_frame h v h' v' \<and> hp_next h' = hp_next h \<and>
    hp_blocks h' = (\<lambda>b. if av_items v = Blk b then None else hp_blocks h b)"
proof -
  obtain xs where xs: "av_wf cf h v xs" "av_size v = 0" using assms(2) by (elim av_repD) auto
  show ?thesis
  proof (cases "av_cap v = static_count cf")
    case True
    have "\<forall>b. av_items v \<noteq> Blk b" using xs(1) True by (simp add: av_wf_def)
    moreover have "av_reset cf h v = Inr (h, v)"
      using xs True assms(1) by (auto simp: av_reset_def av_wf_def static_count_def cf_ok_def set_items_def)
    ultimately show ?thesis using assms(2) True by auto
  next
    case False
    obtain b h' where b: "av_items v = Blk b" "hp_blocks h b = Some xs" "b < hp_next h"
      "hp_free (av_items v) (av_cap v) h = Inr h'" "hp_ok h'" "hp_next h' = hp_next h"
      "hp_blocks h' = (hp_blocks h)(b := None)"
      using av_free_block [OF assms(1) xs(1) False] .
    let ?v = "(set_items cf (if cf_tiny cf \<noteq> 0 \<or> cf_small cf = 0 then Null else Own) v)\<lparr>av_cap := static_count cf\<rparr>"
    have "av_reset cf h v = Inr (h', ?v)"
      using xs False b(4) assms(1) by (auto simp: av_reset_def static_count_def set_items_def cf_ok_def)
    moreover have "av_wf cf h' ?v (av_static ?v)"
      using xs(1) b(5) assms(1) length_set_items_static [of v cf]
      by (auto simp: av_wf_def cf_ok_def)
    ultimately show ?thesis
      using b xs(2) by (auto simp: av_rep_def av_frame_def)
  qed
qed

lemma av_shrink_ok:
  assumes "cf_ok cf" "av_rep cf h v ys"
    "cf_tiny cf = 0 \<or> ys = [] \<or> cf_tiny cf < length ys \<or> av_cap v = cf_tiny cf"
  shows "\<exists>h' v'. av_shrink cf h v = Inr (h', v') \<and> av_rep cf h' v' ys \<and> av_frame h v h' v' \<and>
    av_cap v' = max (static_count cf) (length ys) \<and> (length ys \<le> static_count cf \<longrightarrow> hp_next h' = hp_next h \<and>
      hp_blocks h' = (\<lambda>b. if av_items v = Blk b then None else hp_blocks h b))"
proof -
  obtain xs where xs: "av_wf cf h v xs" "av_size v = length ys" "length ys \<le> length xs"
    "take (length ys) xs = map Some ys" "live xs 0 (length ys)" "av_cap v = length xs" "static_count cf \<le> length xs"
    "length xs < 2 ^ cf_bits cf"
    using assms(2) by (elim av_repD) auto
  consider (big) "static_count cf < length ys" | (same) "length ys \<le> static_count cf" "av_cap v = static_count cf"
    | (plain) "static_count cf = 0" "ys = []" | (tiny) "cf_tiny cf \<noteq> 0" "ys = []" "av_cap v \<noteq> static_count cf"
    | (small) "cf_small cf \<noteq> 0" "length ys \<le> static_count cf" "av_cap v \<noteq> static_count cf"
    using assms(1,3) by (cases "cf_small cf = 0") (auto simp: static_count_def cf_ok_def split: if_splits, fastforce+)
  then show ?thesis
  proof cases
    case big
    have "length ys < 2 ^ cf_bits cf" using xs(3,8) by simp
    then show ?thesis
      using big av_ensure_yields [OF assms(1,2) order_refl big] xs(2) assms(2)
      by (cases "av_cap v = length ys") (auto simp: av_shrink_def)
  next
    case same
    have nb: "\<forall>b. av_items v \<noteq> Blk b" using xs(1) same(2) by (simp add: av_wf_def)
    have "av_shrink cf h v = Inr (h, v)"
    proof (cases "static_count cf = 0")
      case True
      then show ?thesis using same xs assms(1)
        by (auto simp: av_shrink_def static_count_def av_reset_def av_wf_def set_items_def split: if_splits)
    next
      case False
      then show ?thesis using same xs assms(1)
        by (auto simp: av_shrink_def static_count_def av_wf_def set_items_def cf_ok_def split: if_splits)
    qed
    then show ?thesis using assms(2) same nb by (simp add: max_def)
  next
    case plain
    have "av_shrink cf h v = av_reset cf h v"
      using plain xs(2) by (auto simp: av_shrink_def static_count_def split: if_splits)
    then show ?thesis
      using av_reset_ok [OF assms(1), of h v] assms(2) plain by auto
  next
    case tiny
    have "av_shrink cf h v = av_reset cf h v"
      using tiny xs(2) assms(1)
      by (auto simp: av_shrink_def static_count_def av_reset_def cf_ok_def)
    then show ?thesis
      using av_reset_ok [OF assms(1), of h v] assms(2) tiny by auto
  next
    case small
    obtain b h' where b: "av_items v = Blk b" "hp_blocks h b = Some xs" "b < hp_next h"
      "hp_free (av_items v) (av_cap v) h = Inr h'" "hp_ok h'" "hp_next h' = hp_next h"
      "hp_blocks h' = (hp_blocks h)(b := None)"
      using av_free_block [OF assms(1) xs(1) small(3)] .
    have t0: "cf_tiny cf = 0" "static_count cf = cf_small cf"
      using small assms(1) by (auto simp: cf_ok_def static_count_def)
    have st: "length (av_static v) = cf_small cf" using xs(1) t0 by (simp add: av_wf_def)
    have mem: "items_mem h v = Inr xs" "av_items v \<noteq> Own" using b by (auto simp: items_mem_def)
    let ?st = "map Some ys @ drop (length ys) (av_static v)"
    let ?v = "v\<lparr>av_static := ?st, av_cap := cf_small cf, av_items := Own\<rparr>"
    have "shrink_small 0 (length ys) h v = Inr (v\<lparr>av_static := ?st\<rparr>)"
      using shrink_small_ok [OF mem _ _ mem, of 0 "length ys"] xs(4,5) st small(2) t0 by simp
    then have "av_shrink cf h v = Inr (h', ?v)"
      using small t0 xs(2) b(4) by (simp add: av_shrink_def set_items_def)
    moreover have "av_wf cf h' ?v ?st"
      using b(5) st small(1,2) t0 assms(1) by (auto simp: av_wf_def cf_ok_def)
    ultimately show ?thesis
      using xs(2) st small(2) t0 b unfolding av_rep_def
      by (intro exI [of _ h'] exI [of _ ?v]) (auto simp: av_frame_def)
  qed
qed

section \<open>Clearing and destroying\<close>

definition av_same :: "cfg \<Rightarrow> 'v heap \<Rightarrow> 'v avec \<Rightarrow> 'v heap \<Rightarrow> 'v avec \<Rightarrow> bool" where
  "av_same cf h v h' v' \<longleftrightarrow> hp_next h' = hp_next h \<and> av_cap v' = av_cap v \<and>
     (\<forall>b. av_items v \<noteq> Blk b \<longrightarrow> hp_blocks h' b = hp_blocks h b) \<and>
     (av_items v' = av_items v \<or> av_items v' = Wild \<and> cf_tiny cf \<noteq> 0 \<and> av_cap v = cf_tiny cf)"

lemma av_same_refl [simp]: "av_same cf h v h v"
  by (simp add: av_same_def)

lemma av_same_trans: "av_same cf h v h1 v1 \<Longrightarrow> av_same cf h1 v1 h2 v2 \<Longrightarrow> av_same cf h v h2 v2"
  by (auto simp: av_same_def)

lemma at_items_same: "at_items cf f h v = Inr (h', v') \<Longrightarrow> av_same cf h v h' v'"
  by (cases "av_items v") (auto simp: at_items_def items_upd_def tiny_upd_def bindR_eq_Inr items_put_def
      av_same_def hp_put_def items_mem_def split: if_splits)

lemma pop_loop_same: "pop_loop cf n m hv = Inr (h', v') \<Longrightarrow> av_same cf (fst hv) (snd hv) h' v'"
proof (induction m arbitrary: hv)
  case (Suc m)
  show ?case
  proof (cases "n < Suc m")
    case True
    then obtain h1 v1 where 1: "av_del cf m (fst hv) (snd hv) = Inr (h1, v1)" "pop_loop cf n m (h1, v1) = Inr (h', v')"
      using Suc(2) by (auto simp: bindR_eq_Inr)
    have "av_same cf (fst hv) (snd hv) h1 v1"
      using 1(1) at_items_same by (auto simp: av_del_def split: if_splits)
    then show ?thesis using Suc(1) [OF 1(2)] av_same_trans by auto
  qed (use Suc(2) in auto)
qed auto

lemma av_clear_same:
  assumes "av_clear cf h v = Inr (h', v')" shows "av_same cf h v h' v'"
proof -
  obtain v1 where v1: "(if is_trivial cf then Inr (h, v) else pop_loop cf 0 (av_size v) (h, v)) = Inr (h', v1)"
    "v' = v1\<lparr>av_size := 0\<rparr>"
    using assms by (auto simp: av_clear_def av_pop_to_def bindR_eq_Inr)
  have "av_same cf h v h' v1"
    using v1(1) pop_loop_same [of cf 0 "av_size v" "(h, v)"] by (auto split: if_splits)
  then show ?thesis by (simp add: v1(2) av_same_def)
qed

lemma av_wf_no_block: "av_wf cf h v xs \<Longrightarrow> av_cap v = static_count cf \<Longrightarrow> av_items v \<noteq> Blk b"
  by (simp add: av_wf_def)

lemma av_clear_shrink_ok:
  assumes "cf_ok cf" "av_rep cf h v ys"
  shows "\<exists>h1 v1 h' v'. av_clear cf h v = Inr (h1, v1) \<and> av_shrink cf h1 v1 = Inr (h', v') \<and> av_rep cf h' v' [] \<and>
    av_cap v' = static_count cf \<and> av_frame h v h' v' \<and> hp_next h' = hp_next h \<and>
    hp_blocks h' = (\<lambda>b. if av_items v = Blk b then None else hp_blocks h b)"
proof -
  obtain h1 v1 where c: "av_clear cf h v = Inr (h1, v1)" "av_rep cf h1 v1 []" "av_frame h v h1 v1"
    using av_clear_yields [OF assms] by (auto simp: av_yields_def)
  obtain h' v' where s: "av_shrink cf h1 v1 = Inr (h', v')" "av_rep cf h' v' []" "av_frame h1 v1 h' v'"
    "av_cap v' = static_count cf" "hp_next h' = hp_next h1"
    "hp_blocks h' = (\<lambda>b. if av_items v1 = Blk b then None else hp_blocks h1 b)"
    using av_shrink_ok [OF assms(1) c(2)] by auto
  note sm = av_clear_same [OF c(1)]
  have "av_items v \<noteq> Blk b" if "av_items v1 = Wild" "av_items v1 \<noteq> av_items v" for b
    using sm that assms(2) av_wf_no_block [of cf h v _ b] by (auto simp: av_same_def static_count_def elim!: av_repD)
  then have "hp_blocks h' = (\<lambda>b. if av_items v = Blk b then None else hp_blocks h b)"
    using sm s(6) by (cases "av_items v1 = av_items v") (auto simp: av_same_def fun_eq_iff)
  then show ?thesis
    using c s sm av_frame_trans by (fastforce simp: av_same_def)
qed

lemma av_destroy_ok:
  assumes "cf_ok cf" "av_rep cf h v ys"
  shows "\<exists>h'. av_destroy cf h v = Inr h' \<and> hp_next h' = hp_next h \<and>
    hp_blocks h' = (\<lambda>b. if av_items v = Blk b then None else hp_blocks h b)"
  using av_clear_shrink_ok [OF assms] by (auto simp: av_destroy_def dest!: av_rep_cap)

section \<open>Copying and moving\<close>

lemma av_rep_other:
  assumes "av_rep cf h v ys" "hp_ok h'" "\<forall>b. av_items v = Blk b \<longrightarrow> hp_blocks h' b = hp_blocks h b"
  shows "av_rep cf h' v ys"
  using assms unfolding av_rep_def av_wf_def by (smt (verit, best))

lemma av_rep_hp_ok: "av_rep cf h v ys \<Longrightarrow> hp_ok h"
  by (auto simp: av_rep_def av_wf_def)

lemma av_alloc_from_does:
  assumes "cf_ok cf" "hp_ok h" "length (av_static v) = static_count cf" "live src 0 n" "n \<le> nc"
    "static_count cf < nc" "nc < 2 ^ cf_bits cf"
  shows "\<exists>h' v'. av_alloc_from cf nc n src h v = Inr (h', v') \<and> av_size v' = av_size v \<and>
    av_wf cf h' (v'\<lparr>av_cap := nc\<rparr>) (take n src @ replicate (nc - n) None) \<and> hp_next h \<le> hp_next h' \<and>
    (\<forall>b<hp_next h. hp_blocks h' b = hp_blocks h b \<and> av_items v' \<noteq> Blk b)"
proof -
  obtain b h1 where al: "hp_alloc nc h = (b, h1)" by force
  note A = hp_alloc_ok [OF assms(2) al]
  let ?dst = "take n src @ replicate (nc - n) None"
  have "raw_create_from cf n src (replicate nc None) = Inr ?dst"
    using raw_create_from_ok [OF assms(4), of "replicate nc None" cf] assms(5) by (simp add: drop_replicate)
  then have r: "av_alloc_from cf nc n src h v = Inr (hp_put b ?dst h1, set_items cf (Blk b) v)"
    using al by (simp add: av_alloc_from_def)
  have "length ?dst = nc" using assms(4,5) by (auto simp: live_def)
  then have "av_wf cf (hp_put b ?dst h1) ((set_items cf (Blk b) v)\<lparr>av_cap := nc\<rparr>) ?dst"
    using A assms(3,6,7) hp_ok_put [OF A(2), of b ?dst] A(1,4) length_set_items_static [of v cf] by (simp add: av_wf_def) (simp add: hp_put_def)
  then show ?thesis using r A by (auto simp: hp_put_def)
qed

lemma tiny_fill_ok:
  "live src 0 (i + k) \<Longrightarrow> i + k \<le> length (av_static v) \<Longrightarrow>
   tiny_fill i k src h v = Inr (v\<lparr>av_static := take i (av_static v) @ take k (drop i src) @ drop (i + k) (av_static v),
      av_items := (if k = 0 then av_items v else Wild)\<rparr>)"
proof (induction k arbitrary: i v)
  case (Suc k)
  obtain x where x: "src ! i = Some x" "i < length src" using live_slot [OF Suc(2), of i] by auto
  let ?v = "v\<lparr>av_static := (av_static v)[i := Some x], av_items := Wild\<rparr>"
  have l: "live src 0 (Suc i + k)" using Suc(2) by simp
  have "take (Suc k) (drop i src) = Some x # take k (drop (Suc i) src)"
    using x by (metis Cons_nth_drop_Suc take_Suc_Cons)
  moreover have "take (Suc i) ((av_static v)[i := Some x]) = take i (av_static v) @ [Some x]"
    using Suc(3) by (simp add: take_Suc_conv_app_nth)
  ultimately show ?case
    using Suc(1) [OF l, of ?v] Suc(3) x
    by (auto simp: slot_get_def slot_new_def tiny_upd_def drop_update_cancel)
next
  case 0
  then show ?case by (cases v) simp
qed

lemma rep_items_mem:
  assumes "av_wf cf h v xs" "cf_ok cf" "cf_tiny cf = 0 \<or> av_cap v \<noteq> cf_tiny cf" "av_cap v \<noteq> 0"
  shows "items_mem h v = Inr xs"
  using assms by (auto simp: items_mem_def av_wf_def static_count_def cf_ok_def split: if_splits)

lemma av_copy_ok:
  assumes "cf_ok cf" "av_rep cf h other ys"
  shows "\<exists>h' v'. av_copy cf h other = Inr (h', v') \<and> av_rep cf h' v' ys \<and> av_rep cf h' other ys \<and>
    (\<forall>b<hp_next h. hp_blocks h' b = hp_blocks h b \<and> av_items v' \<noteq> Blk b)"
proof -
  obtain xs where xs: "av_wf cf h other xs" "av_size other = length ys" "length ys \<le> length xs"
    "take (length ys) xs = map Some ys" "live xs 0 (length ys)" "av_cap other = length xs" "static_count cf \<le> length xs"
    "length xs < 2 ^ cf_bits cf"
    using assms(2) by (elim av_repD) auto
  have ok: "hp_ok h" using xs(1) by (simp add: av_wf_def)
  show ?thesis
  proof (cases "av_cap other = static_count cf")
    case False
    let ?v = "(av_new cf)\<lparr>av_cap := av_cap other, av_size := av_size other\<rparr>"
    have lt: "static_count cf < av_cap other" "av_cap other \<noteq> 0" using False xs(6,7) by auto
    have st: "length (av_static ?v) = static_count cf" by (simp add: av_new_def)
    obtain h' v' where r: "av_alloc_from cf (av_cap other) (av_size other) xs h ?v = Inr (h', v')"
      "av_size v' = length ys" "av_wf cf h' (v'\<lparr>av_cap := av_cap other\<rparr>) (take (length ys) xs @ replicate (av_cap other - length ys) None)"
      "hp_next h \<le> hp_next h'" "\<forall>b<hp_next h. hp_blocks h' b = hp_blocks h b \<and> av_items v' \<noteq> Blk b"
      using av_alloc_from_does [OF assms(1) ok st, of xs "av_size other" "av_cap other"] xs lt by auto
    have cap: "v'\<lparr>av_cap := av_cap other\<rparr> = v'"
      using r(1) by (auto simp: av_alloc_from_def bindR_eq_Inr set_items_def hp_alloc_def)
    have "items_mem h other = Inr xs"
      using rep_items_mem [OF xs(1) assms(1)] lt by (auto simp: static_count_def split: if_splits)
    then have "av_copy cf h other = Inr (h', v')"
      using r(1) lt assms(1) by (auto simp: av_copy_def Let_def static_count_def cf_ok_def split: if_splits)
    moreover have "av_rep cf h' v' ys"
      using r(2,3) xs(3,4,6) unfolding cap av_rep_def by fastforce
    moreover have "av_rep cf h' other ys"
    proof (rule av_rep_other [OF assms(2)])
      show "hp_ok h'" using r(3) by (simp add: av_wf_def)
      show "\<forall>b. av_items other = Blk b \<longrightarrow> hp_blocks h' b = hp_blocks h b"
        using r(5) hp_ok_blk [OF ok] xs(1) False by (auto simp: av_wf_def)
    qed
    ultimately show ?thesis using r(5) by blast
  next
    case True
    have xs0: "xs = av_static other" "length (av_static other) = static_count cf" using xs(1) True by (auto simp: av_wf_def)
    let ?st = "map Some ys @ replicate (static_count cf - length ys) None"
    have gs: "av_get_size cf other = Inr (length ys)" using av_rep_get_size assms(2) by blast
    have "\<exists>v'. av_copy cf h other = Inr (h, v') \<and> av_rep cf h v' ys \<and> (\<forall>b. av_items v' \<noteq> Blk b)"
    proof (cases "cf_tiny cf = 0")
      case t0: True
      have sc: "static_count cf = cf_small cf" using t0 by (simp add: static_count_def)
      show ?thesis
      proof (cases "cf_small cf = 0")
        case s0: True
        then have "ys = []" "av_cap other = 0" using True sc xs(3) xs0 by auto
        then show ?thesis using t0 s0 sc ok xs(2,8) xs0 True assms(1)
          by (auto simp: av_copy_def Let_def av_new_def av_rep_def av_wf_def static_count_def)
      next
        case False
        have "items_mem h other = Inr xs"
          using rep_items_mem [OF xs(1) assms(1)] t0 False True sc by simp
        moreover have "raw_create_from cf (length ys) xs (replicate (cf_small cf) None) = Inr ?st"
          using raw_create_from_ok [OF xs(5), of "replicate (cf_small cf) None" cf] xs(3,4,6) sc True
          by (simp add: drop_replicate)
        ultimately have "av_copy cf h other = Inr (h, \<lparr>av_size = length ys, av_cap = cf_small cf, av_items = Own, av_static = ?st\<rparr>)"
          using t0 False True sc xs(2) by (simp add: av_copy_def Let_def av_new_def)
        then show ?thesis using ok sc t0 False xs(3,6,8) True unfolding av_rep_def
          by (auto simp: av_wf_def)
      qed
    next
      case False
      have sc: "static_count cf = cf_tiny cf" using False by (simp add: static_count_def)
      let ?v = "(av_new cf)\<lparr>av_cap := cf_tiny cf, av_size := length ys\<rparr>"
      have sv: "av_static ?v = replicate (static_count cf) None" "\<forall>b. av_items ?v \<noteq> Blk b" by (simp_all add: av_new_def)
      define p where "p = (if length ys = 0 then if cf_small cf = 0 then Null else Own else Wild)"
      have p: "tiny_fill 0 (length ys) xs h ?v = Inr (?v\<lparr>av_static := ?st, av_items := p\<rparr>)"
        "\<forall>b. p \<noteq> Blk b"
        using tiny_fill_ok [of xs 0 "length ys" ?v h] xs(3-6) True by (auto simp: drop_replicate p_def av_new_def)
      have "av_copy cf h other = Inr (h, ?v\<lparr>av_static := ?st, av_items := p\<rparr>)"
        using False True sc xs(2) xs0(1) gs p(1) by (simp add: av_copy_def Let_def)
      then show ?thesis using ok sc False xs(3,6,8) True p(2) sv(2) unfolding av_rep_def
        by (auto simp: av_wf_def)
    qed
    then show ?thesis using assms(2) by blast
  qed
qed

lemma tiny_move_ok:
  assumes "live (av_static other) i (i + k)" "i + k \<le> length (av_static v)"
  shows "\<exists>so p. tiny_move cf i k h v other =
      Inr (v\<lparr>av_static := take i (av_static v) @ take k (drop i (av_static other)) @ drop (i + k) (av_static v),
             av_items := (if k = 0 then av_items v else Wild)\<rparr>, other\<lparr>av_static := so, av_items := p\<rparr>) \<and>
      length so = length (av_static other) \<and> (p = av_items other \<or> p = Wild)"
  using assms
proof (induction k arbitrary: i v other)
  case 0
  then show ?case by (intro exI [of _ "av_static other"] exI [of _ "av_items other"]) simp
next
  case (Suc k)
  let ?so = "av_static other"
  obtain x where x: "?so ! i = Some x" "i < length ?so" using Suc(2) by (auto simp: live_iff)
  let ?v = "v\<lparr>av_static := (av_static v)[i := Some x], av_items := Wild\<rparr>"
  let ?o = "if cf_tdtor cf then other else other\<lparr>av_static := ?so[i := None], av_items := Wild\<rparr>"
  have st: "(if cf_tdtor cf then Inr (h, other) else tiny_upd (slot_del i) h other) = Inr (h, ?o)"
    using x by (simp add: slot_del_def tiny_upd_def)
  have l: "live (av_static ?o) (Suc i) (Suc i + k)" using Suc(2) by (auto simp: live_iff)
  have d: "drop (Suc i) (av_static ?o) = drop (Suc i) ?so" "length (av_static ?o) = length ?so" by simp_all
  have "take (Suc k) (drop i ?so) = Some x # take k (drop (Suc i) ?so)"
    using x by (metis Cons_nth_drop_Suc take_Suc_Cons)
  moreover have "take (Suc i) ((av_static v)[i := Some x]) = take i (av_static v) @ [Some x]"
    using Suc(3) by (simp add: take_Suc_conv_app_nth)
  moreover obtain so p where "tiny_move cf (Suc i) k h ?v ?o =
      Inr (?v\<lparr>av_static := take (Suc i) (av_static ?v) @ take k (drop (Suc i) (av_static ?o)) @ drop (Suc i + k) (av_static ?v),
             av_items := (if k = 0 then av_items ?v else Wild)\<rparr>, ?o\<lparr>av_static := so, av_items := p\<rparr>)"
      "length so = length (av_static ?o)" "p = av_items ?o \<or> p = Wild"
    using Suc(1) [OF l, of ?v] Suc(3) by auto
  ultimately show ?case
    using x st d Suc(3)
    by (intro exI [of _ so] exI [of _ p])
      (auto simp: slot_get_def slot_new_def tiny_upd_def drop_update_cancel split: if_splits)
qed

lemma av_move_ok:
  assumes "cf_ok cf" "av_rep cf h v []" "av_cap v = static_count cf" "av_rep cf h other ys"
  shows "\<exists>v' o'. av_move cf other h v = Inr (v', o') \<and> av_rep cf h v' ys \<and> av_rep cf h o' [] \<and>
    av_cap o' = static_count cf"
proof -
  obtain xs where xs: "av_wf cf h other xs" "av_size other = length ys" "length ys \<le> length xs"
    "take (length ys) xs = map Some ys" "live xs 0 (length ys)" "av_cap other = length xs" "static_count cf \<le> length xs"
    "length xs < 2 ^ cf_bits cf"
    using assms(4) by (elim av_repD) auto
  have v: "hp_ok h" "length (av_static v) = static_count cf" "\<forall>b. av_items v \<noteq> Blk b" "av_size v = 0"
    using assms(2,3) by (auto simp: av_rep_def av_wf_def)
  have lo: "length (av_static other) = static_count cf" using xs(1) by (simp add: av_wf_def)
  have gs: "av_get_size cf other = Inr (length ys)" using av_rep_get_size assms(4) by blast
  have scl: "static_count cf < 2 ^ cf_bits cf" using assms(1) by (simp add: cf_ok_def)
  show ?thesis
  proof (cases "av_cap other = static_count cf")
    case False
    obtain b where b: "av_items other = Blk b" "hp_blocks h b = Some xs" using xs(1) False by (auto simp: av_wf_def)
    let ?v = "(if cf_tiny cf = 0 then v\<lparr>av_items := Blk b, av_cap := length xs, av_size := length ys\<rparr>
        else (set_items cf (Blk b) v)\<lparr>av_cap := length xs, av_size := length ys\<rparr>)"
    let ?o = "(if cf_tiny cf = 0 then other\<lparr>av_items := (if cf_small cf = 0 then Null else Own), av_cap := cf_small cf, av_size := 0\<rparr>
        else (set_items cf Null other)\<lparr>av_cap := cf_tiny cf, av_size := 0\<rparr>)"
    have "av_move cf other h v = Inr (?v, ?o)"
      using v assms(3) gs False xs(2,6,7) b(1)
      by (auto simp: av_move_def static_count_def split: if_splits)
    moreover have "av_rep cf h ?v ys"
      using xs(3,4,6,7,8) b v(1,2) False length_set_items_static [OF v(2)] unfolding av_rep_def av_wf_def
      by (cases "cf_tiny cf = 0") auto
    moreover have "av_rep cf h ?o []"
      using v(1) lo scl length_set_items_static [OF lo] unfolding av_rep_def av_wf_def
      by (cases "cf_tiny cf = 0") (auto simp: static_count_def)
    moreover have "av_cap ?o = static_count cf" by (simp add: static_count_def)
    ultimately show ?thesis by blast
  next
    case True
    have xo: "xs = av_static other" "length ys \<le> static_count cf" using xs(1,3,6) True by (auto simp: av_wf_def)
    show ?thesis
    proof (cases "cf_tiny cf = 0")
      case t0: True
      have sc: "static_count cf = cf_small cf" using t0 by (simp add: static_count_def)
      show ?thesis
      proof (cases "cf_small cf = 0")
        case s0: True
        then show ?thesis
          using t0 sc gs v assms(3) xs(1,2,3,6,8) True lo
          by (auto simp: av_move_def av_rep_def av_wf_def)
      next
        case False
        obtain so where so: "move_static cf (length ys) (av_static other) (av_static v) =
            Inr (so, map Some ys @ drop (length ys) (av_static v))" "length so = cf_small cf"
          using move_static_ok [of xs "length ys" "av_static v" cf] xs(4,5) xo v(2) sc lo by auto
        let ?v = "v\<lparr>av_static := map Some ys @ drop (length ys) (av_static v), av_items := Own, av_size := length ys\<rparr>"
        let ?o = "other\<lparr>av_static := so, av_items := Own, av_cap := cf_small cf, av_size := 0\<rparr>"
        have "av_move cf other h v = Inr (?v, ?o)"
          using t0 False sc gs v(4) assms(3) True so xs(2) by (simp add: av_move_def)
        moreover have "av_rep cf h ?v ys"
          using t0 False sc v xo(2) assms(3) scl unfolding av_rep_def av_wf_def by auto
        moreover have "av_rep cf h ?o []"
          using t0 False sc v(1) so(2) scl unfolding av_rep_def av_wf_def by auto
        ultimately show ?thesis using sc by auto
      qed
    next
      case False
      have sc: "static_count cf = cf_tiny cf" using False by (simp add: static_count_def)
      obtain so p where tm: "tiny_move cf 0 (length ys) h v other =
          Inr (v\<lparr>av_static := map Some ys @ drop (length ys) (av_static v),
             av_items := (if length ys = 0 then av_items v else Wild)\<rparr>, other\<lparr>av_static := so, av_items := p\<rparr>)"
          "length so = cf_tiny cf" "p = av_items other \<or> p = Wild"
        using tiny_move_ok [of other 0 "length ys" v cf h] xs(4,5) xo v(2) lo sc by auto
      have "\<forall>b. p \<noteq> Blk b" using tm(3) av_wf_no_block [OF xs(1) True] by (elim disjE) simp_all
      then have "av_rep cf h (other\<lparr>av_static := so, av_items := p, av_size := 0\<rparr>) []"
        using False sc v(1) tm(2) scl True unfolding av_rep_def av_wf_def by auto
      moreover have "av_rep cf h (v\<lparr>av_static := map Some ys @ drop (length ys) (av_static v),
             av_items := (if length ys = 0 then av_items v else Wild), av_size := length ys\<rparr>) ys"
        using False sc v xo(2) assms(3) scl unfolding av_rep_def av_wf_def by auto
      ultimately show ?thesis
        using False sc v(4) assms(3) True xs(2) tm(1) by (simp add: av_move_def)
    qed
  qed
qed

lemma av_assign_move_ok:
  assumes "cf_ok cf" "av_rep cf h v zs" "av_rep cf h other ys" "\<forall>b. av_items other = Blk b \<longrightarrow> av_items v \<noteq> Blk b"
  shows "\<exists>h' v' o'. av_assign_move cf other h v = Inr (h', v', o') \<and> av_rep cf h' v' ys \<and> av_rep cf h' o' []"
proof -
  obtain h1 v1 h' v' where 1: "av_clear cf h v = Inr (h1, v1)" "av_shrink cf h1 v1 = Inr (h', v')" "av_rep cf h' v' []"
    "av_cap v' = static_count cf" "hp_blocks h' = (\<lambda>b. if av_items v = Blk b then None else hp_blocks h b)"
    using av_clear_shrink_ok [OF assms(1,2)] by blast
  have "av_rep cf h' other ys"
    using assms(4) 1(5) av_rep_hp_ok [OF 1(3)] by (intro av_rep_other [OF assms(3)]) auto
  then show ?thesis
    using av_move_ok [OF assms(1) 1(3,4)] 1(1,2) by (fastforce simp: av_assign_move_def)
qed

section \<open>Assignment from another vector\<close>

lemma slots_del_ok:
  "live xs i (i + k) \<Longrightarrow> \<exists>ys. slots_del i k xs = Inr ys \<and> length ys = length xs \<and> take i ys = take i xs"
proof (induction k arbitrary: i xs)
  case (Suc k)
  have s: "slot_del i xs = Inr (xs[i := None])" using Suc(2) by (auto simp: slot_del_def live_iff)
  have "live (xs[i := None]) (Suc i) (Suc i + k)" using Suc(2) by (auto simp: live_iff)
  then obtain ys where ys: "slots_del (Suc i) k (xs[i := None]) = Inr ys" "length ys = length xs"
    "take (Suc i) ys = take (Suc i) (xs[i := None])"
    using Suc(1) by fastforce
  have "take i ys = take i xs"
    using ys(3) by (metis le_Suc_eq min.absorb1 nle_le order_refl take_take take_update_cancel)
  then show ?case using s ys by simp
qed simp

lemma assign_run_ok:
  "live src 0 (i + k) \<Longrightarrow> live dst i (i + k) \<Longrightarrow>
   assign_run i k src dst = Inr (take i dst @ take k (drop i src) @ drop (i + k) dst)"
proof (induction k arbitrary: i dst)
  case (Suc k)
  obtain x where x: "src ! i = Some x" "i < length src" using live_slot [OF Suc(2), of i] by auto
  obtain y where y: "dst ! i = Some y" "i < length dst" using Suc(3) by (auto simp: live_iff)
  have l: "live src 0 (Suc i + k)" "live (dst[i := Some x]) (Suc i) (Suc i + k)"
    using Suc(2,3) by (auto simp: live_iff)
  have "take (Suc k) (drop i src) = Some x # take k (drop (Suc i) src)"
    using x by (metis Cons_nth_drop_Suc take_Suc_Cons)
  moreover have "take (Suc i) (dst[i := Some x]) = take i dst @ [Some x]"
    using y by (simp add: take_Suc_conv_app_nth)
  ultimately show ?case
    using Suc(1) [OF l] x y by (simp add: slot_get_def slot_assign_def drop_update_cancel)
qed simp

lemma raw_copy_from_ok:
  assumes "cf_ok cf" "live src 0 n" "live dst 0 m" "n \<le> length dst"
  shows "\<exists>ys. raw_copy_from cf n m src dst = Inr ys \<and> length ys = length dst \<and> take n ys = take n src"
proof -
  let ?r = "min m n" and ?d1 = "take (min m n) src @ drop (min m n) dst" and ?d2 = "take n src @ drop n dst"
  have l: "n \<le> length src" "m \<le> length dst" using assms(2,3) by (auto simp: live_def)
  have s: "live src 0 ?r" "live dst 0 ?r" using assms(2,3) by (auto simp: live_iff)
  have 1: "(if cf_tcopy cf then block_copy 0 ?r src dst else assign_run 0 ?r src dst) = Inr ?d1"
    using assign_run_ok [of src 0 ?r dst] s l by (auto simp: block_copy_def)
  have tk: "take ?r src @ take (n - ?r) (drop ?r src) = take n src"
    by (metis add_diff_inverse_nat linorder_not_less min.cobounded2 take_add)
  have 2: "(if cf_tcopy cf then block_copy ?r (n - ?r) src ?d1 else construct_from ?r (n - ?r) src ?d1) = Inr ?d2"
  proof -
    have "Inr ?d2 = (Inr (take ?r ?d1 @ take (n - ?r) (drop ?r src) @ drop (?r + (n - ?r)) ?d1) :: 'a slots res)"
      using l tk assms(4) by (simp add: min_def split: if_splits)
    then show ?thesis
      using construct_from_ok [of src ?r "n - ?r" ?d1] assms(2,4) l by (auto simp: block_copy_def)
  qed
  show ?thesis
  proof (cases "cf_tdtor cf")
    case True
    then show ?thesis using 1 2 l assms(4) by (simp add: raw_copy_from_def Let_def)
  next
    case False
    have "live ?d2 ?r (?r + (m - ?r))"
      using assms(2-4) l by (auto simp: live_iff nth_append)
    then obtain ys where "slots_del ?r (m - ?r) ?d2 = Inr ys" "length ys = length ?d2" "take ?r ys = take ?r ?d2"
      using slots_del_ok by blast
    moreover have "take n ys = take n src" if "\<not> n \<le> m" using that calculation(1) l by auto
    ultimately show ?thesis
      using 1 2 l assms(4) False by (cases "n \<le> m") (auto simp: raw_copy_from_def Let_def min_def)
  qed
qed

lemma fill_run_run: "live src 0 (i + k) \<Longrightarrow>
    fill_run cf i k src hv = insert_run (at_items cf) (\<lambda>j. the (src ! j)) i k hv"
proof (induction k arbitrary: i hv)
  case (Suc k)
  obtain x where x: "src ! i = Some x" "i < length src" using live_slot [OF Suc(2), of i] by auto
  have "fill_run cf (Suc i) k src = insert_run (at_items cf) (\<lambda>j. the (src ! j)) (Suc i) k"
    using Suc(1) [of "Suc i"] Suc(2) by auto
  then show ?case using x by (simp add: slot_get_def)
qed simp

lemma av_rep_data: "cf_ok cf \<Longrightarrow> av_rep cf h v ys \<Longrightarrow>
    \<exists>xs. av_data cf h v = Inr xs \<and> live xs 0 (length ys) \<and> take (length ys) xs = map Some ys"
  by (elim av_repD) (use av_data_ok in blast)

lemma av_frame_rep:
  assumes "av_frame h v h' v'" "av_rep cf h other ys" "hp_ok h'" "\<forall>b. av_items other = Blk b \<longrightarrow> av_items v \<noteq> Blk b"
  shows "av_rep cf h' other ys"
proof (rule av_rep_other [OF assms(2,3)])
  obtain xs where xs: "av_wf cf h other xs" using assms(2) by (auto simp: av_rep_def)
  show "\<forall>b. av_items other = Blk b \<longrightarrow> hp_blocks h' b = hp_blocks h b"
  proof (intro allI impI)
    fix b assume b: "av_items other = Blk b"
    then have "hp_blocks h b = Some xs" using xs by (auto simp: av_wf_def split: if_splits)
    then have "b < hp_next h" using hp_ok_blk [OF av_rep_hp_ok [OF assms(2)]] by blast
    then show "hp_blocks h' b = hp_blocks h b" using assms(1,4) b by (auto simp: av_frame_def)
  qed
qed

lemma av_set_start:
  assumes "cf_ok cf" "av_rep cf h v ys"
  shows "\<exists>h1 v1. (if cf_tiny cf = 0 \<or> cf_tiny cf < av_cap v
      then bindR (av_clear cf h v) (\<lambda>(h1, v1). av_reset cf h1 v1) else Inr (h, v)) = Inr (h1, v1) \<and>
    hp_ok h1 \<and> length (av_static v1) = static_count cf \<and> av_frame h v h1 v1"
proof (cases "cf_tiny cf = 0 \<or> cf_tiny cf < av_cap v")
  case True
  obtain h1 v1 where c: "av_clear cf h v = Inr (h1, v1)" "av_rep cf h1 v1 []" "av_frame h v h1 v1"
    using av_clear_yields [OF assms] by (auto simp: av_yields_def)
  obtain h2 v2 where r: "av_reset cf h1 v1 = Inr (h2, v2)" "av_rep cf h2 v2 []" "av_frame h1 v1 h2 v2"
    using av_reset_ok [OF assms(1) c(2)] by blast
  then show ?thesis
    using True c(1) av_frame_trans [OF c(3) r(3)] by (auto simp: av_rep_def av_wf_def)
next
  case False
  then show ?thesis using assms(2) by (auto simp: av_rep_def av_wf_def)
qed

lemma av_set_ok:
  assumes "cf_ok cf" "av_rep cf h v ys" "av_rep cf h other zs" "\<forall>b. av_items other = Blk b \<longrightarrow> av_items v \<noteq> Blk b"
  shows "av_yields cf h v (av_set cf other h v) zs"
proof -
  let ?n = "length zs" and ?m = "length ys"
  have gs: "av_get_size cf other = Inr ?n" "av_get_size cf v = Inr ?m" using av_rep_get_size assms(2,3) by blast+
  obtain os where os: "av_wf cf h other os" "length os < 2 ^ cf_bits cf" "?n \<le> length os" "av_cap other = length os"
    "static_count cf \<le> length os"
    using assms(3) by (elim av_repD) auto
  have cv: "static_count cf \<le> av_cap v" using assms(2) by (auto elim: av_repD)
  consider (grow) "av_cap v < ?n" | (plain) "?n \<le> av_cap v" "cf_tiny cf = 0" | (tiny) "?n \<le> av_cap v" "cf_tiny cf \<noteq> 0"
    by linarith
  then show ?thesis
  proof cases
    case grow
    obtain h1 v1 where 1: "(if cf_tiny cf = 0 \<or> cf_tiny cf < av_cap v
      then bindR (av_clear cf h v) (\<lambda>(h1, v1). av_reset cf h1 v1) else Inr (h, v)) = Inr (h1, v1)"
      "hp_ok h1" "length (av_static v1) = static_count cf" "av_frame h v h1 v1"
      using av_set_start [OF assms(1,2)] by blast
    have "av_rep cf h1 other zs" using av_frame_rep [OF 1(4) assms(3) 1(2) assms(4)] .
    then obtain xs where xs: "av_wf cf h1 other xs" "take ?n xs = map Some zs" "live xs 0 ?n"
      by (elim av_repD) auto
    have ne: "av_cap other \<noteq> static_count cf" "av_cap other \<noteq> 0" "static_count cf < ?n" using grow cv os by auto
    have mem: "items_mem h1 other = Inr xs"
      using rep_items_mem [OF xs(1) assms(1)] ne by (auto simp: static_count_def split: if_splits)
    obtain h2 v2 where 2: "av_alloc_from cf ?n ?n xs h1 v1 = Inr (h2, v2)"
      "av_wf cf h2 (v2\<lparr>av_cap := ?n\<rparr>) (map Some zs)" "hp_next h1 \<le> hp_next h2"
      "\<forall>b<hp_next h1. hp_blocks h2 b = hp_blocks h1 b \<and> av_items v2 \<noteq> Blk b"
      using av_alloc_from_does [OF assms(1) 1(2,3) xs(3), of ?n] ne(3) os(2,3) xs(2) by auto
    let ?v = "v2\<lparr>av_cap := ?n, av_size := ?n\<rparr>"
    have "av_rep cf h2 ?v zs" using 2(2) unfolding av_rep_def by fastforce
    moreover have "av_frame h1 v1 h2 ?v" using 2(3,4) by (auto simp: av_frame_def)
    ultimately show ?thesis
      using grow gs(1) mem 2(1) av_frame_trans [OF 1(4)] unfolding av_yields_def av_set_def 1(1) by auto
  next
    case plain
    show ?thesis
    proof (cases "?n = 0 \<and> (?m = 0 \<or> cf_tdtor cf)")
      case True
      have "av_rep cf h (v\<lparr>av_size := 0\<rparr>) []" using assms(2) by (auto simp: av_rep_def)
      then show ?thesis using True plain gs by (auto simp: av_set_def av_yields_def)
    next
      case False
      obtain xs where xs: "av_wf cf h v xs" "live xs 0 ?m" "av_cap v = length xs" "?m \<le> length xs"
        using assms(2) by (elim av_repD) auto
      obtain src where src: "(if ?n = 0 then Inr [] else items_mem h other) = Inr src" "live src 0 ?n"
        "take ?n src = map Some zs"
      proof (cases "?n = 0")
        case True
        then show ?thesis using that [of "[]"] by (simp add: live_def)
      next
        case F: False
        obtain ws where ws: "av_wf cf h other ws" "live ws 0 ?n" "take ?n ws = map Some zs" "?n \<le> length ws"
          "av_cap other = length ws"
          using assms(3) by (elim av_repD) auto
        have "items_mem h other = Inr ws" using rep_items_mem [OF ws(1) assms(1)] plain F ws(4,5) by (metis le_zero_eq)
        then show ?thesis using that ws F by simp
      qed
      obtain rs where rs: "raw_copy_from cf ?n ?m src xs = Inr rs" "length rs = length xs" "take ?n rs = take ?n src"
        using raw_copy_from_ok [OF assms(1) src(2) xs(2)] plain(1) xs(3) by auto
      have c0: "av_cap v \<noteq> 0" using False xs(3,4) plain(1) by auto
      have "av_does cf h v (at_items cf (raw_copy_from cf ?n ?m src) h v) (av_size v) rs"
        using rs by (intro at_items_does [OF assms(1) xs(1) c0]) auto
      then obtain h' v' where "items_upd (raw_copy_from cf ?n ?m src) h v = Inr (h', v')" "av_wf cf h' v' rs" "av_frame h v h' v'"
        using plain(2) by (auto simp: av_does_def at_items_def)
      moreover have "av_rep cf h' (v'\<lparr>av_size := ?n\<rparr>) zs"
        using calculation(2) rs src(3) plain(1) xs(3) unfolding av_rep_def by fastforce
      ultimately show ?thesis
        using plain False gs src(1) by (auto simp: av_set_def av_yields_def)
    qed
  next
    case tiny
    obtain h1 v1 where c: "av_clear cf h v = Inr (h1, v1)" "av_rep cf h1 v1 []" "av_frame h v h1 v1"
      using av_clear_yields [OF assms(1,2)] by (auto simp: av_yields_def)
    have c1: "av_cap v1 = av_cap v" using av_clear_same [OF c(1)] by (simp add: av_same_def)
    have "av_rep cf h1 other zs" using av_frame_rep [OF c(3) assms(3) av_rep_hp_ok [OF c(2)] assms(4)] .
    then obtain src where src: "av_data cf h1 other = Inr src" "live src 0 ?n" "take ?n src = map Some zs"
      using av_rep_data [OF assms(1)] by blast
    have m: "map (\<lambda>j. the (src ! j)) [0..<?n] = zs"
    proof (rule nth_equalityI)
      fix i assume "i < length (map (\<lambda>j. the (src ! j)) [0..<?n])"
      then show "map (\<lambda>j. the (src ! j)) [0..<?n] ! i = zs ! i" using av_rep_nth [OF src(3)] by simp
    qed simp
    have "av_yields cf h1 v1 (bindR (insert_run (at_items cf) (\<lambda>j. the (src ! j)) (length ([] :: 'a list)) ?n (h1, v1))
        (\<lambda>(h', v'). Inr (h', v'\<lparr>av_size := length ([] :: 'a list) + ?n\<rparr>))) ([] @ zs)"
      using insert_run_yields [OF assms(1) refl c(2) refl, of ?n "\<lambda>j. the (src ! j)"] m tiny(1) c1 by simp
    then show ?thesis
      using tiny gs(1) c(1) src(1) av_frame_trans [OF c(3)] fill_run_run [of src 0 ?n] src(2)
      unfolding av_yields_def av_set_def by auto
  qed
qed

section \<open>\<^verbatim>\<open>ion::Vector\<close>\<close>

lemma add_keep_all_yields:
  "cf_ok cf \<Longrightarrow> av_rep cf h v ys \<Longrightarrow> length ys + length xs \<le> av_cap v \<Longrightarrow>
   \<exists>h' v'. add_keep_all cf xs (h, v) = Inr (h', v') \<and> av_rep cf h' v' (ys @ xs) \<and> av_frame h v h' v'"
proof (induction xs arbitrary: h v ys)
  case (Cons x xs)
  obtain ws where ws: "av_wf cf h v ws" "av_size v = length ys" "length ys < length ws" "av_cap v = length ws"
    "take (length ys) ws = map Some ys"
    using Cons(3,4) by (elim av_repD) auto
  obtain h1 v1 where 1: "av_add_keep cf x h v = Inr (h1, v1)" "av_wf cf h1 v1 (ws[length ys := Some x])"
    "av_size v1 = length ys + 1" "av_frame h v h1 v1"
    using av_add_keep_does [OF Cons(2) ws(1), of x] ws by (auto simp: av_does_def)
  have "av_rep cf h1 v1 (ys @ [x])"
    using 1(2,3) ws take_update_append [OF ws(5,3), of x] unfolding av_rep_def by fastforce
  moreover have "av_cap v1 = av_cap v" using av_wf_cap [OF 1(2)] ws(4) by simp
  ultimately obtain h' v' where "add_keep_all cf xs (h1, v1) = Inr (h', v')" "av_rep cf h' v' ((ys @ [x]) @ xs)" "av_frame h1 v1 h' v'"
    using Cons(1) [OF Cons(2), of h1 v1 "ys @ [x]"] Cons(4) by auto
  then show ?case using 1(1) av_frame_trans [OF 1(4)] by auto
qed auto

lemma vec_assign_yields:
  assumes "cf_ok cf" "av_rep cf h v ys" "length xs < 2 ^ cf_bits cf"
  shows "av_yields cf h v (vec_assign cf xs h v) xs"
proof -
  obtain h1 v1 where c: "av_clear cf h v = Inr (h1, v1)" "av_rep cf h1 v1 []" "av_frame h v h1 v1"
    using av_clear_yields [OF assms(1,2)] by (auto simp: av_yields_def)
  obtain h2 v2 where r: "av_reserve cf (length xs) h1 v1 = Inr (av_cap v1 < length xs, h2, v2)" "av_rep cf h2 v2 []"
    "length xs \<le> av_cap v2" "av_frame h1 v1 h2 v2"
    using av_reserve_yields [OF assms(1) c(2) assms(3)] by auto
  obtain h3 v3 where "add_keep_all cf xs (h2, v2) = Inr (h3, v3)" "av_rep cf h3 v3 xs" "av_frame h2 v2 h3 v3"
    using add_keep_all_yields [OF assms(1) r(2), of xs] r(3) by auto
  moreover have "vec_assign cf xs h v = add_keep_all cf xs (h2, v2)"
    using c(1) r(1) assms(3) by (simp add: vec_assign_def safe_range_cast_ok)
  ultimately show ?thesis
    using av_frame_trans [OF av_frame_trans [OF c(3) r(4)]] by (auto simp: av_yields_def)
qed

lemma vec_resize_yields:
  assumes "cf_ok cf" "av_rep cf h v ys" "n \<le> nc" "nc < 2 ^ cf_bits cf"
  shows "av_yields cf h v (vec_resize cf dv n nc h v) (take n ys @ replicate (n - length ys) dv)"
  using av_resize_yields [OF assms] assms(3,4) by (simp add: vec_resize_def safe_range_cast_ok)

lemma safe_index_at_ok:
  assumes "cf_ok cf" "av_rep cf h v ys" "(i + 1) * 2 < 2 ^ cf_bits cf"
  shows "\<exists>h' v'. safe_index_at cf dv i h v = Inr (if i < length ys then ys ! i else dv, h', v') \<and>
    av_rep cf h' v' (ys @ replicate (i + 1 - length ys) dv) \<and> av_frame h v h' v'"
proof (cases "i < length ys")
  case True
  then show ?thesis
    using assms(2) av_rep_get_size [OF assms(2)] av_get_ok [OF assms(1,2), of i] by (simp add: safe_index_at_def)
next
  case False
  obtain h' v' where r: "vec_resize cf dv (i + 1) ((i + 1) * 2) h v = Inr (h', v')"
    "av_rep cf h' v' (ys @ replicate (i + 1 - length ys) dv)" "av_frame h v h' v'"
    using vec_resize_yields [OF assms(1,2) _ assms(3), of "i + 1" dv] False by (auto simp: av_yields_def)
  then show ?thesis
    using False av_rep_get_size [OF assms(2)] av_get_ok [OF assms(1) r(2), of i]
    by (simp add: safe_index_at_def nth_append)
qed

section \<open>Two places where the object leaves its storage\<close>

lemma move_loop_overflow:
  "live src i (i + k) \<Longrightarrow> length dst < i + k \<Longrightarrow> i \<le> length dst \<Longrightarrow> move_loop td i k src dst = Inl BadAccess"
proof (induction k arbitrary: i src dst)
  case (Suc k)
  obtain x where x: "src ! i = Some x" "i < length src" using Suc(2) by (auto simp: live_iff)
  define src1 where "src1 = (if td then src else src[i := None])"
  have st: "(if td then Inr src else slot_del i src) = Inr src1"
    using x by (simp add: slot_del_def src1_def)
  show ?case
  proof (cases "i < length dst")
    case True
    have "live src1 (Suc i) (Suc i + k)" using Suc(2) by (auto simp: live_iff src1_def)
    then show ?thesis
      using Suc(1) [of src1 "Suc i" "dst[i := Some x]"] Suc(3) x st True by (simp add: slot_get_def slot_new_def)
  next
    case False
    then show ?thesis using x by (simp add: slot_get_def slot_new_def)
  qed
qed simp

lemma raw_move_to_overflow:
  assumes "live src 0 n" "length dst < n"
  shows "raw_move_to cf n src dst = Inl BadAccess" "move_static cf n src dst = Inl BadAccess"
  using assms move_loop_overflow [of src 0 n dst]
  by (auto simp: raw_move_to_def move_static_def block_copy_def)

lemma av_ensure_too_small:
  assumes "cf_ok cf" "av_rep cf h v ys" "nc < length ys" "nc \<noteq> av_cap v"
  shows "av_ensure cf nc h v = Inl BadAccess"
proof -
  obtain xs where xs: "av_wf cf h v xs" "av_size v = length ys" "live xs 0 (length ys)" "av_cap v = length xs"
    "length ys \<le> length xs"
    using assms(2) by (elim av_repD) auto
  have ok: "hp_ok h" using xs(1) by (simp add: av_wf_def)
  obtain b h1 where al: "hp_alloc nc h = (b, h1)" by force
  note A = hp_alloc_ok [OF ok al]
  show ?thesis
  proof (cases "av_cap v = static_count cf")
    case True
    then have "static_count cf \<noteq> 0" "xs = av_static v" using xs assms(3) by (auto simp: av_wf_def)
    then show ?thesis
      using True assms(3,4) al xs raw_move_to_overflow(2) [OF xs(3), of "replicate nc None" cf] by (simp add: av_ensure_def)
  next
    case False
    then obtain c where c: "av_items v = Blk c" "hp_blocks h c = Some xs" using xs(1) by (auto simp: av_wf_def)
    then have "items_mem h1 v = Inr xs" using A hp_ok_blk [OF ok c(2)] by (simp add: items_mem_def)
    then show ?thesis
      using False assms(3,4) al xs(2) raw_move_to_overflow(1) [OF xs(3), of "replicate nc None" cf] by (simp add: av_ensure_def)
  qed
qed

lemma growth_size_wraps:
  assumes "128 < n" "n < 2 ^ c" "2 ^ c \<le> 2 * n"
  shows "growth_size c n < n"
proof -
  have "(n * 2) mod 2 ^ c = n * 2 - 2 ^ c"
    using assms(2,3) by (simp add: mod_if mult.commute)
  then show ?thesis using assms by (simp add: growth_size_def trunc_def)
qed

definition add_all :: "cfg \<Rightarrow> 'v list \<Rightarrow> 'v heap \<times> 'v avec \<Rightarrow> ('v heap \<times> 'v avec) res" where
  "add_all cf xs hv = foldl (\<lambda>r x. bindR r (\<lambda>(h, v). av_add cf x h v)) (Inr hv) xs"

definition heap0 :: "'v heap" where
  "heap0 = \<lparr>hp_blocks = (\<lambda>_. None), hp_next = 0\<rparr>"

definition tiny8 :: cfg where
  "tiny8 = \<lparr>cf_small = 0, cf_tiny = 14, cf_bits = 8, cf_tcopy = True, cf_tctor = True, cf_tdtor = True\<rparr>"

lemma av_new_rep: "cf_ok cf \<Longrightarrow> hp_ok h \<Longrightarrow> av_rep cf h (av_new cf) []"
  by (auto simp: av_rep_def av_wf_def av_new_def cf_ok_def static_count_def)

lemma heap0_ok: "hp_ok heap0"
  by (simp add: heap0_def hp_ok_def)

lemma tiny8_simps [simp]: "cf_ok tiny8" "cf_bits tiny8 = 8" "cf_tiny tiny8 = 14" "static_count tiny8 = 14"
  by (simp_all add: tiny8_def cf_ok_def static_count_def)

lemma tiny8_rep: "av_rep tiny8 heap0 (av_new tiny8) []"
  by (rule av_new_rep [OF _ heap0_ok]) simp

lemma tiny8_new [simp]: "av_cap (av_new tiny8) = 14" "av_items (av_new tiny8) = Null"
  by (simp_all add: av_new_def) (simp add: tiny8_def)

lemma av_add_cap:
  assumes "cf_ok cf" "av_rep cf h v ys" "length ys < av_cap v \<or> length ys < growth_size (cf_bits cf) (length ys)"
  shows "\<exists>h' v'. av_add cf x h v = Inr (h', v') \<and> av_rep cf h' v' (ys @ [x]) \<and>
    av_cap v' = (if length ys = av_cap v then growth_size (cf_bits cf) (length ys) else av_cap v)"
proof -
  let ?g = "growth_size (cf_bits cf) (length ys)"
  have n: "av_size v = length ys" "length ys \<le> av_cap v" "static_count cf \<le> av_cap v"
    using av_rep_cap [OF assms(2)] assms(2) by (auto elim: av_repD)
  obtain h1 v1 where 1: "(if av_size v = av_cap v then av_ensure cf (growth_size (cf_bits cf) (av_size v)) h v else Inr (h, v))
      = Inr (h1, v1)" "av_rep cf h1 v1 ys" "length ys < av_cap v1"
      "av_cap v1 = (if length ys = av_cap v then ?g else av_cap v)"
  proof (cases "length ys = av_cap v")
    case True
    then have g: "length ys < ?g" using assms(3) by simp
    then have "static_count cf < ?g" "?g \<noteq> av_cap v" using n True by simp_all
    then obtain h1 v1 where "av_ensure cf ?g h v = Inr (h1, v1)" "av_rep cf h1 v1 ys" "av_cap v1 = ?g"
      using av_ensure_yields [OF assms(1,2) less_imp_le [OF g] _ growth_size_less] by blast
    then show ?thesis using that n(1) True g by simp
  next
    case False
    then show ?thesis using that [of h v] n assms(2) by simp
  qed
  obtain h2 v2 where 2: "av_add_keep cf x h1 v1 = Inr (h2, v2)" "av_rep cf h2 v2 (ys @ [x])"
    using av_add_keep_yields [OF assms(1) 1(2,3), of x] by (auto simp: av_yields_def)
  have "av_cap v2 = av_cap v1"
    using 2(1) by (auto simp: av_add_keep_def assertR_eq_Inr bindR_eq_Inr av_same_def dest: at_items_same)
  then show ?thesis using 1 2 unfolding av_add_def by simp
qed

lemma bindR_foldl_Inl: "foldl (\<lambda>r x. bindR r (f x)) (Inl e) xs = Inl e"
  by (induction xs) simp_all

lemma add_all_simps:
  "add_all cf [] hv = Inr hv"
  "add_all cf (x # xs) hv = bindR (av_add cf x (fst hv) (snd hv)) (add_all cf xs)"
proof -
  show "add_all cf (x # xs) hv = bindR (av_add cf x (fst hv) (snd hv)) (add_all cf xs)"
    using bindR_foldl_Inl [of "\<lambda>x (h, v). av_add cf x h v"]
    by (cases "av_add cf x (fst hv) (snd hv)") (simp_all add: add_all_def split_def)
qed (simp add: add_all_def)

lemma add_all_fill:
  "cf_ok cf \<Longrightarrow> av_rep cf h v ys \<Longrightarrow> length ys + length xs \<le> av_cap v \<Longrightarrow>
    \<exists>h' v'. add_all cf xs (h, v) = Inr (h', v') \<and> av_rep cf h' v' (ys @ xs) \<and> av_cap v' = av_cap v"
proof (induction xs arbitrary: h v ys)
  case (Cons x xs)
  obtain h1 v1 where "av_add cf x h v = Inr (h1, v1)" "av_rep cf h1 v1 (ys @ [x])" "av_cap v1 = av_cap v"
    using av_add_cap [OF Cons(2,3), of x] Cons(4) by auto
  then show ?case using Cons(1) [OF Cons(2), of h1 v1 "ys @ [x]"] Cons(4) by (auto simp: add_all_simps)
qed (simp add: add_all_simps)

lemma add_all_grow:
  "cf_ok cf \<Longrightarrow> av_rep cf h v ys \<Longrightarrow> xs \<noteq> [] \<Longrightarrow> length ys = av_cap v \<Longrightarrow>
   c = growth_size (cf_bits cf) (av_cap v) \<Longrightarrow> av_cap v < c \<Longrightarrow> length ys + length xs \<le> c \<Longrightarrow>
   \<exists>h' v'. add_all cf xs (h, v) = Inr (h', v') \<and> av_rep cf h' v' (ys @ xs) \<and> av_cap v' = c"
proof -
  assume cf: "cf_ok cf" and a: "av_rep cf h v ys" "xs \<noteq> []" "length ys = av_cap v"
    "c = growth_size (cf_bits cf) (av_cap v)" "av_cap v < c" "length ys + length xs \<le> c"
  obtain x xs' where xs: "xs = x # xs'" using a(2) by (cases xs) auto
  obtain h1 v1 where "av_add cf x h v = Inr (h1, v1)" "av_rep cf h1 v1 (ys @ [x])" "av_cap v1 = c"
    using av_add_cap [OF cf a(1), of x] a(3-5) by auto
  then show ?thesis using add_all_fill [OF cf, of h1 v1 "ys @ [x]" xs'] a(6) xs by (auto simp: add_all_simps)
qed

lemma add_all_append: "add_all cf (xs @ ys) hv = bindR (add_all cf xs hv) (add_all cf ys)"
proof (induction xs arbitrary: hv)
  case (Cons x xs)
  then have "add_all cf (xs @ ys) = (\<lambda>hv. bindR (add_all cf xs hv) (add_all cf ys))" by blast
  then show ?case by (simp add: add_all_simps bindR_assoc)
qed (simp add: add_all_simps)

section \<open>Properties\<close>

text \<open>
  C1: on a well-formed vector (any of the plain, small-buffer and tiny-buffer configurations,
  any element type traits) that stores the sequence \<open>ys\<close>, adding appends (growing the
  storage when it is full and the growth fits the counter), inserting, erasing a range, popping,
  resizing, adding several elements and clearing act on the stored sequence as on a list; the
  vector stays well formed and no other block of the heap changes.
\<close>

theorem avec_refines_sequence:
  assumes "cf_ok cf" "av_rep cf h v ys"
  shows "(length ys < av_cap v \<or> length ys < growth_size (cf_bits cf) (length ys) \<longrightarrow>
       av_yields cf h v (av_add cf x h v) (ys @ [x]) \<and>
       (i \<le> length ys \<longrightarrow> av_yields cf h v (av_insert cf dv i x h v) (take i ys @ x # drop i ys))) \<and>
    (a < b \<and> b \<le> length ys \<longrightarrow> av_yields cf h v (av_erase_range cf a b h v) (take a ys @ drop b ys)) \<and>
    (ys \<noteq> [] \<longrightarrow> av_yields cf h v (av_pop cf h v) (butlast ys)) \<and>
    (n \<le> nc \<and> nc < 2 ^ cf_bits cf \<longrightarrow>
       av_yields cf h v (av_resize cf dv n nc h v) (take n ys @ replicate (n - length ys) dv)) \<and>
    (length ys + k < 2 ^ cf_bits cf \<longrightarrow>
       av_yields cf h v (av_add_multiple cf k g h v) (ys @ map g [length ys..<length ys + k])) \<and>
    av_yields cf h v (av_clear cf h v) [] \<and>
    av_get cf i h v = (if i < length ys then Inr (ys ! i) else Inl AssertFail)"
  using av_add_yields [OF assms, of x] av_insert_yields [OF assms, of i dv x] av_erase_range_yields [OF assms, of a b]
    av_pop_yields [OF assms] av_resize_yields [OF assms, of n nc dv] av_add_multiple_yields [OF assms, of k g]
    av_clear_yields [OF assms] av_get_ok [OF assms, of i]
  by simp

theorem avec_refines_sequence_witness:
  "av_yields tiny8 heap0 (av_new tiny8) (av_add tiny8 (7::nat) heap0 (av_new tiny8)) [7]"
  using avec_refines_sequence [OF _ tiny8_rep, where x = "7::nat"] by simp

text \<open>
  Copying, assigning and moving a vector: the copy constructor gives a vector of its own with
  the same sequence and leaves the source as it was; \<^verbatim>\<open>Set\<close> makes an existing vector store
  the source's sequence; move assignment transfers it and leaves the source empty.
\<close>

theorem avec_copy_set_move:
  assumes "cf_ok cf" "av_rep cf h other ys" "av_rep cf h v zs"
    "\<forall>b. av_items other = Blk b \<longrightarrow> av_items v \<noteq> Blk b"
  shows "(\<exists>h' v'. av_copy cf h other = Inr (h', v') \<and> av_rep cf h' v' ys \<and> av_rep cf h' other ys \<and>
       (\<forall>b. av_items other = Blk b \<longrightarrow> av_items v' \<noteq> Blk b)) \<and>
    (\<exists>h' v'. av_set cf other h v = Inr (h', v') \<and> av_rep cf h' v' ys \<and> av_rep cf h' other ys) \<and>
    (\<exists>h' v' o'. av_assign_move cf other h v = Inr (h', v', o') \<and> av_rep cf h' v' ys \<and> av_rep cf h' o' [])"
proof (intro conjI)
  obtain h' v' where c: "av_copy cf h other = Inr (h', v')" "av_rep cf h' v' ys" "av_rep cf h' other ys"
    "\<forall>b<hp_next h. hp_blocks h' b = hp_blocks h b \<and> av_items v' \<noteq> Blk b"
    using av_copy_ok [OF assms(1,2)] by blast
  have "\<forall>b. av_items other = Blk b \<longrightarrow> av_items v' \<noteq> Blk b"
    using c(4) hp_ok_blk [OF av_rep_hp_ok [OF assms(2)]] assms(2) unfolding av_rep_def av_wf_def by metis
  then show "\<exists>h' v'. av_copy cf h other = Inr (h', v') \<and> av_rep cf h' v' ys \<and> av_rep cf h' other ys \<and>
       (\<forall>b. av_items other = Blk b \<longrightarrow> av_items v' \<noteq> Blk b)" using c by blast
  obtain h' v' where s: "av_set cf other h v = Inr (h', v')" "av_rep cf h' v' ys" "av_frame h v h' v'"
    using av_set_ok [OF assms(1,3,2,4)] by (auto simp: av_yields_def)
  then show "\<exists>h' v'. av_set cf other h v = Inr (h', v') \<and> av_rep cf h' v' ys \<and> av_rep cf h' other ys"
    using av_frame_rep [OF s(3) assms(2) av_rep_hp_ok [OF s(2)] assms(4)] by blast
qed (rule av_assign_move_ok [OF assms(1,3,2,4)])

theorem avec_copy_set_move_witness:
  "\<exists>h' v'. av_copy tiny8 heap0 (av_new tiny8 :: nat avec) = Inr (h', v') \<and> av_rep tiny8 h' v' []"
  using avec_copy_set_move [of tiny8 heap0 "av_new tiny8 :: nat avec" "[]" "av_new tiny8" "[]"]
    tiny8_rep [where 'a = nat]
  by auto

text \<open>
  Destroying a well-formed vector succeeds (the destructor's assertion holds) and gives back
  exactly its own block: every other block is untouched and nothing stays allocated.
\<close>

theorem avec_destroy_frees_own_block:
  assumes "cf_ok cf" "av_rep cf h v ys"
  shows "\<exists>h'. av_destroy cf h v = Inr h' \<and>
    (\<forall>b. hp_blocks h' b = (if av_items v = Blk b then None else hp_blocks h b))"
  using av_destroy_ok [OF assms] by auto

theorem avec_destroy_frees_own_block_witness:
  "\<exists>h'. av_destroy tiny8 heap0 (av_new tiny8 :: nat avec) = Inr h' \<and> (\<forall>b. hp_blocks h' b = None)"
  using avec_destroy_frees_own_block [OF _ tiny8_rep [where 'a = nat]] by (simp add: heap0_def)

text \<open>
  A full vector whose size is over 128 and at least half of the counter's range cannot take
  another element: \<^verbatim>\<open>GrowthSize\<close> doubles in the counter type, wraps to a capacity smaller
  than the size, and \<^verbatim>\<open>EnsureCapacity\<close> moves the elements past the end of the new block.
\<close>

theorem avec_growth_wraps:
  assumes "cf_ok cf" "av_rep cf h v ys" "length ys = av_cap v" "128 < length ys" "2 ^ cf_bits cf \<le> 2 * length ys"
  shows "av_add cf x h v = Inl BadAccess"
proof -
  have c: "av_size v = length ys" "length ys < 2 ^ cf_bits cf" using av_rep_cap [OF assms(2)] assms(3) by auto
  have "growth_size (cf_bits cf) (length ys) < length ys" using growth_size_wraps assms(4,5) c(2) by blast
  then show ?thesis using av_ensure_too_small [OF assms(1,2)] c(1) assms(3) by (simp add: av_add_def)
qed

theorem avec_growth_wraps_witness:
  "av_add tiny8 (0::nat) \<lparr>hp_blocks = [0 \<mapsto> replicate 199 (Some 0)], hp_next = 1\<rparr>
     \<lparr>av_size = 199, av_cap = 199, av_items = Blk 0, av_static = replicate 14 None\<rparr> = Inl BadAccess"
  by (rule avec_growth_wraps [where ys = "replicate 199 0"])
    (auto simp: tiny8_def cf_ok_def static_count_def av_rep_def av_wf_def hp_ok_def)

text \<open>
  filling an empty \<^verbatim>\<open>TinyVector\<close> of one-byte elements, documented to hold at most 255
  items, fails at the 200th element: its capacities run 14, 37, 71, 122, 199 and the next growth
  wraps to 142.
\<close>

theorem tiny_vector_stops_at_199:
  assumes "length xs = 200"
  shows "add_all tiny8 xs (heap0, av_new tiny8) = Inl BadAccess"
proof -
  have "\<exists>h v. add_all tiny8 (take 14 xs) (heap0, av_new tiny8) = Inr (h, v) \<and> av_rep tiny8 h v (take 14 xs) \<and> av_cap v = 14"
    using add_all_fill [OF _ tiny8_rep, of "take 14 xs"] assms by simp
  moreover have step: "\<exists>h v. add_all tiny8 (take m xs) (heap0, av_new tiny8) = Inr (h, v) \<and> av_rep tiny8 h v (take m xs) \<and> av_cap v = m"
    if ex: "\<exists>h v. add_all tiny8 (take n xs) (heap0, av_new tiny8) = Inr (h, v) \<and> av_rep tiny8 h v (take n xs) \<and> av_cap v = n"
      and m: "m = growth_size 8 n" "n < m" "m < 200" for n m
  proof -
    obtain h v where h: "add_all tiny8 (take n xs) (heap0, av_new tiny8) = Inr (h, v)" "av_rep tiny8 h v (take n xs)" "av_cap v = n"
      using ex by blast
    have t: "take m xs = take n xs @ take (m - n) (drop n xs)"
      using m(2) by (metis add_diff_inverse_nat not_less_iff_gr_or_eq take_add)
    show ?thesis
      using add_all_grow [OF _ h(2), of "take (m - n) (drop n xs)" m] h m assms unfolding t by (auto simp: add_all_append)
  qed
  ultimately have "\<exists>h v. add_all tiny8 (take 199 xs) (heap0, av_new tiny8) = Inr (h, v) \<and> av_rep tiny8 h v (take 199 xs) \<and> av_cap v = 199"
    using step [of 14 37] step [of 37 71] step [of 71 122] step [of 122 199] by (simp add: growth_size_def trunc_def)
  then obtain h v where h: "add_all tiny8 (take 199 xs) (heap0, av_new tiny8) = Inr (h, v)" "av_rep tiny8 h v (take 199 xs)" "av_cap v = 199"
    by blast
  have "growth_size 8 199 < (199::nat)" by (simp add: growth_size_def trunc_def)
  then have "av_add tiny8 (xs ! 199) h v = Inl BadAccess"
    using av_ensure_too_small [OF _ h(2), of "growth_size 8 199"] h(3) assms av_rep_cap [OF h(2)] by (simp add: av_add_def)
  moreover have "xs = take 199 xs @ [xs ! 199]"   proof -
    have "take (Suc 199) xs = take 199 xs @ [xs ! 199]" by (rule take_Suc_conv_app_nth) (simp add: assms)
    moreover have "take (Suc 199) xs = xs" using assms by simp
    ultimately show ?thesis by argo
  qed
  ultimately show ?thesis using h(1) add_all_append [of tiny8 "take 199 xs" "[xs ! 199]"] by (simp add: add_all_simps)
qed

theorem tiny_vector_stops_at_199_witness:
  "add_all tiny8 (replicate 200 (0::nat)) (heap0, av_new tiny8) = Inl BadAccess"
  by (rule tiny_vector_stops_at_199) simp

text \<open>
  shrinking a tiny vector that has moved to the heap and holds between one and
  \<^verbatim>\<open>TinyItemCount\<close> elements does not succeed: the first element written back to the tiny
  items overwrites the pointer that shares their storage, and the block is then read or freed
  through the destroyed pointer.
\<close>

theorem avec_tiny_shrink_destroys_pointer:
  assumes "cf_ok cf" "av_rep cf h v ys" "ys \<noteq> []" "length ys \<le> cf_tiny cf" "cf_tiny cf < av_cap v"
  shows "av_shrink cf h v = Inl BadAccess"
proof -
  have t: "cf_tiny cf \<noteq> 0" "cf_small cf = 0" "static_count cf = cf_tiny cf"
    using assms(1,3,4) by (cases ys; auto simp: cf_ok_def static_count_def)+
  obtain xs where xs: "av_wf cf h v xs" "av_size v = length ys" "live xs 0 (length ys)" "av_cap v = length xs"
    using assms(2) by (elim av_repD) auto
  obtain k where k: "length ys = Suc k" using assms(3) by (cases ys) auto
  have mem: "items_mem h v = Inr xs" using rep_items_mem [OF xs(1) assms(1)] assms(5) by simp
  obtain y where y: "xs ! 0 = Some y" "0 < length xs" using live_slot [OF xs(3), of 0] k by auto
  have st: "length (av_static v) = cf_tiny cf" using xs(1) t(3) by (simp add: av_wf_def)
  let ?v = "v\<lparr>av_static := (av_static v)[0 := Some y], av_items := Wild\<rparr>"
  have "shrink_tiny 0 (Suc k) h v = shrink_tiny (Suc 0) k h ?v"
    using mem y st t(1) by (simp add: slot_get_def slot_new_def tiny_upd_def)
  moreover have "bindR (shrink_tiny (Suc 0) k h ?v) (\<lambda>v'. bindR (hp_free (av_items v') (av_cap v') h) (f v')) = Inl BadAccess" for f
    by (cases k) (simp_all add: items_mem_def hp_free_def)
  ultimately show ?thesis
    using assms(4,5) t xs(2) k by (simp add: av_shrink_def)
qed

theorem avec_tiny_shrink_destroys_pointer_witness:
  "av_shrink tiny8 \<lparr>hp_blocks = [0 \<mapsto> Some (1::nat) # replicate 36 None], hp_next = 1\<rparr>
     \<lparr>av_size = 1, av_cap = 37, av_items = Blk 0, av_static = replicate 14 None\<rparr> = Inl BadAccess"
  by (rule avec_tiny_shrink_destroys_pointer [where ys = "[1]"])
    (auto simp: tiny8_def cf_ok_def static_count_def av_rep_def av_wf_def hp_ok_def)

text \<open>
  \<^verbatim>\<open>SafeIndexAt\<close> always returns the element at the index, extending the vector with
  default values up to it when it is past the end, as long as twice the index fits the counter.
\<close>

theorem safe_index_at_extends:
  assumes "cf_ok cf" "av_rep cf h v ys" "(i + 1) * 2 < 2 ^ cf_bits cf"
  shows "\<exists>h' v'. safe_index_at cf dv i h v = Inr (if i < length ys then ys ! i else dv, h', v') \<and>
    av_rep cf h' v' (ys @ replicate (i + 1 - length ys) dv)"
  using safe_index_at_ok [OF assms] by blast

theorem safe_index_at_extends_witness:
  "\<exists>h' v'. safe_index_at tiny8 0 20 heap0 (av_new tiny8) = Inr (0 :: nat, h', v') \<and>
    av_rep tiny8 h' v' (replicate 21 0)"
  using safe_index_at_extends [OF _ tiny8_rep, of 20 "0 :: nat"] by simp

end
