(* ===== verification/Bytes.thy ===== *)
theory Bytes
  imports Algorithms
begin

text \<open>
  \<^verbatim>\<open>ion/byte\<close>: byte buffers, the reader and the two writers over them, and the
  serialisation of values.

  \<^item> \<open>bbuf\<close> is \<^verbatim>\<open>ByteBufferBase\<close> with the container of its subclasses:
    \<open>bb_own\<close> the container's bytes, \<open>bb_extern\<close> the memory behind
    \<^verbatim>\<open>mDataPtr\<close> when that is not the container.  A byte is \<open>None\<close> until it is written.
  \<^item> Writer and reader positions are offsets from the start of the buffer.
  \<^item> The virtual \<^verbatim>\<open>SetSize\<close> is a parameter \<open>ss\<close> of the operations that may grow
    the buffer; the three subclasses give \<open>view_set_size\<close>, \<open>fixed_set_size\<close> and
    \<open>buf_set_size\<close>.  A container is resized by \<^verbatim>\<open>Vector::ResizeFast\<close>, whose effect on
    the stored sequence is \<open>resize_fast\<close>.
  \<^item> \<^verbatim>\<open>ION_ABNORMAL\<close> logs and continues (breaking on it is a run-time option).
\<close>

type_synonym u8 = "8 word"

section \<open>Buffers\<close>

record bbuf =
  bb_own :: "u8 slots"
  bb_extern :: "u8 slots option"
  bb_used :: nat
  bb_cap :: nat
  bb_flag :: bool

definition bb_mem :: "bbuf \<Rightarrow> u8 slots" where
  "bb_mem b = (case bb_extern b of Some m \<Rightarrow> m | None \<Rightarrow> bb_own b)"

definition bb_put :: "u8 slots \<Rightarrow> bbuf \<Rightarrow> bbuf" where
  "bb_put m b = (case bb_extern b of Some _ \<Rightarrow> b\<lparr>bb_extern := Some m\<rparr> | None \<Rightarrow> b\<lparr>bb_own := m\<rparr>)"

definition bb_write :: "nat \<Rightarrow> u8 list \<Rightarrow> bbuf \<Rightarrow> bbuf res" where
  "bb_write pos bs b =
     (if pos + length bs \<le> length (bb_mem b)
      then Inr (bb_put (take pos (bb_mem b) @ map Some bs @ drop (pos + length bs) (bb_mem b)) b)
      else Inl BadAccess)"

definition bb_rewind :: "nat \<Rightarrow> bbuf \<Rightarrow> bbuf res" where
  "bb_rewind pos b = assertR (pos \<le> bb_cap b) (Inr (b\<lparr>bb_used := pos\<rparr>))"

definition bb_override :: "u8 slots \<Rightarrow> nat \<Rightarrow> nat \<Rightarrow> bbuf \<Rightarrow> bbuf" where
  "bb_override m bytes bits b =
     b\<lparr>bb_flag := True, bb_extern := Some m, bb_cap := bytes, bb_used := bits div 8\<rparr>"

definition bb_stop_writing :: "nat \<Rightarrow> bbuf \<Rightarrow> bbuf res" where
  "bb_stop_writing endpos b = assertR (endpos \<le> bb_cap b) (Inr (b\<lparr>bb_used := endpos\<rparr>))"

definition bb_extend :: "(nat \<Rightarrow> bbuf \<Rightarrow> bbuf res) \<Rightarrow> nat \<Rightarrow> bbuf \<Rightarrow> bbuf res" where
  "bb_extend ss n b = (if bb_cap b < n then ss (trunc 32 ((bb_cap b + 512) * 2 + n)) b else ss (bb_cap b) b)"

definition resize_fast :: "nat \<Rightarrow> 'v slots \<Rightarrow> 'v slots" where
  "resize_fast n xs = take n xs @ replicate (n - length xs) None"

definition view_new :: "u8 slots \<Rightarrow> bbuf" where
  "view_new xs = \<lparr>bb_own = xs, bb_extern = None, bb_used = length xs, bb_cap = length xs, bb_flag = False\<rparr>"

definition view_set_size :: "nat \<Rightarrow> bbuf \<Rightarrow> bbuf res" where
  "view_set_size n b = Inr (b\<lparr>bb_own := resize_fast n (bb_own b), bb_extern := None, bb_cap := n\<rparr>)"

definition view_finish :: "bbuf \<Rightarrow> u8 slots" where
  "view_finish b = resize_fast (bb_used b) (bb_own b)"

definition fixed_new :: "u8 slots \<Rightarrow> nat \<Rightarrow> bbuf res" where
  "fixed_new arr n = bindR (safe_range_cast 32 n) (\<lambda>c.
     bb_rewind 0 \<lparr>bb_own = arr, bb_extern = None, bb_used = 0, bb_cap = c, bb_flag = False\<rparr>)"

definition fixed_set_size :: "nat \<Rightarrow> bbuf \<Rightarrow> bbuf res" where
  "fixed_set_size n b = Inl AssertFail"

definition buf_new :: "nat \<Rightarrow> bbuf" where
  "buf_new n = \<lparr>bb_own = replicate n None, bb_extern = None, bb_used = 0, bb_cap = n, bb_flag = False\<rparr>"

definition buf_copy :: "bbuf \<Rightarrow> bbuf" where
  "buf_copy other =
     (let b = (buf_new 0)\<lparr>bb_own := bb_own other\<rparr> in
      if bb_flag other then bb_override (bb_mem other) (bb_cap other) (bb_used other) b
      else b\<lparr>bb_cap := length (bb_own b), bb_used := bb_used other\<rparr>)"

definition buf_assign_move :: "bbuf \<Rightarrow> bbuf \<Rightarrow> bbuf \<times> bbuf" where
  "buf_assign_move b other =
     (if bb_flag other then (bb_override (bb_mem other) (bb_cap other) (bb_used other) b, other)
      else (b\<lparr>bb_own := bb_own other, bb_extern := None, bb_cap := length (bb_own other), bb_used := bb_used other\<rparr>,
            other\<lparr>bb_own := []\<rparr>))"

definition buf_set_size :: "nat \<Rightarrow> bbuf \<Rightarrow> bbuf res" where
  "buf_set_size n b =
     (let own = resize_fast n (bb_own b) in
      Inr (b\<lparr>bb_own := own, bb_extern := None, bb_cap := length own\<rparr>))"

definition buf_clear :: "bbuf \<Rightarrow> bbuf" where
  "buf_clear b = b\<lparr>bb_own := [], bb_extern := None, bb_cap := 0\<rparr>"

section \<open>Reader\<close>

record breader =
  rd_bytes :: "u8 list"
  rd_pos :: nat

definition rd_new :: "u8 list \<Rightarrow> breader" where
  "rd_new bs = \<lparr>rd_bytes = bs, rd_pos = 0\<rparr>"

definition rd_move :: "breader \<Rightarrow> breader \<times> breader" where
  "rd_move other = (other, rd_new [])"

definition rd_available :: "breader \<Rightarrow> nat" where
  "rd_available r = nat ((int (length (rd_bytes r)) - int (rd_pos r)) mod 2 ^ 32)"

definition rd_offset :: "breader \<Rightarrow> nat" where
  "rd_offset r = trunc 32 (rd_pos r)"

definition rd_size :: "breader \<Rightarrow> nat" where
  "rd_size r = trunc 32 (length (rd_bytes r))"

definition rd_assume :: "nat \<Rightarrow> breader \<Rightarrow> (u8 list \<times> breader) res" where
  "rd_assume len r = assertR (len \<le> rd_available r)
     (if rd_pos r + len \<le> length (rd_bytes r)
      then Inr (take len (drop (rd_pos r) (rd_bytes r)), r\<lparr>rd_pos := rd_pos r + len\<rparr>) else Inl BadAccess)"

definition rd_array :: "nat \<Rightarrow> breader \<Rightarrow> (u8 list option \<times> breader) res" where
  "rd_array len r =
     (if rd_available r < len then Inr (None, r)
      else bindR (rd_assume len r) (\<lambda>(bs, r'). Inr (Some bs, r')))"

definition rd_skip :: "nat \<Rightarrow> breader \<Rightarrow> breader" where
  "rd_skip n r = r\<lparr>rd_pos := rd_pos r + n\<rparr>"

definition rd_rewind :: "breader \<Rightarrow> breader" where
  "rd_rewind r = r\<lparr>rd_pos := 0\<rparr>"

definition rd_directly :: "(u8 list \<Rightarrow> nat) \<Rightarrow> breader \<Rightarrow> (nat \<times> breader) res" where
  "rd_directly f r =
     (let n = f (drop (rd_pos r) (rd_bytes r)); r' = r\<lparr>rd_pos := rd_pos r + n\<rparr> in
      assertR (rd_pos r' \<le> length (rd_bytes r')) (Inr (n, r')))"

section \<open>The checked writer\<close>

record bwriter =
  wr_pos :: nat
  wr_start :: nat
  wr_end :: nat

type_synonym wstate = "bbuf \<times> bwriter"

definition wr_new :: "bbuf \<Rightarrow> wstate res" where
  "wr_new b = assertR (bb_used b \<le> bb_cap b)
     (Inr (b, \<lparr>wr_pos = bb_used b, wr_start = bb_used b, wr_end = bb_cap b\<rparr>))"

definition wr_available :: "bwriter \<Rightarrow> nat res" where
  "wr_available w = assertR (wr_pos w \<le> wr_end w) (Inr (trunc 32 (wr_end w - wr_pos w)))"

definition wr_extend :: "(nat \<Rightarrow> bbuf \<Rightarrow> bbuf res) \<Rightarrow> nat \<Rightarrow> wstate \<Rightarrow> (bool \<times> wstate) res" where
  "wr_extend ss n bw = (case bw of (b, w) \<Rightarrow>
     bindR (safe_range_cast 32 (n + wr_pos w)) (\<lambda>size.
     bindR (bb_extend ss size b) (\<lambda>b'.
     (let w' = w\<lparr>wr_end := bb_cap b'\<rparr> in
      bindR (wr_available w') (\<lambda>av. Inr (n \<le> av, b', w'))))))"

definition wr_keep :: "u8 list \<Rightarrow> wstate \<Rightarrow> wstate res" where
  "wr_keep bs bw = (case bw of (b, w) \<Rightarrow>
     assertR (wr_pos w + length bs \<le> wr_end w)
       (bindR (bb_write (wr_pos w) bs b) (\<lambda>b'. Inr (b', w\<lparr>wr_pos := wr_pos w + length bs\<rparr>))))"

definition wr_array :: "(nat \<Rightarrow> bbuf \<Rightarrow> bbuf res) \<Rightarrow> u8 list \<Rightarrow> nat \<Rightarrow> wstate \<Rightarrow> wstate res" where
  "wr_array ss bs extra bw =
     bindR (wr_available (snd bw)) (\<lambda>av.
     if av < length bs then
       bindR (wr_extend ss (trunc 32 (extra + length bs)) bw) (\<lambda>(ok, bw'). if ok then wr_keep bs bw' else Inr bw')
     else wr_keep bs bw)"

definition wr_ensure :: "(nat \<Rightarrow> bbuf \<Rightarrow> bbuf res) \<Rightarrow> nat \<Rightarrow> wstate \<Rightarrow> (bool \<times> wstate) res" where
  "wr_ensure ss n bw =
     bindR (wr_available (snd bw)) (\<lambda>av.
     if av < n then wr_extend ss n bw
     else assertR (wr_pos (snd bw) \<le> wr_end (snd bw)) (Inr (True, bw)))"

definition wr_copy :: "(nat \<Rightarrow> bbuf \<Rightarrow> bbuf res) \<Rightarrow> breader \<Rightarrow> wstate \<Rightarrow> (bool \<times> breader \<times> wstate) res" where
  "wr_copy ss src bw =
     (let len = rd_available src in
      if 0 < len then
        bindR (wr_available (snd bw)) (\<lambda>av.
        bindR (if av < len then wr_extend ss len bw else Inr (True, bw)) (\<lambda>(ok, bw').
        if ok then
          bindR (rd_assume len src) (\<lambda>(bs, src').
          bindR (bb_write (wr_pos (snd bw')) bs (fst bw')) (\<lambda>b'.
          Inr (True, src', b', (snd bw')\<lparr>wr_pos := wr_pos (snd bw') + len\<rparr>)))
        else Inr (False, src, bw')))
      else Inr (True, src, bw))"

definition wr_flush :: "wstate \<Rightarrow> bbuf res" where
  "wr_flush bw = bb_stop_writing (wr_pos (snd bw)) (fst bw)"

definition wr_finish :: "wstate \<Rightarrow> bbuf res" where
  "wr_finish bw = assertR (wr_pos (snd bw) \<le> wr_end (snd bw)) (bb_stop_writing (wr_pos (snd bw)) (fst bw))"

definition wr_used :: "bwriter \<Rightarrow> nat" where
  "wr_used w = wr_pos w - wr_start w"

definition wr_directly :: "(nat \<Rightarrow> u8 list) \<Rightarrow> wstate \<Rightarrow> (nat \<times> wstate) res" where
  "wr_directly f bw = (case bw of (b, w) \<Rightarrow>
     bindR (wr_available w) (\<lambda>av.
     (let bs = f av; w' = w\<lparr>wr_pos := wr_pos w + length bs\<rparr> in
      bindR (bb_write (wr_pos w) bs b) (\<lambda>b'.
      assertR (wr_pos w' \<le> wr_end w') (Inr (length bs, b', w'))))))"

section \<open>The unchecked writer\<close>

definition bu_available :: "bbuf \<Rightarrow> nat res" where
  "bu_available b = assertR (bb_used b \<le> bb_cap b) (Inr (trunc 32 (bb_cap b - bb_used b)))"

definition bu_write :: "u8 list \<Rightarrow> wstate \<Rightarrow> wstate res" where
  "bu_write bs bw = (case bw of (b, w) \<Rightarrow>
     bindR (bb_write (wr_pos w) bs b) (\<lambda>b'. Inr (b', w\<lparr>wr_pos := wr_pos w + length bs\<rparr>)))"

definition bu_extend :: "(nat \<Rightarrow> bbuf \<Rightarrow> bbuf res) \<Rightarrow> nat \<Rightarrow> wstate \<Rightarrow> (bool \<times> wstate) res" where
  "bu_extend ss n bw = (case bw of (b, w) \<Rightarrow>
     bindR (safe_range_cast 32 (n + wr_pos w)) (\<lambda>size.
     bindR (bb_extend ss size b) (\<lambda>b'.
     bindR (bu_available b') (\<lambda>av. Inr (n \<le> av, b', w)))))"

definition bu_ensure :: "(nat \<Rightarrow> bbuf \<Rightarrow> bbuf res) \<Rightarrow> nat \<Rightarrow> wstate \<Rightarrow> (bool \<times> wstate) res" where
  "bu_ensure ss n bw =
     bindR (bu_available (fst bw)) (\<lambda>av. if av < n then bu_extend ss n bw else Inr (True, bw))"

section \<open>Values and their bytes\<close>

text \<open>
  A value of a trivially copyable type travels as its object representation, which for an
  integer of \<open>k\<close> bytes is little endian on every platform the project builds for.
\<close>

fun enc :: "nat \<Rightarrow> nat \<Rightarrow> u8 list" where
  "enc 0 v = []"
| "enc (Suc k) v = word_of_nat v # enc k (v div 256)"

fun dec :: "u8 list \<Rightarrow> nat" where
  "dec [] = 0"
| "dec (b # bs) = unat b + 256 * dec bs"

datatype ty = TInt nat | TEnum nat | TFixed nat nat | TArr ty | TStr
datatype val = VInt nat | VInts "nat list" | VList "val list" | VStr "u8 list"

definition is_integral :: "ty \<Rightarrow> bool" where
  "is_integral t = (case t of TInt _ \<Rightarrow> True | _ \<Rightarrow> False)"

definition int_size :: "ty \<Rightarrow> nat" where
  "int_size t = (case t of TInt k \<Rightarrow> k | _ \<Rightarrow> 0)"

fun each :: "('a \<Rightarrow> 's \<Rightarrow> 's res) \<Rightarrow> 'a list \<Rightarrow> 's \<Rightarrow> 's res" where
  "each f [] s = Inr s"
| "each f (x # xs) s = bindR (f x s) (each f xs)"

definition serialize_string :: "(nat \<Rightarrow> bbuf \<Rightarrow> bbuf res) \<Rightarrow> u8 list \<Rightarrow> wstate \<Rightarrow> wstate res" where
  "serialize_string ss bs bw =
     bindR (safe_range_cast 32 (length bs)) (\<lambda>len.
     bindR (wr_array ss (enc 4 len) 0 bw) (\<lambda>bw1. wr_array ss bs 0 bw1))"

fun serialize :: "(nat \<Rightarrow> bbuf \<Rightarrow> bbuf res) \<Rightarrow> (ty \<Rightarrow> nat) \<Rightarrow> ty \<Rightarrow> val \<Rightarrow> wstate \<Rightarrow> wstate res" where
  "serialize ss sz (TInt k) (VInt n) bw = wr_array ss (enc k n) 0 bw"
| "serialize ss sz (TEnum k) (VInt n) bw = wr_array ss (enc k n) 0 bw"
| "serialize ss sz (TFixed cnt k) (VInts ns) bw = wr_array ss (concat (map (enc k) ns)) 0 bw"
| "serialize ss sz (TArr t) (VInts ns) bw =
     (let k = int_size t; s = length ns in
      bindR (wr_ensure ss (trunc 32 (k * s + 4)) bw) (\<lambda>(_, bw1).
      bindR (wr_keep (enc 4 s) bw1) (\<lambda>bw2.
      wr_keep (take (trunc 32 (k * s)) (concat (map (enc k) ns))) bw2)))"
| "serialize ss sz (TArr t) (VList vs) bw =
     (let s = length vs in
      bindR (wr_ensure ss (trunc 32 (sz t * s + 4)) bw) (\<lambda>(_, bw1).
      bindR (wr_keep (enc 4 s) bw1) (\<lambda>bw2.
      each (serialize ss sz t) vs bw2)))"
| "serialize ss sz TStr (VStr bs) bw =
     serialize_string ss bs bw"
| "serialize ss sz t v bw = Inl AssertFail"

definition deserialize_length :: "breader \<Rightarrow> (nat \<times> breader) res" where
  "deserialize_length r =
     (if 4 \<le> rd_available r then
        bindR (rd_assume 4 r) (\<lambda>(bs, r').
        (let s = dec bs in Inr (if 16 * 1024 < s then 0 else s, r')))
      else Inr (0, r))"

fun chunks :: "nat \<Rightarrow> nat \<Rightarrow> u8 list \<Rightarrow> nat list" where
  "chunks k 0 bs = []"
| "chunks k (Suc n) bs = dec (take k bs) # chunks k n (drop k bs)"

fun init_val :: "ty \<Rightarrow> val" where
  "init_val (TInt k) = VInt 0"
| "init_val (TEnum k) = VInt 0"
| "init_val (TFixed n k) = VInts (replicate n 0)"
| "init_val (TArr t) = (if is_integral t then VInts [] else VList [])"
| "init_val TStr = VStr []"

fun des_each :: "(breader \<Rightarrow> (bool \<times> val \<times> breader) res) \<Rightarrow> nat \<Rightarrow> bool \<times> val list \<times> breader
    \<Rightarrow> (bool \<times> val list \<times> breader) res" where
  "des_each f 0 s = Inr s"
| "des_each f (Suc n) (ok, vs, r) =
     bindR (f r) (\<lambda>(ok', v, r'). des_each f n (ok \<and> ok', vs @ [v], r'))"

definition deserialize_string :: "val \<Rightarrow> breader \<Rightarrow> (bool \<times> val \<times> breader) res" where
  "deserialize_string dst r =
     bindR (deserialize_length r) (\<lambda>(len, r1).
     bindR (rd_array len r1) (\<lambda>(bs, r2).
     case bs of None \<Rightarrow> Inr (False, dst, r2) | Some cs \<Rightarrow> Inr (True, VStr cs, r2)))"

fun deserialize :: "ty \<Rightarrow> val \<Rightarrow> breader \<Rightarrow> (bool \<times> val \<times> breader) res" where
  "deserialize (TFixed cnt k) dst r =
     (let s = cnt * k in
      if s \<le> rd_available r then
        bindR (rd_assume s r) (\<lambda>(bs, r'). Inr (True, VInts (chunks k cnt bs), r'))
      else Inr (True, dst, r))"
| "deserialize (TArr t) dst r =
     bindR (deserialize_length r) (\<lambda>(s, r1).
     if is_integral t then
       (if int_size t * s \<le> rd_available r1 then
          bindR (rd_assume (int_size t * s) r1) (\<lambda>(bs, r2). Inr (True, VInts (chunks (int_size t) s bs), r2))
        else Inr (False, dst, r1))
     else
       bindR (des_each (deserialize t (init_val t)) s (True, (case dst of VList vs \<Rightarrow> vs | _ \<Rightarrow> []), r1))
         (\<lambda>(ok, vs, r2). Inr (ok, VList vs, r2)))"
| "deserialize (TEnum k) dst r =
     (if k \<le> rd_available r then bindR (rd_assume k r) (\<lambda>(bs, r'). Inr (True, VInt (dec bs), r'))
      else Inr (False, VInt 0, r))"
| "deserialize (TInt k) dst r =
     (if k \<le> rd_available r then bindR (rd_assume k r) (\<lambda>(bs, r'). Inr (True, VInt (dec bs), r'))
      else Inr (False, dst, r))"
| "deserialize TStr dst r =
     deserialize_string dst r"

declare serialize_string_def [simp] deserialize_string_def [simp]

section \<open>The object representation of integers\<close>

lemma length_enc [simp]: "length (enc k v) = k"
  by (induction k arbitrary: v) auto

lemma dec_enc: "dec (enc k v) = v mod 256 ^ k"
proof (induction k arbitrary: v)
  case (Suc k)
  have "v mod 256 ^ Suc k = v mod 256 + 256 * (v div 256 mod 256 ^ k)"
    by (simp add: mod_mult2_eq)
  then show ?case using Suc by (simp add: unat_of_nat)
qed simp

lemma dec_enc_id: "v < 256 ^ k \<Longrightarrow> dec (enc k v) = v"
  by (simp add: dec_enc)

lemma length_concat_enc [simp]: "length (concat (map (enc k) ns)) = length ns * k"
  by (induction ns) auto

lemma chunks_concat: "\<forall>n\<in>set ns. n < 256 ^ k \<Longrightarrow> chunks k (length ns) (concat (map (enc k) ns)) = ns"
  by (induction ns) (auto simp: dec_enc_id)

lemma length_chunks [simp]: "length (chunks k n bs) = n"
  by (induction k n bs rule: chunks.induct) auto

section \<open>The virtual \<^verbatim>\<open>SetSize\<close> as an interface\<close>

definition bb_ok :: "bbuf \<Rightarrow> bool" where
  "bb_ok b \<longleftrightarrow> bb_extern b = None \<and> length (bb_own b) = bb_cap b \<and> bb_used b \<le> bb_cap b \<and> bb_cap b < 2 ^ 32"

locale byte_store =
  fixes ss :: "nat \<Rightarrow> bbuf \<Rightarrow> bbuf res"
  assumes keeps: "bb_ok b \<Longrightarrow> bb_cap b \<le> n \<Longrightarrow> n < 2 ^ 32 \<Longrightarrow> ss n b = Inr b' \<Longrightarrow>
      bb_ok b' \<and> bb_cap b' = n \<and> take (bb_cap b) (bb_mem b') = bb_mem b \<and> bb_used b' = bb_used b"
    and no_bad_access: "bb_ok b \<Longrightarrow> bb_cap b \<le> n \<Longrightarrow> n < 2 ^ 32 \<Longrightarrow> ss n b \<noteq> Inl BadAccess"

locale growing_store = byte_store +
  assumes grows: "bb_ok b \<Longrightarrow> bb_cap b \<le> n \<Longrightarrow> n < 2 ^ 32 \<Longrightarrow> \<exists>b'. ss n b = Inr b'"

definition ws_ok :: "wstate \<Rightarrow> bool" where
  "ws_ok bw \<longleftrightarrow> bb_ok (fst bw) \<and> wr_end (snd bw) = bb_cap (fst bw) \<and> wr_pos (snd bw) \<le> bb_cap (fst bw) \<and>
     wr_start (snd bw) \<le> wr_pos (snd bw)"

definition ws_view :: "wstate \<Rightarrow> u8 slots" where
  "ws_view bw = take (wr_pos (snd bw)) (bb_mem (fst bw))"

definition ws_appends :: "u8 list \<Rightarrow> wstate \<Rightarrow> wstate \<Rightarrow> bool" where
  "ws_appends bs bw bw' \<longleftrightarrow> ws_ok bw' \<and> ws_view bw' = ws_view bw @ map Some bs \<and>
     wr_pos (snd bw') = wr_pos (snd bw) + length bs \<and> wr_start (snd bw') = wr_start (snd bw) \<and>
     bb_cap (fst bw) \<le> bb_cap (fst bw')"

lemma ws_appends_refl: "ws_ok bw \<Longrightarrow> ws_appends [] bw bw"
  by (simp add: ws_appends_def)

lemma ws_appends_trans: "ws_appends xs a b \<Longrightarrow> ws_appends ys b c \<Longrightarrow> ws_appends (xs @ ys) a c"
  by (simp add: ws_appends_def)

lemma wr_keep_ok:
  assumes "ws_ok bw" "wr_pos (snd bw) + length bs \<le> bb_cap (fst bw)"
  shows "\<exists>bw'. wr_keep bs bw = Inr bw' \<and> ws_appends bs bw bw' \<and> bb_cap (fst bw') = bb_cap (fst bw)"
proof -
  obtain b w where bw: "bw = (b, w)" by force
  have m: "bb_extern b = None" "bb_mem b = bb_own b" "length (bb_own b) = bb_cap b" "bb_used b \<le> bb_cap b"
    "bb_cap b < 2 ^ 32" using assms(1) bw by (auto simp: ws_ok_def bb_ok_def bb_mem_def)
  let ?own = "take (wr_pos w) (bb_own b) @ map Some bs @ drop (wr_pos w + length bs) (bb_own b)"
  let ?b = "b\<lparr>bb_own := ?own\<rparr>" and ?w = "w\<lparr>wr_pos := wr_pos w + length bs\<rparr>"
  have "wr_keep bs bw = Inr (?b, ?w)"
    using assms bw m by (simp add: wr_keep_def bb_write_def bb_put_def ws_ok_def)
  moreover have "ws_appends bs bw (?b, ?w)"
    using assms bw m by (auto simp: ws_appends_def ws_ok_def bb_ok_def ws_view_def bb_mem_def)
  ultimately show ?thesis using bw by auto
qed

lemma wr_keep_overflow:
  "ws_ok bw \<Longrightarrow> bb_cap (fst bw) < wr_pos (snd bw) + length bs \<Longrightarrow> wr_keep bs bw = Inl AssertFail"
  by (cases bw) (auto simp: wr_keep_def ws_ok_def)

lemma wr_available_ok:
  "ws_ok bw \<Longrightarrow> wr_available (snd bw) = Inr (bb_cap (fst bw) - wr_pos (snd bw))"
  by (auto simp: wr_available_def ws_ok_def bb_ok_def trunc_id)

lemma ws_set_end:
  assumes "ws_ok (b, w)" "bb_ok b'" "bb_cap b \<le> bb_cap b'" "take (bb_cap b) (bb_mem b') = bb_mem b"
  shows "ws_appends [] (b, w) (b', w\<lparr>wr_end := bb_cap b'\<rparr>)"
proof -
  have "take (wr_pos w) (bb_mem b') = take (wr_pos w) (bb_mem b)"
    using assms by (metis fst_conv min.absorb1 snd_conv take_take ws_ok_def)
  then show ?thesis using assms by (auto simp: ws_appends_def ws_ok_def ws_view_def)
qed

context byte_store
begin

lemma wr_extend_sound:
  assumes "ws_ok (b, w)" "bb_cap b < n + wr_pos w" "(bb_cap b + 512) * 2 + (n + wr_pos w) < 2 ^ 32"
  shows "wr_extend ss n (b, w) = Inl AssertFail \<or>
    (\<exists>b'. wr_extend ss n (b, w) = Inr (True, b', w\<lparr>wr_end := bb_cap b'\<rparr>) \<and>
      bb_cap b' = (bb_cap b + 512) * 2 + (n + wr_pos w) \<and> ws_appends [] (b, w) (b', w\<lparr>wr_end := bb_cap b'\<rparr>))"
proof -
  let ?c = "(bb_cap b + 512) * 2 + (n + wr_pos w)"
  have ok: "bb_ok b" using assms(1) by (simp add: ws_ok_def)
  have sz: "safe_range_cast 32 (n + wr_pos w) = Inr (n + wr_pos w)" "trunc 32 ?c = ?c"
    using assms(3) by (simp_all add: safe_range_cast_ok trunc_id)
  have ext: "bb_extend ss (n + wr_pos w) b = ss ?c b"
    using assms(2) sz(2) by (simp add: bb_extend_def)
  have le: "bb_cap b \<le> ?c" using assms(2) by simp
  show ?thesis
  proof (cases "ss ?c b")
    case (Inl e)
    then have "e = AssertFail" using no_bad_access [OF ok le assms(3)] by (cases e) auto
    then show ?thesis using Inl sz ext by (simp add: wr_extend_def)
  next
    case (Inr b')
    note k = keeps [OF ok le assms(3) Inr]
    have "bb_ok b'" "bb_cap b \<le> bb_cap b'" "take (bb_cap b) (bb_mem b') = bb_mem b" using k le by simp_all
    then have "ws_appends [] (b, w) (b', w\<lparr>wr_end := bb_cap b'\<rparr>)" by (rule ws_set_end [OF assms(1)])
    then show ?thesis
      using Inr sz ext k assms(3) by (auto simp: wr_extend_def wr_available_def trunc_id)
  qed
qed

lemma wr_array_sound:
  assumes "ws_ok bw" "(bb_cap (fst bw) + 512) * 2 + (e + length bs + wr_pos (snd bw)) < 2 ^ 32"
  shows "wr_array ss bs e bw = Inl AssertFail \<or> (\<exists>bw'. wr_array ss bs e bw = Inr bw' \<and> ws_appends bs bw bw')"
proof -
  obtain b w where bw: "bw = (b, w)" by force
  note av = wr_available_ok [OF assms(1)]
  show ?thesis
  proof (cases "bb_cap b - wr_pos w < length bs")
    case True
    have tr: "trunc 32 (e + length bs) = e + length bs" using assms(2) by (simp add: trunc_id)
    have lt: "bb_cap b < e + length bs + wr_pos w" using True by linarith
    have D: "wr_extend ss (e + length bs) (b, w) = Inl AssertFail \<or>
      (\<exists>b'. wr_extend ss (e + length bs) (b, w) = Inr (True, b', w\<lparr>wr_end := bb_cap b'\<rparr>) \<and>
        bb_cap b' = (bb_cap b + 512) * 2 + (e + length bs + wr_pos w) \<and> ws_appends [] (b, w) (b', w\<lparr>wr_end := bb_cap b'\<rparr>))"
      using assms lt bw by (intro wr_extend_sound) auto
    then show ?thesis
    proof (elim disjE exE conjE)
      assume "wr_extend ss (e + length bs) (b, w) = Inl AssertFail"
      then show ?thesis using True av bw tr by (simp add: wr_array_def)
    next
      fix b' assume r: "wr_extend ss (e + length bs) (b, w) = Inr (True, b', w\<lparr>wr_end := bb_cap b'\<rparr>)"
        "bb_cap b' = (bb_cap b + 512) * 2 + (e + length bs + wr_pos w)" "ws_appends [] (b, w) (b', w\<lparr>wr_end := bb_cap b'\<rparr>)"
      obtain bw' where "wr_keep bs (b', w\<lparr>wr_end := bb_cap b'\<rparr>) = Inr bw'"
        "ws_appends bs (b', w\<lparr>wr_end := bb_cap b'\<rparr>) bw'"
        using wr_keep_ok [of "(b', w\<lparr>wr_end := bb_cap b'\<rparr>)" bs] r(2,3) by (auto simp: ws_appends_def)
      then show ?thesis using True av bw tr r(1) ws_appends_trans [OF r(3)] by (auto simp: wr_array_def)
    qed
  next
    case False
    have "wr_pos w + length bs \<le> bb_cap b" using False assms(1) bw by (auto simp: ws_ok_def)
    then show ?thesis using wr_keep_ok [of bw bs] assms(1) False av bw by (auto simp: wr_array_def)
  qed
qed

end

context growing_store
begin

lemma wr_ensure_ok:
  assumes "ws_ok bw" "bb_cap (fst bw) \<le> M" "3 * (wr_pos (snd bw) + n) + 1024 \<le> M" "M < 2 ^ 32"
  shows "\<exists>bw'. wr_ensure ss n bw = Inr (True, bw') \<and> ws_appends [] bw bw' \<and> bb_cap (fst bw') \<le> M \<and>
    wr_pos (snd bw) + n \<le> bb_cap (fst bw')"
proof -
  obtain b w where bw: "bw = (b, w)" by force
  note av = wr_available_ok [OF assms(1)]
  show ?thesis
  proof (cases "bb_cap b - wr_pos w < n")
    case True
    let ?c = "(bb_cap b + 512) * 2 + (n + wr_pos w)"
    have c: "?c \<le> M" "?c < 2 ^ 32" using True assms(3,4) bw by auto
    have ok: "bb_ok b" using assms(1) bw by (simp add: ws_ok_def)
    have "wr_extend ss n (b, w) \<noteq> Inl AssertFail"
    proof -
      obtain b' where b': "ss ?c b = Inr b'" using grows [OF ok _ c(2)] by auto
      have "bb_cap b' = ?c" using keeps [OF ok _ c(2) b'] by simp
      then show ?thesis
        using True c(2) b' by (auto simp: wr_extend_def safe_range_cast_ok trunc_id bb_extend_def wr_available_def)
    qed
    moreover have "bb_cap b < n + wr_pos w" "ws_ok (b, w)" using True assms(1) bw by auto
    ultimately obtain b' where r: "wr_extend ss n (b, w) = Inr (True, b', w\<lparr>wr_end := bb_cap b'\<rparr>)" "bb_cap b' = ?c"
      "ws_appends [] (b, w) (b', w\<lparr>wr_end := bb_cap b'\<rparr>)"
      using wr_extend_sound [of b w n] c(2) by blast
    then show ?thesis using True av bw c(1) by (auto simp: wr_ensure_def)
  next
    case False
    have "wr_ensure ss n bw = Inr (True, bw)"
      using False av bw assms(1) by (auto simp: wr_ensure_def ws_ok_def)
    then show ?thesis using False bw assms(1,2) ws_appends_refl by (auto simp: ws_ok_def)
  qed
qed

lemma wr_array_ok:
  assumes "ws_ok bw" "bb_cap (fst bw) \<le> M" "3 * (wr_pos (snd bw) + length bs) + 1024 \<le> M" "M < 2 ^ 32"
  shows "\<exists>bw'. wr_array ss bs 0 bw = Inr bw' \<and> ws_appends bs bw bw' \<and> bb_cap (fst bw') \<le> M"
proof -
  obtain bw1 where e: "wr_ensure ss (length bs) bw = Inr (True, bw1)" "ws_appends [] bw bw1" "bb_cap (fst bw1) \<le> M"
    "wr_pos (snd bw) + length bs \<le> bb_cap (fst bw1)"
    using wr_ensure_ok [OF assms] by blast
  have p: "wr_pos (snd bw1) = wr_pos (snd bw)" "ws_ok bw1" using e(2) by (auto simp: ws_appends_def)
  obtain bw2 where k: "wr_keep bs bw1 = Inr bw2" "ws_appends bs bw1 bw2" "bb_cap (fst bw2) = bb_cap (fst bw1)"
    using wr_keep_ok [OF p(2), of bs] p(1) e(4) by metis
  note av = wr_available_ok [OF assms(1)]
  have t: "trunc 32 (length bs) = length bs" using assms(3,4) by (simp add: trunc_id)
  have "wr_array ss bs 0 bw = wr_keep bs bw1"
  proof (cases "bb_cap (fst bw) - wr_pos (snd bw) < length bs")
    case True
    then show ?thesis using e(1) av t by (auto simp: wr_array_def wr_ensure_def)
  next
    case False
    then have "bw1 = bw" using e(1) av assms(1) by (auto simp: wr_ensure_def ws_ok_def)
    then show ?thesis using False av by (simp add: wr_array_def)
  qed
  then show ?thesis using k e(3) ws_appends_trans [OF e(2) k(2)] by auto
qed

end

section \<open>Serialisation against its format\<close>

fun encode :: "ty \<Rightarrow> val \<Rightarrow> u8 list" where
  "encode (TInt k) (VInt n) = enc k n"
| "encode (TEnum k) (VInt n) = enc k n"
| "encode (TFixed cnt k) (VInts ns) = concat (map (enc k) ns)"
| "encode (TArr t) (VInts ns) = enc 4 (length ns) @ concat (map (enc (int_size t)) ns)"
| "encode (TArr t) (VList vs) = enc 4 (length vs) @ concat (map (encode t) vs)"
| "encode TStr (VStr bs) = enc 4 (length bs) @ bs"
| "encode t v = []"

fun well_typed :: "ty \<Rightarrow> val \<Rightarrow> bool" where
  "well_typed (TInt k) (VInt n) \<longleftrightarrow> n < 256 ^ k"
| "well_typed (TEnum k) (VInt n) \<longleftrightarrow> n < 256 ^ k"
| "well_typed (TFixed cnt k) (VInts ns) \<longleftrightarrow> length ns = cnt \<and> (\<forall>n\<in>set ns. n < 256 ^ k)"
| "well_typed (TArr t) (VInts ns) \<longleftrightarrow> is_integral t \<and> (\<forall>n\<in>set ns. n < 256 ^ int_size t) \<and> length ns \<le> 16384"
| "well_typed (TArr t) (VList vs) \<longleftrightarrow> \<not> is_integral t \<and> list_all (well_typed t) vs \<and> length vs \<le> 16384"
| "well_typed TStr (VStr bs) \<longleftrightarrow> length bs \<le> 16384"
| "well_typed t v \<longleftrightarrow> False"

fun room :: "(ty \<Rightarrow> nat) \<Rightarrow> ty \<Rightarrow> val \<Rightarrow> nat" where
  "room sz (TArr t) (VList vs) = sz t * length vs + 4 + sum_list (map (room sz t) vs)"
| "room sz t v = length (encode t v)"

lemma length_encode_room: "length (encode t v) \<le> room sz t v"
proof (induction t arbitrary: v)
  case (TArr t)
  have "length (concat (map (encode t) vs)) \<le> sum_list (map (room sz t) vs)" for vs
    using TArr by (induction vs) (auto intro: add_mono)
  then show ?case by (cases v) (auto intro: trans_le_add2)
qed auto

lemma each_appends:
  assumes "\<And>v bw. v \<in> set vs \<Longrightarrow> ws_ok bw \<Longrightarrow> bb_cap (fst bw) \<le> M \<Longrightarrow> 3 * (wr_pos (snd bw) + r v) + 1024 \<le> M \<Longrightarrow>
      \<exists>bw'. f v bw = Inr bw' \<and> ws_appends (g v) bw bw' \<and> bb_cap (fst bw') \<le> M"
    and "\<And>v. length (g v) \<le> r v"
  shows "ws_ok bw \<Longrightarrow> bb_cap (fst bw) \<le> M \<Longrightarrow> 3 * (wr_pos (snd bw) + sum_list (map r vs)) + 1024 \<le> M \<Longrightarrow>
    \<exists>bw'. each f vs bw = Inr bw' \<and> ws_appends (concat (map g vs)) bw bw' \<and> bb_cap (fst bw') \<le> M"
  using assms(1)
proof (induction vs arbitrary: bw)
  case Nil
  then show ?case using ws_appends_refl by (simp del: split_paired_Ex)
next
  case (Cons v vs)
  obtain bw1 where 1: "f v bw = Inr bw1" "ws_appends (g v) bw bw1" "bb_cap (fst bw1) \<le> M"
    using Cons(5) [of v bw] Cons(2-4) by auto
  have p: "ws_ok bw1" "wr_pos (snd bw1) \<le> wr_pos (snd bw) + r v"
    using 1(2) assms(2) [of v] by (auto simp: ws_appends_def)
  have b: "3 * (wr_pos (snd bw1) + sum_list (map r vs)) + 1024 \<le> M" using p(2) Cons(4) by simp
  obtain bw2 where "each f vs bw1 = Inr bw2" "ws_appends (concat (map g vs)) bw1 bw2" "bb_cap (fst bw2) \<le> M"
    using Cons(1) [OF p(1) 1(3) b] Cons(5) by auto
  then show ?case using 1(1) ws_appends_trans [OF 1(2)] by (auto simp del: split_paired_Ex)
qed

context growing_store
begin

lemma serialize_arr_head:
  assumes "ws_ok bw" "bb_cap (fst bw) \<le> M" "3 * (wr_pos (snd bw) + (n + 4)) + 1024 \<le> M" "M < 2 ^ 32"
  shows "\<exists>bw2. bindR (wr_ensure ss (trunc 32 (n + 4)) bw) (\<lambda>(_, bw1). bindR (wr_keep (enc 4 s) bw1) f) = f bw2 \<and>
    ws_appends (enc 4 s) bw bw2 \<and> bb_cap (fst bw2) \<le> M \<and> wr_pos (snd bw2) + n \<le> bb_cap (fst bw2)"
proof -
  have t: "trunc 32 (n + 4) = n + 4" using assms(3,4) by (simp add: trunc_id)
  obtain bw1 where 1: "wr_ensure ss (n + 4) bw = Inr (True, bw1)" "ws_appends [] bw bw1" "bb_cap (fst bw1) \<le> M"
    "wr_pos (snd bw) + (n + 4) \<le> bb_cap (fst bw1)"
    using wr_ensure_ok [OF assms] by blast
  have p: "ws_ok bw1" "wr_pos (snd bw1) = wr_pos (snd bw)" using 1(2) by (auto simp: ws_appends_def)
  have "wr_pos (snd bw1) + length (enc 4 s) \<le> bb_cap (fst bw1)" using 1(4) p(2) by simp
  then obtain bw2 where 2: "wr_keep (enc 4 s) bw1 = Inr bw2" "ws_appends (enc 4 s) bw1 bw2"
    "bb_cap (fst bw2) = bb_cap (fst bw1)"
    using wr_keep_ok [OF p(1)] by blast
  have "ws_appends (enc 4 s) bw bw2" using ws_appends_trans [OF 1(2) 2(2)] by simp
  moreover have "wr_pos (snd bw2) + n \<le> bb_cap (fst bw2)" using 2(2,3) 1(4) p(2) by (simp add: ws_appends_def)
  ultimately show ?thesis using 1(1,3) 2(1,3) t by (auto simp del: split_paired_Ex)
qed

lemma serialize_ok:
  assumes "M < 2 ^ 32"
  shows "well_typed t v \<Longrightarrow> ws_ok bw \<Longrightarrow> bb_cap (fst bw) \<le> M \<Longrightarrow> 3 * (wr_pos (snd bw) + room sz t v) + 1024 \<le> M \<Longrightarrow>
    \<exists>bw'. serialize ss sz t v bw = Inr bw' \<and> ws_appends (encode t v) bw bw' \<and> bb_cap (fst bw') \<le> M"
proof (induction t arbitrary: v bw)
  case (TInt k)
  then show ?case using wr_array_ok [OF TInt(2,3) _ assms] by (cases v) (auto simp del: split_paired_Ex)
next
  case (TEnum k)
  then show ?case using wr_array_ok [OF TEnum(2,3) _ assms] by (cases v) (auto simp del: split_paired_Ex)
next
  case (TFixed n k)
  then show ?case using wr_array_ok [OF TFixed(2,3) _ assms] by (cases v) (auto simp del: split_paired_Ex)
next
  case TStr
  then obtain bs where v: "v = VStr bs" "length bs \<le> 16384" by (cases v) auto
  have b: "3 * (wr_pos (snd bw) + length (enc 4 (length bs))) + 1024 \<le> M" using TStr(4) v by simp
  obtain bw1 where 1: "wr_array ss (enc 4 (length bs)) 0 bw = Inr bw1" "ws_appends (enc 4 (length bs)) bw bw1"
    "bb_cap (fst bw1) \<le> M"
    using wr_array_ok [OF TStr(2,3) b assms] by blast
  have p: "ws_ok bw1" "wr_pos (snd bw1) = wr_pos (snd bw) + 4" using 1(2) by (auto simp: ws_appends_def)
  have b1: "3 * (wr_pos (snd bw1) + length bs) + 1024 \<le> M" using TStr(4) v p(2) by simp
  obtain bw2 where 2: "wr_array ss bs 0 bw1 = Inr bw2" "ws_appends bs bw1 bw2" "bb_cap (fst bw2) \<le> M"
    using wr_array_ok [OF p(1) 1(3) b1 assms] by blast
  have "safe_range_cast 32 (length bs) = Inr (length bs)" using v by (simp add: safe_range_cast_ok)
  then show ?case using v 1(1) 2 ws_appends_trans [OF 1(2) 2(2)] by (simp del: split_paired_Ex)
next
  case (TArr t)
  consider (ints) ns where "v = VInts ns" "is_integral t" "length ns \<le> 16384"
    | (list) vs where "v = VList vs" "\<not> is_integral t" "list_all (well_typed t) vs" "length vs \<le> 16384"
    using TArr(2) by (cases v) auto
  then show ?case
  proof cases
    case ints
    let ?k = "int_size t" and ?bs = "concat (map (enc (int_size t)) ns)"
    have b: "3 * (wr_pos (snd bw) + (?k * length ns + 4)) + 1024 \<le> M" using TArr(5) ints(1) by (simp add: mult.commute)
    then have t: "take (trunc 32 (?k * length ns)) ?bs = ?bs"
      using assms by (simp add: trunc_id mult.commute)
    obtain bw2 where 2: "serialize ss sz (TArr t) v bw = wr_keep ?bs bw2" "ws_appends (enc 4 (length ns)) bw bw2"
      "bb_cap (fst bw2) \<le> M" "wr_pos (snd bw2) + ?k * length ns \<le> bb_cap (fst bw2)"
      using serialize_arr_head [OF TArr(3,4) b assms, of "length ns" "wr_keep ?bs"] ints(1) t by (auto simp: Let_def)
    have "ws_ok bw2" using 2(2) by (simp add: ws_appends_def)
    moreover have "wr_pos (snd bw2) + length ?bs \<le> bb_cap (fst bw2)" using 2(4) by (simp add: mult.commute)
    ultimately obtain bw3 where "wr_keep ?bs bw2 = Inr bw3" "ws_appends ?bs bw2 bw3" "bb_cap (fst bw3) = bb_cap (fst bw2)"
      using wr_keep_ok by blast
    then show ?thesis using 2(1,3) ws_appends_trans [OF 2(2)] ints(1) by (simp del: split_paired_Ex)
  next
    case list
    have b: "3 * (wr_pos (snd bw) + (sz t * length vs + 4)) + 1024 \<le> M" using TArr(5) list(1) by simp
    obtain bw2 where 2: "serialize ss sz (TArr t) v bw = each (serialize ss sz t) vs bw2"
      "ws_appends (enc 4 (length vs)) bw bw2" "bb_cap (fst bw2) \<le> M"
      using serialize_arr_head [OF TArr(3,4) b assms, of "length vs" "each (serialize ss sz t) vs"] list(1)
      by (auto simp: Let_def)
    have p: "ws_ok bw2" "wr_pos (snd bw2) = wr_pos (snd bw) + 4" using 2(2) by (auto simp: ws_appends_def)
    have b2: "3 * (wr_pos (snd bw2) + sum_list (map (room sz t) vs)) + 1024 \<le> M" using TArr(5) list(1) p(2) by simp
    obtain bw3 where "each (serialize ss sz t) vs bw2 = Inr bw3" "ws_appends (concat (map (encode t) vs)) bw2 bw3"
      "bb_cap (fst bw3) \<le> M"
      using each_appends [where f = "serialize ss sz t" and g = "encode t" and r = "room sz t" and vs = vs,
          OF TArr(1) length_encode_room p(1) 2(3) b2] list(3) by (auto simp: list_all_iff simp del: split_paired_Ex)
    then show ?thesis using 2(1) ws_appends_trans [OF 2(2)] list(1) by (simp del: split_paired_Ex)
  qed
qed

end

section \<open>Reading back\<close>

definition rd_ok :: "breader \<Rightarrow> bool" where
  "rd_ok r \<longleftrightarrow> rd_pos r \<le> length (rd_bytes r) \<and> length (rd_bytes r) < 2 ^ 32"

lemma rd_available_ok: "rd_ok r \<Longrightarrow> rd_available r = length (rd_bytes r) - rd_pos r"
  by (simp add: rd_ok_def rd_available_def)

lemma rd_assume_ok: "rd_ok r \<Longrightarrow> n \<le> length (rd_bytes r) - rd_pos r \<Longrightarrow>
   rd_assume n r = Inr (take n (drop (rd_pos r) (rd_bytes r)), r\<lparr>rd_pos := rd_pos r + n\<rparr>) \<and>
   rd_ok (r\<lparr>rd_pos := rd_pos r + n\<rparr>)"
  by (auto simp: rd_assume_def rd_available_ok) (auto simp: rd_ok_def)

definition rd_at :: "breader \<Rightarrow> u8 list \<Rightarrow> bool" where
  "rd_at r bs \<longleftrightarrow> rd_ok r \<and> drop (rd_pos r) (rd_bytes r) = bs"

lemma rd_at_avail: "rd_at r bs \<Longrightarrow> rd_available r = length bs"
  by (auto simp: rd_at_def rd_available_ok)

lemma rd_at_assume: "rd_at r (bs @ cs) \<Longrightarrow> length bs = n \<Longrightarrow>
    \<exists>r'. rd_assume n r = Inr (bs, r') \<and> rd_at r' cs \<and> r' = r\<lparr>rd_pos := rd_pos r + n\<rparr>"
proof -
  assume a: "rd_at r (bs @ cs)" "length bs = n"
  have l: "n \<le> length (rd_bytes r) - rd_pos r"
    using a by (metis length_append length_drop le_add1 rd_at_def)
  have "drop (rd_pos r + n) (rd_bytes r) = cs"
    using a by (metis add.commute append_eq_conv_conj drop_drop rd_at_def)
  then show ?thesis using rd_assume_ok [of r n] a l by (auto simp: rd_at_def)
qed

lemma deserialize_length_ok:
  assumes "rd_at r (enc 4 s @ cs)" "s < 2 ^ 32"
  shows "\<exists>r'. deserialize_length r = Inr (if 16384 < s then 0 else s, r') \<and> rd_at r' cs"
proof -
  have "dec (enc 4 s) = s" using assms(2) by (intro dec_enc_id) simp
  then show ?thesis
    using rd_at_assume [OF assms(1), of 4] rd_at_avail [OF assms(1)] by (auto simp: deserialize_length_def)
qed

lemma des_each_ok:
  assumes "\<And>v r cs. v \<in> set vs \<Longrightarrow> rd_at r (g v @ cs) \<Longrightarrow> \<exists>r'. f r = Inr (True, v, r') \<and> rd_at r' cs"
  shows "rd_at r (concat (map g vs) @ cs) \<Longrightarrow>
    \<exists>r'. des_each f (length vs) (True, ws, r) = Inr (True, ws @ vs, r') \<and> rd_at r' cs"
  using assms
proof (induction vs arbitrary: r ws)
  case (Cons v vs)
  obtain r1 where "f r = Inr (True, v, r1)" "rd_at r1 (concat (map g vs) @ cs)"
    using Cons(3) [of v r "concat (map g vs) @ cs"] Cons(2) by auto
  then show ?case using Cons(1) [of r1 "ws @ [v]"] Cons(3) by auto
qed simp

lemma deserialize_encode:
  "well_typed t v \<Longrightarrow> rd_at r (encode t v @ cs) \<Longrightarrow>
   \<exists>r'. deserialize t (init_val t) r = Inr (True, v, r') \<and> rd_at r' cs"
proof (induction t arbitrary: v r cs)
  case (TInt k)
  then show ?case using rd_at_assume [OF TInt(2), of k] rd_at_avail [OF TInt(2)] by (cases v) (auto simp: dec_enc_id)
next
  case (TEnum k)
  then show ?case using rd_at_assume [OF TEnum(2), of k] rd_at_avail [OF TEnum(2)] by (cases v) (auto simp: dec_enc_id)
next
  case (TFixed n k)
  then show ?case
    using rd_at_assume [OF TFixed(2), of "n * k"] rd_at_avail [OF TFixed(2)] by (cases v) (auto simp: chunks_concat Let_def)
next
  case TStr
  then obtain bs where v: "v = VStr bs" "length bs \<le> 16384" by (cases v) auto
  obtain r1 where 1: "deserialize_length r = Inr (length bs, r1)" "rd_at r1 (bs @ cs)"
    using deserialize_length_ok [of r "length bs" "bs @ cs"] TStr(2) v by auto
  then show ?case using rd_at_assume [OF 1(2) refl] rd_at_avail [OF 1(2)] v by (auto simp: rd_array_def)
next
  case (TArr t)
  consider (ints) ns where "v = VInts ns" "is_integral t" "length ns \<le> 16384" "\<forall>n\<in>set ns. n < 256 ^ int_size t"
    | (list) vs where "v = VList vs" "\<not> is_integral t" "list_all (well_typed t) vs" "length vs \<le> 16384"
    using TArr(2) by (cases v) auto
  then show ?case
  proof cases
    case ints
    let ?bs = "concat (map (enc (int_size t)) ns)"
    obtain r1 where 1: "deserialize_length r = Inr (length ns, r1)" "rd_at r1 (?bs @ cs)"
      using deserialize_length_ok [of r "length ns" "?bs @ cs"] TArr(3) ints by auto
    show ?thesis
      using rd_at_assume [OF 1(2), of "int_size t * length ns"] rd_at_avail [OF 1(2)] 1(1) ints
      by (auto simp: chunks_concat mult.commute)
  next
    case list
    obtain r1 where 1: "deserialize_length r = Inr (length vs, r1)" "rd_at r1 (concat (map (encode t) vs) @ cs)"
      using deserialize_length_ok [of r "length vs" "concat (map (encode t) vs) @ cs"] TArr(3) list by auto
    have "\<exists>r'. des_each (deserialize t (init_val t)) (length vs) (True, [], r1) = Inr (True, [] @ vs, r') \<and> rd_at r' cs"
      using list(3) TArr(1) by (intro des_each_ok [where g = "encode t", OF _ 1(2)]) (auto simp: list_all_iff)
    then show ?thesis using 1(1) list by auto
  qed
qed

section \<open>Reading arbitrary bytes\<close>

lemma dec_less: "dec bs < 256 ^ length bs"
proof (induction bs)
  case (Cons b bs)
  have "unat b < 256" using unsigned_less [of b, where ?'a = nat] by simp
  then show ?case using Cons by simp
qed simp

lemma dec_less_k [simp]: "length bs = k \<Longrightarrow> dec bs < 256 ^ k"
  using dec_less [of bs] by simp

lemma chunks_less: "length bs = n * k \<Longrightarrow> \<forall>m\<in>set (chunks k n bs). m < 256 ^ k"
proof (induction n arbitrary: bs)
  case (Suc n)
  have "length (take k bs) = k" using Suc.prems by simp
  moreover have "\<forall>m\<in>set (chunks k n (drop k bs)). m < 256 ^ k" using Suc.prems by (intro Suc.IH) simp
  ultimately show ?case by (simp del: length_take)
qed simp

definition rd_step :: "breader \<Rightarrow> breader \<Rightarrow> bool" where
  "rd_step r r' \<longleftrightarrow> rd_ok r' \<and> rd_bytes r' = rd_bytes r \<and> rd_pos r \<le> rd_pos r'"

lemma rd_step_refl: "rd_ok r \<Longrightarrow> rd_step r r"
  by (simp add: rd_step_def)

lemma rd_step_trans: "rd_step a b \<Longrightarrow> rd_step b c \<Longrightarrow> rd_step a c"
  by (simp add: rd_step_def)

lemma rd_step_assume:
  assumes "rd_ok r" "n \<le> rd_available r"
  shows "\<exists>bs r'. rd_assume n r = Inr (bs, r') \<and> length bs = n \<and> rd_step r r'"
  using rd_assume_ok [OF assms(1), of n] assms rd_available_ok [OF assms(1)] by (auto simp: rd_step_def)

lemma deserialize_length_total:
  assumes "rd_ok r"
  shows "\<exists>s r'. deserialize_length r = Inr (s, r') \<and> s \<le> 16384 \<and> rd_step r r'"
  using rd_step_assume [OF assms, of 4] rd_step_refl [OF assms]
  by (cases "4 \<le> rd_available r") (auto simp: deserialize_length_def Let_def)

lemma des_each_total:
  assumes "\<And>r. rd_ok r \<Longrightarrow> \<exists>ok v r'. f r = Inr (ok, v, r') \<and> P v \<and> rd_step r r'"
  shows "rd_ok r \<Longrightarrow> list_all P ws \<Longrightarrow>
    \<exists>ok vs r'. des_each f n (b, ws, r) = Inr (ok, vs, r') \<and> list_all P vs \<and> length vs = length ws + n \<and> rd_step r r'"
proof (induction n arbitrary: b ws r)
  case 0
  then show ?case using rd_step_refl by auto
next
  case (Suc n)
  obtain ok v r1 where 1: "f r = Inr (ok, v, r1)" "P v" "rd_step r r1" using assms Suc(2) by blast
  have "rd_ok r1" "list_all P (ws @ [v])" using 1 Suc(3) by (auto simp: rd_step_def)
  then obtain ok' vs r2 where "des_each f n (b \<and> ok, ws @ [v], r1) = Inr (ok', vs, r2)" "list_all P vs"
    "length vs = length (ws @ [v]) + n" "rd_step r1 r2"
    using Suc(1) by blast
  then show ?case using 1 rd_step_trans [OF 1(3)] by auto
qed

lemma deserialize_total:
  "rd_ok r \<Longrightarrow> \<exists>ok v r'. deserialize t (init_val t) r = Inr (ok, v, r') \<and> well_typed t v \<and> rd_step r r'"
proof (induction t arbitrary: r)
  case (TInt k)
  then show ?case using rd_step_assume [OF TInt, of k] rd_step_refl [OF TInt]
    by (cases "k \<le> rd_available r") auto
next
  case (TEnum k)
  then show ?case using rd_step_assume [OF TEnum, of k] rd_step_refl [OF TEnum]
    by (cases "k \<le> rd_available r") auto
next
  case (TFixed n k)
  then show ?case using rd_step_assume [OF TFixed, of "n * k"] rd_step_refl [OF TFixed] chunks_less
    by (cases "n * k \<le> rd_available r") (auto simp: Let_def)
next
  case TStr
  obtain s r1 where 1: "deserialize_length r = Inr (s, r1)" "s \<le> 16384" "rd_step r r1"
    using deserialize_length_total [OF TStr] by blast
  have ok: "rd_ok r1" using 1(3) by (simp add: rd_step_def)
  show ?case
  proof (cases "rd_available r1 < s")
    case True
    then show ?thesis using 1 by (simp add: rd_array_def) blast
  next
    case False
    then obtain bs r2 where "rd_assume s r1 = Inr (bs, r2)" "length bs = s" "rd_step r1 r2"
      using rd_step_assume [OF ok, of s] by auto
    then show ?thesis using False 1 rd_step_trans [OF 1(3)] by (simp add: rd_array_def) blast
  qed
next
  case (TArr t)
  obtain s r1 where 1: "deserialize_length r = Inr (s, r1)" "s \<le> 16384" "rd_step r r1"
    using deserialize_length_total [OF TArr(2)] by blast
  have ok: "rd_ok r1" using 1(3) by (simp add: rd_step_def)
  show ?case
  proof (cases "is_integral t")
    case int: True
    show ?thesis
    proof (cases "int_size t * s \<le> rd_available r1")
      case True
      then obtain bs r2 where "rd_assume (int_size t * s) r1 = Inr (bs, r2)" "length bs = s * int_size t" "rd_step r1 r2"
        using rd_step_assume [OF ok, of "int_size t * s"] by (auto simp: mult.commute)
      then show ?thesis using True int 1 rd_step_trans [OF 1(3)] chunks_less [of bs s "int_size t"] by simp blast
    next
      case False
      then show ?thesis using int 1 by simp blast
    qed
  next
    case False
    have "list_all (well_typed t) []" by simp
    then obtain okk vs r2 where "des_each (deserialize t (init_val t)) s (True, [], r1) = Inr (okk, vs, r2)"
      "list_all (well_typed t) vs" "length vs = length ([] :: val list) + s" "rd_step r1 r2"
      using des_each_total [where f = "deserialize t (init_val t)", OF TArr(1) ok] by blast
    then show ?thesis using False 1 rd_step_trans [OF 1(3)] by simp
  qed
qed

section \<open>The three buffers\<close>

lemma length_resize_fast [simp]: "length (resize_fast n xs) = n"
  by (simp add: resize_fast_def)

lemma take_resize_fast: "length xs \<le> n \<Longrightarrow> take (length xs) (resize_fast n xs) = xs"
  by (simp add: resize_fast_def)

interpretation view: growing_store view_set_size
proof
  show "bb_ok b \<Longrightarrow> bb_cap b \<le> n \<Longrightarrow> n < 2 ^ 32 \<Longrightarrow> view_set_size n b = Inr b' \<Longrightarrow>
    bb_ok b' \<and> bb_cap b' = n \<and> take (bb_cap b) (bb_mem b') = bb_mem b \<and> bb_used b' = bb_used b" for b n b'
    using take_resize_fast [of "bb_own b" n] by (auto simp: view_set_size_def bb_ok_def bb_mem_def)
qed (auto simp: view_set_size_def)

interpretation buf: growing_store buf_set_size
proof
  show "bb_ok b \<Longrightarrow> bb_cap b \<le> n \<Longrightarrow> n < 2 ^ 32 \<Longrightarrow> buf_set_size n b = Inr b' \<Longrightarrow>
    bb_ok b' \<and> bb_cap b' = n \<and> take (bb_cap b) (bb_mem b') = bb_mem b \<and> bb_used b' = bb_used b" for b n b'
    using take_resize_fast [of "bb_own b" n] by (auto simp: buf_set_size_def bb_ok_def bb_mem_def Let_def)
qed (auto simp: buf_set_size_def Let_def)

interpretation fixed: byte_store fixed_set_size
  by unfold_locales (auto simp: fixed_set_size_def)

lemma wr_new_ok:
  "bb_ok b \<Longrightarrow> \<exists>bw. wr_new b = Inr bw \<and> ws_ok bw \<and> fst bw = b \<and> wr_pos (snd bw) = bb_used b \<and>
     ws_view bw = take (bb_used b) (bb_mem b)"
  by (auto simp: wr_new_def ws_ok_def bb_ok_def ws_view_def)

lemma wr_finish_ok:
  "ws_ok bw \<Longrightarrow> wr_finish bw = Inr ((fst bw)\<lparr>bb_used := wr_pos (snd bw)\<rparr>) \<and>
     bb_ok ((fst bw)\<lparr>bb_used := wr_pos (snd bw)\<rparr>)"
  by (auto simp: wr_finish_def bb_stop_writing_def ws_ok_def bb_ok_def)

section \<open>Properties\<close>

text \<open>
  C2: what is serialised into a byte buffer is read back: for every well-typed value (integers in
  range, arrays and strings of at most 16384 elements, nested at will) that fits in the 32-bit
  sizes, serialising into a fresh \<^verbatim>\<open>ByteBuffer\<close> and closing the writer leaves exactly the
  encoding in the buffer, and deserialising those bytes succeeds, gives the same value and
  consumes all of them.
\<close>

theorem serialize_roundtrip:
  assumes "well_typed t v" "3 * room sz t v + 1024 < 2 ^ 32" "n \<le> 3 * room sz t v + 1024"
  shows "\<exists>bw b r. bindR (wr_new (buf_new n)) (serialize buf_set_size sz t v) = Inr bw \<and> wr_finish bw = Inr b \<and>
    take (bb_used b) (bb_mem b) = map Some (encode t v) \<and>
    deserialize t (init_val t) (rd_new (map the (take (bb_used b) (bb_mem b)))) = Inr (True, v, r) \<and>
    rd_available r = 0"
proof -
  let ?M = "3 * room sz t v + 1024"
  have "bb_ok (buf_new n)" using assms(2,3) by (simp add: bb_ok_def buf_new_def)
  then obtain bw0 where 0: "wr_new (buf_new n) = Inr bw0" "ws_ok bw0" "fst bw0 = buf_new n" "wr_pos (snd bw0) = 0"
    "ws_view bw0 = []"
    using wr_new_ok [of "buf_new n"] by (auto simp: buf_new_def)
  obtain bw where s: "serialize buf_set_size sz t v bw0 = Inr bw" "ws_appends (encode t v) bw0 bw"
    using buf.serialize_ok [OF assms(2,1) 0(2), of sz] assms(3) 0(3,4) by (auto simp: buf_new_def)
  have ok: "ws_ok bw" "ws_view bw = map Some (encode t v)" using s(2) 0(5) by (auto simp: ws_appends_def)
  let ?b = "(fst bw)\<lparr>bb_used := wr_pos (snd bw)\<rparr>"
  have mem: "take (bb_used ?b) (bb_mem ?b) = map Some (encode t v)"
    using ok(2) by (simp add: ws_view_def bb_mem_def split: option.splits)
  have "length (encode t v) < 2 ^ 32" using length_encode_room [of t v sz] assms(2) by simp
  then have at: "rd_at (rd_new (encode t v)) (encode t v @ [])" by (simp add: rd_at_def rd_ok_def rd_new_def)
  obtain r where "deserialize t (init_val t) (rd_new (encode t v)) = Inr (True, v, r)" "rd_at r []"
    using deserialize_encode [OF assms(1) at] by blast
  then show ?thesis
    using 0(1) s(1) wr_finish_ok [OF ok(1)] mem rd_at_avail [of r "[]"] by (auto simp: comp_def)
qed

theorem serialize_roundtrip_witness:
  "\<exists>bw b r. bindR (wr_new (buf_new 0)) (serialize buf_set_size (\<lambda>_. 16) (TArr TStr) (VList [VStr [1, 2], VStr []])) = Inr bw \<and>
    wr_finish bw = Inr b \<and>
    deserialize (TArr TStr) (init_val (TArr TStr)) (rd_new (map the (take (bb_used b) (bb_mem b)))) =
      Inr (True, VList [VStr [1, 2], VStr []], r)"
proof -
  have "well_typed (TArr TStr) (VList [VStr [1, 2], VStr []])" by (simp add: is_integral_def)
  then show ?thesis
    using serialize_roundtrip [of "TArr TStr" "VList [VStr [1, 2], VStr []]" "\<lambda>_. 16" 0] by auto
qed





text \<open>
  an array of more than 16384 integers does not survive the round trip, and the reader does
  not say so: it reports success with an empty array and leaves every element unread.
\<close>

theorem long_array_reads_back_empty:
  assumes "16384 < length ns" "length ns < 2 ^ 32" "rd_at r (encode (TArr (TInt k)) (VInts ns) @ cs)"
  shows "\<exists>r'. deserialize (TArr (TInt k)) dst r = Inr (True, VInts [], r') \<and>
    rd_available r' = length ns * k + length cs"
proof -
  obtain r1 where r1: "deserialize_length r = Inr (0, r1)" "rd_at r1 (concat (map (enc k) ns) @ cs)"
    using deserialize_length_ok [of r "length ns" "concat (map (enc k) ns) @ cs"] assms
    by (auto simp: int_size_def)
  obtain r2 where "rd_assume 0 r1 = Inr ([], r2)" "rd_at r2 (concat (map (enc k) ns) @ cs)"
    using rd_at_assume [of r1 "[]" "concat (map (enc k) ns) @ cs" 0] r1(2) by auto
  then show ?thesis using r1(1) rd_at_avail [of r2] by (auto simp: is_integral_def int_size_def)
qed

theorem long_array_reads_back_empty_witness:
  "\<exists>r'. deserialize (TArr (TInt 1)) (VInts []) (rd_new (encode (TArr (TInt 1)) (VInts (replicate 16385 7)))) =
     Inr (True, VInts [], r')"
proof -
  let ?bs = "encode (TArr (TInt 1)) (VInts (replicate 16385 7))"
  have "length ?bs = 4 + 16385 * 1"
    by (simp only: encode.simps int_size_def ty.case length_append length_enc length_concat_enc length_replicate)
  then have "rd_at (rd_new ?bs) (?bs @ [])"
    by (simp only: rd_at_def rd_ok_def rd_new_def breader.simps drop_0 append_Nil2) simp
  moreover have "(16384 :: nat) < length (replicate 16385 (7 :: nat))" "length (replicate 16385 (7 :: nat)) < 2 ^ 32" by simp_all
  ultimately show ?thesis using long_array_reads_back_empty by blast
qed

text \<open>
  a fixed-size array of integers with too few bytes left is reported as read, with nothing
  read and the destination as it was.
\<close>

theorem short_fixed_array_reports_success:
  assumes "rd_ok r" "length (rd_bytes r) - rd_pos r < cnt * k"
  shows "deserialize (TFixed cnt k) dst r = Inr (True, dst, r)"
  using assms rd_available_ok [OF assms(1)] by (simp add: Let_def)

theorem short_fixed_array_reports_success_witness:
  "deserialize (TFixed 2 4) (VInts [9, 9]) (rd_new [1]) = Inr (True, VInts [9, 9], rd_new [1])"
  using short_fixed_array_reports_success [of "rd_new [1]" 2 4] by (simp add: rd_ok_def rd_new_def)

text \<open>
  \<^verbatim>\<open>BufferWriterUnsafe::EnsureCapacity\<close> measures from the buffer's used size, which its own
  writes do not move: when the bytes written since it was opened use up the room it grants the
  request without growing, and the write it granted leaves the buffer.
\<close>

theorem unsafe_ensure_ignores_written_bytes:
  assumes "ws_ok (b, w)" "n \<le> bb_cap b - bb_used b" "length bs = n" "bb_cap b < wr_pos w + n"
  shows "bu_ensure ss n (b, w) = Inr (True, b, w) \<and> bu_write bs (b, w) = Inl BadAccess"
  using assms by (auto simp: bu_ensure_def bu_available_def bu_write_def bb_write_def ws_ok_def bb_ok_def bb_mem_def trunc_id)

theorem unsafe_ensure_ignores_written_bytes_witness:
  "bu_ensure buf_set_size 1 (buf_new 1, \<lparr>wr_pos = 1, wr_start = 0, wr_end = 1\<rparr>)
     = Inr (True, buf_new 1, \<lparr>wr_pos = 1, wr_start = 0, wr_end = 1\<rparr>)"
  using unsafe_ensure_ignores_written_bytes [of "buf_new 1" "\<lparr>wr_pos = 1, wr_start = 0, wr_end = 1\<rparr>" 1 "[5]" buf_set_size]
  by (simp add: ws_ok_def bb_ok_def buf_new_def)

text \<open>
  copying a buffer that views external memory keeps an eighth of its used bytes: the copy
  passes a byte count where a bit count is expected; a buffer with its own storage is copied in
  full.
\<close>

theorem buf_copy_external_loses_bytes:
  "(bb_flag b \<longrightarrow> bb_used (buf_copy b) = bb_used b div 8 \<and> bb_mem (buf_copy b) = bb_mem b) \<and>
   (\<not> bb_flag b \<and> bb_ok b \<longrightarrow> bb_used (buf_copy b) = bb_used b \<and> bb_mem (buf_copy b) = bb_mem b \<and>
      bb_ok (buf_copy b))"
  by (auto simp: buf_copy_def bb_override_def buf_new_def Let_def bb_ok_def bb_mem_def)

theorem buf_copy_external_loses_bytes_witness:
  "bb_used (buf_copy (bb_override (replicate 8 None) 8 64 (buf_new 0))) = 1"
  using buf_copy_external_loses_bytes [of "bb_override (replicate 8 None) 8 64 (buf_new 0)"]
  by (simp add: bb_override_def)

end
