(* ===== verification/Traversals.thy ===== *)
theory Traversals
  imports Prelude "HOL-Library.Multiset"
begin

text \<open>
  \<^verbatim>\<open>ion/container/ForEach.h\<close>: the loops the code runs over its containers, and erasing
  while looping.

  A container is the list of its elements and an iterator a position in it.  The callback
  \<open>f x s\<close> gets an element and the state it works on; it returns the element as it leaves it
  (callbacks get references) and the new state, after an operation where it has one.  A callback
  does not change the container itself; the code asserts that.
\<close>

datatype for_each_op = NextOp | EraseOp | BreakOp

section \<open>Erasing one element\<close>

definition erase_iter :: "nat \<Rightarrow> 'a list \<Rightarrow> 'a list res" where
  "erase_iter i xs = assertR (i \<noteq> length xs)
     (if i < length xs then Inr (take i xs @ drop (Suc i) xs) else Inl BadAccess)"

definition unordered_erase :: "nat \<Rightarrow> 'a list \<Rightarrow> 'a list res" where
  "unordered_erase i xs = assertR (i \<noteq> length xs)
     (if i < length xs then Inr (butlast (if i \<noteq> length xs - 1 then xs[i := last xs] else xs)) else Inl BadAccess)"

definition unordered_erase_at :: "nat \<Rightarrow> 'a list \<Rightarrow> 'a list res" where
  "unordered_erase_at i xs = assertR (i < length xs)
     (Inr (butlast (if i \<noteq> length xs - 1 then xs[i := last xs] else xs)))"

definition erase_visit :: "bool \<Rightarrow> nat \<Rightarrow> 'a list \<Rightarrow> 'a list res" where
  "erase_visit unordered i xs = (if unordered then unordered_erase i xs else erase_iter i xs)"

lemma erase_visit_shrinks: "erase_visit u i xs = Inr ys \<Longrightarrow> i < length xs \<and> length ys = length xs - 1"
  by (auto simp: erase_visit_def erase_iter_def unordered_erase_def assertR_eq_Inr split: if_splits)

section \<open>Loops\<close>

function erase_loop :: "bool \<Rightarrow> ('a \<Rightarrow> 's \<Rightarrow> for_each_op \<times> 'a \<times> 's) \<Rightarrow> nat \<Rightarrow> 'a list \<Rightarrow> 's \<Rightarrow> ('a list \<times> 's) res" where
  "erase_loop u f i xs s =
     (if i < length xs then
        (case f (xs ! i) s of (op, x, s') \<Rightarrow>
         if op \<noteq> NextOp then
           assertR (op = EraseOp) (bindR (erase_visit u i (xs[i := x])) (\<lambda>ys. erase_loop u f i ys s'))
         else erase_loop u f (Suc i) (xs[i := x]) s')
      else Inr (xs, s))"
  by pat_completeness auto
termination
  by (relation "measure (\<lambda>(u, f, i, xs, s). length xs - i)") (auto dest: erase_visit_shrinks)

declare erase_loop.simps [simp del]

definition for_each_erase :: "('a \<Rightarrow> 's \<Rightarrow> for_each_op \<times> 'a \<times> 's) \<Rightarrow> 'a list \<Rightarrow> 's \<Rightarrow> ('a list \<times> 's) res" where
  "for_each_erase f xs s = erase_loop False f 0 xs s"

definition for_each_erase_unordered :: "('a \<Rightarrow> 's \<Rightarrow> for_each_op \<times> 'a \<times> 's) \<Rightarrow> 'a list \<Rightarrow> 's \<Rightarrow> ('a list \<times> 's) res" where
  "for_each_erase_unordered f xs s = erase_loop True f 0 xs s"

fun for_each :: "('a \<Rightarrow> 's \<Rightarrow> 'a \<times> 's) \<Rightarrow> 'a list \<Rightarrow> 's \<Rightarrow> 'a list \<times> 's" where
  "for_each f [] s = ([], s)"
| "for_each f (x # xs) s =
     (case f x s of (x', s') \<Rightarrow> case for_each f xs s' of (ys, s'') \<Rightarrow> (x' # ys, s''))"

fun for_each_breakable :: "('a \<Rightarrow> 's \<Rightarrow> for_each_op \<times> 'a \<times> 's) \<Rightarrow> 'a list \<Rightarrow> 's \<Rightarrow> (for_each_op \<times> 'a list \<times> 's) res" where
  "for_each_breakable f [] s = Inr (NextOp, [], s)"
| "for_each_breakable f (x # xs) s =
     (case f x s of (op, x', s') \<Rightarrow>
      if op \<noteq> NextOp then assertR (op = BreakOp) (Inr (BreakOp, x' # xs, s'))
      else bindR (for_each_breakable f xs s') (\<lambda>(r, ys, s''). Inr (r, x' # ys, s'')))"

fun reverse_loop :: "('a \<Rightarrow> 's \<Rightarrow> 'a \<times> 's) \<Rightarrow> nat \<Rightarrow> 'a list \<Rightarrow> 's \<Rightarrow> 'a list \<times> 's" where
  "reverse_loop f 0 xs s = (xs, s)"
| "reverse_loop f (Suc i) xs s = (case f (xs ! i) s of (x, s') \<Rightarrow> reverse_loop f i (xs[i := x]) s')"

definition for_each_reverse :: "('a \<Rightarrow> 's \<Rightarrow> 'a \<times> 's) \<Rightarrow> 'a list \<Rightarrow> 's \<Rightarrow> 'a list \<times> 's" where
  "for_each_reverse f xs s = reverse_loop f (length xs) xs s"

fun index_loop :: "(nat \<Rightarrow> 'a \<Rightarrow> 's \<Rightarrow> 'a \<times> 's) \<Rightarrow> nat \<Rightarrow> 'a list \<Rightarrow> 's \<Rightarrow> 'a list \<times> 's" where
  "index_loop f i [] s = ([], s)"
| "index_loop f i (x # xs) s =
     (case f i x s of (x', s') \<Rightarrow> case index_loop f (Suc i) xs s' of (ys, s'') \<Rightarrow> (x' # ys, s''))"

definition for_each_index :: "(nat \<Rightarrow> 'a \<Rightarrow> 's \<Rightarrow> 'a \<times> 's) \<Rightarrow> 'a list \<Rightarrow> 's \<Rightarrow> 'a list \<times> 's" where
  "for_each_index f xs s = index_loop f 0 xs s"

section \<open>What erasing while looping does\<close>

lemma mset_replace_last:
  assumes "i < length xs"
  shows "mset (butlast (if i \<noteq> length xs - 1 then xs[i := last xs] else xs)) = mset xs - {#xs ! i#}"
proof (cases "i = length xs - 1")
  case True
  then have "mset xs = mset (butlast xs) + {#xs ! i#}"
    using assms by (metis append_butlast_last_id last_conv_nth length_greater_0_conv less_nat_zero_code list.size(3)
        mset.simps(1) mset.simps(2) mset_append union_code)
  then show ?thesis using True by simp
next
  case False
  have ne: "xs \<noteq> []" using assms by auto
  have "mset (xs[i := last xs]) = mset (butlast (xs[i := last xs])) + {#last (xs[i := last xs])#}"
    using ne by (metis append_butlast_last_id list_update_nonempty mset.simps(1) mset.simps(2) mset_append)
  moreover have "last (xs[i := last xs]) = last xs" using False ne by (simp add: last_list_update)
  moreover have "mset (xs[i := last xs]) = mset xs - {#xs ! i#} + {#last xs#}"
    using assms by (simp add: mset_update)
  ultimately show ?thesis using False by simp
qed

text \<open>The loop as a recursion on the elements still to be visited.\<close>

fun erase_spec :: "('a \<Rightarrow> 's \<Rightarrow> for_each_op \<times> 'a \<times> 's) \<Rightarrow> 'a list \<Rightarrow> 's \<Rightarrow> 'a list \<times> 's" where
  "erase_spec f [] s = ([], s)"
| "erase_spec f (x # xs) s =
     (case f x s of (op, x', s') \<Rightarrow> case erase_spec f xs s' of (ys, s'') \<Rightarrow>
      (if op = NextOp then x' # ys else ys, s''))"

lemma erase_loop_spec:
  assumes "\<And>x s. fst (f x s) \<noteq> BreakOp"
  shows "erase_loop False f (length ys) (ys @ xs) s = Inr (ys @ fst (erase_spec f xs s), snd (erase_spec f xs s))"
proof (induction xs arbitrary: ys s)
  case Nil
  then show ?case by (subst erase_loop.simps) simp
next
  case (Cons x xs)
  obtain op x' s' where f: "f x s = (op, x', s')" by (metis prod_cases3)
  show ?case
  proof (cases "op = NextOp")
    case True
    have "erase_loop False f (length ys) (ys @ x # xs) s = erase_loop False f (length (ys @ [x'])) ((ys @ [x']) @ xs) s'"
      using f True by (subst erase_loop.simps) simp
    then show ?thesis using Cons [of "ys @ [x']" s'] f True by (simp add: split_def)
  next
    case False
    then have e: "op = EraseOp" using assms [of x s] f by (cases op) auto
    have "erase_loop False f (length ys) (ys @ x # xs) s = erase_loop False f (length ys) (ys @ xs) s'"
      using f e by (subst erase_loop.simps) (simp add: erase_visit_def erase_iter_def)
    then show ?thesis using Cons [of ys s'] f e by (simp add: split_def)
  qed
qed

lemma erase_unordered_visits:
  assumes "\<And>x s. f x s = (if P x then EraseOp else NextOp, x, s @ [x])"
  shows "i \<le> length xs \<Longrightarrow> \<exists>ys vs. erase_loop True f i xs s = Inr (take i xs @ ys, s @ vs) \<and>
    mset vs = mset (drop i xs) \<and> mset ys = filter_mset (Not \<circ> P) (mset (drop i xs))"
proof (induction "length xs - i" arbitrary: i xs s)
  case 0
  then show ?case by (subst erase_loop.simps) simp
next
  case (Suc k)
  have i: "i < length xs" using Suc(2) by simp
  have d: "mset (drop i xs) = {#xs ! i#} + mset (drop (Suc i) xs)" using i by (simp add: Cons_nth_drop_Suc [symmetric])
  show ?case
  proof (cases "P (xs ! i)")
    case False
    have "erase_loop True f i xs s = erase_loop True f (Suc i) xs (s @ [xs ! i])"
      using i False assms by (subst erase_loop.simps) simp
    moreover obtain ys vs where "erase_loop True f (Suc i) xs (s @ [xs ! i]) = Inr (take (Suc i) xs @ ys, (s @ [xs ! i]) @ vs)"
      "mset vs = mset (drop (Suc i) xs)" "mset ys = filter_mset (Not \<circ> P) (mset (drop (Suc i) xs))"
    proof -
      have "k = length xs - Suc i" "Suc i \<le> length xs" using Suc(2) i by simp_all
      then show thesis using Suc(1) [of xs "Suc i" "s @ [xs ! i]"] that by blast
    qed
    ultimately show ?thesis using i d False
      by (intro exI [of _ "xs ! i # ys"] exI [of _ "xs ! i # vs"]) (simp add: take_Suc_conv_app_nth)
  next
    case True
    let ?xs = "butlast (if i \<noteq> length xs - 1 then xs[i := last xs] else xs)"
    have e: "erase_loop True f i xs s = erase_loop True f i ?xs (s @ [xs ! i])"
      using i True assms by (subst erase_loop.simps) (simp add: erase_visit_def unordered_erase_def)
    have l: "length ?xs = length xs - 1" by simp
    have tk: "take i ?xs = take i xs" using i by (simp add: take_butlast)
    have "mset (take i ?xs) + mset (drop i ?xs) = mset xs - {#xs ! i#}"
      using mset_replace_last [OF i] by (metis append_take_drop_id mset_append)
    moreover have "mset xs = mset (take i xs) + ({#xs ! i#} + mset (drop (Suc i) xs))"
      using d by (metis append_take_drop_id mset_append)
    ultimately have m: "mset (drop i ?xs) = mset (drop (Suc i) xs)" unfolding tk by simp
    have "k = length ?xs - i" "i \<le> length ?xs" using Suc(2) l by simp_all
    then obtain ys vs where "erase_loop True f i ?xs (s @ [xs ! i]) = Inr (take i ?xs @ ys, (s @ [xs ! i]) @ vs)"
      "mset vs = mset (drop i ?xs)" "mset ys = filter_mset (Not \<circ> P) (mset (drop i ?xs))"
      using Suc(1) [of ?xs i "s @ [xs ! i]"] by blast
    then show ?thesis using e d True m tk by (intro exI [of _ ys] exI [of _ "xs ! i # vs"]) simp
  qed
qed

lemma reverse_loop_spec: "i \<le> length xs \<Longrightarrow> reverse_loop f i xs s =
    (case for_each f (rev (take i xs)) s of (ys, s') \<Rightarrow> (rev ys @ drop i xs, s'))"
proof (induction i arbitrary: xs s)
  case (Suc i)
  obtain x s' where f: "f (xs ! i) s = (x, s')" by force
  have "rev (take (Suc i) xs) = xs ! i # rev (take i xs)" using Suc(2) by (simp add: take_Suc_conv_app_nth)
  moreover have "drop i (xs[i := x]) = x # drop (Suc i) xs"
    using Suc(2) by (simp add: Cons_nth_drop_Suc [symmetric] drop_update_cancel)
  ultimately show ?case using Suc(1) [of "xs[i := x]" s'] Suc(2) f by (simp add: split_def)
qed simp

section \<open>Properties\<close>

text \<open>
  Erasing while looping in order visits every element exactly once and in order, keeps the
  ones the callback keeps (as it left them) in order, and removes exactly the others; in
  particular a stateless test leaves the elements that fail it.
\<close>

theorem for_each_erase_is_filter:
  assumes "\<And>x s. fst (f x s) \<noteq> BreakOp"
  shows "for_each_erase f xs s = Inr (erase_spec f xs s) \<and>
    for_each_erase (\<lambda>x vs. (if P x then EraseOp else NextOp, x, vs @ [x])) xs [] = Inr (filter (Not \<circ> P) xs, xs)"
proof
  show "for_each_erase f xs s = Inr (erase_spec f xs s)"
    using erase_loop_spec [OF assms, where ys = "[]" and xs = xs and s = s] by (simp add: for_each_erase_def)
  let ?g = "\<lambda>x vs. (if P x then EraseOp else NextOp, x, vs @ [x])"
  have "erase_spec ?g xs vs = (filter (Not \<circ> P) xs, vs @ xs)" for vs
    by (induction xs arbitrary: vs) auto
  moreover have "fst (?g x vs) \<noteq> BreakOp" for x vs by simp
  ultimately show "for_each_erase ?g xs [] = Inr (filter (Not \<circ> P) xs, xs)"
    using erase_loop_spec [where f = ?g and ys = "[]" and xs = xs and s = "[]"] by (simp add: for_each_erase_def)
qed

theorem for_each_erase_is_filter_witness:
  "for_each_erase (\<lambda>x (n::nat). (if x < (2::nat) then EraseOp else NextOp, x, n + x)) [1, 5, 0, 2] 0 = Inr ([5, 2], 8)"
  using conjunct1 [OF for_each_erase_is_filter [of "\<lambda>x (n::nat). (if x < (2::nat) then EraseOp else NextOp, x, n + x)" "[1, 5, 0, 2]" 0]]
  by simp

text \<open>
  The unordered variant, which fills each hole with the last element, still visits every
  element exactly once and removes exactly the elements it is told to, whatever the order.
\<close>

theorem for_each_erase_unordered_visits_once:
  "\<exists>ys vs. for_each_erase_unordered (\<lambda>x vs. (if P x then EraseOp else NextOp, x, vs @ [x])) xs [] = Inr (ys, vs) \<and>
    mset vs = mset xs \<and> mset ys = filter_mset (Not \<circ> P) (mset xs)"
  using erase_unordered_visits [where f = "\<lambda>x vs. (if P x then EraseOp else NextOp, x, vs @ [x])" and i = 0 and s = "[]" and xs = xs]
  by (simp add: for_each_erase_unordered_def)

end
