(* ===== verification/IdPools.thy ===== *)
theory IdPools
  imports Prelude "HOL-Library.AList"
begin

text \<open>
  \<^verbatim>\<open>ion/util/IdPool.h\<close> and \<^verbatim>\<open>ion/util/IdRangePool.h\<close>: handing out small integers and
  ranges of them.

  The id type \<^verbatim>\<open>T\<close> is unsigned with \<open>c\<close> bits.  The loop of
  \<^verbatim>\<open>CreateUsedIdList\<close> may run forever, so it takes fuel and is \<open>None\<close> when it runs
  out; \<open>pool_used_list_exact\<close> gives an amount that is enough.  The standard priority queue of the
  range pool is the list of its elements in descending order, so its head is the top; assigning to the
  top in place keeps that order, which is part of the invariant.  The hash maps are association
  lists with distinct keys.
\<close>

section \<open>Single ids\<close>

record ipool =
  ip_free :: "nat list"
  ip_total :: nat

definition ip_new :: ipool where
  "ip_new = \<lparr>ip_free = [], ip_total = 0\<rparr>"

definition ip_reset :: "ipool \<Rightarrow> ipool" where
  "ip_reset p = p\<lparr>ip_free := [], ip_total := 0\<rparr>"

definition ip_sort_free :: "ipool \<Rightarrow> ipool" where
  "ip_sort_free p = p\<lparr>ip_free := sort (ip_free p)\<rparr>"

definition ip_reserve :: "nat \<Rightarrow> ipool \<Rightarrow> (nat \<times> ipool) res" where
  "ip_reserve c p =
     (if ip_free p = [] then
        assertR (trunc c (ip_total p + 1) \<noteq> 0) (Inr (ip_total p, p\<lparr>ip_total := trunc c (ip_total p + 1)\<rparr>))
      else Inr (last (ip_free p), p\<lparr>ip_free := butlast (ip_free p)\<rparr>))"

definition ip_size :: "nat \<Rightarrow> ipool \<Rightarrow> nat" where
  "ip_size c p = nat ((int (ip_total p) - int (trunc c (length (ip_free p)))) mod 2 ^ c)"

fun shrink_down :: "nat list \<Rightarrow> nat \<Rightarrow> nat list \<times> nat" where
  "shrink_down [] t = ([], t)"
| "shrink_down (x # xs) t = (if x + 1 = t then shrink_down xs (t - 1) else (x # xs, t))"

definition ip_shrink :: "ipool \<Rightarrow> ipool" where
  "ip_shrink p = (case shrink_down (rev (sort (ip_free p))) (ip_total p) of (xs, t) \<Rightarrow>
     p\<lparr>ip_free := rev xs, ip_total := t\<rparr>)"

definition ip_has_free :: "ipool \<Rightarrow> bool" where
  "ip_has_free p \<longleftrightarrow> ip_free p \<noteq> []"

definition ip_free_id :: "bool \<Rightarrow> nat \<Rightarrow> ipool \<Rightarrow> ipool res" where
  "ip_free_id dbg i p =
     (let k = Inr (p\<lparr>ip_free := ip_free p @ [i]\<rparr>) in
      if dbg then assertR (i < ip_total p) (assertR (i \<notin> set (ip_free p)) k) else k)"

fun used_loop :: "nat \<Rightarrow> nat \<Rightarrow> nat list \<Rightarrow> nat \<Rightarrow> nat \<Rightarrow> nat \<Rightarrow> nat list \<Rightarrow> nat list option" where
  "used_loop c tot free 0 fi pos acc = None"
| "used_loop c tot free (Suc fuel) fi pos acc =
     (if pos < tot then
        (let nu = (if fi < length free then free ! fi else tot) in
         used_loop c tot free fuel (trunc c (fi + 1)) (trunc c (nu + 1)) (acc @ [pos..<nu]))
      else Some acc)"

definition ip_used_list :: "nat \<Rightarrow> nat \<Rightarrow> ipool \<Rightarrow> nat list option" where
  "ip_used_list c fuel p = used_loop c (ip_total p) (ip_free p) fuel 0 0 []"

record pool_iter =
  it_pos :: nat
  it_fi :: nat
  it_next :: nat

definition it_find_next :: "ipool \<Rightarrow> pool_iter \<Rightarrow> pool_iter" where
  "it_find_next p it = it\<lparr>it_next := (if it_fi it < length (ip_free p) then ip_free p ! it_fi it else ip_total p)\<rparr>"

fun it_find_position :: "ipool \<Rightarrow> nat \<Rightarrow> pool_iter \<Rightarrow> pool_iter" where
  "it_find_position p 0 it = it"
| "it_find_position p (Suc n) it =
     (if it_pos it < ip_total p \<and> it_next it \<le> it_pos it
      then it_find_position p n (it_find_next p (it\<lparr>it_fi := it_fi it + 1, it_pos := it_next it + 1\<rparr>))
      else it)"

definition it_begin :: "ipool \<Rightarrow> pool_iter" where
  "it_begin p = it_find_position p (length (ip_free p) + 1)
     (it_find_next p \<lparr>it_pos = 0, it_fi = 0, it_next = 0\<rparr>)"

definition it_step :: "pool_iter \<Rightarrow> pool_iter" where
  "it_step it = it\<lparr>it_pos := (if it_pos it < it_next it then it_pos it + 1 else 0)\<rparr>"

section \<open>Single ids: correctness\<close>

definition ip_ok :: "nat \<Rightarrow> ipool \<Rightarrow> bool" where
  "ip_ok c p \<longleftrightarrow> ip_total p < 2 ^ c \<and> distinct (ip_free p) \<and> (\<forall>x\<in>set (ip_free p). x < ip_total p)"

definition ip_used :: "ipool \<Rightarrow> nat set" where
  "ip_used p = {0..<ip_total p} - set (ip_free p)"

lemma ip_reserve_ok:
  assumes "ip_ok c p" "ip_free p \<noteq> [] \<or> ip_total p + 1 < 2 ^ c"
  shows "\<exists>v p'. ip_reserve c p = Inr (v, p') \<and> ip_ok c p' \<and> v \<notin> ip_used p \<and> ip_used p' = insert v (ip_used p)"
proof (cases "ip_free p = []")
  case True
  then have "ip_reserve c p = Inr (ip_total p, p\<lparr>ip_total := ip_total p + 1\<rparr>)"
    using assms by (simp add: ip_reserve_def trunc_id)
  then show ?thesis using True assms by (auto simp: ip_ok_def ip_used_def)
next
  case False
  let ?v = "last (ip_free p)" and ?p = "p\<lparr>ip_free := butlast (ip_free p)\<rparr>"
  have f: "ip_free p = butlast (ip_free p) @ [?v]" using False by simp
  have s: "set (ip_free p) = insert ?v (set (butlast (ip_free p)))" "?v \<notin> set (butlast (ip_free p))" "distinct (butlast (ip_free p))"
  proof -
    have d: "distinct (butlast (ip_free p) @ [?v])" using assms(1) f by (simp add: ip_ok_def)
    then show "?v \<notin> set (butlast (ip_free p))" "distinct (butlast (ip_free p))" by auto
    show "set (ip_free p) = insert ?v (set (butlast (ip_free p)))" by (subst f) simp
  qed
  have "?v < ip_total p" using assms(1) False by (simp add: ip_ok_def)
  moreover have "ip_reserve c p = Inr (?v, ?p)" using False by (simp add: ip_reserve_def)
  moreover have "ip_ok c ?p" using assms(1) s by (auto simp: ip_ok_def)
  moreover have "ip_used ?p = insert ?v (ip_used p)" using s calculation(1) by (auto simp: ip_used_def)
  moreover have "?v \<notin> ip_used p" using s(1) by (auto simp: ip_used_def)
  ultimately show ?thesis by blast
qed

lemma ip_free_ok:
  assumes "ip_ok c p" "i \<in> ip_used p"
  shows "\<exists>p'. ip_free_id dbg i p = Inr p' \<and> ip_ok c p' \<and> ip_used p' = ip_used p - {i}"
  using assms by (auto simp: ip_free_id_def ip_ok_def ip_used_def Let_def)

lemma ip_size_ok:
  assumes "ip_ok c p"
  shows "ip_size c p = card (ip_used p)"
proof -
  have sub: "set (ip_free p) \<subseteq> {0..<ip_total p}" using assms by (auto simp: ip_ok_def)
  then have le: "length (ip_free p) \<le> ip_total p"
    using assms card_mono [OF _ sub] by (simp add: ip_ok_def distinct_card)
  have "card (ip_used p) = ip_total p - length (ip_free p)"
    using sub assms by (simp add: ip_used_def card_Diff_subset ip_ok_def distinct_card)
  moreover have "(int (ip_total p) - int (length (ip_free p))) mod 2 ^ c = int (ip_total p) - int (length (ip_free p))"
  proof (rule mod_pos_pos_trivial)
    have "int (ip_total p) < 2 ^ c"
      using assms unfolding ip_ok_def by (metis of_nat_less_iff of_nat_numeral of_nat_power)
    then show "int (ip_total p) - int (length (ip_free p)) < 2 ^ c" by linarith
  qed (use le in simp)
  ultimately show ?thesis
    using le assms by (simp add: ip_size_def ip_ok_def trunc_id le_less_trans)
qed

lemma shrink_down_ok:
  "sorted_wrt (>) xs \<Longrightarrow> \<forall>x\<in>set xs. x < t \<Longrightarrow> shrink_down xs t = (ys, u) \<Longrightarrow>
   sorted_wrt (>) ys \<and> set ys \<subseteq> set xs \<and> (\<forall>x\<in>set ys. x + 1 < u) \<and> u \<le> t \<and>
   {0..<u} - set ys = {0..<t} - set xs"
proof (induction xs t rule: shrink_down.induct)
  case (2 x xs t)
  show ?case
  proof (cases "x + 1 = t")
    case True
    have "sorted_wrt (>) ys \<and> set ys \<subseteq> set xs \<and> (\<forall>x\<in>set ys. x + 1 < u) \<and> u \<le> t - 1 \<and>
        {0..<u} - set ys = {0..<t - 1} - set xs"
    proof (rule 2(1) [OF True])
      show "sorted_wrt (>) xs" "\<forall>y\<in>set xs. y < t - 1" "shrink_down xs (t - 1) = (ys, u)"
        using 2(2-4) True by auto
    qed
    moreover have "{0..<t} - set (x # xs) = {0..<t - 1} - set xs"
      using True by auto
    moreover have "set xs \<subseteq> set (x # xs)" by auto
    ultimately show ?thesis by (intro conjI) (blast, blast, blast, linarith, argo)
  next
    case False
    then have "ys = x # xs" "u = t" using 2(4) by auto
    moreover have "y + 1 < t" if "y \<in> set (x # xs)" for y
    proof -
      have "y \<le> x" "x < t" using that 2(2,3) by auto
      then show ?thesis using False by linarith
    qed
    ultimately show ?thesis using 2(2) by auto
  qed
qed auto

lemma ip_shrink_ok:
  assumes "ip_ok c p"
  shows "ip_ok c (ip_shrink p) \<and> ip_used (ip_shrink p) = ip_used p \<and>
    (\<forall>x\<in>set (ip_free (ip_shrink p)). x + 1 < ip_total (ip_shrink p))"
proof -
  obtain ys u where s: "shrink_down (rev (sort (ip_free p))) (ip_total p) = (ys, u)" by force
  have "sorted_wrt (>) (rev (sort (ip_free p)))"
    using assms by (simp add: ip_ok_def sorted_wrt_rev strict_sorted_iff)
  then have k: "sorted_wrt (>) ys \<and> set ys \<subseteq> set (ip_free p) \<and> (\<forall>x\<in>set ys. x + 1 < u) \<and> u \<le> ip_total p \<and>
      {0..<u} - set ys = {0..<ip_total p} - set (ip_free p)"
    using shrink_down_ok [OF _ _ s] assms by (auto simp: ip_ok_def)
  have "distinct ys" using k by (metis distinct_rev sorted_wrt_rev strict_sorted_iff)
  then show ?thesis using k s assms by (auto simp: ip_shrink_def ip_ok_def ip_used_def)
qed

lemma used_loop_ok:
  assumes "sorted_wrt (<) free" "\<forall>x\<in>set free. x < tot" "tot + 1 < 2 ^ c"
  shows "fi \<le> length free \<Longrightarrow> \<forall>j<fi. free ! j < pos \<Longrightarrow> \<forall>j<length free. fi \<le> j \<longrightarrow> pos \<le> free ! j \<Longrightarrow>
    length free - fi + 2 \<le> fuel \<Longrightarrow>
    used_loop c tot free fuel fi pos acc = Some (acc @ filter (\<lambda>i. i \<notin> set free) [pos..<tot])"
proof (induction fuel arbitrary: fi pos acc)
  case (Suc fuel)
  have ln: "length free \<le> tot"
  proof -
    have "distinct free" using assms(1) by (simp add: strict_sorted_iff)
    then have "length free = card (set free)" by (simp add: distinct_card)
    also have "\<dots> \<le> card {0..<tot}" using assms(2) by (intro card_mono) auto
    finally show ?thesis by simp
  qed
  show ?case
  proof (cases "pos < tot")
    case False
    then show ?thesis by simp
  next
    case True
    show ?thesis
    proof (cases "fi < length free")
      case fi: True
      let ?nu = "free ! fi"
      have nu: "?nu < tot" "pos \<le> ?nu" using fi assms(2) Suc(4) by auto
      have tr: "trunc c (fi + 1) = fi + 1" "trunc c (?nu + 1) = ?nu + 1" using fi ln nu assms(3) by (simp_all add: trunc_id)
      have none: "j \<notin> set free" if "pos \<le> j" "j < ?nu" for j
      proof
        assume "j \<in> set free"
        then obtain k where k: "k < length free" "free ! k = j" by (auto simp: in_set_conv_nth)
        have "\<not> k < fi" using Suc(3) k that(1) by auto
        then have "?nu \<le> j" using sorted_wrt_nth_less [OF assms(1), of fi k] k fi by (cases "fi = k") auto
        then show False using that(2) by simp
      qed
      have "[pos..<tot] = [pos..<?nu] @ ?nu # [?nu + 1..<tot]"
        using nu by (metis Suc_eq_plus1 le_add_diff_inverse less_imp_le_nat upt_add_eq_append upt_conv_Cons)
      then have split: "filter (\<lambda>i. i \<notin> set free) [pos..<tot] = [pos..<?nu] @ filter (\<lambda>i. i \<notin> set free) [?nu + 1..<tot]"
        using none fi by simp
      have "used_loop c tot free fuel (fi + 1) (?nu + 1) (acc @ [pos..<?nu]) =
          Some ((acc @ [pos..<?nu]) @ filter (\<lambda>i. i \<notin> set free) [?nu + 1..<tot])"
      proof (rule Suc(1))
        show "\<forall>j<fi + 1. free ! j < ?nu + 1"
          using sorted_wrt_nth_less [OF assms(1)] fi by (metis Suc_eq_plus1 less_Suc_eq less_imp_Suc_add less_add_Suc1 order_less_trans)
        show "\<forall>j<length free. fi + 1 \<le> j \<longrightarrow> ?nu + 1 \<le> free ! j"
          using sorted_wrt_nth_less [OF assms(1)] by (metis Suc_eq_plus1 Suc_le_eq)
      qed (use fi Suc(5) in auto)
      then show ?thesis using True fi tr split by (simp add: Let_def)
    next
      case False
      then have fi: "fi = length free" using Suc(2) by simp
      have none: "j \<notin> set free" if "pos \<le> j" for j
        using Suc(3) fi that by (auto simp: in_set_conv_nth)
      then have "filter (\<lambda>i. i \<notin> set free) [pos..<tot] = [pos..<tot]" by simp
      moreover have "fuel = Suc (fuel - 1)" using Suc(5) by simp
      then have "used_loop c tot free fuel (trunc c (fi + 1)) (tot + 1) (acc @ [pos..<tot]) = Some (acc @ [pos..<tot])"
        by (metis add_lessD1 less_irrefl used_loop.simps(2))
      ultimately show ?thesis using True fi assms(3) by (simp add: trunc_id)
    qed
  qed
qed simp

section \<open>Single ids: properties\<close>

lemma it_step_cycle:
  assumes "it_pos it = 0" "it_next it = f"
  shows "it_pos ((it_step ^^ n) it) = n mod (f + 1) \<and> it_next ((it_step ^^ n) it) = f"
proof (induction n)
  case 0
  then show ?case using assms by simp
next
  case (Suc n)
  have "it_pos (it_step x) = (if it_pos x < it_next x then it_pos x + 1 else 0) \<and> it_next (it_step x) = it_next x" for x
    by (simp add: it_step_def)
  moreover have "n mod (f + 1) < f \<or> n mod (f + 1) = f" using mod_less_divisor [of "f + 1" n] by linarith
  ultimately show ?case using Suc by (auto simp: mod_Suc)
qed

text \<open>
  The id pool hands out ids: reserving gives an id that was not in use and marks exactly it
  used, as long as there is a free id or room for another; freeing an id in use (checked or not)
  unmarks exactly it; shrinking changes no id's status and leaves no free id at the top; the size
  is the number of ids in use.
\<close>

theorem id_pool_tracks_used_ids:
  assumes "ip_ok c p"
  shows "(ip_free p \<noteq> [] \<or> ip_total p + 1 < 2 ^ c \<longrightarrow> (\<exists>v p'. ip_reserve c p = Inr (v, p') \<and> ip_ok c p' \<and>
       v \<notin> ip_used p \<and> ip_used p' = insert v (ip_used p))) \<and>
    (i \<in> ip_used p \<longrightarrow> (\<exists>p'. ip_free_id dbg i p = Inr p' \<and> ip_ok c p' \<and> ip_used p' = ip_used p - {i})) \<and>
    ip_ok c (ip_shrink p) \<and> ip_used (ip_shrink p) = ip_used p \<and>
    (\<forall>x\<in>set (ip_free (ip_shrink p)). x + 1 < ip_total (ip_shrink p)) \<and>
    ip_size c p = card (ip_used p)"
  using ip_reserve_ok [OF assms] ip_free_ok [OF assms] ip_shrink_ok [OF assms] ip_size_ok [OF assms] by blast

theorem id_pool_tracks_used_ids_witness:
  "ip_size 8 \<lparr>ip_free = [3, 1], ip_total = 5\<rparr> = card (ip_used \<lparr>ip_free = [3, 1], ip_total = 5\<rparr>)"
  using id_pool_tracks_used_ids [of 8 "\<lparr>ip_free = [3, 1], ip_total = 5\<rparr>"] by (simp add: ip_ok_def)

text \<open>
  \<^verbatim>\<open>CreateUsedIdList\<close> on a pool whose free list is sorted lists the ids in use, each once
  and in ascending order, unless the whole id space is taken: with all \<open>2 ^ c - 1\<close> ids reserved the
  position wraps to zero after the last id and the loop never ends.
\<close>

theorem pool_used_list_exact:
  assumes "ip_ok c p" "sorted (ip_free p)"
  shows "(ip_total p + 1 < 2 ^ c \<and> length (ip_free p) + 2 \<le> fuel \<longrightarrow>
       ip_used_list c fuel p = Some (filter (\<lambda>i. i \<in> ip_used p) [0..<ip_total p])) \<and>
    (ip_total p + 1 = 2 ^ c \<and> 0 < ip_total p \<and> ip_free p = [] \<longrightarrow> ip_used_list c fuel p = None)"
proof (intro conjI impI)
  assume b: "ip_total p + 1 < 2 ^ c \<and> length (ip_free p) + 2 \<le> fuel"
  have "sorted_wrt (<) (ip_free p)" using assms by (simp add: ip_ok_def strict_sorted_iff)
  then have "ip_used_list c fuel p = Some (filter (\<lambda>i. i \<notin> set (ip_free p)) [0..<ip_total p])"
    using used_loop_ok [of "ip_free p" "ip_total p" c 0 0 fuel "[]"] assms b by (simp add: ip_used_list_def ip_ok_def)
  moreover have "filter (\<lambda>i. i \<notin> set (ip_free p)) [0..<ip_total p] = filter (\<lambda>i. i \<in> ip_used p) [0..<ip_total p]"
    by (rule filter_cong) (auto simp: ip_used_def)
  ultimately show "ip_used_list c fuel p = Some (filter (\<lambda>i. i \<in> ip_used p) [0..<ip_total p])" by simp
next
  assume a: "ip_total p + 1 = 2 ^ c \<and> 0 < ip_total p \<and> ip_free p = []"
  then have "trunc c (ip_total p + 1) = 0" by (simp add: trunc_def)
  then have "used_loop c (ip_total p) [] fuel fi 0 acc = None" for fi acc
    using a by (induction fuel arbitrary: fi acc) auto
  then show "ip_used_list c fuel p = None" using a by (simp add: ip_used_list_def)
qed

theorem pool_used_list_exact_witness:
  "ip_used_list 8 4 \<lparr>ip_free = [1, 3], ip_total = 5\<rparr> = Some (filter (\<lambda>i. i \<in> ip_used \<lparr>ip_free = [1, 3], ip_total = 5\<rparr>) [0..<5])"
  using pool_used_list_exact [of 8 "\<lparr>ip_free = [1, 3], ip_total = 5\<rparr>" 4] by (simp add: ip_ok_def)

text \<open>
  iterating over a pool with a free id does not end: stepping from \<^verbatim>\<open>Begin\<close> runs through
  the ids up to and including the first free one, goes back to zero, and never reaches
  \<^verbatim>\<open>End\<close>, although some of the ids it gives are not in use.
\<close>

theorem pool_iteration_cycles:
  assumes "ip_ok c p" "ip_free p = f # fs" "0 < f"
  shows "it_pos ((it_step ^^ n) (it_begin p)) = n mod (f + 1) \<and>
    it_pos ((it_step ^^ n) (it_begin p)) \<noteq> ip_total p \<and> f \<notin> ip_used p"
proof -
  have f: "f < ip_total p" using assms by (simp add: ip_ok_def)
  have "it_pos (it_begin p) = 0" "it_next (it_begin p) = f"
    using assms by (simp_all add: it_begin_def it_find_next_def)
  then have "it_pos ((it_step ^^ n) (it_begin p)) = n mod (f + 1)" using it_step_cycle by blast
  moreover have "n mod (f + 1) \<noteq> ip_total p" using f mod_less_divisor [of "f + 1" n] by linarith
  ultimately show ?thesis using assms(2) by (simp add: ip_used_def)
qed

theorem pool_iteration_cycles_witness:
  "map (\<lambda>n. it_pos ((it_step ^^ n) (it_begin \<lparr>ip_free = [1], ip_total = 3\<rparr>))) [0, 1, 2, 3] = [0, 1, 0, 1]"
  using pool_iteration_cycles [of 8 "\<lparr>ip_free = [1], ip_total = 3\<rparr>" 1 "[]"] by (simp add: ip_ok_def eval_nat_numeral mod_Suc)

section \<open>Ranges of ids\<close>

type_synonym group = "nat \<times> nat"

record rpool =
  rp_queue :: "group list"
  rp_starts :: "(nat \<times> nat) list"
  rp_ends :: "(nat \<times> nat) list"
  rp_total :: nat

definition rp_new :: rpool where
  "rp_new = \<lparr>rp_queue = [], rp_starts = [], rp_ends = [], rp_total = 0\<rparr>"

fun queue_push :: "group \<Rightarrow> group list \<Rightarrow> group list" where
  "queue_push g [] = [g]"
| "queue_push g (h # q) = (if fst h < fst g then g # h # q else h # queue_push g q)"

definition try_match :: "group \<Rightarrow> nat \<Rightarrow> nat \<Rightarrow> group option" where
  "try_match g idx cnt =
     (if fst g = idx + cnt then Some (idx, snd g + cnt)
      else if fst g + snd g = idx then Some (fst g, snd g + cnt) else None)"

fun trim :: "group list \<Rightarrow> nat \<Rightarrow> group list \<times> nat" where
  "trim [] t = ([], t)"
| "trim (g # q) t = (if fst g + snd g = t then trim q (t - snd g) else (g # q, t))"

definition rp_add_free :: "nat \<Rightarrow> nat \<Rightarrow> nat \<Rightarrow> rpool \<Rightarrow> rpool res" where
  "rp_add_free small idx cnt p =
     assertR (rp_queue p = [] \<or> fst (hd (rp_queue p)) \<noteq> idx)
     (assertR (map_of (rp_starts p) idx = None)
     (assertR (map_of (rp_ends p) (idx + cnt) = None)
       (if small < cnt then Inr (p\<lparr>rp_queue := queue_push (idx, cnt) (rp_queue p)\<rparr>)
        else Inr (p\<lparr>rp_starts := (idx, cnt) # rp_starts p, rp_ends := (idx + cnt, cnt) # rp_ends p\<rparr>))))"

lemma length_AList_delete: "map_of xs k = Some y \<Longrightarrow> length (AList.delete k xs) < length xs"
  by (induction xs) (auto simp: AList.delete_eq less_Suc_eq_le le_imp_less_Suc split: if_splits)

function rp_free :: "nat \<Rightarrow> nat \<Rightarrow> nat \<Rightarrow> rpool \<Rightarrow> rpool res" where
  "rp_free small idx cnt p =
     assertR (0 < cnt \<and> cnt + idx \<le> rp_total p)
     (let rest = (\<lambda>_::unit.
        (case map_of (rp_starts p) (idx + cnt) of
           Some n \<Rightarrow>
             assertR (map_of (rp_ends p) (idx + cnt + n) \<noteq> None)
               (rp_free small idx (cnt + n)
                 (p\<lparr>rp_ends := AList.delete (idx + cnt + n) (rp_ends p), rp_starts := AList.delete (idx + cnt) (rp_starts p)\<rparr>))
         | None \<Rightarrow>
             (case map_of (rp_ends p) idx of
                Some n \<Rightarrow>
                  assertR (map_of (rp_starts p) (idx - n) \<noteq> None)
                    (rp_free small (idx - n) (cnt + n)
                      (p\<lparr>rp_starts := AList.delete (idx - n) (rp_starts p), rp_ends := AList.delete idx (rp_ends p)\<rparr>))
              | None \<Rightarrow>
                  if idx + cnt = rp_total p then Inr (p\<lparr>rp_total := rp_total p - cnt\<rparr>)
                  else rp_add_free small idx cnt p)))
      in case rp_queue p of
           [] \<Rightarrow> rest ()
         | g # q \<Rightarrow>
             assertR (fst g \<noteq> idx)
               (case try_match g idx cnt of
                  Some g' \<Rightarrow> (case trim (g' # q) (rp_total p) of (q', t') \<Rightarrow> Inr (p\<lparr>rp_queue := q', rp_total := t'\<rparr>))
                | None \<Rightarrow> rest ()))"
  by pat_completeness auto
termination
  by (relation "measure (\<lambda>(_, _, _, p). length (rp_starts p))") (auto dest: length_AList_delete)

declare rp_free.simps [simp del]

definition rp_reserve :: "nat \<Rightarrow> nat \<Rightarrow> nat \<Rightarrow> rpool \<Rightarrow> (nat \<times> rpool) res" where
  "rp_reserve c small cnt p =
     (case rp_queue p of
        g # q \<Rightarrow>
          if cnt \<le> snd g then
            (let p1 = p\<lparr>rp_queue := q\<rparr> in
             if snd g \<noteq> cnt then
               bindR (rp_free small (fst g) (snd g - cnt) p1) (\<lambda>p2. Inr (fst g + (snd g - cnt), p2))
             else Inr (fst g, p1))
          else Inr (rp_total p, p\<lparr>rp_total := trunc c (rp_total p + cnt)\<rparr>)
      | [] \<Rightarrow> Inr (rp_total p, p\<lparr>rp_total := trunc c (rp_total p + cnt)\<rparr>))"

section \<open>Ranges of ids: the invariant\<close>

definition rng :: "group \<Rightarrow> nat set" where
  "rng g = {fst g..<fst g + snd g}"

definition free_ids :: "rpool \<Rightarrow> nat set" where
  "free_ids p = (\<Union>g \<in> set (rp_queue p) \<union> set (rp_starts p). rng g)"

definition range_used :: "rpool \<Rightarrow> nat set" where
  "range_used p = {0..<rp_total p} - free_ids p"

definition rp_ok :: "rpool \<Rightarrow> bool" where
  "rp_ok p \<longleftrightarrow>
     (\<forall>g \<in> set (rp_queue p) \<union> set (rp_starts p). 0 < snd g \<and> fst g + snd g \<le> rp_total p) \<and>
     sorted_wrt (\<lambda>g h. fst h < fst g) (rp_queue p) \<and>
     distinct (map fst (rp_starts p)) \<and> distinct (map fst (rp_ends p)) \<and>
     (\<forall>g \<in> set (rp_queue p) \<union> set (rp_starts p). \<forall>h \<in> set (rp_queue p) \<union> set (rp_starts p).
        g \<noteq> h \<longrightarrow> rng g \<inter> rng h = {}) \<and>
     set (rp_queue p) \<inter> set (rp_starts p) = {} \<and>
     (\<forall>e n. (e, n) \<in> set (rp_ends p) \<longleftrightarrow> n \<le> e \<and> (e - n, n) \<in> set (rp_starts p))"

lemma rng_start: "0 < snd g \<Longrightarrow> fst g \<in> rng g"
  by (simp add: rng_def)

lemma rng_last: "0 < snd g \<Longrightarrow> fst g + snd g - 1 \<in> rng g"
  by (auto simp: rng_def)

lemma free_in_total: "rp_ok p \<Longrightarrow> free_ids p \<subseteq> {0..<rp_total p}"
proof
  fix x assume a: "rp_ok p" "x \<in> free_ids p"
  then obtain g where "g \<in> set (rp_queue p) \<union> set (rp_starts p)" "x \<in> rng g" by (auto simp: free_ids_def)
  moreover from this have "fst g + snd g \<le> rp_total p" using a(1) unfolding rp_ok_def by blast
  ultimately show "x \<in> {0..<rp_total p}" by (auto simp: rng_def)
qed

lemma disjoint_before:
  assumes "rng g \<inter> {i..<i + n} = {}" "0 < snd g" "0 < n" "fst g + snd g \<le> i + n"
  shows "fst g + snd g \<le> i"
proof (rule ccontr)
  assume "\<not> fst g + snd g \<le> i"
  then have "fst g + snd g - 1 \<in> rng g \<inter> {i..<i + n}" using assms(2,4) by (auto simp: rng_def)
  then show False using assms(1) by auto
qed

lemma trim_ok:
  assumes "\<forall>g \<in> set q \<union> S. 0 < snd g \<and> fst g + snd g \<le> t"
    "sorted_wrt (\<lambda>g h. fst h < fst g) q"
    "\<forall>g \<in> set q \<union> S. \<forall>h \<in> set q \<union> S. g \<noteq> h \<longrightarrow> rng g \<inter> rng h = {}"
    "set q \<inter> S = {}" "trim q t = (q', t')"
  shows "set q' \<subseteq> set q \<and> t' \<le> t \<and> sorted_wrt (\<lambda>g h. fst h < fst g) q' \<and>
    (\<forall>g \<in> set q' \<union> S. fst g + snd g \<le> t') \<and>
    {0..<t'} - (\<Union>g \<in> set q' \<union> S. rng g) = {0..<t} - (\<Union>g \<in> set q \<union> S. rng g)"
  using assms
proof (induction q t rule: trim.induct)
  case (2 g q t)
  show ?case
  proof (cases "fst g + snd g = t")
    case True
    have g: "0 < snd g" "g \<notin> S" using 2(2,5) by auto
    have gq: "g \<notin> set q" using 2(3) by auto
    have b: "\<forall>h \<in> set q \<union> S. 0 < snd h \<and> fst h + snd h \<le> t - snd g"
    proof
      fix h assume h: "h \<in> set q \<union> S"
      then have "g \<noteq> h" using g(2) gq by auto
      then have "rng h \<inter> rng g = {}" using 2(4) h by auto
      moreover have "0 < snd h" "fst h + snd h \<le> t" using 2(2) h by auto
      ultimately show "0 < snd h \<and> fst h + snd h \<le> t - snd g"
        using disjoint_before [of h "fst g" "snd g"] True g(1) by (auto simp: rng_def)
    qed
    have tr: "trim q (t - snd g) = (q', t')" using 2(6) True by simp
    have IH: "set q' \<subseteq> set q \<and> t' \<le> t - snd g \<and> sorted_wrt (\<lambda>g h. fst h < fst g) q' \<and>
      (\<forall>g \<in> set q' \<union> S. fst g + snd g \<le> t') \<and>
      {0..<t'} - (\<Union>g \<in> set q' \<union> S. rng g) = {0..<t - snd g} - (\<Union>g \<in> set q \<union> S. rng g)"
      using 2(1) [OF True b] 2(3-5) tr by auto
    have "{0..<t} - (\<Union>h \<in> set (g # q) \<union> S. rng h) = {0..<t} - rng g - (\<Union>h \<in> set q \<union> S. rng h)" by auto
    also have "{0..<t} - rng g = {0..<t - snd g}" using True by (auto simp: rng_def)
    finally show ?thesis using IH by auto
  next
    case False
    then have "q' = g # q" "t' = t" using 2(6) by auto
    then show ?thesis using 2(2,3) by blast
  qed
qed auto

lemma queue_push_set: "set (queue_push g q) = insert g (set q)"
  by (induction g q rule: queue_push.induct) auto

lemma queue_push_sorted:
  "sorted_wrt (\<lambda>g h. fst h < fst g) q \<Longrightarrow> \<forall>h \<in> set q. fst h \<noteq> fst g \<Longrightarrow> sorted_wrt (\<lambda>g h. fst h < fst g) (queue_push g q)"
  by (induction g q rule: queue_push.induct) (auto simp: queue_push_set)

lemma map_of_mem: "distinct (map fst xs) \<Longrightarrow> map_of xs k = Some v \<longleftrightarrow> (k, v) \<in> set xs"
  by simp

lemma set_AList_delete: "distinct (map fst xs) \<Longrightarrow> set (AList.delete k xs) = {x \<in> set xs. fst x \<noteq> k}"
  by (auto simp: AList.delete_eq)

lemma distinct_AList_delete: "distinct (map fst xs) \<Longrightarrow> distinct (map fst (AList.delete k xs))"
  by (simp add: AList.delete_eq distinct_map_filter)

lemma rp_unmap_ok:
  assumes "rp_ok p" "(i, n) \<in> set (rp_starts p)"
  defines "p1 \<equiv> p\<lparr>rp_starts := AList.delete i (rp_starts p), rp_ends := AList.delete (i + n) (rp_ends p)\<rparr>"
  shows "rp_ok p1" "free_ids p1 = free_ids p - {i..<i + n}" "{i..<i + n} \<subseteq> free_ids p"
    "0 < n" "i + n \<le> rp_total p"
proof -
  have d: "distinct (map fst (rp_starts p))" "distinct (map fst (rp_ends p))" using assms(1) by (auto simp: rp_ok_def)
  have s: "set (rp_starts p1) = set (rp_starts p) - {(i, n)}"
    using assms(2) d eq_key_imp_eq_value [OF d(1)] by (auto simp: p1_def set_AList_delete)
  have e_in: "(i + n, n) \<in> set (rp_ends p)" using assms(1,2) by (simp add: rp_ok_def)
  have e: "set (rp_ends p1) = set (rp_ends p) - {(i + n, n)}"
    using e_in d eq_key_imp_eq_value [OF d(2)] by (auto simp: p1_def set_AList_delete)
  have q: "rp_queue p1 = rp_queue p" "rp_total p1 = rp_total p" by (simp_all add: p1_def)
  have "0 < snd (i, n) \<and> fst (i, n) + snd (i, n) \<le> rp_total p" using assms(1,2) unfolding rp_ok_def by blast
  then show "0 < n" "i + n \<le> rp_total p" by simp_all
  have dd: "distinct (map fst (rp_starts p1))" "distinct (map fst (rp_ends p1))"
    using d distinct_AList_delete by (simp_all add: p1_def)
  have "(x, m) \<in> set (rp_ends p1) \<longleftrightarrow> m \<le> x \<and> (x - m, m) \<in> set (rp_starts p1)" for x m
  proof -
    have "(x, m) \<in> set (rp_ends p) \<longleftrightarrow> m \<le> x \<and> (x - m, m) \<in> set (rp_starts p)" using assms(1) by (simp add: rp_ok_def)
    moreover have "m \<le> x \<Longrightarrow> (x, m) = (i + n, n) \<longleftrightarrow> (x - m, m) = (i, n)" by auto
    ultimately show ?thesis unfolding e s by blast
  qed
  note E = this
  have S: "set (rp_starts p1) \<subseteq> set (rp_starts p)" using s by auto
  show "rp_ok p1" unfolding rp_ok_def q
  proof (intro conjI)
    show "\<forall>g \<in> set (rp_queue p) \<union> set (rp_starts p1). 0 < snd g \<and> fst g + snd g \<le> rp_total p"
      using assms(1) S unfolding rp_ok_def by blast
    show "\<forall>g \<in> set (rp_queue p) \<union> set (rp_starts p1). \<forall>h \<in> set (rp_queue p) \<union> set (rp_starts p1).
        g \<noteq> h \<longrightarrow> rng g \<inter> rng h = {}"
      using assms(1) S unfolding rp_ok_def by (meson Un_iff subsetD)
    show "set (rp_queue p) \<inter> set (rp_starts p1) = {}" using assms(1) S unfolding rp_ok_def by blast
  qed (use assms(1) dd E in \<open>auto simp: rp_ok_def\<close>)
  have "\<forall>h \<in> (set (rp_queue p) \<union> set (rp_starts p)) - {(i, n)}. rng h \<inter> rng (i, n) = {}"
    using assms(1,2) unfolding rp_ok_def by blast
  moreover have "(i, n) \<notin> set (rp_queue p)" using assms(1,2) by (auto simp: rp_ok_def)
  moreover have "rng (i, n) = {i..<i + n}" by (simp add: rng_def)
  ultimately show "free_ids p1 = free_ids p - {i..<i + n}"
    unfolding free_ids_def q s using assms(2) by blast
  show "{i..<i + n} \<subseteq> free_ids p" using assms(2) by (force simp: free_ids_def rng_def)
qed

lemma rp_add_free_ok:
  assumes "rp_ok p" "0 < cnt" "idx + cnt \<le> rp_total p" "{idx..<idx + cnt} \<inter> free_ids p = {}"
  shows "\<exists>p'. rp_add_free small idx cnt p = Inr p' \<and> rp_ok p' \<and> free_ids p' = free_ids p \<union> {idx..<idx + cnt} \<and>
    rp_total p' = rp_total p"
proof -
  have dis: "rng g \<inter> {idx..<idx + cnt} = {}" "0 < snd g" if "g \<in> set (rp_queue p) \<union> set (rp_starts p)" for g
    using that assms(1,4) by (auto simp: free_ids_def rp_ok_def)
  have ne: "fst g \<noteq> idx" "fst g + snd g \<noteq> idx + cnt" if g: "g \<in> set (rp_queue p) \<union> set (rp_starts p)" for g
    using dis [OF g] rng_start [of g] rng_last [of g] assms(2) by auto
  have a1: "rp_queue p = [] \<or> fst (hd (rp_queue p)) \<noteq> idx" using ne(1) by (cases "rp_queue p") auto
  have a2: "map_of (rp_starts p) idx = None"
    using ne(1) by (force simp: map_of_eq_None_iff)
  have a3: "map_of (rp_ends p) (idx + cnt) = None"
  proof (rule ccontr)
    assume "map_of (rp_ends p) (idx + cnt) \<noteq> None"
    then obtain n where "(idx + cnt, n) \<in> set (rp_ends p)" by (auto dest: map_of_SomeD)
    then have "n \<le> idx + cnt" "(idx + cnt - n, n) \<in> set (rp_starts p)" using assms(1) by (auto simp: rp_ok_def)
    then show False using ne(2) [of "(idx + cnt - n, n)"] by auto
  qed
  have new: "\<forall>g \<in> set (rp_queue p) \<union> set (rp_starts p). g \<noteq> (idx, cnt) \<and> rng g \<inter> rng (idx, cnt) = {}"
  proof
    fix g assume g: "g \<in> set (rp_queue p) \<union> set (rp_starts p)"
    then show "g \<noteq> (idx, cnt) \<and> rng g \<inter> rng (idx, cnt) = {}"
      using dis(1) [OF g] ne(1) [OF g] by (auto simp: rng_def)
  qed
  have sym: "rng (idx, cnt) = {idx..<idx + cnt}" by (simp add: rng_def)
  show ?thesis
  proof (cases "small < cnt")
    case True
    let ?p = "p\<lparr>rp_queue := queue_push (idx, cnt) (rp_queue p)\<rparr>"
    have "sorted_wrt (\<lambda>g h. fst h < fst g) (queue_push (idx, cnt) (rp_queue p))"
      using assms(1) ne(1) by (intro queue_push_sorted) (auto simp: rp_ok_def)
    then have "rp_ok ?p" using assms(1-3) new unfolding rp_ok_def by (simp add: queue_push_set) blast
    moreover have "free_ids ?p = free_ids p \<union> {idx..<idx + cnt}"
      by (auto simp: free_ids_def queue_push_set sym)
    ultimately show ?thesis using True a1 a2 a3 by (simp add: rp_add_free_def)
  next
    case False
    let ?p = "p\<lparr>rp_starts := (idx, cnt) # rp_starts p, rp_ends := (idx + cnt, cnt) # rp_ends p\<rparr>"
    have e: "(x, m) \<in> set (rp_ends ?p) \<longleftrightarrow> m \<le> x \<and> (x - m, m) \<in> set (rp_starts ?p)" for x m
      using assms(1) unfolding rp_ok_def by auto
    have "idx \<notin> fst ` set (rp_starts p)" "idx + cnt \<notin> fst ` set (rp_ends p)"
      using a2 a3 by (simp_all add: map_of_eq_None_iff)
    then have "distinct (map fst (rp_starts ?p))" "distinct (map fst (rp_ends ?p))"
      using assms(1) by (simp_all add: rp_ok_def)
    then have "rp_ok ?p" using assms(1-3) new e unfolding rp_ok_def by (simp del: distinct.simps) blast
    moreover have "free_ids ?p = free_ids p \<union> {idx..<idx + cnt}"
      by (auto simp: free_ids_def sym)
    ultimately show ?thesis using False a1 a2 a3 by (simp add: rp_add_free_def)
  qed
qed

lemma rp_shrink_total_ok:
  assumes "rp_ok p" "0 < cnt" "idx + cnt = rp_total p" "{idx..<idx + cnt} \<inter> free_ids p = {}"
  shows "rp_ok (p\<lparr>rp_total := idx\<rparr>)" "range_used (p\<lparr>rp_total := idx\<rparr>) = range_used p - {idx..<idx + cnt}"
proof -
  have "0 < snd g \<and> fst g + snd g \<le> idx" if g: "g \<in> set (rp_queue p) \<union> set (rp_starts p)" for g
  proof -
    have "rng g \<inter> {idx..<idx + cnt} = {}" using assms(4) g by (auto simp: free_ids_def)
    moreover have "0 < snd g" "fst g + snd g \<le> rp_total p" using assms(1) g unfolding rp_ok_def by blast+
    ultimately show ?thesis using disjoint_before [of g idx cnt] assms(2,3) by simp
  qed
  then show "rp_ok (p\<lparr>rp_total := idx\<rparr>)" using assms(1) unfolding rp_ok_def by simp
  show "range_used (p\<lparr>rp_total := idx\<rparr>) = range_used p - {idx..<idx + cnt}"
    using assms(3) by (auto simp: range_used_def free_ids_def)
qed

lemma rp_merge_top_ok:
  assumes ok: "rp_ok p" and q: "rp_queue p = g # q" and cnt: "0 < cnt" "idx + cnt \<le> rp_total p"
    and dis: "{idx..<idx + cnt} \<inter> free_ids p = {}" and m: "try_match g idx cnt = Some g'"
    and tr: "trim (g' # q) (rp_total p) = (q', t')"
  shows "rp_ok (p\<lparr>rp_queue := q', rp_total := t'\<rparr>) \<and>
    range_used (p\<lparr>rp_queue := q', rp_total := t'\<rparr>) = range_used p - {idx..<idx + cnt}"
proof -
  let ?S = "set (rp_starts p)"
  have g: "0 < snd g" "fst g + snd g \<le> rp_total p" using ok q by (auto simp: rp_ok_def)
  have g': "rng g' = rng g \<union> {idx..<idx + cnt}" "0 < snd g'" "fst g' + snd g' \<le> rp_total p"
    "fst g' = fst g \<or> fst g' = idx \<and> idx + cnt = fst g"
    using m cnt g by (auto simp: try_match_def rng_def split: if_splits)
  have oth: "rng h \<inter> rng g' = {}" "0 < snd h" "fst h + snd h \<le> rp_total p" "h \<noteq> g'" if h: "h \<in> set q \<union> ?S" for h
  proof -
    have "h \<noteq> g" using h ok q by (auto simp: rp_ok_def)
    then have "rng h \<inter> rng g = {}" using h ok q unfolding rp_ok_def by auto
    moreover have "rng h \<inter> {idx..<idx + cnt} = {}" using h dis q by (auto simp: free_ids_def)
    ultimately show r: "rng h \<inter> rng g' = {}" using g'(1) by auto
    show "0 < snd h" "fst h + snd h \<le> rp_total p" using h ok q by (auto simp: rp_ok_def)
    show "h \<noteq> g'" using r rng_start [OF g'(2)] by auto
  qed
  have srt: "sorted_wrt (\<lambda>g h. fst h < fst g) (g' # q)"
  proof -
    have "fst h < fst g'" if h: "h \<in> set q" for h
    proof -
      have lt: "fst h < fst g" using ok q h by (auto simp: rp_ok_def)
      have "fst h \<notin> rng g'" using oth(1,2) [of h] h rng_start [of h] by auto
      then show ?thesis using lt g'(4) cnt(1) g' by (auto simp: rng_def)
    qed
    then show ?thesis using ok q by (simp add: rp_ok_def)
  qed
  have pre1: "\<forall>h \<in> set (g' # q) \<union> ?S. 0 < snd h \<and> fst h + snd h \<le> rp_total p" using g' oth by auto
  have pre2: "\<forall>h \<in> set (g' # q) \<union> ?S. \<forall>k \<in> set (g' # q) \<union> ?S. h \<noteq> k \<longrightarrow> rng h \<inter> rng k = {}"
  proof -
    have "rng h \<inter> rng k = {}" if "h \<in> set q \<union> ?S" "k \<in> set q \<union> ?S" "h \<noteq> k" for h k
      using that ok q unfolding rp_ok_def by auto
    then show ?thesis using oth(1) by (intro ballI impI) (metis Int_commute UnE UnI1 UnI2 set_ConsD)
  qed
  have pre3: "set (g' # q) \<inter> ?S = {}" using ok q oth(4) [of g'] by (auto simp: rp_ok_def)
  note T = trim_ok [OF pre1 srt pre2 pre3 tr]
  have "rp_ok (p\<lparr>rp_queue := q', rp_total := t'\<rparr>)"
  proof -
    have "\<forall>h \<in> set q' \<union> ?S. 0 < snd h \<and> fst h + snd h \<le> t'" using T pre1 by auto
    moreover have "\<forall>h \<in> set q' \<union> ?S. \<forall>k \<in> set q' \<union> ?S. h \<noteq> k \<longrightarrow> rng h \<inter> rng k = {}" using T pre2 by blast
    moreover have "set q' \<inter> ?S = {}" using T pre3 by auto
    ultimately show ?thesis using T ok unfolding rp_ok_def by simp
  qed
  moreover have "range_used (p\<lparr>rp_queue := q', rp_total := t'\<rparr>) = {0..<rp_total p} - (\<Union>h \<in> set (g' # q) \<union> ?S. rng h)"
    using T by (simp add: range_used_def free_ids_def)
  moreover have "(\<Union>h \<in> set (g' # q) \<union> ?S. rng h) = free_ids p \<union> {idx..<idx + cnt}"
    using q g'(1) by (auto simp: free_ids_def)
  ultimately show ?thesis by (auto simp: range_used_def)
qed

lemma rp_free_ok:
  "rp_ok p \<Longrightarrow> 0 < cnt \<Longrightarrow> idx + cnt \<le> rp_total p \<Longrightarrow> {idx..<idx + cnt} \<inter> free_ids p = {} \<Longrightarrow>
   \<exists>p'. rp_free small idx cnt p = Inr p' \<and> rp_ok p' \<and> range_used p' = range_used p - {idx..<idx + cnt}"
proof (induction "length (rp_starts p)" arbitrary: idx cnt p rule: less_induct)
  case less
  note ok = less(2) and cnt = less(3,4) and dis = less(5)
  have ds: "distinct (map fst (rp_starts p))" "distinct (map fst (rp_ends p))" using ok by (auto simp: rp_ok_def)
  define R where "R = (case map_of (rp_starts p) (idx + cnt) of
           Some n \<Rightarrow>
             assertR (map_of (rp_ends p) (idx + cnt + n) \<noteq> None)
               (rp_free small idx (cnt + n)
                 (p\<lparr>rp_ends := AList.delete (idx + cnt + n) (rp_ends p), rp_starts := AList.delete (idx + cnt) (rp_starts p)\<rparr>))
         | None \<Rightarrow>
             (case map_of (rp_ends p) idx of
                Some n \<Rightarrow>
                  assertR (map_of (rp_starts p) (idx - n) \<noteq> None)
                    (rp_free small (idx - n) (cnt + n)
                      (p\<lparr>rp_starts := AList.delete (idx - n) (rp_starts p), rp_ends := AList.delete idx (rp_ends p)\<rparr>))
              | None \<Rightarrow>
                  if idx + cnt = rp_total p then Inr (p\<lparr>rp_total := rp_total p - cnt\<rparr>)
                  else rp_add_free small idx cnt p))"
  have absorb: "\<exists>p'. rp_free small j (cnt + n) p1 = Inr p' \<and> rp_ok p' \<and> range_used p' = range_used p - {idx..<idx + cnt}"
    if m: "(i, n) \<in> set (rp_starts p)" and p1: "p1 = p\<lparr>rp_starts := AList.delete i (rp_starts p), rp_ends := AList.delete (i + n) (rp_ends p)\<rparr>"
      and j: "{j..<j + (cnt + n)} = {idx..<idx + cnt} \<union> {i..<i + n}" "j + (cnt + n) \<le> rp_total p" for i n j p1
  proof -
    note U = rp_unmap_ok [OF ok m, folded p1]
    have "length (rp_starts p1) < length (rp_starts p)"
      using length_AList_delete [of "rp_starts p" i n] m ds(1) by (simp add: p1)
    moreover have "{j..<j + (cnt + n)} \<inter> free_ids p1 = {}" using U(2) dis j(1) by auto
    ultimately obtain p' where p': "rp_free small j (cnt + n) p1 = Inr p'" "rp_ok p'"
      "range_used p' = range_used p1 - {j..<j + (cnt + n)}"
      using less(1) [of p1 "cnt + n" j] U(1) cnt(1) j(2) by (auto simp: p1)
    have "range_used p1 = range_used p \<union> {i..<i + n}"
      using U(2,3) free_in_total [OF ok] by (auto simp: range_used_def p1)
    moreover have "{i..<i + n} \<inter> range_used p = {}" using U(3) by (auto simp: range_used_def)
    ultimately have "range_used p' = range_used p - {idx..<idx + cnt}" using p'(3) j(1) by blast
    then show ?thesis using p' by blast
  qed
  have rest: "\<exists>p'. R = Inr p' \<and> rp_ok p' \<and> range_used p' = range_used p - {idx..<idx + cnt}"
  proof (cases "map_of (rp_starts p) (idx + cnt)")
    case (Some n)
    then have m: "(idx + cnt, n) \<in> set (rp_starts p)" using ds(1) by simp
    then have e: "(idx + cnt + n, n) \<in> set (rp_ends p)" using ok by (simp add: rp_ok_def)
    have j: "{idx..<idx + (cnt + n)} = {idx..<idx + cnt} \<union> {idx + cnt..<idx + cnt + n}" by auto
    have t: "idx + (cnt + n) \<le> rp_total p" using rp_unmap_ok(5) [OF ok m] by simp
    have p1: "p\<lparr>rp_ends := AList.delete (idx + cnt + n) (rp_ends p), rp_starts := AList.delete (idx + cnt) (rp_starts p)\<rparr> =
      p\<lparr>rp_starts := AList.delete (idx + cnt) (rp_starts p), rp_ends := AList.delete (idx + cnt + n) (rp_ends p)\<rparr>" by simp
    show ?thesis using absorb [OF m p1 j t] Some e ds(2) by (auto simp: R_def)
  next
    case s: None
    show ?thesis
    proof (cases "map_of (rp_ends p) idx")
      case (Some n)
      then have e: "(idx, n) \<in> set (rp_ends p)" using ds(2) by simp
      then have n: "n \<le> idx" "(idx - n, n) \<in> set (rp_starts p)" using ok by (auto simp: rp_ok_def)
      have j: "{idx - n..<idx - n + (cnt + n)} = {idx..<idx + cnt} \<union> {idx - n..<idx - n + n}" using n(1) by auto
      have t: "idx - n + (cnt + n) \<le> rp_total p" using cnt n(1) by simp
      show ?thesis using absorb [OF n(2) refl j t] s Some n ds(1) by (auto simp: R_def)
    next
      case None
      show ?thesis
      proof (cases "idx + cnt = rp_total p")
        case True
        then have "rp_total p - cnt = idx" by simp
        then show ?thesis using s None True rp_shrink_total_ok [OF ok cnt(1) True dis] by (simp add: R_def)
      next
        case False
        obtain p' where "rp_add_free small idx cnt p = Inr p'" "rp_ok p'" "free_ids p' = free_ids p \<union> {idx..<idx + cnt}"
          "rp_total p' = rp_total p"
          using rp_add_free_ok [OF ok cnt dis] by blast
        then show ?thesis using s None False by (auto simp: R_def range_used_def)
      qed
    qed
  qed
  have c: "0 < cnt \<and> cnt + idx \<le> rp_total p" using cnt by simp
  show ?case
  proof (cases "rp_queue p")
    case Nil
    then have "rp_free small idx cnt p = R" using c by (subst rp_free.simps) (simp add: R_def Let_def)
    then show ?thesis using rest by simp
  next
    case (Cons g q)
    have "fst g \<in> free_ids p" using Cons ok rng_start [of g] by (auto simp: free_ids_def rp_ok_def)
    moreover have "idx \<in> {idx..<idx + cnt}" using cnt(1) by simp
    ultimately have ne: "fst g \<noteq> idx" using dis by blast
    show ?thesis
    proof (cases "try_match g idx cnt")
      case None
      then have "rp_free small idx cnt p = R" using c ne Cons by (subst rp_free.simps) (simp add: R_def Let_def)
      then show ?thesis using rest by simp
    next
      case (Some g')
      obtain q' t' where tr: "trim (g' # q) (rp_total p) = (q', t')" by force
      have "rp_free small idx cnt p = Inr (p\<lparr>rp_queue := q', rp_total := t'\<rparr>)"
        using c ne Cons Some tr by (subst rp_free.simps) (simp add: Let_def del: trim.simps)
      then show ?thesis using rp_merge_top_ok [OF ok Cons cnt dis Some tr] by simp
    qed
  qed
qed

lemma rp_reserve_ok:
  assumes "rp_ok p" "0 < cnt" "rp_total p + cnt < 2 ^ c"
  shows "\<exists>v p'. rp_reserve c small cnt p = Inr (v, p') \<and> rp_ok p' \<and> {v..<v + cnt} \<inter> range_used p = {} \<and>
    range_used p' = range_used p \<union> {v..<v + cnt}"
proof -
  have grow: "rp_ok (p\<lparr>rp_total := rp_total p + cnt\<rparr>)"
    "range_used (p\<lparr>rp_total := rp_total p + cnt\<rparr>) = range_used p \<union> {rp_total p..<rp_total p + cnt}"
    "{rp_total p..<rp_total p + cnt} \<inter> range_used p = {}"
  proof -
    have "\<forall>g \<in> set (rp_queue p) \<union> set (rp_starts p). 0 < snd g \<and> fst g + snd g \<le> rp_total p + cnt"
      using assms(1) unfolding rp_ok_def by (meson trans_le_add1)
    then show "rp_ok (p\<lparr>rp_total := rp_total p + cnt\<rparr>)" using assms(1) unfolding rp_ok_def by simp
    show "range_used (p\<lparr>rp_total := rp_total p + cnt\<rparr>) = range_used p \<union> {rp_total p..<rp_total p + cnt}"
      using free_in_total [OF assms(1)] by (auto simp: range_used_def free_ids_def)
  qed (auto simp: range_used_def)
  have tr: "trunc c (rp_total p + cnt) = rp_total p + cnt" using assms(3) by (simp add: trunc_id)
  show ?thesis
  proof (cases "rp_queue p")
    case Nil
    then show ?thesis using grow tr by (simp add: rp_reserve_def)
  next
    case (Cons g q)
    show ?thesis
    proof (cases "cnt \<le> snd g")
      case False
      then show ?thesis using Cons grow tr by (simp add: rp_reserve_def)
    next
      case True
      let ?p1 = "p\<lparr>rp_queue := q\<rparr>"
      have g: "0 < snd g" "fst g + snd g \<le> rp_total p" using assms(1) Cons by (auto simp: rp_ok_def)
      have dis: "\<forall>h \<in> set q \<union> set (rp_starts p). rng h \<inter> rng g = {}"
      proof
        fix h assume h: "h \<in> set q \<union> set (rp_starts p)"
        then have "h \<noteq> g" using assms(1) Cons by (auto simp: rp_ok_def)
        then show "rng h \<inter> rng g = {}" using h assms(1) Cons unfolding rp_ok_def by auto
      qed
      have ok1: "rp_ok ?p1" using assms(1) Cons unfolding rp_ok_def by simp
      have f1: "free_ids p = free_ids ?p1 \<union> rng g" "free_ids ?p1 \<inter> rng g = {}"
        using Cons dis by (auto simp: free_ids_def)
      have u1: "range_used ?p1 = range_used p \<union> rng g" "rng g \<inter> range_used p = {}"
        using f1 g by (auto simp: range_used_def rng_def)
      show ?thesis
      proof (cases "snd g = cnt")
        case eq: True
        then have "rp_reserve c small cnt p = Inr (fst g, ?p1)" using Cons by (simp add: rp_reserve_def Let_def)
        then show ?thesis using ok1 u1 eq by (auto simp: rng_def)
      next
        case False
        let ?k = "snd g - cnt"
        have "0 < ?k" "fst g + ?k \<le> rp_total ?p1" "{fst g..<fst g + ?k} \<subseteq> rng g"
          using False True g by (auto simp: rng_def)
        moreover from this have "{fst g..<fst g + ?k} \<inter> free_ids ?p1 = {}" using f1(2) by blast
        ultimately obtain p2 where p2: "rp_free small (fst g) ?k ?p1 = Inr p2" "rp_ok p2"
          "range_used p2 = range_used ?p1 - {fst g..<fst g + ?k}"
          using rp_free_ok [OF ok1] by blast
        have s: "rng g = {fst g..<fst g + ?k} \<union> {fst g + ?k..<fst g + ?k + cnt}"
          "{fst g..<fst g + ?k} \<inter> {fst g + ?k..<fst g + ?k + cnt} = {}" using True by (auto simp: rng_def)
        have "rp_reserve c small cnt p = Inr (fst g + ?k, p2)" using Cons True False p2(1) by (simp add: rp_reserve_def Let_def)
        moreover have "range_used p2 = range_used p \<union> {fst g + ?k..<fst g + ?k + cnt}"
          using p2(3) u1 s by blast
        moreover have "{fst g + ?k..<fst g + ?k + cnt} \<inter> range_used p = {}" using u1(2) s(1) by blast
        ultimately show ?thesis using p2(2) by blast
      qed
    qed
  qed
qed

section \<open>Ranges of ids: properties\<close>



text \<open>
  the free range \<^verbatim>\<open>Reserve\<close> looks at is the one with the highest start, not the biggest:
  with a free range big enough below a smaller one, it leaves both and extends the id space.
\<close>

theorem range_pool_reserve_ignores_bigger_range:
  assumes "rp_queue p = g # h # q" "snd g < cnt" "cnt \<le> snd h" "rp_total p + cnt < 2 ^ c"
  shows "rp_reserve c small cnt p = Inr (rp_total p, p\<lparr>rp_total := rp_total p + cnt\<rparr>)"
  using assms by (simp add: rp_reserve_def trunc_id)

theorem range_pool_reserve_ignores_bigger_range_witness:
  "rp_reserve 32 4 10 \<lparr>rp_queue = [(50, 5), (0, 20)], rp_starts = [], rp_ends = [], rp_total = 60\<rparr> =
     Inr (60, \<lparr>rp_queue = [(50, 5), (0, 20)], rp_starts = [], rp_ends = [], rp_total = 70\<rparr>)"
  using range_pool_reserve_ignores_bigger_range [of "\<lparr>rp_queue = [(50, 5), (0, 20)], rp_starts = [], rp_ends = [], rp_total = 60\<rparr>"
      "(50, 5)" "(0, 20)" "[]" 10 32 4] by simp

end
