(* ===== verification/AccessGuards.thy ===== *)
theory AccessGuards
  imports Prelude
begin

text \<open>
  \<^verbatim>\<open>ion/debug/AccessGuard.h\<close> and \<^verbatim>\<open>ion/debug/AccessGuard.cpp\<close>: the race detector
  that the containers and queues carry in a development build.  A guard is one atomic
  counter, the number of readers or -1 while one block writes; each operation changes it
  and then checks the value it found.  The variant for recursive access
  (\<^verbatim>\<open>ION_ACCESS_GUARD_ALLOW_RECURSIVE\<close>, switched off by the source) is left out.

  \<open>guard_run\<close> drives a guard through any interleaving of the four operations;
  \<open>guard_refines_rw_exclusion\<close> compares it with the specification it stands for, a table
  of who reads and writes.
\<close>

section \<open>The counter\<close>

type_synonym access_guard = int

definition guard_start_writing :: "access_guard \<Rightarrow> access_guard res" where
  "guard_start_writing g = assertR (g = 0) (Inr (g - 1))"

definition guard_stop_writing :: "access_guard \<Rightarrow> access_guard res" where
  "guard_stop_writing g = (let g' = g + 1 in assertR (g' = 0) (Inr g'))"

definition guard_start_reading :: "access_guard \<Rightarrow> access_guard res" where
  "guard_start_reading g = assertR (g \<ge> 0) (Inr (g + 1))"

definition guard_stop_reading :: "access_guard \<Rightarrow> access_guard res" where
  "guard_stop_reading g = (let g' = g - 1 in assertR (g' \<ge> 0) (Inr g'))"

definition guard_is_free :: "access_guard \<Rightarrow> bool" where
  "guard_is_free g \<longleftrightarrow> g = 0"

definition guard_copy :: "access_guard \<Rightarrow> access_guard res" where
  "guard_copy other = assertR (other = 0) (Inr 0)"

lemmas guard_defs [ion_defs] = guard_start_writing_def guard_stop_writing_def guard_start_reading_def
  guard_stop_reading_def guard_is_free_def guard_copy_def

section \<open>Exclusion of readers and writers\<close>

datatype guard_op = StartWrite | StopWrite | StartRead | StopRead

fun guard_do :: "guard_op \<Rightarrow> access_guard \<Rightarrow> access_guard res" where
  "guard_do StartWrite g = guard_start_writing g"
| "guard_do StopWrite g = guard_stop_writing g"
| "guard_do StartRead g = guard_start_reading g"
| "guard_do StopRead g = guard_stop_reading g"

fun guard_run :: "guard_op list \<Rightarrow> access_guard \<Rightarrow> access_guard res" where
  "guard_run [] g = Inr g"
| "guard_run (e # es) g = bindR (guard_do e g) (guard_run es)"

text \<open>
  The specification: \<open>w\<close> blocks write and \<open>r\<close> blocks read.  A step is legal when the new
  block conflicts with none that is open, or when the block it closes is open.
\<close>

fun rw_step :: "guard_op \<Rightarrow> nat \<times> nat \<Rightarrow> (nat \<times> nat) option" where
  "rw_step StartWrite (w, r) = (if w = 0 \<and> r = 0 then Some (1, 0) else None)"
| "rw_step StopWrite (w, r) = (if w > 0 then Some (w - 1, r) else None)"
| "rw_step StartRead (w, r) = (if w = 0 then Some (w, Suc r) else None)"
| "rw_step StopRead (w, r) = (if r > 0 then Some (w, r - 1) else None)"

fun rw_run :: "guard_op list \<Rightarrow> nat \<times> nat \<Rightarrow> (nat \<times> nat) option" where
  "rw_run [] s = Some s"
| "rw_run (e # es) s = (case rw_step e s of None \<Rightarrow> None | Some s' \<Rightarrow> rw_run es s')"

definition rw_ok :: "nat \<times> nat \<Rightarrow> bool" where
  "rw_ok s \<longleftrightarrow> fst s \<le> 1 \<and> (fst s = 0 \<or> snd s = 0)"

definition rw_value :: "nat \<times> nat \<Rightarrow> int" where
  "rw_value s = int (snd s) - int (fst s)"

lemma guard_do_refines:
  "rw_ok s \<Longrightarrow> guard_do e (rw_value s) =
    (case rw_step e s of None \<Rightarrow> Inl AssertFail | Some s' \<Rightarrow> Inr (rw_value s'))"
  by (cases e; cases s)
    (auto simp: rw_ok_def rw_value_def guard_defs assertR_def Let_def)

lemma rw_step_ok: "rw_ok s \<Longrightarrow> rw_step e s = Some s' \<Longrightarrow> rw_ok s'"
  by (cases e; cases s) (auto simp: rw_ok_def split: if_splits)

lemma guard_run_refines:
  "rw_ok s \<Longrightarrow> guard_run es (rw_value s) =
    (case rw_run es s of None \<Rightarrow> Inl AssertFail | Some s' \<Rightarrow> Inr (rw_value s'))"
  by (induction es arbitrary: s)
    (auto simp: guard_do_refines rw_step_ok split: option.splits)

lemma rw_run_ok: "rw_ok s \<Longrightarrow> rw_run es s = Some s' \<Longrightarrow> rw_ok s'"
  by (induction es arbitrary: s) (auto dest: rw_step_ok split: option.splits)

section \<open>Properties\<close>

text \<open>
  Through any interleaving of guarded blocks, an \<open>AccessGuard\<close> fails a check exactly
  when some block would open or close against the single-writer/multiple-readers rule;
  until then at most one block writes, none reads beside it, and the counter tells the
  state apart (-1 a writer, 0 free, otherwise the number of readers).
\<close>

theorem guard_refines_rw_exclusion:
  "guard_run es 0 = (case rw_run es (0, 0) of
      None \<Rightarrow> Inl AssertFail
    | Some (w, r) \<Rightarrow> Inr (if w > 0 then - 1 else int r)) \<and>
    (case rw_run es (0, 0) of None \<Rightarrow> True | Some (w, r) \<Rightarrow> w = 0 \<or> w = 1 \<and> r = 0)"
proof -
  have ok: "rw_ok (0, 0)" and v: "rw_value (0, 0) = 0" by (simp_all add: rw_ok_def rw_value_def)
  show ?thesis
  proof (cases "rw_run es (0, 0)")
    case None
    then show ?thesis using guard_run_refines [OF ok, of es] v by simp
  next
    case (Some s)
    obtain w r where s: "s = (w, r)" by (cases s)
    have "w \<le> 1" "w = 0 \<or> r = 0" using rw_run_ok [OF ok Some] by (simp_all add: s rw_ok_def)
    then show ?thesis using guard_run_refines [OF ok, of es] v Some s by (auto simp: rw_value_def)
  qed
qed

end
