(* ===== verification/Queues.thy ===== *)
theory Queues
  imports DynamicRings AccessGuards "HOL-Library.Sublist"
begin

text \<open>
  \<^verbatim>\<open>ion/concurrency/SPSCQueue.h\<close> and \<^verbatim>\<open>ion/concurrency/MPSCQueue.h\<close> in the build
  that uses the repository's own containers (\<^verbatim>\<open>ION_EXTERNAL_SPSC_QUEUE\<close> off; the other
  branch only calls a third-party queue, and \<^verbatim>\<open>MPSC_IS_LOCK_FREE\<close> is 0 in the source).

  An \<open>spsc\<close> is a deque behind a mutex with two access guards; an \<open>mpsc\<close> adds a
  mutex for the writers and a guard for the reader, a \<open>counted\<close> an atomic size.  Each
  method is a list of instructions in the order the code performs them, the guards' and
  mutexes' scopes written out; \<open>exec\<close> is one instruction.  The same lists are run by one
  thread to the end (\<open>run\<close>) and interleaved by any number of threads (\<open>mstep\<close>).
\<close>

section \<open>State\<close>

record 'a spsc =
  sq_data :: "'a deque"
  sq_mutex :: bool
  sq_write_guard :: access_guard
  sq_read_guard :: access_guard

record 'a mpsc = "'a spsc" +
  mq_mutex :: bool
  mq_read_guard :: access_guard

record 'a counted = "'a mpsc" +
  cq_size :: "64 word"

definition counted_new :: "'a counted" where
  "counted_new = \<lparr>sq_data = [], sq_mutex = False, sq_write_guard = 0, sq_read_guard = 0,
     mq_mutex = False, mq_read_guard = 0, cq_size = 0\<rparr>"

text \<open>The local variables of a call: the out-parameter, the flag it returns, and the items
  handed to the callback so far.\<close>

record 'a worker =
  wk_item :: "'a option"
  wk_found :: bool
  wk_seen :: "'a list"

definition worker_new :: "'a worker" where
  "worker_new = \<lparr>wk_item = None, wk_found = False, wk_seen = []\<rparr>"

section \<open>Instructions\<close>

datatype mutex_id = Inner | Outer

datatype guard_id = WriteGuard | ReadGuard | ConsumerGuard

datatype loop_id = MpscLoop | CountedLoop

datatype 'a instr =
    IStart guard_id
  | IStop guard_id
  | ILock mutex_id
  | IUnlock mutex_id
  | ISetFound bool
  | IPushFront 'a
  | ITake
  | ITest
  | IIncSize
  | IDecSize
  | IAgain loop_id

definition spsc_enqueue :: "'a \<Rightarrow> 'a instr list" where
  "spsc_enqueue x = [IStart WriteGuard, ILock Inner, IPushFront x, IUnlock Inner, ISetFound True, IStop WriteGuard]"

definition spsc_dequeue :: "'a instr list" where
  "spsc_dequeue = [IStart ReadGuard, ISetFound False, ILock Inner, ITake, IUnlock Inner, IStop ReadGuard]"

definition spsc_has_items :: "'a instr list" where
  "spsc_has_items = [IStart ReadGuard, IStart WriteGuard, ISetFound False, ILock Inner, ITest, IUnlock Inner,
     IStop WriteGuard, IStop ReadGuard]"

definition mpsc_enqueue :: "'a \<Rightarrow> 'a instr list" where
  "mpsc_enqueue x = ILock Outer # spsc_enqueue x @ [IUnlock Outer]"

definition mpsc_dequeue :: "'a instr list" where
  "mpsc_dequeue = IStart ConsumerGuard # spsc_dequeue @ [IStop ConsumerGuard]"

definition mpsc_has_items :: "'a instr list" where
  "mpsc_has_items = ILock Outer # spsc_has_items @ [IUnlock Outer]"

definition counted_enqueue :: "'a \<Rightarrow> 'a instr list" where
  "counted_enqueue x = IIncSize # mpsc_enqueue x"

definition counted_dequeue :: "'a instr list" where
  "counted_dequeue = mpsc_dequeue @ [IDecSize]"

text \<open>\<open>while (Dequeue(tmp)) func(tmp)\<close>: \<open>IAgain\<close> calls back and goes round when the last
  \<open>Dequeue\<close> found an item.\<close>

definition mpsc_dequeue_all :: "'a instr list" where
  "mpsc_dequeue_all = IStart ConsumerGuard # spsc_dequeue @ [IAgain MpscLoop, IStop ConsumerGuard]"

definition counted_dequeue_all :: "'a instr list" where
  "counted_dequeue_all = counted_dequeue @ [IAgain CountedLoop]"

fun loop_body :: "loop_id \<Rightarrow> 'a instr list" where
  "loop_body MpscLoop = spsc_dequeue @ [IAgain MpscLoop]"
| "loop_body CountedLoop = counted_dequeue @ [IAgain CountedLoop]"

lemmas prog_defs [ion_defs] = spsc_enqueue_def spsc_dequeue_def spsc_has_items_def mpsc_enqueue_def mpsc_dequeue_def
  mpsc_has_items_def counted_enqueue_def counted_dequeue_def mpsc_dequeue_all_def counted_dequeue_all_def

section \<open>One instruction\<close>

fun lock_of :: "mutex_id \<Rightarrow> 'a counted \<Rightarrow> bool" where
  "lock_of Inner q = sq_mutex q"
| "lock_of Outer q = mq_mutex q"

fun set_lock :: "mutex_id \<Rightarrow> bool \<Rightarrow> 'a counted \<Rightarrow> 'a counted" where
  "set_lock Inner b q = q\<lparr>sq_mutex := b\<rparr>"
| "set_lock Outer b q = q\<lparr>mq_mutex := b\<rparr>"

fun guard_of :: "guard_id \<Rightarrow> 'a counted \<Rightarrow> access_guard" where
  "guard_of WriteGuard q = sq_write_guard q"
| "guard_of ReadGuard q = sq_read_guard q"
| "guard_of ConsumerGuard q = mq_read_guard q"

fun set_guard :: "guard_id \<Rightarrow> access_guard \<Rightarrow> 'a counted \<Rightarrow> 'a counted" where
  "set_guard WriteGuard v q = q\<lparr>sq_write_guard := v\<rparr>"
| "set_guard ReadGuard v q = q\<lparr>sq_read_guard := v\<rparr>"
| "set_guard ConsumerGuard v q = q\<lparr>mq_read_guard := v\<rparr>"

text \<open>
  \<open>None\<close>: the thread waits for the mutex.  Otherwise the instruction fails a check or
  yields the instructions to run before the rest of the program (only \<open>IAgain\<close> has any)
  and the new state.
\<close>

fun exec :: "'a instr \<Rightarrow> 'a counted \<Rightarrow> 'a worker \<Rightarrow> ('a instr list \<times> 'a counted \<times> 'a worker) res option" where
  "exec (IStart g) q w = Some (bindR (guard_start_writing (guard_of g q)) (\<lambda>v. Inr ([], set_guard g v q, w)))"
| "exec (IStop g) q w = Some (bindR (guard_stop_writing (guard_of g q)) (\<lambda>v. Inr ([], set_guard g v q, w)))"
| "exec (ILock m) q w = (if lock_of m q then None else Some (Inr ([], set_lock m True q, w)))"
| "exec (IUnlock m) q w = Some (Inr ([], set_lock m False q, w))"
| "exec (ISetFound b) q w = Some (Inr ([], q, w\<lparr>wk_found := b\<rparr>))"
| "exec (IPushFront x) q w = Some (Inr ([], q\<lparr>sq_data := dq_push_front x (sq_data q)\<rparr>, w))"
| "exec ITake q w = Some (if \<not> dq_is_empty (sq_data q)
     then bindR (dq_back (sq_data q)) (\<lambda>x. bindR (dq_pop_back (sq_data q)) (\<lambda>d.
       Inr ([], q\<lparr>sq_data := d\<rparr>, w\<lparr>wk_item := Some x, wk_found := True\<rparr>)))
     else Inr ([], q, w))"
| "exec ITest q w = Some (Inr ([], q, w\<lparr>wk_found := (\<not> dq_is_empty (sq_data q))\<rparr>))"
| "exec IIncSize q w = Some (Inr ([], q\<lparr>cq_size := cq_size q + 1\<rparr>, w))"
| "exec IDecSize q w = Some (Inr ([], (if wk_found w then q\<lparr>cq_size := cq_size q - 1\<rparr> else q), w))"
| "exec (IAgain l) q w = Some (Inr (if wk_found w
     then (loop_body l, q, w\<lparr>wk_seen := wk_seen w @ (case wk_item w of None \<Rightarrow> [] | Some x \<Rightarrow> [x])\<rparr>)
     else ([], q, w)))"

section \<open>One thread\<close>

text \<open>A program run to its end by the only thread; \<open>None\<close> when the fuel runs out or the
  thread waits for a mutex nobody will release.\<close>

fun run :: "nat \<Rightarrow> 'a instr list \<Rightarrow> 'a counted \<Rightarrow> 'a worker \<Rightarrow> ('a counted \<times> 'a worker) res option" where
  "run n [] q w = Some (Inr (q, w))"
| "run 0 (i # p) q w = None"
| "run (Suc n) (i # p) q w = (case exec i q w of
      None \<Rightarrow> None
    | Some (Inl e) \<Rightarrow> Some (Inl e)
    | Some (Inr (l, q', w')) \<Rightarrow> run n (l @ p) q' w')"

definition counted_idle :: "'a counted \<Rightarrow> bool" where
  "counted_idle q \<longleftrightarrow> \<not> sq_mutex q \<and> \<not> mq_mutex q \<and> sq_write_guard q = 0 \<and> sq_read_guard q = 0 \<and>
     mq_read_guard q = 0 \<and> cq_size q = of_nat (length (sq_data q))"

text \<open>The queue as a sequence, oldest first.\<close>

definition queue_view :: "'a counted \<Rightarrow> 'a list" where
  "queue_view q = rev (sq_data q)"

definition counted_push :: "'a \<Rightarrow> 'a counted \<Rightarrow> 'a counted res" where
  "counted_push x q = (case run 9 (counted_enqueue x) q worker_new of
      Some (Inr (q', w)) \<Rightarrow> Inr q' | Some (Inl e) \<Rightarrow> Inl e | None \<Rightarrow> Inl BadAccess)"

definition counted_take :: "'a counted \<Rightarrow> ('a \<times> 'a counted) res" where
  "counted_take q = (case run 9 counted_dequeue q worker_new of
      Some (Inr (q', w)) \<Rightarrow> (case wk_item w of Some x \<Rightarrow> Inr (x, q') | None \<Rightarrow> Inl AssertFail)
    | Some (Inl e) \<Rightarrow> Inl e | None \<Rightarrow> Inl BadAccess)"

lemma run_enqueue:
  assumes "counted_idle q"
  shows "run (9 + n) (counted_enqueue x @ p) q w =
    run n p (q\<lparr>sq_data := x # sq_data q, cq_size := cq_size q + 1\<rparr>) (w\<lparr>wk_found := True\<rparr>)"
  using assms by (cases q)
    (simp add: numeral_eq_Suc prog_defs counted_idle_def guard_defs dq_defs)

lemma run_dequeue_some:
  assumes "counted_idle q" "sq_data q = ys @ [y]"
  shows "run (9 + n) (counted_dequeue @ p) q w =
    run n p (q\<lparr>sq_data := ys, cq_size := cq_size q - 1\<rparr>) (w\<lparr>wk_item := Some y, wk_found := True\<rparr>)"
  using assms by (cases q)
    (simp add: numeral_eq_Suc prog_defs counted_idle_def guard_defs dq_defs)

lemma run_dequeue_none:
  assumes "counted_idle q" "sq_data q = []"
  shows "run (9 + n) (counted_dequeue @ p) q w = run n p q (w\<lparr>wk_found := False\<rparr>)"
  using assms by (cases q; cases w)
    (simp add: numeral_eq_Suc prog_defs counted_idle_def guard_defs dq_defs)

lemma counted_push_ok:
  assumes "counted_idle q"
  shows "counted_push x q = Inr (q\<lparr>sq_data := x # sq_data q, cq_size := cq_size q + 1\<rparr>)"
  using run_enqueue [OF assms, of 0 x "[]"] by (simp add: counted_push_def)

lemma counted_take_ok:
  assumes "counted_idle q" "sq_data q = ys @ [y]"
  shows "counted_take q = Inr (y, q\<lparr>sq_data := ys, cq_size := cq_size q - 1\<rparr>)"
  using run_dequeue_some [OF assms, of 0 "[]"] by (simp add: counted_take_def worker_new_def)

interpretation cq: fifo_buffer counted_idle queue_view "\<lambda>_ _. True" counted_push counted_take
proof
  fix s :: "'a counted" and k and x :: 'a
  assume "counted_idle s"
  then show "\<exists>s'. counted_push x s = Inr s' \<and> counted_idle s' \<and> queue_view s' = queue_view s @ [x] \<and> True"
    by (simp add: counted_push_ok) (simp add: counted_idle_def queue_view_def)
next
  fix s :: "'a counted" and x :: 'a and xs
  assume s: "counted_idle s" "queue_view s = x # xs"
  then have d: "sq_data s = rev xs @ [x]"
    by (simp add: queue_view_def rev_swap)
  then show "\<exists>s'. counted_take s = Inr (x, s') \<and> counted_idle s' \<and> queue_view s' = xs"
    using s(1) by (simp add: counted_take_ok) (simp add: counted_idle_def queue_view_def)
qed

lemma run_dequeue_all:
  assumes "counted_idle q" "length (sq_data q) = k"
  shows "\<exists>q' w'. run (10 * Suc k + n) counted_dequeue_all q w = Some (Inr (q', w')) \<and>
    counted_idle q' \<and> sq_data q' = [] \<and> wk_seen w' = wk_seen w @ queue_view q"
  using assms
proof (induction k arbitrary: q w)
  case 0
  have "run (10 * Suc 0 + n) counted_dequeue_all q w = run (9 + (Suc n)) (counted_dequeue @ [IAgain CountedLoop]) q w"
    by (simp add: counted_dequeue_all_def)
  also have "\<dots> = Some (Inr (q, w\<lparr>wk_found := False\<rparr>))"
    using 0 by (subst run_dequeue_none) simp_all
  finally show ?case
    using 0 by (simp add: queue_view_def)
next
  case (Suc k)
  obtain ys y where d: "sq_data q = ys @ [y]"
    using Suc.prems(2) by (metis length_0_conv nat.distinct(1) rev_exhaust)
  let ?q = "q\<lparr>sq_data := ys, cq_size := cq_size q - 1\<rparr>"
  let ?w = "w\<lparr>wk_item := Some y, wk_found := True, wk_seen := wk_seen w @ [y]\<rparr>"
  have "run (9 + Suc m) counted_dequeue_all q w = run m counted_dequeue_all ?q ?w" for m
    using run_dequeue_some [OF Suc.prems(1) d, of "Suc m" "[IAgain CountedLoop]" w]
    by (simp add: counted_dequeue_all_def)
  from this [of "10 * Suc k + n"]
  have r: "run (10 * Suc (Suc k) + n) counted_dequeue_all q w = run (10 * Suc k + n) counted_dequeue_all ?q ?w"
    by (simp add: add.assoc)
  have "counted_idle ?q" "length (sq_data ?q) = k"
    using Suc.prems d by (simp_all add: counted_idle_def)
  from Suc.IH [OF this, of ?w] show ?case
    unfolding r by (simp add: queue_view_def d)
qed

section \<open>Any number of threads\<close>

text \<open>
  The calls a thread may make, each with its program.  \<open>client t c\<close> says that thread \<open>t\<close>
  makes calls of the form \<open>c\<close>; the guards in the code demand one consumer.
\<close>

datatype 'a call = MEnqueue 'a | MDequeue | MDequeueAll | MHasItems
  | CEnqueue 'a | CDequeue | CDequeueAll

fun prog_of :: "'a call \<Rightarrow> 'a instr list" where
  "prog_of (MEnqueue x) = mpsc_enqueue x"
| "prog_of MDequeue = mpsc_dequeue"
| "prog_of MDequeueAll = mpsc_dequeue_all"
| "prog_of MHasItems = mpsc_has_items"
| "prog_of (CEnqueue x) = counted_enqueue x"
| "prog_of CDequeue = counted_dequeue"
| "prog_of CDequeueAll = counted_dequeue_all"

record 'a system =
  sys_queue :: "'a counted"
  sys_prog :: "nat \<Rightarrow> 'a instr list"
  sys_worker :: "nat \<Rightarrow> 'a worker"

definition system_new :: "'a system" where
  "system_new = \<lparr>sys_queue = counted_new, sys_prog = (\<lambda>_. []), sys_worker = (\<lambda>_. worker_new)\<rparr>"

datatype 'a event = Called "'a call" | Pushed 'a | Took 'a | Missed | Tested bool | Silent | Failed

fun event_of :: "'a instr \<Rightarrow> 'a counted \<Rightarrow> 'a event" where
  "event_of (IPushFront x) q = Pushed x"
| "event_of ITake q = (if sq_data q = [] then Missed else Took (last (sq_data q)))"
| "event_of ITest q = Tested (sq_data q \<noteq> [])"
| "event_of _ q = Silent"

text \<open>
  A step: a thread without a program begins a call, or one with a program executes its
  next instruction; one that waits for a mutex takes no step.  A failed check is the event
  \<open>Failed\<close>.
\<close>

inductive mstep :: "(nat \<Rightarrow> 'a call \<Rightarrow> bool) \<Rightarrow> 'a system \<Rightarrow> nat \<times> 'a event \<Rightarrow> 'a system \<Rightarrow> bool"
  for client :: "nat \<Rightarrow> 'a call \<Rightarrow> bool" where
  Begin: "sys_prog s t = [] \<Longrightarrow> client t c \<Longrightarrow>
    mstep client s (t, Called c) (s\<lparr>sys_prog := (sys_prog s)(t := prog_of c)\<rparr>)"
| Execute: "sys_prog s t = i # p \<Longrightarrow> exec i (sys_queue s) (sys_worker s t) = Some (Inr (l, q, w)) \<Longrightarrow>
    mstep client s (t, event_of i (sys_queue s))
      \<lparr>sys_queue = q, sys_prog = (sys_prog s)(t := l @ p), sys_worker = (sys_worker s)(t := w)\<rparr>"
| Fail: "sys_prog s t = i # p \<Longrightarrow> exec i (sys_queue s) (sys_worker s t) = Some (Inl e) \<Longrightarrow>
    mstep client s (t, Failed) s"

inductive msteps :: "(nat \<Rightarrow> 'a call \<Rightarrow> bool) \<Rightarrow> 'a system \<Rightarrow> (nat \<times> 'a event) list \<Rightarrow> 'a system \<Rightarrow> bool"
  for client :: "nat \<Rightarrow> 'a call \<Rightarrow> bool" where
  Start: "msteps client s [] s"
| Step: "msteps client s tr s' \<Longrightarrow> mstep client s' ev s'' \<Longrightarrow> msteps client s (tr @ [ev]) s''"

inductive_cases mstep_cases: "mstep client s ev s'"

code_pred (modes: i \<Rightarrow> i \<Rightarrow> i \<Rightarrow> o \<Rightarrow> bool) mstep .

fun pushes :: "(nat \<times> 'a event) list \<Rightarrow> 'a list" where
  "pushes [] = []"
| "pushes ((t, Pushed x) # tr) = x # pushes tr"
| "pushes (_ # tr) = pushes tr"

fun takes :: "(nat \<times> 'a event) list \<Rightarrow> 'a list" where
  "takes [] = []"
| "takes ((t, Took x) # tr) = x # takes tr"
| "takes (_ # tr) = takes tr"

lemma pushes_append: "pushes (tr @ tr') = pushes tr @ pushes tr'"
  by (induction tr rule: pushes.induct) auto

lemma takes_append: "takes (tr @ tr') = takes tr @ takes tr'"
  by (induction tr rule: takes.induct) auto

text \<open>What one instruction does to the items.\<close>

lemma exec_items:
  assumes "exec i q w = Some (Inr (l, q', w'))"
  shows "sq_data q' = (case event_of i q of Pushed x \<Rightarrow> x # sq_data q | Took x \<Rightarrow> butlast (sq_data q) | _ \<Rightarrow> sq_data q)"
proof -
  have g: "sq_data (set_guard g v q) = sq_data q" "sq_data (set_lock m b q) = sq_data q" for g v m b
    by (cases g; simp) (cases m; simp)
  show ?thesis
    using assms by (cases i) (auto simp: g dq_defs bindR_eq_Inr split: if_splits)
qed

lemma event_took: "event_of i q = Took x \<Longrightarrow> sq_data q \<noteq> [] \<and> x = last (sq_data q)"
  by (cases i) (auto split: if_splits)

lemma event_of_neq [simp]: "event_of i q \<noteq> Called c" "event_of i q \<noteq> Failed"
  by (cases i; simp)+

lemma queue_history:
  assumes "msteps client s tr s'" "s = system_new"
  shows "pushes tr = takes tr @ queue_view (sys_queue s')"
  using assms
proof (induction rule: msteps.induct)
  case (Start s)
  then show ?case by (simp add: system_new_def counted_new_def queue_view_def)
next
  case (Step s tr s' ev s'')
  from Step.hyps(2) show ?case
  proof (cases rule: mstep.cases)
    case (Execute t i p l q w)
    have d: "sq_data q = (case event_of i (sys_queue s') of Pushed x \<Rightarrow> x # sq_data (sys_queue s')
        | Took x \<Rightarrow> butlast (sq_data (sys_queue s')) | _ \<Rightarrow> sq_data (sys_queue s'))"
      using exec_items [OF Execute(4)] by simp
    have ih: "pushes tr = takes tr @ rev (sq_data (sys_queue s'))"
      using Step by (simp add: queue_view_def)
    show ?thesis
    proof (cases "event_of i (sys_queue s')")
      case (Took x)
      then have "rev (sq_data (sys_queue s')) = x # rev (butlast (sq_data (sys_queue s')))"
        using event_took [OF Took] by (metis append_butlast_last_id rev_eq_Cons_iff rev_rev_ident)
      then show ?thesis
        using Took d ih Execute by (simp add: pushes_append takes_append queue_view_def)
    qed (use d ih Execute in \<open>simp_all add: pushes_append takes_append queue_view_def\<close>)
  qed (use Step in \<open>simp_all add: pushes_append takes_append queue_view_def\<close>)
qed

section \<open>Who holds what\<close>

text \<open>\<open>pending cl op p\<close>: what \<open>p\<close> still has to do closes a scope that is open now.\<close>

fun pending :: "('i \<Rightarrow> bool) \<Rightarrow> ('i \<Rightarrow> bool) \<Rightarrow> 'i list \<Rightarrow> bool" where
  "pending cl opn [] = False"
| "pending cl opn (i # p) = (cl i \<or> \<not> opn i \<and> pending cl opn p)"

abbreviation holds :: "mutex_id \<Rightarrow> 'a instr list \<Rightarrow> bool" where
  "holds m \<equiv> pending (\<lambda>i. i = IUnlock m) (\<lambda>i. i = ILock m)"

abbreviation inside :: "guard_id \<Rightarrow> 'a instr list \<Rightarrow> bool" where
  "inside g \<equiv> pending (\<lambda>i. i = IStop g) (\<lambda>i. i = IStart g)"

fun touches_items :: "'a instr list \<Rightarrow> bool" where
  "touches_items (IPushFront x # p) = True"
| "touches_items (ITake # p) = True"
| "touches_items (ITest # p) = True"
| "touches_items p = False"

fun is_consumer_instr :: "'a instr \<Rightarrow> bool" where
  "is_consumer_instr (IStart g) = (g \<noteq> WriteGuard)"
| "is_consumer_instr (IStop g) = (g \<noteq> WriteGuard)"
| "is_consumer_instr (IAgain l) = True"
| "is_consumer_instr _ = False"

definition legal :: "'a instr list \<Rightarrow> bool" where
  "legal p \<longleftrightarrow> (\<exists>c. suffix p (prog_of c))"

lemma legal_prog_of [simp]: "legal (prog_of c)"
  by (auto simp: legal_def)

lemma legal_Nil [simp]: "legal []"
  by (auto simp: legal_def)

lemma legal_Cons: "legal (i # p) \<Longrightarrow> legal p"
  by (auto simp: legal_def dest: suffix_ConsD)

lemma legalE:
  assumes "legal p" "\<And>c. suffix p (prog_of c) \<Longrightarrow> P"
  shows P
  using assms by (auto simp: legal_def)

lemma legal_items: "legal p \<Longrightarrow> touches_items p \<Longrightarrow> holds Inner p"
  by (elim legalE; rename_tac c; case_tac c) (auto simp: prog_defs suffix_Cons)

lemma legal_lock: "legal (ILock m # p) \<Longrightarrow> holds m p"
  by (elim legalE; rename_tac c; case_tac c; cases m) (auto simp: prog_defs suffix_Cons)

lemma legal_unlock: "legal (IUnlock m # p) \<Longrightarrow> \<not> holds m p"
  by (elim legalE; rename_tac c; case_tac c; cases m) (auto simp: prog_defs suffix_Cons)

lemma legal_start: "legal (IStart g # p) \<Longrightarrow> inside g p"
  by (elim legalE; rename_tac c; case_tac c; cases g) (auto simp: prog_defs suffix_Cons)

lemma legal_stop: "legal (IStop g # p) \<Longrightarrow> \<not> inside g p"
  by (elim legalE; rename_tac c; case_tac c; cases g) (auto simp: prog_defs suffix_Cons)

lemma legal_write_guard: "legal p \<Longrightarrow> inside WriteGuard p \<Longrightarrow> holds Outer p"
  by (elim legalE; rename_tac c; case_tac c) (auto simp: prog_defs suffix_Cons)

lemma legal_start_write: "legal (IStart WriteGuard # p) \<Longrightarrow> holds Outer p"
  by (elim legalE; rename_tac c; case_tac c) (auto simp: prog_defs suffix_Cons)

lemma legal_lock_order: "legal (ILock Outer # p) \<Longrightarrow> \<not> holds Inner p"
  by (elim legalE; rename_tac c; case_tac c) (auto simp: prog_defs suffix_Cons)

lemma legal_again:
  assumes "legal (IAgain l # p)"
  shows "legal (loop_body l @ p) \<and> holds m (loop_body l @ p) = holds m p \<and> inside g (loop_body l @ p) = inside g p"
proof -
  have "l = MpscLoop \<and> p = [IStop ConsumerGuard] \<or> l = CountedLoop \<and> p = []"
    using assms by (elim legalE; rename_tac c; case_tac c) (auto simp: prog_defs suffix_Cons)
  moreover have "legal (spsc_dequeue @ [IAgain MpscLoop, IStop ConsumerGuard])"
    unfolding legal_def by (rule exI [of _ MDequeueAll]) (simp add: mpsc_dequeue_all_def suffix_ConsI)
  moreover have "legal (counted_dequeue @ [IAgain CountedLoop])"
    unfolding legal_def by (rule exI [of _ CDequeueAll]) (simp add: counted_dequeue_all_def)
  ultimately show ?thesis
    by (cases m; cases g) (auto simp: prog_defs)
qed

lemma inside_consumer: "inside g p \<Longrightarrow> g \<noteq> WriteGuard \<Longrightarrow> \<exists>i\<in>set p. is_consumer_instr i"
  by (induction p) auto

text \<open>\<open>exclusive b P\<close>: exactly one thread satisfies \<open>P\<close> when \<open>b\<close>, none otherwise.\<close>

definition exclusive :: "bool \<Rightarrow> (nat \<Rightarrow> bool) \<Rightarrow> bool" where
  "exclusive b P \<longleftrightarrow> (if b then \<exists>t. \<forall>t'. P t' \<longleftrightarrow> t' = t else \<forall>t. \<not> P t)"

lemma exclusive_enter: "exclusive False P \<Longrightarrow> exclusive True (P(t := True))"
  by (auto simp: exclusive_def)

lemma exclusive_leave: "exclusive b P \<Longrightarrow> P t \<Longrightarrow> exclusive False (P(t := False))"
  by (auto simp: exclusive_def split: if_splits)

lemma exclusive_stay: "exclusive b P \<Longrightarrow> P t = v \<Longrightarrow> exclusive b (P(t := v))"
  by (simp add: fun_upd_idem)

lemma exclusive_same: "exclusive b P \<Longrightarrow> P t \<Longrightarrow> P t' \<Longrightarrow> t = t'"
  by (auto simp: exclusive_def split: if_splits)

lemma exclusive_True: "exclusive b P \<Longrightarrow> P t \<Longrightarrow> b"
  by (auto simp: exclusive_def split: if_splits)

lemma exclusive_obtain:
  assumes "exclusive True P"
  obtains t where "P t"
  using assms by (auto simp: exclusive_def)

definition sys_inv :: "nat \<Rightarrow> 'a system \<Rightarrow> bool" where
  "sys_inv consumer s \<longleftrightarrow>
     (\<forall>t. legal (sys_prog s t) \<and> ((\<exists>i\<in>set (sys_prog s t). is_consumer_instr i) \<longrightarrow> t = consumer)) \<and>
     (\<forall>m. exclusive (lock_of m (sys_queue s)) (\<lambda>t. holds m (sys_prog s t))) \<and>
     (\<forall>g. exclusive (guard_of g (sys_queue s) \<noteq> 0) (\<lambda>t. inside g (sys_prog s t)) \<and>
       guard_of g (sys_queue s) \<in> {0, -1})"

lemma sys_inv_new: "sys_inv c system_new"
proof -
  have "lock_of m counted_new = False" "guard_of g counted_new = 0" for m g
    by (cases m; simp add: counted_new_def) (cases g; simp add: counted_new_def)
  then have "\<forall>m. \<not> lock_of m (counted_new :: 'a counted)" "\<forall>g. guard_of g (counted_new :: 'a counted) = 0"
    by blast+
  then show ?thesis
    by (simp add: sys_inv_def system_new_def exclusive_def)
qed

lemma sys_invD:
  assumes "sys_inv c s"
  shows "legal (sys_prog s t)" "\<exists>i\<in>set (sys_prog s t). is_consumer_instr i \<Longrightarrow> t = c"
    "exclusive (lock_of m (sys_queue s)) (\<lambda>t. holds m (sys_prog s t))"
    "exclusive (guard_of g (sys_queue s) \<noteq> 0) (\<lambda>t. inside g (sys_prog s t))"
    "guard_of g (sys_queue s) \<noteq> 0 \<Longrightarrow> guard_of g (sys_queue s) = -1"
  using assms by (auto simp: sys_inv_def)

text \<open>A guard that a thread is about to take is free: two takers would be the same thread.\<close>

lemma guard_free:
  assumes inv: "sys_inv c s" and t: "sys_prog s t = IStart g # p"
  shows "guard_of g (sys_queue s) = 0"
proof (rule ccontr)
  assume "guard_of g (sys_queue s) \<noteq> 0"
  then have "exclusive True (\<lambda>t. inside g (sys_prog s t))"
    using sys_invD(4) [OF inv, of g] by simp
  then obtain t' where t': "inside g (sys_prog s t')"
    by (rule exclusive_obtain)
  have leg: "legal (IStart g # p)" using sys_invD(1) [OF inv, of t] t by simp
  have "t' = t"
  proof (cases "g = WriteGuard")
    case True
    have "holds Outer (sys_prog s t')"
      using legal_write_guard sys_invD(1) [OF inv] t' True by blast
    moreover have "holds Outer (sys_prog s t)"
      using legal_start_write [of p] leg t True by simp
    ultimately show ?thesis
      using exclusive_same [OF sys_invD(3) [OF inv, of Outer]] by blast
  next
    case False
    then have "is_consumer_instr (IStart g)" by simp
    then have "\<exists>i\<in>set (sys_prog s t). is_consumer_instr i" using t by (metis list.set_intros(1))
    then have "t = c" by (rule sys_invD(2) [OF inv])
    moreover have "t' = c"
      using inside_consumer [OF t' False] by (rule sys_invD(2) [OF inv])
    ultimately show ?thesis by simp
  qed
  then show False using t t' by simp
qed

lemma guard_taken:
  assumes inv: "sys_inv c s" and t: "sys_prog s t = IStop g # p"
  shows "guard_of g (sys_queue s) = -1"
proof -
  have "inside g (sys_prog s t)" using t by simp
  then have "guard_of g (sys_queue s) \<noteq> 0"
    using exclusive_True [OF sys_invD(4) [OF inv, of g], of t] by blast
  then show ?thesis by (rule sys_invD(5) [OF inv])
qed

lemma exec_no_fault:
  assumes "sys_inv c s" "sys_prog s t = i # p"
  shows "exec i (sys_queue s) w \<noteq> Some (Inl e)"
  using assms guard_free [OF assms(1)] guard_taken [OF assms(1)]
  by (cases i) (auto simp: guard_defs dq_defs)

lemma set_lock_lock: "lock_of m (set_lock m' b q) = (if m = m' then b else lock_of m q)"
  by (cases m; cases m') auto

lemma set_guard_guard: "guard_of g (set_guard g' v q) = (if g = g' then v else guard_of g q)"
  by (cases g; cases g') auto

lemma set_lock_guard [simp]: "guard_of g (set_lock m b q) = guard_of g q" "lock_of m (set_guard g v q) = lock_of m q"
  by (cases g; cases m; simp)+

lemma lock_of_upd [simp]:
  "lock_of m (sq_data_update f q) = lock_of m q" "lock_of m (cq_size_update h q) = lock_of m q"
  "guard_of g (sq_data_update f q) = guard_of g q" "guard_of g (cq_size_update h q) = guard_of g q"
  by (cases m; cases g; simp)+

lemma exec_locks:
  assumes "exec i q w = Some (Inr (l, q', w'))"
  shows "lock_of m q' = (if i = ILock m then True else if i = IUnlock m then False else lock_of m q)"
    "i = ILock m \<Longrightarrow> \<not> lock_of m q"
  using assms by (cases i; auto simp: set_lock_lock bindR_eq_Inr split: if_splits)+

lemma exec_guards:
  assumes "exec i q w = Some (Inr (l, q', w'))"
  shows "guard_of g q' = (if i = IStart g then -1 else if i = IStop g then 0 else guard_of g q)"
    "i = IStart g \<Longrightarrow> guard_of g q = 0"
  using assms
  by (cases i; auto simp: set_guard_guard bindR_eq_Inr guard_defs assertR_eq_Inr Let_def split: if_splits)+

lemma exec_prepends:
  assumes "exec i q w = Some (Inr (l, q', w'))"
  shows "l = [] \<or> (\<exists>k. i = IAgain k \<and> l = loop_body k)"
  using assms by (cases i) (auto simp: bindR_eq_Inr split: if_splits)

lemma exec_program:
  assumes x: "exec i q w = Some (Inr (l, q', w'))" and leg: "legal (i # p)"
  shows "legal (l @ p)"
    "holds m (l @ p) = (if i = ILock m then True else if i = IUnlock m then False else holds m (i # p))"
    "inside g (l @ p) = (if i = IStart g then True else if i = IStop g then False else inside g (i # p))"
proof -
  have "legal (l @ p) \<and>
    holds m (l @ p) = (if i = ILock m then True else if i = IUnlock m then False else holds m (i # p)) \<and>
    inside g (l @ p) = (if i = IStart g then True else if i = IStop g then False else inside g (i # p))"
    using exec_prepends [OF x]
  proof (elim disjE exE conjE)
    assume "l = []"
    then show ?thesis
      using leg legal_lock [of m p] legal_unlock [of m p] legal_start [of g p] legal_stop [of g p]
      by (auto dest: legal_Cons)
  next
    fix k assume "i = IAgain k" "l = loop_body k"
    then show ?thesis using legal_again [of k p m g] leg by simp
  qed
  then show "legal (l @ p)"
    "holds m (l @ p) = (if i = ILock m then True else if i = IUnlock m then False else holds m (i # p))"
    "inside g (l @ p) = (if i = IStart g then True else if i = IStop g then False else inside g (i # p))"
    by blast+
qed

lemma exclusive_step:
  assumes "exclusive b (\<lambda>t. H (prog t))" "prog t = p"
    and "(enter \<and> \<not> b \<and> b' \<and> H p') \<or> (leave \<and> H p \<and> \<not> b' \<and> \<not> H p') \<or> (b' = b \<and> H p' = H p)"
  shows "exclusive b' (\<lambda>t'. H ((prog(t := p')) t'))"
proof -
  have f: "(\<lambda>t'. H ((prog(t := p')) t')) = (\<lambda>t'. H (prog t'))(t := H p')"
    by auto
  show ?thesis
    using assms exclusive_enter [of "\<lambda>t. H (prog t)" t] exclusive_leave [OF assms(1), of t]
      exclusive_stay [OF assms(1), of t "H p'"]
    unfolding f by auto
qed

lemma sys_inv_execute:
  assumes inv: "sys_inv c s" and t: "sys_prog s t = i # p"
    and x: "exec i (sys_queue s) (sys_worker s t) = Some (Inr (l, q, w))"
  shows "sys_inv c \<lparr>sys_queue = q, sys_prog = (sys_prog s)(t := l @ p), sys_worker = (sys_worker s)(t := w)\<rparr>"
proof -
  have leg: "legal (i # p)" using sys_invD(1) [OF inv, of t] t by simp
  note pr = exec_program [OF x leg]
  have cons: "t = c" if "\<exists>j\<in>set (l @ p). is_consumer_instr j"
  proof -
    have "\<exists>j\<in>set (i # p). is_consumer_instr j"
      using exec_prepends [OF x] that by auto
    then show ?thesis using sys_invD(2) [OF inv, of t] t by simp
  qed
  have m: "exclusive (lock_of m q) (\<lambda>t'. holds m (((sys_prog s)(t := l @ p)) t'))" for m
  proof (rule exclusive_step [OF sys_invD(3) [OF inv] t, where enter = "i = ILock m" and leave = "i = IUnlock m"])
    show "(i = ILock m \<and> \<not> lock_of m (sys_queue s) \<and> lock_of m q \<and> holds m (l @ p)) \<or>
      (i = IUnlock m \<and> holds m (i # p) \<and> \<not> lock_of m q \<and> \<not> holds m (l @ p)) \<or>
      (lock_of m q = lock_of m (sys_queue s) \<and> holds m (l @ p) = holds m (i # p))"
      using exec_locks [OF x, of m] pr(2) [of m] by auto
  qed
  have g: "exclusive (guard_of g q \<noteq> 0) (\<lambda>t'. inside g (((sys_prog s)(t := l @ p)) t'))" for g
  proof (rule exclusive_step [OF sys_invD(4) [OF inv] t, where enter = "i = IStart g" and leave = "i = IStop g"])
    show "(i = IStart g \<and> \<not> guard_of g (sys_queue s) \<noteq> 0 \<and> guard_of g q \<noteq> 0 \<and> inside g (l @ p)) \<or>
      (i = IStop g \<and> inside g (i # p) \<and> \<not> guard_of g q \<noteq> 0 \<and> \<not> inside g (l @ p)) \<or>
      ((guard_of g q \<noteq> 0) = (guard_of g (sys_queue s) \<noteq> 0) \<and> inside g (l @ p) = inside g (i # p))"
      using exec_guards [OF x, of g] pr(3) [of g] by auto
  qed
  have v: "guard_of g q \<in> {0, -1}" for g
    using exec_guards(1) [OF x, of g] sys_invD(5) [OF inv, of g] by auto
  show ?thesis
    using m g v pr(1) cons inv unfolding sys_inv_def by simp
qed

definition one_consumer :: "(nat \<Rightarrow> 'a call \<Rightarrow> bool) \<Rightarrow> nat \<Rightarrow> bool" where
  "one_consumer client c \<longleftrightarrow> (\<forall>t k. client t k \<and> (\<forall>x. k \<noteq> MEnqueue x \<and> k \<noteq> CEnqueue x) \<longrightarrow> t = c)"

lemma prog_of_heads: "legal (prog_of k)" "\<not> holds m (prog_of k)" "\<not> inside g (prog_of k)"
  by (simp, (cases k; cases m; simp add: prog_defs), (cases k; cases g; simp add: prog_defs))

lemma sys_inv_step:
  assumes inv: "sys_inv c s" and cl: "one_consumer client c" and st: "mstep client s ev s'"
  shows "sys_inv c s'"
  using st
proof (cases rule: mstep.cases)
  case (Begin t k)
  have cons: "\<exists>i\<in>set (prog_of k). is_consumer_instr i \<Longrightarrow> t = c"
    using cl Begin unfolding one_consumer_def by (cases k) (auto simp: prog_defs)
  have m: "exclusive (lock_of m (sys_queue s)) (\<lambda>t'. holds m (((sys_prog s)(t := prog_of k)) t'))" for m
    by (rule exclusive_step [OF sys_invD(3) [OF inv] Begin(3), where enter = False and leave = False])
      (simp add: prog_of_heads)
  have g: "exclusive (guard_of g (sys_queue s) \<noteq> 0) (\<lambda>t'. inside g (((sys_prog s)(t := prog_of k)) t'))" for g
    by (rule exclusive_step [OF sys_invD(4) [OF inv] Begin(3), where enter = False and leave = False])
      (simp add: prog_of_heads)
  show ?thesis
    using m g cons inv unfolding Begin sys_inv_def by simp
next
  case (Execute t i p l q w)
  then show ?thesis using sys_inv_execute [OF inv] by simp
qed (use inv in simp)

lemma sys_inv_reachable:
  assumes "msteps client s tr s'" "sys_inv c s" "one_consumer client c"
  shows "sys_inv c s'"
  using assms by (induction rule: msteps.induct) (auto intro: sys_inv_step)

lemma no_fault_step:
  assumes "sys_inv c s" "mstep client s ev s'"
  shows "snd ev \<noteq> Failed"
  using assms(2) exec_no_fault [OF assms(1)] by (cases rule: mstep.cases) auto

lemma one_at_the_items:
  assumes "sys_inv c s" "touches_items (sys_prog s t)" "touches_items (sys_prog s t')"
  shows "t = t'"
  using exclusive_same [OF sys_invD(3) [OF assms(1), of Inner]] legal_items sys_invD(1) [OF assms(1)] assms(2,3)
  by blast

text \<open>Progress: a thread that may not go on waits for one that may.\<close>

lemma can_execute:
  assumes inv: "sys_inv c s" and t: "sys_prog s t = i # p"
    and free: "\<And>m. i = ILock m \<Longrightarrow> \<not> lock_of m (sys_queue s)"
  shows "\<exists>ev s'. mstep client s (t, ev) s'"
proof -
  have "exec i (sys_queue s) (sys_worker s t) \<noteq> None"
    using free by (cases i) auto
  then obtain r where r: "exec i (sys_queue s) (sys_worker s t) = Some r" by auto
  show ?thesis
  proof (cases r)
    case (Inl e)
    then show ?thesis using mstep.Fail [of s t, OF t, of e client] r by auto
  next
    case (Inr y)
    obtain l q w where "y = (l, q, w)" by (cases y)
    then show ?thesis using mstep.Execute [of s t, OF t, of l q w client] r Inr by auto
  qed
qed

lemma holder_nonempty: "holds m p \<Longrightarrow> \<exists>i r. p = i # r \<and> i \<noteq> ILock m"
  by (cases p) auto

lemma progress:
  assumes inv: "sys_inv c s" and t: "sys_prog s t \<noteq> []"
  shows "\<exists>t' ev s'. sys_prog s t' \<noteq> [] \<and> mstep client s (t', ev) s'"
proof (cases "lock_of Inner (sys_queue s)")
  case True
  then obtain h where h: "holds Inner (sys_prog s h)"
    using exclusive_obtain [of "\<lambda>t. holds Inner (sys_prog s t)"] sys_invD(3) [OF inv, of Inner] by auto
  obtain i r where p: "sys_prog s h = i # r" "i \<noteq> ILock Inner"
    using holder_nonempty [OF h] by blast
  have "i \<noteq> ILock Outer"
    using legal_lock_order [of r] sys_invD(1) [OF inv, of h] h p by auto
  then have "i \<noteq> ILock m" for m using p(2) by (cases m) auto
  then show ?thesis using can_execute [OF inv p(1)] p(1) by (metis list.distinct(1))
next
  case inner: False
  show ?thesis
  proof (cases "lock_of Outer (sys_queue s)")
    case True
    then obtain h where h: "holds Outer (sys_prog s h)"
      using exclusive_obtain [of "\<lambda>t. holds Outer (sys_prog s t)"] sys_invD(3) [OF inv, of Outer] by auto
    obtain i r where p: "sys_prog s h = i # r" "i \<noteq> ILock Outer"
      using holder_nonempty [OF h] by blast
    have "i = ILock m \<Longrightarrow> \<not> lock_of m (sys_queue s)" for m
      using inner p(2) by (cases m) auto
    then show ?thesis using can_execute [OF inv p(1)] p(1) by (metis list.distinct(1))
  next
    case False
    have "\<not> lock_of m (sys_queue s)" for m using inner False by (cases m) auto
    moreover obtain i p where "sys_prog s t = i # p" using t by (cases "sys_prog s t") auto
    ultimately show ?thesis using can_execute [OF inv, of t i p client] by (metis list.distinct(1))
  qed
qed

section \<open>The counter\<close>

text \<open>
  \<open>Enqueue\<close> counts before it locks and \<open>Dequeue\<close> after it has returned the item, so the
  counter runs ahead of the queue by what is \<open>due\<close>: items announced and not yet pushed,
  items taken and not yet discounted.
\<close>

fun is_counted :: "'a call \<Rightarrow> bool" where
  "is_counted (CEnqueue x) = True"
| "is_counted CDequeue = True"
| "is_counted CDequeueAll = True"
| "is_counted _ = False"

fun is_push :: "'a instr \<Rightarrow> bool" where
  "is_push (IPushFront x) = True"
| "is_push _ = False"

abbreviation owes_push :: "'a instr list \<Rightarrow> bool" where
  "owes_push \<equiv> pending is_push (\<lambda>i. i = IIncSize)"

abbreviation owes_discount :: "'a instr list \<Rightarrow> bool" where
  "owes_discount \<equiv> pending (\<lambda>i. i = IDecSize) (\<lambda>i. i = ITake)"

definition due :: "'a instr list \<Rightarrow> 'a worker \<Rightarrow> nat" where
  "due p w = of_bool (owes_push p) + of_bool (owes_discount p \<and> wk_found w)"

definition counted_legal :: "'a instr list \<Rightarrow> bool" where
  "counted_legal p \<longleftrightarrow> (\<exists>c. is_counted c \<and> suffix p (prog_of c))"

lemma counted_legalE:
  assumes "counted_legal p" "\<And>c. is_counted c \<Longrightarrow> suffix p (prog_of c) \<Longrightarrow> P"
  shows P
  using assms by (auto simp: counted_legal_def)

lemma counted_legal_Cons: "counted_legal (i # p) \<Longrightarrow> counted_legal p"
  by (auto simp: counted_legal_def dest: suffix_ConsD)

lemma counted_legal_owes:
  assumes "counted_legal (i # p)"
  shows "i = IIncSize \<longrightarrow> owes_push p \<and> \<not> owes_discount p"
    "is_push i \<longrightarrow> \<not> owes_push p"
    "i = ITake \<longrightarrow> owes_discount p \<and> \<not> owes_push p"
    "i = IDecSize \<longrightarrow> \<not> owes_discount p \<and> \<not> owes_push p"
    "i = ISetFound b \<longrightarrow> \<not> owes_discount p"
    "i \<noteq> ITest" "i = IAgain l \<longrightarrow> l = CountedLoop \<and> p = []"
    "owes_push p \<longrightarrow> \<not> owes_discount p"
    "i = ITake \<longrightarrow> \<not> owes_discount (i # p)"
  using assms by (elim counted_legalE; rename_tac c; case_tac c; auto simp: prog_defs suffix_Cons)+

lemma counted_legal_loop: "counted_legal (loop_body CountedLoop)"
  unfolding counted_legal_def by (rule exI [of _ CDequeueAll]) (simp add: counted_dequeue_all_def)

text \<open>Before \<open>ITake\<close> the flag is down, so an empty queue is not counted as taken from.\<close>

definition flag_ok :: "'a instr list \<Rightarrow> 'a worker \<Rightarrow> bool" where
  "flag_ok p w \<longleftrightarrow> (pending (\<lambda>i. i = ITake) (\<lambda>i. \<exists>b. i = ISetFound b) p \<longrightarrow> \<not> wk_found w)"

lemma counted_legal_flag:
  assumes "counted_legal (i # p)"
  shows "i = ISetFound b \<longrightarrow> b = False \<or> \<not> pending (\<lambda>i. i = ITake) (\<lambda>i. \<exists>b. i = ISetFound b) p"
    "i = ITake \<longrightarrow> \<not> pending (\<lambda>i. i = ITake) (\<lambda>i. \<exists>b. i = ISetFound b) p"
  using assms by (elim counted_legalE; rename_tac c; case_tac c; auto simp: prog_defs suffix_Cons)+

lemma exec_due:
  assumes x: "exec i q w = Some (Inr (l, q', w'))" and leg: "counted_legal (i # p)" and fl: "flag_ok (i # p) w"
  shows "length (sq_data q') + due (l @ p) w' + of_bool (i = IDecSize \<and> wk_found w)
      = length (sq_data q) + due (i # p) w + of_bool (i = IIncSize)"
    "cq_size q' = cq_size q + of_bool (i = IIncSize) - of_bool (i = IDecSize \<and> wk_found w)"
    "counted_legal (l @ p)" "flag_ok (l @ p) w'"
proof -
  have g: "sq_data (set_guard g v q) = sq_data q" "sq_data (set_lock m b q) = sq_data q"
    "cq_size (set_guard g v q) = cq_size q" "cq_size (set_lock m b q) = cq_size q" for g v m b
    by (cases g; cases m; simp)+
  note o = counted_legal_owes [OF leg] counted_legal_flag [OF leg]
  have body: "\<not> owes_push (loop_body CountedLoop)" "\<not> owes_discount (loop_body CountedLoop)"
    "\<not> pending (\<lambda>i. i = ITake) (\<lambda>i. \<exists>b. i = ISetFound b) (loop_body CountedLoop)"
    by (auto simp: prog_defs)
  have again: "\<forall>k. i = IAgain k \<longrightarrow> k = CountedLoop \<and> p = []"
    using counted_legal_owes(7) [OF leg] by blast
  show "length (sq_data q') + due (l @ p) w' + of_bool (i = IDecSize \<and> wk_found w)
      = length (sq_data q) + due (i # p) w + of_bool (i = IIncSize)"
    using x o(1-6,8-) fl body(1,2) again
    by (cases i) (auto simp: g due_def flag_ok_def dq_defs bindR_eq_Inr Suc_leI length_greater_0_conv split: if_splits)
  show "cq_size q' = cq_size q + of_bool (i = IIncSize) - of_bool (i = IDecSize \<and> wk_found w)"
    using x by (cases i) (auto simp: g dq_defs bindR_eq_Inr split: if_splits)
  show "counted_legal (l @ p)"
    using exec_prepends [OF x] counted_legal_Cons [OF leg] o(7) counted_legal_loop by fastforce
  show "flag_ok (l @ p) w'"
  proof (cases i)
    case (ISetFound b)
    then show ?thesis using x counted_legal_flag(1) [OF leg, of b] by (auto simp: flag_ok_def)
  next
    case ITake
    then show ?thesis using x counted_legal_flag(2) [OF leg] by (auto simp: flag_ok_def dq_defs split: if_splits)
  next
    case (IAgain k)
    then show ?thesis using x again fl body(3) by (auto simp: flag_ok_def split: if_splits)
  next
    case ITest
    then show ?thesis using counted_legal_owes(6) [OF leg] by simp
  qed (use x fl in \<open>auto simp: flag_ok_def bindR_eq_Inr split: if_splits\<close>)
qed

definition size_inv :: "nat set \<Rightarrow> 'a system \<Rightarrow> bool" where
  "size_inv T s \<longleftrightarrow>
     (\<forall>t. counted_legal (sys_prog s t) \<and> flag_ok (sys_prog s t) (sys_worker s t) \<and> (t \<notin> T \<longrightarrow> sys_prog s t = [])) \<and>
     cq_size (sys_queue s) = of_nat (length (sq_data (sys_queue s)) + (\<Sum>t\<in>T. due (sys_prog s t) (sys_worker s t)))"

lemma counted_prog_of:
  assumes "is_counted k"
  shows "counted_legal (prog_of k)" "flag_ok (prog_of k) w" "due (prog_of k) w = 0"
  using assms
  by (blast intro: counted_legal_def [THEN iffD2] suffix_order.refl,
      (cases k; auto simp: flag_ok_def due_def prog_defs)+)

lemma counted_legal_Nil: "counted_legal []"
  unfolding counted_legal_def by (rule exI [of _ CDequeue]) simp

lemma due_Nil [simp]: "due [] w = 0"
  by (simp add: due_def)

lemma size_inv_new: "size_inv T system_new"
  by (simp add: size_inv_def system_new_def counted_new_def counted_legal_Nil flag_ok_def)

lemma sum_due_update:
  assumes "finite T" "t \<in> T"
  shows "(\<Sum>t'\<in>T. due ((pr(t := p)) t') ((wk(t := w)) t')) + due (pr t) (wk t) =
    (\<Sum>t'\<in>T. due (pr t') (wk t')) + due p w"
proof -
  have "(\<Sum>t'\<in>T - {t}. due ((pr(t := p)) t') ((wk(t := w)) t')) = (\<Sum>t'\<in>T - {t}. due (pr t') (wk t'))"
    by (rule sum.cong) auto
  then show ?thesis
    using sum.remove [OF assms, of "\<lambda>t'. due ((pr(t := p)) t') ((wk(t := w)) t')"]
      sum.remove [OF assms, of "\<lambda>t'. due (pr t') (wk t')"] by simp
qed

definition counted_clients :: "(nat \<Rightarrow> 'a call \<Rightarrow> bool) \<Rightarrow> nat set \<Rightarrow> bool" where
  "counted_clients client T \<longleftrightarrow> finite T \<and> (\<forall>t k. client t k \<longrightarrow> t \<in> T \<and> is_counted k)"

lemma word_balance:
  assumes "a + of_bool d = b + of_bool i"
  shows "(of_nat b + of_bool i - of_bool d :: 64 word) = of_nat a"
proof -
  have "(of_nat (a + of_bool d) :: 64 word) = of_nat (b + of_bool i)"
    using assms by simp
  then have "(of_nat a + of_bool d :: 64 word) = of_nat b + of_bool i"
    by (cases d; cases i) (simp_all add: add.commute)
  then show ?thesis by (simp add: algebra_simps)
qed

lemma size_inv_step:
  assumes inv: "size_inv T s" and cl: "counted_clients client T" and st: "mstep client s ev s'"
  shows "size_inv T s'"
  using st
proof (cases rule: mstep.cases)
  case (Begin t k)
  have tk: "t \<in> T" "is_counted k" "finite T" using cl Begin by (auto simp: counted_clients_def)
  note c = counted_prog_of [OF tk(2)]
  have "(\<Sum>t'\<in>T. due (((sys_prog s)(t := prog_of k)) t') (sys_worker s t')) =
    (\<Sum>t'\<in>T. due (sys_prog s t') (sys_worker s t'))"
    using sum_due_update [OF tk(3,1), of "sys_prog s" "prog_of k" "sys_worker s" "sys_worker s t"] Begin(3) c(3)
    by simp
  then show ?thesis
    using inv c(1,2) tk(1) unfolding Begin size_inv_def by simp
next
  case (Execute t i p l q w)
  have leg: "counted_legal (i # p)" "flag_ok (i # p) (sys_worker s t)"
    and all: "\<And>t. counted_legal (sys_prog s t) \<and> flag_ok (sys_prog s t) (sys_worker s t) \<and> (t \<notin> T \<longrightarrow> sys_prog s t = [])"
    using inv Execute(3) unfolding size_inv_def by metis+
  have T: "t \<in> T" "finite T" using all [of t] Execute(3) cl by (auto simp: counted_clients_def)
  note x = exec_due [OF Execute(4) leg]
  let ?old = "\<Sum>t'\<in>T. due (sys_prog s t') (sys_worker s t')"
  let ?new = "\<Sum>t'\<in>T. due (((sys_prog s)(t := l @ p)) t') (((sys_worker s)(t := w)) t')"
  let ?dec = "i = IDecSize \<and> wk_found (sys_worker s t)"
  have "?new + due (i # p) (sys_worker s t) = ?old + due (l @ p) w"
    using sum_due_update [OF T(2,1), of "sys_prog s" "l @ p" "sys_worker s" w] Execute(3) by simp
  then have "(length (sq_data q) + ?new) + of_bool ?dec = (length (sq_data (sys_queue s)) + ?old) + of_bool (i = IIncSize)"
    using x(1) by linarith
  note word_balance [OF this]
  moreover have "cq_size (sys_queue s) = of_nat (length (sq_data (sys_queue s)) + ?old)"
    using inv unfolding size_inv_def by blast
  ultimately have "cq_size q = of_nat (length (sq_data q) + ?new)"
    using x(2) by simp
  then show ?thesis
    using all x(3,4) T(1) unfolding Execute(1,2) size_inv_def by simp
qed (use inv in simp)

lemma size_inv_reachable:
  assumes "msteps client s tr s'" "size_inv T s" "counted_clients client T"
  shows "size_inv T s'"
  using assms by (induction rule: msteps.induct) (auto intro: size_inv_step)

section \<open>What a call did\<close>

text \<open>The last call of a thread with the events of its instructions since.\<close>

fun call_step :: "nat \<Rightarrow> ('a call \<times> 'a event list) option \<Rightarrow> nat \<times> 'a event \<Rightarrow> ('a call \<times> 'a event list) option" where
  "call_step t cl (t', ev) = (if t' \<noteq> t then cl else case ev of
      Called c \<Rightarrow> Some (c, []) | Silent \<Rightarrow> cl | Failed \<Rightarrow> cl | _ \<Rightarrow> map_option (\<lambda>(c, es). (c, es @ [ev])) cl)"

definition last_call :: "nat \<Rightarrow> (nat \<times> 'a event) list \<Rightarrow> ('a call \<times> 'a event list) option" where
  "last_call t tr = foldl (call_step t) None tr"

definition one_take :: "'a worker \<Rightarrow> 'a event list" where
  "one_take w = (if wk_found w then map Took (case wk_item w of None \<Rightarrow> [] | Some x \<Rightarrow> [x]) else [Missed])"

text \<open>
  What a finished call must have done, in terms of what it returned: an \<open>Enqueue\<close> pushed its item and nothing else, a
  \<open>Dequeue\<close> took the one item it returned or found the queue empty, \<open>DequeueAll\<close> handed what it took to its callback, in
  order, until it found the queue empty, \<open>HasItems\<close> returned what it saw.
\<close>

fun did :: "'a call \<Rightarrow> 'a event list \<Rightarrow> 'a worker \<Rightarrow> bool" where
  "did (MEnqueue x) es w = (es = [Pushed x] \<and> wk_found w)"
| "did (CEnqueue x) es w = (es = [Pushed x] \<and> wk_found w)"
| "did MDequeue es w = (es = one_take w)"
| "did CDequeue es w = (es = one_take w)"
| "did MDequeueAll es w = (\<exists>xs. es = map Took xs @ [Missed] \<and> suffix xs (wk_seen w))"
| "did CDequeueAll es w = (\<exists>xs. es = map Took xs @ [Missed] \<and> suffix xs (wk_seen w))"
| "did MHasItems es w = (es = [Tested (wk_found w)])"

definition dequeue_state :: "'a instr list \<Rightarrow> 'a event list \<Rightarrow> 'a event list \<Rightarrow> 'a worker \<Rightarrow> bool" where
  "dequeue_state p es0 es w \<longleftrightarrow>
     (if ITake \<in> set p then es = es0 \<and> (ISetFound False \<notin> set p \<longrightarrow> \<not> wk_found w) else es = es0 @ one_take w)"

definition going_all :: "'a call \<Rightarrow> loop_id \<Rightarrow> 'a instr list \<Rightarrow> 'a event list \<Rightarrow> 'a worker \<Rightarrow> bool" where
  "going_all c l p es w \<longleftrightarrow> suffix p (prog_of c) \<and> (\<exists>xs. suffix xs (wk_seen w) \<and>
     (if IAgain l \<in> set p then dequeue_state p (map Took xs) es w else es = map Took xs @ [Missed]))"

definition going_take :: "'a call \<Rightarrow> 'a instr list \<Rightarrow> 'a event list \<Rightarrow> 'a worker \<Rightarrow> bool" where
  "going_take c p es w \<longleftrightarrow> suffix p (prog_of c) \<and> dequeue_state p [] es w"

definition going_push :: "'a call \<Rightarrow> 'a \<Rightarrow> 'a instr list \<Rightarrow> 'a event list \<Rightarrow> 'a worker \<Rightarrow> bool" where
  "going_push c x p es w \<longleftrightarrow> suffix p (prog_of c) \<and> es = (if IPushFront x \<in> set p then [] else [Pushed x]) \<and>
     (ISetFound True \<notin> set p \<longrightarrow> wk_found w)"

fun going :: "'a call \<Rightarrow> 'a instr list \<Rightarrow> 'a event list \<Rightarrow> 'a worker \<Rightarrow> bool" where
  "going (MEnqueue x) p es w = going_push (MEnqueue x) x p es w"
| "going (CEnqueue x) p es w = going_push (CEnqueue x) x p es w"
| "going MDequeue p es w = going_take MDequeue p es w"
| "going CDequeue p es w = going_take CDequeue p es w"
| "going MDequeueAll p es w = going_all MDequeueAll MpscLoop p es w"
| "going CDequeueAll p es w = going_all CDequeueAll CountedLoop p es w"
| "going MHasItems p es w = (suffix p mpsc_has_items \<and> es = (if ITest \<in> set p then [] else [Tested (wk_found w)]))"

lemma going_start: "going c (prog_of c) [] w"
  by (cases c) (auto simp: going_push_def going_take_def going_all_def dequeue_state_def prog_defs)

lemma going_end: "going c [] es w \<Longrightarrow> did c es w"
  by (cases c) (auto simp: going_push_def going_take_def going_all_def dequeue_state_def)

abbreviation loud :: "'a event \<Rightarrow> 'a event list" where
  "loud ev \<equiv> (if ev = Silent then [] else [ev])"

lemma push_positions:
  assumes "suffix (i # p) (IIncSize # mpsc_enqueue x)"
  shows "(i, p) \<in> set [(IIncSize, mpsc_enqueue x), (ILock Outer, spsc_enqueue x @ [IUnlock Outer]),
    (IStart WriteGuard, [ILock Inner, IPushFront x, IUnlock Inner, ISetFound True, IStop WriteGuard, IUnlock Outer]),
    (ILock Inner, [IPushFront x, IUnlock Inner, ISetFound True, IStop WriteGuard, IUnlock Outer]),
    (IPushFront x, [IUnlock Inner, ISetFound True, IStop WriteGuard, IUnlock Outer]),
    (IUnlock Inner, [ISetFound True, IStop WriteGuard, IUnlock Outer]), (ISetFound True, [IStop WriteGuard, IUnlock Outer]),
    (IStop WriteGuard, [IUnlock Outer]), (IUnlock Outer, [])]"
  using assms by (simp add: mpsc_enqueue_def spsc_enqueue_def suffix_Cons)

fun quiet :: "'a instr \<Rightarrow> bool" where
  "quiet (ISetFound b) = False"
| "quiet (IPushFront x) = False"
| "quiet ITake = False"
| "quiet ITest = False"
| "quiet (IAgain l) = False"
| "quiet i = True"

lemma exec_quiet: "exec i q w = Some (Inr (l, q', w')) \<Longrightarrow> quiet i \<Longrightarrow> l = [] \<and> w' = w \<and> event_of i q = Silent"
  by (cases i) (auto simp: bindR_eq_Inr split: if_splits)

lemma exec_loud:
  "exec (ISetFound b) q w = Some (Inr (l, q', w')) \<Longrightarrow> l = [] \<and> w' = w\<lparr>wk_found := b\<rparr>"
  "exec (IPushFront x) q w = Some (Inr (l, q', w')) \<Longrightarrow> l = [] \<and> w' = w"
  "exec ITake q w = Some (Inr (l, q', w')) \<Longrightarrow> l = [] \<and> wk_seen w' = wk_seen w \<and>
    (if event_of ITake q = Missed then w' = w else wk_found w' \<and> wk_item w' \<noteq> None \<and> event_of ITake q = Took (the (wk_item w')))"
  "exec ITest q w = Some (Inr (l, q', w')) \<Longrightarrow> l = [] \<and> event_of ITest q = Tested (wk_found w')"
  by (auto simp: bindR_eq_Inr dq_defs split: if_splits)

lemma going_push_exec:
  assumes "going_push c x (i # p) es w" "exec i q w = Some (Inr (l, q', w'))" "c = MEnqueue x \<or> c = CEnqueue x"
  shows "going_push c x (l @ p) (es @ loud (event_of i q)) w'"
proof -
  have "suffix (i # p) (prog_of c)" using assms(1) by (simp add: going_push_def)
  moreover from this have "suffix p (prog_of c)" by (rule suffix_ConsD)
  moreover have "prog_of c = mpsc_enqueue x \<or> prog_of c = IIncSize # mpsc_enqueue x" using assms(3) by (auto simp: counted_enqueue_def)
  ultimately have suf: "suffix p (prog_of c)" "suffix (i # p) (IIncSize # mpsc_enqueue x)" by (auto simp: suffix_Cons)
  have e: "es = (if IPushFront x \<in> set (i # p) then [] else [Pushed x])" "ISetFound True \<notin> set (i # p) \<longrightarrow> wk_found w"
    using assms(1) by (simp_all add: going_push_def)
  have "es @ loud (event_of i q) = (if IPushFront x \<in> set p then [] else [Pushed x]) \<and> (ISetFound True \<notin> set p \<longrightarrow> wk_found w') \<and> l = []"
  proof (cases "quiet i")
    case True
    then show ?thesis using exec_quiet [OF assms(2)] e by auto
  next
    case False
    then consider "i = IPushFront x" "p = [IUnlock Inner, ISetFound True, IStop WriteGuard, IUnlock Outer]"
      | "i = ISetFound True" "p = [IStop WriteGuard, IUnlock Outer]"
      using push_positions [OF suf(2)] by auto
    then show ?thesis using e exec_loud(1,2) assms(2) by cases fastforce+
  qed
  then show ?thesis using suf(1) by (simp add: going_push_def)
qed

lemma dequeue_positions:
  assumes "suffix (i # p) (IStart ConsumerGuard # spsc_dequeue @ r)"
  obtains "i = IStart ConsumerGuard" "p = spsc_dequeue @ r"
    | "i = IStart ReadGuard" "p = [ISetFound False, ILock Inner, ITake, IUnlock Inner, IStop ReadGuard] @ r"
    | "i = ISetFound False" "p = [ILock Inner, ITake, IUnlock Inner, IStop ReadGuard] @ r"
    | "i = ILock Inner" "p = [ITake, IUnlock Inner, IStop ReadGuard] @ r"
    | "i = ITake" "p = [IUnlock Inner, IStop ReadGuard] @ r" | "i = IUnlock Inner" "p = IStop ReadGuard # r"
    | "i = IStop ReadGuard" "p = r" | "suffix (i # p) r"
  using assms by (simp add: spsc_dequeue_def suffix_Cons) blast

lemma dequeue_exec:
  assumes "suffix (i # p) (IStart ConsumerGuard # spsc_dequeue @ r)" "\<not> suffix (i # p) r" "ITake \<notin> set r" "ISetFound False \<notin> set r"
    "dequeue_state (i # p) es0 es w" "exec i q w = Some (Inr (l, q', w'))"
  shows "dequeue_state p es0 (es @ loud (event_of i q)) w' \<and> wk_seen w' = wk_seen w \<and> l = []"
  using assms(1)
proof (cases rule: dequeue_positions)
  case 8
  then show ?thesis using assms(2) by simp
qed (use assms(3-6) in \<open>auto simp: dequeue_state_def spsc_dequeue_def one_take_def dq_defs bindR_eq_Inr split: if_splits\<close>)

lemma going_take_exec:
  assumes g: "going_take c (i # p) es w" and x: "exec i q w = Some (Inr (l, q', w'))" and c: "c = MDequeue \<or> c = CDequeue"
  shows "going_take c (l @ p) (es @ loud (event_of i q)) w'"
proof -
  obtain r where r: "prog_of c = IStart ConsumerGuard # spsc_dequeue @ r" "r = [IStop ConsumerGuard] \<or> r = [IStop ConsumerGuard, IDecSize]"
    using c by (auto simp: counted_dequeue_def mpsc_dequeue_def)
  have suf: "suffix (i # p) (IStart ConsumerGuard # spsc_dequeue @ r)" "dequeue_state (i # p) [] es w"
    using g r(1) by (simp_all add: going_take_def)
  have "suffix p (prog_of c)" using suf(1) r(1) by (metis suffix_ConsD)
  moreover have "dequeue_state p [] (es @ loud (event_of i q)) w' \<and> l = []"
  proof (cases "suffix (i # p) r")
    case True
    then have "quiet i" "ITake \<notin> set (i # p)" using r(2) by (auto simp: suffix_Cons)
    then show ?thesis using exec_quiet [OF x] suf(2) by (simp add: dequeue_state_def)
  next
    case False
    have "ITake \<notin> set r" "ISetFound False \<notin> set r" using r(2) by auto
    from dequeue_exec [OF suf(1) False this suf(2) x] show ?thesis by simp
  qed
  ultimately show ?thesis by (simp add: going_take_def)
qed

lemma going_all_exec:
  assumes g: "going_all c k (i # p) es w" and x: "exec i q w = Some (Inr (l, q', w'))"
    and c: "c = MDequeueAll \<and> k = MpscLoop \<or> c = CDequeueAll \<and> k = CountedLoop"
  shows "going_all c k (l @ p) (es @ loud (event_of i q)) w'"
proof -
  obtain r where r: "prog_of c = IStart ConsumerGuard # spsc_dequeue @ r"
    "c = MDequeueAll \<and> k = MpscLoop \<and> r = [IAgain MpscLoop, IStop ConsumerGuard] \<or>
     c = CDequeueAll \<and> k = CountedLoop \<and> r = [IStop ConsumerGuard, IDecSize, IAgain CountedLoop]"
    using c by (auto simp: counted_dequeue_all_def mpsc_dequeue_all_def counted_dequeue_def mpsc_dequeue_def)
  obtain xs where xs: "suffix xs (wk_seen w)"
    "if IAgain k \<in> set (i # p) then dequeue_state (i # p) (map Took xs) es w else es = map Took xs @ [Missed]"
    and suf: "suffix (i # p) (IStart ConsumerGuard # spsc_dequeue @ r)"
    using g r(1) by (auto simp: going_all_def)
  have p: "suffix p (prog_of c)" using suf r(1) by (metis suffix_ConsD)
  show ?thesis
  proof (cases "suffix (i # p) r")
    case False
    have r': "ITake \<notin> set r" "ISetFound False \<notin> set r" "IAgain k \<in> set r" using r(2) by auto
    from dequeue_positions [OF suf] have "IAgain k \<in> set p" by cases (use r'(3) False in auto)
    moreover from this have "dequeue_state (i # p) (map Took xs) es w" using xs(2) by simp
    from dequeue_exec [OF suf False r'(1,2) this x]
    have "dequeue_state p (map Took xs) (es @ loud (event_of i q)) w'" "wk_seen w' = wk_seen w" "l = []" by simp_all
    ultimately show ?thesis using p xs(1) by (auto simp: going_all_def)
  next
    case True
    show ?thesis
    proof (cases "quiet i")
      case True
      have "ITake \<notin> set (i # p)" using \<open>suffix (i # p) r\<close> r(2) by (auto simp: suffix_Cons)
      moreover have "i \<noteq> IAgain k" using True by auto
      ultimately show ?thesis using exec_quiet [OF x True] xs p by (auto simp: going_all_def dequeue_state_def)
    next
      case False
      then have i: "i = IAgain k" "p = [IStop ConsumerGuard] \<and> k = MpscLoop \<or> p = [] \<and> k = CountedLoop"
        using \<open>suffix (i # p) r\<close> r(2) by (auto simp: suffix_Cons)
      then have es: "es = map Took xs @ one_take w" using xs(2) by (auto simp: dequeue_state_def)
      show ?thesis
      proof (cases "wk_found w")
        case True
        let ?ys = "case wk_item w of None \<Rightarrow> [] | Some x \<Rightarrow> [x]"
        have l: "l = loop_body k" "wk_seen w' = wk_seen w @ ?ys" using x i(1) True by auto
        have "suffix (xs @ ?ys) (wk_seen w')" using xs(1) l(2) by simp
        moreover have "es = map Took (xs @ ?ys)" using es True by (simp add: one_take_def)
        moreover have "suffix (l @ p) (prog_of c)" using l(1) i(2) r c by (auto simp: suffix_Cons mpsc_dequeue_all_def counted_dequeue_all_def)
        moreover have "IAgain k \<in> set (l @ p)" "ITake \<in> set (l @ p)" "ISetFound False \<in> set (l @ p)"
          using l(1) i(2) by (auto simp: spsc_dequeue_def counted_dequeue_def mpsc_dequeue_def)
        ultimately show ?thesis using i(1) unfolding going_all_def by (auto simp: dequeue_state_def simp del: map_append)
      next
        case False
        then have "l = []" "w' = w" using x i(1) by auto
        then show ?thesis using es i False p xs(1) by (auto simp: going_all_def one_take_def)
      qed
    qed
  qed
qed

lemma going_has_items_exec:
  assumes "going MHasItems (i # p) es w" "exec i q w = Some (Inr (l, q', w'))"
  shows "going MHasItems (l @ p) (es @ loud (event_of i q)) w'"
proof -
  have suf: "suffix (i # p) mpsc_has_items" and e: "es = (if ITest \<in> set (i # p) then [] else [Tested (wk_found w)])"
    using assms(1) by simp_all
  have p: "suffix p mpsc_has_items" using suf by (rule suffix_ConsD)
  show ?thesis
  proof (cases "quiet i")
    case True
    then show ?thesis using exec_quiet [OF assms(2)] e p by auto
  next
    case False
    have "(i, p) \<in> set [(ILock Outer, spsc_has_items @ [IUnlock Outer]),
      (IStart ReadGuard, IStart WriteGuard # ISetFound False # ILock Inner # ITest # IUnlock Inner # IStop WriteGuard # IStop ReadGuard # [IUnlock Outer]),
      (IStart WriteGuard, ISetFound False # ILock Inner # ITest # IUnlock Inner # IStop WriteGuard # IStop ReadGuard # [IUnlock Outer]),
      (ISetFound False, ILock Inner # ITest # IUnlock Inner # IStop WriteGuard # IStop ReadGuard # [IUnlock Outer]),
      (ILock Inner, ITest # IUnlock Inner # IStop WriteGuard # IStop ReadGuard # [IUnlock Outer]),
      (ITest, IUnlock Inner # IStop WriteGuard # IStop ReadGuard # [IUnlock Outer]),
      (IUnlock Inner, IStop WriteGuard # IStop ReadGuard # [IUnlock Outer]),
      (IStop WriteGuard, IStop ReadGuard # [IUnlock Outer]), (IStop ReadGuard, [IUnlock Outer]), (IUnlock Outer, [])]"
      using suf by (simp add: mpsc_has_items_def spsc_has_items_def suffix_Cons)
    then have "i = ITest \<and> ITest \<notin> set p \<or> i = ISetFound False \<and> ITest \<in> set p"
      using False unfolding list.set insert_iff empty_iff prod.inject by (elim disjE conjE) (simp_all add: spsc_has_items_def)
    then consider "i = ITest" "ITest \<notin> set p" | "i = ISetFound False" "ITest \<in> set p" by blast
    then show ?thesis
    proof cases
      case 1
      have "exec ITest q w = Some (Inr (l, q', w'))" using assms(2) unfolding 1(1) .
      note exec_loud(4) [OF this]
      then show ?thesis using e p 1 by simp
    next
      case 2
      have "exec (ISetFound False) q w = Some (Inr (l, q', w'))" using assms(2) unfolding 2(1) .
      note exec_loud(1) [OF this]
      then show ?thesis using e p 2 by simp
    qed
  qed
qed

lemma going_exec:
  "going c (i # p) es w \<Longrightarrow> exec i q w = Some (Inr (l, q', w')) \<Longrightarrow> going c (l @ p) (es @ loud (event_of i q)) w'"
  by (cases c) (simp_all only: going.simps(1-6) going_push_exec going_take_exec going_all_exec going_has_items_exec simp_thms)

definition calls_inv :: "(nat \<times> 'a event) list \<Rightarrow> 'a system \<Rightarrow> bool" where
  "calls_inv tr s \<longleftrightarrow> (\<forall>t. case last_call t tr of None \<Rightarrow> sys_prog s t = [] | Some (c, es) \<Rightarrow> going c (sys_prog s t) es (sys_worker s t))"

lemma last_call_snoc: "last_call t (tr @ [ev]) = call_step t (last_call t tr) ev"
  by (simp add: last_call_def)

lemma calls_inv_update:
  assumes "calls_inv tr s" "last_call t tr' = Some (c, es)" "going c (sys_prog s' t) es (sys_worker s' t)"
    and other: "\<And>t'. t' \<noteq> t \<Longrightarrow> last_call t' tr' = last_call t' tr \<and> sys_prog s' t' = sys_prog s t' \<and> sys_worker s' t' = sys_worker s t'"
  shows "calls_inv tr' s'"
  unfolding calls_inv_def
proof (intro allI)
  fix t'
  have old: "case last_call t' tr of None \<Rightarrow> sys_prog s t' = [] | Some (c, es) \<Rightarrow> going c (sys_prog s t') es (sys_worker s t')"
    using assms(1) by (simp add: calls_inv_def)
  show "case last_call t' tr' of None \<Rightarrow> sys_prog s' t' = [] | Some (c, es) \<Rightarrow> going c (sys_prog s' t') es (sys_worker s' t')"
  proof (cases "t' = t")
    case True
    then show ?thesis using assms(2,3) by simp
  next
    case False
    then have e: "last_call t' tr' = last_call t' tr" "sys_prog s' t' = sys_prog s t'" "sys_worker s' t' = sys_worker s t'"
      using other by simp_all
    show ?thesis using old unfolding e .
  qed
qed

lemma calls_inv_step:
  assumes "calls_inv tr s" "mstep client s ev s'"
  shows "calls_inv (tr @ [ev]) s'"
  using assms(2)
proof (cases rule: mstep.cases)
  case (Begin t c)
  then show ?thesis
    by (intro calls_inv_update [OF assms(1), of t _ c "[]"]) (simp_all add: last_call_snoc going_start)
next
  case (Execute t i p l q w)
  have "case last_call t tr of None \<Rightarrow> sys_prog s t = [] | Some (c, es) \<Rightarrow> going c (sys_prog s t) es (sys_worker s t)"
    using assms(1) by (simp add: calls_inv_def)
  then obtain c es where c: "last_call t tr = Some (c, es)" "going c (i # p) es (sys_worker s t)"
    using Execute(3) by (cases "last_call t tr") auto
  have "last_call t (tr @ [ev]) = Some (c, es @ loud (event_of i (sys_queue s)))"
    using c(1) Execute(1) event_of_neq [of i "sys_queue s"] by (cases "event_of i (sys_queue s)") (auto simp: last_call_snoc)
  then show ?thesis
    by (rule calls_inv_update [OF assms(1)]) (use going_exec [OF c(2) Execute(4)] Execute in \<open>simp_all add: last_call_snoc\<close>)
next
  case (Fail t i p e)
  then show ?thesis using assms(1) by (simp add: calls_inv_def last_call_snoc)
qed

lemma calls_inv_reachable: "msteps client s0 tr s \<Longrightarrow> s0 = system_new \<Longrightarrow> calls_inv tr s"
proof (induction rule: msteps.induct)
  case (Start s)
  then show ?case by (simp add: calls_inv_def last_call_def system_new_def)
qed (use calls_inv_step in blast)

lemma missed_empty:
  assumes "msteps client s0 tr s" "s0 = system_new" "tr = tr1 @ (t, ev) # tr2"
  shows "(ev = Missed \<longrightarrow> pushes tr1 = takes tr1) \<and> (ev = Tested b \<longrightarrow> b = (pushes tr1 \<noteq> takes tr1))"
  using assms
proof (induction arbitrary: tr2 rule: msteps.induct)
  case (Step s0 tr s e s')
  show ?case
  proof (cases tr2 rule: rev_cases)
    case (snoc ys y)
    then show ?thesis using Step by simp
  next
    case Nil
    then have e: "tr = tr1" "e = (t, ev)" using Step.prems(2) by simp_all
    have h: "pushes tr1 = takes tr1 @ queue_view (sys_queue s)" using queue_history [OF Step.hyps(1)] Step.prems(1) e by simp
    from Step.hyps(2) show ?thesis
    proof (cases rule: mstep.cases)
      case (Execute t' i p l q w)
      then have "ev = event_of i (sys_queue s)" using e by simp
      then show ?thesis using h by (cases i) (auto simp: queue_view_def split: if_splits)
    qed (use e in auto)
  qed
qed simp

section \<open>Properties\<close>

text \<open>
  C3: whatever threads interleave in \<open>MPSCQueue\<close> and \<open>MPSCQueueCounted\<close>, the items come out
  in the order in which they went in, each once.  At every reachable state the items
  enqueued so far are the items dequeued so far followed by the items in the queue; every call that has returned did
  what it says: an \<open>Enqueue\<close> pushed exactly its item, a \<open>Dequeue\<close> took exactly the item it returned or found the
  queue empty and says so, \<open>DequeueAll\<close> handed all it took to the callback in order and ended on an empty queue, and
  \<open>HasItems\<close> returned whether there were any; and the queue was empty when it was found so.
\<close>

theorem queue_is_fifo_under_interleaving:
  assumes "msteps client system_new tr s"
  shows "pushes tr = takes tr @ queue_view (sys_queue s) \<and>
    (\<forall>t c es. sys_prog s t = [] \<and> last_call t tr = Some (c, es) \<longrightarrow> did c es (sys_worker s t)) \<and>
    (\<forall>tr1 t tr2. tr = tr1 @ (t, Missed) # tr2 \<longrightarrow> pushes tr1 = takes tr1) \<and>
    (\<forall>tr1 t b tr2. tr = tr1 @ (t, Tested b) # tr2 \<longrightarrow> b = (pushes tr1 \<noteq> takes tr1))"
proof -
  have "did c es (sys_worker s t)" if "sys_prog s t = []" "last_call t tr = Some (c, es)" for t c es
  proof -
    have "case last_call t tr of None \<Rightarrow> sys_prog s t = [] | Some (c, es) \<Rightarrow> going c (sys_prog s t) es (sys_worker s t)"
      using calls_inv_reachable [OF assms refl] by (simp add: calls_inv_def)
    then show ?thesis using that by (simp add: going_end)
  qed
  then show ?thesis using queue_history [OF assms refl] missed_empty [OF assms refl] by blast
qed

definition one_reader :: "nat \<Rightarrow> nat call \<Rightarrow> bool" where
  "one_reader t k \<longleftrightarrow> (case k of CEnqueue x \<Rightarrow> 0 < t \<and> t < 3 | CDequeue \<Rightarrow> t = 0 | CDequeueAll \<Rightarrow> t = 0 | _ \<Rightarrow> False)"

text \<open>A schedule, executable: a thread begins a call or executes one instruction.\<close>

fun act :: "nat \<times> 'a call option \<Rightarrow> 'a system \<Rightarrow> ((nat \<times> 'a event) \<times> 'a system) option" where
  "act (t, Some k) s = (case sys_prog s t of
      [] \<Rightarrow> Some ((t, Called k), s\<lparr>sys_prog := (sys_prog s)(t := prog_of k)\<rparr>)
    | _ # _ \<Rightarrow> None)"
| "act (t, None) s = (case sys_prog s t of
      [] \<Rightarrow> None
    | i # p \<Rightarrow> (case exec i (sys_queue s) (sys_worker s t) of
        Some (Inr (l, q, w)) \<Rightarrow> Some ((t, event_of i (sys_queue s)),
          \<lparr>sys_queue = q, sys_prog = (sys_prog s)(t := l @ p), sys_worker = (sys_worker s)(t := w)\<rparr>)
      | _ \<Rightarrow> None))"

fun schedule :: "(nat \<times> 'a call option) list \<Rightarrow> 'a system \<Rightarrow> ((nat \<times> 'a event) list \<times> 'a system) option" where
  "schedule [] s = Some ([], s)"
| "schedule (a # as) s = (case act a s of None \<Rightarrow> None
    | Some (ev, s') \<Rightarrow> map_option (\<lambda>(tr, s''). (ev # tr, s'')) (schedule as s'))"

lemma act_step:
  "act a s = Some (ev, s') \<Longrightarrow> (\<forall>k. snd a = Some k \<longrightarrow> client (fst a) k) \<Longrightarrow> mstep client s ev s'"
  by (induction a s rule: act.induct)
    (auto intro: mstep.intros split: list.splits option.splits sum.splits)

lemma schedule_steps:
  "schedule as s = Some (tr, s') \<Longrightarrow> (\<forall>a\<in>set as. \<forall>k. snd a = Some k \<longrightarrow> client (fst a) k) \<Longrightarrow>
    msteps client s0 tr0 s \<Longrightarrow> msteps client s0 (tr0 @ tr) s'"
proof (induction as arbitrary: s tr tr0)
  case (Cons a as)
  obtain ev s1 tr1 where a: "act a s = Some (ev, s1)" "schedule as s1 = Some (tr1, s')" "tr = ev # tr1"
    using Cons.prems(1) by (auto split: option.splits)
  have "msteps client s0 (tr0 @ [ev]) s1"
    using Cons.prems(3) act_step [OF a(1)] Cons.prems(2) by (auto intro: msteps.Step)
  from Cons.IH [OF a(2) _ this] show ?case
    using Cons.prems(2) a(3) by simp
qed simp

lemma schedule_reaches:
  assumes "schedule as system_new = Some (tr, s)" "\<forall>a\<in>set as. \<forall>k. snd a = Some k \<longrightarrow> client (fst a) k"
  shows "msteps client system_new tr s"
  using schedule_steps [OF assms msteps.Start] by simp

lemma one_reader_first_steps:
  "\<exists>s. msteps one_reader system_new [(1, Called (CEnqueue 5)), (1, Silent)] s \<and>
    sys_prog s 1 = mpsc_enqueue 5"
proof -
  have "\<exists>s. schedule [(1, Some (CEnqueue 5)), (1, None)] system_new =
      Some ([(1, Called (CEnqueue (5 :: nat))), (1, Silent)], s) \<and> sys_prog s 1 = mpsc_enqueue 5"
    by (simp add: system_new_def counted_enqueue_def)
  moreover have "\<forall>a\<in>set [(1, Some (CEnqueue 5)), (1, None)]. \<forall>k. snd a = Some k \<longrightarrow> one_reader (fst a) k"
    by (simp add: one_reader_def)
  ultimately show ?thesis
    using schedule_reaches by metis
qed

lemma one_reader_push_and_take:
  "\<exists>s tr. msteps one_reader system_new tr s \<and> pushes tr = [5] \<and> sys_prog s 0 = [] \<and> last_call 0 tr = Some (CDequeue, [Took 5])"
proof -
  let ?as = "[(0, Some CDequeue), (0, None), (1, Some (CEnqueue 5)), (1, None), (1, None), (0, None), (1, None), (1, None), (1, None),
    (1, None), (1, None), (1, None), (1, None), (0, None), (0, None), (0, None), (0, None), (0, None), (0, None), (0, None)]"
  have "\<exists>tr s. schedule ?as system_new = Some (tr, s :: nat system) \<and> pushes tr = [5] \<and> sys_prog s 0 = [] \<and>
      last_call 0 tr = Some (CDequeue, [Took 5])"
    by (simp add: system_new_def counted_new_def prog_defs guard_defs dq_defs last_call_def)
  moreover have "\<forall>a\<in>set ?as. \<forall>k. snd a = Some k \<longrightarrow> one_reader (fst a) k"
    by (simp add: one_reader_def)
  ultimately show ?thesis
    using schedule_reaches by metis
qed

theorem queue_is_fifo_under_interleaving_witness:
  "\<exists>s tr. msteps one_reader system_new tr s \<and> takes tr @ queue_view (sys_queue s) = [5] \<and>
    last_call 0 tr = Some (CDequeue, [Took 5]) \<and> one_take (sys_worker s 0) = [Took 5]"
proof -
  obtain s tr where s: "msteps one_reader system_new tr s" "pushes tr = [5]" "sys_prog s 0 = []"
    "last_call 0 tr = Some (CDequeue, [Took 5])"
    using one_reader_push_and_take by blast
  have "pushes tr = takes tr @ queue_view (sys_queue s)" "did CDequeue [Took 5] (sys_worker s 0)"
    using queue_is_fifo_under_interleaving [OF s(1)] s(3,4) by blast+
  then show ?thesis using s by (metis did.simps(4))
qed

text \<open>
  C11: as long as one thread consumes (dequeues or asks \<open>HasItems\<close>), no access guard of the
  queues ever fails, at most one thread is at an instruction that touches the items, and
  some thread can go on whenever one has work left: the two mutexes cannot deadlock.
\<close>

theorem queue_threads_exclusive:
  assumes "msteps client system_new tr s" and "one_consumer client c"
  shows "(\<forall>t ev s'. mstep client s (t, ev) s' \<longrightarrow> ev \<noteq> Failed) \<and>
    (\<forall>t t'. touches_items (sys_prog s t) \<and> touches_items (sys_prog s t') \<longrightarrow> t = t') \<and>
    (\<forall>t. sys_prog s t \<noteq> [] \<longrightarrow> (\<exists>t' ev s'. sys_prog s t' \<noteq> [] \<and> mstep client s (t', ev) s'))"
proof -
  have inv: "sys_inv c s"
    using sys_inv_reachable [OF assms(1) sys_inv_new assms(2)] .
  show ?thesis
    using no_fault_step [OF inv, of client] one_at_the_items [OF inv] progress [OF inv] by fastforce
qed

theorem queue_threads_exclusive_witness:
  "\<exists>s tr. msteps one_reader system_new tr s \<and> sys_prog s 1 \<noteq> [] \<and>
    (\<exists>t' ev s'. sys_prog s t' \<noteq> [] \<and> mstep one_reader s (t', ev) s')"
proof -
  have "one_consumer one_reader 0"
    unfolding one_consumer_def one_reader_def by (intro allI impI) (case_tac k; simp)
  moreover obtain s where s: "msteps one_reader system_new [(1, Called (CEnqueue 5)), (1, Silent)] s"
    "sys_prog s 1 = mpsc_enqueue 5"
    using one_reader_first_steps by blast
  moreover have "mpsc_enqueue (5 :: nat) \<noteq> []" by (simp add: mpsc_enqueue_def)
  ultimately show ?thesis
    using queue_threads_exclusive by metis
qed

text \<open>
  \<open>MPSCQueueCounted::Size\<close> is never below the number of items stored, under any
  interleaving of the counted operations: it is that number plus one for each thread that
  has announced an item not yet pushed or removed one not yet discounted, so it is exact
  when all threads are at rest.
\<close>

theorem queue_size_counts_items:
  assumes "msteps client system_new tr s" and "counted_clients client T"
    and "length (sq_data (sys_queue s)) + 2 * card T < 2 ^ 64"
  shows "unat (cq_size (sys_queue s)) =
      length (sq_data (sys_queue s)) + (\<Sum>t\<in>T. due (sys_prog s t) (sys_worker s t)) \<and>
    ((\<forall>t. sys_prog s t = []) \<longrightarrow> unat (cq_size (sys_queue s)) = length (sq_data (sys_queue s)))"
proof -
  let ?D = "\<Sum>t\<in>T. due (sys_prog s t) (sys_worker s t)"
  have "?D \<le> (\<Sum>t\<in>T. 2)"
    by (rule sum_mono) (simp add: due_def of_bool_def)
  then have "length (sq_data (sys_queue s)) + ?D < 2 ^ 64"
    using assms(3) by simp
  then have "unat (of_nat (length (sq_data (sys_queue s)) + ?D) :: 64 word) = length (sq_data (sys_queue s)) + ?D"
    unfolding unat_of_nat by simp
  moreover have "cq_size (sys_queue s) = of_nat (length (sq_data (sys_queue s)) + ?D)"
    using size_inv_reachable [OF assms(1) size_inv_new assms(2)] unfolding size_inv_def by blast
  ultimately have "unat (cq_size (sys_queue s)) = length (sq_data (sys_queue s)) + ?D"
    by metis
  then show ?thesis by simp
qed

theorem queue_size_counts_items_witness:
  "\<exists>s tr. msteps one_reader system_new tr s \<and> sys_prog s 1 = mpsc_enqueue 5 \<and>
    unat (cq_size (sys_queue s)) = length (sq_data (sys_queue s)) +
      (\<Sum>t\<in>{0, 1, 2}. due (sys_prog s t) (sys_worker s t))"
proof -
  have c: "counted_clients one_reader {0, 1, 2}"
    by (auto simp: counted_clients_def one_reader_def split: call.splits if_splits)
  obtain s where s: "msteps one_reader system_new [(1, Called (CEnqueue 5)), (1, Silent)] s"
    "sys_prog s 1 = mpsc_enqueue 5"
    using one_reader_first_steps by blast
  have "pushes [(1, Called (CEnqueue 5)), (1, Silent)] = ([] :: nat list)" by simp
  then have "sq_data (sys_queue s) = []"
    using queue_history [OF s(1)] by (simp add: queue_view_def)
  then show ?thesis
    using queue_size_counts_items [OF s(1) c] s by auto
qed

text \<open>
  \<open>MPSCQueue::HasItems\<close> is not safe beside the consumer: it takes the writers' mutex, which
  \<open>Dequeue\<close> does not hold, and then starts writing on the inner queue's read guard.  When a
  thread asks while the consumer is in the middle of a \<open>Dequeue\<close>, the guard fails, and with
  it the program.
\<close>

theorem has_items_fails_beside_dequeue:
  "\<exists>tr s s'. msteps (\<lambda>t k. t = 0 \<and> k = MDequeue \<or> t = 1 \<and> k = MHasItems) system_new tr s \<and>
    mstep (\<lambda>t k. t = 0 \<and> k = MDequeue \<or> t = 1 \<and> k = MHasItems) s (1, Failed) (s' :: nat system)"
proof -
  let ?cl = "\<lambda>t k. t = 0 \<and> k = MDequeue \<or> t = 1 \<and> k = (MHasItems :: nat call)"
  let ?as = "[(0, Some MDequeue), (0, None), (0, None), (1, Some MHasItems), (1, None)]"
  have "\<exists>tr s. schedule ?as system_new = Some (tr, s :: nat system) \<and>
      sys_prog s 1 = spsc_has_items @ [IUnlock Outer] \<and> sq_read_guard (sys_queue s) = -1"
    by (simp add: system_new_def counted_new_def prog_defs guard_defs)
  then obtain tr and s :: "nat system" where s: "schedule ?as system_new = Some (tr, s)"
    "sys_prog s 1 = spsc_has_items @ [IUnlock Outer]" "sq_read_guard (sys_queue s) = -1"
    by blast
  have p: "sys_prog s 1 = IStart ReadGuard # (tl spsc_has_items @ [IUnlock Outer])"
    unfolding s(2) by (simp add: prog_defs)
  have "msteps ?cl system_new tr s"
    by (rule schedule_reaches [OF s(1)]) auto
  moreover have "mstep ?cl s (1, Failed) s"
    by (rule mstep.Fail [OF p, where e = AssertFail]) (simp add: s(3) guard_defs)
  ultimately show ?thesis by blast
qed

text \<open>
  For one thread, what is enqueued comes out of \<open>DequeueAll\<close>, in order and once each;
  the loop ends with the queue empty after one round per item and a last one, the locks
  released, the guards free and the counter at zero.
\<close>

theorem dequeue_all_empties_queue:
  assumes "counted_idle q"
  shows "\<exists>q' q'' w. push_all counted_push xs q = Inr q' \<and>
    run (10 * Suc (length (queue_view q) + length xs)) counted_dequeue_all q' worker_new = Some (Inr (q'', w)) \<and>
    wk_seen w = queue_view q @ xs \<and> queue_view q'' = [] \<and> counted_idle q'' \<and> cq_size q'' = 0"
proof -
  obtain q' where q': "push_all counted_push xs q = Inr q'" "counted_idle q'" "queue_view q' = queue_view q @ xs"
    using cq.push_all_ok [OF assms] by blast
  have len: "length (sq_data q') = length (queue_view q) + length xs"
    using q'(3) by (metis length_append length_rev queue_view_def)
  obtain q'' w where "run (10 * Suc (length (queue_view q) + length xs)) counted_dequeue_all q' worker_new = Some (Inr (q'', w))"
    "counted_idle q''" "sq_data q'' = []" "wk_seen w = wk_seen worker_new @ queue_view q'"
    using run_dequeue_all [OF q'(2) len, of 0 worker_new] by auto
  then show ?thesis
    using q' by (auto simp: worker_new_def queue_view_def counted_idle_def)
qed

theorem dequeue_all_empties_queue_witness:
  "\<exists>q' q'' w. push_all counted_push [1, 2, 3 :: nat] counted_new = Inr q' \<and>
    run 40 counted_dequeue_all q' worker_new = Some (Inr (q'', w)) \<and> wk_seen w = [1, 2, 3]"
proof -
  have n: "counted_idle (counted_new :: nat counted)" "queue_view (counted_new :: nat counted) = []"
    by (simp_all add: counted_idle_def counted_new_def queue_view_def)
  have "10 * Suc (length ([] :: nat list) + length [1, 2, 3 :: nat]) = 40" by simp
  then show ?thesis
    using dequeue_all_empties_queue [OF n(1), of "[1, 2, 3]"] unfolding n(2) by (metis append_Nil)
qed

end
