(* ===== verification/DenseQueues.thy ===== *)
theory DenseQueues
  imports Interfaces "HOL-Library.Multiset"
begin

text \<open>
  \<^verbatim>\<open>ion/container/DensePriorityQueue.h\<close>: a priority queue for elements whose priorities
  lie close together.  Priorities from \<open>mCurrentIndex\<close> up to \<open>TShortRange\<close> further have a
  vector each, addressed modulo \<open>TShortRange\<close>; the rest waits in a heap.

  \<open>prio\<close> is the elements' \<open>GetPriority\<close>, \<open>n\<close> is \<open>TShortRange\<close>, \<open>c\<close> the width of
  \<open>TIndex\<close>.  The vectors are lists (\<^verbatim>\<open>ArenaVectors\<close> shows that they behave as such); the
  heap is \<^verbatim>\<open>ion/container/PriorityQueue.h\<close> over \<open>std::priority_queue\<close>, whose order puts the
  least priority on top, which of equal ones being its choice (here the oldest).  A priority that
  becomes an index is cut to \<open>c\<close> bits without a check, one that is compared is not.  Indices
  are \<open>nat\<close>: \<open>Push\<close> asserts that an index leaves room for the short range above it, so
  the sums do not leave \<open>TIndex\<close> (the invariant \<open>dp_ok\<close> contains that bound).
\<close>

section \<open>PriorityQueue\<close>

definition pq_push :: "('a \<Rightarrow> nat) \<Rightarrow> 'a \<Rightarrow> 'a list \<Rightarrow> 'a list" where
  "pq_push prio x q = takeWhile (\<lambda>y. prio y \<le> prio x) q @ x # dropWhile (\<lambda>y. prio y \<le> prio x) q"

definition pq_top :: "'a list \<Rightarrow> 'a res" where
  "pq_top q = assertR (q \<noteq> []) (Inr (hd q))"

definition pq_pop :: "'a list \<Rightarrow> 'a list res" where
  "pq_pop q = (if q = [] then Inl BadAccess else Inr (tl q))"

section \<open>State and helpers\<close>

record 'a dpq =
  dp_short :: "'a list list"
  dp_long :: "'a list"
  dp_cur :: nat

definition dp_new :: "nat \<Rightarrow> 'a dpq" where
  "dp_new n = \<lparr>dp_short = replicate n [], dp_long = [], dp_cur = 0\<rparr>"

definition dp_slot :: "nat \<Rightarrow> nat \<Rightarrow> 'a dpq \<Rightarrow> 'a list" where
  "dp_slot n i d = dp_short d ! (i mod n)"

definition dp_is_empty :: "nat \<Rightarrow> 'a dpq \<Rightarrow> bool" where
  "dp_is_empty n d \<longleftrightarrow> dp_slot n (dp_cur d) d = []"

text \<open>\<open>long_at_least\<close> and \<open>slot_holds\<close> are the two conditions that the code asserts.\<close>

definition long_at_least :: "('a \<Rightarrow> nat) \<Rightarrow> nat \<Rightarrow> 'a dpq \<Rightarrow> bool" where
  "long_at_least prio k d \<longleftrightarrow> dp_long d = [] \<or> prio (hd (dp_long d)) \<ge> k"

definition slot_holds :: "('a \<Rightarrow> nat) \<Rightarrow> nat \<Rightarrow> nat \<Rightarrow> 'a dpq \<Rightarrow> bool" where
  "slot_holds prio n i d \<longleftrightarrow> dp_slot n i d \<noteq> [] \<and> prio (last (dp_slot n i d)) = i"

definition dp_in_range :: "nat \<Rightarrow> nat \<Rightarrow> 'a dpq \<Rightarrow> bool" where
  "dp_in_range n i d \<longleftrightarrow> dp_cur d \<le> i \<and> i - dp_cur d < n"

definition dp_add_short :: "('a \<Rightarrow> nat) \<Rightarrow> nat \<Rightarrow> nat \<Rightarrow> 'a \<Rightarrow> 'a dpq \<Rightarrow> 'a dpq res" where
  "dp_add_short prio n i x d =
     assertR (dp_in_range n i d)
     (assertR (dp_slot n i d = [] \<or> slot_holds prio n i d)
     (assertR (prio x = i)
       (Inr (d\<lparr>dp_short := (dp_short d)[i mod n := dp_slot n i d @ [x]]\<rparr>))))"

text \<open>The loop of \<open>MoveToShortRange\<close>; the list is the heap that is left.\<close>

fun to_short_loop :: "('a \<Rightarrow> nat) \<Rightarrow> nat \<Rightarrow> nat \<Rightarrow> 'a list \<Rightarrow> 'a dpq \<Rightarrow> 'a dpq res" where
  "to_short_loop prio n i [] d = Inr (d\<lparr>dp_long := []\<rparr>)"
| "to_short_loop prio n i (x # q) d =
     (if prio x = i
      then assertR (dp_slot n i d = [] \<or> slot_holds prio n i d)
        (bindR (dp_add_short prio n i x d) (to_short_loop prio n i q))
      else Inr (d\<lparr>dp_long := x # q\<rparr>))"

definition dp_to_short :: "('a \<Rightarrow> nat) \<Rightarrow> nat \<Rightarrow> nat \<Rightarrow> 'a dpq \<Rightarrow> 'a dpq res" where
  "dp_to_short prio n i d =
     assertR (long_at_least prio i d)
     (bindR (to_short_loop prio n i (dp_long d) d) (\<lambda>d'.
       assertR (long_at_least prio (Suc i) d') (Inr d')))"

fun to_long_loop :: "('a \<Rightarrow> nat) \<Rightarrow> nat \<Rightarrow> 'a list \<Rightarrow> 'a list \<Rightarrow> 'a list res" where
  "to_long_loop prio i [] q = Inr q"
| "to_long_loop prio i (x # xs) q = assertR (prio x = i) (to_long_loop prio i xs (pq_push prio x q))"

definition dp_to_long :: "('a \<Rightarrow> nat) \<Rightarrow> nat \<Rightarrow> nat \<Rightarrow> 'a dpq \<Rightarrow> 'a dpq res" where
  "dp_to_long prio n i d =
     assertR (dp_in_range n i d)
     (bindR (to_long_loop prio i (dp_slot n i d) (dp_long d)) (\<lambda>q.
       Inr (d\<lparr>dp_short := (dp_short d)[i mod n := []], dp_long := q\<rparr>)))"

text \<open>A counting loop whose body may fail.\<close>

fun forR :: "('i \<Rightarrow> 's \<Rightarrow> 's res) \<Rightarrow> 'i list \<Rightarrow> 's \<Rightarrow> 's res" where
  "forR f [] s = Inr s"
| "forR f (i # is) s = bindR (f i s) (forR f is)"

section \<open>Operations\<close>

definition dp_push :: "('a \<Rightarrow> nat) \<Rightarrow> nat \<Rightarrow> nat \<Rightarrow> 'a \<Rightarrow> 'a dpq \<Rightarrow> 'a dpq res" where
  "dp_push prio c n x d = (let index = trunc c (prio x) in
     assertR (index \<le> 2 ^ c - 1 - n)
     (bindR
       (if index < dp_cur d
        then
          assertR (long_at_least prio (dp_cur d + n) d)
          (let end = max (index + n) (dp_cur d) in
           bindR (forR (dp_to_long prio n) (rev [end ..< dp_cur d + n]) d) (\<lambda>d1.
           assertR (long_at_least prio (dp_cur d1) d1)
           (let d2 = d1\<lparr>dp_cur := index\<rparr> in
            bindR (if dp_long d2 \<noteq> []
                   then bindR (pq_top (dp_long d2)) (\<lambda>t. forR (dp_to_short prio n) [trunc c (prio t) ..< index + n] d2)
                   else Inr d2) (\<lambda>d3.
            assertR (long_at_least prio (dp_cur d3 + n) d3)
            (dp_add_short prio n (dp_cur d3) x d3)))))
        else if dp_is_empty n d
        then (let d1 = d\<lparr>dp_cur := index\<rparr> in
          assertR (dp_slot n (dp_cur d1) d1 = []) (dp_add_short prio n (dp_cur d1) x d1))
        else if index - dp_cur d < n
        then dp_add_short prio n index x d
        else (let d1 = d\<lparr>dp_long := pq_push prio x (dp_long d)\<rparr> in
          bindR (pq_top (dp_long d1)) (\<lambda>t. assertR (prio t \<ge> dp_cur d1 + n) (Inr d1))))
       (\<lambda>d'. assertR (\<not> dp_is_empty n d') (Inr d'))))"

definition dp_top :: "('a \<Rightarrow> nat) \<Rightarrow> nat \<Rightarrow> 'a dpq \<Rightarrow> 'a res" where
  "dp_top prio n d = assertR (slot_holds prio n (dp_cur d) d) (Inr (last (dp_slot n (dp_cur d) d)))"

definition dp_top_list :: "nat \<Rightarrow> 'a dpq \<Rightarrow> 'a list" where
  "dp_top_list n d = dp_slot n (dp_cur d) d"

text \<open>The \<open>do ... while\<close> of \<open>Advance\<close>: the next index below \<open>bound\<close> with elements, or
  \<open>bound\<close>.\<close>

function scan_short :: "nat \<Rightarrow> nat \<Rightarrow> 'a list list \<Rightarrow> nat \<Rightarrow> nat" where
  "scan_short n bound short cur =
     (let cur' = cur + 1 in
      if cur' < bound \<and> short ! (cur' mod n) = [] then scan_short n bound short cur' else cur')"
  by auto
termination by (relation "measure (\<lambda>(n, bound, short, cur). bound - cur)") auto

declare scan_short.simps [simp del]

definition dp_advance :: "('a \<Rightarrow> nat) \<Rightarrow> nat \<Rightarrow> nat \<Rightarrow> 'a dpq \<Rightarrow> 'a dpq res" where
  "dp_advance prio c n d =
     assertR (dp_slot n (dp_cur d) d = [])
     (let d1 = d\<lparr>dp_cur := scan_short n (dp_cur d + n) (dp_short d) (dp_cur d)\<rparr> in
      bindR
        (if dp_slot n (dp_cur d1) d1 = []
         then if dp_long d1 \<noteq> []
           then bindR (pq_top (dp_long d1)) (\<lambda>t.
             let d2 = d1\<lparr>dp_cur := trunc c (prio t)\<rparr> in
             bindR (forR (dp_to_short prio n) [dp_cur d2 ..< dp_cur d2 + n] d2) (\<lambda>d3.
             assertR (slot_holds prio n (dp_cur d3) d3) (Inr d3)))
           else Inr (d1\<lparr>dp_cur := 0\<rparr>)
         else if dp_long d1 \<noteq> []
         then assertR (slot_holds prio n (dp_cur d1) d1)
           (bindR (pq_top (dp_long d1)) (\<lambda>t.
            bindR (forR (dp_to_short prio n) [max (trunc c (prio t)) (dp_cur d1 + 1) ..< dp_cur d1 + n] d1) (\<lambda>d3.
            assertR (slot_holds prio n (dp_cur d3) d3) (Inr d3))))
         else Inr d1)
        (\<lambda>d'. assertR (long_at_least prio (dp_cur d' + n) d') (Inr d')))"

definition dp_pop :: "('a \<Rightarrow> nat) \<Rightarrow> nat \<Rightarrow> nat \<Rightarrow> 'a dpq \<Rightarrow> 'a dpq res" where
  "dp_pop prio c n d =
     assertR (dp_slot n (dp_cur d) d \<noteq> [])
     (let d1 = d\<lparr>dp_short := (dp_short d)[dp_cur d mod n := butlast (dp_slot n (dp_cur d) d)]\<rparr> in
      bindR (if dp_slot n (dp_cur d1) d1 = [] then dp_advance prio c n d1 else Inr d1) (\<lambda>d'.
      assertR (\<not> dp_is_empty n d' \<or> dp_long d' = [])
      (assertR (long_at_least prio (dp_cur d' + n) d') (Inr d'))))"

definition dp_pop_list :: "('a \<Rightarrow> nat) \<Rightarrow> nat \<Rightarrow> nat \<Rightarrow> 'a dpq \<Rightarrow> 'a dpq res" where
  "dp_pop_list prio c n d =
     dp_advance prio c n (d\<lparr>dp_short := (dp_short d)[dp_cur d mod n := []]\<rparr>)"

text \<open>Assignment: each vector is copied or cleared.\<close>

definition dp_assign :: "nat \<Rightarrow> 'a dpq \<Rightarrow> 'a dpq \<Rightarrow> 'a dpq" where
  "dp_assign n other d =
     \<lparr>dp_short = map (\<lambda>i. if dp_short other ! i \<noteq> [] then dp_short other ! i else []) [0..<n],
      dp_long = dp_long other, dp_cur = dp_cur other\<rparr>"

section \<open>Invariant\<close>

definition dp_slots_ok :: "('a \<Rightarrow> nat) \<Rightarrow> nat \<Rightarrow> 'a dpq \<Rightarrow> bool" where
  "dp_slots_ok prio n d \<longleftrightarrow> 0 < n \<and> length (dp_short d) = n \<and>
     (\<forall>p x. dp_cur d \<le> p \<longrightarrow> p < dp_cur d + n \<longrightarrow> x \<in> set (dp_slot n p d) \<longrightarrow> prio x = p)"

definition dp_view :: "'a dpq \<Rightarrow> 'a multiset" where
  "dp_view d = mset (concat (dp_short d)) + mset (dp_long d)"

definition dp_ok :: "('a \<Rightarrow> nat) \<Rightarrow> nat \<Rightarrow> nat \<Rightarrow> 'a dpq \<Rightarrow> bool" where
  "dp_ok prio c n d \<longleftrightarrow> dp_slots_ok prio n d \<and> sorted (map prio (dp_long d)) \<and>
     (\<forall>x\<in>set (dp_long d). dp_cur d + n \<le> prio x) \<and> dp_cur d + n < 2 ^ c \<and>
     (\<forall>x\<in>#dp_view d. prio x + n < 2 ^ c) \<and>
     (dp_is_empty n d \<longrightarrow> dp_cur d = 0 \<and> dp_view d = {#})"

lemma mod_window:
  assumes "a \<le> p" "p < a + n" "a \<le> i" "i < a + (n :: nat)" "p mod n = i mod n"
  shows "p = i"
proof -
  have "n dvd (p - i)" "n dvd (i - p)"
    using assms(5) mod_eq_dvd_iff_nat [of i p n] mod_eq_dvd_iff_nat [of p i n] by (cases "i \<le> p"; auto)+
  moreover have "p - i < n" "i - p < n" using assms(1-4) by auto
  ultimately show ?thesis by (meson nat_dvd_not_less diff_is_0_eq' le_antisym not_gr0 zero_less_diff not_le)
qed

lemma dp_slot_update:
  assumes "length (dp_short d) = n" "0 < n"
  shows "dp_slot n p (d\<lparr>dp_short := (dp_short d)[i mod n := ys]\<rparr>) =
    (if p mod n = i mod n then ys else dp_slot n p d)"
  using assms by (simp add: dp_slot_def)

lemma dp_slot_simps [simp]:
  "dp_slot n p (d\<lparr>dp_long := q\<rparr>) = dp_slot n p d" "dp_slot n p (d\<lparr>dp_cur := k\<rparr>) = dp_slot n p d"
  "dp_slot n p (d\<lparr>dp_short := s, dp_long := q\<rparr>) = dp_slot n p (d\<lparr>dp_short := s\<rparr>)"
  by (simp_all add: dp_slot_def)

lemma mset_concat_update:
  "k < length xss \<Longrightarrow> mset (concat (xss[k := ys])) + mset (xss ! k) = mset (concat xss) + mset ys"
proof (induction xss arbitrary: k)
  case (Cons xs xss)
  then show ?case by (cases k) (simp_all add: ac_simps)
qed simp

lemma dp_view_update:
  assumes "length (dp_short d) = n" "0 < n"
  shows "dp_view (d\<lparr>dp_short := (dp_short d)[i mod n := ys], dp_long := q\<rparr>) + mset (dp_slot n i d) + mset (dp_long d)
    = dp_view d + mset ys + mset q"
  using mset_concat_update [of "i mod n" "dp_short d" ys] assms
  by (simp add: dp_view_def dp_slot_def ac_simps)

lemma slots_okD:
  assumes "dp_slots_ok prio n d"
  shows "0 < n" "length (dp_short d) = n"
    "dp_cur d \<le> p \<Longrightarrow> p < dp_cur d + n \<Longrightarrow> x \<in> set (dp_slot n p d) \<Longrightarrow> prio x = p"
  using assms by (auto simp: dp_slots_ok_def)

lemma slots_ok_update:
  assumes "dp_slots_ok prio n d" "dp_cur d \<le> i" "i < dp_cur d + n" "\<forall>x\<in>set ys. prio x = i"
  shows "dp_slots_ok prio n (d\<lparr>dp_short := (dp_short d)[i mod n := ys]\<rparr>)"
  using assms mod_window [of "dp_cur d" _ n i]
  unfolding dp_slots_ok_def by (auto simp: dp_slot_update split: if_splits)

lemma slots_ok_long: "dp_slots_ok prio n (d\<lparr>dp_long := q\<rparr>) = dp_slots_ok prio n d"
  by (simp add: dp_slots_ok_def)

lemma slot_room:
  assumes "dp_slots_ok prio n d" "dp_cur d \<le> i" "i < dp_cur d + n"
  shows "dp_slot n i d = [] \<or> slot_holds prio n i d"
  using slots_okD(3) [OF assms] by (auto simp: slot_holds_def)

lemma add_short_ok:
  assumes "dp_slots_ok prio n d" "dp_cur d \<le> prio x" "prio x < dp_cur d + n"
  shows "dp_add_short prio n (prio x) x d =
    Inr (d\<lparr>dp_short := (dp_short d)[prio x mod n := dp_slot n (prio x) d @ [x]]\<rparr>)"
  using slot_room [OF assms] assms(2,3) by (auto simp: dp_add_short_def dp_in_range_def)

lemma to_short_loop_ok:
  assumes "dp_slots_ok prio n d" "dp_cur d \<le> i" "i < dp_cur d + n"
  shows "to_short_loop prio n i q d =
    Inr (d\<lparr>dp_short := (dp_short d)[i mod n := dp_slot n i d @ takeWhile (\<lambda>x. prio x = i) q],
           dp_long := dropWhile (\<lambda>x. prio x = i) q\<rparr>)"
  using assms
proof (induction q arbitrary: d)
  case Nil
  then show ?case by (simp add: dp_slot_def)
next
  case (Cons x q)
  show ?case
  proof (cases "prio x = i")
    case True
    let ?d = "d\<lparr>dp_short := (dp_short d)[i mod n := dp_slot n i d @ [x]]\<rparr>"
    have "\<forall>y\<in>set (dp_slot n i d @ [x]). prio y = i"
      using True slots_okD(3) [OF Cons.prems] by auto
    then have ok: "dp_slots_ok prio n ?d"
      using slots_ok_update [OF Cons.prems, of "dp_slot n i d @ [x]"] by simp
    have slot: "dp_slot n i ?d = dp_slot n i d @ [x]"
      using slots_okD(1,2) [OF Cons.prems(1)] by (simp add: dp_slot_update)
    show ?thesis
      using True add_short_ok [of prio n d x] slot_room [OF Cons.prems] Cons.IH [OF ok] Cons.prems
      by (simp add: slot)
  next
    case False
    then show ?thesis by (simp add: dp_slot_def)
  qed
qed

lemma prio_dropWhile_ge:
  assumes "sorted (map prio q)" "\<forall>x\<in>set q. i \<le> prio x"
  shows "\<forall>x\<in>set (dropWhile (\<lambda>x. prio x = i) q). Suc i \<le> prio x"
  using assms
proof (induction q)
  case (Cons x q)
  then show ?case by (cases "prio x = i") force+
qed simp

lemma to_short_ok:
  assumes "dp_slots_ok prio n d" "dp_cur d \<le> i" "i < dp_cur d + n"
    "sorted (map prio (dp_long d))" "\<forall>x\<in>set (dp_long d). i \<le> prio x"
  shows "dp_to_short prio n i d =
    Inr (d\<lparr>dp_short := (dp_short d)[i mod n := dp_slot n i d @ takeWhile (\<lambda>x. prio x = i) (dp_long d)],
           dp_long := dropWhile (\<lambda>x. prio x = i) (dp_long d)\<rparr>)"
proof -
  have "long_at_least prio i d"
    using assms(5) by (cases "dp_long d") (auto simp: long_at_least_def)
  moreover have "dropWhile (\<lambda>x. prio x = i) (dp_long d) = [] \<or>
    Suc i \<le> prio (hd (dropWhile (\<lambda>x. prio x = i) (dp_long d)))"
    using prio_dropWhile_ge [OF assms(4,5)] by (metis list.set_sel(1))
  ultimately show ?thesis
    by (simp add: dp_to_short_def to_short_loop_ok [OF assms(1-3)] long_at_least_def)
qed

text \<open>What a run of \<open>MoveToShortRange\<close> up to the end of the short range leaves.\<close>

definition pulled :: "('a \<Rightarrow> nat) \<Rightarrow> nat \<Rightarrow> 'a dpq \<Rightarrow> 'a dpq \<Rightarrow> bool" where
  "pulled prio n d d' \<longleftrightarrow> dp_slots_ok prio n d' \<and> dp_cur d' = dp_cur d \<and> dp_view d' = dp_view d \<and>
     sorted (map prio (dp_long d')) \<and> (\<forall>x\<in>set (dp_long d'). dp_cur d + n \<le> prio x) \<and>
     (\<forall>p. dp_cur d \<le> p \<longrightarrow> p < dp_cur d + n \<longrightarrow> set (dp_slot n p d) \<subseteq> set (dp_slot n p d')) \<and>
     (\<forall>x\<in>set (dp_long d). prio x < dp_cur d + n \<longrightarrow> x \<in> set (dp_slot n (prio x) d'))"

lemma to_short_run:
  assumes "dp_slots_ok prio n d" "dp_cur d \<le> i" "sorted (map prio (dp_long d))"
    "\<forall>x\<in>set (dp_long d). i \<le> prio x" "i \<le> dp_cur d + n"
  shows "\<exists>d'. forR (dp_to_short prio n) [i ..< dp_cur d + n] d = Inr d' \<and> pulled prio n d d'"
  using assms
proof (induction "dp_cur d + n - i" arbitrary: i d)
  case 0
  then show ?case by (auto simp: pulled_def)
next
  case (Suc k)
  have i: "i < dp_cur d + n" using Suc.hyps(2) by simp
  let ?t = "takeWhile (\<lambda>x. prio x = i) (dp_long d)" and ?r = "dropWhile (\<lambda>x. prio x = i) (dp_long d)"
  let ?d = "d\<lparr>dp_short := (dp_short d)[i mod n := dp_slot n i d @ ?t], dp_long := ?r\<rparr>"
  note D = slots_okD [OF Suc.prems(1)]
  have step: "dp_to_short prio n i d = Inr ?d"
    using to_short_ok Suc.prems i by blast
  have "\<forall>x\<in>set (dp_slot n i d @ ?t). prio x = i"
    using D(3) [of i] Suc.prems(2) i by (auto dest: set_takeWhileD)
  then have ok: "dp_slots_ok prio n ?d"
    using slots_ok_update [OF Suc.prems(1,2) i] by (simp add: slots_ok_long)
  have "sorted (map prio (?t @ ?r))"
    using Suc.prems(3) by (simp only: takeWhile_dropWhile_id)
  then have sorted: "sorted (map prio ?r)"
    unfolding map_append sorted_append by blast
  have "\<exists>d'. forR (dp_to_short prio n) [Suc i ..< dp_cur ?d + n] ?d = Inr d' \<and> pulled prio n ?d d'"
    using Suc.hyps(1) [of ?d "Suc i"] Suc.hyps(2) Suc.prems(2) ok sorted prio_dropWhile_ge [OF Suc.prems(3,4)] i
    by simp
  then obtain d' where d': "forR (dp_to_short prio n) [Suc i ..< dp_cur d + n] ?d = Inr d'" "pulled prio n ?d d'"
    by auto
  have view: "dp_view ?d = dp_view d"
    using dp_view_update [OF D(2,1), where i = i and ys = "dp_slot n i d @ ?t" and q = ?r]
      mset_append [of ?t ?r] by (simp add: ac_simps)
  have slot: "dp_slot n p ?d = (if p mod n = i mod n then dp_slot n i d @ ?t else dp_slot n p d)" for p
    using D(1,2) by (simp add: dp_slot_update)
  have grow: "set (dp_slot n p d) \<subseteq> set (dp_slot n p ?d)" for p
    unfolding slot by (auto simp: dp_slot_def)
  have P: "dp_slots_ok prio n d'" "dp_cur d' = dp_cur d" "dp_view d' = dp_view d" "sorted (map prio (dp_long d'))"
    "\<forall>x\<in>set (dp_long d'). dp_cur d + n \<le> prio x"
    and sub: "\<And>p. dp_cur d \<le> p \<Longrightarrow> p < dp_cur d + n \<Longrightarrow> set (dp_slot n p ?d) \<subseteq> set (dp_slot n p d')"
    and rest: "\<And>x. x \<in> set ?r \<Longrightarrow> prio x < dp_cur d + n \<Longrightarrow> x \<in> set (dp_slot n (prio x) d')"
    using d'(2) view unfolding pulled_def by simp_all
  have "x \<in> set (dp_slot n (prio x) d')" if x: "x \<in> set (dp_long d)" "prio x < dp_cur d + n" for x
  proof (cases "x \<in> set ?t")
    case True
    then have "prio x = i" by (auto dest: set_takeWhileD)
    then show ?thesis using sub [of i] slot [of i] True Suc.prems(2) i by auto
  next
    case False
    then have "x \<in> set ?r"
      using x(1) by (metis Un_iff set_append takeWhile_dropWhile_id)
    then show ?thesis using rest x(2) by blast
  qed
  then have "pulled prio n d d'"
    using P sub grow unfolding pulled_def by (meson subset_trans)
  then show ?case
    using step d'(1) i by (simp add: upt_conv_Cons)
qed

lemma pq_push_mset: "mset (pq_push prio x q) = add_mset x (mset q)"
proof -
  have "mset (takeWhile (\<lambda>y. prio y \<le> prio x) q @ dropWhile (\<lambda>y. prio y \<le> prio x) q) = mset q"
    by (simp only: takeWhile_dropWhile_id)
  then show ?thesis unfolding pq_push_def by (simp del: takeWhile_dropWhile_id)
qed

lemma pq_push_set: "set (pq_push prio x q) = insert x (set q)"
  using arg_cong [OF pq_push_mset [of prio x q], of set_mset] by simp

lemma pq_push_sorted: "sorted (map prio q) \<Longrightarrow> sorted (map prio (pq_push prio x q))"
proof (induction q)
  case (Cons y q)
  then show ?case
  proof (cases "prio y \<le> prio x")
    case True
    have "pq_push prio x (y # q) = y # pq_push prio x q"
      using True by (simp add: pq_push_def)
    then show ?thesis using Cons True by (auto simp: pq_push_set)
  next
    case False
    then show ?thesis using Cons by (fastforce simp: pq_push_def)
  qed
qed (simp add: pq_push_def)

lemma to_long_loop_ok:
  assumes "\<forall>x\<in>set xs. prio x = i" "sorted (map prio q)"
  shows "\<exists>q'. to_long_loop prio i xs q = Inr q' \<and> mset q' = mset xs + mset q \<and> sorted (map prio q')"
  using assms
proof (induction xs arbitrary: q)
  case (Cons x xs)
  then show ?case
    using Cons.IH [of "pq_push prio x q"] pq_push_sorted [of prio q x] pq_push_mset [of prio x q] by auto
qed simp

text \<open>What moving the priorities from \<open>a\<close> on out of the short range leaves.\<close>

definition spilled :: "('a \<Rightarrow> nat) \<Rightarrow> nat \<Rightarrow> nat \<Rightarrow> nat \<Rightarrow> 'a dpq \<Rightarrow> 'a dpq \<Rightarrow> bool" where
  "spilled prio n a b d d' \<longleftrightarrow> dp_slots_ok prio n d' \<and> dp_cur d' = dp_cur d \<and> dp_view d' = dp_view d \<and>
     sorted (map prio (dp_long d')) \<and> (\<forall>x\<in>set (dp_long d'). x \<in> set (dp_long d) \<or> a \<le> prio x) \<and>
     (\<forall>p. a \<le> p \<longrightarrow> p < b \<longrightarrow> dp_slot n p d' = []) \<and>
     (\<forall>p. dp_cur d \<le> p \<longrightarrow> p < dp_cur d + n \<longrightarrow> \<not> (a \<le> p \<and> p < b) \<longrightarrow> dp_slot n p d' = dp_slot n p d)"

lemma to_long_ok:
  assumes ok: "dp_slots_ok prio n d" and i: "dp_cur d \<le> i" "i < dp_cur d + n" and s: "sorted (map prio (dp_long d))"
  shows "\<exists>d'. dp_to_long prio n i d = Inr d' \<and> spilled prio n i (Suc i) d d'"
proof -
  note D = slots_okD [OF ok]
  have all: "\<forall>x\<in>set (dp_slot n i d). prio x = i" using D(3) i by blast
  obtain q where q: "to_long_loop prio i (dp_slot n i d) (dp_long d) = Inr q"
    "mset q = mset (dp_slot n i d) + mset (dp_long d)" "sorted (map prio q)"
    using to_long_loop_ok [OF all s] by blast
  let ?d = "d\<lparr>dp_short := (dp_short d)[i mod n := []], dp_long := q\<rparr>"
  have "dp_to_long prio n i d = Inr ?d"
    using q(1) i by (simp add: dp_to_long_def dp_in_range_def)
  moreover have "dp_slots_ok prio n ?d"
    using slots_ok_update [OF ok i, of "[]"] by (simp add: slots_ok_long)
  moreover have "dp_view ?d = dp_view d"
    using dp_view_update [OF D(2,1), where i = i and ys = "[]" and q = q] q(2) by (simp add: ac_simps)
  moreover have "set q = set (dp_slot n i d) \<union> set (dp_long d)"
    using arg_cong [OF q(2), of set_mset] by simp
  moreover have "dp_slot n p ?d = (if p mod n = i mod n then [] else dp_slot n p d)" for p
    using D(1,2) by (simp add: dp_slot_update)
  ultimately show ?thesis
    using q(3) all mod_window [OF _ _ i] unfolding spilled_def by (auto simp: le_less_Suc_eq)
qed

lemma to_long_run:
  assumes "dp_slots_ok prio n d" "dp_cur d \<le> a" "b \<le> dp_cur d + n" "sorted (map prio (dp_long d))"
  shows "\<exists>d'. forR (dp_to_long prio n) (rev [a ..< b]) d = Inr d' \<and> spilled prio n a b d d'"
  using assms
proof (induction b arbitrary: d)
  case 0
  then show ?case by (auto simp: spilled_def)
next
  case (Suc b)
  show ?case
  proof (cases "a \<le> b")
    case False
    then show ?thesis using Suc.prems by (auto simp: spilled_def)
  next
    case True
    obtain d1 where d1: "dp_to_long prio n b d = Inr d1" "spilled prio n b (Suc b) d d1"
      using to_long_ok [OF Suc.prems(1) _ _ Suc.prems(4), of b] Suc.prems True by auto
    then have "\<exists>d'. forR (dp_to_long prio n) (rev [a ..< b]) d1 = Inr d' \<and> spilled prio n a b d1 d'"
      using Suc.IH [of d1] Suc.prems by (simp add: spilled_def)
    then obtain d' where d': "forR (dp_to_long prio n) (rev [a ..< b]) d1 = Inr d'" "spilled prio n a b d1 d'"
      by blast
    have e1: "dp_slot n b d1 = []" "\<And>p. dp_cur d \<le> p \<Longrightarrow> p < dp_cur d + n \<Longrightarrow> p \<noteq> b \<Longrightarrow> dp_slot n p d1 = dp_slot n p d"
      "\<forall>x\<in>set (dp_long d1). x \<in> set (dp_long d) \<or> b \<le> prio x" "dp_cur d1 = dp_cur d" "dp_view d1 = dp_view d"
      using d1(2) unfolding spilled_def by auto
    have e2: "dp_slots_ok prio n d'" "dp_cur d' = dp_cur d1" "dp_view d' = dp_view d1" "sorted (map prio (dp_long d'))"
      "\<forall>x\<in>set (dp_long d'). x \<in> set (dp_long d1) \<or> a \<le> prio x"
      "\<And>p. a \<le> p \<Longrightarrow> p < b \<Longrightarrow> dp_slot n p d' = []"
      "\<And>p. dp_cur d1 \<le> p \<Longrightarrow> p < dp_cur d1 + n \<Longrightarrow> \<not> (a \<le> p \<and> p < b) \<Longrightarrow> dp_slot n p d' = dp_slot n p d1"
      using d'(2) unfolding spilled_def by auto
    have "dp_slot n b d' = []"
      using e2(7) [of b] e1(1,4) Suc.prems(2,3) True by simp
    then have "spilled prio n a (Suc b) d d'"
      using e1 e2 True unfolding spilled_def by (auto simp: less_Suc_eq)
    then show ?thesis using d1(1) d'(1) True by auto
  qed
qed

text \<open>Elements of the short range, and of the whole queue.\<close>

lemma slot_index:
  assumes "k < n" shows "\<exists>p. a \<le> p \<and> p < a + n \<and> p mod n = (k :: nat)"
proof -
  let ?p = "a + (k + n - a mod n) mod n"
  have "0 < n" using assms by simp
  then have "?p mod n = (a mod n + (k + n - a mod n)) mod n" by (simp add: mod_simps)
  also have "a mod n + (k + n - a mod n) = k + n"
    using mod_less_divisor [OF \<open>0 < n\<close>, of a] by linarith
  also have "(k + n) mod n = k" using assms by simp
  finally show ?thesis using \<open>0 < n\<close> by (intro exI [of _ ?p]) auto
qed

lemma short_elements:
  assumes "dp_slots_ok prio n d" "x \<in> set (concat (dp_short d))"
  shows "x \<in> set (dp_slot n (prio x) d) \<and> dp_cur d \<le> prio x \<and> prio x < dp_cur d + n"
proof -
  obtain k where k: "k < length (dp_short d)" "x \<in> set (dp_short d ! k)"
    using assms(2) by (metis UN_E in_set_conv_nth set_concat)
  obtain p where p: "dp_cur d \<le> p" "p < dp_cur d + n" "p mod n = k"
    using slot_index [of k n "dp_cur d"] k(1) slots_okD(2) [OF assms(1)] by auto
  then have x: "x \<in> set (dp_slot n p d)" using k(2) by (simp add: dp_slot_def)
  then have "prio x = p" using slots_okD(3) [OF assms(1)] p by blast
  then show ?thesis using x p by simp
qed

lemma slot_in_short:
  assumes "dp_slots_ok prio n d"
  shows "set (dp_slot n p d) \<subseteq> set (concat (dp_short d))"
proof -
  have "dp_slot n p d \<in> set (dp_short d)"
    using slots_okD(1,2) [OF assms] by (simp add: dp_slot_def)
  then show ?thesis by auto
qed

lemma view_elements: "x \<in># dp_view d \<longleftrightarrow> x \<in> set (concat (dp_short d)) \<or> x \<in> set (dp_long d)"
  by (auto simp: dp_view_def)

lemma dp_okI:
  assumes "dp_slots_ok prio n d" "sorted (map prio (dp_long d))" "\<forall>x\<in>set (dp_long d). dp_cur d + n \<le> prio x"
    "dp_cur d + n < 2 ^ c" "\<forall>x\<in>#dp_view d. prio x + n < 2 ^ c" "dp_is_empty n d \<Longrightarrow> dp_cur d = 0 \<and> dp_view d = {#}"
  shows "dp_ok prio c n d"
  using assms by (simp add: dp_ok_def)

lemma dp_okD:
  assumes "dp_ok prio c n d"
  shows "dp_slots_ok prio n d" "sorted (map prio (dp_long d))" "\<forall>x\<in>set (dp_long d). dp_cur d + n \<le> prio x"
    "dp_cur d + n < 2 ^ c" "\<forall>x\<in>#dp_view d. prio x + n < 2 ^ c" "dp_is_empty n d \<Longrightarrow> dp_cur d = 0"
    "dp_is_empty n d \<Longrightarrow> dp_view d = {#}"
  using assms by (simp_all add: dp_ok_def)

lemma dp_new_ok: "0 < n \<Longrightarrow> n < 2 ^ c \<Longrightarrow> dp_ok prio c n (dp_new n) \<and> dp_view (dp_new n) = {#}"
  by (auto simp: dp_ok_def dp_slots_ok_def dp_new_def dp_slot_def dp_view_def)

text \<open>Elements with priorities below the rest of the queue's are on top.\<close>

lemma dp_top_ok:
  assumes "dp_ok prio c n d" "dp_view d \<noteq> {#}"
  shows "\<exists>x. dp_top prio n d = Inr x \<and> x \<in># dp_view d \<and> prio x = dp_cur d \<and> (\<forall>y\<in>#dp_view d. prio x \<le> prio y)"
proof -
  note D = dp_okD [OF assms(1)]
  have ne: "dp_slot n (dp_cur d) d \<noteq> []"
    using D(7) assms(2) by (auto simp: dp_is_empty_def)
  let ?x = "last (dp_slot n (dp_cur d) d)"
  have x: "?x \<in> set (dp_slot n (dp_cur d) d)" using ne by simp
  have p: "prio ?x = dp_cur d"
    using slots_okD(3) [OF D(1), of "dp_cur d"] slots_okD(1) [OF D(1)] x by simp
  have "dp_cur d \<le> prio y" if "y \<in># dp_view d" for y
    using that short_elements [OF D(1), of y] D(3) by (auto simp: view_elements)
  moreover have "?x \<in># dp_view d"
    using slot_in_short [OF D(1)] x by (auto simp: view_elements)
  ultimately show ?thesis
    using ne p by (simp add: dp_top_def slot_holds_def)
qed

lemma add_short_at:
  assumes ok: "dp_slots_ok prio n d" and i: "dp_cur d \<le> prio x" "prio x < dp_cur d + n"
  shows "\<exists>d'. dp_add_short prio n (prio x) x d = Inr d' \<and> dp_slots_ok prio n d' \<and> dp_view d' = add_mset x (dp_view d) \<and>
    dp_cur d' = dp_cur d \<and> dp_long d' = dp_long d \<and> (\<forall>p. set (dp_slot n p d) \<subseteq> set (dp_slot n p d')) \<and>
    dp_slot n (prio x) d' \<noteq> []"
proof -
  let ?i = "prio x"
  let ?ys = "dp_slot n ?i d @ [x]"
  let ?d = "d\<lparr>dp_short := (dp_short d)[?i mod n := ?ys]\<rparr>"
  note D = slots_okD [OF ok]
  have "\<forall>y\<in>set ?ys. prio y = ?i" using D(3) [OF i] by auto
  then have "dp_slots_ok prio n ?d" by (rule slots_ok_update [OF ok i])
  moreover have "dp_view ?d = add_mset x (dp_view d)"
    using mset_concat_update [of "?i mod n" "dp_short d" ?ys] D(1,2) by (simp add: dp_view_def dp_slot_def)
  moreover have slot: "dp_slot n p ?d = (if p mod n = ?i mod n then ?ys else dp_slot n p d)" for p
    using D(1,2) by (simp add: dp_slot_update)
  moreover have "set (dp_slot n p d) \<subseteq> set (dp_slot n p ?d)" for p
    unfolding slot by (auto simp: dp_slot_def)
  moreover have "dp_slot n ?i ?d \<noteq> []" unfolding slot by simp
  ultimately show ?thesis
    using add_short_ok [OF ok i] by (intro exI [of _ ?d] conjI allI) simp_all
qed

lemma empty_slots:
  assumes "dp_slots_ok prio n d" "dp_view d = {#}"
  shows "dp_slot n p d = []"
proof (rule ccontr)
  assume "dp_slot n p d \<noteq> []"
  then have "last (dp_slot n p d) \<in># dp_view d"
    using slot_in_short [OF assms(1), of p] view_elements [of _ d] last_in_set by blast
  then show False using assms(2) by simp
qed

text \<open>\<open>Push\<close> below the current index: the window moves down.\<close>

lemma push_below:
  assumes d: "dp_ok prio c n d" and x: "prio x < dp_cur d"
  shows "\<exists>d1 d2. forR (dp_to_long prio n) (rev [max (prio x + n) (dp_cur d) ..< dp_cur d + n]) d = Inr d1 \<and>
    dp_cur d1 = dp_cur d \<and> long_at_least prio (dp_cur d) d1 \<and> d2 = d1\<lparr>dp_cur := prio x\<rparr> \<and>
    dp_slots_ok prio n d2 \<and> sorted (map prio (dp_long d2)) \<and> (\<forall>y\<in>set (dp_long d2). prio x + n \<le> prio y) \<and>
    dp_view d2 = dp_view d"
proof -
  note D = dp_okD [OF d] and S = slots_okD [OF dp_okD(1) [OF d]]
  let ?e = "max (prio x + n) (dp_cur d)"
  obtain d1 where d1: "forR (dp_to_long prio n) (rev [?e ..< dp_cur d + n]) d = Inr d1"
    "spilled prio n ?e (dp_cur d + n) d d1"
    using to_long_run [OF D(1) _ order_refl D(2), of ?e] by auto
  let ?d = "d1\<lparr>dp_cur := prio x\<rparr>"
  have sp: "dp_slots_ok prio n d1" "dp_cur d1 = dp_cur d" "dp_view d1 = dp_view d" "sorted (map prio (dp_long d1))"
    "\<And>y. y \<in> set (dp_long d1) \<Longrightarrow> y \<in> set (dp_long d) \<or> ?e \<le> prio y"
    "\<And>p. ?e \<le> p \<Longrightarrow> p < dp_cur d + n \<Longrightarrow> dp_slot n p d1 = []"
    using d1(2) unfolding spilled_def by auto
  have long: "?e \<le> prio y" if "y \<in> set (dp_long d1)" for y
    using sp(5) [OF that] D(3) x by fastforce
  have w: "prio y = p" if p: "prio x \<le> p" "p < prio x + n" and y: "y \<in> set (dp_slot n p d1)" for p y
  proof (cases "dp_cur d \<le> p")
    case True
    then show ?thesis using slots_okD(3) [OF sp(1), of p y] sp(2) p y x by simp
  next
    case False
    obtain q where q: "?e \<le> q" "q < dp_cur d + n" "q mod n = p mod n"
    proof (cases "dp_cur d \<le> prio x + n")
      case True
      show ?thesis by (rule that [of "p + n"]) (use True False p in auto)
    next
      case below: False
      then have "?e = dp_cur d" by simp
      then show ?thesis using slot_index [of "p mod n" n "dp_cur d"] S(1) that by auto
    qed
    have "dp_slot n p d1 = dp_slot n q d1" using q(3) by (simp add: dp_slot_def)
    also have "\<dots> = []" using sp(6) q by blast
    finally show ?thesis using y by simp
  qed
  have "dp_slots_ok prio n ?d"
    unfolding dp_slots_ok_def
  proof (intro conjI allI impI)
    fix p y assume "dp_cur ?d \<le> p" "p < dp_cur ?d + n" "y \<in> set (dp_slot n p ?d)"
    then show "prio y = p" using w [of p y] by simp
  qed (use slots_okD(1,2) [OF sp(1)] in simp_all)
  moreover have "long_at_least prio (dp_cur d) d1"
    using long by (cases "dp_long d1") (auto simp: long_at_least_def)
  moreover have "\<forall>y\<in>set (dp_long d1). prio x + n \<le> prio y"
    using long by (meson max.cobounded1 le_trans)
  moreover have "dp_view ?d = dp_view d" using sp(3) by (simp add: dp_view_def)
  ultimately show ?thesis using d1(1) sp(2,4) by auto
qed

lemma view_single_elem: "dp_slot n p d \<noteq> [] \<Longrightarrow> dp_slots_ok prio n d \<Longrightarrow> dp_view d \<noteq> {#}"
  using empty_slots by blast

lemma dp_push_ok:
  assumes d: "dp_ok prio c n d" and x: "prio x + n < 2 ^ c"
  shows "\<exists>d'. dp_push prio c n x d = Inr d' \<and> dp_ok prio c n d' \<and> dp_view d' = add_mset x (dp_view d)"
proof -
  note D = dp_okD [OF d] and S = slots_okD [OF dp_okD(1) [OF d]]
  have top: "prio x \<le> 2 ^ c - 1 - n" using x by simp
  have id: "trunc c (prio x) = prio x" using x by (simp add: trunc_id)
  have idl: "trunc c (prio y) = prio y" if "y \<in># dp_view d" for y
    using D(5) that by (auto intro!: trunc_id)
  consider (below) "prio x < dp_cur d" | (empty) "dp_cur d \<le> prio x" "dp_is_empty n d"
    | (short) "dp_cur d \<le> prio x" "\<not> dp_is_empty n d" "prio x - dp_cur d < n"
    | (long) "dp_cur d \<le> prio x" "\<not> dp_is_empty n d" "n \<le> prio x - dp_cur d"
    by linarith
  then show ?thesis
  proof cases
    case below
    obtain d1 where d1: "forR (dp_to_long prio n) (rev [max (prio x + n) (dp_cur d) ..< dp_cur d + n]) d = Inr d1"
      "dp_cur d1 = dp_cur d" "long_at_least prio (dp_cur d) d1" "dp_slots_ok prio n (d1\<lparr>dp_cur := prio x\<rparr>)"
      "sorted (map prio (dp_long d1))" "\<forall>y\<in>set (dp_long d1). prio x + n \<le> prio y"
      "dp_view (d1\<lparr>dp_cur := prio x\<rparr>) = dp_view d"
      using push_below [OF d below] by auto
    let ?d = "d1\<lparr>dp_cur := prio x\<rparr>"
    obtain d' where d': "dp_add_short prio n (prio x) x ?d = Inr d'" "dp_slots_ok prio n d'"
      "dp_view d' = add_mset x (dp_view d)" "dp_cur d' = prio x" "dp_long d' = dp_long d1" "dp_slot n (prio x) d' \<noteq> []"
      using add_short_at [OF d1(4), of x] S(1) d1(7) by auto
    have hd: "dp_long d1 = [] \<or> prio x + n \<le> prio (hd (dp_long d1))"
      using d1(6) by (cases "dp_long d1") auto
    have ll: "long_at_least prio (dp_cur d + n) d"
      using D(3) by (cases "dp_long d") (auto simp: long_at_least_def)
    have lid: "trunc c (prio (hd (dp_long d1))) = prio (hd (dp_long d1))" if "dp_long d1 \<noteq> []"
    proof -
      have "hd (dp_long d1) \<in># dp_view (d1\<lparr>dp_cur := prio x\<rparr>)" using that by (simp add: dp_view_def)
      then show ?thesis using idl unfolding d1(7) by blast
    qed
    have "dp_push prio c n x d = Inr d'"
      using below top d1(1-3) d' hd lid ll
      by (cases "dp_long d1 = []") (auto simp: id dp_push_def Let_def dp_is_empty_def long_at_least_def pq_top_def)
    moreover have "dp_ok prio c n d'"
      by (rule dp_okI) (use d' d1(5,6) x D(5) in \<open>auto simp: dp_is_empty_def\<close>)
    ultimately show ?thesis using d'(3) by blast
  next
    case empty
    let ?d = "d\<lparr>dp_cur := prio x\<rparr>"
    have e: "dp_slot n p d = []" for p using empty_slots D(1,7) empty by blast
    have "dp_long d = []" using D(7) empty by (auto simp: dp_view_def)
    have "dp_slots_ok prio n ?d" using S(1,2) e by (simp add: dp_slots_ok_def)
    then obtain d' where d': "dp_add_short prio n (prio x) x ?d = Inr d'" "dp_slots_ok prio n d'"
      "dp_view d' = add_mset x (dp_view ?d)" "dp_cur d' = prio x" "dp_long d' = []" "dp_slot n (prio x) d' \<noteq> []"
      using add_short_at [of prio n ?d x] S(1) \<open>dp_long d = []\<close> by auto
    have v: "dp_view ?d = dp_view d" by (simp add: dp_view_def)
    have "dp_push prio c n x d = Inr d'"
      using empty top d' e by (simp add: id dp_push_def Let_def dp_is_empty_def)
    moreover have "dp_ok prio c n d'"
      by (rule dp_okI) (use d' x D(5) v in \<open>auto simp: dp_is_empty_def\<close>)
    ultimately show ?thesis using d'(3) v by auto
  next
    case short
    have "prio x < dp_cur d + n" using short by linarith
    then obtain d' where d': "dp_add_short prio n (prio x) x d = Inr d'" "dp_slots_ok prio n d'"
      "dp_view d' = add_mset x (dp_view d)" "dp_cur d' = dp_cur d" "dp_long d' = dp_long d"
      "\<forall>p. set (dp_slot n p d) \<subseteq> set (dp_slot n p d')"
      using add_short_at [OF D(1), of x] short by auto
    have ne: "\<not> dp_is_empty n d'"
      using short(2) d'(6) unfolding dp_is_empty_def d'(4) by (metis set_empty subset_empty)
    have "dp_push prio c n x d = Inr d'"
      using short top d' ne by (simp add: id dp_push_def Let_def)
    moreover have "dp_ok prio c n d'"
      by (rule dp_okI) (use d' x D ne in auto)
    ultimately show ?thesis using d'(3) by blast
  next
    case long
    let ?d = "d\<lparr>dp_long := pq_push prio x (dp_long d)\<rparr>"
    have ne: "\<not> dp_is_empty n ?d" using long(2) by (simp add: dp_is_empty_def)
    have all: "\<forall>y\<in>set (pq_push prio x (dp_long d)). dp_cur d + n \<le> prio y"
      using D(3) long by (auto simp: pq_push_set)
    have nn: "pq_push prio x (dp_long d) \<noteq> []" by (simp add: pq_push_def)
    then have "dp_cur d + n \<le> prio (hd (pq_push prio x (dp_long d)))" using all by (meson list.set_sel(1))
    then have "dp_push prio c n x d = Inr ?d"
      using long top ne nn by (simp add: id dp_push_def Let_def pq_top_def)
    moreover have v: "dp_view ?d = add_mset x (dp_view d)"
      by (simp add: dp_view_def pq_push_mset)
    moreover have "dp_ok prio c n ?d"
      by (rule dp_okI) (use D x all ne v pq_push_sorted in \<open>auto simp: slots_ok_long\<close>)
    ultimately show ?thesis by blast
  qed
qed

lemma scan_short_result:
  assumes "cur < bound"
  shows "cur < scan_short n bound short cur \<and> scan_short n bound short cur \<le> bound \<and>
    (\<forall>p. cur < p \<longrightarrow> p < scan_short n bound short cur \<longrightarrow> short ! (p mod n) = []) \<and>
    (scan_short n bound short cur < bound \<longrightarrow> short ! (scan_short n bound short cur mod n) \<noteq> [])"
  using assms
proof (induction n bound short cur rule: scan_short.induct)
  case (1 n bound short cur)
  show ?case
  proof (cases "cur + 1 < bound \<and> short ! ((cur + 1) mod n) = []")
    case True
    have s: "scan_short n bound short cur = scan_short n bound short (cur + 1)"
      using True by (subst scan_short.simps) (simp add: Let_def)
    have e: "short ! (p mod n) = []" if "cur < p" "p < cur + 2" for p
      using True that by (auto simp: le_less_Suc_eq dest: Suc_leI)
    show ?thesis
      using 1(1) [OF refl True] True e unfolding s by (auto simp: not_less) (metis Suc_lessI less_Suc_eq)+
  next
    case False
    have "scan_short n bound short cur = cur + 1"
      using False by (subst scan_short.simps) (auto simp: Let_def)
    then show ?thesis using False 1(2) by auto
  qed
qed

lemma all_slots_empty:
  assumes "dp_slots_ok prio n d" "\<And>p. dp_cur d \<le> p \<Longrightarrow> p < dp_cur d + n \<Longrightarrow> dp_slot n p d = []"
  shows "dp_slot n p d = []" "mset (concat (dp_short d)) = {#}"
proof -
  have "concat (dp_short d) = []"
  proof (rule ccontr)
    assume "concat (dp_short d) \<noteq> []"
    then have "hd (concat (dp_short d)) \<in> set (concat (dp_short d))" by (rule list.set_sel(1))
    from short_elements [OF assms(1) this] show False using assms(2) by fastforce
  qed
  then show c: "mset (concat (dp_short d)) = {#}" by (metis mset.simps(1))
  show "dp_slot n p d = []"
    using slot_in_short [OF assms(1), of p] \<open>concat (dp_short d) = []\<close> by (metis list.set(1) set_empty subset_empty)
qed

lemma empty_window:
  assumes "0 < n" "length (dp_short d) = n" "\<And>p. dp_slot n p d = []"
  shows "dp_slots_ok prio n (d\<lparr>dp_cur := k\<rparr>)"
  using assms by (simp add: dp_slots_ok_def)

text \<open>The short range empty, the heap not: the window jumps to the heap's top.\<close>

lemma refill_ok:
  assumes e: "0 < n" "length (dp_short d) = n" "\<And>p. dp_slot n p d = []"
    and q: "dp_long d \<noteq> []" "sorted (map prio (dp_long d))" "\<forall>x\<in>#dp_view d. prio x + n < 2 ^ c"
  shows "\<exists>d'. forR (dp_to_short prio n) [prio (hd (dp_long d)) ..< prio (hd (dp_long d)) + n]
      (d\<lparr>dp_cur := prio (hd (dp_long d))\<rparr>) = Inr d' \<and>
    slot_holds prio n (dp_cur d') d' \<and> dp_ok prio c n d' \<and> dp_view d' = dp_view d"
proof -
  let ?t = "hd (dp_long d)"
  let ?d = "d\<lparr>dp_cur := prio ?t\<rparr>"
  have ge: "\<forall>x\<in>set (dp_long d). prio ?t \<le> prio x"
    using q(1,2) by (cases "dp_long d") auto
  obtain d' where d': "forR (dp_to_short prio n) [prio ?t ..< prio ?t + n] ?d = Inr d'" "pulled prio n ?d d'"
    using to_short_run [OF empty_window [OF e], of "prio ?t" "prio ?t"] ge q(2) by auto
  have P: "dp_slots_ok prio n d'" "dp_cur d' = prio ?t" "dp_view d' = dp_view d" "sorted (map prio (dp_long d'))"
    "\<forall>x\<in>set (dp_long d'). prio ?t + n \<le> prio x"
    "\<forall>x\<in>set (dp_long d). prio x < prio ?t + n \<longrightarrow> x \<in> set (dp_slot n (prio x) d')"
    using d'(2) unfolding pulled_def by (simp_all add: dp_view_def)
  have "?t \<in> set (dp_slot n (prio ?t) d')" using P(6) q(1) e(1) by simp
  then have ne: "dp_slot n (prio ?t) d' \<noteq> []" by auto
  then have "slot_holds prio n (dp_cur d') d'"
    using slot_room [OF P(1), of "prio ?t"] P(2) e(1) by simp
  moreover have "?t \<in># dp_view d" using q(1) by (simp add: view_elements)
  then have "prio ?t + n < 2 ^ c" using q(3) by blast
  then have "dp_ok prio c n d'"
    by (intro dp_okI) (use P q(3) ne in \<open>auto simp: dp_is_empty_def\<close>)
  ultimately show ?thesis using d'(1) P(3) by blast
qed

text \<open>The window moves up to a non-empty slot: the heap fills what has come into range.\<close>

lemma catch_up_ok:
  assumes ok: "dp_slots_ok prio n d" and q: "dp_long d \<noteq> []" "sorted (map prio (dp_long d))"
      "\<forall>x\<in>set (dp_long d). dp_cur d < prio x"
    and b: "dp_cur d + n < 2 ^ c" "\<forall>x\<in>#dp_view d. prio x + n < 2 ^ c" and ne: "dp_slot n (dp_cur d) d \<noteq> []"
  shows "\<exists>d'. forR (dp_to_short prio n) [max (prio (hd (dp_long d))) (dp_cur d + 1) ..< dp_cur d + n] d = Inr d' \<and>
    slot_holds prio n (dp_cur d') d' \<and> dp_ok prio c n d' \<and> dp_view d' = dp_view d"
proof -
  let ?i = "max (prio (hd (dp_long d))) (dp_cur d + 1)"
  have ge: "\<forall>x\<in>set (dp_long d). ?i \<le> prio x"
    using q by (cases "dp_long d") auto
  have "\<exists>d'. forR (dp_to_short prio n) [?i ..< dp_cur d + n] d = Inr d' \<and> pulled prio n d d'"
  proof (cases "?i \<le> dp_cur d + n")
    case True
    then show ?thesis using to_short_run [OF ok _ q(2) ge] by simp
  next
    case False
    then have "\<forall>x\<in>set (dp_long d). dp_cur d + n \<le> prio x" using ge by fastforce
    then have "pulled prio n d d" using ok q(2) unfolding pulled_def by auto
    moreover have "[?i ..< dp_cur d + n] = []" using False by (intro upt_conv_Nil) linarith
    ultimately show ?thesis by (metis forR.simps(1))
  qed
  then obtain d' where d': "forR (dp_to_short prio n) [?i ..< dp_cur d + n] d = Inr d'" "pulled prio n d d'"
    by blast
  have P: "dp_slots_ok prio n d'" "dp_cur d' = dp_cur d" "dp_view d' = dp_view d" "sorted (map prio (dp_long d'))"
    "\<forall>x\<in>set (dp_long d'). dp_cur d + n \<le> prio x" "set (dp_slot n (dp_cur d) d) \<subseteq> set (dp_slot n (dp_cur d) d')"
    using d'(2) slots_okD(1) [OF ok] unfolding pulled_def by simp_all
  have ne': "dp_slot n (dp_cur d) d' \<noteq> []" using P(6) ne by (metis set_empty subset_empty)
  then have "slot_holds prio n (dp_cur d') d'"
    using slot_room [OF P(1), of "dp_cur d"] P(2) slots_okD(1) [OF ok] by simp
  moreover have "dp_ok prio c n d'"
    by (intro dp_okI) (use P b ne' in \<open>auto simp: dp_is_empty_def\<close>)
  ultimately show ?thesis using d'(1) P(3) by blast
qed

lemma window_up:
  assumes ok: "dp_slots_ok prio n d" and r: "dp_cur d < r" "r \<le> dp_cur d + n"
    and e: "\<And>p. dp_cur d \<le> p \<Longrightarrow> p < r \<Longrightarrow> dp_slot n p d = []"
  shows "dp_slots_ok prio n (d\<lparr>dp_cur := r\<rparr>)"
  unfolding dp_slots_ok_def
proof (intro conjI allI impI)
  fix p x assume p: "dp_cur (d\<lparr>dp_cur := r\<rparr>) \<le> p" "p < dp_cur (d\<lparr>dp_cur := r\<rparr>) + n"
    "x \<in> set (dp_slot n p (d\<lparr>dp_cur := r\<rparr>))"
  show "prio x = p"
  proof (cases "p < dp_cur d + n")
    case True
    then show ?thesis using slots_okD(3) [OF ok, of p x] p r by simp
  next
    case False
    have "dp_slot n p d = dp_slot n (p - n) d"
      using False by (simp add: dp_slot_def le_mod_geq)
    also have "\<dots> = []" using e [of "p - n"] False p r by simp
    finally show ?thesis using p(3) by simp
  qed
qed (use slots_okD(1,2) [OF ok] in simp_all)

lemma long_at_leastI: "\<forall>x\<in>set (dp_long d). k \<le> prio x \<Longrightarrow> long_at_least prio k d"
  by (cases "dp_long d") (auto simp: long_at_least_def)

lemma advance_ok:
  assumes ok: "dp_slots_ok prio n d" and e: "dp_slot n (dp_cur d) d = []" and s: "sorted (map prio (dp_long d))"
    and l: "\<forall>x\<in>set (dp_long d). dp_cur d + n \<le> prio x" and b: "dp_cur d + n < 2 ^ c" "\<forall>x\<in>#dp_view d. prio x + n < 2 ^ c"
  shows "\<exists>d'. dp_advance prio c n d = Inr d' \<and> dp_ok prio c n d' \<and> dp_view d' = dp_view d"
proof -
  note S = slots_okD [OF ok]
  define r where "r = scan_short n (dp_cur d + n) (dp_short d) (dp_cur d)"
  let ?d = "d\<lparr>dp_cur := r\<rparr>"
  have r: "dp_cur d < r" "r \<le> dp_cur d + n" "\<And>p. dp_cur d \<le> p \<Longrightarrow> p < r \<Longrightarrow> dp_slot n p d = []"
    "r < dp_cur d + n \<Longrightarrow> dp_slot n r d \<noteq> []"
    using scan_short_result [of "dp_cur d" "dp_cur d + n" n "dp_short d"] S(1) e
    unfolding r_def by (auto simp: dp_slot_def le_less)
  have ok1: "dp_slots_ok prio n ?d" by (rule window_up [OF ok r(1-3)])
  have v: "dp_view (d\<lparr>dp_cur := k\<rparr>) = dp_view d" for k by (simp add: dp_view_def)
  have idl: "trunc c (prio (hd (dp_long d))) = prio (hd (dp_long d))" if "dp_long d \<noteq> []"
    using b(2) that by (intro trunc_id) (auto simp: dp_view_def dest!: list.set_sel(1) add_lessD1)
  have adv: "dp_advance prio c n d = (bindR
        (if dp_slot n r d = []
         then if dp_long d \<noteq> []
           then bindR (forR (dp_to_short prio n) [prio (hd (dp_long d)) ..< prio (hd (dp_long d)) + n]
                  (d\<lparr>dp_cur := prio (hd (dp_long d))\<rparr>)) (\<lambda>d3.
             assertR (slot_holds prio n (dp_cur d3) d3) (Inr d3))
           else Inr (d\<lparr>dp_cur := 0\<rparr>)
         else if dp_long d \<noteq> []
         then assertR (slot_holds prio n r ?d)
           (bindR (forR (dp_to_short prio n) [max (prio (hd (dp_long d))) (r + 1) ..< r + n] ?d) (\<lambda>d3.
            assertR (slot_holds prio n (dp_cur d3) d3) (Inr d3)))
         else Inr ?d)
        (\<lambda>d'. assertR (long_at_least prio (dp_cur d' + n) d') (Inr d')))"
    using e idl by (simp add: dp_advance_def r_def pq_top_def Let_def)
  have fin: "dp_ok prio c n d' \<Longrightarrow> long_at_least prio (dp_cur d' + n) d'" for d'
    using dp_okD(3) by (rule long_at_leastI)
  show ?thesis
  proof (cases "dp_slot n r d = []")
    case True
    then have "r = dp_cur d + n" using r(2,4) by linarith
    then have es: "\<And>p. dp_slot n p d = []" and em: "mset (concat (dp_short d)) = {#}"
      using all_slots_empty [OF ok] r(3) by blast+
    show ?thesis
    proof (cases "dp_long d = []")
      case True
      have "dp_ok prio c n (d\<lparr>dp_cur := 0\<rparr>)"
        by (rule dp_okI) (use empty_window [OF S(1,2) es] True em b(1) in \<open>auto simp: dp_view_def\<close>)
      then show ?thesis using adv es True v fin [of "d\<lparr>dp_cur := 0\<rparr>"] by simp
    next
      case False
      then show ?thesis
        using refill_ok [OF S(1,2) es False s b(2)] adv es fin by auto
    qed
  next
    case False
    then have rb: "r < dp_cur d + n" using r(2) e by (cases "r = dp_cur d + n") (auto simp: dp_slot_def)
    obtain x where x: "x \<in> set (dp_slot n r d)" using False by (meson last_in_set)
    have "prio x = r" using S(3) [OF _ rb x] r(1) by simp
    moreover have "x \<in># dp_view d" using slot_in_short [OF ok] x by (auto simp: view_elements)
    ultimately have rn: "r + n < 2 ^ c" using b(2) by blast
    have long: "\<forall>y\<in>set (dp_long d). r < prio y" using l rb by fastforce
    show ?thesis
    proof (cases "dp_long d = []")
      case True
      have "dp_ok prio c n ?d"
        by (rule dp_okI) (use ok1 True rn b(2) v [of r] False in \<open>auto simp: dp_is_empty_def\<close>)
      then show ?thesis using adv False True v fin [of ?d] by simp
    next
      case ne: False
      have "slot_holds prio n r ?d"
        using slot_room [OF ok1, of r] S(1) False by simp
      moreover obtain d' where "forR (dp_to_short prio n) [max (prio (hd (dp_long d))) (r + 1) ..< r + n] ?d = Inr d'"
        "slot_holds prio n (dp_cur d') d'" "dp_ok prio c n d'" "dp_view d' = dp_view d"
        using catch_up_ok [OF ok1, of c] ne s long rn b(2) v [of r] False by auto
      ultimately show ?thesis using adv False ne fin [of d'] by simp
    qed
  qed
qed

lemma dp_pop_ok:
  assumes d: "dp_ok prio c n d" and ne: "dp_view d \<noteq> {#}"
  shows "\<exists>d'. dp_pop prio c n d = Inr d' \<and> dp_ok prio c n d' \<and>
    dp_view d = add_mset (last (dp_slot n (dp_cur d) d)) (dp_view d')"
proof -
  note D = dp_okD [OF d] and S = slots_okD [OF dp_okD(1) [OF d]]
  let ?s = "dp_slot n (dp_cur d) d"
  let ?d = "d\<lparr>dp_short := (dp_short d)[dp_cur d mod n := butlast ?s]\<rparr>"
  have s: "?s \<noteq> []" using D(7) ne by (auto simp: dp_is_empty_def)
  have ok: "dp_slots_ok prio n ?d"
    by (rule slots_ok_update [OF D(1)]) (use S(1) S(3) [of "dp_cur d"] in \<open>auto dest: in_set_butlastD\<close>)
  have slot: "dp_slot n (dp_cur d) ?d = butlast ?s" using S(1,2) by (simp add: dp_slot_update)
  have "mset ?s = add_mset (last ?s) (mset (butlast ?s))"
    using s by (metis append_butlast_last_id mset.simps(2) mset_append union_mset_add_mset_right add_0_right mset.simps(1))
  then have view: "dp_view d = add_mset (last ?s) (dp_view ?d)"
    using mset_concat_update [of "dp_cur d mod n" "dp_short d" "butlast ?s"] S(1,2)
    by (simp add: dp_view_def dp_slot_def)
  have b: "\<forall>x\<in>#dp_view ?d. prio x + n < 2 ^ c" using D(5) view by simp
  have "\<exists>d'. (if butlast ?s = [] then dp_advance prio c n ?d else Inr ?d) = Inr d' \<and> dp_ok prio c n d' \<and> dp_view d' = dp_view ?d"
  proof (cases "butlast ?s = []")
    case True
    then show ?thesis using advance_ok [OF ok, of c] slot D(2-4) b by simp
  next
    case False
    have "dp_ok prio c n ?d"
      by (rule dp_okI) (use ok D(2-4) b False slot in \<open>auto simp: dp_is_empty_def\<close>)
    then show ?thesis using False by simp
  qed
  then obtain d' where d': "(if butlast ?s = [] then dp_advance prio c n ?d else Inr ?d) = Inr d'" "dp_ok prio c n d'"
    "dp_view d' = dp_view ?d" by blast
  have "\<not> dp_is_empty n d' \<or> dp_long d' = []" using dp_okD(7) [OF d'(2)] by (auto simp: dp_view_def)
  moreover have "long_at_least prio (dp_cur d' + n) d'" using dp_okD(3) [OF d'(2)] by (rule long_at_leastI)
  ultimately have "dp_pop prio c n d = Inr d'" using s slot d'(1) by (simp add: dp_pop_def Let_def)
  then show ?thesis using d'(2,3) view by auto
qed

lemma dp_assign_copies: "length (dp_short other) = n \<Longrightarrow> dp_assign n other d = other"
  by (cases other) (auto simp: dp_assign_def intro: nth_equalityI)

lemma dp_empty_iff:
  assumes "dp_ok prio c n d"
  shows "dp_is_empty n d \<longleftrightarrow> dp_view d = {#}"
  using dp_okD(7) [OF assms] empty_slots [OF dp_okD(1) [OF assms]] by (auto simp: dp_is_empty_def)

lemma dp_pop_list_ok:
  assumes d: "dp_ok prio c n d"
  shows "\<exists>d'. dp_pop_list prio c n d = Inr d' \<and> dp_ok prio c n d' \<and>
    mset (dp_top_list n d) = filter_mset (\<lambda>x. prio x = dp_cur d) (dp_view d) \<and>
    dp_view d' = filter_mset (\<lambda>x. prio x \<noteq> dp_cur d) (dp_view d)"
proof -
  note D = dp_okD [OF d] and S = slots_okD [OF dp_okD(1) [OF d]]
  let ?s = "dp_slot n (dp_cur d) d"
  let ?d = "d\<lparr>dp_short := (dp_short d)[dp_cur d mod n := []]\<rparr>"
  have ok: "dp_slots_ok prio n ?d" by (rule slots_ok_update [OF D(1)]) (use S(1) in simp_all)
  have slot: "dp_slot n (dp_cur d) ?d = []" using S(1,2) by (simp add: dp_slot_update)
  have view: "dp_view d = mset ?s + dp_view ?d"
    using mset_concat_update [of "dp_cur d mod n" "dp_short d" "[]"] S(1,2)
    by (simp add: dp_view_def dp_slot_def ac_simps)
  have b: "\<forall>x\<in>#dp_view ?d. prio x + n < 2 ^ c" using D(5) view by simp
  obtain d' where d': "dp_advance prio c n ?d = Inr d'" "dp_ok prio c n d'" "dp_view d' = dp_view ?d"
    using advance_ok [OF ok, of c] slot D(2-4) b by auto
  have "prio x \<noteq> dp_cur d" if "x \<in># dp_view ?d" for x
    using that short_elements [OF ok, of x] slot D(3) S(1) by (fastforce simp: view_elements)
  then have "filter_mset (\<lambda>x. prio x = dp_cur d) (dp_view ?d) = {#}"
    "filter_mset (\<lambda>x. prio x \<noteq> dp_cur d) (dp_view ?d) = dp_view ?d"
    by (auto simp: filter_mset_eq_conv)
  moreover have "\<forall>x\<in>#mset ?s. prio x = dp_cur d" using S(3) [of "dp_cur d"] S(1) by simp
  then have "filter_mset (\<lambda>x. prio x = dp_cur d) (mset ?s) = mset ?s"
    "filter_mset (\<lambda>x. prio x \<noteq> dp_cur d) (mset ?s) = {#}"
    by (simp_all add: filter_mset_eq_conv)
  ultimately show ?thesis
    using d' view by (simp add: dp_pop_list_def dp_top_list_def)
qed

text \<open>\<open>Top()\<close> followed by \<open>Pop()\<close>.\<close>

definition dp_take :: "('a \<Rightarrow> nat) \<Rightarrow> nat \<Rightarrow> nat \<Rightarrow> 'a dpq \<Rightarrow> ('a \<times> 'a dpq) res" where
  "dp_take prio c n d = bindR (dp_top prio n d) (\<lambda>x. bindR (dp_pop prio c n d) (\<lambda>d'. Inr (x, d')))"

lemma dp_take_ok:
  assumes "dp_ok prio c n d" "dp_view d \<noteq> {#}"
  shows "\<exists>x d'. dp_top prio n d = Inr x \<and> dp_pop prio c n d = Inr d' \<and> dp_ok prio c n d' \<and>
    dp_view d = add_mset x (dp_view d') \<and> (\<forall>y\<in>#dp_view d. prio x \<le> prio y)"
proof -
  obtain x where x: "dp_top prio n d = Inr x" "\<forall>y\<in>#dp_view d. prio x \<le> prio y"
    using dp_top_ok [OF assms] by blast
  then have "x = last (dp_slot n (dp_cur d) d)"
    by (simp add: dp_top_def assertR_eq_Inr)
  then show ?thesis using x dp_pop_ok [OF assms] by auto
qed

lemma dp_drain:
  "dp_ok prio c n d \<Longrightarrow> size (dp_view d) = k \<Longrightarrow>
    \<exists>xs d'. pop_many (dp_take prio c n) k d = Inr (xs, d') \<and> mset xs = dp_view d \<and> sorted (map prio xs) \<and>
      dp_ok prio c n d' \<and> dp_view d' = {#}"
proof (induction k arbitrary: d)
  case (Suc k)
  then obtain x d1 where d1: "dp_top prio n d = Inr x" "dp_pop prio c n d = Inr d1" "dp_ok prio c n d1"
    "dp_view d = add_mset x (dp_view d1)" "\<forall>y\<in>#dp_view d. prio x \<le> prio y"
    using dp_take_ok [OF Suc.prems(1)] by fastforce
  then obtain xs d' where "pop_many (dp_take prio c n) k d1 = Inr (xs, d')" "mset xs = dp_view d1"
    "sorted (map prio xs)" "dp_ok prio c n d'" "dp_view d' = {#}"
    using Suc.IH [OF d1(3)] Suc.prems(2) by auto
  moreover from this have "\<forall>y\<in>set xs. prio x \<le> prio y" using d1(4,5) by (metis insert_iff set_mset_add_mset_insert set_mset_mset)
  moreover have "dp_take prio c n d = Inr (x, d1)" using d1 by (simp add: dp_take_def)
  ultimately show ?case using d1(4) by auto
qed simp

section \<open>Properties\<close>

text \<open>What \<open>Push\<close> does with a priority that does not fit the index type and is not refused.\<close>

lemma push_narrowed:
  assumes d: "dp_ok prio c n d" and x: "2 ^ c \<le> prio x" "trunc c (prio x) + n < 2 ^ c"
    and far: "dp_view d \<noteq> {#}" "dp_cur d + n \<le> trunc c (prio x)"
  shows "dp_push prio c n x d = Inr (d\<lparr>dp_long := pq_push prio x (dp_long d)\<rparr>)"
proof -
  note D = dp_okD [OF d]
  have ne: "\<not> dp_is_empty n d" using far(1) dp_empty_iff [OF d] by blast
  let ?q = "pq_push prio x (dp_long d)"
  have "\<forall>y\<in>set ?q. dp_cur d + n \<le> prio y" using D(3,4) x(1) by (auto simp: pq_push_set)
  moreover have "?q \<noteq> []" by (simp add: pq_push_def)
  ultimately have "dp_cur d + n \<le> prio (hd ?q)" by (meson list.set_sel(1))
  moreover have "\<not> trunc c (prio x) - dp_cur d < n" using far(2) by linarith
  ultimately show ?thesis
    using x(2) far(2) ne \<open>?q \<noteq> []\<close> slots_okD(1) [OF D(1)]
    by (simp add: dp_push_def Let_def pq_top_def dp_is_empty_def dp_slot_def)
qed


definition dense5 :: "(nat \<times> nat) dpq" where
  "dense5 = \<lparr>dp_short = [[(4, 0), (4, 1)], [(5, 2)]], dp_long = [(9, 3)], dp_cur = 4\<rparr>"

lemma dense5_ok: "dp_ok fst 8 2 dense5"
proof (rule dp_okI)
  have "p = 4 \<or> p = 5" if "4 \<le> p" "p < 6" for p :: nat using that by auto
  then show "dp_slots_ok fst 2 dense5"
    unfolding dp_slots_ok_def dense5_def dp_slot_def by fastforce
qed (auto simp: dense5_def dp_view_def dp_is_empty_def dp_slot_def)


text \<open>
  Taking the top until the queue is empty yields every element once, in order of
  priority, across all the moves between the short range and the heap.
\<close>

theorem dense_queue_drains_sorted:
  assumes "dp_ok prio c n d"
  shows "\<exists>xs d'. pop_many (dp_take prio c n) (size (dp_view d)) d = Inr (xs, d') \<and>
    mset xs = dp_view d \<and> sorted (map prio xs) \<and> dp_view d' = {#}"
  using dp_drain [OF assms refl] by blast

theorem dense_queue_drains_sorted_witness:
  "\<exists>xs d'. pop_many (dp_take fst 8 2) 4 dense5 = Inr (xs, d') \<and>
    mset xs = {#(4, 0), (4, 1), (5, 2), (9, 3)#} \<and> sorted (map fst xs)"
proof -
  have v: "dp_view dense5 = {#(4, 0), (4, 1), (5, 2), (9, 3)#}" by (simp add: dense5_def dp_view_def)
  have s: "size (dp_view dense5) = 4" unfolding v by simp
  show ?thesis using dense_queue_drains_sorted [OF dense5_ok] unfolding s unfolding v by blast
qed

end
