(* ===== verification/NodeGraphs.thy ===== *)
theory NodeGraphs
  imports Prelude
begin

text \<open>
  \<^verbatim>\<open>ion/graph/NodeHierarchy.h\<close>: the nodes of many small graphs, stored by phase,
  partition (1 for a graph's last node, 0 for the others) and type, so that all nodes of a
  type are processed together.  Each block keeps, beside the nodes, the graph each belongs
  to; each graph keeps, per phase, its node's index in the block.  \<open>Add\<close>, \<open>Remove\<close> (which
  moves the block's last node into the gap) and \<open>RemoveBlock\<close> (which does the same with
  blocks) keep the two in step.

  A block's bytes are the list of its nodes: with \<open>sz\<close> for \<open>sizeof(T)\<close> its data vector holds
  \<open>sz\<close> times as many bytes.  The capacities its two vectors have, which lists do not keep, are
  arguments of \<open>nh_add\<close>, in bytes and in graph ids: \<open>ResizeFast\<close> compares with them and refuses to
  grow to a capacity of \<open>2 ^ 32\<close> or more.  The theorems hold for all of them.  The copy and clear functions of \<^verbatim>\<open>ion/graph/BaseNodeRegistry.h\<close> copy and drop that list.  The vectors are
  lists (\<^verbatim>\<open>ArenaVectors\<close>), the type map is a map.  An index that \<open>ResizeFast\<close> leaves
  uninitialised is \<open>None\<close>, and reading it \<open>BadAccess\<close>.  \<open>M\<close> is \<open>MaxPhases\<close>.
\<close>

section \<open>State\<close>

record 'n block =
  nb_type :: nat
  nb_graphs :: "nat option list"
  nb_data :: "'n list"

record 'n phase =
  ph_blocks :: "'n block list"
  ph_map :: "nat \<rightharpoonup> nat"

record 'n hierarchy =
  nh_phases :: "nat \<Rightarrow> nat \<Rightarrow> 'n phase"
  nh_counts :: "nat \<Rightarrow> nat"
  nh_graphs :: "nat option list list"

definition ph_new :: "'n phase" where
  "ph_new = \<lparr>ph_blocks = [], ph_map = Map.empty\<rparr>"

definition nh_new :: "'n hierarchy" where
  "nh_new = \<lparr>nh_phases = (\<lambda>_ _. ph_new), nh_counts = (\<lambda>_. 0), nh_graphs = []\<rparr>"

text \<open>Checked indexing, as \<open>operator[]\<close> does it.\<close>

definition at :: "'a list \<Rightarrow> nat \<Rightarrow> 'a res" where
  "at xs i = assertR (i < length xs) (Inr (xs ! i))"

definition put_phase :: "nat \<Rightarrow> nat \<Rightarrow> 'n phase \<Rightarrow> 'n hierarchy \<Rightarrow> 'n hierarchy" where
  "put_phase part p ph h = h\<lparr>nh_phases := (nh_phases h)(part := (nh_phases h part)(p := ph))\<rparr>"

definition partition_of :: "bool \<Rightarrow> nat" where
  "partition_of final = (if final then 1 else 0)"

section \<open>Phases\<close>

text \<open>The block of a type, appended when the phase has none.\<close>

definition ph_block_index :: "nat \<Rightarrow> 'n phase \<Rightarrow> (nat \<times> 'n phase) res" where
  "ph_block_index ty ph = (case ph_map ph ty of
      Some i \<Rightarrow> Inr (i, ph)
    | None \<Rightarrow>
        (let index = length (ph_blocks ph);
             blocks = ph_blocks ph @ [\<lparr>nb_type = ty, nb_graphs = [], nb_data = []\<rparr>] in
         bindR (safe_range_cast 16 index) (\<lambda>v.
         Inr (index, \<lparr>ph_blocks = blocks, ph_map = (ph_map ph)(ty \<mapsto> v)\<rparr>))))"

definition ph_remove_block :: "nat \<Rightarrow> nat \<Rightarrow> 'n phase \<Rightarrow> 'n phase res" where
  "ph_remove_block i ty ph =
     assertR (ph_map ph ty \<noteq> None)
     (let m = (ph_map ph)(ty := None); blocks = ph_blocks ph in
      if i \<noteq> length blocks - 1
      then assertR (blocks \<noteq> [])
        (let moved = last blocks in
         bindR (safe_range_cast 16 i) (\<lambda>v.
         assertR (m (nb_type moved) \<noteq> None)
         (Inr \<lparr>ph_blocks = butlast (blocks[i := moved]), ph_map = m(nb_type moved \<mapsto> v)\<rparr>)))
      else Inr \<lparr>ph_blocks = butlast blocks, ph_map = m\<rparr>)"

section \<open>Adding and removing nodes\<close>

definition put_block :: "nat \<Rightarrow> nat \<Rightarrow> nat \<Rightarrow> 'n block \<Rightarrow> 'n phase \<Rightarrow> 'n hierarchy \<Rightarrow> 'n hierarchy" where
  "put_block part p i b ph h = put_phase part p (ph\<lparr>ph_blocks := (ph_blocks ph)[i := b]\<rparr>) h"

text \<open>\<open>graph_set\<close> and \<open>graph_get\<close> are \<open>mGraphInfo[graphId].nodes[phaseId].index\<close>.\<close>

definition graph_get :: "nat \<Rightarrow> nat \<Rightarrow> 'n hierarchy \<Rightarrow> nat res" where
  "graph_get g p h = bindR (at (nh_graphs h) g) (\<lambda>nodes. bindR (at nodes p) (\<lambda>v.
     case v of None \<Rightarrow> Inl BadAccess | Some index \<Rightarrow> Inr index))"

definition graph_set :: "nat \<Rightarrow> nat \<Rightarrow> nat \<Rightarrow> 'n hierarchy \<Rightarrow> 'n hierarchy res" where
  "graph_set g p index h = bindR (at (nh_graphs h) g) (\<lambda>nodes. assertR (p < length nodes)
     (Inr (h\<lparr>nh_graphs := (nh_graphs h)[g := nodes[p := Some index]]\<rparr>)))"

text \<open>\<open>ResizeFast\<close> to \<open>n\<close> elements, with the capacity it asks for when it must grow.\<close>

definition resize_cap :: "nat \<Rightarrow> nat \<Rightarrow> nat \<Rightarrow> nat res" where
  "resize_cap n want cap =
     bindR (if cap < n then assertR (n \<le> want) (safe_range_cast 32 want) else Inr cap) (\<lambda>c.
     bindR (safe_range_cast 32 n) (\<lambda>_. Inr c))"

text \<open>The owner list grows to the new index; its sizes are \<open>uint32_t\<close> expressions.\<close>

definition grow_graphs :: "nat \<Rightarrow> nat \<Rightarrow> 'n block \<Rightarrow> 'n block res" where
  "grow_graphs gcap index b =
     (if length (nb_graphs b) \<le> index
      then let n = trunc 32 (index + 1) in
        bindR (resize_cap n (trunc 32 (index * 2 + 1)) gcap) (\<lambda>_.
        Inr (b\<lparr>nb_graphs := take n (nb_graphs b) @ replicate (n - length (nb_graphs b)) None\<rparr>))
      else Inr b)"

definition nh_add :: "nat \<Rightarrow> nat \<Rightarrow> nat \<Rightarrow> nat \<Rightarrow> nat \<Rightarrow> nat \<Rightarrow> bool \<Rightarrow> nat \<Rightarrow> 'n \<Rightarrow> 'n hierarchy \<Rightarrow> 'n hierarchy res" where
  "nh_add sz cap gcap M g p final ty node h = (let part = partition_of final in
     assertR (p < M)
     (bindR (ph_block_index ty (nh_phases h part p)) (\<lambda>(i, ph).
      bindR (at (ph_blocks ph) i) (\<lambda>b.
      let pos = sz * length (nb_data b) in
      bindR (safe_range_cast 32 (pos div sz)) (\<lambda>index.
      bindR (resize_cap (sz + pos) ((sz + pos) * 2) cap) (\<lambda>_.
      bindR (grow_graphs gcap index (b\<lparr>nb_data := nb_data b @ [node]\<rparr>)) (\<lambda>b1.
      assertR (index < length (nb_graphs b1))
      (let b' = b1\<lparr>nb_graphs := (nb_graphs b1)[index := Some g]\<rparr>;
           h' = put_block part p i b' ph h;
           h'' = h'\<lparr>nh_counts := (nh_counts h')(p := trunc 32 (nh_counts h' p + 1))\<rparr> in
       graph_set g p index h''))))))))"

definition nh_get :: "nat \<Rightarrow> nat \<Rightarrow> nat \<Rightarrow> bool \<Rightarrow> nat \<Rightarrow> 'n hierarchy \<Rightarrow> ('n \<times> 'n hierarchy) res" where
  "nh_get M g p final ty h = (let part = partition_of final in
     assertR (p < M)
     (bindR (ph_block_index ty (nh_phases h part p)) (\<lambda>(i, ph).
      bindR (at (ph_blocks ph) i) (\<lambda>b.
      let h' = put_phase part p ph h in
      bindR (graph_get g p h') (\<lambda>index.
      bindR (at (nb_data b) index) (\<lambda>node. Inr (node, h')))))))"

text \<open>
  \<open>Remove\<close>, in three steps: the block's last node moves into the gap and its graph learns the
  new index; the block shrinks, and is dropped when empty; the checks around it.
\<close>

definition nh_fill_gap :: "nat \<Rightarrow> nat \<Rightarrow> 'n block \<Rightarrow> 'n hierarchy \<Rightarrow> ('n block \<times> 'n hierarchy) res" where
  "nh_fill_gap p index b h = (let lastIndex = length (nb_data b) - 1 in
     if index \<noteq> lastIndex
     then bindR (at (nb_graphs b) lastIndex) (\<lambda>other. case other of
         None \<Rightarrow> Inl BadAccess
       | Some g' \<Rightarrow>
           (let b' = b\<lparr>nb_data := (nb_data b)[index := nb_data b ! lastIndex],
                        nb_graphs := (nb_graphs b)[index := Some g']\<rparr> in
            bindR (at (nh_graphs h) g') (\<lambda>nodes.
            if nodes \<noteq> []
            then bindR (graph_get g' p h) (\<lambda>j. assertR (j = lastIndex)
              (bindR (graph_set g' p index h) (\<lambda>h'. Inr (b', h'))))
            else Inr (b', h))))
     else Inr (b, h))"

definition nh_unlink :: "nat \<Rightarrow> nat \<Rightarrow> nat \<Rightarrow> nat \<Rightarrow> nat \<Rightarrow> 'n block \<Rightarrow> 'n phase \<Rightarrow> 'n hierarchy \<Rightarrow> 'n hierarchy res" where
  "nh_unlink part p ty i index b ph h = (let lastIndex = length (nb_data b) - 1 in
     bindR (nh_fill_gap p index b h) (\<lambda>(b', h').
       let b'' = b'\<lparr>nb_data := take lastIndex (nb_data b'), nb_graphs := take lastIndex (nb_graphs b')\<rparr>;
           ph' = ph\<lparr>ph_blocks := (ph_blocks ph)[i := b'']\<rparr> in
       bindR (if nb_data b'' = [] then ph_remove_block i ty ph' else Inr ph') (\<lambda>ph''.
       Inr (put_phase part p ph'' h'))))"

definition nh_remove :: "nat \<Rightarrow> nat \<Rightarrow> nat \<Rightarrow> nat \<Rightarrow> bool \<Rightarrow> nat \<Rightarrow> 'n hierarchy \<Rightarrow> 'n hierarchy res" where
  "nh_remove M g phaseIdx phaseOffset final ty h =
     (let p = phaseIdx + phaseOffset; part = partition_of final in
      assertR (p < M)
      (bindR (ph_block_index ty (nh_phases h part p)) (\<lambda>(i, ph).
       bindR (at (ph_blocks ph) i) (\<lambda>b.
       let h' = put_phase part p ph h in
       bindR (graph_get g p h') (\<lambda>index.
       bindR (at (nb_graphs b) index) (\<lambda>owner.
       assertR (owner = Some g)
       (if index < length (nb_data b)
        then bindR (nh_unlink part p ty i index b ph h') (\<lambda>h''.
          assertR (nh_counts h'' p > 0)
          (Inr (h''\<lparr>nh_counts := (nh_counts h'')(p := nh_counts h'' p - 1)\<rparr>)))
        else Inl BadAccess)))))))"

section \<open>Graph updaters\<close>

record updater =
  up_graph :: nat
  up_count :: nat
  up_offset :: nat

definition nh_reserve :: "nat \<Rightarrow> nat \<Rightarrow> nat \<Rightarrow> nat \<Rightarrow> 'n hierarchy \<Rightarrow> (updater \<times> 'n hierarchy) res" where
  "nh_reserve g phaseCount reserved first h =
     assertR (phaseCount > 0)
     (let infos = nh_graphs h @ replicate (g + 1 - length (nh_graphs h)) [] in
      assertR (infos ! g = [])
      (Inr (\<lparr>up_graph = g, up_count = reserved, up_offset = first\<rparr>,
            h\<lparr>nh_graphs := infos[g := replicate reserved None]\<rparr>)))"

definition nh_clear :: "nat \<Rightarrow> nat \<Rightarrow> nat \<Rightarrow> nat \<Rightarrow> 'n hierarchy \<Rightarrow> updater res" where
  "nh_clear g phaseCount reserved first h =
     assertR (phaseCount > 0)
     (bindR (at (nh_graphs h) g) (\<lambda>nodes. assertR (length nodes = reserved)
       (Inr \<lparr>up_graph = g, up_count = reserved, up_offset = first\<rparr>)))"

definition adder_create :: "nat \<Rightarrow> nat \<Rightarrow> nat \<Rightarrow> nat \<Rightarrow> updater \<Rightarrow> nat \<Rightarrow> nat \<Rightarrow> 'n \<Rightarrow> 'n hierarchy \<Rightarrow> 'n hierarchy res" where
  "adder_create sz cap gcap M u p ty node h = nh_add sz cap gcap M (up_graph u) (p + up_offset u) (p + 1 = up_count u) ty node h"

definition adder_get :: "nat \<Rightarrow> updater \<Rightarrow> nat \<Rightarrow> nat \<Rightarrow> 'n hierarchy \<Rightarrow> ('n \<times> 'n hierarchy) res" where
  "adder_get M u p ty h = nh_get M (up_graph u) (p + up_offset u) (p + 1 = up_count u) ty h"

definition eraser_remove :: "nat \<Rightarrow> updater \<Rightarrow> nat \<Rightarrow> nat \<Rightarrow> 'n hierarchy \<Rightarrow> 'n hierarchy res" where
  "eraser_remove M u p ty h = assertR (p < up_count u)
     (nh_remove M (up_graph u) p (up_offset u) (p + 1 = up_count u) ty h)"

definition eraser_clear :: "updater \<Rightarrow> 'n hierarchy \<Rightarrow> 'n hierarchy res" where
  "eraser_clear u h = bindR (at (nh_graphs h) (up_graph u)) (\<lambda>_.
     Inr (h\<lparr>nh_graphs := (nh_graphs h)[up_graph u := []]\<rparr>))"

section \<open>What a phase holds\<close>

definition block_ok :: "'n block \<Rightarrow> bool" where
  "block_ok b \<longleftrightarrow> length (nb_graphs b) = length (nb_data b) \<and> None \<notin> set (nb_graphs b)"

definition phase_ok :: "'n phase \<Rightarrow> bool" where
  "phase_ok ph \<longleftrightarrow>
     (\<forall>ty i. ph_map ph ty = Some i \<longleftrightarrow> i < length (ph_blocks ph) \<and> nb_type (ph_blocks ph ! i) = ty) \<and>
     (\<forall>b\<in>set (ph_blocks ph). block_ok b) \<and> length (ph_blocks ph) \<le> 2 ^ 16"

text \<open>The nodes of a block: graph, index, node; of a phase: graph, type, index, node.\<close>

definition block_nodes :: "'n block \<Rightarrow> (nat \<times> nat \<times> 'n) set" where
  "block_nodes b = {(g, k, x). k < length (nb_data b) \<and> nb_graphs b ! k = Some g \<and> nb_data b ! k = x}"

definition phase_nodes :: "'n phase \<Rightarrow> (nat \<times> nat \<times> nat \<times> 'n) set" where
  "phase_nodes ph = {(g, ty, k, x). \<exists>i < length (ph_blocks ph).
     nb_type (ph_blocks ph ! i) = ty \<and> (g, k, x) \<in> block_nodes (ph_blocks ph ! i)}"

definition phase_total :: "'n phase \<Rightarrow> nat" where
  "phase_total ph = sum_list (map (\<lambda>b. length (nb_data b)) (ph_blocks ph))"

lemma phase_okD:
  assumes "phase_ok ph"
  shows "ph_map ph ty = Some i \<longleftrightarrow> i < length (ph_blocks ph) \<and> nb_type (ph_blocks ph ! i) = ty"
    "i < length (ph_blocks ph) \<Longrightarrow> block_ok (ph_blocks ph ! i)" "length (ph_blocks ph) \<le> 2 ^ 16"
  using assms by (auto simp: phase_ok_def)

lemma phase_type_inj:
  assumes "phase_ok ph" "i < length (ph_blocks ph)" "j < length (ph_blocks ph)"
    "nb_type (ph_blocks ph ! i) = nb_type (ph_blocks ph ! j)"
  shows "i = j"
  using phase_okD(1) [OF assms(1)] assms(2-4) by (metis option.inject)

lemma phase_nodes_of_type:
  assumes "phase_ok ph" "i < length (ph_blocks ph)" "nb_type (ph_blocks ph ! i) = ty"
  shows "(g, ty, k, x) \<in> phase_nodes ph \<longleftrightarrow> (g, k, x) \<in> block_nodes (ph_blocks ph ! i)"
  using assms(2,3) phase_type_inj [OF assms(1)] unfolding phase_nodes_def mem_Collect_eq prod.case by metis

lemma phase_nodes_update:
  assumes "phase_ok ph" "i < length (ph_blocks ph)" "nb_type b = nb_type (ph_blocks ph ! i)"
  shows "(g, ty, k, x) \<in> phase_nodes (ph\<lparr>ph_blocks := (ph_blocks ph)[i := b]\<rparr>) \<longleftrightarrow>
    (if ty = nb_type b then (g, k, x) \<in> block_nodes b else (g, ty, k, x) \<in> phase_nodes ph)"
  using assms phase_type_inj [OF assms(1,2)]
  by (auto simp: phase_nodes_def nth_list_update split: if_splits)

lemma phase_ok_update:
  assumes "phase_ok ph" "i < length (ph_blocks ph)" "nb_type b = nb_type (ph_blocks ph ! i)" "block_ok b"
  shows "phase_ok (ph\<lparr>ph_blocks := (ph_blocks ph)[i := b]\<rparr>)"
  using assms unfolding phase_ok_def
  by (auto simp: nth_list_update dest!: set_update_subset_insert [THEN subsetD])

lemma phase_total_update:
  assumes "i < length (ph_blocks ph)"
  shows "phase_total (ph\<lparr>ph_blocks := (ph_blocks ph)[i := b]\<rparr>) + length (nb_data (ph_blocks ph ! i)) =
    phase_total ph + length (nb_data b)"
proof -
  have "sum_list (xs[i := (y :: nat)]) + xs ! i = sum_list xs + y" if "i < length xs" for xs y
    using that by (induction xs arbitrary: i) (auto split: nat.splits simp: nth_Cons')
  from this [of "map (\<lambda>b. length (nb_data b)) (ph_blocks ph)" "length (nb_data b)"] show ?thesis
    using assms by (simp add: phase_total_def map_update)
qed

lemma block_index_ok:
  assumes ok: "phase_ok ph" and room: "ph_map ph ty = None \<Longrightarrow> length (ph_blocks ph) < 2 ^ 16"
  shows "\<exists>i ph'. ph_block_index ty ph = Inr (i, ph') \<and> phase_ok ph' \<and> i < length (ph_blocks ph') \<and>
    nb_type (ph_blocks ph' ! i) = ty \<and> phase_nodes ph' = phase_nodes ph \<and> phase_total ph' = phase_total ph \<and>
    (ph_map ph ty \<noteq> None \<longrightarrow> ph' = ph) \<and>
    (\<forall>j<length (ph_blocks ph'). j \<noteq> i \<longrightarrow> ph_blocks ph' ! j \<in> set (ph_blocks ph))"
proof (cases "ph_map ph ty")
  case (Some i)
  then show ?thesis using ok phase_okD(1) [OF ok, of ty i] by (auto simp: ph_block_index_def)
next
  case None
  let ?n = "length (ph_blocks ph)"
  let ?ph = "\<lparr>ph_blocks = ph_blocks ph @ [\<lparr>nb_type = ty, nb_graphs = [], nb_data = []\<rparr>], ph_map = (ph_map ph)(ty \<mapsto> ?n)\<rparr>"
  have n: "?n < 2 ^ 16" using room None by simp
  have new: "nb_type (ph_blocks ph ! j) \<noteq> ty" if "j < ?n" for j
    using phase_okD(1) [OF ok, of ty j] None that by simp
  have "phase_ok ?ph"
    using phase_okD [OF ok] n new by (auto simp: phase_ok_def block_ok_def nth_append less_Suc_eq in_set_conv_nth)
  moreover have "phase_nodes ?ph = phase_nodes ph"
    by (auto simp: phase_nodes_def block_nodes_def nth_append less_Suc_eq)
  ultimately show ?thesis
    using None n by (simp add: ph_block_index_def Let_def safe_range_cast_ok phase_total_def nth_append less_Suc_eq)
qed

lemma nth_replace_last:
  assumes "i < length xs - 1" "j < length xs - 1"
  shows "butlast (xs[i := last xs]) ! j = (if j = i then last xs else xs ! j)"
  using assms by (simp add: nth_butlast nth_list_update)

lemma ex_replace_last:
  assumes i: "i < length xs - 1" and p: "\<not> P (xs ! i)"
  shows "(\<exists>j < length xs - 1. P (if j = i then last xs else xs ! j)) \<longleftrightarrow> (\<exists>j < length xs. P (xs ! j))"
proof
  have l: "last xs = xs ! (length xs - 1)" using i by (intro last_conv_nth) auto
  {
    assume "\<exists>j < length xs. P (xs ! j)"
    then obtain j where j: "j < length xs" "P (xs ! j)" by blast
    show "\<exists>j < length xs - 1. P (if j = i then last xs else xs ! j)"
    proof (cases "j = length xs - 1")
      case True
      then show ?thesis using i j l by (intro exI [of _ i]) simp
    next
      case False
      then show ?thesis using j p by (intro exI [of _ j]) auto
    qed
  next
    assume "\<exists>j < length xs - 1. P (if j = i then last xs else xs ! j)"
    then obtain j where j: "j < length xs - 1" "P (if j = i then last xs else xs ! j)" by blast
    show "\<exists>j < length xs. P (xs ! j)"
    proof (cases "j = i")
      case True
      then show ?thesis using i j l by (intro exI [of _ "length xs - 1"]) simp
    next
      case False
      then show ?thesis using j by (intro exI [of _ j]) auto
    qed
  }
qed

text \<open>Dropping an empty block.\<close>

lemma remove_block_ok:
  assumes ok: "phase_ok ph" and i: "i < length (ph_blocks ph)" "nb_type (ph_blocks ph ! i) = ty"
    and e: "nb_data (ph_blocks ph ! i) = []"
  shows "\<exists>ph'. ph_remove_block i ty ph = Inr ph' \<and> phase_ok ph' \<and> phase_nodes ph' = phase_nodes ph \<and>
    phase_total ph' = phase_total ph \<and>
    (\<forall>b\<in>set (ph_blocks ph'). \<exists>j<length (ph_blocks ph). j \<noteq> i \<and> b = ph_blocks ph ! j)"
proof -
  let ?bs = "ph_blocks ph" and ?n = "length (ph_blocks ph)"
  note D = phase_okD [OF ok]
  have m: "ph_map ph ty = Some i" using D(1) i by simp
  have none: "block_nodes (?bs ! i) = {}" by (simp add: block_nodes_def e)
  have bl: "length (nb_data (?bs ! i)) = 0" by (simp add: e)
  show ?thesis
  proof (cases "i = ?n - 1")
    case True
    let ?ph = "\<lparr>ph_blocks = butlast ?bs, ph_map = (ph_map ph)(ty := None)\<rparr>"
    have n: "?n = Suc i" using True i by simp
    have ne: "?bs \<noteq> []" using i by auto
    then have "last ?bs = ?bs ! i" using n by (simp add: last_conv_nth)
    then have bs: "?bs = butlast ?bs @ [?bs ! i]" using append_butlast_last_id [OF ne] by simp
    have nth: "j < i \<Longrightarrow> butlast ?bs ! j = ?bs ! j" for j using n by (simp add: nth_butlast)
    have "phase_ok ?ph"
      unfolding phase_ok_def
    proof (intro conjI allI)
      fix t j
      show "ph_map ?ph t = Some j \<longleftrightarrow> j < length (ph_blocks ?ph) \<and> nb_type (ph_blocks ?ph ! j) = t"
      proof (cases "j < i")
        case True
        then have "nb_type (?bs ! j) \<noteq> ty" using phase_type_inj [OF ok _ i(1), of j] i by auto
        then show ?thesis using True nth [OF True] D(1) [of t j] n by auto
      next
        case False
        have "t = ty" if "ph_map ph t = Some j"
          using D(1) [of t j] that False n i(2) by (metis less_antisym)
        then show ?thesis using False n by auto
      qed
      show "\<forall>b\<in>set (ph_blocks ?ph). block_ok b"
        using ok by (auto simp: phase_ok_def dest: in_set_butlastD)
      show "length (ph_blocks ?ph) \<le> 2 ^ 16" using D(3) by simp
    qed
    moreover have "phase_nodes ?ph = phase_nodes ph"
      using nth none n by (auto simp: phase_nodes_def less_Suc_eq)
    moreover have "phase_total ?ph = phase_total ph"
      unfolding phase_total_def by (subst (2) bs) (simp add: e)
    moreover have "\<forall>b\<in>set (ph_blocks ?ph). \<exists>j<?n. j \<noteq> i \<and> b = ?bs ! j"
    proof
      fix b assume "b \<in> set (ph_blocks ?ph)"
      then obtain j where "j < i" "b = butlast ?bs ! j" using n by (auto simp: in_set_conv_nth)
      then show "\<exists>j<?n. j \<noteq> i \<and> b = ?bs ! j" using nth n by (intro exI [of _ j]) simp
    qed
    ultimately show ?thesis
      using m True by (auto simp: ph_remove_block_def Let_def)
  next
    case False
    then have lt: "i < ?n - 1" using i by simp
    let ?l = "last ?bs"
    let ?m = "((ph_map ph)(ty := None))(nb_type ?l \<mapsto> i)"
    let ?ph = "\<lparr>ph_blocks = butlast (?bs[i := ?l]), ph_map = ?m\<rparr>"
    have last: "?n - 1 < ?n" using i(1) by simp
    have l: "?l = ?bs ! (?n - 1)" using i by (intro last_conv_nth) auto
    have tl: "nb_type ?l \<noteq> ty"
      using phase_type_inj [OF ok last i(1)] lt i(2) l by auto
    have ml: "ph_map ph (nb_type ?l) = Some (?n - 1)" using D(1) last l by simp
    have nth: "j < ?n - 1 \<Longrightarrow> ph_blocks ?ph ! j = (if j = i then ?l else ?bs ! j)" for j
      using nth_replace_last [OF lt] by simp
    have len: "length (ph_blocks ?ph) = ?n - 1" by simp
    have "phase_ok ?ph"
      unfolding phase_ok_def
    proof (intro conjI allI)
      fix t j
      show "ph_map ?ph t = Some j \<longleftrightarrow> j < length (ph_blocks ?ph) \<and> nb_type (ph_blocks ?ph ! j) = t"
      proof (cases "j < ?n - 1")
        case True
        have jn: "j < ?n" using True by simp
        have "j = ?n - 1 \<or> nb_type (?bs ! j) \<noteq> nb_type ?l" 
          using phase_type_inj [OF ok jn last] True l by auto
        moreover have "j \<noteq> i \<Longrightarrow> nb_type (?bs ! j) \<noteq> ty"
          using phase_type_inj [OF ok jn i(1)] i(2) by auto
        ultimately show ?thesis
          using nth [OF True] True D(1) [of t j] tl lt i(2) by auto
      next
        case out: False
        have "ph_map ph t = Some j \<Longrightarrow> t = nb_type ?l"
          using D(1) [of t j] out l by (metis Suc_pred' less_antisym diff_Suc_1 i(1) gr_implies_not0 not_gr0)
        then show ?thesis using out lt tl by auto
      qed
      show "\<forall>b\<in>set (ph_blocks ?ph). block_ok b"
        using D(2) len nth lt l by (auto simp: in_set_conv_nth)
      show "length (ph_blocks ?ph) \<le> 2 ^ 16" using D(3) by simp
    qed
    moreover have "phase_nodes ?ph = phase_nodes ph"
    proof -
      note ex = ex_replace_last [OF lt]
      have eq: "(\<exists>j < ?n - 1. nb_type (ph_blocks ?ph ! j) = t \<and> (g, k, x) \<in> block_nodes (ph_blocks ?ph ! j)) \<longleftrightarrow>
          (\<exists>j < ?n. nb_type (?bs ! j) = t \<and> (g, k, x) \<in> block_nodes (?bs ! j))" for t g k x
        using ex [of "\<lambda>b. nb_type b = t \<and> (g, k, x) \<in> block_nodes b"] none nth by auto
      show ?thesis unfolding phase_nodes_def len by (simp only: eq)
    qed
    moreover have "phase_total ?ph = phase_total ph"
    proof -
      let ?ph1 = "ph\<lparr>ph_blocks := ?bs[i := ?l]\<rparr>"
      have "?bs \<noteq> []" using i by auto
      then have "last (?bs[i := ?l]) = ?l" using lt by (simp add: last_list_update)
      moreover have "?bs[i := ?l] \<noteq> []" using i by auto
      ultimately have "?bs[i := ?l] = butlast (?bs[i := ?l]) @ [?l]"
        by (metis append_butlast_last_id)
      then have "map (\<lambda>b. length (nb_data b)) (?bs[i := ?l]) =
          map (\<lambda>b. length (nb_data b)) (butlast (?bs[i := ?l])) @ [length (nb_data ?l)]"
        by (metis list.simps(8,9) map_append)
      then have "phase_total ?ph1 = phase_total ?ph + length (nb_data ?l)"
        unfolding phase_total_def by simp
      then show ?thesis using phase_total_update [OF i(1), of ?l] bl by simp
    qed
    moreover have "\<forall>b\<in>set (ph_blocks ?ph). \<exists>j<?n. j \<noteq> i \<and> b = ?bs ! j"
    proof
      fix b assume "b \<in> set (ph_blocks ?ph)"
      then obtain j where j: "j < ?n - 1" "b = ph_blocks ?ph ! j" unfolding in_set_conv_nth len by blast
      show "\<exists>j<?n. j \<noteq> i \<and> b = ?bs ! j"
        using j nth [OF j(1)] l lt by (intro exI [of _ "if j = i then ?n - 1 else j"]) auto
    qed
    moreover have "?bs \<noteq> []" using i by auto
    ultimately show ?thesis
      using m ml tl lt safe_range_cast_ok [of i 16] D(3) False i
      by (auto simp: ph_remove_block_def Let_def)
  qed
qed

section \<open>The invariant\<close>

text \<open>One phase: what its two partitions hold agrees with the graphs' index tables.\<close>

definition row_ok :: "'n hierarchy \<Rightarrow> nat \<Rightarrow> bool" where
  "row_ok h p \<longleftrightarrow>
     (\<forall>part<2. phase_ok (nh_phases h part p)) \<and>
     (\<forall>part<2. \<forall>g ty k x. (g, ty, k, x) \<in> phase_nodes (nh_phases h part p) \<longrightarrow> graph_get g p h = Inr k) \<and>
     (\<forall>part<2. \<forall>part'<2. \<forall>g ty k x ty' k' x'. (g, ty, k, x) \<in> phase_nodes (nh_phases h part p) \<longrightarrow>
        (g, ty', k', x') \<in> phase_nodes (nh_phases h part' p) \<longrightarrow> part = part' \<and> ty = ty') \<and>
     nh_counts h p = phase_total (nh_phases h 0 p) + phase_total (nh_phases h 1 p)"

definition nh_ok :: "nat \<Rightarrow> 'n hierarchy \<Rightarrow> bool" where
  "nh_ok M h \<longleftrightarrow> (\<forall>p<M. row_ok h p)"

text \<open>The hierarchy as the set of its nodes: graph, phase, partition, type, node.\<close>

definition nh_view :: "nat \<Rightarrow> 'n hierarchy \<Rightarrow> (nat \<times> nat \<times> nat \<times> nat \<times> 'n) set" where
  "nh_view M h = {(g, p, part, ty, x). p < M \<and> part < 2 \<and> (\<exists>k. (g, ty, k, x) \<in> phase_nodes (nh_phases h part p))}"

text \<open>No block is empty: each was dropped with the last node of its type.\<close>

definition ph_tight :: "'n phase \<Rightarrow> bool" where
  "ph_tight ph \<longleftrightarrow> (\<forall>b\<in>set (ph_blocks ph). nb_data b \<noteq> [])"

definition nh_tight :: "nat \<Rightarrow> 'n hierarchy \<Rightarrow> bool" where
  "nh_tight M h \<longleftrightarrow> (\<forall>p<M. \<forall>part<2. ph_tight (nh_phases h part p))"

definition has_slot :: "nat \<Rightarrow> nat \<Rightarrow> 'n hierarchy \<Rightarrow> bool" where
  "has_slot g p h \<longleftrightarrow> g < length (nh_graphs h) \<and> p < length (nh_graphs h ! g)"

lemma row_okD:
  assumes "row_ok h p" "part < 2"
  shows "phase_ok (nh_phases h part p)"
    "(g, ty, k, x) \<in> phase_nodes (nh_phases h part p) \<Longrightarrow> graph_get g p h = Inr k"
    "(g, ty, k, x) \<in> phase_nodes (nh_phases h part p) \<Longrightarrow> part' < 2 \<Longrightarrow>
      (g, ty', k', x') \<in> phase_nodes (nh_phases h part' p) \<Longrightarrow> part = part' \<and> ty = ty'"
    "nh_counts h p = phase_total (nh_phases h 0 p) + phase_total (nh_phases h 1 p)"
  using assms unfolding row_ok_def by blast+

lemma row_ok_cong:
  assumes "\<And>part. nh_phases h' part p = nh_phases h part p" "\<And>g. graph_get g p h' = graph_get g p h"
    "nh_counts h' p = nh_counts h p"
  shows "row_ok h' p = row_ok h p"
  by (simp add: row_ok_def assms)

lemma put_phase_simps [simp]:
  "nh_phases (put_phase part p ph h) part' p' = (if part' = part \<and> p' = p then ph else nh_phases h part' p')"
  "nh_graphs (put_phase part p ph h) = nh_graphs h" "nh_counts (put_phase part p ph h) = nh_counts h"
  "graph_get g p' (put_phase part p ph h) = graph_get g p' h"
  by (simp_all add: put_phase_def graph_get_def)

lemma put_phase_same: "put_phase part p (nh_phases h part p) h = h"
  by (simp add: put_phase_def)

lemma graph_get_counts [simp]: "graph_get g p (h\<lparr>nh_counts := c\<rparr>) = graph_get g p h"
  by (simp add: graph_get_def)

lemma at_simp [simp]: "i < length xs \<Longrightarrow> at xs i = Inr (xs ! i)"
  by (simp add: at_def)

lemma graph_get_has_slot: "graph_get g p h = Inr k \<Longrightarrow> has_slot g p h"
  by (auto simp: graph_get_def has_slot_def at_def bindR_eq_Inr assertR_eq_Inr)

lemma graph_set_ok:
  assumes "has_slot g p h"
  shows "\<exists>h'. graph_set g p k h = Inr h' \<and> nh_phases h' = nh_phases h \<and> nh_counts h' = nh_counts h \<and>
    map length (nh_graphs h') = map length (nh_graphs h) \<and>
    (\<forall>g' p'. graph_get g' p' h' = (if g' = g \<and> p' = p then Inr k else graph_get g' p' h))"
proof -
  let ?h = "h\<lparr>nh_graphs := (nh_graphs h)[g := (nh_graphs h ! g)[p := Some k]]\<rparr>"
  have "graph_set g p k h = Inr ?h"
    using assms by (simp add: graph_set_def has_slot_def)
  moreover have "graph_get g' p' ?h = (if g' = g \<and> p' = p then Inr k else graph_get g' p' h)" for g' p'
    using assms by (cases "g' < length (nh_graphs h)")
      (auto simp: graph_get_def has_slot_def at_def nth_list_update assertR_def)
  moreover have "map length (nh_graphs ?h) = map length (nh_graphs h)"
    using assms by (simp add: has_slot_def map_update list_update_same_conv)
  ultimately show ?thesis by auto
qed

lemma has_slot_shape: "map length (nh_graphs h') = map length (nh_graphs h) \<Longrightarrow> has_slot g p h' = has_slot g p h"
  unfolding has_slot_def by (metis length_map nth_map)

lemma block_nodes_append:
  assumes "block_ok b"
  shows "block_nodes (b\<lparr>nb_data := nb_data b @ [x], nb_graphs := nb_graphs b @ [Some g]\<rparr>) =
    insert (g, length (nb_data b), x) (block_nodes b)"
  using assms by (auto simp: block_nodes_def block_ok_def nth_append less_Suc_eq)

lemma block_le_total: "i < length (ph_blocks ph) \<Longrightarrow> length (nb_data (ph_blocks ph ! i)) \<le> phase_total ph"
  unfolding phase_total_def
  using member_le_sum_list [of "length (nb_data (ph_blocks ph ! i))" "map (\<lambda>b. length (nb_data b)) (ph_blocks ph)"] by auto

lemma part_lt [simp]: "partition_of f < 2"
  by (simp add: partition_of_def)

text \<open>Then a phase has a block of a type exactly when it has a node of the type.\<close>

lemma tight_blocks:
  assumes "nh_ok M h" "nh_tight M h" "p < M" "part < 2"
  shows "(\<exists>b\<in>set (ph_blocks (nh_phases h part p)). nb_type b = ty) \<longleftrightarrow> (\<exists>g x. (g, p, part, ty, x) \<in> nh_view M h)"
proof
  let ?ph = "nh_phases h part p"
  assume "\<exists>b\<in>set (ph_blocks ?ph). nb_type b = ty"
  then obtain i where i: "i < length (ph_blocks ?ph)" "nb_type (ph_blocks ?ph ! i) = ty" by (auto simp: in_set_conv_nth)
  define b where "b = ph_blocks ?ph ! i"
  have "block_ok b" "nb_data b \<noteq> []"
    using assms i(1) row_okD(1) [of h p part] phase_okD(2) [of ?ph i]
    by (auto simp: b_def nh_ok_def nh_tight_def ph_tight_def)
  then have "0 < length (nb_graphs b)" "0 < length (nb_data b)" "None \<notin> set (nb_graphs b)" by (auto simp: block_ok_def)
  then obtain g where "nb_graphs b ! 0 = Some g" by (metis nth_mem option.exhaust)
  then have "(g, 0, nb_data b ! 0) \<in> block_nodes b" using \<open>0 < length (nb_data b)\<close> by (simp add: block_nodes_def)
  then have "(g, ty, 0, nb_data b ! 0) \<in> phase_nodes ?ph" using i by (auto simp: phase_nodes_def b_def)
  then show "\<exists>g x. (g, p, part, ty, x) \<in> nh_view M h" using assms(3,4) by (auto simp: nh_view_def)
qed (auto simp: nh_view_def phase_nodes_def)

section \<open>Adding\<close>

lemma resize_cap_ok: "n \<le> want \<Longrightarrow> want < 2 ^ 32 \<Longrightarrow> \<exists>c. resize_cap n want cap = Inr c"
  by (simp add: resize_cap_def safe_range_cast_ok)

lemma resize_cap_too_big: "cap < n \<Longrightarrow> 2 ^ 32 \<le> want \<Longrightarrow> resize_cap n want cap = Inl AssertFail"
  by (simp add: resize_cap_def safe_range_cast_def assertR_def trunc_eq_iff)

lemma grow_graphs_ok:
  assumes "length (nb_graphs b) = index" "index * 2 + 1 < 2 ^ 32"
  shows "grow_graphs gcap index b = Inr (b\<lparr>nb_graphs := nb_graphs b @ [None]\<rparr>)"
proof -
  have t: "trunc 32 (index + 1) = index + 1" "trunc 32 (index * 2 + 1) = index * 2 + 1"
    using assms(2) by (simp_all add: trunc_id)
  obtain c where "resize_cap (index + 1) (index * 2 + 1) gcap = Inr c"
    using resize_cap_ok [of "index + 1" "index * 2 + 1" gcap] assms(2) by auto
  then show ?thesis
    unfolding grow_graphs_def Let_def t using assms(1) by auto
qed

lemma nh_add_ok:
  assumes ok: "nh_ok M h" and p: "p < M" and slot: "has_slot g p h"
    and new: "\<And>part ty x. (g, p, part, ty, x) \<notin> nh_view M h"
    and room: "0 < sz" "sz * (nh_counts h p + 1) * 2 < 2 ^ 32" "length (ph_blocks (nh_phases h (partition_of final) p)) < 2 ^ 16"
  shows "\<exists>h'. nh_add sz cap gcap M g p final ty x h = Inr h' \<and> nh_ok M h' \<and>
    nh_view M h' = insert (g, p, partition_of final, ty, x) (nh_view M h) \<and> (nh_tight M h \<longrightarrow> nh_tight M h') \<and>
    map length (nh_graphs h') = map length (nh_graphs h)"
proof -
  let ?part = "partition_of final"
  let ?ph = "nh_phases h ?part p"
  have row: "row_ok h p" using ok p by (simp add: nh_ok_def)
  note R = row_okD [OF row part_lt [of final]]
  obtain i ph where i: "ph_block_index ty ?ph = Inr (i, ph)" "phase_ok ph" "i < length (ph_blocks ph)"
    "nb_type (ph_blocks ph ! i) = ty" "phase_nodes ph = phase_nodes ?ph" "phase_total ph = phase_total ?ph"
    "\<forall>j<length (ph_blocks ph). j \<noteq> i \<longrightarrow> ph_blocks ph ! j \<in> set (ph_blocks ?ph)"
    using block_index_ok [OF R(1)] room(3) by blast
  let ?b = "ph_blocks ph ! i"
  let ?k = "length (nb_data ?b)"
  have b: "block_ok ?b" using phase_okD(2) [OF i(2,3)] .
  then have len: "length (nb_graphs ?b) = ?k" by (simp add: block_ok_def)
  have kn: "?k \<le> nh_counts h p"
    using block_le_total [OF i(3)] i(6) R(4) by (auto simp: partition_of_def split: if_splits)
  have "sz * (?k + 1) * 2 \<le> sz * (nh_counts h p + 1) * 2" using kn by (intro mult_le_mono) simp_all
  then have big: "sz * (?k + 1) * 2 < 2 ^ 32" using room(2) by (rule le_less_trans)
  have "1 * (?k + 1) * 2 \<le> sz * (?k + 1) * 2" using room(1) by (intro mult_le_mono) simp_all
  then have k: "?k * 2 + 1 < 2 ^ 32" "?k < 2 ^ 32" using big by simp_all
  have "1 * (nh_counts h p + 1) * 2 \<le> sz * (nh_counts h p + 1) * 2" using room(1) by (intro mult_le_mono) simp_all
  then have cnt32: "nh_counts h p + 1 < 2 ^ 32" using room(2) by simp
  obtain c where c: "resize_cap (sz + sz * ?k) ((sz + sz * ?k) * 2) cap = Inr c"
    using resize_cap_ok [of "sz + sz * ?k" "(sz + sz * ?k) * 2" cap] big by auto
  let ?bd = "?b\<lparr>nb_data := nb_data ?b @ [x]\<rparr>"
  have gc: "grow_graphs gcap ?k ?bd = Inr (?bd\<lparr>nb_graphs := nb_graphs ?bd @ [None]\<rparr>)"
    using grow_graphs_ok [of ?bd ?k] len k(1) by auto
  let ?b' = "?bd\<lparr>nb_graphs := nb_graphs ?b @ [Some g]\<rparr>"
  let ?ph' = "ph\<lparr>ph_blocks := (ph_blocks ph)[i := ?b']\<rparr>"
  let ?h1 = "put_block ?part p i ?b' ph h"
  let ?h2 = "?h1\<lparr>nh_counts := (nh_counts ?h1)(p := trunc 32 (nh_counts ?h1 p + 1))\<rparr>"
  have s2: "has_slot g p ?h2" using slot by (simp add: has_slot_def put_block_def)
  obtain h' where h': "graph_set g p ?k ?h2 = Inr h'" "nh_phases h' = nh_phases ?h2" "nh_counts h' = nh_counts ?h2"
    "map length (nh_graphs h') = map length (nh_graphs ?h2)"
    "\<And>g' p'. graph_get g' p' h' = (if g' = g \<and> p' = p then Inr ?k else graph_get g' p' ?h2)"
    using graph_set_ok [OF s2, of ?k] by blast
  have upd: "(?bd\<lparr>nb_graphs := nb_graphs ?bd @ [None]\<rparr>)
      \<lparr>nb_graphs := (nb_graphs (?bd\<lparr>nb_graphs := nb_graphs ?bd @ [None]\<rparr>))[?k := Some g]\<rparr> = ?b'"
    using len by (simp add: list_update_append)
  have idx: "safe_range_cast 32 (sz * ?k div sz) = Inr ?k" using k(2) room(1) by (simp add: safe_range_cast_ok)
  have at: "at (ph_blocks ph) i = Inr ?b" using i(3) by (simp add: at_def)
  have in_g: "?k < length (nb_graphs (?bd\<lparr>nb_graphs := nb_graphs ?bd @ [None]\<rparr>))" using len by simp
  have add: "nh_add sz cap gcap M g p final ty x h = Inr h'"
    unfolding nh_add_def Let_def i(1) bindR_simps prod.case at idx c gc upd
    using p in_g h'(1) by simp
  have ph': "nh_phases h' part' p' = (if part' = ?part \<and> p' = p then ?ph' else nh_phases h part' p')" for part' p'
    using h'(2) by (simp add: put_block_def)
  have gg: "graph_get g' p' h' = (if g' = g \<and> p' = p then Inr ?k else graph_get g' p' h)" for g' p'
    using h'(5) by (simp add: put_block_def)
  have cnt: "nh_counts h' = (nh_counts h)(p := nh_counts h p + 1)"
    using h'(3) cnt32 by (simp add: put_block_def trunc_id)
  have b': "block_ok ?b'" using b by (simp add: block_ok_def)
  have tight: "nh_tight M h'" if "nh_tight M h"
    unfolding nh_tight_def ph_tight_def
  proof (intro allI impI ballI)
    fix q part' b assume q: "q < M" "part' < (2 :: nat)" "b \<in> set (ph_blocks (nh_phases h' part' q))"
    show "nb_data b \<noteq> []"
    proof (cases "part' = ?part \<and> q = p")
      case True
      then obtain j where j: "j < length (ph_blocks ph)" "b = (ph_blocks ph)[i := ?b'] ! j"
        using q(3) by (auto simp: ph' in_set_conv_nth)
      have "\<forall>c\<in>set (ph_blocks ?ph). nb_data c \<noteq> []"
        using that p part_lt [of final] unfolding nh_tight_def ph_tight_def by blast
      then show ?thesis using i(3,7) j by (cases "j = i") auto
    qed (use q that in \<open>auto simp: ph' nh_tight_def ph_tight_def\<close>)
  qed
  have okp: "phase_ok ?ph'" using phase_ok_update [OF i(2,3) _ b'] by simp
  have nodes: "phase_nodes ?ph' = insert (g, ty, ?k, x) (phase_nodes ?ph)"
  proof -
    have "(g', t, k', x') \<in> phase_nodes ?ph' \<longleftrightarrow> (g', t, k', x') \<in> insert (g, ty, ?k, x) (phase_nodes ph)" for g' t k' x'
      using phase_nodes_update [OF i(2,3), of ?b' g' t k' x'] block_nodes_append [OF b, where x = x and g = g]
        phase_nodes_of_type [OF i(2,3,4), of g' k' x'] i(4) by auto
    then show ?thesis using i(5) by auto
  qed
  have absent: "(g, t, k', x') \<notin> phase_nodes (nh_phases h part' p)" if "part' < 2" for part' t k' x'
    using new [of part' t x'] p that by (auto simp: nh_view_def)
  have total: "phase_total ?ph' = phase_total ?ph + 1"
    using phase_total_update [OF i(3), of ?b'] i(6) by simp
  have "row_ok h' p"
    unfolding row_ok_def
  proof (intro conjI allI impI)
    fix part' :: nat assume pt: "part' < 2"
    show "phase_ok (nh_phases h' part' p)" using okp row_okD(1) [OF row pt] by (simp add: ph')
    fix g' t k' x' assume m: "(g', t, k', x') \<in> phase_nodes (nh_phases h' part' p)"
    have old: "(g', t, k', x') \<in> phase_nodes (nh_phases h part' p) \<or> part' = ?part \<and> (g', t, k', x') = (g, ty, ?k, x)"
      using m nodes by (auto simp: ph' split: if_splits)
    then show "graph_get g' p h' = Inr k'"
      using row_okD(2) [OF row pt] absent [OF pt] unfolding gg by (metis prod.inject)
    fix part'' t'' k'' x'' assume pt2: "(part'' :: nat) < 2" and m2: "(g', t'', k'', x'') \<in> phase_nodes (nh_phases h' part'' p)"
    have old2: "(g', t'', k'', x'') \<in> phase_nodes (nh_phases h part'' p) \<or> part'' = ?part \<and> (g', t'', k'', x'') = (g, ty, ?k, x)"
      using m2 nodes by (auto simp: ph' split: if_splits)
    show "part' = part''" "t = t''"
      using old old2 absent [OF pt] absent [OF pt2] row_okD(3) [OF row pt _ pt2] by blast+
  next
    show "nh_counts h' p = phase_total (nh_phases h' 0 p) + phase_total (nh_phases h' 1 p)"
      using R(4) total cnt by (auto simp: ph' partition_of_def)
  qed
  moreover have "row_ok h' q" if "q < M" "q \<noteq> p" for q
    using row_ok_cong [of h' q h] that ok cnt by (simp add: ph' gg nh_ok_def)
  ultimately have "nh_ok M h'" by (auto simp: nh_ok_def)
  moreover have "nh_view M h' = insert (g, p, ?part, ty, x) (nh_view M h)"
    using nodes p by (auto simp: nh_view_def ph' split: if_splits)
  moreover have "map length (nh_graphs h') = map length (nh_graphs h)" using h'(4) by (simp add: put_block_def)
  ultimately show ?thesis using add tight by (simp add: gg)
qed

section \<open>Looking up\<close>

lemma nh_get_ok:
  assumes ok: "nh_ok M h" and v: "(g, p, partition_of final, ty, x) \<in> nh_view M h"
  shows "nh_get M g p final ty h = Inr (x, h)"
proof -
  let ?part = "partition_of final"
  let ?ph = "nh_phases h ?part p"
  obtain k where p: "p < M" and k: "(g, ty, k, x) \<in> phase_nodes ?ph"
    using v by (auto simp: nh_view_def)
  have row: "row_ok h p" using ok p by (simp add: nh_ok_def)
  note R = row_okD [OF row part_lt [of final]]
  obtain i where i: "i < length (ph_blocks ?ph)" "nb_type (ph_blocks ?ph ! i) = ty" "(g, k, x) \<in> block_nodes (ph_blocks ?ph ! i)"
    using k by (auto simp: phase_nodes_def)
  then have "ph_block_index ty ?ph = Inr (i, ?ph)"
    using phase_okD(1) [OF R(1), of ty i] by (simp add: ph_block_index_def)
  then show ?thesis
    using p i R(2) [OF k] by (simp add: nh_get_def Let_def put_phase_same block_nodes_def)
qed

section \<open>Removing\<close>

text \<open>A block without the node at \<open>k\<close>, the last one in its place.\<close>

definition swap_out :: "nat \<Rightarrow> 'n block \<Rightarrow> 'n block" where
  "swap_out k b = (let l = length (nb_data b) - 1 in
     b\<lparr>nb_data := take l ((nb_data b)[k := nb_data b ! l]), nb_graphs := take l ((nb_graphs b)[k := nb_graphs b ! l])\<rparr>)"

lemma swap_out_ok:
  assumes "block_ok b" "k < length (nb_data b)"
  shows "block_ok (swap_out k b)" "nb_type (swap_out k b) = nb_type b"
    "length (nb_data (swap_out k b)) = length (nb_data b) - 1"
    "(g, j, x) \<in> block_nodes (swap_out k b) \<longleftrightarrow> j < length (nb_data b) - 1 \<and>
      (g, if j = k then length (nb_data b) - 1 else j, x) \<in> block_nodes b"
proof -
  let ?l = "length (nb_data b) - 1"
  have len: "length (nb_graphs b) = length (nb_data b)" "?l < length (nb_data b)" "None \<notin> set (nb_graphs b)"
    using assms by (auto simp: block_ok_def)
  have "nb_graphs b ! ?l \<in> set (nb_graphs b)" using len by simp
  then have "None \<notin> set (nb_graphs b) \<longrightarrow> None \<notin> insert (nb_graphs b ! ?l) (set (nb_graphs b))" by auto
  then have "None \<notin> set (take ?l ((nb_graphs b)[k := nb_graphs b ! ?l]))"
    using len(3) by (meson in_set_takeD set_update_subset_insert subsetD)
  then show "block_ok (swap_out k b)"
    using len(1) by (simp add: block_ok_def swap_out_def Let_def)
  show "nb_type (swap_out k b) = nb_type b" "length (nb_data (swap_out k b)) = length (nb_data b) - 1"
    by (simp_all add: swap_out_def Let_def)
  show "(g, j, x) \<in> block_nodes (swap_out k b) \<longleftrightarrow> j < length (nb_data b) - 1 \<and>
      (g, if j = k then length (nb_data b) - 1 else j, x) \<in> block_nodes b"
    using len(1,2) assms(2) by (auto simp: block_nodes_def swap_out_def Let_def nth_list_update)
qed

text \<open>Filling the gap, given the node that is removed.\<close>

lemma nh_fill_gap_ok:
  assumes row: "row_ok h p" and part: "part < 2" and i: "i < length (ph_blocks (nh_phases h part p))"
    and b: "b = ph_blocks (nh_phases h part p) ! i" and k: "k < length (nb_data b)"
  shows "\<exists>b' h' g2. nh_fill_gap p k b h = Inr (b', h') \<and>
    b'\<lparr>nb_data := take (length (nb_data b) - 1) (nb_data b'), nb_graphs := take (length (nb_data b) - 1) (nb_graphs b')\<rparr>
      = swap_out k b \<and>
    nh_phases h' = nh_phases h \<and> nh_counts h' = nh_counts h \<and> map length (nh_graphs h') = map length (nh_graphs h) \<and>
    nb_graphs b ! (length (nb_data b) - 1) = Some g2 \<and>
    (\<forall>g' p'. graph_get g' p' h' =
      (if p' = p \<and> k \<noteq> length (nb_data b) - 1 \<and> g' = g2 then Inr k else graph_get g' p' h))"
proof -
  let ?l = "length (nb_data b) - 1"
  note R = row_okD [OF row part]
  have ok: "block_ok b" using phase_okD(2) [OF R(1) i] b by simp
  have lg: "length (nb_graphs b) = length (nb_data b)" "?l < length (nb_data b)" using ok k by (auto simp: block_ok_def)
  obtain g2 where g2: "nb_graphs b ! ?l = Some g2"
    using ok lg by (metis block_ok_def nth_mem option.exhaust)
  show ?thesis
  proof (cases "k = ?l")
    case True
    then show ?thesis using g2 by (simp add: swap_out_def nh_fill_gap_def Let_def)
  next
    case False
    have "(g2, nb_type b, ?l, nb_data b ! ?l) \<in> phase_nodes (nh_phases h part p)"
      using phase_nodes_of_type [OF R(1) i, of "nb_type b"] g2 lg(2) b by (simp add: block_nodes_def)
    then have gg: "graph_get g2 p h = Inr ?l" by (rule R(2))
    then have slot: "has_slot g2 p h" by (rule graph_get_has_slot)
    then have ne: "g2 < length (nh_graphs h)" "nh_graphs h ! g2 \<noteq> []" by (auto simp: has_slot_def)
    obtain h' where h': "graph_set g2 p k h = Inr h'" "nh_phases h' = nh_phases h" "nh_counts h' = nh_counts h"
      "map length (nh_graphs h') = map length (nh_graphs h)"
      "\<forall>g' p'. graph_get g' p' h' = (if g' = g2 \<and> p' = p then Inr k else graph_get g' p' h)"
      using graph_set_ok [OF slot, of k] by blast
    let ?b' = "b\<lparr>nb_data := (nb_data b)[k := nb_data b ! ?l], nb_graphs := (nb_graphs b)[k := Some g2]\<rparr>"
    have "nh_fill_gap p k b h = Inr (?b', h')"
      using False g2 lg gg ne h'(1) by (simp add: nh_fill_gap_def Let_def)
    moreover have "?b'\<lparr>nb_data := take ?l (nb_data ?b'), nb_graphs := take ?l (nb_graphs ?b')\<rparr> = swap_out k b"
      using g2 by (simp add: swap_out_def Let_def)
    ultimately show ?thesis
      using h'(2-5) g2 False by (intro exI [of _ ?b'] exI [of _ h'] exI [of _ g2]) auto
  qed
qed

text \<open>What \<open>nh_unlink\<close> does.\<close>

lemma nh_unlink_ok:
  assumes row: "row_ok h p" and part: "part < 2" and ph: "ph = nh_phases h part p"
    and i: "i < length (ph_blocks ph)" "nb_type (ph_blocks ph ! i) = ty" and b: "b = ph_blocks ph ! i"
    and k: "k < length (nb_data b)"
  shows "\<exists>h' ph' g2. nh_unlink part p ty i k b ph h = Inr h' \<and>
    (\<forall>part' p'. nh_phases h' part' p' = (if part' = part \<and> p' = p then ph' else nh_phases h part' p')) \<and>
    phase_ok ph' \<and> phase_total ph' + 1 = phase_total ph \<and> (ph_tight ph \<longrightarrow> ph_tight ph') \<and>
    (\<forall>g' t j x'. (g', t, j, x') \<in> phase_nodes ph' \<longleftrightarrow>
      (if t = ty then (g', j, x') \<in> block_nodes (swap_out k b) else (g', t, j, x') \<in> phase_nodes ph)) \<and>
    nh_counts h' = nh_counts h \<and> map length (nh_graphs h') = map length (nh_graphs h) \<and>
    nb_graphs b ! (length (nb_data b) - 1) = Some g2 \<and>
    (\<forall>g' p'. graph_get g' p' h' =
      (if p' = p \<and> k \<noteq> length (nb_data b) - 1 \<and> g' = g2 then Inr k else graph_get g' p' h))"
proof -
  let ?l = "length (nb_data b) - 1"
  note R = row_okD(1) [OF row part, folded ph]
  have "block_ok b" using phase_okD(2) [OF R i(1)] b by simp
  note S = swap_out_ok [OF this k]
  let ?ph1 = "ph\<lparr>ph_blocks := (ph_blocks ph)[i := swap_out k b]\<rparr>"
  have ty: "nb_type (swap_out k b) = nb_type (ph_blocks ph ! i)" using S(2) b by simp
  have ok1: "phase_ok ?ph1" by (rule phase_ok_update [OF R i(1) ty S(1)])
  have tot1: "phase_total ?ph1 + 1 = phase_total ph"
    using phase_total_update [OF i(1), of "swap_out k b"] S(3) k b by simp
  have nodes1: "(g', t, j, x') \<in> phase_nodes ?ph1 \<longleftrightarrow>
      (if t = ty then (g', j, x') \<in> block_nodes (swap_out k b) else (g', t, j, x') \<in> phase_nodes ph)" for g' t j x'
    using phase_nodes_update [OF R i(1) ty, of g' t j x'] i(2) ty by simp
  obtain ph' where ph': "(if nb_data (swap_out k b) = [] then ph_remove_block i ty ?ph1 else Inr ?ph1) = Inr ph'"
    "phase_ok ph'" "phase_nodes ph' = phase_nodes ?ph1" "phase_total ph' = phase_total ?ph1"
    "nb_data (swap_out k b) = [] \<Longrightarrow> \<forall>c\<in>set (ph_blocks ph'). \<exists>j<length (ph_blocks ?ph1). j \<noteq> i \<and> c = ph_blocks ?ph1 ! j"
    "nb_data (swap_out k b) \<noteq> [] \<Longrightarrow> ph' = ?ph1"
    using remove_block_ok [OF ok1, of i ty] ok1 i ty by (cases "nb_data (swap_out k b) = []") auto
  have tight: "ph_tight ph'" if t: "ph_tight ph"
    unfolding ph_tight_def
  proof
    fix c assume c: "c \<in> set (ph_blocks ph')"
    show "nb_data c \<noteq> []"
    proof (cases "nb_data (swap_out k b) = []")
      case True
      then obtain j where "j < length (ph_blocks ph)" "j \<noteq> i" "c = ph_blocks ph ! j" using ph'(5) c by auto
      then show ?thesis using t by (auto simp: ph_tight_def)
    next
      case False
      have "c \<in> insert (swap_out k b) (set (ph_blocks ph))"
        using c ph'(6) [OF False] set_update_subset_insert [of "ph_blocks ph" i "swap_out k b"] by auto
      then show ?thesis using t False by (auto simp: ph_tight_def)
    qed
  qed
  obtain b' h' g2 where s: "nh_fill_gap p k b h = Inr (b', h')"
    "b'\<lparr>nb_data := take ?l (nb_data b'), nb_graphs := take ?l (nb_graphs b')\<rparr> = swap_out k b"
    "nh_phases h' = nh_phases h" "nh_counts h' = nh_counts h" "map length (nh_graphs h') = map length (nh_graphs h)"
    "nb_graphs b ! ?l = Some g2"
    "\<forall>g' p'. graph_get g' p' h' = (if p' = p \<and> k \<noteq> ?l \<and> g' = g2 then Inr k else graph_get g' p' h)"
    using nh_fill_gap_ok [OF row part _ _ k, of i] i(1) b ph by blast
  have u: "nh_unlink part p ty i k b ph h = Inr (put_phase part p ph' h')"
    unfolding nh_unlink_def Let_def s(1) bindR_simps prod.case s(2) using ph'(1) by simp
  show ?thesis
    using u s(3-7) ph'(2-4) tot1 nodes1 tight
    by (intro exI [of _ "put_phase part p ph' h'"] exI [of _ ph'] exI [of _ g2]) auto
qed

text \<open>A graph has one node in a phase.\<close>

lemma row_owner:
  assumes row: "row_ok h p" "part < 2" and e: "(g, ty, k, x) \<in> phase_nodes (nh_phases h part p)"
    and e': "(g, t, j, y) \<in> phase_nodes (nh_phases h part p)"
  shows "t = ty \<and> j = k \<and> y = x"
proof -
  note R = row_okD [OF row]
  have t: "t = ty" using R(3) [OF e' row(2) e] by simp
  have j: "j = k" using R(2) [OF e] R(2) [OF e'] by simp
  obtain i where i: "i < length (ph_blocks (nh_phases h part p))" "nb_type (ph_blocks (nh_phases h part p) ! i) = ty"
    using e by (auto simp: phase_nodes_def)
  show ?thesis
    using phase_nodes_of_type [OF R(1) i] e e' t j by (simp add: block_nodes_def)
qed

definition unlinked :: "nat \<Rightarrow> nat \<Rightarrow> nat \<Rightarrow> nat \<Rightarrow> 'n block \<Rightarrow> 'n hierarchy \<Rightarrow> 'n phase \<Rightarrow> 'n hierarchy \<Rightarrow> bool" where
  "unlinked part p ty k b h ph' h' \<longleftrightarrow>
    (\<forall>part' p'. nh_phases h' part' p' = (if part' = part \<and> p' = p then ph' else nh_phases h part' p')) \<and>
    phase_ok ph' \<and> phase_total ph' + 1 = phase_total (nh_phases h part p) \<and>
    (ph_tight (nh_phases h part p) \<longrightarrow> ph_tight ph') \<and>
    (\<forall>g' t j x'. (g', t, j, x') \<in> phase_nodes ph' \<longleftrightarrow>
      (if t = ty then (g', j, x') \<in> block_nodes (swap_out k b) else (g', t, j, x') \<in> phase_nodes (nh_phases h part p))) \<and>
    nh_counts h' = nh_counts h \<and> map length (nh_graphs h') = map length (nh_graphs h) \<and>
    (\<exists>g2. nb_graphs b ! (length (nb_data b) - 1) = Some g2 \<and>
      (\<forall>g' p'. graph_get g' p' h' =
        (if p' = p \<and> k \<noteq> length (nb_data b) - 1 \<and> g' = g2 then Inr k else graph_get g' p' h)))"

lemma unlinkedD:
  assumes "unlinked part p ty k b h ph' h'"
  shows "nh_phases h' part' p' = (if part' = part \<and> p' = p then ph' else nh_phases h part' p')"
    "phase_ok ph'" "phase_total ph' + 1 = phase_total (nh_phases h part p)"
    "(g', t, j, x') \<in> phase_nodes ph' \<longleftrightarrow>
      (if t = ty then (g', j, x') \<in> block_nodes (swap_out k b) else (g', t, j, x') \<in> phase_nodes (nh_phases h part p))"
    "nh_counts h' = nh_counts h" "map length (nh_graphs h') = map length (nh_graphs h)"
    "p' \<noteq> p \<Longrightarrow> graph_get g' p' h' = graph_get g' p' h"
    "ph_tight (nh_phases h part p) \<Longrightarrow> ph_tight ph'"
  using assms unfolding unlinked_def by auto

text \<open>What is left in the phase: everything but the node removed, the block's last node now at
  its index.\<close>

lemma unlinked_nodes:
  assumes row: "row_ok h p" "part < 2" and i: "i < length (ph_blocks (nh_phases h part p))"
      "nb_type (ph_blocks (nh_phases h part p) ! i) = ty" "b = ph_blocks (nh_phases h part p) ! i"
    and e: "(g, k, x) \<in> block_nodes b" and u: "unlinked part p ty k b h ph' h'"
  shows "(g', t, j, y) \<in> phase_nodes ph' \<Longrightarrow>
      (g', t, if t = ty \<and> j = k then length (nb_data b) - 1 else j, y) \<in> phase_nodes (nh_phases h part p) \<and>
      (t = ty \<longrightarrow> j < length (nb_data b) - 1)"
    "(\<exists>j. (g', t, j, y) \<in> phase_nodes ph') \<longleftrightarrow>
      (\<exists>j. (g', t, j, y) \<in> phase_nodes (nh_phases h part p)) \<and> (g', t, y) \<noteq> (g, ty, x)"
proof -
  let ?ph = "nh_phases h part p" and ?l = "length (nb_data b) - 1"
  note R = row_okD [OF row]
  have b: "block_ok b" using phase_okD(2) [OF R(1) i(1)] i(3) by simp
  have k: "k < length (nb_data b)" "nb_graphs b ! k = Some g" "nb_data b ! k = x" using e by (auto simp: block_nodes_def)
  have inb: "(g', j, x') \<in> block_nodes b \<longleftrightarrow> (g', ty, j, x') \<in> phase_nodes ?ph" for g' j x'
    using phase_nodes_of_type [OF R(1) i(1,2)] i(3) by simp
  then have e': "(g, ty, k, x) \<in> phase_nodes ?ph" using e by blast
  note S = swap_out_ok(4) [OF b k(1)] and N = unlinkedD(4) [OF u]
  have old: "(g', t, if t = ty \<and> j = k then ?l else j, y) \<in> phase_nodes ?ph \<and> (t = ty \<longrightarrow> j < ?l)"
    if "(g', t, j, y) \<in> phase_nodes ph'" for g' t j y
    using that N [of g' t j y] S [of g' j y] inb [of g' _ y] by (auto split: if_splits)
  then show "(g', t, j, y) \<in> phase_nodes ph' \<Longrightarrow>
      (g', t, if t = ty \<and> j = k then ?l else j, y) \<in> phase_nodes ?ph \<and> (t = ty \<longrightarrow> j < ?l)" .
  show "(\<exists>j. (g', t, j, y) \<in> phase_nodes ph') \<longleftrightarrow> (\<exists>j. (g', t, j, y) \<in> phase_nodes ?ph) \<and> (g', t, y) \<noteq> (g, ty, x)"
  proof
    assume "\<exists>j. (g', t, j, y) \<in> phase_nodes ph'"
    then obtain j where j: "(g', t, j, y) \<in> phase_nodes ph'" by blast
    have "(g', t, y) \<noteq> (g, ty, x)"
    proof
      assume g: "(g', t, y) = (g, ty, x)"
      then have m: "(g, ty, if j = k then ?l else j, x) \<in> phase_nodes ?ph" "j < ?l" using old [OF j] by simp_all
      then have "(if j = k then ?l else j) = k" using row_owner [OF row e' m(1)] by simp
      then show False using m(2) by (simp split: if_splits)
    qed
    then show "(\<exists>j. (g', t, j, y) \<in> phase_nodes ?ph) \<and> (g', t, y) \<noteq> (g, ty, x)" using old [OF j] by blast
  next
    assume "(\<exists>j. (g', t, j, y) \<in> phase_nodes ?ph) \<and> (g', t, y) \<noteq> (g, ty, x)"
    then obtain j where j: "(g', t, j, y) \<in> phase_nodes ?ph" and ne: "(g', t, y) \<noteq> (g, ty, x)" by blast
    show "\<exists>j. (g', t, j, y) \<in> phase_nodes ph'"
    proof (cases "t = ty")
      case True
      then have jb: "(g', j, y) \<in> block_nodes b" using j inb by blast
      then have "j \<noteq> k" using ne k(2,3) True by (auto simp: block_nodes_def)
      then have "(g', if j = ?l then k else j, y) \<in> block_nodes (swap_out k b)"
        using S jb k(1) by (auto simp: block_nodes_def)
      then show ?thesis using N True by auto
    qed (use j N in auto)
  qed
qed

lemma unlinked_index:
  assumes row: "row_ok h p" "part < 2" and i: "i < length (ph_blocks (nh_phases h part p))"
      "nb_type (ph_blocks (nh_phases h part p) ! i) = ty" "b = ph_blocks (nh_phases h part p) ! i"
    and e: "(g, k, x) \<in> block_nodes b" and u: "unlinked part p ty k b h ph' h'"
    and q: "part' < 2" "(g', t, j, y) \<in> phase_nodes (nh_phases h' part' p)"
  shows "graph_get g' p h' = Inr j"
proof -
  let ?ph = "nh_phases h part p" and ?l = "length (nb_data b) - 1"
  note R = row_okD [OF row]
  have inb: "(g', j, x') \<in> block_nodes b \<longleftrightarrow> (g', ty, j, x') \<in> phase_nodes ?ph" for g' j x'
    using phase_nodes_of_type [OF R(1) i(1,2)] i(3) by simp
  have k: "k < length (nb_data b)" using e by (simp add: block_nodes_def)
  obtain g2 where g2: "nb_graphs b ! ?l = Some g2"
    "\<And>g'. graph_get g' p h' = (if k \<noteq> ?l \<and> g' = g2 then Inr k else graph_get g' p h)"
    using u unfolding unlinked_def by auto
  have last: "(g2, ty, ?l, nb_data b ! ?l) \<in> phase_nodes ?ph"
  proof -
    have "(g2, ?l, nb_data b ! ?l) \<in> block_nodes b" using g2(1) k by (simp add: block_nodes_def)
    then show ?thesis using inb by blast
  qed
  show ?thesis
  proof (cases "part' = part \<and> t = ty \<and> j = k")
    case True
    then have m: "(g', ty, k, y) \<in> phase_nodes ph'" using q(2) unlinkedD(1) [OF u] by simp
    then have "(g', ?l, y) \<in> block_nodes b" "k < ?l"
      using unlinked_nodes(1) [OF row i e u m] inb by auto
    then have "g' = g2" using g2(1) by (simp add: block_nodes_def)
    then show ?thesis using g2(2) True \<open>k < ?l\<close> by simp
  next
    case False
    have o: "(g', t, j, y) \<in> phase_nodes (nh_phases h part' p) \<and> (part' = part \<longrightarrow> t = ty \<longrightarrow> j < ?l)"
      using q(2) False unlinked_nodes(1) [OF row i e u, of g' t j y] unlinkedD(1) [OF u, of part' p]
      by (cases "part' = part") auto
    have "g' \<noteq> g2"
    proof
      assume "g' = g2"
      then have "part' = part" "t = ty" using o R(3) [OF last q(1)] by blast+
      moreover from this have "j = ?l" using row_owner [OF row last, of t j y] o \<open>g' = g2\<close> by simp
      ultimately show False using o by simp
    qed
    then show ?thesis using g2(2) [of g'] row_okD(2) [OF row(1) q(1) conjunct1 [OF o]] by simp
  qed
qed

lemma unlinked_row:
  assumes row: "row_ok h p" "part < 2" and i: "i < length (ph_blocks (nh_phases h part p))"
      "nb_type (ph_blocks (nh_phases h part p) ! i) = ty" "b = ph_blocks (nh_phases h part p) ! i"
    and e: "(g, k, x) \<in> block_nodes b" and u: "unlinked part p ty k b h ph' h'"
  shows "row_ok (h'\<lparr>nh_counts := (nh_counts h')(p := nh_counts h' p - 1)\<rparr>) p"
  unfolding row_ok_def
proof (intro conjI allI impI)
  note U = unlinkedD [OF u]
  let ?h = "h'\<lparr>nh_counts := (nh_counts h')(p := nh_counts h' p - 1)\<rparr>"
  have old: "\<exists>j. (g', t, j, y) \<in> phase_nodes (nh_phases h q p)" if "(g', t, j, y) \<in> phase_nodes (nh_phases ?h q p)" for q g' t j y
    using that unlinked_nodes(1) [OF row i e u, of g' t j y] by (auto simp: U(1) split: if_splits)
  fix q :: nat assume q: "q < 2"
  show "phase_ok (nh_phases ?h q p)" using U(2) row_okD(1) [OF row(1) q] by (simp add: U(1))
  fix g' t j y assume m: "(g', t, j, y) \<in> phase_nodes (nh_phases ?h q p)"
  then show "graph_get g' p ?h = Inr j" using unlinked_index [OF row i e u q] by simp
  fix q' t' j' y' assume q': "(q' :: nat) < 2" and m': "(g', t', j', y') \<in> phase_nodes (nh_phases ?h q' p)"
  show "q = q'" "t = t'" using old [OF m] old [OF m'] row_okD(3) [OF row(1) q _ q'] by blast+
next
  note U = unlinkedD [OF u]
  let ?h = "h'\<lparr>nh_counts := (nh_counts h')(p := nh_counts h' p - 1)\<rparr>"
  show "nh_counts ?h p = phase_total (nh_phases ?h 0 p) + phase_total (nh_phases ?h 1 p)"
    using row_okD(4) [OF row] U(3,5) row(2) by (auto simp: U(1) less_2_cases_iff)
qed

lemma nh_remove_ok:
  assumes ok: "nh_ok M h" and p: "p = phaseIdx + off" and v: "(g, p, partition_of final, ty, x) \<in> nh_view M h"
  shows "\<exists>h'. nh_remove M g phaseIdx off final ty h = Inr h' \<and> nh_ok M h' \<and>
    nh_view M h' = nh_view M h - {(g, p, partition_of final, ty, x)} \<and> (nh_tight M h \<longrightarrow> nh_tight M h') \<and>
    map length (nh_graphs h') = map length (nh_graphs h)"
proof -
  let ?part = "partition_of final"
  let ?ph = "nh_phases h ?part p"
  obtain k where pM: "p < M" and en: "(g, ty, k, x) \<in> phase_nodes ?ph"
    using v by (auto simp: nh_view_def)
  have row: "row_ok h p" using ok pM by (simp add: nh_ok_def)
  note R = row_okD [OF row part_lt [of final]]
  obtain i where i: "i < length (ph_blocks ?ph)" "nb_type (ph_blocks ?ph ! i) = ty" "(g, k, x) \<in> block_nodes (ph_blocks ?ph ! i)"
    using en by (auto simp: phase_nodes_def)
  define b where "b = ph_blocks ?ph ! i"
  have e: "(g, k, x) \<in> block_nodes b" using i(3) b_def by simp
  have bi: "ph_block_index ty ?ph = Inr (i, ?ph)"
    using phase_okD(1) [OF R(1), of ty i] i by (simp add: ph_block_index_def)
  have k: "k < length (nb_data b)" "nb_graphs b ! k = Some g" "k < length (nb_graphs b)"
    using e phase_okD(2) [OF R(1) i(1)] by (auto simp: block_nodes_def block_ok_def b_def)
  obtain h' ph' where u: "nh_unlink ?part p ty i k b ?ph h = Inr h'" "unlinked ?part p ty k b h ph' h'"
    using nh_unlink_ok [OF row part_lt refl i(1,2) b_def k(1)] unfolding unlinked_def by blast
  note U = unlinkedD [OF u(2)]
  have cnt: "0 < nh_counts h p" using R(4) U(3) by (auto simp: partition_of_def split: if_splits)
  let ?h = "h'\<lparr>nh_counts := (nh_counts h')(p := nh_counts h' p - 1)\<rparr>"
  have "nh_remove M g phaseIdx off final ty h = Inr ?h"
    unfolding nh_remove_def Let_def p [symmetric]
    using pM bi i(1) R(2) [OF en] k u(1) U(5) cnt by (simp add: put_phase_same b_def [symmetric])
  moreover have "row_ok ?h q" if "q < M" for q
  proof (cases "q = p")
    case True
    then show ?thesis using unlinked_row [OF row part_lt i(1,2) b_def e u(2)] by simp
  next
    case False
    then show ?thesis using row_ok_cong [of ?h q h] that ok U(1,5,7) by (simp add: nh_ok_def)
  qed
  then have "nh_ok M ?h" by (simp add: nh_ok_def)
  moreover have "nh_view M ?h = nh_view M h - {(g, p, ?part, ty, x)}"
  proof (rule set_eqI, clarify)
    fix g' p' q t y
    note N = unlinked_nodes(2) [OF row part_lt i(1,2) b_def e u(2), of g' t y]
    show "(g', p', q, t, y) \<in> nh_view M ?h \<longleftrightarrow> (g', p', q, t, y) \<in> nh_view M h - {(g, p, ?part, ty, x)}"
    proof (cases "q = ?part \<and> p' = p")
      case True
      then show ?thesis using N pM by (simp add: nh_view_def U(1))
    next
      case False
      then show ?thesis by (auto simp: nh_view_def U(1))
    qed
  qed
  moreover have "nh_tight M h \<longrightarrow> nh_tight M ?h"
    unfolding nh_tight_def
  proof (intro impI allI)
    fix q part' assume t: "\<forall>p<M. \<forall>part<2. ph_tight (nh_phases h part p)" and q: "q < M" "part' < (2 :: nat)"
    then have "ph_tight ph'" using U(8) pM part_lt [of final] by blast
    then show "ph_tight (nh_phases ?h part' q)" using t q by (simp add: U(1))
  qed
  ultimately show ?thesis using U(6) by (intro exI [of _ ?h]) simp
qed

end
