(* ===== verification/NodeRuns.thy ===== *)
theory NodeRuns
  imports NodeGraphs
begin

text \<open>
  The rest of \<^verbatim>\<open>ion/graph/NodeHierarchy.h\<close>: reserving and clearing graphs, assigning one
  hierarchy to another, and the order in which \<open>Run\<close> processes the nodes.

  \<open>ProcessPhase\<close> builds a series-parallel \<open>plan\<close> over batches, one for each partition and
  phase: \<open>ParallelInvoke\<close> is \<open>Both\<close>, sequence is \<open>Then\<close>.  \<open>runs\<close> is the set of orders
  in which a scheduler may start and finish the batches of a plan.  Inside a batch
  \<open>ParallelFor\<close> visits its blocks in any order; that order is not modelled.
\<close>

section \<open>Plans\<close>

datatype plan = Batch nat nat | Then plan plan | Both plan plan

datatype run_event = Started nat nat | Finished nat nat

fun runs :: "plan \<Rightarrow> run_event list set" where
  "runs (Batch part p) = {[Started part p, Finished part p]}"
| "runs (Then a b) = {xs @ ys |xs ys. xs \<in> runs a \<and> ys \<in> runs b}"
| "runs (Both a b) = (\<Union>xs\<in>runs a. \<Union>ys\<in>runs b. shuffles xs ys)"

definition is_phase_valid :: "nat \<Rightarrow> 'n hierarchy \<Rightarrow> nat \<Rightarrow> bool" where
  "is_phase_valid M h p \<longleftrightarrow> p < M \<and> nh_counts h p \<noteq> 0"

text \<open>
  The phase is a \<open>uint8_t\<close>, so that the phase after 255 would be 0 again; with more than 256 phases
  the recursion need not end.  The work load is the node count divided by 512, compared with 1.
\<close>

partial_function (option) process_phase :: "nat \<Rightarrow> 'n hierarchy \<Rightarrow> nat \<Rightarrow> plan option" where
  "process_phase M h p =
     Option.bind (if is_phase_valid M h (p + 1)
        then Option.bind (process_phase M h (trunc 8 (p + 1))) (\<lambda>next. Some (Then (Batch 0 p) next))
        else Some (Batch 0 p)) (\<lambda>first.
     Some (if ph_blocks (nh_phases h 1 p) \<noteq> [] \<and> 512 < nh_counts h p
       then Both first (Batch 1 p) else Then first (Batch 1 p)))"

definition nh_run :: "nat \<Rightarrow> 'n hierarchy \<Rightarrow> plan option" where
  "nh_run M h = process_phase M h 0"

text \<open>The plan it returns for at most 256 phases.\<close>

function phase_plan :: "nat \<Rightarrow> 'n hierarchy \<Rightarrow> nat \<Rightarrow> plan" where
  "phase_plan M h p =
     (let first = (if is_phase_valid M h (p + 1)
                   then Then (Batch 0 p) (phase_plan M h (p + 1)) else Batch 0 p) in
      if ph_blocks (nh_phases h 1 p) \<noteq> [] \<and> 512 < nh_counts h p
      then Both first (Batch 1 p) else Then first (Batch 1 p))"
  by auto
termination
  by (relation "measure (\<lambda>(M, h, p). M - p)") (auto simp: is_phase_valid_def)

declare phase_plan.simps [simp del]

lemma process_phase_plan: "M \<le> 256 \<Longrightarrow> process_phase M h p = Some (phase_plan M h p)"
proof (induction M h p rule: phase_plan.induct)
  case (1 M h p)
  have t: "trunc 8 (p + 1) = p + 1" if "is_phase_valid M h (p + 1)"
    using that 1(2) by (simp add: is_phase_valid_def trunc_id)
  show ?case
    using 1 t by (subst process_phase.simps, subst phase_plan.simps) (simp add: Let_def)
qed

fun precedes :: "'e \<Rightarrow> 'e \<Rightarrow> 'e list \<Rightarrow> bool" where
  "precedes a b [] = False"
| "precedes a b (x # xs) = (x = a \<and> b \<in> set xs \<or> precedes a b xs)"

fun batches :: "plan \<Rightarrow> (nat \<times> nat) list" where
  "batches (Batch part p) = [(part, p)]"
| "batches (Then a b) = batches a @ batches b"
| "batches (Both a b) = batches a @ batches b"

lemma precedes_set: "precedes a b xs \<Longrightarrow> a \<in> set xs \<and> b \<in> set xs"
  by (induction xs) auto

lemma precedes_append:
  "precedes a b (xs @ ys) \<longleftrightarrow> precedes a b xs \<or> precedes a b ys \<or> a \<in> set xs \<and> b \<in> set ys"
  by (induction xs) (auto dest: precedes_set)

lemma precedes_shuffles1: "zs \<in> shuffles xs ys \<Longrightarrow> precedes a b xs \<Longrightarrow> precedes a b zs"
proof (induction xs ys arbitrary: zs rule: shuffles.induct)
  case (3 x xs y ys)
  then show ?case by (auto simp: set_shuffles)
qed (auto dest: precedes_set)

lemma precedes_shuffles2: "zs \<in> shuffles xs ys \<Longrightarrow> precedes a b ys \<Longrightarrow> precedes a b zs"
  using precedes_shuffles1 [of zs ys xs] by (simp add: shuffles_commutes)

lemma shuffles_nonempty: "shuffles xs ys \<noteq> {}"
  by (induction xs ys rule: shuffles.induct) auto

lemma runs_nonempty: "runs pl \<noteq> {}"
  by (induction pl) (auto simp: shuffles_nonempty)

definition batch_events :: "(nat \<times> nat) list \<Rightarrow> run_event set" where
  "batch_events bs = (\<Union>(part, p)\<in>set bs. {Started part p, Finished part p})"

lemma batch_events_simps [simp]:
  "batch_events (bs @ bs') = batch_events bs \<union> batch_events bs'"
  "batch_events [(part, p)] = {Started part p, Finished part p}"
  "Started part p \<in> batch_events bs \<longleftrightarrow> (part, p) \<in> set bs"
  "Finished part p \<in> batch_events bs \<longleftrightarrow> (part, p) \<in> set bs"
  by (auto simp: batch_events_def)

text \<open>Every batch of a plan starts and finishes once, in any of its runs.\<close>

lemma runs_events: "xs \<in> runs pl \<Longrightarrow> set xs = batch_events (batches pl)"
  by (induction pl arbitrary: xs) (auto simp: set_shuffles)

lemma batch_events_disjoint:
  "set bs \<inter> set bs' = {} \<Longrightarrow> batch_events bs \<inter> batch_events bs' = {}"
  by (auto simp: batch_events_def)

lemma runs_distinct: "xs \<in> runs pl \<Longrightarrow> distinct (batches pl) \<Longrightarrow> distinct xs"
proof (induction pl arbitrary: xs)
  case (Then a b)
  then obtain ys zs where x: "xs = ys @ zs" "ys \<in> runs a" "zs \<in> runs b" by auto
  then show ?case
    using Then batch_events_disjoint [of "batches a" "batches b"] by (auto simp: runs_events)
next
  case (Both a b)
  then obtain ys zs where x: "xs \<in> shuffles ys zs" "ys \<in> runs a" "zs \<in> runs b" by auto
  moreover have "set ys \<inter> set zs = {}"
    using x Both.prems batch_events_disjoint [of "batches a" "batches b"] by (auto simp: runs_events)
  ultimately show ?case
    using Both by (auto intro: distinct_disjoint_shuffles)
qed auto

lemma runs_started_first: "xs \<in> runs pl \<Longrightarrow> (part, p) \<in> set (batches pl) \<Longrightarrow> precedes (Started part p) (Finished part p) xs"
proof (induction pl arbitrary: xs)
  case (Both a b)
  then show ?case by (auto intro: precedes_shuffles1 precedes_shuffles2)
qed (auto simp: precedes_append)

text \<open>The batches of the plan: both partitions of each phase up to the first empty one.\<close>

lemma phase_plan_batches:
  "set (batches (phase_plan M h p)) =
    {(part, q). part < 2 \<and> p \<le> q \<and> (\<forall>r. p < r \<longrightarrow> r \<le> q \<longrightarrow> is_phase_valid M h r)} \<and>
   distinct (batches (phase_plan M h p))"
proof (induction M h p rule: phase_plan.induct)
  case (1 M h p)
  have b: "set (batches (phase_plan M h p)) =
      {(0, p), (1, p)} \<union> (if is_phase_valid M h (p + 1) then set (batches (phase_plan M h (p + 1))) else {})"
    by (subst phase_plan.simps) (auto simp: Let_def)
  have up: "(\<forall>r. p < r \<longrightarrow> r \<le> q \<longrightarrow> is_phase_valid M h r) \<longleftrightarrow>
      is_phase_valid M h (p + 1) \<and> (\<forall>r. p + 1 < r \<longrightarrow> r \<le> q \<longrightarrow> is_phase_valid M h r)" if "p < q" for q
  proof
    assume a: "is_phase_valid M h (p + 1) \<and> (\<forall>r. p + 1 < r \<longrightarrow> r \<le> q \<longrightarrow> is_phase_valid M h r)"
    show "\<forall>r. p < r \<longrightarrow> r \<le> q \<longrightarrow> is_phase_valid M h r"
    proof (intro allI impI)
      fix r assume "p < r" "r \<le> q"
      then show "is_phase_valid M h r" using a by (cases "r = p + 1") auto
    qed
  qed (use that in auto)
  have "distinct (batches (phase_plan M h p))"
    using 1 by (subst phase_plan.simps) (auto simp: Let_def)
  moreover have "set (batches (phase_plan M h p)) =
      {(part, q). part < 2 \<and> p \<le> q \<and> (\<forall>r. p < r \<longrightarrow> r \<le> q \<longrightarrow> is_phase_valid M h r)}"
  proof (rule set_eqI, clarify)
    fix part q
    show "(part, q) \<in> set (batches (phase_plan M h p)) \<longleftrightarrow>
      (part, q) \<in> {(part, q). part < 2 \<and> p \<le> q \<and> (\<forall>r. p < r \<longrightarrow> r \<le> q \<longrightarrow> is_phase_valid M h r)}"
    proof (cases "p < q")
      case True
      then show ?thesis using up [OF True] 1 unfolding b by (cases "is_phase_valid M h (p + 1)") simp_all
    next
      case False
      have "(part, q) \<notin> set (batches (phase_plan M h (p + 1)))" if "is_phase_valid M h (p + 1)"
        using 1 [OF that] False by simp
      then show ?thesis using False unfolding b by (auto simp: less_2_cases_iff)
    qed
  qed
  ultimately show ?case by blast
qed

text \<open>Partition 0 of a phase is finished before anything of the next phase starts.\<close>

lemma phase_plan_order:
  assumes "xs \<in> runs (phase_plan M h p)" "p \<le> q" "\<forall>r. p < r \<longrightarrow> r \<le> Suc q \<longrightarrow> is_phase_valid M h r" "part < 2"
  shows "precedes (Finished 0 q) (Started part (Suc q)) xs"
  using assms
proof (induction M h p arbitrary: xs rule: phase_plan.induct)
  case (1 M h p)
  have v: "is_phase_valid M h (p + 1)" using 1(3,4) by simp
  let ?rest = "phase_plan M h (p + 1)"
  have "\<exists>ys. ys \<in> runs (Then (Batch 0 p) ?rest) \<and> (\<exists>zs. xs \<in> shuffles ys zs \<or> xs = ys @ zs)"
    using 1(2) v by (subst (asm) phase_plan.simps) (auto simp: Let_def split: if_splits)
  then obtain ys zs where ys: "ys \<in> runs (Then (Batch 0 p) ?rest)" "xs \<in> shuffles ys zs \<or> xs = ys @ zs" by blast
  obtain us where us: "ys = [Started 0 p, Finished 0 p] @ us" "us \<in> runs ?rest" using ys(1) by auto
  have "precedes (Finished 0 q) (Started part (Suc q)) ys"
  proof (cases "q = p")
    case True
    have "(part, Suc p) \<in> set (batches ?rest)"
      using phase_plan_batches [of M h "p + 1"] 1(5) by auto
    then have "Started part (Suc p) \<in> set us" using runs_events [OF us(2)] by simp
    then show ?thesis using us(1) True by simp
  next
    case False
    then have "precedes (Finished 0 q) (Started part (Suc q)) us"
      using 1(1) [OF v us(2)] 1(3-5) by simp
    then show ?thesis using us(1) by (simp add: precedes_append)
  qed
  then show ?case using ys(2) precedes_shuffles1 by (auto simp: precedes_append)
qed

section \<open>Reserving and clearing a graph\<close>

lemma phase_nodes_slot:
  assumes "nh_ok M h" "(g, p, part, ty, x) \<in> nh_view M h"
  shows "has_slot g p h"
proof -
  obtain k where k: "p < M" "part < 2" "(g, ty, k, x) \<in> phase_nodes (nh_phases h part p)"
    using assms(2) by (auto simp: nh_view_def)
  then have "row_ok h p" using assms(1) by (simp add: nh_ok_def)
  from graph_get_has_slot [OF row_okD(2) [OF this k(2,3)]] show ?thesis .
qed

lemma row_ok_graphs:
  assumes "row_ok h p" "nh_phases h' = nh_phases h" "nh_counts h' = nh_counts h"
    "\<And>part g ty k x. part < 2 \<Longrightarrow> (g, ty, k, x) \<in> phase_nodes (nh_phases h part p) \<Longrightarrow> graph_get g p h' = graph_get g p h"
  shows "row_ok h' p"
proof -
  have "graph_get g p h' = Inr k" if "part < 2" "(g, ty, k, x) \<in> phase_nodes (nh_phases h part p)" for part g ty k x
    using assms(4) [OF that] row_okD(2) [OF assms(1) that] by simp
  then show ?thesis using assms(1) unfolding row_ok_def assms(2,3) by blast
qed

lemma nh_view_phases: "nh_phases h' = nh_phases h \<Longrightarrow> nh_view M h' = nh_view M h"
  by (simp add: nh_view_def)

lemma nh_reserve_ok:
  assumes ok: "nh_ok M h" and n: "0 < phaseCount" and free: "g < length (nh_graphs h) \<longrightarrow> nh_graphs h ! g = []"
  shows "\<exists>h'. nh_reserve g phaseCount reserved first h =
      Inr (\<lparr>up_graph = g, up_count = reserved, up_offset = first\<rparr>, h') \<and> nh_ok M h' \<and> nh_view M h' = nh_view M h \<and>
    nh_counts h' = nh_counts h \<and> nh_phases h' = nh_phases h \<and> (\<forall>p. has_slot g p h' \<longleftrightarrow> p < reserved) \<and>
    (\<forall>p g'. g' \<noteq> g \<longrightarrow> has_slot g' p h' = has_slot g' p h)"
proof -
  let ?infos = "nh_graphs h @ replicate (g + 1 - length (nh_graphs h)) []"
  let ?h = "h\<lparr>nh_graphs := ?infos[g := replicate reserved None]\<rparr>"
  have g: "g < length ?infos" by simp
  have "?infos ! g = []" using free by (simp add: nth_append)
  then have r: "nh_reserve g phaseCount reserved first h =
      Inr (\<lparr>up_graph = g, up_count = reserved, up_offset = first\<rparr>, ?h)"
    using n by (simp add: nh_reserve_def Let_def)
  have gg: "graph_get g' p ?h = graph_get g' p h" if "has_slot g' p h" for g' p
    using that free by (cases "g' = g") (auto simp: graph_get_def has_slot_def at_def nth_append)
  have "row_ok ?h p" if "p < M" for p
  proof -
    have row: "row_ok h p" using that ok by (simp add: nh_ok_def)
    show ?thesis
      by (rule row_ok_graphs [OF row]) (use gg graph_get_has_slot [OF row_okD(2) [OF row]] in simp_all)
  qed
  then have "nh_ok M ?h" by (simp add: nh_ok_def)
  moreover have "has_slot g p ?h \<longleftrightarrow> p < reserved" for p using g by (simp add: has_slot_def)
  moreover have "has_slot g' p ?h = has_slot g' p h" if "g' \<noteq> g" for g' p
    using that by (auto simp: has_slot_def nth_append)
  ultimately show ?thesis using r nh_view_phases [of ?h h M] by simp
qed

lemma eraser_clear_ok:
  assumes ok: "nh_ok M h" and g: "up_graph u < length (nh_graphs h)"
    and empty: "\<And>p part ty x. (up_graph u, p, part, ty, x) \<notin> nh_view M h"
  shows "\<exists>h'. eraser_clear u h = Inr h' \<and> nh_ok M h' \<and> nh_view M h' = nh_view M h \<and> nh_graphs h' ! up_graph u = []"
proof -
  let ?h = "h\<lparr>nh_graphs := (nh_graphs h)[up_graph u := []]\<rparr>"
  have gg: "graph_get g' p ?h = graph_get g' p h" if "g' \<noteq> up_graph u" for g' p
    using that by (simp add: graph_get_def at_def)
  have "row_ok ?h p" if "p < M" for p
  proof (rule row_ok_graphs [of h])
    fix part g' ty k x assume "part < (2 :: nat)" "(g', ty, k, x) \<in> phase_nodes (nh_phases h part p)"
    then have "g' \<noteq> up_graph u" using empty [of p part ty x] that by (auto simp: nh_view_def)
    then show "graph_get g' p ?h = graph_get g' p h" by (rule gg)
  qed (use ok that in \<open>simp_all add: nh_ok_def\<close>)
  then show ?thesis
    using g nh_view_phases [of ?h h M] by (simp add: eraser_clear_def nh_ok_def)
qed

section \<open>Assignment\<close>

definition ph_trim :: "nat \<Rightarrow> 'n phase \<Rightarrow> 'n phase" where
  "ph_trim n ph = ph\<lparr>ph_blocks := take n (ph_blocks ph) @
     replicate (n - length (ph_blocks ph)) \<lparr>nb_type = 0, nb_graphs = [], nb_data = []\<rparr>\<rparr>"

definition ph_clear :: "'n phase \<Rightarrow> 'n phase" where
  "ph_clear ph = (ph_trim 0 ph)\<lparr>ph_map := Map.empty\<rparr>"

definition nb_copy :: "'n block \<Rightarrow> 'n block \<Rightarrow> 'n block" where
  "nb_copy other b = b\<lparr>nb_type := nb_type other, nb_graphs := nb_graphs other, nb_data := nb_data other\<rparr>"

definition ph_copy :: "'n phase \<Rightarrow> 'n phase \<Rightarrow> 'n phase" where
  "ph_copy other ph = (let ph' = ph_trim (length (ph_blocks other)) ph in
     ph'\<lparr>ph_blocks := map (\<lambda>i. nb_copy (ph_blocks other ! i) (ph_blocks ph' ! i)) [0..<length (ph_blocks ph')],
         ph_map := ph_map other\<rparr>)"

definition copy_row :: "'n hierarchy \<Rightarrow> nat \<Rightarrow> 'n hierarchy \<Rightarrow> 'n hierarchy" where
  "copy_row other j h = (let h' = h\<lparr>nh_counts := (nh_counts h)(j := nh_counts other j)\<rparr> in
     put_phase 1 j (ph_copy (nh_phases other 1 j) (nh_phases h 1 j))
       (put_phase 0 j (ph_copy (nh_phases other 0 j) (nh_phases h 0 j)) h'))"

definition clear_row :: "nat \<Rightarrow> 'n hierarchy \<Rightarrow> 'n hierarchy" where
  "clear_row j h = (let h' = h\<lparr>nh_counts := (nh_counts h)(j := 0)\<rparr> in
     put_phase 1 j (ph_clear (nh_phases h 1 j)) (put_phase 0 j (ph_clear (nh_phases h 0 j)) h'))"

text \<open>The two loops of \<open>operator=\<close>; the first returns the index it stops at.\<close>

function copy_rows :: "nat \<Rightarrow> 'n hierarchy \<Rightarrow> nat \<Rightarrow> 'n hierarchy \<Rightarrow> nat \<times> 'n hierarchy" where
  "copy_rows M other j h =
     (if is_phase_valid M other j then copy_rows M other (j + 1) (copy_row other j h) else (j, h))"
  by auto
termination by (relation "measure (\<lambda>(M, other, j, h). M - j)") (auto simp: is_phase_valid_def)

function clear_rows :: "nat \<Rightarrow> nat \<Rightarrow> 'n hierarchy \<Rightarrow> 'n hierarchy" where
  "clear_rows M j h = (if is_phase_valid M h j then clear_rows M (j + 1) (clear_row j h) else h)"
  by auto
termination by (relation "measure (\<lambda>(M, j, h). M - j)") (auto simp: is_phase_valid_def)

declare copy_rows.simps [simp del] clear_rows.simps [simp del]

definition nh_assign :: "nat \<Rightarrow> 'n hierarchy \<Rightarrow> 'n hierarchy \<Rightarrow> 'n hierarchy" where
  "nh_assign M other h =
     (let (j, h1) = copy_rows M other 0 h; h2 = clear_rows M j h1;
          infos = take (length (nh_graphs other)) (nh_graphs h2) @
            replicate (length (nh_graphs other) - length (nh_graphs h2)) [] in
      h2\<lparr>nh_graphs := map (\<lambda>i. nh_graphs other ! i) [0..<length infos]\<rparr>)"

lemma ph_copy_eq: "ph_copy other ph = other"
proof -
  let ?ph = "ph_trim (length (ph_blocks other)) ph"
  have "length (ph_blocks ?ph) = length (ph_blocks other)" by (simp add: ph_trim_def)
  moreover have "nb_copy b b' = b" for b b' :: "'a block" by (simp add: nb_copy_def)
  ultimately show ?thesis
    by (simp add: ph_copy_def Let_def map_nth ph_trim_def)
qed

lemma ph_clear_eq: "ph_clear ph = ph_new"
  by (simp add: ph_clear_def ph_trim_def ph_new_def)

lemma copy_row_simps:
  "nh_phases (copy_row other j h) part p = (if part < 2 \<and> p = j then nh_phases other part p else nh_phases h part p)"
  "nh_counts (copy_row other j h) = (nh_counts h)(j := nh_counts other j)"
  "nh_graphs (copy_row other j h) = nh_graphs h"
  by (auto simp: copy_row_def Let_def ph_copy_eq less_2_cases_iff)

lemma clear_row_simps:
  "nh_phases (clear_row j h) part p = (if part < 2 \<and> p = j then ph_new else nh_phases h part p)"
  "nh_counts (clear_row j h) = (nh_counts h)(j := 0)" "nh_graphs (clear_row j h) = nh_graphs h"
  by (auto simp: clear_row_def Let_def ph_clear_eq less_2_cases_iff)

lemma copy_rows_result:
  "copy_rows M other j h = (n, h') \<Longrightarrow>
    j \<le> n \<and> (\<forall>p. j \<le> p \<and> p < n \<longrightarrow> is_phase_valid M other p) \<and> \<not> is_phase_valid M other n \<and> nh_graphs h' = nh_graphs h \<and>
    (\<forall>part<2. \<forall>p. nh_phases h' part p = (if j \<le> p \<and> p < n then nh_phases other part p else nh_phases h part p)) \<and>
    (\<forall>p. nh_counts h' p = (if j \<le> p \<and> p < n then nh_counts other p else nh_counts h p))"
proof (induction M other j h rule: copy_rows.induct)
  case (1 M other j h)
  show ?case
  proof (cases "is_phase_valid M other j")
    case True
    then have c: "copy_rows M other (j + 1) (copy_row other j h) = (n, h')"
      using 1(2) by (subst (asm) copy_rows.simps) simp
    note IH = 1(1) [OF True c]
    then have j: "j < n" by simp
    have "is_phase_valid M other p" if "j \<le> p" "p < n" for p
      using IH True that by (cases "p = j") auto
    moreover have "nh_phases h' part p = (if j \<le> p \<and> p < n then nh_phases other part p else nh_phases h part p)"
      if "part < 2" for part p
      using IH that j by (cases "p = j") (auto simp: copy_row_simps)
    moreover have "nh_counts h' p = (if j \<le> p \<and> p < n then nh_counts other p else nh_counts h p)" for p
      using IH j by (cases "p = j") (auto simp: copy_row_simps)
    ultimately show ?thesis using IH j by (simp add: copy_row_simps)
  next
    case False
    then have "n = j \<and> h' = h" using 1(2) by (subst (asm) copy_rows.simps) simp
    then show ?thesis using False by auto
  qed
qed

lemma clear_rows_result:
  "\<exists>n. j \<le> n \<and> \<not> is_phase_valid M h n \<and> nh_graphs (clear_rows M j h) = nh_graphs h \<and>
    (\<forall>part<2. \<forall>p. nh_phases (clear_rows M j h) part p = (if j \<le> p \<and> p < n then ph_new else nh_phases h part p)) \<and>
    (\<forall>p. nh_counts (clear_rows M j h) p = (if j \<le> p \<and> p < n then 0 else nh_counts h p))"
proof (induction M j h rule: clear_rows.induct)
  case (1 M j h)
  show ?case
  proof (cases "is_phase_valid M h j")
    case True
    have c: "clear_rows M j h = clear_rows M (j + 1) (clear_row j h)"
      using True by (subst clear_rows.simps) simp
    obtain n where n: "j + 1 \<le> n" "\<not> is_phase_valid M (clear_row j h) n"
      "nh_graphs (clear_rows M (j + 1) (clear_row j h)) = nh_graphs (clear_row j h)"
      "\<forall>part<2. \<forall>p. nh_phases (clear_rows M (j + 1) (clear_row j h)) part p =
        (if j + 1 \<le> p \<and> p < n then ph_new else nh_phases (clear_row j h) part p)"
      "\<forall>p. nh_counts (clear_rows M (j + 1) (clear_row j h)) p = (if j + 1 \<le> p \<and> p < n then 0 else nh_counts (clear_row j h) p)"
      using 1 [OF True] by blast
    have "\<not> is_phase_valid M h n" using n(1,2) by (simp add: is_phase_valid_def clear_row_simps)
    then show ?thesis
      using n(1,3-5) unfolding c by (intro exI [of _ n]) (auto simp: clear_row_simps Suc_le_eq le_less)
  next
    case False
    have "clear_rows M j h = h" using False by (subst clear_rows.simps) simp
    then show ?thesis using False by (intro exI [of _ j]) auto
  qed
qed

text \<open>No empty phase below a used one, which is how graphs that start at phase 0 fill it.\<close>

definition compact :: "nat \<Rightarrow> 'n hierarchy \<Rightarrow> bool" where
  "compact M h \<longleftrightarrow> (\<forall>p q. p \<le> q \<longrightarrow> q < M \<longrightarrow> nh_counts h p = 0 \<longrightarrow> nh_counts h q = 0)"

lemma total_0_nodes: "phase_total ph = 0 \<Longrightarrow> phase_nodes ph = {}"
  unfolding phase_total_def phase_nodes_def block_nodes_def
  by auto

lemma row_ok_cong_parts:
  assumes "row_ok h p" "\<And>part. part < 2 \<Longrightarrow> nh_phases h' part p = nh_phases h part p"
    "\<And>g. graph_get g p h' = graph_get g p h" "nh_counts h' p = nh_counts h p"
  shows "row_ok h' p"
proof -
  have "nh_phases h' 0 p = nh_phases h 0 p" "nh_phases h' 1 p = nh_phases h 1 p" using assms(2) by simp_all
  then show ?thesis using assms(1,3,4) assms(2) unfolding row_ok_def by (simp del: One_nat_def)
qed

lemma row_ok_empty:
  assumes "\<And>part. part < 2 \<Longrightarrow> phase_ok (nh_phases h part p) \<and> phase_total (nh_phases h part p) = 0" "nh_counts h p = 0"
  shows "row_ok h p"
proof -
  have "phase_nodes (nh_phases h part p) = {}" if "part < 2" for part
    using assms(1) [OF that] total_0_nodes by blast
  then show ?thesis using assms unfolding row_ok_def by simp
qed

lemma row_empty:
  assumes "row_ok h p" "nh_counts h p = 0" "part < 2"
  shows "phase_total (nh_phases h part p) = 0"
  using row_okD(4) [OF assms(1,3)] assms(2,3) by (auto simp: less_2_cases_iff)

lemma ph_new_ok: "phase_ok ph_new" "phase_total ph_new = 0"
  by (simp_all add: ph_new_def phase_ok_def phase_total_def)

lemma nh_new_ok: "nh_ok M nh_new \<and> nh_view M (nh_new :: 'n hierarchy) = {}"
proof -
  have "row_ok nh_new p" for p by (rule row_ok_empty) (simp_all add: nh_new_def ph_new_ok)
  moreover have "phase_nodes (ph_new :: 'n phase) = {}" using total_0_nodes ph_new_ok(2) by blast
  ultimately show ?thesis by (auto simp: nh_ok_def nh_view_def nh_new_def)
qed

lemma invalid_phase: "compact M h \<Longrightarrow> \<not> is_phase_valid M h n \<Longrightarrow> n \<le> p \<Longrightarrow> p < M \<Longrightarrow> nh_counts h p = 0"
  unfolding compact_def is_phase_valid_def by (metis le_less_trans)

lemma nh_assign_ok:
  assumes ok: "nh_ok M h" "nh_ok M other" and c: "compact M h" "compact M other"
  shows "nh_ok M (nh_assign M other h) \<and> nh_view M (nh_assign M other h) = nh_view M other"
proof -
  obtain n h1 where h1: "copy_rows M other 0 h = (n, h1)" by (cases "copy_rows M other 0 h")
  note C = copy_rows_result [OF h1]
  obtain m where m: "n \<le> m" "\<not> is_phase_valid M h1 m" "nh_graphs (clear_rows M n h1) = nh_graphs h1"
    "\<forall>part<2. \<forall>p. nh_phases (clear_rows M n h1) part p = (if n \<le> p \<and> p < m then ph_new else nh_phases h1 part p)"
    "\<forall>p. nh_counts (clear_rows M n h1) p = (if n \<le> p \<and> p < m then 0 else nh_counts h1 p)"
    using clear_rows_result by blast
  let ?r = "nh_assign M other h"
  have g: "nh_graphs ?r = nh_graphs other"
  proof -
    have "min a (length (nh_graphs other)) + (length (nh_graphs other) - a) = length (nh_graphs other)" for a by simp
    then show ?thesis by (simp add: nh_assign_def h1 Let_def map_nth)
  qed
  have ph: "nh_phases ?r part p = (if p < n then nh_phases other part p else if p < m then ph_new else nh_phases h part p)"
    if "part < 2" for part p
    using that C m(1,4) by (simp add: nh_assign_def h1 Let_def)
  have ct: "nh_counts ?r p = (if p < n then nh_counts other p else if p < m then 0 else nh_counts h p)" for p
    using C m(1,5) by (simp add: nh_assign_def h1 Let_def)
  have hm: "\<not> is_phase_valid M h m" using m(1,2) C by (simp add: is_phase_valid_def)
  have rows: "row_ok h p" "row_ok other p" if "p < M" for p using ok that by (simp_all add: nh_ok_def)
  have empty: "phase_ok (nh_phases ?r part p) \<and> phase_total (nh_phases ?r part p) = 0 \<and> nh_counts ?r p = 0"
    if p: "p < M" "n \<le> p" and part: "part < 2" for p part
  proof (cases "p < m")
    case True
    then show ?thesis using ph [OF part, of p] ct p ph_new_ok by simp
  next
    case False
    then have "nh_counts h p = 0" using invalid_phase [OF c(1) hm] p by simp
    then show ?thesis
      using ph [OF part, of p] ct p False row_empty [OF rows(1) _ part] row_okD(1) [OF rows(1) part] by simp
  qed
  have "row_ok ?r p" if "p < M" for p
  proof (cases "p < n")
    case True
    have "graph_get g' p ?r = graph_get g' p other" for g' by (simp add: graph_get_def g)
    then show ?thesis using row_ok_cong_parts [OF rows(2) [OF that], of ?r] ph ct True by simp
  next
    case False
    then show ?thesis using row_ok_empty [of ?r p] empty [OF that] by (metis not_less zero_less_numeral)
  qed
  moreover have "(g', p, part, ty, x) \<in> nh_view M ?r \<longleftrightarrow> (g', p, part, ty, x) \<in> nh_view M other" for g' p part ty x
  proof (cases "p < M \<and> part < 2 \<and> n \<le> p")
    case True
    then have "nh_counts other p = 0" using invalid_phase [OF c(2)] C by blast
    then have "phase_nodes (nh_phases other part p) = {}"
      using row_empty [OF rows(2)] total_0_nodes True by blast
    moreover have "phase_nodes (nh_phases ?r part p) = {}" using empty True total_0_nodes by blast
    ultimately show ?thesis by (simp add: nh_view_def)
  next
    case False
    then show ?thesis using ph [of part p] by (auto simp: nh_view_def)
  qed
  ultimately show ?thesis by (auto simp: nh_ok_def)
qed

section \<open>Properties\<close>

text \<open>
  C4: a \<open>NodeHierarchy\<close> is a set of nodes addressed by graph and phase: \<open>Add\<close> inserts one (given
  that twice the bytes of all the phase's nodes stay below \<open>2 ^ 32\<close>, and fewer than \<open>2 ^ 16\<close> types),
  \<open>Get\<close> finds it whatever was added or removed since, and \<open>Remove\<close> deletes exactly it,
  although it moves another graph's node, and drops the block when it was the last of its
  type; the graphs' index tables and the blocks' owner lists stay in step.
\<close>

theorem node_hierarchy_refines_node_set:
  assumes "nh_ok M h" and "nh_tight M h"
  shows "(p < M \<and> has_slot g p h \<and> (\<forall>part ty x. (g, p, part, ty, x) \<notin> nh_view M h) \<and>
        0 < sz \<and> sz * (nh_counts h p + 1) * 2 < 2 ^ 32 \<and>
        length (ph_blocks (nh_phases h (partition_of final) p)) < 2 ^ 16 \<longrightarrow>
      (\<exists>h'. nh_add sz cap gcap M g p final ty x h = Inr h' \<and> nh_ok M h' \<and> nh_tight M h' \<and>
        nh_view M h' = insert (g, p, partition_of final, ty, x) (nh_view M h))) \<and>
    ((g, p, partition_of final, ty, x) \<in> nh_view M h \<longrightarrow>
      nh_get M g p final ty h = Inr (x, h) \<and>
      (\<exists>h'. nh_remove M g p 0 final ty h = Inr h' \<and> nh_ok M h' \<and> nh_tight M h' \<and>
        nh_view M h' = nh_view M h - {(g, p, partition_of final, ty, x)} \<and>
        ((\<exists>b\<in>set (ph_blocks (nh_phases h' (partition_of final) p)). nb_type b = ty) \<longleftrightarrow>
          (\<exists>g' x'. (g', p, partition_of final, ty, x') \<in> nh_view M h' ))))"
proof (intro conjI impI)
  assume "p < M \<and> has_slot g p h \<and> (\<forall>part ty x. (g, p, part, ty, x) \<notin> nh_view M h) \<and>
    0 < sz \<and> sz * (nh_counts h p + 1) * 2 < 2 ^ 32 \<and> length (ph_blocks (nh_phases h (partition_of final) p)) < 2 ^ 16"
  then show "\<exists>h'. nh_add sz cap gcap M g p final ty x h = Inr h' \<and> nh_ok M h' \<and> nh_tight M h' \<and>
      nh_view M h' = insert (g, p, partition_of final, ty, x) (nh_view M h)"
    using nh_add_ok [OF assms(1), of p g sz final cap gcap ty x] assms(2) by blast
next
  assume v: "(g, p, partition_of final, ty, x) \<in> nh_view M h"
  show "nh_get M g p final ty h = Inr (x, h)" by (rule nh_get_ok [OF assms(1) v])
  have p: "p < M" using v by (simp add: nh_view_def)
  obtain h' where h': "nh_remove M g p 0 final ty h = Inr h'" "nh_ok M h'" "nh_tight M h'"
    "nh_view M h' = nh_view M h - {(g, p, partition_of final, ty, x)}"
    using nh_remove_ok [OF assms(1) _ v, of p 0] assms(2) by auto
  then show "\<exists>h'. nh_remove M g p 0 final ty h = Inr h' \<and> nh_ok M h' \<and> nh_tight M h' \<and>
        nh_view M h' = nh_view M h - {(g, p, partition_of final, ty, x)} \<and>
        ((\<exists>b\<in>set (ph_blocks (nh_phases h' (partition_of final) p)). nb_type b = ty) \<longleftrightarrow>
          (\<exists>g' x'. (g', p, partition_of final, ty, x') \<in> nh_view M h' ))"
    using tight_blocks [OF h'(2,3) p part_lt, of final ty] by (intro exI [of _ h']) simp
qed

lemma two_node_graph:
  "\<exists>h :: 'n hierarchy. nh_ok 8 h \<and> nh_tight 8 h \<and> nh_view 8 h = {(0, 0, 0, 5, x), (0, 1, 1, 6, y)}"
proof -
  obtain h0 :: "'n hierarchy" where h0: "nh_ok 8 h0" "nh_view 8 h0 = {}" "nh_counts h0 = nh_counts (nh_new :: 'n hierarchy)"
    "nh_phases h0 = nh_phases nh_new" "\<forall>p. has_slot 0 p h0 \<longleftrightarrow> p < 2"
  proof -
    have "0 < length (nh_graphs (nh_new :: 'n hierarchy)) \<longrightarrow> nh_graphs (nh_new :: 'n hierarchy) ! 0 = []"
      by (simp add: nh_new_def)
    from nh_reserve_ok [where M = 8 and h = "nh_new :: 'n hierarchy" and phaseCount = 1 and g = 0 and reserved = 2
        and first = 0, OF conjunct1 [OF nh_new_ok] zero_less_one this]
    obtain h' :: "'n hierarchy" where "nh_ok 8 h'" "nh_view 8 h' = nh_view 8 (nh_new :: 'n hierarchy)"
      "nh_counts h' = nh_counts (nh_new :: 'n hierarchy)" "nh_phases h' = nh_phases nh_new" "\<forall>p. has_slot 0 p h' \<longleftrightarrow> p < 2"
      by (elim exE conjE)
    then show thesis using that [of h'] conjunct2 [OF nh_new_ok [of 8, where 'n = 'n]] by simp
  qed
  have b0: "ph_blocks (nh_phases h0 part p) = []" "nh_counts h0 p = 0" for part p
    using h0(3,4) by (simp_all add: nh_new_def ph_new_def)
  have t0: "nh_tight 8 h0" by (simp add: nh_tight_def ph_tight_def b0)
  obtain h1 where h1: "nh_ok 8 h1" "nh_view 8 h1 = {(0, 0, 0, 5, x)}" "map length (nh_graphs h1) = map length (nh_graphs h0)"
    "nh_add 4 0 0 8 0 0 False 5 x h0 = Inr h1" "nh_tight 8 h1"
    using nh_add_ok [OF h0(1), of 0 0 4 False 0 0 5 x] h0(2,5) b0 t0 by (auto simp: partition_of_def)
  have b1: "ph_blocks (nh_phases h1 1 1) = []" "nh_counts h1 1 = 0"
    using h1(4) h0(3,4) by (auto simp: nh_add_def grow_graphs_def Let_def bindR_eq_Inr assertR_eq_Inr graph_set_def put_block_def
        partition_of_def nh_new_def ph_new_def)
  have "has_slot 0 1 h1" using has_slot_shape [OF h1(3)] h0(5) by simp
  then obtain h2 where "nh_ok 8 h2" "nh_tight 8 h2" "nh_view 8 h2 = {(0, 0, 0, 5, x), (0, 1, 1, 6, y)}"
    using nh_add_ok [OF h1(1), of 1 0 4 True 0 0 6 y] h1(2,5) b1 by (auto simp: partition_of_def insert_commute)
  then show ?thesis by blast
qed

theorem node_hierarchy_refines_node_set_witness:
  "\<exists>h h'. nh_view 8 h = {(0, 0, 0, 5, CHR ''a''), (0, 1, 1, 6, CHR ''b'')} \<and>
    nh_get 8 0 1 True 6 h = Inr (CHR ''b'', h) \<and>
    nh_remove 8 0 1 0 True 6 h = Inr h' \<and> nh_view 8 h' = {(0, 0, 0, 5, CHR ''a'')}"
proof -
  obtain h where h: "nh_ok 8 h" "nh_tight 8 h" "nh_view 8 h = {(0, 0, 0, 5, CHR ''a''), (0, 1, 1, 6, CHR ''b'')}"
    using two_node_graph [of "CHR ''a''" "CHR ''b''"] by (elim exE conjE)
  have "(0, 1, partition_of True, 6, CHR ''b'') \<in> nh_view 8 h" by (simp add: h(3) partition_of_def)
  then obtain h' where "nh_get 8 0 1 True 6 h = Inr (CHR ''b'', h)" "nh_remove 8 0 1 0 True 6 h = Inr h'"
    "nh_view 8 h' = nh_view 8 h - {(0, 1, partition_of True, 6, CHR ''b'')}"
    using node_hierarchy_refines_node_set [OF h(1,2)] by blast
  moreover have "nh_view 8 h - {(0, 1, partition_of True, 6, CHR ''b'')} = {(0, 0, 0, 5, CHR ''a'')}"
    by (simp add: h(3) partition_of_def insert_Diff_if)
  ultimately show ?thesis using h(3) by metis
qed

text \<open>A phase is reached when each phase up to it, the first apart, has a node.\<close>

definition reached :: "nat \<Rightarrow> 'n hierarchy \<Rightarrow> nat \<Rightarrow> bool" where
  "reached M h p \<longleftrightarrow> (\<forall>r. 0 < r \<longrightarrow> r \<le> p \<longrightarrow> (\<exists>g q ty x. (g, r, q, ty, x) \<in> nh_view M h))"

lemma phase_valid_view:
  assumes "nh_ok M h"
  shows "is_phase_valid M h r \<longleftrightarrow> (\<exists>g q ty x. (g, r, q, ty, x) \<in> nh_view M h)"
proof (cases "r < M")
  case True
  then have row: "row_ok h r" using assms by (simp add: nh_ok_def)
  note cnt = row_okD(4) [OF row zero_less_numeral] and ok = row_okD(1) [OF row]
  have some: "phase_total (nh_phases h q r) \<noteq> 0 \<longleftrightarrow> phase_nodes (nh_phases h q r) \<noteq> {}" if q: "q < 2" for q
  proof
    let ?ph = "nh_phases h q r"
    assume "phase_total ?ph \<noteq> 0"
    then obtain i where i: "i < length (ph_blocks ?ph)" "nb_data (ph_blocks ?ph ! i) \<noteq> []"
      by (auto simp: phase_total_def in_set_conv_nth)
    then obtain g where "nb_graphs (ph_blocks ?ph ! i) ! 0 = Some g"
      using phase_okD(2) [OF ok [OF q] i(1)] unfolding block_ok_def by (metis length_greater_0_conv nth_mem option.exhaust)
    then have "(g, 0, nb_data (ph_blocks ?ph ! i) ! 0) \<in> block_nodes (ph_blocks ?ph ! i)"
      using i(2) by (simp add: block_nodes_def)
    then have "(g, nb_type (ph_blocks ?ph ! i), 0, nb_data (ph_blocks ?ph ! i) ! 0) \<in> phase_nodes ?ph"
      using i(1) by (auto simp: phase_nodes_def)
    then show "phase_nodes ?ph \<noteq> {}" by blast
  qed (use total_0_nodes in blast)
  have "is_phase_valid M h r \<longleftrightarrow> (\<exists>q<2. phase_nodes (nh_phases h q r) \<noteq> {})"
    using True cnt some [of 0] some [of 1] by (auto simp: is_phase_valid_def less_2_cases_iff)
  then show ?thesis using True by (auto simp: nh_view_def)
qed (simp add: is_phase_valid_def nh_view_def)

text \<open>
  C12: \<open>Run\<close> ends, with at most 256 phases, and in every order in which the scheduler may run
  the batches, each partition of each reached phase starts and finishes exactly once, and
  nothing else runs; a batch of a phase, of either partition, starts only after partition 0 of the phase before has
  finished, which holds the graphs' nodes that are not their last.
\<close>

theorem graph_nodes_run_in_order:
  assumes "nh_ok M h" and "M \<le> 256"
  shows "\<exists>pl. nh_run M h = Some pl \<and> runs pl \<noteq> {} \<and> (\<forall>xs. xs \<in> runs pl \<longrightarrow> distinct xs \<and>
    (\<forall>q p. (Started q p \<in> set xs \<longleftrightarrow> q < 2 \<and> reached M h p) \<and>
      (Finished q p \<in> set xs \<longleftrightarrow> q < 2 \<and> reached M h p) \<and>
      (q < 2 \<and> reached M h p \<longrightarrow> precedes (Started q p) (Finished q p) xs) \<and>
      (q < 2 \<and> reached M h (Suc p) \<longrightarrow> precedes (Finished 0 p) (Started q (Suc p)) xs)))"
proof -
  have r: "(\<forall>r. 0 < r \<longrightarrow> r \<le> p \<longrightarrow> is_phase_valid M h r) \<longleftrightarrow> reached M h p" for p
    by (simp add: reached_def phase_valid_view [OF assms(1)])
  note B = phase_plan_batches [of M h 0, unfolded r]
  have in_b: "(q, p) \<in> set (batches (phase_plan M h 0)) \<longleftrightarrow> q < 2 \<and> reached M h p" for q p
    using B by simp
  have "distinct xs \<and>
    (\<forall>q p. (Started q p \<in> set xs \<longleftrightarrow> q < 2 \<and> reached M h p) \<and>
      (Finished q p \<in> set xs \<longleftrightarrow> q < 2 \<and> reached M h p) \<and>
      (q < 2 \<and> reached M h p \<longrightarrow> precedes (Started q p) (Finished q p) xs) \<and>
      (q < 2 \<and> reached M h (Suc p) \<longrightarrow> precedes (Finished 0 p) (Started q (Suc p)) xs))"
    if xs: "xs \<in> runs (phase_plan M h 0)" for xs
    using runs_distinct [OF xs] B runs_events [OF xs] in_b runs_started_first [OF xs]
      phase_plan_order [OF xs] r by simp
  then show ?thesis
    using process_phase_plan [OF assms(2)] runs_nonempty unfolding nh_run_def by blast
qed

theorem graph_nodes_run_in_order_witness:
  "\<exists>(h :: char hierarchy) pl xs. nh_run 8 h = Some pl \<and> xs \<in> runs pl \<and> (0, 0, 0, 5, CHR ''a'') \<in> nh_view 8 h \<and>
    precedes (Finished 0 0) (Started 1 1) xs \<and> Finished 0 1 \<in> set xs \<and> Started 0 2 \<notin> set xs"
proof -
  obtain h where h: "nh_ok 8 h" "nh_view 8 h = {(0, 0, 0, 5, CHR ''a''), (0, 1, 1, 6, CHR ''b'')}"
    using two_node_graph [of "CHR ''a''" "CHR ''b''"] by (elim exE conjE)
  have r: "reached 8 h 1" "\<not> reached 8 h 2"
    using h(2) by (auto simp: reached_def le_Suc_eq intro: exI [of _ 2])
  obtain pl where pl: "nh_run 8 h = Some pl" "runs pl \<noteq> {}" and all: "\<forall>xs. xs \<in> runs pl \<longrightarrow> distinct xs \<and>
    (\<forall>q p. (Started q p \<in> set xs \<longleftrightarrow> q < 2 \<and> reached 8 h p) \<and>
      (Finished q p \<in> set xs \<longleftrightarrow> q < 2 \<and> reached 8 h p) \<and>
      (q < 2 \<and> reached 8 h p \<longrightarrow> precedes (Started q p) (Finished q p) xs) \<and>
      (q < 2 \<and> reached 8 h (Suc p) \<longrightarrow> precedes (Finished 0 p) (Started q (Suc p)) xs))"
    using graph_nodes_run_in_order [OF h(1)] by auto
  obtain xs where xs: "xs \<in> runs pl" using pl(2) by blast
  have "precedes (Finished 0 0) (Started 1 (Suc 0)) xs" "Finished 0 1 \<in> set xs" "Started 0 2 \<notin> set xs"
    using all xs r by simp_all
  then show ?thesis using h(2) pl(1) xs by auto
qed

text \<open>
  Assigning a hierarchy makes the target hold exactly the source's nodes, whatever it
  held before, provided neither has an empty phase below a used one.
\<close>

theorem node_assign_copies:
  assumes "nh_ok M h" and "nh_ok M other" and "compact M h" and "compact M other"
  shows "nh_ok M (nh_assign M other h) \<and> nh_view M (nh_assign M other h) = nh_view M other"
  using assms by (rule nh_assign_ok)

theorem node_assign_copies_witness:
  "nh_view 8 (nh_assign 8 (nh_new :: nat hierarchy) nh_new) = {}"
proof -
  have "compact 8 (nh_new :: nat hierarchy)" by (simp add: compact_def nh_new_def)
  then show ?thesis
    using node_assign_copies [of 8 "nh_new :: nat hierarchy" nh_new] nh_new_ok by blast
qed

text \<open>Growing a vector fails with an assertion or not at all.\<close>

lemma resize_cap_assert: "bindR (resize_cap n want c) (\<lambda>_. Inl AssertFail) = Inl AssertFail"
  by (simp add: resize_cap_def safe_range_cast_def assertR_def)

lemma grow_graphs_assert: "bindR (grow_graphs c index b) (\<lambda>_. Inl AssertFail) = Inl AssertFail"
  by (simp add: grow_graphs_def resize_cap_def safe_range_cast_def assertR_def Let_def)

text \<open>
  A graph reserved with a first phase above 0 cannot have a final node: the node is final
  when its phase, counted from the graph's own start, is the last of the count, but its
  index entry is addressed with the offset added, beyond the graph's table, and the
  assertion on that access fails.
\<close>

theorem offset_graph_has_no_final_node:
  assumes "nh_ok M h" and "0 < up_offset u" and "up_graph u < length (nh_graphs h)"
    and "length (nh_graphs h ! up_graph u) = up_count u" and "p + 1 = up_count u"
  shows "adder_create sz cap gcap M u p ty x h = Inl AssertFail"
proof -
  let ?p = "p + up_offset u"
  have no_slot: "graph_set (up_graph u) ?p k h' = Inl AssertFail" if "nh_graphs h' = nh_graphs h" for k h'
    using assms(2-5) that by (simp add: graph_set_def)
  show ?thesis
  proof (cases "?p < M")
    case True
    then have row: "row_ok h ?p" using assms(1) by (simp add: nh_ok_def)
    let ?ph = "nh_phases h 1 ?p"
    have ok: "phase_ok ?ph" using row_okD(1) [OF row] by simp
    show ?thesis
    proof (cases "ph_block_index ty ?ph")
      case (Inl e)
      then have "e = AssertFail" by (auto simp: ph_block_index_def safe_range_cast_def assertR_def Let_def split: option.splits if_splits)
      then show ?thesis using Inl True assms(5) by (simp add: adder_create_def nh_add_def partition_of_def)
    next
      case (Inr r)
      obtain i ph where r: "r = (i, ph)" by (cases r)
      have i: "i < length (ph_blocks ph)"
        using Inr r phase_okD(1) [OF ok, of ty i]
        by (auto simp: ph_block_index_def Let_def bindR_eq_Inr split: option.splits)
      show ?thesis
        using Inr r i True assms(5)
        by (cases "safe_range_cast 32 (length (nb_data (ph_blocks ph ! i)))")
          (auto simp: adder_create_def nh_add_def partition_of_def Let_def put_block_def safe_range_cast_def assertR_def no_slot grow_graphs_assert resize_cap_assert split: if_splits)
    qed
  next
    case False
    then show ?thesis by (simp add: adder_create_def nh_add_def Let_def)
  qed
qed

theorem offset_graph_has_no_final_node_witness:
  "\<exists>h. nh_ok 8 h \<and> adder_create 4 0 0 8 \<lparr>up_graph = 0, up_count = 2, up_offset = 1\<rparr> 1 5 CHR ''a'' h = Inl AssertFail"
proof -
  let ?h = "(nh_new :: char hierarchy)\<lparr>nh_graphs := [[None, None]]\<rparr>"
  have "row_ok ?h p" for p by (rule row_ok_empty) (simp_all add: nh_new_def ph_new_ok)
  then have "nh_ok 8 ?h" by (simp add: nh_ok_def)
  then show ?thesis
    using offset_graph_has_no_final_node [of 8 ?h "\<lparr>up_graph = 0, up_count = 2, up_offset = 1\<rparr>" 1 4 0 0 5 "CHR ''a''"] by auto
qed

end
