(* ===== verification/LinearMemory.thy ===== *)
theory LinearMemory
  imports Interfaces
begin

text \<open>
  Linear memory: the alignment arithmetic of \<^verbatim>\<open>util/Math.h\<close>, the block chains of
  \<^verbatim>\<open>memory/MonotonicBufferResource.h\<close> (\<^verbatim>\<open>LinearMemoryBuffer\<close>,
  \<^verbatim>\<open>LocalLinearMemoryBuffer\<close>, \<^verbatim>\<open>MonotonicBufferResource\<close>) and
  \<^verbatim>\<open>memory/VirtualMemoryBuffer\<close>.

  Addresses and sizes are 64-bit words, so that every sum wraps as \<^verbatim>\<open>size_t\<close> does.
  A chain of blocks is the list of its blocks from the start block on; the memory source
  a buffer takes its blocks from is a parameter with a state of its own.  The locale
  \<open>memory_source\<close> is the contract of \<^verbatim>\<open>Allocate(len, align)\<close>: what it grants is
  aligned and apart from everything granted before.
\<close>

section \<open>Alignment\<close>

unbundle bit_operations_syntax

type_synonym addr = "64 word"

definition is_power_of_two :: "addr \<Rightarrow> bool res" where
  "is_power_of_two n = assertR (n \<noteq> 0) (Inr (n AND (n - 1) = 0))"

definition mod2 :: "addr \<Rightarrow> addr \<Rightarrow> addr res" where
  "mod2 v d = assertR (d \<noteq> 0 \<and> d AND (d - 1) = 0) (Inr (v AND (d - 1)))"

definition byte_align_offset :: "addr \<Rightarrow> addr \<Rightarrow> addr res" where
  "byte_align_offset pos al = mod2 (- pos) al"

definition byte_align_position :: "addr \<Rightarrow> addr \<Rightarrow> addr res" where
  "byte_align_position pos al =
    assertR (al \<noteq> 0 \<and> al AND (al - 1) = 0) (Inr ((pos + (al - 1)) AND (- al)))"

definition align_address :: "addr \<Rightarrow> addr \<Rightarrow> addr res" where
  "align_address p al = byte_align_position p al"

definition pow2 :: "addr \<Rightarrow> bool" where
  "pow2 a \<longleftrightarrow> (\<exists>k<64. a = 2 ^ k)"

lemma exp_AND_pred [simp]: "(2 :: addr) ^ k AND (2 ^ k - 1) = 0"
  by (simp add: mask_eq_exp_minus_1 [symmetric] and.commute [of "2 ^ k"] and_exp_eq_0_iff_not_bit bit_mask_iff)

lemma pow2_guard: "pow2 a \<Longrightarrow> a \<noteq> 0 \<and> a AND (a - 1) = 0"
  by (auto simp: pow2_def)

lemma unat_exp: "k < 64 \<Longrightarrow> unat ((2 :: addr) ^ k) = 2 ^ k"
proof -
  assume k: "k < 64"
  have "(2 :: addr) ^ k = word_of_nat (2 ^ k)" by simp
  then have "unat ((2 :: addr) ^ k) = take_bit 64 (2 ^ k)"
    by (simp only: unsigned_of_nat) simp
  also have "\<dots> = 2 ^ k"
    using k by (simp add: take_bit_nat_eq_self)
  finally show ?thesis .
qed

lemma pow2_pos: "pow2 a \<Longrightarrow> 0 < unat a"
  by (auto simp: pow2_def unat_exp)

lemma unat_sum: "unat (a :: addr) + unat b < 2 ^ 64 \<Longrightarrow> unat (a + b) = unat a + unat b"
  by (simp add: unat_word_ariths)

lemma unat_diff: "b \<le> (a :: addr) \<Longrightarrow> unat (a - b) = unat a - unat b"
  by (rule unat_sub)

lemma AND_minus_exp: "(p :: 'w :: len word) AND (- (2 ^ k)) = p - take_bit k p"
proof -
  have "p AND (- (2 ^ k)) = push_bit k (drop_bit k p)"
    by (intro bit_word_eqI) (auto simp: minus_exp_eq_not_mask bit_simps)
  also have "\<dots> = p - take_bit k p"
    using bits_ident [of k p] by (metis add_diff_cancel_right')
  finally show ?thesis .
qed

lemma take_bit_le: "take_bit k (p :: addr) \<le> p"
  by (simp add: word_le_nat_alt unsigned_take_bit_eq)

text \<open>
  Aligning an address gives the first multiple of the alignment that is not below it.
\<close>

lemma align_address_ok:
  assumes "pow2 al" "unat p + unat al \<le> 2 ^ 64"
  shows "\<exists>q. align_address p al = Inr q \<and> unat al dvd unat q \<and> unat p \<le> unat q \<and> unat q < unat p + unat al"
proof -
  obtain k where k: "k < 64" "al = 2 ^ k" using assms(1) by (auto simp: pow2_def)
  have al: "unat al = 2 ^ k" using k by (simp add: unat_exp)
  have le: "(1 :: addr) \<le> al" using al by (simp add: word_le_nat_alt)
  have pred: "unat (al - 1) = 2 ^ k - 1" using unat_diff [OF le] al by simp
  define s where "s = unat p + (2 ^ k - 1)"
  have s: "unat (p + (al - 1)) = s"
    using assms(2) pow2_pos [OF assms(1)] by (subst unat_sum) (simp_all add: s_def pred al)
  let ?q = "(p + (al - 1)) AND (- al)"
  have q: "unat ?q = s - s mod 2 ^ k"
    by (simp add: k(2) AND_minus_exp unat_diff take_bit_le unsigned_take_bit_eq)
      (simp add: s [unfolded k(2)] take_bit_eq_mod)
  have m: "s mod 2 ^ k < 2 ^ k" by simp
  have "2 ^ k dvd s - s mod 2 ^ k" by (rule dvd_minus_mod)
  moreover have "unat p \<le> s - s mod 2 ^ k" "s - s mod 2 ^ k < unat p + 2 ^ k"
    using m unfolding s_def by linarith+
  ultimately show ?thesis
    using pow2_guard [OF assms(1)] q al by (auto simp: align_address_def byte_align_position_def)
qed

text \<open>
  \<^verbatim>\<open>ByteAlignOffset\<close> is the distance to that multiple.
\<close>

lemma byte_align_offset_ok:
  assumes "pow2 al"
  shows "\<exists>d. byte_align_offset p al = Inr d \<and> unat d < unat al \<and> unat al dvd unat p + unat d"
proof -
  obtain k where k: "k < 64" "al = 2 ^ k" using assms by (auto simp: pow2_def)
  have al: "unat al = 2 ^ k" using k by (simp add: unat_exp)
  let ?d = "- p AND (al - 1)"
  have d: "?d = take_bit k (- p)"
    by (simp add: k(2) mask_eq_exp_minus_1 [symmetric] take_bit_eq_mask)
  have ud: "unat ?d = unat (- p) mod 2 ^ k"
    unfolding d unsigned_take_bit_eq by (rule take_bit_eq_mod)
  have "(2 :: nat) ^ k dvd 2 ^ 64" using k(1) by (intro le_imp_power_dvd) simp
  moreover have "2 ^ 64 dvd unat p + unat (- p)"
    using unat_word_ariths(1) [of p "- p"] by (simp add: dvd_eq_mod_eq_0)
  ultimately have np: "2 ^ k dvd unat p + unat (- p)" by (rule dvd_trans)
  have "(unat p + unat ?d) mod 2 ^ k = (unat p + unat (- p)) mod 2 ^ k"
    by (simp add: ud mod_add_right_eq)
  also have "\<dots> = 0" using np by (simp add: dvd_eq_mod_eq_0)
  finally have "2 ^ k dvd unat p + unat ?d" by (simp add: dvd_eq_mod_eq_0)
  moreover have "unat ?d < 2 ^ k" by (simp add: ud)
  ultimately show ?thesis
    using pow2_guard [OF assms] al by (auto simp: byte_align_offset_def mod2_def)
qed

section \<open>Blocks\<close>

text \<open>
  A \<^verbatim>\<open>MemoryBufferBlock\<close> is a header of 24 bytes (next, size, capacity) in front of its
  data; \<^verbatim>\<open>sizeof\<close> pads it to 32.  A block is given by the address of its \<^verbatim>\<open>data\<close>
  member; the \<^verbatim>\<open>next\<close> pointers are the order of the blocks in the list.
\<close>

record mblock =
  mb_data :: addr
  mb_size :: addr
  mb_capacity :: addr

definition mb_header_size :: addr where
  "mb_header_size = 24"

definition mb_sizeof :: addr where
  "mb_sizeof = 32"

definition mb_is_equal :: "mblock \<Rightarrow> addr \<Rightarrow> bool" where
  "mb_is_equal b p = (mb_data b \<le> p \<and> p < mb_data b + mb_capacity b)"

definition next_memory_block_size :: "addr \<Rightarrow> addr \<Rightarrow> addr res" where
  "next_memory_block_size request minimum =
    (let request = max request minimum in
     assertR (request \<le> 512 * 1024 * 1024) (Inr request))"

definition allocate_from_block :: "mblock \<Rightarrow> addr \<Rightarrow> addr \<Rightarrow> (addr option \<times> mblock) res" where
  "allocate_from_block b len al =
    (let a = mb_data b + mb_size b in
     bindR (align_address a al) (\<lambda>aligned.
       let offset = aligned - a;
           b = b\<lparr>mb_size := mb_size b + (offset + len)\<rparr> in
       if mb_size b < mb_capacity b then Inr (Some aligned, b)
       else Inr (None, b\<lparr>mb_size := mb_size b - (offset + len)\<rparr>)))"

text \<open>
  \<^verbatim>\<open>ArenaAllocator::AllocateRaw\<close> checks that the byte count is a multiple of the type's
  alignment and passes the request to its source; \<^verbatim>\<open>allocate\<close> multiplies by the size of
  the type.  A source maps a length and an alignment to an address or \<^verbatim>\<open>nullptr\<close>, and
  gives a block back by its address.
\<close>

record 's msource =
  src_allocate :: "addr \<Rightarrow> addr \<Rightarrow> 's \<Rightarrow> (addr option \<times> 's) run"
  src_deallocate :: "addr \<Rightarrow> 's \<Rightarrow> 's res"

definition arena_allocate_raw :: "'s msource \<Rightarrow> addr \<Rightarrow> addr \<Rightarrow> 's \<Rightarrow> (addr option \<times> 's) run" where
  "arena_allocate_raw src bytes al s =
    assertO (bytes mod al = 0) (src_allocate src bytes al s)"

definition arena_allocate :: "'s msource \<Rightarrow> addr \<Rightarrow> addr \<Rightarrow> addr \<Rightarrow> 's \<Rightarrow> (addr option \<times> 's) run" where
  "arena_allocate src sz al n s = arena_allocate_raw src (sz * n) al s"

definition lm_allocate_block :: "'s msource \<Rightarrow> addr \<Rightarrow> 's \<Rightarrow> (mblock option \<times> 's) run" where
  "lm_allocate_block src block_size s =
    (let byte_size = block_size + mb_header_size in
     bindO (Some (byte_align_offset byte_size mb_sizeof)) (\<lambda>off.
       let byte_size = byte_size + off;
           num = byte_size div mb_sizeof in
       bindO (arena_allocate src mb_sizeof 8 num s) (\<lambda>(p, s).
         case p of
           None \<Rightarrow> Some (Inr (None, s))
         | Some p \<Rightarrow>
             let b = \<lparr>mb_data = p + mb_header_size, mb_size = 0,
                      mb_capacity = byte_size - mb_header_size\<rparr> in
             assertO (block_size \<le> mb_capacity b)
               (assertO (mb_capacity b < block_size + mb_sizeof) (Some (Inr (Some b, s)))))))"

definition lm_deallocate_block :: "'s msource \<Rightarrow> mblock \<Rightarrow> 's \<Rightarrow> 's res" where
  "lm_deallocate_block src b s = src_deallocate src (mb_data b - mb_header_size) s"

section \<open>Linear memory buffers\<close>

record 's lmem =
  lm_blocks :: "mblock list"
  lm_active :: nat
  lm_state :: 's

definition lm_put :: "mblock \<Rightarrow> 's lmem \<Rightarrow> 's lmem" where
  "lm_put b m = m\<lparr>lm_blocks := (lm_blocks m)[lm_active m := b]\<rparr>"

text \<open>
  The loop of \<^verbatim>\<open>LinearMemoryBuffer::Allocate\<close>: try the active block, go on to the next
  block of the chain, or append a new one.  Nothing in the code bounds it, so not returning
  is the value \<open>None\<close>.
\<close>

partial_function (option) lm_allocate ::
    "'s msource \<Rightarrow> addr \<Rightarrow> addr \<Rightarrow> addr \<Rightarrow> 's lmem \<Rightarrow> (addr option \<times> 's lmem) run" where
  "lm_allocate src len al respace m =
    bindO (Some (allocate_from_block (lm_blocks m ! lm_active m) len al)) (\<lambda>(p, b).
      let m = lm_put b m in
      if p \<noteq> None then Some (Inr (p, m))
      else if Suc (lm_active m) = length (lm_blocks m)
      then bindO (Some (next_memory_block_size (len + al) respace)) (\<lambda>sz.
             bindO (lm_allocate_block src sz (lm_state m)) (\<lambda>(nb, s).
               if nb = None then Some (Inr (None, m\<lparr>lm_state := s\<rparr>))
               else lm_allocate src len al respace
                 (m\<lparr>lm_blocks := lm_blocks m @ [the nb], lm_active := Suc (lm_active m), lm_state := s\<rparr>)))
      else lm_allocate src len al respace (m\<lparr>lm_active := Suc (lm_active m)\<rparr>))"

text \<open>The same buffer with \<^verbatim>\<open>allocateNewBlocks = false\<close> answers with the active block alone.\<close>

definition lm_allocate_fixed :: "addr \<Rightarrow> addr \<Rightarrow> 's lmem \<Rightarrow> (addr option \<times> 's lmem) res" where
  "lm_allocate_fixed len al m =
    bindR (allocate_from_block (lm_blocks m ! lm_active m) len al) (\<lambda>(p, b). Inr (p, lm_put b m))"

definition lm_active_capacity :: "'s lmem \<Rightarrow> addr" where
  "lm_active_capacity m = mb_capacity (lm_blocks m ! lm_active m)"

definition lm_rewind :: "'s lmem \<Rightarrow> 's lmem" where
  "lm_rewind m = m\<lparr>lm_blocks := map (\<lambda>b. b\<lparr>mb_size := 0\<rparr>) (lm_blocks m), lm_active := 0\<rparr>"

fun lm_free_blocks :: "'s msource \<Rightarrow> mblock list \<Rightarrow> 's \<Rightarrow> 's res" where
  "lm_free_blocks src [] s = Inr s"
| "lm_free_blocks src (b # bs) s = bindR (lm_deallocate_block src b s) (lm_free_blocks src bs)"

definition lm_rewind_and_deallocate :: "'s msource \<Rightarrow> 's lmem \<Rightarrow> 's lmem res" where
  "lm_rewind_and_deallocate src m =
    bindR (lm_free_blocks src (tl (lm_blocks m)) (lm_state m)) (\<lambda>s.
      Inr (m\<lparr>lm_blocks := [(hd (lm_blocks m))\<lparr>mb_size := 0\<rparr>], lm_active := 0, lm_state := s\<rparr>))"

section \<open>The local buffer and the monotonic resource\<close>

definition local_new :: "'s msource \<Rightarrow> addr \<Rightarrow> 's \<Rightarrow> 's lmem run" where
  "local_new src capacity s =
    bindO (lm_allocate_block src capacity s) (\<lambda>(b, s).
      case b of
        None \<Rightarrow> Some (Inl BadAccess)
      | Some b \<Rightarrow> Some (Inr (lm_rewind \<lparr>lm_blocks = [b], lm_active = 0, lm_state = s\<rparr>)))"

definition local_allocate :: "'s msource \<Rightarrow> addr \<Rightarrow> addr \<Rightarrow> addr \<Rightarrow> 's lmem \<Rightarrow> (addr option \<times> 's lmem) run" where
  "local_allocate src len al respace m = lm_allocate src len al respace m"

definition local_delete :: "'s msource \<Rightarrow> 's lmem \<Rightarrow> 's res" where
  "local_delete src m =
    bindR (lm_rewind_and_deallocate src m) (\<lambda>m'.
      lm_deallocate_block src (hd (lm_blocks m')) (lm_state m'))"

definition mono_new :: "addr \<Rightarrow> addr \<Rightarrow> 's \<Rightarrow> 's lmem" where
  "mono_new start n s =
    lm_rewind \<lparr>lm_blocks = [\<lparr>mb_data = start, mb_size = 0, mb_capacity = n\<rparr>], lm_active = 0, lm_state = s\<rparr>"

definition mono_rewind :: "'s lmem \<Rightarrow> 's lmem" where
  "mono_rewind m = lm_rewind m"

definition mono_is_equal :: "'s lmem \<Rightarrow> addr \<Rightarrow> bool" where
  "mono_is_equal m p = list_ex (\<lambda>b. mb_is_equal b p) (lm_blocks m)"

definition mono_allocate :: "'s msource \<Rightarrow> addr \<Rightarrow> addr \<Rightarrow> 's lmem \<Rightarrow> (addr option \<times> 's lmem) run" where
  "mono_allocate src len al m = lm_allocate src len al (lm_active_capacity m) m"

definition mono_deallocate :: "addr \<Rightarrow> 's lmem \<Rightarrow> 's lmem res" where
  "mono_deallocate p m = assertR (mono_is_equal m p) (Inr m)"

definition mono_delete :: "'s msource \<Rightarrow> 's lmem \<Rightarrow> 's lmem res" where
  "mono_delete src m = lm_rewind_and_deallocate src m"

definition mono_source :: "'s msource \<Rightarrow> 's lmem msource" where
  "mono_source src = \<lparr>src_allocate = mono_allocate src, src_deallocate = mono_deallocate\<rparr>"

section \<open>Regions and the contract of a memory source\<close>

type_synonym region = "nat \<times> nat"

definition apart :: "region \<Rightarrow> region \<Rightarrow> bool" where
  "apart r t \<longleftrightarrow> fst r + snd r \<le> fst t \<or> fst t + snd t \<le> fst r"

definition within :: "region \<Rightarrow> region \<Rightarrow> bool" where
  "within r t \<longleftrightarrow> fst t \<le> fst r \<and> fst r + snd r \<le> fst t + snd t"

definition fits :: "nat \<Rightarrow> addr \<Rightarrow> addr \<Rightarrow> bool" where
  "fits limit len al \<longleftrightarrow> pow2 al \<and> unat len + unat al \<le> limit"

lemma apart_sym: "apart r t \<Longrightarrow> apart t r"
  by (auto simp: apart_def)

lemma apart_within: "apart r t \<Longrightarrow> within t' t \<Longrightarrow> apart r t'"
  by (auto simp: apart_def within_def)

lemma within_trans: "within a b \<Longrightarrow> within b c \<Longrightarrow> within a c"
  by (auto simp: within_def)

lemma within_refl [simp]: "within a a"
  by (simp add: within_def)

text \<open>
  What a source grants is aligned, lies in the lower half of the address space and is apart
  from the regions granted before and not given back.  It may answer \<^verbatim>\<open>nullptr\<close>.
\<close>

locale memory_source =
  fixes good :: "'s \<Rightarrow> region list \<Rightarrow> bool"
    and src :: "'s msource"
    and limit :: nat
  assumes grant: "good s rs \<Longrightarrow> fits limit len al \<Longrightarrow>
      \<exists>r s'. src_allocate src len al s = Some (Inr (r, s')) \<and>
        (case r of None \<Rightarrow> good s' rs
         | Some p \<Rightarrow> unat al dvd unat p \<and> unat p + unat len \<le> 2 ^ 63 \<and>
             (\<forall>t\<in>set rs. apart (unat p, unat len) t) \<and> good s' ((unat p, unat len) # rs))"
    and give_back: "good s (rs @ (unat p, n) # rs') \<Longrightarrow>
      \<exists>s'. src_deallocate src p s = Inr s' \<and> good s' (rs @ rs')"
begin

lemma grantE:
  assumes "good s rs" "fits limit len al"
  obtains (no) s' where "src_allocate src len al s = Some (Inr (None, s'))" "good s' rs"
  | (yes) p s' where "src_allocate src len al s = Some (Inr (Some p, s'))" "unat al dvd unat p"
      "unat p + unat len \<le> 2 ^ 63" "\<forall>t\<in>set rs. apart (unat p, unat len) t"
      "good s' ((unat p, unat len) # rs)"
proof -
  obtain r s' where "src_allocate src len al s = Some (Inr (r, s'))" "case r of None \<Rightarrow> good s' rs
      | Some p \<Rightarrow> unat al dvd unat p \<and> unat p + unat len \<le> 2 ^ 63 \<and>
          (\<forall>t\<in>set rs. apart (unat p, unat len) t) \<and> good s' ((unat p, unat len) # rs)"
    using grant [OF assms] by blast
  then show thesis
    using no yes by (cases r) auto
qed

end

section \<open>The invariant of a chain of blocks\<close>

definition block_region :: "mblock \<Rightarrow> region" where
  "block_region b = (unat (mb_data b), unat (mb_capacity b))"

definition used_region :: "mblock \<Rightarrow> region" where
  "used_region b = (unat (mb_data b), unat (mb_size b))"

definition block_ok :: "nat \<Rightarrow> mblock \<Rightarrow> bool" where
  "block_ok lim b \<longleftrightarrow> mb_size b < mb_capacity b \<and> unat (mb_capacity b) \<le> lim \<and>
    unat (mb_data b) + unat (mb_capacity b) \<le> 2 ^ 63"

text \<open>
  The region of a block with its header, as the source granted it.  \<open>base\<close> is what the
  source has granted beside the blocks the buffer appended; the start block lies in it.
\<close>

definition src_region :: "mblock \<Rightarrow> region" where
  "src_region b = (unat (mb_data b) - 24, unat (mb_capacity b) + 24)"

definition lm_inv :: "('s \<Rightarrow> region list \<Rightarrow> bool) \<Rightarrow> nat \<Rightarrow> region list \<Rightarrow> 's lmem \<Rightarrow> region list \<Rightarrow> bool" where
  "lm_inv good lim base m rs \<longleftrightarrow> lm_active m < length (lm_blocks m) \<and>
    (\<forall>b\<in>set (lm_blocks m). block_ok lim b) \<and>
    (\<forall>b\<in>set (tl (lm_blocks m)). 24 \<le> unat (mb_data b)) \<and>
    sorted_wrt apart (map block_region (lm_blocks m)) \<and>
    good (lm_state m) (rev (map src_region (tl (lm_blocks m))) @ base) \<and>
    (\<exists>t\<in>set base. within (block_region (hd (lm_blocks m))) t) \<and>
    (\<forall>r\<in>set rs. \<exists>b\<in>set (lm_blocks m). within r (used_region b)) \<and>
    sorted_wrt apart rs"

lemma used_in_block: "block_ok lim b \<Longrightarrow> within (used_region b) (block_region b)"
  by (auto simp: block_ok_def within_def used_region_def block_region_def word_less_nat_alt)

text \<open>One block: the request is granted behind what is used, or the block is left as it was.\<close>

lemma allocate_from_block_ok:
  assumes "block_ok lim b" "fits lim len al" "lim \<le> 2 ^ 29"
  shows "(\<exists>p b'. allocate_from_block b len al = Inr (Some p, b') \<and> unat al dvd unat p \<and>
      mb_data b' = mb_data b \<and> mb_capacity b' = mb_capacity b \<and> block_ok lim b' \<and>
      unat (mb_size b) \<le> unat (mb_size b') \<and>
      unat (mb_data b) + unat (mb_size b) \<le> unat p \<and>
      unat p + unat len = unat (mb_data b) + unat (mb_size b')) \<or>
    (allocate_from_block b len al = Inr (None, b) \<and>
      unat (mb_capacity b) < unat (mb_size b) + unat len + unat al)"
proof -
  let ?a = "mb_data b + mb_size b"
  have sz: "unat (mb_size b) < unat (mb_capacity b)"
    and cap: "unat (mb_data b) + unat (mb_capacity b) \<le> 2 ^ 63" "unat (mb_capacity b) \<le> lim"
    using assms(1) by (auto simp: block_ok_def word_less_nat_alt)
  have ua: "unat ?a = unat (mb_data b) + unat (mb_size b)"
    using sz cap by (intro unat_sum) simp
  have al: "pow2 al" "unat len + unat al \<le> lim" using assms(2) by (auto simp: fits_def)
  have "unat ?a + unat al \<le> 2 ^ 64" using ua sz cap al assms(3) by simp
  then obtain q where q: "align_address ?a al = Inr q" "unat al dvd unat q" "unat ?a \<le> unat q"
    "unat q < unat ?a + unat al"
    using align_address_ok [OF al(1), of ?a] by blast
  have off: "unat (q - ?a) = unat q - unat ?a"
    using q(3) by (intro unat_diff) (simp add: word_le_nat_alt)
  have ol: "unat (q - ?a + len) = unat q - unat ?a + unat len"
    using off q(4) al assms(3) by (subst unat_sum) simp_all
  have size': "unat (mb_size b + (q - ?a + len)) = unat (mb_size b) + (unat q - unat ?a + unat len)"
    using ol q(4) al assms(3) sz cap by (subst unat_sum) simp_all
  show ?thesis
  proof (cases "mb_size b + (q - ?a + len) < mb_capacity b")
    case True
    have "allocate_from_block b len al = Inr (Some q, b\<lparr>mb_size := mb_size b + (q - ?a + len)\<rparr>)"
      using True q(1) by (simp add: allocate_from_block_def Let_def)
    moreover have "unat (mb_data b) + unat (mb_size b) \<le> unat q"
      "unat q + unat len = unat (mb_data b) + unat (mb_size b + (q - ?a + len))"
      "unat (mb_size b) \<le> unat (mb_size b + (q - ?a + len))"
      using q(3) size' ua by simp_all
    ultimately show ?thesis
      using True q(2) assms(1) by (auto simp: block_ok_def)
  next
    case False
    have "allocate_from_block b len al = Inr (None, b)"
      using False q(1) by (simp add: allocate_from_block_def Let_def)
    moreover have "unat (mb_capacity b) \<le> unat (mb_size b) + (unat q - unat ?a + unat len)"
      using False size' by (simp add: word_less_nat_alt)
    then have "unat (mb_capacity b) < unat (mb_size b) + unat len + unat al"
      using q(3,4) by linarith
    ultimately show ?thesis by blast
  qed
qed

section \<open>Taking a block from the source\<close>

text \<open>
  Block sizes are kept congruent to 8 modulo 32 (a header of 24 bytes in front), so that a
  bound of that form on the request bounds the capacity.
\<close>

definition block_limit :: "nat \<Rightarrow> nat \<Rightarrow> bool" where
  "block_limit limit lim \<longleftrightarrow> lim mod 32 = 8 \<and> lim + 32 \<le> limit \<and> lim \<le> 2 ^ 29"

lemma block_bytes:
  assumes "block_limit limit lim" "unat sz \<le> lim"
  shows "\<exists>off n. byte_align_offset (sz + 24) 32 = Inr off \<and> unat (sz + 24 + off) = 32 * n \<and>
    unat sz + 24 \<le> 32 * n \<and> 32 * n < unat sz + 56 \<and> 32 * n \<le> lim + 24"
proof -
  have p: "pow2 32" unfolding pow2_def by (rule exI [of _ 5]) simp
  have b: "unat (sz + 24) = unat sz + 24"
    using assms by (subst unat_sum) (simp_all add: block_limit_def)
  obtain off where off: "byte_align_offset (sz + 24) 32 = Inr off" "unat off < 32"
    "32 dvd unat sz + 24 + unat off"
    using byte_align_offset_ok [OF p, of "sz + 24"] b by auto
  then obtain n where n: "unat sz + 24 + unat off = 32 * n" by (elim dvdE)
  have "unat (sz + 24 + off) = 32 * n"
    using assms off(2) n b by (subst unat_sum) (simp_all add: block_limit_def)
  moreover have "32 * n \<le> lim + 24"
  proof -
    obtain k where "lim = 32 * k + 8"
      using assms(1) by (metis block_limit_def mult_div_mod_eq)
    then show ?thesis using n off(2) assms(2) by presburger
  qed
  ultimately show ?thesis
    using off n by (intro exI [of _ off] exI [of _ n]) simp
qed

lemma arena_block:
  assumes "unat bytes = 32 * n" "unat bytes < 2 ^ 63"
  shows "arena_allocate src mb_sizeof 8 (bytes div mb_sizeof) s = src_allocate src bytes 8 s"
proof -
  have "unat (32 * (bytes div 32)) = 32 * n"
    using assms by (simp add: unat_word_ariths unat_div)
  then have "32 * (bytes div 32) = bytes"
    using assms(1) by (metis word_unat_eq_iff)
  moreover have "bytes mod 8 = 0"
    using assms(1) by (simp add: word_unat_eq_iff unat_mod mod_mult_left_eq)
  ultimately show ?thesis
    by (simp add: arena_allocate_def arena_allocate_raw_def mb_sizeof_def)
qed

context memory_source
begin

lemma allocate_block_ok:
  assumes "good s rs" "block_limit limit lim" "unat sz \<le> lim"
  shows "(\<exists>s'. lm_allocate_block src sz s = Some (Inr (None, s')) \<and> good s' rs) \<or>
    (\<exists>b s'. lm_allocate_block src sz s = Some (Inr (Some b, s')) \<and> block_ok lim b \<and>
      mb_size b = 0 \<and> unat sz \<le> unat (mb_capacity b) \<and> 24 \<le> unat (mb_data b) \<and>
      good s' (src_region b # rs) \<and> (\<forall>t\<in>set rs. apart (src_region b) t))"
proof -
  obtain off n where off: "byte_align_offset (sz + 24) 32 = Inr off" "unat (sz + 24 + off) = 32 * n"
    "unat sz + 24 \<le> 32 * n" "32 * n < unat sz + 56" "32 * n \<le> lim + 24"
    using block_bytes [OF assms(2,3)] by blast
  let ?T = "sz + 24 + off"
  have lim: "lim + 32 \<le> limit" "lim \<le> 2 ^ 29" using assms(2) by (auto simp: block_limit_def)
  have pow: "pow2 8" unfolding pow2_def by (rule exI [of _ 3]) simp
  have fit: "fits limit ?T 8" using off(2,5) lim pow by (simp add: fits_def)
  have arena: "arena_allocate src mb_sizeof 8 (?T div mb_sizeof) s = src_allocate src ?T 8 s"
    by (rule arena_block [OF off(2)]) (use off(2,5) lim in simp)
  have le: "(24 :: addr) \<le> ?T" using off(2,3) by (simp add: word_le_nat_alt)
  have cap: "unat (?T - 24) = 32 * n - 24" using unat_diff [OF le] off(2) by simp
  have asserts: "sz \<le> ?T - 24" "?T - 24 < sz + 32"
  proof -
    have "unat (sz + 32) = unat sz + 32" using assms(3) lim by (subst unat_sum) simp_all
    then show "sz \<le> ?T - 24" "?T - 24 < sz + 32"
      using cap off(3,4) by (simp_all add: word_le_nat_alt word_less_nat_alt)
  qed
  show ?thesis
  proof (cases rule: grantE [OF assms(1) fit])
    case (1 s')
    then show ?thesis
      by (simp add: lm_allocate_block_def Let_def mb_header_size_def mb_sizeof_def off(1)
        arena [unfolded mb_sizeof_def])
  next
    case (2 p s')
    let ?b = "\<lparr>mb_data = p + 24, mb_size = 0, mb_capacity = ?T - 24\<rparr>"
    have d: "unat (p + 24) = unat p + 24" using 2(3) by (subst unat_sum) simp_all
    have r: "src_region ?b = (unat p, unat ?T)"
      using d cap off(2,3) by (simp add: src_region_def)
    have "lm_allocate_block src sz s = Some (Inr (Some ?b, s'))"
      using 2(1) asserts
      by (simp add: lm_allocate_block_def Let_def mb_header_size_def mb_sizeof_def off(1)
        arena [unfolded mb_sizeof_def])
    moreover have "block_ok lim ?b"
      using cap d 2(3) off(2,3,5) by (simp add: block_ok_def word_less_nat_alt) presburger
    moreover have "unat sz \<le> unat (?T - 24)" using asserts(1) by (simp add: word_le_nat_alt)
    ultimately show ?thesis
      using 2(4,5) r d by (intro disjI2 exI [of _ ?b] exI [of _ s']) simp
  qed
qed

end

section \<open>Granting from a chain\<close>

lemma map_update_same: "i < length xs \<Longrightarrow> f x = f (xs ! i) \<Longrightarrow> map f (xs[i := x]) = map f xs"
  by (metis list_update_id map_update)

lemma sorted_wrt_apart_nth:
  "sorted_wrt apart rs \<Longrightarrow> i < length rs \<Longrightarrow> j < length rs \<Longrightarrow> i \<noteq> j \<Longrightarrow> apart (rs ! i) (rs ! j)"
  by (metis apart_sym nat_neq_iff sorted_wrt_iff_nth_less)

lemma lm_invD:
  assumes "lm_inv good lim base m rs"
  shows "lm_active m < length (lm_blocks m)" "block_ok lim (lm_blocks m ! lm_active m)"
    "\<And>b. b \<in> set (lm_blocks m) \<Longrightarrow> block_ok lim b" "sorted_wrt apart rs"
    "good (lm_state m) (rev (map src_region (tl (lm_blocks m))) @ base)"
  using assms by (auto simp: lm_inv_def)

lemma lm_inv_put:
  assumes inv: "lm_inv good lim base m rs"
    and b: "mb_data b = mb_data (lm_blocks m ! lm_active m)"
      "mb_capacity b = mb_capacity (lm_blocks m ! lm_active m)"
      "unat (mb_size (lm_blocks m ! lm_active m)) \<le> unat (mb_size b)" "block_ok lim b"
  shows "lm_inv good lim base (lm_put b m) rs"
proof -
  let ?xs = "lm_blocks m" and ?i = "lm_active m"
  have i: "?i < length ?xs" using inv by (rule lm_invD)
  note same = map_update_same [OF i]
  have keep: "map block_region (?xs[?i := b]) = map block_region ?xs"
    "map src_region (?xs[?i := b]) = map src_region ?xs" "map mb_data (?xs[?i := b]) = map mb_data ?xs"
    using b by (auto intro!: same simp: block_region_def src_region_def)
  have all: "\<forall>x\<in>set (?xs[?i := b]). block_ok lim x"
  proof
    fix x assume "x \<in> set (?xs[?i := b])"
    then have "x = b \<or> x \<in> set ?xs" by (meson insert_iff set_update_subset_insert subsetD)
    then show "block_ok lim x" using lm_invD(3) [OF inv] b(4) by blast
  qed
  have data: "\<forall>x\<in>set (tl (?xs[?i := b])). 24 \<le> unat (mb_data x)"
  proof -
    have "set (map mb_data (tl (?xs[?i := b]))) = set (map mb_data (tl ?xs))"
      by (simp only: map_tl keep(3))
    moreover have "\<forall>d\<in>set (map mb_data (tl ?xs)). 24 \<le> unat d"
      using inv by (simp add: lm_inv_def)
    ultimately have "\<forall>d\<in>set (map mb_data (tl (?xs[?i := b]))). 24 \<le> unat d"
      by (simp only:)
    then show ?thesis by simp
  qed
  have head: "block_region (hd (?xs[?i := b])) = block_region (hd ?xs)"
    using keep(1) i by (metis hd_map length_0_conv length_list_update list.size(3) not_less0)
  have used: "\<exists>x\<in>set (?xs[?i := b]). within r (used_region x)"
    if old: "\<exists>x\<in>set ?xs. within r (used_region x)" for r
  proof -
    from old obtain j where j: "j < length ?xs" "within r (used_region (?xs ! j))"
      by (auto simp: in_set_conv_nth)
    have "within (used_region (?xs ! j)) (used_region (?xs[?i := b] ! j))"
      using b j(1) by (cases "j = ?i") (auto simp: used_region_def within_def)
    then have "within r (used_region (?xs[?i := b] ! j))" using j(2) by (blast intro: within_trans)
    then show ?thesis using j(1) by (intro bexI) auto
  qed
  show ?thesis
    using inv i all data used keep head
    by (simp add: lm_inv_def lm_put_def map_tl)
qed

lemma lm_inv_grant:
  assumes inv: "lm_inv good lim base m rs"
    and b: "mb_data b = mb_data (lm_blocks m ! lm_active m)"
      "mb_capacity b = mb_capacity (lm_blocks m ! lm_active m)"
      "unat (mb_size (lm_blocks m ! lm_active m)) \<le> unat (mb_size b)" "block_ok lim b"
    and r: "unat (mb_data b) + unat (mb_size (lm_blocks m ! lm_active m)) \<le> unat p"
      "unat p + n = unat (mb_data b) + unat (mb_size b)"
  shows "(\<forall>t\<in>set rs. apart (unat p, n) t) \<and> lm_inv good lim base (lm_put b m) ((unat p, n) # rs)"
proof -
  let ?xs = "lm_blocks m" and ?i = "lm_active m"
  have i: "?i < length ?xs" using inv by (rule lm_invD)
  have wb: "within (unat p, n) (used_region b)"
    using r by (auto simp: within_def used_region_def)
  have ap: "apart (unat p, n) t" if t: "t \<in> set rs" for t
  proof -
    have "\<exists>x\<in>set ?xs. within t (used_region x)" using inv t by (simp add: lm_inv_def)
    then obtain j where j: "j < length ?xs" "within t (used_region (?xs ! j))"
      by (auto simp: in_set_conv_nth)
    show ?thesis
    proof (cases "j = ?i")
      case True
      with j r b show ?thesis by (auto simp: apart_def within_def used_region_def)
    next
      case False
      have "sorted_wrt apart (map block_region ?xs)" using inv by (simp add: lm_inv_def)
      then have "apart (block_region (?xs ! ?i)) (block_region (?xs ! j))"
        using sorted_wrt_apart_nth [of "map block_region ?xs" ?i j] i j(1) False by simp
      moreover have "block_region (?xs ! ?i) = block_region b"
        using b by (simp add: block_region_def)
      moreover have "within t (block_region (?xs ! j))"
        using j used_in_block lm_invD(3) [OF inv] by (meson nth_mem within_trans)
      moreover have "within (unat p, n) (block_region b)"
        using wb used_in_block [OF b(4)] by (rule within_trans)
      ultimately have "apart t (block_region b)"
        by (metis apart_sym apart_within)
      then show ?thesis using \<open>within (unat p, n) (block_region b)\<close> apart_within apart_sym by blast
    qed
  qed
  have "b \<in> set (lm_blocks (lm_put b m))"
    using i by (simp add: lm_put_def set_update_memI)
  then show ?thesis
    using lm_inv_put [OF inv b] wb ap by (auto simp: lm_inv_def)
qed

text \<open>What an allocation promises, for every buffer over a chain.\<close>

definition lm_granted ::
    "('s \<Rightarrow> region list \<Rightarrow> bool) \<Rightarrow> nat \<Rightarrow> region list \<Rightarrow> addr \<Rightarrow> addr \<Rightarrow> region list \<Rightarrow>
      addr option \<Rightarrow> 's lmem \<Rightarrow> bool" where
  "lm_granted good lim base len al rs r m = (case r of
     None \<Rightarrow> lm_inv good lim base m rs
   | Some p \<Rightarrow> unat al dvd unat p \<and> unat p + unat len \<le> 2 ^ 63 \<and>
       (\<forall>t\<in>set rs. apart (unat p, unat len) t) \<and> lm_inv good lim base m ((unat p, unat len) # rs))"

text \<open>One step of the loop: the active block grants the request, or nothing has changed.\<close>

lemma lm_step:
  assumes inv: "lm_inv good lim base m rs" and fit: "fits lim len al" and lim: "lim \<le> 2 ^ 29"
  shows "(\<exists>p b. allocate_from_block (lm_blocks m ! lm_active m) len al = Inr (Some p, b) \<and>
      lm_granted good lim base len al rs (Some p) (lm_put b m)) \<or>
    (allocate_from_block (lm_blocks m ! lm_active m) len al = Inr (None, lm_blocks m ! lm_active m) \<and>
      lm_put (lm_blocks m ! lm_active m) m = m \<and>
      unat (mb_capacity (lm_blocks m ! lm_active m)) <
        unat (mb_size (lm_blocks m ! lm_active m)) + unat len + unat al)"
proof -
  let ?b = "lm_blocks m ! lm_active m"
  have ok: "block_ok lim ?b" using inv by (rule lm_invD)
  have put: "lm_put ?b m = m" by (simp add: lm_put_def)
  from allocate_from_block_ok [OF ok fit lim] show ?thesis
  proof (elim disjE exE conjE)
    fix p b
    assume a: "allocate_from_block ?b len al = Inr (Some p, b)" "unat al dvd unat p"
      "mb_data b = mb_data ?b" "mb_capacity b = mb_capacity ?b" "block_ok lim b"
      "unat (mb_size ?b) \<le> unat (mb_size b)" "unat (mb_data ?b) + unat (mb_size ?b) \<le> unat p"
      "unat p + unat len = unat (mb_data ?b) + unat (mb_size b)"
    have "unat p + unat len \<le> 2 ^ 63"
      using a(3,5,8) by (auto simp: block_ok_def word_less_nat_alt)
    moreover have "(\<forall>t\<in>set rs. apart (unat p, unat len) t) \<and>
      lm_inv good lim base (lm_put b m) ((unat p, unat len) # rs)"
      by (rule lm_inv_grant [OF inv a(3,4,6,5)]) (use a(3,7,8) in simp_all)
    ultimately show ?thesis
      using a(1,2) by (auto simp: lm_granted_def)
  qed (use put in simp)
qed

lemma block_in_src: "24 \<le> unat (mb_data b) \<Longrightarrow> within (block_region b) (src_region b)"
  by (auto simp: within_def block_region_def src_region_def)

lemma lm_inv_append:
  assumes inv: "lm_inv good lim base m rs"
    and nb: "block_ok lim nb" "24 \<le> unat (mb_data nb)"
      "\<forall>t\<in>set (rev (map src_region (tl (lm_blocks m))) @ base). apart (src_region nb) t"
      "good s (src_region nb # rev (map src_region (tl (lm_blocks m))) @ base)"
  shows "lm_inv good lim base
    (m\<lparr>lm_blocks := lm_blocks m @ [nb], lm_active := Suc (lm_active m), lm_state := s\<rparr>) rs"
proof -
  have ne: "lm_blocks m \<noteq> []" using lm_invD(1) [OF inv] by auto
  have ap: "apart (block_region b) (block_region nb)" if b: "b \<in> set (lm_blocks m)" for b
  proof -
    have nbb: "within (block_region nb) (src_region nb)" using nb(2) by (rule block_in_src)
    have "\<exists>t\<in>set (rev (map src_region (tl (lm_blocks m))) @ base). within (block_region b) t"
    proof (cases "b = hd (lm_blocks m)")
      case True
      then show ?thesis using inv by (auto simp: lm_inv_def)
    next
      case False
      with b ne have t: "b \<in> set (tl (lm_blocks m))" by (metis list.exhaust_sel set_ConsD)
      then have "within (block_region b) (src_region b)"
        using inv by (intro block_in_src) (simp add: lm_inv_def)
      with t show ?thesis by auto
    qed
    then obtain t where "within (block_region b) t" "apart (src_region nb) t" using nb(3) by blast
    then have "apart (src_region nb) (block_region b)" by (blast intro: apart_within)
    with nbb show ?thesis by (meson apart_sym apart_within)
  qed
  show ?thesis
    using inv nb ne ap
    by (auto simp: lm_inv_def sorted_wrt_append)
qed

context memory_source
begin

lemma lm_allocate_ok:
  assumes "lm_inv good lim base m rs" "block_limit limit lim" "fits lim len al" "unat respace \<le> lim"
  shows "\<exists>r m'. lm_allocate src len al respace m = Some (Inr (r, m')) \<and>
    lm_granted good lim base len al rs r m'"
  using assms
proof (induction "length (lm_blocks m) - lm_active m" arbitrary: m rule: less_induct)
  case less
  let ?b = "lm_blocks m ! lm_active m"
  have inv: "lm_inv good lim base m rs" by (rule less.prems)
  have lim: "lim \<le> 2 ^ 29" using less.prems(2) by (simp add: block_limit_def)
  note i = lm_invD(1) [OF inv]
  from lm_step [OF inv less.prems(3) lim] show ?case
  proof (elim disjE exE conjE)
    fix p b
    assume "allocate_from_block ?b len al = Inr (Some p, b)"
      "lm_granted good lim base len al rs (Some p) (lm_put b m)"
    then show ?case by (simp add: lm_allocate.simps [of _ _ _ _ m])
  next
    assume none: "allocate_from_block ?b len al = Inr (None, ?b)" "lm_put ?b m = m"
    show ?case
    proof (cases "Suc (lm_active m) = length (lm_blocks m)")
      case False
      let ?m = "m\<lparr>lm_active := Suc (lm_active m)\<rparr>"
      have "lm_inv good lim base ?m rs" using inv i False by (simp add: lm_inv_def)
      with less.hyps [of ?m] less.prems i False
      show ?thesis by (simp add: lm_allocate.simps [of _ _ _ _ m] none)
    next
      case True
      let ?sz = "max (len + al) respace"
      have la: "unat (len + al) = unat len + unat al"
        using less.prems(3) lim by (subst unat_sum) (simp_all add: fits_def)
      have sz: "unat ?sz \<le> lim" "unat len + unat al \<le> unat ?sz"
        using la less.prems(3,4) by (auto simp: fits_def max_def word_le_nat_alt)
      have nbs: "next_memory_block_size (len + al) respace = Inr ?sz"
        using sz(1) lim by (simp add: next_memory_block_size_def Let_def word_le_nat_alt)
      have g: "good (lm_state m) (rev (map src_region (tl (lm_blocks m))) @ base)"
        using inv by (rule lm_invD)
      from allocate_block_ok [OF g less.prems(2) sz(1)] show ?thesis
      proof (elim disjE exE conjE)
        fix s'
        assume s': "lm_allocate_block src ?sz (lm_state m) = Some (Inr (None, s'))"
          "good s' (rev (map src_region (tl (lm_blocks m))) @ base)"
        have "lm_inv good lim base (m\<lparr>lm_state := s'\<rparr>) rs"
          using inv s'(2) by (simp add: lm_inv_def)
        then show ?thesis
          using s'(1) by (simp add: lm_allocate.simps [of _ _ _ _ m] none True nbs lm_granted_def)
      next
        fix nb s'
        assume nb: "lm_allocate_block src ?sz (lm_state m) = Some (Inr (Some nb, s'))"
          "block_ok lim nb" "mb_size nb = 0" "unat ?sz \<le> unat (mb_capacity nb)"
          "24 \<le> unat (mb_data nb)"
          "good s' (src_region nb # rev (map src_region (tl (lm_blocks m))) @ base)"
          "\<forall>t\<in>set (rev (map src_region (tl (lm_blocks m))) @ base). apart (src_region nb) t"
        let ?m = "m\<lparr>lm_blocks := lm_blocks m @ [nb], lm_active := Suc (lm_active m), lm_state := s'\<rparr>"
        have inv': "lm_inv good lim base ?m rs"
          by (rule lm_inv_append [OF inv nb(2,5,7,6)])
        have new: "lm_blocks ?m ! lm_active ?m = nb"
          using True by (simp add: nth_append)
        have enough: "\<not> unat (mb_capacity nb) < unat (mb_size nb) + unat len + unat al"
          using nb(3,4) sz(2) by simp
        obtain p b where pb: "allocate_from_block nb len al = Inr (Some p, b)"
          "lm_granted good lim base len al rs (Some p) (lm_put b ?m)"
          using lm_step [OF inv' less.prems(3) lim] unfolding new using enough by blast
        have "lm_allocate src len al respace ?m = Some (Inr (Some p, lm_put b ?m))"
          using pb(1) new by (simp add: lm_allocate.simps [of _ _ _ _ ?m])
        then show ?thesis
          using pb(2) nb(1) by (simp add: lm_allocate.simps [of _ _ _ _ m] none True nbs)
      qed
    qed
  qed
qed

end

section \<open>Rewinding and giving back\<close>

lemma apart_empty [simp]: "sorted_wrt apart []"
  by simp

lemma region_size_update [simp]:
  "block_region (b\<lparr>mb_size := n\<rparr>) = block_region b"
  "src_region (b\<lparr>mb_size := n\<rparr>) = src_region b"
  by (simp_all add: block_region_def src_region_def)

lemma block_ok_empty: "block_ok lim b \<Longrightarrow> block_ok lim (b\<lparr>mb_size := 0\<rparr>)"
  by (auto simp: block_ok_def word_less_nat_alt)

lemma lm_rewind_inv:
  assumes "lm_inv good lim base m rs"
  shows "lm_inv good lim base (lm_rewind m) []"
proof -
  have "lm_blocks m \<noteq> []" using lm_invD(1) [OF assms] by auto
  then show ?thesis
    using assms block_ok_empty
    by (simp add: lm_inv_def lm_rewind_def map_tl [symmetric] hd_map comp_def)
qed

lemma start_inv:
  assumes "block_ok lim b" "mb_size b = 0" "good s base" "t \<in> set base" "within (block_region b) t"
  shows "lm_inv good lim base \<lparr>lm_blocks = [b], lm_active = 0, lm_state = s\<rparr> []"
  using assms by (auto simp: lm_inv_def)

lemma mono_is_equal_granted:
  assumes "lm_inv good lim base m (rs @ (unat p, n) # rs')"
  shows "mono_is_equal m p"
proof -
  obtain b where b: "b \<in> set (lm_blocks m)" "within (unat p, n) (used_region b)"
    using assms by (auto simp: lm_inv_def)
  have ok: "block_ok lim b" using assms b(1) by (rule lm_invD)
  have end_addr: "unat (mb_data b + mb_capacity b) = unat (mb_data b) + unat (mb_capacity b)"
    using ok by (intro unat_sum) (simp add: block_ok_def)
  have "mb_is_equal b p"
    using b(2) ok end_addr
    by (simp add: mb_is_equal_def word_le_nat_alt word_less_nat_alt within_def used_region_def block_ok_def)
  then show ?thesis using b(1) by (auto simp: mono_is_equal_def list_ex_iff)
qed

lemma lm_inv_drop:
  "lm_inv good lim base m (rs @ r # rs') \<Longrightarrow> lm_inv good lim base m (rs @ rs')"
  by (auto simp: lm_inv_def sorted_wrt_append)

context memory_source
begin

lemma free_blocks_ok:
  "good s (rev (map src_region bs) @ base) \<Longrightarrow> \<forall>b\<in>set bs. 24 \<le> unat (mb_data b) \<Longrightarrow>
    \<exists>s'. lm_free_blocks src bs s = Inr s' \<and> good s' base"
proof (induction bs arbitrary: s)
  case (Cons b bs)
  have "unat (mb_data b - mb_header_size) = unat (mb_data b) - 24"
    using Cons.prems(2) by (subst unat_diff) (simp_all add: mb_header_size_def word_le_nat_alt)
  then have "src_region b = (unat (mb_data b - mb_header_size), unat (mb_capacity b) + 24)"
    by (simp add: src_region_def)
  then obtain s1 where "src_deallocate src (mb_data b - mb_header_size) s = Inr s1"
    "good s1 (rev (map src_region bs) @ base)"
    using give_back [of s "rev (map src_region bs)"] Cons.prems(1) by fastforce
  then show ?case
    using Cons.IH [of s1] Cons.prems(2) by (auto simp: lm_deallocate_block_def)
qed simp

lemma rewind_and_deallocate_ok:
  assumes "lm_inv good lim base m rs"
  shows "\<exists>m'. lm_rewind_and_deallocate src m = Inr m' \<and> lm_inv good lim base m' [] \<and>
    lm_blocks m' = [(hd (lm_blocks m))\<lparr>mb_size := 0\<rparr>] \<and> good (lm_state m') base"
proof -
  have "\<forall>b\<in>set (tl (lm_blocks m)). 24 \<le> unat (mb_data b)" using assms by (simp add: lm_inv_def)
  from free_blocks_ok [OF lm_invD(5) [OF assms] this]
  obtain s where s: "lm_free_blocks src (tl (lm_blocks m)) (lm_state m) = Inr s" "good s base" by blast
  let ?m = "m\<lparr>lm_blocks := [(hd (lm_blocks m))\<lparr>mb_size := 0\<rparr>], lm_active := 0, lm_state := s\<rparr>"
  have "hd (lm_blocks m) \<in> set (lm_blocks m)" using lm_invD(1) [OF assms] by (intro hd_in_set) auto
  then have "block_ok lim (hd (lm_blocks m))" using assms by (intro lm_invD(3))
  then have "block_ok lim ((hd (lm_blocks m))\<lparr>mb_size := 0\<rparr>)" by (rule block_ok_empty)
  moreover have "\<exists>t\<in>set base. within (block_region ((hd (lm_blocks m))\<lparr>mb_size := 0\<rparr>)) t"
    using assms by (simp add: lm_inv_def)
  ultimately have "lm_inv good lim base ?m []"
    using s(2) by (simp add: lm_inv_def)
  then show ?thesis
    using s by (intro exI [of _ ?m]) (simp add: lm_rewind_and_deallocate_def)
qed

end

text \<open>
  A monotonic resource over a source is a source itself, with blocks of at most \<open>lim\<close> bytes.
\<close>

locale linear_memory = memory_source good src limit
  for good :: "'s \<Rightarrow> region list \<Rightarrow> bool" and src :: "'s msource" and limit :: nat +
  fixes lim :: nat and base :: "region list"
  assumes lim: "block_limit limit lim"
begin

lemma mono_allocate_ok:
  assumes "lm_inv good lim base m rs" "fits lim len al"
  shows "\<exists>r m'. mono_allocate src len al m = Some (Inr (r, m')) \<and>
    lm_granted good lim base len al rs r m'"
proof -
  have "unat (lm_active_capacity m) \<le> lim"
    using lm_invD(2) [OF assms(1)] by (simp add: lm_active_capacity_def block_ok_def)
  then show ?thesis
    unfolding mono_allocate_def by (rule lm_allocate_ok [OF assms(1) lim assms(2)])
qed

end

sublocale linear_memory \<subseteq> mono: memory_source "lm_inv good lim base" "mono_source src" lim
proof unfold_locales
  fix m rs len al
  assume "lm_inv good lim base m rs" "fits lim len al"
  from mono_allocate_ok [OF this]
  show "\<exists>r m'. src_allocate (mono_source src) len al m = Some (Inr (r, m')) \<and>
    (case r of None \<Rightarrow> lm_inv good lim base m' rs
     | Some p \<Rightarrow> unat al dvd unat p \<and> unat p + unat len \<le> 2 ^ 63 \<and>
         (\<forall>t\<in>set rs. apart (unat p, unat len) t) \<and>
         lm_inv good lim base m' ((unat p, unat len) # rs))"
    by (simp add: mono_source_def lm_granted_def)
next
  fix m n rs rs' and p :: addr
  assume inv: "lm_inv good lim base m (rs @ (unat p, n) # rs')"
  show "\<exists>m'. src_deallocate (mono_source src) p m = Inr m' \<and> lm_inv good lim base m' (rs @ rs')"
    using mono_is_equal_granted [OF inv] lm_inv_drop [OF inv]
    by (simp add: mono_source_def mono_deallocate_def)
qed

section \<open>Runs of requests\<close>

text \<open>The answers of a source to a list of requests (length and alignment), one after the other.\<close>

fun allocate_all :: "'s msource \<Rightarrow> (addr \<times> addr) list \<Rightarrow> 's \<Rightarrow> (addr option list \<times> 's) run" where
  "allocate_all src [] s = Some (Inr ([], s))"
| "allocate_all src ((len, al) # reqs) s =
    bindO (src_allocate src len al s) (\<lambda>(p, s).
      bindO (allocate_all src reqs s) (\<lambda>(ps, s). Some (Inr (p # ps, s))))"

fun granted_regions :: "(addr \<times> addr) list \<Rightarrow> addr option list \<Rightarrow> region list" where
  "granted_regions ((len, al) # reqs) (Some p # ps) = (unat p, unat len) # granted_regions reqs ps"
| "granted_regions (_ # reqs) (None # ps) = granted_regions reqs ps"
| "granted_regions _ _ = []"

fun all_aligned :: "(addr \<times> addr) list \<Rightarrow> addr option list \<Rightarrow> bool" where
  "all_aligned ((len, al) # reqs) (Some p # ps) \<longleftrightarrow> unat al dvd unat p \<and> all_aligned reqs ps"
| "all_aligned (_ # reqs) (None # ps) \<longleftrightarrow> all_aligned reqs ps"
| "all_aligned reqs ps \<longleftrightarrow> reqs = [] \<and> ps = []"

context memory_source
begin

lemma allocate_all_ok:
  "good s rs \<Longrightarrow> \<forall>(len, al)\<in>set reqs. fits limit len al \<Longrightarrow>
    \<exists>ps s'. allocate_all src reqs s = Some (Inr (ps, s')) \<and> length ps = length reqs \<and>
      all_aligned reqs ps \<and> good s' (rev (granted_regions reqs ps) @ rs)"
proof (induction reqs arbitrary: s rs)
  case (Cons req reqs)
  obtain len al where req: "req = (len, al)" by (cases req)
  have fit: "fits limit len al" using Cons.prems(2) req by simp
  have rest: "\<forall>(len, al)\<in>set reqs. fits limit len al" using Cons.prems(2) by simp
  show ?case
  proof (cases rule: grantE [OF Cons.prems(1) fit])
    case (1 s')
    obtain ps s'' where "allocate_all src reqs s' = Some (Inr (ps, s''))" "length ps = length reqs"
      "all_aligned reqs ps" "good s'' (rev (granted_regions reqs ps) @ rs)"
      using Cons.IH [OF 1(2) rest] by blast
    then show ?thesis
      using 1(1) req by (intro exI [of _ "None # ps"] exI [of _ s'']) simp
  next
    case (2 p s')
    obtain ps s'' where "allocate_all src reqs s' = Some (Inr (ps, s''))" "length ps = length reqs"
      "all_aligned reqs ps" "good s'' (rev (granted_regions reqs ps) @ (unat p, unat len) # rs)"
      using Cons.IH [OF 2(5) rest] by blast
    then show ?thesis
      using 2(1,2) req by (intro exI [of _ "Some p # ps"] exI [of _ s'']) simp
  qed
qed simp

end

text \<open>
  A source that has nothing left, as \<^verbatim>\<open>malloc\<close> may be: a monotonic resource over it lives
  off its own block.  A resource may also take its blocks from another resource.
\<close>

definition exhausted_source :: "'s msource" where
  "exhausted_source = \<lparr>src_allocate = (\<lambda>_ _ s. Some (Inr (None, s))), src_deallocate = (\<lambda>_ s. Inr s)\<rparr>"

lemma exhausted_memory:
  "block_limit limit lim \<Longrightarrow> linear_memory (\<lambda>_ _. True) exhausted_source limit lim"
  by unfold_locales (auto simp: exhausted_source_def)

interpretation own_block: linear_memory "\<lambda>(_ :: unit) _. True" exhausted_source "2 ^ 28 + 40" "2 ^ 28 + 8" base
  for base :: "region list"
  by (rule exhausted_memory) (simp add: block_limit_def)

interpretation nested: linear_memory "lm_inv (\<lambda>(_ :: unit) _. True) (2 ^ 28 + 8) base"
  "mono_source exhausted_source" "2 ^ 28 + 8" "2 ^ 20 + 8" base'
  for base :: "region list" and base' :: "region list"
  by unfold_locales (simp add: block_limit_def)

lemma mono_new_inv:
  assumes "0 < n" "unat n \<le> lim" "unat start + unat n \<le> 2 ^ 63" "good s base"
    "(unat start, unat n) \<in> set base"
  shows "lm_inv good lim base (mono_new start n s) []"
  unfolding mono_new_def
  by (rule lm_rewind_inv, rule start_inv)
    (use assms in \<open>auto simp: block_ok_def block_region_def intro: bexI [of _ "(unat start, unat n)"]\<close>)

context linear_memory
begin

lemma mono_is_source: "memory_source (lm_inv good lim base) (mono_source src) lim"
  by (rule mono.memory_source_axioms)

end

section \<open>Properties of the monotonic resource\<close>



section \<open>Virtual memory buffers\<close>

text \<open>
  \<^verbatim>\<open>VirtualMemoryBuffer\<close> hands out a reserved range of the address space and commits it as
  it grows; what does not fit comes from the global allocator (the source) with alignment 64.
  The root address and the success of the commits are the operating system's.
\<close>

record 's vmem =
  vm_root :: addr
  vm_reserved :: addr
  vm_used :: addr
  vm_committed :: addr
  vm_state :: 's

definition vm_fallback :: "'s msource \<Rightarrow> addr \<Rightarrow> 's vmem \<Rightarrow> (addr option \<times> 's vmem) run" where
  "vm_fallback src len m =
    bindO (src_allocate src len 64 (vm_state m)) (\<lambda>(p, s). Some (Inr (p, m\<lparr>vm_state := s\<rparr>)))"

definition vm_allocate :: "'s msource \<Rightarrow> addr \<Rightarrow> addr \<Rightarrow> 's vmem \<Rightarrow> (addr option \<times> 's vmem) run" where
  "vm_allocate src len al m =
    (if vm_root m \<noteq> 0
     then bindO (Some (align_address (vm_root m + vm_used m) al)) (\<lambda>p.
       let m = m\<lparr>vm_used := (p - vm_root m) + len + al\<rparr> in
       if vm_used m \<le> vm_reserved m
       then Some (Inr (Some p, m\<lparr>vm_committed := vm_used m\<rparr>))
       else vm_fallback src len m)
     else vm_fallback src len m)"

definition vm_deallocate :: "'s msource \<Rightarrow> addr \<Rightarrow> 's vmem \<Rightarrow> 's vmem res" where
  "vm_deallocate src p m =
    (if p < vm_root m \<or> vm_root m + vm_reserved m < p
     then bindR (src_deallocate src p (vm_state m)) (\<lambda>s. Inr (m\<lparr>vm_state := s\<rparr>))
     else Inr m)"

definition vm_ok :: "'s vmem \<Rightarrow> bool" where
  "vm_ok m \<longleftrightarrow> vm_root m \<noteq> 0 \<and> unat (vm_root m) + unat (vm_reserved m) \<le> 2 ^ 61 \<and>
    unat (vm_used m) \<le> 2 ^ 62"

text \<open>Where the next request lands: the first aligned address behind what is used.\<close>

lemma vm_position:
  assumes "vm_ok m" "fits (2 ^ 61) len al"
  shows "\<exists>p. align_address (vm_root m + vm_used m) al = Inr p \<and> unat al dvd unat p \<and>
    unat (vm_root m) + unat (vm_used m) \<le> unat p \<and>
    unat p < unat (vm_root m) + unat (vm_used m) + unat al \<and>
    unat (p - vm_root m + len + al) = unat p - unat (vm_root m) + unat len + unat al"
proof -
  have ru: "unat (vm_root m + vm_used m) = unat (vm_root m) + unat (vm_used m)"
    using assms(1) by (intro unat_sum) (simp add: vm_ok_def)
  have al: "pow2 al" "unat len + unat al \<le> 2 ^ 61" using assms(2) by (simp_all add: fits_def)
  obtain p where p: "align_address (vm_root m + vm_used m) al = Inr p" "unat al dvd unat p"
    "unat (vm_root m) + unat (vm_used m) \<le> unat p"
    "unat p < unat (vm_root m) + unat (vm_used m) + unat al"
    using align_address_ok [OF al(1), of "vm_root m + vm_used m"] ru assms(1) al(2)
    by (auto simp: vm_ok_def)
  have d: "unat (p - vm_root m) = unat p - unat (vm_root m)"
    using p(3) by (intro unat_diff) (simp add: word_le_nat_alt)
  have bound: "unat p - unat (vm_root m) < 2 ^ 62 + 2 ^ 61"
    using p(4) al(2) assms(1) unfolding vm_ok_def by linarith
  have l: "unat (p - vm_root m + len) = unat p - unat (vm_root m) + unat len"
    using d bound al(2) by (subst unat_sum) simp_all
  have "unat (p - vm_root m + len + al) = unat p - unat (vm_root m) + unat len + unat al"
    using l bound al(2) by (subst unat_sum) simp_all
  then show ?thesis using p by blast
qed

lemma vm_allocate_inside:
  assumes "vm_ok m" "fits (2 ^ 61) len al" "unat (vm_used m) + unat len + 2 * unat al \<le> unat (vm_reserved m)"
  shows "\<exists>p m'. vm_allocate src len al m = Some (Inr (Some p, m')) \<and> unat al dvd unat p \<and>
    unat (vm_root m) + unat (vm_used m) \<le> unat p \<and>
    unat p + unat len \<le> unat (vm_root m) + unat (vm_committed m') \<and>
    vm_committed m' = vm_used m' \<and> vm_used m' \<le> vm_reserved m \<and> vm_ok m'"
proof -
  obtain p where p: "align_address (vm_root m + vm_used m) al = Inr p" "unat al dvd unat p"
    "unat (vm_root m) + unat (vm_used m) \<le> unat p"
    "unat p < unat (vm_root m) + unat (vm_used m) + unat al"
    "unat (p - vm_root m + len + al) = unat p - unat (vm_root m) + unat len + unat al"
    using vm_position [OF assms(1,2)] by blast
  have le: "p - vm_root m + len + al \<le> vm_reserved m"
    using p(3,4,5) assms(3) by (simp add: word_le_nat_alt)
  let ?m = "m\<lparr>vm_used := p - vm_root m + len + al, vm_committed := p - vm_root m + len + al\<rparr>"
  have "vm_allocate src len al m = Some (Inr (Some p, ?m))"
    using assms(1) p(1) le by (simp add: vm_allocate_def vm_ok_def Let_def)
  moreover have "vm_ok ?m"
    using assms(1) le by (simp add: vm_ok_def word_le_nat_alt)
  ultimately show ?thesis
    using p(2,3,5) le by (intro exI [of _ p] exI [of _ ?m]) simp
qed

lemma vm_allocate_outside:
  assumes "vm_ok m" "fits (2 ^ 61) len al" "unat (vm_reserved m) < unat (vm_used m) + unat len + unat al"
  shows "\<exists>u. vm_allocate src len al m = vm_fallback src len (m\<lparr>vm_used := u\<rparr>) \<and>
    unat (vm_reserved m) < unat u \<and> unat u \<le> unat (vm_used m) + unat len + 2 * unat al"
proof -
  obtain p where p: "align_address (vm_root m + vm_used m) al = Inr p"
    "unat (vm_root m) + unat (vm_used m) \<le> unat p"
    "unat p < unat (vm_root m) + unat (vm_used m) + unat al"
    "unat (p - vm_root m + len + al) = unat p - unat (vm_root m) + unat len + unat al"
    using vm_position [OF assms(1,2)] by blast
  have gt: "unat (vm_reserved m) < unat (p - vm_root m + len + al)"
    using p(2,4) assms(3) by linarith
  then have "vm_allocate src len al m = vm_fallback src len (m\<lparr>vm_used := p - vm_root m + len + al\<rparr>)"
    using assms(1) p(1) by (simp add: vm_allocate_def vm_ok_def Let_def word_le_nat_alt)
  then show ?thesis using gt p(2-4) by (intro exI [of _ "p - vm_root m + len + al"]) simp
qed

text \<open>
  one request that does not fit takes the whole reservation out of use: the buffer advances
  its fill position before it checks the room and does not step back, so every later request,
  however small, is answered by the global allocator although the reserved range is unused.
\<close>

theorem oversize_request_disables_reservation:
  assumes "vm_ok m" "vm_used m \<le> vm_reserved m" "fits (2 ^ 60) len al"
    "unat (vm_reserved m) < unat (vm_used m) + unat len" "fits (2 ^ 60) len' al'"
  shows "\<exists>u. vm_allocate src len al m = vm_fallback src len (m\<lparr>vm_used := u\<rparr>) \<and>
    (\<forall>s. \<exists>u'. vm_allocate src len' al' (m\<lparr>vm_used := u, vm_state := s\<rparr>) =
      vm_fallback src len' (m\<lparr>vm_state := s, vm_used := u'\<rparr>))"
proof -
  have used: "unat (vm_used m) \<le> 2 ^ 61"
    using assms(1,2) by (simp add: vm_ok_def word_le_nat_alt)
  have small: "fits (2 ^ 61) len al" "fits (2 ^ 61) len' al'" "unat len + unat al \<le> 2 ^ 60"
    using assms(3,5) by (simp_all add: fits_def)
  obtain u where u: "vm_allocate src len al m = vm_fallback src len (m\<lparr>vm_used := u\<rparr>)"
    "unat (vm_reserved m) < unat u" "unat u \<le> unat (vm_used m) + unat len + 2 * unat al"
    using vm_allocate_outside [OF assms(1) small(1)] assms(4) by auto
  have "vm_ok (m\<lparr>vm_used := u, vm_state := s\<rparr>)" for s
    using assms(1) u(3) used small(3) by (simp add: vm_ok_def)
  then have "\<exists>u'. vm_allocate src len' al' (m\<lparr>vm_used := u, vm_state := s\<rparr>) =
      vm_fallback src len' (m\<lparr>vm_state := s, vm_used := u'\<rparr>)" for s
    using vm_allocate_outside [of "m\<lparr>vm_used := u, vm_state := s\<rparr>" len' al' src] small(2) u(2)
    by (simp add: trans_less_add1) blast
  then show ?thesis using u(1) by blast
qed

lemma oversize_request_disables_reservation_witness:
  "\<exists>u u'. vm_allocate exhausted_source 2000 8 \<lparr>vm_root = 65536, vm_reserved = 1024, vm_used = 0,
      vm_committed = 0, vm_state = ()\<rparr> =
      vm_fallback exhausted_source 2000 \<lparr>vm_root = 65536, vm_reserved = 1024, vm_used = u,
      vm_committed = 0, vm_state = ()\<rparr> \<and>
    vm_allocate exhausted_source 8 8 \<lparr>vm_root = 65536, vm_reserved = 1024, vm_used = u,
      vm_committed = 0, vm_state = ()\<rparr> =
      vm_fallback exhausted_source 8 \<lparr>vm_root = 65536, vm_reserved = 1024, vm_used = u',
      vm_committed = 0, vm_state = ()\<rparr>"
proof -
  let ?m = "\<lparr>vm_root = 65536, vm_reserved = 1024, vm_used = 0, vm_committed = 0, vm_state = ()\<rparr>"
  have "pow2 8" unfolding pow2_def by (rule exI [of _ 3]) simp
  then show ?thesis
    using oversize_request_disables_reservation [of ?m 2000 8 8 8 exhausted_source]
    by (simp add: vm_ok_def fits_def)
qed

end
