(* ===== verification/ObjectPools.thy ===== *)
theory ObjectPools
  imports LinearMemory
begin

text \<open>
  \<^verbatim>\<open>memory/ObjectPool.h\<close>: a cache of equally sized objects over a local linear buffer.
  A node's storage is a union of the object and the link to the next free node, so the pool's
  memory is a map from node addresses to \<open>onode\<close>, and the free list is a chain through it.
  \<^verbatim>\<open>Acquire\<close> carves new nodes when the list is empty, \<^verbatim>\<open>Release\<close> destroys the
  object and puts its node back, \<^verbatim>\<open>Purge\<close> counts the free nodes off, so that the
  destructor can tell a leak.
\<close>

section \<open>State and operations\<close>

datatype 'a onode = NextFree "addr option" | Object 'a

record ('a, 's) opool =
  op_free :: "addr option"
  op_nodes :: "addr \<rightharpoonup> 'a onode"
  op_buffer :: "'s lmem"
  op_alloc_size :: addr
  op_max :: addr
  op_total :: addr

text \<open>The template argument enters by the size and the alignment of a node.\<close>

record node_type =
  nt_size :: addr
  nt_align :: addr

definition op_new :: "'s msource \<Rightarrow> node_type \<Rightarrow> addr \<Rightarrow> addr \<Rightarrow> 's \<Rightarrow> ('a, 's) opool run" where
  "op_new src nt initial mx s =
    bindO (local_new src (initial * nt_size nt) s) (\<lambda>b.
      assertO (initial \<le> mx)
        (Some (Inr \<lparr>op_free = None, op_nodes = Map.empty, op_buffer = b, op_alloc_size = initial,
                    op_max = mx, op_total = 0\<rparr>)))"

definition op_acquire_node :: "('a, 's) opool \<Rightarrow> (addr \<times> ('a, 's) opool) res" where
  "op_acquire_node p = (case op_free p of
     None \<Rightarrow> Inl BadAccess
   | Some n \<Rightarrow> (case op_nodes p n of
       Some (NextFree nx) \<Rightarrow> Inr (n, p\<lparr>op_free := nx\<rparr>)
     | _ \<Rightarrow> Inl BadAccess))"

definition op_release_node :: "addr \<Rightarrow> ('a, 's) opool \<Rightarrow> ('a, 's) opool" where
  "op_release_node n p = p\<lparr>op_nodes := (op_nodes p)(n \<mapsto> NextFree (op_free p)), op_free := Some n\<rparr>"

fun op_carve :: "'s msource \<Rightarrow> node_type \<Rightarrow> addr \<Rightarrow> nat \<Rightarrow> ('a, 's) opool \<Rightarrow> ('a, 's) opool run" where
  "op_carve src nt respace 0 p = Some (Inr p)"
| "op_carve src nt respace (Suc k) p =
    bindO (local_allocate src (nt_size nt) (nt_align nt) respace (op_buffer p)) (\<lambda>(n, b).
      let p = p\<lparr>op_buffer := b\<rparr> in
      case n of
        None \<Rightarrow> Some (Inr p)
      | Some n \<Rightarrow>
          let p = p\<lparr>op_total := op_total p + 1\<rparr> in
          assertO (n mod nt_align nt = 0)
            (op_carve src nt respace k (op_release_node n p)))"

text \<open>The least size of the next block, in bytes.\<close>

definition op_step :: "node_type \<Rightarrow> ('a, 's) opool \<Rightarrow> addr" where
  "op_step nt p = min (op_max p) (op_alloc_size p * 2) * nt_size nt"

definition op_allocate_free :: "'s msource \<Rightarrow> node_type \<Rightarrow> addr \<Rightarrow> ('a, 's) opool \<Rightarrow> ('a, 's) opool run" where
  "op_allocate_free src nt num p =
    op_carve src nt (op_step nt p) (unat num) p"

definition op_acquire ::
    "'s msource \<Rightarrow> node_type \<Rightarrow> 'a \<Rightarrow> ('a, 's) opool \<Rightarrow> (addr option \<times> ('a, 's) opool) run" where
  "op_acquire src nt x p =
    bindO (if op_free p = None
           then bindO (op_allocate_free src nt (op_alloc_size p) p) (\<lambda>p.
                  if op_free p = None then Some (Inr p)
                  else Some (Inr (p\<lparr>op_alloc_size := min (op_max p) (op_alloc_size p * 2)\<rparr>)))
           else Some (Inr p)) (\<lambda>p.
      if op_free p = None then Some (Inr (None, p))
      else bindO (Some (op_acquire_node p)) (\<lambda>(n, p).
             Some (Inr (Some n, p\<lparr>op_nodes := (op_nodes p)(n \<mapsto> Object x)\<rparr>))))"

definition op_release :: "addr \<Rightarrow> ('a, 's) opool \<Rightarrow> ('a, 's) opool res" where
  "op_release n p = (case op_nodes p n of
     Some (Object x) \<Rightarrow> Inr (op_release_node n p)
   | _ \<Rightarrow> Inl BadAccess)"

partial_function (option) op_purge :: "('a, 's) opool \<Rightarrow> ('a, 's) opool run" where
  "op_purge p =
    (if op_free p = None then Some (Inr p)
     else assertO (0 < op_total p)
       (bindO (Some (op_acquire_node p)) (\<lambda>(n, p). op_purge (p\<lparr>op_total := op_total p - 1\<rparr>))))"

definition op_delete :: "'s msource \<Rightarrow> ('a, 's) opool \<Rightarrow> 's run" where
  "op_delete src p =
    bindO (op_purge p) (\<lambda>p. assertO (op_total p = 0) (Some (local_delete src (op_buffer p))))"

section \<open>Free lists and live objects\<close>

primrec free_list :: "(addr \<rightharpoonup> 'a onode) \<Rightarrow> addr option \<Rightarrow> addr list \<Rightarrow> bool" where
  "free_list h p [] \<longleftrightarrow> p = None"
| "free_list h p (n # ns) \<longleftrightarrow> p = Some n \<and> (\<exists>q. h n = Some (NextFree q) \<and> free_list h q ns)"

definition op_live :: "('a, 's) opool \<Rightarrow> addr \<rightharpoonup> 'a" where
  "op_live p = (\<lambda>n. case op_nodes p n of Some (Object x) \<Rightarrow> Some x | _ \<Rightarrow> None)"

lemma free_list_update: "n \<notin> set ns \<Longrightarrow> free_list (h(n \<mapsto> v)) p ns = free_list h p ns"
  by (induction ns arbitrary: p) auto

lemma free_list_None: "free_list h None ns \<longleftrightarrow> ns = []"
  by (cases ns) auto

lemma free_list_Some: "free_list h (Some n) ns \<longleftrightarrow>
    (\<exists>ns' q. ns = n # ns' \<and> h n = Some (NextFree q) \<and> free_list h q ns')"
  by (cases ns) auto

lemma free_list_not_live: "free_list (op_nodes p) q ns \<Longrightarrow> n \<in> set ns \<Longrightarrow> op_live p n = None"
  by (induction ns arbitrary: q) (auto simp: op_live_def)

lemma free_list_dom: "free_list h q ns \<Longrightarrow> set ns \<subseteq> dom h"
  by (induction ns arbitrary: q) auto

text \<open>
  The invariant: the regions granted by the buffer are the nodes, all aligned; the free list
  is a chain of distinct nodes; \<^verbatim>\<open>mTotalAllocations\<close> counts the free and the live nodes.
\<close>

definition node_regions :: "node_type \<Rightarrow> addr list \<Rightarrow> region list" where
  "node_regions nt ns = map (\<lambda>n. (unat n, unat (nt_size nt))) ns"

definition op_inv ::
    "('s \<Rightarrow> region list \<Rightarrow> bool) \<Rightarrow> nat \<Rightarrow> region list \<Rightarrow> node_type \<Rightarrow> ('a, 's) opool \<Rightarrow> bool" where
  "op_inv good lim base nt p \<longleftrightarrow>
    fits lim (nt_size nt) (nt_align nt) \<and> 0 < nt_size nt \<and>
    op_alloc_size p \<le> op_max p \<and>
    (\<exists>all. dom (op_nodes p) = set all \<and> lm_inv good lim base (op_buffer p) (node_regions nt all) \<and>
       (\<forall>n\<in>set all. unat (nt_align nt) dvd unat n)) \<and>
    (\<exists>ns. free_list (op_nodes p) (op_free p) ns \<and> distinct ns \<and>
       op_total p = of_nat (length ns + card (dom (op_live p))))"

lemma dom_live: "dom (op_live p) \<subseteq> dom (op_nodes p)"
  by (auto simp: op_live_def split: option.splits onode.splits)

lemma op_inv_finite: "op_inv good lim base nt p \<Longrightarrow> finite (dom (op_live p))"
  using dom_live by (metis List.finite_set finite_subset op_inv_def)

text \<open>Live objects have distinct, disjoint and aligned storage.\<close>

lemma op_storage:
  assumes "op_inv good lim base nt p" "n \<in> dom (op_nodes p)" "k \<in> dom (op_nodes p)" "n \<noteq> k"
  shows "apart (unat n, unat (nt_size nt)) (unat k, unat (nt_size nt))"
proof -
  obtain all where all: "dom (op_nodes p) = set all"
    "lm_inv good lim base (op_buffer p) (node_regions nt all)"
    using assms(1) by (auto simp: op_inv_def)
  obtain i j where ij: "i < length all" "all ! i = n" "j < length all" "all ! j = k"
    using assms(2,3) all(1) by (metis in_set_conv_nth)
  have "i \<noteq> j" using ij assms(4) by auto
  with sorted_wrt_apart_nth [OF lm_invD(4) [OF all(2)], of i j] ij
  show ?thesis by (simp add: node_regions_def)
qed

section \<open>Node lists\<close>

lemma op_acquire_node_ok:
  assumes "op_inv good lim base nt p" "op_free p = Some n"
  shows "\<exists>p'. op_acquire_node p = Inr (n, p') \<and> op_nodes p' = op_nodes p \<and> op_total p' = op_total p \<and>
    op_alloc_size p' = op_alloc_size p \<and> op_max p' = op_max p \<and> op_buffer p' = op_buffer p \<and>
    op_live p n = None \<and> n \<in> dom (op_nodes p) \<and>
    (\<exists>ns. free_list (op_nodes p) (op_free p') ns \<and> distinct ns \<and> n \<notin> set ns \<and>
       op_total p = of_nat (Suc (length ns) + card (dom (op_live p))))"
proof -
  obtain ns where ns: "free_list (op_nodes p) (op_free p) ns" "distinct ns"
    "op_total p = of_nat (length ns + card (dom (op_live p)))"
    using assms(1) by (auto simp: op_inv_def)
  obtain ns' q where q: "ns = n # ns'" "op_nodes p n = Some (NextFree q)" "free_list (op_nodes p) q ns'"
    using ns(1) assms(2) by (auto simp: free_list_Some)
  show ?thesis
    using q ns assms(2)
    by (intro exI [of _ "p\<lparr>op_free := q\<rparr>"]) (auto simp: op_acquire_node_def op_live_def intro!: exI [of _ ns'])
qed

text \<open>A node that is not in use may be put on the free list.\<close>

lemma op_live_release: "op_live (op_release_node n p) = (op_live p)(n := None)"
  by (auto simp: op_release_node_def op_live_def)

lemma op_live_insert: "op_live (p\<lparr>op_nodes := (op_nodes p)(n \<mapsto> Object x)\<rparr>) = (op_live p)(n \<mapsto> x)"
  by (auto simp: op_live_def)

lemma apart_self: "apart (a, n) (a, n) \<longleftrightarrow> n = 0"
  by (auto simp: apart_def)

lemma word_mod_0_iff: "(n :: addr) mod k = 0 \<longleftrightarrow> unat k dvd unat n"
  by (simp add: word_unat_eq_iff unat_mod dvd_eq_mod_eq_0)

text \<open>Putting a freshly granted node on the free list.\<close>

lemma op_add_node:
  assumes inv: "op_inv good lim base nt p"
    and all: "dom (op_nodes p) = set all" "\<forall>k\<in>set all. unat (nt_align nt) dvd unat k"
    and new: "unat (nt_align nt) dvd unat n" "\<forall>t\<in>set (node_regions nt all). apart (unat n, unat (nt_size nt)) t"
      "lm_inv good lim base b ((unat n, unat (nt_size nt)) # node_regions nt all)"
  shows "op_inv good lim base nt
      (op_release_node n (p\<lparr>op_buffer := b, op_total := op_total p + 1\<rparr>)) \<and>
    op_live (op_release_node n (p\<lparr>op_buffer := b, op_total := op_total p + 1\<rparr>)) = op_live p"
proof -
  let ?p = "op_release_node n (p\<lparr>op_buffer := b, op_total := op_total p + 1\<rparr>)"
  have size: "0 < unat (nt_size nt)" using inv unfolding op_inv_def word_less_nat_alt by simp
  have fresh: "n \<notin> set all"
  proof
    assume "n \<in> set all"
    then have "(unat n, unat (nt_size nt)) \<in> set (node_regions nt all)" by (auto simp: node_regions_def)
    with new(2) have "apart (unat n, unat (nt_size nt)) (unat n, unat (nt_size nt))" by blast
    with size show False by (simp add: apart_self)
  qed
  obtain ns where ns: "free_list (op_nodes p) (op_free p) ns" "distinct ns"
    "op_total p = of_nat (length ns + card (dom (op_live p)))"
    using inv by (auto simp: op_inv_def)
  have nin: "n \<notin> set ns" "n \<notin> dom (op_live p)"
    using free_list_dom [OF ns(1)] dom_live [of p] all(1) fresh by auto
  have live: "op_live ?p = op_live p"
    using nin(2) by (auto simp: op_release_node_def op_live_def)
  have "op_nodes ?p = (op_nodes p)(n \<mapsto> NextFree (op_free p))" "op_free ?p = Some n"
    "op_total ?p = op_total p + 1" "op_buffer ?p = b" "op_max ?p = op_max p"
    "op_alloc_size ?p = op_alloc_size p"
    by (simp_all add: op_release_node_def)
  moreover have "free_list ((op_nodes p)(n \<mapsto> NextFree (op_free p))) (Some n) (n # ns)"
    using ns(1) nin(1) by (simp add: free_list_update)
  moreover have "dom (op_nodes ?p) = set (n # all)"
    using all(1) by (auto simp: op_release_node_def)
  moreover have "lm_inv good lim base b (node_regions nt (n # all))"
    using new(3) by (simp add: node_regions_def)
  moreover have "\<forall>k\<in>set (n # all). unat (nt_align nt) dvd unat k" using new(1) all(2) by simp
  moreover have "op_total p + 1 = of_nat (length (n # ns) + card (dom (op_live ?p)))"
    using ns(3) live by simp
  moreover have "distinct (n # ns)" using ns(2) nin(1) by simp
  ultimately have "op_inv good lim base nt ?p"
    using inv unfolding op_inv_def by metis
  then show ?thesis using live by blast
qed

lemma op_inv_buffer:
  assumes "op_inv good lim base nt p" "dom (op_nodes p) = set all"
    "\<forall>k\<in>set all. unat (nt_align nt) dvd unat k" "lm_inv good lim base b (node_regions nt all)"
  shows "op_inv good lim base nt (p\<lparr>op_buffer := b\<rparr>)"
  using assms unfolding op_inv_def by (auto simp: op_live_def)

context linear_memory
begin

text \<open>With a least block size above 512 MB the buffer serves from the blocks it has, or fails.\<close>

lemma lm_allocate_big:
  assumes "lm_inv good lim base m rs" "fits lim len al" "2 ^ 29 < unat respace"
  shows "lm_allocate src len al respace m = Some (Inl AssertFail) \<or>
    (\<exists>r m'. lm_allocate src len al respace m = Some (Inr (r, m')) \<and> lm_granted good lim base len al rs r m')"
  using assms
proof (induction "length (lm_blocks m) - lm_active m" arbitrary: m rule: less_induct)
  case less
  let ?b = "lm_blocks m ! lm_active m"
  have inv: "lm_inv good lim base m rs" by (rule less.prems)
  have small: "lim \<le> 2 ^ 29" using lim by (simp add: block_limit_def)
  note i = lm_invD(1) [OF inv]
  from lm_step [OF inv less.prems(2) small] show ?case
  proof (elim disjE exE conjE)
    fix p b
    assume "allocate_from_block ?b len al = Inr (Some p, b)"
      "lm_granted good lim base len al rs (Some p) (lm_put b m)"
    then show ?case by (simp add: lm_allocate.simps [of _ _ _ _ m])
  next
    assume none: "allocate_from_block ?b len al = Inr (None, ?b)" "lm_put ?b m = m"
    show ?case
    proof (cases "Suc (lm_active m) = length (lm_blocks m)")
      case False
      let ?m = "m\<lparr>lm_active := Suc (lm_active m)\<rparr>"
      have "lm_inv good lim base ?m rs" using inv i False by (simp add: lm_inv_def)
      with less.hyps [of ?m] less.prems i False
      show ?thesis by (simp add: lm_allocate.simps [of _ _ _ _ m] none)
    next
      case True
      have "2 ^ 29 < unat (max (len + al) respace)" using less.prems(3) by (auto simp: max_def word_le_nat_alt)
      then have "next_memory_block_size (len + al) respace = Inl AssertFail"
        by (simp add: next_memory_block_size_def Let_def word_le_nat_alt assertR_def)
      then show ?thesis by (simp add: lm_allocate.simps [of _ _ _ _ m] none True)
    qed
  qed
qed

lemma op_carve_ok:
  assumes "op_inv good lim base nt p" "unat respace \<le> lim \<or> 2 ^ 29 < unat respace"
  shows "op_carve src nt respace k p = Some (Inl AssertFail) \<and> 2 ^ 29 < unat respace \<or>
    (\<exists>p'. op_carve src nt respace k p = Some (Inr p') \<and> op_inv good lim base nt p' \<and>
      op_live p' = op_live p \<and> op_alloc_size p' = op_alloc_size p \<and> op_max p' = op_max p)"
  using assms(1)
proof (induction k arbitrary: p)
  case (Suc k)
  obtain all where all: "dom (op_nodes p) = set all" "\<forall>n\<in>set all. unat (nt_align nt) dvd unat n"
    "lm_inv good lim base (op_buffer p) (node_regions nt all)"
    using Suc.prems by (auto simp: op_inv_def)
  have fit: "fits lim (nt_size nt) (nt_align nt)" using Suc.prems by (simp add: op_inv_def)
  have "lm_allocate src (nt_size nt) (nt_align nt) respace (op_buffer p) = Some (Inl AssertFail) \<and> 2 ^ 29 < unat respace \<or>
    (\<exists>r b. lm_allocate src (nt_size nt) (nt_align nt) respace (op_buffer p) = Some (Inr (r, b)) \<and>
      lm_granted good lim base (nt_size nt) (nt_align nt) (node_regions nt all) r b)"
    using assms(2) lm_allocate_ok [OF all(3) lim fit] lm_allocate_big [OF all(3) fit] by blast
  then show ?case
  proof (elim disjE exE conjE)
    assume "lm_allocate src (nt_size nt) (nt_align nt) respace (op_buffer p) = Some (Inl AssertFail)" "2 ^ 29 < unat respace"
    then show ?case by (simp add: local_allocate_def)
  next
    fix r b
    assume rb: "lm_allocate src (nt_size nt) (nt_align nt) respace (op_buffer p) = Some (Inr (r, b))"
      "lm_granted good lim base (nt_size nt) (nt_align nt) (node_regions nt all) r b"
    show ?case
    proof (cases r)
      case None
      then have "lm_inv good lim base b (node_regions nt all)" using rb(2) by (simp add: lm_granted_def)
      then have "op_inv good lim base nt (p\<lparr>op_buffer := b\<rparr>)"
        by (rule op_inv_buffer [OF Suc.prems all(1,2)])
      then show ?thesis
        using rb(1) None by (simp add: local_allocate_def op_live_def)
    next
      case (Some n)
      let ?p = "op_release_node n (p\<lparr>op_buffer := b, op_total := op_total p + 1\<rparr>)"
      have g: "unat (nt_align nt) dvd unat n" "\<forall>t\<in>set (node_regions nt all). apart (unat n, unat (nt_size nt)) t"
        "lm_inv good lim base b ((unat n, unat (nt_size nt)) # node_regions nt all)"
        using rb(2) Some by (simp_all add: lm_granted_def)
      have step: "op_inv good lim base nt ?p" "op_live ?p = op_live p"
        using op_add_node [OF Suc.prems all(1,2) g] by auto
      have "op_carve src nt respace (Suc k) p = op_carve src nt respace k ?p"
        using rb(1) Some g(1) by (simp add: local_allocate_def word_mod_0_iff)
      then show ?thesis
        using Suc.IH [OF step(1)] step(2) by (auto simp: op_release_node_def)
    qed
  qed
qed simp

end

section \<open>The operations over the map of live objects\<close>

lemma op_live_fields [simp]:
  "op_live (p\<lparr>op_alloc_size := a\<rparr>) = op_live p" "op_live (p\<lparr>op_free := f\<rparr>) = op_live p"
  "op_live (p\<lparr>op_total := t\<rparr>) = op_live p"
  by (simp_all add: op_live_def)

lemma op_inv_alloc_size:
  "op_inv good lim base nt p \<Longrightarrow> a \<le> op_max p \<Longrightarrow> op_inv good lim base nt (p\<lparr>op_alloc_size := a\<rparr>)"
  unfolding op_inv_def by simp

text \<open>Taking the head of the free list and constructing an object in it.\<close>

lemma op_take_node:
  assumes inv: "op_inv good lim base nt p" and free: "op_free p = Some n"
  shows "\<exists>p'. op_acquire_node p = Inr (n, p') \<and>
    op_inv good lim base nt (p'\<lparr>op_nodes := (op_nodes p')(n \<mapsto> Object x)\<rparr>) \<and>
    op_live (p'\<lparr>op_nodes := (op_nodes p')(n \<mapsto> Object x)\<rparr>) = (op_live p)(n \<mapsto> x) \<and>
    op_max p' = op_max p \<and> op_alloc_size p' = op_alloc_size p \<and> n \<notin> dom (op_live p) \<and> unat (nt_align nt) dvd unat n"
proof -
  obtain p' ns where p': "op_acquire_node p = Inr (n, p')" "op_nodes p' = op_nodes p" "op_total p' = op_total p"
    "op_alloc_size p' = op_alloc_size p" "op_max p' = op_max p" "op_buffer p' = op_buffer p"
    "op_live p n = None" "n \<in> dom (op_nodes p)"
    "free_list (op_nodes p) (op_free p') ns" "distinct ns" "n \<notin> set ns"
    "op_total p = of_nat (Suc (length ns) + card (dom (op_live p)))"
    using op_acquire_node_ok [OF assms] by blast
  let ?p = "p'\<lparr>op_nodes := (op_nodes p')(n \<mapsto> Object x)\<rparr>"
  have live: "op_live ?p = (op_live p)(n \<mapsto> x)"
    using p'(2) by (auto simp: op_live_def)
  have "card (dom (op_live ?p)) = Suc (card (dom (op_live p)))"
    using live p'(7) op_inv_finite [OF inv] by (simp add: domIff)
  then have "op_total ?p = of_nat (length ns + card (dom (op_live ?p)))"
    using p'(3,12) by simp
  moreover have "free_list (op_nodes ?p) (op_free ?p) ns"
    using p'(2,9,11) by (simp add: free_list_update)
  moreover have "dom (op_nodes ?p) = dom (op_nodes p)" using p'(2,8) by auto
  ultimately have "op_inv good lim base nt ?p"
    using inv p'(4,5,6,10) unfolding op_inv_def by auto
  moreover have "unat (nt_align nt) dvd unat n" using inv p'(8) by (auto simp: op_inv_def)
  ultimately show ?thesis using p'(1,4,5,7) live by (intro exI [of _ p']) (simp add: domIff)
qed

context linear_memory
begin

lemma op_acquire_ok:
  assumes inv: "op_inv good lim base nt p"
    and step: "op_free p \<noteq> None \<or> unat (op_step nt p) \<le> lim \<or> 2 ^ 29 < unat (op_step nt p)"
  shows "op_acquire src nt x p = Some (Inl AssertFail) \<and> op_free p = None \<and> 2 ^ 29 < unat (op_step nt p) \<or>
    (\<exists>r p'. op_acquire src nt x p = Some (Inr (r, p')) \<and> op_inv good lim base nt p' \<and>
      op_max p' = op_max p \<and> op_alloc_size p' \<in> {op_alloc_size p, min (op_max p) (op_alloc_size p * 2)} \<and>
      (op_free p \<noteq> None \<longrightarrow> r \<noteq> None) \<and>
      (case r of None \<Rightarrow> op_live p' = op_live p
       | Some n \<Rightarrow> n \<notin> dom (op_live p) \<and> unat (nt_align nt) dvd unat n \<and>
           op_live p' = (op_live p)(n \<mapsto> x)))"
proof (cases "op_free p")
  case (Some n)
  then show ?thesis
    using op_take_node [OF inv Some, of x] by (auto simp: op_acquire_def domIff)
next
  case None
  then have "unat (op_step nt p) \<le> lim \<or> 2 ^ 29 < unat (op_step nt p)" using step by blast
  from op_carve_ok [OF inv this, of "unat (op_alloc_size p)"] show ?thesis
  proof (elim disjE exE conjE)
    assume "op_carve src nt (op_step nt p) (unat (op_alloc_size p)) p = Some (Inl AssertFail)" "2 ^ 29 < unat (op_step nt p)"
    then show ?thesis using None by (simp add: op_acquire_def op_allocate_free_def)
  next
    fix q
    assume "op_carve src nt (op_step nt p) (unat (op_alloc_size p)) p = Some (Inr q)"
      and q: "op_inv good lim base nt q" "op_live q = op_live p" "op_alloc_size q = op_alloc_size p" "op_max q = op_max p"
    then have run: "op_allocate_free src nt (op_alloc_size p) p = Some (Inr q)" by (simp add: op_allocate_free_def)
    show ?thesis
    proof (cases "op_free q")
      case None
      with q run \<open>op_free p = None\<close> show ?thesis by (simp add: op_acquire_def)
    next
      case (Some n)
      let ?q = "q\<lparr>op_alloc_size := min (op_max q) (op_alloc_size q * 2)\<rparr>"
      have inv': "op_inv good lim base nt ?q" using q(1) by (rule op_inv_alloc_size) simp
      have "op_free ?q = Some n" using Some by simp
      from op_take_node [OF inv' this, of x] q run Some \<open>op_free p = None\<close>
      show ?thesis by (auto simp: op_acquire_def domIff)
    qed
  qed
qed

end

lemma op_release_ok:
  assumes inv: "op_inv good lim base nt p" and n: "op_live p n = Some x"
  shows "\<exists>p'. op_release n p = Inr p' \<and> op_inv good lim base nt p' \<and> op_live p' = (op_live p)(n := None) \<and>
    op_free p' = Some n"
proof -
  obtain ns where ns: "free_list (op_nodes p) (op_free p) ns" "distinct ns"
    "op_total p = of_nat (length ns + card (dom (op_live p)))"
    using inv by (auto simp: op_inv_def)
  have node: "op_nodes p n = Some (Object x)"
    using n by (auto simp: op_live_def split: option.splits onode.splits)
  have nin: "n \<notin> set ns" using free_list_not_live [OF ns(1)] n by auto
  let ?p = "op_release_node n p"
  have live: "op_live ?p = (op_live p)(n := None)" by (rule op_live_release)
  have "card (dom (op_live p)) = Suc (card (dom (op_live ?p)))"
    using card.remove [OF op_inv_finite [OF inv], of n] live n by (simp add: domI)
  then have "op_total ?p = of_nat (length (n # ns) + card (dom (op_live ?p)))"
    using ns(3) by (simp add: op_release_node_def)
  moreover have "free_list (op_nodes ?p) (op_free ?p) (n # ns)"
    using ns(1) nin by (simp add: op_release_node_def free_list_update)
  moreover have "distinct (n # ns)" using ns(2) nin by simp
  moreover have "dom (op_nodes ?p) = dom (op_nodes p)" using node by (auto simp: op_release_node_def)
  moreover have "op_buffer ?p = op_buffer p" "op_max ?p = op_max p" "op_alloc_size ?p = op_alloc_size p"
    by (simp_all add: op_release_node_def)
  ultimately have "op_inv good lim base nt ?p"
    using inv unfolding op_inv_def by metis
  then show ?thesis using node live by (simp add: op_release_def op_release_node_def)
qed

lemma unat_of_nat_small: "n < 2 ^ 64 \<Longrightarrow> unat (of_nat n :: addr) = n"
  by (simp add: unsigned_of_nat take_bit_nat_eq_self)

lemma free_list_unique: "free_list h q ns \<Longrightarrow> free_list h q ns' \<Longrightarrow> ns = ns'"
proof (induction ns arbitrary: q ns')
  case (Cons n ns)
  then show ?case by (cases ns') auto
qed (simp add: free_list_None)

text \<open>Nodes lie below \<open>2 ^ 63\<close>, so the counter of allocations does not wrap.\<close>

lemma op_count_bound:
  assumes inv: "op_inv good lim base nt p" and ns: "free_list (op_nodes p) (op_free p) ns" "distinct ns"
  shows "length ns + card (dom (op_live p)) \<le> 2 ^ 63"
proof -
  obtain all where all: "dom (op_nodes p) = set all"
    "lm_inv good lim base (op_buffer p) (node_regions nt all)"
    using inv by (auto simp: op_inv_def)
  have below: "unat n \<le> 2 ^ 63 - 1" if "n \<in> set all" for n
  proof -
    have "(unat n, unat (nt_size nt)) \<in> set (node_regions nt all)"
      using that by (auto simp: node_regions_def)
    then obtain b where b: "b \<in> set (lm_blocks (op_buffer p))"
      "within (unat n, unat (nt_size nt)) (used_region b)"
      using all(2) by (auto simp: lm_inv_def)
    have "block_ok lim b" using all(2) b(1) by (rule lm_invD)
    then have "unat (mb_size b) < unat (mb_capacity b)" "unat (mb_data b) + unat (mb_capacity b) \<le> 2 ^ 63"
      by (simp_all add: block_ok_def word_less_nat_alt)
    then show ?thesis using b(2) by (simp add: within_def used_region_def)
  qed
  have sub: "set ns \<union> dom (op_live p) \<subseteq> set all"
    using free_list_dom [OF ns(1)] dom_live [of p] all(1) by auto
  have "set ns \<inter> dom (op_live p) = {}"
    using free_list_not_live [OF ns(1)] by (auto simp: domIff)
  then have "length ns + card (dom (op_live p)) = card (set ns \<union> dom (op_live p))"
    using op_inv_finite [OF inv] ns(2) by (simp add: card_Un_disjoint distinct_card)
  also have "\<dots> \<le> card (unat ` set all)"
    using sub by (subst card_image) (simp_all add: inj_on_def card_mono word_unat_eq_iff)
  also have "\<dots> \<le> card {.. (2 ^ 63 - 1 :: nat)}"
    by (rule card_mono) (use below in auto)
  finally show ?thesis by simp
qed

lemma op_purge_ok:
  assumes "op_inv good lim base nt p"
  shows "\<exists>p'. op_purge p = Some (Inr p') \<and> op_inv good lim base nt p' \<and> op_live p' = op_live p \<and>
    op_free p' = None \<and> unat (op_total p') = card (dom (op_live p)) \<and> op_buffer p' = op_buffer p"
proof -
  obtain ns where "free_list (op_nodes p) (op_free p) ns" "distinct ns"
    using assms by (auto simp: op_inv_def)
  then show ?thesis
    using assms
  proof (induction ns arbitrary: p)
    case Nil
    then have free: "op_free p = None" by simp
    have "op_total p = of_nat (card (dom (op_live p)))"
      using Nil.prems(3) free by (auto simp: op_inv_def free_list_None)
    moreover have "card (dom (op_live p)) \<le> 2 ^ 63"
      using op_count_bound [OF Nil.prems(3,1,2)] by simp
    ultimately have "unat (op_total p) = card (dom (op_live p))"
      by (simp add: unat_of_nat_small)
    then show ?case using free Nil.prems(3) by (simp add: op_purge.simps)
  next
    case (Cons n ns)
    have free: "op_free p = Some n" using Cons.prems(1) by simp
    obtain p' ns' where p': "op_acquire_node p = Inr (n, p')" "op_nodes p' = op_nodes p" "op_total p' = op_total p"
      "op_alloc_size p' = op_alloc_size p" "op_max p' = op_max p" "op_buffer p' = op_buffer p"
      "free_list (op_nodes p) (op_free p') ns'" "distinct ns'"
      "op_total p = of_nat (Suc (length ns') + card (dom (op_live p)))"
      using op_acquire_node_ok [OF Cons.prems(3) free] by blast
    obtain q where q: "op_nodes p n = Some (NextFree q)" "free_list (op_nodes p) q ns"
      using Cons.prems(1) by auto
    have fr: "op_free p' = q" using p'(1) free q(1) by (auto simp: op_acquire_node_def)
    have live: "op_live p' = op_live p" using p'(2) by (simp add: op_live_def)
    obtain all' where all': "dom (op_nodes p) = set all'"
      "lm_inv good lim base (op_buffer p) (node_regions nt all')"
      "\<forall>n\<in>set all'. unat (nt_align nt) dvd unat n"
      using Cons.prems(3) by (auto simp: op_inv_def)
    let ?p = "p'\<lparr>op_total := op_total p' - 1\<rparr>"
    have inv: "op_inv good lim base nt ?p"
      using Cons.prems(3) all' p' live unfolding op_inv_def by auto
    have "Suc (length ns') + card (dom (op_live p)) \<le> 2 ^ 63"
    proof -
      have "free_list (op_nodes p) (op_free p) (n # ns')"
        using p'(7) fr free q(1) by simp
      moreover have "distinct (n # ns')"
        using Cons.prems(2) p'(7,8) q(2) fr free_list_unique by (metis distinct.simps(2))
      ultimately show ?thesis using op_count_bound [OF Cons.prems(3)] by fastforce
    qed
    then have "unat (op_total p) = Suc (length ns') + card (dom (op_live p))"
      unfolding p'(9) by (intro unat_of_nat_small) simp
    then have pos: "0 < op_total p" by (simp add: word_less_nat_alt)
    have "free_list (op_nodes ?p) (op_free ?p) ns" "distinct ns"
      using q(2) fr p'(2) Cons.prems(2) by simp_all
    from Cons.IH [OF this inv] show ?case
      using p'(1,2,3,6) free pos live by (simp add: op_purge.simps [of p] op_live_def)
  qed
qed

section \<open>New pools\<close>

lemma op_live_new [simp]:
  "op_live \<lparr>op_free = f, op_nodes = Map.empty, op_buffer = b, op_alloc_size = a, op_max = mx, op_total = t\<rparr> =
    Map.empty"
  by (simp add: op_live_def)

lemma op_new_inv:
  assumes "lm_inv good lim base b []" "fits lim (nt_size nt) (nt_align nt)" "0 < nt_size nt"
    "initial \<le> mx"
  shows "op_inv good lim base nt
    (\<lparr>op_free = None, op_nodes = Map.empty, op_buffer = b, op_alloc_size = initial, op_max = mx, op_total = 0\<rparr>
      :: ('a, 's) opool)"
proof -
  let ?p = "\<lparr>op_free = None, op_nodes = Map.empty, op_buffer = b, op_alloc_size = initial,
      op_max = mx, op_total = 0\<rparr> :: ('a, 's) opool"
  have "op_live ?p = Map.empty" by (simp add: op_live_def)
  then show ?thesis
    using assms unfolding op_inv_def
    by (auto simp: node_regions_def intro!: exI [of _ "[] :: addr list"])
qed

context linear_memory
begin

lemma op_new_ok:
  assumes "good s base" "fits lim (nt_size nt) (nt_align nt)" "0 < nt_size nt"
    "unat initial * unat (nt_size nt) \<le> lim" "initial \<le> mx"
  shows "op_new src nt initial mx s = Some (Inl BadAccess) \<or>
    (\<exists>r p. op_new src nt initial mx s = Some (Inr p) \<and>
       op_inv good lim (r # base) nt p \<and> op_live p = Map.empty)"
proof -
  have "lim < 2 ^ 64" using lim by (simp add: block_limit_def)
  then have sz: "unat (initial * nt_size nt) \<le> lim" using assms(4) by (simp add: unat_word_ariths)
  from allocate_block_ok [OF assms(1) lim sz] show ?thesis
  proof (elim disjE exE conjE)
    fix s' assume "lm_allocate_block src (initial * nt_size nt) s = Some (Inr (None, s'))"
    then show ?thesis by (simp add: op_new_def local_new_def)
  next
    fix b s'
    assume b: "lm_allocate_block src (initial * nt_size nt) s = Some (Inr (Some b, s'))"
      "block_ok lim b" "mb_size b = 0" "24 \<le> unat (mb_data b)" "good s' (src_region b # base)"
    let ?m = "lm_rewind \<lparr>lm_blocks = [b], lm_active = 0, lm_state = s'\<rparr>"
    have "lm_inv good lim (src_region b # base) ?m []"
      by (rule lm_rewind_inv, rule start_inv [of _ _ _ _ _ "src_region b"])
        (use b block_in_src in auto)
    note inv = op_new_inv [OF this assms(2,3,5)]
    have new: "op_new src nt initial mx s = Some (Inr \<lparr>op_free = None, op_nodes = Map.empty,
        op_buffer = ?m, op_alloc_size = initial, op_max = mx, op_total = 0\<rparr>)"
      using b(1) assms(5) by (simp add: op_new_def local_new_def)
    show ?thesis
      by (intro disjI2 exI [of _ "src_region b"] exI conjI, rule new, rule inv, rule op_live_new)
  qed
qed

end

lemma exhausted_block:
  assumes "block_limit limit lim" "unat sz \<le> lim"
  shows "lm_allocate_block exhausted_source sz s = Some (Inr (None, s))"
proof -
  obtain off n where off: "byte_align_offset (sz + 24) 32 = Inr off" "unat (sz + 24 + off) = 32 * n"
    "32 * n \<le> lim + 24"
    using block_bytes [OF assms] by blast
  have "unat (sz + 24 + off) < 2 ^ 63" using off(2,3) assms(1) by (simp add: block_limit_def)
  from arena_block [OF off(2) this, of exhausted_source s]
  show ?thesis
    by (simp add: lm_allocate_block_def Let_def mb_header_size_def mb_sizeof_def off(1) exhausted_source_def)
qed

section \<open>Properties of the object pool\<close>


text \<open>
  a \<^verbatim>\<open>StackObjectPool\<close> of \<open>N\<close> objects never takes its first block from its own
  stack buffer, which is sized for \<open>N\<close> nodes and one alignment but not for the block header:
  with no heap to fall back on (an exhausted global allocator) the constructor dereferences
  \<^verbatim>\<open>nullptr\<close>.
\<close>

theorem stack_pool_needs_heap:
  assumes "unat initial * unat (nt_size nt) \<le> 2 ^ 28" "unat alT \<le> 24" "0 < alT"
    "unat start + unat (initial * nt_size nt + alT) \<le> 2 ^ 63"
  shows "op_new (mono_source exhausted_source) nt initial mx
    (mono_new start (initial * nt_size nt + alT) ()) = Some (Inl BadAccess)"
proof -
  let ?sz = "initial * nt_size nt" and ?cap = "initial * nt_size nt + alT"
  let ?m = "mono_new start ?cap ()"
  let ?lim = "2 ^ 28 + 40 :: nat"
  have sz: "unat ?sz = unat initial * unat (nt_size nt)"
    using assms(1) by (simp add: unat_word_ariths)
  have cap: "unat ?cap = unat ?sz + unat alT"
    using sz assms(1,2) by (subst unat_sum) simp_all
  obtain off n where off: "byte_align_offset (?sz + 24) 32 = Inr off" "unat (?sz + 24 + off) = 32 * n"
    "unat ?sz + 24 \<le> 32 * n" "32 * n \<le> ?lim + 24"
    using block_bytes [of "?lim + 32" ?lim ?sz] sz assms(1) by (auto simp: block_limit_def)
  let ?T = "?sz + 24 + off"
  have pow: "pow2 8" unfolding pow2_def by (rule exI [of _ 3]) simp
  have fit: "fits (2 ^ 29) ?T 8" using off(2,4) pow by (simp add: fits_def)
  have blocks: "lm_blocks ?m = [\<lparr>mb_data = start, mb_size = 0, mb_capacity = ?cap\<rparr>]" "lm_active ?m = 0"
    by (simp_all add: mono_new_def lm_rewind_def)
  let ?b = "\<lparr>mb_data = start, mb_size = 0, mb_capacity = ?cap\<rparr>"
  have inv: "lm_inv (\<lambda>(_ :: unit) _. True) (2 ^ 29) [(unat start, unat ?cap)] ?m []"
    by (rule mono_new_inv) (use cap sz assms in \<open>auto simp: word_less_nat_alt\<close>)
  have "allocate_from_block ?b ?T 8 = Inr (None, ?b)"
  proof -
    have no: "\<not> (\<exists>p b'. unat (mb_data ?b) + unat (mb_size ?b) \<le> unat p \<and>
        unat p + unat ?T = unat (mb_data ?b) + unat (mb_size b') \<and>
        block_ok (2 ^ 29) b' \<and> mb_capacity b' = ?cap)" for p :: addr
      using off(2,3) cap assms(2) by (auto simp: block_ok_def word_less_nat_alt)
    have "block_ok (2 ^ 29) ?b" using lm_invD(2) [OF inv] blocks by simp
    from allocate_from_block_ok [OF this fit] no show ?thesis by fastforce
  qed
  moreover have "next_memory_block_size (?T + 8) ?cap = Inr (max (?T + 8) ?cap)"
    and big: "unat (max (?T + 8) ?cap) \<le> 2 ^ 29 - 24"
  proof -
    have "unat (?T + 8) = unat ?T + 8" using off(2,4) by (subst unat_sum) simp_all
    then show "unat (max (?T + 8) ?cap) \<le> 2 ^ 29 - 24"
      using off(2,4) cap sz assms(1,2) by (simp add: max_def)
    then show "next_memory_block_size (?T + 8) ?cap = Inr (max (?T + 8) ?cap)"
      by (simp add: next_memory_block_size_def Let_def word_le_nat_alt)
  qed
  moreover have "lm_allocate_block exhausted_source (max (?T + 8) ?cap) () = Some (Inr (None, ()))"
    by (rule exhausted_block [of "2 ^ 29 + 8" "2 ^ 29 - 24"]) (use big in \<open>simp_all add: block_limit_def\<close>)
  ultimately have none: "\<exists>m'. mono_allocate exhausted_source ?T 8 ?m = Some (Inr (None, m'))"
    using blocks by (simp add: mono_allocate_def lm_active_capacity_def lm_allocate.simps [of _ _ _ _ ?m]
      lm_put_def)
  have "arena_allocate (mono_source exhausted_source) mb_sizeof 8 (?T div mb_sizeof) ?m =
      mono_allocate exhausted_source ?T 8 ?m"
    using arena_block [OF off(2), of "mono_source exhausted_source" ?m] off(2,4) by (simp add: mono_source_def)
  with none obtain m' where "lm_allocate_block (mono_source exhausted_source) ?sz ?m = Some (Inr (None, m'))"
    by (auto simp: lm_allocate_block_def Let_def mb_header_size_def mb_sizeof_def off(1))
  then show ?thesis by (simp add: op_new_def local_new_def)
qed


lemma stack_pool_needs_heap_witness:
  "op_new (mono_source exhausted_source) \<lparr>nt_size = 64, nt_align = 8\<rparr> 10 100
    (mono_new 65536 648 ()) = Some (Inl BadAccess)"
  using stack_pool_needs_heap [of 10 "\<lparr>nt_size = 64, nt_align = 8\<rparr>" 8 65536 100] by simp

end
