(* ===== verification/JobQueues.thy ===== *)
theory JobQueues
  imports DynamicRings
begin

text \<open>
  \<^verbatim>\<open>ion/jobs/JobQueue.h\<close>, \<^verbatim>\<open>JobQueue.inl\<close> and the ownership test of
  \<^verbatim>\<open>BaseJob.h\<close>.

  A job knows the job that spawned it; jobs are compared by address, here by value (every
  job has an identity of its own).  A queue holds work items in a \<open>DynamicRingBuffer\<close>.  Each
  operation changes the queue inside one critical section of the queue's lock, so it is one
  step; \<open>held\<close> says whether another thread has the lock when \<^verbatim>\<open>TryLock\<close> is called.  The
  job an operation runs after leaving the critical section is part of its result.
\<close>

section \<open>Jobs\<close>

datatype job = Job nat "job option"

fun job_source :: "job \<Rightarrow> job option" where
  "job_source (Job i s) = s"

fun job_recursion :: "job \<Rightarrow> nat" where
  "job_recursion (Job i None) = 0"
| "job_recursion (Job i (Some s)) = job_recursion s + 1"

fun job_root :: "job \<Rightarrow> job" where
  "job_root (Job i None) = Job i None"
| "job_root (Job i (Some s)) = job_root s"

fun is_my_source_job :: "job \<Rightarrow> job \<Rightarrow> bool res" where
  "is_my_source_job (Job i s) j =
    assertR (j \<noteq> Job i s)
      (case s of
         None \<Rightarrow> Inr False
       | Some s \<Rightarrow>
           if j = s then Inr True
           else if job_recursion s \<le> job_recursion j then Inr False
           else is_my_source_job s j)"

text \<open>A work item is a job or the null pointer of a default-constructed item.\<close>

type_synonym job_work = "job option"

definition is_my_job :: "job_work \<Rightarrow> job \<Rightarrow> bool res" where
  "is_my_job w j =
    (if w = Some j then Inr True
     else case w of
       None \<Rightarrow> Inr False
     | Some v \<Rightarrow> if job_recursion j < job_recursion v then is_my_source_job v j else Inr False)"

definition do_work :: "job_work \<Rightarrow> job res" where
  "do_work w = (case w of None \<Rightarrow> Inl BadAccess | Some j \<Rightarrow> Inr j)"

section \<open>Queues\<close>

datatype job_status = Inactive | Empty | Locked | Waiting | WentEmpty

text \<open>The code adds a flag to the number of \<^verbatim>\<open>Waiting\<close>.\<close>

definition waiting_plus :: "bool \<Rightarrow> job_status" where
  "waiting_plus b = (if b then WentEmpty else Waiting)"

record job_stats =
  js_waiting :: int
  js_jobless :: "nat option"

type_synonym job_tasks = "job_work dring"

definition jq_new :: job_tasks where
  "jq_new = dr_new 63"

definition jq_is_maybe_empty :: "job_tasks \<Rightarrow> bool" where
  "jq_is_maybe_empty q = dr_is_empty q"

definition jq_push_task :: "nat \<Rightarrow> job_work \<Rightarrow> job_tasks \<Rightarrow> job_tasks res" where
  "jq_push_task c w q = dr_push_back c w q"

fun jq_add_tasks :: "nat \<Rightarrow> nat \<Rightarrow> (nat \<Rightarrow> job_work) \<Rightarrow> job_tasks \<Rightarrow> job_tasks res" where
  "jq_add_tasks c 0 cb q = Inr q"
| "jq_add_tasks c (Suc k) cb q =
    bindR (dr_push_back c (cb 0) q) (jq_add_tasks c k (\<lambda>i. cb (Suc i)))"

definition jq_run :: "nat \<Rightarrow> job_tasks \<Rightarrow> (job_status \<times> job option \<times> job_tasks) res" where
  "jq_run c q =
    (if \<not> dr_is_empty q
     then bindR (dr_front q) (\<lambda>w.
            bindR (dr_pop_front c q) (\<lambda>q.
              bindR (do_work w) (\<lambda>j. Inr (Waiting, Some j, q))))
     else Inr (Empty, None, q))"

definition jq_long_task_run ::
    "nat \<Rightarrow> nat option \<Rightarrow> 32 word \<Rightarrow> job_tasks \<Rightarrow> (job_status \<times> job option \<times> 32 word \<times> job_tasks) res" where
  "jq_long_task_run c self available q =
    assertR (self = None)
      (if \<not> dr_is_empty q
       then bindR (dr_front q) (\<lambda>w.
              bindR (dr_pop_front c q) (\<lambda>q.
                bindR (do_work w) (\<lambda>j. Inr (Waiting, Some j, available - 1, q))))
       else Inr (Empty, None, available, q))"

definition jq_steal :: "nat \<Rightarrow> bool \<Rightarrow> bool \<Rightarrow> job_tasks \<Rightarrow> (job_status \<times> job option \<times> job_tasks) res" where
  "jq_steal c force held q =
    (if \<not> force \<and> held then Inr (Locked, None, q)
     else if dr_is_empty q then Inr (Empty, None, q)
     else bindR (dr_back c q) (\<lambda>w.
            bindR (dr_pop_back c q) (\<lambda>q.
              bindR (do_work w) (\<lambda>j. Inr (waiting_plus (dr_is_empty q), Some j, q)))))"

text \<open>The loop of \<^verbatim>\<open>FindJobTaskLocked\<close> over the positions of the queue.\<close>

function jq_search :: "nat \<Rightarrow> job \<Rightarrow> nat \<Rightarrow> nat \<Rightarrow> job_tasks \<Rightarrow> (job_status \<times> job_work \<times> job_tasks) res" where
  "jq_search c j num i q =
    (if i < num
     then bindR (dr_get c i q) (\<lambda>w.
            bindR (is_my_job w j) (\<lambda>mine.
              if mine
              then bindR (dr_erase c i q) (\<lambda>q'. Inr (waiting_plus (i \<ge> num - 1), w, q'))
              else jq_search c j num (Suc i) q))
     else Inr (Empty, None, q))"
  by pat_completeness auto

termination jq_search
  by (relation "measure (\<lambda>(c, j, num, i, q). num - i)") auto

declare jq_search.simps [simp del]

definition jq_find_locked :: "nat \<Rightarrow> job \<Rightarrow> job_tasks \<Rightarrow> (job_status \<times> job_work \<times> job_tasks) res" where
  "jq_find_locked c j q = jq_search c j (dr_size q) 0 q"

definition jq_find :: "nat \<Rightarrow> job \<Rightarrow> job_tasks \<Rightarrow> (job_status \<times> job_work \<times> job_tasks) res" where
  "jq_find c j q = jq_find_locked c j q"

definition jq_weak_find :: "nat \<Rightarrow> bool \<Rightarrow> job \<Rightarrow> job_tasks \<Rightarrow> (job_status \<times> job_work \<times> job_tasks) res" where
  "jq_weak_find c held j q = (if held then Inr (Locked, None, q) else jq_find_locked c j q)"

definition jq_get_job_task ::
    "nat \<Rightarrow> bool \<Rightarrow> bool \<Rightarrow> job \<Rightarrow> job_tasks \<Rightarrow> (job_status \<times> job option \<times> job_tasks) res" where
  "jq_get_job_task c no_steal held j q =
    bindR (if no_steal then jq_find c j q else jq_weak_find c held j q) (\<lambda>(status, w, q).
      if status \<noteq> Empty \<and> (no_steal \<or> status \<noteq> Locked)
      then bindR (do_work w) (\<lambda>v. Inr (status, Some v, q))
      else Inr (status, None, q))"

text \<open>
  \<^verbatim>\<open>RunBlocked\<close> works the queue off, waits once it is empty, and gives up its turn to
  steal elsewhere when it finds the queue empty again after a wait.  What other threads and
  the jobs themselves push meanwhile comes from an environment \<open>e\<close>: after a job has run,
  and with the outcome of a wait.
\<close>

record 'e job_env =
  env_ran :: "job \<Rightarrow> 'e \<Rightarrow> job_work list \<times> 'e"
  env_wait :: "'e \<Rightarrow> bool \<times> job_work list \<times> 'e"

fun jq_arrive :: "nat \<Rightarrow> job_work list \<Rightarrow> job_tasks \<Rightarrow> job_tasks res" where
  "jq_arrive c [] q = Inr q"
| "jq_arrive c (w # ws) q = bindR (jq_push_task c w q) (jq_arrive c ws)"

definition jq_wait :: "nat option \<Rightarrow> bool \<Rightarrow> job_stats \<Rightarrow> (bool \<times> job_stats) res" where
  "jq_wait self ok st =
    (let st = st\<lparr>js_waiting := js_waiting st + 1\<rparr> in
     assertR (self \<noteq> None)
       (let st = st\<lparr>js_jobless := self\<rparr> in
        Inr (ok, st\<lparr>js_waiting := js_waiting st - 1\<rparr>)))"

partial_function (option) jq_run_blocked ::
    "nat \<Rightarrow> nat option \<Rightarrow> 'e job_env \<Rightarrow> bool \<Rightarrow> job list \<Rightarrow> job_stats \<Rightarrow> 'e \<Rightarrow> job_tasks \<Rightarrow>
      (job_status \<times> job list \<times> job_stats \<times> job_tasks) run" where
  "jq_run_blocked c self env steal jobs st e q =
    (if dr_is_empty q
     then (if \<not> steal
           then let (ok, ws, e) = env_wait env e in
                bindO (Some (jq_arrive c ws q)) (\<lambda>q.
                  bindO (Some (jq_wait self ok st)) (\<lambda>(ok, st).
                    if \<not> ok then Some (Inr (Inactive, jobs, st, q))
                    else jq_run_blocked c self env True jobs st e q))
           else Some (Inr (Empty, jobs, st, q)))
     else bindO (Some (dr_front q)) (\<lambda>w.
            bindO (Some (dr_pop_front c q)) (\<lambda>q.
              bindO (if dr_is_empty q \<and> js_jobless st = None
                     then assertO (self \<noteq> None) (Some (Inr (st\<lparr>js_jobless := self\<rparr>)))
                     else Some (Inr st)) (\<lambda>st.
                bindO (Some (do_work w)) (\<lambda>j.
                  let (ws, e) = env_ran env j e in
                  bindO (Some (jq_arrive c ws q)) (\<lambda>q.
                    jq_run_blocked c self env steal (jobs @ [j]) st e q))))))"

section \<open>Ownership\<close>

text \<open>A job and the jobs it descends from.\<close>

fun lineage :: "job \<Rightarrow> job list" where
  "lineage (Job i None) = [Job i None]"
| "lineage (Job i (Some s)) = Job i (Some s) # lineage s"

definition mine :: "job \<Rightarrow> job_work \<Rightarrow> bool" where
  "mine j w \<longleftrightarrow> (case w of None \<Rightarrow> False | Some v \<Rightarrow> j \<in> set (lineage v))"

lemma lineage_recursion: "j \<in> set (lineage v) \<Longrightarrow> j = v \<or> job_recursion j < job_recursion v"
proof (induction v rule: lineage.induct)
  case (2 i s)
  then show ?case by auto
qed simp

lemma self_lineage: "v \<in> set (lineage v)"
  by (cases v rule: lineage.cases) auto

lemma is_my_source_job_ok:
  "job_recursion j < job_recursion v \<Longrightarrow> is_my_source_job v j = Inr (j \<in> set (lineage v))"
proof (induction v rule: lineage.induct)
  case (2 i s)
  have ne: "j \<noteq> Job i (Some s)" using 2(2) by auto
  show ?case
  proof (cases "j = s")
    case True
    then show ?thesis using ne self_lineage by simp
  next
    case False
    show ?thesis
    proof (cases "job_recursion s \<le> job_recursion j")
      case True
      then have "j \<notin> set (lineage s)" using lineage_recursion [of j s] False by auto
      then show ?thesis using True False ne by simp
    next
      case False
      then show ?thesis using 2 ne \<open>j \<noteq> s\<close> by simp
    qed
  qed
qed simp

lemma is_my_job_ok: "is_my_job w j = Inr (mine j w)"
proof (cases w)
  case (Some v)
  then show ?thesis
    using is_my_source_job_ok [of j v] lineage_recursion [of j v] self_lineage [of v]
    by (auto simp: is_my_job_def mine_def)
qed (simp add: is_my_job_def mine_def)

section \<open>The queue as a sequence of work items\<close>

lemma jq_search_ok:
  assumes "dr_ok c q" "c \<le> 32" "num = length (dr_view q)" "i \<le> num"
  shows "(if \<exists>k. i \<le> k \<and> k < num \<and> mine j (dr_view q ! k)
    then \<exists>k q'. i \<le> k \<and> k < num \<and> mine j (dr_view q ! k) \<and> (\<forall>l. i \<le> l \<and> l < k \<longrightarrow> \<not> mine j (dr_view q ! l)) \<and>
      jq_search c j num i q = Inr (waiting_plus (k = num - 1), dr_view q ! k, q') \<and> dr_ok c q' \<and>
      dr_view q' = take k (dr_view q) @ drop (Suc k) (dr_view q)
    else jq_search c j num i q = Inr (Empty, None, q))"
  using assms
proof (induction "num - i" arbitrary: i)
  case 0
  then show ?case by (auto simp: jq_search.simps)
next
  case (Suc d)
  then have i: "i < num" by simp
  have get: "dr_get c i q = Inr (dr_view q ! i)"
    using Suc.prems i by (intro dr_get_ok) (simp_all add: dr_size_eq)
  show ?case
  proof (cases "mine j (dr_view q ! i)")
    case True
    obtain q' where q': "dr_erase c i q = Inr q'" "dr_ok c q'"
      "dr_view q' = take i (dr_view q) @ drop (Suc i) (dr_view q)"
      using dr_erase_ok [OF Suc.prems(1,2), of i] i Suc.prems(3) by (auto simp: dr_size_eq)
    have "num - 1 \<le> i \<longleftrightarrow> i = num - 1" using i by auto
    then have "jq_search c j num i q = Inr (waiting_plus (i = num - 1), dr_view q ! i, q')"
      using i get True q'(1) by (simp add: jq_search.simps [of _ _ _ i] is_my_job_ok)
    with True i q' show ?thesis by (auto intro!: exI [of _ i] exI [of _ q'])
  next
    case False
    have step: "jq_search c j num i q = jq_search c j num (Suc i) q"
      using i get False by (simp add: jq_search.simps [of _ _ _ i] is_my_job_ok)
    have "d = num - Suc i" using Suc.hyps(2) by simp
    note ih = Suc.hyps(1) [OF this Suc.prems(1-3)]
    have shift: "(\<exists>k. i \<le> k \<and> k < num \<and> mine j (dr_view q ! k)) \<longleftrightarrow>
        (\<exists>k. Suc i \<le> k \<and> k < num \<and> mine j (dr_view q ! k))"
      using False by (metis Suc_leD Suc_leI le_eq_less_or_eq)
    show ?thesis
    proof (cases "\<exists>k. i \<le> k \<and> k < num \<and> mine j (dr_view q ! k)")
      case True
      then obtain k q' where k: "Suc i \<le> k" "k < num" "mine j (dr_view q ! k)"
        "\<forall>l. Suc i \<le> l \<and> l < k \<longrightarrow> \<not> mine j (dr_view q ! l)"
        "jq_search c j num (Suc i) q = Inr (waiting_plus (k = num - 1), dr_view q ! k, q')" "dr_ok c q'"
        "dr_view q' = take k (dr_view q) @ drop (Suc k) (dr_view q)"
        using ih i shift by auto
      have "\<forall>l. i \<le> l \<and> l < k \<longrightarrow> \<not> mine j (dr_view q ! l)"
        using k(4) False by (metis Suc_leI le_eq_less_or_eq)
      with k step True show ?thesis by (auto intro!: exI [of _ k] exI [of _ q'])
    next
      case no: False
      then show ?thesis using ih i shift step by auto
    qed
  qed
qed

lemma waiting_plus_simps [simp]: "waiting_plus True = WentEmpty" "waiting_plus False = Waiting"
  by (simp_all add: waiting_plus_def)

definition no_null :: "job_tasks \<Rightarrow> bool" where
  "no_null q \<longleftrightarrow> None \<notin> set (dr_view q)"

lemma jq_push_ok:
  "dr_ok c q \<Longrightarrow> \<exists>q'. jq_push_task c w q = Inr q' \<and> dr_ok c q' \<and> dr_view q' = dr_view q @ [w]"
  unfolding jq_push_task_def by (rule dr_push_back_ok)

lemma jq_add_tasks_ok:
  "dr_ok c q \<Longrightarrow> \<exists>q'. jq_add_tasks c k cb q = Inr q' \<and> dr_ok c q' \<and> dr_view q' = dr_view q @ map cb [0..<k]"
proof (induction k arbitrary: cb q)
  case (Suc k)
  obtain q1 where q1: "dr_push_back c (cb 0) q = Inr q1" "dr_ok c q1" "dr_view q1 = dr_view q @ [cb 0]"
    using dr_push_back_ok [OF Suc.prems] by blast
  obtain q2 where "jq_add_tasks c k (\<lambda>i. cb (Suc i)) q1 = Inr q2" "dr_ok c q2"
    "dr_view q2 = dr_view q1 @ map (\<lambda>i. cb (Suc i)) [0..<k]"
    using Suc.IH [OF q1(2)] by blast
  moreover have "map cb [0..<Suc k] = cb 0 # map (\<lambda>i. cb (Suc i)) [0..<k]"
    by (rule nth_equalityI) (auto simp: nth_Cons' simp del: upt_Suc)
  ultimately show ?case using q1 by simp
qed simp

lemma jq_run_ok:
  assumes "dr_ok c q" "no_null q"
  shows "(dr_view q = [] \<longrightarrow> jq_run c q = Inr (Empty, None, q)) \<and>
    (\<forall>j ws. dr_view q = Some j # ws \<longrightarrow>
      (\<exists>q'. jq_run c q = Inr (Waiting, Some j, q') \<and> dr_ok c q' \<and> dr_view q' = ws))"
  using dr_front_ok [OF assms(1)] dr_pop_front_ok [OF assms(1)]
  by (auto simp: jq_run_def dr_is_empty_iff do_work_def)

lemma jq_steal_ok:
  assumes "dr_ok c q" "no_null q" "force \<or> \<not> held"
  shows "(dr_view q = [] \<longrightarrow> jq_steal c force held q = Inr (Empty, None, q)) \<and>
    (\<forall>j ws. dr_view q = ws @ [Some j] \<longrightarrow>
      (\<exists>q'. jq_steal c force held q = Inr (waiting_plus (ws = []), Some j, q') \<and> dr_ok c q' \<and> dr_view q' = ws))"
  using dr_back_ok [OF assms(1)] dr_pop_back_ok [OF assms(1)] assms(3)
  by (auto simp: jq_steal_def dr_is_empty_iff do_work_def)

lemma mine_not_null: "mine j w \<Longrightarrow> \<exists>v. w = Some v"
  by (cases w) (auto simp: mine_def)

lemma jq_find_ok:
  assumes "dr_ok c q" "c \<le> 32"
  shows "if \<exists>w\<in>set (dr_view q). mine j w
    then \<exists>k v q'. k < length (dr_view q) \<and> dr_view q ! k = Some v \<and> mine j (Some v) \<and>
      (\<forall>l<k. \<not> mine j (dr_view q ! l)) \<and>
      jq_find_locked c j q = Inr (waiting_plus (k = length (dr_view q) - 1), Some v, q') \<and> dr_ok c q' \<and>
      dr_view q' = take k (dr_view q) @ drop (Suc k) (dr_view q)
    else jq_find_locked c j q = Inr (Empty, None, q)"
proof -
  have ex: "(\<exists>w\<in>set (dr_view q). mine j w) \<longleftrightarrow> (\<exists>k. 0 \<le> k \<and> k < length (dr_view q) \<and> mine j (dr_view q ! k))"
    by (metis in_set_conv_nth le0)
  note s = jq_search_ok [OF assms refl, of 0 j, folded ex]
  show ?thesis
  proof (cases "\<exists>w\<in>set (dr_view q). mine j w")
    case True
    then obtain k q' where k: "k < length (dr_view q)" "mine j (dr_view q ! k)"
      "\<forall>l<k. \<not> mine j (dr_view q ! l)"
      "jq_search c j (length (dr_view q)) 0 q = Inr (waiting_plus (k = length (dr_view q) - 1), dr_view q ! k, q')"
      "dr_ok c q'" "dr_view q' = take k (dr_view q) @ drop (Suc k) (dr_view q)"
      using s by auto
    obtain v where "dr_view q ! k = Some v" using mine_not_null [OF k(2)] by blast
    with k True show ?thesis
      unfolding jq_find_locked_def dr_size_eq by (auto intro!: exI [of _ k])
  next
    case False
    then show ?thesis using s by (simp add: jq_find_locked_def dr_size_eq)
  qed
qed

lemma jq_get_job_task_ok:
  assumes "dr_ok c q" "c \<le> 32" "no_steal \<or> \<not> held"
  shows "if \<exists>w\<in>set (dr_view q). mine j w
    then \<exists>xs v ys q'. dr_view q = xs @ Some v # ys \<and> mine j (Some v) \<and> (\<forall>w\<in>set xs. \<not> mine j w) \<and>
      jq_get_job_task c no_steal held j q = Inr (waiting_plus (ys = []), Some v, q') \<and> dr_ok c q' \<and>
      dr_view q' = xs @ ys
    else jq_get_job_task c no_steal held j q = Inr (Empty, None, q)"
proof (cases "\<exists>w\<in>set (dr_view q). mine j w")
  case True
  let ?n = "length (dr_view q)"
  obtain k v q' where k: "k < ?n" "dr_view q ! k = Some v" "mine j (Some v)" "\<forall>l<k. \<not> mine j (dr_view q ! l)"
    "jq_find_locked c j q = Inr (waiting_plus (k = ?n - 1), Some v, q')" "dr_ok c q'"
    "dr_view q' = take k (dr_view q) @ drop (Suc k) (dr_view q)"
    using jq_find_ok [OF assms(1,2), of j] True by auto
  have split: "dr_view q = take k (dr_view q) @ Some v # drop (Suc k) (dr_view q)"
    using k(1,2) by (metis id_take_nth_drop)
  have before: "\<forall>w\<in>set (take k (dr_view q)). \<not> mine j w"
    using k(1,4) by (auto simp: in_set_conv_nth)
  have "k = ?n - 1 \<longleftrightarrow> drop (Suc k) (dr_view q) = []" using k(1) by auto
  then have "jq_get_job_task c no_steal held j q =
      Inr (waiting_plus (drop (Suc k) (dr_view q) = []), Some v, q')"
    using k(5) assms(3) by (auto simp: jq_get_job_task_def jq_find_def jq_weak_find_def do_work_def waiting_plus_def)
  with True split before k(3,6,7) show ?thesis
    by (simp only: if_True) (intro exI conjI, (assumption | rule refl)+)
next
  case False
  then show ?thesis
    using jq_find_ok [OF assms(1,2), of j] assms(3) by (auto simp add: jq_get_job_task_def jq_find_def jq_weak_find_def)
qed

section \<open>Properties of the job queue\<close>

text \<open>
  C10: a \<^verbatim>\<open>JobQueue\<close> is a sequence of work items that loses and duplicates none.  A push
  appends one item, \<^verbatim>\<open>AddTasks\<close> what its callback yields; \<^verbatim>\<open>Run\<close> takes the oldest; \<^verbatim>\<open>Steal\<close> takes
  the newest and says whether the
  queue went empty, or, without force, that another thread has the lock; \<^verbatim>\<open>GetJobTask\<close> takes the oldest
  item that belongs to the given job or to a job it spawned, directly or through others, and leaves all
  others in order, or, with \<open>noSteal\<close> off, says that another thread has the lock.  Hypotheses:
  the ring behind the queue is in its invariant and no item is null.
\<close>

theorem job_queue_refines_work_sequence:
  assumes "dr_ok c q" "c \<le> 32" "no_null q"
  shows "(\<exists>q'. jq_push_task c w q = Inr q' \<and> dr_ok c q' \<and> dr_view q' = dr_view q @ [w]) \<and>
    (\<exists>q'. jq_add_tasks c k cb q = Inr q' \<and> dr_ok c q' \<and> dr_view q' = dr_view q @ map cb [0..<k]) \<and>
    (dr_view q = [] \<longrightarrow> jq_run c q = Inr (Empty, None, q)) \<and>
    (\<forall>v ws. dr_view q = Some v # ws \<longrightarrow>
      (\<exists>q'. jq_run c q = Inr (Waiting, Some v, q') \<and> dr_ok c q' \<and> dr_view q' = ws)) \<and>
    (force \<or> \<not> held \<longrightarrow> (dr_view q = [] \<longrightarrow> jq_steal c force held q = Inr (Empty, None, q)) \<and>
      (\<forall>v ws. dr_view q = ws @ [Some v] \<longrightarrow>
        (\<exists>q'. jq_steal c force held q = Inr (if ws = [] then WentEmpty else Waiting, Some v, q') \<and>
          dr_ok c q' \<and> dr_view q' = ws))) \<and>
    jq_steal c False True q = Inr (Locked, None, q) \<and>
    (no_steal \<or> \<not> held \<longrightarrow>
     (if \<exists>w\<in>set (dr_view q). mine j w
      then \<exists>xs v ys q'. dr_view q = xs @ Some v # ys \<and> mine j (Some v) \<and> (\<forall>w\<in>set xs. \<not> mine j w) \<and>
        jq_get_job_task c no_steal held j q = Inr (if ys = [] then WentEmpty else Waiting, Some v, q') \<and>
        dr_ok c q' \<and> dr_view q' = xs @ ys
      else jq_get_job_task c no_steal held j q = Inr (Empty, None, q))) \<and>
    jq_get_job_task c False True j q = Inr (Locked, None, q)"
proof (intro conjI)
  show "\<exists>q'. jq_push_task c w q = Inr q' \<and> dr_ok c q' \<and> dr_view q' = dr_view q @ [w]"
    using assms(1) by (rule jq_push_ok)
  show "\<exists>q'. jq_add_tasks c k cb q = Inr q' \<and> dr_ok c q' \<and> dr_view q' = dr_view q @ map cb [0..<k]"
    using assms(1) by (rule jq_add_tasks_ok)
  show "force \<or> \<not> held \<longrightarrow> (dr_view q = [] \<longrightarrow> jq_steal c force held q = Inr (Empty, None, q)) \<and>
      (\<forall>v ws. dr_view q = ws @ [Some v] \<longrightarrow>
        (\<exists>q'. jq_steal c force held q = Inr (if ws = [] then WentEmpty else Waiting, Some v, q') \<and>
          dr_ok c q' \<and> dr_view q' = ws))"
    using jq_steal_ok [OF assms(1,3), of force held] unfolding waiting_plus_def by blast
  show "jq_steal c False True q = Inr (Locked, None, q)" by (simp add: jq_steal_def)
  show "no_steal \<or> \<not> held \<longrightarrow>
     (if \<exists>w\<in>set (dr_view q). mine j w
      then \<exists>xs v ys q'. dr_view q = xs @ Some v # ys \<and> mine j (Some v) \<and> (\<forall>w\<in>set xs. \<not> mine j w) \<and>
        jq_get_job_task c no_steal held j q = Inr (if ys = [] then WentEmpty else Waiting, Some v, q') \<and>
        dr_ok c q' \<and> dr_view q' = xs @ ys
      else jq_get_job_task c no_steal held j q = Inr (Empty, None, q))"
    using jq_get_job_task_ok [OF assms(1,2), of no_steal held j] unfolding waiting_plus_def by (rule impI)
  show "jq_get_job_task c False True j q = Inr (Locked, None, q)"
    by (simp add: jq_get_job_task_def jq_weak_find_def)
qed (use jq_run_ok [OF assms(1,3)] in blast)+

lemma new_job_queue: "dr_ok 8 jq_new \<and> dr_view jq_new = []"
  unfolding jq_new_def by (rule dr_new_ok) simp_all

lemma job_queue_refines_work_sequence_witness:
  "\<exists>q q'. jq_add_tasks 8 2 (\<lambda>i. Some (Job i None)) jq_new = Inr q \<and>
    jq_run 8 q = Inr (Waiting, Some (Job 0 None), q') \<and> dr_view q' = [Some (Job 1 None)] \<and>
    jq_get_job_task 8 False True (Job 1 None) q = Inr (Locked, None, q)"
proof -
  obtain q where q: "jq_add_tasks 8 2 (\<lambda>i. Some (Job i None)) jq_new = Inr q" "dr_ok 8 q"
    "dr_view q = [Some (Job 0 None), Some (Job 1 None)]"
    using jq_add_tasks_ok [of 8 jq_new 2 "\<lambda>i. Some (Job i None)"] new_job_queue
    by (auto simp: numeral_2_eq_2)
  have "no_null q" using q(3) by (simp add: no_null_def)
  then have "(\<forall>v ws. dr_view q = Some v # ws \<longrightarrow>
      (\<exists>q'. jq_run 8 q = Inr (Waiting, Some v, q') \<and> dr_ok 8 q' \<and> dr_view q' = ws)) \<and>
      jq_get_job_task 8 False True (Job 1 None) q = Inr (Locked, None, q)"
    using job_queue_refines_work_sequence [OF q(2)] by simp
  then show ?thesis using q by blast
qed

text \<open>
  \<^verbatim>\<open>GetJobTask\<close> reports \<^verbatim>\<open>WentEmpty\<close> ("queue emptied by current worker") whenever
  the item it takes is the newest one, although older items of other jobs remain in the queue.
\<close>

theorem get_job_task_reports_went_empty_early:
  assumes "dr_ok c q" "c \<le> 32" "dr_view q = xs @ [Some v]" "mine j (Some v)" "\<forall>w\<in>set xs. \<not> mine j w"
  shows "\<exists>q'. jq_get_job_task c True held j q = Inr (WentEmpty, Some v, q') \<and> dr_view q' = xs"
proof -
  have "\<exists>w\<in>set (dr_view q). mine j w" using assms(3,4) by auto
  then obtain as u bs q' where s: "dr_view q = as @ Some u # bs" "mine j (Some u)"
    "jq_get_job_task c True held j q = Inr (waiting_plus (bs = []), Some u, q')" "dr_view q' = as @ bs"
    using jq_get_job_task_ok [OF assms(1,2), of True held j] by auto
  have "bs = []"
  proof (rule ccontr)
    assume "bs \<noteq> []"
    then have "Some u \<in> set xs"
      using s(1) assms(3) by (metis append_butlast_last_id append_eq_append_conv2 butlast_append butlast_snoc
        in_set_conv_decomp list.distinct(1) butlast.simps(2))
    then show False using assms(5) s(2) by blast
  qed
  with s assms(3) show ?thesis by simp
qed

lemma get_job_task_reports_went_empty_early_witness:
  "\<exists>q q'. jq_add_tasks 8 2 (\<lambda>i. Some (Job i None)) jq_new = Inr q \<and>
    jq_get_job_task 8 True False (Job 1 None) q = Inr (WentEmpty, Some (Job 1 None), q') \<and>
    dr_view q' = [Some (Job 0 None)]"
proof -
  obtain q where q: "jq_add_tasks 8 2 (\<lambda>i. Some (Job i None)) jq_new = Inr q" "dr_ok 8 q"
    "dr_view q = [Some (Job 0 None)] @ [Some (Job 1 None)]"
    using jq_add_tasks_ok [of 8 jq_new 2 "\<lambda>i. Some (Job i None)"] new_job_queue
    by (auto simp: numeral_2_eq_2)
  have m: "mine (Job 1 None) (Some (Job 1 None))" "\<forall>w\<in>set [Some (Job 0 None)]. \<not> mine (Job 1 None) w"
    by (simp_all add: mine_def)
  show ?thesis
    using get_job_task_reports_went_empty_early [OF q(2) _ q(3) m, of False] q(1) by simp
qed

text \<open>When \<^verbatim>\<open>RunBlocked\<close> sends its worker off to steal, its own queue is empty.\<close>

lemma jq_run_blocked_empties:
  fixes env :: "'e job_env"
  assumes "jq_run_blocked c self env steal jobs st e q = Some r"
  shows "\<forall>jobs' st' q'. r = Inr (Empty, jobs', st', q') \<longrightarrow> dr_is_empty q'"
proof (rule jq_run_blocked.raw_induct [OF _ assms])
  fix rec :: "nat \<Rightarrow> nat option \<Rightarrow> 'e job_env \<Rightarrow> bool \<Rightarrow> job list \<Rightarrow> job_stats \<Rightarrow> 'e \<Rightarrow> job_tasks \<Rightarrow>
      (job_status \<times> job list \<times> job_stats \<times> job_tasks) run"
    and c self and env :: "'e job_env" and steal jobs st e q r
  assume ih: "\<And>c self env steal jobs st e q r. rec c self env steal jobs st e q = Some r \<Longrightarrow>
      \<forall>jobs' st' q'. r = Inr (Empty, jobs', st', q') \<longrightarrow> dr_is_empty q'"
  assume "(if dr_is_empty q
     then (if \<not> steal
           then let (ok, ws, e) = env_wait env e in
                bindO (Some (jq_arrive c ws q)) (\<lambda>q.
                  bindO (Some (jq_wait self ok st)) (\<lambda>(ok, st).
                    if \<not> ok then Some (Inr (Inactive, jobs, st, q))
                    else rec c self env True jobs st e q))
           else Some (Inr (Empty, jobs, st, q)))
     else bindO (Some (dr_front q)) (\<lambda>w.
            bindO (Some (dr_pop_front c q)) (\<lambda>q.
              bindO (if dr_is_empty q \<and> js_jobless st = None
                     then assertO (self \<noteq> None) (Some (Inr (st\<lparr>js_jobless := self\<rparr>)))
                     else Some (Inr st)) (\<lambda>st.
                bindO (Some (do_work w)) (\<lambda>j.
                  let (ws, e) = env_ran env j e in
                  bindO (Some (jq_arrive c ws q)) (\<lambda>q.
                    rec c self env steal (jobs @ [j]) st e q)))))) = Some r"
  then show "\<forall>jobs' st' q'. r = Inr (Empty, jobs', st', q') \<longrightarrow> dr_is_empty q'"
    using ih
    by (auto simp: bindO_eq_Some assertO_eq_Some Let_def case_prod_unfold split: if_splits)
qed

end
