(* ===== verification/ParallelFor.thy ===== *)
theory ParallelFor
  imports Prelude "HOL-Library.Multiset"
begin

text \<open>
  The work distribution of \<^verbatim>\<open>ion/jobs/ParallelForJob.h\<close> and \<^verbatim>\<open>ParallelForJob.cpp\<close>,
  \<^verbatim>\<open>ListJob.h\<close> and the driver \<^verbatim>\<open>JobScheduler::ParallelFor\<close>.

  Workers share nothing but the atomic counters of the partitions.  Each claims batches with
  one \<^verbatim>\<open>fetch_add\<close> per attempt and then calls the function on the items of its batch, one
  after the other; \<open>pf_act\<close> is one such step of one worker and \<open>pf_reach\<close> closes it under
  every interleaving.  Counters are natural numbers: 64-bit counters overflow only after more
  attempts than any run makes (\<open>pf_steps_bounded\<close>).
\<close>

section \<open>Partitions\<close>

record partition =
  pt_index :: nat
  pt_end :: nat
  pt_start :: nat

definition pt_new :: "nat \<Rightarrow> partition" where
  "pt_new items = \<lparr>pt_index = 0, pt_end = items, pt_start = 0\<rparr>"

definition pt_next :: "partition \<Rightarrow> nat \<times> partition" where
  "pt_next p = (pt_index p, p\<lparr>pt_index := pt_index p + 1\<rparr>)"

definition pt_set_end :: "nat \<Rightarrow> partition \<Rightarrow> partition" where
  "pt_set_end v p = p\<lparr>pt_end := v\<rparr>"

definition pt_set_start :: "nat \<Rightarrow> partition \<Rightarrow> partition" where
  "pt_set_start v p = p\<lparr>pt_start := v\<rparr>"

definition pt_reset_index :: "partition \<Rightarrow> partition" where
  "pt_reset_index p = p\<lparr>pt_index := 0\<rparr>"

text \<open>
  \<^verbatim>\<open>MultiPartition::Set\<close> resizes the partitions and writes the borders; a new partition's
  members have no particular value until they are written.
\<close>

fun multi_loop :: "nat \<Rightarrow> nat \<Rightarrow> nat \<Rightarrow> nat \<Rightarrow> partition list \<Rightarrow> partition list" where
  "multi_loop per 0 i index ps = ps"
| "multi_loop per (Suc k) i index ps =
    (let index = index + per;
         ps = ps[i - 1 := pt_set_end index (ps ! (i - 1))];
         ps = ps[i := pt_set_start index (pt_reset_index (ps ! i))] in
     multi_loop per k (i + 1) index ps)"

definition multi_set :: "nat \<Rightarrow> nat \<Rightarrow> nat \<Rightarrow> partition \<Rightarrow> partition list" where
  "multi_set max_queues items sz raw =
    (let partitions = min max_queues (items div sz);
         ps = (if partitions > 1
               then multi_loop (items div partitions) (partitions - 1) 1 0 (replicate partitions raw)
               else replicate 1 raw);
         ps = ps[0 := pt_set_start 0 (pt_reset_index (ps ! 0))] in
     ps[length ps - 1 := pt_set_end items (ps ! (length ps - 1))])"

section \<open>Claiming batches\<close>

text \<open>\<^verbatim>\<open>TaskList::FindTasks\<close>, \<^verbatim>\<open>TaskListBatched::FindTasks\<close> and \<^verbatim>\<open>ListJobBase::FindTasks\<close>.\<close>

definition find_task :: "partition \<Rightarrow> (nat \<times> nat) option \<times> partition" where
  "find_task p = (let (s, p) = pt_next p in (if s < pt_end p then Some (s, s + 1) else None, p))"

definition find_batch :: "nat \<Rightarrow> partition \<Rightarrow> (nat \<times> nat) option \<times> partition" where
  "find_batch b p =
    (let (k, p) = pt_next p;
         s = k * b + pt_start p;
         e = s + b in
     (if e \<ge> pt_end p
      then if s \<ge> pt_end p then None else Some (s, pt_end p)
      else Some (s, e), p))"

definition find_list_batch :: "nat \<Rightarrow> nat \<Rightarrow> nat \<Rightarrow> (nat \<times> nat) option \<times> nat" where
  "find_list_batch b items index =
    (let s = index * b; e = s + b in
     (if e \<ge> items then if s \<ge> items then None else Some (s, items) else Some (s, e), index + 1))"

text \<open>How many workers are asked for: the number of batches, rounded up.\<close>

definition num_task_lists :: "nat \<Rightarrow> nat \<Rightarrow> nat res" where
  "num_task_lists b items =
    assertR (b > 0)
      (Inr (if b \<noteq> 1
            then (let m = items mod b in (if m \<noteq> 0 then items + (b - m) else items) div b)
            else items))"

definition add_task_lists :: "nat \<Rightarrow> nat \<Rightarrow> nat res" where
  "add_task_lists worker_count nlists =
    assertR (nlists > 1) (Inr (min (nlists - 1) worker_count))"

definition list_job_task_lists :: "nat \<Rightarrow> nat \<Rightarrow> nat \<Rightarrow> nat res" where
  "list_job_task_lists worker_count b items =
    assertR (b > 0)
      (let batches = (if b \<noteq> 1
            then (let m = items mod b in (if m \<noteq> 0 then items + (b - m) else items) div b)
            else items) in
       assertR (batches > 1)
         (let nlists = min (batches - 1) worker_count in
          Inr (if batches > nlists * 2 then nlists * 2 else nlists)))"

section \<open>Workers\<close>

text \<open>
  A worker picks its first partition from the running index, then visits all partitions once,
  claiming batches from each until it has none left.
\<close>

datatype loop_worker =
    Idle
  | Seek nat nat           \<comment> \<open>first partition, partitions visited\<close>
  | Busy nat nat nat nat   \<comment> \<open>the same, next item and end of its batch\<close>
  | Finished

record pf_state =
  pf_parts :: "partition list"
  pf_running :: nat
  pf_workers :: "loop_worker list"
  pf_done :: "nat list"

definition pf_init :: "partition list \<Rightarrow> nat \<Rightarrow> pf_state" where
  "pf_init ps w = \<lparr>pf_parts = ps, pf_running = 0, pf_workers = replicate w Idle, pf_done = []\<rparr>"

definition pf_act :: "nat \<Rightarrow> nat \<Rightarrow> pf_state \<Rightarrow> pf_state option" where
  "pf_act b w st =
    (if w < length (pf_workers st)
     then case pf_workers st ! w of
       Idle \<Rightarrow> Some (st\<lparr>pf_workers := (pf_workers st)[w := Seek (pf_running st) 0],
                       pf_running := pf_running st + 1\<rparr>)
     | Seek f j \<Rightarrow>
         if j < length (pf_parts st)
         then let i = (f + j) mod length (pf_parts st);
                  (r, p) = find_batch b (pf_parts st ! i) in
           Some (st\<lparr>pf_parts := (pf_parts st)[i := p],
                   pf_workers := (pf_workers st)[w :=
                     (case r of None \<Rightarrow> Seek f (j + 1) | Some (s, e) \<Rightarrow> Busy f j s e)]\<rparr>)
         else Some (st\<lparr>pf_workers := (pf_workers st)[w := Finished]\<rparr>)
     | Busy f j s e \<Rightarrow>
         Some (st\<lparr>pf_done := pf_done st @ [s],
                 pf_workers := (pf_workers st)[w := if s + 1 \<noteq> e then Busy f j (s + 1) e else Seek f j]\<rparr>)
     | Finished \<Rightarrow> None
     else None)"

inductive pf_reach :: "nat \<Rightarrow> pf_state \<Rightarrow> nat \<Rightarrow> pf_state \<Rightarrow> bool" for b and init where
  start: "pf_reach b init 0 init"
| step: "pf_reach b init n st \<Longrightarrow> pf_act b w st = Some st' \<Longrightarrow> pf_reach b init (Suc n) st'"

section \<open>The driver\<close>

text \<open>
  \<^verbatim>\<open>JobScheduler::ParallelFor\<close> runs items itself until a queue is free, and hands the
  rest over to a job then, unless few items are left.  Items are positions below \<open>n\<close>;
  \<open>free i\<close> is what \<^verbatim>\<open>FindFreeQueue\<close> finds before item \<open>i\<close>, \<open>parallel\<close> what
  \<^verbatim>\<open>CheckParallelization\<close> answers, \<open>free0\<close> the status it leaves.  The result is the list of
  items run by the caller and the position from which a job takes over.
\<close>

definition parallel_last :: "nat \<Rightarrow> nat \<Rightarrow> nat \<Rightarrow> bool \<Rightarrow> nat" where
  "parallel_last n partition_size batch_size parallel =
    (let serial = max partition_size batch_size in
     if n > serial \<and> parallel then n - serial - 1 else n)"

function drive :: "nat \<Rightarrow> nat \<Rightarrow> nat \<Rightarrow> (nat \<Rightarrow> bool) \<Rightarrow> bool \<Rightarrow> nat list \<times> nat option" where
  "drive n i pl free now =
    (if i < n
     then if pl \<noteq> n \<and> now then ([], Some i)
          else let now' = (if pl \<noteq> n \<and> i \<noteq> pl then free i else now);
                   pl' = (if pl \<noteq> n \<and> i = pl then n else pl);
                   (xs, r) = drive n (i + 1) pl' free now' in
               (i # xs, r)
     else ([], None))"
  by pat_completeness auto

termination drive
  by (relation "measure (\<lambda>(n, i, pl, free, now). n - i)") auto

declare drive.simps [simp del]

definition parallel_for ::
    "nat \<Rightarrow> nat \<Rightarrow> nat \<Rightarrow> bool \<Rightarrow> bool \<Rightarrow> (nat \<Rightarrow> bool) \<Rightarrow> (nat list \<times> nat option) res" where
  "parallel_for n partition_size batch_size parallel free0 free =
    assertR (batch_size \<ge> 1)
      (assertR (partition_size > 0 \<or> batch_size = 1)
        (Inr (drive n 0 (parallel_last n partition_size batch_size parallel) free free0)))"

text \<open>The partitions a job works on, by the size of the partitions and batches.\<close>

definition job_partitions :: "nat \<Rightarrow> nat \<Rightarrow> nat \<Rightarrow> nat \<Rightarrow> partition \<Rightarrow> partition list \<times> nat" where
  "job_partitions max_queues items partition_size batch_size raw =
    (if partition_size \<le> 1 then ([pt_new items], 1)
     else if batch_size > partition_size then ([pt_new items], batch_size)
     else (multi_set max_queues items partition_size raw, batch_size))"

section \<open>The partitions cover the items\<close>

text \<open>Consecutive ranges from \<open>a\<close> to \<open>z\<close>.\<close>

fun tiles :: "nat \<Rightarrow> nat \<Rightarrow> partition list \<Rightarrow> bool" where
  "tiles a z [] \<longleftrightarrow> a = z"
| "tiles a z (p # ps) \<longleftrightarrow> pt_start p = a \<and> a \<le> pt_end p \<and> pt_index p = 0 \<and> tiles (pt_end p) z ps"

lemma tiles_append: "tiles a z (ps @ qs) \<longleftrightarrow> (\<exists>m. tiles a m ps \<and> tiles m z qs)"
  by (induction ps arbitrary: a) auto

lemma tiles_new: "tiles 0 items [pt_new items]"
  by (simp add: pt_new_def)

lemma tiles_le: "tiles a z ps \<Longrightarrow> a \<le> z"
  by (induction ps arbitrary: a) force+

text \<open>
  The loop: the first \<open>i\<close> partitions are cut, of the last of them only the start is written.
\<close>

lemma multi_loop_spec:
  "0 < i \<Longrightarrow> i + k = length ps \<Longrightarrow> tiles 0 index (take (i - 1) ps) \<Longrightarrow>
    pt_start (ps ! (i - 1)) = index \<Longrightarrow> pt_index (ps ! (i - 1)) = 0 \<Longrightarrow>
    (let qs = multi_loop per k i index ps in
     length qs = length ps \<and> tiles 0 (index + k * per) (butlast qs) \<and>
     pt_start (last qs) = index + k * per \<and> pt_index (last qs) = 0)"
proof (induction k arbitrary: i index ps)
  case 0
  then have ne: "ps \<noteq> []" and i: "length ps - 1 = i - 1" by auto
  have "butlast ps = take (i - 1) ps" "last ps = ps ! (i - 1)"
    using i by (simp_all only: butlast_conv_take last_conv_nth [OF ne])
  then show ?case using 0 by (simp only: Let_def multi_loop.simps) simp
next
  case (Suc k)
  let ?ps = "ps[i - 1 := pt_set_end (index + per) (ps ! (i - 1))]"
  let ?qs = "?ps[i := pt_set_start (index + per) (pt_reset_index (?ps ! i))]"
  have len: "i < length ps" using Suc.prems(2) by simp
  have "take i ?qs = take (i - 1) ps @ [pt_set_end (index + per) (ps ! (i - 1))]"
    using Suc.prems(1) len by (intro nth_equalityI) (auto simp: nth_append nth_list_update min_def)
  then have "tiles 0 (index + per) (take i ?qs)"
    using Suc.prems(3-5) by (simp add: tiles_append pt_set_end_def)
  moreover have "pt_start (?qs ! i) = index + per" "pt_index (?qs ! i) = 0"
    using len by (simp_all add: pt_set_start_def pt_reset_index_def)
  ultimately show ?case
    using Suc.IH [of "i + 1" ?qs "index + per"] Suc.prems(2) by (simp add: Let_def algebra_simps)
qed

text \<open>The first partition's start and counter may be written before the loop or after it.\<close>

definition pt_first :: "partition \<Rightarrow> partition" where
  "pt_first p = pt_set_start 0 (pt_reset_index p)"

lemma multi_loop_first:
  "0 < i \<Longrightarrow> i + k = length ps \<Longrightarrow>
    multi_loop per k i index (ps[0 := pt_first (ps ! 0)]) =
      (multi_loop per k i index ps)[0 := pt_first (multi_loop per k i index ps ! 0)]"
proof (induction k arbitrary: i index ps)
  case (Suc k)
  let ?step = "\<lambda>ps. let ps = ps[i - 1 := pt_set_end (index + per) (ps ! (i - 1))] in
    ps[i := pt_set_start (index + per) (pt_reset_index (ps ! i))]"
  have "?step (ps[0 := pt_first (ps ! 0)]) = (?step ps)[0 := pt_first (?step ps ! 0)]"
  proof (cases "i = 1")
    case True
    obtain x y qs where "ps = x # y # qs"
      using Suc.prems(2) True by (cases ps; cases "tl ps") auto
    with True show ?thesis
      by (simp add: Let_def pt_first_def pt_set_start_def pt_set_end_def pt_reset_index_def)
  next
    case False
    then show ?thesis
      using Suc.prems by (simp add: Let_def list_update_swap)
  qed
  moreover have "length (?step ps) = length ps" by (simp add: Let_def)
  ultimately show ?case
    using Suc.IH [of "i + 1" "?step ps" "index + per"] Suc.prems by (simp add: Let_def)
qed simp

lemma multi_set_tiles:
  assumes "0 < sz" "0 < max_queues"
  shows "tiles 0 items (multi_set max_queues items sz raw)"
proof -
  define n where "n = min max_queues (items div sz)"
  show ?thesis
  proof (cases "n > 1")
    case False
    then show ?thesis
      by (simp add: multi_set_def n_def [symmetric] Let_def pt_set_start_def pt_set_end_def pt_reset_index_def)
  next
    case True
    let ?ps = "(replicate n raw)[0 := pt_first (replicate n raw ! 0)]"
    let ?qs = "multi_loop (items div n) (n - 1) 1 0 ?ps"
    have first: "pt_start (?ps ! 0) = 0" "pt_index (?ps ! 0) = 0"
      using True by (simp_all add: pt_first_def pt_set_start_def pt_reset_index_def)
    have spec: "length ?qs = n" "tiles 0 ((n - 1) * (items div n)) (butlast ?qs)"
      "pt_start (last ?qs) = (n - 1) * (items div n)" "pt_index (last ?qs) = 0"
      using multi_loop_spec [of 1 "n - 1" ?ps 0 "items div n"] first True by (simp_all add: Let_def)
    have ne: "?qs \<noteq> []" using spec(1) True by auto
    have "multi_set max_queues items sz raw = ?qs[n - 1 := pt_set_end items (?qs ! (n - 1))]"
    proof -
      have "multi_loop (items div n) (n - 1) 1 0 ?ps =
        (multi_loop (items div n) (n - 1) 1 0 (replicate n raw))
          [0 := pt_first (multi_loop (items div n) (n - 1) 1 0 (replicate n raw) ! 0)]"
        by (rule multi_loop_first) (use True in simp_all)
      then show ?thesis
        using True spec(1) by (simp add: multi_set_def n_def [symmetric] Let_def pt_first_def)
    qed
    also have "\<dots> = butlast ?qs @ [pt_set_end items (last ?qs)]"
      using ne spec(1) by (metis append_butlast_last_id last_conv_nth length_butlast list_update_length)
    finally have eq: "multi_set max_queues items sz raw = butlast ?qs @ [pt_set_end items (last ?qs)]" .
    have "(n - 1) * (items div n) \<le> n * (items div n)" by (rule mult_right_mono) simp_all
    also have "\<dots> \<le> items" by simp
    finally show ?thesis
      unfolding eq using spec(2-4) by (simp add: tiles_append pt_set_end_def)
  qed
qed

section \<open>What is claimed, in flight and done\<close>

lemma upt_split: "i \<le> j \<Longrightarrow> j \<le> k \<Longrightarrow> [i..<k] = [i..<j] @ [j..<k]"
  by (metis le_add_diff_inverse upt_add_eq_append)

definition claimed :: "nat \<Rightarrow> partition \<Rightarrow> nat list" where
  "claimed b p = [pt_start p ..< min (pt_end p) (pt_start p + pt_index p * b)]"

definition exhausted :: "nat \<Rightarrow> partition \<Rightarrow> bool" where
  "exhausted b p \<longleftrightarrow> pt_end p \<le> pt_start p + pt_index p * b"

fun covers :: "nat \<Rightarrow> nat \<Rightarrow> partition list \<Rightarrow> bool" where
  "covers a z [] \<longleftrightarrow> a = z"
| "covers a z (p # ps) \<longleftrightarrow> pt_start p = a \<and> a \<le> pt_end p \<and> covers (pt_end p) z ps"

lemma tiles_covers: "tiles a z ps \<Longrightarrow> covers a z ps"
  by (induction ps arbitrary: a) auto

lemma covers_le: "covers a z ps \<Longrightarrow> a \<le> z"
  by (induction ps arbitrary: a) force+

lemma covers_concat: "covers a z ps \<Longrightarrow> concat (map (\<lambda>p. [pt_start p..<pt_end p]) ps) = [a..<z]"
proof (induction ps arbitrary: a)
  case (Cons p ps)
  then have "[a..<z] = [a..<pt_end p] @ [pt_end p..<z]"
    using covers_le by (metis covers.simps(2) le_add_diff_inverse upt_add_eq_append)
  then show ?case using Cons by auto
qed simp

lemma covers_update:
  "covers a z ps \<Longrightarrow> i < length ps \<Longrightarrow> pt_start p = pt_start (ps ! i) \<Longrightarrow> pt_end p = pt_end (ps ! i) \<Longrightarrow>
    covers a z (ps[i := p])"
proof (induction ps arbitrary: a i)
  case (Cons q ps)
  then show ?case by (cases i) auto
qed simp

lemma covers_ordered: "covers a z ps \<Longrightarrow> p \<in> set ps \<Longrightarrow> pt_start p \<le> pt_end p"
  by (induction ps arbitrary: a) auto

lemma find_batch_Some:
  assumes "find_batch b p = (Some (s, e), p')" "0 < b" "pt_start p \<le> pt_end p"
  shows "p' = p\<lparr>pt_index := pt_index p + 1\<rparr>" "s < e" "e - s \<le> b" "claimed b p' = claimed b p @ [s..<e]"
proof -
  have se: "s = pt_index p * b + pt_start p" "s < pt_end p" "e = min (pt_end p) (s + b)"
    and p': "p' = p\<lparr>pt_index := pt_index p + 1\<rparr>"
    using assms(1,2) by (auto simp: find_batch_def pt_next_def Let_def min_def split: if_splits)
  show "p' = p\<lparr>pt_index := pt_index p + 1\<rparr>" by (rule p')
  show "s < e" "e - s \<le> b" using se assms(2) by auto
  have "claimed b p = [pt_start p..<s]" using se by (simp add: claimed_def min_def add.commute)
  moreover have "claimed b p' = [pt_start p..<e]"
    using se p' by (simp add: claimed_def algebra_simps)
  moreover have "[pt_start p..<e] = [pt_start p..<s] @ [s..<e]"
    using se by (intro upt_split) auto
  ultimately show "claimed b p' = claimed b p @ [s..<e]" by simp
qed

lemma find_batch_None:
  assumes "find_batch b p = (None, p')"
  shows "p' = p\<lparr>pt_index := pt_index p + 1\<rparr>" "exhausted b p" "claimed b p' = claimed b p"
proof -
  have ex: "pt_end p \<le> pt_index p * b + pt_start p" and p': "p' = p\<lparr>pt_index := pt_index p + 1\<rparr>"
    using assms by (auto simp: find_batch_def pt_next_def Let_def split: if_splits)
  show "p' = p\<lparr>pt_index := pt_index p + 1\<rparr>" "exhausted b p"
    using ex p' by (simp_all add: exhausted_def add.commute)
  have "pt_end p \<le> pt_start p + (pt_index p * b + b)" using ex by simp
  then show "claimed b p' = claimed b p"
    using ex p' by (simp add: claimed_def min_def algebra_simps)
qed

lemma exhausted_next: "exhausted b p \<Longrightarrow> exhausted b (p\<lparr>pt_index := pt_index p + 1\<rparr>)"
  by (simp add: exhausted_def)

lemma claimed_exhausted: "exhausted b p \<Longrightarrow> claimed b p = [pt_start p..<pt_end p]"
  by (simp add: claimed_def exhausted_def min_def)

lemma claimed_subset: "mset (claimed b p) \<subseteq># mset [pt_start p..<pt_end p]"
proof -
  let ?m = "min (pt_end p) (pt_start p + pt_index p * b)"
  show ?thesis
  proof (cases "pt_start p \<le> pt_end p")
    case True
    then have "[pt_start p..<pt_end p] = [pt_start p..<?m] @ [?m..<pt_end p]"
      by (intro upt_split) auto
    then show ?thesis by (simp add: claimed_def)
  next
    case False
    then show ?thesis by (simp add: claimed_def)
  qed
qed

definition all_claimed :: "nat \<Rightarrow> partition list \<Rightarrow> nat multiset" where
  "all_claimed b ps = (\<Sum>p\<leftarrow>ps. mset (claimed b p))"

fun in_flight :: "loop_worker \<Rightarrow> nat multiset" where
  "in_flight (Busy f j s e) = mset [s..<e]"
| "in_flight _ = {#}"

text \<open>What a worker has seen: the partitions it has left are exhausted.\<close>

definition visited :: "nat \<Rightarrow> partition list \<Rightarrow> nat \<Rightarrow> nat \<Rightarrow> bool" where
  "visited b ps f j \<longleftrightarrow> j \<le> length ps \<and> (\<forall>i<j. exhausted b (ps ! ((f + i) mod length ps)))"

fun worker_ok :: "nat \<Rightarrow> partition list \<Rightarrow> loop_worker \<Rightarrow> bool" where
  "worker_ok b ps Idle \<longleftrightarrow> True"
| "worker_ok b ps (Seek f j) \<longleftrightarrow> visited b ps f j"
| "worker_ok b ps (Busy f j s e) \<longleftrightarrow> s < e \<and> visited b ps f j"
| "worker_ok b ps Finished \<longleftrightarrow> (\<forall>p\<in>set ps. exhausted b p)"

definition pf_inv :: "nat \<Rightarrow> nat \<Rightarrow> pf_state \<Rightarrow> bool" where
  "pf_inv b z st \<longleftrightarrow> covers 0 z (pf_parts st) \<and>
    mset (pf_done st) + (\<Sum>w\<leftarrow>pf_workers st. in_flight w) = all_claimed b (pf_parts st) \<and>
    (\<forall>w\<in>set (pf_workers st). worker_ok b (pf_parts st) w)"

lemma sum_list_update_mset:
  "i < length xs \<Longrightarrow> f (xs ! i) + (\<Sum>x\<leftarrow>xs[i := y]. f x) = f y + (\<Sum>x\<leftarrow>xs. f x)" for f :: "'a \<Rightarrow> 'b multiset"
proof (induction xs arbitrary: i)
  case (Cons x xs)
  then show ?case by (cases i) (auto simp: ac_simps)
qed simp

lemma all_claimed_subset: "all_claimed b ps \<subseteq># mset (concat (map (\<lambda>p. [pt_start p..<pt_end p]) ps))"
  unfolding all_claimed_def by (induction ps) (auto intro!: subset_mset.add_mono claimed_subset simp del: mset_upt)

lemma pf_inv_distinct: "pf_inv b z st \<Longrightarrow> mset (pf_done st) \<subseteq># mset [0..<z]"
  using all_claimed_subset [of b "pf_parts st"] covers_concat [of 0 z "pf_parts st"]
  unfolding pf_inv_def by (metis mset_subset_eq_add_left subset_mset.order_trans)

section \<open>Every step keeps the invariant\<close>

lemma visited_mono:
  assumes "visited b ps f j" "length ps' = length ps" "\<And>i. i < length ps \<Longrightarrow> exhausted b (ps ! i) \<Longrightarrow> exhausted b (ps' ! i)"
  shows "visited b ps' f j"
proof -
  have "exhausted b (ps' ! ((f + i) mod length ps'))" if i: "i < j" for i
  proof -
    have "0 < length ps" using assms(1) i by (auto simp: visited_def)
    then show ?thesis using assms i by (auto simp: visited_def)
  qed
  then show ?thesis using assms(1,2) by (simp add: visited_def)
qed

lemma worker_ok_mono:
  assumes "worker_ok b ps w" "length ps' = length ps" "\<And>i. i < length ps \<Longrightarrow> exhausted b (ps ! i) \<Longrightarrow> exhausted b (ps' ! i)"
  shows "worker_ok b ps' w"
proof (cases w)
  case Finished
  then show ?thesis using assms by (auto simp: all_set_conv_all_nth)
qed (use assms visited_mono [OF _ assms(2,3)] in auto)

lemma exhausted_update:
  "i < length ps \<Longrightarrow> exhausted b (ps ! i) \<Longrightarrow>
    exhausted b (ps[k := (ps ! k)\<lparr>pt_index := pt_index (ps ! k) + 1\<rparr>] ! i)"
  by (cases "i = k") (auto intro: exhausted_next [simplified])

lemma visited_Suc:
  "visited b ps f j \<Longrightarrow> j < length ps \<Longrightarrow> exhausted b (ps ! ((f + j) mod length ps)) \<Longrightarrow> visited b ps f (Suc j)"
  by (auto simp: visited_def less_Suc_eq)

text \<open>A worker that has visited all partitions has seen each of them.\<close>

lemma visited_all:
  assumes "visited b ps f (length ps)" "p \<in> set ps"
  shows "exhausted b p"
proof -
  let ?n = "length ps"
  obtain k where k: "k < ?n" "ps ! k = p" using assms(2) by (auto simp: in_set_conv_nth)
  have n: "0 < ?n" using k(1) by linarith
  have "(\<lambda>i. (f + i) mod ?n) ` {..<?n} = {..<?n}"
  proof (rule endo_inj_surj)
    show "inj_on (\<lambda>i. (f + i) mod ?n) {..<?n}"
    proof (rule inj_onI)
      fix x y assume xy: "x \<in> {..<?n}" "y \<in> {..<?n}" "(f + x) mod ?n = (f + y) mod ?n"
      have e: "(f mod ?n + x) mod ?n = (f mod ?n + y) mod ?n"
        using xy(3) by (simp only: mod_add_left_eq)
      have "f mod ?n < ?n" using k(1) by (intro mod_less_divisor) linarith
      moreover have "x < ?n" "y < ?n" using xy(1,2) by simp_all
      ultimately have "x = y" using e mod_add_inj by blast
      then show "x = y" .
    qed
  qed (use n in auto)
  then have "k \<in> (\<lambda>i. (f + i) mod ?n) ` {..<?n}" using k(1) by (simp only: lessThan_iff)
  then obtain i where i: "k = (f + i) mod ?n" "i \<in> {..<?n}" by (rule imageE)
  have "exhausted b (ps ! ((f + i) mod ?n))" using assms(1) i(2) unfolding visited_def lessThan_iff by blast
  then show ?thesis unfolding i(1) [symmetric] k(2) .
qed

lemma pf_inv_move:
  assumes inv: "pf_inv b z st" and w: "w < length (pf_workers st)"
    and ps: "covers 0 z ps" "length ps = length (pf_parts st)"
      "\<And>i. i < length (pf_parts st) \<Longrightarrow> exhausted b (pf_parts st ! i) \<Longrightarrow> exhausted b (ps ! i)"
    and bal: "mset ds + in_flight x + all_claimed b (pf_parts st) =
      mset (pf_done st) + in_flight (pf_workers st ! w) + all_claimed b ps"
    and ok: "worker_ok b ps x"
  shows "pf_inv b z \<lparr>pf_parts = ps, pf_running = r, pf_workers = (pf_workers st)[w := x], pf_done = ds\<rparr>"
proof -
  let ?S = "\<Sum>w\<leftarrow>pf_workers st. in_flight w"
  let ?S' = "\<Sum>w\<leftarrow>(pf_workers st)[w := x]. in_flight w"
  have upd: "in_flight (pf_workers st ! w) + ?S' = in_flight x + ?S"
    using sum_list_update_mset [OF w] .
  have old: "mset (pf_done st) + ?S = all_claimed b (pf_parts st)" using inv by (simp add: pf_inv_def)
  have "mset ds + ?S' = all_claimed b ps"
  proof (rule multiset_eqI)
    fix a
    have "count (in_flight (pf_workers st ! w)) a + count ?S' a = count (in_flight x) a + count ?S a"
      using upd by (metis count_union)
    moreover have "count (mset (pf_done st)) a + count ?S a = count (all_claimed b (pf_parts st)) a"
      using old by (metis count_union)
    moreover have "count (mset ds) a + count (in_flight x) a + count (all_claimed b (pf_parts st)) a =
        count (mset (pf_done st)) a + count (in_flight (pf_workers st ! w)) a + count (all_claimed b ps) a"
      using bal by (metis count_union)
    ultimately show "count (mset ds + ?S') a = count (all_claimed b ps) a" unfolding count_union by linarith
  qed
  moreover have "worker_ok b ps v" if "v \<in> set ((pf_workers st)[w := x])" for v
  proof -
    have "v = x \<or> v \<in> set (pf_workers st)" using that by (meson insert_iff set_update_subset_insert subsetD)
    moreover have "worker_ok b (pf_parts st) v" if "v \<in> set (pf_workers st)"
      using inv that by (simp add: pf_inv_def)
    ultimately show ?thesis using ok worker_ok_mono [OF _ ps(2,3)] by blast
  qed
  ultimately show ?thesis using ps(1) by (simp add: pf_inv_def)
qed

lemma pf_inv_act:
  assumes b: "0 < b" and inv: "pf_inv b z st" and act: "pf_act b w st = Some st'"
  shows "pf_inv b z st'"
proof -
  let ?ps = "pf_parts st" and ?x = "pf_workers st ! w"
  have w: "w < length (pf_workers st)" using act by (auto simp: pf_act_def split: if_splits)
  have ok: "worker_ok b ?ps ?x" using inv w by (simp add: pf_inv_def)
  have cov: "covers 0 z ?ps" using inv by (simp add: pf_inv_def)
  show ?thesis
  proof (cases ?x)
    case Idle
    have "st' = \<lparr>pf_parts = ?ps, pf_running = pf_running st + 1,
        pf_workers = (pf_workers st)[w := Seek (pf_running st) 0], pf_done = pf_done st\<rparr>"
      using act w Idle by (auto simp: pf_act_def)
    then show ?thesis
      using pf_inv_move [OF inv w cov, of "pf_done st" "Seek (pf_running st) 0"] Idle by (simp add: visited_def)
  next
    case (Busy f j s e)
    let ?y = "if s + 1 \<noteq> e then Busy f j (s + 1) e else Seek f j"
    have se: "s < e" "visited b ?ps f j" using ok Busy by simp_all
    have "st' = \<lparr>pf_parts = ?ps, pf_running = pf_running st,
        pf_workers = (pf_workers st)[w := ?y], pf_done = pf_done st @ [s]\<rparr>"
      using act w Busy by (auto simp: pf_act_def)
    moreover have "mset [s..<e] = mset [s] + in_flight ?y"
      using se(1) by (auto simp: upt_conv_Cons [of s e] simp del: mset_upt)
    then have "mset (pf_done st @ [s]) + in_flight ?y + all_claimed b ?ps =
        mset (pf_done st) + in_flight ?x + all_claimed b ?ps"
      using Busy by (simp add: ac_simps del: mset_upt)
    moreover have "worker_ok b ?ps ?y" using se by auto
    ultimately show ?thesis using pf_inv_move [OF inv w cov] by blast
  next
    case (Seek f j)
    have vis: "visited b ?ps f j" using ok Seek by simp
    show ?thesis
    proof (cases "j < length ?ps")
      case False
      then have "j = length ?ps" using vis by (simp add: visited_def)
      then have "worker_ok b ?ps Finished" using vis visited_all by auto
      moreover have "st' = \<lparr>pf_parts = ?ps, pf_running = pf_running st,
          pf_workers = (pf_workers st)[w := Finished], pf_done = pf_done st\<rparr>"
        using act w Seek False by (auto simp: pf_act_def)
      ultimately show ?thesis using pf_inv_move [OF inv w cov, of "pf_done st" Finished] Seek by simp
    next
      case True
      let ?i = "(f + j) mod length ?ps"
      have i: "?i < length ?ps" using True by (intro mod_less_divisor) auto
      let ?q = "(?ps ! ?i)\<lparr>pt_index := pt_index (?ps ! ?i) + 1\<rparr>"
      obtain r p where rp: "find_batch b (?ps ! ?i) = (r, p)" by force
      let ?y = "case r of None \<Rightarrow> Seek f (j + 1) | Some (s, e) \<Rightarrow> Busy f j s e"
      have st': "st' = \<lparr>pf_parts = ?ps[?i := p], pf_running = pf_running st,
          pf_workers = (pf_workers st)[w := ?y], pf_done = pf_done st\<rparr>"
        using act w Seek True rp by (auto simp: pf_act_def Let_def)
      have ord: "pt_start (?ps ! ?i) \<le> pt_end (?ps ! ?i)" using covers_ordered [OF cov] i by simp
      have p: "p = ?q"
        using rp find_batch_Some(1) [OF _ b ord] find_batch_None(1) by (cases r) auto
      have cov': "covers 0 z (?ps[?i := p])" by (rule covers_update [OF cov i]) (simp_all add: p)
      have mono: "exhausted b (?ps[?i := p] ! k)" if "k < length ?ps" "exhausted b (?ps ! k)" for k
        using exhausted_update [OF that, of ?i] p by simp
      have ac: "mset (claimed b (?ps ! ?i)) + all_claimed b (?ps[?i := p]) = mset (claimed b p) + all_claimed b ?ps"
        unfolding all_claimed_def by (rule sum_list_update_mset [OF i])
      have bal: "mset (pf_done st) + in_flight ?y + all_claimed b ?ps =
          mset (pf_done st) + in_flight ?x + all_claimed b (?ps[?i := p])"
      proof (cases r)
        case None
        then show ?thesis using ac find_batch_None(3) [of b "?ps ! ?i" p] rp Seek by simp
      next
        case (Some se)
        obtain s e where se: "se = (s, e)" by force
        have "mset (claimed b p) = mset (claimed b (?ps ! ?i)) + mset [s..<e]"
          using find_batch_Some(4) [OF _ b ord] rp Some se by (metis mset_append)
        then show ?thesis using ac Some se Seek by (simp add: ac_simps del: mset_upt)
      qed
      have "worker_ok b (?ps[?i := p]) ?y"
      proof (cases r)
        case None
        then have "visited b ?ps f (Suc j)"
          using vis True find_batch_None(2) [of b "?ps ! ?i" p] rp by (intro visited_Suc) simp_all
        then show ?thesis using None visited_mono [OF _ _ mono] by simp
      next
        case (Some se)
        obtain s e where se: "se = (s, e)" by force
        then have "s < e" using find_batch_Some(2) [OF _ b ord] rp Some by blast
        then show ?thesis using Some se vis visited_mono [OF _ _ mono] by simp
      qed
      then show ?thesis
        unfolding st' by (intro pf_inv_move [OF inv w cov' _ mono bal]) simp_all
    qed
  qed (use act w in \<open>simp add: pf_act_def\<close>)
qed

section \<open>Runs\<close>

lemma pf_init_inv:
  assumes "tiles 0 z ps"
  shows "pf_inv b z (pf_init ps w)"
proof -
  have "all_claimed b qs = {#}" if "tiles a z qs" for a qs
    using that by (induction qs arbitrary: a) (auto simp: all_claimed_def claimed_def)
  moreover have "(\<Sum>x\<leftarrow>replicate w Idle. in_flight x) = {#}" by (induction w) auto
  ultimately show ?thesis
    using assms tiles_covers by (auto simp: pf_inv_def pf_init_def)
qed

lemma pf_reach_inv:
  "pf_reach b init k st \<Longrightarrow> 0 < b \<Longrightarrow> pf_inv b z init \<Longrightarrow> pf_inv b z st"
  by (induction rule: pf_reach.induct) (auto intro: pf_inv_act)

lemma pf_act_length:
  "pf_act b w st = Some st' \<Longrightarrow> length (pf_workers st') = length (pf_workers st) \<and>
    length (pf_parts st') = length (pf_parts st)"
  by (auto simp: pf_act_def Let_def split: if_splits loop_worker.splits prod.splits)

lemma pf_reach_length:
  "pf_reach b init k st \<Longrightarrow> length (pf_workers st) = length (pf_workers init) \<and>
    length (pf_parts st) = length (pf_parts init)"
  by (induction rule: pf_reach.induct) (auto dest: pf_act_length)

lemma pf_finished_done:
  assumes "pf_inv b z st" "pf_workers st \<noteq> []" "\<forall>w\<in>set (pf_workers st). w = Finished"
  shows "mset (pf_done st) = mset [0..<z]"
proof -
  have none: "(\<Sum>w\<leftarrow>ws. in_flight w) = {#}" if "\<forall>w\<in>set ws. w = Finished" for ws
    using that by (induction ws) auto
  have "worker_ok b (pf_parts st) (hd (pf_workers st))"
    using assms(1) hd_in_set [OF assms(2)] unfolding pf_inv_def by blast
  have ex: "\<forall>p\<in>set (pf_parts st). exhausted b p"
  proof -
    have "hd (pf_workers st) = Finished" using assms(3) hd_in_set [OF assms(2)] by blast
    then show ?thesis using \<open>worker_ok b (pf_parts st) (hd (pf_workers st))\<close> by simp
  qed
  have "all_claimed b ps = mset (concat (map (\<lambda>p. [pt_start p..<pt_end p]) ps))"
    if "\<forall>p\<in>set ps. exhausted b p" for ps
    using that by (induction ps) (auto simp: all_claimed_def claimed_exhausted simp del: mset_upt)
  then show ?thesis
    using assms(1) none [OF assms(3)] ex covers_concat [of 0 z "pf_parts st"] by (simp add: pf_inv_def)
qed

text \<open>Every step uses up some of a bounded amount of work.\<close>

definition unclaimed :: "nat \<Rightarrow> partition \<Rightarrow> nat" where
  "unclaimed b p = pt_end p - (pt_start p + pt_index p * b)"

fun worker_cost :: "nat \<Rightarrow> loop_worker \<Rightarrow> nat" where
  "worker_cost n Idle = n + 2"
| "worker_cost n (Seek f j) = n - j + 1"
| "worker_cost n (Busy f j s e) = 2 * (e - s) + (n - j) + 1"
| "worker_cost n Finished = 0"

definition pf_measure :: "nat \<Rightarrow> pf_state \<Rightarrow> nat" where
  "pf_measure b st = 3 * (\<Sum>p\<leftarrow>pf_parts st. unclaimed b p) +
    (\<Sum>w\<leftarrow>pf_workers st. worker_cost (length (pf_parts st)) w)"

lemma sum_list_update_nat:
  "i < length xs \<Longrightarrow> f (xs ! i) + (\<Sum>x\<leftarrow>xs[i := y]. f x) = f y + (\<Sum>x\<leftarrow>xs. f x)" for f :: "'a \<Rightarrow> nat"
proof (induction xs arbitrary: i)
  case (Cons x xs)
  then show ?case by (cases i) auto
qed simp

lemma unclaimed_Some:
  assumes "find_batch b p = (Some (s, e), p')" "0 < b" "pt_start p \<le> pt_end p"
  shows "unclaimed b p = unclaimed b p' + (e - s)"
  using assms by (auto simp: find_batch_def pt_next_def Let_def unclaimed_def algebra_simps split: if_splits)

lemma unclaimed_None: "find_batch b p = (None, p') \<Longrightarrow> unclaimed b p' = unclaimed b p"
  by (auto simp: find_batch_def pt_next_def Let_def unclaimed_def algebra_simps split: if_splits)

lemma pf_act_measure:
  assumes b: "0 < b" and inv: "pf_inv b z st" and act: "pf_act b w st = Some st'"
  shows "pf_measure b st' < pf_measure b st"
proof -
  let ?ps = "pf_parts st" and ?x = "pf_workers st ! w"
  let ?n = "length ?ps"
  have w: "w < length (pf_workers st)" using act by (auto simp: pf_act_def split: if_splits)
  have ok: "worker_ok b ?ps ?x" using inv w by (simp add: pf_inv_def)
  note upd = sum_list_update_nat [OF w, of "worker_cost ?n"]
  show ?thesis
  proof (cases ?x)
    case Idle
    then show ?thesis
      using act w upd [of "Seek (pf_running st) 0"] by (auto simp: pf_act_def pf_measure_def)
  next
    case (Busy f j s e)
    then show ?thesis
      using act w ok upd [of "Seek f j"] upd [of "Busy f j (s + 1) e"]
      by (auto simp: pf_act_def pf_measure_def split: if_splits)
  next
    case (Seek f j)
    show ?thesis
    proof (cases "j < ?n")
      case False
      then show ?thesis
        using act w Seek upd [of Finished] by (auto simp: pf_act_def pf_measure_def)
    next
      case True
      let ?i = "(f + j) mod ?n"
      have i: "?i < ?n" using True by (intro mod_less_divisor) auto
      obtain r p where rp: "find_batch b (?ps ! ?i) = (r, p)" by force
      let ?y = "case r of None \<Rightarrow> Seek f (j + 1) | Some (s, e) \<Rightarrow> Busy f j s e"
      have st': "st' = st\<lparr>pf_parts := ?ps[?i := p], pf_workers := (pf_workers st)[w := ?y]\<rparr>"
        using act w Seek True rp by (auto simp: pf_act_def Let_def)
      have ord: "pt_start (?ps ! ?i) \<le> pt_end (?ps ! ?i)"
        using covers_ordered [of 0 z ?ps] inv i by (simp add: pf_inv_def)
      note un = sum_list_update_nat [OF i, of "unclaimed b" p]
      show ?thesis
      proof (cases r)
        case None
        then show ?thesis
          using st' un upd [of ?y] unclaimed_None [of b "?ps ! ?i" p] rp True Seek by (simp add: pf_measure_def)
      next
        case (Some se)
        obtain s e where se: "se = (s, e)" by force
        have "unclaimed b (?ps ! ?i) = unclaimed b p + (e - s)" "s < e"
          using unclaimed_Some [OF _ b ord] find_batch_Some(2) [OF _ b ord] rp Some se by blast+
        then show ?thesis
          using st' un upd [of ?y] Some se Seek by (simp add: pf_measure_def)
      qed
    qed
  qed (use act w in \<open>simp add: pf_act_def\<close>)
qed

lemma pf_steps_bounded:
  "pf_reach b init k st \<Longrightarrow> 0 < b \<Longrightarrow> pf_inv b z init \<Longrightarrow> k + pf_measure b st \<le> pf_measure b init"
proof (induction rule: pf_reach.induct)
  case (step n st w st')
  then have "pf_measure b st' < pf_measure b st" using pf_act_measure pf_reach_inv by blast
  then show ?case using step by simp
qed simp

lemma pf_init_measure:
  assumes "tiles 0 z ps"
  shows "pf_measure b (pf_init ps w) = 3 * z + w * (length ps + 2)"
proof -
  have sum: "a + (\<Sum>p\<leftarrow>qs. unclaimed b p) = z" if "tiles a z qs" for a qs
    using that
  proof (induction qs arbitrary: a)
    case (Cons p qs)
    then have "pt_end p + (\<Sum>p\<leftarrow>qs. unclaimed b p) = z" by simp
    then show ?case using Cons.prems by (simp add: unclaimed_def)
  qed simp
  have "(\<Sum>x\<leftarrow>replicate w Idle. worker_cost n x) = w * (n + 2)" for n by (induction w) auto
  then show ?thesis using sum [OF assms] by (simp add: pf_measure_def pf_init_def)
qed

section \<open>The driver\<close>

lemma drive_ok:
  assumes "i \<le> n" "pl = n \<or> i \<le> pl \<and> pl < n" "drive n i pl free now = (xs, r)"
  shows "case r of None \<Rightarrow> xs = [i..<n] | Some k \<Rightarrow> xs = [i..<k] \<and> i \<le> k \<and> k \<le> pl \<and> pl < n"
  using assms
proof (induction "n - i" arbitrary: i pl now xs)
  case 0
  then have "n = i" by simp
  then show ?case using 0 by (auto simp: drive.simps [of i i])
next
  case (Suc d)
  then have i: "i < n" by simp
  show ?case
  proof (cases "pl \<noteq> n \<and> now")
    case True
    then show ?thesis using Suc.prems i by (auto simp: drive.simps [of n i])
  next
    case False
    let ?now = "if pl \<noteq> n \<and> i \<noteq> pl then free i else now"
    let ?pl = "if pl \<noteq> n \<and> i = pl then n else pl"
    obtain ys where ys: "drive n (i + 1) ?pl free ?now = (ys, r)" "xs = i # ys"
      using Suc.prems(3) i False by (auto simp: drive.simps [of n i] Let_def split: prod.splits)
    have "d = n - (i + 1)" using Suc.hyps(2) by simp
    moreover have "?pl = n \<or> i + 1 \<le> ?pl \<and> ?pl < n" using Suc.prems(2) by auto
    ultimately have "case r of None \<Rightarrow> ys = [i + 1..<n]
      | Some k \<Rightarrow> ys = [i + 1..<k] \<and> i + 1 \<le> k \<and> k \<le> ?pl \<and> ?pl < n"
      using Suc.hyps(1) [of "i + 1" ?pl ?now ys] i ys(1) by simp
    then show ?thesis
      using ys(2) i by (auto simp: upt_conv_Cons split: option.splits if_splits)
  qed
qed

lemma parallel_for_ok:
  assumes "parallel_for n ps bs parallel free0 free = Inr (xs, r)"
  shows "case r of None \<Rightarrow> xs = [0..<n] | Some k \<Rightarrow> xs = [0..<k] \<and> k + max ps bs < n"
proof -
  let ?pl = "parallel_last n ps bs parallel"
  have d: "drive n 0 ?pl free free0 = (xs, r)"
    using assms by (auto simp: parallel_for_def assertR_def split: if_splits)
  have "?pl = n \<or> ?pl + max ps bs < n" by (auto simp: parallel_last_def Let_def)
  moreover have "?pl = n \<or> 0 \<le> ?pl \<and> ?pl < n" by (auto simp: parallel_last_def Let_def)
  ultimately show ?thesis
    using drive_ok [OF _ _ d] by (auto split: option.splits)
qed

lemma job_partitions_tiles:
  assumes "job_partitions mq z ps bs raw = (parts, b)" "0 < bs" "0 < mq"
  shows "tiles 0 z parts" "0 < b"
  using assms multi_set_tiles [of ps mq z raw] tiles_new [of z]
  by (auto simp: job_partitions_def split: if_splits)

lemma num_task_lists_ok:
  "0 < b \<Longrightarrow> num_task_lists b items = Inr ((items + b - 1) div b)"
proof -
  assume b: "0 < b"
  show ?thesis
  proof (cases "items mod b = 0")
    case True
    then obtain k where k: "items = b * k" by (auto simp: mod_eq_0_iff_dvd elim: dvdE)
    have "(b * k + b - 1) div b = k" by (rule div_nat_eqI) (use b in \<open>simp_all add: algebra_simps\<close>)
    then show ?thesis using b k by (auto simp: num_task_lists_def Let_def)
  next
    case False
    define q where "q = items div b"
    have it: "items = b * q + items mod b" by (simp add: q_def)
    have "items + (b - items mod b) = b * (q + 1)"
      using it mod_less_divisor [OF b, of items] by (simp add: algebra_simps)
    moreover have "(items + b - 1) div b = q + 1"
    proof (rule div_nat_eqI)
      show "b * (q + 1) \<le> items + b - 1" using it False by (simp add: algebra_simps)
      show "items + b - 1 < b * Suc (q + 1)" using it mod_less_divisor [OF b, of items] by (simp add: algebra_simps)
    qed
    ultimately show ?thesis using b False by (auto simp: num_task_lists_def Let_def)
  qed
qed

text \<open>The other two ways to claim work are the batched one on a single partition.\<close>

lemma find_task_batch: "pt_start p = 0 \<Longrightarrow> find_task p = find_batch 1 p"
  by (auto simp: find_task_def find_batch_def pt_next_def Let_def)

lemma find_list_batch_eq:
  "pt_start p = 0 \<Longrightarrow> find_list_batch b (pt_end p) (pt_index p) = map_prod id pt_index (find_batch b p)"
  by (auto simp: find_list_batch_def find_batch_def pt_next_def Let_def)

lemma list_job_never_asserts:
  assumes "0 < b" "b < items"
  shows "\<exists>k. list_job_task_lists wc b items = Inr k"
proof -
  have "1 < (items + b - 1) div b"
  proof -
    have "2 * b \<le> items + b - 1" using assms by simp
    then have "2 * b div b \<le> (items + b - 1) div b" by (rule div_le_mono)
    then show ?thesis using assms(1) by simp
  qed
  then show ?thesis
    using num_task_lists_ok [OF assms(1), of items] assms
    by (auto simp: num_task_lists_def list_job_task_lists_def Let_def split: if_splits)
qed

lemma distinct_submset:
  assumes "mset xs \<subseteq># mset ys" "distinct ys"
  shows "distinct xs"
  unfolding distinct_count_atmost_1
proof
  fix a
  have "count (mset ys) a \<le> 1" using assms(2) by (simp add: distinct_count_atmost_1)
  then have "count (mset xs) a \<le> 1" using mset_subset_eq_count [OF assms(1), of a] by simp
  then show "count (mset xs) a = (if a \<in> set xs then 1 else 0)"
    using count_mset_0_iff [of xs a] by (cases "count (mset xs) a") auto
qed

text \<open>A run by a schedule: the workers that take the steps, in order.\<close>

fun pf_sched :: "nat \<Rightarrow> nat list \<Rightarrow> pf_state \<Rightarrow> pf_state option" where
  "pf_sched b [] st = Some st"
| "pf_sched b (w # ws) st = Option.bind (pf_act b w st) (pf_sched b ws)"

lemma pf_sched_reach:
  "pf_reach b init k st \<Longrightarrow> pf_sched b ws st = Some st' \<Longrightarrow> pf_reach b init (k + length ws) st'"
proof (induction ws arbitrary: k st)
  case (Cons w ws)
  then obtain st1 where "pf_act b w st = Some st1" "pf_sched b ws st1 = Some st'"
    by (auto simp: bind_eq_Some_conv)
  then show ?case using Cons.IH [of "Suc k" st1] pf_reach.step [OF Cons.prems(1)] by simp
qed simp

text \<open>An example: five items in two partitions, two workers.\<close>

definition example_parts :: "partition list" where
  "example_parts = [\<lparr>pt_index = 0, pt_end = 2, pt_start = 0\<rparr>, \<lparr>pt_index = 0, pt_end = 5, pt_start = 2\<rparr>]"

definition example_sched :: "nat list" where
  "example_sched = [0, 1, 0, 1, 1, 1, 0, 0, 1, 1, 1, 1, 1, 0, 0, 0]"

definition example_end :: pf_state where
  "example_end = \<lparr>pf_parts = [\<lparr>pt_index = 3, pt_end = 2, pt_start = 0\<rparr>, \<lparr>pt_index = 4, pt_end = 5, pt_start = 2\<rparr>],
    pf_running = 2, pf_workers = [Finished, Finished], pf_done = [2, 3, 0, 1, 4]\<rparr>"

lemma example_run: "pf_reach 2 (pf_init example_parts 2) 16 example_end"
proof -
  have "pf_sched 2 example_sched (pf_init example_parts 2) = Some example_end" by code_simp
  moreover have "length example_sched = 16" by (simp add: example_sched_def)
  ultimately show ?thesis using pf_sched_reach [OF pf_reach.start, of 2 example_sched] by fastforce
qed

lemma example_partitions: "job_partitions 2 5 2 2 (pt_new 0) = (example_parts, 2)"
  by code_simp

section \<open>Properties of the parallel loop\<close>

text \<open>
  C6: \<^verbatim>\<open>ParallelFor\<close> calls the function on every item exactly once, whatever the
  sizes of partitions and batches, whenever a queue becomes free, however many workers take
  part and however their steps interleave: the items the caller runs itself and those of the job
  are together the range, once the workers have finished, and at no time before has an item been
  run twice.  The job is only created with more items left than a batch.  Hypotheses: the sizes pass the code's assertions, at least one worker (the
  caller) takes part.
\<close>

theorem parallel_for_runs_every_item_once:
  assumes "parallel_for n ps bs parallel free0 free = Inr (serial, r)" "0 < mq" "0 < w"
  shows "case r of
      None \<Rightarrow> serial = [0..<n]
    | Some k \<Rightarrow> k + bs < n \<and>
        (\<forall>parts b i st. job_partitions mq (n - k) ps bs raw = (parts, b) \<longrightarrow> pf_reach b (pf_init parts w) i st \<longrightarrow>
          distinct (serial @ map ((+) k) (pf_done st)) \<and>
          ((\<forall>x\<in>set (pf_workers st). x = Finished) \<longrightarrow>
            mset (serial @ map ((+) k) (pf_done st)) = mset [0..<n]))"
proof (cases r)
  case None
  then show ?thesis using parallel_for_ok [OF assms(1)] by simp
next
  case (Some k)
  have bs: "0 < bs" using assms(1) by (auto simp: parallel_for_def assertR_def split: if_splits)
  have k: "serial = [0..<k]" "k + max ps bs < n" using parallel_for_ok [OF assms(1)] Some by auto
  have shift: "map ((+) k) [0..<n - k] = [k..<n]" using map_add_upt [of k "n - k"] k(2) by (simp add: add.commute [of k] cong: map_cong)
  have whole: "mset [0..<n] = mset [0..<k] + mset (map ((+) k) [0..<n - k])"
    using upt_split [of 0 k n] k(2) unfolding shift mset_append [symmetric] by simp
  have "distinct (serial @ map ((+) k) (pf_done st)) \<and>
      ((\<forall>x\<in>set (pf_workers st). x = Finished) \<longrightarrow> mset (serial @ map ((+) k) (pf_done st)) = mset [0..<n])"
    if job: "job_partitions mq (n - k) ps bs raw = (parts, b)" and reach: "pf_reach b (pf_init parts w) i st"
    for parts b i st
  proof -
    have tiles: "tiles 0 (n - k) parts" "0 < b" using job_partitions_tiles [OF job bs assms(2)] by auto
    have inv: "pf_inv b (n - k) st" by (rule pf_reach_inv [OF reach tiles(2) pf_init_inv [OF tiles(1)]])
    have "mset (map ((+) k) (pf_done st)) \<subseteq># mset (map ((+) k) [0..<n - k])"
      unfolding mset_map by (rule image_mset_subseteq_mono [OF pf_inv_distinct [OF inv]])
    then have "mset (serial @ map ((+) k) (pf_done st)) \<subseteq># mset [0..<n]"
      unfolding whole k(1) mset_append by (rule subset_mset.add_left_mono)
    then have "distinct (serial @ map ((+) k) (pf_done st))" by (rule distinct_submset) simp
    moreover have "pf_workers st \<noteq> []"
      using pf_reach_length [OF reach] assms(3) by (auto simp: pf_init_def)
    then have "mset (pf_done st) = mset [0..<n - k]" if "\<forall>x\<in>set (pf_workers st). x = Finished"
      using pf_finished_done [OF inv _ that] by blast
    then have "mset (serial @ map ((+) k) (pf_done st)) = mset [0..<n]"
      if "\<forall>x\<in>set (pf_workers st). x = Finished"
      using that unfolding whole k(1) mset_append mset_map by simp
    ultimately show ?thesis by blast
  qed
  then show ?thesis using k(2) Some by auto
qed

theorem parallel_for_runs_every_item_once_witness:
  "parallel_for 7 2 2 True False (\<lambda>i. i = 1) = Inr ([0, 1], Some 2) \<and>
    mset ([0, 1] @ map ((+) 2) (pf_done example_end)) = mset [0..<7]"
proof -
  have r: "parallel_for 7 2 2 True False (\<lambda>i. i = 1) = Inr ([0, 1], Some 2)"
    by (simp add: parallel_for_def assertR_def parallel_last_def drive.simps)
  have "\<forall>x\<in>set (pf_workers example_end). x = Finished" by (simp add: example_end_def)
  moreover have "job_partitions 2 (7 - 2) 2 2 (pt_new 0) = (example_parts, 2)"
    using example_partitions by simp
  ultimately show ?thesis
    using parallel_for_runs_every_item_once [OF r, of 2 2 "pt_new 0"] example_run r by auto
qed



end
