(* ===== verification/JobRuns.thy ===== *)
theory JobRuns
  imports AccessGuards
begin

text \<open>
  Jobs that are asked for repeatedly and run by one thread at a time: \<^verbatim>\<open>Job\<close> and
  \<^verbatim>\<open>RepeatableIOJob\<close> of \<^verbatim>\<open>ion/jobs/Job.h\<close> and \<^verbatim>\<open>Job.cpp\<close>.

  Any number of threads call \<^verbatim>\<open>Execute\<close> and run the work that is pushed to the pool.  A
  thread is a program counter; one step is one atomic read or write of the source, taking
  or releasing the lock included, and \<open>act c i\<close> is the step of thread \<open>i\<close>, where \<open>c\<close> tells an
  idle thread to call \<^verbatim>\<open>Execute\<close> instead of taking work.  The lock is a flag, as nothing
  depends on who holds it.  The log, newest event first, is what an observer sees: the calls
  of \<^verbatim>\<open>Execute\<close> and the beginnings and ends of runs of the function.

  The contract of both jobs is the locale \<open>coalescing_job\<close>: a run per request would do, but
  requests that wait together may share one, as long as one begins after the last of them.
\<close>

section \<open>Threads\<close>

text \<open>Invariants are linear equations over totals of a weight of the program counters.\<close>

definition tot :: "('p \<Rightarrow> nat) \<Rightarrow> 'p list \<Rightarrow> nat" where
  "tot w ts = (\<Sum>p\<leftarrow>ts. w p)"

lemma tot_update: "i < length ts \<Longrightarrow> tot w (ts[i := y]) + w (ts ! i) = tot w ts + w y"
  unfolding tot_def
proof (induction ts arbitrary: i)
  case (Cons x ts)
  then show ?case by (cases i) auto
qed simp

lemma tot_member: "i < length ts \<Longrightarrow> w (ts ! i) \<le> tot w ts"
  unfolding tot_def by (simp add: member_le_sum_list)

lemma tot_zero: "(\<forall>p\<in>set ts. w p = 0) \<Longrightarrow> tot w ts = 0"
  unfolding tot_def by (induction ts) auto

lemma tot_zero_iff: "tot w ts = 0 \<longleftrightarrow> (\<forall>i<length ts. w (ts ! i) = 0)"
  unfolding tot_def by (induction ts) (auto simp: less_Suc_eq_0_disj)

lemma tot_replicate: "tot w (replicate n p) = n * w p"
  by (simp add: tot_def sum_list_replicate)

section \<open>Requests and runs\<close>

datatype run_event = Called | Began | Ended

fun in_run :: "run_event list \<Rightarrow> bool" where
  "in_run [] \<longleftrightarrow> False"
| "in_run (Called # l) \<longleftrightarrow> in_run l"
| "in_run (Began # l) \<longleftrightarrow> True"
| "in_run (Ended # l) \<longleftrightarrow> False"

fun unserved :: "run_event list \<Rightarrow> bool" where
  "unserved [] \<longleftrightarrow> False"
| "unserved (Called # l) \<longleftrightarrow> True"
| "unserved (Began # l) \<longleftrightarrow> False"
| "unserved (Ended # l) \<longleftrightarrow> unserved l"

abbreviation occurrences :: "run_event \<Rightarrow> run_event list \<Rightarrow> nat" where
  "occurrences e l \<equiv> count_list l e"

text \<open>Runs never overlap, and there are no more of them than calls.\<close>

fun runs_in_turn :: "run_event list \<Rightarrow> bool" where
  "runs_in_turn [] \<longleftrightarrow> True"
| "runs_in_turn (Called # l) \<longleftrightarrow> runs_in_turn l"
| "runs_in_turn (Began # l) \<longleftrightarrow> \<not> in_run l \<and> occurrences Began l < occurrences Called l \<and> runs_in_turn l"
| "runs_in_turn (Ended # l) \<longleftrightarrow> in_run l \<and> runs_in_turn l"

inductive reaches :: "('c \<Rightarrow> nat \<Rightarrow> 's \<Rightarrow> 's run) \<Rightarrow> 's \<Rightarrow> 's \<Rightarrow> bool" for act init where
  start: "reaches act init init"
| step: "reaches act init st \<Longrightarrow> act c i st = Some (Inr st') \<Longrightarrow> reaches act init st'"

text \<open>Steps without new calls.\<close>

inductive winds_down :: "(bool \<Rightarrow> nat \<Rightarrow> 's \<Rightarrow> 's run) \<Rightarrow> 's \<Rightarrow> nat \<Rightarrow> 's \<Rightarrow> bool" for act init where
  none: "winds_down act init 0 init"
| one: "winds_down act init n st \<Longrightarrow> act False i st = Some (Inr st') \<Longrightarrow> winds_down act init (Suc n) st'"

locale coalescing_job =
  fixes act :: "bool \<Rightarrow> nat \<Rightarrow> 's \<Rightarrow> 's run"
    and ok :: "'s \<Rightarrow> bool"
    and log :: "'s \<Rightarrow> run_event list"
    and work_left :: "'s \<Rightarrow> nat"
  assumes act_ok: "ok st \<Longrightarrow> act c i st = Some r \<Longrightarrow> \<exists>st'. r = Inr st' \<and> ok st'"
    and ok_runs: "ok st \<Longrightarrow> runs_in_turn (log st)"
    and ok_served: "ok st \<Longrightarrow> \<forall>i. act False i st = None \<Longrightarrow> \<not> unserved (log st) \<and> \<not> in_run (log st)"
    and act_work: "ok st \<Longrightarrow> act False i st = Some (Inr st') \<Longrightarrow> work_left st' < work_left st"
begin

lemma reaches_ok: "reaches act init st \<Longrightarrow> ok init \<Longrightarrow> ok st"
proof (induction rule: reaches.induct)
  case (step st c i st')
  then show ?case using act_ok [of st c i "Inr st'"] by auto
qed

lemma winds_down_bound: "winds_down act st n st' \<Longrightarrow> ok st \<Longrightarrow> ok st' \<and> n + work_left st' \<le> work_left st"
proof (induction rule: winds_down.induct)
  case (one n st1 i st')
  then show ?case using act_ok [of st1 False i "Inr st'"] act_work [of st1 i st'] by fastforce
qed simp

lemma contract:
  assumes "reaches act init st" "ok init"
  shows "(\<forall>c i. act c i st \<noteq> Some (Inl e)) \<and> runs_in_turn (log st) \<and>
    (\<forall>n st'. winds_down act st n st' \<longrightarrow> n \<le> work_left st \<and>
      ((\<forall>i. act False i st' = None) \<longrightarrow> \<not> unserved (log st') \<and> \<not> in_run (log st')))"
proof -
  have ok: "ok st" by (rule reaches_ok [OF assms])
  have "act c i st \<noteq> Some (Inl e)" for c i using act_ok [OF ok] by blast
  moreover have "n \<le> work_left st" "(\<forall>i. act False i st' = None) \<longrightarrow> \<not> unserved (log st') \<and> \<not> in_run (log st')"
    if "winds_down act st n st'" for n st'
    using winds_down_bound [OF that ok] ok_served [of st'] by auto
  ultimately show ?thesis using ok_runs [OF ok] by blast
qed

end

lemma tot_upd: "i < length ts \<Longrightarrow> tot w (ts[i := y]) = tot w ts + w y - w (ts ! i)"
  using tot_update [of i ts w y] by simp

lemma tot_add: "tot (\<lambda>p. v p + w p) ts = tot v ts + tot w ts"
  unfolding tot_def by (rule sum_list_addf)

text \<open>If one thread has all the weight, it alone counts for every part of it.\<close>

lemma tot_only:
  assumes "\<And>p. v p \<le> w p" "i < length ts" "tot w ts = w (ts ! i)"
  shows "tot v ts = v (ts ! i)"
proof -
  have "tot v ts + tot (\<lambda>p. w p - v p) ts = tot w ts"
    unfolding tot_add [symmetric] by (simp add: assms(1))
  moreover have "v (ts ! i) \<le> tot v ts" "w (ts ! i) - v (ts ! i) \<le> tot (\<lambda>p. w p - v p) ts"
    using tot_member [OF assms(2), of v] tot_member [OF assms(2), of "\<lambda>p. w p - v p"] by simp_all
  ultimately show ?thesis using assms(1) [of "ts ! i"] assms(3) by simp
qed

section \<open>Job\<close>

datatype job_pc =
    JIdle
  | XCheck | XLock | XRecheck | XAvailable | XProgress | XPush | XUnlock
  | WEnter | WStart | WRun | WEnd | WLeave | WLock | WCount | WUnlock bool

record job_state =
  jb_available :: nat
  jb_progress :: nat
  jb_queued :: nat
  jb_locked :: bool
  jb_guard :: access_guard
  jb_threads :: "job_pc list"
  jb_log :: "run_event list"

definition job_init :: "nat \<Rightarrow> job_state" where
  "job_init n = \<lparr>jb_available = 0, jb_progress = 0, jb_queued = 0, jb_locked = False, jb_guard = 0,
     jb_threads = replicate n JIdle, jb_log = []\<rparr>"

definition job_at :: "nat \<Rightarrow> job_pc \<Rightarrow> job_state \<Rightarrow> job_state run" where
  "job_at i pc st = Some (Inr (st\<lparr>jb_threads := (jb_threads st)[i := pc]\<rparr>))"

text \<open>\<^verbatim>\<open>ExecuteInternal\<close> with its two checks; \<open>None\<close> waits for the lock.\<close>

definition job_execute :: "nat \<Rightarrow> job_pc \<Rightarrow> job_state \<Rightarrow> job_state run" where
  "job_execute i pc st = (case pc of
      XCheck \<Rightarrow> job_at i (if jb_progress st \<le> 1 then XLock else JIdle) st
   | XLock \<Rightarrow> (if jb_locked st then None else job_at i XRecheck (st\<lparr>jb_locked := True\<rparr>))
   | XRecheck \<Rightarrow> job_at i (if jb_progress st \<le> 1 then XAvailable else XUnlock) st
   | XAvailable \<Rightarrow> job_at i XProgress (st\<lparr>jb_available := jb_available st + 1\<rparr>)
   | XProgress \<Rightarrow> (let p = jb_progress st + 1 in job_at i (if p = 1 then XPush else XUnlock) (st\<lparr>jb_progress := p\<rparr>))
   | XPush \<Rightarrow> assertO (jb_available st = 1) (job_at i XUnlock (st\<lparr>jb_queued := jb_queued st + 1\<rparr>))
   | XUnlock \<Rightarrow> job_at i JIdle (st\<lparr>jb_locked := False\<rparr>)
   | _ \<Rightarrow> None)"

text \<open>The loop of \<^verbatim>\<open>DoWork\<close>; nobody waits for a job here, so notifying is left out.\<close>

definition job_do_work :: "nat \<Rightarrow> job_pc \<Rightarrow> job_state \<Rightarrow> job_state run" where
  "job_do_work i pc st = (case pc of
      WEnter \<Rightarrow> bindO (Some (guard_start_writing (jb_guard st))) (\<lambda>g. job_at i WStart (st\<lparr>jb_guard := g\<rparr>))
   | WStart \<Rightarrow> assertO (jb_available st > 0) (job_at i WRun (st\<lparr>jb_available := jb_available st - 1\<rparr>))
   | WRun \<Rightarrow> job_at i WEnd (st\<lparr>jb_log := Began # jb_log st\<rparr>)
   | WEnd \<Rightarrow> job_at i WLeave (st\<lparr>jb_log := Ended # jb_log st\<rparr>)
   | WLeave \<Rightarrow> bindO (Some (guard_stop_writing (jb_guard st))) (\<lambda>g. job_at i WLock (st\<lparr>jb_guard := g\<rparr>))
   | WLock \<Rightarrow> (if jb_locked st then None else job_at i WCount (st\<lparr>jb_locked := True\<rparr>))
   | WCount \<Rightarrow> assertO (jb_progress st > 0)
      (let p = jb_progress st - 1; st = st\<lparr>jb_progress := p\<rparr> in
       if p = 0 then job_at i (WUnlock True) st
       else assertO (p = 1) (assertO (jb_available st \<le> 2) (job_at i (WUnlock False) st)))
   | WUnlock fin \<Rightarrow> job_at i (if fin then JIdle else WEnter) (st\<lparr>jb_locked := False\<rparr>)
   | _ \<Rightarrow> None)"

text \<open>An idle thread calls \<^verbatim>\<open>Execute\<close>, or takes the work from the pool.\<close>

definition job_take :: "nat \<Rightarrow> job_state \<Rightarrow> job_state run" where
  "job_take i st =
    (if jb_queued st > 0 then job_at i WEnter (st\<lparr>jb_queued := jb_queued st - 1\<rparr>)
     else None)"

definition job_step :: "bool \<Rightarrow> nat \<Rightarrow> job_pc \<Rightarrow> job_state \<Rightarrow> job_state run" where
  "job_step c i pc st =
    (if pc = JIdle then if c then job_at i XCheck (st\<lparr>jb_log := Called # jb_log st\<rparr>) else job_take i st
     else if pc \<in> {XCheck, XLock, XRecheck, XAvailable, XProgress, XPush, XUnlock} then job_execute i pc st
     else job_do_work i pc st)"

lemma job_step_simps [simp]:
  "job_step c i JIdle st = (if c then job_at i XCheck (st\<lparr>jb_log := Called # jb_log st\<rparr>)
     else if jb_queued st > 0 then job_at i WEnter (st\<lparr>jb_queued := jb_queued st - 1\<rparr>)
     else None)"
  "job_step c i XCheck st = job_at i (if jb_progress st \<le> 1 then XLock else JIdle) st"
  "job_step c i XLock st = (if jb_locked st then None else job_at i XRecheck (st\<lparr>jb_locked := True\<rparr>))"
  "job_step c i XRecheck st = job_at i (if jb_progress st \<le> 1 then XAvailable else XUnlock) st"
  "job_step c i XAvailable st = job_at i XProgress (st\<lparr>jb_available := jb_available st + 1\<rparr>)"
  "job_step c i XProgress st = (let p = jb_progress st + 1 in job_at i (if p = 1 then XPush else XUnlock) (st\<lparr>jb_progress := p\<rparr>))"
  "job_step c i XPush st = assertO (jb_available st = 1) (job_at i XUnlock (st\<lparr>jb_queued := jb_queued st + 1\<rparr>))"
  "job_step c i XUnlock st = job_at i JIdle (st\<lparr>jb_locked := False\<rparr>)"
  "job_step c i WEnter st = bindO (Some (guard_start_writing (jb_guard st))) (\<lambda>g. job_at i WStart (st\<lparr>jb_guard := g\<rparr>))"
  "job_step c i WStart st = assertO (jb_available st > 0) (job_at i WRun (st\<lparr>jb_available := jb_available st - 1\<rparr>))"
  "job_step c i WRun st = job_at i WEnd (st\<lparr>jb_log := Began # jb_log st\<rparr>)"
  "job_step c i WEnd st = job_at i WLeave (st\<lparr>jb_log := Ended # jb_log st\<rparr>)"
  "job_step c i WLeave st = bindO (Some (guard_stop_writing (jb_guard st))) (\<lambda>g. job_at i WLock (st\<lparr>jb_guard := g\<rparr>))"
  "job_step c i WLock st = (if jb_locked st then None else job_at i WCount (st\<lparr>jb_locked := True\<rparr>))"
  "job_step c i WCount st = assertO (jb_progress st > 0)
      (let p = jb_progress st - 1; st = st\<lparr>jb_progress := p\<rparr> in
       if p = 0 then job_at i (WUnlock True) st
       else assertO (p = 1) (assertO (jb_available st \<le> 2) (job_at i (WUnlock False) st)))"
  "job_step c i (WUnlock fin) st = job_at i (if fin then JIdle else WEnter) (st\<lparr>jb_locked := False\<rparr>)"
  by (simp_all add: job_step_def job_take_def job_execute_def job_do_work_def)

definition job_act :: "bool \<Rightarrow> nat \<Rightarrow> job_state \<Rightarrow> job_state run" where
  "job_act c i st = (if i < length (jb_threads st) then job_step c i (jb_threads st ! i) st else None)"

text \<open>
  The weights: threads that hold the lock, that work on the taken item, that have taken up one
  of the available tasks, that are inside the guard, and that are about to publish a task.
\<close>

definition wt_lock :: "job_pc \<Rightarrow> nat" where
  "wt_lock pc = of_bool (pc \<in> {XRecheck, XAvailable, XProgress, XPush, XUnlock, WCount, WUnlock True, WUnlock False})"

definition wt_work :: "job_pc \<Rightarrow> nat" where
  "wt_work pc = of_bool (pc \<in> {XPush, WEnter, WStart, WRun, WEnd, WLeave, WLock, WCount, WUnlock False})"

definition wt_taken :: "job_pc \<Rightarrow> nat" where
  "wt_taken pc = of_bool (pc \<in> {WRun, WEnd, WLeave, WLock, WCount})"

definition wt_guard :: "job_pc \<Rightarrow> nat" where
  "wt_guard pc = of_bool (pc \<in> {WStart, WRun, WEnd, WLeave})"

definition wt_extra :: "job_pc \<Rightarrow> nat" where
  "wt_extra pc = of_bool (pc = XProgress)"

definition wt_call :: "job_pc \<Rightarrow> nat" where
  "wt_call pc = of_bool (pc \<in> {XCheck, XLock, XRecheck, XAvailable})"

definition wt_begin :: "job_pc \<Rightarrow> nat" where
  "wt_begin pc = of_bool (pc = WRun)"

definition wt_end :: "job_pc \<Rightarrow> nat" where
  "wt_end pc = of_bool (pc = WEnd)"

definition wt_second :: "job_pc \<Rightarrow> nat" where
  "wt_second pc = of_bool (pc \<in> {XAvailable, XProgress})"

definition wt_last :: "job_pc \<Rightarrow> nat" where
  "wt_last pc = of_bool (pc = WUnlock True)"

definition wt_again :: "job_pc \<Rightarrow> nat" where
  "wt_again pc = of_bool (pc \<in> {XPush, WUnlock False})"

lemmas wt_defs = wt_lock_def wt_work_def wt_taken_def wt_guard_def wt_extra_def wt_call_def wt_begin_def wt_end_def wt_second_def wt_last_def wt_again_def

primrec job_cost :: "job_pc \<Rightarrow> nat" where
  "job_cost JIdle = 0" | "job_cost XCheck = 40" | "job_cost XLock = 39" | "job_cost XRecheck = 38"
| "job_cost XAvailable = 37" | "job_cost XProgress = 20" | "job_cost XPush = 15" | "job_cost XUnlock = 3"
| "job_cost WEnter = 3" | "job_cost WStart = 2" | "job_cost WRun = 9" | "job_cost WEnd = 8"
| "job_cost WLeave = 7" | "job_cost WLock = 6" | "job_cost WCount = 5" | "job_cost (WUnlock b) = 4"

definition job_left :: "job_state \<Rightarrow> nat" where
  "job_left st = tot job_cost (jb_threads st) + 10 * jb_available st + 4 * jb_queued st"

definition job_ok :: "job_state \<Rightarrow> bool" where
  "job_ok st \<longleftrightarrow>
    jb_threads st \<noteq> [] \<and>
    tot wt_lock (jb_threads st) = of_bool (jb_locked st) \<and>
    jb_queued st + tot wt_work (jb_threads st) = min 1 (jb_progress st) \<and>
    jb_available st + tot wt_taken (jb_threads st) = jb_progress st + tot wt_extra (jb_threads st) \<and>
    jb_guard st = - int (tot wt_guard (jb_threads st)) \<and>
    jb_progress st + tot wt_second (jb_threads st) + 2 * tot wt_last (jb_threads st) + tot wt_again (jb_threads st) \<le> 2 \<and>
    tot wt_again (jb_threads st) \<le> jb_progress st \<and>
    runs_in_turn (jb_log st) \<and>
    tot wt_end (jb_threads st) = of_bool (in_run (jb_log st)) \<and>
    occurrences Began (jb_log st) + tot wt_begin (jb_threads st) + jb_available st + tot wt_call (jb_threads st)
      \<le> occurrences Called (jb_log st) \<and>
    of_bool (unserved (jb_log st)) \<le> jb_available st + tot wt_call (jb_threads st) + tot wt_begin (jb_threads st)"

lemma wt_le:
  "wt_extra p \<le> wt_lock p" "wt_second p \<le> wt_lock p" "wt_last p \<le> wt_lock p" "wt_again p \<le> wt_lock p"
  "wt_taken p \<le> wt_work p" "wt_guard p \<le> wt_work p" "wt_begin p \<le> wt_work p" "wt_end p \<le> wt_work p"
  by (cases p; simp add: wt_defs)+

lemma job_lock_only:
  assumes "job_ok st" "i < length (jb_threads st)" "wt_lock (jb_threads st ! i) = 1"
  shows "tot wt_lock (jb_threads st) = 1" "jb_locked st"
    "tot wt_extra (jb_threads st) = wt_extra (jb_threads st ! i)"
    "tot wt_second (jb_threads st) = wt_second (jb_threads st ! i)"
    "tot wt_last (jb_threads st) = wt_last (jb_threads st ! i)"
    "tot wt_again (jb_threads st) = wt_again (jb_threads st ! i)"
proof -
  have "1 \<le> tot wt_lock (jb_threads st)" using tot_member [OF assms(2), of wt_lock] assms(3) by simp
  then show l: "tot wt_lock (jb_threads st) = 1" "jb_locked st"
    using assms(1) by (auto simp: job_ok_def of_bool_def split: if_splits)
  show "tot wt_extra (jb_threads st) = wt_extra (jb_threads st ! i)"
    "tot wt_second (jb_threads st) = wt_second (jb_threads st ! i)"
    "tot wt_last (jb_threads st) = wt_last (jb_threads st ! i)"
    "tot wt_again (jb_threads st) = wt_again (jb_threads st ! i)"
    using l(1) assms(2,3) by (simp_all add: tot_only [OF wt_le(1)] tot_only [OF wt_le(2)]
      tot_only [OF wt_le(3)] tot_only [OF wt_le(4)])
qed

lemma job_work_only:
  assumes "job_ok st" "i < length (jb_threads st)" "wt_work (jb_threads st ! i) = 1"
  shows "tot wt_work (jb_threads st) = 1" "jb_queued st = 0" "jb_progress st \<ge> 1"
    "tot wt_taken (jb_threads st) = wt_taken (jb_threads st ! i)"
    "tot wt_guard (jb_threads st) = wt_guard (jb_threads st ! i)"
    "tot wt_begin (jb_threads st) = wt_begin (jb_threads st ! i)"
    "tot wt_end (jb_threads st) = wt_end (jb_threads st ! i)"
proof -
  have "1 \<le> tot wt_work (jb_threads st)" using tot_member [OF assms(2), of wt_work] assms(3) by simp
  then show l: "tot wt_work (jb_threads st) = 1" "jb_queued st = 0" "jb_progress st \<ge> 1"
    using assms(1) by (auto simp: job_ok_def of_bool_def split: if_splits)
  show "tot wt_taken (jb_threads st) = wt_taken (jb_threads st ! i)"
    "tot wt_guard (jb_threads st) = wt_guard (jb_threads st ! i)"
    "tot wt_begin (jb_threads st) = wt_begin (jb_threads st ! i)"
    "tot wt_end (jb_threads st) = wt_end (jb_threads st ! i)"
    using l(1) assms(2,3) by (simp_all add: tot_only [OF wt_le(5)] tot_only [OF wt_le(6)]
      tot_only [OF wt_le(7)] tot_only [OF wt_le(8)])
qed

lemma tot_mono: "(\<And>p. v p \<le> w p) \<Longrightarrow> tot v ts \<le> tot w ts"
  unfolding tot_def by (rule sum_list_mono)

lemma job_act_ok:
  assumes ok: "job_ok st" and act: "job_act c i st = Some r"
  shows "case r of Inl e \<Rightarrow> False | Inr st' \<Rightarrow> job_ok st'"
proof -
  have i: "i < length (jb_threads st)" using act by (auto simp: job_act_def split: if_splits)
  note step = job_act_def job_at_def i
  note inv = job_ok_def tot_upd [OF i]
  note lock = job_lock_only [OF ok i] and work = job_work_only [OF ok i] and call = tot_member [OF i, of wt_call]
  have taken: "tot wt_taken (jb_threads st) \<le> tot wt_work (jb_threads st)" by (rule tot_mono [OF wt_le(5)])
  show ?thesis
  proof (cases "jb_threads st ! i")
    case JIdle
    show ?thesis
    proof (cases c)
      case True
      then show ?thesis using ok act JIdle by (auto simp: step inv wt_defs)
    next
      case False
      then show ?thesis using ok act JIdle by (auto simp: step inv wt_defs split: if_splits)
    qed
  next
    case XCheck
    then show ?thesis using ok act call taken by (auto simp: step inv wt_defs split: if_splits)
  next
    case XLock
    then show ?thesis using ok act call taken by (auto simp: step inv wt_defs split: if_splits)
  next
    case XRecheck
    then show ?thesis using ok act call taken lock by (auto simp: step inv wt_defs split: if_splits)
  next
    case XAvailable
    then show ?thesis using ok act call taken lock by (auto simp: step inv wt_defs split: if_splits)
  next
    case XProgress
    then show ?thesis using ok act lock by (auto simp: step inv wt_defs Let_def split: if_splits)
  next
    case XPush
    then show ?thesis using ok act lock work by (auto simp: step inv wt_defs split: if_splits)
  next
    case XUnlock
    then show ?thesis using ok act lock by (auto simp: step inv wt_defs split: if_splits)
  next
    case WEnter
    then show ?thesis using ok act work by (auto simp: step inv wt_defs guard_defs split: if_splits)
  next
    case WStart
    then show ?thesis using ok act work by (auto simp: step inv wt_defs split: if_splits)
  next
    case WRun
    then show ?thesis using ok act work by (auto simp: step inv wt_defs split: if_splits)
  next
    case WEnd
    then have "in_run (jb_log st)" using ok work by (cases "in_run (jb_log st)") (auto simp: job_ok_def wt_defs)
    then show ?thesis using ok act work WEnd by (auto simp: step inv wt_defs split: if_splits)
  next
    case WLeave
    then show ?thesis using ok act work by (auto simp: step inv wt_defs guard_defs split: if_splits)
  next
    case WLock
    then show ?thesis using ok act work by (auto simp: step inv wt_defs split: if_splits)
  next
    case WCount
    then show ?thesis using ok act lock work by (auto simp: step inv wt_defs Let_def split: if_splits)
  next
    case (WUnlock b)
    then show ?thesis using ok act lock work by (cases b) (auto simp: step inv wt_defs split: if_splits)
  qed
qed

lemma job_init_ok: "0 < n \<Longrightarrow> job_ok (job_init n)"
  by (simp add: job_ok_def job_init_def tot_replicate wt_defs)

lemma job_act_cost:
  assumes ok: "job_ok st" and act: "job_act False i st = Some (Inr st')"
  shows "job_left st' < job_left st"
proof -
  have i: "i < length (jb_threads st)" using act by (auto simp: job_act_def split: if_splits)
  have cost: "job_cost (jb_threads st ! i) \<le> tot job_cost (jb_threads st)" by (rule tot_member [OF i])
  show ?thesis
    using act cost
    by (cases "jb_threads st ! i")
      (auto simp: job_act_def job_at_def i job_left_def tot_upd [OF i] assertO_eq_Some bindO_eq_Some Let_def
        split: if_splits)
qed

lemma job_step_None:
  "job_step False i pc st = None \<longleftrightarrow> pc = JIdle \<and> jb_queued st = 0 \<or> pc \<in> {XLock, WLock} \<and> jb_locked st"
  by (cases pc) (simp_all add: job_at_def assertO_def bindO_def Let_def split: sum.split)

text \<open>Whoever holds the lock can go on, so a thread in the middle of a call or run is never stuck for good.\<close>

lemma job_stuck:
  assumes ok: "job_ok st" and stuck: "\<forall>i. job_act False i st = None"
  shows "jb_queued st = 0 \<and> (\<forall>i<length (jb_threads st). jb_threads st ! i = JIdle)"
proof -
  have pc: "jb_threads st ! i = JIdle \<and> jb_queued st = 0 \<or> jb_threads st ! i \<in> {XLock, WLock} \<and> jb_locked st"
    if i: "i < length (jb_threads st)" for i
    using spec [OF stuck, of i] i unfolding job_act_def by (simp only: job_step_None if_True)
  have "wt_lock (jb_threads st ! i) = 0" if i: "i < length (jb_threads st)" for i
  proof -
    consider "jb_threads st ! i = JIdle" | "jb_threads st ! i = XLock" | "jb_threads st ! i = WLock"
      using pc [OF i] by blast
    then show ?thesis by cases (simp_all only: wt_lock_def, simp_all)
  qed
  then have "tot wt_lock (jb_threads st) = 0" by (simp add: tot_zero_iff)
  then have free: "\<not> jb_locked st" using ok by (simp add: job_ok_def)
  have idle: "jb_threads st ! i = JIdle" if "i < length (jb_threads st)" for i using pc [OF that] free by blast
  have "0 < length (jb_threads st)" using ok by (simp add: job_ok_def)
  then have "jb_queued st = 0" using pc [of 0] free by blast
  then show ?thesis using idle by simp
qed

lemma job_served:
  assumes ok: "job_ok st" and stuck: "\<forall>i. job_act False i st = None"
  shows "\<not> unserved (jb_log st) \<and> \<not> in_run (jb_log st)"
proof -
  have idle: "jb_queued st = 0" "\<forall>i<length (jb_threads st). jb_threads st ! i = JIdle"
    using job_stuck [OF ok stuck] by auto
  have "tot w (jb_threads st) = 0" if "w JIdle = 0" for w
    using idle(2) that by (simp add: tot_zero_iff)
  then have t: "tot wt_work (jb_threads st) = 0" "tot wt_taken (jb_threads st) = 0" "tot wt_extra (jb_threads st) = 0"
    "tot wt_end (jb_threads st) = 0" "tot wt_call (jb_threads st) = 0" "tot wt_begin (jb_threads st) = 0"
    by (simp_all add: wt_defs)
  then have "jb_progress st = 0" using ok idle(1) by (simp add: job_ok_def min_def split: if_splits)
  then show ?thesis using ok t by (auto simp: job_ok_def)
qed

interpretation job: coalescing_job job_act job_ok jb_log job_left
proof
  fix st c i r
  assume "job_ok st" "job_act c i st = Some r"
  from job_act_ok [OF this] show "\<exists>st'. r = Inr st' \<and> job_ok st'" by (auto split: sum.splits)
next
  fix st
  assume "job_ok st"
  then show "runs_in_turn (jb_log st)" by (simp add: job_ok_def)
qed (rule job_served job_act_cost; assumption)+

section \<open>RepeatableIOJob\<close>

datatype io_pc =
    RIdle
  | ECheck | ELock | EStore | EDone | EClear | EPush | EUnlock
  | DAssert | DStore | DRun | DEnd | DLock | DCheck | DFinish | DUnlock bool

record io_state =
  io_starving :: bool
  io_done :: bool
  io_queued :: nat
  io_locked :: bool
  io_threads :: "io_pc list"
  io_log :: "run_event list"

definition io_init :: "nat \<Rightarrow> io_state" where
  "io_init n = \<lparr>io_starving = True, io_done = True, io_queued = 0, io_locked = False,
     io_threads = replicate n RIdle, io_log = []\<rparr>"

definition io_at :: "nat \<Rightarrow> io_pc \<Rightarrow> io_state \<Rightarrow> io_state run" where
  "io_at i pc st = Some (Inr (st\<lparr>io_threads := (io_threads st)[i := pc]\<rparr>))"

definition io_execute :: "nat \<Rightarrow> io_pc \<Rightarrow> io_state \<Rightarrow> io_state run" where
  "io_execute i pc st = (case pc of
      ECheck \<Rightarrow> io_at i (if io_starving st then ELock else RIdle) st
   | ELock \<Rightarrow> (if io_locked st then None else io_at i EStore (st\<lparr>io_locked := True\<rparr>))
   | EStore \<Rightarrow> io_at i EDone (st\<lparr>io_starving := False\<rparr>)
   | EDone \<Rightarrow> io_at i (if io_done st then EClear else EUnlock) st
   | EClear \<Rightarrow> io_at i EPush (st\<lparr>io_done := False\<rparr>)
   | EPush \<Rightarrow> io_at i EUnlock (st\<lparr>io_queued := io_queued st + 1\<rparr>)
   | EUnlock \<Rightarrow> io_at i RIdle (st\<lparr>io_locked := False\<rparr>)
   | _ \<Rightarrow> None)"

definition io_do_work :: "nat \<Rightarrow> io_pc \<Rightarrow> io_state \<Rightarrow> io_state run" where
  "io_do_work i pc st = (case pc of
      DAssert \<Rightarrow> assertO (\<not> io_starving st) (io_at i DStore st)
   | DStore \<Rightarrow> io_at i DRun (st\<lparr>io_starving := True\<rparr>)
   | DRun \<Rightarrow> io_at i DEnd (st\<lparr>io_log := Began # io_log st\<rparr>)
   | DEnd \<Rightarrow> io_at i DLock (st\<lparr>io_log := Ended # io_log st\<rparr>)
   | DLock \<Rightarrow> (if io_locked st then None else io_at i DCheck (st\<lparr>io_locked := True\<rparr>))
   | DCheck \<Rightarrow> io_at i (if io_starving st then DFinish else DUnlock False) st
   | DFinish \<Rightarrow> io_at i (DUnlock True) (st\<lparr>io_done := True\<rparr>)
   | DUnlock fin \<Rightarrow> io_at i (if fin then RIdle else DAssert) (st\<lparr>io_locked := False\<rparr>)
   | _ \<Rightarrow> None)"

definition io_take :: "nat \<Rightarrow> io_state \<Rightarrow> io_state run" where
  "io_take i st =
    (if io_queued st > 0 then io_at i DAssert (st\<lparr>io_queued := io_queued st - 1\<rparr>)
     else None)"

definition io_step :: "bool \<Rightarrow> nat \<Rightarrow> io_pc \<Rightarrow> io_state \<Rightarrow> io_state run" where
  "io_step c i pc st =
    (if pc = RIdle then if c then io_at i ECheck (st\<lparr>io_log := Called # io_log st\<rparr>) else io_take i st
     else if pc \<in> {ECheck, ELock, EStore, EDone, EClear, EPush, EUnlock} then io_execute i pc st
     else io_do_work i pc st)"

lemma io_step_simps [simp]:
  "io_step c i RIdle st = (if c then io_at i ECheck (st\<lparr>io_log := Called # io_log st\<rparr>)
     else if io_queued st > 0 then io_at i DAssert (st\<lparr>io_queued := io_queued st - 1\<rparr>)
     else None)"
  "io_step c i ECheck st = io_at i (if io_starving st then ELock else RIdle) st"
  "io_step c i ELock st = (if io_locked st then None else io_at i EStore (st\<lparr>io_locked := True\<rparr>))"
  "io_step c i EStore st = io_at i EDone (st\<lparr>io_starving := False\<rparr>)"
  "io_step c i EDone st = io_at i (if io_done st then EClear else EUnlock) st"
  "io_step c i EClear st = io_at i EPush (st\<lparr>io_done := False\<rparr>)"
  "io_step c i EPush st = io_at i EUnlock (st\<lparr>io_queued := io_queued st + 1\<rparr>)"
  "io_step c i EUnlock st = io_at i RIdle (st\<lparr>io_locked := False\<rparr>)"
  "io_step c i DAssert st = assertO (\<not> io_starving st) (io_at i DStore st)"
  "io_step c i DStore st = io_at i DRun (st\<lparr>io_starving := True\<rparr>)"
  "io_step c i DRun st = io_at i DEnd (st\<lparr>io_log := Began # io_log st\<rparr>)"
  "io_step c i DEnd st = io_at i DLock (st\<lparr>io_log := Ended # io_log st\<rparr>)"
  "io_step c i DLock st = (if io_locked st then None else io_at i DCheck (st\<lparr>io_locked := True\<rparr>))"
  "io_step c i DCheck st = io_at i (if io_starving st then DFinish else DUnlock False) st"
  "io_step c i DFinish st = io_at i (DUnlock True) (st\<lparr>io_done := True\<rparr>)"
  "io_step c i (DUnlock fin) st = io_at i (if fin then RIdle else DAssert) (st\<lparr>io_locked := False\<rparr>)"
  by (simp_all add: io_step_def io_take_def io_execute_def io_do_work_def)

definition io_act :: "bool \<Rightarrow> nat \<Rightarrow> io_state \<Rightarrow> io_state run" where
  "io_act c i st = (if i < length (io_threads st) then io_step c i (io_threads st ! i) st else None)"

definition io_lock :: "io_pc \<Rightarrow> nat" where
  "io_lock pc = of_bool (pc \<in> {EStore, EDone, EClear, EPush, EUnlock, DCheck, DFinish, DUnlock True, DUnlock False})"

definition io_work :: "io_pc \<Rightarrow> nat" where
  "io_work pc = of_bool (pc \<in> {EPush, DAssert, DStore, DRun, DEnd, DLock, DCheck, DFinish, DUnlock False})"

definition io_ready :: "io_pc \<Rightarrow> nat" where
  "io_ready pc = of_bool (pc \<in> {EPush, DAssert, DStore, DUnlock False})"

definition io_stored :: "io_pc \<Rightarrow> nat" where
  "io_stored pc = of_bool (pc \<in> {EDone, EClear})"

definition io_clear :: "io_pc \<Rightarrow> nat" where
  "io_clear pc = of_bool (pc = EClear)"

definition io_finish :: "io_pc \<Rightarrow> nat" where
  "io_finish pc = of_bool (pc = DFinish)"

definition io_call :: "io_pc \<Rightarrow> nat" where
  "io_call pc = of_bool (pc \<in> {ECheck, ELock, EStore})"

definition io_begin :: "io_pc \<Rightarrow> nat" where
  "io_begin pc = of_bool (pc = DRun)"

definition io_end :: "io_pc \<Rightarrow> nat" where
  "io_end pc = of_bool (pc = DEnd)"

lemmas io_defs = io_lock_def io_work_def io_ready_def io_stored_def io_clear_def io_finish_def io_call_def
  io_begin_def io_end_def

primrec io_cost :: "io_pc \<Rightarrow> nat" where
  "io_cost RIdle = 0" | "io_cost ECheck = 40" | "io_cost ELock = 39" | "io_cost EStore = 38"
| "io_cost EDone = 20" | "io_cost EClear = 19" | "io_cost EPush = 18" | "io_cost EUnlock = 3"
| "io_cost DAssert = 3" | "io_cost DStore = 2" | "io_cost DRun = 9" | "io_cost DEnd = 8"
| "io_cost DLock = 7" | "io_cost DCheck = 6" | "io_cost DFinish = 5" | "io_cost (DUnlock b) = 4"

definition io_left :: "io_state \<Rightarrow> nat" where
  "io_left st = tot io_cost (io_threads st) + 10 * of_bool (\<not> io_starving st) + 4 * io_queued st"

definition io_ok :: "io_state \<Rightarrow> bool" where
  "io_ok st \<longleftrightarrow>
    io_threads st \<noteq> [] \<and>
    tot io_lock (io_threads st) = of_bool (io_locked st) \<and>
    io_queued st + tot io_work (io_threads st) = of_bool (\<not> io_done st) \<and>
    io_queued st + tot io_ready (io_threads st) \<le> of_bool (\<not> io_starving st) \<and>
    tot io_stored (io_threads st) + of_bool (io_done st) \<le> 1 + of_bool (\<not> io_starving st) \<and>
    of_bool (\<not> io_starving st) \<le> of_bool (\<not> io_done st) + tot io_stored (io_threads st) \<and>
    tot io_clear (io_threads st) \<le> of_bool (io_done st) \<and>
    tot io_finish (io_threads st) \<le> of_bool (io_starving st) \<and>
    runs_in_turn (io_log st) \<and>
    tot io_end (io_threads st) = of_bool (in_run (io_log st)) \<and>
    occurrences Began (io_log st) + tot io_begin (io_threads st) + of_bool (\<not> io_starving st) + tot io_call (io_threads st)
      \<le> occurrences Called (io_log st) \<and>
    of_bool (unserved (io_log st)) \<le>
      of_bool (\<not> io_starving st) + tot io_call (io_threads st) + tot io_begin (io_threads st)"

lemma io_le:
  "io_stored p \<le> io_lock p" "io_clear p \<le> io_lock p" "io_finish p \<le> io_lock p"
  "io_ready p \<le> io_work p" "io_begin p \<le> io_work p" "io_end p \<le> io_work p" "io_finish p \<le> io_work p"
  by (cases p; simp add: io_defs)+

lemma io_lock_only:
  assumes "io_ok st" "i < length (io_threads st)" "io_lock (io_threads st ! i) = 1"
  shows "tot io_lock (io_threads st) = 1" "io_locked st"
    "tot io_stored (io_threads st) = io_stored (io_threads st ! i)"
    "tot io_clear (io_threads st) = io_clear (io_threads st ! i)"
    "tot io_finish (io_threads st) = io_finish (io_threads st ! i)"
proof -
  have "1 \<le> tot io_lock (io_threads st)" using tot_member [OF assms(2), of io_lock] assms(3) by simp
  then show l: "tot io_lock (io_threads st) = 1" "io_locked st"
    using assms(1) by (auto simp: io_ok_def of_bool_def split: if_splits)
  show "tot io_stored (io_threads st) = io_stored (io_threads st ! i)"
    "tot io_clear (io_threads st) = io_clear (io_threads st ! i)"
    "tot io_finish (io_threads st) = io_finish (io_threads st ! i)"
    using l(1) assms(2,3) by (simp_all add: tot_only [OF io_le(1)] tot_only [OF io_le(2)] tot_only [OF io_le(3)])
qed

lemma io_work_only:
  assumes "io_ok st" "i < length (io_threads st)" "io_work (io_threads st ! i) = 1"
  shows "tot io_work (io_threads st) = 1" "io_queued st = 0" "\<not> io_done st"
    "tot io_ready (io_threads st) = io_ready (io_threads st ! i)"
    "tot io_begin (io_threads st) = io_begin (io_threads st ! i)"
    "tot io_end (io_threads st) = io_end (io_threads st ! i)"
    "tot io_finish (io_threads st) = io_finish (io_threads st ! i)"
proof -
  have "1 \<le> tot io_work (io_threads st)" using tot_member [OF assms(2), of io_work] assms(3) by simp
  then show l: "tot io_work (io_threads st) = 1" "io_queued st = 0" "\<not> io_done st"
    using assms(1) by (auto simp: io_ok_def of_bool_def split: if_splits)
  show "tot io_ready (io_threads st) = io_ready (io_threads st ! i)"
    "tot io_begin (io_threads st) = io_begin (io_threads st ! i)"
    "tot io_end (io_threads st) = io_end (io_threads st ! i)"
    "tot io_finish (io_threads st) = io_finish (io_threads st ! i)"
    using l(1) assms(2,3) by (simp_all add: tot_only [OF io_le(4)] tot_only [OF io_le(5)]
      tot_only [OF io_le(6)] tot_only [OF io_le(7)])
qed

lemma io_act_ok:
  assumes ok: "io_ok st" and act: "io_act c i st = Some r"
  shows "case r of Inl e \<Rightarrow> False | Inr st' \<Rightarrow> io_ok st'"
proof -
  have i: "i < length (io_threads st)" using act by (auto simp: io_act_def split: if_splits)
  note step = io_act_def io_at_def i
  note inv = io_ok_def tot_upd [OF i]
  note lock = io_lock_only [OF ok i] and work = io_work_only [OF ok i] and call = tot_member [OF i, of io_call]
  have ready: "tot io_ready (io_threads st) \<le> tot io_work (io_threads st)" by (rule tot_mono [OF io_le(4)])
  have "tot io_stored (io_threads st) \<le> tot io_lock (io_threads st)" by (rule tot_mono [OF io_le(1)])
  also have "\<dots> \<le> 1" using ok by (simp add: io_ok_def)
  finally have stored: "tot io_stored (io_threads st) \<le> 1" .
  show ?thesis
  proof (cases "io_threads st ! i")
    case RIdle
    then show ?thesis
      using ok act by (cases c; cases "io_done st"; cases "io_starving st") (auto simp: step inv io_defs split: if_splits)
  next
    case ECheck
    then show ?thesis using ok act call by (cases "io_starving st") (auto simp: step inv io_defs split: if_splits)
  next
    case ELock
    then show ?thesis using ok act call by (auto simp: step inv io_defs split: if_splits)
  next
    case EStore
    then show ?thesis
      using ok act call lock by (cases "io_starving st"; cases "io_done st") (auto simp: step inv io_defs split: if_splits)
  next
    case EDone
    then show ?thesis
      using ok act lock by (cases "io_starving st"; cases "io_done st") (auto simp: step inv io_defs split: if_splits)
  next
    case EClear
    then show ?thesis
      using ok act lock ready by (cases "io_starving st"; cases "io_done st") (auto simp: step inv io_defs split: if_splits)
  next
    case EPush
    then show ?thesis
      using ok act lock work by (cases "io_starving st") (auto simp: step inv io_defs split: if_splits)
  next
    case EUnlock
    then show ?thesis using ok act lock by (auto simp: step inv io_defs split: if_splits)
  next
    case DAssert
    then show ?thesis using ok act work by (cases "io_starving st") (auto simp: step inv io_defs split: if_splits)
  next
    case DStore
    then show ?thesis using ok act work stored by (cases "io_starving st") (auto simp: step inv io_defs split: if_splits)
  next
    case DRun
    then show ?thesis using ok act work by (cases "in_run (io_log st)") (auto simp: step inv io_defs split: if_splits)
  next
    case DEnd
    then show ?thesis using ok act work by (cases "in_run (io_log st)") (auto simp: step inv io_defs split: if_splits)
  next
    case DLock
    then show ?thesis using ok act work by (auto simp: step inv io_defs split: if_splits)
  next
    case DCheck
    then show ?thesis
      using ok act lock work by (cases "io_starving st") (auto simp: step inv io_defs split: if_splits)
  next
    case DFinish
    then show ?thesis
      using ok act lock work by (cases "io_starving st") (auto simp: step inv io_defs split: if_splits)
  next
    case (DUnlock b)
    then show ?thesis
      using ok act lock work by (cases b; cases "io_starving st") (auto simp: step inv io_defs split: if_splits)
  qed
qed

lemma io_init_ok: "0 < n \<Longrightarrow> io_ok (io_init n)"
  by (simp add: io_ok_def io_init_def tot_replicate io_defs)

lemma io_act_cost:
  assumes ok: "io_ok st" and act: "io_act False i st = Some (Inr st')"
  shows "io_left st' < io_left st"
proof -
  have i: "i < length (io_threads st)" using act by (auto simp: io_act_def split: if_splits)
  have cost: "io_cost (io_threads st ! i) \<le> tot io_cost (io_threads st)" by (rule tot_member [OF i])
  have ready: "tot io_ready (io_threads st) \<le> of_bool (\<not> io_starving st)"
    and member: "io_ready (io_threads st ! i) \<le> tot io_ready (io_threads st)"
    using ok tot_member [OF i, of io_ready] by (simp_all add: io_ok_def)
  show ?thesis
    using act cost ready member
    by (cases "io_threads st ! i"; cases "io_starving st")
      (auto simp: io_act_def io_at_def i io_left_def tot_upd [OF i] assertO_eq_Some io_defs split: if_splits)
qed

lemma io_step_None:
  "io_step False i pc st = None \<longleftrightarrow> pc = RIdle \<and> io_queued st = 0 \<or> pc \<in> {ELock, DLock} \<and> io_locked st"
  by (cases pc) (simp_all add: io_at_def assertO_def)

lemma io_stuck:
  assumes ok: "io_ok st" and stuck: "\<forall>i. io_act False i st = None"
  shows "io_queued st = 0 \<and> (\<forall>i<length (io_threads st). io_threads st ! i = RIdle)"
proof -
  have pc: "io_threads st ! i = RIdle \<and> io_queued st = 0 \<or> io_threads st ! i \<in> {ELock, DLock} \<and> io_locked st"
    if i: "i < length (io_threads st)" for i
    using spec [OF stuck, of i] i unfolding io_act_def by (simp only: io_step_None if_True)
  have "io_lock (io_threads st ! i) = 0" if i: "i < length (io_threads st)" for i
  proof -
    consider "io_threads st ! i = RIdle" | "io_threads st ! i = ELock" | "io_threads st ! i = DLock"
      using pc [OF i] by blast
    then show ?thesis by cases (simp_all only: io_lock_def, simp_all)
  qed
  then have "tot io_lock (io_threads st) = 0" by (simp add: tot_zero_iff)
  then have free: "\<not> io_locked st" using ok by (simp add: io_ok_def)
  have idle: "io_threads st ! i = RIdle" if "i < length (io_threads st)" for i using pc [OF that] free by blast
  have "0 < length (io_threads st)" using ok by (simp add: io_ok_def)
  then have "io_queued st = 0" using pc [of 0] free by blast
  then show ?thesis using idle by simp
qed

lemma io_served:
  assumes ok: "io_ok st" and stuck: "\<forall>i. io_act False i st = None"
  shows "\<not> unserved (io_log st) \<and> \<not> in_run (io_log st)"
proof -
  have idle: "io_queued st = 0" "\<forall>i<length (io_threads st). io_threads st ! i = RIdle"
    using io_stuck [OF ok stuck] by auto
  have "tot w (io_threads st) = 0" if "w RIdle = 0" for w
    using idle(2) that by (simp add: tot_zero_iff)
  then have t: "tot io_work (io_threads st) = 0" "tot io_stored (io_threads st) = 0" "tot io_call (io_threads st) = 0"
    "tot io_end (io_threads st) = 0" "tot io_begin (io_threads st) = 0"
    by (simp_all add: io_defs)
  then have "io_done st" using ok idle(1) by (simp add: io_ok_def)
  then show ?thesis using ok t by (auto simp: io_ok_def)
qed

interpretation io: coalescing_job io_act io_ok io_log io_left
proof
  fix st c i r
  assume "io_ok st" "io_act c i st = Some r"
  from io_act_ok [OF this] show "\<exists>st'. r = Inr st' \<and> io_ok st'" by (auto split: sum.splits)
next
  fix st
  assume "io_ok st"
  then show "runs_in_turn (io_log st)" by (simp add: io_ok_def)
qed (rule io_served io_act_cost; assumption)+

section \<open>Properties\<close>

text \<open>An example for each: a request arrives while the run for an earlier one has begun.\<close>

fun follow :: "('c \<Rightarrow> nat \<Rightarrow> 's \<Rightarrow> 's run) \<Rightarrow> ('c \<times> nat) list \<Rightarrow> 's \<Rightarrow> 's run" where
  "follow act [] st = Some (Inr st)"
| "follow act ((c, i) # cs) st = bindO (act c i st) (follow act cs)"

lemma follow_reaches:
  "follow act cs st = Some (Inr st') \<Longrightarrow> reaches act init st \<Longrightarrow> reaches act init st'"
proof (induction cs arbitrary: st)
  case (Cons ci cs)
  obtain c i where ci: "ci = (c, i)" by force
  with Cons.prems(1) obtain st1 where "act c i st = Some (Inr st1)" "follow act cs st1 = Some (Inr st')"
    by (auto simp: bindO_eq_Some)
  then show ?case using Cons.IH [of st1] reaches.step [OF Cons.prems(2)] by blast
qed simp

definition job_example :: "(bool \<times> nat) list" where
  "job_example = (True, 0) # replicate 7 (False, 0) @ replicate 4 (False, 1) @
     (True, 0) # replicate 6 (False, 0) @ replicate 13 (False, 1)"

definition job_end :: job_state where
  "job_end = \<lparr>jb_available = 0, jb_progress = 0, jb_queued = 0, jb_locked = False, jb_guard = 0,
     jb_threads = [JIdle, JIdle], jb_log = [Ended, Began, Ended, Called, Began, Called]\<rparr>"

lemma job_end_reached: "reaches job_act (job_init 2) job_end"
proof -
  have "follow job_act job_example (job_init 2) = Some (Inr job_end)" by code_simp
  then show ?thesis by (rule follow_reaches) (rule reaches.start)
qed

definition io_example :: "(bool \<times> nat) list" where
  "io_example = (True, 0) # replicate 7 (False, 0) @ replicate 4 (False, 1) @
     (True, 0) # replicate 5 (False, 0) @ replicate 12 (False, 1)"

definition io_final :: io_state where
  "io_final = \<lparr>io_starving = True, io_done = True, io_queued = 0, io_locked = False,
     io_threads = [RIdle, RIdle], io_log = [Ended, Began, Ended, Called, Began, Called]\<rparr>"

lemma io_final_reached: "reaches io_act (io_init 2) io_final"
proof -
  have "follow io_act io_example (io_init 2) = Some (Inr io_final)" by code_simp
  then show ?thesis by (rule follow_reaches) (rule reaches.start)
qed

text \<open>
  C8: a \<^verbatim>\<open>Job\<close> that any number of threads ask for and run, in any interleaving of their
  reads, writes and lock operations, never fails an assertion or its access guard, its function
  is never run by two threads at once and not more often than asked for; and when no new requests come, the
  threads come to rest after boundedly many steps, with a run begun after the last request and
  none unfinished.
\<close>

theorem job_serves_every_request:
  assumes "reaches job_act (job_init n) st" "0 < n"
  shows "(\<forall>c i e. job_act c i st \<noteq> Some (Inl e)) \<and> runs_in_turn (jb_log st) \<and>
    (\<forall>k st'. winds_down job_act st k st' \<longrightarrow> k \<le> job_left st \<and>
      ((\<forall>i. job_act False i st' = None) \<longrightarrow> \<not> unserved (jb_log st') \<and> \<not> in_run (jb_log st')))"
  using job.contract [OF assms(1) job_init_ok [OF assms(2)]] by blast

theorem job_serves_every_request_witness:
  "runs_in_turn (jb_log job_end) \<and> \<not> unserved (jb_log job_end) \<and> job_act True 1 job_end \<noteq> Some (Inl AssertFail)"
proof -
  have "\<forall>i. job_act False i job_end = None"
    by (auto simp: job_act_def job_end_def less_Suc_eq numeral_2_eq_2)
  then show ?thesis
    using job_serves_every_request [OF job_end_reached zero_less_numeral] winds_down.none [of job_act job_end] by blast
qed

text \<open>
  The same contract for \<^verbatim>\<open>RepeatableIOJob\<close>, whose requests skip the lock while an
  earlier one is still waiting to be picked up.
\<close>

theorem io_job_serves_every_request:
  assumes "reaches io_act (io_init n) st" "0 < n"
  shows "(\<forall>c i e. io_act c i st \<noteq> Some (Inl e)) \<and> runs_in_turn (io_log st) \<and>
    (\<forall>k st'. winds_down io_act st k st' \<longrightarrow> k \<le> io_left st \<and>
      ((\<forall>i. io_act False i st' = None) \<longrightarrow> \<not> unserved (io_log st') \<and> \<not> in_run (io_log st')))"
  using io.contract [OF assms(1) io_init_ok [OF assms(2)]] by blast

theorem io_job_serves_every_request_witness:
  "runs_in_turn (io_log io_final) \<and> \<not> unserved (io_log io_final) \<and> io_act True 1 io_final \<noteq> Some (Inl AssertFail)"
proof -
  have "\<forall>i. io_act False i io_final = None"
    by (auto simp: io_act_def io_final_def less_Suc_eq numeral_2_eq_2)
  then show ?thesis
    using io_job_serves_every_request [OF io_final_reached zero_less_numeral] winds_down.none [of io_act io_final] by blast
qed

text \<open>
  \<^verbatim>\<open>RepeatableIOJob\<close> reports that it is done before the worker has released its
  mutex: there is a run after which \<^verbatim>\<open>IsDone\<close> holds, so that \<^verbatim>\<open>Wait\<close> returns and the
  owner may destroy the job, while the worker that finished it still has to unlock the job's
  mutex.  The run takes one request and no unusual scheduling.
\<close>

theorem io_job_done_before_unlock:
  "\<exists>st. reaches io_act (io_init 2) st \<and> io_done st \<and> io_locked st \<and> io_threads st ! 1 = DUnlock True \<and>
    occurrences Called (io_log st) = 1"
proof -
  let ?st = "\<lparr>io_starving = True, io_done = True, io_queued = 0, io_locked = True,
     io_threads = [RIdle, DUnlock True], io_log = [Ended, Began, Called]\<rparr>"
  have "follow io_act ((True, 0) # replicate 7 (False, 0) @ replicate 8 (False, 1)) (io_init 2) = Some (Inr ?st)"
    by code_simp
  then have "reaches io_act (io_init 2) ?st" by (rule follow_reaches) (rule reaches.start)
  then show ?thesis by force
qed

end
