(* ===== verification/JobWaits.thy ===== *)
theory JobWaits
  imports JobRuns ParallelFor
begin

text \<open>
  Waiting for a job that other threads help with: \<^verbatim>\<open>ion/jobs/WaitableJob.h\<close> and
  \<^verbatim>\<open>WaitableJob.cpp\<close>, with the tasks and the owner of \<^verbatim>\<open>ListJob\<close> (\<^verbatim>\<open>ion/jobs/ListJob.h\<close>)
  and the sleeping and waking of \<^verbatim>\<open>ion/concurrency/ThreadSynchronizer.h\<close>.

  The owner creates the job on its stack, adds tasks, runs the function itself, waits, and
  destroys the job when \<^verbatim>\<open>Wait\<close> returns.  Workers take tasks from the pool's queues and
  run \<^verbatim>\<open>DoWork\<close>; so does the owner while it waits.  A step of a task after the job is gone is
  the fault \<open>BadAccess\<close>.  One step is one access to a counter (an assertion or test of two
  counters and the update after it taken together), taking or releasing the
  job's mutex, or a wait, which releases the mutex and falls asleep at once and takes it
  again when it is woken, or spuriously.  What \<^verbatim>\<open>DoJobWork\<close> finds in the queues of the
  pool is a choice: a task of this job if one is queued, no queue, or the index of another queue.
\<close>

section \<open>The model\<close>

datatype task_pc = TNone | TStart | TRun | TLock | TCount | TUnlock bool

datatype owner_pc =
    OStart | OLock | OProgress | OAvailable | OPush nat | OUnlock | OFun
  | PStart | PHelp | PTask bool task_pc | PBlock bool | PLocked bool | PNap | PNapped | PZero
  | PSleep | PMain | PRelock | PWoken | PUnlock bool | PReturned
  | IStart | ILocked | ISleep | IWoken

record wait_state =
  wj_available :: nat
  wj_progress :: nat
  wj_queued :: nat
  wj_locked :: bool
  wj_woken :: bool
  wj_alive :: bool
  wj_runs :: nat
  wj_owner :: owner_pc
  wj_workers :: "task_pc list"

definition wait_init :: "nat \<Rightarrow> wait_state" where
  "wait_init w = \<lparr>wj_available = 0, wj_progress = 0, wj_queued = 0, wj_locked = False, wj_woken = False,
     wj_alive = True, wj_runs = 0, wj_owner = OStart, wj_workers = replicate w TNone\<rparr>"

definition wait_lock :: "'p \<Rightarrow> wait_state \<Rightarrow> ('p \<times> wait_state) run" where
  "wait_lock pc st = (if wj_locked st then None else Some (Inr (pc, st\<lparr>wj_locked := True\<rparr>)))"

definition wait_unlock :: "'p \<Rightarrow> wait_state \<Rightarrow> ('p \<times> wait_state) run" where
  "wait_unlock pc st = Some (Inr (pc, st\<lparr>wj_locked := False\<rparr>))"

definition wait_goto :: "'p \<Rightarrow> wait_state \<Rightarrow> ('p \<times> wait_state) run" where
  "wait_goto pc st = Some (Inr (pc, st))"

text \<open>\<^verbatim>\<open>OnTaskStarted\<close> and \<^verbatim>\<open>OnTaskDone\<close>; the notification is sent before unlocking.\<close>

definition on_task_started :: "wait_state \<Rightarrow> (task_pc \<times> wait_state) run" where
  "on_task_started st =
    assertO (wj_available st > 0) (wait_goto TRun (st\<lparr>wj_available := wj_available st - 1\<rparr>))"

definition on_task_done :: "task_pc \<Rightarrow> wait_state \<Rightarrow> (task_pc \<times> wait_state) run" where
  "on_task_done pc st = (case pc of
      TLock \<Rightarrow> wait_lock TCount st
    | TCount \<Rightarrow> assertO (wj_progress st > 0)
        (let p = wj_progress st - 1 in wait_goto (TUnlock (p = 0)) (st\<lparr>wj_progress := p\<rparr>))
    | TUnlock notify \<Rightarrow> wait_unlock TNone (st\<lparr>wj_woken := wj_woken st \<or> notify\<rparr>)
    | _ \<Rightarrow> None)"

text \<open>\<^verbatim>\<open>ListJob::DoWork\<close>.\<close>

definition task_step :: "task_pc \<Rightarrow> wait_state \<Rightarrow> (task_pc \<times> wait_state) run" where
  "task_step pc st =
    (if pc \<noteq> TNone \<and> \<not> wj_alive st then Some (Inl BadAccess)
     else case pc of
       TNone \<Rightarrow> (if wj_queued st > 0 then wait_goto TStart (st\<lparr>wj_queued := wj_queued st - 1\<rparr>) else None)
     | TStart \<Rightarrow> on_task_started st
     | TRun \<Rightarrow> wait_goto TLock (st\<lparr>wj_runs := wj_runs st + 1\<rparr>)
     | _ \<Rightarrow> on_task_done pc st)"

text \<open>\<^verbatim>\<open>AddTaskLists\<close> for \<open>k\<close> tasks, \<^verbatim>\<open>AddTasks\<close> of the pool included.\<close>

definition add_tasks :: "nat \<Rightarrow> owner_pc \<Rightarrow> wait_state \<Rightarrow> (owner_pc \<times> wait_state) run" where
  "add_tasks k pc st = (case pc of
      OLock \<Rightarrow> wait_lock OProgress st
    | OProgress \<Rightarrow> wait_goto OAvailable (st\<lparr>wj_progress := wj_progress st + k\<rparr>)
    | OAvailable \<Rightarrow> wait_goto (OPush (k - 1)) (st\<lparr>wj_available := wj_available st + k\<rparr>)
    | OPush j \<Rightarrow> wait_goto (if j = 0 then OUnlock else OPush (j - 1)) (st\<lparr>wj_queued := wj_queued st + 1\<rparr>)
    | OUnlock \<Rightarrow> wait_unlock OFun st
    | _ \<Rightarrow> None)"

text \<open>\<^verbatim>\<open>UnlockAndWait\<close> and \<^verbatim>\<open>UnlockAndWaitEnsureWork\<close>; \<open>hw\<close>: the pool has workers.\<close>

definition fall_asleep :: "owner_pc \<Rightarrow> wait_state \<Rightarrow> (owner_pc \<times> wait_state) run" where
  "fall_asleep pc st = Some (Inr (pc, st\<lparr>wj_locked := False, wj_woken := False\<rparr>))"

definition wake_up :: "bool \<Rightarrow> owner_pc \<Rightarrow> wait_state \<Rightarrow> (owner_pc \<times> wait_state) run" where
  "wake_up spurious pc st = (if wj_woken st \<or> spurious then wait_lock pc st else None)"

definition blocking_wait :: "bool \<Rightarrow> bool \<Rightarrow> owner_pc \<Rightarrow> wait_state \<Rightarrow> (owner_pc \<times> wait_state) run" where
  "blocking_wait hw spurious pc st = (case pc of
      PBlock e \<Rightarrow> wait_lock (PLocked e) st
    | PLocked e \<Rightarrow>
        if wj_available st > 0
        then if e then wait_unlock PNap st else wait_goto (PUnlock False) st
        else wait_goto PZero st
    | PNap \<Rightarrow> wait_lock PNapped st
    | PNapped \<Rightarrow> wait_goto (if wj_available st > 0 then PUnlock False else PZero) st
    | PZero \<Rightarrow>
        if wj_progress st = 0 then wait_goto (PUnlock True) st
        else if hw then fall_asleep PSleep st else wait_unlock PMain st
    | PSleep \<Rightarrow> wake_up spurious PWoken st
    | PRelock \<Rightarrow> wait_lock PWoken st
    | PWoken \<Rightarrow> wait_goto (PUnlock (wj_progress st = 0 \<and> wj_available st = 0)) st
    | PUnlock r \<Rightarrow> wait_unlock (if r then PReturned else PHelp) (st\<lparr>wj_alive := \<not> r\<rparr>)
    | _ \<Rightarrow> None)"

text \<open>The wait of a job of type \<^verbatim>\<open>IOJob\<close>, which does not help.\<close>

definition io_wait :: "bool \<Rightarrow> owner_pc \<Rightarrow> wait_state \<Rightarrow> (owner_pc \<times> wait_state) run" where
  "io_wait spurious pc st = (case pc of
      IStart \<Rightarrow> wait_lock ILocked st
    | ILocked \<Rightarrow>
        if wj_progress st = 0 \<and> wj_available st = 0 then wait_goto (PUnlock True) st
        else fall_asleep ISleep st
    | ISleep \<Rightarrow> wake_up spurious IWoken st
    | IWoken \<Rightarrow> wait_unlock IStart st
    | _ \<Rightarrow> None)"

datatype choice = TakeTask | NoQueue | OtherQueue | Spurious

text \<open>The owner: \<^verbatim>\<open>ListJob::Wait\<close>, \<^verbatim>\<open>CreateTasksAndWait\<close> and \<^verbatim>\<open>WaitableJob::Wait\<close>.\<close>

definition owner_task :: "bool \<Rightarrow> task_pc \<Rightarrow> wait_state \<Rightarrow> (owner_pc \<times> wait_state) run" where
  "owner_task main t st =
    bindO (task_step t st) (\<lambda>(t', st').
      wait_goto (if t' = TNone then if main then PMain else PHelp else PTask main t') st')"

definition owner_step :: "bool \<Rightarrow> bool \<Rightarrow> nat \<Rightarrow> choice \<Rightarrow> owner_pc \<Rightarrow> wait_state \<Rightarrow> (owner_pc \<times> wait_state) run" where
  "owner_step io hw k c pc st = (case pc of
      OStart \<Rightarrow> wait_goto (if k > 0 then OLock else OFun) st
    | OFun \<Rightarrow> wait_goto (if io then IStart else PStart) st
    | PStart \<Rightarrow> wait_goto (if wj_available st = 0 then PBlock False else PHelp) st
    | PHelp \<Rightarrow>
        if c = NoQueue then wait_goto (PBlock True) st
        else if c = OtherQueue then wait_goto PHelp st
        else if wj_queued st > 0 then owner_task False TNone st
        else wait_goto (PBlock True) st
    | PMain \<Rightarrow> if wj_queued st > 0 then owner_task True TNone st else wait_goto PRelock st
    | PTask main t \<Rightarrow> owner_task main t st
    | PReturned \<Rightarrow> None
    | IStart \<Rightarrow> io_wait (c = Spurious) pc st
    | ILocked \<Rightarrow> io_wait (c = Spurious) pc st
    | ISleep \<Rightarrow> io_wait (c = Spurious) pc st
    | IWoken \<Rightarrow> io_wait (c = Spurious) pc st
    | OLock \<Rightarrow> add_tasks k pc st
    | OProgress \<Rightarrow> add_tasks k pc st
    | OAvailable \<Rightarrow> add_tasks k pc st
    | OPush j \<Rightarrow> add_tasks k pc st
    | OUnlock \<Rightarrow> add_tasks k pc st
    | _ \<Rightarrow> blocking_wait hw (c = Spurious) pc st)"

definition wait_act :: "bool \<Rightarrow> bool \<Rightarrow> nat \<Rightarrow> choice \<Rightarrow> nat \<Rightarrow> wait_state \<Rightarrow> wait_state run" where
  "wait_act io hw k c i st =
    (if i = 0
     then bindO (owner_step io hw k c (wj_owner st) st) (\<lambda>(pc, st'). Some (Inr (st'\<lparr>wj_owner := pc\<rparr>)))
     else if i \<le> length (wj_workers st)
     then bindO (task_step (wj_workers st ! (i - 1)) st)
            (\<lambda>(pc, st'). Some (Inr (st'\<lparr>wj_workers := (wj_workers st)[i - 1 := pc]\<rparr>)))
     else None)"

lemmas wait_defs = wait_lock_def wait_unlock_def wait_goto_def fall_asleep_def wake_up_def
  on_task_started_def on_task_done_def task_step_def

section \<open>The invariant\<close>

text \<open>
  Weights of tasks (the owner's, if it runs one, stands first in the list) and of the owner.
\<close>

definition tk_lock :: "task_pc \<Rightarrow> nat" where
  "tk_lock t = of_bool (t \<in> {TCount, TUnlock True, TUnlock False})"

definition tk_act :: "task_pc \<Rightarrow> nat" where
  "tk_act t = of_bool (t \<in> {TStart, TRun, TLock, TCount})"

definition tk_start :: "task_pc \<Rightarrow> nat" where
  "tk_start t = of_bool (t = TStart)"

definition tk_todo :: "task_pc \<Rightarrow> nat" where
  "tk_todo t = of_bool (t \<in> {TStart, TRun})"

definition tk_notify :: "task_pc \<Rightarrow> nat" where
  "tk_notify t = of_bool (t = TUnlock True)"

definition tk_any :: "task_pc \<Rightarrow> nat" where
  "tk_any t = of_bool (t \<noteq> TNone)"

lemmas tk_defs = tk_lock_def tk_act_def tk_start_def tk_todo_def tk_notify_def tk_any_def

lemma tk_le: "tk_notify t \<le> tk_lock t" "tk_any t \<le> tk_act t + tk_lock t" "tk_start t \<le> tk_act t"
  by (cases t; simp add: tk_defs)+

fun own_task :: "owner_pc \<Rightarrow> task_pc" where
  "own_task (PTask main t) = t"
| "own_task _ = TNone"

fun ow_lock :: "owner_pc \<Rightarrow> nat" where
  "ow_lock (PLocked e) = 1" | "ow_lock (PUnlock r) = 1" | "ow_lock (OPush j) = 1"
| "ow_lock o1 = of_bool (o1 \<in> {OProgress, OAvailable, OUnlock, PNapped, PZero, PWoken, ILocked, IWoken})"

fun ow_progress :: "nat \<Rightarrow> owner_pc \<Rightarrow> nat" where
  "ow_progress k OAvailable = k" | "ow_progress k (OPush j) = j + 1" | "ow_progress k _ = 0"

fun ow_available :: "owner_pc \<Rightarrow> nat" where
  "ow_available (OPush j) = j + 1" | "ow_available _ = 0"

fun ow_todo :: "nat \<Rightarrow> owner_pc \<Rightarrow> nat" where
  "ow_todo k (OPush j) = j + 1"
| "ow_todo k o1 = (if o1 \<in> {OStart, OLock, OProgress, OAvailable} then k else 0)"

definition ow_adds :: "owner_pc \<Rightarrow> bool" where
  "ow_adds pc \<longleftrightarrow> pc \<in> {OLock, OProgress, OAvailable}"

definition ow_returns :: "owner_pc \<Rightarrow> bool" where
  "ow_returns pc \<longleftrightarrow> pc \<in> {PUnlock True, PReturned}"

definition ow_sleeps :: "owner_pc \<Rightarrow> bool" where
  "ow_sleeps pc \<longleftrightarrow> pc \<in> {PSleep, ISleep}"

definition ow_no_task :: "owner_pc \<Rightarrow> bool" where
  "ow_no_task pc \<longleftrightarrow> pc \<in> {PTask True TNone, PTask False TNone}"

definition wait_inv :: "nat \<Rightarrow> task_pc list \<Rightarrow> owner_pc \<Rightarrow> wait_state \<Rightarrow> bool" where
  "wait_inv k ts pc st \<longleftrightarrow>
    tot tk_lock ts + ow_lock pc = of_bool (wj_locked st) \<and>
    wj_progress st = wj_queued st + tot tk_act ts + ow_progress k pc \<and>
    wj_available st = wj_queued st + tot tk_start ts + ow_available pc \<and>
    wj_runs st + wj_queued st + tot tk_todo ts + ow_todo k pc = k \<and>
    (ow_adds pc \<longrightarrow> 0 < k) \<and>
    (ow_returns pc \<longrightarrow> wj_progress st = 0) \<and>
    (wj_alive st \<longleftrightarrow> pc \<noteq> PReturned) \<and>
    (pc = PReturned \<longrightarrow> tot tk_any ts = 0) \<and>
    \<not> ow_no_task pc \<and>
    (ow_sleeps pc \<and> \<not> wj_woken st \<longrightarrow> 1 \<le> wj_progress st + tot tk_notify ts)"

definition wait_ok :: "nat \<Rightarrow> wait_state \<Rightarrow> bool" where
  "wait_ok k st \<longleftrightarrow> wj_workers st \<noteq> [] \<and> wait_inv k (own_task (wj_owner st) # wj_workers st) (wj_owner st) st"

text \<open>A step of a task, whoever runs it, keeps the invariant; it may be a step of the owner.\<close>

lemma task_step_inv:
  assumes inv: "wait_inv k ts pc st" and i: "i < length ts" and act: "task_step (ts ! i) st = Some r"
  shows "case r of Inl e \<Rightarrow> False | Inr (t, st') \<Rightarrow> wait_inv k (ts[i := t]) pc st'"
proof -
  note mem = tot_member [OF i, of tk_lock] tot_member [OF i, of tk_act] tot_member [OF i, of tk_start]
    tot_member [OF i, of tk_todo] tot_member [OF i, of tk_any] tot_member [OF i, of tk_notify]
  note inv' = wait_inv_def ow_returns_def tot_upd [OF i]
  show ?thesis
  proof (cases "ts ! i")
    case TNone
    then show ?thesis
      using inv act mem by (auto simp: wait_defs inv' tk_defs split: if_splits)
  next
    case TStart
    then show ?thesis
      using inv act mem by (auto simp: wait_defs inv' tk_defs split: if_splits)
  next
    case TRun
    then show ?thesis
      using inv act mem by (auto simp: wait_defs inv' tk_defs split: if_splits)
  next
    case TLock
    then show ?thesis
      using inv act mem by (auto simp: wait_defs inv' tk_defs split: if_splits)
  next
    case TCount
    then show ?thesis
      using inv act mem by (auto simp: wait_defs inv' tk_defs Let_def split: if_splits)
  next
    case (TUnlock b)
    have "tot tk_notify ts \<le> tot tk_lock ts" by (rule tot_mono [OF tk_le(1)])
    then show ?thesis
      using inv act mem TUnlock by (cases b) (auto simp: wait_defs inv' tk_defs split: if_splits)
  qed
qed

lemma task_step_frame:
  "task_step t st = Some (Inr (t', st')) \<Longrightarrow> wj_workers st' = wj_workers st \<and> wj_owner st' = wj_owner st"
  by (cases t) (auto simp: wait_defs Let_def assertO_eq_Some split: if_splits)

lemmas ow_defs = ow_adds_def ow_returns_def ow_sleeps_def ow_no_task_def

text \<open>While it helps, the owner has no weight of its own.\<close>

lemma wait_inv_helping:
  assumes "wait_inv k ts pc st" "pc \<in> {PHelp, PMain} \<or> (\<exists>m t. pc = PTask m t)"
    "pc' \<in> {PHelp, PMain} \<or> (\<exists>m t. pc' = PTask m t \<and> t \<noteq> TNone)"
  shows "wait_inv k ts pc' st"
proof -
  have w: "ow_lock q = 0 \<and> ow_progress k q = 0 \<and> ow_available q = 0 \<and> ow_todo k q = 0 \<and>
      \<not> ow_adds q \<and> \<not> ow_returns q \<and> \<not> ow_sleeps q \<and> q \<noteq> PReturned"
    if "q \<in> {PHelp, PMain} \<or> (\<exists>m t. q = PTask m t)" for q
    using that by (elim disjE exE insertE emptyE) (simp_all add: ow_defs)
  show ?thesis using assms(1) w [OF assms(2)] w [of pc'] assms(3) by (auto simp: wait_inv_def ow_no_task_def)
qed

lemma owner_task_ok:
  assumes inv: "wait_inv k (t # ws) pc st" and pc: "pc \<in> {PHelp, PMain} \<or> (\<exists>m t. pc = PTask m t)"
    and act: "owner_task m t st = Some r"
  shows "case r of Inl e \<Rightarrow> False | Inr (pc', st') \<Rightarrow>
    wait_inv k (own_task pc' # ws) pc' st' \<and> wj_workers st' = wj_workers st"
proof -
  obtain r1 where r1: "task_step t st = Some r1"
    using act by (cases "task_step t st") (auto simp: owner_task_def)
  have i: "0 < length (t # ws)" by simp
  show ?thesis
  proof (cases r1)
    case (Inl e)
    then show ?thesis using task_step_inv [OF inv i] r1 by simp
  next
    case (Inr ts')
    obtain t' st' where ts': "ts' = (t', st')" by force
    have inv': "wait_inv k (t' # ws) pc st'" using task_step_inv [OF inv i] r1 Inr ts' by simp
    have f: "wj_workers st' = wj_workers st" using task_step_frame r1 Inr ts' by blast
    let ?pc = "if t' = TNone then if m then PMain else PHelp else PTask m t'"
    have "r = Inr (?pc, st')" using act r1 Inr ts' by (simp add: owner_task_def wait_goto_def)
    moreover have "own_task ?pc = t'" by simp
    moreover have "wait_inv k (t' # ws) ?pc st'" by (rule wait_inv_helping [OF inv' pc]) auto
    ultimately show ?thesis using f by simp
  qed
qed

lemma tot_Cons [simp]: "tot w (x # ts) = w x + tot w ts"
  by (simp add: tot_def)

lemma tk_TNone [simp]:
  "tk_lock TNone = 0" "tk_act TNone = 0" "tk_start TNone = 0" "tk_todo TNone = 0" "tk_notify TNone = 0" "tk_any TNone = 0"
  by (simp_all add: tk_defs)

lemma owner_step_ok:
  assumes inv: "wait_inv k (own_task pc # ws) pc st" and act: "owner_step io hw k c pc st = Some r"
  shows "case r of Inl e \<Rightarrow> False | Inr (pc', st') \<Rightarrow>
    wait_inv k (own_task pc' # ws) pc' st' \<and> wj_workers st' = wj_workers st"
proof -
  have any: "tot tk_any ws \<le> tot tk_act ws + tot tk_lock ws"
    unfolding tot_add [symmetric] by (rule tot_mono [OF tk_le(2)])
  have start: "tot tk_start ws \<le> tot tk_act ws" by (rule tot_mono [OF tk_le(3)])
  have lk: "tot tk_lock ws = 0 \<and> wj_locked st" if "ow_lock pc = 1"
    using inv that by (cases "wj_locked st") (auto simp: wait_inv_def)
  note s = owner_step_def add_tasks_def blocking_wait_def io_wait_def wait_goto_def wait_lock_def wait_unlock_def
    fall_asleep_def wake_up_def wait_inv_def ow_defs
  show ?thesis
  proof (cases pc)
    case (PTask m t)
    then show ?thesis using owner_task_ok [of k t ws pc st m r] inv act by (simp add: owner_step_def)
  next
    case PHelp
    then show ?thesis
      using owner_task_ok [of k TNone ws PHelp st False r] inv act
      by (auto simp: owner_step_def wait_goto_def wait_inv_def ow_defs split: if_splits)
  next
    case PMain
    then show ?thesis
      using owner_task_ok [of k TNone ws PMain st True r] inv act
      by (auto simp: owner_step_def wait_goto_def wait_inv_def ow_defs split: if_splits)
  next
    case OStart
    then show ?thesis using lk inv act by (auto simp: s split: if_splits)
  next
    case OLock
    then show ?thesis using lk inv act by (auto simp: s split: if_splits)
  next
    case OProgress
    then show ?thesis using lk inv act by (auto simp: s split: if_splits)
  next
    case OAvailable
    then show ?thesis using lk inv act by (auto simp: s split: if_splits)
  next
    case (OPush j)
    then show ?thesis using lk inv act by (cases j) (auto simp: s split: if_splits)
  next
    case OUnlock
    then show ?thesis using lk inv act by (auto simp: s split: if_splits)
  next
    case OFun
    then show ?thesis using lk inv act by (auto simp: s split: if_splits)
  next
    case PStart
    then show ?thesis using lk inv act by (auto simp: s split: if_splits)
  next
    case (PBlock e)
    then show ?thesis using lk inv act by (auto simp: s split: if_splits)
  next
    case (PLocked e)
    then show ?thesis using lk inv act by (auto simp: s split: if_splits)
  next
    case PNap
    then show ?thesis using lk inv act by (auto simp: s split: if_splits)
  next
    case PNapped
    then show ?thesis using lk inv act by (auto simp: s split: if_splits)
  next
    case PZero
    then show ?thesis using lk inv act by (auto simp: s split: if_splits)
  next
    case PSleep
    then show ?thesis using lk inv act by (auto simp: s split: if_splits)
  next
    case PRelock
    then show ?thesis using lk inv act by (auto simp: s split: if_splits)
  next
    case PWoken
    then show ?thesis using lk inv act by (auto simp: s split: if_splits)
  next
    case (PUnlock r)
    then show ?thesis using lk inv act any by (cases r) (auto simp: s split: if_splits)
  next
    case PReturned
    then show ?thesis using act by (simp add: owner_step_def)
  next
    case IStart
    then show ?thesis using lk inv act by (auto simp: s split: if_splits)
  next
    case ILocked
    then show ?thesis using lk inv act start by (auto simp: s split: if_splits)
  next
    case ISleep
    then show ?thesis using lk inv act by (auto simp: s split: if_splits)
  next
    case IWoken
    then show ?thesis using lk inv act by (auto simp: s split: if_splits)
  qed
qed

lemma wait_inv_frame [simp]:
  "wait_inv k ts pc (st\<lparr>wj_owner := x\<rparr>) = wait_inv k ts pc st"
  "wait_inv k ts pc (st\<lparr>wj_workers := y\<rparr>) = wait_inv k ts pc st"
  by (simp_all add: wait_inv_def)

lemma wait_act_ok:
  assumes ok: "wait_ok k st" and act: "wait_act io hw k c i st = Some r"
  shows "case r of Inl e \<Rightarrow> False | Inr st' \<Rightarrow> wait_ok k st'"
proof (cases "i = 0")
  case True
  obtain r1 where r1: "owner_step io hw k c (wj_owner st) st = Some r1"
    using act True by (cases "owner_step io hw k c (wj_owner st) st") (auto simp: wait_act_def)
  have "case r1 of Inl e \<Rightarrow> False | Inr (pc', st') \<Rightarrow>
      wait_inv k (own_task pc' # wj_workers st) pc' st' \<and> wj_workers st' = wj_workers st"
    using owner_step_ok [OF _ r1] ok by (simp add: wait_ok_def)
  then show ?thesis
    using act True r1 ok by (auto simp: wait_act_def wait_ok_def split: sum.splits)
next
  case False
  let ?ws = "wj_workers st"
  let ?ts = "own_task (wj_owner st) # ?ws"
  have i: "i \<le> length ?ws" using act False by (auto simp: wait_act_def split: if_splits)
  then have ts: "?ts ! i = ?ws ! (i - 1)" "i < length ?ts" "?ts[i := t] = own_task (wj_owner st) # ?ws[i - 1 := t]" for t
    using False by (cases i; simp)+
  obtain r1 where r1: "task_step (?ws ! (i - 1)) st = Some r1"
    using act False i by (cases "task_step (?ws ! (i - 1)) st") (auto simp: wait_act_def)
  have "case r1 of Inl e \<Rightarrow> False | Inr (t, st') \<Rightarrow> wait_inv k (?ts[i := t]) (wj_owner st) st'"
    by (rule task_step_inv [OF _ ts(2)]) (use ok r1 in \<open>simp_all only: ts(1) wait_ok_def\<close>)
  moreover have "r = (case r1 of Inl e \<Rightarrow> Inl e | Inr (t, st') \<Rightarrow> Inr (st'\<lparr>wj_workers := ?ws[i - 1 := t]\<rparr>))"
    using act False i r1 by (auto simp: wait_act_def split: sum.splits)
  moreover have "wj_owner st' = wj_owner st" if "r1 = Inr (t, st')" for t st'
    using task_step_frame r1 that by blast
  moreover have "?ws \<noteq> []" using i False by auto
  ultimately show ?thesis
    by (cases r1) (simp_all only: sum.case prod.case wait_ok_def ts(3) split: prod.splits, simp_all)
qed

lemma wait_init_ok: "0 < w \<Longrightarrow> wait_ok k (wait_init w)"
  by (simp add: wait_ok_def wait_init_def wait_inv_def tot_replicate ow_defs)

lemma wait_reaches_ok: "reaches (wait_act io hw k) init st \<Longrightarrow> wait_ok k init \<Longrightarrow> wait_ok k st"
proof (induction rule: reaches.induct)
  case (step st c i st')
  then show ?case using wait_act_ok [of k st io hw c i "Inr st'"] by simp
qed

text \<open>Who cannot go on waits for the mutex, or sleeps, or has nothing to do.\<close>

lemma task_step_None:
  "wj_alive st \<Longrightarrow> task_step t st = None \<Longrightarrow> t = TNone \<and> wj_queued st = 0 \<or> t = TLock \<and> wj_locked st"
  by (cases t) (auto simp: wait_defs assertO_def Let_def split: if_splits)

lemma owner_step_None:
  assumes "wj_alive st" "owner_step io hw k TakeTask pc st = None"
  shows "pc = PReturned \<or> ow_no_task pc \<or> wj_locked st \<and> ow_lock pc = 0 \<and> own_task pc \<in> {TNone, TLock} \<or> ow_sleeps pc \<and> \<not> wj_woken st"
proof (cases pc)
  case (PTask m t)
  then have "task_step t st = None"
    using assms(2) by (cases "task_step t st") (auto simp: owner_step_def owner_task_def wait_goto_def bindO_def split: sum.splits)
  then show ?thesis using task_step_None [OF assms(1)] PTask by (cases m) (auto simp: ow_no_task_def)
qed (use assms in \<open>auto simp: owner_step_def owner_task_def add_tasks_def blocking_wait_def io_wait_def wait_goto_def
    wait_lock_def wait_unlock_def fall_asleep_def wake_up_def task_step_def ow_sleeps_def split: if_splits\<close>)

lemma wait_never_stuck:
  assumes ok: "wait_ok k st" and running: "wj_owner st \<noteq> PReturned"
  shows "\<exists>i. wait_act io hw k TakeTask i st \<noteq> None"
proof (rule ccontr)
  assume "\<nexists>i. wait_act io hw k TakeTask i st \<noteq> None"
  then have none: "wait_act io hw k TakeTask i st = None" for i by simp
  let ?o = "wj_owner st" and ?ws = "wj_workers st"
  have inv: "wait_inv k (own_task ?o # ?ws) ?o st" using ok by (simp add: wait_ok_def)
  have alive: "wj_alive st" using inv running by (simp add: wait_inv_def)
  have worker: "?ws ! i = TNone \<and> wj_queued st = 0 \<or> ?ws ! i = TLock \<and> wj_locked st" if "i < length ?ws" for i
  proof (rule task_step_None [OF alive])
    show "task_step (?ws ! i) st = None"
      using none [of "Suc i"] that
      by (cases "task_step (?ws ! i) st") (auto simp: wait_act_def bindO_def split: sum.splits)
  qed
  have "owner_step io hw k TakeTask ?o st = None"
    using none [of 0] by (cases "owner_step io hw k TakeTask ?o st") (auto simp: wait_act_def bindO_def split: sum.splits)
  moreover have "\<not> ow_no_task ?o" using inv by (simp add: wait_inv_def)
  ultimately have owner: "wj_locked st \<and> ow_lock ?o = 0 \<and> own_task ?o \<in> {TNone, TLock} \<or> ow_sleeps ?o \<and> \<not> wj_woken st"
    using owner_step_None [OF alive] running by blast
  have own: "ow_lock ?o = 0 \<and> tk_lock (own_task ?o) = 0"
    using owner by (auto simp: ow_sleeps_def tk_defs)
  have "tot tk_lock ?ws = 0"
    unfolding tot_zero_iff using worker by (force simp: tk_lock_def)
  then have free: "\<not> wj_locked st" using inv own by (simp add: wait_inv_def)
  have idle: "?ws ! i = TNone" if "i < length ?ws" for i using worker [OF that] free by blast
  have "0 < length ?ws" using ok by (simp add: wait_ok_def)
  then have q: "wj_queued st = 0" using worker [of 0] free by blast
  have t: "tot tk_act ?ws = 0" "tot tk_notify ?ws = 0" unfolding tot_zero_iff using idle by simp_all
  have s: "ow_sleeps ?o" "\<not> wj_woken st" using owner free by blast+
  then have "own_task ?o = TNone" "ow_progress k ?o = 0" by (auto simp: ow_sleeps_def)
  then show False using inv q t s by (auto simp: wait_inv_def)
qed

text \<open>An example: the owner falls asleep while a worker still runs the only task.\<close>

definition wait_example :: "(choice \<times> nat) list" where
  "wait_example = map (Pair TakeTask) (replicate 7 0 @ replicate 3 1 @ replicate 4 0 @ replicate 3 1 @ replicate 3 0)"

definition wait_end :: wait_state where
  "wait_end = \<lparr>wj_available = 0, wj_progress = 0, wj_queued = 0, wj_locked = False, wj_woken = True,
     wj_alive = False, wj_runs = 1, wj_owner = PReturned, wj_workers = [TNone]\<rparr>"

lemma wait_end_reached: "reaches (wait_act False True 1) (wait_init 1) wait_end"
proof -
  have "follow (wait_act False True 1) wait_example (wait_init 1) = Some (Inr wait_end)" by code_simp
  then show ?thesis by (rule follow_reaches) (rule reaches.start)
qed

section \<open>Properties\<close>

text \<open>
  C7: \<^verbatim>\<open>Wait\<close> returns only when every task of the job has been run and no thread will
  touch the job again, so its owner may destroy it: in any interleaving of the owner and the
  workers, with any spurious wake-ups and whatever the queues answer, no assertion fails and no
  task is taken or finished on a destroyed job; when \<^verbatim>\<open>Wait\<close> has returned, all tasks have
  run, none is queued or counted and the mutex is free.
\<close>

theorem wait_outlives_every_task:
  assumes "reaches (wait_act io hw k) (wait_init w) st" "0 < w"
  shows "(\<forall>c i e. wait_act io hw k c i st \<noteq> Some (Inl e)) \<and>
    (wj_owner st = PReturned \<longrightarrow> wj_runs st = k \<and> wj_queued st = 0 \<and> wj_progress st = 0 \<and>
      wj_available st = 0 \<and> \<not> wj_locked st \<and> (\<forall>t\<in>set (wj_workers st). t = TNone))"
proof -
  have ok: "wait_ok k st" by (rule wait_reaches_ok [OF assms(1) wait_init_ok [OF assms(2)]])
  have safe: "wait_act io hw k c i st \<noteq> Some (Inl e)" for c i e using wait_act_ok [OF ok] by fastforce
  have "wj_runs st = k \<and> wj_queued st = 0 \<and> wj_progress st = 0 \<and> wj_available st = 0 \<and> \<not> wj_locked st \<and>
      (\<forall>t\<in>set (wj_workers st). t = TNone)" if ret: "wj_owner st = PReturned"
  proof -
    have inv: "wait_inv k (TNone # wj_workers st) PReturned st" using ok ret by (simp add: wait_ok_def)
    then have "tot tk_any (wj_workers st) = 0" by (simp add: wait_inv_def)
    then have idle: "\<forall>t\<in>set (wj_workers st). t = TNone"
      by (auto simp: tot_zero_iff tk_any_def in_set_conv_nth)
    then have z: "tot tk_start (wj_workers st) = 0" "tot tk_todo (wj_workers st) = 0" "tot tk_lock (wj_workers st) = 0"
      by (auto intro!: tot_zero)
    have "wj_progress st = 0" using inv by (simp add: wait_inv_def ow_returns_def)
    then show ?thesis using inv idle z by (auto simp: wait_inv_def)
  qed
  then show ?thesis using safe by blast
qed

theorem wait_outlives_every_task_witness:
  "wj_owner wait_end = PReturned \<and> wj_runs wait_end = 1 \<and> wj_progress wait_end = 0 \<and>
    wait_act False True 1 TakeTask 1 wait_end \<noteq> Some (Inl BadAccess)"
  using wait_outlives_every_task [OF wait_end_reached zero_less_one] by (simp add: wait_end_def)

text \<open>
  C14: the owner is never left waiting: as long as \<^verbatim>\<open>Wait\<close> has not returned, some thread
  can take its next step, without a spurious wake-up.  So no wake-up is lost: an owner that
  sleeps unnoticed has a task in progress or a notification on its way.
\<close>

theorem wait_is_never_lost:
  assumes "reaches (wait_act io hw k) (wait_init w) st" "0 < w" "wj_owner st \<noteq> PReturned"
  shows "(\<exists>i. wait_act io hw k TakeTask i st \<noteq> None) \<and>
    (wj_owner st \<in> {PSleep, ISleep} \<and> \<not> wj_woken st \<and> \<not> wj_locked st \<longrightarrow> 0 < wj_progress st)"
proof -
  have ok: "wait_ok k st" by (rule wait_reaches_ok [OF assms(1) wait_init_ok [OF assms(2)]])
  have "0 < wj_progress st" if s: "wj_owner st \<in> {PSleep, ISleep}" "\<not> wj_woken st" "\<not> wj_locked st"
  proof -
    have inv: "wait_inv k (TNone # wj_workers st) (wj_owner st) st" using ok s(1) by (auto simp: wait_ok_def)
    have "tot tk_notify (wj_workers st) \<le> tot tk_lock (wj_workers st)" by (rule tot_mono [OF tk_le(1)])
    moreover have "tot tk_lock (wj_workers st) = 0" using inv s(3) by (simp add: wait_inv_def)
    moreover have "1 \<le> wj_progress st + tot tk_notify (wj_workers st)"
      using inv s(1,2) by (auto simp: wait_inv_def ow_sleeps_def)
    ultimately show ?thesis by simp
  qed
  then show ?thesis using wait_never_stuck [OF ok assms(3)] by blast
qed

theorem wait_is_never_lost_witness:
  "\<exists>i. wait_act False True 1 TakeTask i (wait_init 1) \<noteq> None"
  using wait_is_never_lost [OF reaches.start [of "wait_act False True 1" "wait_init 1"] zero_less_one]
  by (simp add: wait_init_def)

end
