(* ===== verification/GlobalMemory.thy ===== *)
theory GlobalMemory
  imports LinearMemory "HOL-Library.Multiset"
begin

text \<open>
  The allocator behind global \<^verbatim>\<open>new\<close> and \<^verbatim>\<open>malloc\<close>, \<^verbatim>\<open>ion/memory/GlobalMemoryPool.cpp\<close>:
  every thread has a resource of its own, each block carries a header with its owner in front
  of the user's data, and a block freed by another thread waits in a queue of its owner.

  The resources (and the native heap, owner \<open>native\<close>) are memory sources over one state;
  \<open>gh_reallocate\<close> stands for \<^verbatim>\<open>realloc\<close> of the native heap and of
  TLSF.  A header is kept under the address of the user's data behind it.  \<open>gm_room\<close> is no
  state of the code: it remembers how many bytes a block was requested with, so that copying
  past its end is the fault \<open>BadAccess\<close>.
\<close>

section \<open>The model\<close>

record 's gheap =
  gh_source :: "nat \<Rightarrow> 's msource"
  gh_reallocate :: "nat \<Rightarrow> addr \<Rightarrow> addr \<Rightarrow> 's \<Rightarrow> (addr option \<times> 's) run"

record block_header =
  bh_size :: nat
  bh_thread :: nat
  bh_alignment :: nat
  bh_offset :: nat

record 's gmem =
  gm_heap :: 's
  gm_headers :: "addr \<Rightarrow> block_header option"
  gm_deferred :: "nat \<Rightarrow> addr list"
  gm_ready :: "nat \<Rightarrow> bool"
  gm_room :: "addr \<Rightarrow> nat"

definition no_index :: nat where
  "no_index = 2 ^ 32 - 1"

definition native :: nat where
  "native = no_index mod 2 ^ 16"

definition max_global_block :: addr where
  "max_global_block = 128 * 1024"

text \<open>\<^verbatim>\<open>gPool->mTlPool[index / 512]->mResources[index % 512]\<close>.\<close>

definition tl_resource :: "nat \<Rightarrow> 's gmem \<Rightarrow> unit res" where
  "tl_resource index st =
    assertR (index div 512 < 512) (if gm_ready st index then Inr () else Inl BadAccess)"

definition gm_thread_init :: "nat \<Rightarrow> 's gmem \<Rightarrow> 's gmem res" where
  "gm_thread_init index st =
    assertR (index div 512 < 512) (Inr (st\<lparr>gm_ready := (gm_ready st)(index := True)\<rparr>))"

definition init_block :: "addr \<Rightarrow> addr \<Rightarrow> addr \<Rightarrow> nat \<Rightarrow> 's gmem \<Rightarrow> (addr \<times> 's gmem) res" where
  "init_block p sz al thread st =
    bindR (align_address (p + 8) al) (\<lambda>u.
      let offset = unat (u - p) in
      bindR (safe_range_cast 32 (unat sz)) (\<lambda>s.
      bindR (safe_range_cast 8 offset) (\<lambda>off.
      bindR (safe_range_cast 8 (unat al div 8)) (\<lambda>a.
        Inr (u, st\<lparr>gm_headers := (gm_headers st)(u \<mapsto>
          \<lparr>bh_size = s, bh_thread = thread mod 2 ^ 16, bh_alignment = a, bh_offset = off\<rparr>)\<rparr>)))))"

fun free_all :: "'s msource \<Rightarrow> addr list \<Rightarrow> 's \<Rightarrow> 's res" where
  "free_all src [] s = Inr s"
| "free_all src (p # ps) s = bindR (src_deallocate src p s) (free_all src ps)"

definition process_deferred :: "'s gheap \<Rightarrow> nat \<Rightarrow> 's gmem \<Rightarrow> 's gmem res" where
  "process_deferred h index st =
    bindR (free_all (gh_source h index) (gm_deferred st index) (gm_heap st)) (\<lambda>s.
      Inr (st\<lparr>gm_heap := s, gm_deferred := (gm_deferred st)(index := [])\<rparr>))"

definition owner_allocate :: "'s gheap \<Rightarrow> nat \<Rightarrow> addr \<Rightarrow> 's gmem \<Rightarrow> (addr option \<times> 's gmem) run" where
  "owner_allocate h own len st =
    bindO (src_allocate (gh_source h own) len 8 (gm_heap st)) (\<lambda>(p, s).
      Some (Inr (p, st\<lparr>gm_heap := s,
        gm_room := (case p of None \<Rightarrow> gm_room st | Some p \<Rightarrow> (gm_room st)(p := unat len))\<rparr>)))"

definition owner_free :: "'s gheap \<Rightarrow> nat \<Rightarrow> addr \<Rightarrow> 's gmem \<Rightarrow> 's gmem res" where
  "owner_free h own p st =
    bindR (src_deallocate (gh_source h own) p (gm_heap st)) (\<lambda>s.
      Inr (st\<lparr>gm_heap := s\<rparr>))"

definition gm_allocate :: "'s gheap \<Rightarrow> nat \<Rightarrow> addr \<Rightarrow> addr \<Rightarrow> 's gmem \<Rightarrow> (addr option \<times> 's gmem) run" where
  "gm_allocate h index sz al st =
    assertO (al \<ge> 8)
      (let len = sz + al in
       bindO (if sz \<le> max_global_block \<and> index \<noteq> no_index
              then bindO (Some (tl_resource index st)) (\<lambda>_.
                   bindO (Some (process_deferred h index st)) (\<lambda>st.
                   bindO (owner_allocate h index len st) (\<lambda>(p, st). Some (Inr (p, index, st)))))
              else bindO (owner_allocate h native len st) (\<lambda>(p, st). Some (Inr (p, no_index, st))))
         (\<lambda>(p, thread, st). case p of
            None \<Rightarrow> Some (Inr (None, st))
          | Some p \<Rightarrow> bindO (Some (init_block p sz al thread st)) (\<lambda>(u, st). Some (Inr (Some u, st)))))"

definition gm_deallocate :: "'s gheap \<Rightarrow> nat \<Rightarrow> addr \<Rightarrow> 's gmem \<Rightarrow> 's gmem res" where
  "gm_deallocate h index u st =
    (if u = 0 then Inr st
     else case gm_headers st u of
       None \<Rightarrow> Inl BadAccess
     | Some b \<Rightarrow>
         let p = u - of_nat (bh_offset b); own = bh_thread b; st = st\<lparr>gm_headers := (gm_headers st)(u := None)\<rparr> in
         if own = native then owner_free h native p st
         else bindR (tl_resource own st) (\<lambda>_.
           if own = index then owner_free h own p st
           else Inr (st\<lparr>gm_deferred := (gm_deferred st)(own := gm_deferred st own @ [p])\<rparr>)))"

text \<open>
  \<^verbatim>\<open>GlobalMemoryReallocate\<close>.  \<open>mAlignment\<close> holds the alignment divided by 8, and is added
  to the size as it is.
\<close>

definition owner_reallocate :: "'s gheap \<Rightarrow> nat \<Rightarrow> addr \<Rightarrow> addr \<Rightarrow> 's gmem \<Rightarrow> (addr option \<times> 's gmem) run" where
  "owner_reallocate h own p len st =
    bindO (gh_reallocate h own p len (gm_heap st)) (\<lambda>(q, s).
      Some (Inr (q, st\<lparr>gm_heap := s,
        gm_room := (case q of None \<Rightarrow> gm_room st | Some q \<Rightarrow> (gm_room st)(q := unat len))\<rparr>)))"

definition copy_fits :: "addr \<Rightarrow> nat \<Rightarrow> 's gmem \<Rightarrow> bool" where
  "copy_fits u n st = (case gm_headers st u of
      None \<Rightarrow> False
    | Some b \<Rightarrow> bh_offset b + n \<le> gm_room st (u - of_nat (bh_offset b)))"

definition gm_reallocate :: "'s gheap \<Rightarrow> nat \<Rightarrow> addr \<Rightarrow> addr \<Rightarrow> 's gmem \<Rightarrow> (addr option \<times> 's gmem) run" where
  "gm_reallocate h index u sz st = (case gm_headers st u of
      None \<Rightarrow> Some (Inl BadAccess)
    | Some b \<Rightarrow>
        let p = u - of_nat (bh_offset b); alignment = bh_alignment b;
            again = (\<lambda>(q, st) thread. case q of
                None \<Rightarrow> Some (Inr (None, st))
              | Some q \<Rightarrow> bindO (Some (init_block q sz (of_nat (alignment * 8)) thread st))
                            (\<lambda>(u, st). Some (Inr (Some u, st)))) in
        assertO (alignment * 8 \<le> 16)
          (if bh_thread b = native
           then bindO (owner_reallocate h native p (sz + of_nat alignment) st) (\<lambda>r. again r native)
           else bindO (Some (tl_resource index st)) (\<lambda>_.
             bindO (Some (process_deferred h index st)) (\<lambda>st.
             if bh_thread b = index \<and> sz \<le> max_global_block
             then bindO (owner_reallocate h index p (sz + of_nat alignment) st) (\<lambda>r. again r index)
             else bindO (gm_allocate h index sz (of_nat (alignment * 8)) st) (\<lambda>(q, st).
               case q of
                 None \<Rightarrow> Some (Inr (None, st))
               | Some q \<Rightarrow>
                   if copy_fits q (bh_size b) st
                   then bindO (Some (gm_deallocate h index u st)) (\<lambda>st. Some (Inr (Some q, st)))
                   else Some (Inl BadAccess))))))"

section \<open>Sources with owners\<close>

text \<open>
  Several sources that draw on one state: what one of them grants is apart from everything
  granted before by any of them, and has to be given back to the one that granted it.
\<close>

text \<open>The order of what is granted does not matter.\<close>

definition granted :: "('s \<Rightarrow> (nat \<times> region) list \<Rightarrow> bool) \<Rightarrow> 's \<Rightarrow> (nat \<times> region) multiset \<Rightarrow> bool" where
  "granted good s M \<longleftrightarrow> (\<exists>rs. good s rs \<and> mset rs = M)"

locale owned_sources =
  fixes good :: "'s \<Rightarrow> (nat \<times> region) list \<Rightarrow> bool"
    and src :: "nat \<Rightarrow> 's msource"
    and limit :: nat
  assumes grant: "good s rs \<Longrightarrow> fits limit len al \<Longrightarrow>
      \<exists>r s'. src_allocate (src own) len al s = Some (Inr (r, s')) \<and>
        (case r of None \<Rightarrow> good s' rs
         | Some p \<Rightarrow> unat al dvd unat p \<and> unat p + unat len \<le> 2 ^ 63 \<and>
             (\<forall>t\<in>set rs. apart (unat p, unat len) (snd t)) \<and> good s' ((own, unat p, unat len) # rs))"
    and give_back: "good s (rs @ (own, unat p, n) # rs') \<Longrightarrow>
      \<exists>s'. src_deallocate (src own) p s = Inr s' \<and> good s' (rs @ rs')"
begin

lemma granted_grant:
  assumes "granted good s M" "fits limit len al"
  obtains (no) s' where "src_allocate (src own) len al s = Some (Inr (None, s'))" "granted good s' M"
  | (yes) p s' where "src_allocate (src own) len al s = Some (Inr (Some p, s'))" "unat al dvd unat p"
      "unat p + unat len \<le> 2 ^ 63" "\<forall>t\<in>#M. apart (unat p, unat len) (snd t)"
      "granted good s' (add_mset (own, unat p, unat len) M)"
proof -
  obtain rs where rs: "good s rs" "mset rs = M" using assms(1) by (auto simp: granted_def)
  obtain r s' where r: "src_allocate (src own) len al s = Some (Inr (r, s'))"
    "case r of None \<Rightarrow> good s' rs
      | Some p \<Rightarrow> unat al dvd unat p \<and> unat p + unat len \<le> 2 ^ 63 \<and>
          (\<forall>t\<in>set rs. apart (unat p, unat len) (snd t)) \<and> good s' ((own, unat p, unat len) # rs)"
    using grant [OF rs(1) assms(2), of own] by blast
  show thesis
  proof (cases r)
    case None
    then show ?thesis using r rs(2) no by (auto simp: granted_def)
  next
    case (Some p)
    have "granted good s' (add_mset (own, unat p, unat len) M)"
      unfolding granted_def using r(2) rs(2) Some by (intro exI [of _ "(own, unat p, unat len) # rs"]) auto
    then show ?thesis using r rs(2) Some yes by auto
  qed
qed

lemma granted_give_back:
  assumes "granted good s (add_mset (own, unat p, n) M)"
  obtains s' where "src_deallocate (src own) p s = Inr s'" "granted good s' M"
proof -
  obtain rs where rs: "good s rs" "mset rs = add_mset (own, unat p, n) M" using assms by (auto simp: granted_def)
  then have "(own, unat p, n) \<in> set rs" by (metis set_mset_mset union_single_eq_member)
  then obtain as bs where split: "rs = as @ (own, unat p, n) # bs" by (auto simp: in_set_conv_decomp)
  with give_back rs(1) obtain s' where "src_deallocate (src own) p s = Inr s'" "good s' (as @ bs)" by blast
  moreover have "mset (as @ bs) = M" using rs(2) split by simp
  ultimately show thesis using that unfolding granted_def by blast
qed

lemma free_all_ok:
  "granted good s (mset (map (\<lambda>(p, n). (own, unat p, n)) ps) + M) \<Longrightarrow>
    \<exists>s'. free_all (src own) (map fst ps) s = Inr s' \<and> granted good s' M"
proof (induction ps arbitrary: s)
  case (Cons pn ps)
  obtain p n where pn: "pn = (p, n)" by force
  then obtain s1 where "src_deallocate (src own) p s = Inr s1"
    "granted good s1 (mset (map (\<lambda>(p, n). (own, unat p, n)) ps) + M)"
    using granted_give_back [of s own p n] Cons.prems by auto
  then show ?case using Cons.IH [of s1] pn by auto
qed auto

end

text \<open>Any source serves any number of owners.\<close>

context memory_source
begin

lemma shared: "owned_sources (\<lambda>s rs. good s (map snd rs)) (\<lambda>_. src) limit"
proof
  fix s rs len al own
  assume "good s (map snd rs)" "fits limit len al"
  from grant [OF this] show "\<exists>r s'. src_allocate src len al s = Some (Inr (r, s')) \<and>
      (case r of None \<Rightarrow> good s' (map snd rs)
       | Some p \<Rightarrow> unat al dvd unat p \<and> unat p + unat len \<le> 2 ^ 63 \<and>
           (\<forall>t\<in>set rs. apart (unat p, unat len) (snd t)) \<and> good s' (map snd ((own, unat p, unat len) # rs)))"
    by (simp cong: option.case_cong)
next
  fix s rs own n rs' and p :: addr
  assume "good s (map snd (rs @ (own, unat p, n) # rs'))"
  then show "\<exists>s'. src_deallocate src p s = Inr s' \<and> good s' (map snd (rs @ rs'))"
    using give_back [of s "map snd rs" p n "map snd rs'"] by simp
qed

end

interpretation mono_owners: owned_sources "\<lambda>s rs. lm_inv (\<lambda>(_ :: unit) _. True) (2 ^ 28 + 8) base s (map snd rs)"
  "\<lambda>_. mono_source exhausted_source" "2 ^ 28 + 8"
  for base :: "region list"
  by (rule own_block.mono.shared)

section \<open>The invariant\<close>

text \<open>
  \<open>live\<close> lists the blocks in use, \<open>pend\<close> those freed by other threads than their owners and
  not yet given back.
\<close>

record gblock =
  gb_user :: addr
  gb_size :: nat
  gb_owner :: nat
  gb_ptr :: addr
  gb_len :: nat

definition gb_region :: "gblock \<Rightarrow> region" where
  "gb_region b = (unat (gb_ptr b), gb_len b)"

definition gb_header :: "gblock \<Rightarrow> block_header \<Rightarrow> bool" where
  "gb_header b hdr \<longleftrightarrow> bh_size hdr = gb_size b \<and> bh_thread hdr = gb_owner b \<and>
    bh_offset hdr = unat (gb_user b) - unat (gb_ptr b)"

text \<open>The header in front of the user's data and the data lie inside the block.\<close>

definition gb_inside :: "gblock \<Rightarrow> bool" where
  "gb_inside b \<longleftrightarrow> unat (gb_ptr b) + 8 \<le> unat (gb_user b) \<and>
    unat (gb_user b) + gb_size b \<le> unat (gb_ptr b) + gb_len b"

definition owner_ok :: "'s gmem \<Rightarrow> nat \<Rightarrow> bool" where
  "owner_ok st own \<longleftrightarrow> own = native \<or> own < native \<and> gm_ready st own"

definition gm_blocks :: "gblock list \<Rightarrow> (nat \<times> addr \<times> nat) list \<Rightarrow> (nat \<times> region) multiset" where
  "gm_blocks live pend = mset (map (\<lambda>b. (gb_owner b, gb_region b)) live) +
    mset (map (\<lambda>(own, p, n). (own, unat p, n)) pend)"

definition gm_inv :: "('s \<Rightarrow> (nat \<times> region) list \<Rightarrow> bool) \<Rightarrow> gblock list \<Rightarrow> (nat \<times> addr \<times> nat) list \<Rightarrow> 's gmem \<Rightarrow> bool" where
  "gm_inv good live pend st \<longleftrightarrow>
    granted good (gm_heap st) (gm_blocks live pend) \<and>
    (\<forall>own. gm_deferred st own = map (fst \<circ> snd) (filter (\<lambda>t. fst t = own) pend)) \<and>
    (\<forall>b\<in>set live. gb_inside b \<and> owner_ok st (gb_owner b) \<and>
      (case gm_headers st (gb_user b) of None \<Rightarrow> False | Some hdr \<Rightarrow> gb_header b hdr)) \<and>
    sorted_wrt apart (map gb_region live)"

lemma native_value: "native = 65535"
  by (simp add: native_def no_index_def)

lemma apart_users: "apart (gb_region a) (gb_region b) \<Longrightarrow> gb_inside a \<Longrightarrow> gb_inside b \<Longrightarrow> gb_user a \<noteq> gb_user b"
  by (auto simp: apart_def gb_region_def gb_inside_def)

lemma eight_dvd: "pow2 al \<Longrightarrow> 8 \<le> unat al \<Longrightarrow> 8 dvd unat al"
proof -
  assume "pow2 al" "8 \<le> unat al"
  then obtain k where k: "unat al = 2 ^ k" by (auto simp: pow2_def unat_exp)
  have "3 \<le> k"
  proof (rule ccontr)
    assume "\<not> 3 \<le> k"
    then have "(2 :: nat) ^ k \<le> 2 ^ 2" by (intro power_increasing) auto
    with k \<open>8 \<le> unat al\<close> show False by simp
  qed
  then have "(2 :: nat) ^ 3 dvd 2 ^ k" by (rule le_imp_power_dvd)
  with k show "8 dvd unat al" by simp
qed

lemma init_block_ok:
  assumes p: "8 dvd unat p" "unat p + unat (sz + al) \<le> 2 ^ 63" and al: "pow2 al" "8 \<le> unat al" "unat al \<le> 128"
    and sz: "unat sz < 2 ^ 32"
  shows "\<exists>u hdr. unat al dvd unat u \<and> unat p + 8 \<le> unat u \<and> unat u + unat sz \<le> unat p + unat (sz + al) \<and>
    bh_size hdr = unat sz \<and> bh_thread hdr = thread mod 2 ^ 16 \<and> bh_offset hdr = unat u - unat p \<and>
    init_block p sz al thread st = Inr (u, st\<lparr>gm_headers := (gm_headers st)(u \<mapsto> hdr)\<rparr>)"
proof -
  have len: "unat (sz + al) = unat sz + unat al" by (rule unat_sum) (use sz al in simp)
  have p8: "unat (p + 8) = unat p + 8" using unat_sum [of p 8] p(2) len al by simp
  have "unat (p + 8) + unat al \<le> 2 ^ 64" using p8 p(2) len al by simp
  from align_address_ok [OF al(1) this] obtain u where u: "align_address (p + 8) al = Inr u"
    "unat al dvd unat u" "unat p + 8 \<le> unat u" "unat u < unat p + 8 + unat al" using p8 by auto
  have "8 dvd unat u" using eight_dvd [OF al(1,2)] u(2) by (rule dvd_trans)
  then obtain a where a: "unat u = 8 * a" ..
  obtain c where c: "unat p = 8 * c" using p(1) ..
  obtain d where d: "unat al = 8 * d" using eight_dvd [OF al(1,2)] ..
  have ad: "a \<le> c + d" using u(4) a c d by linarith
  have off: "unat (u - p) = unat u - unat p" by (rule unat_diff) (use u(3) in \<open>simp add: word_le_nat_alt\<close>)
  have al8: "unat al div 8 = d" using d by simp
  have b: "unat u - unat p < 2 ^ 8" "d < 2 ^ 8" "unat sz < 2 ^ 32"
    using ad a c d al sz by simp_all
  let ?hdr = "\<lparr>bh_size = unat sz, bh_thread = thread mod 2 ^ 16, bh_alignment = d,
    bh_offset = unat u - unat p\<rparr>"
  have "init_block p sz al thread st = Inr (u, st\<lparr>gm_headers := (gm_headers st)(u \<mapsto> ?hdr)\<rparr>)"
    by (simp add: init_block_def Let_def u(1) off al8 safe_range_cast_ok [OF b(1)]
        safe_range_cast_ok [OF b(2)] safe_range_cast_ok [OF b(3)] del: power_numeral)
  moreover have "unat u + unat sz \<le> unat p + unat (sz + al)" using ad a c d len by linarith
  ultimately show ?thesis using u(2,3) by (intro exI [of _ u] exI [of _ ?hdr]) simp
qed

lemma gm_blocks_Cons: "gm_blocks (b # live) pend = add_mset (gb_owner b, gb_region b) (gm_blocks live pend)"
  by (simp add: gm_blocks_def)

lemma live_in_blocks: "b \<in> set live \<Longrightarrow> (gb_owner b, gb_region b) \<in># gm_blocks live pend"
  by (auto simp: gm_blocks_def)

lemma filter_other: "o1 \<noteq> own \<Longrightarrow> filter (\<lambda>t. fst t \<noteq> own \<and> fst t = o1) pend = filter (\<lambda>t. fst t = o1) pend"
  by (rule filter_cong) auto

context owned_sources
begin

lemma process_deferred_ok:
  assumes "\<And>own. gh_source h own = src own" "gm_inv good live pend st"
  obtains st' where "process_deferred h own st = Inr st'"
    "gm_inv good live (filter (\<lambda>t. fst t \<noteq> own) pend) st'" "gm_ready st' = gm_ready st" "gm_room st' = gm_room st"
    "gm_headers st' = gm_headers st"
proof -
  let ?own = "map snd (filter (\<lambda>t. fst t = own) pend)" and ?rest = "filter (\<lambda>t. fst t \<noteq> own) pend"
  let ?f = "\<lambda>(o1, p, n). (o1, unat p, n)"
  have "mset (map ?f pend) = mset (map ?f (filter (\<lambda>t. fst t = own) pend)) + mset (map ?f ?rest)"
    by (induction pend) auto
  also have "map ?f (filter (\<lambda>t. fst t = own) pend) = map (\<lambda>(p, n). (own, unat p, n)) ?own"
    by (auto simp: comp_def)
  finally have "gm_blocks live pend = mset (map (\<lambda>(p, n). (own, unat p, n)) ?own) + gm_blocks live ?rest"
    by (simp add: gm_blocks_def)
  with assms(2) have "granted good (gm_heap st) (mset (map (\<lambda>(p, n). (own, unat p, n)) ?own) + gm_blocks live ?rest)"
    by (simp add: gm_inv_def)
  from free_all_ok [OF this] obtain s' where s': "free_all (src own) (map fst ?own) (gm_heap st) = Inr s'"
    "granted good s' (gm_blocks live ?rest)" by blast
  have d: "gm_deferred st own = map fst ?own" using assms(2) by (auto simp: gm_inv_def comp_def)
  have "process_deferred h own st = Inr (st\<lparr>gm_heap := s', gm_deferred := (gm_deferred st)(own := [])\<rparr>)"
    using s'(1) d assms(1) by (simp add: process_deferred_def)
  moreover have "gm_inv good live ?rest (st\<lparr>gm_heap := s', gm_deferred := (gm_deferred st)(own := [])\<rparr>)"
    using s'(2) assms(2) unfolding gm_inv_def owner_ok_def by (auto simp: filter_other)
  ultimately show thesis using that by auto
qed

lemma allocate_with:
  assumes h: "\<And>own. gh_source h own = src own" and inv: "gm_inv good live pend st"
    and own: "owner_ok st (thread mod 2 ^ 16)" "own = thread mod 2 ^ 16"
    and al: "pow2 al" "8 \<le> unat al" "unat al \<le> 128" and sz: "unat sz < 2 ^ 32"
    and lim: "unat sz + unat al + 8 \<le> limit"
  obtains (no) st' where "owner_allocate h own (sz + al) st = Some (Inr (None, st'))" "gm_inv good live pend st'"
      "gm_ready st' = gm_ready st"
  | (yes) p st' st'' blk where "owner_allocate h own (sz + al) st = Some (Inr (Some p, st'))"
      "init_block p sz al thread st' = Inr (gb_user blk, st'')" "gm_inv good (blk # live) pend st''"
      "unat al dvd unat (gb_user blk)" "gb_size blk = unat sz" "gb_owner blk = own" "gm_ready st'' = gm_ready st"
proof -
  have len: "unat (sz + al) = unat sz + unat al" by (rule unat_sum) (use sz al in simp)
  have f: "fits limit (sz + al) 8" using lim len by (auto simp: fits_def pow2_def intro: exI [of _ 3])
  have g: "granted good (gm_heap st) (gm_blocks live pend)" using inv by (simp add: gm_inv_def)
  from granted_grant [OF g f, of own] show thesis
  proof cases
    case (1 s')
    then show ?thesis using inv h that(1) [of "st\<lparr>gm_heap := s'\<rparr>"]
      by (auto simp: owner_allocate_def gm_inv_def owner_ok_def)
  next
    case (2 p s')
    let ?st = "st\<lparr>gm_heap := s', gm_room := (gm_room st)(p := unat (sz + al))\<rparr>"
    have "8 dvd unat p" using 2(2) by simp
    from init_block_ok [OF this 2(3) al sz, of thread ?st] obtain u hdr where
      u: "unat al dvd unat u" "unat p + 8 \<le> unat u" "unat u + unat sz \<le> unat p + unat (sz + al)"
      "bh_size hdr = unat sz" "bh_thread hdr = own" "bh_offset hdr = unat u - unat p"
      "init_block p sz al thread ?st = Inr (u, ?st\<lparr>gm_headers := (gm_headers ?st)(u \<mapsto> hdr)\<rparr>)"
      using own(2) by blast
    define blk where "blk = \<lparr>gb_user = u, gb_size = unat sz, gb_owner = own, gb_ptr = p, gb_len = unat (sz + al)\<rparr>"
    have inside: "gb_inside blk" "gb_header blk hdr" using u by (auto simp: gb_inside_def gb_header_def blk_def)
    have "gb_region blk = (unat p, unat (sz + al))" by (simp add: gb_region_def blk_def)
    then have apart: "\<forall>b\<in>set live. apart (gb_region blk) (gb_region b)"
      using 2(4) live_in_blocks [of _ live pend] by fastforce
    have "\<forall>b\<in>set live. gb_user b \<noteq> u"
      using apart_users [OF _ inside(1)] apart inv by (force simp: gm_inv_def blk_def)
    note other = this
    let ?st' = "?st\<lparr>gm_headers := (gm_headers ?st)(u \<mapsto> hdr)\<rparr>"
    have live: "\<forall>b\<in>set live. gb_inside b \<and> owner_ok ?st' (gb_owner b) \<and>
        (case gm_headers ?st' (gb_user b) of None \<Rightarrow> False | Some hdr \<Rightarrow> gb_header b hdr)"
      using inv other by (auto simp: gm_inv_def owner_ok_def)
    have new: "gb_inside blk \<and> owner_ok ?st' (gb_owner blk) \<and>
        (case gm_headers ?st' (gb_user blk) of None \<Rightarrow> False | Some hdr \<Rightarrow> gb_header blk hdr)"
      using inside own by (simp add: blk_def owner_ok_def)
    have "(gb_owner blk, gb_region blk) = (own, unat p, unat (sz + al))" by (simp add: blk_def gb_region_def)
    then have "granted good s' (gm_blocks (blk # live) pend)" using 2(5) by (simp only: gm_blocks_Cons)
    then have "gm_inv good (blk # live) pend ?st'"
      using live new apart inv unfolding gm_inv_def by (simp del: fun_upd_apply)
    then show ?thesis using 2(1) u h that(2) [of p ?st blk] by (simp add: owner_allocate_def blk_def)
  qed
qed

lemma allocate_ok:
  assumes h: "\<And>own. gh_source h own = src own" and inv: "gm_inv good live pend st"
    and index: "index = no_index \<or> index < native \<and> gm_ready st index"
    and al: "pow2 al" "8 \<le> unat al" "unat al \<le> 128" and sz: "unat sz < 2 ^ 32"
    and lim: "unat sz + unat al + 8 \<le> limit"
  shows "case gm_allocate h index sz al st of Some (Inr (r, st')) \<Rightarrow>
      (\<exists>pend'. set pend' \<subseteq> set pend \<and> (case r of None \<Rightarrow> gm_inv good live pend' st'
       | Some u \<Rightarrow> \<exists>blk. gb_user blk = u \<and> gb_size blk = unat sz \<and> unat al dvd unat u \<and>
           gb_owner blk = (if sz \<le> max_global_block then index mod 2 ^ 16 else native) \<and>
           gm_inv good (blk # live) pend' st'))
    | _ \<Rightarrow> False"
proof -
  have al8: "al \<ge> 8" using al(2) by (simp add: word_le_nat_alt)
  show ?thesis
  proof (cases "sz \<le> max_global_block \<and> index \<noteq> no_index")
    case True
    then have i: "index < native" "gm_ready st index" "index mod 2 ^ 16 = index" using index native_value by auto
    then have "tl_resource index st = Inr ()" by (simp add: tl_resource_def native_value)
    moreover obtain st1 where st1: "process_deferred h index st = Inr st1"
      "gm_inv good live (filter (\<lambda>t. fst t \<noteq> index) pend) st1" "gm_ready st1 = gm_ready st"
      using process_deferred_ok [OF h inv] by metis
    moreover have "owner_ok st1 (index mod 2 ^ 16)" using i st1(3) by (simp add: owner_ok_def)
    note ok = this
    from allocate_with [OF h st1(2) ok i(3) [symmetric] al sz lim]
    show ?thesis
    proof cases
      case (1 st')
      have "gm_allocate h index sz al st = Some (Inr (None, st'))"
        using True al8 calculation 1(1) by (simp add: gm_allocate_def)
      then show ?thesis using 1(2) by (auto intro: exI [of _ "filter (\<lambda>t. fst t \<noteq> index) pend"])
    next
      case (2 p st' st'' blk)
      have "gm_allocate h index sz al st = Some (Inr (Some (gb_user blk), st''))"
        using True al8 calculation 2(1,2) by (simp add: gm_allocate_def)
      then show ?thesis using 2 True i
        by (auto intro!: exI [of _ "filter (\<lambda>t. fst t \<noteq> index) pend"] exI [of _ blk])
    qed
  next
    case False
    have n: "owner_ok st (no_index mod 2 ^ 16)" "native = no_index mod 2 ^ 16"
      by (simp_all add: owner_ok_def native_def)
    have own: "\<not> sz \<le> max_global_block \<or> index mod 2 ^ 16 = native" using False n(2) by auto
    from allocate_with [OF h inv n al sz lim]
    show ?thesis
    proof cases
      case (1 st')
      have "gm_allocate h index sz al st = Some (Inr (None, st'))"
        using False al8 1(1) by (auto simp: gm_allocate_def)
      then show ?thesis using 1(2) by auto
    next
      case (2 p st' st'' blk)
      have "gm_allocate h index sz al st = Some (Inr (Some (gb_user blk), st''))"
        using False al8 2(1,2) by (auto simp: gm_allocate_def)
      then show ?thesis using 2 own by (auto intro!: exI [of _ pend] exI [of _ blk])
    qed
  qed
qed


text \<open>Freeing: the owner gives the block back, another thread leaves it to the owner.\<close>

lemma deallocate_ok:
  assumes h: "\<And>own. gh_source h own = src own" and inv: "gm_inv good (xs @ b # ys) pend st"
  shows "case gm_deallocate h index (gb_user b) st of Inl e \<Rightarrow> False
    | Inr st' \<Rightarrow> gm_inv good (xs @ ys) (if gb_owner b = native \<or> gb_owner b = index then pend
        else pend @ [(gb_owner b, gb_ptr b, gb_len b)]) st'"
proof -
  have b: "gb_inside b" "owner_ok st (gb_owner b)" using inv by (auto simp: gm_inv_def)
  obtain hdr where hdr: "gm_headers st (gb_user b) = Some hdr" "gb_header b hdr"
    using inv by (auto simp: gm_inv_def split: option.splits)
  have ptr: "gb_user b - of_nat (bh_offset hdr) = gb_ptr b" "gb_user b \<noteq> 0"
    using b(1) hdr(2) unfolding gb_inside_def gb_header_def
    by (auto simp: unat_diff [symmetric] word_le_nat_alt)
  have other: "gb_user c \<noteq> gb_user b" if "c \<in> set xs \<union> set ys" for c
  proof -
    have "apart (gb_region c) (gb_region b) \<or> apart (gb_region b) (gb_region c)"
      using inv that by (auto simp: gm_inv_def sorted_wrt_append)
    moreover have "gb_inside c" using inv that by (auto simp: gm_inv_def)
    ultimately show ?thesis using apart_users [of c b] apart_users [of b c] b(1) by auto
  qed
  let ?st = "st\<lparr>gm_headers := (gm_headers st)(gb_user b := None)\<rparr>"
  have rest: "\<forall>c\<in>set (xs @ ys). gb_inside c \<and> owner_ok ?st (gb_owner c) \<and>
      (case gm_headers ?st (gb_user c) of None \<Rightarrow> False | Some hdr \<Rightarrow> gb_header c hdr)"
    "sorted_wrt apart (map gb_region (xs @ ys))"
    using inv other by (auto simp: gm_inv_def sorted_wrt_append owner_ok_def)
  have blocks: "gm_blocks (xs @ b # ys) pend = add_mset (gb_owner b, unat (gb_ptr b), gb_len b) (gm_blocks (xs @ ys) pend)"
    by (simp add: gm_blocks_def gb_region_def)
  show ?thesis
  proof (cases "gb_owner b = native \<or> gb_owner b = index")
    case True
    from granted_give_back [of "gm_heap st" "gb_owner b" "gb_ptr b" "gb_len b" "gm_blocks (xs @ ys) pend"]
    obtain s' where s': "src_deallocate (src (gb_owner b)) (gb_ptr b) (gm_heap st) = Inr s'"
      "granted good s' (gm_blocks (xs @ ys) pend)" using inv blocks by (auto simp: gm_inv_def)
    have "gm_deallocate h index (gb_user b) st = Inr (?st\<lparr>gm_heap := s'\<rparr>)"
      using True s'(1) hdr ptr b(2) h native_value
      by (auto simp: gm_deallocate_def gb_header_def Let_def owner_free_def owner_ok_def tl_resource_def)
    then show ?thesis using True rest s'(2) inv by (auto simp: gm_inv_def owner_ok_def)
  next
    case False
    then have "gm_deallocate h index (gb_user b) st =
        Inr (?st\<lparr>gm_deferred := (gm_deferred st)(gb_owner b := gm_deferred st (gb_owner b) @ [gb_ptr b])\<rparr>)"
      using hdr ptr b(2) native_value
      by (auto simp: gm_deallocate_def gb_header_def Let_def owner_ok_def tl_resource_def)
    moreover have "gm_blocks (xs @ ys) (pend @ [(gb_owner b, gb_ptr b, gb_len b)]) = gm_blocks (xs @ b # ys) pend"
      by (simp add: gm_blocks_def gb_region_def)
    ultimately show ?thesis using False rest inv by (auto simp: gm_inv_def owner_ok_def)
  qed
qed

end

section \<open>Properties of the global memory pool\<close>


text \<open>
  C22: a block freed by any thread goes back to its owner exactly once: by the owner's own
  thread, or from the native heap, at once, by another thread when the owner next empties its
  queue of deferred frees, and until then the block stays out of use; the other allocations
  keep their headers and data.
\<close>

theorem freed_block_returns_to_owner:
  assumes "owned_sources good (gh_source h) limit" "gm_inv good (xs @ b # ys) pend st"
  shows "case gm_deallocate h index (gb_user b) st of Inl e \<Rightarrow> False
    | Inr st' \<Rightarrow>
        gm_inv good (xs @ ys) (if gb_owner b = native \<or> gb_owner b = index then pend
          else pend @ [(gb_owner b, gb_ptr b, gb_len b)]) st' \<and>
        (case process_deferred h (gb_owner b) st' of Inl e \<Rightarrow> False
         | Inr st'' \<Rightarrow> gm_inv good (xs @ ys) (filter (\<lambda>t. fst t \<noteq> gb_owner b) pend) st'')"
proof -
  obtain st' where st': "gm_deallocate h index (gb_user b) st = Inr st'"
    "gm_inv good (xs @ ys) (if gb_owner b = native \<or> gb_owner b = index then pend
        else pend @ [(gb_owner b, gb_ptr b, gb_len b)]) st'"
    using owned_sources.deallocate_ok [OF assms(1) refl assms(2), of index] by (auto split: sum.splits)
  obtain st'' where "process_deferred h (gb_owner b) st' = Inr st''"
    "gm_inv good (xs @ ys) (filter (\<lambda>t. fst t \<noteq> gb_owner b)
      (if gb_owner b = native \<or> gb_owner b = index then pend
       else pend @ [(gb_owner b, gb_ptr b, gb_len b)])) st''"
    using owned_sources.process_deferred_ok [OF assms(1) refl st'(2)] by metis
  then show ?thesis using st' by (auto split: if_splits)
qed

text \<open>
  \<^verbatim>\<open>GlobalMemoryReallocate\<close> asks the owner for \<^verbatim>\<open>size + alignment\<close> bytes with the
  alignment divided by 8, as the header stores it, and then puts the user's data at least 8
  bytes behind the start: whenever the owner has memory, the data runs past the end of the
  block.
\<close>

theorem reallocated_block_too_small:
  assumes "gm_headers st u = Some b" "bh_alignment b \<in> {1, 2}"
    "bh_thread b = native \<or> bh_thread b = index \<and> index < native \<and> gm_ready st index \<and>
      gm_deferred st index = [] \<and> sz \<le> max_global_block"
    "gh_reallocate h (bh_thread b) (u - of_nat (bh_offset b)) (sz + of_nat (bh_alignment b)) (gm_heap st) =
      Some (Inr (Some q, s'))"
    "8 dvd unat q" "unat q + unat sz + 16 \<le> 2 ^ 63" "unat sz < 2 ^ 32"
  shows "case gm_reallocate h index u sz st of
      Some (Inr (Some u', st')) \<Rightarrow> unat q + gm_room st' q < unat u' + unat sz
    | _ \<Rightarrow> False"
proof -
  let ?a = "bh_alignment b"
  have al: "pow2 (of_nat (?a * 8))" "8 \<le> unat (of_nat (?a * 8) :: addr)" "unat (of_nat (?a * 8) :: addr) \<le> 128"
    "unat (of_nat (?a * 8) :: addr) \<le> 16" "?a * 8 \<le> 16" "unat (of_nat ?a :: addr) = ?a" "?a \<le> 2"
    using assms(2) by (auto simp: pow2_def intro: exI [of _ 3] exI [of _ 4])
  have len: "unat (sz + of_nat (?a * 8)) = unat sz + unat (of_nat (?a * 8) :: addr)"
    by (rule unat_sum) (use assms(7) al in simp)
  have room: "unat (sz + of_nat ?a) = unat sz + ?a"
    by (subst unat_sum) (use assms(7) al in simp_all)
  define st1 where "st1 = st\<lparr>gm_heap := s', gm_room := (gm_room st)(q := unat (sz + of_nat ?a))\<rparr>"
  have ok: "\<exists>u hdr. unat q + 8 \<le> unat u \<and>
      init_block q sz (of_nat (?a * 8)) thread st1 = Inr (u, st1\<lparr>gm_headers := (gm_headers st1)(u \<mapsto> hdr)\<rparr>)" for thread
    using init_block_ok [OF assms(5) _ al(1,2,3) assms(7), of thread st1] assms(6) len al(4) by auto
  have own: "owner_reallocate h (bh_thread b) (u - of_nat (bh_offset b)) (sz + of_nat ?a) st = Some (Inr (Some q, st1))"
    using assms(4) by (simp add: owner_reallocate_def st1_def)
  show ?thesis
  proof (cases "bh_thread b = native")
    case True
    with ok [of native] obtain u' hdr where "unat q + 8 \<le> unat u'"
      "init_block q sz (of_nat (?a * 8)) native st1 = Inr (u', st1\<lparr>gm_headers := (gm_headers st1)(u' \<mapsto> hdr)\<rparr>)" by blast
    then show ?thesis
      using True own al(5,7) assms(1) room by (simp add: gm_reallocate_def Let_def st1_def)
  next
    case False
    with assms(3) have i: "bh_thread b = index" "index < native" "gm_ready st index" "gm_deferred st index = []"
      "sz \<le> max_global_block" by auto
    from ok [of index] obtain u' hdr where "unat q + 8 \<le> unat u'"
      "init_block q sz (of_nat (?a * 8)) index st1 = Inr (u', st1\<lparr>gm_headers := (gm_headers st1)(u' \<mapsto> hdr)\<rparr>)" by blast
    moreover have "(gm_deferred st)(index := []) = gm_deferred st" using i(4) by auto
    then have "process_deferred h index st = Inr st" using i(4) by (simp add: process_deferred_def)
    ultimately show ?thesis
      using False i own al(5,7) assms(1) room native_value
      by (simp add: gm_reallocate_def Let_def st1_def tl_resource_def)
  qed
qed

text \<open>
  Moving a block to another thread's resource copies as many bytes as the old block
  had, also when the new one is smaller: the copy runs past the end of the new block.
\<close>

theorem shrinking_move_overruns:
  assumes "gm_headers st u = Some b" "bh_alignment b = 1" "unat sz < bh_size b"
    "bh_thread b \<noteq> native" "bh_thread b \<noteq> index" "index < native" "gm_ready st index" "gm_deferred st index = []"
    "sz \<le> max_global_block"
    "src_allocate (gh_source h index) (sz + 8) 8 (gm_heap st) = Some (Inr (Some q, s'))"
    "8 dvd unat q" "unat q + unat sz + 16 \<le> 2 ^ 63"
  shows "gm_reallocate h index u sz st = Some (Inl BadAccess)"
proof -
  have sz: "unat sz < 2 ^ 32" using assms(9) by (simp add: max_global_block_def word_le_nat_alt)
  have len: "unat (sz + 8) = unat sz + 8" by (subst unat_sum) (use sz in simp_all)
  define st1 where "st1 = st\<lparr>gm_heap := s', gm_room := (gm_room st)(q := unat (sz + 8))\<rparr>"
  have own: "owner_allocate h index (sz + 8) st = Some (Inr (Some q, st1))"
    using assms(10) by (simp add: owner_allocate_def st1_def)
  have "unat q + unat (sz + 8) \<le> 2 ^ 63" "pow2 8" using assms(12) len by (auto simp: pow2_def intro: exI [of _ 3])
  from init_block_ok [OF assms(11) this(1) this(2) _ _ sz, of index st1] obtain v hdr where
    v: "unat q + 8 \<le> unat v" "bh_offset hdr = unat v - unat q"
    "init_block q sz 8 index st1 = Inr (v, st1\<lparr>gm_headers := (gm_headers st1)(v \<mapsto> hdr)\<rparr>)" by auto
  have old: "v - of_nat (bh_offset hdr) = q"
    using v(1,2) by (simp add: unat_diff [symmetric] word_le_nat_alt)
  have "(gm_deferred st)(index := []) = gm_deferred st" using assms(8) by auto
  then have pd: "process_deferred h index st = Inr st" using assms(8) by (simp add: process_deferred_def)
  have "gm_allocate h index sz 8 st = Some (Inr (Some v, st1\<lparr>gm_headers := (gm_headers st1)(v \<mapsto> hdr)\<rparr>))"
    using assms(6,7,9) pd own v(3) by (simp add: gm_allocate_def tl_resource_def native_value no_index_def)
  moreover have "\<not> copy_fits v (bh_size b) (st1\<lparr>gm_headers := (gm_headers st1)(v \<mapsto> hdr)\<rparr>)"
    using v(1,2) old assms(3) len by (simp add: copy_fits_def st1_def)
  ultimately show ?thesis
    using assms(1,2,4-7) pd by (simp add: gm_reallocate_def Let_def tl_resource_def native_value)
qed

text \<open>A heap for examples: each owner's source is the same monotonic buffer, and
  reallocation takes a new block.\<close>

definition sample_heap :: "unit lmem gheap" where
  "sample_heap = \<lparr>gh_source = \<lambda>_. mono_source exhausted_source,
    gh_reallocate = \<lambda>_ _ len. mono_allocate exhausted_source len 8\<rparr>"

definition sample_mem :: "unit lmem gmem" where
  "sample_mem = \<lparr>gm_heap = mono_new 4096 1024 (), gm_headers = \<lambda>_. None, gm_deferred = \<lambda>_. [],
    gm_ready = \<lambda>_. True, gm_room = \<lambda>_. 0\<rparr>"

lemma sample_source:
  "owned_sources (\<lambda>s rs. lm_inv (\<lambda>(_ :: unit) _. True) (2 ^ 28 + 8) [(4096, 1024)] s (map snd rs))
    (gh_source sample_heap) (2 ^ 28 + 8)"
  unfolding sample_heap_def using mono_owners.owned_sources_axioms by simp

lemma sample_inv:
  "gm_inv (\<lambda>s rs. lm_inv (\<lambda>(_ :: unit) _. True) (2 ^ 28 + 8) [(4096, 1024)] s (map snd rs)) [] [] sample_mem"
proof -
  have "lm_inv (\<lambda>(_ :: unit) _. True) (2 ^ 28 + 8) [(4096, 1024)] (mono_new 4096 1024 ()) []"
    by (rule mono_new_inv) simp_all
  then show ?thesis by (simp add: gm_inv_def sample_mem_def granted_def gm_blocks_def)
qed

lemma pow2_8_16: "pow2 8" "pow2 16"
  unfolding pow2_def by (rule exI [of _ 3], simp) (rule exI [of _ 4], simp)

lemma sample_allocate:
  "\<exists>st'. gm_allocate sample_heap 3 100 16 sample_mem = Some (Inr (Some 4112, st'))"
  by (simp add: gm_allocate_def sample_heap_def sample_mem_def tl_resource_def process_deferred_def no_index_def
    max_global_block_def owner_allocate_def mono_source_def mono_allocate_def lm_allocate.simps mono_new_def
    allocate_from_block_def lm_rewind_def lm_put_def lm_active_capacity_def Let_def align_address_def byte_align_position_def
    byte_align_offset_def mod2_def init_block_def safe_range_cast_def trunc_def)

abbreviation sample_good :: "unit lmem \<Rightarrow> (nat \<times> region) list \<Rightarrow> bool" where
  "sample_good \<equiv> (\<lambda>s rs. lm_inv (\<lambda>(_ :: unit) _. True) (2 ^ 28 + 8) [(4096, 1024)] s (map snd rs))"


lemma sample_block:
  obtains b pend st where "gb_owner b = 3" "gm_inv sample_good ([] @ b # []) pend st"
proof -
  have ready: "3 = no_index \<or> 3 < native \<and> gm_ready sample_mem 3" by (simp add: sample_mem_def native_value)
  have "unat (100 :: addr) < 2 ^ 32" "unat (100 :: addr) + unat (16 :: addr) + 8 \<le> 2 ^ 28 + 8" by simp_all
  from owned_sources.allocate_ok [OF sample_source refl sample_inv ready pow2_8_16(2) _ _ this] sample_allocate
  show thesis using that by (fastforce simp: max_global_block_def)
qed

lemma freed_block_returns_to_owner_witness:
  "\<exists>b pend st. gm_inv sample_good [b] pend st \<and> gb_owner b = 3 \<and>
    (case gm_deallocate sample_heap 5 (gb_user b) st of Inl e \<Rightarrow> False
     | Inr st' \<Rightarrow> gm_inv sample_good [] (pend @ [(3, gb_ptr b, gb_len b)]) st')"
proof -
  obtain b pend st where b: "gb_owner b = 3" "gm_inv sample_good ([] @ b # []) pend st" by (rule sample_block)
  from freed_block_returns_to_owner [OF sample_source this(2), of 5] b show ?thesis
    by (intro exI [of _ b] exI [of _ pend] exI [of _ st]) (auto simp: native_value split: sum.splits)
qed

definition sample_used :: "nat \<Rightarrow> nat \<Rightarrow> unit lmem gmem" where
  "sample_used thread alignment = sample_mem\<lparr>gm_headers := (\<lambda>_. None)(4112 \<mapsto>
    \<lparr>bh_size = 100, bh_thread = thread, bh_alignment = alignment, bh_offset = 16\<rparr>)\<rparr>"

lemma sample_grants:
  "\<exists>s'. mono_allocate exhausted_source 202 8 (mono_new 4096 1024 ()) = Some (Inr (Some 4096, s'))"
  "\<exists>s'. mono_allocate exhausted_source 48 8 (mono_new 4096 1024 ()) = Some (Inr (Some 4096, s'))"
  by (simp_all add: mono_allocate_def lm_allocate.simps mono_new_def
    allocate_from_block_def lm_rewind_def lm_put_def lm_active_capacity_def Let_def align_address_def byte_align_position_def)

lemma reallocated_block_too_small_witness:
  "case gm_reallocate sample_heap 3 4112 200 (sample_used 3 2) of
      Some (Inr (Some u', st')) \<Rightarrow> 4096 + gm_room st' 4096 < unat u' + 200
    | _ \<Rightarrow> False"
proof -
  obtain s' where "gh_reallocate sample_heap 3 (4112 - of_nat 16) (200 + of_nat 2) (gm_heap (sample_used 3 2)) =
      Some (Inr (Some 4096, s'))"
    using sample_grants(1) by (auto simp: sample_heap_def sample_used_def sample_mem_def)
  then show ?thesis
    using reallocated_block_too_small [of "sample_used 3 2" 4112
      "\<lparr>bh_size = 100, bh_thread = 3, bh_alignment = 2, bh_offset = 16\<rparr>" 3 200 sample_heap 4096 s']
    by (auto simp: sample_used_def sample_mem_def native_value max_global_block_def split: option.splits sum.splits prod.splits)
qed

lemma shrinking_move_overruns_witness:
  "gm_reallocate sample_heap 3 4112 40 (sample_used 7 1) = Some (Inl BadAccess)"
proof -
  obtain s' where "src_allocate (gh_source sample_heap 3) (40 + 8) 8 (gm_heap (sample_used 7 1)) =
      Some (Inr (Some 4096, s'))"
    using sample_grants(2) by (auto simp: sample_heap_def sample_used_def sample_mem_def mono_source_def)
  then show ?thesis
    using shrinking_move_overruns [of "sample_used 7 1" 4112
      "\<lparr>bh_size = 100, bh_thread = 7, bh_alignment = 1, bh_offset = 16\<rparr>" 40 3 sample_heap 4096 s']
    by (simp add: sample_used_def sample_mem_def native_value max_global_block_def)
qed

end
