(* ===== verification/SmallPools.thy ===== *)
theory SmallPools
  imports ObjectPools "HOL-Library.Multiset"
begin

text \<open>
  Caches of freed blocks by size: \<^verbatim>\<open>memory/SmallMultiPoolBase.h\<close>,
  \<^verbatim>\<open>memory/SmallMultiPool.h\<close> and \<^verbatim>\<open>memory/MultiPoolResource.h\<close>.

  A request is rounded up to the size of one of 126 lists.  Each list has a store for the
  alignment of pointers and one for every other alignment; a store is a chain of free lists of
  at most 255 blocks, the current one first and each a stack.  The header that
  \<^verbatim>\<open>PoolBlock::Allocate\<close> writes in front of the user's data (the list, and the
  distance to the start of the block) is kept under the user's address, as reading it goes from
  there.  The resource and the pool of free-list nodes, which draws on the same resource, are a
  parameter with one state; the locale \<open>node_pool\<close> is their contract and the object pool of
  \<^verbatim>\<open>ObjectPools\<close> over any memory source provides it.
\<close>

section \<open>Lists by size\<close>

text \<open>The size a request is rounded up to, and its list.\<close>

definition small_bucket :: "addr \<Rightarrow> (addr \<times> addr) res" where
  "small_bucket len =
    (if len \<le> 512
     then bindR (byte_align_offset len 8) (\<lambda>d.
       let len = len + d; l = (len - 1) div 8 in
       assertR (l < 64) (Inr (len, l)))
     else if len \<le> 2048
     then bindR (byte_align_offset (len - 512) 32) (\<lambda>d.
       let len = len + d; l = (len - 512 - 1) div 32 + 64 in
       assertR (l < 112) (assertR (len mod 32 = 0) (Inr (len, l))))
     else bindR (byte_align_offset (len - 2048) 1024) (\<lambda>d.
       let len = len + d; l = (len - 2048 - 1) div 1024 + 112 in
       assertR (l < 126) (assertR (len mod 1024 = 0) (Inr (len, l)))))"

text \<open>The size of the blocks on a list.\<close>

definition bucket_size :: "nat \<Rightarrow> nat" where
  "bucket_size l = (if l < 64 then 8 * (l + 1) else if l < 112 then 512 + 32 * (l - 63) else 2048 + 1024 * (l - 111))"

definition max_small :: addr where
  "max_small = 16384"

lemma pow2_consts: "pow2 8" "pow2 32" "pow2 1024"
  unfolding pow2_def
  by (rule exI [of _ 3], simp) (rule exI [of _ 5], simp, rule exI [of _ 10], simp)

text \<open>Rounding up \<open>len - b\<close> to a multiple of \<open>a\<close>, in the numbers below the largest size.\<close>

lemma round_up:
  assumes "pow2 al" "b < len" "len \<le> max_small" "unat al \<le> 1024"
  obtains d k where "byte_align_offset (len - b) al = Inr d" "unat d < unat al" "0 < k"
    "unat (len + d) = unat b + unat al * k" "unat (len + d - b - 1) = unat al * k - 1"
    "unat len \<le> unat b + unat al * k" "unat b + unat al * k < unat len + unat al"
    "unat ((len + d - b - 1) div al) = k - 1"
proof -
  from byte_align_offset_ok [OF assms(1), of "len - b"] obtain d where d:
    "byte_align_offset (len - b) al = Inr d" "unat d < unat al" "unat al dvd unat (len - b) + unat d" by blast
  have sub: "unat (len - b) = unat len - unat b" by (rule unat_diff) (use assms(2) in simp)
  have lt: "unat b < unat len" "unat len \<le> 16384"
    using assms(2,3) by (simp_all add: word_less_nat_alt word_le_nat_alt max_small_def)
  obtain k where k: "unat len - unat b + unat d = unat al * k" using d(3) sub by (auto elim: dvdE)
  have k0: "0 < k" using k lt by (cases k) auto
  have sum: "unat (len + d) = unat len + unat d"
    by (rule unat_sum) (use lt d(2) assms(4) in simp)
  have s: "unat (len + d) = unat b + unat al * k" using sum k lt by linarith
  have b: "b \<le> len + d" using s by (simp add: word_le_nat_alt)
  have p: "1 \<le> unat al * k" using k k0 lt by linarith
  have "unat (len + d - b) = unat al * k" using unat_diff [OF b] s by simp
  then have "unat (len + d - b - 1) = unat al * k - 1"
    using unat_diff [of 1 "len + d - b"] p by (simp add: word_le_nat_alt)
  moreover have "(unat al * k - 1) div unat al = k - 1"
  proof -
    obtain j where "k = Suc j" using k0 by (cases k) auto
    then show ?thesis using d(2) by (simp add: div_nat_eqI)
  qed
  ultimately show thesis
    using d(1,2) k0 s k lt that by (simp add: unat_div)
qed

lemma small_bucket_ok:
  assumes "0 < len" "len \<le> max_small"
  shows "\<exists>cap l. small_bucket len = Inr (cap, l) \<and> unat l < 126 \<and> unat cap = bucket_size (unat l) \<and>
    len \<le> cap \<and> unat cap < unat len + (if len \<le> 512 then 8 else if len \<le> 2048 then 32 else 1024)"
proof -
  consider "len \<le> 512" | "512 < len" "len \<le> 2048" | "2048 < len" by force
  then show ?thesis
  proof cases
    case 1
    obtain d k where raw: "byte_align_offset (len - 0) 8 = Inr d" "unat d < unat (8 :: addr)" "0 < k"
      "unat (len + d) = unat (0 :: addr) + unat (8 :: addr) * k" "unat (len + d - 0 - 1) = unat (8 :: addr) * k - 1"
      "unat len \<le> unat (0 :: addr) + unat (8 :: addr) * k" "unat (0 :: addr) + unat (8 :: addr) * k < unat len + unat (8 :: addr)"
      "unat ((len + d - 0 - 1) div 8) = k - 1"
      by (rule round_up [OF pow2_consts(1) assms]) simp
    then have r: "byte_align_offset len 8 = Inr d" "unat (len + d) = 8 * k" "unat ((len + d - 1) div 8) = k - 1"
      "unat len \<le> 8 * k" "8 * k < unat len + 8" "0 < k" by (simp_all only: diff_zero) simp_all
    have "k \<le> 64" using r(5) 1 by (simp add: word_le_nat_alt)
    then have l: "unat ((len + d - 1) div 8) < 64" using r(3,6) by linarith
    have "small_bucket len = Inr (len + d, (len + d - 1) div 8)"
      using 1 r(1) l by (simp add: small_bucket_def word_less_nat_alt Let_def)
    moreover have "bucket_size (k - 1) = 8 * k" using r(6) \<open>k \<le> 64\<close> by (cases k) (auto simp: bucket_size_def)
    ultimately show ?thesis using 1 r l
      by (intro exI [of _ "len + d"] exI [of _ "(len + d - 1) div 8"]) (simp add: word_le_nat_alt)
  next
    case 2
    obtain d k where raw: "byte_align_offset (len - 512) 32 = Inr d" "unat d < unat (32 :: addr)" "0 < k"
      "unat (len + d) = unat (512 :: addr) + unat (32 :: addr) * k" "unat (len + d - 512 - 1) = unat (32 :: addr) * k - 1"
      "unat len \<le> unat (512 :: addr) + unat (32 :: addr) * k" "unat (512 :: addr) + unat (32 :: addr) * k < unat len + unat (32 :: addr)"
      "unat ((len + d - 512 - 1) div 32) = k - 1"
      by (rule round_up [OF pow2_consts(2) 2(1) assms(2)]) simp
    then have r: "byte_align_offset (len - 512) 32 = Inr d" "unat (len + d) = 512 + 32 * k"
      "unat ((len + d - 512 - 1) div 32) = k - 1"
      "unat len \<le> 512 + 32 * k" "512 + 32 * k < unat len + 32" "0 < k" by simp_all
    have k: "k \<le> 48" using r(5) 2(2) by (simp add: word_le_nat_alt max_small_def)
    have l: "unat ((len + d - 512 - 1) div 32 + 64) = k + 63"
      by (subst unat_sum) (use r(3,6) k in simp_all)
    have m: "(len + d) mod 32 = 0" using r(2) by (simp add: word_unat_eq_iff unat_mod)
    have lt: "unat ((len + d - 512 - 1) div 32 + 64) < 112" using l k by linarith
    have "small_bucket len = Inr (len + d, (len + d - 512 - 1) div 32 + 64)"
      using 2 r(1) lt m by (simp add: small_bucket_def word_less_nat_alt word_le_nat_alt Let_def)
    moreover have "bucket_size (k + 63) = 512 + 32 * k" using r(6) k by (simp add: bucket_size_def)
    ultimately show ?thesis using 2 r l lt
      by (intro exI [of _ "len + d"] exI [of _ "(len + d - 512 - 1) div 32 + 64"]) (simp add: word_le_nat_alt)
  next
    case 3
    obtain d k where raw: "byte_align_offset (len - 2048) 1024 = Inr d" "unat d < unat (1024 :: addr)" "0 < k"
      "unat (len + d) = unat (2048 :: addr) + unat (1024 :: addr) * k" "unat (len + d - 2048 - 1) = unat (1024 :: addr) * k - 1"
      "unat len \<le> unat (2048 :: addr) + unat (1024 :: addr) * k" "unat (2048 :: addr) + unat (1024 :: addr) * k < unat len + unat (1024 :: addr)"
      "unat ((len + d - 2048 - 1) div 1024) = k - 1"
      by (rule round_up [OF pow2_consts(3) 3 assms(2)]) simp
    then have r: "byte_align_offset (len - 2048) 1024 = Inr d" "unat (len + d) = 2048 + 1024 * k"
      "unat ((len + d - 2048 - 1) div 1024) = k - 1"
      "unat len \<le> 2048 + 1024 * k" "2048 + 1024 * k < unat len + 1024" "0 < k" by simp_all
    have k: "k \<le> 14" using r(5) assms(2) by (simp add: word_le_nat_alt max_small_def)
    have l: "unat ((len + d - 2048 - 1) div 1024 + 112) = k + 111"
      by (subst unat_sum) (use r(3,6) k in simp_all)
    have m: "(len + d) mod 1024 = 0" using r(2) by (simp add: word_unat_eq_iff unat_mod)
    have lt: "unat ((len + d - 2048 - 1) div 1024 + 112) < 126" using l k by linarith
    have "small_bucket len = Inr (len + d, (len + d - 2048 - 1) div 1024 + 112)"
      using 3 r(1) lt m by (simp add: small_bucket_def word_less_nat_alt word_le_nat_alt Let_def)
    moreover have "bucket_size (k + 111) = 2048 + 1024 * k" using r(6) k by (simp add: bucket_size_def)
    ultimately show ?thesis using 3 r l lt
      by (intro exI [of _ "len + d"] exI [of _ "(len + d - 2048 - 1) div 1024 + 112"]) (simp add: word_le_nat_alt)
  qed
qed

text \<open>
  Every size from 1 to 16384 bytes has a list; the blocks of the list are at least as
  large and at most 7, 31 or 1023 bytes larger, all assertions of the computation hold, and the
  list determines the size of its blocks, so that a freed block may serve any later request for
  the same list.
\<close>

theorem bucket_holds_request:
  assumes "0 < len" "len \<le> max_small"
  shows "\<exists>cap l. small_bucket len = Inr (cap, l) \<and> unat l < 126 \<and> unat cap = bucket_size (unat l) \<and>
    len \<le> cap \<and> unat cap < unat len + (if len \<le> 512 then 8 else if len \<le> 2048 then 32 else 1024)"
  using assms by (rule small_bucket_ok)

section \<open>Free lists and stores\<close>

record 's pool_ops =
  po_source :: "'s msource"
  po_acquire :: "'s \<Rightarrow> (addr option \<times> 's) run"
  po_release :: "addr \<Rightarrow> 's \<Rightarrow> 's res"

text \<open>A \<^verbatim>\<open>FreeList\<close>: its address and its pointers, the last pushed first.\<close>

type_synonym free_node = "addr \<times> addr list"

definition fl_push :: "addr \<Rightarrow> free_node \<Rightarrow> free_node res" where
  "fl_push p l = (if length (snd l) < 255 then Inr (fst l, p # snd l) else Inl BadAccess)"

definition fl_pop :: "free_node \<Rightarrow> (addr \<times> free_node) res" where
  "fl_pop l = (case snd l of [] \<Rightarrow> Inl BadAccess | p # ps \<Rightarrow> Inr (p, (fst l, ps)))"

definition fl_pop_aligned :: "addr \<Rightarrow> free_node \<Rightarrow> (addr option \<times> free_node) res" where
  "fl_pop_aligned al l = (case snd l of
      [] \<Rightarrow> Inl BadAccess
    | p # ps \<Rightarrow> bindR (mod2 p al) (\<lambda>r.
        if r = 0 then bindR (fl_pop l) (\<lambda>(p, l). Inr (Some p, l)) else Inr (None, l)))"

definition fl_has_data :: "free_node \<Rightarrow> bool" where
  "fl_has_data l \<longleftrightarrow> 0 < length (snd l)"

definition fl_has_space :: "free_node \<Rightarrow> bool" where
  "fl_has_space l \<longleftrightarrow> length (snd l) < 255"

text \<open>Both overloads of \<^verbatim>\<open>Pop\<close>: with an alignment to check or without.\<close>

definition fl_take :: "addr option \<Rightarrow> free_node \<Rightarrow> (addr option \<times> free_node) res" where
  "fl_take check l = (case check of
      Some al \<Rightarrow> fl_pop_aligned al l
    | None \<Rightarrow> bindR (fl_pop l) (\<lambda>(p, l). Inr (Some p, l)))"

definition store_unuse :: "'s pool_ops \<Rightarrow> free_node list \<Rightarrow> 's \<Rightarrow> (free_node list \<times> 's) res" where
  "store_unuse ops chain s = (case chain of
      [] \<Rightarrow> Inl BadAccess
    | l # rest \<Rightarrow> bindR (po_release ops (fst l) s) (\<lambda>s. Inr (rest, s)))"

definition store_take :: "addr option \<Rightarrow> free_node list \<Rightarrow> (addr option \<times> free_node list) res" where
  "store_take check chain = (case chain of
      [] \<Rightarrow> Inr (None, [])
    | l # rest \<Rightarrow> if fl_has_data l then bindR (fl_take check l) (\<lambda>(p, l). Inr (p, l # rest)) else Inr (None, l # rest))"

definition store_allocate ::
    "'s pool_ops \<Rightarrow> addr option \<Rightarrow> free_node list \<Rightarrow> 's \<Rightarrow> (addr option \<times> free_node list \<times> 's) res" where
  "store_allocate ops check chain s = (case chain of
      [] \<Rightarrow> Inr (None, [], s)
    | l # rest \<Rightarrow>
        if fl_has_data l then bindR (store_take check chain) (\<lambda>(p, chain). Inr (p, chain, s))
        else bindR (store_unuse ops chain s) (\<lambda>(chain, s).
          bindR (store_take check chain) (\<lambda>(p, chain). Inr (p, chain, s))))"

text \<open>When no free list can be acquired, \<^verbatim>\<open>mCurrent\<close> is null and is dereferenced.\<close>

definition store_deallocate ::
    "'s pool_ops \<Rightarrow> addr \<Rightarrow> free_node list \<Rightarrow> 's \<Rightarrow> (free_node list \<times> 's) run" where
  "store_deallocate ops p chain s =
    bindO (if chain = [] \<or> \<not> fl_has_space (hd chain)
           then bindO (po_acquire ops s) (\<lambda>(n, s). case n of
                  None \<Rightarrow> Some (Inl BadAccess)
                | Some n \<Rightarrow> assertO (fl_has_space (n, [])) (Some (Inr ((n, []) # chain, s))))
           else Some (Inr (chain, s)))
      (\<lambda>(chain, s). bindO (Some (fl_push p (hd chain))) (\<lambda>l. Some (Inr (l # tl chain, s))))"

definition chain_full :: "free_node list \<Rightarrow> bool" where
  "chain_full chain \<longleftrightarrow> (case chain of [] \<Rightarrow> True | l # _ \<Rightarrow> 255 \<le> length (snd l))"

lemma store_deallocate_runs:
  "store_deallocate ops p chain s =
    (if chain_full chain
     then bindO (po_acquire ops s) (\<lambda>(n, s). case n of
         None \<Rightarrow> Some (Inl BadAccess)
       | Some n \<Rightarrow> Some (Inr ((n, [p]) # chain, s)))
     else Some (Inr ((fst (hd chain), p # snd (hd chain)) # tl chain, s)))"
proof (cases "po_acquire ops s")
  case (Some r)
  then show ?thesis
    by (cases r; cases chain)
      (auto simp: store_deallocate_def chain_full_def fl_push_def fl_has_space_def split: option.splits)
qed (cases chain, auto simp: store_deallocate_def chain_full_def fl_push_def fl_has_space_def)

section \<open>The multi pool\<close>

definition no_list :: nat where
  "no_list = 255"

record 's multi_pool =
  sp_state :: 's
  sp_chain :: "bool \<Rightarrow> nat \<Rightarrow> free_node list"
  sp_store :: "bool \<Rightarrow> nat \<Rightarrow> addr"
  sp_info :: "addr \<rightharpoonup> nat \<times> addr"

definition sp_set_chain :: "bool \<Rightarrow> nat \<Rightarrow> free_node list \<Rightarrow> 's multi_pool \<Rightarrow> 's multi_pool" where
  "sp_set_chain a l chain st = st\<lparr>sp_chain := (sp_chain st)(a := (sp_chain st a)(l := chain))\<rparr>"

definition pool_block_allocate ::
    "'s pool_ops \<Rightarrow> addr \<Rightarrow> addr \<Rightarrow> nat \<Rightarrow> 's multi_pool \<Rightarrow> (addr option \<times> 's multi_pool) run" where
  "pool_block_allocate ops len al lst st =
    (let extra = max al 2 in
     bindO (src_allocate (po_source ops) (len + extra) al (sp_state st)) (\<lambda>(p, s).
       let st = st\<lparr>sp_state := s\<rparr> in
       case p of
         None \<Rightarrow> Some (Inr (None, st))
       | Some p \<Rightarrow> bindO (Some (safe_range_cast 8 (unat extra))) (\<lambda>_.
           Some (Inr (Some (p + extra), st\<lparr>sp_info := (sp_info st)(p + extra \<mapsto> (lst, extra))\<rparr>)))))"

definition pool_block_info :: "addr \<Rightarrow> 's multi_pool \<Rightarrow> (nat \<times> addr) res" where
  "pool_block_info p st = (case sp_info st p of None \<Rightarrow> Inl BadAccess | Some b \<Rightarrow> Inr b)"

definition multi_allocate ::
    "'s pool_ops \<Rightarrow> addr \<Rightarrow> addr \<Rightarrow> 's multi_pool \<Rightarrow> (addr option \<times> 's multi_pool) run" where
  "multi_allocate ops len al st =
    assertO (al \<le> 255) (assertO (len \<le> max_small) (assertO (0 < len)
      (bindO (Some (small_bucket len)) (\<lambda>(len, l).
        let aligned = (al \<noteq> 8); l = unat l in
        bindO (Some (store_allocate ops (if aligned then Some al else None) (sp_chain st aligned l) (sp_state st)))
          (\<lambda>(p, chain, s).
            let st = sp_set_chain aligned l chain (st\<lparr>sp_state := s\<rparr>) in
            if p \<noteq> None then Some (Inr (p, st))
            else assertO (l \<noteq> no_list)
              (bindO (Some (safe_range_cast 8 l)) (\<lambda>l. pool_block_allocate ops len al l st)))))))"

definition multi_deallocate ::
    "'s pool_ops \<Rightarrow> addr \<Rightarrow> nat \<Rightarrow> addr \<Rightarrow> 's multi_pool \<Rightarrow> 's multi_pool run" where
  "multi_deallocate ops p l offset st =
    assertO (l < 126)
      (let aligned = (offset \<noteq> 8) in
       bindO (store_deallocate ops p (sp_chain st aligned l) (sp_state st)) (\<lambda>(chain, s).
         Some (Inr (sp_set_chain aligned l chain (st\<lparr>sp_state := s\<rparr>)))))"

text \<open>\<^verbatim>\<open>MultiPoolResource\<close>; the header of a block given back to the resource is gone.\<close>

definition mpr_allocate ::
    "'s pool_ops \<Rightarrow> addr \<Rightarrow> addr \<Rightarrow> 's multi_pool \<Rightarrow> (addr option \<times> 's multi_pool) run" where
  "mpr_allocate ops len al st =
    (if len \<le> max_small then multi_allocate ops len al st else pool_block_allocate ops len al no_list st)"

definition mpr_deallocate :: "'s pool_ops \<Rightarrow> addr \<Rightarrow> 's multi_pool \<Rightarrow> 's multi_pool run" where
  "mpr_deallocate ops p st =
    bindO (Some (pool_block_info p st)) (\<lambda>(l, offset).
      if l \<noteq> no_list then multi_deallocate ops p l offset st
      else bindO (Some (src_deallocate (po_source ops) (p - offset) (sp_state st))) (\<lambda>s.
        Some (Inr (st\<lparr>sp_state := s, sp_info := (sp_info st)(p := None)\<rparr>))))"

text \<open>The constructor and the destructor: the 252 stores come from the resource.\<close>

definition store_create :: "'s pool_ops \<Rightarrow> bool \<times> nat \<Rightarrow> 's multi_pool \<Rightarrow> 's multi_pool run" where
  "store_create ops k st =
    bindO (src_allocate (po_source ops) 8 8 (sp_state st)) (\<lambda>(p, s). case p of
        None \<Rightarrow> Some (Inl BadAccess)
      | Some p \<Rightarrow> Some (Inr (sp_set_chain (fst k) (snd k) [] (st\<lparr>sp_state := s\<rparr>)
          \<lparr>sp_store := (sp_store st)(fst k := (sp_store st (fst k))(snd k := p))\<rparr>)))"

fun store_create_all :: "'s pool_ops \<Rightarrow> (bool \<times> nat) list \<Rightarrow> 's multi_pool \<Rightarrow> 's multi_pool run" where
  "store_create_all ops [] st = Some (Inr st)"
| "store_create_all ops (k # ks) st = bindO (store_create ops k st) (store_create_all ops ks)"

definition all_stores :: "(bool \<times> nat) list" where
  "all_stores = concat (map (\<lambda>l. [(False, l), (True, l)]) [0..<126])"

definition multi_new :: "'s pool_ops \<Rightarrow> 's \<Rightarrow> 's multi_pool run" where
  "multi_new ops s = store_create_all ops all_stores
    \<lparr>sp_state = s, sp_chain = \<lambda>_ _. [], sp_store = \<lambda>_ _. 0, sp_info = Map.empty\<rparr>"

fun free_pointers :: "'s pool_ops \<Rightarrow> addr list \<Rightarrow> 's multi_pool \<Rightarrow> 's multi_pool res" where
  "free_pointers ops [] st = Inr st"
| "free_pointers ops (p # ps) st =
    bindR (pool_block_info p st) (\<lambda>(l, offset).
    bindR (src_deallocate (po_source ops) (p - offset) (sp_state st)) (\<lambda>s.
      free_pointers ops ps (st\<lparr>sp_state := s, sp_info := (sp_info st)(p := None)\<rparr>)))"

fun free_chain :: "'s pool_ops \<Rightarrow> free_node list \<Rightarrow> 's multi_pool \<Rightarrow> 's multi_pool res" where
  "free_chain ops [] st = Inr st"
| "free_chain ops (l # rest) st =
    bindR (free_pointers ops (snd l) st) (\<lambda>st.
    bindR (store_unuse ops (l # rest) (sp_state st)) (\<lambda>(rest', s).
      free_chain ops rest (st\<lparr>sp_state := s\<rparr>)))"

definition store_delete :: "'s pool_ops \<Rightarrow> bool \<times> nat \<Rightarrow> 's multi_pool \<Rightarrow> 's multi_pool res" where
  "store_delete ops k st =
    bindR (free_chain ops (sp_chain st (fst k) (snd k)) st) (\<lambda>st.
    bindR (src_deallocate (po_source ops) (sp_store st (fst k) (snd k)) (sp_state st)) (\<lambda>s.
      Inr (st\<lparr>sp_state := s\<rparr>)))"

fun store_delete_all :: "'s pool_ops \<Rightarrow> (bool \<times> nat) list \<Rightarrow> 's multi_pool \<Rightarrow> 's multi_pool res" where
  "store_delete_all ops [] st = Inr st"
| "store_delete_all ops (k # ks) st = bindR (store_delete ops k st) (store_delete_all ops ks)"

definition multi_delete :: "'s pool_ops \<Rightarrow> 's multi_pool \<Rightarrow> 's multi_pool res" where
  "multi_delete ops st = store_delete_all ops all_stores st"

section \<open>The contract of the resource and the pool of nodes\<close>

text \<open>
  \<open>holds s rs N\<close>: in the state \<open>s\<close> the regions \<open>rs\<close> are granted, in whatever order, and the
  nodes \<open>N\<close> acquired.
\<close>

locale node_pool =
  fixes holds :: "'s \<Rightarrow> region list \<Rightarrow> addr set \<Rightarrow> bool"
    and ops :: "'s pool_ops"
    and limit :: nat
  assumes order: "holds s rs N \<Longrightarrow> mset rs' = mset rs \<Longrightarrow> holds s rs' N"
    and apart_regions: "holds s (r # t # rs) N \<Longrightarrow> apart r t"
    and grant: "holds s rs N \<Longrightarrow> fits limit len al \<Longrightarrow>
      \<exists>r s'. src_allocate (po_source ops) len al s = Some (Inr (r, s')) \<and>
        (case r of None \<Rightarrow> holds s' rs N
         | Some p \<Rightarrow> unat al dvd unat p \<and> unat p + unat len \<le> 2 ^ 63 \<and> holds s' ((unat p, unat len) # rs) N)"
    and give_back: "holds s ((unat p, k) # rs) N \<Longrightarrow>
      \<exists>s'. src_deallocate (po_source ops) p s = Inr s' \<and> holds s' rs N"
    and acquire: "holds s rs N \<Longrightarrow> po_acquire ops s = Some (Inl AssertFail) \<or>
      (\<exists>r s'. po_acquire ops s = Some (Inr (r, s')) \<and>
        (case r of None \<Rightarrow> holds s' rs N | Some n \<Rightarrow> n \<notin> N \<and> holds s' rs (insert n N)))"
    and release: "holds s rs N \<Longrightarrow> n \<in> N \<Longrightarrow>
      \<exists>s'. po_release ops n s = Inr s' \<and> holds s' rs (N - {n})"

text \<open>Any memory source keeps its contract when the order of the granted regions is forgotten.\<close>

definition settled :: "('s \<Rightarrow> region list \<Rightarrow> bool) \<Rightarrow> 's \<Rightarrow> region list \<Rightarrow> bool" where
  "settled good s rs \<longleftrightarrow> (\<exists>rs'. mset rs' = mset rs \<and> good s rs' \<and> sorted_wrt apart rs')"

lemma settled_order: "settled good s rs \<Longrightarrow> mset rs' = mset rs \<Longrightarrow> settled good s rs'"
  by (simp add: settled_def)

lemma sorted_wrt_apart_two:
  assumes "sorted_wrt apart rs" "mset rs = add_mset r (add_mset t M)"
  shows "apart r t"
proof -
  have "r \<in> set rs" using assms(2) by (metis set_mset_mset union_single_eq_member)
  then obtain xs ys where rs: "rs = xs @ r # ys" by (auto simp: in_set_conv_decomp)
  with assms(2) have "mset (xs @ ys) = add_mset t M" by simp
  then have "t \<in> set (xs @ ys)" by (metis set_mset_mset union_single_eq_member)
  then show ?thesis using assms(1) rs by (auto simp: sorted_wrt_append intro: apart_sym)
qed

lemma settled_apart: "settled good s (r # t # rs) \<Longrightarrow> apart r t"
  unfolding settled_def using sorted_wrt_apart_two by fastforce


lemma settled_source:
  assumes "memory_source good src limit"
  shows "memory_source (\<lambda>s bs. settled good s (bs @ rs)) src limit"
proof
  fix s bs len al
  assume "settled good s (bs @ rs)" "fits limit len al"
  then obtain rs' where rs': "mset rs' = mset (bs @ rs)" "good s rs'" "sorted_wrt apart rs'"
    by (auto simp: settled_def)
  have set: "set rs' = set bs \<union> set rs" using rs'(1) by (metis set_append set_mset_mset)
  from memory_source.grantE [OF assms rs'(2) \<open>fits limit len al\<close>]
  show "\<exists>r s'. src_allocate src len al s = Some (Inr (r, s')) \<and>
      (case r of None \<Rightarrow> settled good s' (bs @ rs)
       | Some p \<Rightarrow> unat al dvd unat p \<and> unat p + unat len \<le> 2 ^ 63 \<and>
           (\<forall>t\<in>set bs. apart (unat p, unat len) t) \<and> settled good s' (((unat p, unat len) # bs) @ rs))"
  proof cases
    case (1 s')
    then show ?thesis using rs' by (auto simp: settled_def)
  next
    case (2 p s')
    have "settled good s' (((unat p, unat len) # bs) @ rs)"
      unfolding settled_def using rs' 2 by (intro exI [of _ "(unat p, unat len) # rs'"]) auto
    then show ?thesis using 2 set by auto
  qed
next
  fix s bs n bs' and p :: addr
  assume "settled good s ((bs @ (unat p, n) # bs') @ rs)"
  then obtain rs' where rs': "mset rs' = add_mset (unat p, n) (mset (bs @ bs' @ rs))" "good s rs'" "sorted_wrt apart rs'"
    by (auto simp: settled_def)
  then have "(unat p, n) \<in> set rs'" by (metis set_mset_mset union_single_eq_member)
  then obtain xs ys where xs: "rs' = xs @ (unat p, n) # ys" by (auto simp: in_set_conv_decomp)
  with memory_source.give_back [OF assms] rs'(2) obtain s' where
    "src_deallocate src p s = Inr s'" "good s' (xs @ ys)" by blast
  moreover have "mset (xs @ ys) = mset ((bs @ bs') @ rs)" using rs'(1) xs by simp
  moreover have "sorted_wrt apart (xs @ ys)" using rs'(3) xs by (auto simp: sorted_wrt_append)
  ultimately show "\<exists>s'. src_deallocate src p s = Inr s' \<and> settled good s' ((bs @ bs') @ rs)"
    unfolding settled_def by blast
qed

text \<open>The object pool of free lists over a resource, as in \<^verbatim>\<open>mFreeListPool(&mResource, 1)\<close>.\<close>

definition opool_state :: "'s \<Rightarrow> ('a, 's) opool \<Rightarrow> ('a, 's) opool" where
  "opool_state s p = p\<lparr>op_buffer := (op_buffer p)\<lparr>lm_state := s\<rparr>\<rparr>"

definition opool_ops :: "'s msource \<Rightarrow> node_type \<Rightarrow> (unit, 's) opool pool_ops" where
  "opool_ops src nt = \<lparr>
    po_source = \<lparr>
      src_allocate = \<lambda>len al p. bindO (src_allocate src len al (lm_state (op_buffer p)))
        (\<lambda>(r, s). Some (Inr (r, opool_state s p))),
      src_deallocate = \<lambda>q p. bindR (src_deallocate src q (lm_state (op_buffer p))) (\<lambda>s. Inr (opool_state s p))\<rparr>,
    po_acquire = op_acquire src nt (),
    po_release = op_release\<rparr>"

text \<open>
  A pool doubles the number of nodes of its next block up to its maximum: every size in that
  sequence is one that the buffer may ask of the resource, or is above 512 MB, where the buffer
  asserts.
\<close>

definition growth_fits :: "nat \<Rightarrow> node_type \<Rightarrow> ('a, 's) opool \<Rightarrow> bool" where
  "growth_fits lim nt p \<longleftrightarrow>
    unat (op_max p) * unat (nt_size nt) < 2 ^ 64 \<and> unat (op_max p) < 2 ^ 63 \<and>
    (\<forall>k. min (unat (op_max p)) (unat (op_alloc_size p) * 2 ^ Suc k) * unat (nt_size nt) \<le> lim \<or>
       2 ^ 29 < min (unat (op_max p)) (unat (op_alloc_size p) * 2 ^ Suc k) * unat (nt_size nt))"

lemma unat_growth:
  assumes "(a :: addr) \<le> mx" "unat mx < 2 ^ 63"
  shows "unat (min mx (a * 2)) = min (unat mx) (unat a * 2)"
proof -
  have "unat (a * 2) = unat a * 2" using assms by (simp add: unat_word_ariths word_le_nat_alt)
  then show ?thesis by (simp add: min_def word_le_nat_alt)
qed

lemma growth_fits_step:
  assumes "growth_fits lim nt p" "op_alloc_size p \<le> op_max p"
  shows "unat (op_step nt p) \<le> lim \<or> 2 ^ 29 < unat (op_step nt p)"
proof -
  have g: "min (unat (op_max p)) (unat (op_alloc_size p) * 2 ^ Suc 0) * unat (nt_size nt) \<le> lim \<or>
     2 ^ 29 < min (unat (op_max p)) (unat (op_alloc_size p) * 2 ^ Suc 0) * unat (nt_size nt)"
    using assms(1) unfolding growth_fits_def by blast
  have f: "unat (op_max p) * unat (nt_size nt) < 2 ^ 64" "unat (op_max p) < 2 ^ 63"
    "min (unat (op_max p)) (unat (op_alloc_size p) * 2) * unat (nt_size nt) \<le> lim \<or>
     2 ^ 29 < min (unat (op_max p)) (unat (op_alloc_size p) * 2) * unat (nt_size nt)"
    using assms(1) g unfolding growth_fits_def by simp_all
  have "min (unat (op_max p)) (unat (op_alloc_size p) * 2) * unat (nt_size nt) < 2 ^ 64"
    by (rule le_less_trans [OF _ f(1)]) simp
  then have "unat (op_step nt p) = min (unat (op_max p)) (unat (op_alloc_size p) * 2) * unat (nt_size nt)"
    using unat_growth [OF assms(2) f(2)] by (simp add: op_step_def unat_word_ariths)
  then show ?thesis using f(3) by simp
qed

lemma growth_fits_next:
  assumes "growth_fits lim nt p" "op_alloc_size p \<le> op_max p" "op_max p' = op_max p"
    "op_alloc_size p' \<in> {op_alloc_size p, min (op_max p) (op_alloc_size p * 2)}"
  shows "growth_fits lim nt p'"
proof (cases "op_alloc_size p' = op_alloc_size p")
  case True
  then show ?thesis using assms(1,3) by (simp add: growth_fits_def)
next
  case False
  then have a: "unat (op_alloc_size p') = min (unat (op_max p)) (unat (op_alloc_size p) * 2)"
    using assms unat_growth [of "op_alloc_size p" "op_max p"] by (simp add: growth_fits_def)
  have "min (unat (op_max p)) (unat (op_alloc_size p') * 2 ^ Suc k) =
      min (unat (op_max p)) (unat (op_alloc_size p) * 2 ^ Suc (Suc k))" for k
  proof -
    have "min m (min m c * x) = min m (c * x)" if "1 \<le> x" for m c x :: nat
    proof -
      have "m * 1 \<le> m * x" by (rule mult_le_mono2 [OF that])
      have "m \<le> c * x" if "m \<le> c"
        by (rule order.trans [OF _ mult_le_mono1 [OF that, of x]]) (use \<open>m * 1 \<le> m * x\<close> in simp)
      then show ?thesis using \<open>m * 1 \<le> m * x\<close> by (simp add: min_def)
    qed
    from this [of "2 ^ Suc k"] show ?thesis unfolding a by simp
  qed
  moreover have "unat (op_max p) * unat (nt_size nt) < 2 ^ 64" "unat (op_max p) < 2 ^ 63"
    "\<And>k. min (unat (op_max p)) (unat (op_alloc_size p) * 2 ^ Suc k) * unat (nt_size nt) \<le> lim \<or>
       2 ^ 29 < min (unat (op_max p)) (unat (op_alloc_size p) * 2 ^ Suc k) * unat (nt_size nt)"
    using assms(1) unfolding growth_fits_def by blast+
  ultimately show ?thesis unfolding growth_fits_def assms(3) by presburger
qed

lemma growth_fits_cong:
  "op_max p' = op_max p \<Longrightarrow> op_alloc_size p' = op_alloc_size p \<Longrightarrow> growth_fits lim nt p' = growth_fits lim nt p"
  by (simp add: growth_fits_def)

lemma growth_fits_state [simp]: "growth_fits lim nt (opool_state s p) = growth_fits lim nt p"
  by (rule growth_fits_cong) (simp_all add: opool_state_def)

definition opool_holds ::
    "('s \<Rightarrow> region list \<Rightarrow> bool) \<Rightarrow> nat \<Rightarrow> region list \<Rightarrow> node_type \<Rightarrow> (unit, 's) opool \<Rightarrow> region list \<Rightarrow> addr set \<Rightarrow> bool" where
  "opool_holds good lim base nt p rs N \<longleftrightarrow>
    op_inv (\<lambda>s bs. settled good s (bs @ rs)) lim base nt p \<and> growth_fits lim nt p \<and> N = dom (op_live p)"

abbreviation opool_bases :: "region list \<Rightarrow> ('a, 's) opool \<Rightarrow> region list" where
  "opool_bases base p \<equiv> rev (map src_region (tl (lm_blocks (op_buffer p)))) @ base"

lemma op_inv_good: "op_inv good lim base nt p \<Longrightarrow> good (lm_state (op_buffer p)) (opool_bases base p)"
  unfolding op_inv_def using lm_invD(5) by fastforce

lemma op_inv_state:
  assumes "op_inv good lim base nt p" "good' s' (opool_bases base p)"
  shows "op_inv good' lim base nt (opool_state s' p)"
proof -
  have "lm_inv good' lim base (op_buffer (opool_state s' p)) rs" if "lm_inv good lim base (op_buffer p) rs" for rs
    using that assms(2) unfolding lm_inv_def opool_state_def by simp
  moreover have "op_live (opool_state s' p) = op_live p" by (simp add: opool_state_def op_live_def)
  moreover have "op_nodes (opool_state s' p) = op_nodes p" "op_free (opool_state s' p) = op_free p"
    "op_total (opool_state s' p) = op_total p" "op_max (opool_state s' p) = op_max p"
    "op_alloc_size (opool_state s' p) = op_alloc_size p" by (simp_all add: opool_state_def)
  ultimately show ?thesis using assms(1) unfolding op_inv_def by metis
qed

lemma opool_state_id [simp]: "opool_state (lm_state (op_buffer p)) p = p"
  by (simp add: opool_state_def)

lemma op_live_state [simp]: "op_live (opool_state s p) = op_live p"
  by (simp add: opool_state_def op_live_def)

lemma opool_holds_good:
  "opool_holds good lim base nt p rs N \<Longrightarrow> settled good (lm_state (op_buffer p)) (opool_bases base p @ rs)"
  unfolding opool_holds_def by (drule conjunct1, drule op_inv_good)

locale pooled_memory = linear_memory + fixes nt :: node_type

sublocale pooled_memory \<subseteq> nodes: node_pool "opool_holds good lim base nt" "opool_ops src nt" limit
proof
  fix p rs rs' N
  assume p: "opool_holds good lim base nt p rs N" "mset rs' = mset rs"
  have "settled good (lm_state (op_buffer p)) (opool_bases base p @ rs)"
    using p(1) by (rule opool_holds_good)
  then have "settled good (lm_state (op_buffer p)) (opool_bases base p @ rs')"
    by (rule settled_order) (simp add: p(2))
  then show "opool_holds good lim base nt p rs' N"
    using op_inv_state [of _ lim base nt p "\<lambda>s bs. settled good s (bs @ rs')" "lm_state (op_buffer p)"] p(1)
    by (auto simp: opool_holds_def)
next
  fix p r t rs N
  assume "opool_holds good lim base nt p (r # t # rs) N"
  then have "settled good (lm_state (op_buffer p)) (opool_bases base p @ r # t # rs)"
    by (rule opool_holds_good)
  then have "settled good (lm_state (op_buffer p)) (r # t # opool_bases base p @ rs)"
    by (rule settled_order) simp
  then show "apart r t" by (rule settled_apart)
next
  fix p rs N len al
  assume p: "opool_holds good lim base nt p rs N" and fit: "fits limit len al"
  have "settled good (lm_state (op_buffer p)) (opool_bases base p @ rs)"
    using p by (rule opool_holds_good)
  from memory_source.grantE [OF settled_source [OF memory_source_axioms] this fit]
  show "\<exists>r s'. src_allocate (po_source (opool_ops src nt)) len al p = Some (Inr (r, s')) \<and>
      (case r of None \<Rightarrow> opool_holds good lim base nt s' rs N
       | Some q \<Rightarrow> unat al dvd unat q \<and> unat q + unat len \<le> 2 ^ 63 \<and>
           opool_holds good lim base nt s' ((unat q, unat len) # rs) N)"
  proof cases
    case (1 s')
    then show ?thesis using p op_inv_state [of _ lim base nt p "\<lambda>s bs. settled good s (bs @ rs)" s']
      by (auto simp: opool_ops_def opool_holds_def)
  next
    case (2 q s')
    have "settled good s' (opool_bases base p @ (unat q, unat len) # rs)"
      by (rule settled_order [OF 2(5)]) simp
    then show ?thesis using 2 p op_inv_state [of _ lim base nt p "\<lambda>s bs. settled good s (bs @ (unat q, unat len) # rs)" s']
      by (auto simp: opool_ops_def opool_holds_def)
  qed
next
  fix p rs N k and q :: addr
  assume p: "opool_holds good lim base nt p ((unat q, k) # rs) N"
  then have "settled good (lm_state (op_buffer p)) (opool_bases base p @ (unat q, k) # rs)"
    by (rule opool_holds_good)
  then have "settled good (lm_state (op_buffer p)) ((opool_bases base p @ (unat q, k) # []) @ rs)" by simp
  from memory_source.give_back [OF settled_source [OF memory_source_axioms] this]
  obtain s' where "src_deallocate src q (lm_state (op_buffer p)) = Inr s'"
    "settled good s' (opool_bases base p @ rs)" by auto
  then show "\<exists>s'. src_deallocate (po_source (opool_ops src nt)) q p = Inr s' \<and> opool_holds good lim base nt s' rs N"
    using p op_inv_state [of _ lim base nt p "\<lambda>s bs. settled good s (bs @ rs)" s']
    by (auto simp: opool_ops_def opool_holds_def)
next
  fix p rs N
  assume p: "opool_holds good lim base nt p rs N"
  have lm: "linear_memory (\<lambda>s bs. settled good s (bs @ rs)) src limit lim"
    by (intro linear_memory.intro linear_memory_axioms.intro settled_source memory_source_axioms lim)
  have inv: "op_inv (\<lambda>s bs. settled good s (bs @ rs)) lim base nt p" "growth_fits lim nt p" "N = dom (op_live p)"
    using p by (simp_all add: opool_holds_def)
  have al: "op_alloc_size p \<le> op_max p" using inv(1) by (simp add: op_inv_def)
  from linear_memory.op_acquire_ok [OF lm inv(1), of "()"] growth_fits_step [OF inv(2) al]
  consider "op_acquire src nt () p = Some (Inl AssertFail)"
    | r p' where "op_acquire src nt () p = Some (Inr (r, p'))" "op_inv (\<lambda>s bs. settled good s (bs @ rs)) lim base nt p'"
      "op_max p' = op_max p" "op_alloc_size p' \<in> {op_alloc_size p, min (op_max p) (op_alloc_size p * 2)}"
      "case r of None \<Rightarrow> op_live p' = op_live p
       | Some n \<Rightarrow> n \<notin> dom (op_live p) \<and> unat (nt_align nt) dvd unat n \<and> op_live p' = (op_live p)(n \<mapsto> ())"
    by blast
  then show "po_acquire (opool_ops src nt) p = Some (Inl AssertFail) \<or>
      (\<exists>r s'. po_acquire (opool_ops src nt) p = Some (Inr (r, s')) \<and>
      (case r of None \<Rightarrow> opool_holds good lim base nt s' rs N
       | Some n \<Rightarrow> n \<notin> N \<and> opool_holds good lim base nt s' rs (insert n N)))"
  proof cases
    case 1
    then show ?thesis by (simp add: opool_ops_def)
  next
    case (2 r p')
    have "growth_fits lim nt p'" by (rule growth_fits_next [OF inv(2) al 2(3,4)])
    then show ?thesis using 2(1,2,5) inv(3)
      by (intro disjI2 exI [of _ r] exI [of _ p']) (auto simp: opool_ops_def opool_holds_def split: option.splits)
  qed
next
  fix p rs N n
  assume p: "opool_holds good lim base nt p rs N" "n \<in> N"
  then obtain x where "op_live p n = Some x" by (auto simp: opool_holds_def)
  from op_release_ok [OF _ this] p(1) obtain p' where "op_release n p = Inr p'"
    "op_inv (\<lambda>s bs. settled good s (bs @ rs)) lim base nt p'" "op_live p' = (op_live p)(n := None)"
    unfolding opool_holds_def by blast
  moreover from this(1) have "op_max p' = op_max p" "op_alloc_size p' = op_alloc_size p"
    by (auto simp: op_release_def op_release_node_def split: option.splits onode.splits)
  then have "growth_fits lim nt p'" using p(1) growth_fits_cong [of p' p] by (simp add: opool_holds_def)
  ultimately show "\<exists>s'. po_release (opool_ops src nt) n p = Inr s' \<and> opool_holds good lim base nt s' rs (N - {n})"
    using p(1) by (intro exI [of _ p']) (auto simp: opool_ops_def opool_holds_def)
qed

text \<open>A resource that may grant anything up to the assertion on the size of a block.\<close>

interpretation large: linear_memory "\<lambda>(_ :: unit) _. True" exhausted_source "2 ^ 29 + 8" "2 ^ 29 - 24" base
  for base :: "region list"
  by (rule exhausted_memory) (simp add: block_limit_def)

interpretation mono_nodes: pooled_memory "lm_inv (\<lambda>(_ :: unit) _. True) (2 ^ 29 - 24) base0"
  "mono_source exhausted_source" "2 ^ 29 - 24" "2 ^ 29 - 56" base nt
  for base0 :: "region list" and base :: "region list" and nt :: node_type
  by (intro pooled_memory.intro linear_memory.intro linear_memory_axioms.intro large.mono.memory_source_axioms)
    (simp add: block_limit_def)

section \<open>The invariant of a multi pool\<close>

text \<open>
  \<open>live\<close> are the blocks in use with the number of bytes asked for.  A block of the resource
  holds the header and what its list promises, or what was asked for when it has no list.
\<close>

definition block_reg :: "(addr \<rightharpoonup> nat \<times> addr) \<Rightarrow> addr \<times> nat \<Rightarrow> region" where
  "block_reg info b = (case info (fst b) of
      None \<Rightarrow> (0, 0)
    | Some (l, off) \<Rightarrow> (unat (fst b) - unat off, unat off + (if l = no_list then snd b else bucket_size l)))"

definition header_ok :: "addr \<Rightarrow> nat \<times> addr \<Rightarrow> bool" where
  "header_ok u h \<longleftrightarrow> 0 < unat (snd h) \<and> unat (snd h) \<le> unat u \<and> (snd h = 8 \<longrightarrow> 8 dvd unat u)"

definition stores :: "(bool \<times> nat) set" where
  "stores = UNIV \<times> {..<126}"

definition chain_sum :: "(free_node list \<Rightarrow> 'b multiset) \<Rightarrow> 's multi_pool \<Rightarrow> 'b multiset" where
  "chain_sum g st = (\<Sum>k\<in>stores. g (sp_chain st (fst k) (snd k)))"

definition chain_ptrs :: "free_node list \<Rightarrow> addr list" where
  "chain_ptrs chain = concat (map snd chain)"

abbreviation cached :: "'s multi_pool \<Rightarrow> addr multiset" where
  "cached st \<equiv> chain_sum (\<lambda>c. mset (chain_ptrs c)) st"

abbreviation used_nodes :: "'s multi_pool \<Rightarrow> addr multiset" where
  "used_nodes st \<equiv> chain_sum (\<lambda>c. mset (map fst c)) st"

definition sp_regions :: "(addr \<times> nat) multiset \<Rightarrow> 's multi_pool \<Rightarrow> region multiset" where
  "sp_regions live st = image_mset (block_reg (sp_info st)) (live + image_mset (\<lambda>p. (p, 0)) (cached st))
    + image_mset (\<lambda>k. (unat (sp_store st (fst k) (snd k)), 8)) (mset_set stores)"

definition live_ok :: "'s multi_pool \<Rightarrow> addr \<times> nat \<Rightarrow> bool" where
  "live_ok st b \<longleftrightarrow> (case sp_info st (fst b) of None \<Rightarrow> False
    | Some h \<Rightarrow> header_ok (fst b) h \<and> (fst h = no_list \<or> fst h < 126 \<and> snd b \<le> bucket_size (fst h)))"

definition cached_ok :: "'s multi_pool \<Rightarrow> bool \<Rightarrow> nat \<Rightarrow> addr \<Rightarrow> bool" where
  "cached_ok st a l p \<longleftrightarrow> (case sp_info st p of None \<Rightarrow> False
    | Some h \<Rightarrow> header_ok p h \<and> fst h = l \<and> (a \<longleftrightarrow> snd h \<noteq> 8))"

definition sp_inv :: "('s \<Rightarrow> region list \<Rightarrow> addr set \<Rightarrow> bool) \<Rightarrow> (addr \<times> nat) multiset \<Rightarrow> 's multi_pool \<Rightarrow> bool" where
  "sp_inv holds live st \<longleftrightarrow>
    (\<exists>rs N. mset rs = sp_regions live st \<and> holds (sp_state st) rs N \<and> finite N \<and> used_nodes st = mset_set N) \<and>
    (\<forall>b\<in>#live. live_ok st b) \<and>
    (\<forall>a l. l < 126 \<longrightarrow> (\<forall>p\<in>set (chain_ptrs (sp_chain st a l)). cached_ok st a l p))"

lemma finite_stores [simp]: "finite stores"
  by (simp add: stores_def)

lemma in_stores [simp]: "(a, l) \<in> stores \<longleftrightarrow> l < 126"
  by (simp add: stores_def)

lemma chain_sum_update:
  assumes "l < 126"
  obtains M where "chain_sum g st = g (sp_chain st a l) + M" "\<And>c. chain_sum g (sp_set_chain a l c st) = g c + M"
proof -
  let ?M = "\<Sum>k\<in>stores - {(a, l)}. g (sp_chain st (fst k) (snd k))"
  have "chain_sum g st = g (sp_chain st a l) + ?M"
    unfolding chain_sum_def using assms by (subst sum.remove [of _ "(a, l)"]) auto
  moreover have "chain_sum g (sp_set_chain a l c st) = g c + ?M" for c
  proof -
    have "(\<Sum>k\<in>stores - {(a, l)}. g (sp_chain (sp_set_chain a l c st) (fst k) (snd k))) = ?M"
      by (rule sum.cong) (auto simp: sp_set_chain_def)
    then show ?thesis
      unfolding chain_sum_def using assms by (subst sum.remove [of _ "(a, l)"]) (auto simp: sp_set_chain_def)
  qed
  ultimately show thesis using that by blast
qed

lemma sp_set_chain_simps [simp]:
  "sp_state (sp_set_chain a l c st) = sp_state st" "sp_info (sp_set_chain a l c st) = sp_info st"
  "sp_store (sp_set_chain a l c st) = sp_store st"
  "sp_chain (sp_set_chain a l c st) a' l' = (if a' = a \<and> l' = l then c else sp_chain st a' l')"
  "chain_sum g (st\<lparr>sp_state := s\<rparr>) = chain_sum g st" "chain_sum g (st\<lparr>sp_info := i\<rparr>) = chain_sum g st"
  by (simp_all add: sp_set_chain_def chain_sum_def)

lemma mod2_dvd:
  assumes "pow2 al"
  shows "\<exists>r. mod2 p al = Inr r \<and> (r = 0 \<longleftrightarrow> unat al dvd unat p)"
proof -
  obtain k where k: "k < 64" "al = 2 ^ k" using assms by (auto simp: pow2_def)
  have "p AND (al - 1) = take_bit k p"
    by (simp add: k(2) mask_eq_exp_minus_1 [symmetric] take_bit_eq_mask)
  moreover have "take_bit k p = 0 \<longleftrightarrow> 2 ^ k dvd unat p"
    by (simp add: word_unat_eq_iff unsigned_take_bit_eq take_bit_eq_0_iff)
  ultimately show ?thesis
    using pow2_guard [OF assms] k by (simp add: mod2_def unat_exp)
qed

text \<open>Taking from a store: the popped pointer is the first of its chain.\<close>

lemma fl_take_ok:
  assumes "snd l = p # ps" "case check of None \<Rightarrow> True | Some al \<Rightarrow> pow2 al"
  shows "fl_take check l = Inr (if (case check of None \<Rightarrow> True | Some al \<Rightarrow> unat al dvd unat p)
    then (Some p, (fst l, ps)) else (None, l))"
proof (cases check)
  case (Some al)
  with assms(2) obtain r where "mod2 p al = Inr r" "r = 0 \<longleftrightarrow> unat al dvd unat p" using mod2_dvd by auto
  then show ?thesis using assms(1) Some by (simp add: fl_take_def fl_pop_aligned_def fl_pop_def)
qed (use assms in \<open>simp add: fl_take_def fl_pop_def\<close>)

lemma store_take_ok:
  assumes "case check of None \<Rightarrow> True | Some al \<Rightarrow> pow2 al"
  obtains p chain' where "store_take check chain = Inr (p, chain')" "map fst chain' = map fst chain"
    "case p of None \<Rightarrow> chain_ptrs chain' = chain_ptrs chain
     | Some q \<Rightarrow> chain_ptrs chain = q # chain_ptrs chain' \<and>
         (case check of None \<Rightarrow> True | Some al \<Rightarrow> unat al dvd unat q)"
proof (cases chain)
  case Nil
  then show thesis using that [of None "[]"] by (simp add: store_take_def)
next
  case (Cons l rest)
  show thesis
  proof (cases "snd l")
    case Nil
    then show thesis using Cons that [of None chain] by (simp add: store_take_def fl_has_data_def)
  next
    case (Cons p ps)
    note fl_take_ok [OF this assms]
    then show thesis using \<open>chain = l # rest\<close> Cons
        that [of "Some p" "(fst l, ps) # rest"] that [of None chain]
      by (auto simp: store_take_def fl_has_data_def chain_ptrs_def split: if_splits)
  qed
qed

context node_pool
begin

lemma store_allocate_ok:
  assumes "holds s rs N" "finite N" "mset (map fst chain) \<subseteq># mset_set N"
    "case check of None \<Rightarrow> True | Some al \<Rightarrow> pow2 al"
  obtains p chain' s' N' where "store_allocate ops check chain s = Inr (p, chain', s')" "holds s' rs N'" "finite N'"
    "mset (map fst chain') + mset_set N = mset (map fst chain) + mset_set N'"
    "case p of None \<Rightarrow> chain_ptrs chain' = chain_ptrs chain
     | Some q \<Rightarrow> chain_ptrs chain = q # chain_ptrs chain' \<and>
         (case check of None \<Rightarrow> True | Some al \<Rightarrow> unat al dvd unat q)"
proof (cases chain)
  case Nil
  then show thesis using that [of None "[]" s N] assms by (simp add: store_allocate_def)
next
  case (Cons l rest)
  show thesis
  proof (cases "fl_has_data l")
    case True
    obtain p chain' where t: "store_take check chain = Inr (p, chain')" "map fst chain' = map fst chain"
      "case p of None \<Rightarrow> chain_ptrs chain' = chain_ptrs chain
       | Some q \<Rightarrow> chain_ptrs chain = q # chain_ptrs chain' \<and>
           (case check of None \<Rightarrow> True | Some al \<Rightarrow> unat al dvd unat q)"
      by (rule store_take_ok [OF assms(4), of chain])
    show thesis
    proof (rule that [OF _ assms(1,2) _ t(3)])
      show "store_allocate ops check chain s = Inr (p, chain', s)"
        using t(1) Cons True by (simp add: store_allocate_def)
      show "mset (map fst chain') + mset_set N = mset (map fst chain) + mset_set N" by (simp only: t(2))
    qed
  next
    case False
    have n: "fst l \<in> N" using assms(2,3) Cons by (simp add: insert_subset_eq_iff)
    from release [OF assms(1) n] obtain s' where s': "po_release ops (fst l) s = Inr s'"
      "holds s' rs (N - {fst l})" by blast
    obtain p chain' where t: "store_take check rest = Inr (p, chain')" "map fst chain' = map fst rest"
      "case p of None \<Rightarrow> chain_ptrs chain' = chain_ptrs rest
       | Some q \<Rightarrow> chain_ptrs rest = q # chain_ptrs chain' \<and>
           (case check of None \<Rightarrow> True | Some al \<Rightarrow> unat al dvd unat q)"
      by (rule store_take_ok [OF assms(4), of rest])
    have N: "mset_set N = add_mset (fst l) (mset_set (N - {fst l}))" by (rule mset_set.remove [OF assms(2) n])
    have ptrs: "chain_ptrs chain = chain_ptrs rest" using Cons False by (simp add: chain_ptrs_def fl_has_data_def)
    show thesis
    proof (rule that [OF _ s'(2) _ _ t(3) [folded ptrs]])
      show "store_allocate ops check chain s = Inr (p, chain', s')"
        using t(1) Cons False s'(1) by (simp add: store_allocate_def store_unuse_def)
      show "finite (N - {fst l})" using assms(2) by simp
      show "mset (map fst chain') + mset_set N = mset (map fst chain) + mset_set (N - {fst l})"
        unfolding t(2) N by (simp add: Cons)
    qed
  qed
qed

lemma store_deallocate_ok:
  assumes "holds s rs N" "finite N" "store_deallocate ops p chain s = Some (Inr (chain', s'))"
  obtains N' where "holds s' rs N'" "finite N'"
    "mset (map fst chain') + mset_set N = mset (map fst chain) + mset_set N'" "chain_ptrs chain' = p # chain_ptrs chain"
proof (cases "chain_full chain")
  case False
  then show thesis using assms that [of N]
    by (cases chain) (auto simp: store_deallocate_runs chain_full_def chain_ptrs_def)
next
  case True
  from acquire [OF assms(1)] assms(3) True obtain n where "po_acquire ops s = Some (Inr (Some n, s'))"
    "n \<notin> N" "holds s' rs (insert n N)" "chain' = (n, [p]) # chain"
    by (auto simp: store_deallocate_runs split: option.splits)
  then show thesis using assms(2) that [of "insert n N"] by (simp add: chain_ptrs_def)
qed

end

lemma in_sum_mset: "finite S \<Longrightarrow> x \<in># (\<Sum>k\<in>S. f k) \<longleftrightarrow> (\<exists>k\<in>S. x \<in># f k)"
  by (induction S rule: finite_induct) auto

lemma cached_member:
  "p \<in># cached st \<longleftrightarrow> (\<exists>a l. l < 126 \<and> p \<in> set (chain_ptrs (sp_chain st a l)))"
  by (force simp: chain_sum_def in_sum_mset stores_def)

text \<open>The header found at a block is the only one at that address.\<close>

definition all_blocks :: "(addr \<times> nat) multiset \<Rightarrow> 's multi_pool \<Rightarrow> (addr \<times> nat) multiset" where
  "all_blocks live st = live + image_mset (\<lambda>p. (p, 0)) (cached st)"

lemma block_header:
  assumes "sp_inv holds live st" "b \<in># all_blocks live st"
  obtains h where "sp_info st (fst b) = Some h" "header_ok (fst b) h"
  using assms unfolding sp_inv_def all_blocks_def
  by (fastforce simp: cached_member live_ok_def cached_ok_def split: option.splits)

lemma block_reg_cong: "info (fst b) = info' (fst b) \<Longrightarrow> block_reg info b = block_reg info' b"
  by (simp add: block_reg_def)

context node_pool
begin

lemma holds_apart:
  assumes "holds s rs N" "mset rs = add_mset r (add_mset t M)"
  shows "apart r t"
proof -
  obtain ts where "mset ts = M" using ex_mset by blast
  then have "holds s (r # t # ts) N" using assms by (intro order [OF assms(1)]) simp
  then show ?thesis by (rule apart_regions)
qed

text \<open>A block fresh from the resource.\<close>

lemma pool_block_allocate_ok:
  assumes inv: "sp_inv holds live st" and al: "pow2 al" "unat al \<le> 128"
    and lim: "unat len + unat al + 2 * 128 \<le> limit" "limit \<le> 2 ^ 63"
    and lst: "lst = no_list \<and> n = unat len \<or> lst < 126 \<and> bucket_size lst = unat len \<and> n \<le> unat len"
  shows "\<exists>r st'. pool_block_allocate ops len al lst st = Some (Inr (r, st')) \<and>
    (case r of None \<Rightarrow> sp_inv holds live st'
     | Some u \<Rightarrow> unat al dvd unat u \<and> sp_inv holds (add_mset (u, n) live) st')"
proof -
  let ?extra = "max al 2"
  have ex: "unat ?extra \<le> 128" "2 \<le> unat ?extra" "unat al dvd unat ?extra" "?extra = 8 \<Longrightarrow> al = 8"
  proof -
    have "unat al = 1 \<or> 2 \<le> unat al" using pow2_pos [OF al(1)] by linarith
    moreover have "unat ?extra = max (unat al) 2"
      by (simp add: max_def word_le_nat_alt)
    ultimately show "unat ?extra \<le> 128" "2 \<le> unat ?extra" "unat al dvd unat ?extra" using al(2) by auto
    show "?extra = 8 \<Longrightarrow> al = 8" by (auto simp: max_def split: if_splits)
  qed
  have len: "unat (len + ?extra) = unat len + unat ?extra"
    by (rule unat_sum) (use lim ex in simp)
  have fit: "fits limit (len + ?extra) al" using al lim ex len by (simp add: fits_def)
  obtain rs N where h: "mset rs = sp_regions live st" "holds (sp_state st) rs N" "finite N" "used_nodes st = mset_set N"
    using inv by (auto simp: sp_inv_def)
  from grant [OF h(2) fit] obtain r s' where r: "src_allocate (po_source ops) (len + ?extra) al (sp_state st) = Some (Inr (r, s'))"
    "case r of None \<Rightarrow> holds s' rs N
     | Some p \<Rightarrow> unat al dvd unat p \<and> unat p + unat (len + ?extra) \<le> 2 ^ 63 \<and>
         holds s' ((unat p, unat (len + ?extra)) # rs) N" by blast
  show ?thesis
  proof (cases r)
    case None
    then have "sp_inv holds live (st\<lparr>sp_state := s'\<rparr>)"
      using inv h r(2) unfolding sp_inv_def sp_regions_def live_ok_def cached_ok_def by auto
    then show ?thesis using r(1) None by (simp add: pool_block_allocate_def Let_def)
  next
    case (Some p)
    let ?u = "p + ?extra"
    have p: "unat al dvd unat p" "unat p + unat (len + ?extra) \<le> 2 ^ 63"
      "holds s' ((unat p, unat (len + ?extra)) # rs) N" using r(2) Some by auto
    have u: "unat ?u = unat p + unat ?extra" by (rule unat_sum) (use p(2) len in simp)
    have dvd: "unat al dvd unat ?u" unfolding u using p(1) ex(3) by simp
    have new: "fst b \<noteq> ?u" if b: "b \<in># all_blocks live st" for b
    proof
      assume eq: "fst b = ?u"
      obtain hd where hd: "sp_info st (fst b) = Some hd" "header_ok (fst b) hd"
        using block_header [OF inv b] .
      obtain M where "all_blocks live st = add_mset b M" using b by (metis mset_add)
      then have "sp_regions live st = add_mset (block_reg (sp_info st) b)
          (image_mset (block_reg (sp_info st)) M + image_mset (\<lambda>k. (unat (sp_store st (fst k) (snd k)), 8)) (mset_set stores))"
        by (simp add: sp_regions_def all_blocks_def)
      with h(1) have "apart (unat p, unat (len + ?extra)) (block_reg (sp_info st) b)"
        by (intro holds_apart [OF p(3)]) simp
      then show False
        using hd eq u ex(2) len by (auto simp: apart_def block_reg_def header_ok_def split: prod.splits)
    qed
    let ?st = "st\<lparr>sp_state := s', sp_info := (sp_info st)(?u \<mapsto> (lst, ?extra))\<rparr>"
    have reg: "block_reg ((sp_info st)(?u \<mapsto> (lst, ?extra))) (?u, n) = (unat p, unat (len + ?extra))"
      using lst u len by (auto simp: block_reg_def no_list_def)
    have "image_mset (block_reg ((sp_info st)(?u \<mapsto> (lst, ?extra)))) (all_blocks live st) =
        image_mset (block_reg (sp_info st)) (all_blocks live st)"
      using new by (intro image_mset_cong block_reg_cong) auto
    then have "sp_regions (add_mset (?u, n) live) ?st = add_mset (unat p, unat (len + ?extra)) (sp_regions live st)"
      unfolding sp_regions_def all_blocks_def using reg by simp
    then have regs: "mset ((unat p, unat (len + ?extra)) # rs) = sp_regions (add_mset (?u, n) live) ?st"
      using h(1) by simp
    have hdr: "header_ok ?u (lst, ?extra)"
      using ex(2,4) dvd u by (auto simp: header_ok_def)
    have old: "sp_info ?st (fst b) = sp_info st (fst b)" if "b \<in># all_blocks live st" for b
      using new [OF that] by simp
    have l1: "\<forall>b\<in>#live. live_ok ?st b"
      using inv old unfolding sp_inv_def live_ok_def by (simp add: all_blocks_def del: fun_upd_apply)
    have l2: "live_ok ?st (?u, n)" using hdr lst by (auto simp: live_ok_def)
    have l3: "\<forall>a l. l < 126 \<longrightarrow> (\<forall>q\<in>set (chain_ptrs (sp_chain ?st a l)). cached_ok ?st a l q)"
    proof (intro allI impI ballI)
      fix a l q assume q: "l < 126" "q \<in> set (chain_ptrs (sp_chain ?st a l))"
      then have "q \<in># cached st" using cached_member [of q st] by auto
      then have "(q, 0) \<in># all_blocks live st" by (auto simp: all_blocks_def)
      from old [OF this] show "cached_ok ?st a l q"
        using inv q unfolding sp_inv_def cached_ok_def by (simp del: fun_upd_apply)
    qed
    have "sp_inv holds (add_mset (?u, n) live) ?st"
      unfolding sp_inv_def using l1 l2 l3 regs p(3) h(3,4)
      by (intro conjI exI [of _ "(unat p, unat (len + ?extra)) # rs"] exI [of _ N]) auto
    moreover have "pool_block_allocate ops len al lst st = Some (Inr (Some ?u, ?st))"
      using r(1) Some ex(1) by (simp add: pool_block_allocate_def Let_def safe_range_cast_ok)
    ultimately show ?thesis using dvd by (intro exI [of _ "Some ?u"] exI [of _ ?st]) simp
  qed
qed

end

lemma mset_exchange:
  assumes "c' + n = c + n'" "u = n" "u = c + m" "u' = c' + m"
  shows "u' = (n' :: 'b multiset)"
proof -
  have "c + u' = c' + (c + m)" unfolding assms(4) by (rule add.left_commute)
  also have "\<dots> = c + n'" using assms(1) unfolding assms(3) [symmetric] assms(2) .
  finally show ?thesis by simp
qed

context node_pool
begin

text \<open>A block from a store moves from the cached to the live ones.\<close>

lemma store_step:
  assumes inv: "sp_inv holds live st" and l: "l < 126" and check: "case check of None \<Rightarrow> True | Some al \<Rightarrow> pow2 al"
    and n: "n \<le> bucket_size l"
  obtains r chain s st' where
    "store_allocate ops check (sp_chain st a l) (sp_state st) = Inr (r, chain, s)"
    "st' = sp_set_chain a l chain (st\<lparr>sp_state := s\<rparr>)"
    "case r of None \<Rightarrow> sp_inv holds live st'
     | Some q \<Rightarrow> sp_inv holds (add_mset (q, n) live) st' \<and> cached_ok st' a l q \<and>
         (case check of None \<Rightarrow> True | Some al \<Rightarrow> unat al dvd unat q)"
proof -
  obtain rs N where h: "mset rs = sp_regions live st" "holds (sp_state st) rs N" "finite N" "used_nodes st = mset_set N"
    using inv by (auto simp: sp_inv_def)
  obtain M where M: "used_nodes st = mset (map fst (sp_chain st a l)) + M"
    "\<And>c. used_nodes (sp_set_chain a l c st) = mset (map fst c) + M"
    by (rule chain_sum_update [OF l, of "\<lambda>c. mset (map fst c)" st a]) auto
  obtain K where K: "cached st = mset (chain_ptrs (sp_chain st a l)) + K"
    "\<And>c. cached (sp_set_chain a l c st) = mset (chain_ptrs c) + K"
    by (rule chain_sum_update [OF l, of "\<lambda>c. mset (chain_ptrs c)" st a]) auto
  have "mset (map fst (sp_chain st a l)) \<subseteq># mset_set N" using h(4) M(1) by (metis mset_subset_eq_add_left)
  from store_allocate_ok [OF h(2,3) this check] obtain r chain s N' where
    r: "store_allocate ops check (sp_chain st a l) (sp_state st) = Inr (r, chain, s)" "holds s rs N'" "finite N'"
      "mset (map fst chain) + mset_set N = mset (map fst (sp_chain st a l)) + mset_set N'"
      "case r of None \<Rightarrow> chain_ptrs chain = chain_ptrs (sp_chain st a l)
       | Some q \<Rightarrow> chain_ptrs (sp_chain st a l) = q # chain_ptrs chain \<and>
           (case check of None \<Rightarrow> True | Some al \<Rightarrow> unat al dvd unat q)" by blast
  let ?st = "sp_set_chain a l chain (st\<lparr>sp_state := s\<rparr>)"
  have sums: "used_nodes ?st = mset (map fst chain) + M" "cached ?st = mset (chain_ptrs chain) + K"
    using M(2) [of chain] K(2) [of chain] by (simp_all add: sp_set_chain_def chain_sum_def)
  have nodes: "used_nodes ?st = mset_set N'"
    by (rule mset_exchange [OF r(4) h(4) M(1) sums(1)])
  have ok: "cached_ok ?st a' l' q" if "l' < 126" "q \<in> set (chain_ptrs (sp_chain ?st a' l'))" for a' l' q
  proof -
    have "q \<in> set (chain_ptrs (sp_chain st a' l'))"
      using that(2) r(5) by (cases r) (auto split: if_splits)
    then show ?thesis using inv that(1) by (simp add: sp_inv_def cached_ok_def)
  qed
  have live: "\<forall>b\<in>#live. live_ok ?st b" using inv by (simp add: sp_inv_def live_ok_def)
  show thesis
  proof (cases r)
    case None
    have "sp_regions live ?st = sp_regions live st"
      using r(5) None sums(2) K(1) by (simp add: sp_regions_def)
    then have "sp_inv holds live ?st"
      unfolding sp_inv_def using h(1) r(2,3) nodes ok live by (auto simp del: mset_map)
    then show thesis using that [OF r(1) refl] None by simp
  next
    case (Some q)
    have q: "chain_ptrs (sp_chain st a l) = q # chain_ptrs chain" using r(5) Some by simp
    have cq: "cached_ok ?st a l q" using inv l q by (simp add: sp_inv_def cached_ok_def)
    have lq: "live_ok ?st (q, n)" using cq n l by (auto simp: cached_ok_def live_ok_def split: option.splits)
    have "block_reg (sp_info st) (q, n) = block_reg (sp_info st) (q, 0)"
      using cq l by (auto simp: block_reg_def cached_ok_def no_list_def split: option.splits)
    then have "sp_regions (add_mset (q, n) live) ?st = sp_regions live st"
      using sums(2) K(1) q by (simp add: sp_regions_def)
    then have "sp_inv holds (add_mset (q, n) live) ?st"
      unfolding sp_inv_def using h(1) r(2,3) nodes ok live lq by (auto simp del: mset_map)
    then show thesis using that [OF r(1) refl] Some cq r(5) by simp
  qed
qed

lemma multi_allocate_ok:
  assumes inv: "sp_inv holds live st" and al: "pow2 al" "unat al \<le> 128" and len: "0 < len" "len \<le> max_small"
    and lim: "18000 \<le> limit" "limit \<le> 2 ^ 63"
  shows "\<exists>r st'. multi_allocate ops len al st = Some (Inr (r, st')) \<and>
    (case r of None \<Rightarrow> sp_inv holds live st'
     | Some u \<Rightarrow> unat al dvd unat u \<and> sp_inv holds (add_mset (u, unat len) live) st')"
proof -
  obtain cap l where l: "small_bucket len = Inr (cap, l)" "unat l < 126" "unat cap = bucket_size (unat l)" "len \<le> cap"
    "unat cap < unat len + (if len \<le> 512 then 8 else if len \<le> 2048 then 32 else 1024)"
    using small_bucket_ok [OF len] by blast
  let ?a = "al \<noteq> 8" and ?check = "if al \<noteq> 8 then Some al else None"
  have guards: "al \<le> 255" "len \<le> max_small" "0 < len" using al(2) len by (simp_all add: word_le_nat_alt)
  have n: "unat len \<le> bucket_size (unat l)" using l(3,4) by (simp add: word_le_nat_alt)
  have chk: "case ?check of None \<Rightarrow> True | Some al \<Rightarrow> pow2 al" using al(1) by simp
  obtain r chain s st' where
    s: "store_allocate ops ?check (sp_chain st ?a (unat l)) (sp_state st) = Inr (r, chain, s)"
      "st' = sp_set_chain ?a (unat l) chain (st\<lparr>sp_state := s\<rparr>)"
      "case r of None \<Rightarrow> sp_inv holds live st'
       | Some q \<Rightarrow> sp_inv holds (add_mset (q, unat len) live) st' \<and> cached_ok st' ?a (unat l) q \<and>
           (case ?check of None \<Rightarrow> True | Some al \<Rightarrow> unat al dvd unat q)"
    by (rule store_step [OF inv l(2) chk n])
  have run: "multi_allocate ops len al st =
      (if r \<noteq> None then Some (Inr (r, st')) else pool_block_allocate ops cap al (unat l) st')"
    using guards l(1,2) s(1,2)
    by (simp add: multi_allocate_def Let_def no_list_def safe_range_cast_ok)
  show ?thesis
  proof (cases r)
    case (Some q)
    then have "unat al dvd unat q"
      using s(3) by (cases "al = 8") (auto simp: cached_ok_def header_ok_def split: option.splits)
    then show ?thesis using run Some s(3) by simp
  next
    case None
    have "unat cap < 16384 + 1024" using l(5) len(2) by (simp add: max_small_def word_le_nat_alt split: if_splits)
    then have "unat cap + unat al + 2 * 128 \<le> limit" using lim(1) al(2) by simp
    from pool_block_allocate_ok [OF _ al this lim(2), of live st' "unat l" "unat len"] s(3) None l(2-4) n
    show ?thesis using run by simp
  qed
qed

lemma mpr_allocate_ok:
  assumes inv: "sp_inv holds live st" and al: "pow2 al" "unat al \<le> 128" and len: "0 < len"
    and lim: "18000 \<le> limit" "limit \<le> 2 ^ 63" "unat len + unat al + 2 * 128 \<le> limit"
  shows "\<exists>r st'. mpr_allocate ops len al st = Some (Inr (r, st')) \<and>
    (case r of None \<Rightarrow> sp_inv holds live st'
     | Some u \<Rightarrow> unat al dvd unat u \<and> sp_inv holds (add_mset (u, unat len) live) st')"
proof (cases "len \<le> max_small")
  case True
  from multi_allocate_ok [OF inv al len True lim(1,2)] show ?thesis using True by (simp add: mpr_allocate_def)
next
  case False
  from pool_block_allocate_ok [OF inv al lim(3,2), of no_list "unat len"] show ?thesis
    using False by (simp add: mpr_allocate_def)
qed

text \<open>Giving a block back.\<close>

lemma mpr_deallocate_ok:
  assumes inv: "sp_inv holds (add_mset (u, n) live) st"
  obtains l off where "sp_info st u = Some (l, off)"
    "if l = no_list then \<exists>st'. mpr_deallocate ops u st = Some (Inr st') \<and> sp_inv holds live st'
     else if \<not> chain_full (sp_chain st (off \<noteq> 8) l) then
       \<exists>f rest st'. sp_chain st (off \<noteq> 8) l = f # rest \<and> mpr_deallocate ops u st = Some (Inr st') \<and>
         sp_inv holds live st' \<and> sp_chain st' (off \<noteq> 8) l = (fst f, u # snd f) # rest
     else case po_acquire ops (sp_state st) of
         Some (Inr (Some n, _)) \<Rightarrow> \<exists>st'. mpr_deallocate ops u st = Some (Inr st') \<and> sp_inv holds live st' \<and>
           sp_chain st' (off \<noteq> 8) l = (n, [u]) # sp_chain st (off \<noteq> 8) l
       | Some (Inr (None, _)) \<Rightarrow> mpr_deallocate ops u st = Some (Inl BadAccess)
       | Some (Inl e) \<Rightarrow> e = AssertFail \<and> mpr_deallocate ops u st = Some (Inl AssertFail)
       | None \<Rightarrow> False"
proof -
  obtain rs N where h: "mset rs = sp_regions (add_mset (u, n) live) st" "holds (sp_state st) rs N" "finite N"
    "used_nodes st = mset_set N" using inv by (auto simp: sp_inv_def)
  have "live_ok st (u, n)" using inv by (simp add: sp_inv_def)
  then obtain l off where i: "sp_info st u = Some (l, off)" "header_ok u (l, off)"
    "l = no_list \<or> l < 126 \<and> n \<le> bucket_size l" by (auto simp: live_ok_def split: option.splits)
  have ou: "unat (u - off) = unat u - unat off"
    by (rule unat_diff) (use i(2) in \<open>simp add: header_ok_def word_le_nat_alt\<close>)
  show thesis
  proof (cases "l = no_list")
    case True
    let ?r = "(unat (u - off), unat off + n)"
    obtain ts where ts: "mset ts = sp_regions live st" using ex_mset by blast
    have "block_reg (sp_info st) (u, n) = ?r" using i(1) True ou by (simp add: block_reg_def)
    then have "holds (sp_state st) (?r # ts) N"
      using h(1) ts by (intro order [OF h(2)]) (simp add: sp_regions_def)
    from give_back [OF this] obtain s' where s': "src_deallocate (po_source ops) (u - off) (sp_state st) = Inr s'"
      "holds s' ts N" by blast
    let ?st = "st\<lparr>sp_state := s', sp_info := (sp_info st)(u := None)\<rparr>"
    have new: "fst b \<noteq> u" if b: "b \<in># all_blocks live st" for b
    proof
      assume eq: "fst b = u"
      obtain M where "all_blocks live st = add_mset b M" using b by (metis mset_add)
      then have "sp_regions live st = add_mset (block_reg (sp_info st) b)
          (image_mset (block_reg (sp_info st)) M + image_mset (\<lambda>k. (unat (sp_store st (fst k) (snd k)), 8)) (mset_set stores))"
        by (simp add: sp_regions_def all_blocks_def)
      then have "apart ?r (block_reg (sp_info st) b)"
        by (intro holds_apart [OF \<open>holds (sp_state st) (?r # ts) N\<close>]) (simp add: ts)
      then show False using eq i(1,2) ou by (auto simp: apart_def block_reg_def header_ok_def)
    qed
    have "image_mset (block_reg ((sp_info st)(u := None))) (all_blocks live st) =
        image_mset (block_reg (sp_info st)) (all_blocks live st)"
      using new by (intro image_mset_cong block_reg_cong) auto
    then have regs: "mset ts = sp_regions live ?st" by (simp add: ts sp_regions_def all_blocks_def)
    have l1: "\<forall>b\<in>#live. live_ok ?st b"
      using inv new by (auto simp: sp_inv_def live_ok_def all_blocks_def)
    have l3: "\<forall>a l. l < 126 \<longrightarrow> (\<forall>q\<in>set (chain_ptrs (sp_chain ?st a l)). cached_ok ?st a l q)"
    proof (intro allI impI ballI)
      fix a l q assume q: "l < 126" "q \<in> set (chain_ptrs (sp_chain ?st a l))"
      then have "q \<in># cached st" using cached_member [of q st] by auto
      then have "(q, 0) \<in># all_blocks live st" by (auto simp: all_blocks_def)
      from new [OF this] show "cached_ok ?st a l q"
        using inv q unfolding sp_inv_def cached_ok_def by simp
    qed
    have "sp_inv holds live ?st"
      unfolding sp_inv_def using l1 l3 regs s'(2) h(3,4)
      by (intro conjI exI [of _ ts] exI [of _ N]) auto
    then show thesis using i(1) True s'(1) by (intro that [OF i(1)]) (simp add: mpr_deallocate_def pool_block_info_def)
  next
    case False
    with i(3) have l: "l < 126" "n \<le> bucket_size l" by auto
    let ?a = "off \<noteq> 8"
    have run: "mpr_deallocate ops u st = bindO (store_deallocate ops u (sp_chain st ?a l) (sp_state st)) (\<lambda>(chain, s).
         Some (Inr (sp_set_chain ?a l chain (st\<lparr>sp_state := s\<rparr>))))"
      using False i(1) l by (simp add: mpr_deallocate_def pool_block_info_def multi_deallocate_def Let_def)
    have put: "sp_inv holds live (sp_set_chain ?a l chain (st\<lparr>sp_state := s'\<rparr>))"
      if d: "store_deallocate ops u (sp_chain st ?a l) (sp_state st) = Some (Inr (chain, s'))" for chain s'
    proof -
      let ?st = "sp_set_chain ?a l chain (st\<lparr>sp_state := s'\<rparr>)"
      from store_deallocate_ok [OF h(2,3) d] obtain N' where r: "holds s' rs N'"
        "finite N'" "mset (map fst chain) + mset_set N = mset (map fst (sp_chain st ?a l)) + mset_set N'"
        "chain_ptrs chain = u # chain_ptrs (sp_chain st ?a l)" .
      obtain M where M: "used_nodes st = mset (map fst (sp_chain st ?a l)) + M"
        "\<And>c. used_nodes (sp_set_chain ?a l c st) = mset (map fst c) + M"
        by (rule chain_sum_update [OF l(1), of "\<lambda>c. mset (map fst c)" st ?a]) auto
      obtain K where K: "cached st = mset (chain_ptrs (sp_chain st ?a l)) + K"
        "\<And>c. cached (sp_set_chain ?a l c st) = mset (chain_ptrs c) + K"
        by (rule chain_sum_update [OF l(1), of "\<lambda>c. mset (chain_ptrs c)" st ?a]) auto
      have sums: "used_nodes ?st = mset (map fst chain) + M" "cached ?st = mset (chain_ptrs chain) + K"
        using M(2) [of chain] K(2) [of chain] by (simp_all add: sp_set_chain_def chain_sum_def)
      have nodes: "used_nodes ?st = mset_set N'"
        by (rule mset_exchange [OF r(3) h(4) M(1) sums(1)])
      have cu: "cached_ok ?st ?a l u" using i by (simp add: cached_ok_def)
      have ok: "cached_ok ?st a' l' q" if "l' < 126" "q \<in> set (chain_ptrs (sp_chain ?st a' l'))" for a' l' q
        using that inv r(4) cu unfolding sp_inv_def
        by (cases "a' = ?a \<and> l' = l") (auto simp: cached_ok_def)
      have live: "\<forall>b\<in>#live. live_ok ?st b" using inv by (simp add: sp_inv_def live_ok_def)
      have "block_reg (sp_info st) (u, n) = block_reg (sp_info st) (u, 0)"
        using i(1) False by (simp add: block_reg_def)
      then have "sp_regions live ?st = sp_regions (add_mset (u, n) live) st"
        using sums(2) K(1) r(4) by (simp add: sp_regions_def)
      then show ?thesis
        unfolding sp_inv_def using h(1) r(1,2) nodes ok live by (auto simp del: mset_map)
    qed
    show thesis
    proof (rule that [OF i(1)])
      let ?c = "sp_chain st ?a l"
      show "if l = no_list then \<exists>st'. mpr_deallocate ops u st = Some (Inr st') \<and> sp_inv holds live st'
         else if \<not> chain_full ?c then
           \<exists>f rest st'. ?c = f # rest \<and> mpr_deallocate ops u st = Some (Inr st') \<and>
             sp_inv holds live st' \<and> sp_chain st' ?a l = (fst f, u # snd f) # rest
         else case po_acquire ops (sp_state st) of
             Some (Inr (Some n, _)) \<Rightarrow> \<exists>st'. mpr_deallocate ops u st = Some (Inr st') \<and> sp_inv holds live st' \<and>
               sp_chain st' ?a l = (n, [u]) # ?c
           | Some (Inr (None, _)) \<Rightarrow> mpr_deallocate ops u st = Some (Inl BadAccess)
           | Some (Inl e) \<Rightarrow> e = AssertFail \<and> mpr_deallocate ops u st = Some (Inl AssertFail)
           | None \<Rightarrow> False"
      proof (cases "chain_full ?c")
        case not_full: False
        then obtain f rest where c: "?c = f # rest" by (cases ?c) (auto simp: chain_full_def)
        then have d: "store_deallocate ops u ?c (sp_state st) = Some (Inr ((fst f, u # snd f) # rest, sp_state st))"
          using not_full by (simp add: store_deallocate_runs)
        show ?thesis using put [OF d] run d c not_full False by simp
      next
        case full: True
        from acquire [OF h(2)] show ?thesis
        proof (elim disjE exE conjE)
          assume "po_acquire ops (sp_state st) = Some (Inl AssertFail)"
          then show ?thesis using run full False by (simp add: store_deallocate_runs)
        next
          fix r s' assume r: "po_acquire ops (sp_state st) = Some (Inr (r, s'))"
          show ?thesis
          proof (cases r)
            case None
            then show ?thesis using r run full False by (simp add: store_deallocate_runs)
          next
            case (Some n)
            then have d: "store_deallocate ops u ?c (sp_state st) = Some (Inr ((n, [u]) # ?c, s'))"
              using r full by (simp add: store_deallocate_runs)
            show ?thesis using put [OF d] run d r Some full False by simp
          qed
        qed
      qed
    qed
  qed
qed

end

section \<open>Making and deleting a pool\<close>

definition store_reg :: "'s multi_pool \<Rightarrow> bool \<times> nat \<Rightarrow> region" where
  "store_reg st k = (unat (sp_store st (fst k) (snd k)), 8)"

lemma store_reg_fun: "store_reg st = (\<lambda>k. (unat (sp_store st (fst k) (snd k)), 8))"
  by (simp add: fun_eq_iff store_reg_def)

lemma all_stores: "distinct all_stores" "set all_stores = stores"
proof -
  have "distinct (concat (map (\<lambda>l. [(False, l), (True, l)]) [0..<n]))" for n
    by (induction n) auto
  then show "distinct all_stores" by (simp add: all_stores_def)
  show "set all_stores = stores"
    unfolding all_stores_def stores_def by (auto simp: image_iff)
qed

lemma mset_all_stores: "mset all_stores = mset_set stores"
  using all_stores by (metis mset_set_set)

context node_pool
begin

lemma store_create_all_ok:
  assumes "distinct (ks @ ds)" "holds (sp_state st) rs N" "mset rs = image_mset (store_reg st) (mset ds)"
    "\<forall>a l. sp_chain st a l = []" "sp_info st = Map.empty" "fits limit 8 8"
  shows "store_create_all ops ks st = Some (Inl BadAccess) \<or>
    (\<exists>st' rs'. store_create_all ops ks st = Some (Inr st') \<and> holds (sp_state st') rs' N \<and>
      mset rs' = image_mset (store_reg st') (mset (ks @ ds)) \<and>
      (\<forall>a l. sp_chain st' a l = []) \<and> sp_info st' = Map.empty)"
  using assms(1-5)
proof (induction ks arbitrary: st rs ds)
  case (Cons k ks)
  from grant [OF Cons.prems(2) assms(6)] obtain r s' where r:
    "src_allocate (po_source ops) 8 8 (sp_state st) = Some (Inr (r, s'))"
    "case r of None \<Rightarrow> holds s' rs N
     | Some p \<Rightarrow> unat (8 :: addr) dvd unat p \<and> unat p + unat (8 :: addr) \<le> 2 ^ 63 \<and>
         holds s' ((unat p, unat (8 :: addr)) # rs) N" by blast
  show ?case
  proof (cases r)
    case None
    then show ?thesis using r(1) by (simp add: store_create_def)
  next
    case (Some p)
    let ?st = "sp_set_chain (fst k) (snd k) [] (st\<lparr>sp_state := s'\<rparr>)
      \<lparr>sp_store := (sp_store st)(fst k := (sp_store st (fst k))(snd k := p))\<rparr>"
    have step: "store_create ops k st = Some (Inr ?st)" using r(1) Some by (simp add: store_create_def)
    have same: "store_reg ?st d = store_reg st d" if "d \<noteq> k" for d
      using that by (cases d; cases k) (auto simp: store_reg_def)
    have "image_mset (store_reg ?st) (mset ds) = image_mset (store_reg st) (mset ds)"
      by (rule image_mset_cong, rule same) (use Cons.prems(1) in auto)
    then have regs: "mset ((unat p, unat (8 :: addr)) # rs) = image_mset (store_reg ?st) (mset (k # ds))"
      using Cons.prems(3) by (simp add: store_reg_def [of _ k])
    have h: "holds (sp_state ?st) ((unat p, unat (8 :: addr)) # rs) N" using r(2) Some by simp
    have e: "\<forall>a l. sp_chain ?st a l = []" "sp_info ?st = Map.empty"
      using Cons.prems(4,5) by (auto simp: sp_set_chain_def)
    have d: "distinct (ks @ k # ds)" using Cons.prems(1) by auto
    from Cons.IH [OF d h regs e] show ?thesis unfolding store_create_all.simps step bindO_simps by simp
  qed
qed auto

lemma multi_new_ok:
  assumes "holds s [] {}" "fits limit 8 8"
  shows "multi_new ops s = Some (Inl BadAccess) \<or>
    (\<exists>st. multi_new ops s = Some (Inr st) \<and> sp_inv holds {#} st)"
proof -
  let ?st = "\<lparr>sp_state = s, sp_chain = \<lambda>_ _. [], sp_store = \<lambda>_ _. 0, sp_info = Map.empty\<rparr>"
  have "store_create_all ops all_stores ?st = Some (Inl BadAccess) \<or>
    (\<exists>st' rs'. store_create_all ops all_stores ?st = Some (Inr st') \<and> holds (sp_state st') rs' {} \<and>
      mset rs' = image_mset (store_reg st') (mset (all_stores @ [])) \<and>
      (\<forall>a l. sp_chain st' a l = []) \<and> sp_info st' = Map.empty)"
    by (rule store_create_all_ok [of all_stores "[]" ?st "[]" "{}"]) (use all_stores(1) assms in auto)
  then show ?thesis
  proof (elim disjE exE conjE)
    fix st' rs'
    assume st': "store_create_all ops all_stores ?st = Some (Inr st')" "holds (sp_state st') rs' {}"
      "mset rs' = image_mset (store_reg st') (mset (all_stores @ []))" "\<forall>a l. sp_chain st' a l = []"
      "sp_info st' = Map.empty"
    have "sp_regions {#} st' = mset rs'"
      using st'(3,4) by (simp add: sp_regions_def store_reg_fun chain_sum_def chain_ptrs_def mset_all_stores)
    moreover have "used_nodes st' = {#}" using st'(4) by (simp add: chain_sum_def)
    ultimately have "sp_inv holds {#} st'"
      using st'(2,4) unfolding sp_inv_def
      by (intro conjI exI [of _ rs'] exI [of _ "{}"]) (auto simp: chain_ptrs_def)
    then show ?thesis using st'(1) by (simp add: multi_new_def)
  qed (simp_all add: multi_new_def)
qed

lemma free_pointers_ok:
  assumes "distinct (ps @ qs)" "\<forall>p\<in>set (ps @ qs). sp_info st p = info p \<and> (\<exists>h. info p = Some h \<and> header_ok p h)"
    "holds (sp_state st) rs N" "mset rs = image_mset (\<lambda>p. block_reg info (p, 0)) (mset ps) + R"
  shows "\<exists>st' rs'. free_pointers ops ps st = Inr st' \<and> holds (sp_state st') rs' N \<and> mset rs' = R \<and>
    (\<forall>p\<in>set qs. sp_info st' p = info p) \<and> sp_chain st' = sp_chain st \<and> sp_store st' = sp_store st"
  using assms
proof (induction ps arbitrary: st rs)
  case (Cons p ps)
  obtain l off where i: "sp_info st p = Some (l, off)" "info p = Some (l, off)" "header_ok p (l, off)"
    using Cons.prems(2) by auto
  have o: "unat (p - off) = unat p - unat off"
    by (rule unat_diff) (use i(3) in \<open>simp add: header_ok_def word_le_nat_alt\<close>)
  obtain ts where ts: "mset ts = image_mset (\<lambda>p. block_reg info (p, 0)) (mset ps) + R" using ex_mset by blast
  have "block_reg info (p, 0) = (unat (p - off), snd (block_reg info (p, 0)))"
    using i(2) o by (simp add: block_reg_def)
  then have "holds (sp_state st) ((unat (p - off), snd (block_reg info (p, 0))) # ts) N"
    using Cons.prems(4) ts by (intro order [OF Cons.prems(3)]) simp
  from give_back [OF this] obtain s' where s': "src_deallocate (po_source ops) (p - off) (sp_state st) = Inr s'"
    "holds s' ts N" by blast
  let ?st = "st\<lparr>sp_state := s', sp_info := (sp_info st)(p := None)\<rparr>"
  have "\<forall>q\<in>set (ps @ qs). sp_info ?st q = info q \<and> (\<exists>h. info q = Some h \<and> header_ok q h)"
    using Cons.prems(1,2) by auto
  from Cons.IH [OF _ this _ ts] Cons.prems(1) s'(2) obtain st' rs' where
    "free_pointers ops ps ?st = Inr st'" "holds (sp_state st') rs' N" "mset rs' = R"
    "\<forall>p\<in>set qs. sp_info st' p = info p" "sp_chain st' = sp_chain st" "sp_store st' = sp_store st" by auto
  then show ?case using i(1) s'(1) by (auto simp: pool_block_info_def)
qed auto

lemma free_chain_ok:
  assumes "distinct (chain_ptrs chain @ qs)"
    "\<forall>p\<in>set (chain_ptrs chain @ qs). sp_info st p = info p \<and> (\<exists>h. info p = Some h \<and> header_ok p h)"
    "holds (sp_state st) rs N" "mset rs = image_mset (\<lambda>p. block_reg info (p, 0)) (mset (chain_ptrs chain)) + R"
    "finite N" "mset_set N = mset (map fst chain) + M"
  shows "\<exists>st' rs' N'. free_chain ops chain st = Inr st' \<and> holds (sp_state st') rs' N' \<and> mset rs' = R \<and>
    finite N' \<and> mset_set N' = M \<and>
    (\<forall>p\<in>set qs. sp_info st' p = info p) \<and> sp_chain st' = sp_chain st \<and> sp_store st' = sp_store st"
  using assms
proof (induction chain arbitrary: st rs N)
  case Nil
  then show ?case by (auto simp: chain_ptrs_def)
next
  case (Cons l chain)
  let ?R = "image_mset (\<lambda>p. block_reg info (p, 0)) (mset (chain_ptrs chain)) + R"
  have c: "chain_ptrs (l # chain) = snd l @ chain_ptrs chain" by (simp add: chain_ptrs_def)
  from free_pointers_ok [of "snd l" "chain_ptrs chain @ qs" st info rs N ?R] Cons.prems(1-4) c
  obtain st1 rs1 where st1: "free_pointers ops (snd l) st = Inr st1" "holds (sp_state st1) rs1 N" "mset rs1 = ?R"
    "\<forall>p\<in>set (chain_ptrs chain @ qs). sp_info st1 p = info p" "sp_chain st1 = sp_chain st" "sp_store st1 = sp_store st"
    by (auto simp: add.assoc)
  have n: "fst l \<in> N" using Cons.prems(5,6) by (metis elem_mset_set list.simps(9) mset.simps(2) union_mset_add_mset_left union_single_eq_member)
  from release [OF st1(2) n] obtain s' where s': "po_release ops (fst l) (sp_state st1) = Inr s'"
    "holds s' rs1 (N - {fst l})" by blast
  have N: "mset_set (N - {fst l}) = mset (map fst chain) + M"
    using mset_set.remove [OF Cons.prems(5) n] Cons.prems(6) by simp
  have info: "\<forall>p\<in>set (chain_ptrs chain @ qs). sp_info (st1\<lparr>sp_state := s'\<rparr>) p = info p \<and>
      (\<exists>h. info p = Some h \<and> header_ok p h)" using st1(4) Cons.prems(2) c by auto
  have d: "distinct (chain_ptrs chain @ qs)" using Cons.prems(1) c by simp
  have h: "holds (sp_state (st1\<lparr>sp_state := s'\<rparr>)) rs1 (N - {fst l})" using s'(2) by simp
  from Cons.IH [OF d info h st1(3) _ N] Cons.prems(5)
  show ?case using st1 s'(1) by (auto simp: store_unuse_def)
qed

text \<open>The pointers in the stores, in the order the destructor frees them.\<close>

definition ptrs_of :: "'s multi_pool \<Rightarrow> (bool \<times> nat) list \<Rightarrow> addr list" where
  "ptrs_of st ks = concat (map (\<lambda>k. chain_ptrs (sp_chain st (fst k) (snd k))) ks)"

definition nodes_of :: "'s multi_pool \<Rightarrow> (bool \<times> nat) list \<Rightarrow> addr multiset" where
  "nodes_of st ks = mset (concat (map (\<lambda>k. map fst (sp_chain st (fst k) (snd k))) ks))"

lemma store_delete_all_ok:
  assumes "distinct (ptrs_of st ks)" "\<forall>p\<in>set (ptrs_of st ks). sp_info st p = info p \<and> (\<exists>h. info p = Some h \<and> header_ok p h)"
    "holds (sp_state st) rs N" "finite N" "mset_set N = nodes_of st ks"
    "mset rs = image_mset (\<lambda>p. block_reg info (p, 0)) (mset (ptrs_of st ks)) + image_mset (store_reg st) (mset ks) + R"
  shows "\<exists>st' rs'. store_delete_all ops ks st = Inr st' \<and> holds (sp_state st') rs' {} \<and> mset rs' = R"
  using assms
proof (induction ks arbitrary: st rs N)
  case Nil
  then show ?case by (auto simp: ptrs_of_def nodes_of_def mset_set_empty_iff)
next
  case (Cons k ks)
  let ?chain = "sp_chain st (fst k) (snd k)"
  let ?R = "image_mset (\<lambda>p. block_reg info (p, 0)) (mset (ptrs_of st ks)) + image_mset (store_reg st) (mset (k # ks)) + R"
  have p: "ptrs_of st (k # ks) = chain_ptrs ?chain @ ptrs_of st ks" by (simp add: ptrs_of_def)
  have m: "mset_set N = mset (map fst ?chain) + nodes_of st ks" using Cons.prems(5) by (simp add: nodes_of_def)
  have r: "mset rs = image_mset (\<lambda>p. block_reg info (p, 0)) (mset (chain_ptrs ?chain)) + ?R"
    using Cons.prems(6) p by (simp add: ac_simps)
  from free_chain_ok [OF Cons.prems(1) [unfolded p] Cons.prems(2) [unfolded p] Cons.prems(3) r Cons.prems(4) m]
  obtain st1 rs1 N1 where st1: "free_chain ops ?chain st = Inr st1" "holds (sp_state st1) rs1 N1" "mset rs1 = ?R"
    "finite N1" "mset_set N1 = nodes_of st ks" "\<forall>p\<in>set (ptrs_of st ks). sp_info st1 p = info p"
    "sp_chain st1 = sp_chain st" "sp_store st1 = sp_store st" by blast
  let ?r = "(unat (sp_store st1 (fst k) (snd k)), 8)"
  let ?R' = "image_mset (\<lambda>p. block_reg info (p, 0)) (mset (ptrs_of st ks)) + image_mset (store_reg st) (mset ks) + R"
  obtain ts where ts: "mset ts = ?R'" using ex_mset by blast
  have "holds (sp_state st1) (?r # ts) N1"
    by (rule order [OF st1(2)]) (simp add: ts st1(3,8) store_reg_def)
  from give_back [OF this] obtain s' where s': "src_deallocate (po_source ops) (sp_store st1 (fst k) (snd k)) (sp_state st1) = Inr s'"
    "holds s' ts N1" by blast
  let ?st = "st1\<lparr>sp_state := s'\<rparr>"
  have same: "ptrs_of ?st ks = ptrs_of st ks" "nodes_of ?st ks = nodes_of st ks" "store_reg ?st = store_reg st"
    using st1(7,8) by (simp_all add: ptrs_of_def nodes_of_def store_reg_def fun_eq_iff)
  have "\<exists>st' rs'. store_delete_all ops ks ?st = Inr st' \<and> holds (sp_state st') rs' {} \<and> mset rs' = R"
  proof (rule Cons.IH)
    show "distinct (ptrs_of ?st ks)" using Cons.prems(1) p same by simp
    show "\<forall>p\<in>set (ptrs_of ?st ks). sp_info ?st p = info p \<and> (\<exists>h. info p = Some h \<and> header_ok p h)"
      using st1(6) Cons.prems(2) p same by auto
    show "holds (sp_state ?st) ts N1" using s'(2) by simp
    show "finite N1" "mset_set N1 = nodes_of ?st ks" using st1(4,5) same by simp_all
    show "mset ts = image_mset (\<lambda>p. block_reg info (p, 0)) (mset (ptrs_of ?st ks)) +
        image_mset (store_reg ?st) (mset ks) + R" using ts same by simp
  qed
  then show ?case using st1(1) s'(1) by (simp add: store_delete_def)
qed

lemma mset_concat_sum: "distinct ks \<Longrightarrow> mset (concat (map f ks)) = (\<Sum>k\<in>set ks. mset (f k))"
  by (induction ks) auto

lemma multi_delete_ok:
  assumes inv: "sp_inv holds live st"
  shows "\<exists>st' rs. multi_delete ops st = Inr st' \<and> holds (sp_state st') rs {} \<and>
    mset rs = image_mset (block_reg (sp_info st)) live"
proof -
  obtain rs N where h: "mset rs = sp_regions live st" "holds (sp_state st) rs N" "finite N" "used_nodes st = mset_set N"
    using inv by (auto simp: sp_inv_def)
  have c: "mset (ptrs_of st all_stores) = cached st"
    by (simp add: ptrs_of_def chain_sum_def mset_concat_sum all_stores)
  have n: "nodes_of st all_stores = used_nodes st"
    by (simp add: nodes_of_def chain_sum_def mset_concat_sum all_stores del: mset_map)
  have hdr: "\<forall>p\<in>set (ptrs_of st all_stores). \<exists>h. sp_info st p = Some h \<and> header_ok p h"
  proof
    fix p assume "p \<in> set (ptrs_of st all_stores)"
    then have "p \<in># cached st" by (simp flip: c)
    then have "(p, 0) \<in># all_blocks live st" by (auto simp: all_blocks_def)
    then obtain h where "sp_info st (fst (p, 0 :: nat)) = Some h" "header_ok (fst (p, 0 :: nat)) h"
      using block_header [OF inv] by metis
    then show "\<exists>h. sp_info st p = Some h \<and> header_ok p h" by auto
  qed
  have distinct: "distinct (ptrs_of st all_stores)"
  proof (rule ccontr)
    assume "\<not> distinct (ptrs_of st all_stores)"
    then obtain xs ys zs p where xs: "ptrs_of st all_stores = xs @ [p] @ ys @ [p] @ zs"
      using not_distinct_decomp by blast
    then have "cached st = add_mset p (add_mset p (mset (xs @ ys @ zs)))" by (simp flip: c)
    then obtain M where "mset rs = add_mset (block_reg (sp_info st) (p, 0)) (add_mset (block_reg (sp_info st) (p, 0)) M)"
      using h(1) by (simp add: sp_regions_def)
    then have "apart (block_reg (sp_info st) (p, 0)) (block_reg (sp_info st) (p, 0))" by (rule holds_apart [OF h(2)])
    moreover obtain hd where "sp_info st p = Some hd" "header_ok p hd" using hdr xs by auto
    ultimately show False by (auto simp: apart_def block_reg_def header_ok_def split: prod.splits)
  qed
  have regs: "mset rs = image_mset (\<lambda>p. block_reg (sp_info st) (p, 0)) (mset (ptrs_of st all_stores)) +
      image_mset (store_reg st) (mset all_stores) + image_mset (block_reg (sp_info st)) live"
    using h(1) by (simp add: c sp_regions_def mset_all_stores store_reg_fun multiset.map_comp comp_def ac_simps)
  from store_delete_all_ok [OF distinct _ h(2,3) _ regs] hdr h(4) n
  show ?thesis by (auto simp: multi_delete_def)
qed

end

section \<open>Properties of the multi pool\<close>

context node_pool
begin

lemma live_apart:
  assumes "sp_inv holds (add_mset (u, n) live) st" "(v, m) \<in># live"
  shows "apart (unat u, n) (unat v, m)"
proof -
  obtain rs N where h: "mset rs = sp_regions (add_mset (u, n) live) st" "holds (sp_state st) rs N"
    using assms(1) by (auto simp: sp_inv_def)
  obtain L where L: "live = add_mset (v, m) L" using assms(2) by (metis mset_add)
  then obtain M where "mset rs = add_mset (block_reg (sp_info st) (u, n)) (add_mset (block_reg (sp_info st) (v, m)) M)"
    using h(1) by (simp add: sp_regions_def)
  then have a: "apart (block_reg (sp_info st) (u, n)) (block_reg (sp_info st) (v, m))" by (rule holds_apart [OF h(2)])
  have inside: "within (unat w, k) (block_reg (sp_info st) (w, k))" if "live_ok st (w, k)" for w k
    using that by (auto simp: live_ok_def within_def block_reg_def header_ok_def split: option.splits)
  have "live_ok st (u, n)" "live_ok st (v, m)" using assms(1) L by (auto simp: sp_inv_def)
  then show ?thesis using a inside apart_within apart_sym by meson
qed

end


text \<open>
  C24: \<^verbatim>\<open>MultiPoolResource::Deallocate\<close> of a block in use, whose header names its list,
  keeps all other blocks in use.  A block of no list goes back to the resource; otherwise, while the
  store's first free list has less than 255 pointers, the block becomes that list's last pushed
  pointer, and nothing is acquired.  With no free list, or 255 pointers in the first one, a new
  free list with just this block is put in front; when the pool of free lists answers
  \<^verbatim>\<open>nullptr\<close> the code dereferences null, and when that pool's growth asserts, so does
  the call.
\<close>

theorem multi_pool_takes_back:
  assumes "node_pool holds ops limit" "sp_inv holds (add_mset (u, n) live) st"
  shows "\<exists>l off. sp_info st u = Some (l, off) \<and>
    (if l = no_list then \<exists>st'. mpr_deallocate ops u st = Some (Inr st') \<and> sp_inv holds live st'
     else if case sp_chain st (off \<noteq> 8) l of [] \<Rightarrow> False | f # _ \<Rightarrow> length (snd f) < 255 then
       \<exists>f rest st'. sp_chain st (off \<noteq> 8) l = f # rest \<and> mpr_deallocate ops u st = Some (Inr st') \<and>
         sp_inv holds live st' \<and> sp_chain st' (off \<noteq> 8) l = (fst f, u # snd f) # rest
     else case po_acquire ops (sp_state st) of
         Some (Inr (Some n, _)) \<Rightarrow> \<exists>st'. mpr_deallocate ops u st = Some (Inr st') \<and> sp_inv holds live st' \<and>
           sp_chain st' (off \<noteq> 8) l = (n, [u]) # sp_chain st (off \<noteq> 8) l
       | Some (Inr (None, _)) \<Rightarrow> mpr_deallocate ops u st = Some (Inl BadAccess)
       | Some (Inl e) \<Rightarrow> e = AssertFail \<and> mpr_deallocate ops u st = Some (Inl AssertFail)
       | None \<Rightarrow> False)"
proof -
  have full: "(case c of [] \<Rightarrow> False | f # _ \<Rightarrow> length (snd f) < 255) \<longleftrightarrow> \<not> chain_full c" for c :: "free_node list"
    by (auto simp: chain_full_def split: list.splits)
  show ?thesis
    unfolding full by (rule node_pool.mpr_deallocate_ok [OF assms]) (intro exI conjI, assumption+)
qed

text \<open>
  The destructor gives every cached block, every free list and every store back: what is
  left granted by the resource are the blocks still in use.
\<close>

theorem multi_pool_delete_returns_all:
  assumes "node_pool holds ops limit" "sp_inv holds live st"
  shows "case multi_delete ops st of Inl e \<Rightarrow> False
    | Inr st' \<Rightarrow> \<exists>rs. holds (sp_state st') rs {} \<and> mset rs = image_mset (block_reg (sp_info st)) live"
  using node_pool.multi_delete_ok [OF assms] by auto

section \<open>A pool over a monotonic buffer\<close>

text \<open>
  A resource of one megabyte whose first kilobytes are taken by the stores and by the first
  block of the pool of free lists, whose nodes have 2056 bytes and which may grow to the default maximum of nodes.
\<close>

definition sample_node :: node_type where
  "sample_node = \<lparr>nt_size = 2056, nt_align = 8\<rparr>"

definition sample_resource :: "unit lmem" where
  "sample_resource = \<lparr>lm_blocks = [\<lparr>mb_data = 4096, mb_size = 12000, mb_capacity = 1048576\<rparr>],
    lm_active = 0, lm_state = ()\<rparr>"

definition sample_pool :: "(unit, unit lmem) opool multi_pool" where
  "sample_pool = \<lparr>sp_state = \<lparr>op_free = None, op_nodes = Map.empty,
      op_buffer = mono_new 8192 4096 sample_resource, op_alloc_size = 1, op_max = 0xFFFFFFFF, op_total = 0\<rparr>,
    sp_chain = \<lambda>_ _. [], sp_store = \<lambda>a l. 4096 + 16 * of_nat l + (if a then 8 else 0), sp_info = Map.empty\<rparr>"

abbreviation sample_ops :: "(unit, unit lmem) opool pool_ops" where
  "sample_ops \<equiv> opool_ops (mono_source exhausted_source) sample_node"

abbreviation sample_holds :: "(unit, unit lmem) opool \<Rightarrow> region list \<Rightarrow> addr set \<Rightarrow> bool" where
  "sample_holds \<equiv> opool_holds (lm_inv (\<lambda>(_ :: unit) _. True) (2 ^ 29 - 24) [(4096, 1048576)])
    (2 ^ 29 - 56) [(8192, 4096)] sample_node"

lemma sample_nodes: "node_pool sample_holds sample_ops (2 ^ 29 - 24)"
  by (rule mono_nodes.nodes.node_pool_axioms)

lemma sorted_wrt_apart_map:
  assumes "distinct xs" "\<And>x y. x \<in> set xs \<Longrightarrow> y \<in> set xs \<Longrightarrow> x \<noteq> y \<Longrightarrow> apart (f x) (f y)"
  shows "sorted_wrt apart (map f xs)"
  using assms by (induction xs) auto

lemma sample_store:
  assumes "k \<in> stores"
  shows "store_reg sample_pool k = (4096 + 16 * snd k + (if fst k then 8 else 0), 8)"
proof -
  obtain a l where k: "k = (a, l)" "l < 126" using assms by (cases k) auto
  have l: "unat (of_nat l :: addr) = l" using k(2) by (intro unat_of_nat_small) simp
  have m: "unat (16 * of_nat l :: addr) = 16 * l" using k(2) l by (simp add: unat_word_ariths)
  have s: "unat (4096 + 16 * of_nat l :: addr) = 4096 + 16 * l" using k(2) m by (subst unat_sum) simp_all
  have "unat (4096 + 16 * of_nat l + 8 :: addr) = 4096 + 16 * l + 8" using k(2) s by (subst unat_sum) simp_all
  then show ?thesis using s by (simp add: store_reg_def sample_pool_def k(1))
qed

lemma sample_growth: "growth_fits (2 ^ 29 - 56) sample_node (sp_state sample_pool)"
proof -
  have "min 4294967295 (2 ^ Suc k) * 2056 \<le> (2 :: nat) ^ 29 - 56 \<or> (2 :: nat) ^ 29 < min 4294967295 (2 ^ Suc k) * 2056" for k :: nat
  proof (cases "Suc k \<le> 17")
    case True
    then have "(2 :: nat) ^ Suc k \<le> 2 ^ 17" by (rule power_increasing) simp
    then show ?thesis by (simp add: min_def)
  next
    case False
    then have "(2 :: nat) ^ 18 \<le> 2 ^ Suc k" by (intro power_increasing) simp_all
    then show ?thesis by (simp add: min_def)
  qed
  then show ?thesis by (simp add: growth_fits_def sample_pool_def sample_node_def)
qed

lemma sample_small_inv: "sp_inv sample_holds {#} sample_pool"
proof -
  let ?rs = "map (store_reg sample_pool) all_stores" and ?base = "[(4096, 1048576)] :: region list"
  have inside: "4096 \<le> fst r \<and> fst r + snd r \<le> 8192" if "r \<in> set ?rs" for r
    using that by (auto simp: all_stores sample_store stores_def)
  have "sorted_wrt apart ?rs"
    by (rule sorted_wrt_apart_map)
      (auto simp: all_stores sample_store stores_def apart_def)
  then have "sorted_wrt apart ((8192, 4096) # ?rs)" using inside by (auto simp: apart_def)
  moreover have "lm_inv (\<lambda>(_ :: unit) _. True) (2 ^ 29 - 24) ?base sample_resource ((8192, 4096) # ?rs)"
  proof -
    have "\<forall>r\<in>set ((8192, 4096) # ?rs). within r (4096, 12000)"
    proof
      fix r assume "r \<in> set ((8192, 4096) # ?rs)"
      then have "r = (8192, 4096) \<or> 4096 \<le> fst r \<and> fst r + snd r \<le> 8192" using inside by (metis set_ConsD)
      then show "within r (4096, 12000)" by (auto simp: within_def)
    qed
    moreover have "within (4096, 1048576) (4096, 1048576)" by simp
    ultimately show ?thesis
      using \<open>sorted_wrt apart ((8192, 4096) # ?rs)\<close>
      unfolding lm_inv_def sample_resource_def by (simp add: block_ok_def used_region_def block_region_def)
  qed
  ultimately have good: "settled (lm_inv (\<lambda>(_ :: unit) _. True) (2 ^ 29 - 24) ?base) sample_resource ([(8192, 4096)] @ ?rs)"
    unfolding settled_def by (intro exI [of _ "(8192, 4096) # ?rs"]) simp
  have "lm_inv (\<lambda>s bs. settled (lm_inv (\<lambda>(_ :: unit) _. True) (2 ^ 29 - 24) ?base) s (bs @ ?rs)) (2 ^ 29 - 56)
      [(8192, 4096)] (mono_new 8192 4096 sample_resource) []"
    by (rule mono_new_inv) (use good in simp_all)
  then have "op_inv (\<lambda>s bs. settled (lm_inv (\<lambda>(_ :: unit) _. True) (2 ^ 29 - 24) ?base) s (bs @ ?rs)) (2 ^ 29 - 56)
      [(8192, 4096)] sample_node (sp_state sample_pool)"
    unfolding sample_pool_def multi_pool.simps
    by (rule op_new_inv) (simp_all add: sample_node_def fits_def pow2_consts)
  then have "sample_holds (sp_state sample_pool) ?rs {}"
    unfolding opool_holds_def using sample_growth by (simp add: sample_pool_def op_live_def)
  then show ?thesis
    unfolding sp_inv_def
    by (intro conjI exI [of _ ?rs] exI [of _ "{}"])
      (auto simp: sp_regions_def chain_sum_def chain_ptrs_def sample_pool_def mset_all_stores store_reg_fun)
qed

lemma sample_pool_allocates:
  "\<exists>st'. mpr_allocate sample_ops 100 16 sample_pool = Some (Inr (Some 16112, st')) \<and>
    sp_info st' 16112 = Some (12, 16) \<and> sp_chain st' True 12 = []"
proof -
  have b: "small_bucket 100 = Inr (104, 12)"
    by (simp add: small_bucket_def byte_align_offset_def mod2_def Let_def)
  have "\<exists>st'. pool_block_allocate sample_ops 104 16 12 (sp_set_chain True 12 [] (sample_pool\<lparr>sp_state := sp_state sample_pool\<rparr>)) =
      Some (Inr (Some 16112, st')) \<and> sp_info st' 16112 = Some (12, 16) \<and> sp_chain st' True 12 = []"
    by (simp add: pool_block_allocate_def opool_ops_def mono_source_def mono_allocate_def sample_pool_def mono_new_def
      sample_resource_def lm_allocate.simps lm_rewind_def lm_put_def allocate_from_block_def lm_active_capacity_def
      align_address_def byte_align_position_def Let_def opool_state_def safe_range_cast_def trunc_def)
  then show ?thesis
    using b by (simp add: mpr_allocate_def multi_allocate_def max_small_def store_allocate_def
      sample_pool_def Let_def no_list_def safe_range_cast_def trunc_def)
qed


lemma sample_live:
  obtains st where "sp_inv sample_holds {#(16112, 100)#} st" "sp_info st 16112 = Some (12, 16)" "sp_chain st True 12 = []"
proof -
  have al: "pow2 16" unfolding pow2_def by (rule exI [of _ 4]) simp
  show thesis
    using node_pool.mpr_allocate_ok [OF sample_nodes sample_small_inv al, of 100] sample_pool_allocates that by auto
qed

lemma multi_pool_takes_back_witness:
  "\<exists>st. sp_inv sample_holds {#(16112, 100)#} st \<and> sp_info st 16112 = Some (12, 16) \<and> sp_chain st True 12 = [] \<and>
    (case po_acquire sample_ops (sp_state st) of
        Some (Inr (Some n, _)) \<Rightarrow> \<exists>st'. mpr_deallocate sample_ops 16112 st = Some (Inr st') \<and>
          sp_inv sample_holds {#} st' \<and> sp_chain st' True 12 = [(n, [16112])]
      | Some (Inr (None, _)) \<Rightarrow> mpr_deallocate sample_ops 16112 st = Some (Inl BadAccess)
      | Some (Inl e) \<Rightarrow> e = AssertFail
      | None \<Rightarrow> False)"
proof -
  obtain st where st: "sp_inv sample_holds {#(16112, 100)#} st" "sp_info st 16112 = Some (12, 16)" "sp_chain st True 12 = []"
    by (rule sample_live)
  from multi_pool_takes_back [OF sample_nodes, of 16112 100 "{#}" st] st show ?thesis
    by (intro exI [of _ st]) (auto simp: no_list_def split: option.splits sum.splits)
qed

lemma multi_pool_delete_returns_all_witness:
  "case multi_delete sample_ops sample_pool of Inl e \<Rightarrow> False
    | Inr st' \<Rightarrow> sample_holds (sp_state st') [] {}"
  using multi_pool_delete_returns_all [OF sample_nodes sample_small_inv] by (auto split: sum.splits)

lemma bucket_holds_request_witness:
  "small_bucket 600 = Inr (608, 66) \<and> (\<exists>cap l. small_bucket 600 = Inr (cap, l) \<and> unat cap = bucket_size (unat l))"
  using bucket_holds_request [of 600]
  by (auto simp: max_small_def small_bucket_def byte_align_offset_def mod2_def Let_def)

end
