(* ===== verification/BitUtils.thy ===== *)
theory BitUtils
  imports Prelude
begin

text \<open>
  Bit tricks of \<^verbatim>\<open>ion/util\<close> on words of fixed width: \<^verbatim>\<open>Bits.h\<close> and
  \<^verbatim>\<open>BitsCImpl.h\<close> (counting zeroes, visiting the set bits, byte order), \<^verbatim>\<open>CRC32.h\<close>,
  the integer mixers of \<^verbatim>\<open>Hasher.h\<close>, the generator of \<^verbatim>\<open>Random.h\<close> and
  \<^verbatim>\<open>Random.cpp\<close>, and the integer square root of \<^verbatim>\<open>fixedpoint/FixedMath.h\<close>.

  The compiler's builtins are specified by what their documentation says; the branch for
  compilers without them is the repository's own table look-up.
\<close>

unbundle bit_operations_syntax

type_synonym u32 = "32 word"
type_synonym u64 = "64 word"

section \<open>Zero bits at the ends of a word\<close>

text \<open>
  What \<^verbatim>\<open>__builtin_ctz\<close> and \<^verbatim>\<open>__builtin_clz\<close> count, with the code's answer for 0:
  the width.
\<close>

fun trailing_zeroes :: "nat \<Rightarrow> 'a::len word \<Rightarrow> nat" where
  "trailing_zeroes 0 v = 0"
| "trailing_zeroes (Suc n) v = (if bit v 0 then 0 else Suc (trailing_zeroes n (drop_bit 1 v)))"

definition count_trailing_zeroes :: "'a::len word \<Rightarrow> nat" where
  "count_trailing_zeroes v = trailing_zeroes LENGTH('a) v"

fun bit_length :: "nat \<Rightarrow> 'a::len word \<Rightarrow> nat" where
  "bit_length 0 v = 0"
| "bit_length (Suc n) v = (if bit v n then Suc n else bit_length n v)"

definition count_leading_zeroes :: "'a::len word \<Rightarrow> nat" where
  "count_leading_zeroes v = LENGTH('a) - bit_length LENGTH('a) v"

text \<open>The table of \<^verbatim>\<open>ion_CountLeadingZeroes32\<close>.\<close>

definition clz_table :: "nat list" where
  "clz_table = [31, 22, 30, 21, 18, 10, 29, 2, 20, 17, 15, 13, 9, 6, 28, 1,
    23, 19, 11, 3, 16, 14, 7, 24, 12, 4, 8, 25, 5, 26, 27, 0]"

definition smear :: "u32 \<Rightarrow> u32" where
  "smear x =
    (let x = x OR drop_bit 1 x; x = x OR drop_bit 2 x; x = x OR drop_bit 4 x; x = x OR drop_bit 8 x in
     x OR drop_bit 16 x)"

definition clz32_lookup :: "u32 \<Rightarrow> nat" where
  "clz32_lookup x = clz_table ! unat (drop_bit 27 (smear x * 0x07c4acdd))"

text \<open>\<^verbatim>\<open>ForEachEnabledBit\<close>: the visited bits, in order; every round clears the lowest.\<close>

function set_bits_visited :: "'a::len word \<Rightarrow> nat list" where
  "set_bits_visited v =
    (if v = 0 then [] else count_trailing_zeroes v # set_bits_visited (v XOR (v AND - v)))"
  by auto

section \<open>Byte order\<close>

definition word_byte :: "nat \<Rightarrow> 'a::len word \<Rightarrow> 'a word" where
  "word_byte i v = take_bit 8 (drop_bit (8 * i) v)"

definition reverse_byte_order32 :: "u32 \<Rightarrow> u32" where
  "reverse_byte_order32 v =
    push_bit 0 (word_byte 3 v) OR push_bit 8 (word_byte 2 v) OR push_bit 16 (word_byte 1 v) OR
    push_bit 24 (word_byte 0 v)"

definition reverse_byte_order64 :: "u64 \<Rightarrow> u64" where
  "reverse_byte_order64 v =
    push_bit 0 (word_byte 7 v) OR push_bit 8 (word_byte 6 v) OR push_bit 16 (word_byte 5 v) OR
    push_bit 24 (word_byte 4 v) OR push_bit 32 (word_byte 3 v) OR push_bit 40 (word_byte 2 v) OR
    push_bit 48 (word_byte 1 v) OR push_bit 56 (word_byte 0 v)"

definition host_to_big_endian32 :: "u32 \<Rightarrow> u32" where
  "host_to_big_endian32 v = reverse_byte_order32 v"

definition big_endian_to_host32 :: "u32 \<Rightarrow> u32" where
  "big_endian_to_host32 v = reverse_byte_order32 v"

definition host_to_big_endian64 :: "u64 \<Rightarrow> u64" where
  "host_to_big_endian64 v = reverse_byte_order64 v"

definition big_endian_to_host64 :: "u64 \<Rightarrow> u64" where
  "big_endian_to_host64 v = reverse_byte_order64 v"

section \<open>CRC32\<close>

definition crc_step :: "u32 \<Rightarrow> u32" where
  "crc_step r = (if bit r 0 then 0 else 0xEDB88320) XOR drop_bit 1 r"

definition crc32_for_byte :: "u32 \<Rightarrow> u32" where
  "crc32_for_byte r = (crc_step ^^ 8) r XOR 0xFF000000"

definition crc_table :: "u32 list" where
  "crc_table = map (\<lambda>i. crc32_for_byte (of_nat i)) [0..<256]"

definition crc_byte :: "8 word \<Rightarrow> u32 \<Rightarrow> u32" where
  "crc_byte b crc = crc_table ! unat (ucast crc XOR b :: 8 word) XOR drop_bit 8 crc"

text \<open>
  \<^verbatim>\<open>CRC32::Add\<close> over the bytes of memory from \<^verbatim>\<open>data\<close> on, \<open>n\<close> of them before
  \<^verbatim>\<open>end\<close>: the loop handles a byte before it compares with the end, so that \<open>n = 0\<close>
  (and \<open>0 - 1 = 0\<close>) runs on to the end of memory.
\<close>

fun crc_loop :: "8 word list \<Rightarrow> nat \<Rightarrow> u32 \<Rightarrow> u32 res" where
  "crc_loop [] n crc = Inl BadAccess"
| "crc_loop (b # bs) n crc =
    (let crc = crc_byte b crc in if n = 1 then Inr crc else crc_loop bs (n - 1) crc)"

definition crc_add :: "8 word list \<Rightarrow> nat \<Rightarrow> u32 \<Rightarrow> u32 res" where
  "crc_add mem n crc = crc_loop mem n crc"

section \<open>Mixing hashes\<close>

definition hash32 :: "u32 \<Rightarrow> u32" where
  "hash32 x =
    (let x = x XOR drop_bit 16 x; x = x * 0x85ebca6b; x = x XOR drop_bit 13 x; x = x * 0xc2b2ae35 in
     x XOR drop_bit 16 x)"

definition hash64 :: "u64 \<Rightarrow> u64" where
  "hash64 x =
    (let x = x XOR drop_bit 33 x; x = x * 0xff51afd7ed558ccd; x = x XOR drop_bit 33 x;
         x = x * 0xc4ceb9fe1a85ec53 in
     x XOR drop_bit 33 x)"

text \<open>\<^verbatim>\<open>Hasher<uint32_t>\<close> and \<^verbatim>\<open>Hasher<uint64_t>\<close> where \<^verbatim>\<open>size_t\<close> has 64 bits.\<close>

definition hasher32 :: "u32 \<Rightarrow> u64" where
  "hasher32 key = (let x = hash32 key in push_bit 32 (ucast x) OR ucast (hash32 (key XOR x)))"

definition hasher64 :: "u64 \<Rightarrow> u64" where
  "hasher64 key = hash64 key"

definition hash_djb2 :: "8 word list \<Rightarrow> u64" where
  "hash_djb2 str = foldl (\<lambda>hash c. (push_bit 5 hash + hash) + scast c) 5381 (takeWhile (\<lambda>c. c \<noteq> 0) str)"

section \<open>Random numbers\<close>

type_synonym random_state = "u64 \<times> u64"

definition rotl :: "u64 \<Rightarrow> nat \<Rightarrow> u64" where
  "rotl x k = push_bit k x OR drop_bit (64 - k) x"

definition xoroshiro128_plus :: "random_state \<Rightarrow> (u64 \<times> random_state) res" where
  "xoroshiro128_plus s = (case s of (s0, s1) \<Rightarrow>
    assertR (s0 \<noteq> 0) (assertR (s1 \<noteq> 0)
      (let result = s0 + s1; s1 = s1 XOR s0 in
       Inr (result, (rotl s0 55 XOR s1 XOR push_bit 14 s1, rotl s1 36)))))"

definition xorshift64_star :: "u64 \<Rightarrow> (u64 \<times> u64) res" where
  "xorshift64_star x = assertR (x \<noteq> 0)
    (let x = x XOR drop_bit 12 x; x = x XOR push_bit 25 x; x = x XOR drop_bit 27 x in
     Inr (x * 0x2545F4914F6CDD1D, x))"

definition xorshift128_plus :: "random_state \<Rightarrow> (u64 \<times> random_state) res" where
  "xorshift128_plus s = (case s of (x, y) \<Rightarrow>
    assertR (x \<noteq> 0) (assertR (y \<noteq> 0)
      (let x = x XOR push_bit 23 x; z = x XOR y XOR drop_bit 17 x XOR drop_bit 26 y in
       Inr (z + y, (y, z)))))"

definition splitmix64_next :: "u64 \<Rightarrow> u64 \<times> u64" where
  "splitmix64_next x =
    (let x = x + 0x9e3779b97f4a7c15; z = x;
         z = (z XOR drop_bit 30 z) * 0xbf58476d1ce4e5b9;
         z = (z XOR drop_bit 27 z) * 0x94d049bb133111eb in
     (z XOR drop_bit 31 z, x))"

fun random_jump :: "bool list \<Rightarrow> random_state \<Rightarrow> random_state \<Rightarrow> random_state res" where
  "random_jump [] acc s = Inr acc"
| "random_jump (b # bs) acc s =
    (let acc = (if b then (fst acc XOR fst s, snd acc XOR snd s) else acc) in
     bindR (xoroshiro128_plus s) (\<lambda>(_, s). random_jump bs acc s))"

definition jump_bits :: "bool list" where
  "jump_bits = map (bit (0xbeac0467eba5facb :: u64)) [0..<64] @ map (bit (0xd86b048b86aa9922 :: u64)) [0..<64]"

definition random_seed :: "u64 \<Rightarrow> random_state res" where
  "random_seed seed =
    (let (a, x) = splitmix64_next seed in assertR (a \<noteq> 0)
      (let (b, _) = splitmix64_next x in assertR (b \<noteq> 0)
        (random_jump jump_bits (0, 0) (a, b))))"

section \<open>Integer square root\<close>

function isqrt_loop :: "u64 \<Rightarrow> u64 \<Rightarrow> u64 \<Rightarrow> u64" where
  "isqrt_loop r q b =
    (if 0 < b
     then let t = q + b; q = drop_bit 1 q in
       if t \<le> r then isqrt_loop (r - t) (q + b) (drop_bit 2 b) else isqrt_loop r q (drop_bit 2 b)
     else q)"
  by auto

lemma drop_bit_less: "0 < n \<Longrightarrow> 0 < b \<Longrightarrow> unat (drop_bit n (b :: 'a::len word)) < unat b"
proof -
  assume n: "0 < n" "0 < b"
  have "unat (drop_bit n b) = unat b div 2 ^ n" by (subst unat_drop_bit_eq) (simp only: drop_bit_eq_div)
  also have "\<dots> < unat b" using n one_less_power [of "2 :: nat" n] by (intro div_less_dividend) (simp_all add: word_less_nat_alt)
  finally show ?thesis .
qed

termination isqrt_loop
  by (relation "measure (\<lambda>(r, q, b). unat b)") (simp_all add: drop_bit_less)

definition isqrt :: "u64 \<Rightarrow> u64" where
  "isqrt v = isqrt_loop v 0 0x40000000"

section \<open>Single bits\<close>

lemma word_eq_bits: "(\<And>i. i < LENGTH('a) \<Longrightarrow> bit v i = bit w i) \<Longrightarrow> v = (w :: 'a::len word)"
  by (rule bit_word_eqI) auto

lemma trailing_zeroes_least:
  assumes "bit v i" "i < n" "\<And>j. j < i \<Longrightarrow> \<not> bit v j"
  shows "trailing_zeroes n v = i"
  using assms
proof (induction i arbitrary: n v)
  case 0
  then show ?case by (cases n) auto
next
  case (Suc i)
  then obtain m where m: "n = Suc m" by (cases n) auto
  have "trailing_zeroes m (drop_bit 1 v) = i"
    using Suc.prems m by (intro Suc.IH) (auto simp: bit_simps)
  then show ?case using Suc.prems(3) [of 0] m by simp
qed

lemma least_bit:
  assumes "v \<noteq> (0 :: 'a::len word)"
  obtains n where "bit v n" "n < LENGTH('a)" "\<And>j. j < n \<Longrightarrow> \<not> bit v j"
proof -
  have ex: "\<exists>n. bit v n" using assms by (auto simp: bit_eq_iff)
  show thesis
    using that [of "LEAST n. bit v n"] LeastI_ex [OF ex] not_less_Least bit_imp_le_length by blast
qed

lemma count_trailing_zeroes_least:
  fixes v :: "'a::len word"
  assumes "bit v n" "\<And>j. j < n \<Longrightarrow> \<not> bit v j"
  shows "count_trailing_zeroes v = n"
  unfolding count_trailing_zeroes_def
  using assms bit_imp_le_length [OF assms(1)] by (intro trailing_zeroes_least) auto

text \<open>The lowest set bit: \<^verbatim>\<open>bitset & -bitset\<close>.\<close>

lemma AND_minus_bit:
  fixes v :: "'a::len word"
  assumes "bit v n" "\<And>j. j < n \<Longrightarrow> \<not> bit v j"
  shows "bit (v AND - v) i \<longleftrightarrow> i = n"
proof -
  have n: "n < LENGTH('a)" using assms(1) by (rule bit_imp_le_length)
  have "v - 1 = unset_bit n v + mask n"
    using assms(1) by (simp add: unset_bit_eq mask_eq_exp_minus_1)
  also have "\<dots> = unset_bit n v OR mask n"
    using assms(2) by (intro disjunctive_add) (auto simp: bit_simps)
  finally have "- v = NOT (unset_bit n v OR mask n)"
    by (simp add: minus_eq_not_minus_1)
  then show ?thesis using assms n bit_imp_le_length [of v i] by (auto simp: bit_simps)
qed

lemma clear_lowest:
  fixes v :: "'a::len word"
  assumes "bit v n" "\<And>j. j < n \<Longrightarrow> \<not> bit v j"
  shows "bit (v XOR (v AND - v)) i \<longleftrightarrow> bit v i \<and> i \<noteq> n"
  using AND_minus_bit [OF assms, of i] assms(1) by (auto simp: bit_xor_iff)

lemma clear_lowest_less:
  fixes v :: "'a::len word"
  assumes "v \<noteq> 0"
  shows "card {i. bit (v XOR (v AND - v)) i} < card {i. bit v i}"
proof -
  obtain n where n: "bit v n" "\<And>j. j < n \<Longrightarrow> \<not> bit v j" using least_bit [OF assms] by blast
  have "finite {i. bit v i}" by (rule finite_subset [of _ "{..<LENGTH('a)}"]) (auto dest: bit_imp_le_length)
  moreover have "{i. bit (v XOR (v AND - v)) i} = {i. bit v i} - {n}" using clear_lowest [OF n] by auto
  ultimately show ?thesis using n(1) by (metis card_Diff1_less mem_Collect_eq)
qed

termination set_bits_visited
  by (relation "measure (\<lambda>v. card {i. bit v i})") (simp_all add: clear_lowest_less)

declare set_bits_visited.simps [simp del]

lemma set_bits_visited_ok: "set_bits_visited v = filter (bit v) [0..<LENGTH('a)]" for v :: "'a::len word"
proof (induction v rule: set_bits_visited.induct)
  case (1 v)
  show ?case
  proof (cases "v = 0")
    case True
    then show ?thesis by (simp add: set_bits_visited.simps)
  next
    case False
    obtain n where n: "bit v n" "n < LENGTH('a)" "\<And>j. j < n \<Longrightarrow> \<not> bit v j" using least_bit [OF False] by metis
    have split: "[0..<LENGTH('a)] = [0..<n] @ n # [Suc n..<LENGTH('a)]"
      using n(2) by (metis le_add_same_cancel1 less_imp_le_nat upt_add_eq_append upt_conv_Cons le_add_diff_inverse zero_le)
    have "filter (bit v) [0..<n] = []" using n(3) by (auto simp: filter_empty_conv)
    moreover have "filter (bit (v XOR (v AND - v))) [0..<LENGTH('a)] = filter (bit v) [Suc n..<LENGTH('a)]"
      unfolding split using n(1,3) clear_lowest [OF n(1,3)]
      by (auto simp: filter_empty_conv intro!: filter_cong)
    moreover have "count_trailing_zeroes v = n" using n(1,3) by (rule count_trailing_zeroes_least)
    ultimately show ?thesis
      using 1 [OF False] False n(1) by (subst set_bits_visited.simps, subst split) simp
  qed
qed

text \<open>
  \<^verbatim>\<open>ForEachEnabledBit\<close> terminates and calls its callback exactly once for every set
  bit, in ascending order.
\<close>

theorem set_bits_visited_once:
  "set_bits_visited v = filter (bit v) [0..<LENGTH('a)]" for v :: "'a::len word"
  by (rule set_bits_visited_ok)

section \<open>Leading zeroes\<close>

lemma bit_length_top:
  assumes "bit v k" "k < n" "\<And>j. k < j \<Longrightarrow> j < n \<Longrightarrow> \<not> bit v j"
  shows "bit_length n v = Suc k"
  using assms by (induction n) (auto simp: less_Suc_eq)

lemma top_bit:
  assumes "v \<noteq> (0 :: 'a::len word)"
  obtains k where "bit v k" "k < LENGTH('a)" "\<And>j. k < j \<Longrightarrow> \<not> bit v j"
proof -
  let ?S = "{i. bit v i}"
  have fin: "finite ?S" by (rule finite_subset [of _ "{..<LENGTH('a)}"]) (auto dest: bit_imp_le_length)
  have "?S \<noteq> {}" using assms by (auto simp: bit_eq_iff)
  then show thesis
    using that [of "Max ?S"] Max_in [OF fin] Max_ge [OF fin] bit_imp_le_length [of v "Max ?S"]
    by (metis leD mem_Collect_eq)
qed

definition covers :: "u32 \<Rightarrow> nat \<Rightarrow> u32 \<Rightarrow> bool" where
  "covers x m y \<longleftrightarrow> (\<forall>i. bit y i \<longleftrightarrow> (\<exists>d<m. bit x (i + d)))"

lemma smear_step:
  assumes "covers x m y" "n = m + m"
  shows "covers x n (y OR drop_bit m y)"
  unfolding covers_def
proof (intro allI iffI)
  fix i assume "bit (y OR drop_bit m y) i"
  then consider "bit y i" | "bit y (m + i)" by (auto simp: bit_simps)
  then show "\<exists>d<n. bit x (i + d)"
  proof cases
    case 1
    then obtain d where "d < m" "bit x (i + d)" using assms(1) unfolding covers_def by blast
    then show ?thesis using assms(2) by (intro exI [of _ d]) simp
  next
    case 2
    then obtain d where "d < m" "bit x (m + i + d)" using assms(1) unfolding covers_def by blast
    then show ?thesis using assms(2) by (intro exI [of _ "m + d"]) (simp add: ac_simps)
  qed
next
  fix i assume "\<exists>d<n. bit x (i + d)"
  then obtain d where d: "d < m + m" "bit x (i + d)" using assms(2) by blast
  show "bit (y OR drop_bit m y) i"
  proof (cases "d < m")
    case True
    then have "bit y i" using d assms(1) unfolding covers_def by blast
    then show ?thesis by (simp add: bit_simps)
  next
    case False
    then have "\<exists>e<m. bit x (m + i + e)" using d by (intro exI [of _ "d - m"]) (simp add: ac_simps)
    then have "bit y (m + i)" using assms(1) unfolding covers_def by blast
    then show ?thesis by (simp add: bit_simps)
  qed
qed

lemma smear_bit: "bit (smear x) i \<longleftrightarrow> (\<exists>d<32. bit x (i + d))"
proof -
  have "covers x 1 x" by (simp add: covers_def)
  from smear_step [OF smear_step [OF smear_step [OF smear_step [OF smear_step [OF this, of 2], of 4], of 8], of 16], of 32]
  have "covers x 32 (smear x)" by (simp add: smear_def Let_def)
  then show ?thesis by (simp add: covers_def)
qed

lemma smear_mask:
  assumes "bit x k" "\<And>j. k < j \<Longrightarrow> \<not> bit x j"
  shows "smear x = mask (Suc k)"
proof (rule word_eq_bits)
  fix i assume i: "i < LENGTH(32)"
  have k: "k < 32" using bit_imp_le_length [OF assms(1)] by simp
  show "bit (smear x) i = bit (mask (Suc k) :: u32) i"
  proof (cases "i \<le> k")
    case True
    then have "\<exists>d<32. bit x (i + d)" using assms(1) k by (intro exI [of _ "k - i"]) auto
    then show ?thesis using True i by (simp add: smear_bit bit_simps)
  next
    case False
    then show ?thesis using assms(2) by (auto simp: smear_bit bit_simps)
  qed
qed

lemma clz_table_ok:
  assumes "k < 32"
  shows "clz_table ! unat (drop_bit 27 (mask (Suc k) * 0x07c4acdd :: u32)) = 31 - k"
proof -
  have "\<forall>k\<in>set [0..<32]. clz_table ! unat (drop_bit 27 (mask (Suc k) * 0x07c4acdd :: u32)) = 31 - k"
    by (simp add: upt_rec clz_table_def mask_eq_exp_minus_1)
  then show ?thesis using assms by auto
qed

lemma clz32_lookup_ok: "x \<noteq> 0 \<Longrightarrow> clz32_lookup x = count_leading_zeroes x"
proof -
  assume "x \<noteq> 0"
  then obtain k where k: "bit x k" "k < 32" "\<And>j. k < j \<Longrightarrow> \<not> bit x j" using top_bit [of x] by auto
  have "smear x = mask (Suc k)" using k(1,3) by (rule smear_mask)
  moreover have "bit_length 32 x = Suc k" using k by (intro bit_length_top) auto
  ultimately show ?thesis using clz_table_ok [OF k(2)] by (simp add: clz32_lookup_def count_leading_zeroes_def)
qed

text \<open>
  The table look-up for compilers without a builtin counts the leading zeroes of every
  word but 0; for 0 it answers 31, where the other branches answer 32.
\<close>

theorem clz_lookup_counts_zeroes:
  "clz32_lookup x = (if x = 0 then 31 else count_leading_zeroes x) \<and> count_leading_zeroes (0 :: u32) = 32"
proof -
  have "bit_length n (0 :: u32) = 0" for n by (induction n) auto
  moreover have "clz32_lookup 0 = 31" by (simp add: clz32_lookup_def smear_def clz_table_def Let_def)
  ultimately show ?thesis using clz32_lookup_ok by (simp add: count_leading_zeroes_def)
qed

section \<open>Byte order reversed\<close>

lemma bit_word_byte: "bit (word_byte j v) i \<longleftrightarrow> i < 8 \<and> bit v (8 * j + i)"
  by (simp add: word_byte_def bit_simps)

lemma bit_byte_at: "bit (push_bit (8 * k) (word_byte j v)) i \<longleftrightarrow>
    i < LENGTH('a) \<and> i div 8 = k \<and> bit v (8 * j + i mod 8)" for v :: "'a::len word"
proof -
  have range: "8 * k \<le> i \<and> i - 8 * k < 8 \<longleftrightarrow> i div 8 = k"
  proof
    assume "8 * k \<le> i \<and> i - 8 * k < 8"
    then show "i div 8 = k" by (intro div_nat_eqI) auto
  next
    assume "i div 8 = k"
    then show "8 * k \<le> i \<and> i - 8 * k < 8" using mult_div_mod_eq [of 8 i] mod_less_divisor [of 8 i] by linarith
  qed
  have off: "i div 8 = k \<Longrightarrow> i - 8 * k = i mod 8" by (simp add: minus_mult_div_eq_mod [symmetric])
  have "bit (push_bit (8 * k) (word_byte j v)) i \<longleftrightarrow>
      i < LENGTH('a) \<and> (8 * k \<le> i \<and> i - 8 * k < 8) \<and> bit v (8 * j + (i - 8 * k))"
    by (simp only: bit_push_bit_iff bit_word_byte possible_bit_word) blast
  then show ?thesis unfolding range using off by metis
qed

lemma reverse32_bit: "bit (reverse_byte_order32 v) i \<longleftrightarrow> i < 32 \<and> bit v (8 * (3 - i div 8) + i mod 8)"
proof -
  note b = bit_byte_at [of 0 3 v i, simplified] bit_byte_at [of 1 2 v i, simplified]
    bit_byte_at [of 2 1 v i, simplified] bit_byte_at [of 3 0 v i, simplified]
  consider "\<not> i < 32" | "i < 32" "i div 8 = 0" | "i < 32" "i div 8 = 1" | "i < 32" "i div 8 = 2" | "i < 32" "i div 8 = 3"
    by linarith
  then show ?thesis by cases (simp_all add: reverse_byte_order32_def bit_or_iff b del: div_eq_0_iff)
qed

lemma reverse64_bit: "bit (reverse_byte_order64 v) i \<longleftrightarrow> i < 64 \<and> bit v (8 * (7 - i div 8) + i mod 8)"
proof -
  note b = bit_byte_at [of 0 7 v i, simplified] bit_byte_at [of 1 6 v i, simplified]
    bit_byte_at [of 2 5 v i, simplified] bit_byte_at [of 3 4 v i, simplified] bit_byte_at [of 4 3 v i, simplified]
    bit_byte_at [of 5 2 v i, simplified] bit_byte_at [of 6 1 v i, simplified] bit_byte_at [of 7 0 v i, simplified]
  consider "\<not> i < 64" | "i < 64" "i div 8 = 0" | "i < 64" "i div 8 = 1" | "i < 64" "i div 8 = 2" | "i < 64" "i div 8 = 3"
    | "i < 64" "i div 8 = 4" | "i < 64" "i div 8 = 5" | "i < 64" "i div 8 = 6" | "i < 64" "i div 8 = 7"
    by linarith
  then show ?thesis by cases (simp_all add: reverse_byte_order64_def bit_or_iff b del: div_eq_0_iff)
qed

lemma flip_position:
  fixes i n :: nat
  assumes "i < 8 * n"
  shows "(8 * (n - 1 - i div 8) + i mod 8) div 8 = n - 1 - i div 8"
    "(8 * (n - 1 - i div 8) + i mod 8) mod 8 = i mod 8" "8 * (n - 1 - i div 8) + i mod 8 < 8 * n"
    "8 * (n - 1 - (n - 1 - i div 8)) + i mod 8 = i"
proof -
  show "(8 * (n - 1 - i div 8) + i mod 8) div 8 = n - 1 - i div 8"
    "(8 * (n - 1 - i div 8) + i mod 8) mod 8 = i mod 8" by simp_all
  have q: "i div 8 < n" using assms by (simp add: less_mult_imp_div_less mult.commute)
  then have "n - 1 - (n - 1 - i div 8) = i div 8" by simp
  then show "8 * (n - 1 - (n - 1 - i div 8)) + i mod 8 = i" by simp
  have "n - 1 - i div 8 \<le> n - 1" by simp
  then show "8 * (n - 1 - i div 8) + i mod 8 < 8 * n" using q mod_less_divisor [of 8 i] by linarith
qed

text \<open>
  Converting a value to big endian and back gives the value, for both widths, and the
  most significant byte of the value becomes the first one in memory.
\<close>

theorem big_endian_roundtrip:
  "big_endian_to_host32 (host_to_big_endian32 v) = v \<and> big_endian_to_host64 (host_to_big_endian64 w) = w \<and>
   word_byte 0 (host_to_big_endian32 v) = word_byte 3 v \<and> word_byte 0 (host_to_big_endian64 w) = word_byte 7 w"
proof (intro conjI)
  show "big_endian_to_host32 (host_to_big_endian32 v) = v"
    unfolding big_endian_to_host32_def host_to_big_endian32_def
    by (rule word_eq_bits) (use flip_position [of _ 4] in \<open>simp add: reverse32_bit\<close>)
  show "big_endian_to_host64 (host_to_big_endian64 w) = w"
    unfolding big_endian_to_host64_def host_to_big_endian64_def
    by (rule word_eq_bits) (use flip_position [of _ 8] in \<open>simp add: reverse64_bit\<close>)
  show "word_byte 0 (host_to_big_endian32 v) = word_byte 3 v"
    unfolding host_to_big_endian32_def by (rule word_eq_bits) (auto simp: bit_word_byte reverse32_bit)
  show "word_byte 0 (host_to_big_endian64 w) = word_byte 7 w"
    unfolding host_to_big_endian64_def by (rule word_eq_bits) (auto simp: bit_word_byte reverse64_bit)
qed

section \<open>CRC32 against the bitwise definition\<close>

text \<open>The reflected CRC-32, one bit at a time, with its register complemented at both ends.\<close>

definition crc_ref_step :: "u32 \<Rightarrow> u32" where
  "crc_ref_step r = (if bit r 0 then 0xEDB88320 else 0) XOR drop_bit 1 r"

definition crc_ref_byte :: "8 word \<Rightarrow> u32 \<Rightarrow> u32" where
  "crc_ref_byte b r = (crc_ref_step ^^ 8) (r XOR ucast b)"

lemma crc_ref_step_xor: "crc_ref_step (x XOR y) = crc_ref_step x XOR crc_ref_step y"
  by (intro bit_word_eqI) (auto simp: crc_ref_step_def bit_simps)

lemma crc_ref_steps_xor: "(crc_ref_step ^^ n) (x XOR y) = (crc_ref_step ^^ n) x XOR (crc_ref_step ^^ n) y"
  by (induction n) (simp_all add: crc_ref_step_xor)

lemma crc_step_ref: "crc_step r = crc_ref_step r XOR 0xEDB88320"
  by (intro bit_word_eqI) (auto simp: crc_step_def crc_ref_step_def bit_xor_iff)

lemma crc_steps_ref: "(crc_step ^^ n) r = (crc_ref_step ^^ n) r XOR (crc_step ^^ n) 0"
proof (induction n)
  case (Suc n)
  then show ?case by (simp add: crc_step_ref crc_ref_step_xor xor.assoc)
qed simp

lemma crc_ref_steps_drop: "(\<And>i. i < n \<Longrightarrow> \<not> bit r i) \<Longrightarrow> (crc_ref_step ^^ n) r = drop_bit n r"
proof (induction n)
  case (Suc n)
  then have "\<not> bit (drop_bit n r) 0" by (auto simp: bit_simps)
  then show ?case using Suc by (simp add: crc_ref_step_def)
qed simp

lemma funpow_8: "(f ^^ 8) x = f (f (f (f (f (f (f (f x)))))))"
  by (simp add: numeral_eq_Suc)

lemma crc_constant: "(crc_step ^^ 8) 0 = (crc_ref_step ^^ 8) 0xFF"
  unfolding funpow_8 by (simp add: crc_step_def crc_ref_step_def)

lemma crc_ref_steps_byte: "(crc_ref_step ^^ 8) r = (crc_ref_step ^^ 8) (take_bit 8 r) XOR drop_bit 8 r"
proof -
  have "r = take_bit 8 r XOR push_bit 8 (drop_bit 8 r)"
    by (rule word_eq_bits) (auto simp: bit_simps)
  then have "(crc_ref_step ^^ 8) r = (crc_ref_step ^^ 8) (take_bit 8 r) XOR (crc_ref_step ^^ 8) (push_bit 8 (drop_bit 8 r))"
    using crc_ref_steps_xor [of 8 "take_bit 8 r" "push_bit 8 (drop_bit 8 r)"] by simp
  also have "(crc_ref_step ^^ 8) (push_bit 8 (drop_bit 8 r)) = drop_bit 8 (push_bit 8 (drop_bit 8 r))"
    by (rule crc_ref_steps_drop) (simp add: bit_simps)
  also have "\<dots> = drop_bit 8 r" by (rule word_eq_bits) (auto simp: bit_simps dest: bit_imp_le_length)
  finally show ?thesis .
qed

lemma crc_table_nth: "crc_table ! unat (b :: 8 word) = crc32_for_byte (ucast b)"
proof -
  have "unat b < 256" using unsigned_less [of b] by simp
  moreover have "(of_nat (unat b) :: u32) = ucast b" by (rule of_nat_unat)
  ultimately show ?thesis by (simp add: crc_table_def)
qed

text \<open>One byte: the code's register is the complement of the bitwise one.\<close>

lemma crc_byte_ref: "crc_byte b crc = NOT (crc_ref_byte b (NOT crc))"
proof -
  let ?g = "crc_ref_step ^^ 8" and ?A = "ucast (ucast crc XOR b :: 8 word) :: u32"
  have FF: "(0xFF :: u32) = mask 8" and F0: "(0xFF000000 :: u32) = NOT (mask 24)"
    by (simp_all add: mask_eq_exp_minus_1)
  have A: "take_bit 8 (NOT crc XOR ucast b) = ?A XOR mask 8"
    by (rule word_eq_bits) (auto simp: bit_simps dest: bit_imp_le_length)
  have D: "drop_bit 8 (NOT crc XOR ucast b) = drop_bit 8 crc XOR mask 24"
    by (rule word_eq_bits) (auto simp: bit_simps dest: bit_imp_le_length)
  have "crc_ref_byte b (NOT crc) = ?g (?A XOR mask 8) XOR (drop_bit 8 crc XOR mask 24)"
    unfolding crc_ref_byte_def crc_ref_steps_byte [of "NOT crc XOR ucast b"] A D ..
  also have "\<dots> = (?g ?A XOR ?g (mask 8)) XOR (drop_bit 8 crc XOR mask 24)"
    by (simp only: crc_ref_steps_xor)
  finally have ref: "crc_ref_byte b (NOT crc) = (?g ?A XOR ?g (mask 8)) XOR (drop_bit 8 crc XOR mask 24)" .
  have "crc_byte b crc = ((?g ?A XOR ?g (mask 8)) XOR NOT (mask 24)) XOR drop_bit 8 crc"
    unfolding crc_byte_def crc_table_nth crc32_for_byte_def crc_steps_ref [of 8 ?A] crc_constant FF F0 ..
  then show ?thesis unfolding ref by (simp add: xor.assoc xor.commute xor.left_commute)
qed

lemma crc_loop_ref:
  "bs \<noteq> [] \<Longrightarrow> crc_loop (bs @ rest) (length bs) crc = Inr (NOT (fold crc_ref_byte bs (NOT crc)))"
proof (induction bs arbitrary: crc)
  case (Cons b bs)
  then show ?case
    by (cases bs) (simp_all add: Let_def crc_byte_ref)
qed simp

lemma crc_loop_empty: "crc_loop mem 0 crc = Inl BadAccess"
  by (induction mem arbitrary: crc) (simp_all add: Let_def)

text \<open>
  C40: adding bytes to a \<^verbatim>\<open>CRC32\<close> gives the complement of what the bitwise reflected
  CRC-32 makes of the complemented value: starting from 0, the standard checksum; adding in
  pieces gives the checksum of the whole.  Adding no bytes reads past the end of the data.
\<close>

theorem crc_table_equals_bitwise:
  "crc_add (bs @ rest) (length bs) crc =
    (if bs = [] then Inl BadAccess else Inr (NOT (fold crc_ref_byte bs (NOT crc))))"
  using crc_loop_ref [of bs rest crc] crc_loop_empty by (simp add: crc_add_def)

section \<open>Hashes without collisions\<close>

lemma drop_bit_fixed: "0 < s \<Longrightarrow> drop_bit s d = d \<Longrightarrow> d = (0 :: 'a::len word)"
proof -
  assume s: "0 < s" "drop_bit s d = d"
  have "bit d i = bit d (i + n * s)" for i n
  proof (induction n)
    case (Suc n)
    have "bit d (i + n * s) = bit (drop_bit s d) (i + n * s)" using s(2) by simp
    also have "\<dots> = bit d (i + Suc n * s)" by (simp add: bit_drop_bit_eq ac_simps)
    finally show ?case using Suc by simp
  qed simp
  moreover have "\<not> bit d (i + LENGTH('a) * s)" for i
  proof -
    have "LENGTH('a) * 1 \<le> LENGTH('a) * s" using s(1) by (intro mult_le_mono2) simp
    then show ?thesis using bit_imp_le_length [of d "i + LENGTH('a) * s"] by linarith
  qed
  ultimately show ?thesis by (auto simp: bit_eq_iff)
qed

lemma xor_drop_inj:
  assumes "0 < s" "x XOR drop_bit s x = y XOR drop_bit s y"
  shows "x = (y :: 'a::len word)"
proof -
  have "drop_bit s (x XOR y) = x XOR y"
    using assms(2) by (auto simp: bit_eq_iff bit_simps)
  then have "x XOR y = 0" by (rule drop_bit_fixed [OF assms(1)])
  then show ?thesis by (auto simp: bit_eq_iff bit_simps)
qed

lemma mult_inj: "c * d = 1 \<Longrightarrow> x * c = y * c \<Longrightarrow> x = (y :: 'a::len word)"
  by (metis mult.assoc mult.right_neutral)

lemma hash32_inj: "hash32 x = hash32 y \<Longrightarrow> x = y"
proof -
  assume eq: "hash32 x = hash32 y"
  define a where "a z = z XOR drop_bit 16 z" for z :: u32
  define b where "b z = z XOR drop_bit 13 z" for z :: u32
  have h: "hash32 z = a (b (a z * 0x85ebca6b) * 0xc2b2ae35)" for z by (simp add: hash32_def Let_def a_def b_def)
  have ab: "a z = a w \<Longrightarrow> z = w" "b z = b w \<Longrightarrow> z = w" for z w
    unfolding a_def b_def by (erule xor_drop_inj [rotated], simp)+
  have "b (a x * 0x85ebca6b) = b (a y * 0x85ebca6b)"
    using mult_inj [of "0xc2b2ae35" "0x7ed1b41d" "b (a x * 0x85ebca6b)"] ab(1) eq by (simp add: h)
  then have "a x = a y" using mult_inj [of "0x85ebca6b" "0xa5cb9243" "a x"] ab(2) by simp
  then show ?thesis by (rule ab(1))
qed

lemma hash64_inj: "hash64 x = hash64 y \<Longrightarrow> x = y"
proof -
  assume eq: "hash64 x = hash64 y"
  define a where "a z = z XOR drop_bit 33 z" for z :: u64
  have h: "hash64 z = a (a (a z * 0xff51afd7ed558ccd) * 0xc4ceb9fe1a85ec53)" for z
    by (simp add: hash64_def Let_def a_def)
  have inj: "a z = a w \<Longrightarrow> z = w" for z w unfolding a_def by (erule xor_drop_inj [rotated], simp)
  have "a (a x * 0xff51afd7ed558ccd) = a (a y * 0xff51afd7ed558ccd)"
    using mult_inj [of "0xc4ceb9fe1a85ec53" "0x9cb4b2f8129337db" "a (a x * 0xff51afd7ed558ccd)"] inj eq by (simp add: h)
  then have "a x = a y" using mult_inj [of "0xff51afd7ed558ccd" "0x4f74430c22a54005" "a x"] inj by simp
  then show ?thesis by (rule inj)
qed

lemma hasher32_high: "hasher32 key = hasher32 key' \<Longrightarrow> hash32 key = hash32 key'"
proof -
  assume eq: "hasher32 key = hasher32 key'"
  have "drop_bit 32 (hasher32 k) = ucast (hash32 k)" for k
    by (rule word_eq_bits) (auto simp: hasher32_def Let_def bit_simps dest: bit_imp_le_length)
  with eq have u: "(ucast (hash32 key) :: u64) = ucast (hash32 key')" by metis
  show ?thesis
  proof (rule word_eq_bits)
    fix i assume "i < LENGTH(32)"
    then show "bit (hash32 key) i = bit (hash32 key') i"
      using arg_cong [OF u, of "\<lambda>w. bit w i"] by (simp add: bit_simps)
  qed
qed

text \<open>
  The hashes of 32-bit and 64-bit keys have no collisions: \<^verbatim>\<open>Hash32\<close> and
  \<^verbatim>\<open>Hash64\<close> are bijections, and \<^verbatim>\<open>Hasher<uint32_t>\<close> is injective.
\<close>

theorem integer_hashes_injective: "bij hash32 \<and> bij hash64 \<and> inj hasher32 \<and> inj hasher64"
proof -
  have 1: "inj hash32" by (rule injI) (rule hash32_inj)
  have 2: "inj hash64" by (rule injI) (rule hash64_inj)
  have 3: "inj hasher32" by (rule injI) (rule hash32_inj, rule hasher32_high)
  have 4: "inj hasher64" using 2 by (simp add: inj_def hasher64_def)
  have bij: "bij f" if "inj f" for f :: "'a::len word \<Rightarrow> 'a word"
    using that finite_UNIV_inj_surj [OF finite] by (simp add: bij_def)
  show ?thesis using bij [OF 1] bij [OF 2] 3 4 by blast
qed

section \<open>The random generator\<close>

lemma rotl_0: "0 < k \<Longrightarrow> k < 64 \<Longrightarrow> rotl x k = 0 \<longleftrightarrow> x = 0"
proof
  assume k: "0 < k" "k < 64" and z: "rotl x k = 0"
  show "x = 0"
  proof (rule word_eq_bits)
    fix i assume i: "i < LENGTH(64)"
    have "\<not> bit (rotl x k) ((i + k) mod 64)" using z by simp
    moreover have "bit x i \<Longrightarrow> bit (rotl x k) ((i + k) mod 64)"
    proof (cases "i + k < 64")
      case True
      then show "bit x i \<Longrightarrow> ?thesis" by (simp add: rotl_def bit_simps)
    next
      case False
      then have "(i + k) mod 64 = i + k - 64" using i k by (simp add: mod_if)
      moreover have "64 - k + (i + k - 64) = i" using False k by simp
      ultimately show "bit x i \<Longrightarrow> ?thesis" using k by (simp add: rotl_def bit_simps)
    qed
    ultimately have "\<not> bit x i" by blast
    then show "bit x i = bit 0 i" by simp
  qed
qed (simp add: rotl_def)

text \<open>
  The generator never reaches the state of all zeroes, the only one it must avoid; but
  its assertions also reject states with one zero word, which it reaches: two equal words in
  the state make the call after the next fail.
\<close>

theorem random_asserts_on_valid_state:
  "(case xoroshiro128_plus s of Inl e \<Rightarrow> fst s = 0 \<or> snd s = 0 | Inr (x, s') \<Rightarrow> s' \<noteq> (0, 0)) \<and>
   (w \<noteq> 0 \<longrightarrow> (case xoroshiro128_plus (w, w) of Inl e \<Rightarrow> False
     | Inr (x, s') \<Rightarrow> xoroshiro128_plus s' = Inl AssertFail))"
proof -
  obtain a b where s: "s = (a, b)" by force
  have "rotl a 55 XOR (b XOR a) XOR push_bit 14 (b XOR a) \<noteq> 0 \<or> rotl (b XOR a) 36 \<noteq> 0" if "a \<noteq> 0"
  proof (cases "b XOR a = 0")
    case True
    then show ?thesis using that rotl_0 [of 55 a] by simp
  next
    case False
    then show ?thesis using rotl_0 [of 36 "b XOR a"] by simp
  qed
  then show ?thesis
    by (auto simp: s xoroshiro128_plus_def assertR_def Let_def rotl_0)
qed

section \<open>The square root\<close>

declare isqrt_loop.simps [simp del]

text \<open>
  With \<open>n\<close> rounds left, \<open>y\<close> is the root found so far and \<open>b = 4 ^ (n - 1)\<close>.
\<close>

lemma isqrt_loop_ok:
  assumes "y + 2 ^ n \<le> 2 ^ 16" "y * y \<le> v" "unat r = v - y * y" "unat q = y * 2 ^ n" "v < 2 ^ 64"
    "unat b = (if n = 0 then 0 else 4 ^ (n - 1))"
    "if v < 2 ^ 32 then v < (y + 2 ^ n) * (y + 2 ^ n) else y + 2 ^ n = 2 ^ 16"
  shows "unat (isqrt_loop r q b) * unat (isqrt_loop r q b) \<le> v \<and>
    (if v < 2 ^ 32 then v < (unat (isqrt_loop r q b) + 1) * (unat (isqrt_loop r q b) + 1)
     else unat (isqrt_loop r q b) = 65535)"
  using assms
proof (induction n arbitrary: y r q b)
  case 0
  then have "b = 0" by (simp add: word_unat_eq_iff)
  then show ?case using 0 by (simp add: isqrt_loop.simps split: if_splits)
next
  case (Suc m)
  define p :: nat where "p = 2 ^ m"
  have pp: "p * p = 4 ^ m" unfolding p_def by (simp add: power_mult_distrib [symmetric])
  have p2: "2 ^ Suc m = 2 * p" by (simp add: p_def)
  have bound: "y + 2 * p \<le> 65536" using Suc.prems(1) p2 by simp
  have b: "unat b = p * p" using Suc.prems(6) pp by simp
  have "0 < p" by (simp add: p_def)
  then have b0: "0 < b" using b by (simp add: word_less_nat_alt)
  have sq: "(y + p) * (y + p) = y * y + (y * (2 * p) + p * p)" by algebra
  have yp: "(y + p) * (y + p) < 65536 * 65536"
    using bound \<open>0 < p\<close> by (intro mult_strict_mono) auto
  have t: "unat (q + b) = y * (2 * p) + p * p"
    using Suc.prems(4) b p2 yp sq by (subst unat_word_ariths) simp
  have q2: "unat (drop_bit 1 q) = y * p"
    using Suc.prems(4) p2 by (subst unat_drop_bit_eq) (simp add: drop_bit_Suc drop_bit_eq_div)
  have b4: "unat (drop_bit 2 b) = (if m = 0 then 0 else 4 ^ (m - 1))"
  proof -
    have "unat (drop_bit 2 b) = 4 ^ m div 4" using b pp by (subst unat_drop_bit_eq) (simp add: drop_bit_eq_div)
    then show ?thesis by (cases m) simp_all
  qed
  have le: "q + b \<le> r \<longleftrightarrow> (y + p) * (y + p) \<le> v"
    using Suc.prems(2,3) t sq by (auto simp: word_le_nat_alt)
  show ?case
  proof (cases "(y + p) * (y + p) \<le> v")
    case True
    have step: "isqrt_loop r q b = isqrt_loop (r - (q + b)) (drop_bit 1 q + b) (drop_bit 2 b)"
      using True le b0 by (subst isqrt_loop.simps) (simp add: Let_def)
    show ?thesis unfolding step
    proof (rule Suc.IH)
      show "y + p + 2 ^ m \<le> 2 ^ 16" using bound by (simp add: p_def [symmetric])
      show "unat (r - (q + b)) = v - (y + p) * (y + p)"
        using True le t Suc.prems(3) sq by (simp add: unat_sub)
      have "y * p + p * p < 2 ^ 64" using yp sq by simp
      then show "unat (drop_bit 1 q + b) = (y + p) * 2 ^ m"
        using q2 b by (subst unat_word_ariths) (simp add: p_def [symmetric] distrib_right)
      show "if v < 2 ^ 32 then v < (y + p + 2 ^ m) * (y + p + 2 ^ m) else y + p + 2 ^ m = 2 ^ 16"
        using Suc.prems(7) by (simp only: p2 p_def [symmetric] mult_2 add.assoc)
    qed (use True Suc.prems(5) b4 in auto)
  next
    case False
    have step: "isqrt_loop r q b = isqrt_loop r (drop_bit 1 q) (drop_bit 2 b)"
      using False le b0 by (subst isqrt_loop.simps) (simp add: Let_def)
    have small: "v < 2 ^ 32" using False yp by simp
    show ?thesis unfolding step
    proof (rule Suc.IH)
      show "y + 2 ^ m \<le> 2 ^ 16" using bound by (simp add: p_def [symmetric])
      show "unat (drop_bit 1 q) = y * 2 ^ m" using q2 by (simp add: p_def)
      show "if v < 2 ^ 32 then v < (y + 2 ^ m) * (y + 2 ^ m) else y + 2 ^ m = 2 ^ 16"
        using False small by (simp add: p_def [symmetric])
    qed (use Suc.prems(2,3,5) b4 in auto)
  qed
qed

text \<open>
  \<^verbatim>\<open>sqrt(uint64_t)\<close> is the integer square root of every value below \<open>2 ^ 32\<close>; above
  that, although the type has 64 bits, it answers 65535 for every value.
\<close>

theorem isqrt_is_root_below_2_32:
  "unat (isqrt v) * unat (isqrt v) \<le> unat v \<and>
   (if unat v < 2 ^ 32 then unat v < (unat (isqrt v) + 1) * (unat (isqrt v) + 1) else isqrt v = 65535)"
proof -
  have "unat v < 2 ^ 64" using unsigned_less [of v] by simp
  then have "unat (isqrt v) * unat (isqrt v) \<le> unat v \<and>
    (if unat v < 2 ^ 32 then unat v < (unat (isqrt v) + 1) * (unat (isqrt v) + 1) else unat (isqrt v) = 65535)"
    unfolding isqrt_def by (intro isqrt_loop_ok [of 0 16]) auto
  then show ?thesis by (auto simp: word_unat_eq_iff split: if_splits)
qed

end
