(* ===== verification/Fractions.thy ===== *)
theory Fractions
  imports Prelude
begin

text \<open>
  \<^verbatim>\<open>ion/util/Fraction.h\<close> for \<^verbatim>\<open>Fraction32\<close> (with \<^verbatim>\<open>Wider.h\<close>), and the
  wrapped counting of \<^verbatim>\<open>ion/util/Math.h\<close>.

  A numerator is an \<open>int\<close> in the range of \<^verbatim>\<open>int32_t\<close>, a denominator a \<open>nat\<close> below
  \<open>2 ^ 32\<close>; \<open>to_i32\<close> and \<open>to_u32\<close> are the conversions to those types.  Products of the
  two are computed in 64 bits where the code widens them and in 32 bits where it does not.
  Signed overflow of a sum wraps, as the compiled code does.
\<close>

record fraction =
  fr_num :: int
  fr_den :: nat

definition to_i32 :: "int \<Rightarrow> int" where
  "to_i32 x = (x + 2 ^ 31) mod 2 ^ 32 - 2 ^ 31"

definition to_u32 :: "int \<Rightarrow> nat" where
  "to_u32 x = nat (x mod 2 ^ 32)"

definition i32_max :: int where
  "i32_max = 2 ^ 31 - 1"

definition fraction_ok :: "fraction \<Rightarrow> bool" where
  "fraction_ok f \<longleftrightarrow> - (2 ^ 31) \<le> fr_num f \<and> fr_num f < 2 ^ 31 \<and> 0 < fr_den f \<and> fr_den f < 2 ^ 32"

text \<open>The loop of the product: both sides are halved until they fit.\<close>

function halve_until_fit :: "int \<Rightarrow> nat \<Rightarrow> int \<times> nat" where
  "halve_until_fit num den =
    (if i32_max \<le> num \<or> i32_max \<le> int den then halve_until_fit (num div 2) (den div 2) else (num, den))"
  by auto

termination
proof (relation "measure (\<lambda>(num, den). nat num + den)")
  fix num :: int and den :: nat
  assume "i32_max \<le> num \<or> i32_max \<le> int den"
  then have "0 < num \<or> 0 < den" by (auto simp: i32_max_def)
  then have "nat (num div 2) + den div 2 < nat num + den"
  proof
    assume n: "0 < num"
    then have "nat (num div 2) < nat num" by simp
    then show ?thesis using div_le_dividend [of den 2] by linarith
  next
    assume "0 < den"
    then have "den div 2 < den" by simp
    moreover have "nat (num div 2) \<le> nat num" by (simp add: nat_div_distrib' div_le_dividend)
    ultimately show ?thesis by linarith
  qed
  then show "((num div 2, den div 2), num, den) \<in> measure (\<lambda>(num, den). nat num + den)" by simp
qed simp

declare halve_until_fit.simps [simp del]

definition fraction_mult :: "fraction \<Rightarrow> fraction \<Rightarrow> fraction" where
  "fraction_mult l r =
    (if fr_num r = 0 \<or> fr_num l = 0 then \<lparr>fr_num = 0, fr_den = 1\<rparr>
     else let (num, den) = halve_until_fit (fr_num l * fr_num r) (fr_den l * fr_den r) in
       \<lparr>fr_num = to_i32 num, fr_den = to_u32 (int den)\<rparr>)"

definition fraction_add :: "fraction \<Rightarrow> fraction \<Rightarrow> fraction res" where
  "fraction_add l r =
    (if fr_den l \<noteq> fr_den r
     then let l = fraction_mult l \<lparr>fr_num = 1, fr_den = fr_den r\<rparr>;
              r = fraction_mult r \<lparr>fr_num = 1, fr_den = fr_den l\<rparr> in
       assertR (fr_den l = fr_den r) (Inr \<lparr>fr_num = to_i32 (fr_num l + fr_num r), fr_den = fr_den l\<rparr>)
     else Inr \<lparr>fr_num = to_i32 (fr_num l + fr_num r), fr_den = fr_den l\<rparr>)"

text \<open>A product of a numerator and a denominator is unsigned.\<close>

definition fraction_div :: "fraction \<Rightarrow> fraction \<Rightarrow> fraction" where
  "fraction_div l r =
    \<lparr>fr_num = to_i32 (int (to_u32 (fr_num l * int (fr_den r)))),
     fr_den = to_u32 (fr_num r * int (fr_den l))\<rparr>"

definition incr_wrapped :: "int \<Rightarrow> int \<Rightarrow> int res" where
  "incr_wrapped value bound =
    assertR (value < bound) (assertR (0 < bound)
      (let temp = value + 1 in Inr (if temp < bound then temp else 0)))"

definition decr_wrapped :: "int \<Rightarrow> int \<Rightarrow> int res" where
  "decr_wrapped value bound =
    assertR (value < bound) (assertR (0 < bound)
      (let temp = (if 0 < value then value else bound) in Inr (temp - 1)))"

text \<open>\<^verbatim>\<open>Math::WrappedDelta\<close> over integers: the shorter way around a ring of \<open>2 * bound\<close>.\<close>

definition wrapped_delta :: "int \<Rightarrow> int \<Rightarrow> int \<Rightarrow> int" where
  "wrapped_delta a b bound =
    (let delta = a - b in
     if 0 < delta
     then if delta \<le> bound then delta else - (bound * 2 - delta)
     else if - bound \<le> delta then delta else bound * 2 + delta)"

definition clamp :: "int \<Rightarrow> int \<Rightarrow> int \<Rightarrow> int res" where
  "clamp value low high =
    assertR (low \<le> high) (Inr (if value < low then low else if high < value then high else value))"

section \<open>Lemmas\<close>

lemma to_i32_id: "- (2 ^ 31) \<le> x \<Longrightarrow> x < 2 ^ 31 \<Longrightarrow> to_i32 x = x"
  by (simp add: to_i32_def)

lemma to_u32_id: "0 \<le> x \<Longrightarrow> x < 2 ^ 32 \<Longrightarrow> to_u32 x = nat x"
  by (simp add: to_u32_def)

lemma halve_fits: "num < i32_max \<Longrightarrow> int den < i32_max \<Longrightarrow> halve_until_fit num den = (num, den)"
  by (simp add: halve_until_fit.simps)

lemma halve_shift: "\<exists>k. halve_until_fit num den = (num div 2 ^ k, den div 2 ^ k)"
proof (induction num den rule: halve_until_fit.induct)
  case (1 num den)
  show ?case
  proof (cases "i32_max \<le> num \<or> i32_max \<le> int den")
    case True
    then obtain k where "halve_until_fit (num div 2) (den div 2) = (num div 2 div 2 ^ k, den div 2 div 2 ^ k)"
      using 1 by blast
    then have "halve_until_fit num den = (num div 2 ^ Suc k, den div 2 ^ Suc k)"
      using True by (subst halve_until_fit.simps) (simp add: zdiv_zmult2_eq div_mult2_eq)
    then show ?thesis by blast
  qed (auto simp: halve_until_fit.simps intro: exI [of _ 0])
qed

lemma halve_small: "fst (halve_until_fit num den) < i32_max \<and> int (snd (halve_until_fit num den)) < i32_max"
proof (induction num den rule: halve_until_fit.induct)
  case (1 num den)
  then show ?case by (subst halve_until_fit.simps, subst halve_until_fit.simps) (auto simp: not_le)
qed

lemma fraction_mult_exact:
  assumes "fr_num l \<noteq> 0" "fr_num r \<noteq> 0" "- (2 ^ 31) \<le> fr_num l * fr_num r" "fr_num l * fr_num r < i32_max"
    "int (fr_den l * fr_den r) < i32_max"
  shows "fraction_mult l r = \<lparr>fr_num = fr_num l * fr_num r, fr_den = fr_den l * fr_den r\<rparr>"
proof -
  have "to_i32 (fr_num l * fr_num r) = fr_num l * fr_num r" using assms by (intro to_i32_id) (simp_all add: i32_max_def)
  moreover have "to_u32 (int (fr_den l * fr_den r)) = fr_den l * fr_den r"
    using assms(5) by (subst to_u32_id) (simp_all add: i32_max_def del: of_nat_mult)
  ultimately show ?thesis using assms by (simp add: fraction_mult_def halve_fits del: of_nat_mult)
qed

text \<open>
  The sum of two fractions with different denominators is never computed: unless the right
  denominator is 1 the assertion fails, because the second factor is taken from the changed left
  side, and with 1 the right numerator is added as it is, although the denominator is the left
  one.  Hypotheses: no numerator is 0 and the products fit.
\<close>

theorem fraction_add_unequal_denominators:
  assumes "fraction_ok l" "fraction_ok r" "fr_den l \<noteq> fr_den r" "fr_num l \<noteq> 0" "fr_num r \<noteq> 0"
    "fr_num l < i32_max" "fr_num r < i32_max" "int (fr_den l * fr_den r * fr_den r) < i32_max"
  shows "fraction_add l r =
    (if fr_den r = 1 then Inr \<lparr>fr_num = to_i32 (fr_num l + fr_num r), fr_den = fr_den l\<rparr> else Inl AssertFail)"
proof -
  have d: "0 < fr_den l" "0 < fr_den r" using assms(1,2) by (auto simp: fraction_ok_def)
  have "fr_den l * fr_den r * 1 \<le> fr_den l * fr_den r * fr_den r" using d by (intro mult_le_mono2) simp
  then have small: "int (fr_den l * fr_den r) < i32_max" using assms(8) by linarith
  have l: "fraction_mult l \<lparr>fr_num = 1, fr_den = fr_den r\<rparr> = \<lparr>fr_num = fr_num l, fr_den = fr_den l * fr_den r\<rparr>"
    using fraction_mult_exact [of l "\<lparr>fr_num = 1, fr_den = fr_den r\<rparr>"] assms(1,4,6) small by (simp add: fraction_ok_def)
  have r: "fraction_mult r \<lparr>fr_num = 1, fr_den = fr_den l * fr_den r\<rparr> =
      \<lparr>fr_num = fr_num r, fr_den = fr_den r * (fr_den l * fr_den r)\<rparr>"
    using fraction_mult_exact [of r "\<lparr>fr_num = 1, fr_den = fr_den l * fr_den r\<rparr>"] assms(2,5,7,8)
    by (simp add: fraction_ok_def ac_simps)
  show ?thesis
    using assms(3) d l r by (auto simp: fraction_add_def Let_def assertR_def)
qed

lemma fraction_add_unequal_denominators_witness:
  "fraction_add \<lparr>fr_num = 1, fr_den = 2\<rparr> \<lparr>fr_num = 1, fr_den = 3\<rparr> = Inl AssertFail \<and>
   fraction_add \<lparr>fr_num = 1, fr_den = 2\<rparr> \<lparr>fr_num = 1, fr_den = 1\<rparr> = Inr \<lparr>fr_num = 2, fr_den = 2\<rparr>"
  using fraction_add_unequal_denominators [of "\<lparr>fr_num = 1, fr_den = 2\<rparr>" "\<lparr>fr_num = 1, fr_den = 3\<rparr>"]
    fraction_add_unequal_denominators [of "\<lparr>fr_num = 1, fr_den = 2\<rparr>" "\<lparr>fr_num = 1, fr_den = 1\<rparr>"]
  by (simp add: fraction_ok_def i32_max_def to_i32_def)

text \<open>
  Multiplying two whole numbers whose product does not fit halves the denominator 1 to 0.
\<close>

theorem fraction_mult_zero_denominator:
  assumes "0 < a" "0 < b" "i32_max \<le> a * b"
  shows "fr_den (fraction_mult \<lparr>fr_num = a, fr_den = 1\<rparr> \<lparr>fr_num = b, fr_den = 1\<rparr>) = 0"
proof -
  obtain k where k: "halve_until_fit (a * b) 1 = (a * b div 2 ^ k, 1 div 2 ^ k)" using halve_shift by blast
  have "k \<noteq> 0" using halve_small [of "a * b" 1] k assms(3) by (cases "k = 0") auto
  then have "halve_until_fit (a * b) 1 = (a * b div 2 ^ k, 0)" using k one_less_power [of "2 :: nat" k] by (simp add: div_less)
  then show ?thesis using assms(1,2) by (simp add: fraction_mult_def to_u32_def)
qed

text \<open>Dividing by a negative fraction gives a denominator near \<open>2 ^ 32\<close>.\<close>

theorem fraction_div_negative:
  assumes "fraction_ok l" "fraction_ok r" "fr_num r < 0" "- (fr_num r * int (fr_den l)) < 2 ^ 32"
  shows "int (fr_den (fraction_div l r)) = 2 ^ 32 + fr_num r * int (fr_den l)"
proof -
  have "0 < - (fr_num r) * int (fr_den l)"
    using assms(1,3) by (intro mult_pos_pos) (auto simp: fraction_ok_def)
  then have "(fr_num r * int (fr_den l)) mod 2 ^ 32 = (fr_num r * int (fr_den l) + 2 ^ 32) mod 2 ^ 32"
    by (simp only: mod_add_self2)
  also have "\<dots> = fr_num r * int (fr_den l) + 2 ^ 32"
    by (rule mod_pos_pos_trivial) (use assms(4) \<open>0 < - (fr_num r) * int (fr_den l)\<close> in linarith)+
  finally show ?thesis using assms(4) by (simp add: fraction_div_def to_u32_def)
qed

text \<open>Counting with wrap-around stays in range, and the two directions undo each other.\<close>

lemma wrapped_counting:
  assumes "0 \<le> i" "i < n"
  shows "\<exists>j. incr_wrapped i n = Inr j \<and> 0 \<le> j \<and> j < n \<and> decr_wrapped j n = Inr i"
    "\<exists>j. decr_wrapped i n = Inr j \<and> 0 \<le> j \<and> j < n \<and> incr_wrapped j n = Inr i"
  using assms by (auto simp: incr_wrapped_def decr_wrapped_def assertR_def Let_def)

lemma wrapped_delta_short:
  assumes "0 < bound" "\<bar>a - b\<bar> < bound * 2"
  shows "\<bar>wrapped_delta a b bound\<bar> \<le> bound \<and>
    (wrapped_delta a b bound - (a - b)) mod (bound * 2) = 0"
  using assms by (auto simp: wrapped_delta_def Let_def abs_if split: if_splits)

end
