(* ===== verification/TemporaryPages.thy ===== *)
theory TemporaryPages
  imports GlobalMemory
begin

text \<open>
  \<^verbatim>\<open>temporary/TemporaryAllocator.h\<close> and \<^verbatim>\<open>TemporaryAllocator.cpp\<close>.

  A thread's pool is a chain of pages; allocations are taken from the current page one after the
  other and a page is used again when every byte taken from it has been released.  When no page
  has room the global allocator serves the request.  A page lives at an address and the pool's
  default page at the pool's own; the chain through \<^verbatim>\<open>mNextPage\<close>, the default page
  first, is the list \<open>tp_chain\<close>, empty once the pool has been deleted.  The header in front of
  the user's data is kept under the block's address.  The core and the global allocator are the
  owners 0 and 1 of the contract \<open>owned_sources\<close>.

  Here every operation is one step; \<^verbatim>\<open>TemporaryEnds\<close> takes the end of a thread and the releases
  of its blocks apart into the accesses of the source.
\<close>

section \<open>Pages\<close>

record bpage =
  bp_produced :: "32 word"
  bp_consumed :: "32 word"
  bp_pos :: "32 word"
  bp_lock :: bool
  bp_removing :: bool

definition new_page :: bpage where
  "new_page = \<lparr>bp_produced = 0, bp_consumed = 0, bp_pos = 0, bp_lock = False, bp_removing = False\<rparr>"

text \<open>\<^verbatim>\<open>MaxPageSize\<close> with cache lines of 64 bytes, and \<^verbatim>\<open>MaxPagesPerThread\<close>.\<close>

definition max_page_size :: nat where
  "max_page_size = 32 * 1024 - 64 * 3"

definition max_pages :: nat where
  "max_pages = 16 * 1024 * 1024 div max_page_size"

definition align8 :: "32 word \<Rightarrow> 32 word" where
  "align8 p = (p + (8 - 1)) AND (- 8)"

definition page_peek :: "bpage \<Rightarrow> bpage res" where
  "page_peek b = assertR (\<not> bp_lock b) (let b = b\<lparr>bp_lock := True\<rparr> in
     assertR (bp_pos b < of_nat max_page_size)
       (Inr (if bp_produced b = bp_consumed b
             then b\<lparr>bp_produced := 0, bp_consumed := 0, bp_pos := 0\<rparr> else b)))"

definition page_acquire :: "32 word \<Rightarrow> bpage \<Rightarrow> bpage res" where
  "page_acquire s b = assertR (bp_lock b)
     (assertR (s \<le> of_nat max_page_size \<and> bp_pos b + s \<le> of_nat max_page_size)
       (Inr (b\<lparr>bp_produced := bp_produced b + s, bp_pos := align8 (bp_pos b + s), bp_lock := False\<rparr>)))"

text \<open>Releasing tells whether the pool is to be deleted.\<close>

definition page_release :: "32 word \<Rightarrow> bpage \<Rightarrow> (bool \<times> bpage) res" where
  "page_release s b = assertR (bp_consumed b + s \<le> bp_produced b)
     (let b = b\<lparr>bp_consumed := bp_consumed b + s\<rparr> in
      Inr (bp_removing b \<and> bp_consumed b = bp_produced b, b))"

section \<open>The pool of a thread\<close>

record 's tpool =
  tp_pages :: "addr \<rightharpoonup> bpage"
  tp_chain :: "addr list"
  tp_current :: addr
  tp_headers :: "addr \<rightharpoonup> addr option \<times> addr"
  tp_heap :: 's

definition page_at :: "'s tpool \<Rightarrow> addr \<Rightarrow> bpage res" where
  "page_at p a = (case tp_pages p a of None \<Rightarrow> Inl BadAccess | Some b \<Rightarrow> Inr b)"

definition put_page :: "addr \<Rightarrow> bpage \<Rightarrow> 's tpool \<Rightarrow> 's tpool" where
  "put_page a b p = p\<lparr>tp_pages := (tp_pages p)(a \<mapsto> b)\<rparr>"

text \<open>
  \<^verbatim>\<open>ThreadInit\<close>: the pool is \<^verbatim>\<open>sizeof(BytePool)\<close> bytes of the core allocator, its
  default page first.  Running out of memory is fatal.
\<close>

definition tp_thread_init :: "'s msource \<Rightarrow> 's \<Rightarrow> 's tpool run" where
  "tp_thread_init core s = bindO (src_allocate core 32832 64 s) (\<lambda>(r, s). case r of
     None \<Rightarrow> Some (Inl AssertFail)
   | Some a \<Rightarrow> Some (Inr \<lparr>tp_pages = [a \<mapsto> new_page], tp_chain = [a], tp_current = a,
       tp_headers = Map.empty, tp_heap = s\<rparr>))"

text \<open>\<^verbatim>\<open>GetNextPage\<close> looks for a complete page; at the end of the chain it makes a new one.\<close>

fun seek_page :: "'s tpool \<Rightarrow> nat \<Rightarrow> addr list \<Rightarrow> (addr option \<times> nat) res" where
  "seek_page p cnt [] = Inl BadAccess"
| "seek_page p cnt (a # rest) = bindR (page_at p a) (\<lambda>b.
     if bp_produced b = bp_consumed b then Inr (Some a, cnt)
     else assertR (\<not> bp_removing b)
       (if rest = [] then Inr (None, cnt) else seek_page p (cnt + 1) rest))"

definition reset_page :: "bpage \<Rightarrow> bpage" where
  "reset_page b = b\<lparr>bp_produced := 0, bp_consumed := 0, bp_pos := 0\<rparr>"

definition use_page :: "addr \<Rightarrow> 's tpool \<Rightarrow> (addr option \<times> 's tpool) run" where
  "use_page a p = bindO (Some (page_at p a)) (\<lambda>b.
     Some (Inr (Some a, put_page a (reset_page b) p\<lparr>tp_current := a\<rparr>)))"

definition tp_get_next_page :: "'s msource \<Rightarrow> 's tpool \<Rightarrow> (addr option \<times> 's tpool) run" where
  "tp_get_next_page src p = bindO (Some (seek_page p 1 (tp_chain p))) (\<lambda>(r, cnt). case r of
     Some a \<Rightarrow> use_page a p
   | None \<Rightarrow>
      if max_pages \<le> cnt then Some (Inr (None, p))
      else bindO (src_allocate src 32768 64 (tp_heap p)) (\<lambda>(r, s).
        let p = p\<lparr>tp_heap := s\<rparr> in
        case r of
          None \<Rightarrow> Some (Inr (None, p))
        | Some a \<Rightarrow> use_page a (put_page a new_page p\<lparr>tp_chain := hd (tp_chain p) # a # tl (tp_chain p)\<rparr>)))"

definition tp_get_page :: "'s msource \<Rightarrow> addr \<Rightarrow> 's tpool \<Rightarrow> (addr option \<times> 's tpool) run" where
  "tp_get_page src len p = bindO (Some (page_at p (tp_current p))) (\<lambda>b.
     assertO (\<not> bp_removing b)
       (if \<not> bp_lock b
        then if ucast (bp_pos b) + len \<le> of_nat max_page_size then Some (Inr (Some (tp_current p), p))
             else if len \<le> of_nat max_page_size then tp_get_next_page src p
             else Some (Inr (None, p))
        else Some (Inr (None, p))))"

section \<open>Blocks\<close>

text \<open>\<^verbatim>\<open>HeaderSize\<close>, and the offset of \<^verbatim>\<open>mBuffer\<close> in a page.\<close>

definition temp_header :: addr where
  "temp_header = 16"

definition page_buffer :: addr where
  "page_buffer = 72"

definition set_header :: "addr \<Rightarrow> addr option \<Rightarrow> addr \<Rightarrow> 's tpool \<Rightarrow> 's tpool" where
  "set_header blk pg n p = p\<lparr>tp_headers := (tp_headers p)(blk \<mapsto> (pg, n))\<rparr>"

definition tp_peek :: "addr \<Rightarrow> 's tpool \<Rightarrow> (addr \<times> 's tpool) res" where
  "tp_peek a p = bindR (page_at p a) (\<lambda>b. bindR (page_peek b) (\<lambda>b.
     Inr (a + page_buffer + ucast (bp_pos b), put_page a b p)))"

definition tp_acquire :: "addr \<Rightarrow> 32 word \<Rightarrow> 's tpool \<Rightarrow> 's tpool res" where
  "tp_acquire a s p = bindR (page_at p a) (\<lambda>b. bindR (page_acquire s b) (\<lambda>b. Inr (put_page a b p)))"

text \<open>The allocator that serves what the pool does not.\<close>

definition tp_backup :: "'s msource \<Rightarrow> addr \<Rightarrow> addr \<Rightarrow> 's tpool \<Rightarrow> (addr option \<times> 's tpool) run" where
  "tp_backup src n al p = bindO (src_allocate src (n + temp_header) al (tp_heap p)) (\<lambda>(r, s).
     let p = p\<lparr>tp_heap := s\<rparr> in
     case r of
       None \<Rightarrow> Some (Inr (None, p))
     | Some blk \<Rightarrow> Some (Inr (Some (blk + temp_header), set_header blk None n p)))"

definition tp_allocate_raw :: "'s msource \<Rightarrow> addr \<Rightarrow> addr \<Rightarrow> 's tpool \<Rightarrow> (addr option \<times> 's tpool) run" where
  "tp_allocate_raw src n al p = assertO (al \<le> 8)
     (bindO (tp_get_page src (n + temp_header) p) (\<lambda>(pg, p). case pg of
        Some a \<Rightarrow> bindO (Some (tp_peek a p)) (\<lambda>(blk, p).
          bindO (Some (tp_acquire a (ucast (n + temp_header)) p)) (\<lambda>p.
            Some (Inr (Some (blk + temp_header), set_header blk (Some a) n p))))
      | None \<Rightarrow> tp_backup src n al p))"

definition tp_two_phase_pre :: "'s msource \<Rightarrow> addr \<Rightarrow> addr \<Rightarrow> 's tpool \<Rightarrow> (addr option \<times> 's tpool) run" where
  "tp_two_phase_pre src al n p = assertO (n mod al = 0)
     (bindO (tp_get_page src (n + temp_header) p) (\<lambda>(pg, p). case pg of
        Some a \<Rightarrow> bindO (Some (tp_peek a p)) (\<lambda>(blk, p).
          Some (Inr (Some (blk + temp_header), set_header blk (Some a) n p)))
      | None \<Rightarrow> tp_backup src n 8 p))"

definition tp_two_phase_post :: "addr \<Rightarrow> addr \<Rightarrow> 's tpool \<Rightarrow> (bool \<times> 's tpool) res" where
  "tp_two_phase_post ptr n p = (let blk = ptr - temp_header in
     case tp_headers p blk of
       None \<Rightarrow> Inl BadAccess
     | Some (None, _) \<Rightarrow> Inr (False, p)
     | Some (Some a, _) \<Rightarrow> bindR (tp_acquire a (ucast (n + temp_header)) p) (\<lambda>p.
         Inr (True, set_header blk (Some a) n p)))"

section \<open>Deleting the pool\<close>

fun mark_removing :: "addr list \<Rightarrow> 's tpool \<Rightarrow> 's tpool res" where
  "mark_removing [] p = Inr p"
| "mark_removing (a # rest) p = bindR (page_at p a) (\<lambda>b.
     mark_removing rest (put_page a (b\<lparr>bp_removing := True\<rparr>) p))"

fun can_purge :: "addr list \<Rightarrow> 's tpool \<Rightarrow> bool res" where
  "can_purge [] p = Inr True"
| "can_purge (a # rest) p = bindR (page_at p a) (\<lambda>b. bindR (can_purge rest p) (\<lambda>c.
     Inr (bp_consumed b = bp_produced b \<and> c)))"

definition drop_page :: "addr \<Rightarrow> 's tpool \<Rightarrow> 's tpool" where
  "drop_page a p = p\<lparr>tp_pages := (tp_pages p)(a := None), tp_chain := remove1 a (tp_chain p)\<rparr>"

fun purge_pages :: "'s msource \<Rightarrow> addr list \<Rightarrow> 's tpool \<Rightarrow> 's tpool res" where
  "purge_pages src [] p = Inr p"
| "purge_pages src (a # rest) p = bindR (page_at p a) (\<lambda>b.
     assertR (bp_removing b) (assertR (bp_consumed b = bp_produced b)
       (bindR (src_deallocate src a (tp_heap p)) (\<lambda>s.
         purge_pages src rest (drop_page a p\<lparr>tp_heap := s\<rparr>)))))"

text \<open>\<^verbatim>\<open>TryPurgePool\<close>; the entry of the registry goes with the chain.\<close>

definition tp_try_purge :: "'s msource \<Rightarrow> 's msource \<Rightarrow> 's tpool \<Rightarrow> 's tpool res" where
  "tp_try_purge core src p = bindR (can_purge (tp_chain p) p) (\<lambda>c.
     if c then bindR (purge_pages src (tl (tp_chain p)) p) (\<lambda>p.
            assertR (tl (tp_chain p) = [])
              (bindR (src_deallocate core (hd (tp_chain p)) (tp_heap p)) (\<lambda>s.
                Inr (drop_page (hd (tp_chain p)) p\<lparr>tp_heap := s\<rparr>))))
     else Inr p)"

definition tp_thread_deinit :: "'s msource \<Rightarrow> 's msource \<Rightarrow> 's tpool \<Rightarrow> 's tpool res" where
  "tp_thread_deinit core src p = assertR (tp_chain p \<noteq> [])
     (bindR (mark_removing (tp_chain p) p) (tp_try_purge core src))"

definition tp_thread_defer_deinit :: "'s msource \<Rightarrow> 's msource \<Rightarrow> 's tpool \<Rightarrow> 's tpool res" where
  "tp_thread_defer_deinit core src p = (if tp_chain p \<noteq> [] then tp_try_purge core src p else Inr p)"

definition tp_deallocate_raw :: "'s msource \<Rightarrow> 's msource \<Rightarrow> addr \<Rightarrow> addr \<Rightarrow> 's tpool \<Rightarrow> 's tpool res" where
  "tp_deallocate_raw core src ptr n p = (let blk = ptr - temp_header in
     case tp_headers p blk of
       None \<Rightarrow> Inl BadAccess
     | Some (pg, sz) \<Rightarrow> assertR (sz = n) (case pg of
         Some a \<Rightarrow> bindR (page_at p a) (\<lambda>b.
           bindR (page_release (ucast (n + temp_header)) b) (\<lambda>(last, b).
             let p = put_page a b p in
             if last then tp_thread_defer_deinit core src p else Inr p))
       | None \<Rightarrow> bindR (src_deallocate src blk (tp_heap p)) (\<lambda>s.
           Inr (p\<lparr>tp_heap := s, tp_headers := (tp_headers p)(blk := None)\<rparr>))))"

section \<open>The numbers of a page\<close>

lemma max_page_size_eq: "max_page_size = 32576" "max_pages = 515"
  by (simp_all add: max_page_size_def max_pages_def)

lemma align8_ok: "unat p \<le> 32576 \<Longrightarrow> unat (align8 p) = (unat p + 7) div 8 * 8"
proof -
  assume p: "unat p \<le> 32576"
  let ?q = "p + 7"
  have q: "unat ?q = unat p + 7" using p by (simp add: unat_word_ariths)
  have "unat (align8 p) = unat (?q - take_bit 3 ?q)" using AND_minus_exp [of ?q 3] by (simp add: align8_def)
  also have "\<dots> = unat ?q - unat (take_bit 3 ?q)"
    by (rule unat_sub) (simp add: word_le_nat_alt unsigned_take_bit_eq)
  also have "unat (take_bit 3 ?q) = (unat p + 7) mod 8"
    by (simp only: unsigned_take_bit_eq q) (simp add: take_bit_eq_mod)
  finally show ?thesis by (simp add: q minus_mod_eq_div_mult)
qed

definition bp_nums :: "bpage \<Rightarrow> nat \<Rightarrow> bool" where
  "bp_nums b out \<longleftrightarrow> unat (bp_pos b) \<le> max_page_size \<and> 8 dvd unat (bp_pos b) \<and>
    unat (bp_produced b) \<le> unat (bp_pos b) \<and> unat (bp_produced b) = unat (bp_consumed b) + out"

lemma new_page_nums: "bp_nums new_page 0" "bp_nums (reset_page b) 0"
  by (simp_all add: bp_nums_def new_page_def reset_page_def)

lemma complete_iff: "bp_nums b out \<Longrightarrow> bp_produced b = bp_consumed b \<longleftrightarrow> out = 0"
  by (auto simp: bp_nums_def word_unat_eq_iff)

lemma page_peek_ok:
  assumes "bp_nums b out" "\<not> bp_lock b" "unat (bp_pos b) < max_page_size"
  shows "\<exists>b'. page_peek b = Inr b' \<and> bp_nums b' out \<and> bp_lock b' \<and> bp_removing b' = bp_removing b \<and>
    unat (bp_pos b') \<le> unat (bp_pos b) \<and> (out \<noteq> 0 \<longrightarrow> bp_pos b' = bp_pos b)"
  using assms by (auto simp: page_peek_def bp_nums_def Let_def word_less_nat_alt max_page_size_eq word_unat_eq_iff)

lemma page_acquire_ok:
  assumes "bp_nums b out" "bp_lock b" "unat (bp_pos b) + n \<le> max_page_size" "unat s = n"
  shows "\<exists>b'. page_acquire s b = Inr b' \<and> bp_nums b' (out + n) \<and> \<not> bp_lock b' \<and> bp_removing b' = bp_removing b \<and>
    unat (bp_pos b) + n \<le> unat (bp_pos b')"
proof -
  have pos: "unat (bp_pos b + s) = unat (bp_pos b) + n"
    using assms(3,4) by (simp add: unat_word_ariths max_page_size_eq)
  have prod: "unat (bp_produced b + s) = unat (bp_produced b) + n"
    using assms(1,3,4) by (simp add: unat_word_ariths max_page_size_eq bp_nums_def)
  have al: "unat (align8 (bp_pos b + s)) = (unat (bp_pos b) + n + 7) div 8 * 8"
    using align8_ok [of "bp_pos b + s"] pos assms(3) by (simp add: max_page_size_eq)
  have "(unat (bp_pos b) + n + 7) div 8 * 8 \<le> 32576" "unat (bp_pos b) + n \<le> (unat (bp_pos b) + n + 7) div 8 * 8"
    using assms(3) unfolding max_page_size_eq by presburger+
  then show ?thesis
    using assms al pos prod
    by (auto simp: page_acquire_def bp_nums_def word_le_nat_alt max_page_size_eq)
qed

lemma page_release_ok:
  assumes "bp_nums b (n + out)" "unat s = n"
  shows "\<exists>b'. page_release s b = Inr (bp_removing b \<and> out = 0, b') \<and> bp_nums b' out \<and> bp_lock b' = bp_lock b \<and>
    bp_removing b' = bp_removing b \<and> bp_pos b' = bp_pos b"
proof -
  have "unat (bp_consumed b + s) = unat (bp_consumed b) + n"
    using assms by (simp add: unat_word_ariths max_page_size_eq bp_nums_def)
  then show ?thesis
    using assms by (auto simp: page_release_def bp_nums_def word_le_nat_alt Let_def word_unat_eq_iff)
qed

section \<open>The invariant of a pool\<close>

text \<open>
  \<open>live\<close> lists the blocks in use, from the pool and from the global allocator; \<open>pend\<close> is the
  block of an allocation between its two phases and the size it may take; \<open>rm\<close> tells whether
  the thread has ended.
\<close>

record tblock =
  tb_block :: addr
  tb_size :: addr
  tb_page :: "addr option"

definition tb_region :: "tblock \<Rightarrow> region" where
  "tb_region t = (unat (tb_block t), unat (tb_size t) + 16)"

definition page_region :: "addr \<Rightarrow> region" where
  "page_region a = (unat a, 32768)"

definition data_region :: "addr \<Rightarrow> bpage \<Rightarrow> region" where
  "data_region a b = (unat a + 72, unat (bp_pos b))"

definition tb_out :: "tblock list \<Rightarrow> addr \<Rightarrow> nat" where
  "tb_out live a = (\<Sum>t\<leftarrow>filter (\<lambda>t. tb_page t = Some a) live. unat (tb_size t) + 16)"

definition tp_holds :: "addr list \<Rightarrow> tblock list \<Rightarrow> (nat \<times> region) multiset" where
  "tp_holds chain live = mset (map (\<lambda>a. (0, unat a, 32832)) (take 1 chain)) +
    mset (map (\<lambda>a. (1, unat a, 32768)) (tl chain)) +
    mset (map (\<lambda>t. (1, tb_region t)) (filter (\<lambda>t. tb_page t = None) live))"

definition tb_ok :: "'s tpool \<Rightarrow> tblock \<Rightarrow> bool" where
  "tb_ok p t \<longleftrightarrow> tp_headers p (tb_block t) = Some (tb_page t, tb_size t) \<and>
    unat (tb_block t) + unat (tb_size t) + 16 \<le> 2 ^ 63 \<and>
    (case tb_page t of None \<Rightarrow> True
     | Some a \<Rightarrow> (case tp_pages p a of None \<Rightarrow> False | Some b \<Rightarrow> within (tb_region t) (data_region a b))) \<and>
    (\<forall>a\<in>set (tp_chain p). tb_page t \<noteq> Some a \<longrightarrow> apart (tb_region t) (page_region a))"

definition page_ok :: "tblock list \<Rightarrow> (addr \<times> addr) option \<Rightarrow> bool \<Rightarrow> 's tpool \<Rightarrow> addr \<Rightarrow> bpage \<Rightarrow> bool" where
  "page_ok live pend rm p a b \<longleftrightarrow> bp_nums b (tb_out live a) \<and> bp_removing b = rm \<and>
    bp_lock b = (pend \<noteq> None \<and> a = tp_current p)"

definition pend_ok :: "'s tpool \<Rightarrow> addr \<times> addr \<Rightarrow> bool" where
  "pend_ok p = (\<lambda>(blk, n). tp_headers p blk = Some (Some (tp_current p), n) \<and>
    (case tp_pages p (tp_current p) of None \<Rightarrow> False
     | Some b \<Rightarrow> unat blk = unat (tp_current p) + 72 + unat (bp_pos b) \<and>
         unat (bp_pos b) + unat n + 16 \<le> max_page_size))"

definition tp_inv :: "('s \<Rightarrow> (nat \<times> region) list \<Rightarrow> bool) \<Rightarrow> tblock list \<Rightarrow> (addr \<times> addr) option \<Rightarrow> bool \<Rightarrow>
    's tpool \<Rightarrow> bool" where
  "tp_inv good live pend rm p \<longleftrightarrow> granted good (tp_heap p) (tp_holds (tp_chain p) live) \<and>
    length (tp_chain p) \<le> max_pages \<and> (tp_chain p \<noteq> [] \<longrightarrow> tp_current p \<in> set (tp_chain p)) \<and>
    dom (tp_pages p) = set (tp_chain p) \<and> sorted_wrt apart (map page_region (tp_chain p)) \<and>
    (\<forall>a\<in>set (tp_chain p). unat a + 32768 \<le> 2 ^ 63 \<and> 8 dvd unat a) \<and>
    (\<forall>a b. tp_pages p a = Some b \<longrightarrow> page_ok live pend rm p a b) \<and>
    (\<forall>t\<in>set live. tb_ok p t) \<and> sorted_wrt apart (map tb_region live) \<and>
    (case pend of None \<Rightarrow> True | Some bn \<Rightarrow> pend_ok p bn)"

lemma put_page_simps [simp]:
  "tp_pages (put_page a b p) = (tp_pages p)(a \<mapsto> b)" "tp_chain (put_page a b p) = tp_chain p"
  "tp_current (put_page a b p) = tp_current p" "tp_headers (put_page a b p) = tp_headers p"
  "tp_heap (put_page a b p) = tp_heap p"
  by (simp_all add: put_page_def)

lemma set_header_simps [simp]:
  "tp_pages (set_header k g n p) = tp_pages p" "tp_chain (set_header k g n p) = tp_chain p"
  "tp_current (set_header k g n p) = tp_current p" "tp_headers (set_header k g n p) = (tp_headers p)(k \<mapsto> (g, n))"
  "tp_heap (set_header k g n p) = tp_heap p"
  by (simp_all add: set_header_def)

lemma tb_out_0: "tb_out live a = 0 \<longleftrightarrow> (\<forall>t\<in>set live. tb_page t \<noteq> Some a)"
  by (auto simp: tb_out_def filter_empty_conv)

lemma tb_out_Cons: "tb_out (t # live) a = (if tb_page t = Some a then unat (tb_size t) + 16 else 0) + tb_out live a"
  by (simp add: tb_out_def)

lemma tb_out_split: "tb_out (xs @ t # ys) a =
    (if tb_page t = Some a then unat (tb_size t) + 16 else 0) + tb_out (xs @ ys) a"
  by (simp add: tb_out_def)

lemma tb_blocks_differ: "apart (tb_region t) (tb_region u) \<Longrightarrow> tb_block t \<noteq> tb_block u"
  by (auto simp: apart_def tb_region_def)

lemma page_at_ok: "tp_pages p a = Some b \<Longrightarrow> page_at p a = Inr b"
  by (simp add: page_at_def)

lemma pages_apart:
  assumes "tp_inv good live pend rm p" "a \<in> set (tp_chain p)" "a' \<in> set (tp_chain p)" "a \<noteq> a'"
  shows "apart (page_region a) (page_region a')"
proof -
  obtain i j where ij: "i < length (tp_chain p)" "j < length (tp_chain p)" "tp_chain p ! i = a" "tp_chain p ! j = a'"
    using assms(2,3) by (auto simp: in_set_conv_nth)
  then have "i \<noteq> j" using assms(4) by auto
  then show ?thesis
    using sorted_wrt_apart_nth [of "map page_region (tp_chain p)" i j] assms(1) ij by (auto simp: tp_inv_def)
qed

lemma current_page:
  assumes "tp_inv good live pend rm p" "tp_chain p \<noteq> []"
  obtains b where "tp_pages p (tp_current p) = Some b" "page_ok live pend rm p (tp_current p) b"
  using assms by (auto simp: tp_inv_def) (metis domD)

lemma chain_page:
  assumes "tp_inv good live pend rm p" "a \<in> set (tp_chain p)"
  obtains b where "tp_pages p a = Some b" "page_ok live pend rm p a b"
  using assms by (auto simp: tp_inv_def) (metis domD)

text \<open>The data of a page, and a block in it, stay inside the page.\<close>

lemma data_in_page: "bp_nums b out \<Longrightarrow> within (data_region a b) (page_region a)"
  by (auto simp: within_def data_region_def page_region_def bp_nums_def max_page_size_eq)

text \<open>Changing one page keeps the blocks of the others, and its own when its end does not move back.\<close>

lemma tb_ok_put_page:
  assumes "tb_ok p t" "tp_pages p a = Some b" "tb_page t = Some a \<longrightarrow> unat (bp_pos b) \<le> unat (bp_pos b')"
  shows "tb_ok (put_page a b' p) t"
  using assms by (auto simp: tb_ok_def within_def data_region_def split: option.splits)

lemma tb_ok_set_header: "tb_ok p t \<Longrightarrow> tb_block t \<noteq> k \<Longrightarrow> tb_ok (set_header k g n p) t"
  by (auto simp: tb_ok_def split: option.splits)

text \<open>The place behind the end of a page is apart from every block in use.\<close>

lemma behind_end:
  assumes "tp_inv good live pend rm p" "a \<in> set (tp_chain p)" "tp_pages p a = Some b"
    "unat blk = unat a + 72 + unat (bp_pos b)" "unat (bp_pos b) + n \<le> max_page_size" "t \<in> set live"
  shows "apart (unat blk, n) (tb_region t)"
proof (cases "tb_page t = Some a")
  case True
  then have "within (tb_region t) (data_region a b)" using assms(1,3,6) by (auto simp: tp_inv_def tb_ok_def)
  then show ?thesis using assms(4) by (auto simp: within_def apart_def data_region_def)
next
  case False
  then have "apart (tb_region t) (page_region a)" using assms(1,2,6) by (auto simp: tp_inv_def tb_ok_def)
  then show ?thesis using assms(4,5) by (auto simp: apart_def page_region_def max_page_size_eq)
qed

lemma tp_peek_ok:
  assumes inv: "tp_inv good live None rm p" and b: "tp_pages p (tp_current p) = Some b"
    and room: "unat (bp_pos b) + unat n + 16 \<le> max_page_size"
  obtains blk p' where "tp_peek (tp_current p) p = Inr (blk, p')" "tp_current p' = tp_current p"
    "tp_inv good live (Some (blk, n)) rm (set_header blk (Some (tp_current p)) n p')"
proof -
  let ?a = "tp_current p"
  have a: "?a \<in> set (tp_chain p)" using inv b by (auto simp: tp_inv_def)
  have top: "unat ?a + 32768 \<le> 2 ^ 63" using inv a by (auto simp: tp_inv_def)
  have ok: "page_ok live None rm p ?a b" using inv b by (auto simp: tp_inv_def)
  then have nums: "bp_nums b (tb_out live ?a)" "\<not> bp_lock b" "unat (bp_pos b) < max_page_size"
    using room by (auto simp: page_ok_def)
  from page_peek_ok [OF this] obtain b' where b': "page_peek b = Inr b'" "bp_nums b' (tb_out live ?a)"
    "bp_lock b'" "bp_removing b' = bp_removing b" "unat (bp_pos b') \<le> unat (bp_pos b)"
    "tb_out live ?a \<noteq> 0 \<longrightarrow> bp_pos b' = bp_pos b" by blast
  define blk where "blk = ?a + page_buffer + ucast (bp_pos b')"
  have "unat (?a + 72 + (ucast (bp_pos b') :: addr)) = unat ?a + 72 + unat (bp_pos b')"
    using top b'(5) room by (subst unat_sum; (subst unat_sum)?)
      (simp_all add: unsigned_ucast_eq take_bit_nat_eq_self max_page_size_eq)
  then have blk: "unat blk = unat ?a + 72 + unat (bp_pos b')" by (simp add: blk_def page_buffer_def)
  have room': "unat (bp_pos b') + unat n + 16 \<le> max_page_size" using room b'(5) by simp
  let ?p = "put_page ?a b' p"
  let ?p' = "set_header blk (Some ?a) n ?p"
  have keep: "tb_page t = Some ?a \<longrightarrow> unat (bp_pos b) \<le> unat (bp_pos b')" if "t \<in> set live" for t
    using b'(6) tb_out_0 [of live ?a] that by auto
  have apart: "apart (unat blk, unat n + 16) (tb_region t)" if t: "t \<in> set live" for t
  proof (cases "tb_out live ?a = 0")
    case True
    then have "tb_page t \<noteq> Some ?a" using t by (auto simp: tb_out_0)
    then have "apart (tb_region t) (page_region ?a)" using inv a t by (auto simp: tp_inv_def tb_ok_def)
    then show ?thesis using blk room' by (auto simp: apart_def page_region_def max_page_size_eq)
  next
    case False
    then show ?thesis using behind_end [OF inv a b _ _ t, of blk "unat n + 16"] blk room' b'(6) by simp
  qed
  have other: "tb_block t \<noteq> blk" if "t \<in> set live" for t
    using apart [OF that] by (auto simp: apart_def tb_region_def)
  have "\<forall>t\<in>set live. tb_ok ?p' t"
    using inv b keep other by (auto simp: tp_inv_def intro!: tb_ok_set_header tb_ok_put_page)
  moreover have "\<forall>c d. tp_pages ?p' c = Some d \<longrightarrow> page_ok live (Some (blk, n)) rm ?p' c d"
    using inv b'(2-4) ok by (auto simp: tp_inv_def page_ok_def)
  moreover have "pend_ok ?p' (blk, n)" using blk room' by (simp add: pend_ok_def)
  ultimately have "tp_inv good live (Some (blk, n)) rm ?p'"
    using inv a b by (auto simp: tp_inv_def)
  moreover have "tp_peek ?a p = Inr (blk, ?p)" using b b'(1) by (simp add: tp_peek_def page_at_ok blk_def)
  ultimately show thesis using that by simp
qed

lemma tp_acquire_ok:
  assumes inv: "tp_inv good live (Some (blk, m)) rm p" and n: "unat n \<le> unat m"
  obtains p' where "tp_acquire (tp_current p) (ucast (n + temp_header)) p = Inr p'" "tp_current p' = tp_current p"
    "tp_inv good (\<lparr>tb_block = blk, tb_size = n, tb_page = Some (tp_current p)\<rparr> # live) None rm
       (set_header blk (Some (tp_current p)) n p')" "8 dvd unat blk"
proof -
  let ?a = "tp_current p" and ?t = "\<lparr>tb_block = blk, tb_size = n, tb_page = Some (tp_current p)\<rparr>"
  obtain b where b: "tp_pages p ?a = Some b" "unat blk = unat ?a + 72 + unat (bp_pos b)"
    "unat (bp_pos b) + unat m + 16 \<le> max_page_size"
    using inv by (auto simp: tp_inv_def pend_ok_def split: option.splits)
  have a: "?a \<in> set (tp_chain p)" using inv b(1) by (auto simp: tp_inv_def)
  have top: "unat ?a + 32768 \<le> 2 ^ 63" "8 dvd unat ?a" using inv a by (auto simp: tp_inv_def)
  have ok: "page_ok live (Some (blk, m)) rm p ?a b" using inv b(1) by (auto simp: tp_inv_def)
  then have nums: "bp_nums b (tb_out live ?a)" "bp_lock b" by (auto simp: page_ok_def)
  have sum: "unat (n + temp_header) = unat n + 16"
    using n b(3) by (subst unat_sum) (simp_all add: temp_header_def max_page_size_eq)
  then have s: "unat (ucast (n + temp_header) :: 32 word) = unat n + 16"
    using n b(3) by (simp add: unsigned_ucast_eq take_bit_nat_eq_self max_page_size_eq)
  have room: "unat (bp_pos b) + (unat n + 16) \<le> max_page_size" using n b(3) by simp
  from page_acquire_ok [OF nums room s] obtain b' where b': "page_acquire (ucast (n + temp_header)) b = Inr b'"
    "bp_nums b' (tb_out live ?a + (unat n + 16))" "\<not> bp_lock b'" "bp_removing b' = bp_removing b"
    "unat (bp_pos b) + (unat n + 16) \<le> unat (bp_pos b')" by blast
  let ?p = "put_page ?a b' p"
  let ?p' = "set_header blk (Some ?a) n ?p"
  have apart: "apart (tb_region ?t) (tb_region t)" if t: "t \<in> set live" for t
    using behind_end [OF inv a b(1,2) room t] by (simp add: tb_region_def)
  have other: "tb_block t \<noteq> blk" if "t \<in> set live" for t
    using tb_blocks_differ [OF apart [OF that]] by simp
  have in_page: "within (tb_region ?t) (data_region ?a b')"
    using b(2) b'(5) by (simp add: within_def tb_region_def data_region_def)
  have t: "tb_ok ?p' ?t"
    unfolding tb_ok_def
  proof (intro conjI ballI impI)
    fix c
    assume "c \<in> set (tp_chain ?p')" "tb_page ?t \<noteq> Some c"
    then have "apart (page_region c) (page_region ?a)" using pages_apart [OF inv _ a, of c] by simp
    moreover have "within (tb_region ?t) (page_region ?a)"
      using in_page data_in_page [OF b'(2)] by (rule within_trans)
    ultimately show "apart (tb_region ?t) (page_region c)" using apart_within apart_sym by blast
  qed (use in_page b(2) room top in \<open>simp_all add: max_page_size_eq\<close>)
  have "\<forall>u\<in>set live. tb_ok ?p' u"
    using inv b(1) b'(5) other by (auto simp: tp_inv_def intro!: tb_ok_set_header tb_ok_put_page)
  moreover have "\<forall>c d. tp_pages ?p' c = Some d \<longrightarrow> page_ok (?t # live) None rm ?p' c d"
    using inv b'(2-4) ok by (auto simp: tp_inv_def page_ok_def tb_out_Cons add.commute)
  moreover have "sorted_wrt apart (map tb_region (?t # live))" using inv apart by (auto simp: tp_inv_def)
  ultimately have "tp_inv good (?t # live) None rm ?p'"
    using inv a b t by (auto simp: tp_inv_def tp_holds_def)
  moreover have "tp_acquire ?a (ucast (n + temp_header)) p = Inr ?p"
    using b(1) b'(1) by (simp add: tp_acquire_def page_at_ok)
  moreover have "8 dvd unat blk"
    using nums(1) top(2) b(2) unfolding bp_nums_def by simp
  ultimately show thesis using that by simp
qed

text \<open>Only a page that no block in use lies in is used again.\<close>

lemma use_page_ok:
  assumes inv: "tp_inv good live None rm p" and a: "a \<in> set (tp_chain p)" "tb_out live a = 0"
  obtains p' b where "use_page a p = Some (Inr (Some a, p'))" "tp_inv good live None rm p'" "tp_current p' = a"
    "tp_pages p' a = Some b" "bp_pos b = 0" "tp_headers p' = tp_headers p"
proof -
  obtain b where b: "tp_pages p a = Some b" "page_ok live None rm p a b" using chain_page [OF inv a(1)] .
  let ?p = "put_page a (reset_page b) p\<lparr>tp_current := a\<rparr>"
  have "\<forall>t\<in>set live. tb_ok (put_page a (reset_page b) p) t"
    using inv b(1) a(2) by (auto simp: tp_inv_def tb_out_0 intro!: tb_ok_put_page)
  then have "\<forall>t\<in>set live. tb_ok ?p t" by (simp add: tb_ok_def cong: option.case_cong)
  moreover have "\<forall>c d. tp_pages ?p c = Some d \<longrightarrow> page_ok live None rm ?p c d"
    using inv b new_page_nums(2) [of b] a(2) by (auto simp: tp_inv_def page_ok_def reset_page_def)
  ultimately have "tp_inv good live None rm ?p" using inv a b(1) by (auto simp: tp_inv_def)
  then show thesis using that [of ?p "reset_page b"] b(1) by (simp add: use_page_def page_at_ok reset_page_def)
qed

lemma seek_page_ok:
  "tp_inv good live None False p \<Longrightarrow> set as \<subseteq> set (tp_chain p) \<Longrightarrow> as \<noteq> [] \<Longrightarrow>
    \<exists>r c. seek_page p k as = Inr (r, c) \<and>
      (case r of None \<Rightarrow> c + 1 = k + length as | Some a \<Rightarrow> a \<in> set as \<and> tb_out live a = 0)"
proof (induction as arbitrary: k)
  case (Cons a as)
  obtain b where b: "tp_pages p a = Some b" "page_ok live None False p a b"
    using chain_page [OF Cons.prems(1), of a] Cons.prems(2) by auto
  show ?case
  proof (cases "tb_out live a = 0 \<or> as = []")
    case True
    then show ?thesis using b complete_iff [of b "tb_out live a"] by (auto simp: page_at_ok page_ok_def)
  next
    case False
    then obtain r c where "seek_page p (k + 1) as = Inr (r, c)"
      "case r of None \<Rightarrow> c + 1 = k + 1 + length as | Some a \<Rightarrow> a \<in> set as \<and> tb_out live a = 0"
      using Cons.IH [of "k + 1"] Cons.prems by auto
    then show ?thesis
      using False b complete_iff [of b "tb_out live a"] by (auto simp: page_at_ok page_ok_def split: option.splits)
  qed
qed simp

text \<open>What \<^verbatim>\<open>GetNextPage\<close> and \<^verbatim>\<open>GetPage\<close> return.\<close>

definition got_page :: "('s \<Rightarrow> (nat \<times> region) list \<Rightarrow> bool) \<Rightarrow> tblock list \<Rightarrow> (addr \<times> addr) option \<Rightarrow> addr \<Rightarrow> 's tpool \<Rightarrow> (addr option \<times> 's tpool) run \<Rightarrow> bool" where
  "got_page good live pend len p r = (case r of
     Some (Inr (r, p')) \<Rightarrow> tp_inv good live pend False p' \<and> tp_headers p' = tp_headers p \<and> tp_chain p' \<noteq> [] \<and>
       (case r of None \<Rightarrow> True
        | Some a \<Rightarrow> pend = None \<and> a = tp_current p' \<and>
            (case tp_pages p' a of None \<Rightarrow> False | Some b \<Rightarrow> unat (bp_pos b) + unat len \<le> max_page_size))
   | _ \<Rightarrow> False)"

lemma live_in_page:
  assumes "tp_inv good live pend rm p" "t \<in> set live" "tb_page t = Some c"
  obtains b where "tp_pages p c = Some b" "c \<in> set (tp_chain p)" "page_ok live pend rm p c b"
    "within (tb_region t) (data_region c b)" "within (tb_region t) (page_region c)"
proof -
  have "tb_ok p t" using assms(1,2) by (simp add: tp_inv_def)
  then obtain b where b: "tp_pages p c = Some b" "within (tb_region t) (data_region c b)"
    using assms(3) by (auto simp: tb_ok_def split: option.splits)
  then have c: "c \<in> set (tp_chain p)" "page_ok live pend rm p c b" using assms(1) by (auto simp: tp_inv_def)
  have "bp_nums b (tb_out live c)" using c(2) by (simp add: page_ok_def)
  from within_trans [OF b(2) data_in_page [OF this]] show thesis using that b c by blast
qed

text \<open>What the allocators grant is apart from the pages and the blocks in use.\<close>

lemma apart_from_pages:
  assumes "\<forall>t\<in>#tp_holds chain live. apart r (snd t)" "c \<in> set chain"
  shows "apart r (page_region c)"
proof -
  obtain d ps where chain: "chain = d # ps" using assms(2) by (cases chain) auto
  have "(0, unat c, 32832) \<in># tp_holds chain live \<or> (1, unat c, 32768) \<in># tp_holds chain live"
    using assms(2) chain by (auto simp: tp_holds_def)
  then have "apart r (unat c, 32832) \<or> apart r (unat c, 32768)" using assms(1) by force
  then show ?thesis by (auto simp: apart_def page_region_def)
qed

lemma apart_from_blocks:
  assumes "tp_inv good live pend rm p" "\<forall>t\<in>#tp_holds (tp_chain p) live. apart r (snd t)" "u \<in> set live"
  shows "apart r (tb_region u)"
proof (cases "tb_page u")
  case None
  then have "(1, tb_region u) \<in># tp_holds (tp_chain p) live" using assms(3) by (auto simp: tp_holds_def)
  then show ?thesis using assms(2) by force
next
  case (Some c)
  from live_in_page [OF assms(1,3) this] apart_from_pages [OF assms(2), of c] show ?thesis
    using apart_within by blast
qed

context owned_sources
begin

lemma add_page:
  assumes inv: "tp_inv good live None False p" and ne: "tp_chain p \<noteq> []" and len: "length (tp_chain p) < max_pages"
    and p': "8 dvd unat a" "unat a + 32768 \<le> 2 ^ 63"
      "\<forall>t\<in>#tp_holds (tp_chain p) live. apart (unat a, 32768) (snd t)"
      "granted good s (add_mset (1, unat a, 32768) (tp_holds (tp_chain p) live))"
  shows "tp_inv good live None False (put_page a new_page (p\<lparr>tp_heap := s\<rparr>)\<lparr>tp_chain := hd (tp_chain p) # a # tl (tp_chain p)\<rparr>)"
    "tb_out live a = 0"
proof -
  obtain d ps where chain: "tp_chain p = d # ps" using ne by (cases "tp_chain p") auto
  let ?p = "put_page a new_page (p\<lparr>tp_heap := s\<rparr>)\<lparr>tp_chain := hd (tp_chain p) # a # tl (tp_chain p)\<rparr>"
  have p3: "\<forall>t\<in>#tp_holds (tp_chain p) live. apart (page_region a) (snd t)" using p'(3) by (simp add: page_region_def)
  have pages: "apart (page_region a) (page_region c)" if "c \<in> set (tp_chain p)" for c
    by (rule apart_from_pages [OF p3 that])
  from pages [of a] have new: "a \<notin> set (tp_chain p)" by (auto simp: apart_def page_region_def)
  have "tp_pages p a = None" using new inv by (auto simp: tp_inv_def)
  then have none: "tb_page t \<noteq> Some a" if "t \<in> set live" for t
    using live_in_page [OF inv that] by fastforce
  then show out: "tb_out live a = 0" by (simp add: tb_out_0)
  have blocks: "apart (tb_region t) (page_region a)" if "t \<in> set live" for t
    using apart_from_blocks [OF inv p3 that] by (rule apart_sym)
  have "tp_holds (tp_chain ?p) live = add_mset (1, unat a, 32768) (tp_holds (tp_chain p) live)"
    by (simp add: tp_holds_def chain)
  moreover have "tb_ok ?p t" if t: "t \<in> set live" for t
  proof -
    have "tb_ok p t" using inv t by (simp add: tp_inv_def)
    then show ?thesis using blocks [OF t] none [OF t] chain by (cases "tb_page t") (auto simp: tb_ok_def)
  qed
  then have "\<forall>t\<in>set live. tb_ok ?p t" by blast
  moreover have "\<forall>c e. tp_pages ?p c = Some e \<longrightarrow> page_ok live None False ?p c e"
    using inv new_page_nums(1) out by (auto simp: tp_inv_def page_ok_def new_page_def)
  moreover have "sorted_wrt apart (map page_region (tp_chain ?p))"
    using inv chain pages apart_sym by (auto simp: tp_inv_def)
  ultimately show "tp_inv good live None False ?p"
    using inv p'(1,2,4) len chain by (auto simp: tp_inv_def)
qed

lemma tp_inv_heap:
  "tp_inv good live pend rm p \<Longrightarrow> granted good s (tp_holds (tp_chain p) live) \<Longrightarrow>
    tp_inv good live pend rm (p\<lparr>tp_heap := s\<rparr>)"
  by (simp add: tp_inv_def tb_ok_def page_ok_def pend_ok_def cong: option.case_cong)

lemma next_page_ok:
  assumes inv: "tp_inv good live None False p" and ne: "tp_chain p \<noteq> []" and len: "unat len \<le> max_page_size"
    and lim: "32896 \<le> limit"
  shows "got_page good live None len p (tp_get_next_page (src 1) p)"
proof -
  from seek_page_ok [OF inv order_refl ne, of 1] obtain r c where r: "seek_page p 1 (tp_chain p) = Inr (r, c)"
    "case r of None \<Rightarrow> c + 1 = 1 + length (tp_chain p) | Some a \<Rightarrow> a \<in> set (tp_chain p) \<and> tb_out live a = 0" by blast
  show ?thesis
  proof (cases r)
    case (Some a)
    from use_page_ok [OF inv, of a] obtain p' b where "use_page a p = Some (Inr (Some a, p'))"
      "tp_inv good live None False p'" "tp_current p' = a" "tp_pages p' a = Some b" "bp_pos b = 0"
      "tp_headers p' = tp_headers p" using r(2) Some by auto
    moreover have "tp_chain p' \<noteq> []" using calculation(2,4) by (auto simp: tp_inv_def)
    ultimately show ?thesis using r(1) Some len by (simp add: tp_get_next_page_def got_page_def)
  next
    case None
    show ?thesis
    proof (cases "max_pages \<le> c")
      case True
      then show ?thesis using r None inv ne by (simp add: tp_get_next_page_def got_page_def)
    next
      case False
      have g: "granted good (tp_heap p) (tp_holds (tp_chain p) live)" using inv by (simp add: tp_inv_def)
      have f: "fits limit 32768 64" using lim by (auto simp: fits_def pow2_def intro: exI [of _ 6])
      from granted_grant [OF g f, of 1] show ?thesis
      proof cases
        case (1 s)
        then show ?thesis
          using r(1) None False ne tp_inv_heap [OF inv 1(2)] by (simp add: tp_get_next_page_def got_page_def Let_def)
      next
        case (2 a s)
        have "unat (64 :: addr) = 8 * 8" by simp
        then have "8 dvd unat a" using 2(2) by (metis dvd_mult_left)
        from add_page [OF inv ne _ this] have added:
          "tp_inv good live None False (put_page a new_page (p\<lparr>tp_heap := s\<rparr>)\<lparr>tp_chain := hd (tp_chain p) # a # tl (tp_chain p)\<rparr>)"
          "tb_out live a = 0" using 2 r(2) None False by auto
        from use_page_ok [OF added(1) _ added(2)] obtain p' b where u:
          "use_page a (put_page a new_page (p\<lparr>tp_heap := s\<rparr>)\<lparr>tp_chain := hd (tp_chain p) # a # tl (tp_chain p)\<rparr>) = Some (Inr (Some a, p'))"
          "tp_inv good live None False p'" "tp_current p' = a" "tp_pages p' a = Some b" "bp_pos b = 0"
          "tp_headers p' = tp_headers p" by auto
        moreover have "tp_chain p' \<noteq> []" using u(2,4) by (auto simp: tp_inv_def)
        ultimately show ?thesis using r(1) None False 2(1) len by (simp add: tp_get_next_page_def got_page_def)
      qed
    qed
  qed
qed

lemma get_page_ok:
  assumes inv: "tp_inv good live pend False p" and ne: "tp_chain p \<noteq> []" and len: "unat len \<le> 2 ^ 63"
    and lim: "32896 \<le> limit"
  shows "got_page good live pend len p (tp_get_page (src 1) len p)"
proof -
  obtain b where b: "tp_pages p (tp_current p) = Some b" "page_ok live pend False p (tp_current p) b"
    using current_page [OF inv ne] .
  have pos: "unat (bp_pos b) \<le> max_page_size" using b(2) by (simp add: page_ok_def bp_nums_def)
  have sum: "unat (ucast (bp_pos b) + len) = unat (bp_pos b) + unat len"
    using len pos by (subst unat_sum) (simp_all add: unsigned_ucast_eq take_bit_nat_eq_self max_page_size_eq)
  have max: "unat (of_nat max_page_size :: addr) = max_page_size" by (simp add: max_page_size_eq)
  show ?thesis
  proof (cases "pend = None \<and> \<not> ucast (bp_pos b) + len \<le> of_nat max_page_size \<and> len \<le> of_nat max_page_size")
    case True
    then have "tp_inv good live None False p" "unat len \<le> max_page_size" using inv max by (auto simp: word_le_nat_alt)
    from next_page_ok [OF this(1) ne this(2) lim] show ?thesis
      using True b by (simp add: tp_get_page_def page_at_ok page_ok_def)
  next
    case False
    then show ?thesis
      using b inv ne sum max by (auto simp: tp_get_page_def page_at_ok page_ok_def got_page_def word_le_nat_alt)
  qed
qed

end

text \<open>What an allocation returns: nothing, or a block that is in use from then on.\<close>

definition got_block :: "('s \<Rightarrow> (nat \<times> region) list \<Rightarrow> bool) \<Rightarrow> tblock list \<Rightarrow> (addr \<times> addr) option \<Rightarrow> addr \<Rightarrow> addr \<Rightarrow>
    (addr option \<times> 's tpool) run \<Rightarrow> bool" where
  "got_block good live pend n al r = (case r of
     Some (Inr (r, p)) \<Rightarrow> tp_chain p \<noteq> [] \<and> (case r of
         None \<Rightarrow> tp_inv good live pend False p
       | Some ptr \<Rightarrow> \<exists>t. ptr = tb_block t + 16 \<and> tb_size t = n \<and> unat al dvd unat ptr \<and>
           tp_inv good (t # live) pend False p \<and> (pend \<noteq> None \<longrightarrow> tb_page t = None))
   | _ \<Rightarrow> False)"

lemma small_pow2: "pow2 al \<Longrightarrow> al \<le> 8 \<Longrightarrow> unat al dvd 8"
proof -
  assume "pow2 al" "al \<le> 8"
  then obtain k where k: "unat al = 2 ^ k" by (auto simp: pow2_def unat_exp)
  have "k \<le> 3"
  proof (rule ccontr)
    assume "\<not> k \<le> 3"
    then have "(2 :: nat) ^ 4 \<le> 2 ^ k" by (intro power_increasing) auto
    with k \<open>al \<le> 8\<close> show False by (simp add: word_le_nat_alt)
  qed
  then have "(2 :: nat) ^ k dvd 2 ^ 3" by (rule le_imp_power_dvd)
  with k show "unat al dvd 8" by simp
qed

context owned_sources
begin

lemma backup_ok:
  assumes inv: "tp_inv good live pend False p" and ne: "tp_chain p \<noteq> []"
    and al: "pow2 al" "al \<le> 8" and n: "unat n + 24 \<le> limit" "unat n + 16 < 2 ^ 64"
  shows "got_block good live pend n al (tp_backup (src 1) n al p)"
proof -
  have g: "granted good (tp_heap p) (tp_holds (tp_chain p) live)" using inv by (simp add: tp_inv_def)
  have len: "unat (n + temp_header) = unat n + 16"
    using n(2) by (subst unat_sum) (simp_all add: temp_header_def)
  have f: "fits limit (n + temp_header) al" using al n(1) len by (simp add: fits_def word_le_nat_alt)
  from granted_grant [OF g f, of 1] show ?thesis
  proof cases
    case (1 s)
    then show ?thesis using ne tp_inv_heap [OF inv 1(2)] by (simp add: tp_backup_def got_block_def Let_def)
  next
    case (2 blk s)
    let ?t = "\<lparr>tb_block = blk, tb_size = n, tb_page = None\<rparr>"
    let ?p = "set_header blk None n (p\<lparr>tp_heap := s\<rparr>)"
    have reg: "tb_region ?t = (unat blk, unat (n + temp_header))" by (simp add: tb_region_def len)
    have r: "\<forall>t\<in>#tp_holds (tp_chain p) live. apart (tb_region ?t) (snd t)" using 2(4) reg by simp
    have pages: "apart (tb_region ?t) (page_region c)" if "c \<in> set (tp_chain p)" for c
      by (rule apart_from_pages [OF r that])
    have blocks: "apart (tb_region ?t) (tb_region u)" if "u \<in> set live" for u
      by (rule apart_from_blocks [OF inv r that])
    have other: "tb_block u \<noteq> blk" if "u \<in> set live" for u using tb_blocks_differ [OF blocks [OF that]] by auto
    have pend: "fst q \<noteq> blk" if q: "pend = Some q" for q
    proof -
      obtain b where b: "tp_pages p (tp_current p) = Some b" "page_ok live pend False p (tp_current p) b"
        using current_page [OF inv ne] .
      have "unat (fst q) = unat (tp_current p) + 72 + unat (bp_pos b)" "unat (bp_pos b) + 16 \<le> max_page_size"
        using inv b(1) q by (auto simp: tp_inv_def pend_ok_def)
      moreover have "apart (tb_region ?t) (page_region (tp_current p))"
        using pages inv ne by (auto simp: tp_inv_def)
      ultimately show ?thesis by (auto simp: apart_def tb_region_def page_region_def max_page_size_eq)
    qed
    have "tb_ok ?p ?t" using pages 2(3) len by (simp add: tb_ok_def)
    moreover have "\<forall>u\<in>set live. tb_ok (p\<lparr>tp_heap := s\<rparr>) u"
      using inv by (simp add: tp_inv_def tb_ok_def cong: option.case_cong)
    then have "\<forall>u\<in>set live. tb_ok ?p u" using other tb_ok_set_header by blast
    moreover have "\<forall>c e. tp_pages ?p c = Some e \<longrightarrow> page_ok (?t # live) pend False ?p c e"
      using inv by (simp add: tp_inv_def page_ok_def tb_out_Cons)
    moreover have "sorted_wrt apart (map tb_region (?t # live))" using inv blocks by (simp add: tp_inv_def)
    moreover have "tp_holds (tp_chain ?p) (?t # live) = add_mset (1, unat blk, unat (n + temp_header)) (tp_holds (tp_chain p) live)"
      using reg by (simp add: tp_holds_def)
    moreover have "case pend of None \<Rightarrow> True | Some bn \<Rightarrow> pend_ok ?p bn"
      using inv pend by (auto simp: tp_inv_def pend_ok_def split: option.splits)
    ultimately have "tp_inv good (?t # live) pend False ?p" using inv 2(5) by (simp add: tp_inv_def)
    moreover have "unat al dvd unat (blk + 16)"
    proof -
      have "unat (blk + 16) = unat blk + 16" using 2(3) len by (subst unat_sum) simp_all
      moreover have "unat al dvd 16" using small_pow2 [OF al] dvd_trans [of "unat al" 8 16] by simp
      ultimately show ?thesis using 2(2) by (simp add: dvd_add)
    qed
    ultimately show ?thesis
      using 2(1) ne by (auto simp: tp_backup_def got_block_def Let_def temp_header_def intro!: exI [of _ ?t])
  qed
qed

end

section \<open>Allocating and releasing\<close>

lemma tp_acquire_header:
  "tp_acquire a s (set_header k g n p) = bindR (tp_acquire a s p) (\<lambda>p. Inr (set_header k g n p))"
  by (cases "tp_pages p a") (auto simp: tp_acquire_def page_at_def page_acquire_def assertR_def set_header_def put_page_def)

lemma set_header_twice: "set_header k g n (set_header k g' n' p) = set_header k g n p"
  by (simp add: set_header_def)

lemma got_pageE:
  assumes "got_page good live pend len p r"
  obtains (none) p' where "r = Some (Inr (None, p'))" "tp_inv good live pend False p'" "tp_chain p' \<noteq> []"
      "tp_headers p' = tp_headers p"
  | (page) p' b where "r = Some (Inr (Some (tp_current p'), p'))" "tp_inv good live None False p'" "pend = None"
      "tp_chain p' \<noteq> []" "tp_pages p' (tp_current p') = Some b" "unat (bp_pos b) + unat len \<le> max_page_size"
      "tp_headers p' = tp_headers p"
proof -
  obtain a p' where r: "r = Some (Inr (a, p'))" using assms by (auto simp: got_page_def split: option.splits sum.splits)
  show thesis
  proof (cases a)
    case None
    then show ?thesis using assms r none by (simp add: got_page_def)
  next
    case (Some c)
    then obtain b where "tp_pages p' c = Some b" using assms r by (auto simp: got_page_def split: option.splits)
    then show ?thesis using assms r Some page by (auto simp: got_page_def)
  qed
qed

context owned_sources
begin

lemma temp_allocate_ok:
  assumes inv: "tp_inv good live pend False p" and ne: "tp_chain p \<noteq> []" and al: "pow2 al" "al \<le> 8"
    and n: "unat n + 24 \<le> limit" "unat n < 2 ^ 62" and lim: "32896 \<le> limit"
  shows "got_block good live pend n al (tp_allocate_raw (src 1) n al p)"
proof -
  have len: "unat (n + temp_header) = unat n + 16"
    using n(2) by (subst unat_sum) (simp_all add: temp_header_def)
  have "unat (n + temp_header) \<le> 2 ^ 63" using n(2) len by simp
  from get_page_ok [OF inv ne this lim] show ?thesis
  proof (cases rule: got_pageE)
    case (none p')
    have "got_block good live pend n al (tp_backup (src 1) n al p')"
      using backup_ok [OF none(2,3) al n(1)] n(2) by simp
    then show ?thesis using none(1) al by (simp add: tp_allocate_raw_def)
  next
    case (page p' b)
    let ?a = "tp_current p'"
    from tp_peek_ok [OF page(2,5), of n] page(6) len obtain blk p1 where
      peek: "tp_peek ?a p' = Inr (blk, p1)" "tp_current p1 = ?a"
      "tp_inv good live (Some (blk, n)) False (set_header blk (Some ?a) n p1)" by auto
    from tp_acquire_ok [OF peek(3) order_refl] obtain p2 where
      p2: "tp_acquire ?a (ucast (n + temp_header)) (set_header blk (Some ?a) n p1) = Inr p2" "tp_current p2 = ?a"
      "tp_inv good (\<lparr>tb_block = blk, tb_size = n, tb_page = Some ?a\<rparr> # live) None False (set_header blk (Some ?a) n p2)"
      "8 dvd unat blk" using peek(2) by auto
    then obtain p3 where p3: "tp_acquire ?a (ucast (n + temp_header)) p1 = Inr p3" "p2 = set_header blk (Some ?a) n p3"
      by (auto simp: tp_acquire_header bindR_eq_Inr)
    let ?t = "\<lparr>tb_block = blk, tb_size = n, tb_page = Some ?a\<rparr>"
    have fin: "tp_inv good (?t # live) None False (set_header blk (Some ?a) n p3)"
      using p2(3) p3(2) by (simp add: set_header_twice)
    have "unat blk + unat n + 16 \<le> 2 ^ 63" using fin by (auto simp: tp_inv_def tb_ok_def)
    then have "unat (blk + 16) = unat blk + 16" by (subst unat_sum) simp_all
    moreover have "unat al dvd unat blk + 16"
      using small_pow2 [OF al] p2(4) dvd_trans [of "unat al" 8] by (intro dvd_add) auto
    moreover have "tp_chain (set_header blk (Some ?a) n p3) \<noteq> []"
      using fin by (auto simp: tp_inv_def tb_ok_def)
    ultimately show ?thesis
      using page(1,3) peek(1) p3(1) fin al
      by (auto simp: tp_allocate_raw_def got_block_def temp_header_def intro!: exI [of _ ?t])
  qed
qed

text \<open>The first phase reserves the end of the current page or takes a block of its own.\<close>

lemma two_phase_pre_ok:
  assumes inv: "tp_inv good live pend False p" and ne: "tp_chain p \<noteq> []" and al: "n mod al = 0"
    and n: "unat n + 24 \<le> limit" "unat n < 2 ^ 62" and lim: "32896 \<le> limit"
  shows "case tp_two_phase_pre (src 1) al n p of
      Some (Inr (Some ptr, p')) \<Rightarrow> tp_chain p' \<noteq> [] \<and>
        (pend = None \<and> tp_inv good live (Some (ptr - 16, n)) False p' \<or>
         (\<exists>t. ptr = tb_block t + 16 \<and> tb_size t = n \<and> tb_page t = None \<and> tp_inv good (t # live) pend False p'))
    | Some (Inr (None, p')) \<Rightarrow> tp_inv good live pend False p'
    | _ \<Rightarrow> False"
proof -
  have len: "unat (n + temp_header) = unat n + 16"
    using n(2) by (subst unat_sum) (simp_all add: temp_header_def)
  have "unat (n + temp_header) \<le> 2 ^ 63" using n(2) len by simp
  from get_page_ok [OF inv ne this lim] show ?thesis
  proof (cases rule: got_pageE)
    case (none p')
    have b: "got_block good live pend n 8 (tp_backup (src 1) n 8 p')"
      by (rule backup_ok [OF none(2,3)]) (use n in \<open>auto simp: pow2_def intro: exI [of _ 3]\<close>)
    then obtain r p1 where r: "tp_backup (src 1) n 8 p' = Some (Inr (r, p1))"
      by (auto simp: got_block_def split: option.splits sum.splits)
    show ?thesis
    proof (cases r)
      case None
      then show ?thesis using none(1) al b r by (simp add: tp_two_phase_pre_def got_block_def)
    next
      case (Some ptr)
      then obtain t where t: "ptr = tb_block t + 16" "tb_size t = n" "tp_inv good (t # live) pend False p1"
        "tp_chain p1 \<noteq> []" using b r by (auto simp: got_block_def)
      have "tp_headers p1 (ptr - 16) = Some (None, n)"
        using r Some by (auto simp: tp_backup_def bindO_eq_Some Let_def temp_header_def split: option.splits)
      moreover have "tp_headers p1 (tb_block t) = Some (tb_page t, tb_size t)" using t(3) by (simp add: tp_inv_def tb_ok_def)
      ultimately have "tb_page t = None" using t(1) by simp
      then show ?thesis using none(1) al r Some t by (auto simp: tp_two_phase_pre_def)
    qed
  next
    case (page p' b)
    from tp_peek_ok [OF page(2,5), of n] page(6) len obtain blk p1 where
      peek: "tp_peek (tp_current p') p' = Inr (blk, p1)" "tp_current p1 = tp_current p'"
      "tp_inv good live (Some (blk, n)) False (set_header blk (Some (tp_current p')) n p1)" by auto
    moreover have "tp_chain p1 \<noteq> []" using peek(3) by (auto simp: tp_inv_def pend_ok_def split: option.splits)
    ultimately show ?thesis using page(1,3) al by (simp add: tp_two_phase_pre_def temp_header_def)
  qed
qed

end

text \<open>The second phase keeps what was used; the block is in use from then on.\<close>

lemma two_phase_post_ok:
  assumes inv: "tp_inv good live (Some (blk, m)) rm p" and n: "unat n \<le> unat m"
  shows "case tp_two_phase_post (blk + 16) n p of
      Inr (r, p') \<Rightarrow> r \<and> tp_inv good (\<lparr>tb_block = blk, tb_size = n, tb_page = Some (tp_current p)\<rparr> # live) None rm p'
    | Inl e \<Rightarrow> False"
proof -
  from tp_acquire_ok [OF inv n] obtain p' where p': "tp_acquire (tp_current p) (ucast (n + temp_header)) p = Inr p'"
    "tp_inv good (\<lparr>tb_block = blk, tb_size = n, tb_page = Some (tp_current p)\<rparr> # live) None rm
       (set_header blk (Some (tp_current p)) n p')" by blast
  have "tp_headers p blk = Some (Some (tp_current p), m)" using inv by (simp add: tp_inv_def pend_ok_def)
  then show ?thesis using p' by (simp add: tp_two_phase_post_def temp_header_def)
qed

section \<open>Releasing and deleting\<close>

lemma mark_removing_ok:
  "set as \<subseteq> dom (tp_pages p) \<Longrightarrow> mark_removing as p = Inr (p\<lparr>tp_pages := \<lambda>a.
    if a \<in> set as then map_option (\<lambda>b. b\<lparr>bp_removing := True\<rparr>) (tp_pages p a) else tp_pages p a\<rparr>)"
proof (induction as arbitrary: p)
  case (Cons a as)
  then obtain b where b: "tp_pages p a = Some b" by auto
  let ?p = "put_page a (b\<lparr>bp_removing := True\<rparr>) p"
  have "set as \<subseteq> dom (tp_pages ?p)" using Cons.prems by auto
  from Cons.IH [OF this] b show ?case by (auto simp: page_at_ok put_page_def fun_eq_iff)
qed simp

lemma can_purge_ok:
  "tp_inv good live pend rm p \<Longrightarrow> set as \<subseteq> set (tp_chain p) \<Longrightarrow>
    can_purge as p = Inr (\<forall>a\<in>set as. tb_out live a = 0)"
proof (induction as)
  case (Cons a as)
  obtain b where b: "tp_pages p a = Some b" "page_ok live pend rm p a b"
    using chain_page [OF Cons.prems(1), of a] Cons.prems(2) by auto
  then have "bp_consumed b = bp_produced b \<longleftrightarrow> tb_out live a = 0"
    using complete_iff [of b "tb_out live a"] unfolding page_ok_def by metis
  then show ?case using b(1) Cons by (simp add: page_at_ok)
qed simp

definition set_removing :: "'s tpool \<Rightarrow> 's tpool" where
  "set_removing p = p\<lparr>tp_pages := \<lambda>a. map_option (\<lambda>b. b\<lparr>bp_removing := True\<rparr>) (tp_pages p a)\<rparr>"

lemma set_removing_inv: "tp_inv good live None rm p \<Longrightarrow> tp_inv good live None True (set_removing p)"
proof -
  assume inv: "tp_inv good live None rm p"
  have "page_ok live None True (set_removing p) a (b\<lparr>bp_removing := True\<rparr>)" if b: "tp_pages p a = Some b" for a b
  proof -
    have "page_ok live None rm p a b" using inv b by (simp add: tp_inv_def)
    then show ?thesis by (simp add: page_ok_def bp_nums_def)
  qed
  then have "\<forall>a b. tp_pages (set_removing p) a = Some b \<longrightarrow> page_ok live None True (set_removing p) a b"
    by (auto simp: set_removing_def)
  moreover have "tb_ok (set_removing p) t" if t: "t \<in> set live" for t
  proof -
    have "tb_ok p t" using inv t by (simp add: tp_inv_def)
    then show ?thesis by (cases "tb_page t") (auto simp: tb_ok_def set_removing_def data_region_def split: option.splits)
  qed
  moreover have "dom (tp_pages (set_removing p)) = dom (tp_pages p)" by (auto simp: set_removing_def)
  ultimately show ?thesis using inv by (simp add: tp_inv_def) (simp add: set_removing_def)
qed

lemma apart_pages_distinct: "sorted_wrt apart (map page_region as) \<Longrightarrow> distinct as"
  by (induction as) (auto simp: apart_def page_region_def)

lemma chain_distinct: "tp_inv good live pend rm p \<Longrightarrow> distinct (tp_chain p)"
  by (rule apart_pages_distinct) (simp add: tp_inv_def)

text \<open>The pool of an ended thread is there as long as one of its blocks is in use.\<close>

definition pool_needed :: "tblock list \<Rightarrow> 's tpool \<Rightarrow> bool" where
  "pool_needed live p \<longleftrightarrow> (tp_chain p = [] \<longleftrightarrow> (\<forall>t\<in>set live. tb_page t = None))"

context owned_sources
begin

lemma purge_pages_ok:
  assumes "granted good (tp_heap p) (mset (map (\<lambda>a. (1, unat a, 32768)) as) + M)" "tp_chain p = d # as"
    "distinct (d # as)" "\<forall>a\<in>set as. \<exists>b. tp_pages p a = Some b \<and> bp_removing b \<and> bp_consumed b = bp_produced b"
  shows "\<exists>s. purge_pages (src 1) as p = Inr (p\<lparr>tp_heap := s, tp_pages := tp_pages p |` (- set as), tp_chain := [d]\<rparr>) \<and>
    granted good s M"
  using assms
proof (induction as arbitrary: p)
  case Nil
  then show ?case by (cases p) auto
next
  case (Cons a as)
  from granted_give_back [of "tp_heap p" 1 a 32768 "mset (map (\<lambda>a. (1, unat a, 32768)) as) + M"] Cons.prems(1)
  obtain s where s: "src_deallocate (src 1) a (tp_heap p) = Inr s"
    "granted good s (mset (map (\<lambda>a. (1, unat a, 32768)) as) + M)" by auto
  obtain b where b: "tp_pages p a = Some b" "bp_removing b" "bp_consumed b = bp_produced b" using Cons.prems(4) by auto
  let ?p = "drop_page a p\<lparr>tp_heap := s\<rparr>"
  have chain: "tp_chain ?p = d # as" using Cons.prems(2,3) by (auto simp: drop_page_def)
  have pages: "tp_pages ?p = (tp_pages p)(a := None)" by (simp add: drop_page_def)
  obtain s' where s': "purge_pages (src 1) as ?p = Inr (?p\<lparr>tp_heap := s', tp_pages := tp_pages ?p |` (- set as), tp_chain := [d]\<rparr>)"
    "granted good s' M"
  proof -
    have "\<forall>c\<in>set as. \<exists>b. tp_pages ?p c = Some b \<and> bp_removing b \<and> bp_consumed b = bp_produced b"
      using Cons.prems(3,4) pages by auto
    moreover have "granted good (tp_heap ?p) (mset (map (\<lambda>a. (1, unat a, 32768)) as) + M)" using s(2) by simp
    moreover have "distinct (d # as)" using Cons.prems(3) by simp
    ultimately show thesis using Cons.IH [of ?p] chain that by blast
  qed
  have "tp_pages ?p |` (- set as) = tp_pages p |` (- set (a # as))"
    unfolding pages by (auto simp: restrict_map_def fun_eq_iff)
  then show ?case using s(1) s' b by (intro exI [of _ s']) (simp add: page_at_ok drop_page_def)
qed

text \<open>The pool is deleted when no block in use is in it; everything it held is given back.\<close>

lemma try_purge_ok:
  assumes inv: "tp_inv good live None True p" and ne: "tp_chain p \<noteq> []"
  shows "case tp_try_purge (src 0) (src 1) p of Inl e \<Rightarrow> False | Inr p' \<Rightarrow> tp_inv good live None True p' \<and>
    (tp_chain p' = [] \<longleftrightarrow> (\<forall>t\<in>set live. tb_page t = None))"
proof -
  have can: "can_purge (tp_chain p) p = Inr (\<forall>a\<in>set (tp_chain p). tb_out live a = 0)"
    by (rule can_purge_ok [OF inv order_refl])
  have all: "(\<forall>a\<in>set (tp_chain p). tb_out live a = 0) \<longleftrightarrow> (\<forall>t\<in>set live. tb_page t = None)"
  proof
    assume no: "\<forall>a\<in>set (tp_chain p). tb_out live a = 0"
    show "\<forall>t\<in>set live. tb_page t = None"
    proof
      fix t
      assume t: "t \<in> set live"
      show "tb_page t = None"
      proof (rule ccontr)
        assume "tb_page t \<noteq> None"
        then obtain c where c: "tb_page t = Some c" by blast
        then have "c \<in> set (tp_chain p)" using live_in_page [OF inv t] by blast
        then show False using no c t by (auto simp: tb_out_0)
      qed
    qed
  qed (auto simp: tb_out_0)
  show ?thesis
  proof (cases "\<forall>t\<in>set live. tb_page t = None")
    case False
    then have "tp_try_purge (src 0) (src 1) p = Inr p" using can all by (simp only: tp_try_purge_def bindR_simps if_False)
    then show ?thesis using False inv ne by simp
  next
    case True
    obtain d as where chain: "tp_chain p = d # as" using ne by (cases "tp_chain p") auto
    let ?B = "mset (map (\<lambda>t. (1, tb_region t)) (filter (\<lambda>t. tb_page t = None) live))"
    have g: "granted good (tp_heap p) (mset (map (\<lambda>a. (1, unat a, 32768)) as) + add_mset (0, unat d, 32832) ?B)"
      using inv chain by (simp add: tp_inv_def tp_holds_def)
    have pages: "\<exists>b. tp_pages p a = Some b \<and> bp_removing b \<and> bp_consumed b = bp_produced b" if a: "a \<in> set (tp_chain p)" for a
    proof -
      obtain b where b: "tp_pages p a = Some b" "page_ok live None True p a b" using chain_page [OF inv a] .
      moreover have "tb_out live a = 0" using True by (simp add: tb_out_0)
      moreover have "bp_produced b = bp_consumed b \<longleftrightarrow> tb_out live a = 0"
        using complete_iff [of b] b(2) by (simp add: page_ok_def)
      ultimately show ?thesis by (auto simp: page_ok_def)
    qed
    obtain s where s: "purge_pages (src 1) as p = Inr (p\<lparr>tp_heap := s, tp_pages := tp_pages p |` (- set as), tp_chain := [d]\<rparr>)"
      "granted good s (add_mset (0, unat d, 32832) ?B)"
      using purge_pages_ok [OF g chain] chain_distinct [OF inv] pages chain by auto
    obtain s' where s': "src_deallocate (src 0) d s = Inr s'" "granted good s' ?B"
      using granted_give_back [OF s(2)] .
    let ?p = "p\<lparr>tp_heap := s', tp_pages := Map.empty, tp_chain := []\<rparr>"
    have "dom (tp_pages p) = set (d # as)" using inv chain by (simp add: tp_inv_def)
    then have "(tp_pages p |` (- set as))(d := None) = Map.empty" by (auto simp: restrict_map_def fun_eq_iff)
    then have "tp_try_purge (src 0) (src 1) p = Inr ?p"
      using can all True chain s(1) s'(1) by (simp add: tp_try_purge_def drop_page_def)
    moreover have "\<forall>t\<in>set live. tb_ok ?p t" using inv True by (simp add: tp_inv_def tb_ok_def)
    then have "tp_inv good live None True ?p"
      using inv s'(2) by (simp add: tp_inv_def tp_holds_def)
    ultimately show ?thesis using True by simp
  qed
qed

lemma deallocate_page:
  assumes inv: "tp_inv good (xs @ t # ys) pend rm p" and t: "tb_page t = Some a"
  obtains b b' where "page_at p a = Inr b"
    "page_release (ucast (tb_size t + temp_header)) b = Inr (rm \<and> tb_out (xs @ ys) a = 0, b')"
    "tp_inv good (xs @ ys) pend rm (put_page a b' p)"
proof -
  have mem: "t \<in> set (xs @ t # ys)" by simp
  from live_in_page [OF inv mem t] obtain b where b: "tp_pages p a = Some b" "page_ok (xs @ t # ys) pend rm p a b"
    "within (tb_region t) (data_region a b)" "a \<in> set (tp_chain p)" by blast
  then have nums: "bp_nums b ((unat (tb_size t) + 16) + tb_out (xs @ ys) a)" using t by (simp add: page_ok_def tb_out_split)
  have small: "unat (tb_size t) + 16 \<le> max_page_size"
    using b(3) nums by (simp add: within_def tb_region_def data_region_def bp_nums_def)
  have "unat (tb_size t + temp_header) = unat (tb_size t) + 16"
    using small by (subst unat_sum) (simp_all add: temp_header_def max_page_size_eq)
  then have s: "unat (ucast (tb_size t + temp_header) :: 32 word) = unat (tb_size t) + 16"
    using small by (simp add: unsigned_ucast_eq take_bit_nat_eq_self max_page_size_eq)
  from page_release_ok [OF nums s] b(2) obtain b' where b': "bp_removing b' = rm" "bp_lock b' = bp_lock b"
    "bp_nums b' (tb_out (xs @ ys) a)" "bp_pos b' = bp_pos b"
    "page_release (ucast (tb_size t + temp_header)) b = Inr (rm \<and> tb_out (xs @ ys) a = 0, b')"
    by (auto simp: page_ok_def)
  let ?p = "put_page a b' p"
  have "\<forall>c e. tp_pages ?p c = Some e \<longrightarrow> page_ok (xs @ ys) pend rm ?p c e"
  proof (intro allI impI)
    fix c e
    assume e: "tp_pages ?p c = Some e"
    show "page_ok (xs @ ys) pend rm ?p c e"
    proof (cases "c = a")
      case True
      then show ?thesis using e b(2) b' by (simp add: page_ok_def)
    next
      case False
      then have "page_ok (xs @ t # ys) pend rm p c e" using inv e by (simp add: tp_inv_def)
      then show ?thesis using False t by (simp add: page_ok_def tb_out_split)
    qed
  qed
  moreover have "\<forall>u\<in>set (xs @ ys). tb_ok ?p u" using inv b(1) b'(4) by (auto simp: tp_inv_def intro!: tb_ok_put_page)
  moreover have "sorted_wrt apart (map tb_region (xs @ ys))" using inv by (auto simp: tp_inv_def sorted_wrt_append)
  moreover have "tp_holds (tp_chain p) (xs @ ys) = tp_holds (tp_chain p) (xs @ t # ys)" using t by (simp add: tp_holds_def)
  moreover have "case pend of None \<Rightarrow> True | Some bn \<Rightarrow> pend_ok ?p bn"
    using inv b(1) b'(4) by (auto simp: tp_inv_def pend_ok_def split: option.splits)
  ultimately have "tp_inv good (xs @ ys) pend rm ?p" using inv b(4) by (auto simp: tp_inv_def)
  then show thesis using that b(1) b'(5) page_at_ok by blast
qed

lemma deallocate_backup:
  assumes inv: "tp_inv good (xs @ t # ys) pend rm p" and t: "tb_page t = None"
  obtains s where "src_deallocate (src 1) (tb_block t) (tp_heap p) = Inr s"
    "tp_inv good (xs @ ys) pend rm (p\<lparr>tp_heap := s, tp_headers := (tp_headers p)(tb_block t := None)\<rparr>)"
proof -
  have "granted good (tp_heap p) (add_mset (1, unat (tb_block t), unat (tb_size t) + 16) (tp_holds (tp_chain p) (xs @ ys)))"
    using inv t by (simp add: tp_inv_def tp_holds_def tb_region_def)
  from granted_give_back [OF this] obtain s where s: "src_deallocate (src 1) (tb_block t) (tp_heap p) = Inr s"
    "granted good s (tp_holds (tp_chain p) (xs @ ys))" .
  let ?p = "p\<lparr>tp_heap := s, tp_headers := (tp_headers p)(tb_block t := None)\<rparr>"
  have "tb_ok ?p u" if u: "u \<in> set (xs @ ys)" for u
  proof -
    have "apart (tb_region t) (tb_region u) \<or> apart (tb_region u) (tb_region t)"
      using inv u by (auto simp: tp_inv_def sorted_wrt_append)
    then have "tb_block t \<noteq> tb_block u" using tb_blocks_differ [of t u] tb_blocks_differ [of u t] by auto
    moreover have "tb_ok p u" using inv u by (auto simp: tp_inv_def)
    ultimately show ?thesis by (simp add: tb_ok_def cong: option.case_cong)
  qed
  then have "\<forall>u\<in>set (xs @ ys). tb_ok ?p u" by blast
  moreover have "\<forall>c e. tp_pages ?p c = Some e \<longrightarrow> page_ok (xs @ ys) pend rm ?p c e"
    using inv t by (simp add: tp_inv_def page_ok_def tb_out_split)
  moreover have "sorted_wrt apart (map tb_region (xs @ ys))" using inv by (auto simp: tp_inv_def sorted_wrt_append)
  moreover have "case pend of None \<Rightarrow> True | Some bn \<Rightarrow> pend_ok ?p bn"
  proof (cases pend)
    case (Some q)
    then have q: "pend_ok p q" using inv by (simp add: tp_inv_def)
    have "tp_headers p (fst q) \<noteq> tp_headers p (tb_block t)"
      using q inv t by (auto simp: pend_ok_def tp_inv_def tb_ok_def)
    then have "fst q \<noteq> tb_block t" by auto
    then show ?thesis using Some q by (auto simp: pend_ok_def split: option.splits)
  qed simp
  ultimately have "tp_inv good (xs @ ys) pend rm ?p" using inv s(2) by (simp add: tp_inv_def)
  then show thesis using that s(1) by blast
qed

lemma temp_deallocate_ok:
  assumes inv: "tp_inv good (xs @ t # ys) pend rm p" and rm: "rm \<longrightarrow> pend = None \<and> pool_needed (xs @ t # ys) p"
  shows "case tp_deallocate_raw (src 0) (src 1) (tb_block t + 16) (tb_size t) p of Inl e \<Rightarrow> False
    | Inr p' \<Rightarrow> tp_inv good (xs @ ys) pend rm p' \<and> (rm \<longrightarrow> pool_needed (xs @ ys) p')"
proof -
  have t: "tp_headers p (tb_block t) = Some (tb_page t, tb_size t)" using inv by (simp add: tp_inv_def tb_ok_def)
  show ?thesis
  proof (cases "tb_page t")
    case None
    from deallocate_backup [OF inv None] obtain s where s: "src_deallocate (src 1) (tb_block t) (tp_heap p) = Inr s"
      "tp_inv good (xs @ ys) pend rm (p\<lparr>tp_heap := s, tp_headers := (tp_headers p)(tb_block t := None)\<rparr>)" by blast
    then show ?thesis using t None rm by (simp add: tp_deallocate_raw_def temp_header_def pool_needed_def)
  next
    case (Some a)
    from deallocate_page [OF inv Some] obtain b b' where b: "page_at p a = Inr b"
      "page_release (ucast (tb_size t + temp_header)) b = Inr (rm \<and> tb_out (xs @ ys) a = 0, b')"
      "tp_inv good (xs @ ys) pend rm (put_page a b' p)" by blast
    let ?p = "put_page a b' p"
    have ne: "tp_chain p \<noteq> []" using live_in_page [OF inv _ Some] by fastforce
    have step: "tp_deallocate_raw (src 0) (src 1) (tb_block t + 16) (tb_size t) p =
        (if rm \<and> tb_out (xs @ ys) a = 0 then tp_try_purge (src 0) (src 1) ?p else Inr ?p)"
      using t Some b(1,2) ne by (simp add: tp_deallocate_raw_def temp_header_def Let_def tp_thread_defer_deinit_def)
    show ?thesis
    proof (cases "rm \<and> tb_out (xs @ ys) a = 0")
      case True
      then have "tp_inv good (xs @ ys) None True ?p" using b(3) rm by simp
      from try_purge_ok [OF this] show ?thesis
        using True step ne rm by (simp add: pool_needed_def split: sum.splits)
    next
      case False
      then show ?thesis using step b(3) ne by (auto simp: pool_needed_def tb_out_0)
    qed
  qed
qed

lemma thread_deinit_ok:
  assumes inv: "tp_inv good live None False p" and ne: "tp_chain p \<noteq> []"
  shows "case tp_thread_deinit (src 0) (src 1) p of Inl e \<Rightarrow> False
    | Inr p' \<Rightarrow> tp_inv good live None True p' \<and> pool_needed live p'"
proof -
  have dom: "dom (tp_pages p) = set (tp_chain p)" using inv by (simp add: tp_inv_def)
  have "mark_removing (tp_chain p) p = Inr (set_removing p)"
    using mark_removing_ok [of "tp_chain p" p] dom
    by (auto simp: set_removing_def fun_eq_iff intro!: arg_cong2 [where f = "\<lambda>q r. tp_pages_update q r"])
      (metis domIff option.simps(8))
  moreover have "tp_chain (set_removing p) \<noteq> []" using ne by (simp add: set_removing_def)
  ultimately show ?thesis
    using try_purge_ok [OF set_removing_inv [OF inv]] ne
    by (simp add: tp_thread_deinit_def pool_needed_def split: sum.splits)
qed

end

section \<open>Properties of the temporary allocator\<close>

text \<open>Blocks released one by one, by whichever thread holds them.\<close>

fun release_blocks :: "'s msource \<Rightarrow> 's msource \<Rightarrow> tblock list \<Rightarrow> 's tpool \<Rightarrow> 's tpool res" where
  "release_blocks core src [] p = Inr p"
| "release_blocks core src (t # ts) p =
    bindR (tp_deallocate_raw core src (tb_block t + 16) (tb_size t) p) (release_blocks core src ts)"

context owned_sources
begin

lemma thread_init_ok:
  assumes "granted good s {#}" "32896 \<le> limit"
  obtains (no) "tp_thread_init (src 0) s = Some (Inl AssertFail)"
  | (pool) p where "tp_thread_init (src 0) s = Some (Inr p)" "tp_inv good [] None False p" "tp_chain p \<noteq> []"
proof -
  have f: "fits limit 32832 64" using assms(2) by (auto simp: fits_def pow2_def intro: exI [of _ 6])
  from granted_grant [OF assms(1) f, of 0] show thesis
  proof cases
    case (1 s')
    then show ?thesis using no by (simp add: tp_thread_init_def)
  next
    case (2 a s')
    have "unat (64 :: addr) = 8 * 8" by simp
    then have "8 dvd unat a" using 2(2) by (metis dvd_mult_left)
    then show ?thesis
      using 2 new_page_nums(1) pool
      by (auto simp: tp_thread_init_def tp_inv_def tp_holds_def page_ok_def tb_out_def max_page_size_eq new_page_def)
  qed
qed

lemma release_blocks_ok:
  assumes "tp_inv good live None True p" "pool_needed live p" "mset ts + mset rest = mset live"
  shows "\<exists>live' p'. release_blocks (src 0) (src 1) ts p = Inr p' \<and> mset live' = mset rest \<and>
    tp_inv good live' None True p' \<and> pool_needed live' p'"
  using assms
proof (induction ts arbitrary: live p)
  case (Cons t ts)
  have "t \<in> set live" using Cons.prems(3) by (metis list.set_intros(1) set_mset_mset union_iff)
  then obtain xs ys where live: "live = xs @ t # ys" by (meson split_list)
  have rest: "mset ts + mset rest = mset (xs @ ys)" using Cons.prems(3) live by simp
  from temp_deallocate_ok [of xs t ys None True p] Cons.prems(1,2) live obtain p1 where
    "tp_deallocate_raw (src 0) (src 1) (tb_block t + 16) (tb_size t) p = Inr p1"
    "tp_inv good (xs @ ys) None True p1" "pool_needed (xs @ ys) p1"
    by (auto split: sum.splits)
  then show ?case using Cons.IH [OF _ _ rest, of p1] by simp
qed auto

end

text \<open>
  C25: \<^verbatim>\<open>AllocateRaw\<close> of the temporary allocator on the pool of a running thread returns.
  A block is aligned as requested, is apart (header included) from every block in use, whether
  it comes from a page of the pool or from the global allocator, and the invariant holds with it:
  it lies inside its page and its page is not used again before it is released.  While an
  allocation is between its two phases the global allocator serves.  Hypotheses: the core and the
  global allocator keep their contract (\<open>owned_sources\<close>) and can serve the request and a page; the
  alignment is a power of two up to 8.
\<close>

theorem temporary_blocks_apart:
  assumes "owned_sources good src limit" "tp_inv good live pend False p" "tp_chain p \<noteq> []"
    "pow2 al" "al \<le> 8" "unat n + 24 \<le> limit" "unat n < 2 ^ 62" "32896 \<le> limit"
  shows "case tp_allocate_raw (src 1) n al p of
      Some (Inr (None, p')) \<Rightarrow> tp_inv good live pend False p'
    | Some (Inr (Some ptr, p')) \<Rightarrow> unat al dvd unat ptr \<and>
        (\<exists>t. ptr = tb_block t + 16 \<and> tb_size t = n \<and> (\<forall>u\<in>set live. apart (tb_region t) (tb_region u)) \<and>
          (pend \<noteq> None \<longrightarrow> tb_page t = None) \<and> tp_inv good (t # live) pend False p')
    | _ \<Rightarrow> False"
  using owned_sources.temp_allocate_ok [OF assms]
  by (auto simp: got_block_def split: option.splits sum.splits) (auto simp: tp_inv_def)

text \<open>
  An allocation in two phases: \<^verbatim>\<open>AllocateTwoPhasePre\<close> returns a block of the global
  allocator, in use at once, or reserves the end of the current page.  Whatever is allocated and
  released in between, \<^verbatim>\<open>AllocateTwoPhasePost\<close> with a size up to the reserved one succeeds and the
  block, in the reserved place, is apart from every block in use.  Hypotheses as for
  \<^verbatim>\<open>AllocateRaw\<close>, and no other allocation is between its phases.
\<close>

theorem two_phase_allocation_keeps_place:
  assumes "owned_sources good src limit" "tp_inv good live None False p" "tp_chain p \<noteq> []"
    "n mod al = 0" "unat n + 24 \<le> limit" "unat n < 2 ^ 62" "32896 \<le> limit"
  shows "case tp_two_phase_pre (src 1) al n p of
      Some (Inr (None, p')) \<Rightarrow> tp_inv good live None False p'
    | Some (Inr (Some ptr, p')) \<Rightarrow>
        (\<exists>t. ptr = tb_block t + 16 \<and> tb_size t = n \<and> tb_page t = None \<and> tp_inv good (t # live) None False p') \<or>
        tp_inv good live (Some (ptr - 16, n)) False p' \<and>
        (\<forall>live' q k. tp_inv good live' (Some (ptr - 16, n)) False q \<and> unat k \<le> unat n \<longrightarrow>
          (case tp_two_phase_post ptr k q of
             Inr (done, q') \<Rightarrow> done \<and> (\<exists>t. ptr = tb_block t + 16 \<and> tb_size t = k \<and> tb_page t = Some (tp_current q) \<and>
               (\<forall>u\<in>set live'. apart (tb_region t) (tb_region u)) \<and> tp_inv good (t # live') None False q')
           | Inl e \<Rightarrow> False))
    | _ \<Rightarrow> False"
proof -
  have post: "case tp_two_phase_post ptr k q of
      Inr (done, q') \<Rightarrow> done \<and> (\<exists>t. ptr = tb_block t + 16 \<and> tb_size t = k \<and> tb_page t = Some (tp_current q) \<and>
        (\<forall>u\<in>set live'. apart (tb_region t) (tb_region u)) \<and> tp_inv good (t # live') None False q')
    | Inl e \<Rightarrow> False"
    if "tp_inv good live' (Some (ptr - 16, n)) False q" "unat k \<le> unat n" for live' q k ptr
  proof -
    let ?t = "\<lparr>tb_block = ptr - 16, tb_size = k, tb_page = Some (tp_current q)\<rparr>"
    from two_phase_post_ok [OF that] obtain q' where q': "tp_two_phase_post ptr k q = Inr (True, q')"
      "tp_inv good (?t # live') None False q'" by (auto split: sum.splits)
    then have "\<forall>u\<in>set live'. apart (tb_region ?t) (tb_region u)" by (simp add: tp_inv_def)
    then show ?thesis using q' by (auto intro!: exI [of _ ?t])
  qed
  from owned_sources.two_phase_pre_ok [OF assms] show ?thesis
    using post by (simp split: option.splits sum.splits) blast
qed

text \<open>
  A thread ends with blocks still in use, and some of them (\<open>ts\<close>) are released
  afterwards, in any order and by any thread.  Neither \<^verbatim>\<open>ThreadDeinit\<close> nor a release runs into an
  assertion or freed memory; the pool is there exactly as long as one of the blocks in use lies in
  it; the allocators are owed exactly what is in use, so that after the last release all of the
  pool has been given back.  The hypothesis is the invariant of the pool of a running thread.
\<close>

theorem ended_thread_returns_pool:
  assumes "owned_sources good src limit" "tp_inv good live None False p" "tp_chain p \<noteq> []"
    "mset ts + mset rest = mset live"
  shows "case bindR (tp_thread_deinit (src 0) (src 1) p) (release_blocks (src 0) (src 1) ts) of
      Inr p' \<Rightarrow> (tp_chain p' = [] \<longleftrightarrow> (\<forall>t\<in>set rest. tb_page t = None)) \<and>
        (\<exists>live'. mset live' = mset rest \<and> tp_inv good live' None True p') \<and>
        (rest = [] \<longrightarrow> granted good (tp_heap p') {#})
    | Inl e \<Rightarrow> False"
proof -
  from owned_sources.thread_deinit_ok [OF assms(1-3)] obtain p1 where p1: "tp_thread_deinit (src 0) (src 1) p = Inr p1"
    "tp_inv good live None True p1" "pool_needed live p1" by (auto split: sum.splits)
  from owned_sources.release_blocks_ok [OF assms(1) p1(2,3) assms(4)] obtain live' p' where
    p': "release_blocks (src 0) (src 1) ts p1 = Inr p'" "mset live' = mset rest"
      "tp_inv good live' None True p'" "pool_needed live' p'" by blast
  have same: "set live' = set rest" using p'(2) by (metis set_mset_mset)
  have "granted good (tp_heap p') {#}" if "rest = []"
    using p'(2-4) that by (auto simp: tp_inv_def pool_needed_def tp_holds_def)
  then show ?thesis using p1(1) p' same by (auto simp: pool_needed_def)
qed

text \<open>
  An allocation whose second phase never comes leaves its page locked, and the pool
  serves no request any more: every allocation of the thread goes to the global allocator.
  \<^verbatim>\<open>LogEvent\<close> does that: its constructor takes the first phase, and its destructor returns without
  the second when tracing is not initialized.
\<close>

theorem abandoned_allocation_disables_pool:
  assumes "tp_inv good live (Some reserved) False p" "al \<le> 8"
  shows "tp_get_page src len p = Some (Inr (None, p)) \<and> tp_allocate_raw src n al p = tp_backup src n al p"
proof -
  have "tp_chain p \<noteq> []" using assms(1) by (auto simp: tp_inv_def pend_ok_def split: option.splits)
  then obtain b where "tp_pages p (tp_current p) = Some b" "page_ok live (Some reserved) False p (tp_current p) b"
    using current_page [OF assms(1)] by blast
  then show ?thesis using assms(2) by (simp add: tp_allocate_raw_def tp_get_page_def page_at_ok page_ok_def)
qed

section \<open>A pool in memory\<close>

definition temp_src :: "nat \<Rightarrow> unit lmem msource" where
  "temp_src = (\<lambda>_. mono_source exhausted_source)"

abbreviation temp_good :: "unit lmem \<Rightarrow> (nat \<times> region) list \<Rightarrow> bool" where
  "temp_good \<equiv> (\<lambda>s rs. lm_inv (\<lambda>(_ :: unit) _. True) (2 ^ 28 + 8) [(4096, 65536)] s (map snd rs))"

definition temp_pool :: "unit lmem tpool" where
  "temp_pool = (case tp_thread_init (temp_src 0) (mono_new 4096 65536 ()) of
     Some (Inr p) \<Rightarrow> p | _ \<Rightarrow> \<lparr>tp_pages = Map.empty, tp_chain = [], tp_current = 0, tp_headers = Map.empty, tp_heap = mono_new 0 0 ()\<rparr>)"

lemma temp_source: "owned_sources temp_good temp_src (2 ^ 28 + 8)"
  unfolding temp_src_def using mono_owners.owned_sources_axioms by simp

lemmas temp_eval = temp_src_def mono_source_def mono_allocate_def lm_allocate.simps mono_new_def
    allocate_from_block_def lm_rewind_def lm_put_def lm_active_capacity_def Let_def align_address_def byte_align_position_def
    byte_align_offset_def mod2_def

lemma temp_init: "\<exists>p. tp_thread_init (temp_src 0) (mono_new 4096 65536 ()) = Some (Inr p)"
  by (simp add: tp_thread_init_def temp_eval)

lemma temp_pool_ok: "tp_inv temp_good [] None False temp_pool" "tp_chain temp_pool \<noteq> []"
proof -
  have "lm_inv (\<lambda>(_ :: unit) _. True) (2 ^ 28 + 8) [(4096, 65536)] (mono_new 4096 65536 ()) []"
    by (rule mono_new_inv) simp_all
  then have g: "granted temp_good (mono_new 4096 65536 ()) {#}" by (simp add: granted_def)
  obtain p where p: "tp_thread_init (temp_src 0) (mono_new 4096 65536 ()) = Some (Inr p)" using temp_init by blast
  have "tp_inv temp_good [] None False p \<and> tp_chain p \<noteq> []"
    by (rule owned_sources.thread_init_ok [OF temp_source g]) (use p in auto)
  then show "tp_inv temp_good [] None False temp_pool" "tp_chain temp_pool \<noteq> []"
    using p by (simp_all add: temp_pool_def)
qed

lemmas temp_ops = temp_pool_def tp_thread_init_def new_page_def tp_get_page_def page_at_def max_page_size_def
    temp_header_def tp_peek_def page_peek_def put_page_def page_buffer_def set_header_def tp_acquire_def page_acquire_def
    align8_def

lemma temp_allocate: "\<exists>p'. tp_allocate_raw (temp_src 1) 100 8 temp_pool = Some (Inr (Some 4184, p'))"
  by (simp add: tp_allocate_raw_def temp_ops temp_eval)

lemma temp_reserve: "\<exists>p'. tp_two_phase_pre (temp_src 1) 8 64 temp_pool = Some (Inr (Some 4184, p')) \<and>
    tp_headers p' 4168 = Some (Some 4096, 64)"
  by (simp add: tp_two_phase_pre_def temp_ops temp_eval)

lemma pow2_8: "pow2 8"
  unfolding pow2_def by (rule exI [of _ 3]) simp

lemma temporary_blocks_apart_witness:
  "\<exists>t p'. tp_allocate_raw (temp_src 1) 100 8 temp_pool = Some (Inr (Some 4184, p')) \<and> tb_block t + 16 = 4184 \<and>
    tp_inv temp_good [t] None False p'"
proof -
  have "unat (100 :: addr) + 24 \<le> 2 ^ 28 + 8" "unat (100 :: addr) < 2 ^ 62" "(32896 :: nat) \<le> 2 ^ 28 + 8" by simp_all
  from temporary_blocks_apart [OF temp_source temp_pool_ok pow2_8 _ this] temp_allocate show ?thesis by force
qed

lemma temp_in_page:
  assumes "tp_headers p 4168 = Some (Some a, n)" "4184 = tb_block t + 16" "tp_inv good [t] None False p"
  shows "tb_page t \<noteq> None"
proof -
  have "tb_block t = 4184 - 16" using assms(2) by (metis add_diff_cancel)
  moreover have "tp_headers p (tb_block t) = Some (tb_page t, tb_size t)" using assms(3) by (simp add: tp_inv_def tb_ok_def)
  ultimately show ?thesis using assms(1) by (cases "tb_page t") auto
qed

lemma temp_reserved:
  obtains p' where "tp_two_phase_pre (temp_src 1) 8 64 temp_pool = Some (Inr (Some 4184, p'))"
    "tp_inv temp_good [] (Some (4168, 64)) False p'"
proof -
  obtain p' where p': "tp_two_phase_pre (temp_src 1) 8 64 temp_pool = Some (Inr (Some 4184, p'))"
    "tp_headers p' 4168 = Some (Some 4096, 64)" using temp_reserve by blast
  have "tb_page t \<noteq> None" if "4184 = tb_block t + 16" "tp_inv temp_good [t] None False p'" for t
    by (rule temp_in_page [OF p'(2) that])
  moreover have "(64 :: addr) mod 8 = 0" "unat (64 :: addr) + 24 \<le> 2 ^ 28 + 8" "unat (64 :: addr) < 2 ^ 62"
    "(32896 :: nat) \<le> 2 ^ 28 + 8" by simp_all
  note owned_sources.two_phase_pre_ok [OF temp_source temp_pool_ok this]
  ultimately show thesis using that p'(1) by fastforce
qed

lemma two_phase_allocation_keeps_place_witness:
  "\<exists>p'. tp_two_phase_pre (temp_src 1) 8 64 temp_pool = Some (Inr (Some 4184, p')) \<and>
    (case tp_two_phase_post 4184 40 p' of
       Inr (done, q') \<Rightarrow> done \<and> (\<exists>t. tb_size t = 40 \<and> tp_inv temp_good [t] None False q')
     | Inl e \<Rightarrow> False)"
proof -
  obtain p' where p': "tp_two_phase_pre (temp_src 1) 8 64 temp_pool = Some (Inr (Some 4184, p'))"
    "tp_headers p' 4168 = Some (Some 4096, 64)" using temp_reserve by blast
  have page: "tb_page t \<noteq> None" if "4184 = tb_block t + 16" "tp_inv temp_good [t] None False p'" for t
    by (rule temp_in_page [OF p'(2) that])
  have "(64 :: addr) mod 8 = 0" "unat (64 :: addr) + 24 \<le> 2 ^ 28 + 8" "unat (64 :: addr) < 2 ^ 62"
    "(32896 :: nat) \<le> 2 ^ 28 + 8" by simp_all
  from two_phase_allocation_keeps_place [OF temp_source temp_pool_ok this] p'(1) page
  have inv: "tp_inv temp_good [] (Some (4168, 64)) False p'"
    and post: "\<And>live' q k. tp_inv temp_good live' (Some (4168, 64)) False q \<Longrightarrow> unat k \<le> 64 \<Longrightarrow>
      case tp_two_phase_post 4184 k q of
        Inr (done, q') \<Rightarrow> done \<and> (\<exists>t. 4184 = tb_block t + 16 \<and> tb_size t = k \<and> tb_page t = Some (tp_current q) \<and>
          (\<forall>u\<in>set live'. apart (tb_region t) (tb_region u)) \<and> tp_inv temp_good (t # live') None False q')
      | Inl e \<Rightarrow> False"
    by fastforce+
  have "unat (40 :: addr) \<le> 64" by simp
  from post [OF inv this] p'(1) show ?thesis by (fastforce split: sum.splits)
qed

lemma ended_thread_returns_pool_witness:
  "\<exists>t p p'. tp_allocate_raw (temp_src 1) 100 8 temp_pool = Some (Inr (Some (tb_block t + 16), p)) \<and>
    bindR (tp_thread_deinit (temp_src 0) (temp_src 1) p) (release_blocks (temp_src 0) (temp_src 1) [t]) = Inr p' \<and>
    tp_chain p' = [] \<and> granted temp_good (tp_heap p') {#}"
proof -
  have n: "unat (100 :: addr) + 24 \<le> 2 ^ 28 + 8" "unat (100 :: addr) < 2 ^ 62" "(32896 :: nat) \<le> 2 ^ 28 + 8" by simp_all
  obtain p where p: "tp_allocate_raw (temp_src 1) 100 8 temp_pool = Some (Inr (Some 4184, p))" using temp_allocate by blast
  from owned_sources.temp_allocate_ok [OF temp_source temp_pool_ok pow2_8 _ n] p
  obtain t where t: "tb_block t + 16 = 4184" "tp_inv temp_good [t] None False p" "tp_chain p \<noteq> []"
    by (fastforce simp: got_block_def)
  from ended_thread_returns_pool [OF temp_source t(2,3), of "[t]" "[]"] p t(1) show ?thesis
    by (fastforce split: sum.splits)
qed

lemma abandoned_allocation_disables_pool_witness:
  "\<exists>p. tp_two_phase_pre (temp_src 1) 8 64 temp_pool = Some (Inr (Some 4184, p)) \<and>
    tp_allocate_raw (temp_src 1) 8 8 p = tp_backup (temp_src 1) 8 8 p"
proof -
  obtain p where p: "tp_two_phase_pre (temp_src 1) 8 64 temp_pool = Some (Inr (Some 4184, p))"
    "tp_inv temp_good [] (Some (4168, 64)) False p" by (rule temp_reserved)
  from abandoned_allocation_disables_pool [OF p(2), of 8 "temp_src 1" 0 8] p(1) show ?thesis by auto
qed

end
