(* ===== verification/TemporaryEnds.thy ===== *)
theory TemporaryEnds
  imports JobRuns
begin

text \<open>
  The end of a thread that has temporary memory in use: \<^verbatim>\<open>ThreadDeinit\<close>,
  \<^verbatim>\<open>ThreadDeferDeinit\<close> and \<^verbatim>\<open>BytePage::Release\<close> of
  \<^verbatim>\<open>temporary/TemporaryAllocator.h\<close> and \<^verbatim>\<open>TemporaryAllocator.cpp\<close>, step by step.

  Thread 0 ends; every other thread releases one block that it holds, at any time.  One step is
  one access to a field of a page, to the registry or to its mutex; the loops over the pages take
  a step for each page.  A page is a number below \<open>te_num\<close>, the default page 0; \<open>te_freed\<close> marks
  the pages that have been destroyed, and touching one of them is \<open>BadAccess\<close>.  The thread that
  ends produces no more bytes.
\<close>

section \<open>Threads and the pool they share\<close>

record epool =
  te_num :: nat
  te_produced :: "nat \<Rightarrow> nat"
  te_consumed :: "nat \<Rightarrow> nat"
  te_removing :: "nat \<Rightarrow> bool"
  te_freed :: "nat \<Rightarrow> bool"
  te_registered :: bool
  te_locked :: bool

datatype epc = DLock | DFind | DMark nat
  | RAssert nat nat | RAdd nat nat | RFlag nat | RLast nat | RSource nat | RLock | RFind
  | PCheck nat bool | PPage nat | PDelete | PErase | PUnlock | PDone

definition on_page :: "nat \<Rightarrow> epool \<Rightarrow> 'a res \<Rightarrow> 'a res" where
  "on_page k s r = (if k < te_num s \<and> \<not> te_freed s k then r else Inl BadAccess)"

definition complete :: "epool \<Rightarrow> nat \<Rightarrow> bool" where
  "complete s k \<longleftrightarrow> te_consumed s k = te_produced s k"

text \<open>
  \<open>D\<close>: the thread that ends.  \<open>R\<close>: \<^verbatim>\<open>Release\<close> and, from \<open>RLock\<close> on,
  \<^verbatim>\<open>ThreadDeferDeinit\<close>.  \<open>P\<close>: \<^verbatim>\<open>TryPurgePool\<close>, with the mutex held.
\<close>

definition end_step :: "epc \<Rightarrow> epool \<Rightarrow> (epc \<times> epool) run" where
  "end_step pc s = (case pc of
     DLock \<Rightarrow> if te_locked s then None else Some (Inr (DFind, s\<lparr>te_locked := True\<rparr>))
   | DFind \<Rightarrow> Some (assertR (te_registered s) (Inr (DMark 0, s)))
   | DMark k \<Rightarrow> Some (if k < te_num s
       then on_page k s (Inr (DMark (k + 1), s\<lparr>te_removing := (te_removing s)(k := True)\<rparr>))
       else Inr (PCheck 0 True, s))
   | RAssert k n \<Rightarrow> Some (on_page k s (assertR (te_consumed s k + n \<le> te_produced s k) (Inr (RAdd k n, s))))
   | RAdd k n \<Rightarrow> Some (on_page k s (Inr (RFlag k, s\<lparr>te_consumed := (te_consumed s)(k := te_consumed s k + n)\<rparr>)))
   | RFlag k \<Rightarrow> Some (on_page k s (Inr (if te_removing s k then RLast k else PDone, s)))
   | RLast k \<Rightarrow> Some (on_page k s (Inr (if complete s k then RSource k else PDone, s)))
   | RSource k \<Rightarrow> Some (on_page k s (Inr (RLock, s)))
   | RLock \<Rightarrow> if te_locked s then None else Some (Inr (RFind, s\<lparr>te_locked := True\<rparr>))
   | RFind \<Rightarrow> Some (Inr (if te_registered s then PCheck 0 True else PUnlock, s))
   | PCheck k ok \<Rightarrow> Some (if k < te_num s then on_page k s (Inr (PCheck (k + 1) (ok \<and> complete s k), s))
       else Inr (if ok then PPage 1 else PUnlock, s))
   | PPage k \<Rightarrow> Some (if k < te_num s
       then on_page k s (assertR (te_removing s k) (assertR (complete s k)
         (Inr (PPage (k + 1), s\<lparr>te_freed := (te_freed s)(k := True)\<rparr>))))
       else Inr (PDelete, s))
   | PDelete \<Rightarrow> Some (on_page 0 s (Inr (PErase, s\<lparr>te_freed := (te_freed s)(0 := True)\<rparr>)))
   | PErase \<Rightarrow> Some (Inr (PUnlock, s\<lparr>te_registered := False\<rparr>))
   | PUnlock \<Rightarrow> Some (Inr (PDone, s\<lparr>te_locked := False\<rparr>))
   | PDone \<Rightarrow> None)"

record ends =
  en_pool :: epool
  en_threads :: "epc list"

definition end_act :: "unit \<Rightarrow> nat \<Rightarrow> ends \<Rightarrow> ends run" where
  "end_act u i st = (if i < length (en_threads st)
     then bindO (end_step (en_threads st ! i) (en_pool st)) (\<lambda>(pc, s).
       Some (Inr \<lparr>en_pool = s, en_threads = (en_threads st)[i := pc]\<rparr>))
     else None)"

text \<open>
  A pool of \<open>n\<close> pages from which \<open>used k\<close> bytes of page \<open>k\<close> have been released already and the
  blocks (page, size) are in use.
\<close>

definition end_init :: "nat \<Rightarrow> (nat \<Rightarrow> nat) \<Rightarrow> (nat \<times> nat) list \<Rightarrow> ends" where
  "end_init n used blocks =
    \<lparr>en_pool = \<lparr>te_num = n, te_produced = \<lambda>k. used k + (\<Sum>(j, m)\<leftarrow>blocks. if j = k then m else 0), te_consumed = used,
       te_removing = \<lambda>_. False, te_freed = \<lambda>_. False, te_registered = True, te_locked = False\<rparr>,
     en_threads = DLock # map (\<lambda>(k, m). RAssert k m) blocks\<rparr>"

section \<open>The invariant\<close>

definition holds_lock :: "epc \<Rightarrow> nat" where
  "holds_lock pc = (case pc of DFind \<Rightarrow> 1 | DMark _ \<Rightarrow> 1 | RFind \<Rightarrow> 1 | PCheck _ _ \<Rightarrow> 1 | PPage _ \<Rightarrow> 1
     | PDelete \<Rightarrow> 1 | PErase \<Rightarrow> 1 | PUnlock \<Rightarrow> 1 | _ \<Rightarrow> 0)"

text \<open>The bytes of page \<open>k\<close> that a thread has yet to release.\<close>

definition holds_bytes :: "nat \<Rightarrow> epc \<Rightarrow> nat" where
  "holds_bytes k pc = (case pc of RAssert j m \<Rightarrow> if j = k then m else 0 | RAdd j m \<Rightarrow> if j = k then m else 0 | _ \<Rightarrow> 0)"

definition all_complete :: "epool \<Rightarrow> bool" where
  "all_complete s \<longleftrightarrow> (\<forall>k<te_num s. complete s k)"

definition all_removing :: "epool \<Rightarrow> bool" where
  "all_removing s \<longleftrightarrow> (\<forall>k<te_num s. te_removing s k)"

definition whole :: "epool \<Rightarrow> bool" where
  "whole s \<longleftrightarrow> te_registered s \<and> (\<forall>k<te_num s. \<not> te_freed s k)"

text \<open>What a thread relies on.\<close>

definition thread_ok :: "epool \<Rightarrow> epc \<Rightarrow> bool" where
  "thread_ok s pc = (case pc of
     DLock \<Rightarrow> whole s \<and> (\<forall>k<te_num s. \<not> te_removing s k)
   | DFind \<Rightarrow> whole s \<and> (\<forall>k<te_num s. \<not> te_removing s k)
   | DMark k \<Rightarrow> whole s \<and> k \<le> te_num s \<and> (\<forall>j<te_num s. te_removing s j \<longleftrightarrow> j < k)
   | RAssert k m \<Rightarrow> k < te_num s \<and> 0 < m
   | RAdd k m \<Rightarrow> k < te_num s \<and> 0 < m
   | RFlag k \<Rightarrow> k < te_num s
   | RLast k \<Rightarrow> k < te_num s \<and> te_removing s k
   | RSource k \<Rightarrow> k < te_num s \<and> te_removing s k
   | RLock \<Rightarrow> \<exists>k<te_num s. te_removing s k
   | RFind \<Rightarrow> all_removing s
   | PCheck k ok \<Rightarrow> all_removing s \<and> whole s \<and> k \<le> te_num s \<and> (ok \<longrightarrow> (\<forall>j<k. complete s j))
   | PPage k \<Rightarrow> all_removing s \<and> te_registered s \<and> all_complete s \<and> 1 \<le> k \<and> k \<le> te_num s \<and>
       (\<forall>j<te_num s. te_freed s j \<longleftrightarrow> 1 \<le> j \<and> j < k)
   | PDelete \<Rightarrow> all_removing s \<and> te_registered s \<and> all_complete s \<and> (\<forall>j<te_num s. te_freed s j \<longleftrightarrow> 1 \<le> j)
   | PErase \<Rightarrow> all_removing s \<and> te_registered s \<and> all_complete s \<and> (\<forall>j<te_num s. te_freed s j)
   | PUnlock \<Rightarrow> all_removing s
   | PDone \<Rightarrow> True)"

definition ending :: "epc \<Rightarrow> bool" where
  "ending pc \<longleftrightarrow> (case pc of DLock \<Rightarrow> True | DFind \<Rightarrow> True | DMark _ \<Rightarrow> True | _ \<Rightarrow> False)"

definition purging :: "epc \<Rightarrow> bool" where
  "purging pc \<longleftrightarrow> (case pc of PPage _ \<Rightarrow> True | PDelete \<Rightarrow> True | PErase \<Rightarrow> True | _ \<Rightarrow> False)"

text \<open>A thread that will delete the pool if all of it is complete.\<close>

definition responsible :: "epc \<Rightarrow> bool" where
  "responsible pc \<longleftrightarrow> (case pc of RAssert _ _ \<Rightarrow> False | RAdd _ _ \<Rightarrow> False | PCheck _ ok \<Rightarrow> ok | PUnlock \<Rightarrow> False
     | PDone \<Rightarrow> False | _ \<Rightarrow> True)"

definition ends_inv :: "ends \<Rightarrow> bool" where
  "ends_inv st \<longleftrightarrow> (let s = en_pool st; ts = en_threads st in
     0 < te_num s \<and> ts \<noteq> [] \<and> tot holds_lock ts = of_bool (te_locked s) \<and>
     (\<forall>k<te_num s. te_produced s k = te_consumed s k + tot (holds_bytes k) ts) \<and>
     (\<forall>i<length ts. thread_ok s (ts ! i)) \<and>
     (\<forall>i<length ts. ending (ts ! i) \<longrightarrow> i = 0) \<and>
     (\<not> ending (ts ! 0) \<longrightarrow> all_removing s) \<and>
     ((\<forall>i<length ts. \<not> purging (ts ! i)) \<longrightarrow> (\<forall>k<te_num s. te_freed s k \<longleftrightarrow> \<not> te_registered s)) \<and>
     (\<not> te_registered s \<longrightarrow> all_complete s) \<and>
     (all_complete s \<and> te_registered s \<longrightarrow> (\<exists>i<length ts. responsible (ts ! i))))"

lemmas pc_defs = holds_lock_def ending_def purging_def responsible_def

lemmas step_defs = end_step_def on_page_def assertR_def

text \<open>What one step changes.\<close>

lemma step_frame:
  assumes "end_step pc s = Some (Inr (pc', s'))"
  shows "te_num s' = te_num s" "te_produced s' = te_produced s"
    "\<And>k. te_removing s k \<Longrightarrow> te_removing s' k"
    "\<And>k. te_consumed s' k + holds_bytes k pc' = te_consumed s k + holds_bytes k pc"
    "(holds_lock pc = 1 \<longrightarrow> te_locked s) \<Longrightarrow> holds_lock pc' + of_bool (te_locked s) = holds_lock pc + of_bool (te_locked s')"
    "ending pc' \<Longrightarrow> ending pc"
    "\<not> purging pc \<Longrightarrow> te_freed s' = te_freed s \<and> te_registered s' = te_registered s"
    "\<not> ending pc \<Longrightarrow> te_removing s' = te_removing s"
  using assms by (cases pc; auto simp: step_defs pc_defs holds_bytes_def split: if_splits)+

lemma step_complete:
  assumes "end_step pc s = Some (Inr (pc', s'))" "\<And>k n. pc = RAdd k n \<Longrightarrow> \<not> complete s k"
  shows "\<And>j. complete s j \<Longrightarrow> complete s' j"
  using assms by (cases pc) (auto simp: step_defs complete_def split: if_splits)

lemma step_thread_ok:
  assumes "end_step pc s = Some (Inr (pc', s'))" "thread_ok s pc" "0 < te_num s"
    "holds_lock pc = 1 \<Longrightarrow> \<not> purging pc \<Longrightarrow> \<forall>k<te_num s. te_freed s k \<longleftrightarrow> \<not> te_registered s"
    "pc = RLock \<Longrightarrow> \<not> te_locked s \<Longrightarrow> all_removing s"
  shows "thread_ok s' pc'"
  using assms
  by (cases pc) (auto simp: step_defs thread_ok_def pc_defs whole_def all_removing_def all_complete_def complete_def
      less_Suc_eq split: if_splits)

lemma step_removing:
  assumes "end_step pc s = Some (Inr (pc', s'))" "thread_ok s pc" "ending pc" "\<not> ending pc'"
  shows "all_removing s'"
  using assms by (cases pc) (auto simp: step_defs thread_ok_def pc_defs all_removing_def split: if_splits)

lemma step_purged:
  assumes "end_step pc s = Some (Inr (pc', s'))" "thread_ok s pc" "purging pc" "\<not> purging pc'"
  shows "(\<forall>k<te_num s'. te_freed s' k) \<and> \<not> te_registered s' \<and> all_complete s'"
  using assms by (cases pc) (auto simp: step_defs thread_ok_def pc_defs all_complete_def complete_def split: if_splits)

text \<open>The threads that do not hold the mutex rely on nothing that its holder changes.\<close>

lemma thread_ok_other:
  assumes "thread_ok s pc" "holds_lock pc = 0" "pc \<noteq> DLock" "te_num s' = te_num s" "\<And>k. te_removing s k \<Longrightarrow> te_removing s' k"
  shows "thread_ok s' pc"
  using assms by (cases pc) (auto simp: thread_ok_def holds_lock_def)

lemma thread_ok_mono:
  assumes "thread_ok s pc" "te_num s' = te_num s" "te_removing s' = te_removing s" "te_freed s' = te_freed s"
    "te_registered s' = te_registered s" "\<And>j. complete s j \<Longrightarrow> complete s' j"
  shows "thread_ok s' pc"
  using assms by (cases pc) (auto simp: thread_ok_def whole_def all_removing_def all_complete_def)

lemma ends_invD:
  assumes "ends_inv st"
  shows "0 < te_num (en_pool st)" "en_threads st \<noteq> []"
    "tot holds_lock (en_threads st) = of_bool (te_locked (en_pool st))"
    "\<And>k. k < te_num (en_pool st) \<Longrightarrow> te_produced (en_pool st) k = te_consumed (en_pool st) k + tot (holds_bytes k) (en_threads st)"
    "\<And>i. i < length (en_threads st) \<Longrightarrow> thread_ok (en_pool st) (en_threads st ! i)"
    "\<And>i. i < length (en_threads st) \<Longrightarrow> ending (en_threads st ! i) \<Longrightarrow> i = 0"
    "\<not> ending (en_threads st ! 0) \<Longrightarrow> all_removing (en_pool st)"
    "\<And>k. \<forall>i<length (en_threads st). \<not> purging (en_threads st ! i) \<Longrightarrow> k < te_num (en_pool st) \<Longrightarrow>
      te_freed (en_pool st) k \<longleftrightarrow> \<not> te_registered (en_pool st)"
    "\<not> te_registered (en_pool st) \<Longrightarrow> all_complete (en_pool st)"
    "all_complete (en_pool st) \<Longrightarrow> te_registered (en_pool st) \<Longrightarrow> \<exists>i<length (en_threads st). responsible (en_threads st ! i)"
  using assms unfolding ends_inv_def Let_def by blast+

lemma lock_of:
  assumes "ends_inv st" "i < length (en_threads st)" "holds_lock (en_threads st ! i) = 1"
  shows "te_locked (en_pool st)" "\<And>j. j < length (en_threads st) \<Longrightarrow> j \<noteq> i \<Longrightarrow> holds_lock (en_threads st ! j) = 0"
proof -
  have "1 \<le> tot holds_lock (en_threads st)" using tot_member [OF assms(2), of holds_lock] assms(3) by simp
  then show l: "te_locked (en_pool st)" using ends_invD(3) [OF assms(1)] by (cases "te_locked (en_pool st)") auto
  fix j
  assume j: "j < length (en_threads st)" "j \<noteq> i"
  have "tot holds_lock ((en_threads st)[i := PDone]) + 1 = tot holds_lock (en_threads st)"
    using tot_update [OF assms(2), of holds_lock PDone] assms(3) by (simp add: holds_lock_def)
  then have "tot holds_lock ((en_threads st)[i := PDone]) = 0" using ends_invD(3) [OF assms(1)] l by simp
  then show "holds_lock (en_threads st ! j) = 0" using j by (auto simp: tot_zero_iff dest: spec [of _ j])
qed

lemma freed_complete:
  assumes "ends_inv st" "k < te_num (en_pool st)" "te_freed (en_pool st) k"
  shows "all_complete (en_pool st)"
proof (cases "\<exists>i<length (en_threads st). purging (en_threads st ! i)")
  case True
  then obtain i where i: "i < length (en_threads st)" "purging (en_threads st ! i)" by blast
  from ends_invD(5) [OF assms(1) i(1)] i(2) show ?thesis
    by (cases "en_threads st ! i") (auto simp: thread_ok_def purging_def)
next
  case False
  then show ?thesis using ends_invD(8,9) [OF assms(1)] assms(2,3) by blast
qed

lemma holder_sees:
  assumes "ends_inv st" "i < length (en_threads st)" "holds_lock (en_threads st ! i) = 1" "\<not> purging (en_threads st ! i)"
  shows "\<forall>k<te_num (en_pool st). te_freed (en_pool st) k \<longleftrightarrow> \<not> te_registered (en_pool st)"
proof -
  have "\<not> purging (en_threads st ! j)" if j: "j < length (en_threads st)" for j
  proof (cases "j = i")
    case False
    then have "holds_lock (en_threads st ! j) = 0" using lock_of(2) [OF assms(1-3)] j by blast
    then show ?thesis by (cases "en_threads st ! j") (auto simp: holds_lock_def purging_def)
  qed (use assms(4) in simp)
  then show ?thesis using ends_invD(8) [OF assms(1)] by blast
qed

lemma block_in_use:
  assumes "ends_inv st" "i < length (en_threads st)" "en_threads st ! i \<in> {RAssert k n, RAdd k n}"
  shows "k < te_num (en_pool st)" "\<not> te_freed (en_pool st) k" "\<not> complete (en_pool st) k"
    "te_consumed (en_pool st) k + n \<le> te_produced (en_pool st) k"
proof -
  from ends_invD(5) [OF assms(1,2)] assms(3) show k: "k < te_num (en_pool st)" by (auto simp: thread_ok_def)
  have n: "0 < n" using ends_invD(5) [OF assms(1,2)] assms(3) by (auto simp: thread_ok_def)
  have "n \<le> tot (holds_bytes k) (en_threads st)"
    using tot_member [OF assms(2), of "holds_bytes k"] assms(3) by (auto simp: holds_bytes_def)
  then show "te_consumed (en_pool st) k + n \<le> te_produced (en_pool st) k"
    using ends_invD(4) [OF assms(1) k] by simp
  then show c: "\<not> complete (en_pool st) k" using n by (simp add: complete_def)
  then show "\<not> te_freed (en_pool st) k" using freed_complete [OF assms(1) k] k by (auto simp: all_complete_def)
qed

text \<open>Once a page is marked and the mutex is free, all pages are.\<close>

lemma marked_all:
  assumes inv: "ends_inv st" and k: "k < te_num (en_pool st)" "te_removing (en_pool st) k" and free: "\<not> te_locked (en_pool st)"
  shows "all_removing (en_pool st)"
proof (cases "ending (en_threads st ! 0)")
  case True
  have 0: "0 < length (en_threads st)" using ends_invD(2) [OF inv] by simp
  have "holds_lock (en_threads st ! 0) \<noteq> 1" using lock_of(1) [OF inv 0] free by blast
  then have "en_threads st ! 0 = DLock" using True by (cases "en_threads st ! 0") (auto simp: ending_def holds_lock_def)
  then show ?thesis using ends_invD(5) [OF inv 0] k by (auto simp: thread_ok_def)
qed (rule ends_invD(7) [OF inv])

text \<open>While the owner waits for the mutex, no thread is past the flag of a page.\<close>

lemma owner_waits:
  assumes inv: "ends_inv st" and i: "i < length (en_threads st)" "i \<noteq> 0" and owner: "en_threads st ! 0 = DLock"
  shows "holds_lock (en_threads st ! i) = 0" "en_threads st ! i \<noteq> RLock"
proof -
  have 0: "0 < length (en_threads st)" using ends_invD(2) [OF inv] by simp
  have no: "\<forall>k<te_num (en_pool st). \<not> te_removing (en_pool st) k"
    using ends_invD(5) [OF inv 0] owner by (simp add: thread_ok_def)
  have "\<not> ending (en_threads st ! i)" using ends_invD(6) [OF inv i(1)] i(2) by blast
  then show "holds_lock (en_threads st ! i) = 0" "en_threads st ! i \<noteq> RLock"
    using ends_invD(5) [OF inv i(1)] no ends_invD(1) [OF inv]
    by (cases "en_threads st ! i"; auto simp: thread_ok_def holds_lock_def ending_def all_removing_def)+
qed

lemma other_thread_ok:
  assumes inv: "ends_inv st" and i: "i < length (en_threads st)" and j: "j < length (en_threads st)" "j \<noteq> i"
    and step: "end_step (en_threads st ! i) (en_pool st) = Some (Inr (pc', s'))"
  shows "thread_ok s' (en_threads st ! j)"
proof -
  let ?s = "en_pool st" and ?p = "en_threads st ! i" and ?q = "en_threads st ! j"
  have ok: "thread_ok ?s ?q" by (rule ends_invD(5) [OF inv j(1)])
  show ?thesis
  proof (cases "holds_lock ?p = 1 \<and> ?q \<noteq> DLock")
    case True
    then have "holds_lock ?q = 0" using lock_of(2) [OF inv i _ j] by blast
    then show ?thesis using thread_ok_other [OF ok] True step_frame(1,3) [OF step] by blast
  next
    case False
    have "holds_lock ?p = 0"
    proof (cases "?q = DLock")
      case True
      then have "j = 0" using ends_invD(6) [OF inv j(1)] by (simp add: ending_def)
      then show ?thesis using owner_waits(1) [OF inv i] j(2) True by auto
    next
      case f: False
      then show ?thesis using False by (cases ?p) (auto simp: holds_lock_def)
    qed
    then have "te_removing s' = te_removing ?s" "te_freed s' = te_freed ?s" "te_registered s' = te_registered ?s"
      using step by (cases ?p; auto simp: step_defs holds_lock_def split: if_splits)+
    moreover have "complete s' k" if c: "complete ?s k" for k
    proof (rule step_complete [OF step _ c])
      fix k n
      assume "?p = RAdd k n"
      then show "\<not> complete ?s k" using block_in_use(3) [OF inv i] by blast
    qed
    ultimately show ?thesis using thread_ok_mono [OF ok step_frame(1) [OF step]] by blast
  qed
qed

lemma responsible_step:
  assumes inv: "ends_inv st" and i: "i < length (en_threads st)"
    and step: "end_step (en_threads st ! i) (en_pool st) = Some (Inr (pc', s'))"
    and left: "all_complete s'" "te_registered s'"
  shows "\<exists>j<length (en_threads st). responsible ((en_threads st)[i := pc'] ! j)"
proof -
  let ?s = "en_pool st" and ?p = "en_threads st ! i"
  show ?thesis
  proof (cases "responsible pc'")
    case True
    then show ?thesis using i by (intro exI [of _ i]) simp
  next
    case False
    have same: "te_num s' = te_num ?s" "te_produced s' = te_produced ?s" by (rule step_frame [OF step])+
    have not_add: "?p \<noteq> RAdd k n" for k n using False step by (auto simp: step_defs responsible_def split: if_splits)
    then have "te_consumed s' = te_consumed ?s" using step by (cases ?p) (auto simp: step_defs split: if_splits)
    then have c: "all_complete ?s" using left(1) same by (simp add: all_complete_def complete_def)
    have r: "te_registered ?s" using left(2) step by (cases ?p) (auto simp: step_defs split: if_splits)
    from ends_invD(10) [OF inv c r] obtain j where j: "j < length (en_threads st)" "responsible (en_threads st ! j)" by blast
    show ?thesis
    proof (cases "j = i")
      case False
      then show ?thesis using j by (intro exI [of _ j]) simp
    next
      case True
      have ok: "thread_ok ?s ?p" by (rule ends_invD(5) [OF inv i])
      from True j(2) False step c left ok obtain k where k: "?p = RFlag k" "\<not> te_removing ?s k" "k < te_num ?s"
        by (cases ?p) (auto simp: step_defs responsible_def thread_ok_def all_complete_def complete_def split: if_splits)
      then have "ending (en_threads st ! 0)" using ends_invD(7) [OF inv] by (auto simp: all_removing_def)
      moreover have "i \<noteq> 0" using k(1) calculation by (cases "i = 0") (auto simp: ending_def)
      ultimately show ?thesis using ends_invD(2) [OF inv]
        by (intro exI [of _ 0]) (auto simp: ending_def responsible_def split: epc.splits)
    qed
  qed
qed

lemma ends_step_inv:
  assumes inv: "ends_inv st" and i: "i < length (en_threads st)"
    and step: "end_step (en_threads st ! i) (en_pool st) = Some (Inr (pc', s'))"
  shows "ends_inv \<lparr>en_pool = s', en_threads = (en_threads st)[i := pc']\<rparr>"
proof -
  let ?s = "en_pool st" and ?ts = "en_threads st"
  let ?p = "?ts ! i"
  note frame = step_frame [OF step]
  have ok: "thread_ok ?s ?p" by (rule ends_invD(5) [OF inv i])
  have "thread_ok s' pc'"
  proof (rule step_thread_ok [OF step ok ends_invD(1) [OF inv]])
    show "\<forall>k<te_num ?s. te_freed ?s k \<longleftrightarrow> \<not> te_registered ?s" if "holds_lock ?p = 1" "\<not> purging ?p"
      by (rule holder_sees [OF inv i that])
    show "all_removing ?s" if "?p = RLock" "\<not> te_locked ?s"
      using marked_all [OF inv _ _ that(2)] ok that(1) by (auto simp: thread_ok_def)
  qed
  then have threads: "\<forall>j<length (?ts[i := pc']). thread_ok s' (?ts[i := pc'] ! j)"
    using other_thread_ok [OF inv i _ _ step] i by (auto simp: nth_list_update)
  have lock: "tot holds_lock (?ts[i := pc']) = of_bool (te_locked s')"
    using frame(5) lock_of(1) [OF inv i] tot_update [OF i, of holds_lock pc'] ends_invD(3) [OF inv] by simp
  have bytes: "\<forall>k<te_num s'. te_produced s' k = te_consumed s' k + tot (holds_bytes k) (?ts[i := pc'])"
  proof (intro allI impI)
    fix k
    assume "k < te_num s'"
    then have "te_produced ?s k = te_consumed ?s k + tot (holds_bytes k) ?ts" using ends_invD(4) [OF inv] frame(1) by simp
    then show "te_produced s' k = te_consumed s' k + tot (holds_bytes k) (?ts[i := pc'])"
      using frame(2) frame(4) [of k] tot_update [OF i, of "holds_bytes k" pc'] by simp
  qed
  have ends: "\<forall>j<length (?ts[i := pc']). ending (?ts[i := pc'] ! j) \<longrightarrow> j = 0"
    using ends_invD(6) [OF inv] frame(6) i by (auto simp: nth_list_update)
  have removing: "all_removing s'" if e: "\<not> ending (?ts[i := pc'] ! 0)"
  proof (cases "ending (?ts ! 0)")
    case True
    then have "i = 0" using e by (cases "i = 0") auto
    then show ?thesis using step_removing [OF step ok] True e i by simp
  next
    case False
    then show ?thesis using ends_invD(7) [OF inv] frame(1,3) by (auto simp: all_removing_def)
  qed
  have complete: "complete s' k" if c: "complete ?s k" for k
  proof (rule step_complete [OF step _ c])
    fix k n
    assume "?p = RAdd k n"
    then show "\<not> complete ?s k" using block_in_use(3) [OF inv i] by blast
  qed
  have freed: "\<forall>k<te_num s'. te_freed s' k \<longleftrightarrow> \<not> te_registered s'" if no: "\<forall>j<length (?ts[i := pc']). \<not> purging (?ts[i := pc'] ! j)"
  proof (cases "purging ?p")
    case True
    moreover have "\<not> purging pc'" using no i by (auto simp: nth_list_update)
    ultimately show ?thesis using step_purged [OF step ok] by blast
  next
    case False
    have "\<not> purging (?ts ! j)" if "j < length ?ts" for j
      using no that False by (cases "j = i") (auto simp: nth_list_update split: if_splits)
    then show ?thesis using ends_invD(8) [OF inv] frame(1) frame(7) [OF False] by simp
  qed
  have gone: "all_complete s'" if "\<not> te_registered s'"
  proof (cases "te_registered ?s")
    case True
    then have "?p = PErase" using that step by (cases ?p) (auto simp: step_defs split: if_splits)
    then show ?thesis using step_purged [OF step ok] step by (simp add: step_defs purging_def)
  next
    case False
    then show ?thesis using ends_invD(9) [OF inv] complete frame(1) by (simp add: all_complete_def)
  qed
  have "all_complete s' \<and> te_registered s' \<longrightarrow> (\<exists>j<length (?ts[i := pc']). responsible (?ts[i := pc'] ! j))"
    using responsible_step [OF inv i step] by simp
  then show ?thesis
    using threads lock bytes ends removing freed gone ends_invD(1,2) [OF inv] frame(1)
    unfolding ends_inv_def Let_def ends.simps by simp
qed

text \<open>The only faults: a release looks at a page that is gone, after it has given its bytes back.\<close>

lemma ends_step_fault:
  assumes inv: "ends_inv st" and i: "i < length (en_threads st)"
    and step: "end_step (en_threads st ! i) (en_pool st) = Some (Inl e)"
  shows "e = BadAccess \<and> (\<exists>k. en_threads st ! i \<in> {RFlag k, RLast k, RSource k} \<and> te_freed (en_pool st) k)"
proof -
  have ok: "thread_ok (en_pool st) (en_threads st ! i)" by (rule ends_invD(5) [OF inv i])
  have "en_threads st ! i \<noteq> RAssert k n \<and> en_threads st ! i \<noteq> RAdd k n" for k n
    using step block_in_use [OF inv i, of k n] by (auto simp: step_defs split: if_splits)
  then show ?thesis
    using step ok ends_invD(1) [OF inv]
    by (cases "en_threads st ! i")
      (auto simp: step_defs thread_ok_def whole_def all_removing_def all_complete_def split: if_splits)
qed

lemma tot_blocks: "tot (holds_bytes k) (map (\<lambda>(k, m). RAssert k m) blocks) = (\<Sum>(j, m)\<leftarrow>blocks. if j = k then m else 0)"
  by (induction blocks) (auto simp: tot_def holds_bytes_def)

lemma tot_Cons_pc: "tot w (p # ps) = w p + tot w ps"
  by (simp add: tot_def)

lemma ends_init_inv:
  assumes "0 < n" "\<forall>(k, m)\<in>set blocks. k < n \<and> 0 < m"
  shows "ends_inv (end_init n used blocks)"
proof -
  let ?ts = "DLock # map (\<lambda>(k, m). RAssert k m) blocks"
  let ?s = "en_pool (end_init n used blocks)"
  have later: "\<exists>k m. ?ts ! i = RAssert k m \<and> k < n \<and> 0 < m" if "i < length ?ts" "i \<noteq> 0" for i
  proof -
    from that obtain j where j: "i = Suc j" "j < length blocks" by (cases i) auto
    obtain k m where km: "blocks ! j = (k, m)" by force
    then have "(k, m) \<in> set blocks" using j(2) by (metis nth_mem)
    then show ?thesis using assms(2) j km by auto
  qed
  have "thread_ok ?s (?ts ! i)" if "i < length ?ts" for i
    using later [OF that] by (cases "i = 0") (auto simp: thread_ok_def whole_def end_init_def)
  moreover have "ending (?ts ! i) \<Longrightarrow> i = 0" if "i < length ?ts" for i
    using later [OF that] by (cases "i = 0") (auto simp: ending_def)
  moreover have "tot holds_lock ?ts = 0"
    by (auto simp: tot_zero_iff holds_lock_def nth_Cons split: nat.splits prod.splits)
  ultimately show ?thesis
    using assms(1)
    by (auto simp: ends_inv_def Let_def end_init_def tot_Cons_pc tot_blocks holds_bytes_def ending_def responsible_def
        intro!: exI [of _ 0])
qed

lemma end_act_cases:
  assumes "end_act u i st = Some r"
  obtains (fault) e where "i < length (en_threads st)" "end_step (en_threads st ! i) (en_pool st) = Some (Inl e)" "r = Inl e"
  | (step) pc s where "i < length (en_threads st)" "end_step (en_threads st ! i) (en_pool st) = Some (Inr (pc, s))"
    "r = Inr \<lparr>en_pool = s, en_threads = (en_threads st)[i := pc]\<rparr>"
  using assms by (auto simp: end_act_def bindO_eq_Some split: if_splits)

lemma ends_reach_inv: "reaches end_act init st \<Longrightarrow> ends_inv init \<Longrightarrow> ends_inv st"
proof (induction rule: reaches.induct)
  case (step st c i st')
  from step.hyps(2) show ?case
    by (cases rule: end_act_cases) (use ends_step_inv step.IH step.prems in auto)
qed

text \<open>How many steps a thread has left at most.\<close>

definition pc_cost :: "nat \<Rightarrow> epc \<Rightarrow> nat" where
  "pc_cost n pc = (case pc of
     DLock \<Rightarrow> 3 * n + 12 | DFind \<Rightarrow> 3 * n + 11 | DMark k \<Rightarrow> (n - k) + 2 * n + 9
   | RAssert _ _ \<Rightarrow> 2 * n + 15 | RAdd _ _ \<Rightarrow> 2 * n + 14 | RFlag _ \<Rightarrow> 2 * n + 13 | RLast _ \<Rightarrow> 2 * n + 12
   | RSource _ \<Rightarrow> 2 * n + 11 | RLock \<Rightarrow> 2 * n + 10 | RFind \<Rightarrow> 2 * n + 9
   | PCheck k _ \<Rightarrow> (n - k) + n + 7 | PPage k \<Rightarrow> (n - k) + 5 | PDelete \<Rightarrow> 3 | PErase \<Rightarrow> 2 | PUnlock \<Rightarrow> 1 | PDone \<Rightarrow> 0)"

definition ends_left :: "ends \<Rightarrow> nat" where
  "ends_left st = tot (pc_cost (te_num (en_pool st))) (en_threads st)"

lemma end_step_cost: "end_step pc s = Some (Inr (pc', s')) \<Longrightarrow> pc_cost (te_num s) pc' < pc_cost (te_num s) pc"
  by (cases pc) (auto simp: step_defs pc_cost_def split: if_splits)

lemma end_act_cost: "end_act u i st = Some (Inr st') \<Longrightarrow> ends_left st' < ends_left st"
proof (erule end_act_cases)
  fix pc s
  assume i: "i < length (en_threads st)" and step: "end_step (en_threads st ! i) (en_pool st) = Some (Inr (pc, s))"
    and st': "Inr st' = Inr \<lparr>en_pool = s, en_threads = (en_threads st)[i := pc]\<rparr>"
  let ?w = "pc_cost (te_num (en_pool st))"
  show "ends_left st' < ends_left st"
    using end_step_cost [OF step] tot_update [OF i, of ?w pc] st' step_frame(1) [OF step] by (simp add: ends_left_def)
qed simp

lemma end_step_None: "end_step pc s = None \<longleftrightarrow> pc = PDone \<or> pc \<in> {DLock, RLock} \<and> te_locked s"
  by (cases pc) (auto simp: step_defs)

lemma ends_stuck:
  assumes inv: "ends_inv st" and stuck: "\<forall>i. end_act () i st = None"
  shows "(\<forall>i<length (en_threads st). en_threads st ! i = PDone) \<and> \<not> te_registered (en_pool st) \<and>
    (\<forall>k<te_num (en_pool st). te_freed (en_pool st) k) \<and> \<not> te_locked (en_pool st)"
proof -
  have pc: "en_threads st ! i = PDone \<or> en_threads st ! i \<in> {DLock, RLock} \<and> te_locked (en_pool st)"
    if i: "i < length (en_threads st)" for i
  proof (rule ccontr)
    assume "\<not> ?thesis"
    then obtain r where "end_step (en_threads st ! i) (en_pool st) = Some r" using end_step_None by blast
    then show False using spec [OF stuck, of i] i by (cases r) (auto simp: end_act_def)
  qed
  have "holds_lock (en_threads st ! i) = 0" if "i < length (en_threads st)" for i
    using pc [OF that] by (auto simp: holds_lock_def)
  then have "tot holds_lock (en_threads st) = 0" by (simp add: tot_zero_iff)
  then have free: "\<not> te_locked (en_pool st)" using ends_invD(3) [OF inv] by (cases "te_locked (en_pool st)") auto
  have "tot (holds_bytes k) (en_threads st) = 0" for k using pc free by (auto simp: tot_zero_iff holds_bytes_def)
  then have c: "all_complete (en_pool st)" using ends_invD(4) [OF inv] by (simp add: all_complete_def complete_def)
  have fin: "en_threads st ! i = PDone" if "i < length (en_threads st)" for i using pc [OF that] free by blast
  then have r: "\<not> te_registered (en_pool st)" using ends_invD(10) [OF inv c] by (auto simp: responsible_def)
  have "\<forall>i<length (en_threads st). \<not> purging (en_threads st ! i)" using fin by (simp add: purging_def)
  then have "\<forall>k<te_num (en_pool st). te_freed (en_pool st) k" using ends_invD(8) [OF inv] r by blast
  then show ?thesis using fin free r by blast
qed

section \<open>Properties\<close>

text \<open>
  C26: However the end of a thread and the releases of its blocks interleave, no page is
  destroyed before every byte taken from the pool has been released: a thread that still holds a
  block finds all of its page there.  No assertion fails, and the only fault any thread can run
  into is that of a release that reads \<^verbatim>\<open>mIsRemoving\<close>, \<^verbatim>\<open>mTotalConsumed\<close> or
  \<^verbatim>\<open>mSource\<close> of a page that was destroyed after the release had given its bytes back.
  Hypotheses: the pool has a page and the blocks are in its pages and not empty.
\<close>

theorem pool_outlives_blocks:
  assumes "reaches end_act (end_init n used blocks) st" "0 < n" "\<forall>(k, m)\<in>set blocks. k < n \<and> 0 < m"
  shows "(\<forall>i<length (en_threads st). \<forall>k m. en_threads st ! i \<in> {RAssert k m, RAdd k m} \<longrightarrow>
      \<not> (\<exists>j<te_num (en_pool st). te_freed (en_pool st) j)) \<and>
    (\<forall>i e. end_act () i st = Some (Inl e) \<longrightarrow> e = BadAccess \<and>
      (\<exists>k. en_threads st ! i \<in> {RFlag k, RLast k, RSource k} \<and> te_freed (en_pool st) k))"
proof -
  have inv: "ends_inv st" by (rule ends_reach_inv [OF assms(1) ends_init_inv [OF assms(2,3)]])
  have "e = BadAccess \<and> (\<exists>k. en_threads st ! i \<in> {RFlag k, RLast k, RSource k} \<and> te_freed (en_pool st) k)"
    if "end_act () i st = Some (Inl e)" for i e
    using that by (cases rule: end_act_cases) (use ends_step_fault [OF inv] in auto)
  moreover have False if "i < length (en_threads st)" "en_threads st ! i \<in> {RAssert k m, RAdd k m}"
    "j < te_num (en_pool st)" "te_freed (en_pool st) j" for i k m j
    using block_in_use(1,3) [OF inv that(1,2)] freed_complete [OF inv that(3,4)] by (auto simp: all_complete_def)
  ultimately show ?thesis by blast
qed

text \<open>
  C27: The pool of an ended thread is deleted.  At most \<open>ends_left\<close> steps are taken, as
  every step takes one off, and when no thread can go on, all of them have returned, every page
  and the pool have been destroyed, the registry has forgotten the pool and its mutex is free:
  whoever completes the last page, the thread that ends or one that releases, nobody leaves the
  deletion to another one that does not do it.  Hypotheses as above.
\<close>

theorem ended_pool_is_deleted:
  assumes "reaches end_act (end_init n used blocks) st" "0 < n" "\<forall>(k, m)\<in>set blocks. k < n \<and> 0 < m"
  shows "(\<forall>i st'. end_act () i st = Some (Inr st') \<longrightarrow> ends_left st' < ends_left st) \<and>
    ((\<forall>i. end_act () i st = None) \<longrightarrow> (\<forall>i<length (en_threads st). en_threads st ! i = PDone) \<and>
      \<not> te_registered (en_pool st) \<and> (\<forall>k<te_num (en_pool st). te_freed (en_pool st) k) \<and> \<not> te_locked (en_pool st))"
  using end_act_cost ends_stuck [OF ends_reach_inv [OF assms(1) ends_init_inv [OF assms(2,3)]]] by blast

text \<open>Following a schedule, a list of the threads that step.\<close>

fun end_run :: "nat list \<Rightarrow> ends \<Rightarrow> ends run" where
  "end_run [] st = Some (Inr st)"
| "end_run (i # is) st = bindO (end_act () i st) (end_run is)"


lemma end_run_reaches: "end_run is st = Some (Inr st') \<Longrightarrow> reaches end_act init st \<Longrightarrow> reaches end_act init st'"
  by (induction "is" arbitrary: st) (auto simp: bindO_eq_Some intro: reaches.step)

lemma pool_outlives_blocks_witness:
  "\<exists>st. end_run [1, 1, 0, 0, 0, 0, 0, 0, 0, 0] (end_init 1 (\<lambda>_. 0) [(0, 16)]) = Some (Inr st) \<and>
    end_act () 1 st = Some (Inl BadAccess) \<and> te_freed (en_pool st) 0 \<and>
    (\<exists>k. en_threads st ! 1 \<in> {RFlag k, RLast k, RSource k} \<and> te_freed (en_pool st) k)"
proof -
  let ?init = "end_init 1 (\<lambda>_. 0) [(0, 16)]"
  have "\<exists>st. end_run [1, 1, 0, 0, 0, 0, 0, 0, 0, 0] ?init = Some (Inr st) \<and>
      end_act () 1 st = Some (Inl BadAccess) \<and> te_freed (en_pool st) 0"
    by (simp add: end_act_def end_init_def step_defs complete_def)
  then obtain st where st: "end_run [1, 1, 0, 0, 0, 0, 0, 0, 0, 0] ?init = Some (Inr st)"
    "end_act () 1 st = Some (Inl BadAccess)" "te_freed (en_pool st) 0" by blast
  have "reaches end_act ?init st" by (rule end_run_reaches [OF st(1) reaches.start])
  from pool_outlives_blocks [OF this] st show ?thesis by auto
qed

lemma ended_pool_is_deleted_witness:
  "\<exists>st. end_run [0, 0, 0, 0, 0, 0, 0, 1, 1, 1, 1, 1, 1, 1, 1, 1, 1, 1, 1, 1] (end_init 1 (\<lambda>_. 0) [(0, 16)]) = Some (Inr st) \<and>
    \<not> te_registered (en_pool st) \<and> te_freed (en_pool st) 0"
proof -
  let ?init = "end_init 1 (\<lambda>_. 0) [(0, 16)]"
  let ?is = "[0, 0, 0, 0, 0, 0, 0, 1, 1, 1, 1, 1, 1, 1, 1, 1, 1, 1, 1, 1]"
  have "\<exists>st. end_run ?is ?init = Some (Inr st) \<and> te_num (en_pool st) = 1 \<and> en_threads st = [PDone, PDone]"
    by (simp add: end_act_def end_init_def step_defs complete_def)
  then obtain st where st: "end_run ?is ?init = Some (Inr st)" "te_num (en_pool st) = 1" "en_threads st = [PDone, PDone]"
    by blast
  have stuck: "\<forall>i. end_act () i st = None"
    using st(3) by (auto simp: end_act_def step_defs less_Suc_eq nth_Cons split: nat.splits)
  have "reaches end_act ?init st" by (rule end_run_reaches [OF st(1) reaches.start])
  from ended_pool_is_deleted [OF this] stuck st show ?thesis by auto
qed

end
