(* ===== verification/ComponentStores.thy ===== *)
theory ComponentStores
  imports IdPools AccessGuards Bytes
begin

text \<open>
  The component database, \<^verbatim>\<open>ion/database\<close>: the vector of variable-sized component data
  (\<^verbatim>\<open>DBComponentDataVector.h\<close>), ids with versions (\<^verbatim>\<open>DBComponentId.h\<close>), the index of
  runs of ids (\<^verbatim>\<open>DBComponentIndex.h\<close>), and the stores and views that check who reads and writes
  a component (\<^verbatim>\<open>DBComponentStore.h\<close>, \<^verbatim>\<open>DBComponentStoreBase.h\<close>,
  \<^verbatim>\<open>DBComponentStoreView.h\<close>, \<^verbatim>\<open>DBComponent.h\<close>, \<^verbatim>\<open>DBComponentAdmin.h\<close>).  The data vector
  takes its places from the range pool of \<^verbatim>\<open>IdPools\<close> and the stores guard their components with
  the counters of \<^verbatim>\<open>AccessGuards\<close>.  The vectors inside are sequences with a capacity, which is what
  \<^verbatim>\<open>ArenaVectors\<close> shows \<^verbatim>\<open>Vector\<close> to be.  The cache simulation
  (\<^verbatim>\<open>ION_COMPONENT_SUPPORT_CACHE_TRACKING\<close>), switched off by the source, is left out.
\<close>

section \<open>Component data\<close>

text \<open>
  \<open>c\<close> is the width of the positions, \<open>h\<close> the number of bytes of \<^verbatim>\<open>TDataSize\<close>, which are
  written in front of the data, and \<open>small\<close> the range pool's bound of small groups.
\<close>

record dvec =
  dv_pool :: rpool
  dv_data :: "u8 list"
  dv_capacity :: nat

definition dv_new :: dvec where
  "dv_new = \<lparr>dv_pool = rp_new, dv_data = [], dv_capacity = 0\<rparr>"

definition dv_reserved :: "nat \<Rightarrow> dvec" where
  "dv_reserved n = dv_new\<lparr>dv_capacity := n\<rparr>"

definition write_at :: "nat \<Rightarrow> u8 list \<Rightarrow> u8 list \<Rightarrow> u8 list res" where
  "write_at pos bs xs = (if pos + length bs \<le> length xs
     then Inr (take pos xs @ bs @ drop (pos + length bs) xs) else Inl BadAccess)"

definition dv_resize :: "nat \<Rightarrow> dvec \<Rightarrow> dvec" where
  "dv_resize n d = d\<lparr>dv_data := take n (dv_data d) @ replicate (n - length (dv_data d)) 0,
     dv_capacity := max n (dv_capacity d)\<rparr>"

definition dv_grow :: "nat \<Rightarrow> nat \<Rightarrow> dvec \<Rightarrow> bool \<times> dvec" where
  "dv_grow c required d =
    (if length (dv_data d) < required
     then if dv_capacity d < required
          then (True, dv_resize required (d\<lparr>dv_capacity := max (dv_capacity d) (trunc c (required * 2))\<rparr>))
          else (False, dv_resize required d)
     else (False, d))"

definition dv_add :: "nat \<Rightarrow> nat \<Rightarrow> nat \<Rightarrow> u8 list \<Rightarrow> dvec \<Rightarrow> ((nat \<times> bool) \<times> dvec) res" where
  "dv_add c small h bs d = bindR (rp_reserve c small (trunc c (length bs + h)) (dv_pool d)) (\<lambda>(pos, pool).
     case dv_grow c (pos + length bs + h) (d\<lparr>dv_pool := pool\<rparr>) of (dirty, d) \<Rightarrow>
     bindR (write_at pos (enc h (length bs)) (dv_data d)) (\<lambda>xs.
     bindR (write_at (pos + h) bs xs) (\<lambda>xs. Inr ((pos, dirty), d\<lparr>dv_data := xs\<rparr>))))"

definition dv_get_size :: "nat \<Rightarrow> nat \<Rightarrow> dvec \<Rightarrow> nat res" where
  "dv_get_size h pos d = (if pos + h \<le> length (dv_data d) then Inr (dec (take h (drop pos (dv_data d)))) else Inl BadAccess)"

definition dv_get :: "nat \<Rightarrow> nat \<Rightarrow> dvec \<Rightarrow> u8 list res" where
  "dv_get h pos d = bindR (dv_get_size h pos d) (\<lambda>n.
     if pos + h + n \<le> length (dv_data d) then Inr (take n (drop (pos + h) (dv_data d))) else Inl BadAccess)"

definition dv_remove :: "nat \<Rightarrow> nat \<Rightarrow> nat \<Rightarrow> dvec \<Rightarrow> dvec res" where
  "dv_remove small h pos d = bindR (dv_get_size h pos d) (\<lambda>n.
     bindR (rp_free small pos (n + h) (dv_pool d)) (\<lambda>pool. Inr (d\<lparr>dv_pool := pool\<rparr>)))"

text \<open>The data in use is a map from positions to byte strings, each in a range of its own.\<close>

definition entry_range :: "nat \<Rightarrow> nat \<Rightarrow> u8 list \<Rightarrow> nat set" where
  "entry_range h pos bs = {pos..<pos + h + length bs}"

definition dv_ok :: "nat \<Rightarrow> (nat \<rightharpoonup> u8 list) \<Rightarrow> dvec \<Rightarrow> bool" where
  "dv_ok h m d \<longleftrightarrow> rp_ok (dv_pool d) \<and> length (dv_data d) \<le> dv_capacity d \<and>
    (\<forall>pos bs. m pos = Some bs \<longrightarrow> length bs < 256 ^ h \<and> pos + h + length bs \<le> length (dv_data d) \<and>
      take (h + length bs) (drop pos (dv_data d)) = enc h (length bs) @ bs) \<and>
    (\<forall>pos bs pos' bs'. m pos = Some bs \<and> m pos' = Some bs' \<and> pos \<noteq> pos' \<longrightarrow>
      entry_range h pos bs \<inter> entry_range h pos' bs' = {}) \<and>
    range_used (dv_pool d) = (\<Union>pos\<in>dom m. entry_range h pos (the (m pos)))"

lemma slice_cong:
  assumes "p + n \<le> length xs" "p + n \<le> length ys" "\<And>i. p \<le> i \<Longrightarrow> i < p + n \<Longrightarrow> ys ! i = xs ! i"
  shows "take n (drop p ys) = take n (drop p xs)"
  by (rule nth_equalityI) (use assms in auto)

lemma write_at_ok:
  assumes "pos + length bs \<le> length xs"
  shows "\<exists>ys. write_at pos bs xs = Inr ys \<and> length ys = length xs \<and> take (length bs) (drop pos ys) = bs \<and>
    (\<forall>i<length xs. i < pos \<or> pos + length bs \<le> i \<longrightarrow> ys ! i = xs ! i)"
proof -
  let ?ys = "take pos xs @ bs @ drop (pos + length bs) xs"
  have "?ys ! i = xs ! i" if "i < length xs" "i < pos \<or> pos + length bs \<le> i" for i
    using that assms by (cases "i < pos") (auto simp: nth_append min_def)
  then show ?thesis using assms by (intro exI [of _ ?ys]) (simp add: write_at_def)
qed

text \<open>Growing never loses a byte.\<close>

lemma dv_grow_ok:
  assumes "length (dv_data d) \<le> dv_capacity d"
  obtains dirty d' where "dv_grow c n d = (dirty, d')" "n \<le> length (dv_data d')" "length (dv_data d) \<le> length (dv_data d')"
    "dv_pool d' = dv_pool d" "\<forall>i<length (dv_data d). dv_data d' ! i = dv_data d ! i"
    "length (dv_data d') \<le> dv_capacity d'" "\<not> dirty \<longrightarrow> dv_capacity d' = dv_capacity d"
proof (cases "length (dv_data d) < n")
  case True
  show ?thesis
  proof (cases "dv_capacity d < n")
    case t: True
    show ?thesis
      by (rule that [of True "dv_resize n (d\<lparr>dv_capacity := max (dv_capacity d) (trunc c (n * 2))\<rparr>)"])
        (use True t assms in \<open>simp_all add: dv_grow_def dv_resize_def nth_append\<close>)
  next
    case False
    show ?thesis
      by (rule that [of False "dv_resize n d"])
        (use True False assms in \<open>simp_all add: dv_grow_def dv_resize_def nth_append\<close>)
  qed
next
  case False
  show ?thesis by (rule that [of False d]) (use False assms in \<open>simp_all add: dv_grow_def\<close>)
qed

lemma dv_getD:
  assumes "dv_ok h m d" "m pos = Some bs"
  shows "dv_get_size h pos d = Inr (length bs)" "dv_get h pos d = Inr bs"
proof -
  have e: "pos + h + length bs \<le> length (dv_data d)" "take (h + length bs) (drop pos (dv_data d)) = enc h (length bs) @ bs"
    "length bs < 256 ^ h" using assms by (auto simp: dv_ok_def)
  have "take h (drop pos (dv_data d)) = take h (take (h + length bs) (drop pos (dv_data d)))" by simp
  then have "take h (drop pos (dv_data d)) = enc h (length bs)" using e(2) by simp
  then show s: "dv_get_size h pos d = Inr (length bs)" using e(1,3) by (simp add: dv_get_size_def dec_enc_id)
  have "take (length bs) (drop (pos + h) (dv_data d)) = drop h (take (h + length bs) (drop pos (dv_data d)))"
    by (simp add: drop_take add.commute)
  then show "dv_get h pos d = Inr bs" using e s by (simp add: dv_get_def)
qed

lemma dv_add_ok:
  assumes ok: "dv_ok h m d" and h: "0 < h" and len: "length bs < 256 ^ h" and room: "rp_total (dv_pool d) + length bs + h < 2 ^ c"
  obtains pos dirty d' where "dv_add c small h bs d = Inr ((pos, dirty), d')" "m pos = None" "dv_ok h (m(pos \<mapsto> bs)) d'"
    "\<not> dirty \<longrightarrow> dv_capacity d' = dv_capacity d"
proof -
  let ?n = "length bs + h"
  have tr: "trunc c ?n = ?n" using room by (simp add: trunc_id)
  obtain pos pool where r: "rp_reserve c small ?n (dv_pool d) = Inr (pos, pool)" "rp_ok pool"
    "{pos..<pos + ?n} \<inter> range_used (dv_pool d) = {}" "range_used pool = range_used (dv_pool d) \<union> {pos..<pos + ?n}"
    using rp_reserve_ok [of "dv_pool d" ?n c small] ok h room by (auto simp: dv_ok_def)
  let ?req = "pos + length bs + h"
  have "length (dv_data (d\<lparr>dv_pool := pool\<rparr>)) \<le> dv_capacity (d\<lparr>dv_pool := pool\<rparr>)" using ok by (simp add: dv_ok_def)
  then obtain dirty d2 where grow: "dv_grow c ?req (d\<lparr>dv_pool := pool\<rparr>) = (dirty, d2)"
    and d2: "?req \<le> length (dv_data d2)" "length (dv_data d) \<le> length (dv_data d2)" "dv_pool d2 = pool"
      "\<forall>i<length (dv_data d). dv_data d2 ! i = dv_data d ! i"
    and cap: "length (dv_data d2) \<le> dv_capacity d2" "\<not> dirty \<longrightarrow> dv_capacity d2 = dv_capacity d"
    by (rule dv_grow_ok [of _ c ?req]) auto
  obtain xs where xs: "write_at pos (enc h (length bs)) (dv_data d2) = Inr xs" "length xs = length (dv_data d2)"
    "take h (drop pos xs) = enc h (length bs)"
    "\<forall>i<length (dv_data d2). i < pos \<or> pos + h \<le> i \<longrightarrow> xs ! i = dv_data d2 ! i"
    using write_at_ok [of pos "enc h (length bs)" "dv_data d2"] d2(1) by auto
  obtain ys where ys: "write_at (pos + h) bs xs = Inr ys" "length ys = length xs"
    "take (length bs) (drop (pos + h) ys) = bs"
    "\<forall>i<length xs. i < pos + h \<or> pos + h + length bs \<le> i \<longrightarrow> ys ! i = xs ! i"
    using write_at_ok [of "pos + h" bs xs] d2(1) xs(2) by (auto simp: add.assoc add.commute)
  let ?d = "d2\<lparr>dv_data := ys\<rparr>"
  have result: "dv_add c small h bs d = Inr ((pos, dirty), ?d)"
    using r(1) grow xs(1) ys(1) by (simp add: dv_add_def tr)
  have new: "take (h + length bs) (drop pos ys) = enc h (length bs) @ bs"
  proof -
    have "take h (drop pos ys) = take h (drop pos xs)" by (rule slice_cong) (use ys(2,4) d2(1) xs(2) in auto)
    then have "take h (drop pos ys) = enc h (length bs)" using xs(3) by simp
    then show ?thesis using ys(3) by (simp add: take_add add.commute)
  qed
  have same: "ys ! i = dv_data d ! i" if "i < length (dv_data d)" "i < pos \<or> ?req \<le> i" for i
    using that xs(2,4) ys(4) d2(2,4) by auto
  have apart: "entry_range h pos bs \<inter> entry_range h p b = {}" if "m p = Some b" for p b
  proof -
    have "entry_range h p b \<subseteq> range_used (dv_pool d)" using ok that by (fastforce simp: dv_ok_def)
    moreover have "entry_range h pos bs = {pos..<pos + ?n}" by (simp add: entry_range_def ac_simps)
    ultimately show ?thesis using r(3) by blast
  qed
  have none: "m pos = None"
  proof (rule ccontr)
    assume "m pos \<noteq> None"
    then obtain b where "m pos = Some b" by blast
    from apart [OF this] h show False by (auto simp: entry_range_def)
  qed
  have keep: "take (h + length b) (drop p ys) = enc h (length b) @ b \<and> length b < 256 ^ h \<and> p + h + length b \<le> length ys"
    if p: "m p = Some b" for p b
  proof -
    have old: "take (h + length b) (drop p (dv_data d)) = enc h (length b) @ b" "length b < 256 ^ h"
      "p + h + length b \<le> length (dv_data d)" using ok p by (auto simp: dv_ok_def)
    have "i < pos \<or> ?req \<le> i" if "p \<le> i" "i < p + (h + length b)" for i
      using apart [OF p] that by (auto simp: entry_range_def disjoint_iff not_le add.assoc add.commute)
    then have "take (h + length b) (drop p ys) = take (h + length b) (drop p (dv_data d))"
      using old(3) same xs(2) ys(2) d2(2) by (intro slice_cong) auto
    then show ?thesis using old xs(2) ys(2) d2(2) by simp
  qed
  have used: "range_used pool = (\<Union>p\<in>dom (m(pos \<mapsto> bs)). entry_range h p (the ((m(pos \<mapsto> bs)) p)))"
  proof -
    have "(\<Union>p\<in>dom m. entry_range h p (the ((m(pos \<mapsto> bs)) p))) = (\<Union>p\<in>dom m. entry_range h p (the (m p)))"
      using none by (intro SUP_cong) auto
    then have "(\<Union>p\<in>dom (m(pos \<mapsto> bs)). entry_range h p (the ((m(pos \<mapsto> bs)) p))) =
        entry_range h pos bs \<union> (\<Union>p\<in>dom m. entry_range h p (the (m p)))" by simp
    then show ?thesis using r(4) ok by (auto simp: dv_ok_def entry_range_def add.assoc add.commute)
  qed
  have disjoint: "\<forall>p b p' b'. (m(pos \<mapsto> bs)) p = Some b \<and> (m(pos \<mapsto> bs)) p' = Some b' \<and> p \<noteq> p' \<longrightarrow>
      entry_range h p b \<inter> entry_range h p' b' = {}"
    using apart ok unfolding dv_ok_def by (auto simp: Int_commute split: if_splits)
  have entries: "\<forall>p b. (m(pos \<mapsto> bs)) p = Some b \<longrightarrow> length b < 256 ^ h \<and> p + h + length b \<le> length (dv_data ?d) \<and>
      take (h + length b) (drop p (dv_data ?d)) = enc h (length b) @ b"
    using keep new len d2(1) xs(2) ys(2) by auto
  have "dv_ok h (m(pos \<mapsto> bs)) ?d"
    unfolding dv_ok_def using r(2) d2(3) cap(1) xs(2) ys(2) used disjoint entries by simp
  moreover have "\<not> dirty \<longrightarrow> dv_capacity ?d = dv_capacity d" using cap(2) by simp
  ultimately show thesis using that result none by blast
qed

lemma dv_remove_ok:
  assumes ok: "dv_ok h m d" and h: "0 < h" and pos: "m pos = Some bs"
  obtains d' where "dv_remove small h pos d = Inr d'" "dv_ok h (m(pos := None)) d'"
proof -
  let ?n = "length bs + h"
  have er: "entry_range h pos bs = {pos..<pos + ?n}" by (simp add: entry_range_def ac_simps)
  have used: "range_used (dv_pool d) = (\<Union>p\<in>dom m. entry_range h p (the (m p)))" using ok by (simp add: dv_ok_def)
  have sub: "{pos..<pos + ?n} \<subseteq> range_used (dv_pool d)" unfolding used er [symmetric] using pos by force
  have "pos + ?n - 1 \<in> {pos..<pos + ?n}" using h by auto
  then have "pos + ?n - 1 \<in> range_used (dv_pool d)" using sub by blast
  then have "pos + ?n \<le> rp_total (dv_pool d)" using h by (auto simp: range_used_def)
  moreover have "{pos..<pos + ?n} \<inter> free_ids (dv_pool d) = {}" using sub by (auto simp: range_used_def)
  ultimately obtain pool where r: "rp_free small pos ?n (dv_pool d) = Inr pool" "rp_ok pool"
    "range_used pool = range_used (dv_pool d) - {pos..<pos + ?n}"
    using rp_free_ok [of "dv_pool d" ?n pos small] ok h by (auto simp: dv_ok_def)
  have apart: "entry_range h p b \<inter> entry_range h pos bs = {}" if "m p = Some b" "p \<noteq> pos" for p b
    using ok that pos by (auto simp: dv_ok_def)
  have rest: "(\<Union>p\<in>dom m - {pos}. entry_range h p (the (m p))) \<inter> entry_range h pos bs = {}" using apart by fastforce
  have "(\<Union>p\<in>dom m. entry_range h p (the (m p))) = entry_range h pos bs \<union> (\<Union>p\<in>dom m - {pos}. entry_range h p (the (m p)))"
    using pos by (subst insert_Diff [of pos "dom m", symmetric]) auto
  note split = this
  have "range_used pool = (\<Union>p\<in>dom m - {pos}. entry_range h p (the (m p)))"
  proof -
    have diff: "X = A \<union> B - A \<Longrightarrow> B \<inter> A = {} \<Longrightarrow> X = B" for X A B :: "nat set" by blast
    show ?thesis by (rule diff [OF _ rest]) (simp only: r(3) used er [symmetric] split)
  qed
  also have "\<dots> = (\<Union>p\<in>dom (m(pos := None)). entry_range h p (the ((m(pos := None)) p)))"
    by (intro SUP_cong) auto
  finally have u: "range_used pool = (\<Union>p\<in>dom (m(pos := None)). entry_range h p (the ((m(pos := None)) p)))" .
  have e: "\<forall>p b. (m(pos := None)) p = Some b \<longrightarrow> length b < 256 ^ h \<and> p + h + length b \<le> length (dv_data d) \<and>
      take (h + length b) (drop p (dv_data d)) = enc h (length b) @ b"
    using ok by (simp add: dv_ok_def)
  have s: "\<forall>p b p' b'. (m(pos := None)) p = Some b \<and> (m(pos := None)) p' = Some b' \<and> p \<noteq> p' \<longrightarrow>
      entry_range h p b \<inter> entry_range h p' b' = {}"
    using ok by (simp add: dv_ok_def)
  have "dv_ok h (m(pos := None)) (d\<lparr>dv_pool := pool\<rparr>)"
    using ok r(2) u e s by (simp only: dv_ok_def dvec.simps dvec.update_convs) simp
  then show thesis using that r(1) dv_getD(1) [OF ok pos] by (simp add: dv_remove_def)
qed

lemma dv_new_ok: "dv_ok h Map.empty dv_new"
  by (simp add: dv_ok_def dv_new_def rp_new_def rp_ok_def range_used_def)

section \<open>Ids and the index of ids\<close>

text \<open>A component id: \<^verbatim>\<open>IdType\<close> with the version of the development build.\<close>

record cid =
  ci_raw :: nat
  ci_version :: nat

definition ci_valid :: "nat \<Rightarrow> cid \<Rightarrow> bool" where
  "ci_valid c i \<longleftrightarrow> ci_raw i \<noteq> 2 ^ c - 1"

definition ci_equal :: "nat \<Rightarrow> cid \<Rightarrow> cid \<Rightarrow> bool res" where
  "ci_equal c i j =
    (if ci_raw i = ci_raw j
     then assertR (ci_version i = ci_version j \<or> \<not> ci_valid c i \<or> \<not> ci_valid c j) (Inr True)
     else Inr False)"

definition ci_not_equal :: "nat \<Rightarrow> cid \<Rightarrow> cid \<Rightarrow> bool res" where
  "ci_not_equal c i j =
    (if ci_raw i \<noteq> ci_raw j then Inr True
     else assertR (ci_version i = ci_version j \<or> \<not> ci_valid c i \<or> \<not> ci_valid c j) (Inr False))"

definition id_increment :: "nat \<Rightarrow> nat \<Rightarrow> nat res" where
  "id_increment c i = (let i = trunc c (i + 1) in assertR (i \<noteq> 2 ^ c - 1) (Inr i))"

definition id_decrement :: "nat \<Rightarrow> nat \<Rightarrow> nat res" where
  "id_decrement c i = (let i = trunc c (i + 2 ^ c - 1) in assertR (i \<noteq> 2 ^ c - 1) (Inr i))"

text \<open>
  \<^verbatim>\<open>ComponentIndex\<close> keeps the ids in the order they were added, consecutive ones as a run
  with a 16-bit count.
\<close>

record id_run =
  ir_value :: nat
  ir_count :: nat

definition ir_next :: "nat \<Rightarrow> id_run \<Rightarrow> nat" where
  "ir_next c r = trunc c (ir_value r + ir_count r)"

definition ix_add :: "nat \<Rightarrow> nat \<Rightarrow> id_run list \<Rightarrow> id_run list" where
  "ix_add c v ix =
    (if ix \<noteq> [] \<and> ir_next c (last ix) = v
     then butlast ix @ [(last ix)\<lparr>ir_count := trunc 16 (ir_count (last ix) + 1)\<rparr>]
     else ix @ [\<lparr>ir_value = v, ir_count = 1\<rparr>])"

text \<open>The iterator is a value that is incremented; the run it was made from is not consulted.\<close>

definition ix_begin :: "id_run list \<Rightarrow> nat res" where
  "ix_begin ix = assertR (ix \<noteq> []) (Inr (ir_value (ix ! 0)))"

definition ix_end :: "nat \<Rightarrow> id_run list \<Rightarrow> nat res" where
  "ix_end c ix = assertR (ix \<noteq> []) (Inr (ir_next c (ix ! (length ix - 1))))"

partial_function (option) ix_loop :: "nat \<Rightarrow> nat \<Rightarrow> nat \<Rightarrow> nat list option" where
  "ix_loop c i stop = (if i = stop then Some [] else Option.bind (ix_loop c (trunc c (i + 1)) stop) (\<lambda>is. Some (i # is)))"

definition ix_iterate :: "nat \<Rightarrow> id_run list \<Rightarrow> nat list run" where
  "ix_iterate c ix = bindO (Some (ix_begin ix)) (\<lambda>i. bindO (Some (ix_end c ix)) (\<lambda>stop. map_option Inr (ix_loop c i stop)))"

text \<open>What an index stands for.\<close>

definition run_ids :: "id_run \<Rightarrow> nat list" where
  "run_ids r = [ir_value r..<ir_value r + ir_count r]"

definition ix_ids :: "id_run list \<Rightarrow> nat list" where
  "ix_ids ix = concat (map run_ids ix)"

definition ix_ok :: "nat \<Rightarrow> id_run list \<Rightarrow> bool" where
  "ix_ok c ix \<longleftrightarrow> (\<forall>r\<in>set ix. 0 < ir_count r \<and> ir_count r < 2 ^ 16 \<and> ir_value r + ir_count r \<le> 2 ^ c)"

lemma ix_add_ok:
  assumes "ix_ok c ix" "v < 2 ^ c" "\<forall>r\<in>set ix. ir_count r < 2 ^ 16 - 1" "\<forall>r\<in>set ix. ir_value r + ir_count r < 2 ^ c"
  shows "ix_ok c (ix_add c v ix) \<and> ix_ids (ix_add c v ix) = ix_ids ix @ [v]"
proof (cases "ix \<noteq> [] \<and> ir_next c (last ix) = v")
  case True
  then obtain rs r where ix: "ix = rs @ [r]" by (metis append_butlast_last_id)
  have r: "ir_count r < 2 ^ 16 - 1" "ir_value r + ir_count r < 2 ^ c" using assms(3,4) ix by auto
  have nx: "v = ir_value r + ir_count r" using True ix r(2) by (simp add: ir_next_def trunc_id)
  have "trunc 16 (ir_count r + 1) = ir_count r + 1" using r(1) by (intro trunc_id) simp
  then have add: "ix_add c v ix = rs @ [r\<lparr>ir_count := ir_count r + 1\<rparr>]" using True ix by (simp add: ix_add_def)
  show ?thesis unfolding add using assms(1) ix nx r by (auto simp: ix_ok_def ix_ids_def run_ids_def)
next
  case False
  then show ?thesis using assms(1,2) by (auto simp: ix_add_def ix_ok_def ix_ids_def run_ids_def)
qed

lemma ix_loop_upt: "i + n < 2 ^ c \<Longrightarrow> ix_loop c i (i + n) = Some [i..<i + n]"
proof (induction n arbitrary: i)
  case 0
  then show ?case by (subst ix_loop.simps) simp
next
  case (Suc n)
  have "i + 1 + n < 2 ^ c" using Suc.prems by simp
  note Suc.IH [OF this]
  moreover have "trunc c (i + 1) = i + 1" using Suc.prems by (intro trunc_id) simp
  ultimately show ?case by (subst ix_loop.simps) (simp add: upt_conv_Cons del: upt_Suc)
qed

text \<open>
  Iterating a \<^verbatim>\<open>ComponentIndex\<close> visits every id from the first one to the last one,
  whether it was added or not: for ids added in ascending order with a gap the loop yields ids that
  are not in the index, since \<^verbatim>\<open>operator++\<close> no longer moves from run to run.  Hypotheses: the
  index has a run, its ids ascend and stay below the largest value.
\<close>

theorem index_iteration_fills_gaps:
  assumes "ix_ok c ix" "ix \<noteq> []" "ir_value (ix ! 0) \<le> ir_value (last ix)" "ir_value (last ix) + ir_count (last ix) < 2 ^ c"
  shows "ix_iterate c ix = Some (Inr [ir_value (ix ! 0)..<ir_value (last ix) + ir_count (last ix)])"
proof -
  let ?a = "ir_value (ix ! 0)" and ?b = "ir_value (last ix) + ir_count (last ix)"
  have "?a + (?b - ?a) = ?b" using assms(3) by simp
  then have "ix_loop c ?a ?b = Some [?a..<?b]" using ix_loop_upt [of ?a "?b - ?a" c] assms(4) by simp
  moreover have "ir_next c (ix ! (length ix - 1)) = ?b"
    using assms(2,4) by (simp add: ir_next_def trunc_id last_conv_nth)
  ultimately show ?thesis using assms(2) by (simp add: ix_iterate_def ix_begin_def ix_end_def)
qed

theorem index_iteration_fills_gaps_witness:
  "ix_iterate 32 (ix_add 32 7 (ix_add 32 3 [])) = Some (Inr [3, 4, 5, 6, 7]) \<and> ix_ids (ix_add 32 7 (ix_add 32 3 [])) = [3, 7]"
proof -
  have ix: "ix_add 32 7 (ix_add 32 3 []) = [\<lparr>ir_value = 3, ir_count = 1\<rparr>, \<lparr>ir_value = 7, ir_count = 1\<rparr>]"
    by (simp add: ix_add_def ir_next_def trunc_def)
  have "ix_ok 32 [\<lparr>ir_value = 3, ir_count = 1\<rparr>, \<lparr>ir_value = 7, ir_count = 1\<rparr>]" by (simp add: ix_ok_def)
  from index_iteration_fills_gaps [OF this] show ?thesis unfolding ix by (simp add: ix_ids_def run_ids_def upt_rec)
qed

text \<open>
  The count of a run has 16 bits: the 65536th consecutive id makes it 0, and with it all ids of
  the run are lost.
\<close>

lemma index_run_wraps:
  "v + 65535 < 2 ^ 32 \<Longrightarrow> ix_add 32 (v + 65535) [\<lparr>ir_value = v, ir_count = 65535\<rparr>] = [\<lparr>ir_value = v, ir_count = 0\<rparr>]"
  by (simp add: ix_add_def ir_next_def trunc_def)

section \<open>Stores and views\<close>

text \<open>
  A store has one guard for itself and one for each component, and the components' versions.
  \<open>w\<close> tells writing from reading.
\<close>

record cstore =
  cs_guard :: access_guard
  cs_fields :: "access_guard list"
  cs_capacity :: nat
  cs_versions :: "nat list"

definition cs_new :: cstore where
  "cs_new = \<lparr>cs_guard = 0, cs_fields = [], cs_capacity = 0, cs_versions = []\<rparr>"

definition start_op :: "bool \<Rightarrow> guard_op" where
  "start_op w = (if w then StartWrite else StartRead)"

definition stop_op :: "bool \<Rightarrow> guard_op" where
  "stop_op w = (if w then StopWrite else StopRead)"

definition cs_field_do :: "guard_op \<Rightarrow> nat \<Rightarrow> cstore \<Rightarrow> cstore res" where
  "cs_field_do e i s = assertR (i < length (cs_fields s))
     (bindR (guard_do e (cs_fields s ! i)) (\<lambda>g. Inr (s\<lparr>cs_fields := (cs_fields s)[i := g]\<rparr>)))"

definition cs_on_created :: "bool \<Rightarrow> nat \<Rightarrow> cstore \<Rightarrow> cstore res" where
  "cs_on_created w i s = assertR (guard_is_free (cs_guard s)) (cs_field_do (start_op w) i s)"

definition cs_on_deleted :: "bool \<Rightarrow> nat \<Rightarrow> cstore \<Rightarrow> cstore res" where
  "cs_on_deleted w i s = assertR (guard_is_free (cs_guard s)) (cs_field_do (stop_op w) i s)"

definition cs_lock :: "bool \<Rightarrow> cstore \<Rightarrow> cstore res" where
  "cs_lock w s = bindR (guard_do (start_op w) (cs_guard s)) (\<lambda>g. Inr (s\<lparr>cs_guard := g\<rparr>))"

definition cs_unlock :: "bool \<Rightarrow> cstore \<Rightarrow> cstore res" where
  "cs_unlock w s = bindR (guard_do (stop_op w) (cs_guard s)) (\<lambda>g. Inr (s\<lparr>cs_guard := g\<rparr>))"

text \<open>\<^verbatim>\<open>ComponentStoreView\<close>: constructor and destructor.\<close>

definition view_open :: "nat \<Rightarrow> bool \<Rightarrow> nat \<Rightarrow> cstore \<Rightarrow> cstore res" where
  "view_open c w i s = assertR (i \<noteq> 2 ^ c - 1) (cs_on_created w i s)"

definition view_close :: "bool \<Rightarrow> nat \<Rightarrow> cstore \<Rightarrow> cstore res" where
  "view_close w i s = cs_on_deleted w i s"

text \<open>Moving a guard to a bigger block copies it, which it checks to be free.\<close>

fun copy_guards :: "access_guard list \<Rightarrow> access_guard list res" where
  "copy_guards [] = Inr []"
| "copy_guards (g # gs) = bindR (guard_copy g) (\<lambda>g. bindR (copy_guards gs) (\<lambda>gs. Inr (g # gs)))"

definition resize_fields :: "nat \<Rightarrow> nat \<Rightarrow> cstore \<Rightarrow> cstore res" where
  "resize_fields n cap s =
    (if n < length (cs_fields s) then Inr (s\<lparr>cs_fields := take n (cs_fields s)\<rparr>)
     else bindR (if cs_capacity s < n
                 then assertR (n \<le> cap) (bindR (copy_guards (cs_fields s)) (\<lambda>gs. Inr (s\<lparr>cs_fields := gs, cs_capacity := cap\<rparr>)))
                 else Inr s) (\<lambda>s.
       Inr (s\<lparr>cs_fields := cs_fields s @ replicate (n - length (cs_fields s)) 0\<rparr>)))"

definition cs_resize_protection :: "nat \<Rightarrow> cstore \<Rightarrow> cstore res" where
  "cs_resize_protection i s = bindR
     (if length (cs_fields s) \<le> i then resize_fields (i + 1) ((i + 1) * 2) s else Inr s) (\<lambda>s.
     Inr (if length (cs_versions s) \<le> i
          then s\<lparr>cs_versions := cs_versions s @ replicate (i + 1 - length (cs_versions s)) 0\<rparr> else s))"

definition cs_clone_protection :: "cstore \<Rightarrow> cstore \<Rightarrow> cstore res" where
  "cs_clone_protection other s = bindR (resize_fields (length (cs_fields other)) (length (cs_fields other)) s) (\<lambda>s.
     Inr (s\<lparr>cs_versions := cs_versions other\<rparr>))"

definition cs_get_version :: "nat \<Rightarrow> cstore \<Rightarrow> nat res" where
  "cs_get_version i s = assertR (i < length (cs_versions s)) (Inr (cs_versions s ! i))"

definition cs_increase_version :: "nat \<Rightarrow> nat \<Rightarrow> cstore \<Rightarrow> cstore res" where
  "cs_increase_version c i s = assertR (i < length (cs_versions s))
     (Inr (s\<lparr>cs_versions := (cs_versions s)[i := trunc c (cs_versions s ! i + 1)]\<rparr>))"

definition cs_delete :: "cstore \<Rightarrow> unit res" where
  "cs_delete s = assertR (guard_is_free (cs_guard s)) (assertR (\<forall>g\<in>set (cs_fields s). guard_is_free g) (Inr ()))"

text \<open>\<^verbatim>\<open>ComponentView\<close> of an admin's component: checked, and guarded unless that is switched off.\<close>

record cdetails =
  cd_guard :: access_guard
  cd_validation :: int
  cd_guarded :: bool

definition cd_default :: cdetails where
  "cd_default = \<lparr>cd_guard = 0, cd_validation = 0xABCD, cd_guarded = True\<rparr>"

definition cd_manual :: cdetails where
  "cd_manual = cd_default\<lparr>cd_guarded := False\<rparr>"

definition component_view :: "bool \<Rightarrow> cdetails \<Rightarrow> cdetails res" where
  "component_view w d = assertR (cd_validation d = 0xABCD)
     (if cd_guarded d then bindR (guard_do (start_op w) (cd_guard d)) (\<lambda>g. Inr (d\<lparr>cd_guard := g\<rparr>)) else Inr d)"

definition component_view_end :: "bool \<Rightarrow> cdetails \<Rightarrow> cdetails res" where
  "component_view_end w d =
     (if cd_guarded d then bindR (guard_do (stop_op w) (cd_guard d)) (\<lambda>g. Inr (d\<lparr>cd_guard := g\<rparr>)) else Inr d)"

section \<open>Views against the table of readers and writers\<close>

datatype store_op = OpenView bool nat | CloseView bool nat | LockStore bool | UnlockStore bool

fun store_do :: "nat \<Rightarrow> store_op \<Rightarrow> cstore \<Rightarrow> cstore res" where
  "store_do c (OpenView w i) s = view_open c w i s"
| "store_do c (CloseView w i) s = view_close w i s"
| "store_do c (LockStore w) s = cs_lock w s"
| "store_do c (UnlockStore w) s = cs_unlock w s"

fun store_run :: "nat \<Rightarrow> store_op list \<Rightarrow> cstore \<Rightarrow> cstore res" where
  "store_run c [] s = Inr s"
| "store_run c (e # es) s = bindR (store_do c e s) (store_run c es)"

text \<open>
  The specification: who writes and reads the store, and each of its \<open>n\<close> components.  A view
  opens and closes only while nobody holds the store.
\<close>

type_synonym store_table = "(nat \<times> nat) \<times> (nat \<Rightarrow> nat \<times> nat)"

definition table_component :: "nat \<Rightarrow> guard_op \<Rightarrow> nat \<Rightarrow> store_table \<Rightarrow> store_table option" where
  "table_component n e i t = (if fst t = (0, 0) \<and> i < n
     then map_option (\<lambda>rw. (fst t, (snd t)(i := rw))) (rw_step e (snd t i)) else None)"

fun table_step :: "nat \<Rightarrow> store_op \<Rightarrow> store_table \<Rightarrow> store_table option" where
  "table_step n (OpenView w i) t = table_component n (start_op w) i t"
| "table_step n (CloseView w i) t = table_component n (stop_op w) i t"
| "table_step n (LockStore w) t = map_option (\<lambda>rw. (rw, snd t)) (rw_step (start_op w) (fst t))"
| "table_step n (UnlockStore w) t = map_option (\<lambda>rw. (rw, snd t)) (rw_step (stop_op w) (fst t))"

fun table_run :: "nat \<Rightarrow> store_op list \<Rightarrow> store_table \<Rightarrow> store_table option" where
  "table_run n [] t = Some t"
| "table_run n (e # es) t = Option.bind (table_step n e t) (table_run n es)"

definition table_ok :: "nat \<Rightarrow> store_table \<Rightarrow> cstore \<Rightarrow> bool" where
  "table_ok n t s \<longleftrightarrow> rw_ok (fst t) \<and> cs_guard s = rw_value (fst t) \<and> length (cs_fields s) = n \<and>
    (\<forall>i<n. rw_ok (snd t i) \<and> cs_fields s ! i = rw_value (snd t i))"

lemma free_iff: "rw_ok rw \<Longrightarrow> guard_is_free (rw_value rw) \<longleftrightarrow> rw = (0, 0)"
  by (cases rw) (auto simp: rw_ok_def rw_value_def guard_is_free_def)

lemma field_do_ok:
  assumes "table_ok n t s"
  shows "assertR (guard_is_free (cs_guard s)) (cs_field_do e i s) =
      (case table_component n e i t of None \<Rightarrow> Inl AssertFail
       | Some t' \<Rightarrow> Inr (s\<lparr>cs_fields := (cs_fields s)[i := rw_value (snd t' i)]\<rparr>)) \<and>
    (case table_component n e i t of None \<Rightarrow> True
     | Some t' \<Rightarrow> table_ok n t' (s\<lparr>cs_fields := (cs_fields s)[i := rw_value (snd t' i)]\<rparr>))"
proof (cases "fst t = (0, 0) \<and> i < n")
  case True
  then have i: "rw_ok (snd t i)" "cs_fields s ! i = rw_value (snd t i)" "i < length (cs_fields s)"
    and free: "guard_is_free (cs_guard s)"
    using assms free_iff [of "fst t"] by (auto simp: table_ok_def)
  show ?thesis
    using True i free guard_do_refines [OF i(1), of e] rw_step_ok [OF i(1), of e] assms
    by (cases "rw_step e (snd t i)") (auto simp: table_component_def cs_field_do_def table_ok_def nth_list_update)
next
  case False
  then show ?thesis using assms free_iff [of "fst t"]
    by (auto simp: table_component_def cs_field_do_def table_ok_def assertR_def)
qed

lemma store_do_ok:
  assumes ok: "table_ok n t s" and n: "n < 2 ^ c"
  shows "case table_step n e t of None \<Rightarrow> store_do c e s = Inl AssertFail
    | Some t' \<Rightarrow> \<exists>s'. store_do c e s = Inr s' \<and> table_ok n t' s'"
proof -
  have store: "case map_option (\<lambda>rw. (rw, snd t)) (rw_step g (fst t)) of
      None \<Rightarrow> bindR (guard_do g (cs_guard s)) (\<lambda>h. Inr (s\<lparr>cs_guard := h\<rparr>)) = Inl AssertFail
    | Some t' \<Rightarrow> \<exists>s'. bindR (guard_do g (cs_guard s)) (\<lambda>h. Inr (s\<lparr>cs_guard := h\<rparr>)) = Inr s' \<and> table_ok n t' s'" for g
    using ok guard_do_refines [of "fst t" g] rw_step_ok [of "fst t" g]
    by (cases "rw_step g (fst t)") (auto simp: table_ok_def)
  have field: "case table_component n g i t of None \<Rightarrow> assertR (guard_is_free (cs_guard s)) (cs_field_do g i s) = Inl AssertFail
    | Some t' \<Rightarrow> \<exists>s'. assertR (guard_is_free (cs_guard s)) (cs_field_do g i s) = Inr s' \<and> table_ok n t' s'" for g i
    using field_do_ok [OF ok, of g i] by (auto split: option.splits)
  show ?thesis
  proof (cases e)
    case (OpenView w i)
    show ?thesis
    proof (cases "i = 2 ^ c - 1")
      case True
      then have "\<not> i < n" using n by linarith
      then have "table_component n (start_op w) i t = None" by (simp add: table_component_def)
      then show ?thesis using True OpenView by (simp add: view_open_def)
    next
      case False
      then show ?thesis using field [of "start_op w" i] OpenView by (simp add: view_open_def cs_on_created_def cong: option.case_cong)
    qed
  next
    case (CloseView w i)
    then show ?thesis using field [of "stop_op w" i] by (simp add: view_close_def cs_on_deleted_def cong: option.case_cong)
  qed (use store in \<open>simp_all add: cs_lock_def cs_unlock_def cong: option.case_cong\<close>)
qed

lemma store_run_ok:
  "table_ok n t s \<Longrightarrow> n < 2 ^ c \<Longrightarrow> case table_run n es t of None \<Rightarrow> store_run c es s = Inl AssertFail
    | Some t' \<Rightarrow> \<exists>s'. store_run c es s = Inr s' \<and> table_ok n t' s'"
proof (induction es arbitrary: t s)
  case (Cons e es)
  show ?case
  proof (cases "table_step n e t")
    case None
    then show ?thesis using store_do_ok [OF Cons.prems, of e] by simp
  next
    case (Some t1)
    then obtain s1 where "store_do c e s = Inr s1" "table_ok n t1 s1" using store_do_ok [OF Cons.prems, of e] by auto
    then show ?thesis using Cons.IH [of t1 s1] Cons.prems(2) Some by (simp cong: option.case_cong)
  qed
qed simp

text \<open>
  C36: The views of a store's components keep the rule of one writer or many readers.
  From a store with \<open>n\<close> free components, a run of views opened and closed and of the store locked
  and unlocked, in any order, fails a check exactly when a step breaks the rule for the component
  or the store it is about, names a component the store does not have, or opens or closes a view
  while the store is held; until then every component has one writer and no reader, or no writer.
  The store can be destroyed exactly when every view is closed and nobody holds it.
\<close>

theorem store_views_exclude:
  assumes "cs_guard s = 0" "cs_fields s = replicate n 0" "n < 2 ^ c"
  shows "case table_run n es ((0, 0), \<lambda>_. (0, 0)) of
      None \<Rightarrow> store_run c es s = Inl AssertFail
    | Some (store, table) \<Rightarrow> \<exists>s'. store_run c es s = Inr s' \<and>
        (\<forall>i<n. fst (table i) = 0 \<or> fst (table i) = 1 \<and> snd (table i) = 0) \<and>
        (cs_delete s' = Inr () \<longleftrightarrow> store = (0, 0) \<and> (\<forall>i<n. table i = (0, 0)))"
proof -
  have "table_ok n ((0, 0), \<lambda>_. (0, 0)) s" using assms(1,2) by (simp add: table_ok_def rw_ok_def rw_value_def)
  from store_run_ok [OF this assms(3), of es] show ?thesis
  proof (cases "table_run n es ((0, 0), \<lambda>_. (0, 0))")
    case (Some t)
    obtain store table where t: "t = (store, table)" by (cases t)
    with Some store_run_ok [OF \<open>table_ok n ((0, 0), \<lambda>_. (0, 0)) s\<close> assms(3), of es] obtain s' where
      s': "store_run c es s = Inr s'" "table_ok n (store, table) s'" by auto
    have "cs_delete s' = Inr () \<longleftrightarrow> store = (0, 0) \<and> (\<forall>i<n. table i = (0, 0))"
      using s'(2) free_iff by (auto simp: cs_delete_def assertR_def table_ok_def all_set_conv_all_nth split: if_splits)
    moreover have "\<forall>i<n. fst (table i) = 0 \<or> fst (table i) = 1 \<and> snd (table i) = 0"
      using s'(2) by (fastforce simp: table_ok_def rw_ok_def)
    ultimately show ?thesis using Some t s'(1) by auto
  qed simp
qed

theorem store_views_exclude_witness:
  "\<exists>s'. store_run 16 [OpenView False 1, OpenView False 1, OpenView True 0, CloseView True 0]
      (cs_new\<lparr>cs_fields := replicate 2 0\<rparr>) = Inr s' \<and> cs_delete s' \<noteq> Inr () \<and>
    store_run 16 [OpenView False 1, OpenView True 1] (cs_new\<lparr>cs_fields := replicate 2 0\<rparr>) = Inl AssertFail"
proof -
  let ?s = "cs_new\<lparr>cs_fields := replicate 2 0\<rparr>"
  have s: "cs_guard ?s = 0" "cs_fields ?s = replicate 2 0" "(2 :: nat) < 2 ^ 16" by (simp_all add: cs_new_def)
  have "\<exists>t. table_run 2 [OpenView False 1, OpenView False 1, OpenView True 0, CloseView True 0] ((0, 0), \<lambda>_. (0, 0)) = Some ((0, 0), t) \<and>
      t 1 = (0, 2)"
    by (simp add: table_component_def start_op_def stop_op_def)
  moreover have "table_run 2 [OpenView False 1, OpenView True 1] ((0, 0), \<lambda>_. (0, 0)) = None"
    by (simp add: table_component_def start_op_def)
  ultimately show ?thesis
    using store_views_exclude [OF s, of "[OpenView False 1, OpenView False 1, OpenView True 0, CloseView True 0]"]
      store_views_exclude [OF s, of "[OpenView False 1, OpenView True 1]"] by fastforce
qed

text \<open>
  Growing the protection keeps the guards and versions of the components there are; when the guards have
  to move to a bigger block every one of them must be free.
\<close>

lemma copy_guards_ok: "copy_guards gs = (if \<forall>g\<in>set gs. g = 0 then Inr gs else Inl AssertFail)"
  by (induction gs) (auto simp: guard_copy_def assertR_def)

lemma resize_protection_ok:
  assumes "length (cs_versions s) = length (cs_fields s)"
  shows "cs_resize_protection i s =
    (if i < length (cs_fields s) then Inr s
     else if i + 1 \<le> cs_capacity s \<or> (\<forall>g\<in>set (cs_fields s). g = 0)
     then Inr (s\<lparr>cs_fields := cs_fields s @ replicate (i + 1 - length (cs_fields s)) 0,
       cs_capacity := (if i + 1 \<le> cs_capacity s then cs_capacity s else (i + 1) * 2),
       cs_versions := cs_versions s @ replicate (i + 1 - length (cs_fields s)) 0\<rparr>)
     else Inl AssertFail)"
  using assms by (auto simp: cs_resize_protection_def resize_fields_def copy_guards_ok not_less)

text \<open>
  An id from before its component was given a new version is told apart: comparing it with the
  present id fails the check until the version, \<open>c\<close> bits wide, comes round.
\<close>

lemma stale_id_detected:
  assumes "cs_get_version i s = Inr v" "v < 2 ^ c" "0 < k" "k < 2 ^ c" "i \<noteq> 2 ^ c - 1"
    "((\<lambda>r. bindR r (cs_increase_version c i)) ^^ k) (Inr s) = Inr s'" "cs_get_version i s' = Inr v'"
  shows "ci_equal c \<lparr>ci_raw = i, ci_version = v\<rparr> \<lparr>ci_raw = i, ci_version = v'\<rparr> = Inl AssertFail"
proof -
  have "\<exists>s1. ((\<lambda>r. bindR r (cs_increase_version c i)) ^^ j) (Inr s) = Inr s1 \<and>
      length (cs_versions s1) = length (cs_versions s) \<and> cs_versions s1 ! i = (v + j) mod 2 ^ c" for j
  proof (induction j)
    case 0
    then show ?case using assms(1,2) by (auto simp: cs_get_version_def assertR_def split: if_splits)
  next
    case (Suc j)
    then obtain s1 where s1: "((\<lambda>r. bindR r (cs_increase_version c i)) ^^ j) (Inr s) = Inr s1"
      "length (cs_versions s1) = length (cs_versions s)" "cs_versions s1 ! i = (v + j) mod 2 ^ c" by blast
    have "i < length (cs_versions s)" using assms(1) by (auto simp: cs_get_version_def assertR_def split: if_splits)
    then have "cs_increase_version c i s1 = Inr (s1\<lparr>cs_versions := (cs_versions s1)[i := (v + Suc j) mod 2 ^ c]\<rparr>)"
      using s1(2,3) by (simp add: cs_increase_version_def trunc_def mod_Suc_eq)
    then show ?case using s1 \<open>i < _\<close> by simp
  qed
  from this [of k] assms(6,7) have "v' = (v + k) mod 2 ^ c"
    by (auto simp: cs_get_version_def assertR_def split: if_splits)
  moreover have "(v + k) mod 2 ^ c \<noteq> v"
  proof
    assume "(v + k) mod 2 ^ c = v"
    then have "(v + k) mod 2 ^ c = v mod 2 ^ c" using assms(2) by simp
    then have "2 ^ c dvd v + k - v" by (simp add: mod_eq_dvd_iff_nat)
    then show False using assms(3,4) by (auto dest: dvd_imp_le)
  qed
  ultimately show ?thesis using assms(5) by (simp add: ci_equal_def ci_valid_def)
qed

section \<open>Properties of the component data\<close>

text \<open>
  C32: A \<^verbatim>\<open>ComponentDataVector\<close> is a map from positions to byte strings.  Adding data
  returns a position that is not in use and changes nothing else; reading gives back what was added;
  removing takes one entry out and leaves the others readable, and its place can be used again.  When
  \<^verbatim>\<open>isDirty\<close> is not reported the data has not moved.  Hypotheses: the invariant, a size
  field of at least one byte; for adding, a size that fits the field and positions left.
\<close>

theorem component_data_refines_map:
  assumes "dv_ok h m d" "0 < h"
  shows "(length bs < 256 ^ h \<and> rp_total (dv_pool d) + length bs + h < 2 ^ c \<longrightarrow>
      (\<exists>pos dirty d'. dv_add c small h bs d = Inr ((pos, dirty), d') \<and> m pos = None \<and> dv_ok h (m(pos \<mapsto> bs)) d' \<and>
        (\<not> dirty \<longrightarrow> dv_capacity d' = dv_capacity d))) \<and>
    (m pos = Some xs \<longrightarrow> dv_get h pos d = Inr xs \<and>
      (\<exists>d'. dv_remove small h pos d = Inr d' \<and> dv_ok h (m(pos := None)) d'))"
  using dv_add_ok [OF assms, of bs c small] dv_getD(2) [OF assms(1), of pos xs] dv_remove_ok [OF assms, of pos xs small]
  by metis

theorem component_data_refines_map_witness:
  "\<exists>pos dirty d. dv_add 32 4 2 [7, 8, 9] dv_new = Inr ((pos, dirty), d) \<and> dv_get 2 pos d = Inr [7, 8, 9]"
proof -
  obtain pos dirty d where d: "dv_add 32 4 2 [7, 8, 9] dv_new = Inr ((pos, dirty), d)" "dv_ok 2 (Map.empty(pos \<mapsto> [7, 8, 9])) d"
    using component_data_refines_map [OF dv_new_ok, of 2 "[7, 8, 9]" 32 4] by (auto simp: dv_new_def rp_new_def)
  then show ?thesis using component_data_refines_map [OF d(2), of "[]" 32 4 pos "[7, 8, 9]"] by simp
qed

end
