(* ===== verification/Wakeups.thy ===== *)
theory Wakeups
  imports JobRuns
begin

text \<open>
  Waking the one thread that serves a queue: \<^verbatim>\<open>concurrency/SCThreadSynchronizer.h\<close> and
  \<^verbatim>\<open>SCThreadSynchronizer.cpp\<close> in the build over a mutex and a condition variable, as the job
  dispatcher of \<^verbatim>\<open>jobs/JobDispatcher.cpp\<close> uses it: producers add an item to its queue and call
  \<^verbatim>\<open>Signal\<close>, the dispatcher calls \<^verbatim>\<open>TryWait\<close> and then takes all items, and
  \<^verbatim>\<open>Stop\<close> ends it.

  Every access to the flag \<^verbatim>\<open>mIsStarving\<close>, which producers read without the mutex, is a step, and
  so is each operation on the mutex.  Waiting releases the mutex and sleeps in one step; a
  sleeping thread goes on after a notification, or at any time by a time-out
  (\<^verbatim>\<open>TryWaitUntil\<close>) or spuriously.
\<close>

section \<open>The synchronizer\<close>

datatype server = SvLock | SvStarving | SvRunning | SvSleep | SvRelock | SvSet | SvUnlock bool | SvTake | SvDone

datatype client = KAssert | KPut | KLoad | KLock | KStore | KNotify | KUnlock
  | StopLock | StopStore | StopNotify | StopUnlock | KDone | KFail

record wake =
  wk_items :: nat
  wk_starving :: bool
  wk_running :: bool
  wk_locked :: bool
  wk_server :: server
  wk_clients :: "client list"

definition wake_init :: "client list \<Rightarrow> wake" where
  "wake_init cs = \<lparr>wk_items = 0, wk_starving = True, wk_running = True, wk_locked = False, wk_server = SvLock, wk_clients = cs\<rparr>"

text \<open>\<^verbatim>\<open>TryWait\<close> up to \<open>SvUnlock\<close>, whose argument it returns, then \<^verbatim>\<open>DequeueAll\<close>.\<close>

definition server_step :: "wake \<Rightarrow> wake option" where
  "server_step s = (case wk_server s of
     SvLock \<Rightarrow> if wk_locked s then None else Some (s\<lparr>wk_locked := True, wk_server := SvStarving\<rparr>)
   | SvStarving \<Rightarrow> Some (s\<lparr>wk_server := if wk_starving s then SvRunning else SvSet\<rparr>)
   | SvRunning \<Rightarrow> Some (if wk_running s then s\<lparr>wk_locked := False, wk_server := SvSleep\<rparr> else s\<lparr>wk_server := SvUnlock False\<rparr>)
   | SvSleep \<Rightarrow> None
   | SvRelock \<Rightarrow> if wk_locked s then None else Some (s\<lparr>wk_locked := True, wk_server := SvSet\<rparr>)
   | SvSet \<Rightarrow> Some (s\<lparr>wk_starving := True, wk_server := SvUnlock True\<rparr>)
   | SvUnlock r \<Rightarrow> Some (s\<lparr>wk_locked := False, wk_server := if r then SvTake else SvDone\<rparr>)
   | SvTake \<Rightarrow> Some (s\<lparr>wk_items := 0, wk_server := SvLock\<rparr>)
   | SvDone \<Rightarrow> None)"

definition notify :: "wake \<Rightarrow> wake" where
  "notify s = (if wk_server s = SvSleep then s\<lparr>wk_server := SvRelock\<rparr> else s)"

text \<open>
  A producer of the dispatcher (\<^verbatim>\<open>Reschedule\<close>) starts at \<open>KAssert\<close>, which
  reads \<^verbatim>\<open>mIsRunning\<close> for the assertion before it adds its item, and is at
  \<open>KFail\<close> when that fails; \<^verbatim>\<open>WakeUp\<close> only signals, from \<open>KLoad\<close>.
\<close>

definition client_step :: "client \<Rightarrow> wake \<Rightarrow> (client \<times> wake) option" where
  "client_step p s = (case p of
     KAssert \<Rightarrow> Some (if wk_running s then KPut else KFail, s)
   | KPut \<Rightarrow> Some (KLoad, s\<lparr>wk_items := wk_items s + 1\<rparr>)
   | KLoad \<Rightarrow> Some (if wk_starving s then KLock else KDone, s)
   | KLock \<Rightarrow> if wk_locked s then None else Some (KStore, s\<lparr>wk_locked := True\<rparr>)
   | KStore \<Rightarrow> Some (KNotify, s\<lparr>wk_starving := False\<rparr>)
   | KNotify \<Rightarrow> Some (KUnlock, notify s)
   | KUnlock \<Rightarrow> Some (KDone, s\<lparr>wk_locked := False\<rparr>)
   | StopLock \<Rightarrow> if wk_locked s then None else Some (StopStore, s\<lparr>wk_locked := True\<rparr>)
   | StopStore \<Rightarrow> Some (StopNotify, s\<lparr>wk_running := False\<rparr>)
   | StopNotify \<Rightarrow> Some (StopUnlock, notify s)
   | StopUnlock \<Rightarrow> Some (KDone, s\<lparr>wk_locked := False\<rparr>)
   | KDone \<Rightarrow> None
   | KFail \<Rightarrow> None)"

text \<open>
  \<^verbatim>\<open>Awake\<close> is time that has passed, or a spurious wake-up: a sleeping server goes on, and a server
  about to sleep until a time that is over does not release the mutex at all.
\<close>

datatype mover = Server | Client nat | Awake

definition wake_step :: "mover \<Rightarrow> wake \<Rightarrow> wake option" where
  "wake_step m s = (case m of
     Server \<Rightarrow> server_step s
   | Client i \<Rightarrow> if i < length (wk_clients s)
       then map_option (\<lambda>(p, s'). s'\<lparr>wk_clients := (wk_clients s)[i := p]\<rparr>) (client_step (wk_clients s ! i) s) else None
   | Awake \<Rightarrow> if wk_server s = SvSleep then Some (s\<lparr>wk_server := SvRelock\<rparr>)
       else if wk_server s = SvRunning \<and> wk_running s then Some (s\<lparr>wk_server := SvSet\<rparr>) else None)"

inductive wakes :: "wake \<Rightarrow> wake \<Rightarrow> bool" for init where
  start: "wakes init init"
| step: "wakes init s \<Longrightarrow> wake_step m s = Some s' \<Longrightarrow> wakes init s'"

section \<open>No signal is lost\<close>

definition kl_lock :: "client \<Rightarrow> nat" where
  "kl_lock p = (case p of KStore \<Rightarrow> 1 | KNotify \<Rightarrow> 1 | KUnlock \<Rightarrow> 1 | StopStore \<Rightarrow> 1 | StopNotify \<Rightarrow> 1 | StopUnlock \<Rightarrow> 1 | _ \<Rightarrow> 0)"

definition ws_lock :: "server \<Rightarrow> nat" where
  "ws_lock w = (case w of SvStarving \<Rightarrow> 1 | SvRunning \<Rightarrow> 1 | SvSet \<Rightarrow> 1 | SvUnlock _ \<Rightarrow> 1 | _ \<Rightarrow> 0)"

text \<open>The clients that will still signal, those about to notify, and those about to notify the end.\<close>

definition signalling :: "client \<Rightarrow> bool" where
  "signalling p \<longleftrightarrow> p \<in> {KLoad, KLock, KStore, KNotify}"

definition will_take :: "wake \<Rightarrow> bool" where
  "will_take s \<longleftrightarrow> (case wk_server s of SvLock \<Rightarrow> \<not> wk_starving s | SvStarving \<Rightarrow> \<not> wk_starving s | SvRunning \<Rightarrow> False
     | SvSleep \<Rightarrow> False | SvRelock \<Rightarrow> True | SvSet \<Rightarrow> True | SvUnlock r \<Rightarrow> True | SvTake \<Rightarrow> True | SvDone \<Rightarrow> True)"

definition wake_ok :: "wake \<Rightarrow> bool" where
  "wake_ok s \<longleftrightarrow> ws_lock (wk_server s) + tot kl_lock (wk_clients s) = of_bool (wk_locked s) \<and>
    (wk_server s = SvRunning \<longrightarrow> wk_starving s) \<and>
    (KNotify \<in> set (wk_clients s) \<longrightarrow> \<not> wk_starving s) \<and>
    (StopNotify \<in> set (wk_clients s) \<longrightarrow> \<not> wk_running s) \<and>
    (wk_server s = SvSleep \<longrightarrow> wk_starving s \<or> KNotify \<in> set (wk_clients s)) \<and>
    (wk_server s = SvSleep \<longrightarrow> wk_running s \<or> StopNotify \<in> set (wk_clients s)) \<and>
    (0 < wk_items s \<longrightarrow> will_take s \<or> (\<exists>p\<in>set (wk_clients s). signalling p)) \<and>
    (wk_server s \<in> {SvUnlock False, SvDone} \<longrightarrow> \<not> wk_running s)"

lemmas wk_defs = ws_lock_def kl_lock_def signalling_def will_take_def

lemma none_holds: "tot kl_lock cs = 0 \<Longrightarrow> p \<in> set cs \<Longrightarrow> kl_lock p = 0"
  by (auto simp: tot_zero_iff in_set_conv_nth)

lemma server_step_ok:
  assumes ok: "wake_ok s" and step: "server_step s = Some s'"
  shows "wake_ok s'"
proof -
  have none: "tot kl_lock (wk_clients s) = 0 \<and> KNotify \<notin> set (wk_clients s) \<and> StopNotify \<notin> set (wk_clients s)"
    if "ws_lock (wk_server s) = 1 \<or> \<not> wk_locked s"
  proof -
    have z: "tot kl_lock (wk_clients s) = 0" using ok that by (cases "wk_locked s") (auto simp: wake_ok_def)
    then show ?thesis using none_holds [OF z, of KNotify] none_holds [OF z, of StopNotify] by (auto simp: kl_lock_def)
  qed
  show ?thesis
  proof (cases "wk_server s")
    case SvLock
    then have s': "s' = s\<lparr>wk_locked := True, wk_server := SvStarving\<rparr>" "\<not> wk_locked s"
      using step by (simp_all add: server_step_def split: if_splits)
    show ?thesis unfolding s'(1) using ok none SvLock s'(2) by (simp add: wake_ok_def wk_defs)
  next
    case SvStarving
    then have s': "s' = s\<lparr>wk_server := if wk_starving s then SvRunning else SvSet\<rparr>" using step by (simp add: server_step_def)
    show ?thesis unfolding s' using ok none SvStarving by (cases "wk_starving s") (simp_all add: wake_ok_def wk_defs)
  next
    case SvRunning
    then have s': "s' = (if wk_running s then s\<lparr>wk_locked := False, wk_server := SvSleep\<rparr> else s\<lparr>wk_server := SvUnlock False\<rparr>)"
      using step by (simp add: server_step_def)
    show ?thesis unfolding s' using ok none SvRunning by (cases "wk_running s") (simp_all add: wake_ok_def wk_defs)
  next
    case SvRelock
    then have s': "s' = s\<lparr>wk_locked := True, wk_server := SvSet\<rparr>" "\<not> wk_locked s"
      using step by (simp_all add: server_step_def split: if_splits)
    show ?thesis unfolding s'(1) using ok none SvRelock s'(2) by (simp add: wake_ok_def wk_defs)
  next
    case SvSet
    then have s': "s' = s\<lparr>wk_starving := True, wk_server := SvUnlock True\<rparr>" using step by (simp add: server_step_def)
    show ?thesis unfolding s' using ok none SvSet by (simp add: wake_ok_def wk_defs)
  next
    case (SvUnlock r)
    then have s': "s' = s\<lparr>wk_locked := False, wk_server := if r then SvTake else SvDone\<rparr>" using step by (simp add: server_step_def)
    show ?thesis unfolding s' using ok none SvUnlock by (cases r; cases "wk_locked s") (simp_all add: wake_ok_def wk_defs)
  next
    case SvTake
    then have s': "s' = s\<lparr>wk_items := 0, wk_server := SvLock\<rparr>" using step by (simp add: server_step_def)
    show ?thesis unfolding s' using ok none SvTake by (simp add: wake_ok_def wk_defs)
  qed (use step in \<open>simp_all add: server_step_def\<close>)
qed

lemma tot_split: "tot w (xs @ p # ys) = w p + tot w xs + tot w ys"
  by (simp add: tot_def)

lemma client_step_ok:
  assumes ok: "wake_ok s" and cs: "wk_clients s = xs @ p # ys" and step: "client_step p s = Some (q, t)"
  shows "wake_ok (t\<lparr>wk_clients := xs @ q # ys\<rparr>)"
proof -
  have others: "r \<in> set xs \<union> set ys \<Longrightarrow> kl_lock r = 0" if "kl_lock p = 1 \<or> \<not> wk_locked s" for r
  proof -
    have "tot kl_lock xs = 0 \<and> tot kl_lock ys = 0"
      using ok that by (cases "wk_locked s") (auto simp: wake_ok_def cs tot_split)
    then show "r \<in> set xs \<union> set ys \<Longrightarrow> kl_lock r = 0" using none_holds by blast
  qed
  have none: "KNotify \<notin> set xs \<and> KNotify \<notin> set ys \<and> StopNotify \<notin> set xs \<and> StopNotify \<notin> set ys"
    if "kl_lock p = 1 \<or> \<not> wk_locked s"
    using others [OF that, of KNotify] others [OF that, of StopNotify] by (auto simp: kl_lock_def)
  show ?thesis
  proof (cases p)
    case KAssert
    then have e: "q = (if wk_running s then KPut else KFail)" "t = s" using step by (auto simp: client_step_def)
    show ?thesis unfolding e using ok KAssert
      by (cases "wk_running s"; cases "wk_server s"; simp add: wake_ok_def cs tot_split kl_lock_def signalling_def will_take_def)
  next
    case KPut
    then have e: "q = KLoad" "t = s\<lparr>wk_items := wk_items s + 1\<rparr>" using step by (simp_all add: client_step_def)
    show ?thesis unfolding e using ok KPut by (simp add: wake_ok_def cs tot_split kl_lock_def signalling_def)
  next
    case KLoad
    then have e: "q = (if wk_starving s then KLock else KDone)" "t = s" using step by (auto simp: client_step_def)
    have "wk_starving s \<Longrightarrow> ?thesis" unfolding e using ok KLoad by (simp add: wake_ok_def cs tot_split kl_lock_def signalling_def)
    moreover have "\<not> wk_starving s \<Longrightarrow> ?thesis" unfolding e using ok KLoad
      by (cases "wk_server s"; simp add: wake_ok_def cs tot_split kl_lock_def signalling_def will_take_def; blast)
    ultimately show ?thesis by blast
  next
    case KLock
    then have e: "q = KStore" "t = s\<lparr>wk_locked := True\<rparr>" "\<not> wk_locked s" using step by (simp_all add: client_step_def split: if_splits)
    show ?thesis unfolding e(1,2) using ok KLock none e(3)
      by (cases "wk_server s"; simp add: wake_ok_def cs tot_split kl_lock_def signalling_def will_take_def)
  next
    case KStore
    then have e: "q = KNotify" "t = s\<lparr>wk_starving := False\<rparr>" using step by (simp_all add: client_step_def)
    show ?thesis unfolding e using ok KStore none
      by (cases "wk_locked s"; cases "wk_server s"; simp add: wake_ok_def cs tot_split wk_defs)
  next
    case KNotify
    then have e: "q = KUnlock" "t = notify s" using step by (simp_all add: client_step_def)
    show ?thesis unfolding e using ok KNotify none
      by (cases "wk_locked s"; cases "wk_server s"; simp add: wake_ok_def cs tot_split wk_defs notify_def)
  next
    case KUnlock
    then have e: "q = KDone" "t = s\<lparr>wk_locked := False\<rparr>" using step by (simp_all add: client_step_def)
    show ?thesis unfolding e using ok KUnlock none
      by (cases "wk_locked s"; cases "wk_server s"; simp add: wake_ok_def cs tot_split kl_lock_def signalling_def will_take_def)
  next
    case StopLock
    then have e: "q = StopStore" "t = s\<lparr>wk_locked := True\<rparr>" "\<not> wk_locked s" using step by (simp_all add: client_step_def split: if_splits)
    show ?thesis unfolding e(1,2) using ok StopLock none e(3)
      by (cases "wk_server s"; simp add: wake_ok_def cs tot_split kl_lock_def signalling_def will_take_def)
  next
    case StopStore
    then have e: "q = StopNotify" "t = s\<lparr>wk_running := False\<rparr>" using step by (simp_all add: client_step_def)
    show ?thesis unfolding e using ok StopStore none
      by (cases "wk_locked s"; cases "wk_server s"; simp add: wake_ok_def cs tot_split kl_lock_def signalling_def will_take_def)
  next
    case StopNotify
    then have e: "q = StopUnlock" "t = notify s" using step by (simp_all add: client_step_def)
    show ?thesis unfolding e using ok StopNotify none
      by (cases "wk_locked s"; cases "wk_server s"; simp add: wake_ok_def cs tot_split wk_defs notify_def)
  next
    case StopUnlock
    then have e: "q = KDone" "t = s\<lparr>wk_locked := False\<rparr>" using step by (simp_all add: client_step_def)
    show ?thesis unfolding e using ok StopUnlock none
      by (cases "wk_locked s"; cases "wk_server s"; simp add: wake_ok_def cs tot_split kl_lock_def signalling_def will_take_def)
  qed (use step in \<open>simp_all add: client_step_def\<close>)
qed

lemma split_at: "i < length cs \<Longrightarrow> \<exists>xs ys. cs = xs @ cs ! i # ys \<and> (\<forall>q. cs[i := q] = xs @ q # ys)"
  by (metis id_take_nth_drop upd_conv_take_nth_drop)

lemma wake_step_ok:
  assumes ok: "wake_ok s" and step: "wake_step m s = Some s'"
  shows "wake_ok s'"
proof (cases m)
  case Server
  then show ?thesis using assms server_step_ok by (simp add: wake_step_def)
next
  case (Client i)
  then have i: "i < length (wk_clients s)" using step by (simp add: wake_step_def split: if_splits)
  then obtain q t where q: "client_step (wk_clients s ! i) s = Some (q, t)" "s' = t\<lparr>wk_clients := (wk_clients s)[i := q]\<rparr>"
    using Client step by (auto simp: wake_step_def)
  obtain xs ys where "wk_clients s = xs @ wk_clients s ! i # ys" "\<forall>r. (wk_clients s)[i := r] = xs @ r # ys"
    using split_at [OF i] by blast
  then show ?thesis using client_step_ok [OF ok _ q(1)] q(2) by metis
next
  case Awake
  then consider "s' = s\<lparr>wk_server := SvRelock\<rparr>" "wk_server s = SvSleep" | "s' = s\<lparr>wk_server := SvSet\<rparr>" "wk_server s = SvRunning"
    using step by (auto simp: wake_step_def split: if_splits)
  then show ?thesis
  proof cases
    case 1
    show ?thesis unfolding 1(1) using ok 1(2) by (simp add: wake_ok_def wk_defs)
  next
    case 2
    show ?thesis unfolding 2(1) using ok 2(2) by (simp add: wake_ok_def wk_defs; blast)
  qed
qed

lemma wakes_ok:
  assumes "wakes init s" "wake_ok init"
  shows "wake_ok s"
  using assms by (induction rule: wakes.induct) (auto intro: wake_step_ok)

lemma init_ok: "set cs \<subseteq> {KAssert, KPut, KLoad, StopLock} \<Longrightarrow> wake_ok (wake_init cs)"
  by (auto simp: wake_ok_def wake_init_def wk_defs tot_def subset_iff intro!: sum_list_0 split: client.splits)

section \<open>Who stops\<close>

definition stops :: "client \<Rightarrow> bool" where
  "stops p \<longleftrightarrow> p \<in> {StopLock, StopStore, StopNotify, StopUnlock}"

definition wt_stop :: "client \<Rightarrow> nat" where
  "wt_stop p = of_bool (p \<in> {StopLock, StopStore})"

definition asserts :: "client \<Rightarrow> bool" where
  "asserts p \<longleftrightarrow> p \<in> {KAssert, KFail}"

definition stop_ok :: "client list \<Rightarrow> wake \<Rightarrow> bool" where
  "stop_ok cs s \<longleftrightarrow> (wk_running s \<longrightarrow> tot wt_stop (wk_clients s) = tot wt_stop cs) \<and>
    ((\<forall>p\<in>set cs. \<not> stops p) \<longrightarrow> wk_running s \<and> (\<forall>p\<in>set (wk_clients s). \<not> stops p)) \<and>
    (KFail \<in> set (wk_clients s) \<and> KFail \<notin> set cs \<longrightarrow> \<not> wk_running s) \<and>
    ((\<forall>p\<in>set cs. \<not> asserts p) \<longrightarrow> (\<forall>p\<in>set (wk_clients s). \<not> asserts p))"

lemma stop_step_ok:
  assumes ok: "stop_ok cs s" and step: "wake_step m s = Some s'"
  shows "stop_ok cs s'"
proof (cases m)
  case Server
  then have "wk_running s' = wk_running s \<and> wk_clients s' = wk_clients s"
    using step by (auto simp: wake_step_def server_step_def split: server.splits if_splits)
  then show ?thesis using ok by (simp add: stop_ok_def)
next
  case (Client i)
  then have i: "i < length (wk_clients s)" using step by (simp add: wake_step_def split: if_splits)
  then obtain q t where q: "client_step (wk_clients s ! i) s = Some (q, t)" "s' = t\<lparr>wk_clients := (wk_clients s)[i := q]\<rparr>"
    using Client step by (auto simp: wake_step_def)
  obtain xs ys where cs: "wk_clients s = xs @ wk_clients s ! i # ys" "\<forall>r. (wk_clients s)[i := r] = xs @ r # ys"
    using split_at [OF i] by blast
  define p where "p = wk_clients s ! i"
  have "(wk_running t \<longrightarrow> wk_running s \<and> wt_stop q = wt_stop p) \<and> (\<not> stops p \<longrightarrow> \<not> stops q \<and> wk_running t = wk_running s) \<and>
      (q = KFail \<longrightarrow> \<not> wk_running t) \<and> p \<noteq> KFail \<and> (\<not> asserts p \<longrightarrow> \<not> asserts q)"
    using q(1) by (cases p) (auto simp: p_def [symmetric] client_step_def wt_stop_def stops_def asserts_def notify_def split: if_splits)
  moreover have "wk_clients s = xs @ p # ys" "wk_clients s' = xs @ q # ys" "wk_running s' = wk_running t"
    using cs q(2) by (simp_all add: p_def)
  ultimately show ?thesis using ok by (auto simp: stop_ok_def tot_split)
next
  case Awake
  then show ?thesis using assms by (auto simp: wake_step_def stop_ok_def split: if_splits)
qed

lemma wakes_stop:
  assumes "wakes (wake_init cs) s"
  shows "stop_ok cs s"
  using assms
proof induction
  case start
  then show ?case by (simp add: stop_ok_def wake_init_def)
next
  case (step s m s')
  then show ?case by (simp add: stop_step_ok)
qed

section \<open>Rest\<close>

definition at_rest :: "wake \<Rightarrow> bool" where
  "at_rest s \<longleftrightarrow> server_step s = None \<and> (\<forall>p\<in>set (wk_clients s). client_step p s = None)"

lemma rest_unlocked:
  assumes "wake_ok s" "at_rest s"
  shows "\<not> wk_locked s" "set (wk_clients s) \<subseteq> {KDone, KFail}" "wk_server s \<in> {SvSleep, SvDone}"
proof -
  have srv: "ws_lock (wk_server s) = 0" using assms(2) by (cases "wk_server s") (simp_all add: at_rest_def server_step_def ws_lock_def)
  have cl: "kl_lock p = 0" if "p \<in> set (wk_clients s)" for p
    using assms(2) that by (cases p) (auto simp: at_rest_def client_step_def kl_lock_def)
  show free: "\<not> wk_locked s" using assms(1) srv tot_zero [of "wk_clients s" kl_lock] cl by (cases "wk_locked s") (simp_all add: wake_ok_def)
  have "p = KDone \<or> p = KFail" if "p \<in> set (wk_clients s)" for p
    using assms(2) that free by (cases p) (auto simp: at_rest_def client_step_def)
  then show "set (wk_clients s) \<subseteq> {KDone, KFail}" by blast
  show "wk_server s \<in> {SvSleep, SvDone}" using assms(2) free by (cases "wk_server s") (simp_all add: at_rest_def server_step_def)
qed

lemma rest_settled:
  assumes ok: "wake_ok s" and st: "stop_ok cs s" and cs: "set cs \<subseteq> {KAssert, KPut, KLoad, StopLock}"
    and rest: "at_rest s"
  shows "set (wk_clients s) \<subseteq> {KDone, KFail} \<and> \<not> wk_locked s \<and>
    (KFail \<in> set (wk_clients s) \<longrightarrow> KAssert \<in> set cs \<and> StopLock \<in> set cs) \<and>
    (if StopLock \<in> set cs then wk_server s = SvDone else wk_server s = SvSleep \<and> wk_items s = 0)"
proof -
  note r = rest_unlocked [OF ok rest]
  have nots: "KNotify \<notin> set (wk_clients s)" "StopNotify \<notin> set (wk_clients s)" "\<forall>p\<in>set (wk_clients s). \<not> signalling p"
    "tot wt_stop (wk_clients s) = 0"
    using r(2) by (auto simp: signalling_def wt_stop_def intro!: tot_zero)
  have stopped: "StopLock \<in> set cs \<Longrightarrow> tot wt_stop cs \<noteq> 0"
    by (auto simp: tot_zero_iff in_set_conv_nth wt_stop_def)
  have "StopLock \<in> set cs \<Longrightarrow> \<not> wk_running s" using st stopped nots(4) by (auto simp: stop_ok_def)
  moreover have "wk_running s" if "StopLock \<notin> set cs"
  proof -
    have "\<forall>p\<in>set cs. \<not> stops p" using that cs by (auto simp: stops_def)
    then show ?thesis using st by (simp add: stop_ok_def)
  qed
  moreover have "wk_server s = SvSleep \<Longrightarrow> wk_running s \<and> wk_items s = 0" using ok nots by (simp add: wake_ok_def will_take_def)
  moreover have "wk_server s = SvDone \<Longrightarrow> \<not> wk_running s" using ok by (simp add: wake_ok_def)
  moreover have "KFail \<in> set (wk_clients s) \<Longrightarrow> \<not> wk_running s \<and> KAssert \<in> set cs"
    using st cs by (auto simp: stop_ok_def asserts_def)
  ultimately show ?thesis using r by auto
qed


section \<open>Work\<close>

definition server_work :: "server \<Rightarrow> bool \<Rightarrow> nat" where
  "server_work w starving = (case w of SvLock \<Rightarrow> 9 | SvStarving \<Rightarrow> 8 | SvRunning \<Rightarrow> 2 | SvSleep \<Rightarrow> 0 | SvRelock \<Rightarrow> 13
     | SvSet \<Rightarrow> 12 | SvUnlock r \<Rightarrow> if r then 11 else 1 | SvTake \<Rightarrow> 10 | SvDone \<Rightarrow> 0) + (if starving \<or> w = SvSet then 0 else 20)"

definition client_work :: "client \<Rightarrow> nat" where
  "client_work p = (case p of KAssert \<Rightarrow> 46 | KPut \<Rightarrow> 45 | KLoad \<Rightarrow> 44 | KLock \<Rightarrow> 43 | KStore \<Rightarrow> 42 | KNotify \<Rightarrow> 21 | KUnlock \<Rightarrow> 1
     | StopLock \<Rightarrow> 24 | StopStore \<Rightarrow> 23 | StopNotify \<Rightarrow> 22 | StopUnlock \<Rightarrow> 1 | KDone \<Rightarrow> 0 | KFail \<Rightarrow> 0)"

definition wake_work :: "wake \<Rightarrow> nat" where
  "wake_work s = server_work (wk_server s) (wk_starving s) + tot client_work (wk_clients s)"

lemma server_work_less: "server_step s = Some s' \<Longrightarrow> wake_work s' < wake_work s"
  by (cases "wk_server s") (auto simp: server_step_def wake_work_def server_work_def split: if_splits)

lemma client_work_less:
  assumes "client_step p s = Some (q, t)"
  shows "client_work q + server_work (wk_server t) (wk_starving t) < client_work p + server_work (wk_server s) (wk_starving s)"
  using assms by (cases p; cases "wk_server s")
    (auto simp: client_step_def notify_def server_work_def client_work_def split: if_splits)

lemma wake_work_step:
  assumes step: "wake_step m s = Some s'"
  shows "wake_work s' + 1 \<le> wake_work s + (if m = Awake then 14 else 0)"
proof (cases m)
  case Server
  then show ?thesis using step server_work_less [of s s'] by (simp add: wake_step_def)
next
  case (Client i)
  then have i: "i < length (wk_clients s)" using step by (simp add: wake_step_def split: if_splits)
  then obtain q t where q: "client_step (wk_clients s ! i) s = Some (q, t)" "s' = t\<lparr>wk_clients := (wk_clients s)[i := q]\<rparr>"
    using Client step by (auto simp: wake_step_def)
  have "tot client_work ((wk_clients s)[i := q]) + client_work (wk_clients s ! i) = tot client_work (wk_clients s) + client_work q"
    by (rule tot_update [OF i])
  then show ?thesis using client_work_less [OF q(1)] Client by (simp add: q(2) wake_work_def)
next
  case Awake
  then show ?thesis using step by (auto simp: wake_step_def wake_work_def server_work_def split: if_splits)
qed

text \<open>A schedule of the threads and the wake-ups.\<close>

primrec wake_run :: "mover list \<Rightarrow> wake \<Rightarrow> wake option" where
  "wake_run [] s = Some s"
| "wake_run (m # ms) s = Option.bind (wake_step m s) (wake_run ms)"

lemma wake_run_work: "wake_run ms s = Some s' \<Longrightarrow> wake_work s' + length ms \<le> wake_work s + 14 * count_list ms Awake"
proof (induction ms arbitrary: s)
  case (Cons m ms)
  then obtain u where u: "wake_step m s = Some u" "wake_run ms u = Some s'" by (cases "wake_step m s") auto
  show ?case using Cons.IH [OF u(2)] wake_work_step [OF u(1)] by (auto split: if_splits)
qed simp

text \<open>
  Signalling terminates: in a schedule of the dispatcher and \<open>n\<close> calls of \<open>Signal\<close> or \<open>Stop\<close> that
  makes \<open>k\<close> spurious or timed wake-ups, the threads make at most \<open>46 n + 14 k + 9\<close> steps before
  they are all at rest.
\<close>

theorem signalling_terminates:
  assumes "set cs \<subseteq> {KAssert, KPut, KLoad, StopLock}" and "wake_run ms (wake_init cs) = Some s"
  shows "length ms \<le> 46 * length cs + 14 * count_list ms Awake + 9"
proof -
  have "client_work p \<le> 46" for p by (cases p) (simp_all add: client_work_def)
  then have "tot client_work cs \<le> 46 * length cs" unfolding tot_def by (induction cs) (auto simp: add_mono)
  then have "wake_work (wake_init cs) \<le> 46 * length cs + 9" by (simp add: wake_work_def wake_init_def server_work_def)
  then show ?thesis using wake_run_work [OF assms(2)] by linarith
qed

lemma wake_run_wakes: "wake_run ms s = Some s' \<Longrightarrow> wakes init s \<Longrightarrow> wakes init s'"
proof (induction ms arbitrary: s)
  case (Cons m ms)
  then show ?case by (cases "wake_step m s") (auto intro: wakes.step)
qed simp

definition sample_schedule :: "mover list" where
  "sample_schedule = [Server, Server, Server, Client 0, Client 1, Client 0, Client 0, Client 1, Client 0, Client 0, Client 0, Client 0, Client 1,
     Server, Server, Server, Server, Server, Server, Server]"

definition sample_rest :: wake where
  "sample_rest = \<lparr>wk_items = 0, wk_starving = True, wk_running = True, wk_locked = False, wk_server = SvSleep, wk_clients = [KDone, KDone]\<rparr>"

lemma sample_schedule_runs: "wake_run sample_schedule (wake_init [KAssert, KAssert]) = Some sample_rest"
  by (simp add: sample_schedule_def sample_rest_def wake_init_def wake_step_def server_step_def client_step_def notify_def)


theorem signalling_terminates_witness: "length sample_schedule \<le> 101"
  using signalling_terminates [OF _ sample_schedule_runs] by (simp add: sample_schedule_def)

end
