(* ===== verification/Timing.thy ===== *)
theory Timing
  imports Prelude
begin

text \<open>
  Time in the 32-bit units of \<^verbatim>\<open>ion/time/CoreTime.h\<close> and the timers of \<^verbatim>\<open>ion/time/Clock.h\<close>.

  A point in time is a counter of milli- or microseconds that wraps around, and the difference of two
  of them a signed number; \<^verbatim>\<open>DeltaTime\<close> asserts that it is at most a quarter of the range.  What
  the platform's clock says is an argument: the operations that read it get the value as \<open>now\<close>.
\<close>

type_synonym time = "32 word"

section \<open>Differences of time\<close>

definition max_delta :: int where "max_delta = 2147483647"

definition min_delta :: int where "min_delta = - 2147483648"

definition delta_time :: "time \<Rightarrow> time \<Rightarrow> int res" where
  "delta_time a b = (let d = sint (a - b) in
     assertR (d \<le> max_delta div 2 \<and> d \<ge> - (- min_delta div 2)) (Inr d))"

definition time_since :: "time \<Rightarrow> time \<Rightarrow> time res" where
  "time_since a b = bindR (delta_time a b) (\<lambda>d. assertR (d \<ge> 0) (Inr (word_of_int d)))"

section \<open>Units\<close>

definition scale_time :: "'w::len word \<Rightarrow> 'w word \<Rightarrow> 'w word \<Rightarrow> 'w word" where
  "scale_time v freq scale = (let quotient = v div freq; remainder = v mod freq in
     quotient * scale + (remainder * scale) div freq)"

definition time_to_frequency :: "64 word \<Rightarrow> 64 word \<Rightarrow> 64 word" where
  "time_to_frequency t hz = (let m = t mod 1000 in hz * ((t - m) div 1000) + (hz * m) div 1000)"

definition frequency_to_time :: "64 word \<Rightarrow> 64 word \<Rightarrow> time" where
  "frequency_to_time ticks hz = (let fractions = ticks mod hz; seconds = (ticks - fractions) div hz in
     ucast (seconds * 1000 + (fractions * 1000) div hz))"

section \<open>Timers\<close>

text \<open>A timer is the point in time it counts from.\<close>

definition tm_elapsed :: "time \<Rightarrow> time \<Rightarrow> time res" where
  "tm_elapsed now t = time_since now t"

definition tm_reset_get_delta :: "time \<Rightarrow> time \<Rightarrow> (time \<times> time) res" where
  "tm_reset_get_delta now t = bindR (time_since now t) (\<lambda>d. Inr (d, now))"

definition tm_reset :: "time \<Rightarrow> time \<Rightarrow> time" where
  "tm_reset now t = now"

definition tm_update :: "int \<Rightarrow> time \<Rightarrow> time" where
  "tm_update d t = t + word_of_int d"

definition tm_advance :: "time \<Rightarrow> time \<Rightarrow> time" where
  "tm_advance d t = t + d"

definition tm_withdraw :: "time \<Rightarrow> time \<Rightarrow> time" where
  "tm_withdraw d t = t - d"

definition tm_micros :: "time \<Rightarrow> time \<Rightarrow> int res" where
  "tm_micros now t = delta_time now t"

text \<open>\<^verbatim>\<open>GetMillis\<close> divides towards zero, \<^verbatim>\<open>GetNanos\<close> multiplies in 64 bits and returns 32.\<close>

definition tm_millis :: "time \<Rightarrow> time \<Rightarrow> int res" where
  "tm_millis now t = bindR (delta_time now t) (\<lambda>d. Inr (if d < 0 then - (- d div 1000) else d div 1000))"

definition tm_nanos :: "time \<Rightarrow> time \<Rightarrow> int res" where
  "tm_nanos now t = bindR (delta_time now t) (\<lambda>d. Inr (sint (word_of_int (d * 1000) :: 32 word)))"

text \<open>
  \<^verbatim>\<open>PreciseWaitUntil\<close> reads the clock until the time has come; the readings are an argument, and
  no result means that the clock has not come that far.
\<close>

fun precise_wait_until :: "time \<Rightarrow> time list \<Rightarrow> (int \<times> time list) run" where
  "precise_wait_until t [] = None"
| "precise_wait_until t (now # nows) = bindO (Some (delta_time t now)) (\<lambda>d.
     if d > 0 then assertO (d < 2000000) (precise_wait_until t nows) else Some (Inr (d, nows)))"

definition tm_wait_until :: "time \<Rightarrow> time \<Rightarrow> time list \<Rightarrow> (int \<times> time list) run" where
  "tm_wait_until usec t nows = precise_wait_until (t + usec) nows"

section \<open>Differences do not depend on where the counter wraps\<close>

lemma sint_small: "- (2 ^ 31) \<le> x \<Longrightarrow> x < 2 ^ 31 \<Longrightarrow> sint (word_of_int x :: time) = x"
  by (simp add: signed_take_bit_int_eq_self sint_sbintrunc')

text \<open>
  The difference of two points in time of an unbounded clock is what \<^verbatim>\<open>DeltaTime\<close> computes
  from their 32-bit counters, wherever these wrap around, as long as it is within a quarter of the
  range, and outside that quarter, up to half the range, the assertion stops the program.
\<close>

theorem delta_time_wraps:
  assumes "- (2 ^ 31) \<le> a - b" and "a - b < 2 ^ 31"
  shows "delta_time (word_of_int a) (word_of_int b) =
    (if - (2 ^ 30) \<le> a - b \<and> a - b < 2 ^ 30 then Inr (a - b) else Inl AssertFail)"
proof -
  have "(word_of_int a - word_of_int b :: time) = word_of_int (a - b)" by simp
  then have "sint (word_of_int a - word_of_int b :: time) = a - b" using sint_small [OF assms] by simp
  then show ?thesis by (auto simp: delta_time_def max_delta_def min_delta_def assertR_def Let_def)
qed

theorem delta_time_wraps_witness:
  "delta_time (word_of_int (2 ^ 32 + 5)) (word_of_int (2 ^ 32 - 3)) = Inr 8"
  using delta_time_wraps [of "2 ^ 32 + 5" "2 ^ 32 - 3"] by simp

section \<open>Conversions are exact\<close>

lemma div_split: "(0::nat) < f \<Longrightarrow> v div f * s + v mod f * s div f = v * s div f"
proof -
  assume f: "0 < f"
  have "v * s = (v div f * s) * f + v mod f * s"
    by (metis div_mult_mod_eq distrib_right mult.assoc mult.commute)
  then have "v * s div f = ((v mod f * s) + (v div f * s) * f) div f" by (simp add: add.commute)
  also have "\<dots> = v div f * s + v mod f * s div f" using f by simp
  finally show ?thesis by simp
qed

text \<open>
  Scaling a number of ticks to other units gives the same as multiplying first in unbounded integers
  and dividing once, as long as the result and the product of scale and frequency fit the type,
  although the ticks times the scale may not.
\<close>

theorem scale_time_exact:
  fixes v freq scale :: "'w::len word"
  assumes "0 < freq" and "unat v * unat scale div unat freq < 2 ^ LENGTH('w)"
    and "unat freq * unat scale < 2 ^ LENGTH('w)"
  shows "unat (scale_time v freq scale) = unat v * unat scale div unat freq"
proof -
  have f: "0 < unat freq" using assms(1) by (simp add: unat_gt_0 word_gt_0)
  have e: "unat v div unat freq * unat scale + unat v mod unat freq * unat scale div unat freq = unat v * unat scale div unat freq"
    by (rule div_split [OF f])
  have "unat v mod unat freq * unat scale \<le> unat freq * unat scale"
    by (rule mult_le_mono1 [OF order_less_imp_le [OF mod_less_divisor [OF f]]])
  then have "unat (v mod freq) * unat scale < 2 ^ LENGTH('w)"
    unfolding unat_mod_distrib using assms(3) by (rule order_le_less_trans)
  then have r: "unat ((v mod freq) * scale) = unat v mod unat freq * unat scale"
    by (simp add: unat_mult_lem [THEN iffD1] unat_mod_distrib)
  have "unat (v div freq) * unat scale < 2 ^ LENGTH('w)"
    using assms(2) e by (simp add: unat_div_distrib)
  then have q: "unat ((v div freq) * scale) = unat v div unat freq * unat scale"
    by (simp add: unat_mult_lem [THEN iffD1] unat_div_distrib)
  show ?thesis
    using assms(2) e q r unat_div_distrib [of "(v mod freq) * scale" freq]
    by (simp add: scale_time_def Let_def unat_add_lem [THEN iffD1])
qed

theorem scale_time_exact_witness:
  "unat (scale_time (2 ^ 63 :: 64 word) 10000000 1000000) = 2 ^ 63 * 1000000 div 10000000"
  using scale_time_exact [of "10000000 :: 64 word" "2 ^ 63" 1000000] by simp

text \<open>
  Nanoseconds of a difference are a 32-bit number: from 2.2 seconds on, which \<^verbatim>\<open>DeltaTime\<close>
  allows, \<^verbatim>\<open>GetNanos\<close> returns something else, here a negative number for 3 seconds.
\<close>

theorem nanos_overflow: "tm_nanos 3000000 0 = Inr (- 1294967296)"
  by (simp add: tm_nanos_def delta_time_def max_delta_def min_delta_def Let_def)

end
