(* ===== verification/TimedJobs.thy ===== *)
theory TimedJobs
  imports Timing Traversals
begin

text \<open>
  Timed jobs, \<^verbatim>\<open>jobs/TimedJob.h\<close>, \<^verbatim>\<open>TimedJob.cpp\<close>, \<^verbatim>\<open>JobDispatcher.h\<close> and
  \<^verbatim>\<open>JobDispatcher.cpp\<close>: clients add and cancel jobs, the dispatcher's thread keeps those that are
  not due and hands the others to the workers, and workers run them and give them back.

  A step is an operation under a job's lock, one element taken from a queue or visited in the
  dispatcher's list, or a worker's start or end of a task; clients, dispatcher and workers take steps
  in any order.  A job is known by a number, and its memory lasts until it is destroyed: touching
  it later is \<open>BadAccess\<close>.  What \<^verbatim>\<open>RunTimedTask\<close> does is the client's; the clock's readings
  are arguments of the steps that read it.
\<close>

section \<open>Jobs\<close>

datatype tj_state = Active | Stopping | Inactive

record periodic =
  pj_period :: time
  pj_extra :: time
  pj_late :: nat
  pj_pre :: time
  pj_single :: bool

datatype tj_kind = Interval | OneShot | Periodic periodic

record tjob =
  tj_state :: tj_state
  tj_tasks :: nat
  tj_timer :: time
  tj_main :: bool
  tj_kind :: tj_kind

definition tj_new :: "time \<Rightarrow> bool \<Rightarrow> tj_kind \<Rightarrow> tjob" where
  "tj_new now m k = \<lparr>tj_state = Inactive, tj_tasks = 0, tj_timer = now, tj_main = m, tj_kind = k\<rparr>"

definition tj_restore :: "tjob \<Rightarrow> tjob res" where
  "tj_restore b = assertR (tj_state b = Inactive) (assertR (tj_tasks b = 0) (Inr (b\<lparr>tj_state := Active\<rparr>)))"

definition reset_timer :: "time \<Rightarrow> periodic \<Rightarrow> time \<Rightarrow> time" where
  "reset_timer now p t = tm_withdraw (pj_pre p) (tm_advance (pj_period p) (tm_reset now t))"

text \<open>\<open>now\<close> is read when a periodic job resets its timer, \<open>t1\<close> and \<open>t2\<close> by the last assertion.\<close>

definition tj_on_dispatched :: "time \<Rightarrow> time \<Rightarrow> time \<Rightarrow> tjob \<Rightarrow> tjob res" where
  "tj_on_dispatched now t1 t2 b = (let b = (case tj_kind b of Periodic p \<Rightarrow> b\<lparr>tj_timer := reset_timer now p (tj_timer b)\<rparr> | _ \<Rightarrow> b) in
     assertR (tj_state b = Active) (let b = b\<lparr>tj_tasks := tj_tasks b + 1\<rparr> in
     assertR (tj_tasks b < 256)
     (bindR (tm_micros t1 (tj_timer b)) (\<lambda>d1. bindR (tm_micros t2 (tj_timer b)) (\<lambda>d2.
     assertR (d1 \<ge> - 30000000 \<and> d2 \<le> 30000000) (Inr b))))))"

definition tj_on_removed :: "tjob \<Rightarrow> tjob res" where
  "tj_on_removed b = assertR (tj_tasks b > 0) (let b = b\<lparr>tj_tasks := tj_tasks b - 1\<rparr> in
     Inr (if tj_tasks b = 0 then b\<lparr>tj_state := Inactive\<rparr> else b))"

definition tj_cancel :: "tjob \<Rightarrow> bool \<times> tjob" where
  "tj_cancel b = (if tj_tasks b = 0 then (True, b\<lparr>tj_state := Inactive\<rparr>)
     else if tj_state b = Active then (False, b\<lparr>tj_state := Stopping\<rparr>) else (False, b))"

text \<open>
  The destructor gives its node back through the shared pointer to the dispatcher; \<open>shared\<close> says
  that it is not null.
\<close>

definition tj_destroy :: "bool \<Rightarrow> tjob \<Rightarrow> unit res" where
  "tj_destroy shared b =
    assertR (tj_state b = Inactive) (assertR (tj_tasks b = 0) (if shared then Inr () else Inl BadAccess))"

definition tj_time_left :: "time \<Rightarrow> tjob \<Rightarrow> int res" where
  "tj_time_left now b = bindR (tm_micros now (tj_timer b)) (\<lambda>d. Inr (- d))"

section \<open>Running a periodic job\<close>

definition pj_new :: "time \<Rightarrow> nat \<Rightarrow> nat \<Rightarrow> periodic" where
  "pj_new period extra late = \<lparr>pj_period = period, pj_extra = word_of_nat extra, pj_late = max late extra, pj_pre = 0, pj_single = True\<rparr>"

definition pj_set_pre_start :: "time \<Rightarrow> periodic \<Rightarrow> time \<Rightarrow> (periodic \<times> time) res" where
  "pj_set_pre_start t p timer = bindR (delta_time t (pj_pre p)) (\<lambda>d. Inr (p\<lparr>pj_pre := t\<rparr>, tm_update d timer))"

definition pj_set_interval :: "time \<Rightarrow> periodic \<Rightarrow> time \<Rightarrow> (periodic \<times> time) res" where
  "pj_set_interval period p timer = bindR (delta_time period (pj_period p)) (\<lambda>d. Inr (p\<lparr>pj_period := period\<rparr>, tm_update d timer))"

definition pj_time_left :: "time \<Rightarrow> periodic \<Rightarrow> time \<Rightarrow> int res" where
  "pj_time_left now p timer = bindR (tm_micros now timer) (\<lambda>d. Inr (sint (pj_pre p - word_of_int d)))"

text \<open>
  One round: the task runs, the timer goes on by a period, and if it is too late it starts anew at
  \<open>t2\<close>; \<open>t1\<close> is the reading for the time left.
\<close>

definition pj_round :: "periodic \<Rightarrow> time \<Rightarrow> time \<Rightarrow> time \<Rightarrow> (int \<times> time) res" where
  "pj_round p t1 t2 timer = (let timer = tm_advance (pj_period p) timer in
     bindR (pj_time_left t1 p timer) (\<lambda>left.
     Inr (left, if left \<le> sint (word_of_int (- sint (pj_period p)) * word_of_nat (pj_late p) :: 32 word)
       then tm_withdraw (pj_extra p * pj_period p) (reset_timer t2 p timer) else timer)))"

text \<open>The loop of \<^verbatim>\<open>DoWork\<close>, and how many times it ran the task.\<close>

fun pj_rounds :: "periodic \<Rightarrow> int \<Rightarrow> (time \<times> time) list \<Rightarrow> time \<Rightarrow> (nat \<times> time) run" where
  "pj_rounds p left [] timer = (if left \<le> 0 then None else Some (Inr (0, timer)))"
| "pj_rounds p left ((t1, t2) # ts) timer =
     (if left \<le> 0 then
        bindO (Some (pj_round p t1 t2 timer)) (\<lambda>(left, timer).
        if pj_single p then Some (Inr (1, timer))
        else bindO (pj_rounds p left ts timer) (\<lambda>(n, timer). Some (Inr (Suc n, timer))))
      else Some (Inr (0, timer)))"

definition pj_do_work :: "periodic \<Rightarrow> time \<Rightarrow> time list \<Rightarrow> (time \<times> time) list \<Rightarrow> time \<Rightarrow> (nat \<times> time) run" where
  "pj_do_work p now nows ts timer = bindO (Some (pj_time_left now p timer)) (\<lambda>left.
     assertO (left \<le> 0 \<or> pj_pre p > 0)
     (bindO (tm_wait_until (pj_pre p) timer nows) (\<lambda>(left, _). pj_rounds p left ts timer)))"

section \<open>The dispatcher\<close>

datatype dpc = DWait | DTake | DVisit nat time int | DEnd | DDrain | DFinal nat | DDone

record tdisp =
  td_jobs :: "nat \<rightharpoonup> tjob"
  td_active :: bool
  td_shared :: bool
  td_pc :: dpc
  td_in :: "nat list"
  td_timed :: "nat list"
  td_pool :: "nat list"
  td_main :: "nat list"
  td_running :: "nat list"
  td_adding :: "nat list"
  td_posting :: "nat list"
  td_next :: time

definition td_new :: "time \<Rightarrow> tdisp" where
  "td_new now = \<lparr>td_jobs = Map.empty, td_active = True, td_shared = True, td_pc = DWait, td_in = [], td_timed = [],
     td_pool = [], td_main = [], td_running = [], td_adding = [], td_posting = [], td_next = now\<rparr>"

definition on_job :: "nat \<Rightarrow> (tjob \<Rightarrow> tjob res) \<Rightarrow> tdisp \<Rightarrow> tdisp res" where
  "on_job j f st = (case td_jobs st j of None \<Rightarrow> Inl BadAccess
     | Some b \<Rightarrow> bindR (f b) (\<lambda>b'. Inr (st\<lparr>td_jobs := (td_jobs st)(j \<mapsto> b')\<rparr>)))"

definition td_look :: "nat \<Rightarrow> tdisp \<Rightarrow> tjob res" where
  "td_look j st = (case td_jobs st j of None \<Rightarrow> Inl BadAccess | Some b \<Rightarrow> Inr b)"

text \<open>What the dispatcher does with a job it takes from the queue of added jobs.\<close>

definition td_take :: "nat \<Rightarrow> tdisp \<Rightarrow> tdisp res" where
  "td_take j st = bindR (td_look j st) (\<lambda>b.
     if tj_state b = Active then Inr (st\<lparr>td_timed := td_timed st @ [j]\<rparr>) else on_job j tj_on_removed st)"

text \<open>What it does with a job of its list: the operation on the list, the shortest time so far.\<close>

definition td_visit :: "time \<Rightarrow> nat \<Rightarrow> int \<Rightarrow> tdisp \<Rightarrow> (for_each_op \<times> int \<times> tdisp) res" where
  "td_visit now j duration st = bindR (td_look j st) (\<lambda>b.
     if tj_state b = Active then
       bindR (tj_time_left now b) (\<lambda>left.
       if left \<le> 0 then
         (if tj_main b then Inr (EraseOp, duration, st\<lparr>td_main := td_main st @ [j]\<rparr>)
          else Inr (EraseOp, duration, st\<lparr>td_pool := td_pool st @ [j]\<rparr>))
       else Inr (NextOp, if left < duration then left else duration, st))
     else bindR (on_job j tj_on_removed st) (\<lambda>st. Inr (EraseOp, duration, st)))"

definition td_step :: "time \<Rightarrow> bool \<Rightarrow> tdisp \<Rightarrow> tdisp res" where
  "td_step now woken st = (case td_pc st of
     DWait \<Rightarrow> Inr (st\<lparr>td_pc := if woken \<or> td_active st then DTake else DEnd\<rparr>)
   | DTake \<Rightarrow> (case td_in st of
       [] \<Rightarrow> Inr (st\<lparr>td_pc := DVisit 0 now 60000000\<rparr>)
     | j # js \<Rightarrow> td_take j (st\<lparr>td_in := js\<rparr>))
   | DVisit i t duration \<Rightarrow>
       if i < length (td_timed st) then
         bindR (td_visit t (td_timed st ! i) duration st) (\<lambda>(op, duration, st).
         if op = EraseOp then bindR (unordered_erase i (td_timed st)) (\<lambda>js. Inr (st\<lparr>td_timed := js, td_pc := DVisit i t duration\<rparr>))
         else Inr (st\<lparr>td_pc := DVisit (Suc i) t duration\<rparr>))
       else Inr (st\<lparr>td_next := t + word_of_int (if duration \<ge> 2000 then duration - 500 else 1500), td_pc := DWait\<rparr>)
   | DEnd \<Rightarrow> assertR (td_shared st) (Inr (st\<lparr>td_shared := False, td_pc := DDrain\<rparr>))
   | DDrain \<Rightarrow> (case td_in st of
       [] \<Rightarrow> Inr (st\<lparr>td_pc := DFinal 0\<rparr>)
     | j # js \<Rightarrow> on_job j tj_on_removed (st\<lparr>td_in := js\<rparr>))
   | DFinal i \<Rightarrow>
       if i < length (td_timed st) then on_job (td_timed st ! i) tj_on_removed (st\<lparr>td_pc := DFinal (Suc i)\<rparr>)
       else Inr (st\<lparr>td_pc := DDone\<rparr>)
   | DDone \<Rightarrow> Inr st)"

section \<open>Workers and clients\<close>

text \<open>
  \<^verbatim>\<open>JobDispatcher::Reschedule\<close> asserts that the dispatcher has not been stopped; \<open>td_post\<close> then
  puts the job into its queue.  \<^verbatim>\<open>TimedJob::Reschedule\<close> goes through the shared pointer to the dispatcher.
\<close>

definition disp_reschedule :: "nat \<Rightarrow> tdisp \<Rightarrow> tdisp res" where
  "disp_reschedule j st = assertR (td_active st) (Inr (st\<lparr>td_posting := td_posting st @ [j]\<rparr>))"

definition td_post :: "nat \<Rightarrow> tdisp \<Rightarrow> tdisp" where
  "td_post j st = st\<lparr>td_in := td_in st @ [j]\<rparr>"

definition tj_reschedule :: "nat \<Rightarrow> tdisp \<Rightarrow> tdisp res" where
  "tj_reschedule j st = (if td_shared st then disp_reschedule j st else Inl BadAccess)"

definition drop_at :: "nat \<Rightarrow> 'a list \<Rightarrow> 'a list" where
  "drop_at i xs = take i xs @ drop (Suc i) xs"

definition worker_start :: "bool \<Rightarrow> nat \<Rightarrow> tdisp \<Rightarrow> tdisp res" where
  "worker_start m i st = (if m then
       if i < length (td_main st) then Inr (st\<lparr>td_main := drop_at i (td_main st), td_running := td_main st ! i # td_running st\<rparr>) else Inr st
     else if i < length (td_pool st) then Inr (st\<lparr>td_pool := drop_at i (td_pool st), td_running := td_pool st ! i # td_running st\<rparr>) else Inr st)"

text \<open>
  The end of a task: a periodic job has set its timer to \<open>timer\<close> by the loop above.
\<close>

definition worker_finish :: "nat \<Rightarrow> time \<Rightarrow> tdisp \<Rightarrow> tdisp res" where
  "worker_finish i timer st = (if i < length (td_running st) then
     (let j = td_running st ! i; st = st\<lparr>td_running := drop_at i (td_running st)\<rparr> in
      bindR (td_look j st) (\<lambda>b.
      case tj_kind b of
        Interval \<Rightarrow> tj_reschedule j st
      | OneShot \<Rightarrow> on_job j tj_on_removed st
      | Periodic p \<Rightarrow> bindR (on_job j (\<lambda>b. Inr (b\<lparr>tj_timer := timer\<rparr>)) st) (tj_reschedule j)))
     else Inr st)"

datatype tmove = Dispatch time bool | WorkerStart bool nat | WorkerFinish nat time
  | Create nat time bool tj_kind | Restore nat | AddBegin nat time time time | AddEnd nat | Post nat | Cancel nat | Hurry nat time
  | Destroy nat | StopDispatch

definition tmove_step :: "tmove \<Rightarrow> tdisp \<Rightarrow> tdisp res" where
  "tmove_step m st = (case m of
     Dispatch now woken \<Rightarrow> td_step now woken st
   | WorkerStart main i \<Rightarrow> worker_start main i st
   | WorkerFinish i timer \<Rightarrow> worker_finish i timer st
   | Create j now main k \<Rightarrow> (case td_jobs st j of
       None \<Rightarrow> if td_shared st then Inr (st\<lparr>td_jobs := (td_jobs st)(j \<mapsto> tj_new now main k)\<rparr>) else Inl BadAccess
     | Some _ \<Rightarrow> Inr st)
   | Restore j \<Rightarrow> on_job j tj_restore st
   | AddBegin j now t1 t2 \<Rightarrow> bindR (on_job j (tj_on_dispatched now t1 t2) st) (\<lambda>st. Inr (st\<lparr>td_adding := j # td_adding st\<rparr>))
   | AddEnd i \<Rightarrow> if i < length (td_adding st)
       then disp_reschedule (td_adding st ! i) (st\<lparr>td_adding := drop_at i (td_adding st)\<rparr>) else Inr st
   | Post i \<Rightarrow> if i < length (td_posting st)
       then Inr (td_post (td_posting st ! i) (st\<lparr>td_posting := drop_at i (td_posting st)\<rparr>)) else Inr st
   | Cancel j \<Rightarrow> on_job j (\<lambda>b. Inr (snd (tj_cancel b))) st
   | Hurry j now \<Rightarrow> bindR (on_job j (\<lambda>b. Inr (b\<lparr>tj_timer := tm_reset now (tj_timer b)\<rparr>)) st)
       (\<lambda>st. if td_shared st then Inr st else Inl BadAccess)
   | Destroy j \<Rightarrow> bindR (td_look j st) (\<lambda>b. bindR (tj_destroy (td_shared st) b) (\<lambda>_. Inr (st\<lparr>td_jobs := (td_jobs st)(j := None)\<rparr>)))
   | StopDispatch \<Rightarrow> Inr (st\<lparr>td_active := False\<rparr>))"

inductive timed :: "tdisp \<Rightarrow> bool" where
  start: "timed (td_new now)"
| step: "timed st \<Longrightarrow> tmove_step m st = Inr st' \<Longrightarrow> timed st'"

section \<open>A job counts the places it is in\<close>

definition timed_refs :: "tdisp \<Rightarrow> nat list" where
  "timed_refs st = (case td_pc st of DFinal i \<Rightarrow> drop i (td_timed st) | DDone \<Rightarrow> [] | _ \<Rightarrow> td_timed st)"

definition td_refs :: "tdisp \<Rightarrow> nat multiset" where
  "td_refs st = mset (td_in st) + mset (timed_refs st) + mset (td_pool st) + mset (td_main st) + mset (td_running st) +
     mset (td_adding st) + mset (td_posting st)"

definition counted_job :: "tjob option \<Rightarrow> nat \<Rightarrow> bool" where
  "counted_job x n = (case x of None \<Rightarrow> n = 0
     | Some b \<Rightarrow> tj_tasks b = n \<and> (tj_state b = Inactive \<longrightarrow> tj_tasks b = 0))"

definition refs_counted :: "(nat \<rightharpoonup> tjob) \<Rightarrow> nat multiset \<Rightarrow> bool" where
  "refs_counted J R \<longleftrightarrow> (\<forall>j. counted_job (J j) (count R j))"

lemma mset_drop_at: "i < length xs \<Longrightarrow> mset xs = add_mset (xs ! i) (mset (drop_at i xs))"
  by (metis Cons_nth_drop_Suc append_take_drop_id drop_at_def mset.simps(2) mset_append union_mset_add_mset_right)

lemma mset_drop_nth: "i < length xs \<Longrightarrow> mset (drop i xs) = add_mset (xs ! i) (mset (drop (Suc i) xs))"
  by (metis Cons_nth_drop_Suc mset.simps(2))

lemma counted_look: "refs_counted J R \<Longrightarrow> j \<in># R \<Longrightarrow> \<exists>b. J j = Some b \<and> 0 < tj_tasks b"
proof -
  assume "refs_counted J R" "j \<in># R"
  then have "counted_job (J j) (count R j)" "0 < count R j" by (simp_all add: refs_counted_def)
  then show ?thesis by (auto simp: counted_job_def simp del: count_greater_zero_iff split: option.splits)
qed

lemma counted_removed:
  assumes "refs_counted J (add_mset j R)"
  obtains b b' where "J j = Some b" "tj_on_removed b = Inr b'" "refs_counted (J(j \<mapsto> b')) R"
proof -
  have c: "counted_job (J i) (count (add_mset j R) i)" for i using assms by (simp add: refs_counted_def)
  define n where "n = count R j"
  obtain b where b: "J j = Some b" "tj_tasks b = Suc n"
    using c [of j] by (auto simp: counted_job_def n_def split: option.splits)
  define b' where "b' = (if n = 0 then b\<lparr>tj_tasks := 0, tj_state := Inactive\<rparr> else b\<lparr>tj_tasks := n\<rparr>)"
  have "tj_on_removed b = Inr b'" by (simp add: tj_on_removed_def b(2) b'_def Let_def)
  moreover have new: "counted_job (Some b') n"
    using c [of j] b by (auto simp: counted_job_def b'_def)
  moreover have "refs_counted (J(j \<mapsto> b')) R"
    unfolding refs_counted_def
  proof
    fix i
    show "counted_job ((J(j \<mapsto> b')) i) (count R i)" using c [of i] new by (cases "i = j") (simp_all add: n_def)
  qed
  ultimately show ?thesis using b(1) that by blast
qed

lemma counted_same:
  assumes "refs_counted J R" "J j = Some b" "tj_tasks b' = tj_tasks b" "tj_state b' = Inactive \<Longrightarrow> tj_tasks b = 0"
  shows "refs_counted (J(j \<mapsto> b')) R"
  using assms by (auto simp: refs_counted_def counted_job_def split: option.splits)

lemma counted_dispatched:
  assumes "refs_counted J R" "J j = Some b" "tj_on_dispatched now t1 t2 b = Inr b'"
  shows "refs_counted (J(j \<mapsto> b')) (add_mset j R)"
proof -
  have "tj_tasks b' = tj_tasks b + 1 \<and> tj_state b' = Active"
    using assms(3) by (auto simp: tj_on_dispatched_def Let_def assertR_eq_Inr bindR_eq_Inr split: tj_kind.splits)
  then show ?thesis using assms(1,2) by (auto simp: refs_counted_def counted_job_def split: option.splits)
qed

lemma counted_destroy:
  assumes "refs_counted J R" "J j = Some b" "tj_destroy sh b = Inr ()"
  shows "refs_counted (J(j := None)) R" and "j \<notin># R"
proof -
  have z: "tj_tasks b = 0" using assms(3) by (simp add: tj_destroy_def assertR_eq_Inr split: if_splits)
  have c: "counted_job (J i) (count R i)" for i using assms(1) by (simp add: refs_counted_def)
  show "j \<notin># R" using c [of j] assms(2) z by (simp add: counted_job_def not_in_iff)
  then show "refs_counted (J(j := None)) R" using c by (simp add: refs_counted_def counted_job_def not_in_iff)
qed

definition td_inv :: "tdisp \<Rightarrow> bool" where
  "td_inv st \<longleftrightarrow> refs_counted (td_jobs st) (td_refs st)"

lemma td_inv_new: "td_inv (td_new now)"
  by (simp add: td_inv_def td_new_def td_refs_def timed_refs_def refs_counted_def counted_job_def)

lemma td_inv_refs: "td_inv st \<Longrightarrow> td_jobs st' = td_jobs st \<Longrightarrow> td_refs st' = td_refs st \<Longrightarrow> td_inv st'"
  by (simp add: td_inv_def)

lemma td_inv_look:
  assumes "td_inv st" "j \<in># td_refs st" "td_jobs st' = td_jobs st"
  obtains b where "td_look j st' = Inr b" "td_jobs st j = Some b"
  using counted_look [of "td_jobs st" "td_refs st" j] assms that by (auto simp: td_inv_def td_look_def)

text \<open>Taking a place of a job away and removing it there.\<close>

lemma td_inv_removed:
  assumes "td_inv st" "td_jobs st1 = td_jobs st" "td_refs st = add_mset j (td_refs st1)"
  obtains st' where "on_job j tj_on_removed st1 = Inr st'" "td_inv st'" "\<exists>J. st' = st1\<lparr>td_jobs := J\<rparr>"
proof -
  obtain b b' where b: "td_jobs st j = Some b" "tj_on_removed b = Inr b'" "refs_counted ((td_jobs st)(j \<mapsto> b')) (td_refs st1)"
    using assms(1,3) counted_removed [of "td_jobs st" j "td_refs st1"] by (auto simp: td_inv_def)
  define st' where "st' = st1\<lparr>td_jobs := (td_jobs st)(j \<mapsto> b')\<rparr>"
  have "td_refs st' = td_refs st1" by (cases "td_pc st1") (simp_all add: st'_def td_refs_def timed_refs_def)
  then have "td_inv st'" using b(3) by (simp add: td_inv_def st'_def)
  moreover have "on_job j tj_on_removed st1 = Inr st'" using b(1,2) assms(2) by (simp add: on_job_def st'_def)
  ultimately show ?thesis using that st'_def by blast
qed

lemma timed_refs_simps [simp]:
  "td_pc st = DWait \<Longrightarrow> timed_refs st = td_timed st" "td_pc st = DTake \<Longrightarrow> timed_refs st = td_timed st"
  "td_pc st = DVisit i t d \<Longrightarrow> timed_refs st = td_timed st" "td_pc st = DEnd \<Longrightarrow> timed_refs st = td_timed st"
  "td_pc st = DDrain \<Longrightarrow> timed_refs st = td_timed st" "td_pc st = DFinal i \<Longrightarrow> timed_refs st = drop i (td_timed st)"
  "td_pc st = DDone \<Longrightarrow> timed_refs st = []"
  by (simp_all add: timed_refs_def)

section \<open>The dispatcher's steps\<close>

text \<open>
  A step of the dispatcher keeps the count, and fails only where it looks at a clock too far from a job's
  timer, or ends a second time.
\<close>

definition td_good :: "tdisp res \<Rightarrow> bool" where
  "td_good r = (case r of Inl e \<Rightarrow> e = AssertFail | Inr st \<Rightarrow> td_inv st)"

lemma td_take_good:
  assumes inv: "td_inv st" and pc: "td_pc st = DTake" and js: "td_in st = j # js"
  shows "td_good (td_take j (st\<lparr>td_in := js\<rparr>))"
proof -
  have refs: "td_refs st = add_mset j (td_refs (st\<lparr>td_in := js\<rparr>))" using pc js by (simp add: td_refs_def)
  obtain b where b: "td_look j (st\<lparr>td_in := js\<rparr>) = Inr b" using td_inv_look [OF inv, of j "st\<lparr>td_in := js\<rparr>"] refs by auto
  show ?thesis
  proof (cases "tj_state b = Active")
    case True
    have "td_refs (st\<lparr>td_in := js, td_timed := td_timed st @ [j]\<rparr>) = td_refs st"
      using pc js by (simp add: td_refs_def)
    then show ?thesis using True b td_inv_refs [OF inv] by (simp add: td_take_def td_good_def)
  next
    case False
    obtain st' where "on_job j tj_on_removed (st\<lparr>td_in := js\<rparr>) = Inr st'" "td_inv st'"
      using td_inv_removed [OF inv _ refs] by auto
    then show ?thesis using False b by (simp add: td_take_def td_good_def)
  qed
qed

lemma mset_erase_at:
  assumes "i < length xs"
  obtains ys where "unordered_erase i xs = Inr ys" "mset xs = add_mset (xs ! i) (mset ys)"
proof -
  have "mset xs = add_mset (xs ! i) (mset xs - {#xs ! i#})" using assms by simp
  then show ?thesis using that assms mset_replace_last [OF assms] by (simp add: unordered_erase_def)
qed

lemma td_visit_good:
  assumes inv: "td_inv st" and pc: "td_pc st = DVisit i t d" and i: "i < length (td_timed st)"
  shows "td_good (td_step now woken st)"
proof -
  define j where "j = td_timed st ! i"
  obtain ys where ys: "unordered_erase i (td_timed st) = Inr ys" "mset (td_timed st) = add_mset j (mset ys)"
    using mset_erase_at [OF i] by (auto simp: j_def)
  have j: "j \<in># td_refs st" using pc ys(2) by (simp add: td_refs_def)
  obtain b where b: "td_look j st = Inr b" using td_inv_look [OF inv j, of st] by auto
  show ?thesis
  proof (cases "tj_state b = Active")
    case True
    show ?thesis
    proof (cases "tj_time_left t b")
      case (Inl e)
      have "e = AssertFail" using Inl
        by (auto simp: tj_time_left_def tm_micros_def delta_time_def assertR_def Let_def split: if_splits)
      then show ?thesis using pc i b True Inl by (simp add: td_step_def td_visit_def td_good_def j_def)
    next
      case (Inr left)
      have main: "td_refs (st\<lparr>td_main := td_main st @ [j], td_timed := ys, td_pc := DVisit i t d\<rparr>) = td_refs st"
        and pool: "td_refs (st\<lparr>td_pool := td_pool st @ [j], td_timed := ys, td_pc := DVisit i t d\<rparr>) = td_refs st"
        and keep: "td_refs (st\<lparr>td_pc := DVisit (Suc i) t d'\<rparr>) = td_refs st" for d'
        using pc ys(2) by (simp_all add: td_refs_def)
      show ?thesis
        using pc i b True Inr ys(1) td_inv_refs [OF inv _ main] td_inv_refs [OF inv _ pool] td_inv_refs [OF inv _ keep]
        by (simp add: td_step_def td_visit_def td_good_def j_def [symmetric])
    qed
  next
    case False
    define st1 where "st1 = st\<lparr>td_timed := ys, td_pc := DVisit i t d\<rparr>"
    have refs: "td_refs st = add_mset j (td_refs st1)" using pc ys(2) by (simp add: td_refs_def st1_def)
    have "td_jobs st1 = td_jobs st" by (simp add: st1_def)
    from td_inv_removed [OF inv this refs]
    obtain st' J where st': "on_job j tj_on_removed st1 = Inr st'" "td_inv st'" "st' = st1\<lparr>td_jobs := J\<rparr>" by blast
    have "on_job j tj_on_removed st = Inr (st\<lparr>td_jobs := J\<rparr>)"
      using st'(1,3) by (auto simp: on_job_def st1_def bindR_eq_Inr split: option.splits dest: arg_cong [where f = td_jobs])
    moreover have "st1\<lparr>td_jobs := J\<rparr> = st\<lparr>td_jobs := J, td_timed := ys, td_pc := DVisit i t d\<rparr>" by (simp add: st1_def)
    ultimately show ?thesis using pc i b False ys(1) st'(2,3)
      by (simp add: td_step_def td_visit_def td_good_def j_def [symmetric])
  qed
qed

lemma td_step_good:
  assumes inv: "td_inv st"
  shows "td_good (td_step now woken st)"
proof (cases "td_pc st")
  case DWait
  then show ?thesis using td_inv_refs [OF inv] by (simp add: td_step_def td_good_def td_refs_def)
next
  case DTake
  then show ?thesis using td_take_good [OF inv DTake] td_inv_refs [OF inv]
    by (auto simp: td_step_def td_good_def td_refs_def split: list.splits)
next
  case (DVisit i t d)
  then show ?thesis using td_visit_good [OF inv DVisit] td_inv_refs [OF inv]
    by (cases "i < length (td_timed st)") (auto simp: td_step_def td_good_def td_refs_def)
next
  case DEnd
  then show ?thesis using td_inv_refs [OF inv] by (simp add: td_step_def td_good_def td_refs_def assertR_def)
next
  case DDrain
  show ?thesis
  proof (cases "td_in st")
    case Nil
    then show ?thesis using DDrain td_inv_refs [OF inv] by (simp add: td_step_def td_good_def td_refs_def)
  next
    case (Cons j js)
    have refs: "td_refs st = add_mset j (td_refs (st\<lparr>td_in := js\<rparr>))" using DDrain Cons by (simp add: td_refs_def)
    obtain st' where "on_job j tj_on_removed (st\<lparr>td_in := js\<rparr>) = Inr st'" "td_inv st'"
      using td_inv_removed [OF inv _ refs] by auto
    then show ?thesis using DDrain Cons by (simp add: td_step_def td_good_def)
  qed
next
  case (DFinal i)
  show ?thesis
  proof (cases "i < length (td_timed st)")
    case True
    have refs: "td_refs st = add_mset (td_timed st ! i) (td_refs (st\<lparr>td_pc := DFinal (Suc i)\<rparr>))"
      using DFinal mset_drop_nth [OF True] by (simp add: td_refs_def)
    obtain st' where "on_job (td_timed st ! i) tj_on_removed (st\<lparr>td_pc := DFinal (Suc i)\<rparr>) = Inr st'" "td_inv st'"
      using td_inv_removed [OF inv _ refs] by auto
    then show ?thesis using DFinal True by (simp add: td_step_def td_good_def)
  next
    case False
    then show ?thesis using DFinal td_inv_refs [OF inv] by (simp add: td_step_def td_good_def td_refs_def)
  qed
next
  case DDone
  then show ?thesis using inv by (simp add: td_step_def td_good_def)
qed

section \<open>Everybody's steps\<close>

lemma worker_start_ok: "td_inv st \<Longrightarrow> \<exists>st'. worker_start main i st = Inr st' \<and> td_inv st'"
proof -
  assume inv: "td_inv st"
  have "td_refs (st\<lparr>td_main := drop_at i (td_main st), td_running := td_main st ! i # td_running st\<rparr>) = td_refs st"
    if "i < length (td_main st)"
    by (simp add: td_refs_def timed_refs_def mset_drop_at [OF that] cong: dpc.case_cong)
  moreover have "td_refs (st\<lparr>td_pool := drop_at i (td_pool st), td_running := td_pool st ! i # td_running st\<rparr>) = td_refs st"
    if "i < length (td_pool st)"
    by (simp add: td_refs_def timed_refs_def mset_drop_at [OF that] cong: dpc.case_cong)
  ultimately show ?thesis using inv td_inv_refs [OF inv] by (simp add: worker_start_def)
qed

lemma disp_reschedule_ok:
  assumes "td_inv st" "td_jobs st1 = td_jobs st" "td_refs st = add_mset j (td_refs st1)" "disp_reschedule j st1 = Inr st'"
  shows "td_inv st'"
proof -
  have e: "st' = st1\<lparr>td_posting := td_posting st1 @ [j]\<rparr>" using assms(4) by (simp add: disp_reschedule_def assertR_eq_Inr)
  have "td_refs st' = td_refs st" unfolding assms(3) e by (simp add: td_refs_def timed_refs_def cong: dpc.case_cong)
  then show ?thesis using td_inv_refs [OF assms(1)] assms(2) e by simp
qed

lemma refs_drop:
  "i < length (td_running st) \<Longrightarrow> td_refs st = add_mset (td_running st ! i) (td_refs (st\<lparr>td_running := drop_at i (td_running st)\<rparr>))"
  "i < length (td_adding st) \<Longrightarrow> td_refs st = add_mset (td_adding st ! i) (td_refs (st\<lparr>td_adding := drop_at i (td_adding st)\<rparr>))"
  "i < length (td_posting st) \<Longrightarrow> td_refs st = add_mset (td_posting st ! i) (td_refs (st\<lparr>td_posting := drop_at i (td_posting st)\<rparr>))"
  by (simp_all add: td_refs_def timed_refs_def mset_drop_at cong: dpc.case_cong)

lemma refs_jobs [simp]: "td_refs (st\<lparr>td_jobs := J\<rparr>) = td_refs st"
  by (simp add: td_refs_def timed_refs_def cong: dpc.case_cong)

lemma worker_finish_good:
  assumes inv: "td_inv st"
  shows "case worker_finish i timer st of Inl e \<Rightarrow> e = AssertFail \<or> \<not> td_shared st | Inr st' \<Rightarrow> td_inv st'"
proof (cases "i < length (td_running st)")
  case True
  define j where "j = td_running st ! i"
  define st1 where "st1 = st\<lparr>td_running := drop_at i (td_running st)\<rparr>"
  have refs: "td_refs st = add_mset j (td_refs st1)" using refs_drop(1) [OF True] by (simp add: j_def st1_def)
  have jobs: "td_jobs st1 = td_jobs st" "td_shared st1 = td_shared st" by (simp_all add: st1_def)
  obtain b where b: "td_look j st1 = Inr b" "td_jobs st j = Some b" using td_inv_look [OF inv _ jobs(1), of j] refs by auto
  have step: "worker_finish i timer st = (case tj_kind b of Interval \<Rightarrow> tj_reschedule j st1
      | OneShot \<Rightarrow> on_job j tj_on_removed st1
      | Periodic p \<Rightarrow> bindR (on_job j (\<lambda>b. Inr (b\<lparr>tj_timer := timer\<rparr>)) st1) (tj_reschedule j))"
    using True b(1) unfolding j_def st1_def by (simp add: worker_finish_def Let_def)
  have resched: "case tj_reschedule j u of Inl e \<Rightarrow> e = AssertFail \<or> \<not> td_shared u | Inr st' \<Rightarrow> disp_reschedule j u = Inr st'" for u
    by (simp add: tj_reschedule_def disp_reschedule_def assertR_def)
  show ?thesis
  proof (cases "tj_kind b")
    case Interval
    then show ?thesis using resched [of st1] disp_reschedule_ok [OF inv jobs(1) refs] jobs(2)
      by (auto simp: step split: sum.splits)
  next
    case OneShot
    obtain st' where "on_job j tj_on_removed st1 = Inr st'" "td_inv st'" using td_inv_removed [OF inv jobs(1) refs] by blast
    then show ?thesis using OneShot by (simp add: step)
  next
    case (Periodic p)
    define J where "J = (td_jobs st)(j \<mapsto> b\<lparr>tj_timer := timer\<rparr>)"
    have "on_job j (\<lambda>b. Inr (b\<lparr>tj_timer := timer\<rparr>)) st1 = Inr (st1\<lparr>td_jobs := J\<rparr>)"
      using b(2) jobs(1) by (simp add: on_job_def J_def)
    moreover have "refs_counted J (td_refs st)"
      using counted_same [of "td_jobs st" "td_refs st" j b "b\<lparr>tj_timer := timer\<rparr>"] inv b(2) J_def
      by (auto simp: td_inv_def refs_counted_def counted_job_def dest: spec [of _ j])
    ultimately show ?thesis
      using resched [of "st1\<lparr>td_jobs := J\<rparr>"] disp_reschedule_ok [of "st\<lparr>td_jobs := J\<rparr>" "st1\<lparr>td_jobs := J\<rparr>" j] refs jobs(2) Periodic
      by (auto simp: step td_inv_def split: sum.splits)
  qed
qed (use inv in \<open>simp add: worker_finish_def\<close>)

lemma on_job_same:
  assumes inv: "td_inv st" and f: "\<And>b b'. f b = Inr b' \<Longrightarrow> tj_tasks b' = tj_tasks b \<and> (tj_state b' = Inactive \<longrightarrow> tj_state b = Inactive \<or> tj_tasks b = 0)"
    and step: "on_job j f st = Inr st'"
  shows "td_inv st'"
proof -
  obtain b b' where b: "td_jobs st j = Some b" "f b = Inr b'" "st' = st\<lparr>td_jobs := (td_jobs st)(j \<mapsto> b')\<rparr>"
    using step by (auto simp: on_job_def bindR_eq_Inr split: option.splits)
  have "tj_state b = Inactive \<Longrightarrow> tj_tasks b = 0"
    using inv b(1) by (auto simp: td_inv_def refs_counted_def counted_job_def dest: spec [of _ j])
  then show ?thesis using counted_same [of "td_jobs st" "td_refs st" j b b'] inv b f [OF b(2)] by (auto simp: td_inv_def)
qed

lemma tmove_step_ok:
  assumes inv: "td_inv st" and step: "tmove_step m st = Inr st'"
  shows "td_inv st'"
proof (cases m)
  case (Dispatch now woken)
  then show ?thesis using td_step_good [OF inv, of now woken] step by (simp add: tmove_step_def td_good_def)
next
  case (WorkerStart main i)
  then show ?thesis using worker_start_ok [OF inv, of main i] step by (auto simp: tmove_step_def)
next
  case (WorkerFinish i timer)
  then show ?thesis using worker_finish_good [OF inv, of i timer] step by (simp add: tmove_step_def)
next
  case (Create j now main k)
  show ?thesis
  proof (cases "td_jobs st j")
    case None
    have c: "counted_job (td_jobs st i) (count (td_refs st) i)" for i using inv by (simp add: td_inv_def refs_counted_def)
    have e: "st' = st\<lparr>td_jobs := (td_jobs st)(j \<mapsto> tj_new now main k)\<rparr>" using Create None step by (simp add: tmove_step_def split: if_splits)
    have "counted_job (((td_jobs st)(j \<mapsto> tj_new now main k)) i) (count (td_refs st) i)" for i
      using c [of i] None by (cases "i = j") (simp_all add: counted_job_def tj_new_def)
    then show ?thesis unfolding e td_inv_def refs_jobs by (simp add: refs_counted_def)
  next
    case (Some b)
    then show ?thesis using Create step inv by (simp add: tmove_step_def)
  qed
next
  case (Restore j)
  then show ?thesis using on_job_same [OF inv, of tj_restore j st'] step by (auto simp: tmove_step_def tj_restore_def assertR_eq_Inr)
next
  case (AddBegin j now t1 t2)
  then obtain b b' where b: "td_jobs st j = Some b" "tj_on_dispatched now t1 t2 b = Inr b'"
    "st' = st\<lparr>td_jobs := (td_jobs st)(j \<mapsto> b'), td_adding := j # td_adding st\<rparr>"
    using step by (auto simp: tmove_step_def on_job_def bindR_eq_Inr split: option.splits)
  have "td_refs st' = add_mset j (td_refs st)" by (simp add: b(3) td_refs_def timed_refs_def cong: dpc.case_cong)
  then show ?thesis using counted_dispatched [of "td_jobs st" "td_refs st" j b now t1 t2 b'] b(1,2) inv by (simp add: td_inv_def b(3))
next
  case (AddEnd i)
  then show ?thesis using step inv disp_reschedule_ok [OF inv _ refs_drop(2)] by (auto simp: tmove_step_def split: if_splits)
next
  case (Post i)
  show ?thesis
  proof (cases "i < length (td_posting st)")
    case True
    then have e: "st' = td_post (td_posting st ! i) (st\<lparr>td_posting := drop_at i (td_posting st)\<rparr>)" using Post step by (simp add: tmove_step_def)
    have "td_refs st' = td_refs st" unfolding refs_drop(3) [OF True] e by (simp add: td_post_def td_refs_def timed_refs_def cong: dpc.case_cong)
    then show ?thesis using td_inv_refs [OF inv] e by (simp add: td_post_def)
  qed (use Post step inv in \<open>simp add: tmove_step_def\<close>)
next
  case (Cancel j)
  then show ?thesis using on_job_same [OF inv, of "\<lambda>b. Inr (snd (tj_cancel b))" j st'] step by (auto simp: tmove_step_def tj_cancel_def split: if_splits)
next
  case (Hurry j now)
  then show ?thesis using on_job_same [OF inv, of "\<lambda>b. Inr (b\<lparr>tj_timer := tm_reset now (tj_timer b)\<rparr>)" j st'] step
    by (auto simp: tmove_step_def bindR_eq_Inr split: if_splits)
next
  case (Destroy j)
  then obtain b where b: "td_jobs st j = Some b" "tj_destroy (td_shared st) b = Inr ()" "st' = st\<lparr>td_jobs := (td_jobs st)(j := None)\<rparr>"
    using step by (auto simp: tmove_step_def td_look_def bindR_eq_Inr split: option.splits)
  then show ?thesis using counted_destroy(1) [of "td_jobs st" "td_refs st" j b "td_shared st"] b(1,2) inv by (simp add: td_inv_def)
next
  case StopDispatch
  then have "st' = st\<lparr>td_active := False\<rparr>" using step by (simp add: tmove_step_def)
  then show ?thesis using td_inv_refs [OF inv] by (simp add: td_refs_def timed_refs_def cong: dpc.case_cong)
qed

lemma timed_inv: "timed st \<Longrightarrow> td_inv st"
proof (induction rule: timed.induct)
  case (step st m st')
  then show ?case using tmove_step_ok by blast
qed (rule td_inv_new)


section \<open>When the dispatcher wakes up\<close>

text \<open>The pass over its list as the dispatcher's thread makes it when no other thread comes between.\<close>

primrec disp_pass :: "nat \<Rightarrow> tdisp \<Rightarrow> tdisp res" where
  "disp_pass 0 st = Inr st"
| "disp_pass (Suc n) st = (case td_pc st of DVisit i t d \<Rightarrow> bindR (td_step t False st) (disp_pass n) | _ \<Rightarrow> Inr st)"

definition waits_for :: "time \<Rightarrow> int \<Rightarrow> nat \<Rightarrow> tdisp \<Rightarrow> bool" where
  "waits_for t d j st \<longleftrightarrow> (\<exists>b left. td_jobs st j = Some b \<and> tj_time_left t b = Inr left \<and> 0 < left \<and> d \<le> left)"

text \<open>The time left of a job of the list.\<close>

definition td_left :: "time \<Rightarrow> nat \<Rightarrow> tdisp \<Rightarrow> int res" where
  "td_left t j st = bindR (td_look j st) (tj_time_left t)"

lemma waits_for_left: "waits_for t d j st \<longleftrightarrow> (\<exists>left. td_left t j st = Inr left \<and> 0 < left \<and> d \<le> left)"
  by (auto simp: waits_for_def td_left_def td_look_def bindR_eq_Inr split: option.splits)

lemma waits_for_less: "waits_for t d j st \<Longrightarrow> d' \<le> d \<Longrightarrow> waits_for t d' j st"
  by (auto simp: waits_for_def)

lemma waits_for_update [simp]:
  "waits_for t d j (st\<lparr>td_timed := js, td_pc := pc\<rparr>) = waits_for t d j st"
  "waits_for t d j (st\<lparr>td_pc := pc\<rparr>) = waits_for t d j st"
  "waits_for t d j (st\<lparr>td_timed := js\<rparr>) = waits_for t d j st"
  by (simp_all add: waits_for_def)

lemma td_left_update [simp]:
  "td_left t j (st\<lparr>td_timed := js, td_pc := pc\<rparr>) = td_left t j st"
  "td_left t j (st\<lparr>td_pc := pc\<rparr>) = td_left t j st"
  "td_left t j (st\<lparr>td_next := n, td_pc := pc\<rparr>) = td_left t j st"
  "td_left t j (st\<lparr>td_timed := js\<rparr>) = td_left t j st" "td_left t j (st\<lparr>td_next := n\<rparr>) = td_left t j st"
  "td_left t j (st\<lparr>td_main := ms\<rparr>) = td_left t j st" "td_left t j (st\<lparr>td_pool := ms\<rparr>) = td_left t j st"
  by (simp_all add: td_left_def td_look_def)

lemma td_left_removed:
  assumes "on_job k tj_on_removed st = Inr st'"
  shows "td_left t j st' = td_left t j st"
proof -
  obtain b b' where b: "td_jobs st k = Some b" "tj_on_removed b = Inr b'" "st' = st\<lparr>td_jobs := (td_jobs st)(k \<mapsto> b')\<rparr>"
    using assms by (auto simp: on_job_def bindR_eq_Inr split: option.splits)
  then have "tj_time_left t b' = tj_time_left t b"
    by (auto simp: tj_on_removed_def assertR_eq_Inr Let_def tj_time_left_def split: if_splits)
  then show ?thesis using b by (cases "j = k") (simp_all add: td_left_def td_look_def)
qed

lemma waits_for_removed:
  assumes "on_job k tj_on_removed st = Inr st'" "waits_for t d j st"
  shows "waits_for t d j st'"
proof -
  have "tj_timer b' = tj_timer b" if "tj_on_removed b = Inr b'" for b b'
    using that by (auto simp: tj_on_removed_def assertR_eq_Inr Let_def)
  then show ?thesis using assms
    by (auto simp: on_job_def waits_for_def tj_time_left_def bindR_eq_Inr split: option.splits)
qed

definition visited :: "tdisp \<Rightarrow> nat \<Rightarrow> time \<Rightarrow> int \<Rightarrow> bool" where
  "visited st i t d \<longleftrightarrow> i \<le> length (td_timed st) \<and> 0 < d \<and> d \<le> 60000000 \<and> (\<forall>k<i. waits_for t d (td_timed st ! k) st) \<and>
    (d = 60000000 \<or> (\<exists>k<i. td_left t (td_timed st ! k) st = Inr d))"

lemma unordered_erase_keeps:
  "unordered_erase i xs = Inr ys \<Longrightarrow> length ys = length xs - 1 \<and> i < length xs \<and> (\<forall>k<i. ys ! k = xs ! k)"
  by (auto simp: unordered_erase_def assertR_eq_Inr nth_butlast split: if_splits)

lemma visit_step:
  assumes pc: "td_pc st = DVisit i t d" and i: "i < length (td_timed st)" and v: "visited st i t d"
    and step: "td_step now False st = Inr st'"
  obtains i' d' where "td_pc st' = DVisit i' t d'" "visited st' i' t d'" "length (td_timed st') - i' < length (td_timed st) - i"
proof -
  define j where "j = td_timed st ! i"
  obtain oper d1 st1 where vis: "td_visit t j d st = Inr (oper, d1, st1)"
    and rest: "(if oper = EraseOp then bindR (unordered_erase i (td_timed st1)) (\<lambda>js. Inr (st1\<lparr>td_timed := js, td_pc := DVisit i t d1\<rparr>))
      else Inr (st1\<lparr>td_pc := DVisit (Suc i) t d1\<rparr>)) = Inr st'"
    using step pc i by (auto simp: td_step_def bindR_eq_Inr j_def)
  obtain b where b: "td_jobs st j = Some b" using vis by (auto simp: td_visit_def td_look_def split: option.splits)
  have same: "td_timed st1 = td_timed st \<and> (\<forall>k. waits_for t d k st \<longrightarrow> waits_for t d k st1) \<and>
    (\<forall>k. td_left t k st1 = td_left t k st) \<and>
    (if oper = EraseOp then d1 = d else d1 \<le> d \<and> 0 < d1 \<and> waits_for t d1 j st1 \<and> (d1 = d \<or> td_left t j st1 = Inr d1))"
  proof (cases "tj_state b = Active")
    case True
    then obtain left where left: "tj_time_left t b = Inr left" using vis b by (auto simp: td_visit_def td_look_def bindR_eq_Inr)
    show ?thesis using vis True b left v
      by (auto simp: td_visit_def td_look_def td_left_def waits_for_def visited_def split: if_splits)
  next
    case False
    then have o: "on_job j tj_on_removed st = Inr st1" "oper = EraseOp" "d1 = d" using vis b by (auto simp: td_visit_def td_look_def bindR_eq_Inr)
    then have "td_timed st1 = td_timed st" by (auto simp: on_job_def bindR_eq_Inr split: option.splits)
    then show ?thesis using waits_for_removed [OF o(1)] td_left_removed [OF o(1)] o(2,3) by simp
  qed
  show ?thesis
  proof (cases "oper = EraseOp")
    case True
    then obtain js where js: "unordered_erase i (td_timed st1) = Inr js" "st' = st1\<lparr>td_timed := js, td_pc := DVisit i t d1\<rparr>"
      using rest by (auto simp: bindR_eq_Inr)
    have k: "length js = length (td_timed st) - 1" "\<forall>k<i. js ! k = td_timed st ! k"
      using unordered_erase_keeps [OF js(1)] same by auto
    have "visited st' i t d1"
      using v same True k i by (auto simp: visited_def js(2))
    moreover have "length (td_timed st') - i < length (td_timed st) - i" using k(1) i by (simp add: js(2))
    ultimately show ?thesis using that js(2) by simp
  next
    case False
    then have e: "st' = st1\<lparr>td_pc := DVisit (Suc i) t d1\<rparr>" using rest by simp
    have "waits_for t d1 (td_timed st ! k) st1" if "k < Suc i" for k
      using v same False that waits_for_less [of t d "td_timed st ! k" st1 d1] by (cases "k = i") (auto simp: visited_def j_def)
    moreover have "d1 = 60000000 \<or> (\<exists>k<Suc i. td_left t (td_timed st ! k) st1 = Inr d1)"
      using v same False by (auto simp: visited_def j_def less_Suc_eq)
    ultimately have "visited st' (Suc i) t d1"
      using v same False i by (auto simp: visited_def e)
    moreover have "length (td_timed st') - Suc i < length (td_timed st) - i" using same i by (simp add: e)
    ultimately show ?thesis using that e by simp
  qed
qed

lemma pass_ends:
  "td_pc st = DVisit i t d \<Longrightarrow> visited st i t d \<Longrightarrow> length (td_timed st) - i < n \<Longrightarrow> disp_pass n st = Inr st' \<Longrightarrow>
   \<exists>d'. td_pc st' = DWait \<and> 0 < d' \<and> d' \<le> 60000000 \<and> (\<forall>j\<in>set (td_timed st'). waits_for t d' j st') \<and>
     (d' = 60000000 \<or> (\<exists>j\<in>set (td_timed st'). td_left t j st' = Inr d')) \<and> td_next st' = t + word_of_int (if d' \<ge> 2000 then d' - 500 else 1500)"
proof (induction n arbitrary: st i d)
  case (Suc n)
  show ?case
  proof (cases "i < length (td_timed st)")
    case True
    obtain st1 where st1: "td_step t False st = Inr st1" "disp_pass n st1 = Inr st'" using Suc.prems(1,4) by (auto simp: bindR_eq_Inr)
    from visit_step [OF Suc.prems(1) True Suc.prems(2) st1(1)]
    obtain i' d' where d': "td_pc st1 = DVisit i' t d'" "visited st1 i' t d'" "length (td_timed st1) - i' < length (td_timed st) - i" .
    show ?thesis using Suc.IH [OF d'(1,2) _ st1(2)] d'(3) Suc.prems(3) by simp
  next
    case False
    define u where "u = st\<lparr>td_next := t + word_of_int (if d \<ge> 2000 then d - 500 else 1500), td_pc := DWait\<rparr>"
    have "td_step t False st = Inr u" using Suc.prems(1) False by (simp add: td_step_def u_def)
    then have "disp_pass n u = Inr st'" using Suc.prems(1,4) by simp
    moreover have "disp_pass n u = Inr u" by (cases n) (simp_all add: u_def)
    ultimately have e: "st' = u" by simp
    have "waits_for t d j u" if "j \<in> set (td_timed st)" for j
      using that Suc.prems(2) False by (auto simp: visited_def u_def in_set_conv_nth waits_for_def)
    moreover have "d = 60000000 \<or> (\<exists>j\<in>set (td_timed st). td_left t j u = Inr d)"
      using Suc.prems(2) False by (auto simp: visited_def u_def)
    ultimately show ?thesis using Suc.prems(2) by (intro exI [of _ d]) (auto simp: e u_def visited_def)
  qed
qed simp

text \<open>
  C39: a pass of the dispatcher over its list that nobody interrupts and in which no clock assertion
  fails ends; every job it leaves in the list is not due yet, and the dispatcher sleeps until exactly half
  a millisecond before the first of them is due or a minute has passed, whichever comes first, or
  1.5 milliseconds from now when that is less than two away.
\<close>

theorem dispatcher_wakes_before_due:
  assumes "td_pc st = DVisit 0 t 60000000" and "disp_pass (Suc (length (td_timed st))) st = Inr st'"
  shows "td_pc st' = DWait \<and> (\<forall>j\<in>set (td_timed st'). \<exists>left. td_left t j st' = Inr left \<and> 0 < left) \<and>
    td_next st' = t + word_of_int
      (max 1500 (Min (insert 60000000 {left. \<exists>j\<in>set (td_timed st'). td_left t j st' = Inr left}) - 500))"
proof -
  have "visited st 0 t 60000000" by (simp add: visited_def)
  then obtain d where d: "td_pc st' = DWait" "0 < d" "d \<le> 60000000" "\<forall>j\<in>set (td_timed st'). waits_for t d j st'"
    "d = 60000000 \<or> (\<exists>j\<in>set (td_timed st'). td_left t j st' = Inr d)"
    "td_next st' = t + word_of_int (if d \<ge> 2000 then d - 500 else 1500)"
    using pass_ends [OF assms(1) _ _ assms(2)] by auto
  let ?L = "{left. \<exists>j\<in>set (td_timed st'). td_left t j st' = Inr left}"
  have "?L \<subseteq> (\<lambda>j. projr (td_left t j st')) ` set (td_timed st')" by force
  then have "finite ?L" by (rule finite_subset) simp
  moreover have "\<forall>left\<in>?L. d \<le> left" using d(4) by (fastforce simp: waits_for_left)
  ultimately have "Min (insert 60000000 ?L) = d" using d(3,5) by (intro Min_eqI) auto
  then show ?thesis using d by (auto simp: waits_for_left max_def)
qed

section \<open>Stopping the dispatcher\<close>

text \<open>
  Once the dispatcher has been stopped, a worker that is still running a job which wants to be run again
  fails: on the assertion of \<^verbatim>\<open>Reschedule\<close>, or, when the dispatcher's thread has ended, by calling it
  through a null pointer.  \<^verbatim>\<open>StopThreads\<close> stops the workers only afterwards.
\<close>

theorem running_job_fails_after_stop:
  assumes "timed st" and "\<not> td_active st" and "i < length (td_running st)"
    and "td_jobs st (td_running st ! i) = Some b" and "tj_kind b \<noteq> OneShot"
  shows "worker_finish i timer st = Inl (if td_shared st then AssertFail else BadAccess)"
  using assms(2-)
  by (cases "tj_kind b") (simp_all add: worker_finish_def td_look_def tj_reschedule_def disp_reschedule_def on_job_def Let_def)

text \<open>A job that is put into the queue after the dispatcher has drained it stays there and keeps its count.\<close>

theorem posted_after_end_stays:
  assumes "timed st" and "td_pc st = DDone" and "j \<in> set (td_in st)" and "tmove_step m st = Inr st'"
  shows "td_pc st' = DDone \<and> j \<in> set (td_in st') \<and> (\<exists>b. td_jobs st' j = Some b \<and> 0 < tj_tasks b)"
proof -
  have "td_pc st' = DDone \<and> j \<in> set (td_in st')"
    using assms(2-4)
    by (cases m) (auto simp: tmove_step_def td_step_def worker_start_def worker_finish_def td_look_def tj_reschedule_def
        disp_reschedule_def td_post_def on_job_def bindR_eq_Inr assertR_eq_Inr Let_def split: if_splits option.splits tj_kind.splits)
  moreover have "timed st'" using assms(1,4) by (rule timed.step)
  then have "td_inv st'" by (rule timed_inv)
  moreover have "j \<in># td_refs st'" using calculation(1) by (simp add: td_refs_def)
  ultimately show ?thesis using counted_look by (auto simp: td_inv_def)
qed

section \<open>Periodic jobs\<close>

text \<open>
  A new pre-start time moves the next run by twice the difference: the run is at the timer plus the
  pre-start time, and \<^verbatim>\<open>SetPreStart\<close> moves the timer forward by the difference too, where
  \<^verbatim>\<open>ResetTimer\<close> takes the pre-start time off it.
\<close>

theorem set_pre_start_moves_run_twice:
  assumes "pj_set_pre_start t p timer = Inr (p', timer')"
  shows "timer' + pj_pre p' = (timer + pj_pre p) + 2 * (t - pj_pre p)"
proof -
  have "timer' = timer + word_of_int (sint (t - pj_pre p))" "pj_pre p' = t"
    using assms by (auto simp: pj_set_pre_start_def bindR_eq_Inr delta_time_def assertR_eq_Inr Let_def tm_update_def)
  then show ?thesis by (simp add: algebra_simps)
qed

text \<open>
  A round of a periodic job keeps the rate: the timer goes on by exactly a period, whenever the task ran,
  unless the job is too late.  Then the timer starts anew, with the extra periods due at once, which
  is less late than the limit.
\<close>

theorem round_keeps_rate_or_restarts:
  assumes r: "pj_round p t1 t2 timer = Inr (left, timer')"
    and small: "unat (pj_extra p) * unat (pj_period p) + unat (pj_pre p) + unat (pj_period p) < 2 ^ 30"
  shows "timer' = timer + pj_period p \<or>
    pj_time_left t2 p timer' = Inr (int (unat (pj_period p)) - int (unat (pj_extra p)) * int (unat (pj_period p)))"
proof -
  define P e r where "P = int (unat (pj_period p))" and "e = int (unat (pj_extra p))" and "r = int (unat (pj_pre p))"
  have w: "pj_period p = word_of_int P" "pj_extra p = word_of_int e" "pj_pre p = word_of_int r"
    by (simp_all add: P_def e_def r_def)
  have "e * P + r + P = int (unat (pj_extra p) * unat (pj_period p) + unat (pj_pre p) + unat (pj_period p))"
    by (simp only: P_def e_def r_def of_nat_add of_nat_mult)
  also have "\<dots> < int (2 ^ 30)" using small by (simp only: of_nat_less_iff)
  finally have b: "e * P + r + P < 2 ^ 30" "0 \<le> P" "0 \<le> e * P" "0 \<le> r" by (simp_all add: P_def e_def r_def)
  consider "timer' = timer + pj_period p" | "timer' = t2 + pj_period p - pj_pre p - pj_extra p * pj_period p"
    using r by (auto simp: pj_round_def bindR_eq_Inr Let_def tm_advance_def tm_withdraw_def reset_timer_def tm_reset_def split: if_splits)
  then show ?thesis
  proof cases
    case 2
    have "t2 - timer' = (word_of_int (r + e * P - P) :: time)" by (simp add: 2 w)
    then have s: "sint (t2 - timer') = r + e * P - P" using sint_small [of "r + e * P - P"] b by simp
    have m: "tm_micros t2 timer' = Inr (r + e * P - P)"
      using s b by (simp add: tm_micros_def delta_time_def Let_def max_delta_def min_delta_def)
    have "(pj_pre p - word_of_int (r + e * P - P) :: time) = word_of_int (P - e * P)" by (simp add: w)
    then have "sint (pj_pre p - word_of_int (r + e * P - P) :: time) = P - e * P" using sint_small [of "P - e * P"] b by simp
    then show ?thesis using m by (simp add: pj_time_left_def P_def e_def)
  qed simp
qed

text \<open>A job that skips missed periods runs its task once when it is started, and not at all before its time.\<close>

lemma single_period_runs_once:
  assumes "pj_single p" and "pj_rounds p left ts timer = Some (Inr (n, timer'))"
  shows "n = (if left \<le> 0 then 1 else 0)"
  using assms by (cases ts) (auto simp: bindO_eq_Some split: if_splits)

section \<open>Examples\<close>

primrec tmove_steps :: "tmove list \<Rightarrow> tdisp \<Rightarrow> tdisp res" where
  "tmove_steps [] st = Inr st"
| "tmove_steps (m # ms) st = bindR (tmove_step m st) (tmove_steps ms)"

lemma tmove_steps_timed: "tmove_steps ms st = Inr st' \<Longrightarrow> timed st \<Longrightarrow> timed st'"
  by (induction ms arbitrary: st) (auto simp: bindR_eq_Inr intro: timed.step)

text \<open>A job is added at time 1000, found due at time 5000, started, and the dispatcher is stopped.\<close>

definition sample_moves :: "tmove list" where
  "sample_moves = [Create 7 1000 False Interval, Restore 7, AddBegin 7 1000 1000 1000, AddEnd 0, Post 0,
     Dispatch 5000 True, Dispatch 5000 True, Dispatch 5000 True, Dispatch 5000 True, WorkerStart False 0, StopDispatch]"

definition sample_stopped :: tdisp where
  "sample_stopped = \<lparr>td_jobs = [7 \<mapsto> \<lparr>tj_state = Active, tj_tasks = 1, tj_timer = 1000, tj_main = False, tj_kind = Interval\<rparr>],
     td_active = False, td_shared = True, td_pc = DVisit 0 5000 60000000, td_in = [], td_timed = [], td_pool = [], td_main = [],
     td_running = [7], td_adding = [], td_posting = [], td_next = 0\<rparr>"

lemma sample_moves_run: "tmove_steps sample_moves (td_new 0) = Inr sample_stopped"
  by (simp add: sample_moves_def sample_stopped_def td_new_def tmove_step_def on_job_def tj_new_def tj_restore_def
      tj_on_dispatched_def tm_micros_def delta_time_def max_delta_def min_delta_def Let_def disp_reschedule_def drop_at_def
      td_post_def td_step_def td_take_def td_look_def td_visit_def tj_time_left_def unordered_erase_def worker_start_def)

lemma sample_timed: "timed sample_stopped"
  using tmove_steps_timed [OF sample_moves_run timed.start] .


theorem running_job_fails_after_stop_witness: "worker_finish 0 0 sample_stopped = Inl AssertFail"
  using running_job_fails_after_stop [OF sample_timed, of 0] by (simp add: sample_stopped_def)

definition sample_pass :: tdisp where
  "sample_pass = \<lparr>td_jobs = [3 \<mapsto> \<lparr>tj_state = Active, tj_tasks = 1, tj_timer = 9000, tj_main = False, tj_kind = Interval\<rparr>],
     td_active = True, td_shared = True, td_pc = DVisit 0 5000 60000000, td_in = [], td_timed = [3], td_pool = [], td_main = [],
     td_running = [], td_adding = [], td_posting = [], td_next = 0\<rparr>"

theorem dispatcher_wakes_before_due_witness:
  "\<exists>st'. disp_pass 2 sample_pass = Inr st' \<and> td_next st' = 5000 + word_of_int 3500"
proof -
  have run: "disp_pass (Suc (length (td_timed sample_pass))) sample_pass = Inr (sample_pass\<lparr>td_pc := DWait, td_next := 8500\<rparr>)"
    by (simp add: sample_pass_def numeral_2_eq_2 td_step_def td_visit_def td_look_def tj_time_left_def tm_micros_def
        delta_time_def max_delta_def min_delta_def Let_def)
  have "td_left 5000 3 (sample_pass\<lparr>td_pc := DWait, td_next := 8500\<rparr>) = Inr 4000"
    by (simp add: sample_pass_def td_left_def td_look_def tj_time_left_def tm_micros_def delta_time_def
        max_delta_def min_delta_def Let_def)
  moreover have "td_pc sample_pass = DVisit 0 5000 60000000" by (simp add: sample_pass_def)
  ultimately show ?thesis
    using dispatcher_wakes_before_due [OF _ run, of 5000] run by (auto simp: sample_pass_def numeral_2_eq_2)
qed

definition sample_ended :: tdisp where
  "sample_ended = sample_stopped\<lparr>td_pc := DDone, td_shared := False, td_in := [7], td_running := []\<rparr>"

lemma sample_ended_runs:
  "tmove_steps [Create 7 1000 False Interval, Restore 7, AddBegin 7 1000 1000 1000, AddEnd 0, StopDispatch,
     Dispatch 5000 False, Dispatch 5000 False, Dispatch 5000 False, Dispatch 5000 False, Post 0] (td_new 0) =
   Inr (sample_ended\<lparr>td_next := 0\<rparr>)"
  by (simp add: sample_ended_def sample_stopped_def td_new_def tmove_step_def on_job_def tj_new_def tj_restore_def
      tj_on_dispatched_def tm_micros_def delta_time_def max_delta_def min_delta_def Let_def disp_reschedule_def drop_at_def
      td_post_def td_step_def)

theorem posted_after_end_stays_witness:
  "7 \<in> set (td_in sample_ended) \<and> td_pc sample_ended = DDone"
proof -
  have t: "timed sample_ended"
    using tmove_steps_timed [OF sample_ended_runs timed.start] by (simp add: sample_ended_def sample_stopped_def)
  have s: "tmove_step (Dispatch 0 True) sample_ended = Inr sample_ended"
    by (simp add: tmove_step_def td_step_def sample_ended_def)
  show ?thesis using posted_after_end_stays [OF t _ _ s, of 7] by (simp add: sample_ended_def)
qed

theorem set_pre_start_moves_run_twice_witness:
  "\<exists>p' timer'. pj_set_pre_start 300 (pj_new 16000 0 0) 1000 = Inr (p', timer') \<and> timer' + pj_pre p' = 1600"
proof -
  obtain p' timer' where r: "pj_set_pre_start 300 (pj_new 16000 0 0) 1000 = Inr (p', timer')"
    by (simp add: pj_set_pre_start_def pj_new_def delta_time_def max_delta_def min_delta_def Let_def)
  then show ?thesis using set_pre_start_moves_run_twice [OF r] by (simp add: pj_new_def)
qed

theorem round_keeps_rate_or_restarts_witness:
  "\<exists>left timer'. pj_round (pj_new 16000 1 2) 50000 50000 1000 = Inr (left, timer') \<and>
     (timer' = 17000 \<or> pj_time_left 50000 (pj_new 16000 1 2) timer' = Inr 0)"
proof -
  obtain left timer' where r: "pj_round (pj_new 16000 1 2) 50000 50000 1000 = Inr (left, timer')"
    by (simp add: pj_round_def pj_new_def pj_time_left_def tm_micros_def tm_advance_def delta_time_def max_delta_def min_delta_def Let_def)
  then show ?thesis using round_keeps_rate_or_restarts [OF r] by (simp add: pj_new_def)
qed

end
