(* ===== verification/Delegates.thy ===== *)
theory Delegates
  imports Wakeups
begin

text \<open>
  A thread that processes what others hand to it: \<^verbatim>\<open>concurrency/Delegate.h\<close>, with
  \<open>CountedBuffer\<close> and \<open>MultiWriterBuffer\<close> (their branches that are switched off are left out).

  The synchronizer and the threads that use it are the state of theory Wakeups: its server is the thread of
  \<^verbatim>\<open>Execute\<close>, its clients are calls of \<^verbatim>\<open>Enqueue\<close> (from \<open>KPut\<close>, the call of client \<open>i\<close>
  handing over item \<open>i\<close>) and of \<^verbatim>\<open>Shutdown\<close> (from \<open>StopLock\<close>), and its items are those in the
  buffer.  The server is at \<open>SvTake\<close> while it reads, and at \<open>SvLock\<close> from the moment when it found the buffer
  empty with nothing read in this round, until it takes the lock or reads again.  Shutting down while a call of \<^verbatim>\<open>Enqueue\<close> is
  going on is not allowed by the destructor's assertions, so a call of \<^verbatim>\<open>Shutdown\<close> starts after them.
\<close>

section \<open>The buffer and the thread\<close>

datatype reader = RDeq | RRun | RMark | RTake nat | RWait

record delegate =
  dg_sync :: wake
  dg_queue :: "nat list"
  dg_writes :: nat
  dg_marked :: "bool list"
  dg_pc :: reader
  dg_batch :: "nat list"
  dg_reads :: nat
  dg_done :: "nat list"
  dg_log :: "nat list"

text \<open>\<open>dg_done\<close> lists the items the function was called on, \<open>dg_log\<close> the items enqueued.\<close>

definition dg_init :: "client list \<Rightarrow> delegate" where
  "dg_init cs = \<lparr>dg_sync = (wake_init cs)\<lparr>wk_server := SvTake\<rparr>, dg_queue = [], dg_writes = 0,
     dg_marked = replicate (length cs) False, dg_pc = RDeq, dg_batch = [], dg_reads = 0, dg_done = [], dg_log = []\<rparr>"

definition at_server :: "server \<Rightarrow> delegate \<Rightarrow> delegate" where
  "at_server w s = s\<lparr>dg_sync := (dg_sync s)\<lparr>wk_server := w\<rparr>\<rparr>"

definition dg_take :: "delegate \<Rightarrow> delegate" where
  "dg_take s = s\<lparr>dg_queue := tl (dg_queue s), dg_batch := dg_batch s @ [hd (dg_queue s)],
     dg_sync := (dg_sync s)\<lparr>wk_items := wk_items (dg_sync s) - 1\<rparr>\<rparr>"

text \<open>
  The loop of \<^verbatim>\<open>Execute\<close> for a buffer of \<open>width\<close> items: \<^verbatim>\<open>Dequeue\<close>, the calls of the
  function, \<^verbatim>\<open>MarkReads\<close> (a load and a subtraction), \<^verbatim>\<open>TryWait\<close>.
\<close>

definition dg_read :: "nat \<Rightarrow> delegate \<Rightarrow> delegate option" where
  "dg_read width s = (case dg_pc s of
     RDeq \<Rightarrow> if length (dg_batch s) < width \<and> dg_queue s \<noteq> [] then Some (dg_take s)
       else if length (dg_batch s) < width \<and> dg_batch s = [] then Some (at_server SvLock (s\<lparr>dg_pc := RRun\<rparr>))
       else Some (s\<lparr>dg_pc := RRun\<rparr>)
   | RRun \<Rightarrow> (let n = length (dg_batch s); s = s\<lparr>dg_done := dg_done s @ dg_batch s, dg_reads := dg_reads s + n, dg_batch := []\<rparr> in
       if n \<noteq> 0 then Some (s\<lparr>dg_pc := RDeq\<rparr>) else Some (s\<lparr>dg_pc := RMark\<rparr>))
   | RMark \<Rightarrow> Some (s\<lparr>dg_pc := RTake (dg_writes s)\<rparr>)
   | RTake w \<Rightarrow> (let n = min (dg_reads s) w; s = s\<lparr>dg_writes := dg_writes s - n, dg_reads := dg_reads s - n\<rparr> in
       if dg_reads s = 0 then Some (s\<lparr>dg_pc := RWait\<rparr>) else Some (at_server SvTake (s\<lparr>dg_pc := RDeq\<rparr>)))
   | RWait \<Rightarrow> map_option (\<lambda>t. s\<lparr>dg_sync := t, dg_pc := if wk_server t = SvTake then RDeq else RWait\<rparr>) (server_step (dg_sync s)))"

text \<open>\<^verbatim>\<open>Enqueue\<close> into the buffer, \<^verbatim>\<open>MarkWrite\<close>, then \<^verbatim>\<open>Signal\<close>.\<close>

definition dg_client :: "nat \<Rightarrow> delegate \<Rightarrow> delegate option" where
  "dg_client i s = (let w = dg_sync s in
     if i < length (wk_clients w) then
       (if wk_clients w ! i = KLoad \<and> \<not> dg_marked s ! i then Some (s\<lparr>dg_writes := dg_writes s + 1, dg_marked := (dg_marked s)[i := True]\<rparr>)
        else if wk_clients w ! i = StopLock \<and> \<not> set (wk_clients w) \<subseteq> {StopLock, StopStore, StopNotify, StopUnlock, KDone} then None
        else if wk_clients w ! i = KPut then
          map_option (\<lambda>w. s\<lparr>dg_sync := w, dg_queue := dg_queue s @ [i], dg_log := dg_log s @ [i]\<rparr>) (wake_step (Client i) w)
        else map_option (\<lambda>w. s\<lparr>dg_sync := w\<rparr>) (wake_step (Client i) w))
     else None)"

definition dg_step :: "nat \<Rightarrow> mover \<Rightarrow> delegate \<Rightarrow> delegate option" where
  "dg_step width m s = (case m of
     Server \<Rightarrow> dg_read width s
   | Client i \<Rightarrow> dg_client i s
   | Awake \<Rightarrow> if dg_pc s = RWait then map_option (\<lambda>w. s\<lparr>dg_sync := w\<rparr>) (wake_step Awake (dg_sync s)) else None)"

inductive delegates :: "nat \<Rightarrow> delegate \<Rightarrow> delegate \<Rightarrow> bool" for width init where
  start: "delegates width init init"
| step: "delegates width init s \<Longrightarrow> dg_step width m s = Some s' \<Longrightarrow> delegates width init s'"

section \<open>The synchronizer's invariant\<close>

text \<open>Besides the steps of the synchronizer, reading takes items away, and goes back to reading.\<close>

lemma wake_ok_fewer: "wake_ok s \<Longrightarrow> wake_ok (s\<lparr>wk_items := wk_items s - 1\<rparr>)"
  by (cases "wk_server s"; simp add: wake_ok_def will_take_def; blast)

lemma wake_ok_again: "wake_ok s \<Longrightarrow> wk_server s = SvLock \<Longrightarrow> wake_ok (s\<lparr>wk_server := SvTake\<rparr>)"
  by (simp add: wake_ok_def wk_defs)

lemma wake_ok_empty: "wake_ok s \<Longrightarrow> wk_server s = SvTake \<Longrightarrow> wk_items s = 0 \<Longrightarrow> wake_ok (s\<lparr>wk_server := SvLock\<rparr>)"
  by (simp add: wake_ok_def wk_defs)

definition dg_ok :: "delegate \<Rightarrow> bool" where
  "dg_ok s \<longleftrightarrow> wake_ok (dg_sync s) \<and> wk_items (dg_sync s) = length (dg_queue s) \<and>
    dg_log s = dg_done s @ dg_batch s @ dg_queue s \<and>
    (dg_pc s = RDeq \<longrightarrow> wk_server (dg_sync s) = SvTake) \<and>
    (dg_pc s = RRun \<longrightarrow> wk_server (dg_sync s) = (if dg_batch s = [] then SvLock else SvTake)) \<and>
    (\<forall>w. dg_pc s = RMark \<or> dg_pc s = RTake w \<longrightarrow> wk_server (dg_sync s) = SvLock) \<and>
    (dg_pc s = RWait \<longrightarrow> wk_server (dg_sync s) \<noteq> SvTake) \<and>
    (dg_pc s \<noteq> RDeq \<and> dg_pc s \<noteq> RRun \<longrightarrow> dg_batch s = [])"

lemma server_items: "server_step s = Some s' \<Longrightarrow> wk_server s \<noteq> SvTake \<Longrightarrow> wk_items s' = wk_items s"
  by (cases "wk_server s") (auto simp: server_step_def split: if_splits)

lemma dg_read_ok:
  assumes ok: "dg_ok s" and width: "0 < width" and step: "dg_read width s = Some s'"
  shows "dg_ok s'"
proof (cases "dg_pc s")
  case RDeq
  consider (take) "dg_queue s \<noteq> []" "s' = dg_take s"
    | (empty) "dg_queue s = []" "dg_batch s = []" "s' = at_server SvLock (s\<lparr>dg_pc := RRun\<rparr>)"
    | (full) "dg_batch s \<noteq> []" "s' = s\<lparr>dg_pc := RRun\<rparr>"
    using step RDeq width by (cases "dg_batch s = []") (auto simp: dg_read_def split: if_splits)
  then show ?thesis
  proof cases
    case take
    then show ?thesis using ok RDeq wake_ok_fewer [of "dg_sync s"] by (cases "dg_queue s") (simp_all add: dg_ok_def dg_take_def)
  next
    case empty
    then show ?thesis using ok RDeq wake_ok_empty [of "dg_sync s"] by (simp add: dg_ok_def at_server_def)
  next
    case full
    then show ?thesis using ok RDeq by (simp add: dg_ok_def)
  qed
next
  case RRun
  then show ?thesis using ok step by (auto simp: dg_read_def dg_ok_def Let_def split: if_splits)
next
  case RMark
  then show ?thesis using ok step by (auto simp: dg_read_def dg_ok_def)
next
  case (RTake w)
  then show ?thesis using ok step wake_ok_again [of "dg_sync s"]
    by (auto simp: dg_read_def dg_ok_def Let_def at_server_def split: if_splits)
next
  case RWait
  then obtain t where t: "server_step (dg_sync s) = Some t" "s' = s\<lparr>dg_sync := t, dg_pc := if wk_server t = SvTake then RDeq else RWait\<rparr>"
    using step by (auto simp: dg_read_def)
  then show ?thesis using ok RWait server_step_ok [of "dg_sync s" t] server_items [OF t(1)] by (simp add: dg_ok_def)
qed

lemma client_items:
  assumes "wake_step (Client i) w = Some w'"
  shows "wk_items w' = wk_items w + of_bool (wk_clients w ! i = KPut)" and
    "wk_server w' = (if wk_server w = SvSleep then wk_server w' else wk_server w)" and "wk_server w' \<noteq> SvTake \<or> wk_server w = SvTake"
  using assms by (auto simp: wake_step_def client_step_def notify_def split: if_splits client.splits)

lemma dg_client_ok:
  assumes ok: "dg_ok s" and step: "dg_client i s = Some s'"
  shows "dg_ok s'"
proof -
  have w: "wake_ok (dg_sync s)" using ok by (simp add: dg_ok_def)
  consider (mark) "s' = s\<lparr>dg_writes := dg_writes s + 1, dg_marked := (dg_marked s)[i := True]\<rparr>"
    | (put) w' where "wake_step (Client i) (dg_sync s) = Some w'" "wk_clients (dg_sync s) ! i = KPut"
        "s' = s\<lparr>dg_sync := w', dg_queue := dg_queue s @ [i], dg_log := dg_log s @ [i]\<rparr>"
    | (other) w' where "wake_step (Client i) (dg_sync s) = Some w'" "wk_clients (dg_sync s) ! i \<noteq> KPut" "s' = s\<lparr>dg_sync := w'\<rparr>"
    using step by (auto simp: dg_client_def Let_def split: if_splits)
  then show ?thesis
  proof cases
    case mark
    then show ?thesis using ok by (simp add: dg_ok_def)
  next
    case put
    note c = client_items [OF put(1)] wake_step_ok [OF w put(1)]
    show ?thesis unfolding put(3) using ok c put(2) by (cases "dg_pc s") (auto simp: dg_ok_def split: if_splits)
  next
    case other
    note c = client_items [OF other(1)] wake_step_ok [OF w other(1)]
    show ?thesis unfolding other(3) using ok c other(2) by (cases "dg_pc s") (auto simp: dg_ok_def split: if_splits)
  qed
qed

section \<open>Shutting down\<close>

definition quiet :: "wake \<Rightarrow> bool" where
  "quiet w \<longleftrightarrow> set (wk_clients w) \<subseteq> {StopLock, StopStore, StopNotify, StopUnlock, KDone}"

definition dg_quiet :: "wake \<Rightarrow> bool" where
  "dg_quiet w \<longleftrightarrow> (\<not> wk_running w \<or> (\<exists>p\<in>{StopStore, StopNotify, StopUnlock}. p \<in> set (wk_clients w)) \<longrightarrow> quiet w) \<and>
    (wk_server w \<in> {SvUnlock False, SvDone} \<longrightarrow> wk_items w = 0)"

lemma dg_quiet_server:
  assumes "wake_ok w" "dg_quiet w" "server_step w = Some w'" "wk_server w \<noteq> SvTake"
  shows "dg_quiet w'"
proof -
  have same: "wk_clients w' = wk_clients w" "wk_running w' = wk_running w" "wk_items w' = wk_items w"
    using assms(3) server_items [OF assms(3,4)] by (auto simp: server_step_def split: server.splits if_splits)
  have "wk_items w = 0" if "wk_server w' \<in> {SvUnlock False, SvDone}"
  proof (cases "wk_server w")
    case SvRunning
    then have "\<not> wk_running w" using assms(3) that by (auto simp: server_step_def split: if_splits)
    then have "\<forall>p\<in>set (wk_clients w). \<not> signalling p" using assms(2) by (auto simp: dg_quiet_def quiet_def signalling_def)
    then show ?thesis using assms(1) SvRunning by (auto simp: wake_ok_def will_take_def)
  next
    case (SvUnlock r)
    then show ?thesis using assms(2,3) that by (cases r) (auto simp: server_step_def dg_quiet_def)
  qed (use assms(3,4) that in \<open>auto simp: server_step_def split: if_splits\<close>)
  then show ?thesis using assms(2) same by (auto simp: dg_quiet_def quiet_def)
qed

lemma client_stays_quiet:
  assumes "client_step p w = Some (q, t)" "p \<in> {StopLock, StopStore, StopNotify, StopUnlock, KDone}"
  shows "q \<in> {StopLock, StopStore, StopNotify, StopUnlock, KDone}"
  using assms by (auto simp: client_step_def split: if_splits)

lemma client_stays_loud:
  assumes "client_step p w = Some (q, t)" "p \<notin> {StopLock, StopStore, StopNotify, StopUnlock, KDone}"
  shows "q \<notin> {StopStore, StopNotify, StopUnlock}" "wk_running t = wk_running w"
  using assms by (cases p; auto simp: client_step_def notify_def split: if_splits)+

lemma dg_quiet_client:
  assumes ok: "wake_ok w" and q: "dg_quiet w" and step: "wake_step (Client i) w = Some w'" and i: "i < length (wk_clients w)"
    and guard: "wk_clients w ! i = StopLock \<Longrightarrow> quiet w"
  shows "dg_quiet w'"
proof -
  obtain r t where r: "client_step (wk_clients w ! i) w = Some (r, t)" "w' = t\<lparr>wk_clients := (wk_clients w)[i := r]\<rparr>"
    using step i by (auto simp: wake_step_def)
  obtain xs ys where cs: "wk_clients w = xs @ wk_clients w ! i # ys" "\<forall>r. (wk_clients w)[i := r] = xs @ r # ys"
    using split_at [OF i] by blast
  define p where "p = wk_clients w ! i"
  have "wk_clients w = xs @ p # ys" "wk_clients w' = xs @ r # ys" using cs r(2) by (simp_all only: p_def) simp
  then have cl: "set (wk_clients w) = insert p (set xs \<union> set ys)" "set (wk_clients w') = insert r (set xs \<union> set ys)" by simp_all
  have step': "client_step p w = Some (r, t)" using r(1) by (simp only: p_def)
  have items: "wk_items w' = wk_items w + of_bool (p = KPut)" using client_items(1) [OF step] by (simp only: p_def)
  have srv: "wk_server w' \<in> {SvUnlock False, SvDone} \<Longrightarrow> wk_server w \<in> {SvUnlock False, SvDone}"
    using step' r(2) by (cases p) (auto simp: client_step_def notify_def split: if_splits)
  show ?thesis
  proof (cases "p \<in> {StopLock, StopStore, StopNotify, StopUnlock, KDone}")
    case True
    have "p \<noteq> KDone" using step' by (auto simp: client_step_def)
    then have "p = StopLock \<or> p \<in> {StopStore, StopNotify, StopUnlock} \<and> p \<in> set (wk_clients w)" using True cl(1) by simp
    then have "quiet w" using guard q unfolding dg_quiet_def p_def by blast
    then have "quiet w'" using client_stays_quiet [OF step' True] unfolding quiet_def cl by simp
    moreover have "wk_items w' = wk_items w" using items True by auto
    ultimately show ?thesis using q srv unfolding dg_quiet_def by metis
  next
    case False
    have "\<not> quiet w" using False unfolding quiet_def cl by simp
    then have n: "wk_running w" "\<forall>p\<in>{StopStore, StopNotify, StopUnlock}. p \<notin> set (wk_clients w)" using q unfolding dg_quiet_def by blast+
    have r1: "wk_running w'" using client_stays_loud(2) [OF step' False] n(1) r(2) by simp
    have "\<forall>p\<in>{StopStore, StopNotify, StopUnlock}. p \<notin> set (wk_clients w')"
      using client_stays_loud(1) [OF step' False] n(2) unfolding cl by blast
    moreover have "wk_server w \<notin> {SvUnlock False, SvDone}" using ok n(1) by (auto simp: wake_ok_def)
    ultimately show ?thesis using r1 srv unfolding dg_quiet_def by blast
  qed
qed

definition dg_inv :: "client list \<Rightarrow> delegate \<Rightarrow> bool" where
  "dg_inv cs s \<longleftrightarrow> dg_ok s \<and> dg_quiet (dg_sync s) \<and> stop_ok cs (dg_sync s)"

lemma sync_at_server:
  "wk_server w \<notin> {SvUnlock False, SvDone} \<Longrightarrow> dg_quiet u \<Longrightarrow> wk_clients w = wk_clients u \<Longrightarrow> wk_running w = wk_running u \<Longrightarrow> dg_quiet w"
  "wk_clients w = wk_clients u \<Longrightarrow> wk_running w = wk_running u \<Longrightarrow> stop_ok cs u \<Longrightarrow> stop_ok cs w"
  by (simp_all add: dg_quiet_def quiet_def stop_ok_def)

lemma dg_read_sync:
  assumes "dg_ok s" "dg_read width s = Some s'"
  shows "(dg_pc s = RWait \<and> wk_server (dg_sync s) \<noteq> SvTake \<and> server_step (dg_sync s) = Some (dg_sync s')) \<or>
    (wk_clients (dg_sync s') = wk_clients (dg_sync s) \<and> wk_running (dg_sync s') = wk_running (dg_sync s) \<and>
     wk_server (dg_sync s') \<notin> {SvUnlock False, SvDone})"
  using assms by (cases "dg_pc s") (auto simp: dg_read_def dg_ok_def Let_def at_server_def dg_take_def split: if_splits)

lemma dg_client_sync:
  assumes "dg_client i s = Some s'"
  shows "dg_sync s' = dg_sync s \<or> (wake_step (Client i) (dg_sync s) = Some (dg_sync s') \<and> i < length (wk_clients (dg_sync s)) \<and>
    (wk_clients (dg_sync s) ! i = StopLock \<longrightarrow> quiet (dg_sync s)))"
  using assms by (auto simp: dg_client_def Let_def quiet_def split: if_splits)

lemma dg_step_inv:
  assumes inv: "dg_inv cs s" and width: "0 < width" and step: "dg_step width m s = Some s'"
  shows "dg_inv cs s'"
proof -
  have ok: "dg_ok s" "wake_ok (dg_sync s)" and q: "dg_quiet (dg_sync s)" and st: "stop_ok cs (dg_sync s)"
    using inv by (simp_all add: dg_inv_def dg_ok_def)
  show ?thesis
  proof (cases m)
    case Server
    then have r: "dg_read width s = Some s'" using step by (simp add: dg_step_def)
    have "dg_quiet (dg_sync s') \<and> stop_ok cs (dg_sync s')"
      using dg_read_sync [OF ok(1) r]
    proof
      assume a: "dg_pc s = RWait \<and> wk_server (dg_sync s) \<noteq> SvTake \<and> server_step (dg_sync s) = Some (dg_sync s')"
      then have "wake_step Server (dg_sync s) = Some (dg_sync s')" by (simp add: wake_step_def)
      then show ?thesis using dg_quiet_server [OF ok(2) q] stop_step_ok [OF st] a by blast
    next
      assume "wk_clients (dg_sync s') = wk_clients (dg_sync s) \<and> wk_running (dg_sync s') = wk_running (dg_sync s) \<and>
        wk_server (dg_sync s') \<notin> {SvUnlock False, SvDone}"
      then show ?thesis using sync_at_server [of "dg_sync s'" "dg_sync s"] q st by blast
    qed
    then show ?thesis using dg_read_ok [OF ok(1) width r] by (simp add: dg_inv_def)
  next
    case (Client i)
    then have r: "dg_client i s = Some s'" using step by (simp add: dg_step_def)
    have "dg_quiet (dg_sync s') \<and> stop_ok cs (dg_sync s')"
      using dg_client_sync [OF r] dg_quiet_client [OF ok(2) q] stop_step_ok [OF st] q st by metis
    then show ?thesis using dg_client_ok [OF ok(1) r] by (simp add: dg_inv_def)
  next
    case Awake
    then obtain w where w: "dg_pc s = RWait" "wake_step Awake (dg_sync s) = Some w" "s' = s\<lparr>dg_sync := w\<rparr>"
      using step by (auto simp: dg_step_def split: if_splits)
    have same: "wk_clients w = wk_clients (dg_sync s)" "wk_running w = wk_running (dg_sync s)" "wk_items w = wk_items (dg_sync s)"
      "wk_server w \<notin> {SvUnlock False, SvDone, SvTake}"
      using w(2) by (auto simp: wake_step_def split: if_splits)
    then have "dg_quiet w \<and> stop_ok cs w" using sync_at_server [of w "dg_sync s"] q st by blast
    moreover have "wake_ok w" by (rule wake_step_ok [OF ok(2) w(2)])
    ultimately show ?thesis using ok(1) w(1) same by (simp add: dg_inv_def dg_ok_def w(3))
  qed
qed

lemma dg_init_inv: "set cs \<subseteq> {KPut, StopLock} \<Longrightarrow> dg_inv cs (dg_init cs)"
  by (auto simp: dg_inv_def dg_ok_def dg_quiet_def quiet_def stop_ok_def dg_init_def wake_ok_def wake_init_def wk_defs tot_def subset_iff
      intro!: sum_list_0 split: client.splits)

lemma delegates_inv:
  assumes "delegates width (dg_init cs) s" "set cs \<subseteq> {KPut, StopLock}" "0 < width"
  shows "dg_inv cs s"
  using assms
proof induction
  case start
  then show ?case by (simp add: dg_init_inv)
next
  case (step s m s')
  then show ?case using dg_step_inv by blast
qed

definition dg_stuck :: "nat \<Rightarrow> delegate \<Rightarrow> bool" where
  "dg_stuck width s \<longleftrightarrow> dg_read width s = None \<and> (\<forall>i<length (wk_clients (dg_sync s)). dg_client i s = None)"

lemma stuck_rests:
  assumes ok: "dg_ok s" and stuck: "dg_stuck width s" and nf: "KFail \<notin> set (wk_clients (dg_sync s))"
  shows "dg_pc s = RWait \<and> at_rest (dg_sync s)"
proof -
  define w where "w = dg_sync s"
  have r: "dg_pc s = RWait" "server_step w = None"
    using stuck by (auto simp: dg_stuck_def dg_read_def Let_def w_def split: reader.splits if_splits)
  have blocked: "wk_clients w ! i = StopLock \<and> \<not> quiet w \<or> client_step (wk_clients w ! i) w = None" if "i < length (wk_clients w)" for i
    using stuck that by (auto simp: dg_stuck_def dg_client_def Let_def wake_step_def quiet_def w_def split: if_splits)
  have loud: "client_step p w = None" if "p \<in> set (wk_clients w)" "p \<noteq> StopLock" for p
    using blocked that by (auto simp: in_set_conv_nth)
  have "client_step p w = None" if p: "p \<in> set (wk_clients w)" for p
  proof (cases "p = StopLock \<and> \<not> quiet w")
    case True
    then obtain x where x: "x \<in> set (wk_clients w)" "x \<notin> {StopLock, StopStore, StopNotify, StopUnlock, KDone}"
      by (auto simp: quiet_def)
    then have "client_step x w = None" using loud by blast
    then have "wk_locked w" using x nf by (cases x) (auto simp: client_step_def w_def split: if_splits)
    then show ?thesis using True by (simp add: client_step_def)
  next
    case False
    then show ?thesis using blocked p loud by (metis in_set_conv_nth)
  qed
  then show ?thesis using r by (simp add: at_rest_def w_def)
qed

text \<open>
  C16: a delegate calls its function once on every item handed to it, in the order in which they were
  enqueued, in every interleaving of the calls of \<^verbatim>\<open>Enqueue\<close>, of \<^verbatim>\<open>Shutdown\<close> after them and of
  the thread, whatever the width of its buffer.  When its thread has ended no item is left, so that the
  destructor's assertion holds; and when nothing can move, every call has returned, all items are
  processed, and the thread has ended if it was shut down and sleeps otherwise.
\<close>

theorem delegate_processes_every_item:
  assumes "delegates width (dg_init cs) s" and "set cs \<subseteq> {KPut, StopLock}" and "0 < width"
  shows "dg_log s = dg_done s @ dg_batch s @ dg_queue s \<and>
    (wk_server (dg_sync s) = SvDone \<longrightarrow> dg_done s = dg_log s \<and> dg_queue s = []) \<and>
    (dg_stuck width s \<longrightarrow> dg_done s = dg_log s \<and> set (wk_clients (dg_sync s)) \<subseteq> {KDone} \<and>
      wk_server (dg_sync s) = (if StopLock \<in> set cs then SvDone else SvSleep))"
proof -
  have inv: "dg_inv cs s" by (rule delegates_inv [OF assms])
  then have ok: "dg_ok s" "wake_ok (dg_sync s)" by (simp_all add: dg_inv_def dg_ok_def)
  have log: "dg_log s = dg_done s @ dg_batch s @ dg_queue s" using ok(1) by (simp add: dg_ok_def)
  have ended: "dg_done s = dg_log s \<and> dg_queue s = []" if w: "wk_server (dg_sync s) \<in> {SvDone, SvSleep}" "wk_items (dg_sync s) = 0"
  proof -
    have "dg_pc s = RWait" using ok(1) w(1) by (cases "dg_pc s") (auto simp: dg_ok_def split: if_splits)
    then have "dg_batch s = []" "dg_queue s = []" using ok(1) w(2) by (auto simp: dg_ok_def)
    then show ?thesis using log by simp
  qed
  have fin: "wk_server (dg_sync s) = SvDone \<Longrightarrow> wk_items (dg_sync s) = 0" using inv by (simp add: dg_inv_def dg_quiet_def)
  have rest: "dg_done s = dg_log s \<and> set (wk_clients (dg_sync s)) \<subseteq> {KDone} \<and>
      wk_server (dg_sync s) = (if StopLock \<in> set cs then SvDone else SvSleep)" if "dg_stuck width s"
  proof -
    have "KFail \<notin> set (wk_clients (dg_sync s))"
      using inv assms(2) by (auto simp: dg_inv_def stop_ok_def asserts_def)
    then have "at_rest (dg_sync s)" using stuck_rests [OF ok(1) that] by blast
    then have r: "set (wk_clients (dg_sync s)) \<subseteq> {KDone} \<and> \<not> wk_locked (dg_sync s) \<and>
      (if StopLock \<in> set cs then wk_server (dg_sync s) = SvDone else wk_server (dg_sync s) = SvSleep \<and> wk_items (dg_sync s) = 0)"
      using rest_settled [OF ok(2), of cs] inv subset_trans [OF assms(2), of "{KAssert, KPut, KLoad, StopLock}"] \<open>KFail \<notin> set (wk_clients (dg_sync s))\<close>
      by (auto simp: dg_inv_def)
    then show ?thesis using ended fin by (cases "StopLock \<in> set cs") simp_all
  qed
  have "dg_done s = dg_log s \<and> dg_queue s = []" if "wk_server (dg_sync s) = SvDone"
    by (rule ended) (use that fin in simp_all)
  then show ?thesis using log rest by blast
qed

primrec dg_run :: "nat \<Rightarrow> mover list \<Rightarrow> delegate \<Rightarrow> delegate option" where
  "dg_run width [] s = Some s"
| "dg_run width (m # ms) s = Option.bind (dg_step width m s) (dg_run width ms)"

lemma dg_run_delegates: "dg_run width ms s = Some s' \<Longrightarrow> delegates width init s \<Longrightarrow> delegates width init s'"
proof (induction ms arbitrary: s)
  case (Cons m ms)
  then show ?case by (cases "dg_step width m s") (auto intro: delegates.step)
qed simp

text \<open>Two items are handed over one after the other, and the delegate is shut down while its thread sleeps.\<close>

definition dg_schedule :: "mover list" where
  "dg_schedule = replicate 7 (Client 0) @ replicate 11 Server @ replicate 7 (Client 1) @ replicate 18 Server @
     replicate 4 (Client 2) @ replicate 11 Server"

definition dg_ended :: delegate where
  "dg_ended = \<lparr>dg_sync = \<lparr>wk_items = 0, wk_starving = True, wk_running = False, wk_locked = False, wk_server = SvDone,
       wk_clients = [KDone, KDone, KDone]\<rparr>,
     dg_queue = [], dg_writes = 0, dg_marked = [True, True, False], dg_pc = RWait, dg_batch = [], dg_reads = 0,
     dg_done = [0, 1], dg_log = [0, 1]\<rparr>"

lemma dg_schedule_runs: "dg_run 1 dg_schedule (dg_init [KPut, KPut, StopLock]) = Some dg_ended"
  by (simp add: numeral_eq_Suc dg_schedule_def dg_ended_def dg_init_def wake_init_def dg_step_def dg_client_def dg_read_def dg_take_def at_server_def
      wake_step_def server_step_def client_step_def notify_def)

theorem delegate_processes_every_item_witness: "dg_done dg_ended = dg_log dg_ended"
  using delegate_processes_every_item [OF dg_run_delegates [OF dg_schedule_runs delegates.start]]
  by (simp add: dg_ended_def)

end
