(* ===== verification/ThreadPools.thy ===== *)
theory ThreadPools
  imports JobQueues
begin

text \<open>
  How work is spread over the queues of the workers: \<^verbatim>\<open>jobs/ThreadPool.h\<close> and
  \<^verbatim>\<open>ThreadPool.cpp\<close>.

  Each worker has a queue of theory JobQueues; queue 0 belongs to the main thread.  \<open>self\<close> is the
  queue of the calling thread, if it has one, \<open>r\<close> the number its random generator draws.  An
  operation is run here without others in between; what other threads hold or do meanwhile comes in
  as an argument: whether a queue is locked, what the counter of waiting threads reads.
\<close>

section \<open>Choosing a queue\<close>

record wpool =
  wp_queues :: "job_tasks list"
  wp_main :: job_tasks
  wp_workers :: nat
  wp_jobless :: "nat option"

text \<open>\<open>n\<close> is the number of queues of workers.\<close>

definition wp_use_jobless :: "nat option \<Rightarrow> wpool \<Rightarrow> nat option \<times> wpool" where
  "wp_use_jobless self p = (case wp_jobless p of None \<Rightarrow> (None, p)
     | Some i \<Rightarrow> if self = Some i then (None, p) else (Some i, p\<lparr>wp_jobless := None\<rparr>))"

definition wp_random_except :: "nat option \<Rightarrow> nat \<Rightarrow> nat \<Rightarrow> nat" where
  "wp_random_except self r n = (let i = r mod n in if self \<noteq> Some i then i else (i + 1) mod n)"

definition wp_use_next :: "nat option \<Rightarrow> nat \<Rightarrow> wpool \<Rightarrow> nat \<times> wpool" where
  "wp_use_next self r p = (case wp_use_jobless self p of
     (None, p) \<Rightarrow> (wp_random_except self r (length (wp_queues p)), p) | (Some i, p) \<Rightarrow> (i, p))"

definition wp_push_at :: "nat \<Rightarrow> nat \<Rightarrow> job_work \<Rightarrow> wpool \<Rightarrow> wpool res" where
  "wp_push_at c i w p = (if i < length (wp_queues p)
     then bindR (jq_push_task c w (wp_queues p ! i)) (\<lambda>q. Inr (p\<lparr>wp_queues := (wp_queues p)[i := q]\<rparr>)) else Inl BadAccess)"

definition wp_add_task_without_wake_up :: "nat \<Rightarrow> nat option \<Rightarrow> nat \<Rightarrow> job_work \<Rightarrow> wpool \<Rightarrow> wpool res" where
  "wp_add_task_without_wake_up c self i w p = assertR (i < length (wp_queues p))
     (bindR (wp_push_at c i w p) (\<lambda>p. assertR (self \<noteq> Some i \<or> wp_workers p = 0) (Inr p)))"

definition wp_next :: "nat \<Rightarrow> nat option \<Rightarrow> nat \<Rightarrow> nat" where
  "wp_next n self i = (let i = (i + 1) mod n in if self = Some i then (i + 1) mod n else i)"

text \<open>The loop of \<^verbatim>\<open>AddTasks\<close> for \<open>count + 1\<close> tasks; it runs once even for a count of zero.\<close>

fun wp_add_tasks_loop :: "nat \<Rightarrow> nat option \<Rightarrow> nat \<Rightarrow> nat \<Rightarrow> job_work \<Rightarrow> wpool \<Rightarrow> wpool res" where
  "wp_add_tasks_loop c self 0 i w p = wp_add_task_without_wake_up c self i w p"
| "wp_add_tasks_loop c self (Suc k) i w p = bindR (wp_add_task_without_wake_up c self i w p)
     (wp_add_tasks_loop c self k (wp_next (length (wp_queues p)) self i) w)"

definition wp_find_free :: "nat \<Rightarrow> wpool \<Rightarrow> nat option" where
  "wp_find_free i p = (let n = length (wp_queues p) in
     find (\<lambda>k. jq_is_maybe_empty (wp_queues p ! k)) (map (\<lambda>k. (k + i) mod n) [1..<n]))"

definition wp_update :: "nat \<Rightarrow> wpool \<Rightarrow> wpool" where
  "wp_update i p = (if wp_jobless p = None then
     (case wp_find_free i p of None \<Rightarrow> p | Some k \<Rightarrow> p\<lparr>wp_jobless := Some k\<rparr>) else p)"

section \<open>Waking workers\<close>

text \<open>
  The loop of \<^verbatim>\<open>WakeUp\<close> over the queues \<open>is\<close> that are left: \<open>asleep\<close> says whose worker waits, which is
  what \<^verbatim>\<open>Signal\<close> reports, \<open>seen\<close> what the counter of waiting threads reads after each.  The
  result is the queues woken and the number of threads still to be activated.
\<close>

fun wp_wake_loop :: "nat list \<Rightarrow> (nat \<Rightarrow> bool) \<Rightarrow> (nat \<Rightarrow> nat) \<Rightarrow> nat \<Rightarrow> nat list \<Rightarrow> nat list \<times> nat option" where
  "wp_wake_loop [] asleep seen left woken = (woken, Some left)"
| "wp_wake_loop (i # is) asleep seen left woken =
     (if asleep i \<and> left \<le> 1 then (woken @ [i], None)
      else let left = left - of_bool (asleep i); woken = woken @ (if asleep i then [i] else []) in
        if seen i = 0 then (woken, Some left) else wp_wake_loop is asleep seen left woken)"

definition around :: "nat \<Rightarrow> nat \<Rightarrow> nat list" where
  "around n i = map (\<lambda>k. (i + k) mod n) [0..<n]"

text \<open>The result: the workers woken, and how many companions are notified.\<close>

record wp_env =
  we_asleep :: "nat \<Rightarrow> bool"
  we_seen :: "nat \<Rightarrow> nat"
  we_needed :: "32 word"
  we_active :: "32 word"

text \<open>The number needed is signed, the number active is not: their difference is unsigned.\<close>

definition wp_companions :: "wp_env \<Rightarrow> nat \<Rightarrow> nat" where
  "wp_companions e left = (if sint (we_needed e) > 0 \<and> we_needed e - we_active e > 0 then left else 0)"

definition wp_wake_up :: "wp_env \<Rightarrow> nat \<Rightarrow> nat \<Rightarrow> wpool \<Rightarrow> (nat list \<times> nat \<times> wpool) res" where
  "wp_wake_up e left i p =
     (case wp_wake_loop (around (length (wp_queues p)) i) (we_asleep e) (we_seen e) left [] of
        (woken, None) \<Rightarrow> Inr (woken, 0, wp_update i p)
      | (woken, Some left) \<Rightarrow> assertR (left > 0) (Inr (woken, wp_companions e left, p)))"

definition wp_add_tasks :: "nat \<Rightarrow> nat option \<Rightarrow> wp_env \<Rightarrow> nat \<Rightarrow> nat \<Rightarrow> job \<Rightarrow> wpool \<Rightarrow> (nat list \<times> nat \<times> wpool) res" where
  "wp_add_tasks c self e first cnt j p =
     bindR (wp_add_tasks_loop c self (cnt - 1) first (Some j) p) (wp_wake_up e cnt first)"

definition wp_push_task :: "nat \<Rightarrow> nat option \<Rightarrow> wp_env \<Rightarrow> nat \<Rightarrow> job_work \<Rightarrow> wpool \<Rightarrow> (nat \<times> nat list \<times> nat \<times> wpool) res" where
  "wp_push_task c self e r w p = (case wp_use_next self r p of (i, p) \<Rightarrow>
     assertR (self \<noteq> Some i \<or> wp_workers p = 0) (bindR (wp_push_at c i w p) (\<lambda>p.
       bindR (wp_wake_up e 1 i p) (\<lambda>(woken, companions, p). Inr (i, woken, companions, p)))))"

text \<open>The result is the job the calling thread has to run itself, if any.\<close>

definition wp_push_delayed_task :: "nat \<Rightarrow> nat option \<Rightarrow> wp_env \<Rightarrow> nat \<Rightarrow> job_work \<Rightarrow> wpool \<Rightarrow> (job option \<times> wpool) res" where
  "wp_push_delayed_task c self e r w p = (if wp_workers p > 0
     then bindR (wp_push_task c self e r w p) (\<lambda>(i, woken, companions, p). Inr (None, p))
     else bindR (do_work w) (\<lambda>j. Inr (Some j, p)))"

section \<open>Finding work\<close>

text \<open>\<^verbatim>\<open>ProcessQueues\<close> of a companion: the first queue with a task, from \<open>i\<close> on.\<close>

fun wp_process :: "nat \<Rightarrow> nat list \<Rightarrow> wpool \<Rightarrow> (job_status \<times> job option \<times> wpool) res" where
  "wp_process c [] p = Inr (Empty, None, p)"
| "wp_process c (i # is) p = bindR (jq_run c (wp_queues p ! i)) (\<lambda>(st, j, q).
     let p = p\<lparr>wp_queues := (wp_queues p)[i := q]\<rparr> in if st \<noteq> Empty then Inr (st, j, p) else wp_process c is p)"

definition wp_process_queues :: "nat \<Rightarrow> nat \<Rightarrow> wpool \<Rightarrow> (job_status \<times> job option \<times> wpool) res" where
  "wp_process_queues c i p = (if wp_workers p = 0 then assertR (length (wp_queues p) = 1) (Inr (Empty, None, p))
     else wp_process c (around (length (wp_queues p)) i) p)"

text \<open>\<^verbatim>\<open>DoJobWork\<close> of a thread that waits for a job; the index to go on with is \<open>None\<close> for no queue.\<close>

fun wp_search :: "nat \<Rightarrow> job \<Rightarrow> nat list \<Rightarrow> wpool \<Rightarrow> (nat option \<times> job option \<times> wpool) res" where
  "wp_search c j [] p = Inr (None, None, p)"
| "wp_search c j (i # is) p = bindR (jq_get_job_task c True False j (wp_queues p ! i)) (\<lambda>(st, v, q).
     let p = p\<lparr>wp_queues := (wp_queues p)[i := q]\<rparr> in
     case st of Waiting \<Rightarrow> Inr (Some i, v, p)
     | WentEmpty \<Rightarrow> Inr (if is = [] then None else Some ((i + 1) mod length (wp_queues p)), v, p)
     | _ \<Rightarrow> wp_search c j is p)"

definition wp_do_job_work :: "nat \<Rightarrow> job \<Rightarrow> nat \<Rightarrow> wpool \<Rightarrow> (nat option \<times> job option \<times> wpool) res" where
  "wp_do_job_work c j target p = wp_search c j (around (length (wp_queues p)) (if target < length (wp_queues p) then target else 0)) p"

text \<open>\<^verbatim>\<open>DoJobWork\<close> without a job: the loop ends with the first queue, whatever it finds.\<close>

fun wp_any_work :: "nat \<Rightarrow> nat list \<Rightarrow> wpool \<Rightarrow> (nat option \<times> job option \<times> wpool) res" where
  "wp_any_work c [] p = Inr (None, None, p)"
| "wp_any_work c (i # is) p = bindR (jq_run c (wp_queues p ! i)) (\<lambda>(st, j, q).
     let p = p\<lparr>wp_queues := (wp_queues p)[i := q]\<rparr> in
     case st of Waiting \<Rightarrow> Inr (Some i, j, p) | Empty \<Rightarrow> Inr (Some (i + 1), j, p) | _ \<Rightarrow> wp_any_work c is p)"

definition wp_do_any_work :: "nat \<Rightarrow> nat \<Rightarrow> wpool \<Rightarrow> (nat option \<times> job option \<times> wpool) res" where
  "wp_do_any_work c target p = wp_any_work c (around (length (wp_queues p)) target) p"

section \<open>The main thread\<close>

text \<open>Without workers the main thread's queue is queue 0.\<close>

definition wp_run_main :: "nat \<Rightarrow> wpool \<Rightarrow> (job_status \<times> job option \<times> wpool) res" where
  "wp_run_main c p = (if wp_workers p > 0
     then bindR (jq_run c (wp_main p)) (\<lambda>(st, j, q). Inr (st, j, p\<lparr>wp_main := q\<rparr>))
     else bindR (jq_run c (wp_queues p ! 0)) (\<lambda>(st, j, q). Inr (st, j, p\<lparr>wp_queues := (wp_queues p)[0 := q]\<rparr>)))"

definition wp_run_first :: "nat \<Rightarrow> wpool \<Rightarrow> (job_status \<times> job option \<times> wpool) res" where
  "wp_run_first c p = bindR (jq_run c (wp_queues p ! 0)) (\<lambda>(st, j, q). Inr (st, j, p\<lparr>wp_queues := (wp_queues p)[0 := q]\<rparr>))"

text \<open>
  \<open>upd\<close> is what has become of the pool when a job has run: jobs and other threads push and take tasks
  meanwhile.
\<close>

partial_function (option) wp_main_no_block ::
    "nat \<Rightarrow> (job \<Rightarrow> wpool \<Rightarrow> wpool) \<Rightarrow> job list \<Rightarrow> wpool \<Rightarrow> (job list \<times> wpool) run" where
  "wp_main_no_block c upd jobs p = bindO (Some (wp_run_main c p)) (\<lambda>(st, j, p).
     bindO (if st = Empty then Some (wp_run_first c p) else Some (Inr (st, j, p))) (\<lambda>(st, j, p).
       if st \<noteq> Empty \<and> st \<noteq> Inactive
       then (case j of None \<Rightarrow> wp_main_no_block c upd jobs p | Some j \<Rightarrow> wp_main_no_block c upd (jobs @ [j]) (upd j p))
       else Some (Inr (jobs, p))))"

section \<open>Stealing\<close>

text \<open>
  One round of a worker over the other queues: \<open>hints\<close> are those still worth a look, \<open>held\<close> says
  whether a queue is locked when it is tried.  A job that is taken runs at once and may itself push
  tasks into any queue, also the worker's own: \<open>script\<close> lists for each job run what it pushes.
\<close>

type_synonym pushes = "(nat \<times> job_work) list"

record wsteal =
  ws_queues :: "job_tasks list"
  ws_hints :: "nat set"
  ws_more :: bool
  ws_dirty :: bool
  ws_force :: bool
  ws_jobs :: "job list"
  ws_script :: "pushes list"

fun wp_arrive :: "nat \<Rightarrow> pushes \<Rightarrow> job_tasks list \<Rightarrow> job_tasks list res" where
  "wp_arrive c [] qs = Inr qs"
| "wp_arrive c ((x, w) # ws) qs = (if x < length qs
     then bindR (jq_push_task c w (qs ! x)) (\<lambda>q. wp_arrive c ws (qs[x := q])) else Inl BadAccess)"

definition ws_next :: "wsteal \<Rightarrow> pushes" where
  "ws_next s = (case ws_script s of [] \<Rightarrow> [] | ws # _ \<Rightarrow> ws)"

definition wp_ran :: "nat \<Rightarrow> job option \<Rightarrow> wsteal \<Rightarrow> wsteal res" where
  "wp_ran c j s = (case j of None \<Rightarrow> Inr s
     | Some j \<Rightarrow> bindR (wp_arrive c (ws_next s) (ws_queues s)) (\<lambda>qs.
         Inr (s\<lparr>ws_queues := qs, ws_jobs := ws_jobs s @ [j], ws_script := tl (ws_script s)\<rparr>)))"

definition wp_try :: "nat \<Rightarrow> (nat \<Rightarrow> bool) \<Rightarrow> nat \<Rightarrow> wsteal \<Rightarrow> wsteal res" where
  "wp_try c held i s = (if i \<in> ws_hints s then
     bindR (jq_steal c (ws_force s) (held i) (ws_queues s ! i)) (\<lambda>(st, j, q).
     bindR (wp_ran c j (s\<lparr>ws_queues := (ws_queues s)[i := q]\<rparr>)) (\<lambda>s.
       Inr (case st of Waiting \<Rightarrow> s\<lparr>ws_more := True, ws_dirty := True\<rparr>
         | Empty \<Rightarrow> s\<lparr>ws_hints := ws_hints s - {i}\<rparr>
         | WentEmpty \<Rightarrow> s\<lparr>ws_dirty := True\<rparr>
         | _ \<Rightarrow> s\<lparr>ws_force := True\<rparr>)))
     else Inr s)"

fun wp_round :: "nat \<Rightarrow> (nat \<Rightarrow> bool) \<Rightarrow> nat list \<Rightarrow> wsteal \<Rightarrow> wsteal res" where
  "wp_round c held [] s = Inr s"
| "wp_round c held (i # is) s = bindR (wp_try c held i s) (wp_round c held is)"

text \<open>Rounds while others have more, and anew with all hints while something was found.\<close>

partial_function (option) wp_rounds :: "nat \<Rightarrow> (nat \<Rightarrow> bool) \<Rightarrow> nat list \<Rightarrow> wsteal \<Rightarrow> wsteal run" where
  "wp_rounds c held is s = bindO (Some (wp_round c held is (s\<lparr>ws_more := False\<rparr>)))
     (\<lambda>s. if ws_more s then wp_rounds c held is s else Some (Inr s))"

partial_function (option) wp_steal_all :: "nat \<Rightarrow> (nat \<Rightarrow> bool) \<Rightarrow> nat list \<Rightarrow> wsteal \<Rightarrow> wsteal run" where
  "wp_steal_all c held is s = bindO (wp_rounds c held is (s\<lparr>ws_dirty := False, ws_hints := set is, ws_force := False\<rparr>))
     (\<lambda>s. if ws_dirty s then wp_steal_all c held is s else Some (Inr s))"

definition others :: "nat \<Rightarrow> nat \<Rightarrow> nat list" where
  "others n i = map (\<lambda>k. (i + k) mod n) [1..<n]"

definition ws_start :: "wpool \<Rightarrow> pushes list \<Rightarrow> wsteal" where
  "ws_start p script = \<lparr>ws_queues = wp_queues p, ws_hints = {}, ws_more = False, ws_dirty = False, ws_force = False,
     ws_jobs = [], ws_script = script\<rparr>"

definition wp_steal :: "nat \<Rightarrow> (nat \<Rightarrow> bool) \<Rightarrow> pushes list \<Rightarrow> nat \<Rightarrow> wpool \<Rightarrow> (job list \<times> wpool) run" where
  "wp_steal c held script i p = assertO (i < length (wp_queues p))
     (bindO (wp_steal_all c held (others (length (wp_queues p)) i) (ws_start p script))
       (\<lambda>s. Some (Inr (ws_jobs s, p\<lparr>wp_queues := ws_queues s\<rparr>))))"

section \<open>Where tasks go\<close>

fun wp_targets :: "nat \<Rightarrow> nat option \<Rightarrow> nat \<Rightarrow> nat \<Rightarrow> nat list" where
  "wp_targets n self 0 i = [i]"
| "wp_targets n self (Suc k) i = i # wp_targets n self k (wp_next n self i)"

text \<open>
  The queues other than the caller's, in the order of the loop: \<open>d\<close> is the distance from the first to
  the caller's.
\<close>

definition skip_at :: "nat \<Rightarrow> nat option \<Rightarrow> nat \<Rightarrow> nat" where
  "skip_at n self first = (case self of None \<Rightarrow> n | Some s \<Rightarrow> (s + n - first) mod n)"

definition slot :: "nat \<Rightarrow> nat option \<Rightarrow> nat \<Rightarrow> nat \<Rightarrow> nat" where
  "slot n self first r = (first + (if r < skip_at n self first then r else r + 1)) mod n"

definition num_others :: "nat \<Rightarrow> nat option \<Rightarrow> nat" where
  "num_others n self = (case self of None \<Rightarrow> n | Some s \<Rightarrow> n - 1)"

definition start_ok :: "nat \<Rightarrow> nat option \<Rightarrow> nat \<Rightarrow> bool" where
  "start_ok n self first \<longleftrightarrow> first < n \<and> (case self of None \<Rightarrow> True | Some s \<Rightarrow> s < n \<and> s \<noteq> first)"

lemma add_mod_eq_iff: "a < n \<Longrightarrow> b < n \<Longrightarrow> (x + a) mod n = (x + b) mod n \<longleftrightarrow> a = (b :: nat)"
proof
  assume n: "a < n" "b < n" and e: "(x + a) mod n = (x + b) mod n"
  then have "(int x + int a) mod int n = (int x + int b) mod int n" by (metis of_nat_add of_nat_mod)
  then have "int n dvd int a - int b" by (simp add: mod_eq_dvd_iff)
  then have "int a - int b = 0 \<or> \<bar>int n\<bar> \<le> \<bar>int a - int b\<bar>" using dvd_imp_le_int by blast
  then show "a = b" using n by linarith
qed simp

lemma skip_at_self: "start_ok n (Some s) first \<Longrightarrow> 0 < skip_at n (Some s) first \<and> skip_at n (Some s) first < n \<and>
    (first + skip_at n (Some s) first) mod n = s"
proof -
  assume a: "start_ok n (Some s) first"
  then have "(first + (s + n - first) mod n) mod n = (s + n) mod n" by (simp add: start_ok_def mod_add_right_eq)
  moreover have "(s + n) mod n = s" using a by (simp add: start_ok_def)
  moreover have "skip_at n (Some s) first \<noteq> 0"
  proof
    assume "skip_at n (Some s) first = 0"
    then have "first mod n = s" using calculation by (simp add: skip_at_def)
    then show False using a by (simp add: start_ok_def)
  qed
  ultimately show ?thesis using a by (simp add: skip_at_def start_ok_def)
qed

lemma slot_next:
  assumes "start_ok n self first" "r < num_others n self"
  shows "wp_next n self (slot n self first r) = slot n self first ((r + 1) mod num_others n self)"
proof (cases self)
  case None
  show ?thesis
  proof (cases "r + 1 = n")
    case True
    then have "(first + r + 1) mod n = first mod n" by (metis add.assoc mod_add_self2)
    then show ?thesis using None True assms by (simp add: wp_next_def slot_def skip_at_def num_others_def mod_Suc_eq)
  next
    case False
    then show ?thesis using None assms by (simp add: wp_next_def slot_def skip_at_def num_others_def mod_Suc_eq)
  qed
next
  case (Some s)
  define d where "d = skip_at n (Some s) first"
  note dd = d_def [symmetric]
  have d: "0 < d" "d < n" "(first + d) mod n = s" using skip_at_self [of n s first] assms(1) Some by (simp_all add: d_def)
  have r: "r < n - 1" "num_others n self = n - 1" using assms(2) Some by (simp_all add: num_others_def)
  have at: "(first + k) mod n = s \<longleftrightarrow> k = d" if "k < n" for k using add_mod_eq_iff [OF that d(2), of first] d(3) by simp
  have wrap: "(first + n) mod n = first mod n" by simp
  show ?thesis
  proof (cases "r < d")
    case True
    show ?thesis
    proof (cases "r + 1 = d")
      case True
      have "slot n self first r = (first + r) mod n" using True by (simp add: slot_def Some dd)
      then have "wp_next n self (slot n self first r) = (first + d + 1) mod n"
        using d(3) Some mod_Suc_eq [of "first + d" n] by (simp add: wp_next_def Let_def mod_Suc_eq flip: True)
      moreover have "slot n self first ((r + 1) mod (n - 1)) = (first + d + 1) mod n"
        using True r(1) d wrap by (cases "r + 1 = n - 1") (auto simp: slot_def Some dd)
      ultimately show ?thesis using r(2) by simp
    next
      case False
      then have "(first + (r + 1)) mod n \<noteq> s" using at [of "r + 1"] r(1) by simp
      moreover have "r + 1 < n - 1" using False True d(2) by simp
      ultimately show ?thesis using False True Some r(2) by (simp add: wp_next_def slot_def Some dd mod_Suc_eq)
    qed
  next
    case False
    then have "(first + (r + 2)) mod n \<noteq> s" 
      using at [of "r + 2"] at [of 0] d(1) wrap r(1) by (cases "r + 2 = n") auto
    then have "wp_next n self (slot n self first r) = (first + (r + 2)) mod n"
      using False Some by (simp add: wp_next_def slot_def Some dd mod_Suc_eq)
    moreover have "slot n self first ((r + 1) mod (n - 1)) = (first + (r + 2)) mod n"
      using False r(1) d wrap by (cases "r + 1 = n - 1") (auto simp: slot_def Some dd)
    ultimately show ?thesis using r(2) by simp
  qed
qed

lemma num_others_pos: "start_ok n self first \<Longrightarrow> 0 < num_others n self"
  by (auto simp: start_ok_def num_others_def split: option.splits)

lemma slot_ok:
  assumes "start_ok n self first" "r < num_others n self"
  shows "slot n self first r < n" "self \<noteq> Some (slot n self first r)" "slot n self first 0 = first"
proof -
  have n: "0 < n" "first < n" using assms(1) by (simp_all add: start_ok_def)
  show "slot n self first r < n" using n by (simp add: slot_def)
  show "self \<noteq> Some (slot n self first r)"
  proof
    assume s: "self = Some (slot n self first r)"
    then obtain s where s': "self = Some s" "slot n self first r = s" by blast
    let ?d = "skip_at n (Some s) first"
    have d: "?d < n" "(first + ?d) mod n = s" using skip_at_self [of n s first] assms(1) s' by simp_all
    have "r < n - 1" using assms(2) s' by (simp add: num_others_def)
    then have "(if r < ?d then r else r + 1) < n" by auto
    then have "(if r < ?d then r else r + 1) = ?d"
      using add_mod_eq_iff [of "if r < ?d then r else r + 1" n ?d first] d s' by (simp add: slot_def)
    then show False by (simp split: if_splits)
  qed
  show "slot n self first 0 = first"
    using n skip_at_self [of n _ first] assms(1) by (cases self) (auto simp: slot_def skip_at_def)
qed

lemma slot_inj:
  assumes "start_ok n self first"
  shows "inj_on (slot n self first) {..<num_others n self}"
proof (rule inj_onI)
  fix a b
  assume a: "a \<in> {..<num_others n self}" "b \<in> {..<num_others n self}" "slot n self first a = slot n self first b"
  let ?f = "\<lambda>r. if r < skip_at n self first then r else r + 1"
  have "?f r < n" if "r < num_others n self" for r
    using that assms by (auto simp: num_others_def skip_at_def start_ok_def split: option.splits)
  then have "?f a = ?f b" using a add_mod_eq_iff [of "?f a" n "?f b" first] by (simp add: slot_def)
  then show "a = b" by (simp split: if_splits)
qed

lemma slot_onto:
  assumes "start_ok n self first" "x < n" "self \<noteq> Some x"
  obtains r where "r < num_others n self" "slot n self first r = x"
proof -
  let ?A = "{..<n} - (case self of None \<Rightarrow> {} | Some s \<Rightarrow> {s})"
  have "slot n self first ` {..<num_others n self} \<subseteq> ?A" using slot_ok(1,2) [OF assms(1)] by (fastforce split: option.splits)
  moreover have "card ?A = num_others n self" using assms(1) by (auto simp: num_others_def start_ok_def split: option.splits)
  ultimately have "slot n self first ` {..<num_others n self} = ?A"
    using card_image [OF slot_inj [OF assms(1)]] by (intro card_subset_eq) simp_all
  moreover have "x \<in> ?A" using assms(2,3) by (auto split: option.splits)
  ultimately show ?thesis using that by (metis (no_types, lifting) imageE lessThan_iff)
qed

lemma targets_slots:
  assumes "start_ok n self first"
  shows "r < num_others n self \<Longrightarrow> wp_targets n self k (slot n self first r) =
    map (\<lambda>t. slot n self first ((r + t) mod num_others n self)) [0..<Suc k]"
proof (induction k arbitrary: r)
  case (Suc k)
  let ?m = "num_others n self"
  have "(r + 1) mod ?m < ?m" using num_others_pos [OF assms] by simp
  then have "wp_targets n self k (slot n self first ((r + 1) mod ?m)) =
      map (\<lambda>t. slot n self first (((r + 1) mod ?m + t) mod ?m)) [0..<Suc k]" by (rule Suc.IH)
  moreover have "((r + 1) mod ?m + t) mod ?m = (r + Suc t) mod ?m" for t by (simp add: mod_add_left_eq)
  moreover have "map f [0..<Suc (Suc k)] = f 0 # map (\<lambda>t. f (Suc t)) [0..<Suc k]" for f :: "nat \<Rightarrow> nat"
    by (rule nth_equalityI) (auto simp: nth_Cons' simp del: upt_Suc)
  ultimately show ?case using Suc.prems slot_next [OF assms Suc.prems] by (simp del: upt_Suc)
qed simp

lemma count_round_robin:
  assumes "inj_on f {..<m}" "r < (m :: nat)"
  shows "count_list (map (\<lambda>t. f (t mod m)) [0..<k]) (f r) = k div m + of_bool (r < k mod m)"
proof (induction k)
  case (Suc k)
  have "f (k mod m) = f r \<longleftrightarrow> k mod m = r" using assms by (auto dest: inj_onD)
  then have "count_list (map (\<lambda>t. f (t mod m)) [0..<Suc k]) (f r) = k div m + of_bool (r < k mod m) + of_bool (k mod m = r)"
    using Suc.IH by simp
  also have "\<dots> = Suc k div m + of_bool (r < Suc k mod m)"
    using assms(2) by (auto simp: div_Suc mod_Suc)
  finally show ?case .
qed simp

lemma targets_count:
  assumes "start_ok n self first" "x < n" "self \<noteq> Some x"
  shows "count_list (wp_targets n self k first) x \<in> {Suc k div num_others n self, Suc k div num_others n self + 1}"
proof -
  obtain r where r: "r < num_others n self" "slot n self first r = x" using slot_onto [OF assms] .
  have "wp_targets n self k first = map (\<lambda>t. slot n self first (t mod num_others n self)) [0..<Suc k]"
    using targets_slots [OF assms(1), of 0 k] slot_ok(3) [OF assms(1), of 0] num_others_pos [OF assms(1)] by simp
  then show ?thesis using count_round_robin [OF slot_inj [OF assms(1)] r(1), of "Suc k"] r(2) by auto
qed

section \<open>Spreading tasks\<close>

definition queue_ok :: "nat \<Rightarrow> job_tasks \<Rightarrow> bool" where
  "queue_ok c q \<longleftrightarrow> dr_ok c q \<and> no_null q"

definition wp_ok :: "nat \<Rightarrow> wpool \<Rightarrow> bool" where
  "wp_ok c p \<longleftrightarrow> wp_queues p \<noteq> [] \<and> wp_workers p = length (wp_queues p) - 1 \<and> (\<forall>q\<in>set (wp_queues p). queue_ok c q) \<and>
    (\<forall>i. wp_jobless p = Some i \<longrightarrow> i < length (wp_queues p))"

abbreviation wview :: "wpool \<Rightarrow> nat \<Rightarrow> job_work list" where
  "wview p i \<equiv> dr_view (wp_queues p ! i)"

lemma push_at_ok:
  assumes "wp_ok c p" "i < length (wp_queues p)"
  shows "\<exists>p'. wp_push_at c i (Some j) p = Inr p' \<and> wp_ok c p' \<and> length (wp_queues p') = length (wp_queues p) \<and>
    wp_workers p' = wp_workers p \<and>
    (\<forall>x<length (wp_queues p). wview p' x = wview p x @ (if x = i then [Some j] else []))"
proof -
  have q: "queue_ok c (wp_queues p ! i)" using assms by (simp add: wp_ok_def)
  then obtain q' where q': "jq_push_task c (Some j) (wp_queues p ! i) = Inr q'" "dr_ok c q'" "dr_view q' = wview p i @ [Some j]"
    using jq_push_ok [of c "wp_queues p ! i"] by (auto simp: queue_ok_def)
  have "queue_ok c q'" using q q'(2,3) by (simp add: queue_ok_def no_null_def)
  then have "\<forall>r\<in>set ((wp_queues p)[i := q']). queue_ok c r" using assms(1) set_update_subset_insert [of "wp_queues p" i q']
    by (auto simp: wp_ok_def)
  then show ?thesis using assms q' by (simp add: wp_push_at_def wp_ok_def nth_list_update)
qed

lemma next_ok: "start_ok n self i \<Longrightarrow> start_ok n self (wp_next n self i)"
proof (cases self)
  case (Some s)
  assume a: "start_ok n self i"
  then have "s < n" "2 \<le> n" using Some by (auto simp: start_ok_def)
  then have "(s + 1) mod n \<noteq> s" by (metis Suc_eq_plus1 mod_Suc mod_less n_not_Suc_n not_numeral_le_zero Suc_1 One_nat_def Suc_le_eq less_irrefl_nat)
  then show ?thesis using Some \<open>s < n\<close> by (auto simp: start_ok_def wp_next_def Let_def)
qed (auto simp: start_ok_def wp_next_def Let_def)

lemma add_loop_ok:
  "wp_ok c p \<Longrightarrow> start_ok (length (wp_queues p)) self i \<Longrightarrow>
   \<exists>p'. wp_add_tasks_loop c self k i (Some j) p = Inr p' \<and> wp_ok c p' \<and> length (wp_queues p') = length (wp_queues p) \<and>
     (\<forall>x<length (wp_queues p). wview p' x = wview p x @ replicate (count_list (wp_targets (length (wp_queues p)) self k i) x) (Some j))"
proof (induction k arbitrary: p i)
  case 0
  then show ?case using push_at_ok [of c p i j] by (auto simp: wp_add_task_without_wake_up_def start_ok_def split: option.splits)
next
  case (Suc k)
  let ?n = "length (wp_queues p)"
  have i: "i < ?n" "self \<noteq> Some i" using Suc.prems(2) by (auto simp: start_ok_def split: option.splits)
  obtain p1 where p1: "wp_push_at c i (Some j) p = Inr p1" "wp_ok c p1" "length (wp_queues p1) = ?n"
    "\<forall>x<?n. wview p1 x = wview p x @ (if x = i then [Some j] else [])"
    using push_at_ok [OF Suc.prems(1) i(1), of j] by blast
  have "start_ok (length (wp_queues p1)) self (wp_next ?n self i)" using next_ok [OF Suc.prems(2)] p1(3) by simp
  from Suc.IH [OF p1(2) this] obtain p2 where p2: "wp_add_tasks_loop c self k (wp_next ?n self i) (Some j) p1 = Inr p2" "wp_ok c p2"
    "length (wp_queues p2) = ?n"
    "\<forall>x<?n. wview p2 x = wview p1 x @ replicate (count_list (wp_targets ?n self k (wp_next ?n self i)) x) (Some j)"
    unfolding p1(3) by blast
  have "wp_add_tasks_loop c self (Suc k) i (Some j) p = Inr p2"
    using p1(1) p2(1) i by (simp add: wp_add_task_without_wake_up_def)
  then show ?case using p2 p1(4) by auto
qed

lemma targets_within: "start_ok n self i \<Longrightarrow> set (wp_targets n self k i) \<subseteq> {..<n} \<and> (\<forall>s. self = Some s \<longrightarrow> s \<notin> set (wp_targets n self k i))"
proof (induction k arbitrary: i)
  case (Suc k)
  then show ?case using Suc.IH [OF next_ok [OF Suc.prems]] by (auto simp: start_ok_def split: option.splits)
qed (auto simp: start_ok_def)

lemma length_targets [simp]: "length (wp_targets n self k i) = Suc k"
  by (induction k arbitrary: i) simp_all



section \<open>Waking\<close>

lemma wake_loop_ok:
  "\<forall>i\<in>set is. seen i \<noteq> 0 \<Longrightarrow> 0 < left \<Longrightarrow> wp_wake_loop is asleep seen left woken =
    (if left \<le> length (filter asleep is) then (woken @ take left (filter asleep is), None)
     else (woken @ filter asleep is, Some (left - length (filter asleep is))))"
proof (induction "is" arbitrary: left woken)
  case (Cons i "is")
  have s: "seen i \<noteq> 0" "\<forall>i\<in>set is. seen i \<noteq> 0" using Cons.prems(1) by simp_all
  show ?case
  proof (cases "asleep i")
    case True
    show ?thesis
    proof (cases "left \<le> 1")
      case True
      then have "left = 1" using Cons.prems(2) by simp
      then show ?thesis using \<open>asleep i\<close> by simp
    next
      case False
      then show ?thesis using Cons.IH [OF s(2), of "left - 1" "woken @ [i]"] s(1) \<open>asleep i\<close> by (auto simp: Let_def take_Cons')
    qed
  next
    case False
    then show ?thesis using Cons.IH [OF s(2) Cons.prems(2)] s(1) by (simp add: Let_def)
  qed
qed simp

lemma wake_loop_left: "0 < left \<Longrightarrow> wp_wake_loop is asleep seen left woken = (w, Some l) \<Longrightarrow> 0 < l"
proof (induction "is" arbitrary: left woken)
  case (Cons i "is")
  show ?case
  proof (cases "asleep i")
    case True
    then have "1 < left" using Cons.prems(2) by (auto split: if_splits)
    then show ?thesis using Cons.IH [of "left - 1" "woken @ [i]"] Cons.prems(2) True by (auto simp: Let_def split: if_splits)
  next
    case False
    then show ?thesis using Cons.IH [of left woken] Cons.prems by (auto simp: Let_def split: if_splits)
  qed
qed simp

lemma find_Some_in: "find P xs = Some x \<Longrightarrow> x \<in> set xs \<and> P x"
  by (induction xs) (auto split: if_splits)

lemma find_free_ok: "wp_find_free i p = Some k \<Longrightarrow> k < length (wp_queues p) \<and> jq_is_maybe_empty (wp_queues p ! k)"
  unfolding wp_find_free_def Let_def by (drule find_Some_in) (auto intro: mod_less_divisor)

lemma update_ok: "wp_ok c p \<Longrightarrow> wp_ok c (wp_update i p) \<and> wp_queues (wp_update i p) = wp_queues p \<and> wp_main (wp_update i p) = wp_main p"
  using find_free_ok [of i p] by (auto simp: wp_update_def wp_ok_def split: option.splits)

lemma wake_up_ok:
  assumes "wp_ok c p" "0 < left"
  shows "\<exists>woken n p'. wp_wake_up e left i p = Inr (woken, n, p') \<and> wp_ok c p' \<and> wp_queues p' = wp_queues p"
proof -
  obtain w l where "wp_wake_loop (around (length (wp_queues p)) i) (we_asleep e) (we_seen e) left [] = (w, l)" by fastforce
  then show ?thesis using wake_loop_left [OF assms(2)] update_ok [OF assms(1)] assms(1)
    by (cases l) (auto simp: wp_wake_up_def)
qed

lemma companions_unsigned: "wp_companions e left = (if 0 < sint (we_needed e) \<and> we_needed e \<noteq> we_active e then left else 0)"
  by (simp add: wp_companions_def word_neq_0_conv [symmetric])

lemma spread_ok:
  assumes "wp_ok c p" and "start_ok (length (wp_queues p)) self first" and "0 < cnt"
  shows "\<exists>woken n p' k. wp_add_tasks c self e first cnt j p = Inr (woken, n, p') \<and> wp_ok c p' \<and> (\<Sum>x<length (wp_queues p). k x) = cnt \<and>
    (\<forall>x<length (wp_queues p). wview p' x = wview p x @ replicate (k x) (Some j) \<and>
      (if self = Some x then k x = 0
       else k x \<in> {cnt div num_others (length (wp_queues p)) self, cnt div num_others (length (wp_queues p)) self + 1}))"
proof -
  let ?n = "length (wp_queues p)"
  define k where "k = count_list (wp_targets ?n self (cnt - 1) first)"
  obtain p1 where p1: "wp_add_tasks_loop c self (cnt - 1) first (Some j) p = Inr p1" "wp_ok c p1"
    "\<forall>x<?n. wview p1 x = wview p x @ replicate (k x) (Some j)"
    using add_loop_ok [OF assms(1,2), of "cnt - 1" j] by (auto simp: k_def)
  then obtain woken n p' where p': "wp_add_tasks c self e first cnt j p = Inr (woken, n, p')" "wp_ok c p'"
    "\<forall>x<?n. wview p' x = wview p x @ replicate (k x) (Some j)"
    using wake_up_ok [OF p1(2) assms(3), of e first] by (auto simp: wp_add_tasks_def)
  have within: "set (wp_targets ?n self (cnt - 1) first) \<subseteq> {..<?n}" "\<And>s. self = Some s \<Longrightarrow> s \<notin> set (wp_targets ?n self (cnt - 1) first)"
    using targets_within [OF assms(2)] by blast+
  have "sum k {..<?n} = cnt" using sum_count_set [OF within(1)] assms(3) by (simp add: k_def)
  moreover have "if self = Some x then k x = 0 else k x \<in> {cnt div num_others ?n self, cnt div num_others ?n self + 1}" if "x < ?n" for x
    using targets_count [OF assms(2) that, of "cnt - 1"] within(2) [of x] assms(3) by (simp add: k_def count_list_0_iff)
  ultimately show ?thesis using p' by blast
qed

text \<open>Without workers there is one queue, which takes everything, whoever adds it.\<close>

lemma add_loop_single:
  "wp_ok c p \<Longrightarrow> length (wp_queues p) = 1 \<Longrightarrow>
   \<exists>p'. wp_add_tasks_loop c self k 0 (Some j) p = Inr p' \<and> wp_ok c p' \<and> length (wp_queues p') = 1 \<and>
     wview p' 0 = wview p 0 @ replicate (Suc k) (Some j)"
proof (induction k arbitrary: p)
  case 0
  then show ?case using push_at_ok [of c p 0 j] by (auto simp: wp_add_task_without_wake_up_def wp_ok_def)
next
  case (Suc k)
  obtain p1 where p1: "wp_push_at c 0 (Some j) p = Inr p1" "wp_ok c p1" "length (wp_queues p1) = 1"
    "wview p1 0 = wview p 0 @ [Some j]"
    using push_at_ok [OF Suc.prems(1), of 0 j] Suc.prems(2) by auto
  have "wp_workers p1 = 0" using p1(2,3) by (simp add: wp_ok_def)
  then have one: "wp_add_task_without_wake_up c self 0 (Some j) p = Inr p1"
    using p1(1) Suc.prems(2) by (simp add: wp_add_task_without_wake_up_def)
  have "wp_next (length (wp_queues p)) self 0 = 0" using Suc.prems(2) by (simp add: wp_next_def Let_def)
  then show ?case using Suc.IH [OF p1(2,3)] one p1(4) by auto
qed



text \<open>
  A single task goes to another queue than the caller's whenever there is one, the one known to be without
  work if there is such a hint; the assertion never fails.
\<close>

lemma push_task_elsewhere:
  assumes ok: "wp_ok c p" and n: "2 \<le> length (wp_queues p)"
  shows "\<exists>i woken m p'. wp_push_task c self e r (Some j) p = Inr (i, woken, m, p') \<and> self \<noteq> Some i \<and> i < length (wp_queues p) \<and> wp_ok c p' \<and>
    (\<forall>x<length (wp_queues p). wview p' x = wview p x @ (if x = i then [Some j] else [])) \<and>
    (\<forall>k. wp_jobless p = Some k \<and> self \<noteq> Some k \<longrightarrow> i = k)"
proof -
  obtain i p1 where u: "wp_use_next self r p = (i, p1)" by (cases "wp_use_next self r p")
  have i: "i < length (wp_queues p)" "self \<noteq> Some i" "wp_queues p1 = wp_queues p" "wp_ok c p1"
    "\<forall>k. wp_jobless p = Some k \<and> self \<noteq> Some k \<longrightarrow> i = k"
  proof -
    have "0 < length (wp_queues p)" using n by linarith
    then have a: "wp_random_except self r (length (wp_queues p)) < length (wp_queues p)"
      by (simp add: wp_random_except_def Let_def)
    have "(r mod length (wp_queues p) + 1) mod length (wp_queues p) \<noteq> r mod length (wp_queues p)"
      using n by (simp add: mod_Suc)
    then have b: "self \<noteq> Some (wp_random_except self r (length (wp_queues p)))"
      by (auto simp: wp_random_except_def Let_def)
    show "i < length (wp_queues p)" "self \<noteq> Some i" "wp_queues p1 = wp_queues p" "wp_ok c p1"
      "\<forall>k. wp_jobless p = Some k \<and> self \<noteq> Some k \<longrightarrow> i = k"
      using u a b ok by (auto simp: wp_use_next_def wp_use_jobless_def wp_ok_def split: option.splits if_splits)
  qed
  obtain p2 where p2: "wp_push_at c i (Some j) p1 = Inr p2" "wp_ok c p2"
    "\<forall>x<length (wp_queues p). wview p2 x = wview p x @ (if x = i then [Some j] else [])"
    using push_at_ok [OF i(4), of i j] i(1,3) by auto
  obtain woken m p' where "wp_wake_up e 1 i p2 = Inr (woken, m, p')" "wp_ok c p'" "wp_queues p' = wp_queues p2"
    using wake_up_ok [OF p2(2), of 1 e i] by auto
  then show ?thesis using u i p2 by (auto simp: wp_push_task_def)
qed


text \<open>
  \<^verbatim>\<open>WakeUp\<close> wakes the first sleeping workers around from the given queue, as many as there are
  tasks or sleeping workers, as long as the counter of waiting threads does not drop to zero; what is left then is
  notified to companions if some are needed and another number of them is active.
\<close>

theorem wake_up_wakes_sleepers:
  assumes "wp_ok c p" and "0 < left" and "\<forall>k<length (wp_queues p). we_seen e k \<noteq> 0"
  shows "\<exists>woken n p'. wp_wake_up e left i p = Inr (woken, n, p') \<and> wp_ok c p' \<and>
    woken = take left (filter (we_asleep e) (around (length (wp_queues p)) i)) \<and>
    n = (if 0 < sint (we_needed e) \<and> we_needed e \<noteq> we_active e then left - length woken else 0)"
proof -
  let ?is = "around (length (wp_queues p)) i"
  have "0 < length (wp_queues p)" using assms(1) by (simp add: wp_ok_def)
  then have "\<forall>k\<in>set ?is. we_seen e k \<noteq> 0" using assms(3) by (auto simp: around_def)
  from wake_loop_ok [OF this assms(2), of "we_asleep e" "[]"] show ?thesis
    using update_ok [OF assms(1)] assms by (auto simp: wp_wake_up_def companions_unsigned)
qed


section \<open>Stealing everything\<close>

abbreviation sview :: "wsteal \<Rightarrow> nat \<Rightarrow> job_work list" where
  "sview s i \<equiv> dr_view (ws_queues s ! i)"

text \<open>The tasks that jobs still to be run push into some queues, and what these queues hold or will hold.\<close>

definition pushed :: "nat set \<Rightarrow> pushes \<Rightarrow> job_work list" where
  "pushed X ws = map snd (filter (\<lambda>(x, w). x \<in> X) ws)"

lemma pushed_simps [simp]: "pushed X [] = []" "pushed X (ws @ ws') = pushed X ws @ pushed X ws'"
  "pushed X ((x, w) # ws) = (if x \<in> X then w # pushed X ws else pushed X ws)"
  by (simp_all add: pushed_def)

definition ws_pool :: "nat set \<Rightarrow> wsteal \<Rightarrow> job_work multiset" where
  "ws_pool X s = (\<Sum>x\<in>X. mset (sview s x)) + mset (pushed X (concat (ws_script s)))"

definition ws_total :: "nat set \<Rightarrow> wsteal \<Rightarrow> job_work multiset" where
  "ws_total X s = mset (map Some (ws_jobs s)) + ws_pool X s"

definition script_ok :: "nat \<Rightarrow> pushes list \<Rightarrow> bool" where
  "script_ok n script \<longleftrightarrow> (\<forall>(x, w)\<in>set (concat script). x < n \<and> w \<noteq> None)"

definition ws_ok :: "nat \<Rightarrow> nat set \<Rightarrow> wsteal \<Rightarrow> bool" where
  "ws_ok c X s \<longleftrightarrow> X \<subseteq> {..<length (ws_queues s)} \<and> (\<forall>q\<in>set (ws_queues s). queue_ok c q) \<and>
     script_ok (length (ws_queues s)) (ws_script s)"

text \<open>What a part of the loop does: tasks only move to those run, and the flags tell whether some did.\<close>

definition ws_same :: "nat set \<Rightarrow> wsteal \<Rightarrow> wsteal \<Rightarrow> bool" where
  "ws_same X s s' \<longleftrightarrow> length (ws_queues s') = length (ws_queues s) \<and> ws_total X s' = ws_total X s \<and>
    (\<forall>x<length (ws_queues s). x \<notin> X \<longrightarrow> sview s' x @ pushed {x} (concat (ws_script s')) = sview s x @ pushed {x} (concat (ws_script s))) \<and>
    (\<exists>k. length (ws_jobs s') = length (ws_jobs s) + k \<and> ws_script s' = drop k (ws_script s))"

definition ws_flags :: "wsteal \<Rightarrow> wsteal \<Rightarrow> bool" where
  "ws_flags s s' \<longleftrightarrow> (ws_dirty s \<longrightarrow> ws_dirty s') \<and>
    (ws_dirty s' \<longrightarrow> ws_dirty s \<or> length (ws_jobs s) < length (ws_jobs s')) \<and>
    (ws_more s' \<longrightarrow> ws_more s \<or> length (ws_jobs s) < length (ws_jobs s')) \<and>
    (\<not> ws_dirty s' \<longrightarrow> ws_queues s' = ws_queues s)"

definition ws_rel :: "nat set \<Rightarrow> wsteal \<Rightarrow> wsteal \<Rightarrow> bool" where
  "ws_rel X s s' \<longleftrightarrow> ws_same X s s' \<and> ws_flags s s'"

lemma ws_same_refl: "ws_same X s s"
  by (auto simp: ws_same_def intro: exI [of _ 0])

lemma ws_rel_refl: "ws_rel X s s"
  by (simp add: ws_rel_def ws_same_refl ws_flags_def)

lemma ws_same_trans:
  assumes "ws_same X a b" "ws_same X b d"
  shows "ws_same X a d"
proof -
  obtain k where k: "length (ws_jobs b) = length (ws_jobs a) + k" "ws_script b = drop k (ws_script a)"
    using assms(1) by (auto simp: ws_same_def)
  obtain l where l: "length (ws_jobs d) = length (ws_jobs b) + l" "ws_script d = drop l (ws_script b)"
    using assms(2) by (auto simp: ws_same_def)
  have "length (ws_jobs d) = length (ws_jobs a) + (l + k) \<and> ws_script d = drop (l + k) (ws_script a)"
    using k l by simp
  then have "\<exists>m. length (ws_jobs d) = length (ws_jobs a) + m \<and> ws_script d = drop m (ws_script a)" by blast
  then show ?thesis using assms unfolding ws_same_def by simp
qed

lemma ws_same_jobs: "ws_same X s s' \<Longrightarrow> length (ws_jobs s) \<le> length (ws_jobs s')"
  by (auto simp: ws_same_def)

lemma ws_rel_trans:
  assumes "ws_rel X a b" "ws_rel X b d"
  shows "ws_rel X a d"
proof -
  have j: "length (ws_jobs a) \<le> length (ws_jobs b)" "length (ws_jobs b) \<le> length (ws_jobs d)"
    using assms ws_same_jobs by (auto simp: ws_rel_def)
  have "ws_flags a d" using assms j unfolding ws_rel_def ws_flags_def by (metis le_less_trans less_le_trans)
  then show ?thesis using assms ws_same_trans unfolding ws_rel_def by blast
qed

text \<open>What is left shrinks with every job that is run.\<close>

lemma ws_pool_shrinks:
  assumes "ws_same X s s'" "length (ws_jobs s) < length (ws_jobs s')"
  shows "size (ws_pool X s') < size (ws_pool X s)"
proof -
  have "size (ws_total X s') = size (ws_total X s)" using assms(1) by (simp add: ws_same_def)
  then show ?thesis using assms(2) by (simp add: ws_total_def)
qed

lemma sum_changed: "finite X \<Longrightarrow> i \<in> X \<Longrightarrow> (\<And>x. x \<in> X \<Longrightarrow> x \<noteq> i \<Longrightarrow> g x = f x) \<Longrightarrow> sum g X + f i = sum f X + (g i :: 'a :: comm_monoid_add)"
proof -
  assume a: "finite X" "i \<in> X" "\<And>x. x \<in> X \<Longrightarrow> x \<noteq> i \<Longrightarrow> g x = f x"
  have "sum g (X - {i}) = sum f (X - {i})" using a(3) by (intro sum.cong) auto
  then show ?thesis using sum.remove [OF a(1,2), of g] sum.remove [OF a(1,2), of f] by (simp add: ac_simps)
qed

lemma sum_pushed: "finite X \<Longrightarrow> (\<Sum>x\<in>X. mset (pushed {x} ws)) = mset (pushed X ws)"
proof (induction ws)
  case (Cons a ws)
  obtain y w where a: "a = (y, w)" by (cases a)
  have "(\<Sum>x\<in>X. mset (pushed {x} (a # ws))) = (\<Sum>x\<in>X. (if x = y then {#w#} else {#}) + mset (pushed {x} ws))"
    unfolding a by (intro sum.cong) auto
  also have "\<dots> = (\<Sum>x\<in>X. if x = y then {#w#} else {#}) + (\<Sum>x\<in>X. mset (pushed {x} ws))" by (rule sum.distrib)
  finally show ?case using Cons a by (simp add: sum.delta)
qed simp

lemma arrive_ok:
  "\<forall>q\<in>set qs. queue_ok c q \<Longrightarrow> \<forall>(x, w)\<in>set ws. x < length qs \<and> w \<noteq> None \<Longrightarrow>
   \<exists>qs'. wp_arrive c ws qs = Inr qs' \<and> length qs' = length qs \<and> (\<forall>q\<in>set qs'. queue_ok c q) \<and>
     (\<forall>x<length qs. dr_view (qs' ! x) = dr_view (qs ! x) @ pushed {x} ws)"
proof (induction ws arbitrary: qs)
  case (Cons a ws)
  obtain y w where a: "a = (y, w)" by (cases a)
  have y: "y < length qs" "w \<noteq> None" using Cons.prems(2) a by auto
  then have q: "dr_ok c (qs ! y)" "no_null (qs ! y)" using Cons.prems(1) by (auto simp: queue_ok_def)
  obtain q' where q': "jq_push_task c w (qs ! y) = Inr q'" "dr_ok c q'" "dr_view q' = dr_view (qs ! y) @ [w]"
    using jq_push_ok [OF q(1)] by blast
  have "queue_ok c q'" using q(2) q'(2,3) y(2) by (auto simp: queue_ok_def no_null_def)
  then have all: "\<forall>q\<in>set (qs[y := q']). queue_ok c q" using Cons.prems(1) set_update_subset_insert [of qs y q'] by auto
  have "\<forall>(x, w)\<in>set ws. x < length (qs[y := q']) \<and> w \<noteq> None" using Cons.prems(2) by auto
  from Cons.IH [OF all this] obtain qs' where qs': "wp_arrive c ws (qs[y := q']) = Inr qs'" "length qs' = length qs"
    "\<forall>q\<in>set qs'. queue_ok c q" "\<forall>x<length qs. dr_view (qs' ! x) = dr_view (qs[y := q'] ! x) @ pushed {x} ws" by auto
  have "dr_view (qs' ! x) = dr_view (qs ! x) @ pushed {x} (a # ws)" if "x < length qs" for x
    using qs'(4) that q'(3) y(1) a by (cases "x = y") auto
  then show ?case using qs'(1-3) q'(1) y(1) a by auto
qed simp

text \<open>A task taken from a queue runs, and what it pushes arrives.\<close>

lemma stolen_ok:
  assumes "ws_ok c X s" "i \<in> X" "sview s i = ws @ [Some j]" "dr_ok c q" "dr_view q = ws"
  shows "\<exists>s'. wp_ran c (Some j) (s\<lparr>ws_queues := (ws_queues s)[i := q]\<rparr>) = Inr s' \<and>
    ws_ok c X (s'\<lparr>ws_dirty := d, ws_more := m\<rparr>) \<and> ws_same X s (s'\<lparr>ws_dirty := d, ws_more := m\<rparr>) \<and>
    ws_jobs s' = ws_jobs s @ [j] \<and> ws_hints s' = ws_hints s \<and> ws_force s' = ws_force s \<and> ws_dirty s' = ws_dirty s \<and>
    ws_more s' = ws_more s"
proof -
  let ?n = "length (ws_queues s)" and ?qs = "(ws_queues s)[i := q]" and ?ws = "ws_next s"
  have X: "i < ?n" "X \<subseteq> {..<?n}" "queue_ok c (ws_queues s ! i)" using assms(1,2) by (auto simp: ws_ok_def)
  then have fin: "finite X" using finite_subset by blast
  have "queue_ok c q" using X(3) assms(3-5) by (simp add: queue_ok_def no_null_def)
  then have qs: "\<forall>q\<in>set ?qs. queue_ok c q"
    using assms(1) set_update_subset_insert [of "ws_queues s" i q] by (auto simp: ws_ok_def)
  have con: "concat (ws_script s) = ?ws @ concat (tl (ws_script s))" by (cases "ws_script s") (auto simp: ws_next_def)
  have sc: "\<forall>(x, w)\<in>set ?ws. x < length ?qs \<and> w \<noteq> None" "script_ok ?n (tl (ws_script s))"
    using assms(1) by (auto simp: ws_ok_def script_ok_def con)
  obtain qs' where qs': "wp_arrive c ?ws ?qs = Inr qs'" "length qs' = ?n" "\<forall>q\<in>set qs'. queue_ok c q"
    "\<forall>x<?n. dr_view (qs' ! x) = dr_view (?qs ! x) @ pushed {x} ?ws" using arrive_ok [OF qs sc(1)] by auto
  let ?t = "s\<lparr>ws_queues := qs', ws_jobs := ws_jobs s @ [j], ws_script := tl (ws_script s)\<rparr>"
  let ?u = "?t\<lparr>ws_dirty := d, ws_more := m\<rparr>"
  have ran: "wp_ran c (Some j) (s\<lparr>ws_queues := ?qs\<rparr>) = Inr ?t" using qs'(1) by (simp add: wp_ran_def ws_next_def)
  have ok: "ws_ok c X ?u" using X(2) qs'(2,3) sc(2) by (simp add: ws_ok_def)
  have v: "sview ?u x = (if x = i then ws else sview s x) @ pushed {x} ?ws" if "x < ?n" for x
    using qs'(4) that assms(5) X(1) by simp
  have "(\<Sum>x\<in>X. mset (sview ?u x)) = (\<Sum>x\<in>X. mset (if x = i then ws else sview s x) + mset (pushed {x} ?ws))"
    by (intro sum.cong) (use v X(2) in auto)
  also have "\<dots> = (\<Sum>x\<in>X. mset (if x = i then ws else sview s x)) + mset (pushed X ?ws)"
    by (simp only: sum.distrib sum_pushed [OF fin])
  finally have s1: "(\<Sum>x\<in>X. mset (sview ?u x)) = (\<Sum>x\<in>X. mset (if x = i then ws else sview s x)) + mset (pushed X ?ws)" .
  have "(\<Sum>x\<in>X. mset (if x = i then ws else sview s x)) + mset (sview s i) =
      (\<Sum>x\<in>X. mset (sview s x)) + mset (if i = i then ws else sview s i)"
    by (rule sum_changed [OF fin assms(2)]) simp
  then have s2: "(\<Sum>x\<in>X. mset (if x = i then ws else sview s x)) + {#Some j#} = (\<Sum>x\<in>X. mset (sview s x))"
    using assms(3) by simp
  have "ws_total X ?u = ws_total X s"
    unfolding ws_total_def ws_pool_def s1 con using s2 [symmetric] by simp
  moreover have "\<exists>k. length (ws_jobs ?u) = length (ws_jobs s) + k \<and> ws_script ?u = drop k (ws_script s)"
    by (rule exI [of _ 1]) (simp add: drop_Suc)
  moreover have "sview ?u x @ pushed {x} (concat (ws_script ?u)) = sview s x @ pushed {x} (concat (ws_script s))"
    if "x < ?n" "x \<notin> X" for x using v [OF that(1)] that(2) assms(2) con by auto
  ultimately have "ws_same X s ?u" using qs'(2) by (simp add: ws_same_def)
  then show ?thesis using ran ok by auto
qed

lemma try_ok:
  assumes "ws_ok c X s" "i \<in> X"
  shows "\<exists>s'. wp_try c held i s = Inr s' \<and> ws_ok c X s' \<and> ws_rel X s s' \<and> ws_hints s - {i} \<subseteq> ws_hints s' \<and>
    (i \<in> ws_hints s \<longrightarrow> ws_force s' = (ws_force s \<or> held i)) \<and>
    ((ws_force s \<or> \<not> held i) \<and> i \<in> ws_hints s \<and> \<not> ws_dirty s' \<longrightarrow> sview s i = [])"
proof (cases "i \<in> ws_hints s")
  case False
  then show ?thesis using assms ws_rel_refl by (simp add: wp_try_def)
next
  case hint: True
  have q: "dr_ok c (ws_queues s ! i)" "no_null (ws_queues s ! i)" "i < length (ws_queues s)"
    using assms by (auto simp: ws_ok_def queue_ok_def)
  have rel: "ws_rel X s (s\<lparr>ws_hints := g, ws_force := f\<rparr>)" for g f
    by (auto simp: ws_rel_def ws_same_def ws_total_def ws_pool_def ws_flags_def intro: exI [of _ 0])
  show ?thesis
  proof (cases "ws_force s \<or> \<not> held i")
    case False
    then have "wp_try c held i s = Inr (s\<lparr>ws_force := True\<rparr>)" using hint by (simp add: wp_try_def jq_steal_def wp_ran_def)
    then show ?thesis using assms False rel [of True "ws_hints s"] by (simp add: ws_ok_def)
  next
    case go: True
    note st = jq_steal_ok [OF q(1,2) go]
    show ?thesis
    proof (cases "sview s i" rule: rev_cases)
      case Nil
      then have "wp_try c held i s = Inr (s\<lparr>ws_hints := ws_hints s - {i}\<rparr>)" using hint st by (simp add: wp_try_def wp_ran_def)
      then show ?thesis using assms Nil go rel [of "ws_force s" "ws_hints s - {i}"] by (auto simp: ws_ok_def)
    next
      case (snoc ws w)
      then obtain j where w: "w = Some j" using q(2) by (cases w) (auto simp: no_null_def)
      then obtain q' where q': "jq_steal c (ws_force s) (held i) (ws_queues s ! i) = Inr (waiting_plus (ws = []), Some j, q')"
        "dr_ok c q'" "dr_view q' = ws" using st snoc by auto
      define m where "m = (ws_more s \<or> ws \<noteq> [])"
      obtain s' where s': "wp_ran c (Some j) (s\<lparr>ws_queues := (ws_queues s)[i := q']\<rparr>) = Inr s'"
        "ws_ok c X (s'\<lparr>ws_dirty := True, ws_more := m\<rparr>)" "ws_same X s (s'\<lparr>ws_dirty := True, ws_more := m\<rparr>)"
        "ws_jobs s' = ws_jobs s @ [j]" "ws_hints s' = ws_hints s" "ws_force s' = ws_force s" "ws_dirty s' = ws_dirty s"
        "ws_more s' = ws_more s" using stolen_ok [OF assms snoc [unfolded w] q'(2,3), of m True] by blast
      let ?s = "s'\<lparr>ws_dirty := True, ws_more := m\<rparr>"
      have t: "wp_try c held i s = Inr ?s"
      proof (cases "ws = []")
        case True
        then have "?s = s'\<lparr>ws_dirty := True\<rparr>" using s'(8) by (simp add: m_def)
        then show ?thesis using hint q'(1) s'(1) True by (simp add: wp_try_def)
      next
        case False
        then have "?s = s'\<lparr>ws_more := True, ws_dirty := True\<rparr>" by (simp add: m_def)
        then show ?thesis using hint q'(1) s'(1) False by (simp add: wp_try_def)
      qed
      have "ws_rel X s ?s" using s'(3,4) by (simp add: ws_rel_def ws_flags_def)
      then show ?thesis using t s'(2,5,6) go by auto
    qed
  qed
qed

text \<open>
  A round in which nothing was found saw every queue empty, but the first that was locked: from then
  on locks are forced.
\<close>

lemma round_ok:
  "ws_ok c X s \<Longrightarrow> set is \<subseteq> X \<Longrightarrow> distinct is \<Longrightarrow>
   \<exists>s'. wp_round c held is s = Inr s' \<and> ws_ok c X s' \<and> ws_rel X s s' \<and>
     (\<not> ws_dirty s' \<and> set is \<subseteq> ws_hints s \<longrightarrow> (\<forall>i\<in>set is. ws_force s \<or> find held is \<noteq> Some i \<longrightarrow> sview s i = []))"
proof (induction "is" arbitrary: s)
  case Nil
  then show ?case using ws_rel_refl by simp
next
  case (Cons i "is")
  obtain s1 where s1: "wp_try c held i s = Inr s1" "ws_ok c X s1" "ws_rel X s s1" "ws_hints s - {i} \<subseteq> ws_hints s1"
    "i \<in> ws_hints s \<longrightarrow> ws_force s1 = (ws_force s \<or> held i)"
    "(ws_force s \<or> \<not> held i) \<and> i \<in> ws_hints s \<and> \<not> ws_dirty s1 \<longrightarrow> sview s i = []"
    using try_ok [OF Cons.prems(1), of i held] Cons.prems(2) by auto
  obtain s2 where s2: "wp_round c held is s1 = Inr s2" "ws_ok c X s2" "ws_rel X s1 s2"
    "\<not> ws_dirty s2 \<and> set is \<subseteq> ws_hints s1 \<longrightarrow> (\<forall>i\<in>set is. ws_force s1 \<or> find held is \<noteq> Some i \<longrightarrow> sview s1 i = [])"
    using Cons.IH [OF s1(2)] Cons.prems by auto
  have "sview s x = []"
    if d: "\<not> ws_dirty s2" "set (i # is) \<subseteq> ws_hints s" "x \<in> set (i # is)" "ws_force s \<or> find held (i # is) \<noteq> Some x" for x
  proof -
    have c: "\<not> ws_dirty s1" "set is \<subseteq> ws_hints s1" "i \<in> ws_hints s" "ws_queues s1 = ws_queues s"
      using d(1,2) s1(3,4) s2(3) Cons.prems(3) by (auto simp: ws_rel_def ws_flags_def)
    show ?thesis
    proof (cases "x = i")
      case True
      then have "ws_force s \<or> \<not> held i" using d(4) by auto
      then show ?thesis using s1(6) c True by blast
    next
      case False
      then have "ws_force s1 \<or> find held is \<noteq> Some x" using d(4) s1(5) c(3) by (auto split: if_splits)
      then have "sview s1 x = []" using s2(4) d(1,3) c(2) False by auto
      then show ?thesis using c(4) by simp
    qed
  qed
  then show ?case using s1(1) s2(1,2) ws_rel_trans [OF s1(3) s2(3)] by auto
qed

lemma rounds_ok:
  assumes "set is \<subseteq> X" "distinct is"
  shows "ws_ok c X s \<Longrightarrow>
   \<exists>s'. wp_rounds c held is s = Some (Inr s') \<and> ws_ok c X s' \<and> ws_rel X (s\<lparr>ws_more := False\<rparr>) s' \<and>
     (\<not> ws_dirty s' \<and> set is \<subseteq> ws_hints s \<longrightarrow> (\<forall>i\<in>set is. ws_force s \<or> find held is \<noteq> Some i \<longrightarrow> sview s i = []))"
proof (induction "size (ws_pool X s)" arbitrary: s rule: less_induct)
  case less
  let ?s = "s\<lparr>ws_more := False\<rparr>"
  have "ws_ok c X ?s" using less.prems by (simp add: ws_ok_def)
  then obtain s1 where s1: "wp_round c held is ?s = Inr s1" "ws_ok c X s1" "ws_rel X ?s s1"
    "\<not> ws_dirty s1 \<and> set is \<subseteq> ws_hints s \<longrightarrow> (\<forall>i\<in>set is. ws_force s \<or> find held is \<noteq> Some i \<longrightarrow> sview s i = [])"
    using round_ok [OF _ assms, of c ?s held] by auto
  show ?case
  proof (cases "ws_more s1")
    case False
    then show ?thesis using s1 by (simp add: wp_rounds.simps [of c held "is" s])
  next
    case True
    then have "size (ws_pool X s1) < size (ws_pool X ?s)" using s1(3) ws_pool_shrinks by (simp add: ws_rel_def ws_flags_def)
    then have "size (ws_pool X s1) < size (ws_pool X s)" by (simp add: ws_pool_def)
    from less.hyps [OF this s1(2)] obtain s2 where s2: "wp_rounds c held is s1 = Some (Inr s2)" "ws_ok c X s2"
      "ws_rel X (s1\<lparr>ws_more := False\<rparr>) s2" by blast
    have "ws_rel X s1 (s1\<lparr>ws_more := False\<rparr>)"
      by (auto simp: ws_rel_def ws_same_def ws_total_def ws_pool_def ws_flags_def intro: exI [of _ 0])
    then have rel: "ws_rel X s1 s2" using ws_rel_trans s2(3) by blast
    then have "\<not> ws_dirty s2 \<longrightarrow> \<not> ws_dirty s1" by (auto simp: ws_rel_def ws_flags_def)
    then show ?thesis using s1 s2(1,2) ws_rel_trans [OF s1(3) rel] True by (auto simp: wp_rounds.simps [of c held "is" s])
  qed
qed

lemma steal_all_ok:
  assumes "distinct is"
  shows "ws_ok c (set is) s \<Longrightarrow>
   \<exists>s'. wp_steal_all c held is s = Some (Inr s') \<and> ws_ok c (set is) s' \<and> ws_same (set is) s s' \<and>
     (\<forall>i\<in>set is. find held is \<noteq> Some i \<longrightarrow> sview s' i = [])"
proof (induction "size (ws_pool (set is) s)" arbitrary: s rule: less_induct)
  case less
  let ?s = "s\<lparr>ws_dirty := False, ws_hints := set is, ws_force := False\<rparr>"
  have "ws_ok c (set is) ?s" using less.prems by (simp add: ws_ok_def)
  then obtain s1 where s1: "wp_rounds c held is ?s = Some (Inr s1)" "ws_ok c (set is) s1" "ws_rel (set is) (?s\<lparr>ws_more := False\<rparr>) s1"
    "\<not> ws_dirty s1 \<longrightarrow> (\<forall>i\<in>set is. find held is \<noteq> Some i \<longrightarrow> sview s i = [])"
    using rounds_ok [OF subset_refl assms, of c ?s held] by auto
  have same: "ws_same (set is) s s1" using s1(3) by (simp add: ws_rel_def ws_same_def ws_total_def ws_pool_def)
  show ?case
  proof (cases "ws_dirty s1")
    case False
    then have "ws_queues s1 = ws_queues s" using s1(3) by (simp add: ws_rel_def ws_flags_def)
    then show ?thesis using False s1 same by (simp add: wp_steal_all.simps [of c held "is" s])
  next
    case True
    then have "length (ws_jobs s) < length (ws_jobs s1)" using s1(3) by (simp add: ws_rel_def ws_flags_def)
    from less.hyps [OF ws_pool_shrinks [OF same this] s1(2)] obtain s2 where s2: "wp_steal_all c held is s1 = Some (Inr s2)" "ws_ok c (set is) s2"
      "ws_same (set is) s1 s2" "\<forall>i\<in>set is. find held is \<noteq> Some i \<longrightarrow> sview s2 i = []" by blast
    then show ?thesis using True s1(1) ws_same_trans [OF same s2(3)] by (simp add: wp_steal_all.simps [of c held "is" s])
  qed
qed

lemma others_ok: "i < n \<Longrightarrow> distinct (others n i) \<and> set (others n i) = {..<n} - {i}"
proof -
  assume i: "i < n"
  have inj: "inj_on (\<lambda>k. (i + k) mod n) {1..<n}" by (rule inj_onI) (simp add: add_mod_eq_iff)
  then have d: "distinct (others n i)" by (simp add: others_def distinct_map)
  have "(i + k) mod n \<noteq> i" if "k \<in> {1..<n}" for k using add_mod_eq_iff [of k n 0 i] that i by auto
  then have sub: "set (others n i) \<subseteq> {..<n} - {i}" by (auto simp: others_def)
  have "card (set (others n i)) = n - 1" using distinct_card [OF d] by (simp add: others_def)
  then have "set (others n i) = {..<n} - {i}" using i by (intro card_subset_eq sub) simp_all
  then show ?thesis using d by simp
qed

text \<open>
  C17: the loop in which a worker steals ends whatever the other queues hold and whatever the jobs it runs
  push into the queues, its own among them, as long as they push finitely much.  It asserts nothing, takes
  nothing from its own queue and runs each task it takes exactly once; at the end all other queues are
  empty, but for the first of them that another thread has locked all the time.
\<close>

theorem steal_empties_other_queues:
  assumes "wp_ok c p" and "i < length (wp_queues p)" and "script_ok (length (wp_queues p)) script"
  shows "\<exists>jobs p' ws. wp_steal c held script i p = Some (Inr (jobs, p')) \<and> wp_ok c p' \<and>
    length (wp_queues p') = length (wp_queues p) \<and> ws = concat (take (length jobs) script) \<and>
    wview p' i = wview p i @ pushed {i} ws \<and>
    mset (map Some jobs) + (\<Sum>x\<in>{..<length (wp_queues p)} - {i}. mset (wview p' x)) =
      (\<Sum>x\<in>{..<length (wp_queues p)} - {i}. mset (wview p x)) + mset (pushed ({..<length (wp_queues p)} - {i}) ws) \<and>
    (\<forall>x<length (wp_queues p). x \<noteq> i \<and> find held (others (length (wp_queues p)) i) \<noteq> Some x \<longrightarrow> wview p' x = [])"
proof -
  let ?n = "length (wp_queues p)" and ?X = "{..<length (wp_queues p)} - {i}" and ?s = "ws_start p script"
  note o = others_ok [OF assms(2)]
  have "ws_ok c ?X ?s" using assms by (auto simp: ws_ok_def wp_ok_def ws_start_def)
  then obtain s' where s': "wp_steal_all c held (others ?n i) ?s = Some (Inr s')" "ws_ok c ?X s'" "ws_same ?X ?s s'"
    "\<forall>x\<in>?X. find held (others ?n i) \<noteq> Some x \<longrightarrow> sview s' x = []"
    using steal_all_ok [of "others ?n i" c ?s held] o by auto
  let ?ws = "concat (take (length (ws_jobs s')) script)"
  have len: "length (ws_queues s') = ?n" using s'(3) by (simp add: ws_same_def ws_start_def)
  have own0: "sview s' i @ pushed {i} (concat (ws_script s')) = sview ?s i @ pushed {i} (concat (ws_script ?s))"
    using s'(3) assms(2) len unfolding ws_same_def by simp
  have rest: "ws_script s' = drop (length (ws_jobs s')) script" using s'(3) by (auto simp: ws_same_def ws_start_def)
  have con: "concat script = ?ws @ concat (ws_script s')" unfolding rest by (metis append_take_drop_id concat_append)
  have ok: "wp_ok c (p\<lparr>wp_queues := ws_queues s'\<rparr>)" using s'(2) assms(1) len by (auto simp: wp_ok_def ws_ok_def)
  have run: "wp_steal c held script i p = Some (Inr (ws_jobs s', p\<lparr>wp_queues := ws_queues s'\<rparr>))"
    using s'(1) assms(2) by (simp add: wp_steal_def assertO_def)
  have "sview s' i @ pushed {i} (concat (ws_script s')) = wview p i @ pushed {i} (concat script)"
    using own0 by (simp add: ws_start_def)
  then have own: "sview s' i = wview p i @ pushed {i} ?ws" unfolding con by simp
  have "ws_total ?X s' = ws_total ?X ?s" using s'(3) by (simp add: ws_same_def)
  then have tot: "mset (map Some (ws_jobs s')) + (\<Sum>x\<in>?X. mset (sview s' x)) = (\<Sum>x\<in>?X. mset (wview p x)) + mset (pushed ?X ?ws)"
    unfolding ws_total_def ws_pool_def by (simp add: ws_start_def con)
  show ?thesis
    using run ok len own tot s'(4) by (intro exI [of _ "ws_jobs s'"] exI [of _ "p\<lparr>wp_queues := ws_queues s'\<rparr>"] exI [of _ ?ws]) simp
qed

text \<open>
  A queue that is locked at the only attempt is not tried again, although the worker then means to force the lock: with one other
  queue it gives up and keeps nothing.
\<close>

lemma locked_queue_given_up:
  assumes "length (wp_queues p) = 2"
  shows "wp_steal c (\<lambda>_. True) script 0 p = Some (Inr ([], p))"
proof -
  have o: "others 2 0 = [1]" by code_simp
  show ?thesis using assms
    by (simp add: wp_steal_def ws_start_def o wp_steal_all.simps [of c _ "[Suc 0]"] wp_rounds.simps [of c _ "[Suc 0]"] wp_try_def
        wp_ran_def jq_steal_def assertO_def)
qed

section \<open>Finding a job's tasks\<close>

lemma search_ok:
  assumes "wp_ok c p" "c \<le> 32"
  shows "set is \<subseteq> {..<length (wp_queues p)} \<Longrightarrow> distinct is \<Longrightarrow>
    (if \<exists>x\<in>set is. \<exists>w\<in>set (wview p x). mine j w
    then \<exists>k idx v xs ys p'. k \<in> set is \<and> wview p k = xs @ Some v # ys \<and> mine j (Some v) \<and> (\<forall>w\<in>set xs. \<not> mine j w) \<and>
      wp_search c j is p = Inr (idx, Some v, p') \<and> wp_ok c p' \<and> length (wp_queues p') = length (wp_queues p) \<and>
      wview p' k = xs @ ys \<and> (\<forall>x<length (wp_queues p). x \<noteq> k \<longrightarrow> wview p' x = wview p x) \<and>
      idx = (if ys \<noteq> [] then Some k else if k = last is then None else Some ((k + 1) mod length (wp_queues p)))
    else wp_search c j is p = Inr (None, None, p))"
proof (induction "is")
  case (Cons i "is")
  have i: "i < length (wp_queues p)" and q: "dr_ok c (wp_queues p ! i)" "no_null (wp_queues p ! i)"
    using Cons.prems(1) assms(1) by (auto simp: wp_ok_def queue_ok_def)
  show ?case
  proof (cases "\<exists>w\<in>set (wview p i). mine j w")
    case True
    then obtain xs v ys q' where q': "wview p i = xs @ Some v # ys" "mine j (Some v)" "\<forall>w\<in>set xs. \<not> mine j w"
      "jq_get_job_task c True False j (wp_queues p ! i) = Inr (waiting_plus (ys = []), Some v, q')" "dr_ok c q'" "dr_view q' = xs @ ys"
      using jq_get_job_task_ok [OF q(1) assms(2) disjI1 [OF TrueI], of j False] by auto
    have "queue_ok c q'" using q(2) q' by (simp add: queue_ok_def no_null_def)
    then have "\<forall>r\<in>set ((wp_queues p)[i := q']). queue_ok c r" using assms(1) set_update_subset_insert [of "wp_queues p" i q']
      by (auto simp: wp_ok_def)
    then have ok: "wp_ok c (p\<lparr>wp_queues := (wp_queues p)[i := q']\<rparr>)" using assms(1) by (simp add: wp_ok_def)
    have "i = last (i # is) \<longleftrightarrow> is = []" using Cons.prems(2) by (cases "is" rule: rev_cases) auto
    then have "wp_search c j (i # is) p = Inr (if ys \<noteq> [] then Some i else if i = last (i # is) then None
        else Some ((i + 1) mod length (wp_queues p)), Some v, p\<lparr>wp_queues := (wp_queues p)[i := q']\<rparr>)"
      using q'(4) by (cases "ys = []") (simp_all add: Let_def)
    moreover have "\<exists>x\<in>set (i # is). \<exists>w\<in>set (wview p x). mine j w" using True by simp
    ultimately show ?thesis using q'(1,2,3,6) ok i
      by (simp only: if_True) (intro exI [of _ i] exI conjI, (assumption | rule refl | simp)+)
  next
    case False
    then have same: "wp_search c j (i # is) p = wp_search c j is p"
      using jq_get_job_task_ok [OF q(1) assms(2) disjI1 [OF TrueI], of j False] by simp
    have last: "last (i # is) = last is" if "k \<in> set is" for k using that by (cases "is") auto
    have ex: "(\<exists>x\<in>set (i # is). \<exists>w\<in>set (wview p x). mine j w) \<longleftrightarrow> (\<exists>x\<in>set is. \<exists>w\<in>set (wview p x). mine j w)" using False by simp
    have "set is \<subseteq> {..<length (wp_queues p)}" "distinct is" using Cons.prems by simp_all
    note ih = Cons.IH [OF this]
    show ?thesis
    proof (cases "\<exists>x\<in>set is. \<exists>w\<in>set (wview p x). mine j w")
      case True
      then obtain k idx v xs ys p' where k: "k \<in> set is" "wview p k = xs @ Some v # ys" "mine j (Some v)" "\<forall>w\<in>set xs. \<not> mine j w"
        "wp_search c j is p = Inr (idx, Some v, p')" "wp_ok c p'" "length (wp_queues p') = length (wp_queues p)"
        "wview p' k = xs @ ys" "\<forall>x<length (wp_queues p). x \<noteq> k \<longrightarrow> wview p' x = wview p x"
        "idx = (if ys \<noteq> [] then Some k else if k = last is then None else Some ((k + 1) mod length (wp_queues p)))"
        using ih by (simp only: if_True) blast
      have "k \<in> set (i # is)" using k(1) by simp
      moreover have "wp_search c j (i # is) p = Inr (idx, Some v, p')" using same k(5) by simp
      moreover have "idx = (if ys \<noteq> [] then Some k else if k = last (i # is) then None else Some ((k + 1) mod length (wp_queues p)))"
        using k(10) last [OF k(1)] by simp
      ultimately show ?thesis using k(2-4,6-9) True unfolding ex by (simp only: if_True) blast
    next
      case no: False
      show ?thesis using ih same unfolding ex by (simp only: no if_False)
    qed
  qed
qed simp

lemma around_ok: "0 < n \<Longrightarrow> distinct (around n i) \<and> set (around n i) = {..<n}"
proof -
  assume n: "0 < n"
  have "inj_on (\<lambda>k. (i + k) mod n) {0..<n}" by (rule inj_onI) (simp add: add_mod_eq_iff)
  then have d: "distinct (around n i)" by (simp add: around_def distinct_map)
  have sub: "set (around n i) \<subseteq> {..<n}" using n by (auto simp: around_def)
  have "card (set (around n i)) = n" using distinct_card [OF d] by (simp add: around_def)
  then have "set (around n i) = {..<n}" by (intro card_subset_eq sub) simp_all
  then show ?thesis using d by simp
qed

text \<open>
  C18: a thread that waits for a job and looks for work takes a task that descends from the job, the first in its queue, if any
  queue has one, and changes nothing otherwise; it takes no other task.  The index to go on with is that of the queue while
  the queue has more after the task.
\<close>

theorem waiting_thread_finds_its_tasks:
  assumes "wp_ok c p" and "c \<le> 32"
  shows "if \<exists>x<length (wp_queues p). \<exists>w\<in>set (wview p x). mine j w
    then \<exists>k idx v xs ys p'. k < length (wp_queues p) \<and> wview p k = xs @ Some v # ys \<and> mine j (Some v) \<and> (\<forall>w\<in>set xs. \<not> mine j w) \<and>
      wp_do_job_work c j t p = Inr (idx, Some v, p') \<and> wp_ok c p' \<and> length (wp_queues p') = length (wp_queues p) \<and>
      wview p' k = xs @ ys \<and> (\<forall>x<length (wp_queues p). x \<noteq> k \<longrightarrow> wview p' x = wview p x) \<and>
      (ys \<noteq> [] \<longrightarrow> idx = Some k) \<and> (\<forall>l. idx = Some l \<longrightarrow> l < length (wp_queues p))
    else wp_do_job_work c j t p = Inr (None, None, p)"
proof -
  let ?n = "length (wp_queues p)"
  have n: "0 < ?n" using assms(1) by (simp add: wp_ok_def)
  define t' where "t' = (if t < ?n then t else 0)"
  note a = around_ok [OF n, of t']
  have w: "wp_do_job_work c j t p = wp_search c j (around ?n t') p" by (simp add: wp_do_job_work_def t'_def)
  have ex: "(\<exists>x<?n. \<exists>w\<in>set (wview p x). mine j w) \<longleftrightarrow> (\<exists>x\<in>set (around ?n t'). \<exists>w\<in>set (wview p x). mine j w)" using a by auto
  have "set (around ?n t') \<subseteq> {..<?n}" "distinct (around ?n t')" using a by simp_all
  note r = search_ok [OF assms this, of j, folded w ex]
  show ?thesis
  proof (cases "\<exists>x<?n. \<exists>w\<in>set (wview p x). mine j w")
    case True
    then obtain k idx v xs ys p' where k: "k \<in> set (around ?n t')" "wview p k = xs @ Some v # ys" "mine j (Some v)" "\<forall>w\<in>set xs. \<not> mine j w"
      "wp_do_job_work c j t p = Inr (idx, Some v, p')" "wp_ok c p'" "length (wp_queues p') = ?n"
      "wview p' k = xs @ ys" "\<forall>x<?n. x \<noteq> k \<longrightarrow> wview p' x = wview p x"
      "idx = (if ys \<noteq> [] then Some k else if k = last (around ?n t') then None else Some ((k + 1) mod ?n))"
      using r by (simp only: if_True) blast
    have "k < ?n" using k(1) a by auto
    moreover have "ys \<noteq> [] \<longrightarrow> idx = Some k" using k(10) by simp
    moreover have "\<forall>l. idx = Some l \<longrightarrow> l < ?n" using k(10) \<open>k < ?n\<close> n by (auto split: if_splits)
    ultimately show ?thesis using k(2-9) True by (simp only: if_True) (intro exI conjI, (assumption | rule refl)+)
  next
    case False
    show ?thesis using r by (simp only: False if_False)
  qed
qed

section \<open>The main thread's turn\<close>

lemma run_queue_ok:
  assumes "wp_ok c p" "i < length (wp_queues p)"
  shows "(wview p i = [] \<longrightarrow> jq_run c (wp_queues p ! i) = Inr (Empty, None, wp_queues p ! i)) \<and>
    (\<forall>w ws. wview p i = w # ws \<longrightarrow> (\<exists>j q. w = Some j \<and> jq_run c (wp_queues p ! i) = Inr (Waiting, Some j, q) \<and>
      wp_ok c (p\<lparr>wp_queues := (wp_queues p)[i := q]\<rparr>) \<and> dr_view q = ws))"
proof -
  have q: "queue_ok c (wp_queues p ! i)" using assms by (simp add: wp_ok_def)
  have ok: "wp_ok c (p\<lparr>wp_queues := (wp_queues p)[i := r]\<rparr>)" if "queue_ok c r" for r
    using assms(1) that set_update_subset_insert [of "wp_queues p" i r] by (auto simp: wp_ok_def)
  have "\<exists>j q. w = Some j \<and> jq_run c (wp_queues p ! i) = Inr (Waiting, Some j, q) \<and>
      wp_ok c (p\<lparr>wp_queues := (wp_queues p)[i := q]\<rparr>) \<and> dr_view q = ws" if v: "wview p i = w # ws" for w ws
  proof -
    obtain j where "w = Some j" using q v by (cases w) (auto simp: queue_ok_def no_null_def)
    then obtain q' where "jq_run c (wp_queues p ! i) = Inr (Waiting, Some j, q')" "dr_ok c q'" "dr_view q' = ws"
      using jq_run_ok [of c "wp_queues p ! i"] q v by (auto simp: queue_ok_def)
    then show ?thesis using ok [of q'] q v \<open>w = Some j\<close> by (auto simp: queue_ok_def no_null_def)
  qed
  then show ?thesis using jq_run_ok [of c "wp_queues p ! i"] q by (auto simp: queue_ok_def)
qed

text \<open>A companion runs the first task of the first queue around that has one; \<^verbatim>\<open>DoJobWork\<close> without a job looks at one queue only.\<close>

lemma process_ok:
  assumes "wp_ok c p"
  shows "set is \<subseteq> {..<length (wp_queues p)} \<Longrightarrow>
    (case filter (\<lambda>i. wview p i \<noteq> []) is of [] \<Rightarrow> wp_process c is p = Inr (Empty, None, p)
     | i # _ \<Rightarrow> \<exists>j q. hd (wview p i) = Some j \<and> wp_process c is p = Inr (Waiting, Some j, p\<lparr>wp_queues := (wp_queues p)[i := q]\<rparr>) \<and>
         wp_ok c (p\<lparr>wp_queues := (wp_queues p)[i := q]\<rparr>) \<and> dr_view q = tl (wview p i))"
proof (induction "is")
  case (Cons i "is")
  then have i: "i < length (wp_queues p)" "set is \<subseteq> {..<length (wp_queues p)}" by simp_all
  show ?case
  proof (cases "wview p i")
    case Nil
    then have eq: "wp_process c (i # is) p = wp_process c is p" using run_queue_ok [OF assms i(1)] by simp
    show ?thesis unfolding eq using Cons.IH [OF i(2)] Nil by simp
  next
    case (Cons w ws)
    then obtain j q where "w = Some j" "jq_run c (wp_queues p ! i) = Inr (Waiting, Some j, q)"
      "wp_ok c (p\<lparr>wp_queues := (wp_queues p)[i := q]\<rparr>)" "dr_view q = ws" using run_queue_ok [OF assms i(1)] by blast
    then show ?thesis using Cons by (simp, intro exI [of _ q]) simp
  qed
qed simp

lemma any_work_one_queue:
  assumes "wp_ok c p" "i = t mod length (wp_queues p)"
  shows "(wview p i = [] \<longrightarrow> wp_do_any_work c t p = Inr (Some (i + 1), None, p)) \<and>
    (\<forall>w ws. wview p i = w # ws \<longrightarrow> (\<exists>j q. w = Some j \<and> wp_do_any_work c t p = Inr (Some i, Some j, p\<lparr>wp_queues := (wp_queues p)[i := q]\<rparr>) \<and>
      wp_ok c (p\<lparr>wp_queues := (wp_queues p)[i := q]\<rparr>) \<and> dr_view q = ws))"
proof -
  have n: "0 < length (wp_queues p)" using assms(1) by (simp add: wp_ok_def)
  then have "around (length (wp_queues p)) t = i # map (\<lambda>k. (t + k) mod length (wp_queues p)) [1..<length (wp_queues p)]"
    using assms(2) by (simp add: around_def upt_conv_Cons)
  moreover have "i < length (wp_queues p)" using n assms(2) by simp
  ultimately show ?thesis using run_queue_ok [OF assms(1), of i] by (fastforce simp: wp_do_any_work_def)
qed

definition main_view :: "wpool \<Rightarrow> job_work list" where
  "main_view p = (if wp_workers p > 0 then dr_view (wp_main p) else [])"

lemma run_main_ok:
  assumes "wp_ok c p" "queue_ok c (wp_main p)" "wp_workers p > 0"
  shows "(main_view p = [] \<longrightarrow> wp_run_main c p = Inr (Empty, None, p)) \<and>
    (\<forall>w ws. main_view p = w # ws \<longrightarrow> (\<exists>j q. w = Some j \<and> wp_run_main c p = Inr (Waiting, Some j, p\<lparr>wp_main := q\<rparr>) \<and>
      queue_ok c q \<and> dr_view q = ws))"
proof -
  have "\<exists>j q. w = Some j \<and> wp_run_main c p = Inr (Waiting, Some j, p\<lparr>wp_main := q\<rparr>) \<and> queue_ok c q \<and> dr_view q = ws"
    if v: "main_view p = w # ws" for w ws
  proof -
    have v: "dr_view (wp_main p) = w # ws" using v assms(3) by (simp add: main_view_def)
    obtain j where "w = Some j" using assms(2) v by (cases w) (auto simp: queue_ok_def no_null_def)
    then obtain q' where "jq_run c (wp_main p) = Inr (Waiting, Some j, q')" "dr_ok c q'" "dr_view q' = ws"
      using jq_run_ok [of c "wp_main p"] assms(2) v by (auto simp: queue_ok_def)
    then show ?thesis using assms v \<open>w = Some j\<close> by (auto simp: queue_ok_def no_null_def wp_run_main_def)
  qed
  then show ?thesis using jq_run_ok [of c "wp_main p"] assms by (auto simp: queue_ok_def wp_run_main_def main_view_def)
qed

text \<open>
  \<^verbatim>\<open>WorkOnMainThreadNoBlock\<close>, when nothing is pushed or stolen meanwhile, returns having run exactly the tasks for the main
  thread and then those of queue 0, each in the order in which they were pushed, and leaves both queues empty.
\<close>

theorem main_thread_works_off:
  assumes "wp_ok c p" and "queue_ok c (wp_main p)"
  shows "\<exists>js p'. wp_main_no_block c (\<lambda>_ p. p) jobs p = Some (Inr (jobs @ js, p')) \<and> map Some js = main_view p @ wview p 0 \<and>
    main_view p' = [] \<and> wview p' 0 = [] \<and> (\<forall>x<length (wp_queues p). 0 < x \<longrightarrow> wview p' x = wview p x)"
  using assms
proof (induction "length (main_view p) + length (wview p 0)" arbitrary: p jobs rule: less_induct)
  case less
  let ?loop = "wp_main_no_block c (\<lambda>_ p. p)"
  have n: "0 < length (wp_queues p)" using less.prems(1) by (simp add: wp_ok_def)
  note r0 = run_queue_ok [OF less.prems(1) n]
  show ?case
  proof (cases "main_view p")
    case (Cons w ws)
    then have wk: "wp_workers p > 0" by (simp add: main_view_def split: if_splits)
    obtain j q where j: "w = Some j" "wp_run_main c p = Inr (Waiting, Some j, p\<lparr>wp_main := q\<rparr>)" "queue_ok c q" "dr_view q = ws"
      using run_main_ok [OF less.prems wk] Cons by blast
    let ?p = "p\<lparr>wp_main := q\<rparr>"
    have v: "main_view ?p = ws" "wview ?p 0 = wview p 0" "wp_ok c ?p" using j(4) wk less.prems(1) by (simp_all add: main_view_def wp_ok_def)
    have "?loop jobs p = ?loop (jobs @ [j]) ?p" using j(2) by (simp add: wp_main_no_block.simps [of c _ jobs p])
    moreover obtain js p' where "?loop (jobs @ [j]) ?p = Some (Inr ((jobs @ [j]) @ js, p'))" "map Some js = main_view ?p @ wview ?p 0"
      "main_view p' = []" "wview p' 0 = []" "\<forall>x<length (wp_queues ?p). 0 < x \<longrightarrow> wview p' x = wview ?p x"
      using less.hyps [of ?p "jobs @ [j]"] v j(3) Cons by auto
    ultimately show ?thesis using v j(1) Cons by (intro exI [of _ "j # js"] exI [of _ p']) simp
  next
    case Nil
    note main = this
    have rm: "wp_run_main c p = (if wp_workers p > 0 then Inr (Empty, None, p) else wp_run_first c p)"
      using run_main_ok [OF less.prems] main by (simp add: wp_run_main_def wp_run_first_def)
    show ?thesis
    proof (cases "wview p 0")
      case Nil
      then have "wp_run_first c p = Inr (Empty, None, p)" using r0 by (simp add: wp_run_first_def)
      then show ?thesis using rm main Nil by (simp add: wp_main_no_block.simps [of c _ jobs p])
    next
      case (Cons w ws)
      then obtain j q where j: "w = Some j" "jq_run c (wp_queues p ! 0) = Inr (Waiting, Some j, q)"
        "wp_ok c (p\<lparr>wp_queues := (wp_queues p)[0 := q]\<rparr>)" "dr_view q = ws" using r0 by blast
      let ?p = "p\<lparr>wp_queues := (wp_queues p)[0 := q]\<rparr>"
      have first: "wp_run_first c p = Inr (Waiting, Some j, ?p)" using j(2) by (simp add: wp_run_first_def)
      have v: "main_view ?p = []" "wview ?p 0 = ws" "queue_ok c (wp_main ?p)" using main j(4) n less.prems(2) by (simp_all add: main_view_def split: if_splits)
      have "?loop jobs p = ?loop (jobs @ [j]) ?p" using rm first by (simp add: wp_main_no_block.simps [of c _ jobs p])
      moreover obtain js p' where "?loop (jobs @ [j]) ?p = Some (Inr ((jobs @ [j]) @ js, p'))" "map Some js = main_view ?p @ wview ?p 0"
        "main_view p' = []" "wview p' 0 = []" "\<forall>x<length (wp_queues ?p). 0 < x \<longrightarrow> wview p' x = wview ?p x"
        using less.hyps [of ?p "jobs @ [j]"] v j(3) main Cons by auto
      ultimately show ?thesis using v j(1) main Cons by (intro exI [of _ "j # js"] exI [of _ p']) simp
    qed
  qed
qed

section \<open>A pool that starts\<close>

text \<open>
  The numbers of workers and queues the constructor chooses; one queue is the main thread's, and there is an
  assertion that there is one.
\<close>

definition max_queues :: nat where
  "max_queues = 128"

definition wp_new :: "nat \<Rightarrow> wpool res" where
  "wp_new hw = (let workers = word_of_nat (min hw (max_queues - 1)) - 1 :: 32 word; queues = unat (workers + 1) in
     assertR (queues > 0) (Inr \<lparr>wp_queues = replicate queues jq_new, wp_main = jq_new, wp_workers = unat workers, wp_jobless = None\<rparr>))"

lemma wp_new_eq: "0 < hw \<Longrightarrow> wp_new hw = Inr \<lparr>wp_queues = replicate (min hw (max_queues - 1)) jq_new, wp_main = jq_new,
    wp_workers = min hw (max_queues - 1) - 1, wp_jobless = None\<rparr>"
proof -
  assume hw: "0 < hw"
  define n where "n = min hw (max_queues - 1)"
  have n: "0 < n" "n \<le> 255" using hw by (simp_all add: n_def max_queues_def)
  have "unat (word_of_nat n - 1 + 1 :: 32 word) = n" using n by (simp add: unat_of_nat)
  moreover have "unat (word_of_nat n - 1 :: 32 word) = n - 1" using n by (simp add: unat_of_nat unat_sub word_le_nat_alt)
  ultimately show ?thesis using n(1) unfolding wp_new_def n_def [symmetric] Let_def by (simp only: assertR_def if_True)
qed

lemma wp_new_ok: "0 < hw \<Longrightarrow> \<exists>p. wp_new hw = Inr p \<and> wp_ok 8 p \<and> queue_ok 8 (wp_main p) \<and> length (wp_queues p) = min hw (max_queues - 1) \<and>
    (\<forall>x<length (wp_queues p). wview p x = [])"
  using new_job_queue by (simp add: wp_new_eq wp_ok_def queue_ok_def no_null_def max_queues_def)

lemma wp_new_without_hardware: "wp_new 0 = Inl AssertFail"
  by (simp add: wp_new_def max_queues_def)

text \<open>Used on a pool of three queues, the first the main thread's.\<close>

definition pool_of_three :: "wpool" where
  "pool_of_three = \<lparr>wp_queues = [jq_new, jq_new, jq_new], wp_main = jq_new, wp_workers = 2, wp_jobless = None\<rparr>"

lemma pool_of_three_new: "wp_new 3 = Inr pool_of_three"
  by (simp add: wp_new_eq max_queues_def pool_of_three_def numeral_3_eq_3)

lemma pool_of_three_ok: "wp_ok 8 pool_of_three" "length (wp_queues pool_of_three) = 3" "x < 3 \<Longrightarrow> wview pool_of_three x = []"
  using wp_new_ok [of 3] pool_of_three_new by (simp_all add: max_queues_def pool_of_three_def)

definition all_awake :: wp_env where
  "all_awake = \<lparr>we_asleep = (\<lambda>_. False), we_seen = (\<lambda>_. 0), we_needed = 0, we_active = 0\<rparr>"

lemma filled_pool:
  "\<exists>woken n p. wp_add_tasks 8 (Some 0) all_awake 1 5 (Job 0 None) pool_of_three = Inr (woken, n, p) \<and> wp_ok 8 p \<and>
    length (wp_queues p) = 3 \<and> wview p 0 = [] \<and> wview p 1 = replicate 3 (Some (Job 0 None)) \<and> wview p 2 = replicate 2 (Some (Job 0 None))"
proof -
  have start: "start_ok (length (wp_queues pool_of_three)) (Some 0) 1" by (simp add: start_ok_def pool_of_three_ok(2))
  obtain p1 where p1: "wp_add_tasks_loop 8 (Some 0) 4 1 (Some (Job 0 None)) pool_of_three = Inr p1" "wp_ok 8 p1" "length (wp_queues p1) = 3"
    "\<forall>x<3. wview p1 x = replicate (count_list (wp_targets 3 (Some 0) 4 1) x) (Some (Job 0 None))"
    using add_loop_ok [OF pool_of_three_ok(1) start, of 4 "Job 0 None"] unfolding pool_of_three_ok(2)
    by (metis append_Nil pool_of_three_ok(3))
  obtain woken n p where p: "wp_wake_up all_awake 5 1 p1 = Inr (woken, n, p)" "wp_ok 8 p" "wp_queues p = wp_queues p1"
    using wake_up_ok [OF p1(2), of 5 all_awake 1] by auto
  have "wp_targets 3 (Some 0) 4 1 = [1, 2, 1, 2, 1]" by code_simp
  then have "wview p 0 = []" "wview p 1 = replicate 3 (Some (Job 0 None))" "wview p 2 = replicate 2 (Some (Job 0 None))"
    using p1(4) unfolding p(3) by (simp_all add: numeral_2_eq_2 numeral_3_eq_3)
  moreover have "wp_add_tasks 8 (Some 0) all_awake 1 5 (Job 0 None) pool_of_three = Inr (woken, n, p)"
    using p1(1) p(1) by (simp add: wp_add_tasks_def)
  ultimately show ?thesis using p(2,3) p1(3) by metis
qed


theorem steal_empties_other_queues_witness:
  "\<exists>woken n p jobs p'. wp_add_tasks 8 (Some 0) all_awake 1 5 (Job 0 None) pool_of_three = Inr (woken, n, p) \<and>
    wp_steal 8 (\<lambda>_. False) [[(0, Some (Job 1 None))], [(2, Some (Job 2 None))]] 2 p = Some (Inr (jobs, p')) \<and>
    mset jobs = add_mset (Job 1 None) (replicate_mset 3 (Job 0 None)) \<and> wview p' 0 = [] \<and> wview p' 1 = [] \<and>
    wview p' 2 = replicate 2 (Some (Job 0 None)) @ [Some (Job 2 None)]"
proof -
  let ?script = "[[(0, Some (Job 1 None))], [(2, Some (Job 2 None))]] :: pushes list"
  obtain woken n p where p: "wp_add_tasks 8 (Some 0) all_awake 1 5 (Job 0 None) pool_of_three = Inr (woken, n, p)" "wp_ok 8 p"
    "length (wp_queues p) = 3" "wview p 0 = []" "wview p 1 = replicate 3 (Some (Job 0 None))" "wview p 2 = replicate 2 (Some (Job 0 None))"
    using filled_pool by blast
  have i: "2 < length (wp_queues p)" using p(3) by simp
  have "script_ok (length (wp_queues p)) ?script" by (simp add: script_ok_def p(3))
  from steal_empties_other_queues [OF p(2) i this, of "\<lambda>_. False"] obtain jobs p' ws where r:
    "wp_steal 8 (\<lambda>_. False) ?script 2 p = Some (Inr (jobs, p'))" "ws = concat (take (length jobs) ?script)"
    "wview p' 2 = wview p 2 @ pushed {2} ws"
    "mset (map Some jobs) + (\<Sum>x\<in>{..<3} - {2}. mset (wview p' x)) = (\<Sum>x\<in>{..<3} - {2}. mset (wview p x)) + mset (pushed ({..<3} - {2}) ws)"
    "\<forall>x<3. x \<noteq> 2 \<and> find (\<lambda>_. False) (others 3 2) \<noteq> Some x \<longrightarrow> wview p' x = []" unfolding p(3) by (elim exE conjE)
  have no: "find (\<lambda>_. False) xs = None" for xs :: "nat list" by (induction xs) auto
  have e: "wview p' 0 = []" "wview p' 1 = []" using r(5) no by simp_all
  have X: "{..<3 :: nat} - {2} = {0, 1}" by auto
  have m: "mset (map Some jobs) = replicate_mset 3 (Some (Job 0 None)) + mset (pushed {0, 1} ws)"
    using r(4) e p(4,5) unfolding X by simp
  have "length jobs = 3 + length (pushed {0, 1} ws)"
    using arg_cong [OF m, of size] by simp
  then have "take (length jobs) ?script = ?script" by simp
  then have ws: "ws = [(0, Some (Job 1 None)), (2, Some (Job 2 None))]" using r(2) by simp
  have "image_mset Some (mset jobs) = image_mset Some (add_mset (Job 1 None) (replicate_mset 3 (Job 0 None)))"
    using m unfolding ws by (simp add: eval_nat_numeral)
  then have "mset jobs = add_mset (Job 1 None) (replicate_mset 3 (Job 0 None))"
    by (rule multiset.inj_map_strong [rotated]) simp
  then show ?thesis using p(1,6) r(1,3) e ws by simp
qed

theorem waiting_thread_finds_its_tasks_witness:
  "\<exists>woken n p idx p'. wp_add_tasks 8 (Some 0) all_awake 1 5 (Job 0 None) pool_of_three = Inr (woken, n, p) \<and>
    wp_do_job_work 8 (Job 0 None) 0 p = Inr (idx, Some (Job 0 None), p') \<and> wp_do_job_work 8 (Job 1 None) 0 p = Inr (None, None, p)"
proof -
  obtain woken n p where p: "wp_add_tasks 8 (Some 0) all_awake 1 5 (Job 0 None) pool_of_three = Inr (woken, n, p)" "wp_ok 8 p"
    "length (wp_queues p) = 3" "wview p 0 = []" "wview p 1 = replicate 3 (Some (Job 0 None))" "wview p 2 = replicate 2 (Some (Job 0 None))"
    using filled_pool by blast
  have in_all: "w = Some (Job 0 None)" if "x < 3" "w \<in> set (wview p x)" for x w
  proof -
    have "x = 0 \<or> x = 1 \<or> x = 2" using that(1) by auto
    then show ?thesis using that(2) p(4-6) by auto
  qed
  have ex: "\<exists>x<length (wp_queues p). \<exists>w\<in>set (wview p x). mine (Job 0 None) w" using p(3,5) by (intro exI [of _ 1]) (simp add: mine_def)
  have le: "(8 :: nat) \<le> 32" by simp
  obtain k idx v xs ys p' where k: "k < length (wp_queues p)" "wview p k = xs @ Some v # ys" "wp_do_job_work 8 (Job 0 None) 0 p = Inr (idx, Some v, p')"
    using waiting_thread_finds_its_tasks [OF p(2) le, of "Job 0 None" 0] ex by (simp only: if_True) blast
  have "v = Job 0 None" using in_all [of k "Some v"] k(1,2) p(3) by simp
  moreover have other: "\<not> mine (Job 1 None) (Some (Job 0 None))" by (simp add: mine_def)
  have no: "\<not> (\<exists>x<length (wp_queues p). \<exists>w\<in>set (wview p x). mine (Job 1 None) w)"
    using in_all other unfolding p(3) by metis
  have "wp_do_job_work 8 (Job 1 None) 0 p = Inr (None, None, p)"
    using waiting_thread_finds_its_tasks [OF p(2) le, of "Job 1 None" 0] by (simp only: no if_False)
  ultimately show ?thesis using p(1) k(3) by blast
qed

end
