(* ===== verification/Texts.thy ===== *)
theory Texts
  imports Prelude
begin

text \<open>
  Text: \<^verbatim>\<open>string/StringUtil.h\<close>, \<^verbatim>\<open>StringView.h\<close>, \<^verbatim>\<open>StringWriter.h\<close>, \<^verbatim>\<open>StringViewWriter.h\<close>,
  \<^verbatim>\<open>StringFormatter.h\<close>, \<^verbatim>\<open>String.h\<close> (\<^verbatim>\<open>Tokenize\<close>) and \<^verbatim>\<open>core/OptionParser.cpp\<close>, as compiled for
  Linux.  That a formatter is not used again once its text was taken, which a flag of the checked build asserts, is left out.

  A buffer is the list of its characters, all of which can be read and written; nothing outside can.  Addresses are
  positions in it.  The C library's functions are written out: \<^verbatim>\<open>snprintf\<close> stores as much of a text
  as fits before a terminator and returns the length of the whole text.
\<close>

section \<open>Terminated strings\<close>

definition nul :: char where
  "nul = CHR 0x00"

text \<open>\<^verbatim>\<open>strlen\<close> and the text from a position on; reading past the buffer is a fault.\<close>

fun str_len :: "string \<Rightarrow> nat res" where
  "str_len [] = Inl BadAccess"
| "str_len (c # cs) = (if c = nul then Inr 0 else bindR (str_len cs) (\<lambda>n. Inr (n + 1)))"

definition str_text :: "string \<Rightarrow> string res" where
  "str_text m = bindR (str_len m) (\<lambda>n. Inr (take n m))"

text \<open>\<^verbatim>\<open>StringLen\<close> with a limit reads a character before it looks at the limit.\<close>

fun str_len_max :: "string \<Rightarrow> nat \<Rightarrow> nat res" where
  "str_len_max [] n = Inl BadAccess"
| "str_len_max (c # cs) n = (if c = nul \<or> n = 0 then Inr 0 else bindR (str_len_max cs (n - 1)) (\<lambda>k. Inr (k + 1)))"

text \<open>\<^verbatim>\<open>strncmp\<close>, for equality.\<close>

fun str_ncmp_eq :: "nat \<Rightarrow> string \<Rightarrow> string \<Rightarrow> bool res" where
  "str_ncmp_eq 0 a b = Inr True"
| "str_ncmp_eq (Suc n) (x # a) (y # b) = (if x \<noteq> y then Inr False else if x = nul then Inr True else str_ncmp_eq n a b)"
| "str_ncmp_eq (Suc n) a b = Inl BadAccess"

text \<open>\<open>v\<close> is the array of the view with what follows it in memory, \<open>n\<close> its length.\<close>

definition view_eq_cstr :: "nat \<Rightarrow> string \<Rightarrow> string \<Rightarrow> bool res" where
  "view_eq_cstr n v s = bindR (str_ncmp_eq n s v) (\<lambda>e. if e then (if n < length s then Inr (s ! n = nul) else Inl BadAccess) else Inr False)"

section \<open>StringWriter\<close>

record swriter =
  sw_buf :: string
  sw_pos :: nat

text \<open>The difference of the pointers is converted to an unsigned number.\<close>

definition sw_available :: "swriter \<Rightarrow> nat" where
  "sw_available w = (if sw_pos w \<le> length (sw_buf w) then length (sw_buf w) - sw_pos w else 2 ^ 64 - (sw_pos w - length (sw_buf w)))"

definition sw_skip :: "nat \<Rightarrow> swriter \<Rightarrow> swriter res" where
  "sw_skip n w = assertR (n \<le> sw_available w) (Inr (w\<lparr>sw_pos := sw_pos w + n\<rparr>))"

definition blit :: "nat \<Rightarrow> string \<Rightarrow> string \<Rightarrow> string res" where
  "blit p xs m = (if p + length xs \<le> length m then Inr (take p m @ xs @ drop (p + length xs) m) else Inl BadAccess)"

definition sw_blit :: "string \<Rightarrow> swriter \<Rightarrow> swriter res" where
  "sw_blit xs w = bindR (blit (sw_pos w) xs (sw_buf w)) (\<lambda>m. Inr (w\<lparr>sw_buf := m\<rparr>))"

definition sw_put :: "char \<Rightarrow> swriter \<Rightarrow> (nat \<times> swriter) res" where
  "sw_put c w = bindR (sw_blit [c] w) (\<lambda>w. bindR (sw_skip 1 w) (\<lambda>w. Inr (1, w)))"

definition sw_write_view :: "string \<Rightarrow> swriter \<Rightarrow> (nat \<times> swriter) res" where
  "sw_write_view s w = (if sw_available w = 0 then Inr (0, w)
     else let n = min (sw_available w - 1) (length s) in
       bindR (sw_blit (take n s) w) (\<lambda>w. bindR (sw_skip n w) (\<lambda>w. bindR (sw_put nul w) (\<lambda>(_, w). Inr (n, w)))))"

definition sw_printf :: "string \<Rightarrow> swriter \<Rightarrow> (nat \<times> swriter) res" where
  "sw_printf s w = (if sw_available w = 0 then Inr (length s, w)
     else bindR (sw_blit (take (sw_available w - 1) s @ [nul]) w) (\<lambda>w. Inr (length s, w)))"

definition ser_bool :: "bool \<Rightarrow> swriter \<Rightarrow> (nat \<times> swriter) res" where
  "ser_bool b w = sw_printf (if b then ''true'' else ''false'') w"

definition ser_char :: "char \<Rightarrow> swriter \<Rightarrow> (nat \<times> swriter) res" where
  "ser_char c w = bindR (sw_printf [c] w) (\<lambda>(u, w). bindR (sw_skip u w) (\<lambda>w. Inr (u, w)))"

text \<open>\<^verbatim>\<open>strcpy\<close> does not know the size of its destination, and returns its start, not its end.\<close>

definition string_copy :: "nat \<Rightarrow> string \<Rightarrow> swriter \<Rightarrow> (nat \<times> swriter) res" where
  "string_copy sz s w = bindR (sw_blit (s @ [nul]) w) (\<lambda>w. Inr (0, w))"

definition ser_cstr :: "string \<Rightarrow> swriter \<Rightarrow> (nat \<times> swriter) res" where
  "ser_cstr s w = bindR (string_copy (min (sw_available w) (length s + 1)) s w) (\<lambda>(u, w). bindR (sw_skip u w) (\<lambda>w. Inr (u, w)))"

section \<open>StringViewWriter\<close>

text \<open>Over a buffer given: a writer for the rest of it serves each value, the position moves by what the value says.\<close>

definition ev_write :: "(swriter \<Rightarrow> (nat \<times> swriter) res) \<Rightarrow> swriter \<Rightarrow> swriter res" where
  "ev_write ser v = bindR (ser v) (\<lambda>(n, w). Inr (v\<lparr>sw_buf := sw_buf w, sw_pos := sw_pos v + n\<rparr>))"

fun ev_write_views :: "string list \<Rightarrow> swriter \<Rightarrow> swriter res" where
  "ev_write_views [] v = Inr v"
| "ev_write_views (s # ss) v = bindR (ev_write (sw_write_view s) v) (ev_write_views ss)"

text \<open>Over a string, which is resized first; the position is a 64-bit number.\<close>

record strwriter =
  ss_string :: string
  ss_pos :: "64 word"

definition resize_string :: "nat \<Rightarrow> string \<Rightarrow> string" where
  "resize_string n s = take n s @ replicate (n - length s) nul"

definition ss_write_cstr :: "string \<Rightarrow> strwriter \<Rightarrow> strwriter res" where
  "ss_write_cstr s v = (let m = length s + 1; buf = resize_string (m + unat (ss_pos v)) (ss_string v) in
     bindR (ser_cstr s \<lparr>sw_buf = buf, sw_pos = unat (ss_pos v)\<rparr>) (\<lambda>(u, w).
       Inr \<lparr>ss_string = sw_buf w, ss_pos = ss_pos v + word_of_nat u - 1\<rparr>))"

section \<open>StackStringFormatter\<close>

text \<open>\<open>fl\<close> is the length of the format, \<open>s\<close> the formatted text, \<open>cap\<close> the largest capacity.\<close>

record formatter =
  sf_data :: string
  sf_used :: nat

definition sf_next_capacity :: "nat \<Rightarrow> nat \<Rightarrow> nat \<Rightarrow> nat" where
  "sf_next_capacity fl sz new = (if new = 0 then max sz fl * 2 + 1 else sz * 2 + 1)"

definition sf_print :: "string \<Rightarrow> string \<Rightarrow> string" where
  "sf_print s d = (if d = [] then [] else take (length d - 1) s @ [nul] @ drop (length s + 1) d)"

function sf_format :: "nat \<Rightarrow> nat \<Rightarrow> string \<Rightarrow> nat \<Rightarrow> string \<Rightarrow> formatter" where
  "sf_format cap fl s new d = (let d = sf_print s d; n = sf_next_capacity fl (length d) new in
     if int (length s) < int (length d) - 1 \<or> n > cap then \<lparr>sf_data = d, sf_used = length s\<rparr>
     else sf_format cap fl s n (replicate n nul))"
  by pat_completeness auto

lemma next_capacity_grows: "sz < sf_next_capacity fl sz new"
  by (auto simp: sf_next_capacity_def)

lemma length_sf_print [simp]: "length (sf_print s d) = length d"
  by (cases d) (auto simp: sf_print_def min_def)

termination sf_format
proof (relation "measure (\<lambda>(cap, fl, s, new, d). cap + 1 - length d)")
  fix cap fl :: nat and s :: string and new n :: nat and d d' :: string
  assume "d' = sf_print s d" "n = sf_next_capacity fl (length d') new" "\<not> (int (length s) < int (length d') - 1 \<or> cap < n)"
  then show "((cap, fl, s, n, replicate n nul), cap, fl, s, new, d) \<in> measure (\<lambda>(cap, fl, s, new, d). cap + 1 - length d)"
    using next_capacity_grows [of "length d" fl new] by simp linarith
qed simp

declare sf_format.simps [simp del]

section \<open>Tokenize\<close>

function tokenize :: "string \<Rightarrow> bool \<Rightarrow> string \<Rightarrow> nat \<Rightarrow> string list \<Rightarrow> string list" where
  "tokenize delims trim s lo tokens =
     (case find (\<lambda>p. s ! p \<in> set delims) [lo..<length s] of
        None \<Rightarrow> let pos = length s in if pos \<noteq> lo \<or> \<not> trim then tokens @ [take (pos - lo) (drop lo s)] else tokens
      | Some pos \<Rightarrow> tokenize delims trim s (pos + 1)
          (if pos \<noteq> lo \<or> \<not> trim then tokens @ [take (pos - lo) (drop lo s)] else tokens))"
  by pat_completeness auto

lemma find_in_range: "find P [a..<b] = Some p \<Longrightarrow> a \<le> p \<and> p < b \<and> P p \<and> (\<forall>q. a \<le> q \<and> q < p \<longrightarrow> \<not> P q)"
proof -
  assume "find P [a..<b] = Some p"
  then obtain i where i: "i < b - a" "P (a + i)" "p = a + i" "\<forall>j<i. \<not> P (a + j)"
    by (auto simp: find_Some_iff)
  have "\<not> P q" if "a \<le> q" "q < p" for q using i(3,4) that by (metis le_iff_add nat_add_left_cancel_less)
  then show ?thesis using i by auto
qed

termination tokenize
  by (relation "measure (\<lambda>(delims, trim, s, lo, tokens). length s + 1 - lo)") (auto dest: find_in_range)

declare tokenize.simps [simp del]

section \<open>Options\<close>

record parse_context =
  pc_id :: string
  pc_value :: string

definition sub_str :: "nat \<Rightarrow> nat \<Rightarrow> string \<Rightarrow> string" where
  "sub_str pos n s = (if pos < length s then take n (drop pos s) else [])"

text \<open>The options set, in order, are the second part of the state.\<close>

definition handle_argument :: "string \<Rightarrow> parse_context \<times> (string \<times> string) list \<Rightarrow> parse_context \<times> (string \<times> string) list" where
  "handle_argument arg = (\<lambda>(c, opts).
     if sub_str 0 2 arg = ''--'' then (c\<lparr>pc_id := arg\<rparr>, opts)
     else if length (pc_id c) > 2 then
       (let c = c\<lparr>pc_value := arg\<rparr> in
        if length (pc_value c) > 0 then
          (let c = c\<lparr>pc_id := sub_str 2 (length (pc_id c) - 2) (pc_id c)\<rparr> in
           (c\<lparr>pc_id := [], pc_value := []\<rparr>, opts @ [(pc_id c, pc_value c)]))
        else (c, opts))
     else (c, opts))"

definition parse_args :: "string list \<Rightarrow> (string \<times> string) list" where
  "parse_args args = snd (fold handle_argument args (\<lparr>pc_id = ''--name'', pc_value = []\<rparr>, []))"


section \<open>Lengths and comparison\<close>

lemma str_len_text: "nul \<notin> set s \<Longrightarrow> str_len (s @ nul # m) = Inr (length s)"
  by (induction s) auto

lemma str_len_max_text: "nul \<notin> set s \<Longrightarrow> length s \<le> n \<Longrightarrow> str_len_max (s @ nul # m) n = Inr (length s)"
  by (induction s arbitrary: n) auto

lemma str_len_max_cut: "nul \<notin> set s \<Longrightarrow> str_len_max (s @ c # m) (length s) = Inr (length s)"
  by (induction s) auto

text \<open>With a limit equal to the size of the memory, a string that fills it is read beyond its end.\<close>

lemma str_len_max_reads_past: "nul \<notin> set s \<Longrightarrow> str_len_max s (length s) = Inl BadAccess"
  by (induction s) auto

lemma str_ncmp_eq_text:
  "nul \<notin> set a \<Longrightarrow> nul \<notin> set (take n v) \<Longrightarrow> n \<le> length v \<Longrightarrow>
   str_ncmp_eq n (a @ nul # m) v = Inr (n \<le> length a \<and> take n a = take n v)"
proof (induction a arbitrary: n v)
  case Nil
  then show ?case by (cases n; cases v) auto
next
  case (Cons x a)
  then show ?case by (cases n; cases v) auto
qed

lemma view_eq_cstr_ok:
  assumes "nul \<notin> set a" "nul \<notin> set (take n v)" "n \<le> length v"
  shows "view_eq_cstr n v (a @ nul # m) = Inr (take n v = a)"
proof (cases "n \<le> length a \<and> take n a = take n v")
  case True
  then have "(a @ nul # m) ! n = nul \<longleftrightarrow> n = length a" using assms(1) by (auto simp: nth_append dest: nth_mem)
  moreover have "take n v = a \<longleftrightarrow> n = length a" using True assms(3) by (metis length_take min.absorb2 take_all_iff le_antisym nle_le)
  ultimately show ?thesis using True str_ncmp_eq_text [OF assms] by (simp add: view_eq_cstr_def)
next
  case False
  then have "take n v \<noteq> a" using assms(3) by auto
  then show ?thesis using False str_ncmp_eq_text [OF assms] by (auto simp: view_eq_cstr_def)
qed

section \<open>Writing into a buffer\<close>

lemma sw_blit_ok: "sw_pos w + length xs \<le> length (sw_buf w) \<Longrightarrow>
    sw_blit xs w = Inr (w\<lparr>sw_buf := take (sw_pos w) (sw_buf w) @ xs @ drop (sw_pos w + length xs) (sw_buf w)\<rparr>)"
  by (simp add: sw_blit_def blit_def)

lemma sw_write_view_ok:
  assumes "p < length m" "n = min (length m - p - 1) (length s)"
  shows "sw_write_view s \<lparr>sw_buf = m, sw_pos = p\<rparr> = Inr (n, \<lparr>sw_buf = take p m @ take n s @ nul # drop (p + n + 1) m, sw_pos = p + n + 1\<rparr>)"
proof -
  have n: "p + n < length m" "n \<le> length s" using assms by linarith+
  have e: "min (length m - Suc p) (length s) = n" using assms(2) by simp
  have "drop (p + n) m = (m ! (p + n)) # drop (Suc (p + n)) m" using n(1) by (simp add: Cons_nth_drop_Suc)
  then have m1: "take p m @ take n s @ drop (p + n) m = take p m @ take n s @ (m ! (p + n)) # drop (p + n + 1) m" by simp
  define M1 where "M1 = take p m @ take n s @ drop (p + n) m"
  define M2 where "M2 = take p m @ take n s @ nul # drop (p + n + 1) m"
  have "blit p (take n s) m = Inr M1" using n by (simp add: blit_def M1_def)
  moreover have "blit (p + n) [nul] M1 = Inr M2" using n unfolding M1_def M2_def m1 by (simp add: blit_def)
  moreover have "length M1 = length m" "length M2 = length m" using n by (simp_all add: M1_def M2_def)
  ultimately show ?thesis using n assms(1) unfolding M2_def [symmetric]
    by (simp add: sw_write_view_def sw_available_def e Let_def sw_blit_def sw_skip_def sw_put_def)
qed

text \<open>
  C33: a sequence of texts written with a \<^verbatim>\<open>StringViewWriter\<close> into a buffer with room leaves there, behind what it
  held, the concatenation of the texts, cut off where only the terminator still fits, and that terminator; the position is
  at the terminator, and nothing is written outside the buffer.
\<close>

theorem views_written_are_truncated_text:
  assumes "p < length m" and "t = take (length m - 1) (take p m @ concat ss)"
  shows "\<exists>m'. ev_write_views ss \<lparr>sw_buf = m, sw_pos = p\<rparr> = Inr \<lparr>sw_buf = m', sw_pos = length t\<rparr> \<and> length m' = length m \<and>
    take (length t) m' = t \<and> (ss \<noteq> [] \<longrightarrow> m' ! length t = nul)"
  using assms
proof (induction ss arbitrary: p m t)
  case Nil
  then show ?case by simp
next
  case (Cons s ss)
  define n where "n = min (length m - p - 1) (length s)"
  define M where "M = take p m @ take n s @ nul # drop (p + n + 1) m"
  have n: "p + n < length m" "n \<le> length s" using Cons.prems(1) unfolding n_def by linarith+
  have w: "ev_write (sw_write_view s) \<lparr>sw_buf = m, sw_pos = p\<rparr> = Inr \<lparr>sw_buf = M, sw_pos = p + n\<rparr>"
    using sw_write_view_ok [OF Cons.prems(1) n_def] by (simp add: ev_write_def M_def)
  have len: "length M = length m" using n by (simp add: M_def)
  have at: "take (p + n) M = take p m @ take n s" "M ! (p + n) = nul" using n by (simp_all add: M_def nth_append)
  have t: "t = take (length M - 1) (take (p + n) M @ concat ss)"
  proof (cases "n = length s")
    case True
    then show ?thesis using Cons.prems(2) at(1) len by simp
  next
    case False
    then have "p + n = length m - 1" using n unfolding n_def by linarith
    then show ?thesis using Cons.prems at(1) len n by simp
  qed
  have p: "p + n < length M" using n(1) len by simp
  from Cons.IH [OF p t] obtain m' where m': "ev_write_views ss \<lparr>sw_buf = M, sw_pos = p + n\<rparr> = Inr \<lparr>sw_buf = m', sw_pos = length t\<rparr>"
    "length m' = length m" "take (length t) m' = t" "ss \<noteq> [] \<longrightarrow> m' ! length t = nul" unfolding len by blast
  have "m' ! length t = nul"
  proof (cases "ss = []")
    case True
    then have "m' = M" "length t = p + n" using m'(1) by simp_all
    then show ?thesis using at(2) by simp
  qed (use m'(4) in simp)
  then show ?case using w m' by simp
qed

theorem views_written_are_truncated_text_witness:
  "\<exists>m. ev_write_views [''ab'', ''cd''] \<lparr>sw_buf = replicate 4 nul, sw_pos = 0\<rparr> = Inr \<lparr>sw_buf = m, sw_pos = 3\<rparr> \<and> take 3 m = ''abc'' \<and> m ! 3 = nul"
  using views_written_are_truncated_text [of 0 "replicate 4 nul" "''abc''" "[''ab'', ''cd'']"] by (auto simp: numeral_3_eq_3)

text \<open>
  A bool written where its text does not fit moves the position behind the end of the buffer; whatever view is written next
  is then stored outside it.
\<close>

theorem bool_write_runs_over:
  assumes "p < length m" and "b' = (if b then ''true'' else ''false'')" and "length m - p < length b'" and "length m < 2 ^ 63"
  shows "\<exists>v. ev_write (ser_bool b) \<lparr>sw_buf = m, sw_pos = p\<rparr> = Inr v \<and> length (sw_buf v) < sw_pos v \<and>
    ev_write (sw_write_view s) v = Inl BadAccess"
proof -
  let ?x = "take (length m - p - 1) b' @ [nul]"
  define M where "M = take p m @ ?x @ drop (p + length ?x) m"
  have b': "length b' \<le> 5" "b' = (if b then ''true'' else ''false'')" using assms(2) by simp_all
  have M: "length M = length m" using assms(1,3) by (simp add: M_def)
  have "blit p ?x m = Inr M" using assms(1,3) by (simp add: blit_def M_def)
  then have w: "ev_write (ser_bool b) \<lparr>sw_buf = m, sw_pos = p\<rparr> = Inr \<lparr>sw_buf = M, sw_pos = p + length b'\<rparr>"
    using assms(1) unfolding ser_bool_def b'(2) [symmetric] by (simp add: ev_write_def sw_printf_def sw_available_def sw_blit_def)
  define q where "q = p + length b'"
  have q: "length M < q" "q < length M + 2 ^ 64" using assms(1,3) b'(1) M unfolding q_def by simp_all
  then have "sw_available \<lparr>sw_buf = M, sw_pos = q\<rparr> \<noteq> 0" by (simp add: sw_available_def)
  then have "ev_write (sw_write_view s) \<lparr>sw_buf = M, sw_pos = q\<rparr> = Inl BadAccess"
    using q(1) by (simp add: ev_write_def sw_write_view_def Let_def sw_blit_def blit_def)
  then show ?thesis using w q(1) by (simp add: q_def)
qed

text \<open>A string written into an empty string through its writer: the text is stored, but the position becomes the largest number.\<close>

lemma string_writer_position_underflows:
  "ss_write_cstr s \<lparr>ss_string = [], ss_pos = 0\<rparr> = Inr \<lparr>ss_string = s @ [nul], ss_pos = - 1\<rparr>"
  by (simp add: ss_write_cstr_def resize_string_def ser_cstr_def string_copy_def sw_blit_def blit_def sw_skip_def Let_def)

section \<open>Formatting\<close>

definition holds_text :: "string \<Rightarrow> string \<Rightarrow> bool" where
  "holds_text s d \<longleftrightarrow> length s < length d \<and> take (length s) d = s \<and> d ! length s = nul"

lemma sf_print_holds: "length s < length d \<Longrightarrow> holds_text s (sf_print s d)"
  by (auto simp: holds_text_def sf_print_def nth_append)

text \<open>
  \<^verbatim>\<open>Format\<close> returns the length of the text and the formatter holds all of it with a terminator, whenever twice
  the larger of the text with its terminator and the format is below the largest capacity.
\<close>

theorem format_holds_text:
  assumes "2 * max (length s + 1) fl + 1 \<le> cap" and "d \<noteq> []"
  shows "holds_text s (sf_data (sf_format cap fl s new d)) \<and> sf_used (sf_format cap fl s new d) = length s"
  using assms
proof (induction cap fl s new d rule: sf_format.induct)
  case (1 cap fl s new d)
  define d' where "d' = sf_print s d"
  define n where "n = sf_next_capacity fl (length d') new"
  note step = sf_format.simps [of cap fl s new d, folded d'_def, unfolded Let_def, folded n_def]
  show ?case
  proof (cases "int (length s) < int (length d') - 1")
    case True
    then have "holds_text s d'" unfolding d'_def by (intro sf_print_holds) simp
    then show ?thesis using True by (simp add: step)
  next
    case False
    then have "length d' \<le> length s + 1" by linarith
    then have "n \<le> cap" using "1.prems"(1) unfolding n_def sf_next_capacity_def by (auto simp: max_def split: if_splits)
    moreover have "replicate n nul \<noteq> []" using next_capacity_grows [of "length d'" fl new] by (auto simp: n_def)
    ultimately show ?thesis using "1.IH" [OF d'_def n_def] False "1.prems"(1) by (simp add: step)
  qed
qed

text \<open>A longer text is cut off, but its whole length is reported: the view of it reaches behind the buffer.\<close>

lemma format_over_capacity:
  assumes "length d \<le> length s" "cap < 2 * max (length d) fl + 1"
  shows "length (sf_data (sf_format cap fl s 0 d)) \<le> sf_used (sf_format cap fl s 0 d)"
  using assms by (subst (1 2) sf_format.simps) (auto simp: Let_def sf_next_capacity_def)

section \<open>Splitting\<close>

fun split_at :: "char set \<Rightarrow> string \<Rightarrow> string list" where
  "split_at D [] = [[]]"
| "split_at D (c # cs) = (if c \<in> D then [] # split_at D cs else (case split_at D cs of t # ts \<Rightarrow> (c # t) # ts))"

lemma split_at_nonempty [simp]: "split_at D s \<noteq> []"
  by (induction s) (auto split: list.splits)

lemma split_at_none: "set s \<inter> D = {} \<Longrightarrow> split_at D s = [s]"
  by (induction s) auto

lemma split_at_first: "set xs \<inter> D = {} \<Longrightarrow> d \<in> D \<Longrightarrow> split_at D (xs @ d # ys) = xs # split_at D ys"
  by (induction xs) auto

lemma tokenize_from:
  "lo \<le> length s \<Longrightarrow> tokenize delims trim s lo tokens = tokens @ filter (\<lambda>t. t \<noteq> [] \<or> \<not> trim) (split_at (set delims) (drop lo s))"
proof (induction delims trim s lo tokens rule: tokenize.induct)
  case (1 delims trim s lo tokens)
  note step = tokenize.simps [of delims trim s lo tokens]
  show ?case
  proof (cases "find (\<lambda>p. s ! p \<in> set delims) [lo..<length s]")
    case None
    then have "set (drop lo s) \<inter> set delims = {}" by (auto simp: find_None_iff in_set_conv_nth)
    then show ?thesis using "1.prems" None by (auto simp: step split_at_none)
  next
    case (Some pos)
    then have pos: "lo \<le> pos" "pos < length s" "s ! pos \<in> set delims" "\<forall>q. lo \<le> q \<and> q < pos \<longrightarrow> s ! q \<notin> set delims"
      using find_in_range by blast+
    define t where "t = take (pos - lo) (drop lo s)"
    have "drop (pos - lo) (drop lo s) = s ! pos # drop (pos + 1) s" using pos(1,2) by (simp add: Cons_nth_drop_Suc)
    then have d: "drop lo s = t @ s ! pos # drop (pos + 1) s" unfolding t_def by (metis append_take_drop_id)
    have "t ! i = s ! (lo + i) \<and> lo + i < pos" if "i < length t" for i using that "1.prems" by (auto simp: t_def)
    then have "set t \<inter> set delims = {}" using pos(4) by (auto simp: in_set_conv_nth)
    then have split: "split_at (set delims) (drop lo s) = t # split_at (set delims) (drop (pos + 1) s)"
      unfolding d using pos(3) by (rule split_at_first)
    have empty: "pos \<noteq> lo \<longleftrightarrow> t \<noteq> []" using pos(1,2) by (auto simp: t_def)
    show ?thesis using "1.IH" [OF Some] pos(2) Some by (auto simp: step split empty t_def [symmetric])
  qed
qed

text \<open>
  C35: \<^verbatim>\<open>Tokenize\<close> returns and yields the parts of the string between its delimiters, in order, without the empty ones
  if asked to trim.
\<close>

theorem tokenize_splits:
  "tokenize delims trim s 0 [] =
    (if trim then filter (\<lambda>t. t \<noteq> []) (split_at (set delims) s) else split_at (set delims) s)"
  using tokenize_from [of 0 s delims trim "[]"] by (cases trim) simp_all

section \<open>Arguments\<close>

definition is_value :: "string \<Rightarrow> bool" where
  "is_value v \<longleftrightarrow> v \<noteq> [] \<and> take 2 v \<noteq> ''--''"

lemma handle_option_value:
  assumes "k \<noteq> []" "is_value v"
  shows "handle_argument v (handle_argument (''--'' @ k) (c, opts)) = (\<lparr>pc_id = [], pc_value = []\<rparr>, opts @ [(k, v)])"
proof -
  have "sub_str 0 2 v \<noteq> ''--''" using assms(2) by (auto simp: is_value_def sub_str_def)
  then show ?thesis using assms by (cases c) (simp add: handle_argument_def sub_str_def is_value_def Let_def)
qed

text \<open>
  For a command line of a program's name and pairs of an option and a value, \<^verbatim>\<open>ParseArgs\<close> sets the name and then each
  option, in order, to its value; values that are neither options nor follow one are ignored.
\<close>

theorem parse_args_sets_options:
  assumes "is_value prog" and "\<forall>(k, v, rest)\<in>set os. k \<noteq> [] \<and> is_value v \<and> (\<forall>x\<in>set rest. take 2 x \<noteq> ''--'')"
  shows "parse_args (prog # concat (map (\<lambda>(k, v, rest). (''--'' @ k) # v # rest) os)) = (''name'', prog) # map (\<lambda>(k, v, rest). (k, v)) os"
proof -
  have rest: "fold handle_argument xs (\<lparr>pc_id = [], pc_value = []\<rparr>, opts) = (\<lparr>pc_id = [], pc_value = []\<rparr>, opts)"
    if "\<forall>x\<in>set xs. take 2 x \<noteq> ''--''" for xs opts
    using that by (induction xs) (auto simp: handle_argument_def sub_str_def)
  have "fold handle_argument (concat (map (\<lambda>(k, v, rest). (''--'' @ k) # v # rest) os)) (\<lparr>pc_id = [], pc_value = []\<rparr>, opts) =
      (\<lparr>pc_id = [], pc_value = []\<rparr>, opts @ map (\<lambda>(k, v, rest). (k, v)) os)" for opts
    using assms(2)
  proof (induction os arbitrary: opts)
    case (Cons a os)
    obtain k v r where a: "a = (k, v, r)" by (cases a)
    then have "k \<noteq> []" "is_value v" "\<forall>x\<in>set r. take 2 x \<noteq> ''--''" using Cons.prems by auto
    then show ?case using Cons a by (simp del: append_Cons add: handle_option_value rest)
  qed simp
  moreover have "handle_argument prog (\<lparr>pc_id = ''--name'', pc_value = []\<rparr>, []) = (\<lparr>pc_id = [], pc_value = []\<rparr>, [(''name'', prog)])"
    using assms(1) by (auto simp: handle_argument_def sub_str_def is_value_def Let_def)
  ultimately show ?thesis by (simp add: parse_args_def)
qed

end
