(* ===== verification/HexTexts.thy ===== *)
theory HexTexts
  imports Texts
begin

text \<open>
  Hexadecimal text: \<^verbatim>\<open>string/Hex.cpp\<close>, over the writers of theory Texts.  A reader is the characters from its
  position on.
\<close>

section \<open>Writing\<close>

definition upper_digits :: string where
  "upper_digits = ''0123456789ABCDEF''"

definition lower_digits :: string where
  "lower_digits = ''0123456789abcdef''"

text \<open>What \<^verbatim>\<open>snprintf\<close> makes of a number below \<open>16 ^ k\<close> with \<open>k\<close> digits asked for.\<close>

fun hex_text :: "string \<Rightarrow> nat \<Rightarrow> nat \<Rightarrow> string" where
  "hex_text ds 0 n = []"
| "hex_text ds (Suc k) n = hex_text ds k (n div 16) @ [ds ! (n mod 16)]"

definition ser_hex :: "string \<Rightarrow> nat \<Rightarrow> nat \<Rightarrow> swriter \<Rightarrow> (nat \<times> swriter) res" where
  "ser_hex ds k n w = bindR (sw_printf (hex_text ds k n) w) (\<lambda>(len, w').
     assertR (len \<le> sw_available w') (bindR (sw_skip k w') (\<lambda>w'. Inr (k, w'))))"

definition ser_hex8 :: "8 word \<Rightarrow> swriter \<Rightarrow> (nat \<times> swriter) res" where
  "ser_hex8 v = ser_hex upper_digits 2 (unat v)"

definition ser_hex32 :: "32 word \<Rightarrow> swriter \<Rightarrow> (nat \<times> swriter) res" where
  "ser_hex32 v = ser_hex upper_digits 8 (unat v)"

definition ser_hex64 :: "64 word \<Rightarrow> swriter \<Rightarrow> (nat \<times> swriter) res" where
  "ser_hex64 v = ser_hex lower_digits 16 (unat v)"

text \<open>The view is written byte by byte through writers of their own; \<open>pos\<close> is \<^verbatim>\<open>bufferPos\<close>.\<close>

fun ser_hex_bytes :: "8 word list \<Rightarrow> nat \<Rightarrow> swriter \<Rightarrow> (nat \<times> swriter) res" where
  "ser_hex_bytes [] pos w = bindR (sw_skip pos w) (\<lambda>w. Inr (pos, w))"
| "ser_hex_bytes (v # vs) pos w = bindR (ser_hex8 v \<lparr>sw_buf = sw_buf w, sw_pos = sw_pos w + pos\<rparr>) (\<lambda>(n, w').
     ser_hex_bytes vs (pos + n) (w\<lparr>sw_buf := sw_buf w'\<rparr>))"

definition ser_hex_array :: "8 word list \<Rightarrow> swriter \<Rightarrow> (nat \<times> swriter) res" where
  "ser_hex_array vs w = ser_hex_bytes vs 0 w"

section \<open>Reading\<close>

definition hex2dec :: "nat \<Rightarrow> 8 word" where
  "hex2dec c = (if c \<le> 57 then word_of_nat c - 48
     else if c = 65 then 10 else if c = 66 then 11 else if c = 67 then 12
     else if c = 68 then 13 else if c = 69 then 14 else if c = 70 then 15 else 0)"

text \<open>A character is signed: a negative one becomes an index out of the range of the table, which it asserts.\<close>

definition hex_to_dec :: "char \<Rightarrow> 8 word res" where
  "hex_to_dec c = assertR ((of_char c :: nat) < 128) (Inr (hex2dec (of_char c)))"

definition char_at :: "nat \<Rightarrow> string \<Rightarrow> char res" where
  "char_at i m = (if i < length m then Inr (m ! i) else Inl BadAccess)"

definition deser_hex8 :: "string \<Rightarrow> 8 word res" where
  "deser_hex8 m = bindR (bindR (char_at 0 m) hex_to_dec) (\<lambda>a. bindR (bindR (char_at 1 m) hex_to_dec) (\<lambda>b. Inr (16 * a + b)))"

fun deser_hex32_loop :: "nat \<Rightarrow> nat \<Rightarrow> string \<Rightarrow> 32 word \<Rightarrow> 32 word res" where
  "deser_hex32_loop 0 i m d = Inr d"
| "deser_hex32_loop (Suc k) i m d = bindR (bindR (char_at i m) hex_to_dec) (\<lambda>x.
     let v = 16 ^ (7 - i) * unat x in assertR (v < 2 ^ 32) (deser_hex32_loop k (i + 1) m (d + word_of_nat v)))"

definition deser_hex32 :: "string \<Rightarrow> 32 word res" where
  "deser_hex32 m = deser_hex32_loop 8 0 m 0"

text \<open>
  \<open>i\<close> is the position of \<^verbatim>\<open>src\<close>, \<open>k\<close> the number of bytes still to be filled.  The test for the end of the
  text looks at the first character of the reader each time.
\<close>

fun deser_hex_bytes :: "nat \<Rightarrow> nat \<Rightarrow> string \<Rightarrow> 8 word list res" where
  "deser_hex_bytes 0 i m = Inr []"
| "deser_hex_bytes (Suc k) i m = bindR (char_at 0 m) (\<lambda>c. if c = nul then Inr [] else
     bindR (char_at i m) (\<lambda>a. bindR (char_at (i + 1) m) (\<lambda>b. if b = nul then Inr [] else
       bindR (deser_hex8 [a, b]) (\<lambda>v. bindR (deser_hex_bytes k (i + 2) m) (\<lambda>vs. Inr (v # vs))))))"

definition deser_hex_array :: "nat \<Rightarrow> string \<Rightarrow> 8 word list res" where
  "deser_hex_array n m = deser_hex_bytes n 0 m"

section \<open>Digits\<close>

lemma length_hex_text [simp]: "length (hex_text ds k n) = k"
  by (induction k arbitrary: n) simp_all

lemma digit_cases: "d < 16 \<Longrightarrow> P 0 \<Longrightarrow> P 1 \<Longrightarrow> P 2 \<Longrightarrow> P 3 \<Longrightarrow> P 4 \<Longrightarrow> P 5 \<Longrightarrow> P 6 \<Longrightarrow> P 7 \<Longrightarrow> P 8 \<Longrightarrow> P 9 \<Longrightarrow>
    P 10 \<Longrightarrow> P 11 \<Longrightarrow> P 12 \<Longrightarrow> P 13 \<Longrightarrow> P 14 \<Longrightarrow> P 15 \<Longrightarrow> P (d :: nat)"
proof -
  assume d: "d < 16" and P: "P 0" "P 1" "P 2" "P 3" "P 4" "P 5" "P 6" "P 7" "P 8" "P 9" "P 10" "P 11" "P 12" "P 13" "P 14" "P 15"
  have "d = 0 \<or> d = 1 \<or> d = 2 \<or> d = 3 \<or> d = 4 \<or> d = 5 \<or> d = 6 \<or> d = 7 \<or> d = 8 \<or> d = 9 \<or> d = 10 \<or> d = 11 \<or>
    d = 12 \<or> d = 13 \<or> d = 14 \<or> d = 15" using d by presburger
  then show "P d" using P by auto
qed

lemma hex_digit: "d < 16 \<Longrightarrow> hex_to_dec (upper_digits ! d) = Inr (word_of_nat d) \<and> upper_digits ! d \<noteq> nul"
  by (erule digit_cases) (simp_all add: upper_digits_def hex_to_dec_def hex2dec_def nul_def)

lemma hex_text_2: "hex_text ds 2 n = [ds ! (n div 16 mod 16), ds ! (n mod 16)]"
  by (simp add: numeral_2_eq_2)

lemma deser_hex8_text: "deser_hex8 (hex_text upper_digits 2 (unat v) @ m) = Inr v"
proof -
  have "unat v div 16 < 16" using unsigned_less [of v, where ?'a = nat] by simp
  then have "16 * (unat v div 16 mod 16) + unat v mod 16 = unat v" by simp
  moreover have "word_of_nat (unat v) = v" by simp
  ultimately have "(word_of_nat (16 * (unat v div 16 mod 16) + unat v mod 16) :: 8 word) = v" by (simp only:)
  then have "16 * (word_of_nat (unat v div 16 mod 16) :: 8 word) + word_of_nat (unat v mod 16) = v" by (simp only: of_nat_add of_nat_mult of_nat_numeral)
  then show ?thesis by (simp add: deser_hex8_def hex_text_2 char_at_def hex_digit)
qed

section \<open>Round trip\<close>

definition hex_of :: "8 word list \<Rightarrow> string" where
  "hex_of vs = concat (map (\<lambda>v. hex_text upper_digits 2 (unat v)) vs)"

lemma length_hex_of [simp]: "length (hex_of vs) = 2 * length vs"
  by (induction vs) (simp_all add: hex_of_def)

lemma hex_of_Cons: "hex_of (v # vs) = hex_text upper_digits 2 (unat v) @ hex_of vs"
  by (simp add: hex_of_def)

lemma ser_hex8_ok:
  assumes "p + 2 \<le> length m"
  shows "ser_hex8 v \<lparr>sw_buf = m, sw_pos = p\<rparr> = Inr (2, \<lparr>sw_buf = take p m @ take (length m - p - 1) (hex_text upper_digits 2 (unat v)) @
      nul # drop (p + min (length m - p) 3) m, sw_pos = p + 2\<rparr>)"
proof -
  let ?h = "hex_text upper_digits 2 (unat v)"
  define M where "M = take p m @ take (length m - p - 1) ?h @ nul # drop (p + min (length m - p) 3) m"
  have len: "length (take (length m - p - 1) ?h @ [nul]) = min (length m - p) 3" using assms by simp
  have "p + min (length m - p) 3 \<le> length m" using assms by simp
  then have b: "blit p (take (length m - p - 1) ?h @ [nul]) m = Inr M" unfolding blit_def len by (simp add: M_def)
  have "length M = length m" using assms by (simp add: M_def)
  then show ?thesis using assms b unfolding M_def [symmetric]
    by (simp add: ser_hex8_def ser_hex_def sw_printf_def sw_available_def sw_blit_def sw_skip_def)
qed

lemma ser_hex_bytes_ok:
  "q = p + pos \<Longrightarrow> q + 2 * length vs \<le> length m \<Longrightarrow> vs \<noteq> [] \<Longrightarrow>
    ser_hex_bytes vs pos \<lparr>sw_buf = m, sw_pos = p\<rparr> = Inr (pos + 2 * length vs,
      \<lparr>sw_buf = take q m @ take (length m - q - 1) (hex_of vs) @ nul # drop (q + min (length m - q) (2 * length vs + 1)) m,
       sw_pos = p + pos + 2 * length vs\<rparr>)"
proof (induction vs arbitrary: q pos m)
  case (Cons v vs)
  let ?h = "hex_text upper_digits 2 (unat v)"
  define M where "M = take q m @ take (length m - q - 1) ?h @ nul # drop (q + min (length m - q) 3) m"
  have q: "q + 2 \<le> length m" using Cons.prems(2) by simp
  have M: "length M = length m" using q by (simp add: M_def)
  have step: "ser_hex_bytes (v # vs) pos \<lparr>sw_buf = m, sw_pos = p\<rparr> = ser_hex_bytes vs (pos + 2) \<lparr>sw_buf = M, sw_pos = p\<rparr>"
    using ser_hex8_ok [OF q] Cons.prems(1) by (simp add: M_def)
  show ?case
  proof (cases "vs = []")
    case True
    then show ?thesis using step Cons.prems q M
      by (simp add: sw_skip_def sw_available_def hex_of_def M_def [symmetric]) (simp add: M_def)
  next
    case False
    then have "0 < length vs" by simp
    then have four: "q + 4 \<le> length m" using Cons.prems(2) by (cases vs) simp_all
    have M': "M = take q m @ ?h @ nul # drop (q + 3) m" using four by (simp add: M_def)
    have "q + 2 = p + (pos + 2)" "q + 2 + 2 * length vs \<le> length M" using Cons.prems(1,2) M by simp_all
    note ih = Cons.IH [OF this False]
    have a: "take (q + 2) M = take q m @ ?h" using four by (simp add: M')
    have d: "drop k M = drop k m" if "q + 3 \<le> k" for k
    proof -
      define l where "l = k - (q + 3)"
      have k: "k = q + 3 + l" using that by (simp add: l_def)
      show ?thesis using four unfolding k M' by (simp add: add.commute)
    qed
    have k: "q + 2 + min (length M - (q + 2)) (2 * length vs + 1) = q + min (length m - q) (2 * length (v # vs) + 1)" using M four by simp
    have "q + 3 \<le> q + min (length m - q) (2 * length (v # vs) + 1)" using four \<open>0 < length vs\<close> by simp
    from d [OF this] have d: "drop (q + 2 + min (length M - (q + 2)) (2 * length vs + 1)) M = drop (q + min (length m - q) (2 * length (v # vs) + 1)) m"
      unfolding k .
    have t: "take (length m - q - 1) (hex_of (v # vs)) = ?h @ take (length M - (q + 2) - 1) (hex_of vs)"
      using four M by (simp add: hex_of_Cons)
    show ?thesis unfolding step ih d a t by simp
  qed
qed simp

lemma deser_hex_bytes_text:
  "(xs @ hex_of vs @ rest) ! 0 \<noteq> nul \<Longrightarrow> xs @ hex_of vs @ rest \<noteq> [] \<Longrightarrow>
   deser_hex_bytes (length vs + k) (length xs) (xs @ hex_of vs @ rest) =
     bindR (deser_hex_bytes k (length xs + 2 * length vs) (xs @ hex_of vs @ rest)) (\<lambda>ws. Inr (vs @ ws))"
proof (induction vs arbitrary: xs)
  case Nil
  then show ?case by (cases "deser_hex_bytes k (length xs) (xs @ rest)") (simp_all add: hex_of_def)
next
  case (Cons v vs)
  let ?h = "hex_text upper_digits 2 (unat v)" and ?m = "xs @ hex_of (v # vs) @ rest"
  have m: "?m = (xs @ ?h) @ hex_of vs @ rest" by (simp add: hex_of_Cons)
  obtain a b where h: "?h = [a, b]" "b \<noteq> nul" using hex_digit by (simp add: hex_text_2)
  have "deser_hex8 [a, b] = Inr v" using deser_hex8_text [of v "[]"] h by simp
  then have "deser_hex_bytes (length (v # vs) + k) (length xs) ?m =
      bindR (deser_hex_bytes (length vs + k) (length (xs @ ?h)) ?m) (\<lambda>ws. Inr (v # ws))"
    using Cons.prems h by (simp add: hex_of_Cons char_at_def nth_append)
  also have "\<dots> = bindR (bindR (deser_hex_bytes k (length (xs @ ?h) + 2 * length vs) ?m) (\<lambda>ws. Inr (vs @ ws))) (\<lambda>ws. Inr (v # ws))"
    using Cons.IH [of "xs @ ?h"] Cons.prems unfolding m by simp
  finally show ?case by (simp add: bindR_assoc)
qed

text \<open>
  C34: the bytes of a view written in hexadecimal where at least one more character is free can be read back: \<^verbatim>\<open>Serialize\<close> returns twice their number,
  changes nothing before its position, and \<^verbatim>\<open>Deserialize\<close> of what it wrote gives the bytes.
\<close>

theorem hex_array_roundtrip:
  assumes "p + 2 * length vs < length m" and "vs \<noteq> []"
  shows "\<exists>w. ser_hex_array vs \<lparr>sw_buf = m, sw_pos = p\<rparr> = Inr (2 * length vs, w) \<and> sw_pos w = p + 2 * length vs \<and>
    take p (sw_buf w) = take p m \<and> deser_hex_array (length vs) (drop p (sw_buf w)) = Inr vs"
proof -
  have le: "p + 2 * length vs \<le> length m" using assms(1) by simp
  define rest where "rest = nul # drop (p + min (length m - p) (2 * length vs + 1)) m"
  have t: "take (length m - p - 1) (hex_of vs) = hex_of vs" using assms(1) by simp
  have "ser_hex_array vs \<lparr>sw_buf = m, sw_pos = p\<rparr> = Inr (2 * length vs, \<lparr>sw_buf = take p m @ hex_of vs @ rest, sw_pos = p + 2 * length vs\<rparr>)"
    using ser_hex_bytes_ok [of p p 0 vs m] le assms(2) t by (simp add: ser_hex_array_def rest_def)
  moreover have "deser_hex_array (length vs) (hex_of vs @ rest) = Inr vs"
  proof -
    have "(hex_of vs @ rest) ! 0 \<noteq> nul" using assms(2) hex_digit by (cases vs) (simp_all add: hex_of_Cons hex_text_2)
    then show ?thesis using deser_hex_bytes_text [of "[]" vs rest 0] by (simp add: deser_hex_array_def rest_def)
  qed
  ultimately show ?thesis using assms(1) by simp
qed

text \<open>
  With room for the digits only, which the assertion takes for enough, the terminator of the last byte replaces its second
  digit: \<^verbatim>\<open>Serialize\<close> succeeds all the same and reading back loses the last byte.
\<close>

theorem hex_array_loses_last_byte:
  assumes "p + 2 * length vs = length m" and "vs \<noteq> []"
  shows "\<exists>w. ser_hex_array vs \<lparr>sw_buf = m, sw_pos = p\<rparr> = Inr (2 * length vs, w) \<and>
    deser_hex_array (length vs) (drop p (sw_buf w)) = Inr (butlast vs)"
proof -
  obtain ws v where vs: "vs = ws @ [v]" using assms(2) by (cases vs rule: rev_cases) auto
  obtain a b where h: "hex_text upper_digits 2 (unat v) = [a, b]" "a \<noteq> nul" using hex_digit by (simp add: hex_text_2)
  have hex: "hex_of vs = hex_of ws @ [a, b]" using h by (simp add: vs hex_of_def)
  have t: "take (length m - p - 1) (hex_of vs) = hex_of ws @ [a]" unfolding hex by (simp add: vs flip: assms(1))
  have "ser_hex_array vs \<lparr>sw_buf = m, sw_pos = p\<rparr> = Inr (2 * length vs, \<lparr>sw_buf = take p m @ hex_of ws @ [a, nul], sw_pos = p + 2 * length vs\<rparr>)"
    using ser_hex_bytes_ok [of p p 0 vs m] assms t by (simp add: ser_hex_array_def)
  moreover have "(hex_of ws @ [a, nul]) ! 0 \<noteq> nul" using h(2) hex_digit by (cases ws) (simp_all add: hex_of_Cons hex_text_2 hex_of_def)
  then have "deser_hex_array (length vs) (hex_of ws @ [a, nul]) = Inr ws"
    using deser_hex_bytes_text [of "[]" ws "[a, nul]" 1] by (simp add: deser_hex_array_def vs char_at_def nth_append)
  ultimately show ?thesis using assms(1) by (simp add: vs)
qed

text \<open>
  Reading into more bytes than the text has reads behind its terminator: the test for the end looks at the first character, not the next.
\<close>

lemma hex_read_past_terminator:
  assumes "vs \<noteq> []" "length vs < n"
  shows "deser_hex_array n (hex_of vs @ [nul]) = Inl BadAccess"
proof -
  obtain k where n: "n = length vs + Suc k" using assms(2) less_imp_Suc_add by auto
  have "(hex_of vs @ [nul]) ! 0 \<noteq> nul" using assms(1) hex_digit by (cases vs) (simp_all add: hex_of_Cons hex_text_2)
  then show ?thesis using deser_hex_bytes_text [of "[]" vs "[nul]" "Suc k"] unfolding n
    by (simp add: deser_hex_array_def char_at_def)
qed

theorem hex_array_roundtrip_witness:
  "\<exists>w. ser_hex_array [0xAB, 0x0F] \<lparr>sw_buf = replicate 6 nul, sw_pos = 1\<rparr> = Inr (4, w) \<and>
    deser_hex_array 2 (drop 1 (sw_buf w)) = Inr [0xAB, 0x0F]"
  using hex_array_roundtrip [of 1 "[0xAB, 0x0F]" "replicate 6 nul"] by (auto simp: numeral_2_eq_2)

section \<open>A number of eight digits\<close>

lemma hex_text_front: "hex_text ds (Suc k) n = ds ! (n div 16 ^ k mod 16) # hex_text ds k n"
proof (induction k arbitrary: n)
  case (Suc k)
  have "hex_text ds (Suc (Suc k)) n = hex_text ds (Suc k) (n div 16) @ [ds ! (n mod 16)]" by simp
  also have "\<dots> = ds ! (n div 16 div 16 ^ k mod 16) # hex_text ds k (n div 16) @ [ds ! (n mod 16)]" using Suc.IH by simp
  finally show ?case by (simp add: div_mult2_eq)
qed simp

lemma deser_hex32_loop_text:
  "k \<le> 8 \<Longrightarrow> length pre = 8 - k \<Longrightarrow>
   deser_hex32_loop k (8 - k) (pre @ hex_text upper_digits k n @ r) d = Inr (d + word_of_nat (n mod 16 ^ k))"
proof (induction k arbitrary: pre d)
  case (Suc k)
  let ?x = "n div 16 ^ k mod 16"
  define v where "v = 16 ^ k * ?x"
  have x: "?x < 16" by simp
  have e: "7 - (8 - Suc k) = k" "8 - Suc k + 1 = 8 - k" using Suc.prems(1) by auto
  have "v \<le> 16 ^ k * 15" using x unfolding v_def by (intro mult_le_mono2) linarith
  moreover have "(16 :: nat) ^ k \<le> 16 ^ 7" using Suc.prems(1) by (intro power_increasing) auto
  ultimately have v: "v < 2 ^ 32" by simp
  let ?m = "pre @ hex_text upper_digits (Suc k) n @ r"
  have m: "?m = (pre @ [upper_digits ! ?x]) @ hex_text upper_digits k n @ r" by (simp add: hex_text_front del: hex_text.simps)
  have at: "char_at (8 - Suc k) ?m = Inr (upper_digits ! ?x)" using Suc.prems(2) by (simp add: char_at_def hex_text_front nth_append del: hex_text.simps)
  have u: "16 ^ (7 - (8 - Suc k)) * unat (word_of_nat ?x :: 8 word) = v" unfolding e v_def by (simp add: unat_of_nat)
  have "deser_hex32_loop (Suc k) (8 - Suc k) ?m d = deser_hex32_loop k (8 - k) ?m (d + word_of_nat v)"
    by (simp only: deser_hex32_loop.simps(2) at bindR_simps conjunct1 [OF hex_digit [OF x]] Let_def u assertR_True [OF v] e(2))
  also have "\<dots> = Inr (d + word_of_nat v + word_of_nat (n mod 16 ^ k))"
    unfolding m by (rule Suc.IH) (use Suc.prems in auto)
  also have "v + n mod 16 ^ k = n mod 16 ^ Suc k" using mod_mult2_eq [of n "16 ^ k" 16] by (simp add: v_def mult.commute)
  then have "word_of_nat v + word_of_nat (n mod 16 ^ k) = (word_of_nat (n mod 16 ^ Suc k) :: 32 word)" by (simp only: of_nat_add [symmetric])
  ultimately show ?case by (simp only: add.assoc)
qed simp

lemma hex32_roundtrip: "deser_hex32 (hex_text upper_digits 8 (unat v) @ r) = Inr v"
proof -
  have "unat v < 16 ^ 8" using unsigned_less [of v, where ?'a = nat] by simp
  then show ?thesis using deser_hex32_loop_text [of 8 "[]" "unat v" r 0] by (simp add: deser_hex32_def)
qed

end
